(* ===== verification/Flight_Prelude.thy ===== *)
theory Flight_Prelude
  imports Main "HOL-Library.Word" "HOL-Library.Monad_Syntax"
begin

text \<open>
  Shared material of the FlightOS development: the machine types of the 32 bit SPARC targets
  (LEON3/LEON4), the error numbers of \<^verbatim>\<open>include/errno-base.h\<close>, the collections of
  rewrite rules the components extend, and generic lemmas on lists, options and words.
\<close>

unbundle bit_operations_syntax

section \<open>Machine types\<close>

text \<open>
  The supported targets are ILP32: \<^verbatim>\<open>int\<close>, \<^verbatim>\<open>long\<close>, \<^verbatim>\<open>size_t\<close> and pointers have
  32 bits, \<^verbatim>\<open>long long\<close> and \<^verbatim>\<open>ktime\<close> have 64.
\<close>

type_synonym u8 = "8 word"
type_synonym u16 = "16 word"
type_synonym u32 = "32 word"
type_synonym u64 = "64 word"

section \<open>Error numbers (\<^verbatim>\<open>include/errno-base.h\<close>)\<close>

text \<open>
  The kernel returns negative error numbers in an \<^verbatim>\<open>int\<close>; they are kept as integers.
\<close>

abbreviation (input) EPERM :: int where "EPERM \<equiv> 1"
abbreviation (input) ENOENT :: int where "ENOENT \<equiv> 2"
abbreviation (input) ENOEXEC :: int where "ENOEXEC \<equiv> 8"
abbreviation (input) ENOMEM :: int where "ENOMEM \<equiv> 12"
abbreviation (input) EFAULT :: int where "EFAULT \<equiv> 14"
abbreviation (input) EBUSY :: int where "EBUSY \<equiv> 16"
abbreviation (input) ENODEV :: int where "ENODEV \<equiv> 19"
abbreviation (input) EINVAL :: int where "EINVAL \<equiv> 22"
abbreviation (input) ENOSCHED :: int where "ENOSCHED \<equiv> 134"

section \<open>Rule collections\<close>

named_theorems list_op_simps \<open>characteristic equations of the list operations\<close>
named_theorems frame_simps \<open>fields an operation leaves alone\<close>

section \<open>Lists\<close>

lemma remove1_middle [simp]: "x \<notin> set xs \<Longrightarrow> remove1 x (xs @ x # ys) = xs @ ys"
  by (simp add: remove1_append)

lemma in_set_split:
  assumes "x \<in> set xs"
  obtains us vs where "xs = us @ x # vs" and "x \<notin> set us"
  using assms by (meson split_list_first)

lemma map_remove1_inj: "inj f \<Longrightarrow> map f (remove1 x xs) = remove1 (f x) (map f xs)"
  by (induction xs) (auto simp: inj_eq)

section \<open>Words\<close>

lemma unat_2p: "k < 32 \<Longrightarrow> unat (2 ^ k :: u32) = 2 ^ k"
proof -
  assume "k < 32"
  then have "(2::nat) ^ k < 2 ^ 32" by (intro power_strict_increasing) auto
  then have "unat (of_nat (2 ^ k) :: u32) = 2 ^ k"
    by (subst unat_of_nat) simp
  then show ?thesis by simp
qed

lemma unat_plus_one: "x < y \<Longrightarrow> unat (x + 1) = Suc (unat x)" for x y :: u32
  by unat_arith

lemma unat_less_256: "unat (x :: u8) < 256"
  using unsigned_less [of x] by simp

lemma unat_less_2p32: "unat (x :: u32) < 4294967296"
  using unsigned_less [of x] by simp

end
