(* ===== verification/Linked_List.thy ===== *)
theory Linked_List
  imports Flight_Prelude
begin

text \<open>
  The intrusive doubly linked lists of \<^verbatim>\<open>include/list.h\<close>, at pointer level.  A heap holds
  the two link fields of every \<^verbatim>\<open>struct list_head\<close>; a \<^verbatim>\<open>NULL\<close> pointer is
  \<^term>\<open>None\<close>, and following or writing through it makes the operation return
  \<^term>\<open>None\<close>.  The representation predicate \<open>dlist\<close> relates a list head to the
  Isabelle list of its nodes; every operation is shown to refine the corresponding operation
  on Isabelle lists and to leave other lists alone.  The interface the clients of the lists rely
  on is the locale \<open>intrusive_lists\<close> over families of disjoint lists, interpreted on the
  pointer operations at the end.
\<close>

section \<open>Heap and operations\<close>

record 'n lheap =
  nxt :: "'n \<Rightarrow> 'n option"
  prv :: "'n \<Rightarrow> 'n option"

definition set_next :: "'n option \<Rightarrow> 'n option \<Rightarrow> 'n lheap \<Rightarrow> 'n lheap option" where
  "set_next p v h = (case p of None \<Rightarrow> None | Some a \<Rightarrow> Some (h\<lparr>nxt := (nxt h)(a := v)\<rparr>))"

definition set_prev :: "'n option \<Rightarrow> 'n option \<Rightarrow> 'n lheap \<Rightarrow> 'n lheap option" where
  "set_prev p v h = (case p of None \<Rightarrow> None | Some a \<Rightarrow> Some (h\<lparr>prv := (prv h)(a := v)\<rparr>))"

definition init_list_head :: "'n \<Rightarrow> 'n lheap \<Rightarrow> 'n lheap" where
  "init_list_head l h = h\<lparr>nxt := (nxt h)(l := Some l), prv := (prv h)(l := Some l)\<rparr>"

definition raw_list_add :: "'n \<Rightarrow> 'n option \<Rightarrow> 'n option \<Rightarrow> 'n lheap \<Rightarrow> 'n lheap option" where
  "raw_list_add new prev next h =
     do { h \<leftarrow> set_prev next (Some new) h;
          h \<leftarrow> set_next (Some new) next h;
          h \<leftarrow> set_prev (Some new) prev h;
          set_next prev (Some new) h }"

definition list_add :: "'n \<Rightarrow> 'n \<Rightarrow> 'n lheap \<Rightarrow> 'n lheap option" where
  "list_add new head h = raw_list_add new (Some head) (nxt h head) h"

definition list_add_tail :: "'n \<Rightarrow> 'n \<Rightarrow> 'n lheap \<Rightarrow> 'n lheap option" where
  "list_add_tail new head h = raw_list_add new (prv h head) (Some head) h"

definition raw_list_del :: "'n option \<Rightarrow> 'n option \<Rightarrow> 'n lheap \<Rightarrow> 'n lheap option" where
  "raw_list_del prev next h = do { h \<leftarrow> set_prev next prev h; set_next prev next h }"

definition list_del :: "'n \<Rightarrow> 'n lheap \<Rightarrow> 'n lheap option" where
  "list_del entry h =
     do { h \<leftarrow> raw_list_del (prv h entry) (nxt h entry) h;
          h \<leftarrow> set_next (Some entry) None h;
          set_prev (Some entry) None h }"

definition raw_list_del_entry :: "'n \<Rightarrow> 'n lheap \<Rightarrow> 'n lheap option" where
  "raw_list_del_entry entry h = raw_list_del (prv h entry) (nxt h entry) h"

definition list_del_init :: "'n \<Rightarrow> 'n lheap \<Rightarrow> 'n lheap option" where
  "list_del_init entry h =
     do { h \<leftarrow> raw_list_del_entry entry h; Some (init_list_head entry h) }"

definition list_move :: "'n \<Rightarrow> 'n \<Rightarrow> 'n lheap \<Rightarrow> 'n lheap option" where
  "list_move lst head h = do { h \<leftarrow> raw_list_del_entry lst h; list_add lst head h }"

definition list_move_tail :: "'n \<Rightarrow> 'n \<Rightarrow> 'n lheap \<Rightarrow> 'n lheap option" where
  "list_move_tail lst head h =
     do { h \<leftarrow> raw_list_del (prv h lst) (nxt h lst) h; list_add_tail lst head h }"

definition list_replace :: "'n \<Rightarrow> 'n \<Rightarrow> 'n lheap \<Rightarrow> 'n lheap option" where
  "list_replace old new h =
     do { h \<leftarrow> set_next (Some new) (nxt h old) h;
          h \<leftarrow> set_prev (nxt h new) (Some new) h;
          h \<leftarrow> set_prev (Some new) (prv h old) h;
          set_next (prv h new) (Some new) h }"

definition list_swap :: "'n \<Rightarrow> 'n \<Rightarrow> 'n lheap \<Rightarrow> 'n lheap option" where
  "list_swap entry1 entry2 h =
     do { let pos = prv h entry2;
          h \<leftarrow> list_del entry2 h;
          h \<leftarrow> list_replace entry1 entry2 h;
          let pos = (if pos = Some entry1 then Some entry2 else pos);
          p \<leftarrow> pos;
          list_add entry1 p h }"

definition list_empty :: "'n \<Rightarrow> 'n lheap \<Rightarrow> bool" where
  "list_empty head h \<longleftrightarrow> nxt h head = Some head"

definition list_filled :: "'n \<Rightarrow> 'n lheap \<Rightarrow> bool" where
  "list_filled head h \<longleftrightarrow> nxt h head \<noteq> Some head"

definition list_rotate_left :: "'n \<Rightarrow> 'n lheap \<Rightarrow> 'n lheap option" where
  "list_rotate_left head h =
     (if list_empty head h then Some h
      else do { first \<leftarrow> nxt h head; list_move_tail first head h })"

text \<open>
  \<^verbatim>\<open>list_for_each\<close>: the nodes met by following \<^verbatim>\<open>next\<close> from the head until the head is
  met again.  The fuel bounds the walk; a walk over a proper list of \<open>n\<close> nodes needs
  \<open>n + 1\<close> units (\<open>list_for_each_nodes\<close> below).
\<close>

fun list_for_each_from :: "nat \<Rightarrow> 'n lheap \<Rightarrow> 'n \<Rightarrow> 'n option \<Rightarrow> 'n list option" where
  "list_for_each_from 0 h head pos = None"
| "list_for_each_from (Suc fuel) h head pos =
     (case pos of
        None \<Rightarrow> None
      | Some p \<Rightarrow>
          if p = head then Some []
          else map_option ((#) p) (list_for_each_from fuel h head (nxt h p)))"

definition list_for_each :: "nat \<Rightarrow> 'n lheap \<Rightarrow> 'n \<Rightarrow> 'n list option" where
  "list_for_each fuel h head = list_for_each_from fuel h head (nxt h head)"

lemmas list_basic_defs =
  set_next_def set_prev_def raw_list_add_def list_add_def list_add_tail_def raw_list_del_def
  list_del_def raw_list_del_entry_def list_del_init_def init_list_head_def list_move_def
  list_move_tail_def

section \<open>Segments and lists\<close>

fun lseg :: "'n lheap \<Rightarrow> 'n \<Rightarrow> 'n list \<Rightarrow> 'n \<Rightarrow> bool" where
  "lseg h a [] b \<longleftrightarrow> nxt h a = Some b \<and> prv h b = Some a"
| "lseg h a (x # xs) b \<longleftrightarrow> nxt h a = Some x \<and> prv h x = Some a \<and> lseg h x xs b"

definition dlist :: "'n lheap \<Rightarrow> 'n \<Rightarrow> 'n list \<Rightarrow> bool" where
  "dlist h head xs \<longleftrightarrow> lseg h head xs head \<and> distinct (head # xs)"

lemma lseg_append [simp]:
  "lseg h a (xs @ y # ys) b \<longleftrightarrow> lseg h a xs y \<and> lseg h y ys b"
  by (induction xs arbitrary: a) auto

lemma lseg_first: "lseg h a xs b \<Longrightarrow> nxt h a = Some (if xs = [] then b else hd xs)"
  by (cases xs) auto

lemma lseg_last: "lseg h a xs b \<Longrightarrow> prv h b = Some (if xs = [] then a else last xs)"
  by (induction xs arbitrary: a) auto

lemma lseg_cong:
  assumes "\<And>p. p \<in> insert a (set xs) \<Longrightarrow> nxt h' p = nxt h p"
    and "\<And>p. p \<in> insert b (set xs) \<Longrightarrow> prv h' p = prv h p"
  shows "lseg h' a xs b = lseg h a xs b"
  using assms by (induction xs arbitrary: a) auto


definition same_outside :: "'n set \<Rightarrow> 'n lheap \<Rightarrow> 'n lheap \<Rightarrow> bool" where
  "same_outside S h h' \<longleftrightarrow> (\<forall>p. p \<notin> S \<longrightarrow> nxt h' p = nxt h p \<and> prv h' p = prv h p)"

lemma same_outside_refl [simp]: "same_outside S h h"
  by (simp add: same_outside_def)

lemma same_outside_trans:
  "same_outside S h h' \<Longrightarrow> same_outside S h' h'' \<Longrightarrow> same_outside S h h''"
  by (simp add: same_outside_def)

lemma same_outside_mono: "same_outside S h h' \<Longrightarrow> S \<subseteq> T \<Longrightarrow> same_outside T h h'"
  by (auto simp: same_outside_def)

lemma dlist_frame:
  "dlist h head xs \<Longrightarrow> same_outside S h h' \<Longrightarrow> S \<inter> insert head (set xs) = {} \<Longrightarrow> dlist h' head xs"
  unfolding dlist_def same_outside_def by (subst lseg_cong [of head xs h' h head]) auto

lemma raw_list_add_Some:
  "raw_list_add new (Some p) (Some q) h =
     Some (h\<lparr>nxt := (nxt h)(new := Some q, p := Some new),
            prv := (prv h)(q := Some new, new := Some p)\<rparr>)"
  by (simp add: raw_list_add_def set_next_def set_prev_def)

lemma raw_list_del_Some:
  "raw_list_del (Some p) (Some q) h =
     Some (h\<lparr>nxt := (nxt h)(p := Some q), prv := (prv h)(q := Some p)\<rparr>)"
  by (simp add: raw_list_del_def set_next_def set_prev_def)

lemma list_add_dlist:
  assumes "dlist h head xs" and "new \<notin> insert head (set xs)"
  shows "\<exists>h'. list_add new head h = Some h' \<and> dlist h' head (new # xs)
            \<and> same_outside (insert new (insert head (set xs))) h h'"
proof (cases xs)
  case Nil
  with assms show ?thesis
    by (auto simp: dlist_def list_add_def raw_list_add_Some same_outside_def)
next
  case (Cons y ys)
  let ?h = "h\<lparr>nxt := (nxt h)(new := Some y, head := Some new),
              prv := (prv h)(y := Some new, new := Some head)\<rparr>"
  from assms Cons have "lseg ?h y ys head = lseg h y ys head"
    by (intro lseg_cong) (auto simp: dlist_def)
  with assms Cons show ?thesis
    by (auto simp: dlist_def list_add_def raw_list_add_Some same_outside_def)
qed

lemma list_add_tail_dlist:
  assumes "dlist h head xs" and "new \<notin> insert head (set xs)"
  shows "\<exists>h'. list_add_tail new head h = Some h' \<and> dlist h' head (xs @ [new])
            \<and> same_outside (insert new (insert head (set xs))) h h'"
proof (cases xs rule: rev_cases)
  case Nil
  with assms show ?thesis
    by (auto simp: dlist_def list_add_tail_def raw_list_add_Some same_outside_def)
next
  case (snoc ys y)
  let ?h = "h\<lparr>nxt := (nxt h)(new := Some head, y := Some new),
              prv := (prv h)(head := Some new, new := Some y)\<rparr>"
  from assms snoc have "lseg ?h head ys y = lseg h head ys y"
    by (intro lseg_cong) (auto simp: dlist_def)
  with assms snoc show ?thesis
    by (auto simp: dlist_def list_add_tail_def raw_list_add_Some same_outside_def)
qed

text \<open>Unlinking a node: the two neighbours are joined, whatever the node's own links hold.\<close>

definition unlinked :: "'n \<Rightarrow> 'n option \<Rightarrow> 'n option \<Rightarrow> 'n lheap \<Rightarrow> 'n lheap" where
  "unlinked x n p h = h\<lparr>nxt := (nxt h)(x := n), prv := (prv h)(x := p)\<rparr>"

lemma unlinked_same: "unlinked x (nxt h x) (prv h x) h = h"
  by (simp add: unlinked_def)

lemma raw_list_del_entry_dlist:
  assumes "dlist h head (us @ x # vs)"
  shows "\<exists>h'. raw_list_del_entry x h = Some h' \<and> dlist (unlinked x n p h') head (us @ vs)
            \<and> nxt h' x = nxt h x \<and> prv h' x = prv h x
            \<and> same_outside (insert head (set (us @ x # vs))) h h'"
proof -
  let ?p = "if us = [] then head else last us"
  let ?q = "if vs = [] then head else hd vs"
  let ?h = "h\<lparr>nxt := (nxt h)(?p := Some ?q), prv := (prv h)(?q := Some ?p)\<rparr>"
  from assms have seg: "lseg h head us x" "lseg h x vs head" and dist: "distinct (head # us @ x # vs)"
    by (auto simp: dlist_def)
  from seg have ret: "raw_list_del_entry x h = Some ?h"
    by (simp add: raw_list_del_entry_def raw_list_del_Some lseg_first lseg_last)
  from dist have mem: "?p \<in> insert head (set us)" "?q \<in> insert head (set vs)"
    by auto
  have "lseg (unlinked x n p ?h) head (us @ vs) head"
  proof (cases us rule: rev_cases)
    case Nil
    show ?thesis
    proof (cases vs)
      case (Cons v vs')
      with Nil seg dist have "lseg (unlinked x n p ?h) v vs' head = lseg h v vs' head"
        by (intro lseg_cong) (auto simp: unlinked_def)
      with Nil Cons seg dist show ?thesis by (auto simp: unlinked_def)
    qed (use Nil dist in \<open>auto simp: unlinked_def\<close>)
  next
    case (snoc us' u)
    have left: "lseg (unlinked x n p ?h) head us' u = lseg h head us' u"
      using dist mem(2) snoc by (intro lseg_cong) (auto simp: unlinked_def)
    show ?thesis
    proof (cases vs)
      case (Cons v vs')
      with snoc seg dist have "lseg (unlinked x n p ?h) v vs' head = lseg h v vs' head"
        by (intro lseg_cong) (auto simp: unlinked_def)
      with snoc Cons seg dist left show ?thesis by (auto simp: unlinked_def)
    qed (use snoc dist left seg in \<open>auto simp: unlinked_def\<close>)
  qed
  moreover have "nxt ?h x = nxt h x" "prv ?h x = prv h x"
    using dist mem by auto
  ultimately show ?thesis
    using ret dist mem by (auto simp: dlist_def same_outside_def)
qed


lemma list_del_dlist:
  assumes "dlist h head (us @ x # vs)"
  shows "\<exists>h'. list_del x h = Some h' \<and> dlist h' head (us @ vs)
            \<and> nxt h' x = None \<and> prv h' x = None
            \<and> same_outside (insert head (set (us @ x # vs))) h h'"
proof -
  from raw_list_del_entry_dlist [OF assms, of None None]
  obtain h1 where h1: "raw_list_del_entry x h = Some h1" "dlist (unlinked x None None h1) head (us @ vs)"
    "same_outside (insert head (set (us @ x # vs))) h h1"
    by blast
  have "list_del x h = Some (unlinked x None None h1)"
    using h1(1) by (simp add: list_del_def raw_list_del_entry_def set_next_def set_prev_def unlinked_def)
  with h1(2,3) show ?thesis
    by (auto simp: unlinked_def same_outside_def)
qed

lemma list_del_init_dlist:
  assumes "dlist h head (us @ x # vs)"
  shows "\<exists>h'. list_del_init x h = Some h' \<and> dlist h' head (us @ vs)
            \<and> nxt h' x = Some x \<and> prv h' x = Some x
            \<and> same_outside (insert head (set (us @ x # vs))) h h'"
proof -
  from raw_list_del_entry_dlist [OF assms, of "Some x" "Some x"]
  obtain h1 where h1: "raw_list_del_entry x h = Some h1"
    "dlist (unlinked x (Some x) (Some x) h1) head (us @ vs)"
    "same_outside (insert head (set (us @ x # vs))) h h1"
    by blast
  have "list_del_init x h = Some (unlinked x (Some x) (Some x) h1)"
    using h1(1) by (simp add: list_del_init_def init_list_head_def unlinked_def)
  with h1(2,3) show ?thesis
    by (auto simp: unlinked_def same_outside_def)
qed

text \<open>An entry that is its own neighbour (\<^verbatim>\<open>INIT_LIST_HEAD\<close>) is deleted without effect on others.\<close>

lemma list_del_self:
  assumes "nxt h x = Some x" and "prv h x = Some x"
  shows "\<exists>h'. list_del x h = Some h' \<and> nxt h' x = None \<and> prv h' x = None \<and> same_outside {x} h h'"
  using assms
  by (simp add: list_del_def raw_list_del_Some set_next_def set_prev_def same_outside_def)

lemma init_list_head_dlist: "dlist (init_list_head l h) l []"
  by (simp add: dlist_def init_list_head_def)

lemma init_list_head_same: "same_outside {l} h (init_list_head l h)"
  by (simp add: same_outside_def init_list_head_def)

lemma dlist_empty_iff: "dlist h head xs \<Longrightarrow> list_empty head h \<longleftrightarrow> xs = []"
  by (cases xs) (auto simp: dlist_def list_empty_def)

lemma dlist_filled_iff: "dlist h head xs \<Longrightarrow> list_filled head h \<longleftrightarrow> xs \<noteq> []"
  by (cases xs) (auto simp: dlist_def list_filled_def)

lemma dlist_first: "dlist h head xs \<Longrightarrow> nxt h head = Some (if xs = [] then head else hd xs)"
  by (simp add: dlist_def lseg_first)

lemma dlist_linked:
  assumes "dlist h head xs" and "x \<in> set xs"
  shows "\<exists>n p. nxt h x = Some n \<and> n \<noteq> x \<and> prv h x = Some p"
proof -
  from assms(2) obtain us vs where xs: "xs = us @ x # vs" by (meson split_list)
  with assms(1) have "lseg h head us x" "lseg h x vs head" "x \<noteq> head" "x \<notin> set vs"
    by (auto simp: dlist_def)
  then show ?thesis
    by (auto simp: lseg_first lseg_last)
qed

text \<open>The transfer of an entry within one list or to another list.\<close>

lemma raw_list_del_entry_kept:
  assumes "dlist h head (us @ x # vs)"
  shows "\<exists>h'. raw_list_del_entry x h = Some h' \<and> dlist h' head (us @ vs)
            \<and> same_outside (insert head (set (us @ x # vs))) h h'"
  using raw_list_del_entry_dlist [OF assms, of "nxt h x" "prv h x"] by (metis unlinked_same)

lemma list_move_dlist:
  assumes "dlist h head (us @ x # vs)"
  shows "\<exists>h'. list_move x head h = Some h' \<and> dlist h' head (x # us @ vs)
            \<and> same_outside (insert head (set (us @ x # vs))) h h'"
proof -
  from raw_list_del_entry_kept [OF assms] obtain h1
    where h1: "raw_list_del_entry x h = Some h1" and d: "dlist h1 head (us @ vs)"
      and same: "same_outside (insert head (set (us @ x # vs))) h h1"
    by blast
  from assms have "x \<notin> insert head (set (us @ vs))" by (auto simp: dlist_def)
  from list_add_dlist [OF d this] obtain h2 where
    "list_add x head h1 = Some h2" "dlist h2 head (x # us @ vs)"
    "same_outside (insert x (insert head (set (us @ vs)))) h1 h2"
    by blast
  moreover from this(3) same have "same_outside (insert head (set (us @ x # vs))) h h2"
    by (auto simp: same_outside_def)
  ultimately show ?thesis
    using h1 by (auto simp: list_move_def)
qed

lemma list_move_tail_dlist:
  assumes "dlist h head (us @ x # vs)"
  shows "\<exists>h'. list_move_tail x head h = Some h' \<and> dlist h' head (us @ vs @ [x])
            \<and> same_outside (insert head (set (us @ x # vs))) h h'"
proof -
  from raw_list_del_entry_kept [OF assms] obtain h1
    where h1: "raw_list_del_entry x h = Some h1" and d: "dlist h1 head (us @ vs)"
      and same: "same_outside (insert head (set (us @ x # vs))) h h1"
    by blast
  from assms have "x \<notin> insert head (set (us @ vs))" by (auto simp: dlist_def)
  from list_add_tail_dlist [OF d this] obtain h2 where
    "list_add_tail x head h1 = Some h2" "dlist h2 head (us @ vs @ [x])"
    "same_outside (insert x (insert head (set (us @ vs)))) h1 h2"
    by auto
  moreover from this(3) same have "same_outside (insert head (set (us @ x # vs))) h h2"
    by (auto simp: same_outside_def)
  ultimately show ?thesis
    using h1 by (auto simp: list_move_tail_def raw_list_del_entry_def)
qed

lemma list_rotate_left_dlist:
  assumes "dlist h head xs"
  shows "\<exists>h'. list_rotate_left head h = Some h' \<and> dlist h' head (rotate1 xs)"
proof (cases xs)
  case Nil
  with assms show ?thesis
    by (simp add: list_rotate_left_def dlist_empty_iff)
next
  case (Cons x ys)
  with assms list_move_tail_dlist [of h head "[]" x ys] show ?thesis
    by (auto simp: list_rotate_left_def dlist_empty_iff dlist_first)
qed

lemma list_for_each_from_lseg:
  assumes "lseg h a xs head" and "head \<notin> set xs" and "length xs < fuel"
  shows "list_for_each_from fuel h head (nxt h a) = Some xs"
  using assms
proof (induction xs arbitrary: a fuel)
  case Nil
  then show ?case by (cases fuel) auto
next
  case (Cons x xs)
  then obtain f where "fuel = Suc f" by (cases fuel) auto
  with Cons show ?case by auto
qed

lemma list_for_each_nodes:
  "dlist h head xs \<Longrightarrow> length xs < fuel \<Longrightarrow> list_for_each fuel h head = Some xs"
  by (simp add: list_for_each_def dlist_def list_for_each_from_lseg)


lemma list_swap_links:
  assumes "nxt h x = Some y" "prv h y = Some x" "prv h x = Some p" "nxt h y = Some q"
    and "x \<noteq> y" "p \<noteq> x" "p \<noteq> y" "q \<noteq> x" "q \<noteq> y"
  shows "list_swap x y h =
    Some (h\<lparr>nxt := (nxt h)(y := Some x, p := Some y, x := Some q),
           prv := (prv h)(q := Some x, y := Some p, x := Some y)\<rparr>)"
  using assms
  by (simp add: list_swap_def list_del_def raw_list_del_Some list_replace_def set_next_def
      set_prev_def list_add_def raw_list_add_Some Let_def) (auto simp: fun_eq_iff)

lemma list_swap_adjacent:
  assumes "dlist h head (us @ x # y # vs)"
  shows "\<exists>h'. list_swap x y h = Some h' \<and> dlist h' head (us @ y # x # vs)"
proof -
  let ?p = "if us = [] then head else last us"
  let ?q = "if vs = [] then head else hd vs"
  let ?h = "h\<lparr>nxt := (nxt h)(y := Some x, ?p := Some y, x := Some ?q),
              prv := (prv h)(?q := Some x, y := Some ?p, x := Some y)\<rparr>"
  from assms have seg: "lseg h head us x" "lseg h x [] y" "lseg h y vs head"
    and dist: "distinct (head # us @ x # y # vs)"
    by (auto simp: dlist_def)
  then have links: "nxt h x = Some y" "prv h y = Some x" "prv h x = Some ?p" "nxt h y = Some ?q"
    by (auto simp: lseg_first lseg_last)
  have mem: "?p \<noteq> x" "?p \<noteq> y" "?q \<noteq> x" "?q \<noteq> y" "?p \<in> insert head (set us)" "?q \<in> insert head (set vs)"
    using dist by auto
  have ret: "list_swap x y h = Some ?h"
    using links mem dist by (intro list_swap_links) auto
  have left: "lseg ?h head us y"
  proof (cases us rule: rev_cases)
    case (snoc us' u)
    with dist mem have "lseg ?h head us' u = lseg h head us' u"
      by (intro lseg_cong) auto
    with snoc seg(1) dist show ?thesis by auto
  qed (use dist in auto)
  have right: "lseg ?h x vs head"
  proof (cases vs)
    case (Cons v vs')
    with dist mem have "lseg ?h v vs' head = lseg h v vs' head"
      by (intro lseg_cong) auto
    with Cons seg(3) dist mem show ?thesis by auto
  qed (use dist in auto)
  have "lseg ?h y [] x"
    using dist mem by auto
  with ret left right dist show ?thesis
    by (auto simp: dlist_def)
qed

section \<open>Families of disjoint lists\<close>

text \<open>
  A component keeps several lists of the same kind of nodes, each anchored at a head of its own.
  \<open>dlists h I L\<close> says that the heads \<open>I\<close> anchor the disjoint lists \<open>L\<close>.
\<close>

datatype ('i, 'n) lnode = Hd 'i | Nd 'n

definition dlists :: "('i, 'n) lnode lheap \<Rightarrow> 'i set \<Rightarrow> ('i \<Rightarrow> 'n list) \<Rightarrow> bool" where
  "dlists h I L \<longleftrightarrow> (\<forall>i\<in>I. dlist h (Hd i) (map Nd (L i)))
     \<and> (\<forall>i\<in>I. \<forall>j\<in>I. i \<noteq> j \<longrightarrow> set (L i) \<inter> set (L j) = {})"

definition lone :: "'n \<Rightarrow> ('i, 'n) lnode lheap \<Rightarrow> bool" where
  "lone x h \<longleftrightarrow> nxt h (Nd x) = Some (Nd x) \<and> prv h (Nd x) = Some (Nd x)"

definition linked :: "'n \<Rightarrow> ('i, 'n) lnode lheap \<Rightarrow> bool" where
  "linked x h \<longleftrightarrow> nxt h (Nd x) \<noteq> None \<and> prv h (Nd x) \<noteq> None"

definition family_nodes :: "'i \<Rightarrow> ('i \<Rightarrow> 'n list) \<Rightarrow> ('i, 'n) lnode set" where
  "family_nodes i L = insert (Hd i) (Nd ` set (L i))"

lemma dlists_distinct: "dlists h I L \<Longrightarrow> i \<in> I \<Longrightarrow> distinct (L i)"
  by (auto simp: dlists_def dlist_def distinct_map)

lemma dlists_disjoint:
  "dlists h I L \<Longrightarrow> i \<in> I \<Longrightarrow> j \<in> I \<Longrightarrow> x \<in> set (L i) \<Longrightarrow> x \<in> set (L j) \<Longrightarrow> i = j"
  by (auto simp: dlists_def)

lemma dlists_update:
  assumes "dlists h I L" and "i \<in> I"
    and "dlist h' (Hd i) (map Nd xs)" and "same_outside (insert (Nd x) (family_nodes i L)) h h'"
    and "\<And>j. j \<in> I \<Longrightarrow> j \<noteq> i \<Longrightarrow> x \<notin> set (L j)" and "set xs \<subseteq> insert x (set (L i))"
  shows "dlists h' I (L(i := xs))"
proof -
  have "dlist h' (Hd j) (map Nd (L j))" if "j \<in> I" "j \<noteq> i" for j
  proof (rule dlist_frame [OF _ assms(4)])
    show "dlist h (Hd j) (map Nd (L j))" using assms(1) that by (simp add: dlists_def)
    show "insert (Nd x) (family_nodes i L) \<inter> insert (Hd j) (set (map Nd (L j))) = {}"
      using assms(2,5) that dlists_disjoint [OF assms(1), of i j] by (auto simp: family_nodes_def)
  qed
  moreover have "set ((L(i := xs)) j) \<inter> set ((L(i := xs)) k) = {}" if "j \<in> I" "k \<in> I" "j \<noteq> k" for j k
    using that assms(2,5,6) dlists_disjoint [OF assms(1)] by (auto simp: subset_iff)
  ultimately show ?thesis
    using assms(3) by (simp add: dlists_def)
qed

lemma dlists_in_not_lone:
  "dlists h I L \<Longrightarrow> i \<in> I \<Longrightarrow> x \<in> set (L i) \<Longrightarrow> linked x h \<and> \<not> lone x h"
  using dlist_linked [of h "Hd i" "map Nd (L i)" "Nd x"]
  by (auto simp: dlists_def linked_def lone_def)

lemma lone_linked: "lone x h \<Longrightarrow> linked x h"
  by (auto simp: lone_def linked_def)

lemma lone_kept:
  assumes "dlists h I L" "i \<in> I" "same_outside (insert (Nd x) (family_nodes i L)) h h'"
    and "lone y h" "y \<noteq> x"
  shows "lone y h'"
proof -
  have "y \<notin> set (L i)" using assms(1,2,4) dlists_in_not_lone by metis
  with assms(3-5) show ?thesis
    by (auto simp: lone_def same_outside_def family_nodes_def)
qed

lemma list_add_family:
  assumes "dlists h I L" "i \<in> I" "\<And>j. j \<in> I \<Longrightarrow> x \<notin> set (L j)"
  shows "\<exists>h'. list_add (Nd x) (Hd i) h = Some h' \<and> dlists h' I (L(i := x # L i))
            \<and> (\<forall>y. y \<noteq> x \<longrightarrow> lone y h \<longrightarrow> lone y h')"
proof -
  have "dlist h (Hd i) (map Nd (L i))" "Nd x \<notin> insert (Hd i) (set (map Nd (L i)))"
    using assms by (auto simp: dlists_def)
  from list_add_dlist [OF this] obtain h' where h': "list_add (Nd x) (Hd i) h = Some h'"
    "dlist h' (Hd i) (map Nd (x # L i))" "same_outside (insert (Nd x) (family_nodes i L)) h h'"
    by (auto simp: family_nodes_def)
  from dlists_update [OF assms(1,2) h'(2,3)] assms(3) lone_kept [OF assms(1,2) h'(3)] h'(1)
  show ?thesis by auto
qed

lemma list_add_tail_family:
  assumes "dlists h I L" "i \<in> I" "\<And>j. j \<in> I \<Longrightarrow> x \<notin> set (L j)"
  shows "\<exists>h'. list_add_tail (Nd x) (Hd i) h = Some h' \<and> dlists h' I (L(i := L i @ [x]))
            \<and> (\<forall>y. y \<noteq> x \<longrightarrow> lone y h \<longrightarrow> lone y h')"
proof -
  have "dlist h (Hd i) (map Nd (L i))" "Nd x \<notin> insert (Hd i) (set (map Nd (L i)))"
    using assms by (auto simp: dlists_def)
  from list_add_tail_dlist [OF this] obtain h' where h': "list_add_tail (Nd x) (Hd i) h = Some h'"
    "dlist h' (Hd i) (map Nd (L i @ [x]))" "same_outside (insert (Nd x) (family_nodes i L)) h h'"
    by (auto simp: family_nodes_def)
  from dlists_update [OF assms(1,2) h'(2,3)] assms(3) lone_kept [OF assms(1,2) h'(3)] h'(1)
  show ?thesis by auto
qed


lemma family_split:
  assumes "dlists h I L" "i \<in> I" "x \<in> set (L i)"
  obtains us vs where "L i = us @ x # vs" "remove1 x (L i) = us @ vs"
    "dlist h (Hd i) (map Nd us @ Nd x # map Nd vs)"
proof -
  from assms(3) obtain us vs where uv: "L i = us @ x # vs" by (meson split_list)
  moreover from this assms(1,2) dlists_distinct have "x \<notin> set us" by fastforce
  moreover have "dlist h (Hd i) (map Nd us @ Nd x # map Nd vs)"
    using assms(1,2) uv by (auto simp: dlists_def)
  ultimately show ?thesis using that by simp
qed

lemma list_del_family:
  assumes "dlists h I L" "i \<in> I" "x \<in> set (L i)"
  shows "\<exists>h'. list_del (Nd x) h = Some h' \<and> dlists h' I (L(i := remove1 x (L i)))
            \<and> (\<forall>y. y \<noteq> x \<longrightarrow> lone y h \<longrightarrow> lone y h') \<and> \<not> linked x h'"
proof -
  from family_split [OF assms] obtain us vs where uv: "L i = us @ x # vs" "remove1 x (L i) = us @ vs"
    and "dlist h (Hd i) (map Nd us @ Nd x # map Nd vs)" .
  from list_del_dlist [OF this(3)] uv obtain h' where h': "list_del (Nd x) h = Some h'"
    "dlist h' (Hd i) (map Nd (us @ vs))" "same_outside (insert (Nd x) (family_nodes i L)) h h'"
    "nxt h' (Nd x) = None"
    by (auto simp: family_nodes_def insert_commute same_outside_def)
  have "\<And>j. j \<in> I \<Longrightarrow> j \<noteq> i \<Longrightarrow> x \<notin> set (L j)" "set (us @ vs) \<subseteq> insert x (set (L i))"
    using dlists_disjoint [OF assms(1,2)] assms(3) uv by auto
  from dlists_update [OF assms(1,2) h'(2,3) this] lone_kept [OF assms(1,2) h'(3)] h'(1,4) uv(2)
  show ?thesis by (auto simp: linked_def)
qed

lemma raw_list_del_entry_family:
  assumes "dlists h I L" "i \<in> I" "x \<in> set (L i)"
  shows "\<exists>h'. raw_list_del_entry (Nd x) h = Some h' \<and> dlists h' I (L(i := remove1 x (L i)))
            \<and> (\<forall>y. y \<noteq> x \<longrightarrow> lone y h \<longrightarrow> lone y h')"
proof -
  from family_split [OF assms] obtain us vs where uv: "L i = us @ x # vs" "remove1 x (L i) = us @ vs"
    and "dlist h (Hd i) (map Nd us @ Nd x # map Nd vs)" .
  from raw_list_del_entry_kept [OF this(3)] uv
  obtain h' where h': "raw_list_del_entry (Nd x) h = Some h'"
    "dlist h' (Hd i) (map Nd (us @ vs))" "same_outside (insert (Nd x) (family_nodes i L)) h h'"
    by (auto simp: family_nodes_def insert_commute same_outside_def)
  have "\<And>j. j \<in> I \<Longrightarrow> j \<noteq> i \<Longrightarrow> x \<notin> set (L j)" "set (us @ vs) \<subseteq> insert x (set (L i))"
    using dlists_disjoint [OF assms(1,2)] assms(3) uv by auto
  from dlists_update [OF assms(1,2) h'(2,3) this] lone_kept [OF assms(1,2) h'(3)] h'(1) uv(2)
  show ?thesis by auto
qed

lemma removed_nowhere:
  assumes "dlists h I L" "i \<in> I" "x \<in> set (L i)" "k \<in> I"
  shows "x \<notin> set ((L(i := remove1 x (L i))) k)"
  using assms dlists_distinct [OF assms(1,2)] dlists_disjoint [OF assms(1,2,4)] by auto

lemma list_move_family:
  assumes "dlists h I L" "i \<in> I" "j \<in> I" "x \<in> set (L i)"
  shows "\<exists>h'. list_move (Nd x) (Hd j) h = Some h'
            \<and> dlists h' I ((L(i := remove1 x (L i)))(j := x # (L(i := remove1 x (L i))) j))
            \<and> (\<forall>y. y \<noteq> x \<longrightarrow> lone y h \<longrightarrow> lone y h')"
proof -
  let ?L = "L(i := remove1 x (L i))"
  from raw_list_del_entry_family [OF assms(1,2,4)] obtain h1 where
    h1: "raw_list_del_entry (Nd x) h = Some h1" "dlists h1 I ?L"
    "\<forall>y. y \<noteq> x \<longrightarrow> lone y h \<longrightarrow> lone y h1"
    by blast
  have "\<exists>h'. list_add (Nd x) (Hd j) h1 = Some h' \<and> dlists h' I (?L(j := x # ?L j))
      \<and> (\<forall>y. y \<noteq> x \<longrightarrow> lone y h1 \<longrightarrow> lone y h')"
    using h1(2) assms(3) removed_nowhere [OF assms(1,2,4)] by (rule list_add_family)
  with h1(1,3) show ?thesis by (auto simp: list_move_def simp del: fun_upd_apply)
qed

lemma list_move_tail_family:
  assumes "dlists h I L" "i \<in> I" "j \<in> I" "x \<in> set (L i)"
  shows "\<exists>h'. list_move_tail (Nd x) (Hd j) h = Some h'
            \<and> dlists h' I ((L(i := remove1 x (L i)))(j := (L(i := remove1 x (L i))) j @ [x]))
            \<and> (\<forall>y. y \<noteq> x \<longrightarrow> lone y h \<longrightarrow> lone y h')"
proof -
  let ?L = "L(i := remove1 x (L i))"
  from raw_list_del_entry_family [OF assms(1,2,4)] obtain h1 where
    h1: "raw_list_del_entry (Nd x) h = Some h1" "dlists h1 I ?L"
    "\<forall>y. y \<noteq> x \<longrightarrow> lone y h \<longrightarrow> lone y h1"
    by blast
  have "\<exists>h'. list_add_tail (Nd x) (Hd j) h1 = Some h' \<and> dlists h' I (?L(j := ?L j @ [x]))
      \<and> (\<forall>y. y \<noteq> x \<longrightarrow> lone y h1 \<longrightarrow> lone y h')"
    using h1(2) assms(3) removed_nowhere [OF assms(1,2,4)] by (rule list_add_tail_family)
  with h1(1,3) show ?thesis
    by (auto simp: list_move_tail_def raw_list_del_entry_def simp del: fun_upd_apply)
qed

text \<open>\<^verbatim>\<open>INIT_LIST_HEAD\<close> on the link of a node that is in no list.\<close>

lemma init_node_family:
  assumes "dlists h I L" "\<And>j. j \<in> I \<Longrightarrow> x \<notin> set (L j)"
  shows "dlists (init_list_head (Nd x) h) I L \<and> lone x (init_list_head (Nd x) h)
           \<and> (\<forall>y. lone y h \<longrightarrow> lone y (init_list_head (Nd x) h))"
proof -
  have "dlist (init_list_head (Nd x) h) (Hd i) (map Nd (L i))" if "i \<in> I" for i
    by (rule dlist_frame [OF _ init_list_head_same]) (use assms that in \<open>auto simp: dlists_def\<close>)
  with assms show ?thesis
    by (auto simp: dlists_def lone_def init_list_head_def)
qed

lemma list_del_lone:
  assumes "dlists h I L" "lone x h"
  shows "\<exists>h'. list_del (Nd x) h = Some h' \<and> dlists h' I L
            \<and> (\<forall>y. y \<noteq> x \<longrightarrow> lone y h \<longrightarrow> lone y h')"
proof -
  from assms(2) list_del_self [of h "Nd x"] obtain h' where
    h': "list_del (Nd x) h = Some h'" "same_outside {Nd x} h h'"
    by (auto simp: lone_def)
  have "dlist h' (Hd i) (map Nd (L i))" if "i \<in> I" for i
    using dlists_in_not_lone [OF assms(1) that] assms that
    by (intro dlist_frame [OF _ h'(2)]) (auto simp: dlists_def)
  with h' assms show ?thesis
    by (auto simp: dlists_def lone_def same_outside_def)
qed

lemma list_empty_family: "dlists h I L \<Longrightarrow> i \<in> I \<Longrightarrow> list_empty (Hd i) h \<longleftrightarrow> L i = []"
  using dlist_empty_iff [of h "Hd i" "map Nd (L i)"] by (simp add: dlists_def)

lemma list_first_family:
  "dlists h I L \<Longrightarrow> i \<in> I \<Longrightarrow> nxt h (Hd i) = Some (if L i = [] then Hd i else Nd (hd (L i)))"
  using dlist_first [of h "Hd i" "map Nd (L i)"] by (simp add: dlists_def hd_map)

lemma init_heads_family:
  assumes "dlists h I L" "i \<notin> I"
  shows "dlists (init_list_head (Hd i) h) (insert i I) (L(i := []))"
proof -
  have "dlist (init_list_head (Hd i) h) (Hd j) (map Nd (L j))" if "j \<in> I" for j
    by (rule dlist_frame [OF _ init_list_head_same]) (use assms that in \<open>auto simp: dlists_def\<close>)
  with assms init_list_head_dlist [of "Hd i" h] show ?thesis
    by (auto simp: dlists_def)
qed

section \<open>The interface the list clients rely on\<close>

locale intrusive_lists =
  fixes repr :: "'h \<Rightarrow> 'i set \<Rightarrow> ('i \<Rightarrow> 'n list) \<Rightarrow> bool"
    and add :: "'n \<Rightarrow> 'i \<Rightarrow> 'h \<Rightarrow> 'h option"
    and add_tail :: "'n \<Rightarrow> 'i \<Rightarrow> 'h \<Rightarrow> 'h option"
    and del :: "'n \<Rightarrow> 'h \<Rightarrow> 'h option"
    and is_empty :: "'i \<Rightarrow> 'h \<Rightarrow> bool"
  assumes disj: "repr h I L \<Longrightarrow> i \<in> I \<Longrightarrow> j \<in> I \<Longrightarrow> x \<in> set (L i) \<Longrightarrow> x \<in> set (L j) \<Longrightarrow> i = j"
    and dist: "repr h I L \<Longrightarrow> i \<in> I \<Longrightarrow> distinct (L i)"
    and add_law: "repr h I L \<Longrightarrow> i \<in> I \<Longrightarrow> (\<And>j. j \<in> I \<Longrightarrow> x \<notin> set (L j)) \<Longrightarrow>
          \<exists>h'. add x i h = Some h' \<and> repr h' I (L(i := x # L i))"
    and add_tail_law: "repr h I L \<Longrightarrow> i \<in> I \<Longrightarrow> (\<And>j. j \<in> I \<Longrightarrow> x \<notin> set (L j)) \<Longrightarrow>
          \<exists>h'. add_tail x i h = Some h' \<and> repr h' I (L(i := L i @ [x]))"
    and del_law: "repr h I L \<Longrightarrow> i \<in> I \<Longrightarrow> x \<in> set (L i) \<Longrightarrow>
          \<exists>h'. del x h = Some h' \<and> repr h' I (L(i := remove1 x (L i)))"
    and empty_law: "repr h I L \<Longrightarrow> i \<in> I \<Longrightarrow> is_empty i h \<longleftrightarrow> L i = []"
begin

text \<open>Used as a queue (\<^verbatim>\<open>list_add_tail\<close>, \<^verbatim>\<open>list_del\<close> of the first entry): first in, first out.\<close>

fun add_all_tail :: "'n list \<Rightarrow> 'i \<Rightarrow> 'h \<Rightarrow> 'h option" where
  "add_all_tail [] i h = Some h"
| "add_all_tail (x # xs) i h = do { h \<leftarrow> add_tail x i h; add_all_tail xs i h }"

lemma add_all_tail_law:
  assumes "repr h I L" "i \<in> I" "distinct xs" "\<And>j. j \<in> I \<Longrightarrow> set xs \<inter> set (L j) = {}"
  shows "\<exists>h'. add_all_tail xs i h = Some h' \<and> repr h' I (L(i := L i @ xs))"
  using assms
proof (induction xs arbitrary: h L)
  case (Cons x xs)
  from add_tail_law [OF Cons.prems(1,2)] Cons.prems(4) obtain h1 where
    h1: "add_tail x i h = Some h1" "repr h1 I (L(i := L i @ [x]))"
    by fastforce
  have "\<exists>h'. add_all_tail xs i h1 = Some h'
      \<and> repr h' I ((L(i := L i @ [x]))(i := (L(i := L i @ [x])) i @ xs))"
    by (rule Cons.IH [OF h1(2) Cons.prems(2)]) (use Cons.prems(3,4) in \<open>auto split: if_splits\<close>)
  with h1(1) show ?case by (simp add: fun_upd_def cong: if_cong)
qed simp

lemma add_then_del:
  assumes "repr h I L" "i \<in> I" "\<And>j. j \<in> I \<Longrightarrow> x \<notin> set (L j)"
  shows "\<exists>h' h''. add x i h = Some h' \<and> del x h' = Some h'' \<and> repr h'' I L"
proof -
  from add_law [OF assms] obtain h' where h': "add x i h = Some h'" "repr h' I (L(i := x # L i))"
    by blast
  from del_law [OF h'(2) assms(2), of x] h'(1) show ?thesis by auto
qed

end

interpretation ll: intrusive_lists dlists "\<lambda>x i. list_add (Nd x) (Hd i)"
  "\<lambda>x i. list_add_tail (Nd x) (Hd i)" "\<lambda>x. list_del (Nd x)" "\<lambda>i. list_empty (Hd i)"
proof
  fix h :: "('i, 'n) lnode lheap" and I L i x
  show "\<exists>h'. list_add (Nd x) (Hd i) h = Some h' \<and> dlists h' I (L(i := x # L i))"
    if "dlists h I L" "i \<in> I" "\<And>j. j \<in> I \<Longrightarrow> x \<notin> set (L j)"
    using list_add_family [OF that] by blast
  show "\<exists>h'. list_add_tail (Nd x) (Hd i) h = Some h' \<and> dlists h' I (L(i := L i @ [x]))"
    if "dlists h I L" "i \<in> I" "\<And>j. j \<in> I \<Longrightarrow> x \<notin> set (L j)"
    using list_add_tail_family [OF that] by blast
  show "\<exists>h'. list_del (Nd x) h = Some h' \<and> dlists h' I (L(i := remove1 x (L i)))"
    if "dlists h I L" "i \<in> I" "x \<in> set (L i)"
    using list_del_family [OF that] by blast
qed (auto simp: dlists_distinct list_empty_family dest: dlists_disjoint)

end
