(* ===== verification/List_Refine.thy ===== *)
theory List_Refine
  imports Linked_List
begin

text \<open>
  Programs over the linked lists of \<^verbatim>\<open>include/list.h\<close>.  The clients run sequences of list
  operations on lists that share their nodes (queues, free lists, pools); the heap of links
  after such a sequence represents what the same sequence does on a family of Isabelle
  lists, and a walk over any head returns it.
\<close>

datatype ('i, 'n) lop =
    Add 'n 'i | Add_Tail 'n 'i | Del 'n | Del_Init 'n | Move 'n 'i | Move_Tail 'n 'i | Rotate 'i

fun exec_op :: "('i, 'n) lop \<Rightarrow> ('i, 'n) lnode lheap \<Rightarrow> ('i, 'n) lnode lheap option" where
  "exec_op (Add x i) h = list_add (Nd x) (Hd i) h"
| "exec_op (Add_Tail x i) h = list_add_tail (Nd x) (Hd i) h"
| "exec_op (Del x) h = list_del (Nd x) h"
| "exec_op (Del_Init x) h = list_del_init (Nd x) h"
| "exec_op (Move x i) h = list_move (Nd x) (Hd i) h"
| "exec_op (Move_Tail x i) h = list_move_tail (Nd x) (Hd i) h"
| "exec_op (Rotate i) h = list_rotate_left (Hd i) h"

fun exec_ops :: "('i, 'n) lop list \<Rightarrow> ('i, 'n) lnode lheap \<Rightarrow> ('i, 'n) lnode lheap option" where
  "exec_ops [] h = Some h"
| "exec_ops (c # cs) h = do { h \<leftarrow> exec_op c h; exec_ops cs h }"

text \<open>The same operations on lists; a node is in at most one list, so it is removed from all.\<close>

definition unlink :: "'n \<Rightarrow> ('i \<Rightarrow> 'n list) \<Rightarrow> 'i \<Rightarrow> 'n list" where
  "unlink x L i = remove1 x (L i)"

fun abs_op :: "('i, 'n) lop \<Rightarrow> ('i \<Rightarrow> 'n list) \<Rightarrow> 'i \<Rightarrow> 'n list" where
  "abs_op (Add x i) L = L(i := x # L i)"
| "abs_op (Add_Tail x i) L = L(i := L i @ [x])"
| "abs_op (Del x) L = unlink x L"
| "abs_op (Del_Init x) L = unlink x L"
| "abs_op (Move x i) L = (unlink x L)(i := x # unlink x L i)"
| "abs_op (Move_Tail x i) L = (unlink x L)(i := unlink x L i @ [x])"
| "abs_op (Rotate i) L = L(i := rotate1 (L i))"

fun abs_ops :: "('i, 'n) lop list \<Rightarrow> ('i \<Rightarrow> 'n list) \<Rightarrow> 'i \<Rightarrow> 'n list" where
  "abs_ops [] L = L"
| "abs_ops (c # cs) L = abs_ops cs (abs_op c L)"

definition queued :: "'i set \<Rightarrow> ('i \<Rightarrow> 'n list) \<Rightarrow> 'n \<Rightarrow> bool" where
  "queued I L x \<longleftrightarrow> (\<exists>i\<in>I. x \<in> set (L i))"

text \<open>What a client has to respect: a node is added only while it is in no list, and is
  removed or moved only while it is in one; every head is initialised.\<close>

fun op_valid :: "'i set \<Rightarrow> ('i \<Rightarrow> 'n list) \<Rightarrow> ('i, 'n) lop \<Rightarrow> bool" where
  "op_valid I L (Add x i) \<longleftrightarrow> i \<in> I \<and> \<not> queued I L x"
| "op_valid I L (Add_Tail x i) \<longleftrightarrow> i \<in> I \<and> \<not> queued I L x"
| "op_valid I L (Del x) \<longleftrightarrow> queued I L x"
| "op_valid I L (Del_Init x) \<longleftrightarrow> queued I L x"
| "op_valid I L (Move x i) \<longleftrightarrow> i \<in> I \<and> queued I L x"
| "op_valid I L (Move_Tail x i) \<longleftrightarrow> i \<in> I \<and> queued I L x"
| "op_valid I L (Rotate i) \<longleftrightarrow> i \<in> I"

fun ops_valid :: "'i set \<Rightarrow> ('i \<Rightarrow> 'n list) \<Rightarrow> ('i, 'n) lop list \<Rightarrow> bool" where
  "ops_valid I L [] \<longleftrightarrow> True"
| "ops_valid I L (c # cs) \<longleftrightarrow> op_valid I L c \<and> ops_valid I (abs_op c L) cs"

lemma dlists_cong: "dlists h I L \<Longrightarrow> (\<And>i. i \<in> I \<Longrightarrow> L' i = L i) \<Longrightarrow> dlists h I L'"
  by (simp add: dlists_def)

lemma unlink_at:
  assumes "dlists h I L" "j \<in> I" "x \<in> set (L j)" "i \<in> I"
  shows "unlink x L i = (L(j := remove1 x (L j))) i"
proof (cases "i = j")
  case False
  with dlists_disjoint [OF assms(1,4,2) _ assms(3)] have "x \<notin> set (L i)" by blast
  with False show ?thesis by (simp add: unlink_def remove1_idem)
qed (simp add: unlink_def)

lemma list_del_init_family:
  assumes "dlists h I L" "i \<in> I" "x \<in> set (L i)"
  shows "\<exists>h'. list_del_init (Nd x) h = Some h' \<and> dlists h' I (L(i := remove1 x (L i)))"
proof -
  from raw_list_del_entry_family [OF assms] obtain h1 where
    h1: "raw_list_del_entry (Nd x) h = Some h1" "dlists h1 I (L(i := remove1 x (L i)))" by blast
  moreover have "dlists (init_list_head (Nd x) h1) I (L(i := remove1 x (L i)))"
    using init_node_family [OF h1(2) removed_nowhere [OF assms]] by blast
  ultimately show ?thesis by (simp add: list_del_init_def)
qed

lemma list_rotate_left_family:
  assumes "dlists h I L" "i \<in> I"
  shows "\<exists>h'. list_rotate_left (Hd i) h = Some h' \<and> dlists h' I (L(i := rotate1 (L i)))"
proof (cases "L i")
  case Nil
  with assms show ?thesis
    by (auto simp: list_rotate_left_def list_empty_family intro: dlists_cong)
next
  case (Cons x xs)
  with list_move_tail_family [OF assms(1,2,2), of x] obtain h' where
    h': "list_move_tail (Nd x) (Hd i) h = Some h'" "dlists h' I (L(i := xs @ [x]))"
    by (auto simp: fun_upd_def cong: if_cong)
  with assms Cons show ?thesis
    by (auto simp: list_rotate_left_def list_empty_family list_first_family)
qed

lemma exec_op_refines:
  assumes "dlists h I L" "op_valid I L c"
  shows "\<exists>h'. exec_op c h = Some h' \<and> dlists h' I (abs_op c L)"
proof (cases c)
  case (Add x i)
  with assms list_add_family [of h I L i x] show ?thesis by (auto simp: queued_def)
next
  case (Add_Tail x i)
  with assms list_add_tail_family [of h I L i x] show ?thesis by (auto simp: queued_def)
next
  case (Del x)
  with assms obtain j where j: "j \<in> I" "x \<in> set (L j)" by (auto simp: queued_def)
  from list_del_family [OF assms(1) j] Del show ?thesis
    using dlists_cong unlink_at [OF assms(1) j] by (metis abs_op.simps(3) exec_op.simps(3))
next
  case (Del_Init x)
  with assms obtain j where j: "j \<in> I" "x \<in> set (L j)" by (auto simp: queued_def)
  from list_del_init_family [OF assms(1) j] Del_Init show ?thesis
    using dlists_cong unlink_at [OF assms(1) j] by (metis abs_op.simps(4) exec_op.simps(4))
next
  case (Move x i)
  with assms obtain j where j: "j \<in> I" "x \<in> set (L j)" and i: "i \<in> I" by (auto simp: queued_def)
  from list_move_family [OF assms(1) j(1) i j(2)] obtain h' where
    h': "list_move (Nd x) (Hd i) h = Some h'"
    "dlists h' I ((L(j := remove1 x (L j)))(i := x # (L(j := remove1 x (L j))) i))" by blast
  have "dlists h' I (abs_op c L)"
    by (rule dlists_cong [OF h'(2)]) (use Move unlink_at [OF assms(1) j] i in auto)
  with h'(1) Move show ?thesis by simp
next
  case (Move_Tail x i)
  with assms obtain j where j: "j \<in> I" "x \<in> set (L j)" and i: "i \<in> I" by (auto simp: queued_def)
  from list_move_tail_family [OF assms(1) j(1) i j(2)] obtain h' where
    h': "list_move_tail (Nd x) (Hd i) h = Some h'"
    "dlists h' I ((L(j := remove1 x (L j)))(i := (L(j := remove1 x (L j))) i @ [x]))" by blast
  have "dlists h' I (abs_op c L)"
    by (rule dlists_cong [OF h'(2)]) (use Move_Tail unlink_at [OF assms(1) j] i in auto)
  with h'(1) Move_Tail show ?thesis by simp
next
  case (Rotate i)
  with assms list_rotate_left_family [of h I L i] show ?thesis by simp
qed

lemma exec_ops_refines:
  "dlists h I L \<Longrightarrow> ops_valid I L cs \<Longrightarrow> \<exists>h'. exec_ops cs h = Some h' \<and> dlists h' I (abs_ops cs L)"
proof (induction cs arbitrary: h L)
  case (Cons c cs)
  with exec_op_refines [of h I L c] obtain h1 where
    "exec_op c h = Some h1" "dlists h1 I (abs_op c L)" by auto
  with Cons show ?case by auto
qed simp

text \<open>C19: list programs refine lists.  Whatever sequence of \<^verbatim>\<open>list_add\<close>, \<^verbatim>\<open>list_add_tail\<close>,
  \<^verbatim>\<open>list_del\<close>, \<^verbatim>\<open>list_del_init\<close>, \<^verbatim>\<open>list_move\<close>, \<^verbatim>\<open>list_move_tail\<close> and \<^verbatim>\<open>list_rotate_left\<close> a
  client runs on the lists at the heads \<open>I\<close>, adding only nodes that are in no list and
  removing only nodes that are in one, no null pointer is followed, the links again form
  proper disjoint lists, and \<^verbatim>\<open>list_for_each\<close> at each head meets exactly the nodes the
  same sequence leaves in the corresponding Isabelle list, in their order, within as many
  steps as the list is long.\<close>

theorem list_program_refines:
  assumes "dlists h I L" and "ops_valid I L cs"
  shows "\<exists>h'. exec_ops cs h = Some h' \<and> dlists h' I (abs_ops cs L)
           \<and> (\<forall>i\<in>I. list_for_each (Suc (length (abs_ops cs L i))) h' (Hd i)
                    = Some (map Nd (abs_ops cs L i)))"
proof -
  from exec_ops_refines [OF assms] obtain h' where
    h': "exec_ops cs h = Some h'" "dlists h' I (abs_ops cs L)" by blast
  moreover have "list_for_each (Suc (length (abs_ops cs L i))) h' (Hd i) = Some (map Nd (abs_ops cs L i))"
    if "i \<in> I" for i
    using h'(2) that by (intro list_for_each_nodes) (auto simp: dlists_def)
  ultimately show ?thesis by blast
qed

definition two_heads :: "(bool, nat) lnode lheap" where
  "two_heads = init_list_head (Hd True) (init_list_head (Hd False) \<lparr> nxt = (\<lambda>_. None), prv = (\<lambda>_. None) \<rparr>)"

definition demo_ops :: "(bool, nat) lop list" where
  "demo_ops = [Add 1 False, Add 2 False, Add_Tail 3 False, Move 3 True, Move_Tail 1 True, Rotate True, Del 2]"

theorem list_program_refines_witness:
  "\<exists>h'. exec_ops demo_ops two_heads = Some h'
      \<and> list_for_each 3 h' (Hd True) = Some [Nd 1, Nd 3] \<and> list_for_each 1 h' (Hd False) = Some []"
proof -
  have "dlists two_heads UNIV (\<lambda>_. [])"
    by (auto simp: dlists_def dlist_def two_heads_def init_list_head_def UNIV_bool)
  moreover have "ops_valid UNIV (\<lambda>_. []) demo_ops"
    by (simp add: demo_ops_def queued_def UNIV_bool unlink_def)
  ultimately obtain h' where h': "exec_ops demo_ops two_heads = Some h'"
    "\<forall>i\<in>UNIV. list_for_each (Suc (length (abs_ops demo_ops (\<lambda>_. []) i))) h' (Hd i)
              = Some (map Nd (abs_ops demo_ops (\<lambda>_. []) i))"
    using list_program_refines [of two_heads UNIV "\<lambda>_. []" demo_ops] by blast
  have "abs_ops demo_ops (\<lambda>_. []) True = [1, 3]" "abs_ops demo_ops (\<lambda>_. []) False = []"
    by (simp_all add: demo_ops_def unlink_def)
  with h'(2) [rule_format, of True] h'(2) [rule_format, of False] h'(1) show ?thesis
    by (auto simp: numeral_3_eq_3)
qed

end
