(* ===== verification/Bit_Ops.thy ===== *)
theory Bit_Ops
  imports Flight_Prelude
begin

text \<open>
  The bit level helpers of \<^verbatim>\<open>include/kernel/log2.h\<close>, \<^verbatim>\<open>include/kernel/bitops.h\<close>,
  \<^verbatim>\<open>include/kernel/bitmap.h\<close>, \<^verbatim>\<open>include/kernel/err.h\<close> and the alignment macros of
  \<^verbatim>\<open>include/kernel/kernel.h\<close>, on 32 bit words, with the lemmas that read them as arithmetic.
\<close>

section \<open>Shifts and logarithms\<close>

text \<open>
  A shift count outside \<open>0..31\<close> is undefined in C; the model takes what the \<^verbatim>\<open>sll\<close> and
  \<^verbatim>\<open>srl\<close> instructions of the target do, which use the low five bits of the count.
\<close>

definition shl :: "u32 \<Rightarrow> int \<Rightarrow> u32" where
  "shl x c = push_bit (nat (c mod 32)) x"

definition shr :: "u32 \<Rightarrow> int \<Rightarrow> u32" where
  "shr x c = drop_bit (nat (c mod 32)) x"

text \<open>\<^verbatim>\<open>__builtin_clz\<close>: the number of zero bits above the most significant one.\<close>

definition builtin_clz :: "u32 \<Rightarrow> nat" where
  "builtin_clz x = length (takeWhile (\<lambda>i. \<not> bit x i) (rev [0..<32]))"

definition kfls :: "u32 \<Rightarrow> nat" where
  "kfls x = (if x \<noteq> 0 then 32 - builtin_clz x else 0)"

definition fls_long :: "u32 \<Rightarrow> nat" where
  "fls_long l = kfls l"

definition ilog2 :: "u32 \<Rightarrow> int" where
  "ilog2 n = int (kfls n) - 1"

definition is_power_of_2 :: "u32 \<Rightarrow> bool" where
  "is_power_of_2 n \<longleftrightarrow> n \<noteq> 0 \<and> n AND (n - 1) = 0"

definition roundup_pow_of_two :: "u32 \<Rightarrow> u32" where
  "roundup_pow_of_two n = shl 1 (int (fls_long (n - 1)))"

definition rounddown_pow_of_two :: "u32 \<Rightarrow> u32" where
  "rounddown_pow_of_two n = shl 1 (int (fls_long n) - 1)"

definition is_err_value :: "u32 \<Rightarrow> bool" where
  "is_err_value x \<longleftrightarrow> x \<ge> - 4095"

section \<open>Alignment\<close>

definition align_mask :: "u32 \<Rightarrow> u32 \<Rightarrow> u32" where
  "align_mask x msk = (x + msk) AND NOT msk"

definition align_up :: "u32 \<Rightarrow> u32 \<Rightarrow> u32" where
  "align_up x a = align_mask x (a - 1)"

definition is_aligned :: "u32 \<Rightarrow> u32 \<Rightarrow> bool" where
  "is_aligned x a \<longleftrightarrow> x AND (a - 1) = 0"

section \<open>Bit arrays\<close>

text \<open>An access outside the array is \<^term>\<open>None\<close>.\<close>

definition arr_get :: "'a list \<Rightarrow> nat \<Rightarrow> 'a option" where
  "arr_get xs i = (if i < length xs then Some (xs ! i) else None)"

definition arr_set :: "'a list \<Rightarrow> nat \<Rightarrow> 'a \<Rightarrow> 'a list option" where
  "arr_set xs i v = (if i < length xs then Some (xs[i := v]) else None)"

definition bit_mask :: "nat \<Rightarrow> u32" where
  "bit_mask nr = shl 1 (int (nr mod 32))"

definition bit_word :: "nat \<Rightarrow> nat" where
  "bit_word nr = nr div 32"

definition set_bit_arr :: "nat \<Rightarrow> u32 list \<Rightarrow> u32 list option" where
  "set_bit_arr nr addr =
     do { w \<leftarrow> arr_get addr (bit_word nr); arr_set addr (bit_word nr) (w OR bit_mask nr) }"

definition clear_bit_arr :: "nat \<Rightarrow> u32 list \<Rightarrow> u32 list option" where
  "clear_bit_arr nr addr =
     do { w \<leftarrow> arr_get addr (bit_word nr); arr_set addr (bit_word nr) (w AND NOT (bit_mask nr)) }"

definition test_bit_arr :: "nat \<Rightarrow> u32 list \<Rightarrow> bool option" where
  "test_bit_arr nr addr =
     do { w \<leftarrow> arr_get addr (bit_word nr); Some (1 AND shr w (int (nr mod 32)) \<noteq> 0) }"

definition bits_to_longs :: "nat \<Rightarrow> nat" where
  "bits_to_longs nr = (nr + 32 - 1) div 32"

text \<open>\<^verbatim>\<open>memset(dst, 0, n)\<close> over the first \<open>n\<close> elements of an array.\<close>

definition arr_zero :: "nat \<Rightarrow> 'a::zero list \<Rightarrow> 'a list option" where
  "arr_zero n xs = (if n \<le> length xs then Some (replicate n 0 @ drop n xs) else None)"

definition bitmap_zero :: "nat \<Rightarrow> u32 list \<Rightarrow> u32 list option" where
  "bitmap_zero nbits dst = arr_zero (bits_to_longs nbits) dst"

section \<open>Lemmas\<close>

lemma shl_1: "0 \<le> c \<Longrightarrow> c < 32 \<Longrightarrow> shl 1 c = 2 ^ nat c"
  by (simp add: shl_def push_bit_eq_mult)

lemma unat_shl_1: "0 \<le> c \<Longrightarrow> c < 32 \<Longrightarrow> unat (shl 1 c) = 2 ^ nat c"
  by (simp add: shl_1 unat_2p)

lemma unat_shr: "0 \<le> c \<Longrightarrow> c < 32 \<Longrightarrow> unat (shr x c) = unat x div 2 ^ nat c"
  by (simp add: shr_def unat_drop_bit_eq flip: drop_bit_eq_div)

lemma nat_uint_mod_32: "unat c < 32 \<Longrightarrow> nat (uint c mod 32) = unat c" for c :: u32
  by (simp add: nat_mod_distrib)

lemma shl_uint: "unat c < 32 \<Longrightarrow> shl 1 (uint c) = 2 ^ unat c" for c :: u32
  by (simp add: shl_def nat_uint_mod_32 push_bit_eq_mult)

lemma unat_shl_uint: "unat c < 32 \<Longrightarrow> unat (shl 1 (uint c)) = 2 ^ unat c" for c :: u32
  by (simp add: shl_uint unat_2p)

lemma unat_shr_uint: "unat c < 32 \<Longrightarrow> unat (shr x (uint c)) = unat x div 2 ^ unat c" for c :: u32
  by (simp add: shr_def nat_uint_mod_32 unat_drop_bit_eq flip: drop_bit_eq_div)

lemma takeWhile_rev_upt:
  assumes "P k" and "k < n" and "\<And>i. k < i \<Longrightarrow> i < n \<Longrightarrow> \<not> P i"
  shows "length (takeWhile (\<lambda>i. \<not> P i) (rev [0..<n])) = n - Suc k"
proof -
  have "rev [0..<n] = rev [Suc k..<n] @ k # rev [0..<k]"
    using assms(2) by (metis upt_conv_Cons less_imp_le_nat rev_append upt_add_eq_append rev.simps(2)
        append_assoc append_Cons append_Nil le0 le_iff_add)
  moreover have "takeWhile (\<lambda>i. \<not> P i) (rev [Suc k..<n] @ k # rev [0..<k]) = rev [Suc k..<n]"
    using assms by (subst takeWhile_append2) auto
  ultimately show ?thesis by simp
qed

text \<open>\<^verbatim>\<open>kfls\<close> is the number of bits of its argument.\<close>

lemma kfls_bounds:
  assumes "x \<noteq> 0"
  shows "2 ^ (kfls x - 1) \<le> unat x" and "unat x < 2 ^ kfls x" and "0 < kfls x" and "kfls x \<le> 32"
proof -
  define k where "k = Max {i. bit x i}"
  have fin: "finite {i. bit x i}" by (rule finite_subset [of _ "{..<32}"]) (auto dest: bit_imp_le_length)
  from assms have "{i. bit x i} \<noteq> {}" by (auto simp: bit_eq_iff)
  with fin have "k \<in> {i. bit x i}" unfolding k_def by (rule Max_in)
  then have k: "bit x k" "\<And>i. bit x i \<Longrightarrow> i \<le> k"
    using fin by (auto simp: k_def)
  from k(1) have "k < 32" by (auto dest: bit_imp_le_length)
  then have "builtin_clz x = 32 - Suc k"
    unfolding builtin_clz_def using k by (intro takeWhile_rev_upt) (auto dest!: k(2))
  with assms \<open>k < 32\<close> have kf: "kfls x = Suc k" by (simp add: kfls_def)
  have lo: "2 ^ k \<le> unat x"
  proof (rule ccontr)
    assume "\<not> 2 ^ k \<le> unat x"
    then have "unat x div 2 ^ k = 0" by simp
    then have "\<not> bit (unat x) k" by (simp add: bit_iff_odd)
    with k(1) show False by (simp add: bit_unsigned_iff)
  qed
  have hi: "unat x < 2 ^ Suc k"
  proof -
    have "take_bit (Suc k) (unat x) = unat x"
      by (rule bit_eqI) (auto simp: bit_take_bit_iff bit_unsigned_iff less_Suc_eq_le dest: k(2))
    then show ?thesis by (metis take_bit_nat_less_exp)
  qed
  from kf lo hi \<open>k < 32\<close> show "2 ^ (kfls x - 1) \<le> unat x" "unat x < 2 ^ kfls x" "0 < kfls x"
    "kfls x \<le> 32" by auto
qed


lemma kfls_eqI:
  assumes "2 ^ k \<le> unat x" and "unat x < 2 ^ Suc k"
  shows "kfls x = Suc k"
proof -
  from assms(1) have x: "x \<noteq> 0" by auto
  have "(2::nat) ^ k < 2 ^ kfls x" "(2::nat) ^ (kfls x - 1) < 2 ^ Suc k"
    using assms kfls_bounds [OF x] by (meson le_less_trans)+
  then have "k < kfls x" "kfls x - 1 < Suc k"
    by (simp_all only: power_strict_increasing_iff one_less_numeral_iff semiring_norm)
  then show ?thesis by simp
qed

lemma kfls_2p: "k < 32 \<Longrightarrow> kfls (2 ^ k) = Suc k"
  by (rule kfls_eqI) (simp_all add: unat_2p)

lemma ilog2_shl: "0 \<le> c \<Longrightarrow> c < 32 \<Longrightarrow> ilog2 (shl 1 c) = c"
  by (simp add: ilog2_def shl_1 kfls_2p)

text \<open>
  The order a request is served with: the exponent of the least power of two that holds it.
\<close>

lemma roundup_order:
  assumes "n \<noteq> 0" and "unat n \<le> 2 ^ 31"
  shows "\<exists>k \<le> 31. ilog2 (roundup_pow_of_two n) = int k \<and> unat n \<le> 2 ^ k
           \<and> (\<forall>j. unat n \<le> 2 ^ j \<longrightarrow> k \<le> j)"
proof -
  have m: "unat (n - 1) = unat n - 1" using assms(1) by (simp add: unat_minus_one)
  show ?thesis
  proof (cases "n = 1")
    case True
    then show ?thesis
      by (intro exI [of _ 0]) (simp add: roundup_pow_of_two_def fls_long_def kfls_def ilog2_shl)
  next
    case False
    with assms(1) have nz: "n - 1 \<noteq> 0" by auto
    let ?k = "kfls (n - 1)"
    note b = kfls_bounds [OF nz]
    have "0 < unat n" using assms(1) by (simp add: unat_gt_0)
    with b(1) m have lt: "2 ^ (?k - 1) < unat n" by linarith
    with assms(2) have "(2::nat) ^ (?k - 1) < 2 ^ 31" by linarith
    then have "?k - 1 < 31" by (simp only: power_strict_increasing_iff one_less_numeral_iff semiring_norm)
    with b(3) have k: "?k \<le> 31" by simp
    have "unat n \<le> 2 ^ ?k" using b(2) m by simp
    moreover have "?k \<le> j" if "unat n \<le> 2 ^ j" for j
    proof -
      have "(2::nat) ^ (?k - 1) < 2 ^ j"
        using lt that by linarith
      then have "?k - 1 < j" by (simp only: power_strict_increasing_iff one_less_numeral_iff semiring_norm)
      then show ?thesis by simp
    qed
    ultimately show ?thesis
      using k by (intro exI [of _ ?k]) (simp add: roundup_pow_of_two_def fls_long_def ilog2_shl)
  qed
qed

lemma rounddown_order:
  assumes "n \<noteq> 0"
  shows "\<exists>k \<le> 31. ilog2 (rounddown_pow_of_two n) = int k \<and> 2 ^ k \<le> unat n \<and> unat n < 2 ^ Suc k"
proof -
  let ?k = "kfls n - 1"
  note b = kfls_bounds [OF assms]
  have "nat (int (kfls n) - 1) = ?k" "0 \<le> int (kfls n) - 1" "int (kfls n) - 1 < 32" using b by auto
  then have "ilog2 (rounddown_pow_of_two n) = int ?k"
    by (simp add: rounddown_pow_of_two_def fls_long_def ilog2_shl)
  with b show ?thesis by (intro exI [of _ ?k]) auto
qed

subsection \<open>Bit arrays as predicates\<close>

definition bits_of :: "u32 list \<Rightarrow> nat \<Rightarrow> bool" where
  "bits_of arr k = bit (arr ! (k div 32)) (k mod 32)"

lemma bit_mask_bit: "bit (bit_mask nr) i \<longleftrightarrow> i = nr mod 32"
  by (auto simp: bit_mask_def shl_def bit_exp_iff)

lemma test_bit_arr_eq: "nr < 32 * length arr \<Longrightarrow> test_bit_arr nr arr = Some (bits_of arr nr)"
proof -
  assume "nr < 32 * length arr"
  then have "bit_word nr < length arr" by (auto simp: bit_word_def)
  moreover have "(1 AND shr w (int (nr mod 32)) \<noteq> 0) = bit w (nr mod 32)" for w
    by (simp add: shr_def one_and_eq bit_iff_odd_drop_bit odd_iff_mod_2_eq_one)
  ultimately show ?thesis
    by (simp add: test_bit_arr_def arr_get_def bits_of_def bit_word_def)
qed

lemma set_bit_arr_eq:
  assumes "nr < 32 * length arr"
  shows "\<exists>arr'. set_bit_arr nr arr = Some arr' \<and> length arr' = length arr
            \<and> (\<forall>k. bits_of arr' k = (k = nr \<or> bits_of arr k))"
proof -
  from assms have len: "nr div 32 < length arr" by auto
  have "bits_of (arr[nr div 32 := arr ! (nr div 32) OR bit_mask nr]) k = (k = nr \<or> bits_of arr k)" for k
  proof (cases "k div 32 = nr div 32")
    case True
    with len have "(k = nr) = (k mod 32 = nr mod 32)"
      by (metis div_mod_decomp)
    with True len show ?thesis
      by (auto simp: bits_of_def bit_or_iff bit_mask_bit)
  qed (auto simp: bits_of_def)
  with len show ?thesis
    by (simp add: set_bit_arr_def arr_get_def arr_set_def bit_word_def)
qed

lemma clear_bit_arr_eq:
  assumes "nr < 32 * length arr"
  shows "\<exists>arr'. clear_bit_arr nr arr = Some arr' \<and> length arr' = length arr
            \<and> (\<forall>k. bits_of arr' k = (k \<noteq> nr \<and> bits_of arr k))"
proof -
  from assms have len: "nr div 32 < length arr" by auto
  have "bits_of (arr[nr div 32 := arr ! (nr div 32) AND NOT (bit_mask nr)]) k = (k \<noteq> nr \<and> bits_of arr k)" for k
  proof (cases "k div 32 = nr div 32")
    case True
    with len have "(k = nr) = (k mod 32 = nr mod 32)"
      by (metis div_mod_decomp)
    with True len show ?thesis
      by (auto simp: bits_of_def bit_and_iff bit_not_iff bit_mask_bit)
  qed (auto simp: bits_of_def)
  with len show ?thesis
    by (simp add: clear_bit_arr_def arr_get_def arr_set_def bit_word_def)
qed

lemma bits_to_longs_le: "nbits \<le> 32 * bits_to_longs nbits"
  by (simp add: bits_to_longs_def)

lemma bitmap_zero_eq:
  assumes "bits_to_longs nbits \<le> length arr"
  shows "\<exists>arr'. bitmap_zero nbits arr = Some arr' \<and> length arr' = length arr
            \<and> (\<forall>k < nbits. \<not> bits_of arr' k)"
proof -
  let ?n = "bits_to_longs nbits"
  have "\<not> bits_of (replicate ?n 0 @ drop ?n arr) k" if "k < nbits" for k
  proof -
    have "k div 32 < ?n" using that by (simp add: bits_to_longs_def)
    then show ?thesis by (simp add: bits_of_def nth_append)
  qed
  with assms show ?thesis
    by (simp add: bitmap_zero_def arr_zero_def)
qed

section \<open>Alignment to 8 bytes\<close>

lemma unat_add2: "unat a + unat b < 2 ^ 32 \<Longrightarrow> unat (a + b) = unat a + unat b" for a b :: u32
  by (simp add: unat_word_ariths)

lemma and_not_7: "y AND NOT 7 = y - y mod 8" for y :: u32
proof -
  have "push_bit 3 (drop_bit 3 y) = y AND NOT (mask 3)"
    by (rule bit_word_eqI) (auto simp: bit_simps)
  then have "y AND NOT 7 = push_bit 3 (drop_bit 3 y)" by (simp add: mask_eq_exp_minus_1)
  moreover have "push_bit 3 (drop_bit 3 y) + take_bit 3 y = y" by (rule bits_ident)
  ultimately show ?thesis by (simp add: take_bit_eq_mod eq_diff_eq)
qed

lemma unat_align_up: "unat x + 7 < 2 ^ 32 \<Longrightarrow> unat (align_up x 8) = (unat x + 7) div 8 * 8"
proof -
  assume "unat x + 7 < 2 ^ 32"
  then have u: "unat (x + 7) = unat x + 7" using unat_add2 [of x 7] by simp
  have "(x + 7) mod 8 \<le> x + 7" by (simp add: word_le_nat_alt unat_mod)
  then have "unat (x + 7 - (x + 7) mod 8) = unat x + 7 - (unat x + 7) mod 8" using u by (simp add: unat_sub unat_mod)
  also have "\<dots> = (unat x + 7) div 8 * 8" by (simp add: minus_mod_eq_div_mult)
  finally have "unat (x + 7 - (x + 7) mod 8) = (unat x + 7) div 8 * 8" .
  moreover have "align_up x 8 = x + 7 - (x + 7) mod 8"
    using and_not_7 [of "x + 7"] by (simp add: align_up_def align_mask_def)
  ultimately show ?thesis by simp
qed

lemma align_up_id:
  assumes "8 dvd unat x"
  shows "align_up x 8 = x"
proof -
  have "unat x < 2 ^ 32" using unat_less_2p32 [of x] by simp
  then have "unat x + 7 < 2 ^ 32" using assms by (auto simp: dvd_def)
  then have "unat (align_up x 8) = unat x" using assms by (auto simp: unat_align_up dvd_def)
  then show ?thesis by (simp add: word_unat_eq_iff)
qed

end
