(* ===== verification/Mem_Bytes.thy ===== *)
theory Mem_Bytes
  imports Bit_Ops
begin

text \<open>
  The byte memory the string functions of \<^verbatim>\<open>lib/string.c\<close> work on, and the functions that
  move and fill memory.  Addresses have 32 bits and wrap; words are stored big endian, as on
  SPARC, and an access to a word that is not aligned to its size traps, which is the value
  \<open>None\<close>.  The copies are compared with \<open>copied\<close>, which reads the source before it writes.
\<close>

type_synonym mem = "u32 \<Rightarrow> u8"

section \<open>Access to words\<close>

definition load32 :: "u32 \<Rightarrow> mem \<Rightarrow> u32 option" where
  "load32 a m = (if a AND 3 = 0
     then Some (push_bit 24 (ucast (m a)) OR push_bit 16 (ucast (m (a + 1)))
                OR push_bit 8 (ucast (m (a + 2))) OR ucast (m (a + 3)))
     else None)"

definition store32 :: "u32 \<Rightarrow> u32 \<Rightarrow> mem \<Rightarrow> mem option" where
  "store32 a w m = (if a AND 3 = 0
     then Some (m(a := ucast (drop_bit 24 w), a + 1 := ucast (drop_bit 16 w),
                  a + 2 := ucast (drop_bit 8 w), a + 3 := ucast w))
     else None)"

definition store64 :: "u32 \<Rightarrow> u64 \<Rightarrow> mem \<Rightarrow> mem option" where
  "store64 a w m = (if a AND 7 = 0
     then Some (m(a := ucast (drop_bit 56 w), a + 1 := ucast (drop_bit 48 w),
                  a + 2 := ucast (drop_bit 40 w), a + 3 := ucast (drop_bit 32 w),
                  a + 4 := ucast (drop_bit 24 w), a + 5 := ucast (drop_bit 16 w),
                  a + 6 := ucast (drop_bit 8 w), a + 7 := ucast w))
     else None)"

definition store16 :: "u32 \<Rightarrow> u16 \<Rightarrow> mem \<Rightarrow> mem option" where
  "store16 a w m = (if a AND 1 = 0
     then Some (m(a := ucast (drop_bit 8 w), a + 1 := ucast w))
     else None)"

section \<open>Copying\<close>

text \<open>The loops \<^verbatim>\<open>while (c--)\<close> of the two copy functions; they leave the pointers where the
  next loop goes on.\<close>

fun copy_bytes_fwd :: "nat \<Rightarrow> u32 \<Rightarrow> u32 \<Rightarrow> mem \<Rightarrow> mem \<times> u32 \<times> u32" where
  "copy_bytes_fwd 0 d s m = (m, d, s)"
| "copy_bytes_fwd (Suc c) d s m = copy_bytes_fwd c (d + 1) (s + 1) (m(d := m s))"

fun copy_words_fwd :: "nat \<Rightarrow> u32 \<Rightarrow> u32 \<Rightarrow> mem \<Rightarrow> (mem \<times> u32 \<times> u32) option" where
  "copy_words_fwd 0 d s m = Some (m, d, s)"
| "copy_words_fwd (Suc c) d s m =
     do { w \<leftarrow> load32 s m; m \<leftarrow> store32 d w m; copy_words_fwd c (d + 4) (s + 4) m }"

definition memmove_fwd :: "u32 \<Rightarrow> u32 \<Rightarrow> u32 \<Rightarrow> mem \<Rightarrow> mem option" where
  "memmove_fwd d s n m =
     (let (m, d, s, n) =
        (if (s OR d) AND 3 \<noteq> 0 then
           let c = (if n < 4 then n else if (s XOR d) AND 3 \<noteq> 0 then n else 4 - (s AND 3));
               n = n - c;
               (m, d, s) = copy_bytes_fwd (unat c) d s m
           in (m, d, s, n)
         else (m, d, s, n))
      in do {
        (m, d, s) \<leftarrow> copy_words_fwd (unat (n div 4)) d s m;
        Some (fst (copy_bytes_fwd (unat (n AND 3)) d s m))
      })"

fun copy_bytes_bwd :: "nat \<Rightarrow> u32 \<Rightarrow> u32 \<Rightarrow> mem \<Rightarrow> mem \<times> u32 \<times> u32" where
  "copy_bytes_bwd 0 d s m = (m, d, s)"
| "copy_bytes_bwd (Suc c) d s m = copy_bytes_bwd c (d - 1) (s - 1) (m(d - 1 := m (s - 1)))"

fun copy_words_bwd :: "nat \<Rightarrow> u32 \<Rightarrow> u32 \<Rightarrow> mem \<Rightarrow> (mem \<times> u32 \<times> u32) option" where
  "copy_words_bwd 0 d s m = Some (m, d, s)"
| "copy_words_bwd (Suc c) d s m =
     do { w \<leftarrow> load32 (s - 4) m; m \<leftarrow> store32 (d - 4) w m; copy_words_bwd c (d - 4) (s - 4) m }"

definition memmove_bwd :: "u32 \<Rightarrow> u32 \<Rightarrow> u32 \<Rightarrow> mem \<Rightarrow> mem option" where
  "memmove_bwd d s n m =
     (let s = s + n; d = d + n;
          (m, d, s, n) =
        (if (s OR d) AND 3 \<noteq> 0 then
           let c = (if n \<le> 4 then n else if (s XOR d) AND 3 \<noteq> 0 then n else s AND 3);
               n = n - c;
               (m, d, s) = copy_bytes_bwd (unat c) d s m
           in (m, d, s, n)
         else (m, d, s, n))
      in do {
        (m, d, s) \<leftarrow> copy_words_bwd (unat (n div 4)) d s m;
        Some (fst (copy_bytes_bwd (unat (n AND 3)) d s m))
      })"

definition memmove :: "u32 \<Rightarrow> u32 \<Rightarrow> u32 \<Rightarrow> mem \<Rightarrow> mem option" where
  "memmove dest src n m =
     (if n = 0 \<or> dest = src then Some m
      else if dest < src then memmove_fwd dest src n m
      else memmove_bwd dest src n m)"

definition memcpy :: "u32 \<Rightarrow> u32 \<Rightarrow> u32 \<Rightarrow> mem \<Rightarrow> mem option" where
  "memcpy dest src n m = memmove dest src n m"

section \<open>Filling\<close>

definition fill_word :: "u8 \<Rightarrow> u64" where
  "fill_word b = fold (\<lambda>i w. push_bit 8 w OR ucast b) [0..<8] 0"

function memset_head :: "u32 \<Rightarrow> u8 \<Rightarrow> u32 \<Rightarrow> mem \<Rightarrow> mem \<times> u32 \<times> u32" where
  "memset_head p b n m =
     (if n = 0 then (m, p, n)
      else if is_aligned p 8 then (m, p, n)
      else memset_head (p + 1) b (n - 1) (m(p := b)))"
  by pat_completeness auto
termination by (relation "measure (\<lambda>(p, b, n, m). unat n)") (auto, unat_arith+)

function memset_mid :: "u32 \<Rightarrow> u64 \<Rightarrow> u32 \<Rightarrow> mem \<Rightarrow> (mem \<times> u32 \<times> u32) option" where
  "memset_mid p cc n m =
     (if n \<ge> 16 then do { m \<leftarrow> store64 p cc m; m \<leftarrow> store64 (p + 8) cc m; memset_mid (p + 16) cc (n - 16) m }
      else Some (m, p, n))"
  by pat_completeness auto
termination by (relation "measure (\<lambda>(p, b, n, m). unat n)") (auto, unat_arith)

function memset_tail :: "u32 \<Rightarrow> u8 \<Rightarrow> u32 \<Rightarrow> mem \<Rightarrow> mem" where
  "memset_tail p b n m = (if n = 0 then m else memset_tail (p + 1) b (n - 1) (m(p := b)))"
  by pat_completeness auto
termination by (relation "measure (\<lambda>(p, b, n, m). unat n)") (auto, unat_arith+)

definition memset :: "u32 \<Rightarrow> int \<Rightarrow> u32 \<Rightarrow> mem \<Rightarrow> mem option" where
  "memset s c n m =
     (let b = word_of_int c; cc = fill_word b;
          (m, p, n) = memset_head s b n m
      in do { (m, p, n) \<leftarrow> memset_mid p cc n m; Some (memset_tail p b n m) })"

definition bzero :: "u32 \<Rightarrow> u32 \<Rightarrow> mem \<Rightarrow> mem option" where
  "bzero s n m = memset s 0 n m"

fun memset16_loop :: "nat \<Rightarrow> u32 \<Rightarrow> u16 \<Rightarrow> mem \<Rightarrow> mem option" where
  "memset16_loop 0 p c m = Some m"
| "memset16_loop (Suc n) p c m = do { m \<leftarrow> store16 p c m; memset16_loop n (p + 2) c m }"

definition memset16 :: "u32 \<Rightarrow> u16 \<Rightarrow> u32 \<Rightarrow> mem \<Rightarrow> mem option" where
  "memset16 s c n m = memset16_loop (unat n) s c m"

fun memset32_loop :: "nat \<Rightarrow> u32 \<Rightarrow> u32 \<Rightarrow> mem \<Rightarrow> mem option" where
  "memset32_loop 0 p c m = Some m"
| "memset32_loop (Suc n) p c m = do { m \<leftarrow> store32 p c m; memset32_loop n (p + 4) c m }"

definition memset32 :: "u32 \<Rightarrow> u32 \<Rightarrow> u32 \<Rightarrow> mem \<Rightarrow> mem option" where
  "memset32 s c n m = memset32_loop (unat n) s c m"

declare memset_head.simps [simp del] memset_mid.simps [simp del] memset_tail.simps [simp del]

section \<open>What the copies are to do\<close>

definition copied :: "u32 \<Rightarrow> u32 \<Rightarrow> nat \<Rightarrow> mem \<Rightarrow> mem" where
  "copied d s n m = (\<lambda>a. if unat (a - d) < n then m (s + (a - d)) else m a)"

definition filled :: "u32 \<Rightarrow> u8 \<Rightarrow> nat \<Rightarrow> mem \<Rightarrow> mem" where
  "filled p b n m = (\<lambda>a. if unat (a - p) < n then b else m a)"

lemma copied_0 [simp]: "copied d s 0 m = m"
  by (simp add: copied_def)

lemma unat_diff_of_nat:
  assumes "k < 2 ^ 32" "a < 2 ^ 32"
  shows "unat (of_nat k - of_nat a :: u32) = (if a \<le> k then k - a else 2 ^ 32 + k - a)"
proof (cases "a \<le> k")
  case True
  then have "(of_nat k - of_nat a :: u32) = of_nat (k - a)" by (simp add: of_nat_diff)
  with True assms show ?thesis by (simp only: unat_of_nat) simp
next
  case False
  then have "(of_nat k - of_nat a :: u32) = of_nat (2 ^ 32 + k - a)" using assms by (simp add: of_nat_diff)
  moreover from False assms have "2 ^ 32 + k - a < 2 ^ 32" by simp
  ultimately show ?thesis using False by (simp only: unat_of_nat) simp
qed

lemma copied_append:
  assumes "unat (s - d) + (a + b) \<le> 2 ^ 32"
  shows "copied (d + of_nat a) (s + of_nat a) b (copied d s a m) = copied d s (a + b) m"
proof
  fix x :: u32
  define k where "k = unat (x - d)"
  have x: "x - d = of_nat k" by (simp add: k_def)
  have k: "k < 2 ^ 32" unfolding k_def using unsigned_less [of "x - d"] by simp
  have off: "unat (x - (d + of_nat a)) = (if a \<le> k then k - a else 2 ^ 32 + k - a)" if "b \<noteq> 0"
    using unat_diff_of_nat [OF k, of a] assms that unfolding x [symmetric] by (simp add: algebra_simps)
  have src: "unat (s + (x - d) - d) = unat (s - d) + k" if "k < a + b"
  proof -
    have "s + (x - d) - d = of_nat (unat (s - d) + k)" by (simp add: x)
    with assms that show ?thesis by (simp only: unat_of_nat) simp
  qed
  show "copied (d + of_nat a) (s + of_nat a) b (copied d s a m) x = copied d s (a + b) m x"
  proof (cases "b = 0 \<or> k < a")
    case True
    with assms off k_def show ?thesis by (auto simp: copied_def)
  next
    case False
    then have "unat (x - (d + of_nat a)) = k - a" "\<not> k < a" using off by auto
    moreover have "(s + of_nat a) + (x - (d + of_nat a)) = s + (x - d)" by simp
    ultimately show ?thesis
      using src by (cases "k < a + b") (auto simp: copied_def k_def [symmetric])
  qed
qed

lemma copied_prepend:
  assumes "unat (d - s) + (a + b) \<le> 2 ^ 32"
  shows "copied d s a (copied (d + of_nat a) (s + of_nat a) b m) = copied d s (a + b) m"
proof
  fix x :: u32
  define k where "k = unat (x - d)"
  have x: "x - d = of_nat k" by (simp add: k_def)
  have k: "k < 2 ^ 32" unfolding k_def using unsigned_less [of "x - d"] by simp
  have off: "unat (x - (d + of_nat a)) = (if a \<le> k then k - a else 2 ^ 32 + k - a)" if "b \<noteq> 0"
    using unat_diff_of_nat [OF k, of a] assms that unfolding x [symmetric] by (simp add: algebra_simps)
  have src: "b \<le> unat (s + (x - d) - (d + of_nat a))" if "k < a" "b \<noteq> 0"
  proof -
    have e: "s + (x - d) - (d + of_nat a) = of_nat k - of_nat (unat (d - s) + a)"
      by (simp add: x)
    show ?thesis unfolding e
      by (subst unat_diff_of_nat [OF k]) (use assms that in simp_all)
  qed
  show "copied d s a (copied (d + of_nat a) (s + of_nat a) b m) x = copied d s (a + b) m x"
  proof (cases "b = 0 \<or> k < a")
    case True
    with src show ?thesis by (auto simp: copied_def k_def [symmetric] not_less [symmetric])
  next
    case False
    then have "unat (x - (d + of_nat a)) = k - a" "\<not> k < a" using off by auto
    moreover have "(s + of_nat a) + (x - (d + of_nat a)) = s + (x - d)" by simp
    ultimately show ?thesis by (auto simp: copied_def k_def [symmetric])
  qed
qed

lemma copied_1: "copied d s 1 m = m(d := m s)"
proof
  fix x :: u32
  have "unat (x - d) < 1 \<longleftrightarrow> x = d" by (simp add: unat_eq_0)
  then show "copied d s 1 m x = (m(d := m s)) x" by (auto simp: copied_def)
qed

lemma copied_4: "copied d s 4 m = m(d := m s, d + 1 := m (s + 1), d + 2 := m (s + 2), d + 3 := m (s + 3))"
proof
  fix x :: u32
  define y where "y = x - d"
  have x: "x = d + y" by (simp add: y_def)
  have "unat y < 4 \<longleftrightarrow> y = 0 \<or> y = 1 \<or> y = 2 \<or> y = 3"
    by (auto simp: unat_eq_0) (unat_arith)
  then show "copied d s 4 m x = (m(d := m s, d + 1 := m (s + 1), d + 2 := m (s + 2), d + 3 := m (s + 3))) x"
    by (auto simp: copied_def x)
qed

lemma byte_bit: "8 \<le> n \<Longrightarrow> \<not> bit (b :: u8) n"
  using bit_imp_le_length [of b n] by auto

lemma load_store:
  assumes "s AND 3 = 0" "d AND 3 = 0"
  shows "\<exists>w. load32 s m = Some w \<and> store32 d w m = Some (copied d s 4 m)"
proof -
  obtain w where w: "load32 s m = Some w" using assms by (simp add: load32_def)
  then have "w = push_bit 24 (ucast (m s)) OR push_bit 16 (ucast (m (s + 1)))
                OR push_bit 8 (ucast (m (s + 2))) OR ucast (m (s + 3))"
    using assms by (simp add: load32_def)
  then have "ucast (drop_bit 24 w) = m s" "ucast (drop_bit 16 w) = m (s + 1)"
    "ucast (drop_bit 8 w) = m (s + 2)" "ucast w = m (s + 3)"
    by (auto intro!: bit_word_eqI simp: bit_simps byte_bit)
  with w assms show ?thesis by (simp add: store32_def copied_4)
qed

lemma copy_bytes_fwd_eq:
  "unat (s - d) + c \<le> 2 ^ 32 \<Longrightarrow> copy_bytes_fwd c d s m = (copied d s c m, d + of_nat c, s + of_nat c)"
proof (induction c arbitrary: d s m)
  case (Suc c)
  have "copied (d + 1) (s + 1) c (m(d := m s)) = copied d s (Suc c) m"
    using copied_append [of s d 1 c m] Suc.prems by (simp add: copied_1 [unfolded One_nat_def])
  with Suc show ?case by (simp del: fun_upd_apply)
qed simp

text \<open>Alignment to four bytes, in terms of the low bits of an address.\<close>

lemma and_3: "a AND 3 = take_bit 2 (a :: u32)"
  by (simp add: take_bit_eq_mask mask_eq_exp_minus_1)

lemma take_bit_2_4 [simp]: "take_bit 2 (4 :: u32) = 0"
  by (simp add: take_bit_eq_mask mask_eq_exp_minus_1)

lemma take_bit_congr: "take_bit k (a + b) = take_bit k (take_bit k a + b)" for a b :: u32
proof -
  have "bit (a + b) n \<longleftrightarrow> bit (take_bit k a + b) n" if "n < k" "n < 32" for n
  proof -
    have "take_bit (Suc n) (uint a + uint b) = take_bit (Suc n) (take_bit k (uint a) + uint b)"
      using take_bit_add [of "Suc n" "uint a" "uint b"] take_bit_add [of "Suc n" "take_bit k (uint a)" "uint b"] that
      by (simp add: min_absorb1)
    then have "bit (uint a + uint b) n \<longleftrightarrow> bit (take_bit k (uint a) + uint b) n"
      by (metis bit_take_bit_iff lessI)
    moreover have e: "a + b = word_of_int (uint a + uint b)" "take_bit k a + b = word_of_int (take_bit k (uint a) + uint b)"
      by (simp_all flip: unsigned_take_bit_eq)
    ultimately show ?thesis unfolding e using that by (simp only: bit_word_of_int_iff)
  qed
  then show ?thesis by (auto intro!: bit_word_eqI simp: bit_take_bit_iff)
qed

lemma low_bits_4:
  fixes a :: u32
  assumes "a AND 3 = 0"
  shows "(a + 4) AND 3 = 0" "(a - 4) AND 3 = 0"
proof -
  have "take_bit 2 (a - 4) = take_bit 2 (- 4 :: u32)"
    using take_bit_congr [of 2 a "- 4"] assms by (simp add: and_3)
  also have "\<dots> = 0" by (simp add: take_bit_eq_mask mask_eq_exp_minus_1)
  finally show "(a - 4) AND 3 = 0" by (simp add: and_3)
  show "(a + 4) AND 3 = 0"
    using take_bit_congr [of 2 a 4] assms by (simp add: and_3)
qed

lemma copy_words_fwd_eq:
  "unat (s - d) + 4 * c \<le> 2 ^ 32 \<Longrightarrow> s AND 3 = 0 \<Longrightarrow> d AND 3 = 0 \<Longrightarrow>
   copy_words_fwd c d s m = Some (copied d s (4 * c) m, d + of_nat (4 * c), s + of_nat (4 * c))"
proof (induction c arbitrary: d s m)
  case (Suc c)
  from load_store [OF Suc.prems(2,3)] obtain w where
    w: "load32 s m = Some w" "store32 d w m = Some (copied d s 4 m)" by blast
  have "copied (d + 4) (s + 4) (4 * c) (copied d s 4 m) = copied d s (4 * Suc c) m"
    using copied_append [of s d 4 "4 * c" m] Suc.prems(1) by simp
  moreover have "copy_words_fwd c (d + 4) (s + 4) (copied d s 4 m) =
      Some (copied (d + 4) (s + 4) (4 * c) (copied d s 4 m), d + 4 + of_nat (4 * c), s + 4 + of_nat (4 * c))"
    by (rule Suc.IH) (use Suc.prems low_bits_4 in auto)
  ultimately show ?case using w by (simp add: algebra_simps)
qed simp

lemma unaligned_iff: "(s OR d) AND 3 = 0 \<longleftrightarrow> s AND 3 = 0 \<and> d AND 3 = (0 :: u32)"
  by (simp add: and_3 or_eq_0_iff)

lemma xor_0_iff: "a XOR b = 0 \<longleftrightarrow> a = (b :: u32)"
  by (auto simp: bit_eq_iff bit_simps)

lemma same_low_iff: "(s XOR d) AND 3 = 0 \<longleftrightarrow> s AND 3 = d AND (3 :: u32)"
  by (simp add: and_3 take_bit_xor xor_0_iff)

lemma and_3_mod: "n AND 3 = n mod (4 :: u32)"
  by (simp add: and_3 take_bit_eq_mod)

text \<open>Words and rest after the unaligned bytes: both loops together copy what is left.\<close>

lemma copy_rest_fwd:
  fixes n :: u32
  assumes "unat (s - d) + unat n \<le> 2 ^ 32" "n \<noteq> 0 \<longrightarrow> s AND 3 = 0 \<and> d AND 3 = 0"
  shows "do { (m, d, s) \<leftarrow> copy_words_fwd (unat (n div 4)) d s m; Some (fst (copy_bytes_fwd (unat (n AND 3)) d s m)) }
       = Some (copied d s (unat n) m)"
proof (cases "n = 0")
  case False
  define q r where "q = unat n div 4" and "r = unat n mod 4"
  have n: "unat n = 4 * q + r" "unat (n div 4) = q" "unat (n AND 3) = r"
    by (simp_all add: q_def r_def unat_div and_3_mod unat_mod)
  have "copy_words_fwd q d s m = Some (copied d s (4 * q) m, d + of_nat (4 * q), s + of_nat (4 * q))"
    by (rule copy_words_fwd_eq) (use assms False n in auto)
  moreover have "copy_bytes_fwd r (d + of_nat (4 * q)) (s + of_nat (4 * q)) (copied d s (4 * q) m)
      = (copied (d + of_nat (4 * q)) (s + of_nat (4 * q)) r (copied d s (4 * q) m),
         d + of_nat (4 * q) + of_nat r, s + of_nat (4 * q) + of_nat r)"
    by (rule copy_bytes_fwd_eq) (use assms n in auto)
  moreover have "copied (d + of_nat (4 * q)) (s + of_nat (4 * q)) r (copied d s (4 * q) m) = copied d s (unat n) m"
    unfolding n by (rule copied_append) (use assms n in auto)
  ultimately show ?thesis by (simp add: n del: of_nat_mult)
qed simp

lemma word_le_mod: "unat (n AND 3) < 4" "unat (n AND 3) \<le> unat n" for n :: u32
  by (simp_all add: and_3_mod unat_mod)

lemma memmove_fwd_eq:
  assumes "unat (s - d) + unat n \<le> 2 ^ 32"
  shows "memmove_fwd d s n m = Some (copied d s (unat n) m)"
proof (cases "(s OR d) AND 3 = 0")
  case True
  with copy_rest_fwd [OF assms] show ?thesis by (simp add: memmove_fwd_def unaligned_iff)
next
  case False
  define c where "c = (if n < 4 then n else if (s XOR d) AND 3 \<noteq> 0 then n else 4 - (s AND 3))"
  have "unat (4 - (s AND 3)) \<le> 4" using word_le_mod(1) [of s] by unat_arith
  then have c: "c \<le> n" by (auto simp: c_def word_le_nat_alt word_less_nat_alt not_less)
  then have le: "unat c \<le> unat n" "unat (n - c) = unat n - unat c" by (simp_all add: word_le_nat_alt unat_sub)
  have head: "copy_bytes_fwd (unat c) d s m = (copied d s (unat c) m, d + c, s + c)"
    using copy_bytes_fwd_eq [of s d "unat c" m] assms le by simp
  have al: "n - c \<noteq> 0 \<longrightarrow> (s + c) AND 3 = 0 \<and> (d + c) AND 3 = 0"
  proof
    assume "n - c \<noteq> 0"
    then have "c = 4 - (s AND 3)" "s AND 3 = d AND 3" by (auto simp: c_def same_low_iff split: if_splits)
    then show "(s + c) AND 3 = 0 \<and> (d + c) AND 3 = 0"
      using take_bit_congr [of 2 s c] take_bit_congr [of 2 d c] by (simp add: and_3)
  qed
  have "copied (d + c) (s + c) (unat (n - c)) (copied d s (unat c) m) = copied d s (unat n) m"
    using copied_append [of s d "unat c" "unat (n - c)" m] assms le by simp
  moreover have "unat (s + c - (d + c)) + unat (n - c) \<le> 2 ^ 32" using assms le by simp
  ultimately show ?thesis
    using copy_rest_fwd [OF _ al] head False by (simp add: memmove_fwd_def c_def [symmetric] Let_def)
qed

lemma copy_bytes_bwd_eq:
  "unat (d - s) + c \<le> 2 ^ 32 \<Longrightarrow> copy_bytes_bwd c d s m = (copied (d - of_nat c) (s - of_nat c) c m, d - of_nat c, s - of_nat c)"
proof (induction c arbitrary: d s m)
  case (Suc c)
  have "copied (d - of_nat (Suc c)) (s - of_nat (Suc c)) c (copied (d - 1) (s - 1) 1 m)
      = copied (d - of_nat (Suc c)) (s - of_nat (Suc c)) (c + 1) m"
    using copied_prepend [of "d - of_nat (Suc c)" "s - of_nat (Suc c)" c 1 m] Suc.prems by simp
  with Suc show ?case by (simp add: copied_1 [unfolded One_nat_def] algebra_simps del: fun_upd_apply)
qed simp

lemma copy_words_bwd_eq:
  "unat (d - s) + 4 * c \<le> 2 ^ 32 \<Longrightarrow> s AND 3 = 0 \<Longrightarrow> d AND 3 = 0 \<Longrightarrow>
   copy_words_bwd c d s m = Some (copied (d - of_nat (4 * c)) (s - of_nat (4 * c)) (4 * c) m, d - of_nat (4 * c), s - of_nat (4 * c))"
proof (induction c arbitrary: d s m)
  case (Suc c)
  from load_store [of "s - 4" "d - 4" m] low_bits_4 Suc.prems obtain w where
    w: "load32 (s - 4) m = Some w" "store32 (d - 4) w m = Some (copied (d - 4) (s - 4) 4 m)" by blast
  have "copied (d - of_nat (4 * Suc c)) (s - of_nat (4 * Suc c)) (4 * c) (copied (d - 4) (s - 4) 4 m)
      = copied (d - of_nat (4 * Suc c)) (s - of_nat (4 * Suc c)) (4 * c + 4) m"
    using copied_prepend [of "d - of_nat (4 * Suc c)" "s - of_nat (4 * Suc c)" "4 * c" 4 m] Suc.prems(1) by simp
  moreover have "copy_words_bwd c (d - 4) (s - 4) (copied (d - 4) (s - 4) 4 m) =
      Some (copied (d - 4 - of_nat (4 * c)) (s - 4 - of_nat (4 * c)) (4 * c) (copied (d - 4) (s - 4) 4 m),
            d - 4 - of_nat (4 * c), s - 4 - of_nat (4 * c))"
    by (rule Suc.IH) (use Suc.prems low_bits_4 in auto)
  ultimately show ?case using w by (simp add: algebra_simps)
qed simp

lemma copy_rest_bwd:
  fixes n :: u32
  assumes "unat (d - s) + unat n \<le> 2 ^ 32" "n \<noteq> 0 \<longrightarrow> s AND 3 = 0 \<and> d AND 3 = 0"
  shows "do { (m, d, s) \<leftarrow> copy_words_bwd (unat (n div 4)) d s m; Some (fst (copy_bytes_bwd (unat (n AND 3)) d s m)) }
       = Some (copied (d - n) (s - n) (unat n) m)"
proof (cases "n = 0")
  case False
  define q r where "q = unat n div 4" and "r = unat n mod 4"
  have n: "unat n = r + 4 * q" "unat (n div 4) = q" "unat (n AND 3) = r"
    by (simp_all add: q_def r_def unat_div and_3_mod unat_mod)
  have nw: "n = of_nat r + of_nat (4 * q)" 
    by (subst of_nat_add [symmetric], subst n(1) [symmetric]) simp
  have "copy_words_bwd q d s m = Some (copied (d - of_nat (4 * q)) (s - of_nat (4 * q)) (4 * q) m, d - of_nat (4 * q), s - of_nat (4 * q))"
    by (rule copy_words_bwd_eq) (use assms False n in auto)
  moreover have "copy_bytes_bwd r (d - of_nat (4 * q)) (s - of_nat (4 * q)) (copied (d - of_nat (4 * q)) (s - of_nat (4 * q)) (4 * q) m)
      = (copied (d - of_nat (4 * q) - of_nat r) (s - of_nat (4 * q) - of_nat r) r (copied (d - of_nat (4 * q)) (s - of_nat (4 * q)) (4 * q) m),
         d - of_nat (4 * q) - of_nat r, s - of_nat (4 * q) - of_nat r)"
    by (rule copy_bytes_bwd_eq) (use assms n in auto)
  moreover have "copied (d - n) (s - n) r (copied (d - n + of_nat r) (s - n + of_nat r) (4 * q) m) = copied (d - n) (s - n) (unat n) m"
    unfolding n(1) by (rule copied_prepend) (use assms n(1) in auto)
  moreover have "d - n + of_nat r = d - of_nat (4 * q)" "s - n + of_nat r = s - of_nat (4 * q)"
    "d - of_nat (4 * q) - of_nat r = d - n" "s - of_nat (4 * q) - of_nat r = s - n"
    unfolding nw by (simp_all del: of_nat_mult)
  ultimately show ?thesis by (simp add: n(2,3) del: of_nat_mult)
qed simp

lemma memmove_bwd_eq:
  assumes "unat (d - s) + unat n \<le> 2 ^ 32"
  shows "memmove_bwd d s n m = Some (copied d s (unat n) m)"
proof (cases "((s + n) OR (d + n)) AND 3 = 0")
  case True
  with copy_rest_bwd [of "d + n" "s + n" n m] assms show ?thesis by (simp add: memmove_bwd_def unaligned_iff)
next
  case False
  define c where "c = (if n \<le> 4 then n else if ((s + n) XOR (d + n)) AND 3 \<noteq> 0 then n else (s + n) AND 3)"
  have "unat ((s + n) AND 3) < 4" by (rule word_le_mod)
  then have c: "c \<le> n" by (auto simp: c_def word_le_nat_alt not_le)
  then have le: "unat c \<le> unat n" "unat (n - c) = unat n - unat c" by (simp_all add: word_le_nat_alt unat_sub)
  have head: "copy_bytes_bwd (unat c) (d + n) (s + n) m = (copied (d + n - c) (s + n - c) (unat c) m, d + n - c, s + n - c)"
    using copy_bytes_bwd_eq [of "d + n" "s + n" "unat c" m] assms le by simp
  have al: "n - c \<noteq> 0 \<longrightarrow> (s + n - c) AND 3 = 0 \<and> (d + n - c) AND 3 = 0"
  proof
    assume "n - c \<noteq> 0"
    then have "c = (s + n) AND 3" "(s + n) AND 3 = (d + n) AND 3" by (auto simp: c_def same_low_iff split: if_splits)
    then show "(s + n - c) AND 3 = 0 \<and> (d + n - c) AND 3 = 0"
      using take_bit_congr [of 2 "s + n" "- c"] take_bit_congr [of 2 "d + n" "- c"] by (simp add: and_3)
  qed
  have "copied d s (unat (n - c)) (copied (d + n - c) (s + n - c) (unat c) m) = copied d s (unat n) m"
    using copied_prepend [of d s "unat (n - c)" "unat c" m] assms le by (simp add: algebra_simps)
  moreover have "unat (d + n - c - (s + n - c)) + unat (n - c) \<le> 2 ^ 32" using assms le by simp
  ultimately show ?thesis
    using copy_rest_bwd [OF _ al] head False by (simp add: memmove_bwd_def c_def [symmetric] Let_def)
qed

text \<open>Filling, piece by piece.\<close>

lemma filled_append: "a + b \<le> 2 ^ 32 \<Longrightarrow> filled (p + of_nat a) c b (filled p c a m) = filled p c (a + b) m"
proof
  fix x :: u32
  assume ab: "a + b \<le> 2 ^ 32"
  define k where "k = unat (x - p)"
  have x: "x - p = of_nat k" by (simp add: k_def)
  have k: "k < 2 ^ 32" unfolding k_def using unsigned_less [of "x - p"] by simp
  have "unat (x - (p + of_nat a)) = (if a \<le> k then k - a else 2 ^ 32 + k - a)" if "b \<noteq> 0"
    using unat_diff_of_nat [OF k, of a] ab that unfolding x [symmetric] by (simp add: algebra_simps)
  with ab show "filled (p + of_nat a) c b (filled p c a m) x = filled p c (a + b) m x"
    by (cases "b = 0") (auto simp: filled_def k_def [symmetric] split: if_splits)
qed

lemma filled_0 [simp]: "filled p c 0 m = m"
  by (simp add: filled_def)

lemma filled_1: "filled p c 1 m = m(p := c)"
proof
  fix x :: u32
  have "unat (x - p) < 1 \<longleftrightarrow> x = p" by (simp add: unat_eq_0)
  then show "filled p c 1 m x = (m(p := c)) x" by (auto simp: filled_def)
qed

lemma filled_Suc: "Suc n \<le> 2 ^ 32 \<Longrightarrow> filled (p + 1) c n (m(p := c)) = filled p c (Suc n) m"
  using filled_append [of 1 n p c m] by (simp add: filled_1 [unfolded One_nat_def])

lemma fill_word_bytes: "k < 8 \<Longrightarrow> ucast (drop_bit (8 * k) (fill_word b)) = b"
proof -
  assume "k < 8"
  then consider "k = 0" | "k = 1" | "k = 2" | "k = 3" | "k = 4" | "k = 5" | "k = 6" | "k = 7" by linarith
  then show ?thesis
    by cases (auto intro!: bit_word_eqI simp: fill_word_def bit_simps byte_bit upt_rec)
qed

lemma unat_32: "unat (n :: u32) < 2 ^ 32"
  using unsigned_less [of n] by simp

lemma step_down: "n \<noteq> 0 \<Longrightarrow> k \<le> unat (n - 1) \<Longrightarrow> Suc k \<le> unat n" for n :: u32
  using unat_gt_0 [of n] by (simp add: unat_minus_one)

lemma memset_head_eq:
  "\<exists>k \<le> unat n. memset_head p b n m = (filled p b k m, p + of_nat k, n - of_nat k)
      \<and> (n - of_nat k = 0 \<or> is_aligned (p + of_nat k) 8)"
proof (induction p b n m rule: memset_head.induct)
  case (1 p b n m)
  show ?case
  proof (cases "n = 0 \<or> is_aligned p 8")
    case True
    then show ?thesis by (intro exI [of _ 0]) (auto simp: memset_head.simps [of p b n m])
  next
    case False
    then have "n \<noteq> 0" "\<not> is_aligned p 8" by auto
    from 1 [OF this] obtain k where k: "k \<le> unat (n - 1)"
      "memset_head (p + 1) b (n - 1) (m(p := b)) = (filled (p + 1) b k (m(p := b)), p + 1 + of_nat k, n - 1 - of_nat k)"
      "n - 1 - of_nat k = 0 \<or> is_aligned (p + 1 + of_nat k) 8" by blast
    from False k(1) have le: "Suc k \<le> unat n" by (intro step_down) auto
    moreover have "Suc k \<le> 2 ^ 32" using le unat_32 [of n] by simp
    ultimately have f: "filled (p + 1) b k (m(p := b)) = filled p b (Suc k) m" by (simp add: filled_Suc)
    have o: "p + 1 + of_nat k = p + of_nat (Suc k)" "n - 1 - of_nat k = n - of_nat (Suc k)" by simp_all
    from k(2,3) False le show ?thesis unfolding f o
      by (intro exI [of _ "Suc k"]) (simp add: memset_head.simps [of p b n m] del: fun_upd_apply of_nat_Suc)
  qed
qed

lemma memset_tail_eq: "memset_tail p b n m = filled p b (unat n) m"
proof (induction p b n m rule: memset_tail.induct)
  case (1 p b n m)
  show ?case
  proof (cases "n = 0")
    case False
    then have n: "unat n = Suc (unat (n - 1))" by unat_arith
    then have "Suc (unat (n - 1)) \<le> 2 ^ 32" using unat_32 [of n] by simp
    with 1 [OF False] False n show ?thesis by (simp add: memset_tail.simps [of p b n m] filled_Suc del: fun_upd_apply)
  qed (simp add: memset_tail.simps [of p b 0 m])
qed

lemma store64_fill:
  assumes "p AND 7 = 0"
  shows "store64 p (fill_word b) m = Some (filled p b 8 m)"
proof -
  have "filled p b 8 m = m(p := b, p + 1 := b, p + 2 := b, p + 3 := b, p + 4 := b, p + 5 := b, p + 6 := b, p + 7 := b)"
  proof
    fix x :: u32
    define y where "y = x - p"
    have x: "x = p + y" by (simp add: y_def)
    have "unat y < 8 \<longleftrightarrow> y \<in> {0, 1, 2, 3, 4, 5, 6, 7}"
      by (auto simp: unat_eq_0) (unat_arith)
    then show "filled p b 8 m x = (m(p := b, p + 1 := b, p + 2 := b, p + 3 := b, p + 4 := b, p + 5 := b, p + 6 := b, p + 7 := b)) x"
      by (auto simp: filled_def x)
  qed
  with assms fill_word_bytes [of 0 b] fill_word_bytes [of 1 b] fill_word_bytes [of 2 b] fill_word_bytes [of 3 b]
    fill_word_bytes [of 4 b] fill_word_bytes [of 5 b] fill_word_bytes [of 6 b] fill_word_bytes [of 7 b]
  show ?thesis by (simp add: store64_def)
qed

lemma and_7_8: "p AND 7 = 0 \<Longrightarrow> (p + 8) AND 7 = (0 :: u32)"
proof -
  have a: "x AND 7 = take_bit 3 x" for x :: u32 by (simp add: take_bit_eq_mask mask_eq_exp_minus_1)
  assume "p AND 7 = 0"
  with take_bit_congr [of 3 p 8] show ?thesis by (simp add: a)
qed

lemma memset_mid_eq:
  "16 \<le> n \<longrightarrow> p AND 7 = 0 \<Longrightarrow>
   \<exists>k \<le> unat n. memset_mid p (fill_word b) n m = Some (filled p b k m, p + of_nat k, n - of_nat k)"
proof (induction p "fill_word b" n m rule: memset_mid.induct)
  case (1 p n m)
  show ?case
  proof (cases "16 \<le> n")
    case True
    with 1(2) have p: "p AND 7 = 0" "(p + 8) AND 7 = 0" "(p + 16) AND 7 = 0"
      using and_7_8 [of p] and_7_8 [of "p + 8"] by (simp_all add: add.assoc)
    have f: "filled (p + 8) b 8 (filled p b 8 m) = filled p b 16 m" using filled_append [of 8 8 p b m] by simp
    with store64_fill p have st: "store64 p (fill_word b) m = Some (filled p b 8 m)"
      "store64 (p + 8) (fill_word b) (filled p b 8 m) = Some (filled p b 16 m)" by auto
    from 1(1) [OF True st] p(3) obtain k where k: "k \<le> unat (n - 16)"
      "memset_mid (p + 16) (fill_word b) (n - 16) (filled p b 16 m)
         = Some (filled (p + 16) b k (filled p b 16 m), p + 16 + of_nat k, n - 16 - of_nat k)" by auto
    from True k(1) have le: "16 + k \<le> unat n" by unat_arith
    moreover have "16 + k \<le> 2 ^ 32" using le unat_32 [of n] by simp
    ultimately show ?thesis
      using k(2) True st filled_append [of 16 k p b m]
      by (intro exI [of _ "16 + k"]) (simp add: memset_mid.simps [of p "fill_word b" n m] algebra_simps)
  qed (auto simp: memset_mid.simps [of p "fill_word b" n m] intro: exI [of _ 0])
qed

lemma memset_eq: "memset s c n m = Some (filled s (word_of_int c) (unat n) m)"
proof -
  define b where "b = (word_of_int c :: u8)"
  from memset_head_eq [of n s b m] obtain k where k: "k \<le> unat n"
    "memset_head s b n m = (filled s b k m, s + of_nat k, n - of_nat k)"
    "n - of_nat k = 0 \<or> is_aligned (s + of_nat k) 8" by blast
  then have "16 \<le> n - of_nat k \<longrightarrow> (s + of_nat k) AND 7 = 0" by (auto simp: is_aligned_def)
  from memset_mid_eq [OF this, of b "filled s b k m"] obtain j where j: "j \<le> unat (n - of_nat k)"
    "memset_mid (s + of_nat k) (fill_word b) (n - of_nat k) (filled s b k m)
       = Some (filled (s + of_nat k) b j (filled s b k m), s + of_nat k + of_nat j, n - of_nat k - of_nat j)" by blast
  have lt: "k < 2 ^ 32" "j < 2 ^ 32" "unat n < 2 ^ 32"
    using k(1) j(1) unat_32 [of n] unat_32 [of "n - of_nat k"] by simp_all
  have u: "unat (n - of_nat k) = unat n - k"
    using unat_diff_of_nat [of "unat n" k] k(1) lt by simp
  have v: "unat (n - of_nat k - of_nat j) = unat n - k - j"
    using unat_diff_of_nat [of "unat (n - of_nat k)" j, OF unat_32 lt(2)] j(1)
    by (simp only: u [symmetric]) simp
  have "filled (s + of_nat k + of_nat j) b (unat n - k - j) (filled (s + of_nat k) b j (filled s b k m)) = filled s b (unat n) m"
    using filled_append [of k j s b m] filled_append [of "k + j" "unat n - k - j" s b m] k(1) j(1) u lt
    by (simp add: algebra_simps)
  with k(2) j(2) v show ?thesis
    by (simp add: memset_def b_def [symmetric] memset_tail_eq Let_def)
qed

lemma unat_minus_le: "(y :: u32) \<le> x \<Longrightarrow> unat (x - y) = unat x - unat y"
  by (simp add: unat_sub)

lemma memmove_eq:
  assumes "unat dest + unat n \<le> 2 ^ 32" "unat src + unat n \<le> 2 ^ 32"
  shows "memmove dest src n m = Some (copied dest src (unat n) m)"
proof -
  consider "n = 0 \<or> dest = src" | "n \<noteq> 0" "dest < src" | "n \<noteq> 0" "src < dest" by fastforce
  then show ?thesis
  proof cases
    case 1
    then show ?thesis by (auto simp: memmove_def copied_def)
  next
    case 2
    with assms have "unat (src - dest) + unat n \<le> 2 ^ 32" by (simp add: unat_minus_le)
    from memmove_fwd_eq [OF this] 2 show ?thesis by (auto simp: memmove_def)
  next
    case 3
    with assms have "unat (dest - src) + unat n \<le> 2 ^ 32" by (simp add: unat_minus_le)
    from memmove_bwd_eq [OF this] 3 show ?thesis by (auto simp: memmove_def)
  qed
qed

text \<open>C27: \<^verbatim>\<open>memmove\<close> equals its reference.  For areas that do not run past the end of the address
  space, however they overlap and however they are aligned, neither copy ever accesses an
  unaligned word, and afterwards the destination holds what the source held before, and
  nothing else has changed.\<close>

theorem memmove_correct:
  assumes "unat dest + unat n \<le> 2 ^ 32" and "unat src + unat n \<le> 2 ^ 32"
  shows "memmove dest src n m = Some (\<lambda>a. if unat (a - dest) < unat n then m (src + (a - dest)) else m a)"
  using memmove_eq [OF assms] by (simp add: copied_def)

theorem memmove_correct_witness:
  "map_option (\<lambda>m. map m [100, 101, 103, 107, 108, 113, 114]) (memmove 103 101 11 (\<lambda>a. ucast a)) = Some [100, 101, 101, 105, 106, 111, 114]"
  using memmove_correct [of 103 11 101 "\<lambda>a. ucast a"] by simp

text \<open>C39: \<^verbatim>\<open>memset\<close> equals its reference.  Whatever the alignment and the size, the double word
  stores are aligned, exactly the \<open>n\<close> bytes from \<open>s\<close> on hold the low byte of \<open>c\<close> afterwards, and
  nothing else has changed.\<close>

theorem memset_correct:
  "memset s c n m = Some (\<lambda>a. if unat (a - s) < unat n then word_of_int c else m a)"
  using memset_eq [of s c n m] by (simp add: filled_def)

end
