(* ===== verification/Kstring.thy ===== *)
theory Kstring
  imports Mem_Bytes
begin

text \<open>
  The string functions of \<^verbatim>\<open>lib/string.c\<close> on the byte memory.  A loop that ends only at a
  terminator is a partial function, whose value \<open>None\<close> says that it never ends; the bounded
  loops are total.  A null pointer is the address 0.  \<^verbatim>\<open>char\<close> is signed on the targets.
\<close>

section \<open>Comparing and searching\<close>

partial_function (option) strcmp :: "mem \<Rightarrow> u32 \<Rightarrow> u32 \<Rightarrow> int option" where
  "strcmp m s1 s2 =
     (let c1 = m s1; c2 = m s2
      in if c1 \<noteq> c2 then (if c1 < c2 then Some (- 1) else Some 1)
         else if c1 \<noteq> 0 then strcmp m (s1 + 1) (s2 + 1)
         else Some 0)"

fun strncmp_loop :: "nat \<Rightarrow> mem \<Rightarrow> u32 \<Rightarrow> u32 \<Rightarrow> int" where
  "strncmp_loop 0 m s1 s2 = 0"
| "strncmp_loop (Suc n) m s1 s2 =
     (let c1 = m s1; c2 = m s2
      in if c1 \<noteq> c2 then (if c1 < c2 then - 1 else 1)
         else if c1 = 0 then 0
         else strncmp_loop n m (s1 + 1) (s2 + 1))"

definition strncmp :: "mem \<Rightarrow> u32 \<Rightarrow> u32 \<Rightarrow> u32 \<Rightarrow> int" where
  "strncmp m s1 s2 n = strncmp_loop (unat n) m s1 s2"

text \<open>The inner loops over \<^verbatim>\<open>accept\<close>: whether the character is met before the terminator.\<close>

partial_function (option) accept_loop :: "mem \<Rightarrow> u8 \<Rightarrow> u32 \<Rightarrow> bool option" where
  "accept_loop m c a =
     (if m a = 0 then Some False else if c = m a then Some True else accept_loop m c (a + 1))"

partial_function (option) strpbrk :: "mem \<Rightarrow> u32 \<Rightarrow> u32 \<Rightarrow> u32 option" where
  "strpbrk m c1 accept =
     (if m c1 = 0 then Some 0
      else do { hit \<leftarrow> accept_loop m (m c1) accept;
                if hit then Some c1 else strpbrk m (c1 + 1) accept })"

text \<open>\<^verbatim>\<open>strsep\<close> and \<^verbatim>\<open>strtok\<close> return the token, the new value of the pointer kept between
  the calls (\<^verbatim>\<open>*stringp\<close>, \<^verbatim>\<open>s_prev\<close>) and the memory.\<close>

definition strsep :: "mem \<Rightarrow> u32 \<Rightarrow> u32 \<Rightarrow> (u32 \<times> u32 \<times> mem) option" where
  "strsep m start delim =
     (if start = 0 then Some (0, start, m)
      else do {
        e \<leftarrow> strpbrk m start delim;
        if e \<noteq> 0 then Some (start, e + 1, m(e := 0)) else Some (start, e, m)
      })"

partial_function (option) strspn_loop :: "mem \<Rightarrow> u32 \<Rightarrow> u32 \<Rightarrow> u32 \<Rightarrow> u32 option" where
  "strspn_loop m c accept cnt =
     (if m c = 0 then Some cnt
      else do { hit \<leftarrow> accept_loop m (m c) accept;
                if \<not> hit then Some cnt else strspn_loop m (c + 1) accept (cnt + 1) })"

definition strspn :: "mem \<Rightarrow> u32 \<Rightarrow> u32 \<Rightarrow> u32 option" where
  "strspn m s accept = strspn_loop m s accept 0"

partial_function (option) strchr_loop :: "mem \<Rightarrow> u32 \<Rightarrow> u8 \<Rightarrow> u32 option" where
  "strchr_loop m s c =
     (if m s \<noteq> c then (if m s = 0 then Some 0 else strchr_loop m (s + 1) c) else Some s)"

definition strchr :: "mem \<Rightarrow> u32 \<Rightarrow> int \<Rightarrow> u32 option" where
  "strchr m s c = strchr_loop m s (word_of_int c)"

partial_function (option) strlen_loop :: "mem \<Rightarrow> u32 \<Rightarrow> u32 option" where
  "strlen_loop m c = (if m c \<noteq> 0 then strlen_loop m (c + 1) else Some c)"

definition strlen :: "mem \<Rightarrow> u32 \<Rightarrow> u32 option" where
  "strlen m s = do { c \<leftarrow> strlen_loop m s; Some (c - s) }"

fun memcmp_loop :: "nat \<Rightarrow> mem \<Rightarrow> u32 \<Rightarrow> u32 \<Rightarrow> int" where
  "memcmp_loop 0 m s1 s2 = 0"
| "memcmp_loop (Suc n) m s1 s2 =
     (if m s1 \<noteq> m s2 then (if m s1 < m s2 then - 1 else 1) else memcmp_loop n m (s1 + 1) (s2 + 1))"

definition memcmp :: "mem \<Rightarrow> u32 \<Rightarrow> u32 \<Rightarrow> u32 \<Rightarrow> int" where
  "memcmp m s1 s2 n = memcmp_loop (unat n) m s1 s2"

function strstr_loop :: "mem \<Rightarrow> u32 \<Rightarrow> u32 \<Rightarrow> u32 \<Rightarrow> u32 \<Rightarrow> u32" where
  "strstr_loop m haystack needle len_h len_n =
     (if len_n = 0 then haystack
      else if len_h \<ge> len_n then
        (if memcmp m haystack needle len_n = 0 then haystack
         else strstr_loop m (haystack + 1) needle (len_h - 1) len_n)
      else 0)"
  by pat_completeness auto
termination by (relation "measure (\<lambda>(m, h, n, len_h, len_n). unat len_h)") (auto, unat_arith)

definition strstr :: "mem \<Rightarrow> u32 \<Rightarrow> u32 \<Rightarrow> u32 option" where
  "strstr m haystack needle = do {
     len_n \<leftarrow> strlen m needle;
     if len_n = 0 then Some haystack
     else do {
       len_h \<leftarrow> strlen m haystack;
       Some (strstr_loop m haystack needle len_h len_n)
     }
   }"

fun memchr_loop :: "nat \<Rightarrow> mem \<Rightarrow> u32 \<Rightarrow> u8 \<Rightarrow> u32" where
  "memchr_loop 0 m p c = 0"
| "memchr_loop (Suc n) m p c = (if c = m p then p else memchr_loop n m (p + 1) c)"

definition memchr :: "mem \<Rightarrow> u32 \<Rightarrow> int \<Rightarrow> u32 \<Rightarrow> u32" where
  "memchr m s c n = memchr_loop (unat n) m s (word_of_int c)"

definition strtok :: "mem \<Rightarrow> u32 \<Rightarrow> u32 \<Rightarrow> u32 \<Rightarrow> (u32 \<times> u32 \<times> mem) option" where
  "strtok m s_prev s delim =
     (let s = (if s = 0 then s_prev else s) in do {
        k \<leftarrow> strspn m s delim;
        let s = s + k;
        if m s = 0 then Some (0, s, m)
        else let token = s in do {
          s \<leftarrow> strpbrk m token delim;
          if s \<noteq> 0 then Some (token, s + 1, m(s := 0))
          else Some (token, memchr m token 0 (- 1), m)
        }
      })"

partial_function (option) strcpy_loop :: "mem \<Rightarrow> u32 \<Rightarrow> u32 \<Rightarrow> mem option" where
  "strcpy_loop m dest src =
     (let c = m src; m = m(dest := c)
      in if c \<noteq> 0 then strcpy_loop m (dest + 1) (src + 1) else Some m)"

definition strcpy :: "mem \<Rightarrow> u32 \<Rightarrow> u32 \<Rightarrow> (u32 \<times> mem) option" where
  "strcpy m dest src = do { m \<leftarrow> strcpy_loop m dest src; Some (dest, m) }"

section \<open>Characters\<close>

text \<open>The codes are ASCII: 9 to 13 are the white space controls, 32 the blank, 43 and 45 the signs,
  48 to 57 the digits, 65 to 90 and 97 to 122 the letters.\<close>

definition isspace :: "int \<Rightarrow> bool" where
  "isspace c \<longleftrightarrow> c = 32 \<or> c = 9 \<or> c = 10 \<or> c = 11 \<or> c = 12 \<or> c = 13"

definition isdigit :: "int \<Rightarrow> bool" where
  "isdigit c \<longleftrightarrow> 48 \<le> c \<and> c \<le> 57"

definition isalpha :: "int \<Rightarrow> bool" where
  "isalpha c \<longleftrightarrow> uint ((word_of_int c :: u8) OR 32) - 97 < 26"

definition isupper :: "int \<Rightarrow> bool" where
  "isupper c \<longleftrightarrow> 65 \<le> c \<and> c \<le> 90"

definition islower :: "int \<Rightarrow> bool" where
  "islower c \<longleftrightarrow> 97 \<le> c \<and> c \<le> 122"

section \<open>Numbers\<close>

partial_function (option) skip_space :: "mem \<Rightarrow> u32 \<Rightarrow> u32 option" where
  "skip_space m nptr = (if isspace (sint (m nptr)) then skip_space m (nptr + 1) else Some nptr)"

partial_function (option) atoi_loop :: "mem \<Rightarrow> u32 \<Rightarrow> int \<Rightarrow> (u32 \<times> int) option" where
  "atoi_loop m nptr res =
     (let d = (word_of_int (sint (m nptr) - 48) :: u32)
      in if d > 9 then Some (nptr, res)
         else atoi_loop m (nptr + 1) (sint (word_of_int (res * 10 + uint d) :: u32)))"

definition atoi :: "mem \<Rightarrow> u32 \<Rightarrow> int option" where
  "atoi m nptr = do {
     nptr \<leftarrow> skip_space m nptr;
     let (nptr, neg) = (if m nptr = 45 then (nptr + 1, True)
                        else if m nptr = 43 then (nptr + 1, False) else (nptr, False));
     (nptr, res) \<leftarrow> atoi_loop m nptr 0;
     Some (if neg then sint (word_of_int (- res) :: u32) else res)
   }"

text \<open>
  \<^verbatim>\<open>strtol\<close> and \<^verbatim>\<open>strtoll\<close> have the same text over \<^verbatim>\<open>unsigned long\<close> and
  \<^verbatim>\<open>unsigned long long\<close>; the parts they share are functions of the width of the result.
\<close>

definition strtol_base :: "mem \<Rightarrow> u32 \<Rightarrow> int \<Rightarrow> u32 \<times> int" where
  "strtol_base m nptr base =
     (if base = 0 \<or> base = 16 then
        (if m nptr = 48 then
           (if m (nptr + 1) = 120 \<or> m (nptr + 1) = 88 then (nptr + 2, 16) else (nptr + 1, 8))
         else (nptr, 10))
      else (nptr, base))"

definition digit_val :: "u8 \<Rightarrow> u32 option" where
  "digit_val ch =
     (let c = scast ch; l = c OR 32
      in if isdigit (sint c) then Some (c - 48)
         else if islower (sint l) then Some (l - 97 + 10)
         else None)"

partial_function (option) strtol_loop :: "mem \<Rightarrow> 'a::len word \<Rightarrow> int \<Rightarrow> u32 \<Rightarrow> 'a word \<Rightarrow> (u32 \<times> 'a word) option" where
  "strtol_loop m clamp base nptr res =
     (case digit_val (m nptr) of
        None \<Rightarrow> Some (nptr, res)
      | Some val \<Rightarrow>
          if val \<ge> word_of_int base then Some (nptr, res)
          else if res AND push_bit (LENGTH('a) - kfls (word_of_int base)) (- 1) \<noteq> 0
                  \<and> res > (clamp - ucast val) div word_of_int base then Some (nptr, clamp)
          else strtol_loop m clamp base (nptr + 1) (res * word_of_int base + ucast val))"

definition strtol_sign :: "mem \<Rightarrow> 'a::len word \<Rightarrow> u32 \<Rightarrow> u32 \<times> bool \<times> 'a word" where
  "strtol_sign m unsigned_max nptr =
     (if m nptr = 45 then (nptr + 1, True, push_bit (LENGTH('a) - 1) 1)
      else if m nptr = 43 then (nptr + 1, False, push_bit (LENGTH('a) - 1) 1 - 1)
      else (nptr, False, unsigned_max))"

definition strtol_body :: "mem \<Rightarrow> 'a::len word \<Rightarrow> u32 \<Rightarrow> int \<Rightarrow> (int \<times> u32) option" where
  "strtol_body m unsigned_max start base = do {
     nptr \<leftarrow> skip_space m start;
     let (nptr, neg, clamp) = strtol_sign m unsigned_max nptr;
     let (nptr, base) = strtol_base m nptr base;
     (nptr, res) \<leftarrow> strtol_loop m clamp base nptr 0;
     Some (if neg then sint (- res) else sint res, if res \<noteq> 0 then nptr else start)
   }"

text \<open>The results are the number and what is stored through \<^verbatim>\<open>endptr\<close> if it is not null.  The
  largest unsigned value of \<^verbatim>\<open>strtoll\<close> is cast to \<^verbatim>\<open>unsigned long\<close>.\<close>

definition strtol :: "mem \<Rightarrow> u32 \<Rightarrow> int \<Rightarrow> (int \<times> u32) option" where
  "strtol m nptr base = strtol_body m (- 1 :: u32) nptr base"

definition strtoll :: "mem \<Rightarrow> u32 \<Rightarrow> int \<Rightarrow> (int \<times> u32) option" where
  "strtoll m nptr base = strtol_body m (ucast (ucast (- 1 :: u64) :: u32) :: u64) nptr base"

declare strcmp.simps [code] accept_loop.simps [code]
  strpbrk.simps [code] strspn_loop.simps [code] strchr_loop.simps [code]
  strlen_loop.simps [code] strcpy_loop.simps [code] skip_space.simps [code]
  atoi_loop.simps [code] strtol_loop.simps [code]

end
