(* ===== verification/Kstring_Spec.thy ===== *)
theory Kstring_Spec
  imports Kstring "HOL-Library.Sublist"
begin

text \<open>
  What the string functions compute.  \<open>cstr m p xs\<close> says that the string \<open>xs\<close> with its
  terminator is stored at \<open>p\<close>; on such strings every loop ends, and the functions are the
  corresponding functions on lists of characters.
\<close>

lemma unat_of_nat_small: "n < 2 ^ 32 \<Longrightarrow> unat (of_nat n :: u32) = n"
  by (simp add: unat_of_nat)

fun cstr :: "mem \<Rightarrow> u32 \<Rightarrow> u8 list \<Rightarrow> bool" where
  "cstr m p [] \<longleftrightarrow> m p = 0"
| "cstr m p (x # xs) \<longleftrightarrow> x \<noteq> 0 \<and> m p = x \<and> cstr m (p + 1) xs"

lemma cstr_append: "cstr m p (xs @ ys) \<Longrightarrow> cstr m (p + of_nat (length xs)) ys"
  by (induction xs arbitrary: p) (auto simp flip: add.assoc)

lemma cstr_drop: "cstr m p xs \<Longrightarrow> i \<le> length xs \<Longrightarrow> cstr m (p + of_nat i) (drop i xs)"
  using cstr_append [of m p "take i xs" "drop i xs"] by simp

lemma cstr_unique: "cstr m p xs \<Longrightarrow> cstr m p ys \<Longrightarrow> xs = ys"
proof (induction xs arbitrary: p ys)
  case Nil
  then show ?case by (cases ys) auto
next
  case (Cons x xs)
  then show ?case by (cases ys) auto
qed

lemma cstr_nth: "cstr m p xs \<Longrightarrow> i < length xs \<Longrightarrow> m (p + of_nat i) = xs ! i \<and> xs ! i \<noteq> 0"
proof (induction xs arbitrary: p i)
  case (Cons x xs)
  then show ?case
    by (cases i) (auto simp: add.assoc [symmetric])
qed simp

lemma cstr_end: "cstr m p xs \<Longrightarrow> m (p + of_nat (length xs)) = 0"
  using cstr_append [of m p xs "[]"] by simp

lemma cstr_nonzero: "cstr m p xs \<Longrightarrow> x \<in> set xs \<Longrightarrow> x \<noteq> 0"
  by (induction xs arbitrary: p) auto

text \<open>A string is shorter than the address space.\<close>

lemma cstr_length: "cstr m p xs \<Longrightarrow> length xs < 2 ^ 32"
proof (rule ccontr)
  assume c: "cstr m p xs" and "\<not> length xs < 2 ^ 32"
  then have le: "2 ^ 32 \<le> length xs" by simp
  define i where "i = length xs - 2 ^ 32"
  have "i < length xs" using le by (simp add: i_def)
  from cstr_nth [OF c this] have "m (p + of_nat i) \<noteq> 0" by simp
  moreover have "(of_nat (length xs) :: u32) = of_nat i"
    using le by (simp add: i_def of_nat_diff)
  ultimately show False using cstr_end [OF c] by simp
qed

section \<open>The loops on strings\<close>

lemma strlen_eq: "cstr m p xs \<Longrightarrow> strlen m p = Some (of_nat (length xs))"
proof -
  have "cstr m q xs \<Longrightarrow> strlen_loop m q = Some (q + of_nat (length xs))" for q
    by (induction xs arbitrary: q) (simp_all add: strlen_loop.simps add.assoc)
  then show "cstr m p xs \<Longrightarrow> ?thesis" by (simp add: strlen_def)
qed

lemma accept_eq: "cstr m a as \<Longrightarrow> accept_loop m c a = Some (c \<in> set as)"
  by (induction as arbitrary: a) (simp_all add: accept_loop.simps)

lemma strpbrk_eq:
  assumes "cstr m a as"
  shows "cstr m s xs \<Longrightarrow> strpbrk m s a = Some
     (if set xs \<inter> set as = {} then 0 else s + of_nat (length (takeWhile (\<lambda>x. x \<notin> set as) xs)))"
proof (induction xs arbitrary: s)
  case (Cons x xs)
  then have IH: "strpbrk m (s + 1) a = Some (if set xs \<inter> set as = {} then 0
      else s + 1 + of_nat (length (takeWhile (\<lambda>x. x \<notin> set as) xs)))" by simp
  have "strpbrk m s a = (if x \<in> set as then Some s else strpbrk m (s + 1) a)"
    using Cons.prems accept_eq [OF assms] by (subst strpbrk.simps) auto
  with IH show ?case by (auto simp: add.assoc)
qed (simp add: strpbrk.simps)

lemma strspn_eq:
  assumes "cstr m a as" "cstr m s xs"
  shows "strspn m s a = Some (of_nat (length (takeWhile (\<lambda>x. x \<in> set as) xs)))"
proof -
  have "cstr m q xs \<Longrightarrow> strspn_loop m q a n = Some (n + of_nat (length (takeWhile (\<lambda>x. x \<in> set as) xs)))" for q n
  proof (induction xs arbitrary: q n)
    case (Cons x xs)
    then have "strspn_loop m q a n = (if x \<in> set as then strspn_loop m (q + 1) a (n + 1) else Some n)"
      using accept_eq [OF assms(1)] by (subst strspn_loop.simps) auto
    with Cons show ?case by (auto simp: add.assoc)
  qed (simp add: strspn_loop.simps)
  with assms show ?thesis by (simp add: strspn_def)
qed

lemma memchr_terminator:
  assumes "cstr m p xs"
  shows "memchr m p 0 (- 1) = (if length xs < 2 ^ 32 - 1 then p + of_nat (length xs) else 0)"
proof -
  have "cstr m q xs \<Longrightarrow> memchr_loop n m q 0 = (if length xs < n then q + of_nat (length xs) else 0)" for q n
  proof (induction xs arbitrary: q n)
    case Nil
    then show ?case by (cases n) auto
  next
    case (Cons x xs)
    then show ?case by (cases n) (auto simp: add.assoc)
  qed
  moreover have "unat (- 1 :: u32) = 2 ^ 32 - 1" by (simp add: unsigned_minus_1_eq_mask mask_eq_exp_minus_1)
  ultimately show ?thesis using assms by (simp add: memchr_def)
qed

text \<open>The reference for the comparison: the order of lists of unsigned characters.\<close>

definition str_order :: "u8 list \<Rightarrow> u8 list \<Rightarrow> int" where
  "str_order xs ys = (if xs = ys then 0 else if ord_class.lexordp xs ys then - 1 else 1)"

lemma strcmp_eq: "cstr m s xs \<Longrightarrow> cstr m t ys \<Longrightarrow> strcmp m s t = Some (str_order xs ys)"
proof (induction xs arbitrary: s t ys)
  case Nil
  then show ?case by (cases ys) (auto simp: strcmp.simps [of m s t] str_order_def word_gt_0)
next
  case (Cons x xs)
  show ?case
  proof (cases ys)
    case Nil
    with Cons.prems show ?thesis by (simp add: strcmp.simps [of m s t] str_order_def)
  next
    case (Cons y zs)
    with Cons.prems Cons.IH [of "s + 1" "t + 1" zs] show ?thesis
      by (auto simp: strcmp.simps [of m s t] str_order_def)
  qed
qed

section \<open>Substrings\<close>

definition occurs :: "u8 list \<Rightarrow> u8 list \<Rightarrow> nat \<Rightarrow> bool" where
  "occurs ys xs i \<longleftrightarrow> i \<le> length xs \<and> prefix ys (drop i xs)"

lemma memcmp_prefix:
  "cstr m s xs \<Longrightarrow> cstr m t ys \<Longrightarrow> length ys \<le> length xs \<Longrightarrow> memcmp_loop (length ys) m s t = 0 \<longleftrightarrow> prefix ys xs"
proof (induction ys arbitrary: xs s t)
  case (Cons y ys)
  then obtain x zs where "xs = x # zs" by (cases xs) auto
  with Cons show ?case by auto
qed simp

lemma occurs_Cons: "occurs ys (x # xs) (Suc i) \<longleftrightarrow> occurs ys xs i"
  by (simp add: occurs_def)

lemma least_occurs_Cons:
  assumes "\<not> occurs ys (x # xs) 0"
  shows "(\<exists>i. occurs ys (x # xs) i) \<longleftrightarrow> (\<exists>i. occurs ys xs i)"
    and "occurs ys xs i \<Longrightarrow> (LEAST i. occurs ys (x # xs) i) = Suc (LEAST i. occurs ys xs i)"
proof -
  show "(\<exists>i. occurs ys (x # xs) i) \<longleftrightarrow> (\<exists>i. occurs ys xs i)"
    using assms by (metis occurs_Cons old.nat.exhaust)
  assume "occurs ys xs i"
  then have "occurs ys (x # xs) (Suc i)" by (simp add: occurs_Cons)
  from Least_Suc [OF this assms] show "(LEAST i. occurs ys (x # xs) i) = Suc (LEAST i. occurs ys xs i)"
    by (simp add: occurs_Cons)
qed

declare strstr_loop.simps [simp del]

lemma occurs_short: "occurs ys xs i \<Longrightarrow> length ys \<le> length xs"
  by (auto simp: occurs_def dest!: prefix_length_le)

lemma strstr_loop_eq:
  assumes "cstr m t ys" "ys \<noteq> []"
  shows "cstr m h xs \<Longrightarrow> strstr_loop m h t (of_nat (length xs)) (of_nat (length ys)) =
     (if \<exists>i. occurs ys xs i then h + of_nat (LEAST i. occurs ys xs i) else 0)"
proof (induction xs arbitrary: h)
  case Nil
  have "(of_nat (length ys) :: u32) \<noteq> 0"
    using assms cstr_length [OF assms(1)] by (simp add: word_of_nat_eq_0_iff nat_dvd_not_less)
  moreover have "\<nexists>i. occurs ys [] i" using occurs_short [of ys "[]"] assms(2) by auto
  ultimately show ?case by (simp add: strstr_loop.simps)
next
  case (Cons x xs)
  have len: "unat (of_nat (length ys) :: u32) = length ys" "unat (of_nat (length (x # xs)) :: u32) = length (x # xs)"
    using cstr_length [OF assms(1)] cstr_length [OF Cons.prems] by (simp_all only: unat_of_nat_small)
  then have nz: "(of_nat (length ys) :: u32) \<noteq> 0" using assms(2) by (metis length_0_conv unat_0)
  show ?case
  proof (cases "length ys \<le> length (x # xs)")
    case False
    then show ?thesis
      using occurs_short [of ys "x # xs"] nz len by (auto simp: strstr_loop.simps [of m h] word_le_nat_alt)
  next
    case True
    have mc: "memcmp m h t (of_nat (length ys)) = 0 \<longleftrightarrow> occurs ys (x # xs) 0"
      using memcmp_prefix [OF Cons.prems assms(1) True] len by (simp add: memcmp_def occurs_def)
    have st: "strstr_loop m h t (of_nat (length (x # xs))) (of_nat (length ys)) =
        (if occurs ys (x # xs) 0 then h else strstr_loop m (h + 1) t (of_nat (length xs)) (of_nat (length ys)))"
      using True nz mc len by (simp add: strstr_loop.simps [of m h] word_le_nat_alt)
    show ?thesis
    proof (cases "occurs ys (x # xs) 0")
      case True
      then have "(LEAST i. occurs ys (x # xs) i) = 0" by (simp add: Least_equality)
      with True st show ?thesis by auto
    next
      case False
      with Cons st least_occurs_Cons [OF False] show ?thesis by (auto simp: add.assoc)
    qed
  qed
qed

text \<open>\<^verbatim>\<open>strstr\<close> always returns on strings, with the address of the first occurrence of the
  needle, or with null if there is none; the empty needle is found at once.\<close>

theorem strstr_correct:
  assumes "cstr m h xs" "cstr m t ys"
  shows "strstr m h t = Some (if \<exists>i. occurs ys xs i then h + of_nat (LEAST i. occurs ys xs i) else 0)"
proof (cases "ys = []")
  case True
  then have "occurs ys xs 0" by (simp add: occurs_def)
  then have "(LEAST i. occurs ys xs i) = 0" by (simp add: Least_equality)
  with True \<open>occurs ys xs 0\<close> strlen_eq [OF assms(2)] show ?thesis by (auto simp: strstr_def)
next
  case False
  have "(of_nat (length ys) :: u32) \<noteq> 0"
    using False cstr_length [OF assms(2)] by (simp add: word_of_nat_eq_0_iff nat_dvd_not_less)
  with strstr_loop_eq [OF assms(2) False assms(1)] strlen_eq [OF assms(1)] strlen_eq [OF assms(2)]
  show ?thesis by (simp add: strstr_def)
qed

definition demo_text :: mem where
  "demo_text = (\<lambda>a. 0)(16 := 97, 17 := 98, 18 := 97, 19 := 98, 20 := 99, 32 := 97, 33 := 98, 34 := 99)"

theorem strstr_correct_witness: "strstr demo_text 16 32 = Some 18"
proof -
  have "cstr demo_text 16 [97, 98, 97, 98, 99]" "cstr demo_text 32 [97, 98, 99]"
    by (simp_all add: demo_text_def)
  moreover have "(LEAST i. occurs [97, 98, 99] [97, 98, 97, 98, 99] i) = 2"
    by (rule Least_equality) (auto simp: occurs_def numeral_2_eq_2 less_Suc_eq le_Suc_eq not_less_eq_eq intro: Suc_leI)
  moreover have "occurs [97, 98, 99] [97, 98, 97, 98, 99] 2" by (simp add: occurs_def)
  ultimately show ?thesis using strstr_correct [of demo_text 16 "[97, 98, 97, 98, 99]" 32 "[97, 98, 99]"] by auto
qed

section \<open>Tokens\<close>

text \<open>The tokens of a string are its maximal parts without delimiters.\<close>

function tokens :: "u8 set \<Rightarrow> u8 list \<Rightarrow> u8 list list" where
  "tokens D xs =
     (let ys = dropWhile (\<lambda>x. x \<in> D) xs
      in if ys = [] then [] else takeWhile (\<lambda>x. x \<notin> D) ys # tokens D (drop 1 (dropWhile (\<lambda>x. x \<notin> D) ys)))"
  by pat_completeness auto
termination
proof (relation "measure (\<lambda>(D, xs). length xs)")
  fix D xs ys
  assume y: "ys = dropWhile (\<lambda>x. x \<in> D) xs" "ys \<noteq> []"
  have "length ys \<le> length xs" unfolding y(1) by (rule length_dropWhile_le)
  moreover have "length (dropWhile (\<lambda>x. x \<notin> D) ys) \<le> length ys" by (rule length_dropWhile_le)
  moreover have "0 < length ys" using y(2) by simp
  ultimately have "length (dropWhile (\<lambda>x. x \<notin> D) ys) - 1 < length xs" by linarith
  then show "((D, drop 1 (dropWhile (\<lambda>x. x \<notin> D) ys)), (D, xs)) \<in> measure (\<lambda>(D, xs). length xs)"
    by simp
qed simp

declare tokens.simps [simp del]

text \<open>A client that calls \<^verbatim>\<open>strtok\<close> with the string and then with null until null is returned.\<close>

fun strtok_all :: "nat \<Rightarrow> mem \<Rightarrow> u32 \<Rightarrow> u32 \<Rightarrow> u32 \<Rightarrow> (u32 list \<times> mem) option" where
  "strtok_all 0 m s_prev s delim = None"
| "strtok_all (Suc n) m s_prev s delim = do {
     (t, s_prev, m) \<leftarrow> strtok m s_prev s delim;
     if t = 0 then Some ([], m)
     else do { (ts, m) \<leftarrow> strtok_all n m s_prev 0 delim; Some (t # ts, m) }
   }"

lemma cstr_cong: "cstr m p xs \<Longrightarrow> (\<And>i. i \<le> length xs \<Longrightarrow> m' (p + of_nat i) = m (p + of_nat i)) \<Longrightarrow> cstr m' p xs"
proof (induction xs arbitrary: p)
  case Nil
  from Nil.prems(2) [of 0] Nil.prems(1) show ?case by simp
next
  case (Cons x xs)
  have "m' (p + 1 + of_nat i) = m (p + 1 + of_nat i)" if "i \<le> length xs" for i
    using Cons.prems(2) [of "Suc i"] that by (simp add: add.assoc)
  with Cons.IH [of "p + 1"] Cons.prems(1) Cons.prems(2) [of 0] show ?case by simp
qed

definition area :: "u32 \<Rightarrow> nat \<Rightarrow> u32 set" where
  "area p n = {a. unat p \<le> unat a \<and> unat a \<le> unat p + n}"

lemma area_at: "unat p + n < 2 ^ 32 \<Longrightarrow> i \<le> n \<Longrightarrow> unat (p + of_nat i) = unat p + i" for p :: u32
  by (simp add: unat_word_ariths unat_of_nat)

lemma cstr_write:
  assumes "cstr m p (xs @ x # zs)" "unat p + length (xs @ x # zs) < 2 ^ 32"
  shows "cstr (m(p + of_nat (length xs) := 0)) p xs"
    and "cstr (m(p + of_nat (length xs) := 0)) (p + of_nat (length xs) + 1) zs"
proof -
  let ?e = "p + of_nat (length xs)"
  have e: "unat ?e = unat p + length xs" using assms(2) by (intro area_at) auto
  have "p + of_nat i \<noteq> ?e" if "i < length xs" for i
    using area_at [of p "length (xs @ x # zs)" i] assms(2) e that by auto
  then show "cstr (m(?e := 0)) p xs"
    using assms(1)
  proof (induction xs arbitrary: p)
    case (Cons y ys)
    have a: "p + of_nat (length (y # ys)) = p + 1 + of_nat (length ys)" by simp
    have ne: "p + 1 + of_nat i \<noteq> p + 1 + of_nat (length ys)" if "i < length ys" for i
      using Cons.prems(1) [of "Suc i"] that by (simp add: add.assoc)
    have "cstr (m(p + 1 + of_nat (length ys) := 0)) (p + 1) ys"
      by (rule Cons.IH) (use ne Cons.prems(2) in auto)
    moreover have "p \<noteq> p + 1 + of_nat (length ys)" using Cons.prems(1) [of 0] by (simp add: add.assoc)
    ultimately show ?case unfolding a using Cons.prems(2)
      by (simp del: fun_upd_apply add: fun_upd_other)
  qed simp
  have "cstr m (?e + 1) zs" using cstr_append [OF assms(1)] by simp
  then show "cstr (m(?e := 0)) (?e + 1) zs"
  proof (rule cstr_cong)
    fix i assume "i \<le> length zs"
    then have "unat (p + of_nat (length xs + 1 + i)) = unat p + (length xs + 1 + i)"
      using assms(2) by (intro area_at) auto
    moreover have "p + of_nat (length xs + 1 + i) = ?e + 1 + of_nat i" by (simp add: add.assoc)
    ultimately have "?e + 1 + of_nat i \<noteq> ?e" using e by (metis add_left_cancel add.assoc add_is_0 one_neq_zero)
    then show "(m(?e := 0)) (?e + 1 + of_nat i) = m (?e + 1 + of_nat i)" by simp
  qed
qed

text \<open>One call, by the shape of the rest of the string.\<close>

lemma strtok_none:
  assumes "cstr m d ds" "cstr m q xs" "q = (if s = 0 then s_prev else s)" "set xs \<subseteq> set ds"
  shows "strtok m s_prev s d = Some (0, q + of_nat (length xs), m)"
proof -
  have "takeWhile (\<lambda>x. x \<in> set ds) xs = xs" using assms(4) by (simp add: subset_iff)
  with strspn_eq [OF assms(1,2)] cstr_end [OF assms(2)] assms(3) show ?thesis
    by (simp add: strtok_def Let_def)
qed

lemma strtok_some:
  assumes "cstr m d ds" "cstr m q (us @ w @ rest)" "q = (if s = 0 then s_prev else s)"
    and "set us \<subseteq> set ds" "w \<noteq> []" "set w \<inter> set ds = {}" "rest \<noteq> [] \<longrightarrow> hd rest \<in> set ds"
    and "q \<noteq> 0" "unat q + length (us @ w @ rest) < 2 ^ 32"
  defines "t \<equiv> q + of_nat (length us)" and "e \<equiv> q + of_nat (length us + length w)"
  shows "t \<noteq> 0" and "strtok m s_prev s d = Some (if rest = [] then (t, e, m) else (t, e + 1, m(e := 0)))"
proof -
  have ut: "unat t = unat q + length us" unfolding t_def by (rule area_at [OF assms(9)]) simp
  have ue: "unat e = unat q + (length us + length w)" unfolding e_def by (rule area_at [OF assms(9)]) simp
  have q: "0 < unat q" using assms(8) by (simp add: unat_gt_0)
  from q ut show "t \<noteq> 0" by auto
  from q ue have e0: "e \<noteq> 0" by auto
  have c: "cstr m t (w @ rest)" unfolding t_def by (rule cstr_append [OF assms(2)])
  obtain x w' where w: "w = x # w'" using assms(5) by (cases w) auto
  then have x: "m t = x" "x \<noteq> 0" "x \<notin> set ds" using c assms(6) by auto
  have "takeWhile (\<lambda>x. x \<in> set ds) (us @ w @ rest) = us"
    using assms(4) x(3) w by (simp add: takeWhile_append2 subset_iff)
  with strspn_eq [OF assms(1,2)] have sp: "strspn m q d = Some (of_nat (length us))" by simp
  have tw: "takeWhile (\<lambda>x. x \<notin> set ds) (w @ rest) = w"
    using assms(6,7) by (cases rest) (auto simp: takeWhile_append2 disjoint_iff)
  have e: "e = t + of_nat (length w)" by (simp add: e_def t_def add.assoc)
  have "set (w @ rest) \<inter> set ds = {} \<longleftrightarrow> rest = []" using assms(6,7) by (cases rest) auto
  with strpbrk_eq [OF assms(1) c] tw have pb: "strpbrk m t d = Some (if rest = [] then 0 else e)" by (simp add: e)
  have "memchr m t 0 (- 1) = e" if "rest = []"
    using memchr_terminator [OF c] that assms(9) q by (simp add: e)
  with sp pb x(1,2) e0 show "strtok m s_prev s d = Some (if rest = [] then (t, e, m) else (t, e + 1, m(e := 0)))"
    unfolding strtok_def assms(3) [symmetric] by (simp add: t_def [symmetric] Let_def)
qed

lemma tokens_none: "set xs \<subseteq> D \<Longrightarrow> tokens D xs = []"
  by (simp add: tokens.simps [of D xs] subset_iff)

lemma tokens_some:
  assumes "set us \<subseteq> D" "w \<noteq> []" "set w \<inter> D = {}" "rest \<noteq> [] \<longrightarrow> hd rest \<in> D"
  shows "tokens D (us @ w @ rest) = w # tokens D (drop 1 rest)"
proof -
  obtain x w' where w: "w = x # w'" using assms(2) by (cases w) auto
  have "dropWhile (\<lambda>x. x \<in> D) (us @ w @ rest) = w @ rest"
    using assms(1,3) w by (simp add: dropWhile_append2 subset_iff)
  moreover have "takeWhile (\<lambda>x. x \<notin> D) (w @ rest) = w" "dropWhile (\<lambda>x. x \<notin> D) (w @ rest) = rest"
    using assms(3,4) by (cases rest; auto simp: takeWhile_append2 dropWhile_append2 disjoint_iff)+
  ultimately show ?thesis using assms(2) by (simp add: tokens.simps [of D "us @ w @ rest"])
qed

lemma token_split:
  obtains "set xs \<subseteq> D"
  | us w rest where "xs = us @ w @ rest" "set us \<subseteq> D" "w \<noteq> []" "set w \<inter> D = {}" "rest \<noteq> [] \<longrightarrow> hd rest \<in> D"
proof -
  define ys where "ys = dropWhile (\<lambda>x. x \<in> D) xs"
  have a: "xs = takeWhile (\<lambda>x. x \<in> D) xs @ takeWhile (\<lambda>x. x \<notin> D) ys @ dropWhile (\<lambda>x. x \<notin> D) ys"
    by (simp add: ys_def)
  have b: "set (takeWhile (\<lambda>x. x \<in> D) xs) \<subseteq> D" "set (takeWhile (\<lambda>x. x \<notin> D) ys) \<inter> D = {}"
    by (auto dest: set_takeWhileD)
  have c: "dropWhile (\<lambda>x. x \<notin> D) ys \<noteq> [] \<longrightarrow> hd (dropWhile (\<lambda>x. x \<notin> D) ys) \<in> D"
    using hd_dropWhile [of "\<lambda>x. x \<notin> D" ys] by blast
  show ?thesis
  proof (cases "ys = []")
    case True
    then show ?thesis using that(1) by (auto simp: ys_def)
  next
    case False
    then have "hd ys \<notin> D" using hd_dropWhile [of "\<lambda>x. x \<in> D" xs] by (simp add: ys_def)
    with False have "takeWhile (\<lambda>x. x \<notin> D) ys \<noteq> []" by (cases ys) auto
    with a b c show ?thesis using that(2) by blast
  qed
qed

lemma strtok_all_tokens:
  assumes "cstr m d ds" "cstr m q xs" "q = (if s = 0 then s_prev else s)" "q \<noteq> 0" "unat q + length xs < 2 ^ 32"
    and "\<forall>i \<le> length ds. d + of_nat i \<notin> area q (length xs)" "length (tokens (set ds) xs) < n"
  shows "\<exists>ts m'. strtok_all n m s_prev s d = Some (ts, m') \<and> list_all2 (cstr m') ts (tokens (set ds) xs)
           \<and> (\<forall>a. a \<notin> area q (length xs) \<longrightarrow> m' a = m a)"
  using assms
proof (induction "length xs" arbitrary: xs m q s s_prev n rule: less_induct)
  case less
  obtain n' where n: "n = Suc n'" using less.prems(7) by (cases n) auto
  show ?case
  proof (rule token_split [of xs "set ds"])
    assume "set xs \<subseteq> set ds"
    with strtok_none [OF less.prems(1-3)] show ?thesis by (simp add: n tokens_none)
  next
    fix us w rest
    assume x: "xs = us @ w @ rest" "set us \<subseteq> set ds" "w \<noteq> []" "set w \<inter> set ds = {}" "rest \<noteq> [] \<longrightarrow> hd rest \<in> set ds"
    define t e where "t = q + of_nat (length us)" and "e = q + of_nat (length us + length w)"
    note prem = less.prems(2) [unfolded x(1)] less.prems(5) [unfolded x(1)]
    have tk: "tokens (set ds) xs = w # tokens (set ds) (drop 1 rest)" unfolding x(1) by (rule tokens_some [OF x(2-5)])
    have t0: "t \<noteq> 0" unfolding t_def
      by (rule strtok_some(1) [OF less.prems(1) prem(1) less.prems(3) x(2-5) less.prems(4) prem(2)])
    have st: "strtok m s_prev s d = Some (if rest = [] then (t, e, m) else (t, e + 1, m(e := 0)))" unfolding t_def e_def
      by (rule strtok_some(2) [OF less.prems(1) prem(1) less.prems(3) x(2-5) less.prems(4) prem(2)])
    have ct: "cstr m t (w @ rest)" unfolding t_def by (rule cstr_append [OF prem(1)])
    have ut: "unat t = unat q + length us" unfolding t_def by (rule area_at [OF prem(2)]) simp
    have ue: "unat e = unat q + (length us + length w)" unfolding e_def by (rule area_at [OF prem(2)]) simp
    show ?thesis
    proof (cases rest)
      case Nil
      have "cstr m e []" using cstr_end [OF prem(1)] Nil by (simp add: e_def)
      from strtok_none [OF less.prems(1) this, of 0 e] have "strtok m e 0 d = Some (0, e, m)" by simp
      moreover obtain n'' where "n' = Suc n''" using less.prems(7) tk n by (cases n') auto
      ultimately have "strtok_all n m s_prev s d = Some ([t], m)" using st t0 Nil by (simp add: n)
      moreover have "tokens (set ds) [] = []" by (simp add: tokens_none)
      ultimately show ?thesis using ct tk Nil by simp
    next
      case (Cons c zs)
      let ?m = "m(e := 0)"
      have ue1: "unat (e + 1) = unat e + 1"
        using area_at [OF prem(2), of "length us + length w + 1"] Cons ue by (simp add: e_def add_ac)
      have sub: "area (e + 1) (length zs) \<subseteq> area q (length xs)"
        using ue ue1 Cons x(1) by (auto simp: area_def)
      have te: "t + of_nat (length w) = e" by (simp add: t_def e_def add.assoc)
      have lt: "unat t + length (w @ c # zs) < 2 ^ 32" using less.prems(5) ut Cons x(1) by simp
      note cw = cstr_write [OF ct [unfolded Cons] lt, unfolded te]
      have dm: "cstr ?m d ds"
      proof (rule cstr_cong [OF less.prems(1)])
        fix i assume "i \<le> length ds"
        with less.prems(6) have "d + of_nat i \<notin> area q (length xs)" by blast
        moreover have "e \<in> area q (length xs)" using ue x(1) by (auto simp: area_def)
        ultimately show "?m (d + of_nat i) = m (d + of_nat i)" by auto
      qed
      have "\<exists>ts m'. strtok_all n' ?m (e + 1) 0 d = Some (ts, m') \<and> list_all2 (cstr m') ts (tokens (set ds) zs)
           \<and> (\<forall>a. a \<notin> area (e + 1) (length zs) \<longrightarrow> m' a = ?m a)"
      proof (rule less.hyps)
        show "length zs < length xs" using x(1) Cons by simp
        show "e + 1 \<noteq> 0" using ue1 by auto
        show "unat (e + 1) + length zs < 2 ^ 32" using lt ue ue1 ut by simp
        show "length (tokens (set ds) zs) < n'" using less.prems(7) tk Cons n by simp
        show "\<forall>i \<le> length ds. d + of_nat i \<notin> area (e + 1) (length zs)" using sub less.prems(6) by blast
      qed (use dm cw in auto)
      then obtain ts m' where r: "strtok_all n' ?m (e + 1) 0 d = Some (ts, m')" "list_all2 (cstr m') ts (tokens (set ds) zs)"
        "\<forall>a. a \<notin> area (e + 1) (length zs) \<longrightarrow> m' a = ?m a" by blast
      have "cstr m' t w"
      proof (rule cstr_cong [OF cw(1)])
        fix i assume "i \<le> length w"
        then have "unat (t + of_nat i) = unat t + i" by (intro area_at [OF lt]) simp
        with \<open>i \<le> length w\<close> ut ue ue1 have "t + of_nat i \<notin> area (e + 1) (length zs)" by (auto simp: area_def)
        with r(3) show "m' (t + of_nat i) = ?m (t + of_nat i)" by blast
      qed
      moreover have "m' a = m a" if "a \<notin> area q (length xs)" for a
      proof -
        have "a \<noteq> e" using that ue x(1) by (auto simp: area_def)
        with r(3) that sub show ?thesis by auto
      qed
      moreover have "strtok_all n m s_prev s d = Some (t # ts, m')" using st t0 r(1) Cons by (simp add: n)
      ultimately show ?thesis using r(2) tk Cons by auto
    qed
  qed
qed

text \<open>Calling \<^verbatim>\<open>strtok\<close> with a string and then with null until it returns null ends, and the
  results point to the tokens of the string, its maximal parts without a delimiter, in their order,
  each terminated; the memory outside of the string is as before.  The delimiters may not lie in the string.\<close>

theorem strtok_tokens:
  assumes "cstr m d ds" "cstr m s xs" "s \<noteq> 0" "unat s + length xs < 2 ^ 32"
    and "\<forall>i \<le> length ds. d + of_nat i \<notin> area s (length xs)"
  shows "\<exists>ts m'. strtok_all (Suc (length (tokens (set ds) xs))) m s_prev s d = Some (ts, m')
           \<and> list_all2 (cstr m') ts (tokens (set ds) xs) \<and> (\<forall>a. a \<notin> area s (length xs) \<longrightarrow> m' a = m a)"
  by (rule strtok_all_tokens [OF assms(1,2) _ assms(3-5)]) (use assms(3) in auto)

theorem strtok_tokens_witness:
  "\<exists>ts m'. strtok_all 3 demo_text 0 16 33 = Some (ts, m') \<and> list_all2 (cstr m') ts [[97], [97]]"
proof -
  have "cstr demo_text 33 [98, 99]" "cstr demo_text 16 [97, 98, 97, 98, 99]" by (simp_all add: demo_text_def)
  moreover have "\<forall>i \<le> length [98, 99 :: u8]. (33 :: u32) + of_nat i \<notin> area 16 (length [97, 98, 97, 98, 99 :: u8])"
    by (auto simp: area_def le_Suc_eq)
  moreover have "tokens (set [98, 99]) [97, 98, 97, 98, 99] = [[97], [97]]"
    by (simp add: tokens.simps)
  ultimately show ?thesis
    using strtok_tokens [of demo_text 33 "[98, 99]" 16 "[97, 98, 97, 98, 99]" 0] by (auto simp: numeral_3_eq_3)
qed

end
