(* ===== verification/Vsnprintf.thy ===== *)
theory Vsnprintf
  imports Kstring_Spec
begin

text \<open>
  The formatted output of \<^verbatim>\<open>lib/vsnprintf.c\<close>, into a buffer or, if the destination is null, to
  the console.  The state is the memory, the text the console has received and the pointer the
  rendering functions advance.  The argument list is the list of its values; taking a value of
  another kind than the one that was passed is undefined, which is the value \<open>None\<close>, as are
  the traps of the copies.  The rendering of floating point numbers is a parameter.
\<close>

datatype va = VA_int u32 | VA_llong u64 | VA_double u64

type_synonym va_list = "va list"

record pr_state =
  pmem :: mem
  stdout :: "u8 list"
  pbuf :: u32

record fmt_spec =
  fflags :: u32
  width :: u32
  fbase :: u32
  prec :: u32

abbreviation (input) VSN_LEFT :: u32 where "VSN_LEFT \<equiv> 1"
abbreviation (input) VSN_PLUS :: u32 where "VSN_PLUS \<equiv> 2"
abbreviation (input) VSN_SPACE :: u32 where "VSN_SPACE \<equiv> 4"
abbreviation (input) VSN_ZEROPAD :: u32 where "VSN_ZEROPAD \<equiv> 8"
abbreviation (input) VSN_HASH :: u32 where "VSN_HASH \<equiv> 16"
abbreviation (input) VSN_PRECISION :: u32 where "VSN_PRECISION \<equiv> 32"
abbreviation (input) VSN_CHAR :: u32 where "VSN_CHAR \<equiv> 64"
abbreviation (input) VSN_SHORT :: u32 where "VSN_SHORT \<equiv> 128"
abbreviation (input) VSN_LONG :: u32 where "VSN_LONG \<equiv> 256"
abbreviation (input) VSN_UPPERCASE :: u32 where "VSN_UPPERCASE \<equiv> 512"
abbreviation (input) VSN_LONG_LONG :: u32 where "VSN_LONG_LONG \<equiv> 1024"
abbreviation (input) STACK_BUF_SIZE :: nat where "STACK_BUF_SIZE \<equiv> 32"

definition flag :: "fmt_spec \<Rightarrow> u32 \<Rightarrow> bool" where
  "flag spec f \<longleftrightarrow> fflags spec AND f \<noteq> 0"

definition add_flag :: "u32 \<Rightarrow> fmt_spec \<Rightarrow> fmt_spec" where
  "add_flag f spec = spec\<lparr>fflags := fflags spec OR f\<rparr>"

definition clear_flags :: "u32 \<Rightarrow> fmt_spec \<Rightarrow> fmt_spec" where
  "clear_flags f spec = spec\<lparr>fflags := fflags spec AND NOT f\<rparr>"

definition va_int :: "va_list \<Rightarrow> (u32 \<times> va_list) option" where
  "va_int args = (case args of VA_int i # args \<Rightarrow> Some (i, args) | _ \<Rightarrow> None)"

definition va_llong :: "va_list \<Rightarrow> (u64 \<times> va_list) option" where
  "va_llong args = (case args of VA_llong i # args \<Rightarrow> Some (i, args) | _ \<Rightarrow> None)"

section \<open>Output\<close>

definition putchar :: "u8 \<Rightarrow> pr_state \<Rightarrow> pr_state" where
  "putchar c st = st\<lparr>stdout := stdout st @ [c]\<rparr>"

definition sprintc :: "u8 \<Rightarrow> bool \<Rightarrow> u32 \<Rightarrow> pr_state \<Rightarrow> pr_state" where
  "sprintc c str e st =
     (if e \<noteq> 0 \<and> pbuf st > e then st
      else if str then st\<lparr>pmem := (pmem st)(pbuf st := c), pbuf := pbuf st + 1\<rparr>
      else putchar c st)"

fun printn_stdout :: "nat \<Rightarrow> u32 \<Rightarrow> pr_state \<Rightarrow> pr_state" where
  "printn_stdout 0 buf st = st"
| "printn_stdout (Suc n) buf st = printn_stdout n (buf + 1) (putchar (pmem st buf) st)"

definition printn :: "bool \<Rightarrow> u32 \<Rightarrow> u32 \<Rightarrow> pr_state \<Rightarrow> pr_state option" where
  "printn str buf n st =
     (if str then do { m \<leftarrow> memcpy (pbuf st) buf n (pmem st); Some (st\<lparr>pmem := m\<rparr>) }
      else Some (printn_stdout (unat n) buf st))"

section \<open>The format\<close>

definition vsn_strtoi :: "mem \<Rightarrow> u32 \<Rightarrow> (int \<times> u32) option" where
  "vsn_strtoi m start = do {
     nptr \<leftarrow> skip_space m start;
     let (nptr, neg) = (if m nptr = 45 then (nptr + 1, True)
                        else if m nptr = 43 then (nptr + 1, False) else (nptr, False));
     (nptr, res) \<leftarrow> atoi_loop m nptr 0;
     let d = (word_of_int (sint (m nptr) - 48) :: u32);
     Some (if neg then sint (word_of_int (- res) :: u32) else res,
           if d = - 1 then start else nptr)
   }"

partial_function (option) eval_flags_loop :: "mem \<Rightarrow> u32 \<Rightarrow> fmt_spec \<Rightarrow> (u32 \<times> fmt_spec) option" where
  "eval_flags_loop m fmt spec =
     (if m fmt = 45 then eval_flags_loop m (fmt + 1) (add_flag VSN_LEFT spec)
      else if m fmt = 43 then eval_flags_loop m (fmt + 1) (add_flag VSN_PLUS spec)
      else if m fmt = 32 then eval_flags_loop m (fmt + 1) (add_flag VSN_SPACE spec)
      else if m fmt = 48 then eval_flags_loop m (fmt + 1) (add_flag VSN_ZEROPAD spec)
      else if m fmt = 35 then eval_flags_loop m (fmt + 1) (add_flag VSN_HASH spec)
      else Some (fmt, spec))"

definition eval_flags :: "mem \<Rightarrow> u32 \<Rightarrow> fmt_spec \<Rightarrow> (u32 \<times> fmt_spec) option" where
  "eval_flags m fmt spec = do {
     (p, spec) \<leftarrow> eval_flags_loop m fmt (spec\<lparr>fflags := 0\<rparr>);
     Some (p - fmt, spec)
   }"

definition eval_width :: "mem \<Rightarrow> u32 \<Rightarrow> fmt_spec \<Rightarrow> va_list \<Rightarrow> (u32 \<times> fmt_spec \<times> va_list) option" where
  "eval_width m fmt spec args =
     (if isdigit (sint (m fmt)) then do {
        (w, e) \<leftarrow> vsn_strtoi m fmt;
        let spec = (if w = 0 then add_flag VSN_ZEROPAD spec else spec);
        Some (e - fmt, spec\<lparr>width := word_of_int w\<rparr>, args)
      }
      else if m fmt = 42 then do {
        (w, args) \<leftarrow> va_int args;
        let (spec, w) = (if sint w < 0 then (add_flag VSN_LEFT spec, - w) else (spec, w));
        Some (1, spec\<lparr>width := w\<rparr>, args)
      }
      else Some (0, spec\<lparr>width := 0\<rparr>, args))"

definition eval_prec :: "mem \<Rightarrow> u32 \<Rightarrow> fmt_spec \<Rightarrow> va_list \<Rightarrow> (u32 \<times> fmt_spec \<times> va_list) option" where
  "eval_prec m fmt spec args =
     (let spec = spec\<lparr>prec := 0\<rparr>
      in if m fmt \<noteq> 46 then Some (0, spec, args)
         else
           let spec = add_flag VSN_PRECISION spec; p = fmt + 1
           in if isdigit (sint (m p)) then do {
                (w, e) \<leftarrow> vsn_strtoi m p;
                Some (e - fmt, spec\<lparr>prec := word_of_int w\<rparr>, args)
              }
              else if m p = 42 then do {
                (w, args) \<leftarrow> va_int args;
                Some (p + 1 - fmt, spec\<lparr>prec := w\<rparr>, args)
              }
              else Some (p - fmt, spec, args))"

definition eval_length :: "mem \<Rightarrow> u32 \<Rightarrow> fmt_spec \<Rightarrow> u32 \<times> fmt_spec" where
  "eval_length m fmt spec =
     (if m fmt = 104 then
        (if m (fmt + 1) = 104 then (2, add_flag VSN_CHAR spec) else (1, add_flag VSN_SHORT spec))
      else if m fmt = 108 then
        (if m (fmt + 1) = 108 then (2, add_flag VSN_LONG_LONG spec) else (1, add_flag VSN_LONG spec))
      else (0, spec))"

definition config_specifier :: "u8 \<Rightarrow> fmt_spec \<Rightarrow> fmt_spec" where
  "config_specifier c spec =
     (if c = 100 then (clear_flags VSN_HASH spec)\<lparr>fbase := 10\<rparr>
      else if c = 105 then spec\<lparr>fbase := 10\<rparr>
      else if c = 117 then clear_flags (VSN_PLUS OR VSN_SPACE OR VSN_HASH) (spec\<lparr>fbase := 10\<rparr>)
      else if c = 112 \<or> c = 120 then clear_flags (VSN_PLUS OR VSN_SPACE) (spec\<lparr>fbase := 16\<rparr>)
      else if c = 88 then clear_flags (VSN_PLUS OR VSN_SPACE) (add_flag VSN_UPPERCASE (spec\<lparr>fbase := 16\<rparr>))
      else if c = 111 then clear_flags (VSN_PLUS OR VSN_SPACE) (spec\<lparr>fbase := 8\<rparr>)
      else if c = 98 then clear_flags (VSN_PLUS OR VSN_SPACE) (spec\<lparr>fbase := 2\<rparr>)
      else spec\<lparr>fbase := 0\<rparr>)"

section \<open>Rendering\<close>

text \<open>The buffer on the stack holds \<open>n\<close> characters, the list \<open>buf\<close>; it is filled at its end and
  printed backwards.\<close>

function pad_zero :: "u32 \<Rightarrow> u8 list \<Rightarrow> u8 list" where
  "pad_zero limit buf =
     (if length buf < STACK_BUF_SIZE \<and> length buf < unat limit then pad_zero limit (buf @ [48]) else buf)"
  by pat_completeness auto
termination by (relation "measure (\<lambda>(limit, buf). STACK_BUF_SIZE - length buf)") auto

fun sprintc_n :: "nat \<Rightarrow> u8 \<Rightarrow> bool \<Rightarrow> u32 \<Rightarrow> pr_state \<Rightarrow> pr_state" where
  "sprintc_n 0 c str e st = st"
| "sprintc_n (Suc n) c str e st = sprintc_n n c str e (sprintc c str e st)"

fun sprintc_list :: "u8 list \<Rightarrow> bool \<Rightarrow> u32 \<Rightarrow> pr_state \<Rightarrow> pr_state" where
  "sprintc_list [] str e st = st"
| "sprintc_list (c # cs) str e st = sprintc_list cs str e (sprintc c str e st)"

definition hash_buf :: "fmt_spec \<Rightarrow> u8 list \<Rightarrow> u8 list" where
  "hash_buf spec buf =
     (let n = length buf;
          buf = (if n \<noteq> 0 \<and> (n = unat (prec spec) \<or> n = unat (width spec)) then
                   (if n - 1 \<noteq> 0 \<and> fbase spec = 16 then butlast (butlast buf) else butlast buf)
                 else buf);
          buf = (if length buf < STACK_BUF_SIZE \<and> fbase spec = 16
                 then buf @ [if flag spec VSN_UPPERCASE then 120 else 88] else buf)
      in if length buf < STACK_BUF_SIZE then buf @ [48] else buf)"

definition sign_buf :: "bool \<Rightarrow> fmt_spec \<Rightarrow> u8 list \<Rightarrow> u8 list" where
  "sign_buf sign spec buf =
     (let buf = (if (sign \<or> flag spec VSN_PLUS \<or> flag spec VSN_SPACE) \<and> length buf = unat (width spec)
                 then butlast buf else buf)
      in if length buf < STACK_BUF_SIZE then
           (if sign then buf @ [45] else if flag spec VSN_PLUS then buf @ [43]
            else if flag spec VSN_SPACE then buf @ [32] else buf)
         else buf)"

definition render_final :: "bool \<Rightarrow> u32 \<Rightarrow> bool \<Rightarrow> u8 list \<Rightarrow> fmt_spec \<Rightarrow> pr_state \<Rightarrow> u32 \<times> pr_state" where
  "render_final str e sign buf spec st =
     (let buf = (if \<not> flag spec VSN_LEFT then
                   (let buf = pad_zero (prec spec) buf
                    in if flag spec VSN_ZEROPAD then pad_zero (width spec) buf else buf)
                 else buf);
          buf = (if flag spec VSN_HASH then hash_buf spec buf else buf);
          buf = sign_buf sign spec buf;
          pad = (if \<not> flag spec (VSN_LEFT OR VSN_ZEROPAD) then unat (width spec) - length buf else 0);
          st = sprintc_n pad 32 str e st;
          st = sprintc_list (rev buf) str e st;
          len = pad + length buf;
          rest = (if flag spec VSN_LEFT then unat (width spec) - len else 0);
          st = sprintc_n rest 32 str e st
      in (of_nat (len + rest), st))"

fun render_digits :: "nat \<Rightarrow> 'a::len word \<Rightarrow> fmt_spec \<Rightarrow> u8 list" where
  "render_digits 0 v spec = []"
| "render_digits (Suc n) v spec =
     (let digit = ucast (v mod ucast (fbase spec)) :: u8;
          c = (if digit < 10 then 48 + digit
               else if flag spec VSN_UPPERCASE then 65 + digit - 10 else 97 + digit - 10);
          v = v div ucast (fbase spec)
      in c # (if v \<noteq> 0 then render_digits n v spec else []))"

definition render_xlong_to_ascii :: "bool \<Rightarrow> u32 \<Rightarrow> bool \<Rightarrow> u32 \<Rightarrow> fmt_spec \<Rightarrow> pr_state \<Rightarrow> u32 \<times> pr_state" where
  "render_xlong_to_ascii usign value str e spec st =
     (let (sign, value) = (if \<not> usign \<and> sint value < 0 then (True, - value) else (False, value))
      in render_final str e sign (render_digits STACK_BUF_SIZE value spec) spec st)"

definition render_xlong_long_to_ascii :: "bool \<Rightarrow> u64 \<Rightarrow> bool \<Rightarrow> u32 \<Rightarrow> fmt_spec \<Rightarrow> pr_state \<Rightarrow> u32 \<times> pr_state" where
  "render_xlong_long_to_ascii usign val str e spec st =
     (let (sign, value) = (if \<not> usign \<and> sint val < 0 then (True, - val) else (False, val))
      in render_final str e sign (render_digits STACK_BUF_SIZE value spec) spec st)"

definition render_xsigned_integer :: "bool \<Rightarrow> bool \<Rightarrow> u32 \<Rightarrow> fmt_spec \<Rightarrow> va_list \<Rightarrow> pr_state \<Rightarrow> (u32 \<times> va_list \<times> pr_state) option" where
  "render_xsigned_integer usign str e spec args st =
     (if flag spec VSN_LONG_LONG then do {
        (ll, args) \<leftarrow> va_llong args;
        let (n, st) = render_xlong_long_to_ascii usign ll str e spec st;
        Some (n, args, st)
      }
      else do {
        (l, args) \<leftarrow> va_int args;
        let v = (if flag spec VSN_LONG then l
                 else if flag spec VSN_SHORT then scast (ucast l :: u16)
                 else if flag spec VSN_CHAR then scast (ucast l :: u8)
                 else l);
        let (n, st) = render_xlong_to_ascii usign v str e spec st;
        Some (n, args, st)
      })"

definition render_pointer :: "bool \<Rightarrow> u32 \<Rightarrow> fmt_spec \<Rightarrow> va_list \<Rightarrow> pr_state \<Rightarrow> (u32 \<times> va_list \<times> pr_state) option" where
  "render_pointer str e spec args st = do {
     (l, args) \<leftarrow> va_int args;
     let (n, st) = render_xlong_to_ascii True l str e spec st;
     Some (n, args, st)
   }"

definition render_integer :: "u8 \<Rightarrow> bool \<Rightarrow> u32 \<Rightarrow> fmt_spec \<Rightarrow> va_list \<Rightarrow> pr_state \<Rightarrow> (u32 \<times> va_list \<times> pr_state) option" where
  "render_integer c str e spec args st =
     (if c = 100 \<or> c = 105 then render_xsigned_integer False str e spec args st
      else if c = 117 \<or> c = 120 \<or> c = 88 \<or> c = 111 \<or> c = 98 then render_xsigned_integer True str e spec args st
      else if c = 112 then render_pointer str e spec args st
      else Some (0, args, st))"

definition render_char :: "bool \<Rightarrow> u32 \<Rightarrow> fmt_spec \<Rightarrow> va_list \<Rightarrow> pr_state \<Rightarrow> (u32 \<times> va_list \<times> pr_state) option" where
  "render_char str e spec args st = do {
     (i, args) \<leftarrow> va_int args;
     let pad = unat (width spec) - 1;
     let st = (if \<not> flag spec VSN_LEFT then sprintc_n pad 32 str e st else st);
     let st = sprintc (ucast i) str e st;
     let st = (if flag spec VSN_LEFT then sprintc_n pad 32 str e st else st);
     Some (of_nat (1 + pad), args, st)
   }"

definition render_string :: "bool \<Rightarrow> u32 \<Rightarrow> fmt_spec \<Rightarrow> va_list \<Rightarrow> pr_state \<Rightarrow> (u32 \<times> va_list \<times> pr_state) option" where
  "render_string str e spec args st = do {
     (buf, args) \<leftarrow> va_int args;
     if buf = 0 then Some (0, args, st)
     else do {
       len \<leftarrow> strlen (pmem st) buf;
       let len = (if flag spec VSN_PRECISION \<and> len > prec spec then prec spec else len);
       let st = (if \<not> flag spec VSN_LEFT then sprintc_n (unat (width spec)) 32 str e st else st);
       st \<leftarrow> printn str buf len st;
       let rest = (if flag spec VSN_LEFT then unat (width spec) - unat len else 0);
       Some (len + of_nat rest, args, sprintc_n rest 32 str e st)
     }
   }"

type_synonym render_float_fn =
  "bool \<Rightarrow> u32 \<Rightarrow> bool \<Rightarrow> fmt_spec \<Rightarrow> va_list \<Rightarrow> pr_state \<Rightarrow> (u32 \<times> va_list \<times> pr_state) option"

definition render_specifier :: "render_float_fn \<Rightarrow> u8 \<Rightarrow> bool \<Rightarrow> u32 \<Rightarrow> fmt_spec \<Rightarrow> va_list \<Rightarrow> pr_state
    \<Rightarrow> (u32 \<times> va_list \<times> fmt_spec \<times> pr_state) option" where
  "render_specifier render_float c str e spec args st =
     (let spec = config_specifier c spec;
          done = map_option (\<lambda>(n, args, st). (n, args, spec, st))
      in if fbase spec \<noteq> 0 then done (render_integer c str e spec args st)
         else if c = 102 \<or> c = 70 then done (render_float str e False spec args st)
         else if c = 103 then done (render_float str e True spec args st)
         else if c = 99 then done (render_char str e spec args st)
         else if c = 115 then done (render_string str e spec args st)
         else Some (1, args, spec, sprintc c str e st))"

definition decode_format :: "mem \<Rightarrow> u32 \<Rightarrow> fmt_spec \<Rightarrow> va_list \<Rightarrow> (u32 \<times> fmt_spec \<times> va_list) option" where
  "decode_format m begin spec ap = do {
     let fmt = begin;
     (n, spec) \<leftarrow> eval_flags m fmt spec;
     let fmt = fmt + n;
     (n, spec, ap) \<leftarrow> eval_width m fmt spec ap;
     let fmt = fmt + n;
     (n, spec, ap) \<leftarrow> eval_prec m fmt spec ap;
     let fmt = fmt + n;
     let (n, spec) = eval_length m fmt spec;
     Some (fmt + n - begin, spec, ap)
   }"

partial_function (option) scan_percent :: "mem \<Rightarrow> u32 \<Rightarrow> u32 option" where
  "scan_percent m format = (if m format = 0 \<or> m format = 37 then Some format else scan_percent m (format + 1))"

text \<open>The number of characters of plain text that are copied into the buffer; the pointer
  differences are compared as signed numbers and the copy takes an unsigned one.\<close>

definition text_len :: "u32 \<Rightarrow> u32 \<Rightarrow> u32 \<Rightarrow> u32 \<Rightarrow> u32" where
  "text_len tmp format buf e = (if sint (format - tmp) < sint (e - buf) then format - tmp else e - buf)"

partial_function (option) vsn_loop :: "render_float_fn \<Rightarrow> bool \<Rightarrow> u32 \<Rightarrow> u32 \<Rightarrow> fmt_spec \<Rightarrow> va_list \<Rightarrow> pr_state \<Rightarrow> pr_state option" where
  "vsn_loop rf str e format spec ap st =
     (if pmem st format = 0 then Some st
      else do {
        let tmp = format;
        format \<leftarrow> scan_percent (pmem st) format;
        let n = (if str then text_len tmp format (pbuf st) e else format - tmp);
        st \<leftarrow> printn str tmp n st;
        let st = st\<lparr>pbuf := pbuf st + n\<rparr>;
        if str \<and> pbuf st \<ge> e then Some st
        else if pmem st format = 0 then Some st
        else do {
          let format = format + 1;
          (n, spec, ap) \<leftarrow> decode_format (pmem st) format spec ap;
          let format = format + n;
          (r, ap, spec, st) \<leftarrow> render_specifier rf (pmem st format) str (if str then e else 0) spec ap st;
          vsn_loop rf str e (format + 1) spec ap st
        }
      })"

definition vsnprintf :: "render_float_fn \<Rightarrow> u32 \<Rightarrow> u32 \<Rightarrow> u32 \<Rightarrow> va_list \<Rightarrow> mem \<Rightarrow> u8 list \<Rightarrow> (int \<times> mem \<times> u8 list) option" where
  "vsnprintf rf str sz format ap m out =
     (if format = 0 then Some (0, m, out)
      else
        let sz = (if sz > 0x7FFFFFFF then 0x7FFFFFFF else sz);
            e = str + sz;
            (e, sz) = (if e < str then (- 1, - 1 - str) else (e, sz))
        in do {
          st \<leftarrow> vsn_loop rf (str \<noteq> 0) e format \<lparr>fflags = 0, width = 0, fbase = 0, prec = 0\<rparr> ap
                  \<lparr>pmem = m, stdout = out, pbuf = str\<rparr>;
          let m = (if sz \<noteq> 0 \<and> str \<noteq> 0
                   then (if pbuf st < e then (pmem st)(pbuf st := 0) else (pmem st)(e := 0))
                   else pmem st);
          Some (sint (pbuf st - str), m, stdout st)
        })"

declare eval_flags_loop.simps [code] scan_percent.simps [code] vsn_loop.simps [code]
declare pad_zero.simps [simp del]

definition snprintf :: "render_float_fn \<Rightarrow> u32 \<Rightarrow> u32 \<Rightarrow> u32 \<Rightarrow> va_list \<Rightarrow> mem \<Rightarrow> u8 list \<Rightarrow> (int \<times> mem \<times> u8 list) option" where
  "snprintf rf str sz format ap m out = vsnprintf rf str sz format ap m out"

definition sprintf :: "render_float_fn \<Rightarrow> u32 \<Rightarrow> u32 \<Rightarrow> va_list \<Rightarrow> mem \<Rightarrow> u8 list \<Rightarrow> (int \<times> mem \<times> u8 list) option" where
  "sprintf rf str format ap m out = vsnprintf rf str 0x7FFFFFFF format ap m out"

definition vprintf :: "render_float_fn \<Rightarrow> u32 \<Rightarrow> va_list \<Rightarrow> mem \<Rightarrow> u8 list \<Rightarrow> (int \<times> mem \<times> u8 list) option" where
  "vprintf rf format ap m out = vsnprintf rf 0 0x7FFFFFFF format ap m out"

end
