(* ===== verification/Kstring_Num.thy ===== *)
theory Kstring_Num
  imports Kstring_Spec
begin

text \<open>
  The conversions of \<^verbatim>\<open>strtol\<close>, \<^verbatim>\<open>strtoll\<close> and \<^verbatim>\<open>atoi\<close> against the value of a digit string,
  and the inputs on which they differ from what their documentation says.
\<close>

section \<open>Digits\<close>

fun digits_val :: "nat \<Rightarrow> nat list \<Rightarrow> nat \<Rightarrow> nat" where
  "digits_val b [] n = n"
| "digits_val b (d # ds) n = digits_val b ds (n * b + d)"

lemma digits_val_mono: "1 \<le> b \<Longrightarrow> n \<le> digits_val b ds n"
proof (induction ds arbitrary: n)
  case (Cons d ds)
  have "n \<le> n * b + d" using Cons.prems by (simp add: trans_le_add1)
  also have "\<dots> \<le> digits_val b ds (n * b + d)" using Cons by blast
  finally show ?case by simp
qed simp

definition is_digits :: "nat \<Rightarrow> u8 list \<Rightarrow> nat list \<Rightarrow> bool" where
  "is_digits b xs ds \<longleftrightarrow> list_all2 (\<lambda>x d. d < b \<and> digit_val x = Some (of_nat d)) xs ds"

definition no_digit :: "nat \<Rightarrow> u8 \<Rightarrow> bool" where
  "no_digit b x \<longleftrightarrow> (case digit_val x of None \<Rightarrow> True | Some v \<Rightarrow> v \<ge> of_nat b)"

text \<open>The loop computes the value of the digits as long as it does not exceed the clamp.\<close>

lemma strtol_step:
  fixes clamp :: "'a::len word"
  assumes "digit_val (m p) = Some (of_nat d)" "d < b" "b \<le> 36" "n * b + d \<le> unat clamp" "36 \<le> unat clamp"
    "36 < (2 :: nat) ^ LENGTH('a)"
  shows "strtol_loop m clamp (int b) p (of_nat n) = strtol_loop m clamp (int b) (p + 1) (of_nat (n * b + d))"
proof -
  have lt: "unat clamp < 2 ^ LENGTH('a)" by simp
  have u: "unat (of_nat b :: 'a word) = b" "unat (of_nat d :: 'a word) = d"
    using assms by (simp_all add: unat_of_nat)
  have "unat (of_nat d :: u32) = d" using assms by (simp add: unat_of_nat)
  then have uc: "ucast (of_nat d :: u32) = (of_nat d :: 'a word)" by (metis of_nat_unat unsigned_of_nat)
  have dl: "(of_nat d :: 'a word) \<le> clamp" using assms u by (simp add: word_le_nat_alt)
  have "n \<le> n * b + d" using assms(2) by (simp add: trans_le_add1)
  then have "n < 2 ^ LENGTH('a)" using assms(4) lt by linarith
  then have un: "unat (of_nat n :: 'a word) = n" by (simp add: unat_of_nat)
  have "n \<le> (unat clamp - d) div b"
    using assms(2,4) by (simp add: less_eq_div_iff_mult_less_eq)
  then have "\<not> (of_nat n :: 'a word) > (clamp - of_nat d) div of_nat b"
    using un u dl by (simp add: word_less_nat_alt unat_div unat_sub)
  moreover have "\<not> (of_nat d :: u32) \<ge> word_of_int (int b)"
    using assms by (simp add: word_le_nat_alt unat_of_nat)
  ultimately show ?thesis using assms(1) uc by (simp add: strtol_loop.simps [of m clamp "int b" p])
qed

fun bytes_at :: "mem \<Rightarrow> u32 \<Rightarrow> u8 list \<Rightarrow> bool" where
  "bytes_at m p [] \<longleftrightarrow> True"
| "bytes_at m p (x # xs) \<longleftrightarrow> m p = x \<and> bytes_at m (p + 1) xs"

lemma bytes_at_append: "bytes_at m p (xs @ ys) \<longleftrightarrow> bytes_at m p xs \<and> bytes_at m (p + of_nat (length xs)) ys"
  by (induction xs arbitrary: p) (auto simp flip: add.assoc)

lemma strtol_loop_digits:
  fixes clamp :: "'a::len word"
  assumes "is_digits b xs ds" "bytes_at m p (xs @ [z])" "no_digit b z" "2 \<le> b" "b \<le> 36"
    "digits_val b ds n \<le> unat clamp" "36 \<le> unat clamp" "36 < (2 :: nat) ^ LENGTH('a)"
  shows "strtol_loop m clamp (int b) p (of_nat n) = Some (p + of_nat (length xs), of_nat (digits_val b ds n))"
  using assms
proof (induction xs arbitrary: ds p n)
  case Nil
  then have "m p = z" "ds = []" by (simp_all add: is_digits_def)
  with Nil.prems(3) show ?case
    by (auto simp: strtol_loop.simps [of m clamp "int b" p] no_digit_def split: option.splits)
next
  case (Cons x xs)
  then obtain d ds' where d: "ds = d # ds'" "d < b" "digit_val x = Some (of_nat d)" "is_digits b xs ds'"
    by (auto simp: is_digits_def list_all2_Cons1)
  from Cons.prems(2) have x: "m p = x" "bytes_at m (p + 1) (xs @ [z])" by simp_all
  have "n * b + d \<le> digits_val b ds' (n * b + d)" using Cons.prems(4) by (intro digits_val_mono) simp
  with Cons.prems(6) d(1) have le: "n * b + d \<le> unat clamp" by simp
  have "strtol_loop m clamp (int b) p (of_nat n) = strtol_loop m clamp (int b) (p + 1) (of_nat (n * b + d))"
    by (rule strtol_step) (use x d le Cons.prems in auto)
  also have "\<dots> = Some (p + 1 + of_nat (length xs), of_nat (digits_val b ds' (n * b + d)))"
    by (rule Cons.IH) (use x d Cons.prems in auto)
  finally show ?case using d by (simp add: add.assoc)
qed

lemma sint_byte: "sint (x :: u8) = c \<Longrightarrow> x = word_of_int c"
  by auto

lemma digit_no_space: "digit_val x = Some d \<Longrightarrow> \<not> isspace (sint x)"
  by (auto simp: isspace_def digit_val_def isdigit_def islower_def Let_def dest!: sint_byte split: if_splits)

lemma digit_no_sign: "digit_val x = Some d \<Longrightarrow> x \<noteq> 45 \<and> x \<noteq> 43"
  by (auto simp: digit_val_def isdigit_def islower_def Let_def split: if_splits)

lemma sign_no_space: "\<not> isspace 45" "\<not> isspace 43"
  by (simp_all add: isspace_def)

lemma skip_space_eq:
  "bytes_at m p (sp @ [y]) \<Longrightarrow> \<forall>x \<in> set sp. isspace (sint x) \<Longrightarrow> \<not> isspace (sint y) \<Longrightarrow>
   skip_space m p = Some (p + of_nat (length sp))"
  by (induction sp arbitrary: p) (auto simp: skip_space.simps add.assoc)

text \<open>The limit up to which a number is converted, by its sign.\<close>

definition sign_limit :: "nat \<Rightarrow> nat \<Rightarrow> u8 list \<Rightarrow> nat" where
  "sign_limit w umax sg = (if sg = [45] then 2 ^ (w - 1) else if sg = [43] then 2 ^ (w - 1) - 1 else umax)"

lemma strtol_body_eq:
  fixes umax :: "'a::len word"
  assumes "bytes_at m s (sp @ sg @ xs @ [z])" "\<forall>x \<in> set sp. isspace (sint x)" "sg = [] \<or> sg = [45] \<or> sg = [43]"
    and "is_digits b xs ds" "xs \<noteq> []" "no_digit b z" "2 \<le> b" "b \<le> 36" "b \<noteq> 16"
    and "digits_val b ds 0 \<le> sign_limit LENGTH('a) (unat umax) sg" "36 \<le> unat umax" "7 \<le> LENGTH('a)"
  shows "strtol_body m umax s (int b) = Some (sint (if sg = [45] then - of_nat (digits_val b ds 0) else of_nat (digits_val b ds 0) :: 'a word),
     if (of_nat (digits_val b ds 0) :: 'a word) = 0 then s else s + of_nat (length (sp @ sg @ xs)))"
proof -
  define q where "q = s + of_nat (length sp)"
  define V where "V = digits_val b ds 0"
  obtain x xs' where x: "xs = x # xs'" using assms(5) by (cases xs) auto
  with assms(4) obtain d where "digit_val x = Some (of_nat d)" by (auto simp: is_digits_def list_all2_Cons1)
  note dig = digit_no_space [OF this] digit_no_sign [OF this]
  have b1: "bytes_at m s sp" "bytes_at m q (sg @ xs @ [z])" "bytes_at m (q + of_nat (length sg)) (xs @ [z])"
    using assms(1) by (simp_all add: bytes_at_append q_def add.assoc)
  have p1: "(64 :: nat) \<le> 2 ^ (LENGTH('a) - 1)"
    using power_increasing [of 6 "LENGTH('a) - 1" "2 :: nat"] assms(12) by simp
  have p2: "(2 :: nat) ^ LENGTH('a) = 2 * 2 ^ (LENGTH('a) - 1)" by (metis len_gt_0 power_eq_if less_numeral_extra(3))
  have up: "unat (push_bit (LENGTH('a) - 1) 1 :: 'a word) = 2 ^ (LENGTH('a) - 1)"
  proof -
    have "push_bit (LENGTH('a) - 1) 1 = (of_nat (2 ^ (LENGTH('a) - 1)) :: 'a word)" by (simp add: push_bit_eq_mult)
    moreover have "(2 :: nat) ^ (LENGTH('a) - 1) < 2 ^ LENGTH('a)" using p2 by simp
    ultimately show ?thesis by (simp only: unat_of_nat mod_less)
  qed
  then have um: "unat (push_bit (LENGTH('a) - 1) 1 - 1 :: 'a word) = 2 ^ (LENGTH('a) - 1) - 1"
    using p1 by (subst unat_minus_one) auto
  define clamp :: "'a word" where "clamp = (if sg = [45] then push_bit (LENGTH('a) - 1) 1
     else if sg = [43] then push_bit (LENGTH('a) - 1) 1 - 1 else umax)"
  have cl: "unat clamp = sign_limit LENGTH('a) (unat umax) sg" using up um by (simp add: clamp_def sign_limit_def)
  have y: "\<not> isspace (sint (m q))" using assms(3) b1(2) dig(1) sign_no_space x by auto
  have "bytes_at m s (sp @ [m q])" using b1(1) by (simp add: bytes_at_append q_def)
  from skip_space_eq [OF this assms(2) y] have sk: "skip_space m s = Some q" by (simp add: q_def)
  have sg: "strtol_sign m umax q = (q + of_nat (length sg), sg = [45], clamp)"
    using assms(3) b1(2) dig(2) x by (auto simp: strtol_sign_def clamp_def)
  have bs: "strtol_base m p (int b) = (p, int b)" for p using assms(7,9) by (auto simp: strtol_base_def)
  have "strtol_loop m clamp (int b) (q + of_nat (length sg)) (of_nat 0) = Some (q + of_nat (length sg) + of_nat (length xs), of_nat V)"
    unfolding V_def
    by (rule strtol_loop_digits [OF assms(4) b1(3) assms(6-8)])
      (use assms(10,11) cl p1 p2 in \<open>auto simp: sign_limit_def split: if_splits\<close>)
  then show ?thesis
    using sk sg bs by (simp add: strtol_body_def V_def [symmetric] q_def add.assoc)
qed

lemma strtol_eq:
  assumes "bytes_at m s (sp @ sg @ xs @ [z])" "\<forall>x \<in> set sp. isspace (sint x)" "sg = [] \<or> sg = [45] \<or> sg = [43]"
    and "is_digits b xs ds" "xs \<noteq> []" "no_digit b z" "2 \<le> b" "b \<le> 36" "b \<noteq> 16"
    and "digits_val b ds 0 \<le> sign_limit 32 (2 ^ 32 - 1) sg"
  shows "strtol m s (int b) = Some (sint (if sg = [45] then - of_nat (digits_val b ds 0) else of_nat (digits_val b ds 0) :: u32),
     if digits_val b ds 0 = 0 then s else s + of_nat (length (sp @ sg @ xs)))"
proof -
  have u: "unat (- 1 :: u32) = 2 ^ 32 - 1" by (simp add: unsigned_minus_1_eq_mask mask_eq_exp_minus_1)
  have "digits_val b ds 0 < 2 ^ 32" using assms(10) by (auto simp: sign_limit_def split: if_splits)
  then have "(of_nat (digits_val b ds 0) :: u32) = 0 \<longleftrightarrow> digits_val b ds 0 = 0"
    by (auto simp: word_of_nat_eq_0_iff dest!: dvd_imp_le)
  with strtol_body_eq [OF assms(1-9), of "- 1 :: u32"] assms(10) u show ?thesis by (simp add: strtol_def)
qed

text \<open>\<^verbatim>\<open>strtol\<close> converts numbers.  After any white space and an optional sign, a non-empty string of
  digits in a base other than 16 that is followed by something else is converted to its value, and the
  end pointer is set behind it if the value is not zero, whenever the value is at most \<^verbatim>\<open>LONG_MAX\<close> after a
  plus, the negative of \<^verbatim>\<open>LONG_MIN\<close> after a minus, or \<^verbatim>\<open>ULONG_MAX\<close> without a sign (when it is returned
  as the \<^verbatim>\<open>long\<close> with the same bits).\<close>

theorem strtol_correct:
  assumes "bytes_at m s (sp @ sg @ xs @ [z])" "\<forall>x \<in> set sp. isspace (sint x)" "sg = [] \<or> sg = [45] \<or> sg = [43]"
    and "is_digits b xs ds" "xs \<noteq> []" "no_digit b z" "2 \<le> b" "b \<le> 36" "b \<noteq> 16"
    and "digits_val b ds 0 \<le> sign_limit 32 (2 ^ 32 - 1) sg"
  shows "strtol m s (int b) = Some (sint (if sg = [45] then - of_nat (digits_val b ds 0) else of_nat (digits_val b ds 0) :: u32),
     if digits_val b ds 0 = 0 then s else s + of_nat (length (sp @ sg @ xs)))"
  by (rule strtol_eq [OF assms])

definition num_text :: mem where
  "num_text = (\<lambda>a. 0)(16 := 32, 17 := 45, 18 := 49, 19 := 50, 20 := 120)"

theorem strtol_correct_witness: "strtol num_text 16 10 = Some (- 12, 20)"
proof -
  have "bytes_at num_text 16 ([32] @ [45] @ [49, 50] @ [120])" by (simp add: num_text_def)
  moreover have "\<forall>x \<in> set [32 :: u8]. isspace (sint x)" by (simp add: isspace_def)
  moreover have "is_digits 10 [49, 50] [1, 2]" "no_digit 10 120"
    by (simp_all add: is_digits_def no_digit_def digit_val_def isdigit_def islower_def)
  ultimately show ?thesis
    using strtol_correct [of num_text 16 "[32]" "[45]" "[49, 50]" 120 10 "[1, 2]"] by (simp add: sign_limit_def)
qed

definition text_at_16 :: "u8 list \<Rightarrow> mem" where
  "text_at_16 xs = (\<lambda>a. if 16 \<le> a \<and> unat a < 16 + length xs then xs ! (unat a - 16) else 0)"

text \<open>\<^verbatim>\<open>strtol\<close> departs from its documentation.  On overflow after a sign it does not return the limit:
  the test is only made when the top bits of the value so far are set, so \<open>+2147483648\<close> is returned as \<^verbatim>\<open>LONG_MIN\<close>
  and \<open>-2147483649\<close> as \<^verbatim>\<open>LONG_MAX\<close>.  An explicit base of 16 is replaced by 10 when the number has no prefix, so \<open>ff\<close>
  is no number and \<open>12\<close> is twelve.\<close>

theorem strtol_departs:
  "map_option fst (strtol (text_at_16 [43, 50, 49, 52, 55, 52, 56, 51, 54, 52, 56]) 16 10) = Some (- 2147483648)
   \<and> map_option fst (strtol (text_at_16 [45, 50, 49, 52, 55, 52, 56, 51, 54, 52, 57]) 16 10) = Some 2147483647
   \<and> strtol (text_at_16 [102, 102]) 16 16 = Some (0, 16)
   \<and> strtol (text_at_16 [49, 50]) 16 16 = Some (12, 18)"
  by code_simp

text \<open>\<^verbatim>\<open>isalpha\<close> accepts every digit: the difference is computed on signed integers, so that every character
  below the letters passes the test as well.\<close>

theorem isalpha_accepts_digits: "isdigit c \<Longrightarrow> isalpha c"
proof -
  assume "isdigit c"
  then have "48 \<le> c" "c \<le> 57" by (simp_all add: isdigit_def)
  then have "c = 48 \<or> c = 49 \<or> c = 50 \<or> c = 51 \<or> c = 52 \<or> c = 53 \<or> c = 54 \<or> c = 55 \<or> c = 56 \<or> c = 57"
    by presburger
  then show ?thesis by (elim disjE) (simp_all add: isalpha_def)
qed

theorem isalpha_accepts_digits_witness: "isalpha 48"
  using isalpha_accepts_digits [of 48] by (simp add: isdigit_def)

end
