(* ===== verification/Vsn_Spec.thy ===== *)
theory Vsn_Spec
  imports Vsnprintf Kstring_Num
begin

text \<open>
  What is printed can be read back: a number printed with \<^verbatim>\<open>%d\<close> is the number that \<^verbatim>\<open>strtol\<close>
  returns for the text in the buffer.  The second part holds the inputs on which the formatted
  output fails.
\<close>

section \<open>Digits\<close>

definition digit_char :: "nat \<Rightarrow> u8" where
  "digit_char d = of_nat (48 + d)"

fun low_digits :: "nat \<Rightarrow> nat \<Rightarrow> nat list" where
  "low_digits 0 v = []"
| "low_digits (Suc n) v = v mod 10 # (if v div 10 \<noteq> 0 then low_digits n (v div 10) else [])"

lemma digits_val_append: "digits_val b (xs @ ys) n = digits_val b ys (digits_val b xs n)"
  by (induction xs arbitrary: n) auto

lemma low_digits_val: "v < 10 ^ n \<Longrightarrow> digits_val 10 (rev (low_digits n v)) 0 = v"
proof (induction n arbitrary: v)
  case (Suc n)
  then have "v div 10 < 10 ^ n" by simp
  with Suc.IH show ?case by (simp add: digits_val_append)
qed simp

lemma low_digits_less: "d \<in> set (low_digits n v) \<Longrightarrow> d < 10"
  by (induction n arbitrary: v) (auto split: if_splits)

lemma low_digits_length: "0 < k \<Longrightarrow> v < 10 ^ k \<Longrightarrow> length (low_digits n v) \<le> k"
proof (induction n arbitrary: v k)
  case (Suc n)
  show ?case
  proof (cases "v div 10 = 0")
    case False
    then have "10 \<le> v" by (simp add: div_eq_0_iff)
    with Suc.prems(2) have k: "1 < k" using Suc.prems(1) by (cases "k = 1") auto
    then obtain j where "k = Suc j" "0 < j" by (cases k) auto
    with Suc.prems(2) Suc.IH [of j "v div 10"] False show ?thesis by auto
  qed (use Suc.prems(1) in auto)
qed simp

lemma low_digits_nonempty: "0 < n \<Longrightarrow> low_digits n v \<noteq> []"
  by (cases n) auto

lemma render_digits_10:
  fixes v :: u32
  assumes "fbase spec = 10"
  shows "render_digits n v spec = map digit_char (low_digits n (unat v))"
proof (induction n arbitrary: v)
  case (Suc n)
  have d: "unat v mod 10 < 10" by simp
  have "v mod 10 = of_nat (unat v mod 10)" by (simp add: word_arith_nat_mod)
  moreover have "unat (of_nat (unat v mod 10) :: u32) = unat v mod 10" by (rule unat_of_nat_small) simp
  ultimately have "ucast (v mod 10) = (of_nat (unat v mod 10) :: u8)" by (metis of_nat_unat)
  moreover have "(of_nat (unat v mod 10) :: u8) < 10"
    by (simp add: word_less_nat_alt unat_of_nat)
  moreover have "v div 10 = 0 \<longleftrightarrow> unat v div 10 = 0" by (simp add: unat_eq_0 [symmetric] unat_div)
  moreover have "unat (v div 10) = unat v div 10" by (simp add: unat_div)
  ultimately show ?case using Suc assms by (simp add: digit_char_def Let_def)
qed simp

lemma digit_char_val: "d < 10 \<Longrightarrow> digit_val (digit_char d) = Some (of_nat d)"
proof -
  assume "d < 10"
  then have "d = 0 \<or> d = 1 \<or> d = 2 \<or> d = 3 \<or> d = 4 \<or> d = 5 \<or> d = 6 \<or> d = 7 \<or> d = 8 \<or> d = 9" by presburger
  then show ?thesis by (elim disjE) (simp_all add: digit_char_def digit_val_def isdigit_def islower_def Let_def)
qed

lemma digits_is_digits: "(\<And>d. d \<in> set ds \<Longrightarrow> d < 10) \<Longrightarrow> is_digits 10 (map digit_char ds) ds"
  by (induction ds) (auto simp: is_digits_def digit_char_val)

section \<open>Printing into a buffer\<close>

fun write_bytes :: "mem \<Rightarrow> u32 \<Rightarrow> u8 list \<Rightarrow> mem" where
  "write_bytes m p [] = m"
| "write_bytes m p (x # xs) = write_bytes (m(p := x)) (p + 1) xs"

lemma sprintc_list_buf:
  "unat (pbuf st) + length xs \<le> unat e + 1 \<Longrightarrow>
   sprintc_list xs True e st = st\<lparr>pmem := write_bytes (pmem st) (pbuf st) xs, pbuf := pbuf st + of_nat (length xs)\<rparr>"
proof (induction xs arbitrary: st)
  case (Cons x xs)
  have le: "\<not> pbuf st > e" using Cons.prems by (simp add: word_less_nat_alt)
  then have s: "sprintc x True e st = st\<lparr>pmem := (pmem st)(pbuf st := x), pbuf := pbuf st + 1\<rparr>"
    by (simp add: sprintc_def)
  show ?case
  proof (cases "xs = []")
    case False
    then have "unat (pbuf st) + 1 < 2 ^ 32" using Cons.prems unat_32 [of e] by (cases xs) auto
    then have "unat (pbuf st + 1) = unat (pbuf st) + 1" using area_at [of "pbuf st" 1 1] by simp
    with Cons.IH [of "sprintc x True e st"] Cons.prems show ?thesis
      by (simp add: s add.assoc del: fun_upd_apply)
  qed (simp add: s del: fun_upd_apply)
qed simp

lemma write_bytes_other: "unat p + length xs \<le> 2 ^ 32 \<Longrightarrow> unat a < unat p \<or> unat p + length xs \<le> unat a \<Longrightarrow> write_bytes m p xs a = m a"
proof (induction xs arbitrary: m p)
  case (Cons x xs)
  show ?case
  proof (cases "xs = []")
    case False
    then have "unat p + 1 < 2 ^ 32" using Cons.prems(1) by (cases xs) auto
    then have "unat (p + 1) = unat p + 1" using area_at [of p 1 1] by simp
    with Cons show ?thesis by auto
  qed (use Cons.prems in auto)
qed simp

lemma write_bytes_at: "unat p + length xs \<le> 2 ^ 32 \<Longrightarrow> bytes_at (write_bytes m p xs) p xs"
proof (induction xs arbitrary: m p)
  case (Cons x xs)
  show ?case
  proof (cases "xs = []")
    case False
    then have "unat p + 1 < 2 ^ 32" using Cons.prems(1) by (cases xs) auto
    then have "unat (p + 1) = unat p + 1" using area_at [of p 1 1] by simp
    with Cons write_bytes_other [of "p + 1" xs p "m(p := x)"] show ?thesis by auto
  qed simp
qed simp

text \<open>\<^verbatim>\<open>%d\<close> with no flags: the digits, after a minus if the number is negative.\<close>

definition dec_text :: "u32 \<Rightarrow> u8 list" where
  "dec_text v = (if sint v < 0 then [45] else []) @ map digit_char (rev (low_digits 32 (unat (if sint v < 0 then - v else v))))"

lemma low_digits_u32: "length (low_digits 32 (unat (v :: u32))) \<le> 10" "low_digits 32 n \<noteq> []"
proof -
  show "low_digits 32 n \<noteq> []" by (rule low_digits_nonempty) simp
  show "length (low_digits 32 (unat v)) \<le> 10"
    by (rule low_digits_length) (use unat_32 [of v] in simp_all)
qed

lemma dec_text_length: "0 < length (dec_text v) \<and> length (dec_text v) \<le> 11"
  using low_digits_u32(1) [of v] low_digits_u32(1) [of "- v"] low_digits_u32(2) by (auto simp: dec_text_def)

lemma render_d:
  assumes "spec = \<lparr>fflags = 0, width = 0, fbase = 10, prec = 0\<rparr>"
  shows "render_xlong_to_ascii False v str e spec st = (of_nat (length (dec_text v)), sprintc_list (dec_text v) str e st)"
proof -
  define w where "w = (if sint v < 0 then - v else v)"
  have ne: "low_digits 32 (unat w) \<noteq> []" and le: "length (low_digits 32 (unat w)) \<le> 10"
    by (rule low_digits_u32)+
  have b: "render_digits 32 w spec = map digit_char (low_digits 32 (unat w))"
    using assms by (intro render_digits_10) simp
  have "sign_buf s spec (map digit_char (low_digits 32 (unat w))) =
      map digit_char (low_digits 32 (unat w)) @ (if s then [45] else [])" for s
    using ne le assms by (simp add: sign_buf_def flag_def)
  with b assms show ?thesis
    by (auto simp: render_xlong_to_ascii_def render_final_def w_def dec_text_def flag_def pad_zero.simps [of 0] rev_map Let_def)
qed

lemma decode_plain:
  assumes "m f = 100"
  shows "decode_format m f spec ap = Some (0, spec\<lparr>fflags := 0, width := 0, prec := 0\<rparr>, ap)"
  using assms by (simp add: decode_format_def eval_flags_def eval_flags_loop.simps eval_width_def eval_prec_def
    eval_length_def isdigit_def Let_def)

lemma memcpy_0: "memcpy d s 0 m = Some m"
  by (simp add: memcpy_def memmove_def)

lemma vsn_d:
  assumes "cstr m f [37, 100]" "str \<noteq> 0" "str < e" "0 < sint (e - str)" "unat str + length (dec_text v) \<le> unat e"
    and "f + 2 \<notin> area str (length (dec_text v))"
  shows "vsn_loop rf True e f \<lparr>fflags = 0, width = 0, fbase = 0, prec = 0\<rparr> [VA_int v] \<lparr>pmem = m, stdout = out, pbuf = str\<rparr>
       = Some \<lparr>pmem = write_bytes m str (dec_text v), stdout = out, pbuf = str + of_nat (length (dec_text v))\<rparr>"
proof -
  let ?st = "\<lparr>pmem = m, stdout = out, pbuf = str\<rparr>"
  let ?spec = "\<lparr>fflags = 0, width = 0, fbase = 10, prec = 0\<rparr>"
  let ?st' = "\<lparr>pmem = write_bytes m str (dec_text v), stdout = out, pbuf = str + of_nat (length (dec_text v))\<rparr>"
  have f: "m f = 37" "m (f + 1) = 100" "m (f + 2) = 0" using assms(1) by (simp_all add: add.commute)
  have sp: "scan_percent m f = Some f" using f by (simp add: scan_percent.simps)
  have tl: "text_len f f str e = 0" using assms(4) by (simp add: text_len_def)
  have dec: "decode_format m (f + 1) \<lparr>fflags = 0, width = 0, fbase = 0, prec = 0\<rparr> [VA_int v]
      = Some (0, \<lparr>fflags = 0, width = 0, fbase = 0, prec = 0\<rparr>, [VA_int v])" using decode_plain [of m "f + 1"] f(2) by simp
  have wl: "sprintc_list (dec_text v) True e ?st = ?st'" using sprintc_list_buf [of ?st "dec_text v" e] assms(5) by simp
  have ren: "render_specifier rf 100 True e \<lparr>fflags = 0, width = 0, fbase = 0, prec = 0\<rparr> [VA_int v] ?st
      = Some (of_nat (length (dec_text v)), [], ?spec, ?st')"
    using render_d [OF refl, of v True e ?st] wl
    by (simp add: render_specifier_def config_specifier_def clear_flags_def render_integer_def
        render_xsigned_integer_def flag_def va_int_def)
  have "write_bytes m str (dec_text v) (f + 2) = m (f + 2)"
    using write_bytes_other [of str "dec_text v" "f + 2" m] assms(5,6) unat_32 [of e] by (auto simp: area_def)
  then have last: "vsn_loop rf True e (f + 2) ?spec [] ?st' = Some ?st'"
    using f(3) by (simp add: vsn_loop.simps [of rf True e "f + 2"])
  have "vsn_loop rf True e f \<lparr>fflags = 0, width = 0, fbase = 0, prec = 0\<rparr> [VA_int v] ?st
      = vsn_loop rf True e (f + 1 + 1) ?spec [] ?st'"
    using f(1,2) sp tl dec ren assms(3)
    by (subst vsn_loop.simps) (simp add: printn_def memcpy_0 Let_def not_le [symmetric])
  with last show ?thesis by (simp add: add.commute)
qed

lemma sint_small: "unat w < 2 ^ 31 \<Longrightarrow> sint w = int (unat w)" for w :: u32
proof -
  assume "unat w < 2 ^ 31"
  then have "int (unat w) < int (2 ^ 31)" by (simp only: of_nat_less_iff)
  then have "uint w < 2 ^ 31" by simp
  moreover have "- (2 ^ 31) \<le> uint w" using unsigned_greater_eq [of w] by (rule order_trans [rotated]) simp
  ultimately have "signed_take_bit 31 (uint w) = uint w" by (intro signed_take_bit_int_eq_self)
  then show ?thesis by (simp add: sint_uint)
qed

lemma write_bytes_append: "write_bytes m p (xs @ [y]) = (write_bytes m p xs)(p + of_nat (length xs) := y)"
  by (induction xs arbitrary: m p) (simp_all add: add.assoc)

lemma neg_small: "sint v < 0 \<Longrightarrow> unat (- v) \<le> 2 ^ 31" for v :: u32
proof -
  assume n: "sint v < 0"
  have "- (2 ^ 31) \<le> sint v" using sint_greater_eq [of v] by simp
  with n have "uint (word_of_int (- sint v) :: u32) = - sint v" by (simp only: uint_word_of_int) simp
  moreover have "word_of_int (- sint v) = - v" by simp
  ultimately have "uint (- v) = - sint v" by simp
  with \<open>- (2 ^ 31) \<le> sint v\<close> show ?thesis by (simp add: unat_eq_nat_uint)
qed

lemma strtol_dec_text:
  assumes "bytes_at m str (dec_text v @ [0])"
  shows "strtol m str 10 = Some (sint v, if v = 0 then str else str + of_nat (length (dec_text v)))"
proof -
  define w where "w = (if sint v < 0 then - v else v)"
  define sg where "sg = (if sint v < 0 then [45 :: u8] else [])"
  define ds where "ds = rev (low_digits 32 (unat w))"
  have t: "dec_text v = sg @ map digit_char ds" by (simp add: dec_text_def sg_def ds_def w_def)
  have V: "digits_val 10 ds 0 = unat w"
    unfolding ds_def by (rule low_digits_val) (use unat_32 [of w] in simp)
  have dig: "is_digits 10 (map digit_char ds) ds" "map digit_char ds \<noteq> []"
    by (auto simp: ds_def intro!: digits_is_digits dest: low_digits_less) (simp add: low_digits_u32)
  have lim: "unat w \<le> sign_limit 32 (2 ^ 32 - 1) sg"
    using neg_small [of v] unat_32 [of w] by (auto simp: sign_limit_def sg_def w_def)
  have "bytes_at m str ([] @ sg @ map digit_char ds @ [0])" using assms t by simp
  then have "strtol m str (int 10) = Some (sint (if sg = [45] then - of_nat (digits_val 10 ds 0) else of_nat (digits_val 10 ds 0) :: u32),
     if digits_val 10 ds 0 = 0 then str else str + of_nat (length ([] @ sg @ map digit_char ds)))"
    by (rule strtol_eq) (use dig lim V in \<open>auto simp: sg_def no_digit_def digit_val_def isdigit_def islower_def\<close>)
  moreover have "unat w = 0 \<longleftrightarrow> v = 0" by (auto simp: w_def unat_eq_0)
  ultimately show ?thesis unfolding t V by (simp add: sg_def w_def)
qed

text \<open>A rendering of floating point numbers for the formats that have none.\<close>

definition no_float :: render_float_fn where
  "no_float str e ex spec args st = None"

text \<open>C28: What \<^verbatim>\<open>snprintf\<close> prints \<^verbatim>\<open>strtol\<close> reads back.  Printing any \<^verbatim>\<open>int\<close> with the format \<^verbatim>\<open>%d\<close> into a buffer of at
  least 12 bytes terminates, returns the length of the text, terminates the text, changes nothing outside of
  the buffer, and converting the text with base 10 returns the number and a pointer behind the text (the start,
  for zero).  The format may not lie in the buffer.\<close>

theorem snprintf_strtol_roundtrip:
  assumes "cstr m f [37, 100]" "f \<noteq> 0" "str \<noteq> 0" "12 \<le> sz" "sz \<le> 0x7FFFFFFF" "unat str + unat sz < 2 ^ 32"
    and "f + 2 \<notin> area str (unat sz)"
  shows "\<exists>r m'. snprintf rf str sz f [VA_int v] m out = Some (r, m', out)
     \<and> strtol m' str 10 = Some (sint v, if v = 0 then str else str + word_of_int r)
     \<and> m' (str + word_of_int r) = 0 \<and> (\<forall>a. a \<notin> area str (unat sz) \<longrightarrow> m' a = m a)"
proof -
  let ?n = "length (dec_text v)" and ?e = "str + sz"
  let ?p = "str + of_nat ?n" and ?w = "write_bytes m str (dec_text v)"
  have n: "?n \<le> 11" "12 \<le> unat sz" "unat sz \<le> 0x7FFFFFFF"
    using dec_text_length [of v] assms(4,5) by (simp_all add: word_le_nat_alt)
  have ue: "unat ?e = unat str + unat sz" using assms(6) by (simp add: unat_word_ariths)
  have up: "unat ?p = unat str + ?n" by (rule area_at [OF assms(6)]) (use n in simp)
  have "sint sz = int (unat sz)" by (rule sint_small) (use n in simp)
  with n have sz: "0 < sint (?e - str)" unfolding add_diff_cancel_left' by linarith
  have "vsn_loop rf True ?e f \<lparr>fflags = 0, width = 0, fbase = 0, prec = 0\<rparr> [VA_int v] \<lparr>pmem = m, stdout = out, pbuf = str\<rparr>
       = Some \<lparr>pmem = ?w, stdout = out, pbuf = ?p\<rparr>"
    by (rule vsn_d [OF assms(1,3) _ sz]) (use ue n assms(7) in \<open>auto simp: word_less_nat_alt area_def\<close>)
  moreover have "\<not> ?e < str" "?p < ?e" "\<not> 0x7FFFFFFF < sz" "sz \<noteq> 0"
    using ue up n assms(5) by (auto simp: word_less_nat_alt)
  ultimately have r: "snprintf rf str sz f [VA_int v] m out = Some (sint (of_nat ?n :: u32), ?w(?p := 0), out)"
    using assms(2,3) by (simp add: snprintf_def vsnprintf_def Let_def)
  have "bytes_at (write_bytes m str (dec_text v @ [0])) str (dec_text v @ [0])"
    using n assms(6) by (intro write_bytes_at) simp
  then have "bytes_at (?w(?p := 0)) str (dec_text v @ [0])" by (simp add: write_bytes_append)
  from strtol_dec_text [OF this] have st: "strtol (?w(?p := 0)) str 10 = Some (sint v, if v = 0 then str else ?p)" .
  have fr: "(?w(?p := 0)) a = m a" if "a \<notin> area str (unat sz)" for a
  proof -
    have "a \<noteq> ?p" using that up n by (auto simp: area_def)
    moreover have "?w a = m a" using that n assms(6) by (intro write_bytes_other) (auto simp: area_def)
    ultimately show ?thesis by simp
  qed
  have i: "sint (of_nat ?n :: u32) = int ?n" using sint_small [of "of_nat ?n"] n unat_of_nat_small [of ?n] by simp
  have "(?w(?p := 0)) (str + word_of_int (int ?n)) = 0" by simp
  moreover have "strtol (?w(?p := 0)) str 10 = Some (sint v, if v = 0 then str else str + word_of_int (int ?n))"
    using st by simp
  ultimately show ?thesis using r [unfolded i] fr by blast
qed

theorem snprintf_strtol_roundtrip_witness:
  "\<exists>r m'. snprintf no_float 64 16 16 [VA_int (- 42)] (text_at_16 [37, 100]) [] = Some (r, m', [])
     \<and> strtol m' 64 10 = Some (- 42, 64 + word_of_int r)"
proof -
  have "cstr (text_at_16 [37, 100]) 16 [37, 100]" by (simp add: text_at_16_def)
  moreover have "(16 :: u32) + 2 \<notin> area 64 (unat (16 :: u32))" by (simp add: area_def)
  ultimately show ?thesis
    using snprintf_strtol_roundtrip [of "text_at_16 [37, 100]" 16 64 16 no_float "- 42" "[]"] by auto
qed

section \<open>Where the formatted output fails\<close>

definition texts :: "(u32 \<times> u8 list) list \<Rightarrow> mem" where
  "texts ts = (\<lambda>a. case find (\<lambda>(p, xs). p \<le> a \<and> unat (a - p) < length xs) ts of
     Some (p, xs) \<Rightarrow> xs ! unat (a - p) | None \<Rightarrow> 0)"

definition printed :: "nat \<Rightarrow> u32 \<Rightarrow> (int \<times> mem \<times> u8 list) option \<Rightarrow> (int \<times> u8 list) option" where
  "printed n p r = map_option (\<lambda>(k, m, out). (k, map (\<lambda>i. m (p + of_nat i)) [0..<n])) r"

text \<open>\<^verbatim>\<open>snprintf\<close> writes behind its buffer.  With a size of 4, the characters \<open>abcdef\<close> fills all four bytes and the
  terminator is written into the fifth.  After a number that does not fit the pointer stands behind the end, and the
  number of bytes to copy for the text that follows is the difference \<open>-1\<close> taken as a size.\<close>

theorem snprintf_past_end:
  "printed 6 64 (snprintf no_float 64 4 16 [] (texts [(16, [97, 98, 99, 100, 101, 102]), (64, [1, 1, 1, 1, 1, 1])]) [])
     = Some (4, [97, 98, 99, 100, 0, 1])
   \<and> map_option (\<lambda>(n, args, spec, st). (pbuf st, text_len 18 19 (pbuf st) 66))
       (render_specifier no_float 100 True 66 \<lparr>fflags = 0, width = 0, fbase = 0, prec = 0\<rparr> [VA_int 1000]
          \<lparr>pmem = texts [(16, [37, 100, 10])], stdout = [], pbuf = 64\<rparr>) = Some (67, 0xFFFFFFFF)"
  by code_simp

text \<open>The conversions lose text.  The pointer into the buffer is not advanced behind a string, so that what
  follows overwrites it: \<^verbatim>\<open>%s!\<close> with \<open>abc\<close> leaves \<open>!\<close> only.  A number whose digits fill the width loses its first digit
  to the sign: \<^verbatim>\<open>%3d\<close> of \<open>-123\<close> is \<open>-23\<close>.\<close>

theorem snprintf_text_lost:
  "printed 4 64 (snprintf no_float 64 16 16 [VA_int 32] (texts [(16, [37, 115, 33]), (32, [97, 98, 99])]) []) = Some (1, [33, 0, 99, 0])
   \<and> printed 4 64 (snprintf no_float 64 16 16 [VA_int (- 123)] (texts [(16, [37, 51, 100])]) []) = Some (3, [45, 50, 51, 0])"
  by code_simp

end
