(* ===== verification/Memscrub.thy ===== *)
theory Memscrub
  imports Kstring_Spec
begin

text \<open>
  The memory scrubber (\<^verbatim>\<open>kernel/memscrub.c\<close>): a thread that reads the words of the registered sections of memory in
  turn, a few in every round, so that the error correction of the memory repairs them.  The array of sections has the
  length of the list; its first \<open>cnt\<close> entries are in use.  A round returns the addresses it has read.  An access
  beyond the array or through a null pointer is \<^term>\<open>None\<close>.
\<close>

section \<open>State\<close>

record memscrub_sec =
  ms_begin :: u32
  ms_end :: u32
  ms_pos :: u32
  ms_wpc :: u16

record scrub =
  sec :: "memscrub_sec list"
  cnt :: int

abbreviation SCRUB_REALLOC :: nat where "SCRUB_REALLOC \<equiv> 10"

definition no_sec :: memscrub_sec where
  "no_sec = \<lparr>ms_begin = 0, ms_end = 0, ms_pos = 0, ms_wpc = 0\<rparr>"

section \<open>Scrubbing\<close>

partial_function (option) memscrub_loop :: "u32 \<Rightarrow> u32 \<Rightarrow> u32 list option" where
  "memscrub_loop addr stop =
     (if addr < stop then do { rs \<leftarrow> memscrub_loop (addr + 4) stop; Some (addr # rs) } else Some [])"

declare memscrub_loop.simps [code]

definition memscrub :: "u32 \<Rightarrow> u32 \<Rightarrow> (u32 \<times> u32 list) option" where
  "memscrub addr n = (let stop = addr + n * 4 in do { rs \<leftarrow> memscrub_loop addr stop; Some (stop, rs) })"

text \<open>One section in one round.\<close>

definition scrub_sec :: "memscrub_sec \<Rightarrow> (u32 list \<times> memscrub_sec) option" where
  "scrub_sec s = do {
     let begin = ms_begin s; let end = ms_end s; let pos = ms_pos s;
     let n = (end - pos) div 4;
     (rs, pos, n, s) \<leftarrow>
       (if n < ucast (ms_wpc s) then do {
          (pos, rs) \<leftarrow> memscrub pos n;
          Some (rs, begin, ucast (ms_wpc s) - n, s\<lparr>ms_pos := begin\<rparr>)
        } else Some ([], pos, ucast (ms_wpc s), s));
     if pos + n < end then do {
       (p, rs') \<leftarrow> memscrub pos n;
       Some (rs @ rs', s\<lparr>ms_pos := p\<rparr>)
     } else Some (rs, s)
   }"

fun scrub_loop :: "nat \<Rightarrow> nat \<Rightarrow> memscrub_sec list \<Rightarrow> (u32 list \<times> memscrub_sec list) option" where
  "scrub_loop 0 i ss = Some ([], ss)"
| "scrub_loop (Suc k) i ss =
     (if length ss \<le> i then None
      else do {
        (rs, s) \<leftarrow> scrub_sec (ss ! i);
        (rs', ss) \<leftarrow> scrub_loop k (Suc i) (ss[i := s]);
        Some (rs @ rs', ss)
      })"

text \<open>One round of the endless loop; the count is compared as an unsigned number.\<close>

definition mem_do_scrub :: "scrub \<Rightarrow> (u32 list \<times> scrub) option" where
  "mem_do_scrub S = do {
     (rs, ss) \<leftarrow> scrub_loop (unat (word_of_int (cnt S) :: u32)) 0 (sec S);
     Some (rs, S\<lparr>sec := ss\<rparr>)
   }"

section \<open>Sections\<close>

text \<open>\<open>ok\<close> says whether \<^verbatim>\<open>krealloc\<close> gives a larger array; its result is not tested.\<close>

definition memscrub_seg_add :: "bool \<Rightarrow> u32 \<Rightarrow> u32 \<Rightarrow> u16 \<Rightarrow> scrub \<Rightarrow> (int \<times> scrub) option" where
  "memscrub_seg_add ok begin end wpc S =
     (if begin AND 3 \<noteq> 0 then Some (- EINVAL, S)
      else if end AND 3 \<noteq> 0 then Some (- EINVAL, S)
      else if begin \<ge> end then Some (- EINVAL, S)
      else if (end - begin) div 4 < ucast wpc then Some (- EINVAL, S)
      else do {
        S \<leftarrow> (if cnt S = int (length (sec S))
              then (if ok then Some (S\<lparr>sec := sec S @ replicate SCRUB_REALLOC no_sec\<rparr>) else None)
              else Some S);
        if cnt S < 0 \<or> int (length (sec S)) \<le> cnt S then None
        else Some (0, S\<lparr>sec := (sec S)[nat (cnt S) := \<lparr>ms_begin = begin, ms_end = end - 4, ms_pos = begin, ms_wpc = wpc\<rparr>],
                       cnt := cnt S + 1\<rparr>)
      })"

fun find_sec :: "u32 \<Rightarrow> u32 \<Rightarrow> memscrub_sec list \<Rightarrow> nat" where
  "find_sec b e [] = 0"
| "find_sec b e (s # ss) = (if b = ms_begin s \<and> e = ms_end s + 4 then 0 else Suc (find_sec b e ss))"

text \<open>The entries from \<open>i\<close> on take the values of their predecessors, one after the other.\<close>

fun move_loop :: "nat \<Rightarrow> nat \<Rightarrow> memscrub_sec list \<Rightarrow> memscrub_sec list" where
  "move_loop 0 i ss = ss"
| "move_loop (Suc k) i ss = move_loop k (Suc i) (ss[i := ss ! (i - 1)])"

definition memscrub_seg_rem :: "u32 \<Rightarrow> u32 \<Rightarrow> scrub \<Rightarrow> int \<times> scrub" where
  "memscrub_seg_rem begin end S =
     (let i = find_sec begin end (sec S) in
      if i = length (sec S) then (- ENOENT, S)
      else (0, S\<lparr>sec := move_loop (length (sec S) - Suc i) (Suc i) ((sec S)[i := no_sec]), cnt := cnt S - 1\<rparr>))"

section \<open>Control\<close>

text \<open>\<open>addr\<close> holds the addresses of the strings \<^verbatim>\<open>section_add\<close>, \<^verbatim>\<open>section_rem\<close> and of the delimiter.
  The results are the returned value, the sections, the pointer kept by \<^verbatim>\<open>strtok\<close> and the memory.\<close>

definition memscrub_store ::
    "bool \<Rightarrow> u32 \<times> u32 \<times> u32 \<Rightarrow> u32 \<Rightarrow> u32 \<Rightarrow> scrub \<times> u32 \<times> mem \<Rightarrow> (int \<times> scrub \<times> u32 \<times> mem) option" where
  "memscrub_store ok addr name buf st =
     (case addr of (s_add, s_rem, blank) \<Rightarrow> case st of (S, sp, m) \<Rightarrow> do {
        (p, sp, m) \<leftarrow> strtok m sp buf blank;
        if p = 0 then Some (- 1, S, sp, m) else do {
          (b, _) \<leftarrow> strtol m p 0;
          (p, sp, m) \<leftarrow> strtok m sp 0 blank;
          if p = 0 then Some (- 1, S, sp, m) else do {
            (e, _) \<leftarrow> strtol m p 0;
            (p, sp, m) \<leftarrow> strtok m sp 0 blank;
            wpc \<leftarrow> (if p \<noteq> 0 then do { (w, _) \<leftarrow> strtol m p 0; Some (word_of_int w) } else Some 0);
            add \<leftarrow> strcmp m s_add name;
            if add = 0 then do {
              (r, S) \<leftarrow> memscrub_seg_add ok (word_of_int b) (word_of_int e) wpc S; Some (r, S, sp, m) }
            else do {
              rm \<leftarrow> strcmp m s_rem name;
              if rm = 0 then
                (let (r, S) = memscrub_seg_rem (word_of_int b) (word_of_int e) S in Some (r, S, sp, m))
              else Some (0, S, sp, m)
            }
          }
        }
      })"

section \<open>A section as a range of words\<close>

text \<open>The section from \<open>b\<close> has \<open>N\<close> words and one more, and \<open>P\<close> of the words are before the position.\<close>

definition sec_at :: "memscrub_sec \<Rightarrow> nat \<Rightarrow> nat \<Rightarrow> nat \<Rightarrow> bool" where
  "sec_at s b N P \<longleftrightarrow> unat (ms_begin s) = b \<and> unat (ms_end s) = b + 4 * N \<and> unat (ms_pos s) = b + 4 * P \<and> P \<le> N \<and> 0 < N
     \<and> unat (ms_wpc s) \<le> N"

definition word_at :: "nat \<Rightarrow> nat \<Rightarrow> u32" where
  "word_at b k = of_nat (b + 4 * k)"

lemma unat_word_at: "b + 4 * k < 2 ^ 32 \<Longrightarrow> unat (word_at b k) = b + 4 * k"
  unfolding word_at_def by (rule unat_of_nat_small)

lemma memscrub_loop_eq:
  "b + 4 * (k + n) < 2 ^ 32 \<Longrightarrow> memscrub_loop (word_at b k) (word_at b (k + n)) = Some (map (word_at b) [k ..< k + n])"
proof (induction n arbitrary: k)
  case 0
  then show ?case by (simp add: memscrub_loop.simps)
next
  case (Suc n)
  have "word_at b k < word_at b (k + Suc n)" using Suc.prems by (simp add: word_less_nat_alt unat_word_at)
  moreover have "word_at b k + 4 = word_at b (Suc k)" by (simp add: word_at_def)
  ultimately have "memscrub_loop (word_at b k) (word_at b (k + Suc n)) =
      do { rs \<leftarrow> memscrub_loop (word_at b (Suc k)) (word_at b (Suc k + n)); Some (word_at b k # rs) }"
    by (subst memscrub_loop.simps) simp
  also have "\<dots> = Some (map (word_at b) [k ..< k + Suc n])"
    using Suc.IH [of "Suc k"] Suc.prems upt_conv_Cons [of k "k + Suc n"] by (simp del: upt_Suc)
  finally show ?case .
qed

lemma memscrub_eq:
  assumes "b + 4 * (k + n) < 2 ^ 32"
  shows "memscrub (word_at b k) (of_nat n) = Some (word_at b (k + n), map (word_at b) [k ..< k + n])"
proof -
  have "word_at b k + of_nat n * 4 = word_at b (k + n)" by (simp add: word_at_def)
  with memscrub_loop_eq [OF assms] show ?thesis by (simp add: memscrub_def Let_def)
qed

end
