(* ===== verification/Memscrub_Spec.thy ===== *)
theory Memscrub_Spec
  imports Memscrub
begin

text \<open>
  What the memory scrubber reads: the words of every section in turn, except the last one of each, and nothing else.
\<close>

section \<open>One section\<close>

definition sec_fits :: "memscrub_sec \<Rightarrow> nat \<Rightarrow> nat \<Rightarrow> nat \<Rightarrow> bool" where
  "sec_fits s b N P \<longleftrightarrow> sec_at s b N P \<and> b + 4 * Suc N \<le> 2 ^ 32"

definition ring_words :: "nat \<Rightarrow> nat \<Rightarrow> nat \<Rightarrow> nat \<Rightarrow> u32 list" where
  "ring_words b N P w = map (\<lambda>j. word_at b ((P + j) mod N)) [0 ..< w]"

lemma ring_words_wrap:
  assumes "P \<le> N" "w \<le> N" "N - P \<le> w"
  shows "map (word_at b) [P ..< N] @ map (word_at b) [0 ..< w - (N - P)] = ring_words b N P w"
proof (rule nth_equalityI)
  fix i assume "i < length (map (word_at b) [P ..< N] @ map (word_at b) [0 ..< w - (N - P)])"
  then have i: "i < w" using assms by simp
  show "(map (word_at b) [P ..< N] @ map (word_at b) [0 ..< w - (N - P)]) ! i = ring_words b N P w ! i"
  proof (cases "i < N - P")
    case True
    with i show ?thesis by (simp add: ring_words_def nth_append)
  next
    case False
    then have "P + i = N + (i - (N - P))" using assms(1) by simp
    moreover have "i - (N - P) < N" using i assms(2) by simp
    ultimately have "(P + i) mod N = i - (N - P)" by (metis mod_add_self1 mod_less)
    with False i assms show ?thesis by (simp add: ring_words_def nth_append)
  qed
qed (use assms in \<open>simp add: ring_words_def\<close>)

lemma ring_words_straight:
  assumes "P + w \<le> N"
  shows "map (word_at b) [P ..< P + w] = ring_words b N P w"
  using assms by (intro nth_equalityI) (auto simp: ring_words_def)

lemma scrub_sec_eq:
  assumes "sec_fits s b N P"
  defines "w \<equiv> unat (ms_wpc s)"
  shows "\<exists>P'. scrub_sec s = Some (ring_words b N P w, s\<lparr>ms_pos := word_at b P'\<rparr>) \<and> P' \<le> N \<and> P' mod N = (P + w) mod N"
proof -
  from assms have s: "unat (ms_begin s) = b" "unat (ms_end s) = b + 4 * N" "unat (ms_pos s) = b + 4 * P" "P \<le> N" "0 < N" "w \<le> N"
    "b + 4 * Suc N \<le> 2 ^ 32" by (auto simp: sec_fits_def sec_at_def)
  have lt: "b + 4 * k < 2 ^ 32" if "k \<le> N" for k using that s(7) by auto
  have wd: "ms_begin s = word_at b 0" "ms_end s = word_at b N" "ms_pos s = word_at b P"
    using s(1-4) unat_word_at [OF lt, of 0] unat_word_at [OF lt, of N] unat_word_at [OF lt, of P] by (simp_all add: word_unat_eq_iff)
  have "unat ((ms_end s - ms_pos s) div 4) = N - P"
    using s(2-4) lt [of N] by (simp add: unat_div unat_sub_if_size word_size)
  then have n: "(ms_end s - ms_pos s) div 4 = of_nat (N - P)" by (metis of_nat_unat ucast_id)
  have uw: "(ucast (ms_wpc s) :: u32) = of_nat w" by (simp add: w_def)
  have small: "unat (of_nat k :: u32) = k" if "k \<le> N" for k using that s(7) by (intro unat_of_nat_small) auto
  show ?thesis
  proof (cases "N - P < w")
    case True
    have m1: "memscrub (word_at b P) (of_nat (N - P)) = Some (word_at b N, map (word_at b) [P ..< N])"
      using memscrub_eq [of b P "N - P"] lt [of N] s(4) by simp
    have m2: "memscrub (word_at b 0) (of_nat (w - (N - P))) = Some (word_at b (w - (N - P)), map (word_at b) [0 ..< w - (N - P)])"
      using memscrub_eq [of b 0 "w - (N - P)"] lt [of "w - (N - P)"] s(6) by simp
    have c1: "(of_nat (N - P) :: u32) < of_nat w" using True small s(6) by (simp add: word_less_nat_alt)
    have d: "(of_nat w - of_nat (N - P) :: u32) = of_nat (w - (N - P))" using True by (simp add: of_nat_diff)
    have "unat (word_at b 0 + of_nat (w - (N - P))) = b + (w - (N - P))"
      using s(6,7) by (simp add: word_at_def flip: of_nat_add) (intro unat_of_nat_small, simp)
    then have c2: "word_at b 0 + of_nat (w - (N - P)) < word_at b N"
      using lt [of N] s(5,6) by (simp add: word_less_nat_alt unat_word_at)
    have wrap: "map (word_at b) [P ..< N] @ map (word_at b) [0 ..< w - (N - P)] = ring_words b N P w"
      using True by (intro ring_words_wrap [OF s(4,6)]) simp
    have "scrub_sec s = Some (ring_words b N P w, s\<lparr>ms_pos := word_at b (w - (N - P))\<rparr>)"
      unfolding scrub_sec_def Let_def n [unfolded wd] uw wd
      by (simp only: c1 c2 d m1 m2 wrap if_True Option.bind.simps prod.case) simp
    moreover have "(w - (N - P)) mod N = (P + w) mod N"
    proof -
      have "P + w = N + (w - (N - P))" using True s(4) by simp
      then show ?thesis by (metis mod_add_self1)
    qed
    ultimately show ?thesis using s(6) by (intro exI [of _ "w - (N - P)"]) auto
  next
    case False
    then have c1: "\<not> (of_nat (N - P) :: u32) < of_nat w" using small s(6) by (simp add: word_less_nat_alt)
    have "unat (word_at b P + of_nat w) = b + 4 * P + w"
    proof -
      have "word_at b P + of_nat w = of_nat (b + 4 * P + w)" by (simp add: word_at_def)
      also have "unat \<dots> = b + 4 * P + w" using False s(4,6,7) by (intro unat_of_nat_small) simp
      finally show ?thesis .
    qed
    then have c2: "word_at b P + of_nat w < word_at b N \<longleftrightarrow> P < N"
      using lt [of N] False s(4) by (auto simp: word_less_nat_alt unat_word_at)
    show ?thesis
    proof (cases "P < N")
      case True
      have m: "memscrub (word_at b P) (of_nat w) = Some (word_at b (P + w), map (word_at b) [P ..< P + w])"
      proof (rule memscrub_eq)
        have "P + w \<le> N" using False True by simp
        then show "b + 4 * (P + w) < 2 ^ 32" by (rule lt)
      qed
      have straight: "map (word_at b) [P ..< P + w] = ring_words b N P w"
        using False True by (intro ring_words_straight) simp
      have "scrub_sec s = Some (ring_words b N P w, s\<lparr>ms_pos := word_at b (P + w)\<rparr>)"
        unfolding scrub_sec_def Let_def n [unfolded wd] uw wd
        by (simp only: c1 c2 True m straight if_True if_False Option.bind.simps prod.case append_Nil)
      with False True show ?thesis by (intro exI [of _ "P + w"]) auto
    next
      case P: False
      then have "P = N" "w = 0" using False s(4) by auto
      moreover have "s\<lparr>ms_pos := word_at b P\<rparr> = s" using wd(3) by simp
      moreover have "scrub_sec s = Some ([], s)"
        unfolding scrub_sec_def Let_def n [unfolded wd] uw wd
        by (simp only: c1 c2 P if_False Option.bind.simps prod.case)
      ultimately show ?thesis by (intro exI [of _ P]) (simp add: ring_words_def)
    qed
  qed
qed


section \<open>Rounds\<close>

lemma scrub_loop_map:
  assumes "\<forall>s \<in> set (take k (drop i ss)). scrub_sec s = Some (r s, f s)" "i + k \<le> length ss"
  shows "scrub_loop k i ss = Some (concat (map r (take k (drop i ss))), take i ss @ map f (take k (drop i ss)) @ drop (i + k) ss)"
  using assms
proof (induction k arbitrary: i ss)
  case (Suc k)
  let ?ss = "ss[i := f (ss ! i)]"
  have d: "take (Suc k) (drop i ss) = ss ! i # take k (drop (Suc i) ss)"
    using Suc.prems(2) by (simp add: Cons_nth_drop_Suc [symmetric])
  have s: "scrub_sec (ss ! i) = Some (r (ss ! i), f (ss ! i))" using Suc.prems(1) by (simp add: d)
  have "drop (Suc i) ?ss = drop (Suc i) ss" by simp
  then have "scrub_loop k (Suc i) ?ss =
      Some (concat (map r (take k (drop (Suc i) ss))), take (Suc i) ?ss @ map f (take k (drop (Suc i) ss)) @ drop (Suc i + k) ?ss)"
    using Suc.IH [of "Suc i" ?ss] Suc.prems by (simp add: d)
  moreover have "take (Suc i) ?ss = take i ss @ [f (ss ! i)]" using Suc.prems(2) by (simp add: take_Suc_conv_app_nth)
  ultimately show ?case using s Suc.prems(2) by (simp add: d)
qed simp

text \<open>All sections in use are as \<^verbatim>\<open>memscrub_seg_add\<close> makes them, with fewer words in a round than the section has.\<close>

definition scrub_ok :: "scrub \<Rightarrow> bool" where
  "scrub_ok S \<longleftrightarrow> 0 \<le> cnt S \<and> nat (cnt S) \<le> length (sec S) \<and> cnt S < 2 ^ 32
     \<and> (\<forall>s \<in> set (take (nat (cnt S)) (sec S)). \<exists>b N P. sec_fits s b N P)"

fun scrub_rounds :: "nat \<Rightarrow> scrub \<Rightarrow> (u32 list \<times> scrub) option" where
  "scrub_rounds 0 S = Some ([], S)"
| "scrub_rounds (Suc k) S = do { (rs, S) \<leftarrow> mem_do_scrub S; (rs', S) \<leftarrow> scrub_rounds k S; Some (rs @ rs', S) }"

definition sec_reads :: "memscrub_sec \<Rightarrow> u32 list" where "sec_reads s = fst (the (scrub_sec s))"
definition sec_next :: "memscrub_sec \<Rightarrow> memscrub_sec" where "sec_next s = snd (the (scrub_sec s))"

lemma sec_step:
  assumes "sec_fits s b N P"
  shows "scrub_sec s = Some (sec_reads s, sec_next s)" "sec_reads s = ring_words b N P (unat (ms_wpc s))"
    "\<exists>P'. sec_fits (sec_next s) b N P' \<and> P' mod N = (P + unat (ms_wpc s)) mod N"
    "ms_begin (sec_next s) = ms_begin s" "ms_end (sec_next s) = ms_end s" "ms_wpc (sec_next s) = ms_wpc s"
proof -
  from scrub_sec_eq [OF assms] obtain P' where
    e: "scrub_sec s = Some (ring_words b N P (unat (ms_wpc s)), s\<lparr>ms_pos := word_at b P'\<rparr>)" "P' \<le> N" "P' mod N = (P + unat (ms_wpc s)) mod N"
    by blast
  then show "scrub_sec s = Some (sec_reads s, sec_next s)" "sec_reads s = ring_words b N P (unat (ms_wpc s))"
    "ms_begin (sec_next s) = ms_begin s" "ms_end (sec_next s) = ms_end s" "ms_wpc (sec_next s) = ms_wpc s"
    by (simp_all add: sec_reads_def sec_next_def)
  have "unat (word_at b P') = b + 4 * P'" using e(2) assms by (intro unat_word_at) (auto simp: sec_fits_def)
  then have "sec_fits (sec_next s) b N P'" using e assms by (simp add: sec_next_def sec_fits_def sec_at_def)
  with e(3) show "\<exists>P'. sec_fits (sec_next s) b N P' \<and> P' mod N = (P + unat (ms_wpc s)) mod N" by blast
qed

lemma ring_words_range:
  assumes "sec_fits s b N P" "a \<in> set (ring_words b N P w)"
  shows "ms_begin s \<le> a" "a < ms_end s"
proof -
  from assms obtain j where j: "a = word_at b ((P + j) mod N)" by (auto simp: ring_words_def)
  from assms(1) have s: "unat (ms_begin s) = b" "unat (ms_end s) = b + 4 * N" "0 < N" "b + 4 * Suc N \<le> 2 ^ 32"
    by (auto simp: sec_fits_def sec_at_def)
  have "(P + j) mod N < N" using s(3) by simp
  then have "unat a = b + 4 * ((P + j) mod N)" "(P + j) mod N < N" using s(4) j by (simp_all add: unat_word_at)
  then show "ms_begin s \<le> a" "a < ms_end s" using s by (simp_all add: word_le_nat_alt word_less_nat_alt)
qed

lemma round_eq:
  assumes "scrub_ok S"
  defines "c \<equiv> nat (cnt S)"
  shows "mem_do_scrub S = Some (concat (map sec_reads (take c (sec S))), S\<lparr>sec := map sec_next (take c (sec S)) @ drop c (sec S)\<rparr>)"
    "scrub_ok (S\<lparr>sec := map sec_next (take c (sec S)) @ drop c (sec S)\<rparr>)"
proof -
  from assms have ok: "0 \<le> cnt S" "c \<le> length (sec S)" "cnt S < 2 ^ 32"
    "\<forall>s \<in> set (take c (sec S)). \<exists>b N P. sec_fits s b N P" by (auto simp: scrub_ok_def)
  have u: "unat (word_of_int (cnt S) :: u32) = c"
  proof -
    have "(word_of_int (cnt S) :: u32) = of_nat c" using ok(1) by (simp add: c_def)
    also have "unat \<dots> = c" using ok(1,3) by (intro unat_of_nat_small) (simp add: c_def)
    finally show ?thesis .
  qed
  have "\<forall>s \<in> set (take c (drop 0 (sec S))). scrub_sec s = Some (sec_reads s, sec_next s)"
    using ok(4) sec_step(1) by auto
  from scrub_loop_map [OF this] ok(2) show "mem_do_scrub S =
      Some (concat (map sec_reads (take c (sec S))), S\<lparr>sec := map sec_next (take c (sec S)) @ drop c (sec S)\<rparr>)"
    by (simp add: mem_do_scrub_def u)
  have "\<forall>s \<in> set (take c (sec S)). \<exists>b N P. sec_fits (sec_next s) b N P"
    using ok(4) sec_step(3) by blast
  then show "scrub_ok (S\<lparr>sec := map sec_next (take c (sec S)) @ drop c (sec S)\<rparr>)"
    using ok c_def by (auto simp: scrub_ok_def)
qed

lemma scrub_rounds_spec:
  assumes "scrub_ok S" "i < nat (cnt S)" "sec_fits (sec S ! i) b N P" "w = unat (ms_wpc (sec S ! i))"
  shows "\<exists>rs S'. scrub_rounds k S = Some (rs, S') \<and> scrub_ok S' \<and> cnt S' = cnt S
     \<and> (\<forall>j < k * w. word_at b ((P + j) mod N) \<in> set rs)
     \<and> (\<forall>a \<in> set rs. \<exists>s \<in> set (take (nat (cnt S)) (sec S)). ms_begin s \<le> a \<and> a < ms_end s)"
  using assms
proof (induction k arbitrary: S P)
  case (Suc k)
  let ?c = "nat (cnt S)"
  let ?S = "S\<lparr>sec := map sec_next (take ?c (sec S)) @ drop ?c (sec S)\<rparr>"
  note r = round_eq [OF Suc.prems(1)]
  note st = sec_step [OF Suc.prems(3)]
  have c: "?c \<le> length (sec S)" using Suc.prems(1) by (simp add: scrub_ok_def)
  have nth: "sec ?S ! i = sec_next (sec S ! i)" using Suc.prems(2) c by (simp add: nth_append)
  from st(3) obtain P' where P': "sec_fits (sec ?S ! i) b N P'" "P' mod N = (P + w) mod N" using Suc.prems(4) nth by auto
  have w': "w = unat (ms_wpc (sec ?S ! i))" using Suc.prems(4) st(6) nth by simp
  from Suc.IH [OF r(2) _ P'(1) w'] Suc.prems(2) obtain rs S' where
    ih: "scrub_rounds k ?S = Some (rs, S')" "scrub_ok S'" "cnt S' = cnt S" "\<forall>j < k * w. word_at b ((P' + j) mod N) \<in> set rs"
      "\<forall>a \<in> set rs. \<exists>s \<in> set (take ?c (sec ?S)). ms_begin s \<le> a \<and> a < ms_end s" by auto
  let ?rs = "concat (map sec_reads (take ?c (sec S)))"
  have run: "scrub_rounds (Suc k) S = Some (?rs @ rs, S')" using r(1) ih(1) by simp
  have mem: "sec S ! i \<in> set (take ?c (sec S))" using Suc.prems(2) c by (auto simp: in_set_conv_nth)
  have "word_at b ((P + j) mod N) \<in> set (?rs @ rs)" if "j < Suc k * w" for j
  proof (cases "j < w")
    case True
    then have "word_at b ((P + j) mod N) \<in> set (sec_reads (sec S ! i))"
      using st(2) Suc.prems(4) by (simp add: ring_words_def)
    with mem show ?thesis by auto
  next
    case False
    then have "j - w < k * w" using that by simp
    with ih(4) have "word_at b ((P' + (j - w)) mod N) \<in> set rs" by blast
    moreover have "(P' + (j - w)) mod N = (P + j) mod N"
      using P'(2) False by (metis add.assoc le_add_diff_inverse mod_add_left_eq not_less)
    ultimately show ?thesis by simp
  qed
  moreover have "\<exists>s \<in> set (take ?c (sec S)). ms_begin s \<le> a \<and> a < ms_end s" if "a \<in> set (?rs @ rs)" for a
  proof (cases "a \<in> set ?rs")
    case True
    then obtain s where s: "s \<in> set (take ?c (sec S))" "a \<in> set (sec_reads s)" by auto
    from s(1) Suc.prems(1) obtain b N P where f: "sec_fits s b N P" by (auto simp: scrub_ok_def)
    from ring_words_range [OF f, of a] s(2) sec_step(2) [OF f] s(1) show ?thesis by (intro bexI [of _ s]) auto
  next
    case False
    with that ih(5) c obtain s where s: "s \<in> set (take ?c (sec S))" "ms_begin (sec_next s) \<le> a" "a < ms_end (sec_next s)" by auto
    from s(1) Suc.prems(1) obtain b N P where f: "sec_fits s b N P" by (auto simp: scrub_ok_def)
    from s sec_step(4,5) [OF f] show ?thesis by auto
  qed
  ultimately show ?case using run ih(2,3) by blast
qed simp


section \<open>Registration\<close>

lemma and_3_dvd: "x AND 3 = 0 \<longleftrightarrow> 4 dvd unat x" for x :: u32
proof -
  have "unat (x AND 3) = unat x mod 4" by (simp add: and_3_mod unat_mod)
  then show ?thesis by (metis mod_eq_0_iff_dvd unat_eq_zero)
qed

text \<open>The new entry, when it asks for fewer words in a round than the section has.\<close>

lemma new_sec_fits:
  assumes "b AND 3 = 0" "e AND 3 = 0" "b < e" "ucast wpc < (e - b) div 4" "wpc \<noteq> 0"
  shows "sec_fits \<lparr>ms_begin = b, ms_end = e - 4, ms_pos = b, ms_wpc = wpc\<rparr> (unat b) ((unat e - unat b) div 4 - 1) 0"
    "unat e = unat b + 4 * ((unat e - unat b) div 4)"
proof -
  have d: "4 dvd unat e - unat b" using assms(1,2) by (simp add: and_3_dvd)
  have lt: "unat b < unat e" using assms(3) by (simp add: word_less_nat_alt)
  from d lt show e: "unat e = unat b + 4 * ((unat e - unat b) div 4)" by auto
  define W where "W = (unat e - unat b) div 4"
  have eW: "unat e = unat b + 4 * W" using e by (simp add: W_def)
  have uw: "(ucast wpc :: u32) = of_nat (unat wpc)" by simp
  have "unat wpc < 2 ^ 16" using unsigned_less [of wpc] by simp
  then have "unat (ucast wpc :: u32) = unat wpc" unfolding uw by (intro unat_of_nat_small) simp
  then have w: "unat wpc < W" using assms(3,4) by (simp add: W_def word_less_nat_alt unat_div unat_sub word_le_nat_alt)
  have "0 < unat wpc" using assms(5) by (simp add: unat_gt_0)
  moreover have "unat (e - 4) = unat e - 4" using unat_minus_le [of 4 e] eW w by (simp add: word_le_nat_alt)
  moreover have "unat e < 2 ^ 32" by (rule unat_32)
  ultimately show "sec_fits \<lparr>ms_begin = b, ms_end = e - 4, ms_pos = b, ms_wpc = wpc\<rparr> (unat b) ((unat e - unat b) div 4 - 1) 0"
    unfolding W_def [symmetric] using eW w by (simp add: sec_fits_def sec_at_def) linarith
qed


lemma seg_add_eq:
  assumes "scrub_ok S" "memscrub_seg_add ok b e wpc S = Some (0, S')"
  shows "\<exists>ss. S' = \<lparr>sec = ss[nat (cnt S) := \<lparr>ms_begin = b, ms_end = e - 4, ms_pos = b, ms_wpc = wpc\<rparr>], cnt = cnt S + 1\<rparr>
     \<and> nat (cnt S) < length ss \<and> take (nat (cnt S)) ss = take (nat (cnt S)) (sec S)"
    "b AND 3 = 0" "e AND 3 = 0" "b < e" "ucast wpc \<le> (e - b) div 4"
proof -
  have c: "0 \<le> cnt S" "nat (cnt S) \<le> length (sec S)" using assms(1) by (auto simp: scrub_ok_def)
  show "b AND 3 = 0" "e AND 3 = 0" "b < e" "ucast wpc \<le> (e - b) div 4"
    using assms(2) by (auto simp: memscrub_seg_add_def split: if_splits)
  define ss where "ss = (if cnt S = int (length (sec S)) then sec S @ replicate SCRUB_REALLOC no_sec else sec S)"
  have "S' = S\<lparr>sec := ss[nat (cnt S) := \<lparr>ms_begin = b, ms_end = e - 4, ms_pos = b, ms_wpc = wpc\<rparr>], cnt := cnt S + 1\<rparr>"
    using assms(2) c by (auto simp: memscrub_seg_add_def ss_def split: if_splits)
  moreover have "nat (cnt S) < length ss" "take (nat (cnt S)) ss = take (nat (cnt S)) (sec S)" using c by (auto simp: ss_def)
  ultimately show "\<exists>ss. S' = \<lparr>sec = ss[nat (cnt S) := \<lparr>ms_begin = b, ms_end = e - 4, ms_pos = b, ms_wpc = wpc\<rparr>], cnt = cnt S + 1\<rparr>
     \<and> nat (cnt S) < length ss \<and> take (nat (cnt S)) ss = take (nat (cnt S)) (sec S)" by (intro exI [of _ ss]) simp
qed

lemma seg_add_ok:
  assumes "scrub_ok S" "memscrub_seg_add ok b e wpc S = Some (0, S')" "ucast wpc < (e - b) div 4" "cnt S + 1 < 2 ^ 32" "wpc \<noteq> 0"
  defines "W \<equiv> (unat e - unat b) div 4"
  shows "scrub_ok S'" "cnt S' = cnt S + 1" "sec_fits (sec S' ! nat (cnt S)) (unat b) (W - 1) 0"
    "ms_wpc (sec S' ! nat (cnt S)) = wpc" "ms_begin (sec S' ! nat (cnt S)) = b" "ms_end (sec S' ! nat (cnt S)) = e - 4"
    "take (nat (cnt S)) (sec S') = take (nat (cnt S)) (sec S)"
proof -
  let ?n = "\<lparr>ms_begin = b, ms_end = e - 4, ms_pos = b, ms_wpc = wpc\<rparr>"
  from seg_add_eq [OF assms(1,2)] obtain ss where s: "S' = \<lparr>sec = ss[nat (cnt S) := ?n], cnt = cnt S + 1\<rparr>"
    "nat (cnt S) < length ss" "take (nat (cnt S)) ss = take (nat (cnt S)) (sec S)" "b AND 3 = 0" "e AND 3 = 0" "b < e" by blast
  have f: "sec_fits ?n (unat b) (W - 1) 0" unfolding W_def using new_sec_fits(1) [OF s(4-6) assms(3,5)] .
  show "cnt S' = cnt S + 1" "sec_fits (sec S' ! nat (cnt S)) (unat b) (W - 1) 0"
    "ms_wpc (sec S' ! nat (cnt S)) = wpc" "ms_begin (sec S' ! nat (cnt S)) = b" "ms_end (sec S' ! nat (cnt S)) = e - 4"
    "take (nat (cnt S)) (sec S') = take (nat (cnt S)) (sec S)"
    using s f by simp_all
  have c: "0 \<le> cnt S" using assms(1) by (simp add: scrub_ok_def)
  then have "nat (cnt S + 1) = Suc (nat (cnt S))" by simp
  then have "take (nat (cnt S')) (sec S') = take (nat (cnt S)) (sec S) @ [?n]"
    using s(1-3) by (simp add: take_Suc_conv_app_nth)
  with assms(1,4) s(1,2) f c show "scrub_ok S'" by (auto simp: scrub_ok_def)
qed

section \<open>Properties\<close>

text \<open>C31: scrubbing reads every word but the last of each section, and nothing else.  After a section of \<open>W\<close> words has been added
  to a scrubber, with less than \<open>W\<close> words in a round, any number of rounds returns and reads only addresses of registered
  sections, and as many rounds as have \<open>W - 1\<close> words together read the first \<open>W - 1\<close> words of the section.\<close>

theorem memscrub_covers:
  assumes "scrub_ok S" and "memscrub_seg_add ok b e wpc S = Some (0, S')" and "ucast wpc < (e - b) div 4" and "cnt S + 1 < 2 ^ 32"
    and "wpc \<noteq> 0"
  shows "\<exists>rs S''. scrub_rounds k S' = Some (rs, S'')
     \<and> (\<forall>a \<in> set rs. \<exists>s \<in> set (take (nat (cnt S')) (sec S')). ms_begin s \<le> a \<and> a < ms_end s)
     \<and> ((unat e - unat b) div 4 \<le> k * unat wpc + 1 \<longrightarrow>
          (\<forall>a. b \<le> a \<and> a < e - 4 \<and> 4 dvd unat a \<longrightarrow> a \<in> set rs))"
proof -
  let ?W = "(unat e - unat b) div 4" and ?i = "nat (cnt S)"
  note o = seg_add_ok [OF assms]
  have be: "b AND 3 = 0" "e AND 3 = 0" "b < e" using seg_add_eq(2-4) [OF assms(1,2)] .
  have "0 \<le> cnt S" using assms(1) by (simp add: scrub_ok_def)
  then have "?i < nat (cnt S')" using o(2) by simp
  from scrub_rounds_spec [OF o(1) this o(3) o(4) [symmetric, THEN arg_cong [of _ _ unat]], of k] obtain rs S'' where
    r: "scrub_rounds k S' = Some (rs, S'')" "\<forall>j < k * unat wpc. word_at (unat b) ((0 + j) mod (?W - 1)) \<in> set rs"
      "\<forall>a \<in> set rs. \<exists>s \<in> set (take (nat (cnt S')) (sec S')). ms_begin s \<le> a \<and> a < ms_end s" by auto
  have "a \<in> set rs" if k: "?W \<le> k * unat wpc + 1" and a: "b \<le> a" "a < e - 4" "4 dvd unat a" for a
  proof -
    have e: "unat e = unat b + 4 * ?W" using new_sec_fits(2) [OF be assms(3,5)] .
    have b4: "4 dvd unat b" using be(1) by (simp add: and_3_dvd)
    have ba: "unat b \<le> unat a" using a(1) by (simp add: word_le_nat_alt)
    have "unat b < unat e" using be(3) by (simp add: word_less_nat_alt)
    then have W: "0 < ?W" using e by linarith
    then have "unat (e - 4) = unat e - 4" using unat_minus_le [of 4 e] e by (simp add: word_le_nat_alt)
    then have ae: "unat a < unat b + 4 * (?W - 1)" using a(2) e W by (simp add: word_less_nat_alt)
    obtain j where j: "unat a = unat b + 4 * j" using b4 a(3) ba by (metis dvd_diff_nat dvdE le_add_diff_inverse)
    with ae have jW: "j < ?W - 1" by linarith
    moreover have "j < k * unat wpc" using jW k by linarith
    ultimately have "word_at (unat b) ((0 + j) mod (?W - 1)) \<in> set rs" using r(2) by blast
    moreover have "word_at (unat b) j = a" unfolding word_at_def j [symmetric] by simp
    ultimately show ?thesis using jW by simp
  qed
  with r show ?thesis by blast
qed

definition demo_scrub :: scrub where
  "demo_scrub = \<lparr>sec = [], cnt = 0\<rparr>"

theorem memscrub_covers_witness:
  "\<exists>rs S''. scrub_rounds 2 (snd (the (memscrub_seg_add True 0x100 0x110 2 demo_scrub))) = Some (rs, S'') \<and> 0x104 \<in> set rs"
proof -
  have a: "scrub_ok demo_scrub" "memscrub_seg_add True 0x100 0x110 2 demo_scrub = Some (0, snd (the (memscrub_seg_add True 0x100 0x110 2 demo_scrub)))"
    by (simp_all add: demo_scrub_def scrub_ok_def memscrub_seg_add_def)
  have u: "unat (0x110 :: u32) = 0x110" "unat (0x100 :: u32) = 0x100" "unat (2 :: u16) = 2" "unat (0x104 :: u32) = 0x104" by simp_all
  show ?thesis using memscrub_covers [OF a, of 2] by (auto simp: u demo_scrub_def)
qed

lemma move_loop_eq: "0 < i \<Longrightarrow> i + k = length ss \<Longrightarrow> move_loop k i ss = take i ss @ replicate k (ss ! (i - 1))"
proof (induction k arbitrary: i ss)
  case (Suc k)
  let ?ss = "ss[i := ss ! (i - 1)]"
  have "move_loop k (Suc i) ?ss = take (Suc i) ?ss @ replicate k (?ss ! i)"
    using Suc.IH [of "Suc i" ?ss] Suc.prems by simp
  moreover have "take (Suc i) ?ss = take i ss @ [ss ! (i - 1)]" using Suc.prems by (simp add: take_Suc_conv_app_nth)
  ultimately show ?case using Suc.prems by simp
qed simp

lemma find_sec_le: "find_sec b e ss \<le> length ss"
  by (induction ss) auto

text \<open>Removing a section stops the scrubbing of all later ones.  The entries behind the removed one are
  overwritten with it, one after the other, instead of being moved up.\<close>

theorem memscrub_seg_rem_loses:
  assumes "find_sec b e (sec S) = i" and "i < length (sec S)"
  shows "memscrub_seg_rem b e S = (0, \<lparr>sec = take i (sec S) @ replicate (length (sec S) - i) no_sec, cnt = cnt S - 1\<rparr>)"
proof -
  have "move_loop (length (sec S) - Suc i) (Suc i) ((sec S)[i := no_sec]) =
      take (Suc i) ((sec S)[i := no_sec]) @ replicate (length (sec S) - Suc i) no_sec"
    using move_loop_eq [of "Suc i" "length (sec S) - Suc i" "(sec S)[i := no_sec]"] assms(2) by simp
  also have "\<dots> = take i (sec S) @ replicate (length (sec S) - i) no_sec"
    using assms(2) by (simp add: take_Suc_conv_app_nth Suc_diff_Suc flip: replicate_Suc)
  finally show ?thesis using assms by (simp add: memscrub_seg_rem_def Let_def)
qed

theorem memscrub_seg_rem_loses_witness:
  "memscrub_seg_rem 0x100 0x110
     \<lparr>sec = [\<lparr>ms_begin = 0x100, ms_end = 0x10c, ms_pos = 0x100, ms_wpc = 1\<rparr>, \<lparr>ms_begin = 0x200, ms_end = 0x20c, ms_pos = 0x200, ms_wpc = 1\<rparr>],
      cnt = 2\<rparr> = (0, \<lparr>sec = [no_sec, no_sec], cnt = 1\<rparr>)"
  by (subst memscrub_seg_rem_loses [where i = 0]) (simp_all add: numeral_2_eq_2)

lemma stuck_round:
  assumes "mem_do_scrub S = Some ([], S)"
  shows "scrub_rounds k S = Some ([], S)"
  using assms by (induction k) auto

text \<open>A section whose words are all to be read in one round is scrubbed no more after some rounds: the position
  passes the end, and the difference wraps.\<close>

theorem memscrub_stuck:
  "\<exists>S. scrub_rounds 2 (snd (the (memscrub_seg_add True 0x100 0x108 2 demo_scrub))) = Some ([0x100, 0x100, 0x100, 0x104], S)
     \<and> (\<forall>k. scrub_rounds k S = Some ([], S))"
proof -
  let ?S = "snd (the (scrub_rounds 2 (snd (the (memscrub_seg_add True 0x100 0x108 2 demo_scrub)))))"
  have "scrub_rounds 2 (snd (the (memscrub_seg_add True 0x100 0x108 2 demo_scrub))) = Some ([0x100, 0x100, 0x100, 0x104], ?S)"
    by code_simp
  moreover have "mem_do_scrub ?S = Some ([], ?S)" by code_simp
  ultimately show ?thesis using stuck_round by blast
qed

end
