(* ===== verification/Ktime.thy ===== *)
theory Ktime
  imports Flight_Prelude "HOL-Library.Signed_Division"
begin

text \<open>
  Kernel time, \<^verbatim>\<open>kernel/time.c\<close>.  A \<^verbatim>\<open>ktime\<close> is a signed 64 bit number of nanoseconds since boot; it is an
  \<^typ>\<open>int\<close> here, and every operation writes out the reduction to 64 bits.  The seconds and
  nanoseconds of a \<^verbatim>\<open>struct timespec\<close> are signed 32 bit numbers.  A \<^verbatim>\<open>BUG\<close> (the machine halts) is
  \<^term>\<open>None\<close>.  The clock source is hardware: its reading is an argument.
\<close>

type_synonym ktime = int

abbreviation s64 :: "int \<Rightarrow> int" where "s64 \<equiv> signed_take_bit 63"
abbreviation s32 :: "int \<Rightarrow> int" where "s32 \<equiv> signed_take_bit 31"

abbreviation NSEC_PER_SEC :: int where "NSEC_PER_SEC \<equiv> 1000000000"
abbreviation NSEC_PER_MSEC :: int where "NSEC_PER_MSEC \<equiv> 1000000"
abbreviation NSEC_PER_USEC :: int where "NSEC_PER_USEC \<equiv> 1000"

definition is_s64 :: "int \<Rightarrow> bool" where "is_s64 x \<longleftrightarrow> - (2 ^ 63) \<le> x \<and> x < 2 ^ 63"
definition is_s32 :: "int \<Rightarrow> bool" where "is_s32 x \<longleftrightarrow> - (2 ^ 31) \<le> x \<and> x < 2 ^ 31"

record timespec =
  tv_sec :: int
  tv_nsec :: int

record timekeeper =
  clock :: bool
  readout_ns :: u32

section \<open>Operations\<close>

definition ktime_get_readout_overhead :: "timekeeper \<Rightarrow> u32" where
  "ktime_get_readout_overhead tk = readout_ns tk"

definition get_uptime :: "timekeeper \<Rightarrow> u32 \<times> u32 \<Rightarrow> timespec" where
  "get_uptime tk rd =
     (if \<not> clock tk then \<lparr>tv_sec = 0, tv_nsec = 0\<rparr>
      else \<lparr>tv_sec = s32 (uint (fst rd)), tv_nsec = s32 (uint (snd rd))\<rparr>)"

function normalise_down :: "int \<Rightarrow> int \<Rightarrow> int \<times> int" where
  "normalise_down sec nsec =
     (if nsec \<ge> NSEC_PER_SEC then normalise_down (s32 (sec + 1)) (nsec - NSEC_PER_SEC) else (sec, nsec))"
  by pat_completeness auto
termination by (relation "measure (\<lambda>(sec, nsec). nat nsec)") auto

function normalise_up :: "int \<Rightarrow> int \<Rightarrow> int \<times> int" where
  "normalise_up sec nsec =
     (if nsec < 0 then normalise_up (s32 (sec - 1)) (nsec + NSEC_PER_SEC) else (sec, nsec))"
  by pat_completeness auto
termination by (relation "measure (\<lambda>(sec, nsec). nat (- nsec))") auto

declare normalise_down.simps [simp del] normalise_up.simps [simp del]

definition timespec_normalise :: "timespec \<Rightarrow> timespec" where
  "timespec_normalise t =
     (let (s, n) = normalise_down (tv_sec t) (tv_nsec t); (s, n) = normalise_up s n
      in \<lparr>tv_sec = s, tv_nsec = n\<rparr>)"

definition timespec_add :: "timespec \<Rightarrow> timespec \<Rightarrow> timespec" where
  "timespec_add t1 t2 =
     timespec_normalise \<lparr>tv_sec = s32 (tv_sec t1 + tv_sec t2), tv_nsec = s32 (tv_nsec t1 + tv_nsec t2)\<rparr>"

text \<open>\<^verbatim>\<open>~(1LL << 31)\<close> is the negative number \<open>- 2147483649\<close>.\<close>

definition ns_to_timespec :: "int \<Rightarrow> timespec option" where
  "ns_to_timespec nsec =
     (if nsec = 0 then Some \<lparr>tv_sec = 0, tv_nsec = 0\<rparr>
      else if nsec > s64 ((- 1 - 2 ^ 31) * NSEC_PER_SEC) then None
      else let sec = s32 (nsec sdiv NSEC_PER_SEC)
           in Some (timespec_normalise \<lparr>tv_sec = sec, tv_nsec = s32 (nsec - s32 (sec * NSEC_PER_SEC))\<rparr>))"

definition timespec_add_ns :: "timespec \<Rightarrow> int \<Rightarrow> timespec option" where
  "timespec_add_ns ts nsec =
     (if nsec = 0 then Some ts else map_option (timespec_add ts) (ns_to_timespec nsec))"

definition ktime_set :: "u32 \<Rightarrow> u32 \<Rightarrow> ktime" where
  "ktime_set sec nsec = s64 (uint sec * NSEC_PER_SEC + uint nsec)"

definition ktime_to_timespec :: "ktime \<Rightarrow> timespec option" where
  "ktime_to_timespec t = ns_to_timespec t"

definition timespec_to_ktime :: "timespec \<Rightarrow> ktime" where
  "timespec_to_ktime ts = ktime_set (word_of_int (tv_sec ts)) (word_of_int (tv_nsec ts))"

definition ktime_compare :: "ktime \<Rightarrow> ktime \<Rightarrow> int" where
  "ktime_compare t1 t2 = (if t1 < t2 then - 1 else if t1 > t2 then 1 else 0)"

definition ktime_after :: "ktime \<Rightarrow> ktime \<Rightarrow> bool" where
  "ktime_after t1 t2 \<longleftrightarrow> ktime_compare t1 t2 > 0"

definition ktime_before :: "ktime \<Rightarrow> ktime \<Rightarrow> bool" where
  "ktime_before t1 t2 \<longleftrightarrow> ktime_compare t1 t2 < 0"

definition ktime_add :: "ktime \<Rightarrow> ktime \<Rightarrow> ktime" where "ktime_add t1 t2 = s64 (t1 + t2)"
definition ktime_sub :: "ktime \<Rightarrow> ktime \<Rightarrow> ktime" where "ktime_sub later earlier = s64 (later - earlier)"
definition ktime_add_ns :: "ktime \<Rightarrow> u64 \<Rightarrow> ktime" where "ktime_add_ns t nsec = s64 (t + uint nsec)"
definition ktime_sub_ns :: "ktime \<Rightarrow> u64 \<Rightarrow> ktime" where "ktime_sub_ns t nsec = s64 (t - uint nsec)"
definition ktime_add_us :: "ktime \<Rightarrow> u64 \<Rightarrow> ktime" where "ktime_add_us t usec = ktime_add_ns t (usec * 1000)"
definition ktime_add_ms :: "ktime \<Rightarrow> u64 \<Rightarrow> ktime" where "ktime_add_ms t msec = ktime_add_ns t (msec * 1000000)"
definition ktime_sub_us :: "ktime \<Rightarrow> u64 \<Rightarrow> ktime" where "ktime_sub_us t usec = ktime_sub_ns t (usec * 1000)"
definition ktime_sub_ms :: "ktime \<Rightarrow> u64 \<Rightarrow> ktime" where "ktime_sub_ms t msec = ktime_sub_ns t (msec * 1000000)"
definition ktime_to_us :: "ktime \<Rightarrow> int" where "ktime_to_us t = t sdiv NSEC_PER_USEC"
definition ktime_to_ms :: "ktime \<Rightarrow> int" where "ktime_to_ms t = t sdiv NSEC_PER_MSEC"
definition ktime_delta :: "ktime \<Rightarrow> ktime \<Rightarrow> int" where "ktime_delta later earlier = ktime_sub later earlier"
definition ktime_us_delta :: "ktime \<Rightarrow> ktime \<Rightarrow> int" where "ktime_us_delta later earlier = ktime_to_us (ktime_sub later earlier)"
definition ktime_ms_delta :: "ktime \<Rightarrow> ktime \<Rightarrow> int" where "ktime_ms_delta later earlier = ktime_to_ms (ktime_sub later earlier)"
definition us_to_ktime :: "int \<Rightarrow> ktime" where "us_to_ktime usec = s64 (usec * NSEC_PER_USEC)"
definition ms_to_ktime :: "int \<Rightarrow> ktime" where "ms_to_ktime msec = s64 (msec * NSEC_PER_MSEC)"

definition ktime_get :: "timekeeper \<Rightarrow> u32 \<times> u32 \<Rightarrow> ktime" where
  "ktime_get tk rd =
     (if \<not> clock tk then 0
      else s64 (s64 (uint (fst rd) * NSEC_PER_SEC + uint (snd rd)) + uint (ktime_get_readout_overhead tk)))"

section \<open>Lemmas\<close>

named_theorems ktime_simps

lemma s64_id: "is_s64 x \<Longrightarrow> s64 x = x"
  by (simp add: is_s64_def signed_take_bit_int_eq_self)

lemma s32_id: "is_s32 x \<Longrightarrow> s32 x = x"
  by (simp add: is_s32_def signed_take_bit_int_eq_self)

lemma ktime_after_iff [ktime_simps]: "ktime_after a b \<longleftrightarrow> b < a"
  by (auto simp: ktime_after_def ktime_compare_def)

lemma ktime_before_iff [ktime_simps]: "ktime_before a b \<longleftrightarrow> a < b"
  by (auto simp: ktime_before_def ktime_compare_def)

lemma ktime_add_id [ktime_simps]: "is_s64 (a + b) \<Longrightarrow> ktime_add a b = a + b"
  by (simp add: ktime_add_def s64_id)

lemma ktime_sub_id [ktime_simps]: "is_s64 (a - b) \<Longrightarrow> ktime_sub a b = a - b"
  by (simp add: ktime_sub_def s64_id)

lemma ktime_delta_id [ktime_simps]: "is_s64 (a - b) \<Longrightarrow> ktime_delta a b = a - b"
  by (simp add: ktime_delta_def ktime_simps)

lemma normalise_down_spec:
  assumes "is_s32 (sec + max 0 (nsec div NSEC_PER_SEC))" "is_s32 sec"
  shows "\<exists>s n. normalise_down sec nsec = (s, n) \<and> n < NSEC_PER_SEC \<and> (0 \<le> nsec \<longrightarrow> 0 \<le> n) \<and> (nsec < 0 \<longrightarrow> n = nsec)
     \<and> s * NSEC_PER_SEC + n = sec * NSEC_PER_SEC + nsec \<and> (nsec < NSEC_PER_SEC \<longrightarrow> s = sec)"
  using assms
proof (induction sec nsec rule: normalise_down.induct)
  case (1 sec nsec)
  show ?case
  proof (cases "NSEC_PER_SEC \<le> nsec")
    case True
    then have d: "(nsec - NSEC_PER_SEC) div NSEC_PER_SEC = nsec div NSEC_PER_SEC - 1" by simp
    have pos: "1 \<le> nsec div NSEC_PER_SEC" using True by (simp add: pos_imp_zdiv_pos_iff int_one_le_iff_zero_less)
    have r: "is_s32 (sec + 1)" using 1(2,3) pos by (auto simp: is_s32_def)
    have "is_s32 (s32 (sec + 1) + max 0 ((nsec - NSEC_PER_SEC) div NSEC_PER_SEC))" "is_s32 (s32 (sec + 1))"
      using 1(2) pos r by (simp_all add: s32_id d)
    from 1(1) [OF True this] True r show ?thesis
      by (subst normalise_down.simps) (auto simp: s32_id)
  next
    case False
    then show ?thesis by (subst normalise_down.simps) auto
  qed
qed


lemma normalise_up_spec:
  assumes "is_s32 (sec + min 0 (nsec div NSEC_PER_SEC))" "is_s32 sec" "nsec < NSEC_PER_SEC"
  shows "\<exists>s n. normalise_up sec nsec = (s, n) \<and> n < NSEC_PER_SEC \<and> 0 \<le> n
     \<and> s * NSEC_PER_SEC + n = sec * NSEC_PER_SEC + nsec"
  using assms
proof (induction sec nsec rule: normalise_up.induct)
  case (1 sec nsec)
  show ?case
  proof (cases "nsec < 0")
    case True
    then have d: "(nsec + NSEC_PER_SEC) div NSEC_PER_SEC = nsec div NSEC_PER_SEC + 1" by simp
    have neg: "nsec div NSEC_PER_SEC < 0" using True by (simp add: pos_imp_zdiv_neg_iff)
    have r: "is_s32 (sec - 1)" using 1(2,3) neg by (auto simp: is_s32_def)
    have "is_s32 (s32 (sec - 1) + min 0 ((nsec + NSEC_PER_SEC) div NSEC_PER_SEC))" "is_s32 (s32 (sec - 1))"
      "nsec + NSEC_PER_SEC < NSEC_PER_SEC"
      using 1(2) neg r True by (simp_all add: s32_id d)
    from 1(1) [OF True this] True r show ?thesis
      by (subst normalise_up.simps) (auto simp: s32_id)
  next
    case False
    with 1(4) show ?thesis by (subst normalise_up.simps) auto
  qed
qed

lemma normalise_total:
  assumes "is_s32 (tv_sec t)" "is_s32 (tv_sec t + tv_nsec t div NSEC_PER_SEC)"
  shows "0 \<le> tv_nsec (timespec_normalise t)" "tv_nsec (timespec_normalise t) < NSEC_PER_SEC"
    "tv_sec (timespec_normalise t) * NSEC_PER_SEC + tv_nsec (timespec_normalise t)
       = tv_sec t * NSEC_PER_SEC + tv_nsec t"
    "tv_sec (timespec_normalise t) = tv_sec t + tv_nsec t div NSEC_PER_SEC"
proof -
  let ?s = "tv_sec t" and ?n = "tv_nsec t"
  have "is_s32 (?s + max 0 (?n div NSEC_PER_SEC))" using assms by (auto simp: max_def)
  from normalise_down_spec [OF this assms(1)] obtain s n where
    d: "normalise_down ?s ?n = (s, n)" "n < NSEC_PER_SEC" "0 \<le> ?n \<longrightarrow> 0 \<le> n" "?n < 0 \<longrightarrow> n = ?n"
    "s * NSEC_PER_SEC + n = ?s * NSEC_PER_SEC + ?n" "?n < NSEC_PER_SEC \<longrightarrow> s = ?s" by blast
  have e: "s + n div NSEC_PER_SEC = ?s + ?n div NSEC_PER_SEC"
  proof -
    have "(s * NSEC_PER_SEC + n) div NSEC_PER_SEC = (?s * NSEC_PER_SEC + ?n) div NSEC_PER_SEC" by (simp only: d(5))
    then show ?thesis by simp
  qed
  have r: "is_s32 s" "is_s32 (s + min 0 (n div NSEC_PER_SEC))"
  proof -
    have "?s \<le> s \<and> s \<le> ?s + ?n div NSEC_PER_SEC \<or> s = ?s"
    proof (cases "0 \<le> ?n")
      case True
      then have "0 \<le> n" using d(3) by simp
      then have "n div NSEC_PER_SEC = 0" using d(2) by simp
      moreover have "0 \<le> ?n div NSEC_PER_SEC" using True by (simp add: pos_imp_zdiv_nonneg_iff)
      ultimately show ?thesis using e by auto
    next
      case False
      then show ?thesis using d(6) by auto
    qed
    with assms show "is_s32 s" by (auto simp: is_s32_def)
    with e assms(2) show "is_s32 (s + min 0 (n div NSEC_PER_SEC))" by (auto simp: min_def)
  qed
  from normalise_up_spec [OF r(2,1) d(2)] obtain s' n' where
    u: "normalise_up s n = (s', n')" "n' < NSEC_PER_SEC" "0 \<le> n'" "s' * NSEC_PER_SEC + n' = s * NSEC_PER_SEC + n" by blast
  have res: "timespec_normalise t = \<lparr>tv_sec = s', tv_nsec = n'\<rparr>"
    by (simp add: timespec_normalise_def d(1) u(1))
  show "0 \<le> tv_nsec (timespec_normalise t)" "tv_nsec (timespec_normalise t) < NSEC_PER_SEC"
    "tv_sec (timespec_normalise t) * NSEC_PER_SEC + tv_nsec (timespec_normalise t) = ?s * NSEC_PER_SEC + ?n"
    using res u d(5) by simp_all
  have "(s' * NSEC_PER_SEC + n') div NSEC_PER_SEC = (?s * NSEC_PER_SEC + ?n) div NSEC_PER_SEC"
    by (simp only: u(4) d(5))
  then show "tv_sec (timespec_normalise t) = ?s + ?n div NSEC_PER_SEC" using res u by simp
qed

lemma timespec_to_ktime_eq:
  assumes "0 \<le> tv_sec t" "is_s32 (tv_sec t)" "0 \<le> tv_nsec t" "tv_nsec t < NSEC_PER_SEC"
  shows "timespec_to_ktime t = tv_sec t * NSEC_PER_SEC + tv_nsec t"
proof -
  have "uint (word_of_int (tv_sec t) :: u32) = tv_sec t" "uint (word_of_int (tv_nsec t) :: u32) = tv_nsec t"
    using assms by (simp_all add: is_s32_def unsigned_of_int take_bit_int_eq_self)
  moreover have "is_s64 (tv_sec t * NSEC_PER_SEC + tv_nsec t)"
    using assms by (auto simp: is_s64_def is_s32_def)
  ultimately show ?thesis by (simp add: timespec_to_ktime_def ktime_set_def s64_id)
qed

section \<open>Properties\<close>

text \<open>\<^verbatim>\<open>timespec_add\<close> of two normalised, non-negative times returns the normalised time whose kernel time is
  the sum of theirs, as long as the seconds fit the 32 bit field.\<close>

theorem timespec_add_correct:
  assumes "0 \<le> tv_sec a" "0 \<le> tv_nsec a" "tv_nsec a < NSEC_PER_SEC"
    and "0 \<le> tv_sec b" "0 \<le> tv_nsec b" "tv_nsec b < NSEC_PER_SEC"
    and "tv_sec a + tv_sec b + 1 < 2 ^ 31"
  shows "0 \<le> tv_nsec (timespec_add a b) \<and> tv_nsec (timespec_add a b) < NSEC_PER_SEC
    \<and> timespec_to_ktime (timespec_add a b) = ktime_add (timespec_to_ktime a) (timespec_to_ktime b)"
proof -
  let ?t = "\<lparr>tv_sec = tv_sec a + tv_sec b, tv_nsec = tv_nsec a + tv_nsec b\<rparr>"
  have r: "is_s32 (tv_sec a + tv_sec b)" "is_s32 (tv_nsec a + tv_nsec b)" "is_s32 (tv_sec a)" "is_s32 (tv_sec b)"
    using assms by (auto simp: is_s32_def)
  then have eq: "timespec_add a b = timespec_normalise ?t" by (simp add: timespec_add_def s32_id)
  have d: "0 \<le> (tv_nsec a + tv_nsec b) div NSEC_PER_SEC"
    using assms by (simp add: pos_imp_zdiv_nonneg_iff)
  have "(tv_nsec a + tv_nsec b) div NSEC_PER_SEC < 2" using assms zdiv_mono1 [of "tv_nsec a + tv_nsec b" 1999999998 NSEC_PER_SEC] by simp
  note d = d this
  then have "is_s32 (tv_sec ?t + tv_nsec ?t div NSEC_PER_SEC)" using assms by (auto simp: is_s32_def)
  note n = normalise_total [of ?t, OF _ this]
  have s: "0 \<le> tv_sec (timespec_normalise ?t)" "is_s32 (tv_sec (timespec_normalise ?t))"
    using n(4) r d assms by (auto simp: is_s32_def)
  have "timespec_to_ktime (timespec_add a b) = (tv_sec a + tv_sec b) * NSEC_PER_SEC + (tv_nsec a + tv_nsec b)"
    using timespec_to_ktime_eq [OF s(1,2)] n(1-3) r(1) by (simp add: eq)
  moreover have "is_s64 ((tv_sec a + tv_sec b) * NSEC_PER_SEC + (tv_nsec a + tv_nsec b))"
    using assms by (auto simp: is_s64_def)
  ultimately show ?thesis
    using n(1,2) r assms by (simp add: eq timespec_to_ktime_eq ktime_add_def s64_id algebra_simps)
qed

theorem timespec_add_correct_witness:
  "timespec_to_ktime (timespec_add \<lparr>tv_sec = 3, tv_nsec = 600000000\<rparr> \<lparr>tv_sec = 4, tv_nsec = 700000000\<rparr>)
     = ktime_add 3600000000 4700000000"
  using timespec_add_correct [of "\<lparr>tv_sec = 3, tv_nsec = 600000000\<rparr>" "\<lparr>tv_sec = 4, tv_nsec = 700000000\<rparr>"]
  by (simp add: timespec_to_ktime_eq is_s32_def)

text \<open>The check of \<^verbatim>\<open>ns_to_timespec\<close> against the range of the seconds compares with a negative
  number, so that the machine halts on every positive number of nanoseconds.\<close>

theorem ns_to_timespec_halts:
  assumes "0 < nsec"
  shows "ns_to_timespec nsec = None \<and> ktime_to_timespec nsec = None \<and> timespec_add_ns ts nsec = None"
proof -
  have "s64 ((- 1 - 2 ^ 31) * NSEC_PER_SEC) = (- 1 - 2 ^ 31) * NSEC_PER_SEC" by (rule s64_id) (simp add: is_s64_def)
  with assms show ?thesis by (simp add: ns_to_timespec_def ktime_to_timespec_def timespec_add_ns_def)
qed

theorem ns_to_timespec_halts_witness: "ns_to_timespec 1 = None"
  using ns_to_timespec_halts [of 1] by simp

end
