(* ===== verification/Irq.thy ===== *)
theory Irq
  imports Ktime
begin

text \<open>
  The interrupt manager: the interface in \<^verbatim>\<open>kernel/irq.c\<close> and its implementation on the LEON3 in
  \<^verbatim>\<open>arch/sparc/kernel/irq.c\<close>, with rate protection and statistics, and started by the kernel's own boot code.  The
  elements of the two pools are numbered; the lists that hold them are lists of numbers.  What comes from outside is in
  the environment: the functions registered as handlers, which act on a world of their own, the number of the calling
  processor, and the readings of the clock and of two registers of the controller, in the order in which they are read.
  Writes to the controller are recorded, except for masks and level, which are read back.  \<^term>\<open>None\<close> is an access
  outside of an array, a shift by too many bits, a call through a null pointer or a failing \<^verbatim>\<open>BUG_ON\<close>.  Only the
  initialisation can register the static function \<^verbatim>\<open>leon_eirq_dispatch\<close>, and only at a primary line; as the
  handler of an extended line it is \<^term>\<open>None\<close>.
\<close>

section \<open>State\<close>

abbreviation (input) IRL_SIZE :: nat where "IRL_SIZE \<equiv> 16"
abbreviation (input) EIRL_SIZE :: nat where "EIRL_SIZE \<equiv> 32"
abbreviation (input) IRL_POOL_SIZE :: nat where "IRL_POOL_SIZE \<equiv> 64"
abbreviation (input) IRL_QUEUE_SIZE :: nat where "IRL_QUEUE_SIZE \<equiv> 64"
abbreviation (input) CPU_AFFINITY_NONE :: int where "CPU_AFFINITY_NONE \<equiv> - 1"
abbreviation (input) CONFIG_IRQ_MIN_INTER_US :: int where "CONFIG_IRQ_MIN_INTER_US \<equiv> 200"
abbreviation (input) GPTIMER_0_IRQ :: u32 where "GPTIMER_0_IRQ \<equiv> 8"
abbreviation (input) LEON3_GPTIMERS :: u32 where "LEON3_GPTIMERS \<equiv> 4"
abbreviation (input) ISR_PRIORITY_NOW :: int where "ISR_PRIORITY_NOW \<equiv> 0"
abbreviation (input) ISR_PRIORITY_DEFERRED :: int where "ISR_PRIORITY_DEFERRED \<equiv> 1"

record irl_vector_elem =
  ie_handler :: u32
  ie_priority :: int
  ie_data :: u32
  ie_irq :: u32

text \<open>Which functions of the controller are set.\<close>

record irq_dev =
  irq_enable :: bool
  irq_disable :: bool
  irq_deferred :: bool
  irq_set_aff :: bool

datatype irq_reg = Irq_Pending | Irq_Force | Irq_Clear | Irq_Mpforce nat

record 'w irqs =
  irq_ctrl :: "irq_dev option"
  irl_elem :: "nat \<Rightarrow> irl_vector_elem"
  irl_pool_head :: "nat list"
  irl_queue_head :: "nat list"
  irq_queue_pool_head :: "nat list"
  irl_vector :: "nat list list"
  eirl_vector :: "nat list list"
  irq_cpu_affinity :: "int list"
  leon_eirq :: u32
  last_irq :: "ktime list"
  last_eirq :: "ktime list"
  need_restore :: int
  irq_blocked :: "u8 list"
  eirq_blocked :: "u8 list"
  st_irl :: u32
  st_eirl :: u32
  st_irl_irq :: "u32 list"
  st_eirl_irq :: "u32 list"
  irq_level :: u32
  irq_mpmask :: "u32 list"
  irq_writes :: "(irq_reg \<times> u32) list"
  n_id :: nat
  n_pend :: nat
  n_clk :: nat
  irq_world :: 'w

text \<open>\<open>e_call f irq data\<close> is the registered function at address \<open>f\<close>, with whether it returns \<^verbatim>\<open>IRQ_HANDLED\<close>;
  \<open>e_eirq_fn\<close> is the address of \<^verbatim>\<open>leon_eirq_dispatch\<close>.\<close>

record 'w irq_env =
  e_call :: "u32 \<Rightarrow> u32 \<Rightarrow> u32 \<Rightarrow> 'w \<Rightarrow> bool \<times> 'w"
  e_eirq_fn :: u32
  e_cpu :: int
  e_clk :: "nat \<Rightarrow> ktime"
  e_id :: "nat \<Rightarrow> u32"
  e_pend :: "nat \<Rightarrow> u32"

definition at :: "'a list \<Rightarrow> nat \<Rightarrow> 'a option" where
  "at xs i = (if i < length xs then Some (xs ! i) else None)"

definition upd_at :: "'a list \<Rightarrow> nat \<Rightarrow> 'a \<Rightarrow> 'a list option" where
  "upd_at xs i x = (if i < length xs then Some (xs[i := x]) else None)"

definition irq_bit :: "u32 \<Rightarrow> u32 option" where
  "irq_bit irq = (if irq < 32 then Some (push_bit (unat irq) 1) else None)"

definition irq_out :: "irq_reg \<Rightarrow> u32 \<Rightarrow> 'w irqs \<Rightarrow> 'w irqs" where
  "irq_out r v S = S\<lparr>irq_writes := irq_writes S @ [(r, v)]\<rparr>"

definition clk_get :: "'w irq_env \<Rightarrow> 'w irqs \<Rightarrow> ktime \<times> 'w irqs" where
  "clk_get E S = (e_clk E (n_clk S), S\<lparr>n_clk := n_clk S + 1\<rparr>)"

definition pend_get :: "'w irq_env \<Rightarrow> 'w irqs \<Rightarrow> u32 \<times> 'w irqs" where
  "pend_get E S = (e_pend E (n_pend S), S\<lparr>n_pend := n_pend S + 1\<rparr>)"

text \<open>An index into the registers of the processors; the map of the LEON3 has two.\<close>

definition cpu_ix :: "int \<Rightarrow> nat option" where
  "cpu_ix cpu = (if 0 \<le> cpu \<and> cpu < 2 then Some (nat cpu) else None)"

section \<open>The controller\<close>

definition leon_clear_irq :: "'w irq_env \<Rightarrow> u32 \<Rightarrow> 'w irqs \<Rightarrow> 'w irqs option" where
  "leon_clear_irq E irq S =
     (if unat irq < IRL_SIZE then do { b \<leftarrow> irq_bit irq; Some (irq_out Irq_Clear b S) }
      else do {
        let (mask, S) = pend_get E S;
        b \<leftarrow> irq_bit irq;
        Some (irq_out Irq_Pending (mask AND NOT b) S)
      })"

definition leon_unmask_irq :: "u32 \<Rightarrow> int \<Rightarrow> 'w irqs \<Rightarrow> 'w irqs option" where
  "leon_unmask_irq irq cpu S = do {
     c \<leftarrow> cpu_ix cpu;
     mask \<leftarrow> at (irq_mpmask S) c;
     b \<leftarrow> irq_bit irq;
     Some (S\<lparr>irq_mpmask := (irq_mpmask S)[c := mask OR b]\<rparr>)
   }"

definition leon_mask_irq :: "u32 \<Rightarrow> int \<Rightarrow> 'w irqs \<Rightarrow> 'w irqs option" where
  "leon_mask_irq irq cpu S = do {
     c \<leftarrow> cpu_ix cpu;
     mask \<leftarrow> at (irq_mpmask S) c;
     b \<leftarrow> irq_bit irq;
     Some (S\<lparr>irq_mpmask := (irq_mpmask S)[c := mask AND NOT b]\<rparr>)
   }"

definition leon_enable_irq :: "'w irq_env \<Rightarrow> u32 \<Rightarrow> int \<Rightarrow> 'w irqs \<Rightarrow> 'w irqs option" where
  "leon_enable_irq E irq cpu S = do { S \<leftarrow> leon_clear_irq E irq S; leon_unmask_irq irq cpu S }"

definition leon_disable_irq :: "'w irq_env \<Rightarrow> u32 \<Rightarrow> int \<Rightarrow> 'w irqs \<Rightarrow> 'w irqs option" where
  "leon_disable_irq E irq cpu S = do { S \<leftarrow> leon_clear_irq E irq S; leon_mask_irq irq cpu S }"

definition leon_force_irq :: "u32 \<Rightarrow> int \<Rightarrow> 'w irqs \<Rightarrow> 'w irqs option" where
  "leon_force_irq irq cpu S = do {
     b \<leftarrow> irq_bit irq;
     if 0 \<le> cpu then do { c \<leftarrow> cpu_ix cpu; Some (irq_out (Irq_Mpforce c) b S) }
     else Some (irq_out Irq_Force b S)
   }"

definition leon_irq_set_level :: "u32 \<Rightarrow> u32 \<Rightarrow> 'w irqs \<Rightarrow> 'w irqs" where
  "leon_irq_set_level irq_mask level S =
     (let flags = irq_level S;
          flags = (if level = 0 then flags AND NOT irq_mask else flags OR irq_mask)
      in S\<lparr>irq_level := flags\<rparr>)"

section \<open>Rate protection\<close>

definition leon_check_irq_rate :: "'w irq_env \<Rightarrow> u32 \<Rightarrow> int \<Rightarrow> 'w irqs \<Rightarrow> 'w irqs option" where
  "leon_check_irq_rate E irq cpu S =
     (if GPTIMER_0_IRQ \<le> irq \<and> irq < GPTIMER_0_IRQ + LEON3_GPTIMERS then Some S
      else do {
        let (now, S) = clk_get E S;
        earlier \<leftarrow> at (last_irq S) (unat irq);
        l \<leftarrow> upd_at (last_eirq S) (unat irq) now;
        let S = S\<lparr>last_eirq := l\<rparr>;
        if ktime_to_us (ktime_delta now earlier) < CONFIG_IRQ_MIN_INTER_US then do {
          S \<leftarrow> leon_mask_irq irq cpu S;
          b \<leftarrow> upd_at (irq_blocked S) (unat irq) (word_of_int (cpu + 1));
          Some (S\<lparr>irq_blocked := b, need_restore := need_restore S + 1\<rparr>)
        } else Some S
      })"

definition leon_check_eirq_rate :: "'w irq_env \<Rightarrow> u32 \<Rightarrow> int \<Rightarrow> 'w irqs \<Rightarrow> (bool \<times> 'w irqs) option" where
  "leon_check_eirq_rate E irq cpu S = do {
     let (now, S) = clk_get E S;
     earlier \<leftarrow> at (last_eirq S) (unat irq);
     l \<leftarrow> upd_at (last_eirq S) (unat irq) now;
     let S = S\<lparr>last_eirq := l\<rparr>;
     if ktime_to_us (ktime_delta now earlier) < CONFIG_IRQ_MIN_INTER_US then do {
       S \<leftarrow> leon_disable_irq E irq cpu S;
       b \<leftarrow> upd_at (eirq_blocked S) (unat irq) (word_of_int (cpu + 1));
       Some (True, S\<lparr>eirq_blocked := b, need_restore := need_restore S + 1\<rparr>)
     } else Some (False, S)
   }"

section \<open>Dispatching\<close>

text \<open>The new element takes all fields of the queued one.\<close>

definition leon_irq_queue :: "nat \<Rightarrow> 'w irqs \<Rightarrow> int \<times> 'w irqs" where
  "leon_irq_queue p_elem S =
     (case irq_queue_pool_head S of
        [] \<Rightarrow> (- EBUSY, S)
      | p_queue # pool \<Rightarrow>
          (0, S\<lparr>irl_elem := (irl_elem S)(p_queue := irl_elem S p_elem), irq_queue_pool_head := pool,
               irl_queue_head := irl_queue_head S @ [p_queue]\<rparr>))"

definition ext_isr :: "'w irq_env \<Rightarrow> u32 \<Rightarrow> nat \<Rightarrow> 'w irqs \<Rightarrow> (bool \<times> 'w irqs) option" where
  "ext_isr E irq p S =
     (let f = ie_handler (irl_elem S p) in
      if f = 0 \<or> f = e_eirq_fn E then None
      else (let (r, w) = e_call E f irq (ie_data (irl_elem S p)) (irq_world S) in Some (r, S\<lparr>irq_world := w\<rparr>)))"

text \<open>The body of the loops over the elements of an interrupt line, and the loop; \<open>isr\<close> calls the handler of an
  element, whose result is ignored.\<close>

definition isr_body :: "(nat \<Rightarrow> 'w irqs \<Rightarrow> (bool \<times> 'w irqs) option) \<Rightarrow> nat \<Rightarrow> 'w irqs \<Rightarrow> 'w irqs option" where
  "isr_body isr p S =
     (if ie_priority (irl_elem S p) = ISR_PRIORITY_NOW then map_option snd (isr p S)
      else (let (r, S') = leon_irq_queue p S in if r < 0 then map_option snd (isr p S') else Some S'))"

fun isr_walk :: "(nat \<Rightarrow> 'w irqs \<Rightarrow> (bool \<times> 'w irqs) option) \<Rightarrow> nat list \<Rightarrow> 'w irqs \<Rightarrow> 'w irqs option" where
  "isr_walk isr [] S = Some S"
| "isr_walk isr (p # ps) S = do { S \<leftarrow> isr_body isr p S; isr_walk isr ps S }"

text \<open>One turn of the loop of \<^verbatim>\<open>leon_eirq_dispatch\<close>, with whether there is another, and the loop.\<close>

definition eirq_turn :: "'w irq_env \<Rightarrow> 'w irqs \<Rightarrow> (bool \<times> 'w irqs) option" where
  "eirq_turn E S =
     (let eirq = e_id E (n_id S); S = S\<lparr>n_id := n_id S + 1\<rparr> in
      if eirq = 0 then Some (False, S)
      else do {
        let eirq = eirq AND 0x1F;
        S \<leftarrow> leon_clear_irq E eirq S;
        (stop, S) \<leftarrow> leon_check_eirq_rate E eirq (e_cpu E) S;
        if stop then Some (False, S)
        else do {
          c \<leftarrow> at (st_eirl_irq S) (unat eirq);
          let S = S\<lparr>st_eirl := st_eirl S + 1, st_eirl_irq := (st_eirl_irq S)[unat eirq := c + 1]\<rparr>;
          ps \<leftarrow> at (eirl_vector S) (unat eirq);
          S \<leftarrow> isr_walk (ext_isr E eirq) ps S;
          let (pend, S) = pend_get E S;
          Some (drop_bit IRL_SIZE pend \<noteq> 0, S)
        }
      })"

partial_function (option) eirq_loop :: "'w irq_env \<Rightarrow> 'w irqs \<Rightarrow> 'w irqs option" where
  "eirq_loop E S = do { (more, S) \<leftarrow> eirq_turn E S; if more then eirq_loop E S else Some S }"

declare eirq_loop.simps [code]

definition irl_count :: "u32 \<Rightarrow> 'w irqs \<Rightarrow> 'w irqs option" where
  "irl_count irq S = do {
     c \<leftarrow> at (st_irl_irq S) (unat irq);
     Some (S\<lparr>st_irl := st_irl S + 1, st_irl_irq := (st_irl_irq S)[unat irq := c + 1]\<rparr>)
   }"

definition leon_eirq_dispatch :: "'w irq_env \<Rightarrow> u32 \<Rightarrow> 'w irqs \<Rightarrow> 'w irqs option" where
  "leon_eirq_dispatch E irq S = do {
     S \<leftarrow> irl_count irq S;
     S \<leftarrow> eirq_loop E S;
     S \<leftarrow> leon_clear_irq E irq S;
     S \<leftarrow> leon_check_irq_rate E irq (e_cpu E) S;
     leon_check_irq_rate E irq 0 S
   }"

text \<open>A handler of a primary line; the one of the extended interrupts returns 0.\<close>

definition irl_isr :: "'w irq_env \<Rightarrow> u32 \<Rightarrow> nat \<Rightarrow> 'w irqs \<Rightarrow> (bool \<times> 'w irqs) option" where
  "irl_isr E irq p S =
     (if ie_handler (irl_elem S p) = e_eirq_fn E then map_option (Pair False) (leon_eirq_dispatch E irq S)
      else ext_isr E irq p S)"

definition leon_irq_dispatch :: "'w irq_env \<Rightarrow> u32 \<Rightarrow> 'w irqs \<Rightarrow> 'w irqs option" where
  "leon_irq_dispatch E irq S = do {
     S \<leftarrow> irl_count irq S;
     ps \<leftarrow> at (irl_vector S) (unat irq);
     S \<leftarrow> isr_walk (irl_isr E irq) ps S;
     S \<leftarrow> leon_check_irq_rate E irq (e_cpu E) S;
     leon_check_irq_rate E irq 0 S
   }"

section \<open>Deferred handlers\<close>

text \<open>The body of the loop over the queue; the element has been taken out of it.\<close>

definition exec_elem :: "'w irq_env \<Rightarrow> nat \<Rightarrow> 'w irqs \<Rightarrow> 'w irqs option" where
  "exec_elem E p S =
     (if ie_handler (irl_elem S p) \<noteq> 0 then do {
        (r, S) \<leftarrow> irl_isr E (ie_irq (irl_elem S p)) p S;
        if \<not> r then Some (snd (leon_irq_queue p S))
        else Some (S\<lparr>irq_queue_pool_head := irq_queue_pool_head S @ [p]\<rparr>)
      } else Some (S\<lparr>irq_queue_pool_head := irq_queue_pool_head S @ [p]\<rparr>))"

text \<open>The loop has looked at the successor of an element before it runs the body, and ends when there was none.\<close>

partial_function (option) exec_loop :: "'w irq_env \<Rightarrow> 'w irqs \<Rightarrow> 'w irqs option" where
  "exec_loop E S =
     (case irl_queue_head S of
        [] \<Rightarrow> Some S
      | p # ps \<Rightarrow> do {
          S \<leftarrow> exec_elem E p (S\<lparr>irl_queue_head := ps\<rparr>);
          if ps = [] then Some S else exec_loop E S
        })"

declare exec_loop.simps [code]

definition leon_irq_queue_execute :: "'w irq_env \<Rightarrow> 'w irqs \<Rightarrow> 'w irqs option" where
  "leon_irq_queue_execute E S = (if irl_queue_head S = [] then Some S else exec_loop E S)"

section \<open>Delayed handlers of blocked interrupts\<close>

definition restore_irl :: "'w irq_env \<Rightarrow> ktime \<Rightarrow> nat \<Rightarrow> 'w irqs \<Rightarrow> 'w irqs option" where
  "restore_irl E now i S = do {
     b \<leftarrow> at (irq_blocked S) i;
     if b = 0 then Some S else do {
       earlier \<leftarrow> at (last_irq S) i;
       if ktime_to_us (ktime_delta now earlier) < CONFIG_IRQ_MIN_INTER_US then Some S
       else do {
         ps \<leftarrow> at (irl_vector S) i;
         S \<leftarrow> isr_walk (irl_isr E (of_nat i)) ps S;
         b \<leftarrow> at (irq_blocked S) i;
         S \<leftarrow> leon_unmask_irq (of_nat i) (uint b - 1) S;
         Some (S\<lparr>irq_blocked := (irq_blocked S)[i := 0], need_restore := need_restore S - 1\<rparr>)
       }
     }
   }"

definition restore_eirl :: "'w irq_env \<Rightarrow> ktime \<Rightarrow> nat \<Rightarrow> 'w irqs \<Rightarrow> 'w irqs option" where
  "restore_eirl E now i S = do {
     b \<leftarrow> at (eirq_blocked S) i;
     if b = 0 then Some S else do {
       earlier \<leftarrow> at (last_eirq S) i;
       if ktime_to_us (ktime_delta now earlier) < CONFIG_IRQ_MIN_INTER_US then Some S
       else do {
         ps \<leftarrow> at (eirl_vector S) i;
         S \<leftarrow> isr_walk (irl_isr E (of_nat i)) ps S;
         b \<leftarrow> at (eirq_blocked S) i;
         S \<leftarrow> leon_unmask_irq (of_nat i) (uint b - 1) S;
         Some (S\<lparr>eirq_blocked := (eirq_blocked S)[i := 0], need_restore := need_restore S - 1\<rparr>)
       }
     }
   }"

fun over :: "(nat \<Rightarrow> 's \<Rightarrow> 's option) \<Rightarrow> nat list \<Rightarrow> 's \<Rightarrow> 's option" where
  "over f [] s = Some s"
| "over f (i # is) s = do { s \<leftarrow> f i s; over f is s }"

text \<open>One turn of the endless loop of the thread.\<close>

definition leon_irq_prot_restore :: "'w irq_env \<Rightarrow> 'w irqs \<Rightarrow> 'w irqs option" where
  "leon_irq_prot_restore E S =
     (if need_restore S = 0 then Some S
      else do {
        let (now, S) = clk_get E S;
        S \<leftarrow> over (restore_irl E now) [0 ..< IRL_SIZE] S;
        over (restore_eirl E now) [0 ..< EIRL_SIZE] S
      })"

section \<open>Registration\<close>

definition set_affinity_default :: "'w irq_env \<Rightarrow> u32 \<Rightarrow> 'w irqs \<Rightarrow> 'w irqs option" where
  "set_affinity_default E irq S = do {
     cpu \<leftarrow> at (irq_cpu_affinity S) (unat irq);
     let (cpu, S) = (if cpu = CPU_AFFINITY_NONE
                     then (e_cpu E, S\<lparr>irq_cpu_affinity := (irq_cpu_affinity S)[unat irq := e_cpu E]\<rparr>) else (cpu, S));
     leon_enable_irq E irq cpu S
   }"

definition irl_register_handler ::
    "'w irq_env \<Rightarrow> u32 \<Rightarrow> int \<Rightarrow> u32 \<Rightarrow> u32 \<Rightarrow> 'w irqs \<Rightarrow> (int \<times> 'w irqs) option" where
  "irl_register_handler E irq priority handler data S =
     (case irl_pool_head S of
        [] \<Rightarrow> Some (- ENOMEM, S)
      | p # pool \<Rightarrow>
          if unat irq > IRL_SIZE then Some (- EINVAL, S)
          else if handler = 0 then Some (- EINVAL, S)
          else do {
            ps \<leftarrow> at (irl_vector S) (unat irq);
            let S = S\<lparr>irl_elem := (irl_elem S)(p := \<lparr>ie_handler = handler, ie_priority = priority, ie_data = data, ie_irq = irq\<rparr>),
                      irl_pool_head := pool, irl_vector := (irl_vector S)[unat irq := ps @ [p]]\<rparr>;
            S \<leftarrow> set_affinity_default E irq S;
            Some (0, S)
          })"

definition eirl_register_handler ::
    "'w irq_env \<Rightarrow> u32 \<Rightarrow> int \<Rightarrow> u32 \<Rightarrow> u32 \<Rightarrow> 'w irqs \<Rightarrow> (int \<times> 'w irqs) option" where
  "eirl_register_handler E irq priority handler data S =
     (case irl_pool_head S of
        [] \<Rightarrow> Some (- ENOMEM, S)
      | p # pool \<Rightarrow>
          if unat irq > IRL_SIZE + EIRL_SIZE then Some (- EINVAL, S)
          else if unat irq < IRL_SIZE then Some (- EINVAL, S)
          else if handler = 0 then Some (- EINVAL, S)
          else do {
            ps \<leftarrow> at (eirl_vector S) (unat irq);
            let S = S\<lparr>irl_elem := (irl_elem S)(p := \<lparr>ie_handler = handler, ie_priority = priority, ie_data = data, ie_irq = irq\<rparr>),
                      irl_pool_head := pool, eirl_vector := (eirl_vector S)[unat irq := ps @ [p]]\<rparr>;
            S \<leftarrow> set_affinity_default E irq S;
            Some (0, S)
          })"

text \<open>The priority of a released element is set to \<open>-1\<close>.\<close>

definition release_elem :: "nat \<Rightarrow> 'w irqs \<Rightarrow> 'w irqs" where
  "release_elem p S = S\<lparr>irl_elem := (irl_elem S)(p := (irl_elem S p)\<lparr>ie_handler := 0, ie_data := 0, ie_priority := - 1\<rparr>)\<rparr>"

definition irl_dereg_elem :: "'w irq_env \<Rightarrow> u32 \<Rightarrow> u32 \<Rightarrow> u32 \<Rightarrow> nat \<Rightarrow> 'w irqs \<Rightarrow> 'w irqs option" where
  "irl_dereg_elem E irq handler data p S =
     (if ie_handler (irl_elem S p) = handler \<and> ie_data (irl_elem S p) = data then do {
        let S = release_elem p S;
        ps \<leftarrow> at (irl_vector S) (unat irq);
        let S = S\<lparr>irl_vector := (irl_vector S)[unat irq := remove1 p ps], irl_pool_head := irl_pool_head S @ [p]\<rparr>;
        if irl_vector S ! unat irq = [] then leon_disable_irq E irq (e_cpu E) S else Some S
      } else Some S)"

definition irl_deregister_handler :: "'w irq_env \<Rightarrow> u32 \<Rightarrow> u32 \<Rightarrow> u32 \<Rightarrow> 'w irqs \<Rightarrow> (int \<times> 'w irqs) option" where
  "irl_deregister_handler E irq handler data S =
     (if irq > 0xF then Some (- EINVAL, S)
      else do {
        ps \<leftarrow> at (irl_vector S) (unat irq);
        S \<leftarrow> over (irl_dereg_elem E irq handler data) ps S;
        Some (0, S)
      })"

definition eirl_dereg_elem :: "'w irq_env \<Rightarrow> u32 \<Rightarrow> u32 \<Rightarrow> u32 \<Rightarrow> nat \<Rightarrow> 'w irqs \<Rightarrow> 'w irqs option" where
  "eirl_dereg_elem E irq handler data p S =
     (if ie_handler (irl_elem S p) = handler \<and> ie_data (irl_elem S p) = data then do {
        let S = release_elem p S;
        ps \<leftarrow> at (eirl_vector S) (unat irq);
        let S = S\<lparr>eirl_vector := (eirl_vector S)[unat irq := remove1 p ps], irl_pool_head := irl_pool_head S @ [p]\<rparr>;
        if eirl_vector S ! unat irq = [] then leon_disable_irq E irq (e_cpu E) S else Some S
      } else Some S)"

definition eirl_deregister_handler :: "'w irq_env \<Rightarrow> u32 \<Rightarrow> u32 \<Rightarrow> u32 \<Rightarrow> 'w irqs \<Rightarrow> (int \<times> 'w irqs) option" where
  "eirl_deregister_handler E irq handler data S =
     (if irq > 0x1F then Some (- EINVAL, S)
      else if irq < 0x10 then Some (- EINVAL, S)
      else do {
        ps \<leftarrow> at (eirl_vector S) (unat irq);
        S \<leftarrow> over (eirl_dereg_elem E irq handler data) ps S;
        Some (0, S)
      })"

section \<open>The functions of the controller\<close>

definition enable_irq :: "'w irq_env \<Rightarrow> u32 \<Rightarrow> int \<Rightarrow> u32 \<Rightarrow> u32 \<Rightarrow> 'w irqs \<Rightarrow> (int \<times> 'w irqs) option" where
  "enable_irq E irq priority handler data S =
     (if unat irq < IRL_SIZE then irl_register_handler E irq priority handler data S
      else eirl_register_handler E irq priority handler data S)"

definition disable_irq :: "'w irq_env \<Rightarrow> u32 \<Rightarrow> u32 \<Rightarrow> u32 \<Rightarrow> 'w irqs \<Rightarrow> 'w irqs option" where
  "disable_irq E irq handler data S =
     (if irq > 0xF then map_option snd (eirl_deregister_handler E irq handler data S)
      else if irq < 0x10 then map_option snd (irl_deregister_handler E irq handler data S)
      else Some S)"

definition mask_irq :: "'w irq_env \<Rightarrow> u32 \<Rightarrow> 'w irqs \<Rightarrow> 'w irqs option" where
  "mask_irq E irq S = leon_mask_irq irq (e_cpu E) S"

definition unmask_irq :: "'w irq_env \<Rightarrow> u32 \<Rightarrow> 'w irqs \<Rightarrow> 'w irqs option" where
  "unmask_irq E irq S = leon_unmask_irq irq (e_cpu E) S"

definition set_affinity :: "'w irq_env \<Rightarrow> u32 \<Rightarrow> int \<Rightarrow> 'w irqs \<Rightarrow> 'w irqs option" where
  "set_affinity E irq cpu S = do {
     a \<leftarrow> at (irq_cpu_affinity S) (unat irq);
     if a = cpu then Some S
     else do {
       S \<leftarrow> (if a \<noteq> CPU_AFFINITY_NONE then leon_mask_irq irq a S else Some S);
       S \<leftarrow> leon_enable_irq E irq cpu S;
       Some (S\<lparr>irq_cpu_affinity := (irq_cpu_affinity S)[unat irq := cpu]\<rparr>)
     }
   }"

section \<open>The interface\<close>

definition irq_request :: "'w irq_env \<Rightarrow> u32 \<Rightarrow> int \<Rightarrow> u32 \<Rightarrow> u32 \<Rightarrow> 'w irqs \<Rightarrow> (int \<times> 'w irqs) option" where
  "irq_request E irq priority handler data S =
     (case irq_ctrl S of
        None \<Rightarrow> Some (- EINVAL, S)
      | Some d \<Rightarrow> if \<not> irq_enable d then Some (- EINVAL, S) else enable_irq E irq priority handler data S)"

definition irq_free :: "'w irq_env \<Rightarrow> u32 \<Rightarrow> u32 \<Rightarrow> u32 \<Rightarrow> 'w irqs \<Rightarrow> (int \<times> 'w irqs) option" where
  "irq_free E irq handler data S =
     (case irq_ctrl S of
        None \<Rightarrow> Some (- EINVAL, S)
      | Some d \<Rightarrow> if \<not> irq_disable d then Some (- EINVAL, S) else map_option (Pair 0) (disable_irq E irq handler data S))"

definition irq_exec_deferred :: "'w irq_env \<Rightarrow> 'w irqs \<Rightarrow> (int \<times> 'w irqs) option" where
  "irq_exec_deferred E S =
     (case irq_ctrl S of
        None \<Rightarrow> Some (- EINVAL, S)
      | Some d \<Rightarrow> map_option (Pair 0) (if irq_deferred d then leon_irq_queue_execute E S else Some S))"

definition irq_set_affinity :: "'w irq_env \<Rightarrow> u32 \<Rightarrow> int \<Rightarrow> 'w irqs \<Rightarrow> (int \<times> 'w irqs) option" where
  "irq_set_affinity E irq cpu S =
     (case irq_ctrl S of
        None \<Rightarrow> Some (- EINVAL, S)
      | Some d \<Rightarrow> map_option (Pair 0) (if irq_set_aff d then set_affinity E irq cpu S else Some S))"

definition irq_init :: "irq_dev option \<Rightarrow> 'w irqs \<Rightarrow> 'w irqs" where
  "irq_init dev S = S\<lparr>irq_ctrl := dev\<rparr>"

definition leon_irq :: irq_dev where
  "leon_irq = \<lparr>irq_enable = True, irq_disable = True, irq_deferred = True, irq_set_aff = True\<rparr>"

section \<open>Initialisation\<close>

text \<open>The state of the static variables before; \<open>w\<close> is the world of the handlers.\<close>

definition zero_elem :: irl_vector_elem where
  "zero_elem = \<lparr>ie_handler = 0, ie_priority = 0, ie_data = 0, ie_irq = 0\<rparr>"

definition irq_boot :: "'w \<Rightarrow> 'w irqs" where
  "irq_boot w = \<lparr>irq_ctrl = None, irl_elem = (\<lambda>_. zero_elem), irl_pool_head = [], irl_queue_head = [], irq_queue_pool_head = [],
     irl_vector = [], eirl_vector = [], irq_cpu_affinity = replicate (IRL_SIZE + EIRL_SIZE) 0, leon_eirq = 0,
     last_irq = replicate IRL_SIZE 0, last_eirq = replicate EIRL_SIZE 0, need_restore = 0,
     irq_blocked = replicate IRL_SIZE 0, eirq_blocked = replicate EIRL_SIZE 0,
     st_irl = 0, st_eirl = 0, st_irl_irq = replicate IRL_SIZE 0, st_eirl_irq = replicate EIRL_SIZE 0,
     irq_level = 0, irq_mpmask = replicate 2 0, irq_writes = [], n_id = 0, n_pend = 0, n_clk = 0, irq_world = w\<rparr>"

text \<open>\<open>oks\<close> says which of the four allocations succeed.  When one fails the heads of the lists are not initialised.\<close>

definition irq_dispatch_init :: "bool \<times> bool \<times> bool \<times> bool \<Rightarrow> 'w irqs \<Rightarrow> int \<times> 'w irqs" where
  "irq_dispatch_init oks S =
     (case oks of (ok1, ok2, ok3, ok4) \<Rightarrow>
        if \<not> ok1 then (- 1, S)
        else if \<not> ok2 then (- 1, S)
        else if \<not> ok3 then (- 1, S)
        else if \<not> ok4 then (- 1, S)
        else (0, S\<lparr>irl_vector := replicate IRL_SIZE [], eirl_vector := replicate EIRL_SIZE [],
                   irl_elem := (\<lambda>_. zero_elem), irl_queue_head := [],
                   irl_pool_head := [0 ..< IRL_POOL_SIZE],
                   irq_queue_pool_head := [IRL_POOL_SIZE ..< IRL_POOL_SIZE + IRL_QUEUE_SIZE],
                   irq_cpu_affinity := replicate (IRL_SIZE + EIRL_SIZE) CPU_AFFINITY_NONE\<rparr>))"

definition leon_setup_eirq :: "'w irq_env \<Rightarrow> u32 \<Rightarrow> 'w irqs \<Rightarrow> 'w irqs option" where
  "leon_setup_eirq E mp_status S =
     (let eirq = drop_bit 16 mp_status AND 0xf in
      if eirq = 0 \<or> unat eirq > IRL_SIZE then None
      else do {
        let S = S\<lparr>leon_eirq := eirq\<rparr>;
        (r, S) \<leftarrow> irl_register_handler E eirq ISR_PRIORITY_NOW (e_eirq_fn E) 0 S;
        if r \<noteq> 0 then None
        else do { S \<leftarrow> leon_enable_irq E eirq 0 S; leon_enable_irq E eirq 1 S }
      })"

definition leon_irq_init :: "'w irq_env \<Rightarrow> bool \<times> bool \<times> bool \<times> bool \<Rightarrow> u32 \<Rightarrow> 'w irqs \<Rightarrow> 'w irqs option" where
  "leon_irq_init E oks mp_status S = do {
     c \<leftarrow> cpu_ix (e_cpu E);
     m \<leftarrow> upd_at (irq_mpmask S) c 0;
     m \<leftarrow> upd_at m 1 0;
     let S = irq_init (Some leon_irq) (S\<lparr>irq_mpmask := m\<rparr>);
     let (r, S) = irq_dispatch_init oks S;
     if r \<noteq> 0 then None else leon_setup_eirq E mp_status S
   }"

end
