(* ===== verification/Irq_Inv.thy ===== *)
theory Irq_Inv
  imports Irq "HOL-Library.Multiset"
begin

text \<open>
  The invariant of the interrupt manager: which lists hold which elements, and that every operation keeps it and never
  leaves the arrays.
\<close>

section \<open>Lists of lists\<close>

lemma mset_concat_update:
  "i < length xs \<Longrightarrow> mset (concat (xs[i := ys])) + mset (xs ! i) = mset (concat xs) + mset ys"
  by (induction xs arbitrary: i) (auto split: nat.splits simp: nth_Cons)

lemma in_concat_update: "i < length xs \<Longrightarrow> p \<in> set (concat (xs[i := ys])) \<Longrightarrow> p \<in> set (concat xs) \<or> p \<in> set ys"
  by (auto dest: set_update_subset_insert [THEN subsetD])

lemma nth_in_concat: "i < length xs \<Longrightarrow> p \<in> set (xs ! i) \<Longrightarrow> p \<in> set (concat xs)"
  by auto

lemma at_some [simp]: "i < length xs \<Longrightarrow> at xs i = Some (xs ! i)"
  by (simp add: at_def)

lemma upd_at_some [simp]: "i < length xs \<Longrightarrow> upd_at xs i x = Some (xs[i := x])"
  by (simp add: upd_at_def)

lemma irq_bit_some [simp]: "irq < 32 \<Longrightarrow> irq_bit irq = Some (push_bit (unat irq) 1)"
  by (simp add: irq_bit_def)

section \<open>The invariant\<close>

text \<open>The elements \<open>0\<close> to \<open>63\<close> are in the pool or on a line; those from \<open>64\<close> to \<open>127\<close> are in the queue, in
  its pool, or lost.\<close>

definition irl_ids :: "nat list" where "irl_ids = [0 ..< IRL_POOL_SIZE]"
definition queue_ids :: "nat list" where "queue_ids = [IRL_POOL_SIZE ..< IRL_POOL_SIZE + IRL_QUEUE_SIZE]"

lemma in_irl_ids: "p \<in> set irl_ids \<longleftrightarrow> p < IRL_POOL_SIZE"
  unfolding irl_ids_def set_upt by auto

lemma in_queue_ids: "p \<in> set queue_ids \<longleftrightarrow> IRL_POOL_SIZE \<le> p \<and> p < IRL_POOL_SIZE + IRL_QUEUE_SIZE"
  unfolding queue_ids_def set_upt by auto

definition irq_lists :: "'w irqs \<Rightarrow> bool" where
  "irq_lists S \<longleftrightarrow>
     mset (irl_pool_head S @ concat (irl_vector S) @ concat (eirl_vector S)) = mset irl_ids
   \<and> mset (irl_queue_head S @ irq_queue_pool_head S) \<subseteq># mset queue_ids"

definition irq_sizes :: "'w irqs \<Rightarrow> bool" where
  "irq_sizes S \<longleftrightarrow> length (irl_vector S) = IRL_SIZE \<and> length (eirl_vector S) = EIRL_SIZE
     \<and> length (irq_cpu_affinity S) = IRL_SIZE + EIRL_SIZE
     \<and> length (last_eirq S) = EIRL_SIZE
     \<and> length (irq_blocked S) = IRL_SIZE \<and> length (eirq_blocked S) = EIRL_SIZE
     \<and> length (st_irl_irq S) = IRL_SIZE \<and> length (st_eirl_irq S) = EIRL_SIZE \<and> length (irq_mpmask S) = 2"

definition irq_handlers :: "'w irq_env \<Rightarrow> 'w irqs \<Rightarrow> bool" where
  "irq_handlers E S \<longleftrightarrow>
     (\<forall>p \<in> set (concat (irl_vector S)). ie_handler (irl_elem S p) \<noteq> 0
        \<and> (ie_handler (irl_elem S p) = e_eirq_fn E \<longrightarrow> ie_priority (irl_elem S p) = ISR_PRIORITY_NOW))
   \<and> (\<forall>p \<in> set (concat (eirl_vector S)) \<union> set (irl_queue_head S). ie_handler (irl_elem S p) \<noteq> 0
        \<and> ie_handler (irl_elem S p) \<noteq> e_eirq_fn E)"

definition irq_cpus :: "'w irq_env \<Rightarrow> 'w irqs \<Rightarrow> bool" where
  "irq_cpus E S \<longleftrightarrow> e_cpu E \<in> {0, 1} \<and> set (irq_cpu_affinity S) \<subseteq> {- 1, 0, 1}
     \<and> set (irq_blocked S) \<subseteq> {0, 1, 2} \<and> set (eirq_blocked S) \<subseteq> {0, 1, 2}
     \<and> last_irq S = replicate IRL_SIZE 0"

definition irq_ok :: "'w irq_env \<Rightarrow> 'w irqs \<Rightarrow> bool" where
  "irq_ok E S \<longleftrightarrow> irq_lists S \<and> irq_sizes S \<and> irq_handlers E S \<and> irq_cpus E S"

text \<open>What an operation that only dispatches leaves alone.\<close>

definition lines_core :: "'w irqs \<Rightarrow> 'w irqs \<Rightarrow> bool" where
  "lines_core S S' \<longleftrightarrow> irq_ctrl S' = irq_ctrl S \<and> irl_pool_head S' = irl_pool_head S \<and> irl_vector S' = irl_vector S
     \<and> eirl_vector S' = eirl_vector S \<and> irq_cpu_affinity S' = irq_cpu_affinity S
     \<and> (\<forall>p < IRL_POOL_SIZE. irl_elem S' p = irl_elem S p)"

text \<open>Nor does it release a blocked interrupt.\<close>

definition lines_same :: "'w irqs \<Rightarrow> 'w irqs \<Rightarrow> bool" where
  "lines_same S S' \<longleftrightarrow> irq_ctrl S' = irq_ctrl S \<and> irl_pool_head S' = irl_pool_head S \<and> irl_vector S' = irl_vector S
     \<and> eirl_vector S' = eirl_vector S \<and> irq_cpu_affinity S' = irq_cpu_affinity S
     \<and> (\<forall>p < IRL_POOL_SIZE. irl_elem S' p = irl_elem S p)
     \<and> (\<forall>i. (irq_blocked S ! i \<noteq> 0 \<longrightarrow> irq_blocked S' ! i \<noteq> 0) \<and> (eirq_blocked S ! i \<noteq> 0 \<longrightarrow> eirq_blocked S' ! i \<noteq> 0))"

lemma lines_same_core: "lines_same S S' \<Longrightarrow> lines_core S S'"
  by (simp add: lines_same_def lines_core_def)

lemma lines_core_refl [simp]: "lines_core S S"
  by (simp add: lines_core_def)

lemma lines_core_trans: "lines_core S T \<Longrightarrow> lines_core T U \<Longrightarrow> lines_core S U"
  by (simp add: lines_core_def)

text \<open>What an operation on the controller leaves alone, too.\<close>

definition ctrl_only :: "'w irqs \<Rightarrow> 'w irqs \<Rightarrow> bool" where
  "ctrl_only S S' \<longleftrightarrow> lines_same S S' \<and> irl_elem S' = irl_elem S \<and> irl_queue_head S' = irl_queue_head S
     \<and> irq_queue_pool_head S' = irq_queue_pool_head S \<and> irq_world S' = irq_world S \<and> n_id S' = n_id S"

lemma lines_same_refl [simp]: "lines_same S S"
  by (simp add: lines_same_def)

lemma lines_same_trans: "lines_same S T \<Longrightarrow> lines_same T U \<Longrightarrow> lines_same S U"
  by (simp add: lines_same_def)

lemma ctrl_only_refl [simp]: "ctrl_only S S"
  by (simp add: ctrl_only_def)

lemma ctrl_only_trans: "ctrl_only S T \<Longrightarrow> ctrl_only T U \<Longrightarrow> ctrl_only S U"
  by (simp add: ctrl_only_def lines_same_def)

lemma line_elem_less:
  assumes "irq_ok E S" "p \<in> set (irl_pool_head S) \<union> set (concat (irl_vector S)) \<union> set (concat (eirl_vector S))"
  shows "p < IRL_POOL_SIZE"
proof -
  have "p \<in># mset (irl_pool_head S @ concat (irl_vector S) @ concat (eirl_vector S))" using assms(2) by auto
  with assms(1) have "p \<in># mset irl_ids" by (metis irq_ok_def irq_lists_def)
  then show ?thesis by (simp only: in_irl_ids set_mset_mset)
qed

lemma queue_elem_range:
  assumes "irq_ok E S" "p \<in> set (irl_queue_head S) \<union> set (irq_queue_pool_head S)"
  shows "IRL_POOL_SIZE \<le> p" "p < IRL_POOL_SIZE + IRL_QUEUE_SIZE"
proof -
  have "p \<in># mset (irl_queue_head S @ irq_queue_pool_head S)" using assms(2) by auto
  with assms(1) have "p \<in># mset queue_ids"
    by (metis irq_ok_def irq_lists_def mset_subset_eqD)
  then show "IRL_POOL_SIZE \<le> p" "p < IRL_POOL_SIZE + IRL_QUEUE_SIZE" by (simp_all only: in_queue_ids set_mset_mset)
qed

lemma irq_okD:
  assumes "irq_ok E S"
  shows "e_cpu E \<in> {0, 1}" "length (irl_vector S) = IRL_SIZE" "length (eirl_vector S) = EIRL_SIZE"
    "length (irq_cpu_affinity S) = IRL_SIZE + EIRL_SIZE" "length (last_irq S) = IRL_SIZE" "length (last_eirq S) = EIRL_SIZE"
    "length (irq_blocked S) = IRL_SIZE" "length (eirq_blocked S) = EIRL_SIZE" "length (st_irl_irq S) = IRL_SIZE"
    "length (st_eirl_irq S) = EIRL_SIZE" "length (irq_mpmask S) = 2" "last_irq S = replicate IRL_SIZE 0"
  using assms by (auto simp: irq_ok_def irq_sizes_def irq_cpus_def)

text \<open>The invariant does not depend on the controller, the statistics and the clock.\<close>

lemma irq_ok_ctrl:
  assumes "irq_ok E S" "ctrl_only S S'" "irq_sizes S'" "set (irq_blocked S') \<subseteq> {0, 1, 2}" "set (eirq_blocked S') \<subseteq> {0, 1, 2}"
    "last_irq S' = last_irq S"
  shows "irq_ok E S'"
  using assms by (simp add: irq_ok_def ctrl_only_def lines_same_def irq_lists_def irq_handlers_def irq_cpus_def)

section \<open>Results\<close>

text \<open>An operation returns, keeps the invariant and a relation \<open>R\<close> to the state before.\<close>

definition irq_keeps :: "('w irqs \<Rightarrow> 'w irqs \<Rightarrow> bool) \<Rightarrow> 'w irq_env \<Rightarrow> 'w irqs \<Rightarrow> 'w irqs option \<Rightarrow> bool" where
  "irq_keeps R E S r \<longleftrightarrow> (\<exists>S'. r = Some S' \<and> irq_ok E S' \<and> R S S')"

lemma keeps_some: "irq_ok E S' \<Longrightarrow> R S S' \<Longrightarrow> irq_keeps R E S (Some S')"
  by (simp add: irq_keeps_def)

lemma keeps_obtain:
  assumes "irq_keeps R E S r"
  obtains S' where "r = Some S'" "irq_ok E S'" "R S S'"
  using assms by (auto simp: irq_keeps_def)

lemma keeps_bind:
  assumes "irq_keeps R E S r" "\<And>S'. r = Some S' \<Longrightarrow> irq_ok E S' \<Longrightarrow> R S S' \<Longrightarrow> irq_keeps R E S' (f S')" "\<And>a b c. R a b \<Longrightarrow> R b c \<Longrightarrow> R a c"
  shows "irq_keeps R E S (r \<bind> f)"
  using assms by (fastforce simp: irq_keeps_def)

lemma keeps_lines: "irq_keeps ctrl_only E S r \<Longrightarrow> irq_keeps lines_same E S r"
  by (auto simp: irq_keeps_def ctrl_only_def)

lemma keeps_bind_ctrl:
  assumes "irq_keeps ctrl_only E S r" "\<And>S'. r = Some S' \<Longrightarrow> irq_ok E S' \<Longrightarrow> ctrl_only S S' \<Longrightarrow> irq_keeps ctrl_only E S' (f S')"
  shows "irq_keeps ctrl_only E S (r \<bind> f)"
  using assms ctrl_only_trans by (rule keeps_bind)

lemma keeps_bind_lines:
  assumes "irq_keeps lines_same E S r" "\<And>S'. r = Some S' \<Longrightarrow> irq_ok E S' \<Longrightarrow> lines_same S S' \<Longrightarrow> irq_keeps lines_same E S' (f S')"
  shows "irq_keeps lines_same E S (r \<bind> f)"
  using assms lines_same_trans by (rule keeps_bind)

lemma keeps_after:
  assumes "irq_keeps ctrl_only E T r" "ctrl_only S T"
  shows "irq_keeps ctrl_only E S r"
  using assms ctrl_only_trans by (fastforce simp: irq_keeps_def)

lemma over_keeps:
  assumes "irq_ok E S" "\<And>i S'. i \<in> set is \<Longrightarrow> irq_ok E S' \<Longrightarrow> R S S' \<Longrightarrow> irq_keeps R E S' (f i S')"
    "\<And>a. R a a" "\<And>a b c. R a b \<Longrightarrow> R b c \<Longrightarrow> R a c"
  shows "irq_keeps R E S (over f is S)"
  using assms(1,2)
proof (induction "is" arbitrary: S)
  case Nil
  then show ?case using assms(3) by (simp add: irq_keeps_def)
next
  case (Cons i "is")
  from Cons.prems assms(3) obtain S1 where S1: "f i S = Some S1" "irq_ok E S1" "R S S1" by (fastforce simp: irq_keeps_def)
  have "irq_keeps R E S1 (over f is S1)" using Cons.IH [OF S1(2)] Cons.prems(2) S1(3) assms(4) by (meson list.set_intros(2))
  with S1 assms(4) show ?case by (auto simp: irq_keeps_def)
qed

section \<open>The controller\<close>

lemma keeps_ctrl:
  assumes "irq_ok E S" "ctrl_only S S'" "irq_sizes S'" "irq_blocked S' = irq_blocked S" "eirq_blocked S' = eirq_blocked S"
    "last_irq S' = last_irq S"
  shows "irq_keeps ctrl_only E S (Some S')"
proof -
  have "set (irq_blocked S') \<subseteq> {0, 1, 2}" "set (eirq_blocked S') \<subseteq> {0, 1, 2}"
    using assms(1,4,5) by (auto simp: irq_ok_def irq_cpus_def)
  from irq_ok_ctrl [OF assms(1-3) this assms(6)] assms(2) show ?thesis by (rule keeps_some)
qed

lemmas ctrl_defs = ctrl_only_def lines_same_def irq_sizes_def

lemma clear_keeps:
  assumes "irq_ok E S" "irq < 32"
  shows "irq_keeps ctrl_only E S (leon_clear_irq E irq S)"
proof -
  have s: "irq_sizes S" using assms(1) by (simp add: irq_ok_def)
  have "irq_keeps ctrl_only E S (Some (irq_out r v (S\<lparr>n_pend := k\<rparr>)))" "irq_keeps ctrl_only E S (Some (irq_out r v S))" for r v k
    by (rule keeps_ctrl [OF assms(1)]; use s in \<open>simp add: ctrl_defs irq_out_def\<close>)+
  with assms(2) show ?thesis by (simp add: leon_clear_irq_def pend_get_def)
qed

lemma mask_keeps:
  assumes "irq_ok E S" "irq < 32" "cpu \<in> {0, 1}"
  shows "irq_keeps ctrl_only E S (leon_mask_irq irq cpu S)" "irq_keeps ctrl_only E S (leon_unmask_irq irq cpu S)"
proof -
  have s: "irq_sizes S" "length (irq_mpmask S) = 2" using assms(1) by (auto simp: irq_ok_def irq_sizes_def)
  have upd: "irq_keeps ctrl_only E S (Some (S\<lparr>irq_mpmask := (irq_mpmask S)[c := m]\<rparr>))" for c m
    by (rule keeps_ctrl [OF assms(1)]) (use s in \<open>simp_all add: ctrl_defs\<close>)
  show "irq_keeps ctrl_only E S (leon_mask_irq irq cpu S)" "irq_keeps ctrl_only E S (leon_unmask_irq irq cpu S)"
    using assms(2,3) s upd by (auto simp: leon_mask_irq_def leon_unmask_irq_def cpu_ix_def)
qed

lemma enable_keeps:
  assumes "irq_ok E S" "irq < 32" "cpu \<in> {0, 1}"
  shows "irq_keeps ctrl_only E S (leon_enable_irq E irq cpu S)" "irq_keeps ctrl_only E S (leon_disable_irq E irq cpu S)"
proof -
  show "irq_keeps ctrl_only E S (leon_enable_irq E irq cpu S)" unfolding leon_enable_irq_def
    by (rule keeps_bind_ctrl [OF clear_keeps [OF assms(1,2)]]) (rule mask_keeps [OF _ assms(2,3)])
  show "irq_keeps ctrl_only E S (leon_disable_irq E irq cpu S)" unfolding leon_disable_irq_def
    by (rule keeps_bind_ctrl [OF clear_keeps [OF assms(1,2)]]) (rule mask_keeps [OF _ assms(2,3)])
qed

section \<open>Rate protection\<close>

lemma clk_keeps:
  assumes "irq_ok E S"
  shows "irq_ok E (S\<lparr>n_clk := k\<rparr>)" "ctrl_only S (S\<lparr>n_clk := k\<rparr>)"
    "irq_ok E (S\<lparr>n_clk := k, last_eirq := (last_eirq S)[i := t]\<rparr>)" "ctrl_only S (S\<lparr>n_clk := k, last_eirq := (last_eirq S)[i := t]\<rparr>)"
  using assms by (simp_all add: irq_ok_def irq_lists_def irq_sizes_def irq_handlers_def irq_cpus_def ctrl_only_def lines_same_def)

text \<open>Blocking an interrupt is remembered with the processor.\<close>

lemma blocked_ok:
  assumes "irq_ok E S" "v \<in> {0, 1, 2}"
  shows "irq_ok E (S\<lparr>irq_blocked := (irq_blocked S)[i := v], need_restore := n\<rparr>)"
    "irq_ok E (S\<lparr>eirq_blocked := (eirq_blocked S)[i := v], need_restore := n\<rparr>)"
proof -
  have b: "set (irq_blocked S) \<subseteq> {0, 1, 2}" "set (eirq_blocked S) \<subseteq> {0, 1, 2}"
    using assms(1) by (auto simp: irq_ok_def irq_cpus_def)
  have u: "set (xs[i := v]) \<subseteq> {0, 1, 2}" if "set xs \<subseteq> {0, 1, 2}" for xs
    using set_update_subset_insert [of xs i v] that assms(2) by blast
  show "irq_ok E (S\<lparr>irq_blocked := (irq_blocked S)[i := v], need_restore := n\<rparr>)"
    "irq_ok E (S\<lparr>eirq_blocked := (eirq_blocked S)[i := v], need_restore := n\<rparr>)"
    using assms(1) u [OF b(1)] u [OF b(2)] by (simp_all add: irq_ok_def irq_lists_def irq_sizes_def irq_handlers_def irq_cpus_def)
qed

lemma blocked_keeps:
  assumes "irq_ok E S" "v \<in> {1, 2}"
  shows "irq_keeps ctrl_only E S (Some (S\<lparr>irq_blocked := (irq_blocked S)[i := v], need_restore := n\<rparr>))"
    "irq_keeps ctrl_only E S (Some (S\<lparr>eirq_blocked := (eirq_blocked S)[i := v], need_restore := n\<rparr>))"
proof -
  have v: "v \<in> {0, 1, 2}" "v \<noteq> 0" using assms(2) by auto
  have s: "xs[i := v] ! j \<noteq> 0" if "xs ! j \<noteq> 0" for xs j
    using that v(2) by (cases "i = j"; cases "i < length xs") (simp_all add: list_update_beyond)
  show "irq_keeps ctrl_only E S (Some (S\<lparr>irq_blocked := (irq_blocked S)[i := v], need_restore := n\<rparr>))"
    "irq_keeps ctrl_only E S (Some (S\<lparr>eirq_blocked := (eirq_blocked S)[i := v], need_restore := n\<rparr>))"
    by (rule keeps_some [OF blocked_ok(1) [OF assms(1) v(1)]] keeps_some [OF blocked_ok(2) [OF assms(1) v(1)]],
        simp add: ctrl_only_def lines_same_def s)+
qed

lemma cpu_word: "cpu \<in> {0, 1} \<Longrightarrow> (word_of_int (cpu + 1) :: u8) \<in> {1, 2}"
  by auto

lemma block_irq_keeps:
  assumes "irq_ok E S" "unat irq < IRL_SIZE" "cpu \<in> {0, 1}"
  shows "irq_keeps ctrl_only E S (do {
      S \<leftarrow> leon_mask_irq irq cpu S;
      b \<leftarrow> upd_at (irq_blocked S) (unat irq) (word_of_int (cpu + 1));
      Some (S\<lparr>irq_blocked := b, need_restore := need_restore S + 1\<rparr>) })"
proof (rule keeps_bind_ctrl)
  have "irq < 32" using assms(2) by (simp add: word_less_nat_alt)
  with assms show "irq_keeps ctrl_only E S (leon_mask_irq irq cpu S)" by (simp add: mask_keeps)
next
  fix T assume T: "irq_ok E T"
  have "upd_at (irq_blocked T) (unat irq) v = Some ((irq_blocked T)[unat irq := v])" for v
    using irq_okD(7) [OF T] assms(2) by simp
  with blocked_keeps(1) [OF T cpu_word [OF assms(3)]]
  show "irq_keeps ctrl_only E T (do {
      b \<leftarrow> upd_at (irq_blocked T) (unat irq) (word_of_int (cpu + 1));
      Some (T\<lparr>irq_blocked := b, need_restore := need_restore T + 1\<rparr>) })" by (simp only: bind.bind_lunit)
qed

lemma check_rate_keeps:
  assumes "irq_ok E S" "unat irq < IRL_SIZE" "cpu \<in> {0, 1}"
  shows "irq_keeps ctrl_only E S (leon_check_irq_rate E irq cpu S)"
proof -
  let ?T = "S\<lparr>n_clk := n_clk S + 1, last_eirq := (last_eirq S)[unat irq := e_clk E (n_clk S)]\<rparr>"
  have T: "irq_ok E ?T" "ctrl_only S ?T" by (rule clk_keeps [OF assms(1)])+
  note keeps_after [OF block_irq_keeps [OF T(1) assms(2,3)] T(2)]
  moreover have "irq_keeps ctrl_only E S (Some ?T)" using T by (rule keeps_some)
  moreover have "irq_keeps ctrl_only E S (Some S)" using assms(1) by (simp add: irq_keeps_def)
  ultimately show ?thesis using assms(1,2) by (simp add: leon_check_irq_rate_def clk_get_def irq_okD Let_def del: of_int_add)
qed

lemma map_option_bind [simp]: "map_option f (r \<bind> g) = r \<bind> (\<lambda>x. map_option f (g x))"
  by (cases r) simp_all

lemma keeps_snd_obtain:
  assumes "irq_keeps R E S (map_option snd r)"
  obtains x S' where "r = Some (x, S')" "irq_ok E S'" "R S S'"
  using assms by (auto simp: irq_keeps_def)

lemma check_eirq_keeps:
  assumes "irq_ok E S" "unat irq < EIRL_SIZE"
  shows "irq_keeps ctrl_only E S (map_option snd (leon_check_eirq_rate E irq (e_cpu E) S))"
    and "leon_check_eirq_rate E irq (e_cpu E) S = Some (False, S') \<Longrightarrow>
      S' = S\<lparr>n_clk := n_clk S + 1, last_eirq := (last_eirq S)[unat irq := e_clk E (n_clk S)]\<rparr>
      \<and> CONFIG_IRQ_MIN_INTER_US \<le> ktime_to_us (ktime_delta (e_clk E (n_clk S)) (last_eirq S ! unat irq))"
proof -
  let ?T = "S\<lparr>n_clk := n_clk S + 1, last_eirq := (last_eirq S)[unat irq := e_clk E (n_clk S)]\<rparr>"
  have T: "irq_ok E ?T" "ctrl_only S ?T" by (rule clk_keeps [OF assms(1)])+
  have i: "irq < 32" using assms(2) by (simp add: word_less_nat_alt)
  note cpu = irq_okD(1) [OF assms(1)]
  have "irq_keeps ctrl_only E ?T (do {
      S \<leftarrow> leon_disable_irq E irq (e_cpu E) ?T;
      b \<leftarrow> upd_at (eirq_blocked S) (unat irq) (word_of_int (e_cpu E + 1));
      Some (S\<lparr>eirq_blocked := b, need_restore := need_restore S + 1\<rparr>) })"
  proof (rule keeps_bind_ctrl [OF enable_keeps(2) [OF T(1) i cpu]])
    fix U assume U: "irq_ok E U"
    have "upd_at (eirq_blocked U) (unat irq) v = Some ((eirq_blocked U)[unat irq := v])" for v
      using irq_okD(8) [OF U] assms(2) by simp
    with blocked_keeps(2) [OF U cpu_word [OF cpu]]
    show "irq_keeps ctrl_only E U (do {
        b \<leftarrow> upd_at (eirq_blocked U) (unat irq) (word_of_int (e_cpu E + 1));
        Some (U\<lparr>eirq_blocked := b, need_restore := need_restore U + 1\<rparr>) })" by (simp only: bind.bind_lunit)
  qed
  note keeps_after [OF this T(2)]
  moreover have "irq_keeps ctrl_only E S (Some ?T)" using T by (rule keeps_some)
  ultimately show "irq_keeps ctrl_only E S (map_option snd (leon_check_eirq_rate E irq (e_cpu E) S))"
    using assms by (simp add: leon_check_eirq_rate_def clk_get_def irq_okD Let_def del: of_int_add)
  show "S' = ?T \<and> CONFIG_IRQ_MIN_INTER_US \<le> ktime_to_us (ktime_delta (e_clk E (n_clk S)) (last_eirq S ! unat irq))"
    if "leon_check_eirq_rate E irq (e_cpu E) S = Some (False, S')"
    using that assms by (auto simp: leon_check_eirq_rate_def clk_get_def irq_okD Let_def bind_eq_Some_conv split: if_splits)
qed

section \<open>Handlers\<close>

text \<open>The handler of an element can be queued.\<close>

definition plain_elem :: "'w irq_env \<Rightarrow> 'w irqs \<Rightarrow> nat \<Rightarrow> bool" where
  "plain_elem E S p \<longleftrightarrow> ie_handler (irl_elem S p) \<noteq> 0 \<and> ie_handler (irl_elem S p) \<noteq> e_eirq_fn E"

definition walk_same :: "'w irqs \<Rightarrow> 'w irqs \<Rightarrow> bool" where
  "walk_same S S' \<longleftrightarrow> lines_same S S' \<and> n_id S' = n_id S \<and> n_clk S' = n_clk S \<and> last_eirq S' = last_eirq S"

lemma walk_same_refl [simp]: "walk_same S S"
  by (simp add: walk_same_def)

lemma walk_same_trans: "walk_same S T \<Longrightarrow> walk_same T U \<Longrightarrow> walk_same S U"
  by (auto simp: walk_same_def intro: lines_same_trans)

lemma queue_keeps:
  assumes "irq_ok E S" "plain_elem E S p"
  shows "irq_keeps walk_same E S (Some (snd (leon_irq_queue p S)))"
proof (cases "irq_queue_pool_head S")
  case Nil
  then show ?thesis using assms(1) by (simp add: leon_irq_queue_def irq_keeps_def)
next
  case (Cons q pool)
  let ?S = "S\<lparr>irl_elem := (irl_elem S)(q := irl_elem S p), irq_queue_pool_head := pool, irl_queue_head := irl_queue_head S @ [q]\<rparr>"
  have q: "IRL_POOL_SIZE \<le> q" using queue_elem_range(1) [OF assms(1), of q] Cons by simp
  have l: "irl_elem ?S i = irl_elem S i" if "i < IRL_POOL_SIZE" for i using q that by auto
  have less: "i < IRL_POOL_SIZE" if "i \<in> set (concat (irl_vector S)) \<union> set (concat (eirl_vector S))" for i
    using line_elem_less [OF assms(1)] that by blast
  have "irq_lists ?S" using assms(1) Cons by (simp add: irq_ok_def irq_lists_def)
  moreover have "irq_handlers E ?S"
    using assms less l unfolding irq_ok_def irq_handlers_def plain_elem_def
    by (simp del: fun_upd_apply set_concat) (simp add: plain_elem_def)
  ultimately have "irq_ok E ?S" using assms(1) by (simp add: irq_ok_def irq_sizes_def irq_cpus_def)
  moreover have "walk_same S ?S" using l by (simp add: walk_same_def lines_same_def)
  ultimately show ?thesis using Cons by (simp add: leon_irq_queue_def irq_keeps_def)
qed

lemma queue_result: "fst (leon_irq_queue p S) < 0 \<longleftrightarrow> irq_queue_pool_head S = []"
  "irq_queue_pool_head S = [] \<Longrightarrow> snd (leon_irq_queue p S) = S"
  by (auto simp: leon_irq_queue_def split: list.splits)

lemma ext_isr_keeps:
  assumes "irq_ok E S" "plain_elem E S p"
  shows "irq_keeps walk_same E S (map_option snd (ext_isr E irq p S))"
proof -
  have "irq_ok E (S\<lparr>irq_world := w\<rparr>)" "walk_same S (S\<lparr>irq_world := w\<rparr>)" for w
    using assms(1) by (simp_all add: irq_ok_def irq_lists_def irq_sizes_def irq_handlers_def irq_cpus_def walk_same_def lines_same_def)
  with assms(2) show ?thesis by (simp add: ext_isr_def plain_elem_def irq_keeps_def split: prod.splits)
qed

lemma isr_body_keeps:
  assumes "irq_ok E S" "ie_priority (irl_elem S p) \<noteq> ISR_PRIORITY_NOW \<Longrightarrow> plain_elem E S p"
    "irq_keeps R E S (map_option snd (isr p S))" "\<And>a b. walk_same a b \<Longrightarrow> R a b"
  shows "irq_keeps R E S (isr_body isr p S)"
proof (cases "ie_priority (irl_elem S p) = ISR_PRIORITY_NOW \<or> irq_queue_pool_head S = []")
  case True
  then show ?thesis using assms(3) by (auto simp: isr_body_def case_prod_beta queue_result)
next
  case False
  with queue_keeps [OF assms(1) assms(2)] have "irq_keeps R E S (Some (snd (leon_irq_queue p S)))" using assms(4)
    by (auto simp: irq_keeps_def)
  then show ?thesis using False by (auto simp: isr_body_def case_prod_beta queue_result)
qed

lemma isr_walk_keeps:
  assumes "irq_ok E S" "\<And>p. p \<in> set ps \<Longrightarrow> p < IRL_POOL_SIZE"
    "\<And>p. p \<in> set ps \<Longrightarrow> ie_priority (irl_elem S p) \<noteq> ISR_PRIORITY_NOW \<Longrightarrow> plain_elem E S p"
    "\<And>p T. p \<in> set ps \<Longrightarrow> irq_ok E T \<Longrightarrow> R S T \<Longrightarrow> irq_keeps R E T (map_option snd (isr p T))"
    "\<And>a b. walk_same a b \<Longrightarrow> R a b" "\<And>a b c. R a b \<Longrightarrow> R b c \<Longrightarrow> R a c" "\<And>a b. R a b \<Longrightarrow> lines_same a b"
  shows "irq_keeps R E S (isr_walk isr ps S)"
  using assms(1-4)
proof (induction ps arbitrary: S)
  case Nil
  then show ?case using assms(5) by (simp add: irq_keeps_def)
next
  case (Cons p ps)
  have R: "R S S" by (rule assms(5)) simp
  have "irq_keeps R E S (isr_body isr p S)"
    by (rule isr_body_keeps) (use Cons.prems R assms(5) in auto)
  then obtain T where T: "isr_body isr p S = Some T" "irq_ok E T" "R S T" by (rule keeps_obtain)
  have e: "irl_elem T q = irl_elem S q" if "q \<in> set ps" for q
    using assms(7) [OF T(3)] Cons.prems(2) that by (simp add: lines_same_def)
  have "irq_keeps R E T (isr_walk isr ps T)"
  proof (rule Cons.IH [OF T(2)])
    fix q assume q: "q \<in> set ps"
    show "q < IRL_POOL_SIZE" using q Cons.prems(2) by simp
    show "plain_elem E T q" if "ie_priority (irl_elem T q) \<noteq> ISR_PRIORITY_NOW"
      using Cons.prems(3) [of q] q that by (simp add: plain_elem_def e)
    show "irq_keeps R E U (map_option snd (isr q U))" if "irq_ok E U" "R T U" for U
      using Cons.prems(4) [of q U] q that assms(6) [OF T(3)] by simp
  qed
  with T assms(6) show ?case by (auto simp: irq_keeps_def)
qed

end
