(* ===== verification/Irq_Safe.thy ===== *)
theory Irq_Safe
  imports Irq_Inv
begin

text \<open>
  The operations of the interrupt manager keep its invariant and return.  The loop over extended interrupts ends when
  the controller shows no more of them, and ends in any case when they come too fast.
\<close>

section \<open>Extended interrupts\<close>

lemma irq_ok_count:
  assumes "irq_ok E S"
  shows "irq_ok E (S\<lparr>st_irl := a, st_irl_irq := (st_irl_irq S)[i := b]\<rparr>)" "irq_ok E (S\<lparr>st_eirl := a, st_eirl_irq := (st_eirl_irq S)[i := b]\<rparr>)"
    "irq_ok E (S\<lparr>n_pend := k\<rparr>)" "irq_ok E (S\<lparr>n_id := k\<rparr>)"
  using assms by (simp_all add: irq_ok_def irq_lists_def irq_sizes_def irq_handlers_def irq_cpus_def)

lemma clear_frame: "leon_clear_irq E irq S = Some S' \<Longrightarrow> n_clk S' = n_clk S \<and> last_eirq S' = last_eirq S"
  by (auto simp: leon_clear_irq_def irq_out_def pend_get_def bind_eq_Some_conv split: if_splits)

lemma eirq_mask_less: "unat (x AND 0x1F) < EIRL_SIZE" "x AND 0x1F < 32" for x :: u32
proof -
  have "x AND 0x1F = take_bit 5 x" by (simp add: take_bit_eq_mask mask_eq_exp_minus_1)
  moreover have "unat (take_bit 5 x) < 32" using take_bit_nat_less_exp [of 5 "unat x"] by (simp add: unsigned_take_bit_eq)
  ultimately show "unat (x AND 0x1F) < EIRL_SIZE" "x AND 0x1F < 32" by (simp_all add: word_less_nat_alt)
qed

lemma eirl_walk_keeps:
  assumes "irq_ok E S" "i < EIRL_SIZE"
  shows "irq_keeps walk_same E S (isr_walk (ext_isr E irq) (eirl_vector S ! i) S)"
proof (rule isr_walk_keeps [OF assms(1)])
  have in_line: "p \<in> set (concat (eirl_vector S))" if "p \<in> set (eirl_vector S ! i)" for p
    using that assms irq_okD(3) [OF assms(1)] by (auto intro: nth_mem)
  have plain: "plain_elem E S p" if "p \<in> set (eirl_vector S ! i)" for p
    using in_line [OF that] assms(1) by (auto simp: irq_ok_def irq_handlers_def plain_elem_def)
  fix p assume p: "p \<in> set (eirl_vector S ! i)"
  show less: "p < IRL_POOL_SIZE" using line_elem_less [OF assms(1)] in_line [OF p] by blast
  show "plain_elem E S p" by (rule plain [OF p])
  fix T assume T: "irq_ok E T" "walk_same S T"
  have "plain_elem E T p" using plain [OF p] T(2) less by (simp add: plain_elem_def walk_same_def lines_same_def)
  with T(1) show "irq_keeps walk_same E T (map_option snd (ext_isr E irq p T))" by (rule ext_isr_keeps)
next
  show "walk_same a c" if "walk_same a b" "walk_same b c" for a b c :: "'a irqs" using that by (rule walk_same_trans)
qed (simp_all add: walk_same_def)

definition eirq_no :: "'w irq_env \<Rightarrow> 'w irqs \<Rightarrow> nat" where
  "eirq_no E S = unat (e_id E (n_id S) AND 0x1F)"

lemma eirq_turn_step:
  assumes "irq_ok E S"
  obtains more S' where "eirq_turn E S = Some (more, S')" "irq_ok E S'" "lines_same S S'" "n_id S' = n_id S + 1"
    "e_id E (n_id S) = 0 \<longrightarrow> \<not> more"
    "more \<longrightarrow> n_clk S' = n_clk S + 1 \<and> last_eirq S' = (last_eirq S)[eirq_no E S := e_clk E (n_clk S)]
       \<and> CONFIG_IRQ_MIN_INTER_US \<le> ktime_to_us (ktime_delta (e_clk E (n_clk S)) (last_eirq S ! eirq_no E S))"
proof -
  let ?S = "S\<lparr>n_id := n_id S + 1\<rparr>" and ?e = "e_id E (n_id S) AND 0x1F"
  have ok: "irq_ok E ?S" "lines_same S ?S" using assms by (simp_all add: irq_ok_count lines_same_def)
  show thesis
  proof (cases "e_id E (n_id S) = 0")
    case True
    with ok that [of False ?S] show thesis by (simp add: eirq_turn_def Let_def)
  next
    case False
    from clear_keeps [OF ok(1) eirq_mask_less(2)] obtain S1 where S1: "leon_clear_irq E ?e ?S = Some S1" "irq_ok E S1" "ctrl_only ?S S1"
      by (rule keeps_obtain)
    from check_eirq_keeps(1) [OF S1(2) eirq_mask_less(1)] obtain stop S2 where
      S2: "leon_check_eirq_rate E ?e (e_cpu E) S1 = Some (stop, S2)" "irq_ok E S2" "ctrl_only S1 S2" by (rule keeps_snd_obtain)
    have c: "lines_same S S2" "n_id S2 = n_id S + 1" using ctrl_only_trans [OF S1(3) S2(3)] ok(2)
      by (simp_all add: ctrl_only_def lines_same_def)
    show thesis
    proof (cases stop)
      case True
      with S1 S2 c False that [of False S2] show thesis by (simp add: eirq_turn_def Let_def)
    next
      case stop: False
      let ?T = "S2\<lparr>st_eirl := st_eirl S2 + 1, st_eirl_irq := (st_eirl_irq S2)[unat ?e := st_eirl_irq S2 ! unat ?e + 1]\<rparr>"
      have T: "irq_ok E ?T" by (rule irq_ok_count(2) [OF S2(2)])
      from eirl_walk_keeps [OF T eirq_mask_less(1), of ?e] obtain S3 where
        S3: "isr_walk (ext_isr E ?e) (eirl_vector ?T ! unat ?e) ?T = Some S3" "irq_ok E S3" "walk_same ?T S3" by (rule keeps_obtain)
      note r = check_eirq_keeps(2) [OF S1(2) eirq_mask_less(1), of "e_id E (n_id S)" S2]
      have n: "n_clk S3 = n_clk S + 1" "last_eirq S3 = (last_eirq S)[eirq_no E S := e_clk E (n_clk S)]"
        "CONFIG_IRQ_MIN_INTER_US \<le> ktime_to_us (ktime_delta (e_clk E (n_clk S)) (last_eirq S ! eirq_no E S))"
        using r S2(1) stop S3(3) clear_frame [OF S1(1)] by (simp_all add: walk_same_def eirq_no_def)
      have k: "lines_same S S3" "n_id S3 = n_id S + 1" using c S3(3) by (simp_all add: walk_same_def lines_same_def)
      have "eirq_turn E S = Some (drop_bit IRL_SIZE (e_pend E (n_pend S3)) \<noteq> 0, S3\<lparr>n_pend := n_pend S3 + 1\<rparr>)"
        using False S1(1) S2(1) S3(1) stop irq_okD(3,10) [OF S2(2)] eirq_mask_less(1) [of "e_id E (n_id S)"]
        by (simp add: eirq_turn_def pend_get_def Let_def)
      from that [OF this] irq_ok_count(3) [OF S3(2)] k n False show thesis by (simp add: lines_same_def)
    qed
  qed
qed

text \<open>The controller shows no pending extended interrupt again and again.\<close>

definition quiet :: "'w irq_env \<Rightarrow> bool" where
  "quiet E \<longleftrightarrow> (\<forall>n. \<exists>m. n \<le> m \<and> e_id E m = 0)"

lemma eirq_loop_quiet:
  assumes "irq_ok E S" "n_id S \<le> m" "e_id E m = 0"
  shows "irq_keeps lines_same E S (eirq_loop E S)"
  using assms
proof (induction "m - n_id S" arbitrary: S rule: less_induct)
  case less
  from eirq_turn_step [OF less.prems(1)] obtain more T where
    T: "eirq_turn E S = Some (more, T)" "irq_ok E T" "lines_same S T" "n_id T = n_id S + 1" "e_id E (n_id S) = 0 \<longrightarrow> \<not> more"
    by metis
  show ?case
  proof (cases more)
    case True
    with T(5) less.prems have "n_id S \<noteq> m" by auto
    with less.prems T(4) have "m - n_id T < m - n_id S" "n_id T \<le> m" by simp_all
    with less.hyps [of T] less.prems T have "irq_keeps lines_same E T (eirq_loop E T)" by simp
    with T True show ?thesis by (subst eirq_loop.simps) (auto simp: irq_keeps_def intro: lines_same_trans)
  next
    case False
    with T show ?thesis by (subst eirq_loop.simps) (simp add: irq_keeps_def)
  qed
qed

lemma eirq_loop_keeps: "quiet E \<Longrightarrow> irq_ok E S \<Longrightarrow> irq_keeps lines_same E S (eirq_loop E S)"
  using eirq_loop_quiet unfolding quiet_def by blast

text \<open>Readings of the clock between \<open>t\<close> and 200 microseconds later: each turn that does not end the loop is the first
  with its number, so there are at most 32 of them.\<close>

definition seen :: "ktime \<Rightarrow> 'w irqs \<Rightarrow> nat set" where
  "seen t S = {i. i < EIRL_SIZE \<and> t \<le> last_eirq S ! i}"

lemma fast_delta:
  assumes "t \<le> a" "a < t + 200000" "t \<le> b" "b < t + 200000"
  shows "ktime_to_us (ktime_delta a b) < CONFIG_IRQ_MIN_INTER_US"
proof -
  have "ktime_delta a b = a - b" using assms by (intro ktime_delta_id) (auto simp: is_s64_def)
  moreover have "(a - b) sdiv 1000 < 200"
    using assms by (auto simp: signed_divide_int_def sgn_if)
  ultimately show ?thesis by (simp add: ktime_to_us_def)
qed

lemma seen_insert:
  assumes "length (last_eirq S) = EIRL_SIZE" "last_eirq T = (last_eirq S)[i := c]" "i < EIRL_SIZE" "t \<le> c"
  shows "seen t T = insert i (seen t S)"
  using assms by (auto simp: seen_def nth_list_update)

lemma seen_le: "finite (seen t S)" "seen t S \<subseteq> {..<EIRL_SIZE}" "card (seen t S) \<le> EIRL_SIZE"
proof -
  show s: "seen t S \<subseteq> {..<EIRL_SIZE}" by (auto simp: seen_def)
  then show "finite (seen t S)" by (rule finite_subset) simp
  show "card (seen t S) \<le> EIRL_SIZE" using card_mono [OF _ s] by simp
qed

lemma eirq_loop_fast:
  assumes "irq_ok E S" "\<And>k. k \<le> n \<Longrightarrow> t \<le> e_clk E (n_clk S + k) \<and> e_clk E (n_clk S + k) < t + 200000"
    "EIRL_SIZE \<le> n + card (seen t S)" "\<And>i. i < EIRL_SIZE \<Longrightarrow> last_eirq S ! i < t + 200000"
  shows "irq_keeps lines_same E S (eirq_loop E S)"
  using assms
proof (induction n arbitrary: S)
  case (0 S)
  have "card (seen t S) = EIRL_SIZE" using 0(3) seen_le(3) [of t S] by simp
  then have "seen t S = {..<EIRL_SIZE}" by (intro card_subset_eq seen_le) simp_all
  then have "eirq_no E S \<in> seen t S" using eirq_mask_less(1) by (simp add: eirq_no_def)
  then have "ktime_to_us (ktime_delta (e_clk E (n_clk S)) (last_eirq S ! eirq_no E S)) < CONFIG_IRQ_MIN_INTER_US"
    using 0(2) [of 0] 0(4) by (intro fast_delta [of t]) (auto simp: seen_def)
  with eirq_turn_step [OF 0(1)] obtain T where "eirq_turn E S = Some (False, T)" "irq_ok E T" "lines_same S T"
    by (metis linorder_not_less)
  then show ?case by (subst eirq_loop.simps) (simp add: irq_keeps_def)
next
  case (Suc n S)
  let ?i = "eirq_no E S" and ?c = "e_clk E (n_clk S)"
  from eirq_turn_step [OF Suc.prems(1)] obtain more T where T: "eirq_turn E S = Some (more, T)" "irq_ok E T" "lines_same S T"
      and m: "more \<longrightarrow> n_clk T = n_clk S + 1 \<and> last_eirq T = (last_eirq S)[?i := ?c]
       \<and> CONFIG_IRQ_MIN_INTER_US \<le> ktime_to_us (ktime_delta ?c (last_eirq S ! ?i))" by metis
  show ?case
  proof (cases more)
    case True
    have i: "?i < EIRL_SIZE" using eirq_mask_less(1) by (simp add: eirq_no_def)
    have c: "t \<le> ?c" "?c < t + 200000" using Suc.prems(2) [of 0] by auto
    have l: "last_eirq T = (last_eirq S)[?i := ?c]" "length (last_eirq S) = EIRL_SIZE"
      using m True irq_okD(6) [OF Suc.prems(1)] by simp_all
    have "?i \<notin> seen t S"
      using fast_delta [OF c, of "last_eirq S ! ?i"] Suc.prems(4) [OF i] m True by (auto simp: seen_def)
    then have s: "card (seen t T) = Suc (card (seen t S))"
      using seen_insert [OF l(2,1) i c(1)] card_insert_disjoint [OF seen_le(1)] by metis
    have "irq_keeps lines_same E T (eirq_loop E T)"
    proof (rule Suc.IH [OF T(2)])
      show "t \<le> e_clk E (n_clk T + k) \<and> e_clk E (n_clk T + k) < t + 200000" if "k \<le> n" for k
        using Suc.prems(2) [of "Suc k"] that m True by simp
      show "EIRL_SIZE \<le> n + card (seen t T)" using Suc.prems(3) s by simp
      show "last_eirq T ! j < t + 200000" if "j < EIRL_SIZE" for j
        using Suc.prems(4) [OF that] that l c i by (simp add: nth_list_update)
    qed
    with T True show ?thesis by (subst eirq_loop.simps) (auto simp: irq_keeps_def intro: lines_same_trans)
  next
    case False
    with T show ?thesis by (subst eirq_loop.simps) (simp add: irq_keeps_def)
  qed
qed

section \<open>Dispatching\<close>

text \<open>The loop over extended interrupts returns in every state in which it is entered.\<close>

definition eirq_ends :: "'w irq_env \<Rightarrow> bool" where
  "eirq_ends E \<longleftrightarrow> (\<forall>S. irq_ok E S \<longrightarrow> irq_keeps lines_same E S (eirq_loop E S))"

lemma quiet_ends: "quiet E \<Longrightarrow> eirq_ends E"
  by (simp add: eirq_ends_def eirq_loop_keeps)

lemma count_keeps:
  assumes "irq_ok E S" "unat irq < IRL_SIZE"
  shows "irq_keeps lines_same E S (irl_count irq S)"
  using assms irq_ok_count(1) [OF assms(1)] by (simp add: irl_count_def irq_okD irq_keeps_def lines_same_def)

lemma rates_keep:
  assumes "irq_ok E S" "unat irq < IRL_SIZE"
  shows "irq_keeps lines_same E S (do { S \<leftarrow> leon_check_irq_rate E irq (e_cpu E) S; leon_check_irq_rate E irq 0 S })"
  by (rule keeps_lines, rule keeps_bind_ctrl [OF check_rate_keeps [OF assms irq_okD(1) [OF assms(1)]]])
     (simp add: check_rate_keeps assms(2))

lemma eirq_dispatch_keeps:
  assumes "eirq_ends E" "irq_ok E S" "unat irq < IRL_SIZE"
  shows "irq_keeps lines_same E S (leon_eirq_dispatch E irq S)"
  unfolding leon_eirq_dispatch_def
proof (rule keeps_bind_lines [OF count_keeps [OF assms(2,3)]], rule keeps_bind_lines)
  fix T assume T: "irq_ok E T"
  then show "irq_keeps lines_same E T (eirq_loop E T)" using assms(1) by (simp add: eirq_ends_def)
  fix U assume U: "irq_ok E U"
  have "irq < 32" using assms(3) by (simp add: word_less_nat_alt)
  with U show "irq_keeps lines_same E U (do {
      S \<leftarrow> leon_clear_irq E irq U; S \<leftarrow> leon_check_irq_rate E irq (e_cpu E) S; leon_check_irq_rate E irq 0 S })"
    by (intro keeps_bind_lines [OF keeps_lines [OF clear_keeps]] rates_keep assms(3))
qed

lemma irl_isr_keeps:
  assumes "eirq_ends E" "irq_ok E S" "unat irq < IRL_SIZE" "ie_handler (irl_elem S p) \<noteq> 0"
  shows "irq_keeps lines_same E S (map_option snd (irl_isr E irq p S))"
proof (cases "ie_handler (irl_elem S p) = e_eirq_fn E")
  case True
  then show ?thesis using eirq_dispatch_keeps [OF assms(1-3)] by (simp add: irl_isr_def option.map_comp comp_def option.map_ident)
next
  case False
  then have "irq_keeps walk_same E S (map_option snd (ext_isr E irq p S))" using assms by (intro ext_isr_keeps) (simp_all add: plain_elem_def)
  then show ?thesis using False by (auto simp: irl_isr_def irq_keeps_def walk_same_def)
qed

lemma irl_walk_keeps:
  assumes "eirq_ends E" "irq_ok E S" "i < IRL_SIZE" "unat irq < IRL_SIZE"
  shows "irq_keeps lines_same E S (isr_walk (irl_isr E irq) (irl_vector S ! i) S)"
proof (rule isr_walk_keeps [OF assms(2)])
  fix p assume "p \<in> set (irl_vector S ! i)"
  then have p: "p \<in> set (concat (irl_vector S))" using assms(3) irq_okD(2) [OF assms(2)] by (auto intro: nth_mem)
  show less: "p < IRL_POOL_SIZE" using line_elem_less [OF assms(2)] p by blast
  show "plain_elem E S p" if "ie_priority (irl_elem S p) \<noteq> ISR_PRIORITY_NOW"
    using that p assms(2) by (auto simp: irq_ok_def irq_handlers_def plain_elem_def)
  fix T assume T: "irq_ok E T" "lines_same S T"
  have "ie_handler (irl_elem T p) \<noteq> 0" using T(2) less p assms(2) by (auto simp: lines_same_def irq_ok_def irq_handlers_def)
  then show "irq_keeps lines_same E T (map_option snd (irl_isr E irq p T))" by (rule irl_isr_keeps [OF assms(1) T(1) assms(4)])
qed (auto intro: lines_same_trans simp: walk_same_def)

lemma dispatch_keeps:
  assumes "eirq_ends E" "irq_ok E S" "unat irq < IRL_SIZE"
  shows "irq_keeps lines_same E S (leon_irq_dispatch E irq S)"
  unfolding leon_irq_dispatch_def
proof (rule keeps_bind_lines [OF count_keeps [OF assms(2,3)]])
  fix T assume T: "irq_ok E T"
  from keeps_bind_lines [OF irl_walk_keeps [OF assms(1) T assms(3,3)] rates_keep [OF _ assms(3)]]
  show "irq_keeps lines_same E T (do {
      ps \<leftarrow> at (irl_vector T) (unat irq); S \<leftarrow> isr_walk (irl_isr E irq) ps T;
      S \<leftarrow> leon_check_irq_rate E irq (e_cpu E) S; leon_check_irq_rate E irq 0 S })"
    using irq_okD(2) [OF T] assms(3) by simp
qed

section \<open>Deferred handlers\<close>

text \<open>How many elements the queue and its pool have; a handler that does not accept its interrupt loses one.\<close>

definition queue_elems :: "'w irqs \<Rightarrow> nat" where
  "queue_elems S = length (irl_queue_head S) + length (irq_queue_pool_head S)"

definition exec_measure :: "('w irqs \<times> 'w irqs) set" where
  "exec_measure = inv_image (less_than <*lex*> less_than) (\<lambda>S. (queue_elems S, length (irl_queue_head S)))"

lemma add_mset_subD: "add_mset x A \<subseteq># B \<Longrightarrow> A \<subseteq># B"
  by (metis add_mset_add_single mset_subset_eq_add_left subset_mset.order_trans)

lemma exec_elem_keeps:
  assumes "irq_ok E S" "irl_queue_head S = p # ps"
  obtains S' where "exec_elem E p (S\<lparr>irl_queue_head := ps\<rparr>) = Some S'" "irq_ok E S'" "lines_same S S'" "(S', S) \<in> exec_measure"
    "queue_elems S' \<le> queue_elems S" "ps = [] \<longrightarrow> length (irl_queue_head S') \<le> 1"
proof -
  let ?T = "S\<lparr>irl_queue_head := ps\<rparr>"
  let ?f = "ie_handler (irl_elem S p)" and ?d = "ie_data (irl_elem S p)" and ?i = "ie_irq (irl_elem S p)"
  have plain: "plain_elem E S p" using assms by (auto simp: irq_ok_def irq_handlers_def plain_elem_def)
  then have pT: "plain_elem E (?T\<lparr>irq_world := w\<rparr>) p" for w by (simp add: plain_elem_def)
  have ok: "irq_ok E (?T\<lparr>irq_world := w\<rparr>)" for w
    using assms by (auto simp: irq_ok_def irq_lists_def irq_sizes_def irq_handlers_def irq_cpus_def dest: add_mset_subD)
  have ret: "irq_ok E (?T\<lparr>irq_world := w, irq_queue_pool_head := irq_queue_pool_head S @ [p]\<rparr>)" for w
    using assms by (auto simp: irq_ok_def irq_lists_def irq_sizes_def irq_handlers_def irq_cpus_def)
  obtain r w where c: "e_call E ?f ?i ?d (irq_world S) = (r, w)" by fastforce
  have e: "exec_elem E p ?T = Some (if r then ?T\<lparr>irq_world := w, irq_queue_pool_head := irq_queue_pool_head S @ [p]\<rparr>
      else snd (leon_irq_queue p (?T\<lparr>irq_world := w\<rparr>)))"
    using plain c by (simp add: exec_elem_def irl_isr_def ext_isr_def plain_elem_def)
  show thesis
  proof (cases r)
    case True
    have "lines_same S (?T\<lparr>irq_world := w, irq_queue_pool_head := irq_queue_pool_head S @ [p]\<rparr>)" by (simp add: lines_same_def)
    with that e ret [of w] True assms(2) show thesis by (simp add: exec_measure_def queue_elems_def)
  next
    case False
    from queue_keeps [OF ok pT] obtain U where U: "snd (leon_irq_queue p (?T\<lparr>irq_world := w\<rparr>)) = U" "irq_ok E U"
      "walk_same (?T\<lparr>irq_world := w\<rparr>) U" by (auto simp: irq_keeps_def)
    have "lines_same S U" using U(3) by (simp add: walk_same_def lines_same_def)
    moreover have "Suc (queue_elems U) = queue_elems S" "ps = [] \<longrightarrow> length (irl_queue_head U) \<le> 1"
      using U(1) assms(2) by (auto simp: leon_irq_queue_def queue_elems_def split: list.splits)
    ultimately show thesis using that e False U(1,2) by (simp add: exec_measure_def)
  qed
qed

lemma exec_loop_keeps:
  assumes "irq_ok E S"
  shows "irq_keeps lines_same E S (exec_loop E S)"
    and "exec_loop E S = Some S' \<Longrightarrow> queue_elems S' \<le> queue_elems S \<and> length (irl_queue_head S') \<le> 1"
proof -
  have wf: "wf exec_measure" unfolding exec_measure_def by (intro wf_inv_image wf_lex_prod wf_less_than)
  have "\<exists>S'. exec_loop E S = Some S' \<and> irq_ok E S' \<and> lines_same S S' \<and> queue_elems S' \<le> queue_elems S \<and> length (irl_queue_head S') \<le> 1"
    using assms
  proof (induction S rule: wf_induct_rule [OF wf])
    case (1 S)
    show ?case
    proof (cases "irl_queue_head S")
      case Nil
      then show ?thesis using 1(2) by (subst exec_loop.simps) simp
    next
      case (Cons p ps)
      from exec_elem_keeps [OF 1(2) Cons] obtain T where T: "exec_elem E p (S\<lparr>irl_queue_head := ps\<rparr>) = Some T" "irq_ok E T" "lines_same S T"
        "(T, S) \<in> exec_measure" "queue_elems T \<le> queue_elems S" "ps = [] \<longrightarrow> length (irl_queue_head T) \<le> 1" .
      show ?thesis
      proof (cases "ps = []")
        case True
        then show ?thesis using T Cons by (subst exec_loop.simps) simp
      next
        case False
        from 1(1) [OF T(4,2)] obtain U where "exec_loop E T = Some U" "irq_ok E U" "lines_same T U" "queue_elems U \<le> queue_elems T"
          "length (irl_queue_head U) \<le> 1" by blast
        with T False Cons lines_same_trans [OF T(3)] show ?thesis by (subst exec_loop.simps) auto
      qed
    qed
  qed
  then show "irq_keeps lines_same E S (exec_loop E S)"
    "exec_loop E S = Some S' \<Longrightarrow> queue_elems S' \<le> queue_elems S \<and> length (irl_queue_head S') \<le> 1"
    by (auto simp: irq_keeps_def)
qed

lemma execute_keeps: "irq_ok E S \<Longrightarrow> irq_keeps lines_same E S (leon_irq_queue_execute E S)"
  using exec_loop_keeps(1) [of E S] by (simp add: leon_irq_queue_execute_def irq_keeps_def)

end
