(* ===== verification/Irq_Reg.thy ===== *)
theory Irq_Reg
  imports Irq_Safe
begin

text \<open>
  Registration of handlers: what the lines hold as lists of functions, and how requests and releases change them.  The
  locale \<open>handler_table\<close> is what a driver relies on.
\<close>

section \<open>Frames\<close>

definition lists_same :: "'w irqs \<Rightarrow> 'w irqs \<Rightarrow> bool" where
  "lists_same S S' \<longleftrightarrow> irq_ctrl S' = irq_ctrl S \<and> irl_elem S' = irl_elem S \<and> irl_pool_head S' = irl_pool_head S
     \<and> irl_queue_head S' = irl_queue_head S \<and> irq_queue_pool_head S' = irq_queue_pool_head S
     \<and> irl_vector S' = irl_vector S \<and> eirl_vector S' = eirl_vector S \<and> irq_world S' = irq_world S"

lemma lists_same_refl [simp]: "lists_same S S"
  by (simp add: lists_same_def)

lemma lists_same_trans: "lists_same S T \<Longrightarrow> lists_same T U \<Longrightarrow> lists_same S U"
  by (simp add: lists_same_def)

lemma ctrl_lists: "ctrl_only S T \<Longrightarrow> lists_same S T"
  by (simp add: ctrl_only_def lines_same_def lists_same_def)

lemma keeps_lists: "irq_keeps ctrl_only E S r \<Longrightarrow> irq_keeps lists_same E S r"
  by (auto simp: irq_keeps_def ctrl_lists)

lemma irq_ok_aff:
  assumes "irq_ok E S" "cpu \<in> {- 1, 0, 1}"
  shows "irq_ok E (S\<lparr>irq_cpu_affinity := (irq_cpu_affinity S)[i := cpu]\<rparr>)"
proof -
  have "set ((irq_cpu_affinity S)[i := cpu]) \<subseteq> {- 1, 0, 1}"
    using set_update_subset_insert [of "irq_cpu_affinity S" i cpu] assms by (fastforce simp: irq_ok_def irq_cpus_def)
  with assms(1) show ?thesis by (simp add: irq_ok_def irq_lists_def irq_sizes_def irq_handlers_def irq_cpus_def)
qed

lemma aff_cpu: "irq_ok E S \<Longrightarrow> i < IRL_SIZE + EIRL_SIZE \<Longrightarrow> irq_cpu_affinity S ! i \<in> {- 1, 0, 1}"
  using irq_okD(4) [of E S] nth_mem [of i "irq_cpu_affinity S"] unfolding irq_ok_def irq_cpus_def by (metis subset_iff)

text \<open>The interrupt is not masked on the processor.\<close>

definition unmasked :: "'w irqs \<Rightarrow> u32 \<Rightarrow> int \<Rightarrow> bool" where
  "unmasked S irq cpu \<longleftrightarrow> bit (irq_mpmask S ! nat cpu) (unat irq)"

lemma enable_unmasks:
  assumes "irq_ok E S" "irq < 32" "cpu \<in> {0, 1}" "leon_enable_irq E irq cpu S = Some S'"
  shows "unmasked S' irq cpu" "irq_cpu_affinity S' = irq_cpu_affinity S"
proof -
  have "unat irq < 32" using assms(2) by (simp add: word_less_nat_alt)
  moreover from clear_keeps [OF assms(1,2)] obtain T where T: "leon_clear_irq E irq S = Some T" "irq_ok E T" "ctrl_only S T"
    by (rule keeps_obtain)
  ultimately show "unmasked S' irq cpu" "irq_cpu_affinity S' = irq_cpu_affinity S"
    using assms(2-4) irq_okD(11) [OF T(2)]
    by (auto simp: leon_enable_irq_def leon_unmask_irq_def cpu_ix_def unmasked_def bit_simps ctrl_only_def lines_same_def)
qed

lemma affinity_default:
  assumes "irq_ok E S" "unat irq < EIRL_SIZE"
  obtains S' where "set_affinity_default E irq S = Some S'" "irq_ok E S'" "lists_same S S'"
    "unmasked S' irq (irq_cpu_affinity S' ! unat irq)"
proof -
  have i: "irq < 32" using assms(2) by (simp add: word_less_nat_alt)
  have len: "unat irq < length (irq_cpu_affinity S)" using irq_okD(4) [OF assms(1)] assms(2) by simp
  let ?a = "irq_cpu_affinity S ! unat irq"
  define T where "T = (if ?a = - 1 then S\<lparr>irq_cpu_affinity := (irq_cpu_affinity S)[unat irq := e_cpu E]\<rparr> else S)"
  let ?c = "irq_cpu_affinity T ! unat irq"
  have c: "?c \<in> {0, 1}" using irq_okD(1) [OF assms(1)] aff_cpu [OF assms(1), of "unat irq"] assms(2) len by (auto simp: T_def)
  have T: "irq_ok E T" "lists_same S T"
    using irq_ok_aff [OF assms(1), of "e_cpu E"] irq_okD(1) [OF assms(1)] assms(1) by (auto simp: T_def lists_same_def)
  from enable_keeps(1) [OF T(1) i c] obtain U where U: "leon_enable_irq E irq ?c T = Some U" "irq_ok E U" "ctrl_only T U"
    by (rule keeps_obtain)
  have "set_affinity_default E irq S = Some U"
    using U(1) len by (auto simp: set_affinity_default_def T_def)
  with that [OF this U(2)] enable_unmasks [OF T(1) i c U(1)] lists_same_trans [OF T(2) ctrl_lists [OF U(3)]]
  show thesis by simp
qed

section \<open>Lines as lists of functions\<close>

definition line_of :: "'w irqs \<Rightarrow> u32 \<Rightarrow> nat list" where
  "line_of S irq = (if unat irq < IRL_SIZE then irl_vector S ! unat irq else eirl_vector S ! unat irq)"

definition registered :: "'w irqs \<Rightarrow> u32 \<Rightarrow> irl_vector_elem list" where
  "registered S irq = map (irl_elem S) (line_of S irq)"

lemma registered_same: "lists_same S T \<Longrightarrow> registered T irq = registered S irq"
  by (simp add: lists_same_def registered_def line_of_def)

lemma distinct_lines:
  assumes "irq_ok E S"
  shows "distinct (irl_pool_head S @ concat (irl_vector S) @ concat (eirl_vector S))"
proof -
  have "distinct irl_ids" by (simp only: irl_ids_def distinct_upt)
  with assms show ?thesis by (metis irq_ok_def irq_lists_def mset_eq_imp_distinct_iff)
qed

text \<open>An element of the pool gets the fields \<open>e\<close> and goes to the end of a line.\<close>

definition add_irl :: "nat \<Rightarrow> nat list \<Rightarrow> nat \<Rightarrow> irl_vector_elem \<Rightarrow> 'w irqs \<Rightarrow> 'w irqs" where
  "add_irl p pool i e S = S\<lparr>irl_elem := (irl_elem S)(p := e), irl_pool_head := pool,
     irl_vector := (irl_vector S)[i := irl_vector S ! i @ [p]]\<rparr>"

definition add_eirl :: "nat \<Rightarrow> nat list \<Rightarrow> nat \<Rightarrow> irl_vector_elem \<Rightarrow> 'w irqs \<Rightarrow> 'w irqs" where
  "add_eirl p pool i e S = S\<lparr>irl_elem := (irl_elem S)(p := e), irl_pool_head := pool,
     eirl_vector := (eirl_vector S)[i := eirl_vector S ! i @ [p]]\<rparr>"

lemma mset_concat_add:
  "i < length xs \<Longrightarrow> mset (concat (xs[i := xs ! i @ [p]])) = add_mset p (mset (concat xs))"
  using mset_concat_update [of i xs "xs ! i @ [p]"] by simp

lemma add_ok:
  assumes "irq_ok E S" "irl_pool_head S = p # pool" "ie_handler e \<noteq> 0"
  shows "i < IRL_SIZE \<Longrightarrow> ie_handler e \<noteq> e_eirq_fn E \<or> ie_priority e = ISR_PRIORITY_NOW \<Longrightarrow> irq_ok E (add_irl p pool i e S)"
    "i < EIRL_SIZE \<Longrightarrow> ie_handler e \<noteq> e_eirq_fn E \<Longrightarrow> irq_ok E (add_eirl p pool i e S)"
proof -
  have p: "p < IRL_POOL_SIZE" using line_elem_less [OF assms(1), of p] assms(2) by simp
  have q: "p \<notin> set (irl_queue_head S)" using queue_elem_range(1) [OF assms(1), of p] p by auto
  have d: "p \<notin> set (concat (irl_vector S))" "p \<notin> set (concat (eirl_vector S))"
    using distinct_lines [OF assms(1)] assms(2) by auto
  have h: "irq_handlers E S" "irq_lists S" "irq_sizes S" "irq_cpus E S" using assms(1) by (simp_all add: irq_ok_def)
  show "irq_ok E (add_irl p pool i e S)" if i: "i < IRL_SIZE" and e: "ie_handler e \<noteq> e_eirq_fn E \<or> ie_priority e = ISR_PRIORITY_NOW"
  proof -
    have i': "i < length (irl_vector S)" using i h(3) by (simp add: irq_sizes_def)
    have "irq_lists (add_irl p pool i e S)" using h(2) assms(2) mset_concat_add [OF i', of p]
      by (simp add: irq_lists_def add_irl_def del: mset_concat)
    moreover have "irq_handlers E (add_irl p pool i e S)" unfolding irq_handlers_def
    proof (intro conjI ballI)
      fix x assume "x \<in> set (concat (irl_vector (add_irl p pool i e S)))"
      then have "x = p \<or> x \<in> set (concat (irl_vector S))" using in_concat_update [OF i'] nth_in_concat [OF i']
        by (fastforce simp: add_irl_def simp del: set_concat)
      then show "ie_handler (irl_elem (add_irl p pool i e S) x) \<noteq> 0"
        "ie_handler (irl_elem (add_irl p pool i e S) x) = e_eirq_fn E \<longrightarrow> ie_priority (irl_elem (add_irl p pool i e S) x) = ISR_PRIORITY_NOW"
        using d h(1) assms(3) e by (auto simp: irq_handlers_def add_irl_def simp del: set_concat)
    next
      fix x assume x: "x \<in> set (concat (eirl_vector (add_irl p pool i e S))) \<union> set (irl_queue_head (add_irl p pool i e S))"
      then show "ie_handler (irl_elem (add_irl p pool i e S) x) \<noteq> 0" "ie_handler (irl_elem (add_irl p pool i e S) x) \<noteq> e_eirq_fn E"
        using d q h(1) by (auto simp: irq_handlers_def add_irl_def simp del: set_concat)
    qed
    ultimately show ?thesis using h by (simp add: irq_ok_def irq_sizes_def irq_cpus_def add_irl_def)
  qed
  show "irq_ok E (add_eirl p pool i e S)" if i: "i < EIRL_SIZE" and e: "ie_handler e \<noteq> e_eirq_fn E"
  proof -
    have i': "i < length (eirl_vector S)" using i h(3) by (simp add: irq_sizes_def)
    have "irq_lists (add_eirl p pool i e S)" using h(2) assms(2) mset_concat_add [OF i', of p]
      by (simp add: irq_lists_def add_eirl_def del: mset_concat)
    moreover have "irq_handlers E (add_eirl p pool i e S)" unfolding irq_handlers_def
    proof (intro conjI ballI)
      fix x assume "x \<in> set (concat (irl_vector (add_eirl p pool i e S)))"
      then show "ie_handler (irl_elem (add_eirl p pool i e S) x) \<noteq> 0"
        "ie_handler (irl_elem (add_eirl p pool i e S) x) = e_eirq_fn E \<longrightarrow> ie_priority (irl_elem (add_eirl p pool i e S) x) = ISR_PRIORITY_NOW"
        using d h(1) by (auto simp: irq_handlers_def add_eirl_def simp del: set_concat)
    next
      fix x assume "x \<in> set (concat (eirl_vector (add_eirl p pool i e S))) \<union> set (irl_queue_head (add_eirl p pool i e S))"
      then have "x = p \<or> x \<in> set (concat (eirl_vector S)) \<union> set (irl_queue_head S)" using in_concat_update [OF i'] nth_in_concat [OF i']
        by (fastforce simp: add_eirl_def simp del: set_concat)
      then show "ie_handler (irl_elem (add_eirl p pool i e S) x) \<noteq> 0" "ie_handler (irl_elem (add_eirl p pool i e S) x) \<noteq> e_eirq_fn E"
        using d q h(1) assms(3) e by (auto simp: irq_handlers_def add_eirl_def simp del: set_concat)
    qed
    ultimately show ?thesis using h by (simp add: irq_ok_def irq_sizes_def irq_cpus_def add_eirl_def)
  qed
qed

section \<open>Requests\<close>

lemma registered_add:
  assumes "irq_ok E S" "irl_pool_head S = p # pool" "unat j < EIRL_SIZE"
  shows "i < IRL_SIZE \<Longrightarrow> registered (add_irl p pool i e S) j = (if unat j = i then registered S j @ [e] else registered S j)"
    "IRL_SIZE \<le> i \<Longrightarrow> i < EIRL_SIZE \<Longrightarrow>
       registered (add_eirl p pool i e S) j = (if unat j = i then registered S j @ [e] else registered S j)"
proof -
  have d: "p \<notin> set (concat (irl_vector S))" "p \<notin> set (concat (eirl_vector S))"
    using distinct_lines [OF assms(1)] assms(2) by auto
  have n: "p \<notin> set (line_of S j)"
    using d nth_in_concat [of "unat j" "irl_vector S" p] nth_in_concat [of "unat j" "eirl_vector S" p] assms(3) irq_okD(2,3) [OF assms(1)]
    by (auto simp: line_of_def simp del: set_concat)
  then have m: "map ((irl_elem S)(p := e)) (line_of S j) = registered S j"
    by (auto simp: registered_def intro!: map_cong)
  show "registered (add_irl p pool i e S) j = (if unat j = i then registered S j @ [e] else registered S j)" if "i < IRL_SIZE"
    using m that irq_okD(2) [OF assms(1)] by (auto simp: registered_def line_of_def add_irl_def nth_list_update)
  show "registered (add_eirl p pool i e S) j = (if unat j = i then registered S j @ [e] else registered S j)"
    if "IRL_SIZE \<le> i" "i < EIRL_SIZE"
    using m that irq_okD(3) [OF assms(1)] by (auto simp: registered_def line_of_def add_eirl_def nth_list_update)
qed

definition req_elem :: "u32 \<Rightarrow> int \<Rightarrow> u32 \<Rightarrow> u32 \<Rightarrow> irl_vector_elem" where
  "req_elem irq priority handler data = \<lparr>ie_handler = handler, ie_priority = priority, ie_data = data, ie_irq = irq\<rparr>"

lemma irl_register_eq:
  assumes "irq_ok E S" "irl_pool_head S = p # pool" "handler \<noteq> 0" "unat irq < IRL_SIZE"
  shows "irl_register_handler E irq priority handler data S =
     do { S \<leftarrow> set_affinity_default E irq (add_irl p pool (unat irq) (req_elem irq priority handler data) S); Some (0, S) }"
  using assms irq_okD(2) [OF assms(1)] by (simp add: irl_register_handler_def add_irl_def req_elem_def)

lemma eirl_register_eq:
  assumes "irq_ok E S" "irl_pool_head S = p # pool" "handler \<noteq> 0" "IRL_SIZE \<le> unat irq" "unat irq < EIRL_SIZE"
  shows "eirl_register_handler E irq priority handler data S =
     do { S \<leftarrow> set_affinity_default E irq (add_eirl p pool (unat irq) (req_elem irq priority handler data) S); Some (0, S) }"
  using assms irq_okD(3) [OF assms(1)] by (simp add: eirl_register_handler_def add_eirl_def req_elem_def)

text \<open>What a request changes, apart from the line.\<close>

lemma enable_correct:
  assumes "irq_ok E S" "irl_pool_head S = p # pool" "handler \<noteq> 0" "handler \<noteq> e_eirq_fn E" "unat irq < EIRL_SIZE"
  obtains S' where "enable_irq E irq priority handler data S = Some (0, S')" "irq_ok E S'" "unmasked S' irq (irq_cpu_affinity S' ! unat irq)"
    "\<And>j. unat j < EIRL_SIZE \<Longrightarrow> registered S' j = (if j = irq then registered S j @ [req_elem irq priority handler data] else registered S j)"
    "irl_pool_head S' = pool" "irq_ctrl S' = irq_ctrl S" "irl_queue_head S' = irl_queue_head S" "irq_queue_pool_head S' = irq_queue_pool_head S"
    "irq_world S' = irq_world S"
proof -
  let ?e = "req_elem irq priority handler data" and ?i = "unat irq"
  define T where "T = (if ?i < IRL_SIZE then add_irl p pool ?i ?e S else add_eirl p pool ?i ?e S)"
  have e: "ie_handler ?e \<noteq> 0" "ie_handler ?e \<noteq> e_eirq_fn E" using assms by (simp_all add: req_elem_def)
  have T: "irq_ok E T" using add_ok [OF assms(1,2) e(1)] e(2) assms(5) by (simp add: T_def)
  have eq: "enable_irq E irq priority handler data S = do { S \<leftarrow> set_affinity_default E irq T; Some (0, S) }"
    using irl_register_eq [OF assms(1-3)] eirl_register_eq [OF assms(1-3)] assms(5) by (simp add: enable_irq_def T_def)
  from affinity_default [OF T assms(5)] obtain U where U: "set_affinity_default E irq T = Some U" "irq_ok E U" "lists_same T U"
    "unmasked U irq (irq_cpu_affinity U ! unat irq)" .
  have r: "registered U j = (if j = irq then registered S j @ [req_elem irq priority handler data] else registered S j)" if "unat j < EIRL_SIZE" for j
    using registered_same [OF U(3)] registered_add [OF assms(1,2) that, of ?i ?e] assms(5)
    by (auto simp: T_def word_unat_eq_iff)
  have f: "irl_pool_head T = pool" "irq_ctrl T = irq_ctrl S" "irl_queue_head T = irl_queue_head S"
    "irq_queue_pool_head T = irq_queue_pool_head S" "irq_world T = irq_world S" by (simp_all add: T_def add_irl_def add_eirl_def)
  show thesis by (rule that [of U]) (use eq U r f in \<open>simp_all add: lists_same_def\<close>)
qed

section \<open>Releases\<close>

definition hit :: "u32 \<Rightarrow> u32 \<Rightarrow> irl_vector_elem \<Rightarrow> bool" where
  "hit handler data e \<longleftrightarrow> ie_handler e = handler \<and> ie_data e = data"

definition rem_irl :: "nat \<Rightarrow> nat \<Rightarrow> 'w irqs \<Rightarrow> 'w irqs" where
  "rem_irl p i S = (release_elem p S)\<lparr>irl_vector := (irl_vector S)[i := remove1 p (irl_vector S ! i)], irl_pool_head := irl_pool_head S @ [p]\<rparr>"

definition rem_eirl :: "nat \<Rightarrow> nat \<Rightarrow> 'w irqs \<Rightarrow> 'w irqs" where
  "rem_eirl p i S = (release_elem p S)\<lparr>eirl_vector := (eirl_vector S)[i := remove1 p (eirl_vector S ! i)], irl_pool_head := irl_pool_head S @ [p]\<rparr>"

lemma mset_concat_remove:
  assumes "i < length xs" "p \<in> set (xs ! i)"
  shows "add_mset p (mset (concat (xs[i := remove1 p (xs ! i)]))) = mset (concat xs)"
proof -
  let ?A = "mset (concat (xs[i := remove1 p (xs ! i)]))"
  from assms(2) obtain B where B: "mset (xs ! i) = add_mset p B" by (metis insert_DiffM set_mset_mset)
  have "?A + mset (xs ! i) = mset (concat xs) + mset (remove1 p (xs ! i))" by (rule mset_concat_update [OF assms(1)])
  then have "add_mset p ?A + B = mset (concat xs) + B" by (simp only: B mset_remove1 add_mset_remove_trivial union_mset_add_mset_left union_mset_add_mset_right)
  then show ?thesis by (simp only: add_right_cancel)
qed

lemma concat_remove:
  assumes "i < length xs" "p \<in> set (xs ! i)" "distinct (concat xs)"
  shows "mset (concat xs) = add_mset p (mset (concat (xs[i := remove1 p (xs ! i)])))" (is "_ = add_mset p (mset ?ys)")
    "p \<notin> set (concat (xs[i := remove1 p (xs ! i)]))"
    "set (concat (xs[i := remove1 p (xs ! i)])) \<subseteq> set (concat xs)"
proof -
  show m: "mset (concat xs) = add_mset p (mset ?ys)" using mset_concat_remove [OF assms(1,2)] by (rule sym)
  then have "distinct (p # ?ys)" using assms(3) by (metis mset.simps(2) mset_eq_imp_distinct_iff)
  then show "p \<notin> set ?ys" by (simp only: distinct.simps(2) not_False_eq_True)
  show "set ?ys \<subseteq> set (concat xs)" using m by (metis set_mset_mset set_mset_add_mset_insert subset_insertI)
qed

lemma rem_ok:
  assumes "irq_ok E S"
  shows "i < IRL_SIZE \<Longrightarrow> p \<in> set (irl_vector S ! i) \<Longrightarrow> irq_ok E (rem_irl p i S)"
    "i < EIRL_SIZE \<Longrightarrow> p \<in> set (eirl_vector S ! i) \<Longrightarrow> irq_ok E (rem_eirl p i S)"
proof -
  have h: "irq_handlers E S" "irq_lists S" "irq_sizes S" "irq_cpus E S" using assms(1) by (simp_all add: irq_ok_def)
  have dc: "distinct (concat (irl_vector S))" "distinct (concat (eirl_vector S))" using distinct_lines [OF assms] by simp_all
  show "irq_ok E (rem_irl p i S)" if i: "i < IRL_SIZE" and p: "p \<in> set (irl_vector S ! i)"
  proof -
    have i': "i < length (irl_vector S)" using i h(3) by (simp add: irq_sizes_def)
    note c = concat_remove [OF i' p dc(1)]
    have l: "irq_lists (rem_irl p i S)" using h(2) c(1) by (simp add: irq_lists_def rem_irl_def release_elem_def del: mset_concat)
    have "p \<in> set (concat (irl_vector S))" using nth_in_concat [OF i' p] .
    then have d: "p \<notin> set (concat (eirl_vector S))" "p \<notin> set (irl_queue_head S)"
      using distinct_lines [OF assms] queue_elem_range(1) [OF assms, of p] line_elem_less [OF assms, of p] by (auto simp del: set_concat)
    have "irq_handlers E (rem_irl p i S)" using h(1) d c(2,3)
      by (auto simp: irq_handlers_def rem_irl_def release_elem_def simp del: set_concat)
    with l h show ?thesis by (simp add: irq_ok_def irq_sizes_def irq_cpus_def rem_irl_def release_elem_def)
  qed
  show "irq_ok E (rem_eirl p i S)" if i: "i < EIRL_SIZE" and p: "p \<in> set (eirl_vector S ! i)"
  proof -
    have i': "i < length (eirl_vector S)" using i h(3) by (simp add: irq_sizes_def)
    note c = concat_remove [OF i' p dc(2)]
    have l: "irq_lists (rem_eirl p i S)" using h(2) c(1) by (simp add: irq_lists_def rem_eirl_def release_elem_def del: mset_concat)
    have "p \<in> set (concat (eirl_vector S))" using nth_in_concat [OF i' p] .
    then have d: "p \<notin> set (concat (irl_vector S))" "p \<notin> set (irl_queue_head S)"
      using distinct_lines [OF assms] queue_elem_range(1) [OF assms, of p] line_elem_less [OF assms, of p] by (auto simp del: set_concat)
    have "irq_handlers E (rem_eirl p i S)" using h(1) d c(2,3)
      by (auto simp: irq_handlers_def rem_eirl_def release_elem_def simp del: set_concat)
    with l h show ?thesis by (simp add: irq_ok_def irq_sizes_def irq_cpus_def rem_eirl_def release_elem_def)
  qed
qed

text \<open>The loop over a line: \<open>ds\<close> are the elements it has kept.\<close>

definition released :: "u32 \<Rightarrow> u32 \<Rightarrow> nat list \<Rightarrow> 'w irqs \<Rightarrow> 'w irqs \<Rightarrow> bool" where
  "released h d ps S S' \<longleftrightarrow> irl_pool_head S' = irl_pool_head S @ filter (\<lambda>p. hit h d (irl_elem S p)) ps
     \<and> (\<forall>p. \<not> (p \<in> set ps \<and> hit h d (irl_elem S p)) \<longrightarrow> irl_elem S' p = irl_elem S p)
     \<and> irq_ctrl S' = irq_ctrl S \<and> irl_queue_head S' = irl_queue_head S \<and> irq_queue_pool_head S' = irq_queue_pool_head S
     \<and> irq_world S' = irq_world S"

abbreviation kept_elems :: "u32 \<Rightarrow> u32 \<Rightarrow> 'w irqs \<Rightarrow> nat list \<Rightarrow> nat list" where
  "kept_elems h d S ps \<equiv> filter (\<lambda>p. \<not> hit h d (irl_elem S p)) ps"

lemma irl_dereg_loop:
  assumes "irq_ok E S" "unat irq < IRL_SIZE" "irl_vector S ! unat irq = ds @ ps" "distinct (ds @ ps)"
  shows "\<exists>S'. over (irl_dereg_elem E irq h d) ps S = Some S' \<and> irq_ok E S' \<and> released h d ps S S'
     \<and> irl_vector S' = (irl_vector S)[unat irq := ds @ kept_elems h d S ps] \<and> eirl_vector S' = eirl_vector S"
  using assms
proof (induction ps arbitrary: S ds)
  case Nil
  then show ?case by (auto simp: released_def)
next
  case (Cons p ps)
  let ?i = "unat irq"
  have len: "?i < length (irl_vector S)" using irq_okD(2) [OF Cons.prems(1)] assms(2) by simp
  show ?case
  proof (cases "hit h d (irl_elem S p)")
    case True
    let ?T = "rem_irl p ?i S"
    have T: "irq_ok E ?T" using rem_ok(1) [OF Cons.prems(1) assms(2), of p] Cons.prems(3) by simp
    have v: "irl_vector ?T = (irl_vector S)[?i := ds @ ps]" using Cons.prems(3,4) by (simp add: rem_irl_def remove1_append)
    have i: "irq < 32" using assms(2) by (simp add: word_less_nat_alt)
    define r where "r = (if irl_vector ?T ! ?i = [] then leon_disable_irq E irq (e_cpu E) ?T else Some ?T)"
    have e: "irl_dereg_elem E irq h d p S = r"
      using True len by (simp add: irl_dereg_elem_def hit_def r_def rem_irl_def release_elem_def Let_def)
    have "irq_keeps ctrl_only E ?T r" using T enable_keeps(2) [OF T i irq_okD(1) [OF T]] by (simp add: r_def irq_keeps_def)
    then obtain U where U: "r = Some U" "irq_ok E U" "ctrl_only ?T U" by (rule keeps_obtain)
    have u: "irl_vector U = (irl_vector S)[?i := ds @ ps]" "eirl_vector U = eirl_vector S" "irl_pool_head U = irl_pool_head S @ [p]"
      "\<And>q. q \<noteq> p \<Longrightarrow> irl_elem U q = irl_elem S q" "irq_ctrl U = irq_ctrl S" "irl_queue_head U = irl_queue_head S"
      "irq_queue_pool_head U = irq_queue_pool_head S" "irq_world U = irq_world S"
      using U(3) v by (simp_all add: ctrl_only_def lines_same_def rem_irl_def release_elem_def)
    have "irl_vector U ! ?i = ds @ ps" using u(1) len by simp
    from Cons.IH [OF U(2) assms(2) this] Cons.prems(4) obtain S' where S': "over (irl_dereg_elem E irq h d) ps U = Some S'" "irq_ok E S'"
      "released h d ps U S'" "irl_vector S' = (irl_vector U)[?i := ds @ kept_elems h d U ps]" "eirl_vector S' = eirl_vector U" by auto
    have k: "hit h d (irl_elem U q) = hit h d (irl_elem S q)" if "q \<in> set ps" for q using that Cons.prems(4) u(4) [of q] by (cases "q = p") auto
    have f: "filter (\<lambda>q. hit h d (irl_elem U q)) ps = filter (\<lambda>q. hit h d (irl_elem S q)) ps" "kept_elems h d U ps = kept_elems h d S ps"
      using k by (auto intro: filter_cong)
    have "irl_elem S' q = irl_elem S q" if "\<not> (q \<in> set (p # ps) \<and> hit h d (irl_elem S q))" for q
    proof -
      have "irl_elem U q = irl_elem S q" using that True by (intro u(4)) auto
      moreover have "\<not> (q \<in> set ps \<and> hit h d (irl_elem U q))" using that k by auto
      ultimately show ?thesis using S'(3) by (simp add: released_def)
    qed
    then have "released h d (p # ps) S S'" using S'(3) u(3,5-8) True f(1) by (simp add: released_def)
    with e U(1) S' u f(2) True show ?thesis by simp
  next
    case False
    have "irl_dereg_elem E irq h d p S = Some S" using False by (auto simp: irl_dereg_elem_def hit_def)
    moreover have "irl_vector S ! ?i = (ds @ [p]) @ ps" "distinct ((ds @ [p]) @ ps)" using Cons.prems by simp_all
    from Cons.IH [OF Cons.prems(1) assms(2) this] obtain S' where "over (irl_dereg_elem E irq h d) ps S = Some S'" "irq_ok E S'"
      "released h d ps S S'" "irl_vector S' = (irl_vector S)[?i := (ds @ [p]) @ kept_elems h d S ps]" "eirl_vector S' = eirl_vector S" by blast
    ultimately show ?thesis using False by (auto simp: released_def)
  qed
qed

lemma eirl_dereg_loop:
  assumes "irq_ok E S" "unat irq < EIRL_SIZE" "eirl_vector S ! unat irq = ds @ ps" "distinct (ds @ ps)"
  shows "\<exists>S'. over (eirl_dereg_elem E irq h d) ps S = Some S' \<and> irq_ok E S' \<and> released h d ps S S'
     \<and> eirl_vector S' = (eirl_vector S)[unat irq := ds @ kept_elems h d S ps] \<and> irl_vector S' = irl_vector S"
  using assms
proof (induction ps arbitrary: S ds)
  case Nil
  then show ?case by (auto simp: released_def)
next
  case (Cons p ps)
  let ?i = "unat irq"
  have len: "?i < length (eirl_vector S)" using irq_okD(3) [OF Cons.prems(1)] assms(2) by simp
  show ?case
  proof (cases "hit h d (irl_elem S p)")
    case True
    let ?T = "rem_eirl p ?i S"
    have T: "irq_ok E ?T" using rem_ok(2) [OF Cons.prems(1) assms(2), of p] Cons.prems(3) by simp
    have v: "eirl_vector ?T = (eirl_vector S)[?i := ds @ ps]" using Cons.prems(3,4) by (simp add: rem_eirl_def remove1_append)
    have i: "irq < 32" using assms(2) by (simp add: word_less_nat_alt)
    define r where "r = (if eirl_vector ?T ! ?i = [] then leon_disable_irq E irq (e_cpu E) ?T else Some ?T)"
    have e: "eirl_dereg_elem E irq h d p S = r"
      using True len by (simp add: eirl_dereg_elem_def hit_def r_def rem_eirl_def release_elem_def Let_def)
    have "irq_keeps ctrl_only E ?T r" using T enable_keeps(2) [OF T i irq_okD(1) [OF T]] by (simp add: r_def irq_keeps_def)
    then obtain U where U: "r = Some U" "irq_ok E U" "ctrl_only ?T U" by (rule keeps_obtain)
    have u: "eirl_vector U = (eirl_vector S)[?i := ds @ ps]" "irl_vector U = irl_vector S" "irl_pool_head U = irl_pool_head S @ [p]"
      "\<And>q. q \<noteq> p \<Longrightarrow> irl_elem U q = irl_elem S q" "irq_ctrl U = irq_ctrl S" "irl_queue_head U = irl_queue_head S"
      "irq_queue_pool_head U = irq_queue_pool_head S" "irq_world U = irq_world S"
      using U(3) v by (simp_all add: ctrl_only_def lines_same_def rem_eirl_def release_elem_def)
    have "eirl_vector U ! ?i = ds @ ps" using u(1) len by simp
    from Cons.IH [OF U(2) assms(2) this] Cons.prems(4) obtain S' where S': "over (eirl_dereg_elem E irq h d) ps U = Some S'" "irq_ok E S'"
      "released h d ps U S'" "eirl_vector S' = (eirl_vector U)[?i := ds @ kept_elems h d U ps]" "irl_vector S' = irl_vector U" by auto
    have k: "hit h d (irl_elem U q) = hit h d (irl_elem S q)" if "q \<in> set ps" for q using that Cons.prems(4) u(4) [of q] by (cases "q = p") auto
    have f: "filter (\<lambda>q. hit h d (irl_elem U q)) ps = filter (\<lambda>q. hit h d (irl_elem S q)) ps" "kept_elems h d U ps = kept_elems h d S ps"
      using k by (auto intro: filter_cong)
    have "irl_elem S' q = irl_elem S q" if "\<not> (q \<in> set (p # ps) \<and> hit h d (irl_elem S q))" for q
    proof -
      have "irl_elem U q = irl_elem S q" using that True by (intro u(4)) auto
      moreover have "\<not> (q \<in> set ps \<and> hit h d (irl_elem U q))" using that k by auto
      ultimately show ?thesis using S'(3) by (simp add: released_def)
    qed
    then have "released h d (p # ps) S S'" using S'(3) u(3,5-8) True f(1) by (simp add: released_def)
    with e U(1) S' u f(2) True show ?thesis by simp
  next
    case False
    have "eirl_dereg_elem E irq h d p S = Some S" using False by (auto simp: eirl_dereg_elem_def hit_def)
    moreover have "eirl_vector S ! ?i = (ds @ [p]) @ ps" "distinct ((ds @ [p]) @ ps)" using Cons.prems by simp_all
    from Cons.IH [OF Cons.prems(1) assms(2) this] obtain S' where "over (eirl_dereg_elem E irq h d) ps S = Some S'" "irq_ok E S'"
      "released h d ps S S'" "eirl_vector S' = (eirl_vector S)[?i := (ds @ [p]) @ kept_elems h d S ps]" "irl_vector S' = irl_vector S" by blast
    ultimately show ?thesis using False by (auto simp: released_def)
  qed
qed

lemma line_distinct:
  assumes "irq_ok E S"
  shows "i < IRL_SIZE \<Longrightarrow> distinct (irl_vector S ! i)" "i < EIRL_SIZE \<Longrightarrow> distinct (eirl_vector S ! i)"
proof -
  have "distinct (concat (irl_vector S))" "distinct (concat (eirl_vector S))" using distinct_lines [OF assms] by simp_all
  then show "i < IRL_SIZE \<Longrightarrow> distinct (irl_vector S ! i)" "i < EIRL_SIZE \<Longrightarrow> distinct (eirl_vector S ! i)"
    using irq_okD(2,3) [OF assms] by (auto simp: distinct_concat_iff)
qed

lemma distinct_concat_disjoint:
  "distinct (concat xs) \<Longrightarrow> i < length xs \<Longrightarrow> j < length xs \<Longrightarrow> i \<noteq> j \<Longrightarrow> set (xs ! i) \<inter> set (xs ! j) = {}"
proof (induction xs arbitrary: i j)
  case (Cons x xs)
  then have "set x \<inter> set (xs ! k) = {}" if "k < length xs" for k using nth_mem [OF that] by auto
  with Cons show ?case by (cases i; cases j) auto
qed simp

lemma lines_disjoint:
  assumes "irq_ok E S" "unat i < EIRL_SIZE" "unat j < EIRL_SIZE" "i \<noteq> j"
  shows "set (line_of S i) \<inter> set (line_of S j) = {}"
proof -
  have d: "distinct (concat (irl_vector S))" "distinct (concat (eirl_vector S))"
    "set (concat (irl_vector S)) \<inter> set (concat (eirl_vector S)) = {}"
    using distinct_lines [OF assms(1)] by auto
  have len: "length (irl_vector S) = IRL_SIZE" "length (eirl_vector S) = EIRL_SIZE" using irq_okD(2,3) [OF assms(1)] .
  have n: "unat i \<noteq> unat j" using assms(4) by (simp add: word_unat_eq_iff)
  have c: "set (irl_vector S ! a) \<inter> set (eirl_vector S ! b) = {}" if "a < IRL_SIZE" "b < EIRL_SIZE" for a b
    using d(3) nth_in_concat [of a "irl_vector S"] nth_in_concat [of b "eirl_vector S"] that len by (auto simp del: set_concat)
  show ?thesis
    using distinct_concat_disjoint [OF d(1), of "unat i" "unat j"] distinct_concat_disjoint [OF d(2), of "unat i" "unat j"]
      c [of "unat i" "unat j"] c [of "unat j" "unat i"] n len assms(2,3) by (auto simp: line_of_def)
qed

abbreviation kept_regs :: "u32 \<Rightarrow> u32 \<Rightarrow> irl_vector_elem list \<Rightarrow> irl_vector_elem list" where
  "kept_regs h d es \<equiv> filter (\<lambda>e. \<not> hit h d e) es"

lemma kept_regs_eq: "kept_regs h d (map (irl_elem S) ps) = map (irl_elem S) (kept_elems h d S ps)"
  by (simp add: filter_map comp_def)

lemma disable_correct:
  assumes "irq_ok E S" "unat irq < EIRL_SIZE"
  obtains S' where "disable_irq E irq h d S = Some S'" "irq_ok E S'"
    "\<And>j. unat j < EIRL_SIZE \<Longrightarrow> registered S' j = (if j = irq then kept_regs h d (registered S j) else registered S j)"
    "length (irl_pool_head S') + length (registered S' irq) = length (irl_pool_head S) + length (registered S irq)"
    "irq_ctrl S' = irq_ctrl S" "irl_queue_head S' = irl_queue_head S" "irq_queue_pool_head S' = irq_queue_pool_head S"
    "irq_world S' = irq_world S"
proof -
  let ?i = "unat irq" and ?ps = "line_of S irq"
  have len: "length (irl_vector S) = IRL_SIZE" "length (eirl_vector S) = EIRL_SIZE" using irq_okD(2,3) [OF assms(1)] .
  have d: "distinct ([] @ ?ps)" using line_distinct [OF assms(1)] assms(2) by (auto simp: line_of_def)
  obtain S' where S': "disable_irq E irq h d S = Some S'" "irq_ok E S'" "released h d ?ps S S'"
    "irl_vector S' = (if ?i < IRL_SIZE then (irl_vector S)[?i := kept_elems h d S ?ps] else irl_vector S)"
    "eirl_vector S' = (if ?i < IRL_SIZE then eirl_vector S else (eirl_vector S)[?i := kept_elems h d S ?ps])"
  proof (cases "?i < IRL_SIZE")
    case True
    have "irl_vector S ! ?i = [] @ ?ps" using True by (simp add: line_of_def)
    from irl_dereg_loop [OF assms(1) True this d] obtain T where "over (irl_dereg_elem E irq h d) ?ps S = Some T" "irq_ok E T"
      "released h d ?ps S T" "irl_vector T = (irl_vector S)[?i := kept_elems h d S ?ps]" "eirl_vector T = eirl_vector S" by auto
    with that [of T] True len show thesis
      by (simp add: disable_irq_def irl_deregister_handler_def word_less_nat_alt word_le_nat_alt line_of_def)
  next
    case False
    have "eirl_vector S ! ?i = [] @ ?ps" using False by (simp add: line_of_def)
    from eirl_dereg_loop [OF assms this d] obtain T where "over (eirl_dereg_elem E irq h d) ?ps S = Some T" "irq_ok E T"
      "released h d ?ps S T" "eirl_vector T = (eirl_vector S)[?i := kept_elems h d S ?ps]" "irl_vector T = irl_vector S" by auto
    with that [of T] False len assms(2) show thesis
      by (simp add: disable_irq_def eirl_deregister_handler_def word_less_nat_alt word_le_nat_alt line_of_def)
  qed
  have line: "line_of S' j = (if j = irq then kept_elems h d S ?ps else line_of S j)" if "unat j < EIRL_SIZE" for j
    using S'(4,5) len that by (auto simp: line_of_def nth_list_update word_unat_eq_iff split: if_splits)
  have same: "irl_elem S' p = irl_elem S p" if "p \<in> set (line_of S' j)" "unat j < EIRL_SIZE" for p j
  proof (cases "j = irq")
    case True
    then have "\<not> hit h d (irl_elem S p)" using that line by auto
    then show ?thesis using S'(3) by (simp add: released_def)
  next
    case False
    then have "p \<in> set (line_of S j)" using that line by auto
    with False have "p \<notin> set ?ps" using lines_disjoint [OF assms(1) that(2) assms(2)] by auto
    then show ?thesis using S'(3) by (simp add: released_def)
  qed
  have r: "registered S' j = (if j = irq then kept_regs h d (registered S j) else registered S j)" if "unat j < EIRL_SIZE" for j
    using same [OF _ that] line [OF that] kept_regs_eq [of h d S ?ps] by (auto simp: registered_def)
  have "length (irl_pool_head S') + length (line_of S' irq) = length (irl_pool_head S) + length ?ps"
    using S'(3) line [OF assms(2)] sum_length_filter_compl [of "\<lambda>p. hit h d (irl_elem S p)" ?ps] by (simp add: released_def)
  with that [OF S'(1,2) r] S'(3) show thesis by (simp add: released_def registered_def)
qed

end
