(* ===== verification/Irq_Spec.thy ===== *)
theory Irq_Spec
  imports Irq_Reg
begin

text \<open>
  The properties of the interrupt manager: requests and releases as a table of handlers, the order in which handlers are
  called, what becomes of deferred handlers, and the safety of every sequence of operations.
\<close>

section \<open>The table of handlers\<close>

locale handler_table =
  fixes inv :: "'s \<Rightarrow> bool"
    and regs :: "'s \<Rightarrow> u32 \<Rightarrow> irl_vector_elem list"
    and room :: "'s \<Rightarrow> nat"
    and may :: "u32 \<Rightarrow> u32 \<Rightarrow> bool"
    and request :: "u32 \<Rightarrow> int \<Rightarrow> u32 \<Rightarrow> u32 \<Rightarrow> 's \<Rightarrow> (int \<times> 's) option"
    and free :: "u32 \<Rightarrow> u32 \<Rightarrow> u32 \<Rightarrow> 's \<Rightarrow> (int \<times> 's) option"
  assumes request_law: "inv s \<Longrightarrow> may i h \<Longrightarrow> 0 < room s \<Longrightarrow>
      \<exists>s'. request i pr h d s = Some (0, s') \<and> inv s' \<and> room s = Suc (room s')
        \<and> (\<forall>j h'. may j h' \<longrightarrow> regs s' j = (if j = i then regs s j @ [req_elem i pr h d] else regs s j))"
    and free_law: "inv s \<Longrightarrow> may i h \<Longrightarrow>
      \<exists>s'. free i h d s = Some (0, s') \<and> inv s' \<and> room s' + length (regs s' i) = room s + length (regs s i)
        \<and> (\<forall>j h'. may j h' \<longrightarrow> regs s' j = (if j = i then kept_regs h d (regs s j) else regs s j))"
begin

text \<open>A request that is released again leaves no trace, when the function was not registered with the data before.\<close>

lemma request_free:
  assumes "inv s" "may i h" "0 < room s" "\<forall>e \<in> set (regs s i). \<not> hit h d e"
  shows "\<exists>s1 s2. request i pr h d s = Some (0, s1) \<and> free i h d s1 = Some (0, s2) \<and> inv s2 \<and> room s2 = room s
     \<and> regs s1 i = regs s i @ [req_elem i pr h d] \<and> (\<forall>j h'. may j h' \<longrightarrow> regs s2 j = regs s j)"
proof -
  from request_law [OF assms(1-3)] obtain s1 where s1: "request i pr h d s = Some (0, s1)" "inv s1" "room s = Suc (room s1)"
    "\<And>j h'. may j h' \<Longrightarrow> regs s1 j = (if j = i then regs s j @ [req_elem i pr h d] else regs s j)" by metis
  from free_law [OF s1(2) assms(2)] obtain s2 where s2: "free i h d s1 = Some (0, s2)" "inv s2"
    "room s2 + length (regs s2 i) = room s1 + length (regs s1 i)"
    "\<And>j h'. may j h' \<Longrightarrow> regs s2 j = (if j = i then kept_regs h d (regs s1 j) else regs s1 j)" by metis
  have r1: "regs s1 i = regs s i @ [req_elem i pr h d]" using s1(4) [OF assms(2)] by simp
  have "hit h d (req_elem i pr h d)" by (simp add: hit_def req_elem_def)
  with assms(4) have k: "kept_regs h d (regs s1 i) = regs s i" by (simp add: r1)
  then have "regs s2 i = regs s i" using s2(4) [OF assms(2)] by simp
  with s2(3) r1 s1(3) have "room s2 = room s" by simp
  moreover have "regs s2 j = regs s j" if "may j h'" for j h'
    using s1(4) [OF that] s2(4) [OF that] k by (simp split: if_splits)
  ultimately show ?thesis using s1(1) s2(1,2) r1 by blast
qed

end

definition irq_ready :: "'w irq_env \<Rightarrow> 'w irqs \<Rightarrow> bool" where
  "irq_ready E S \<longleftrightarrow> irq_ok E S \<and> irq_ctrl S = Some leon_irq"

definition may_register :: "'w irq_env \<Rightarrow> u32 \<Rightarrow> u32 \<Rightarrow> bool" where
  "may_register E irq handler \<longleftrightarrow> irq < 32 \<and> handler \<noteq> 0 \<and> handler \<noteq> e_eirq_fn E"

lemma irq_less_32: "irq < 32 \<longleftrightarrow> unat irq < EIRL_SIZE" for irq :: u32
  by (simp add: word_less_nat_alt)

lemma irq_request_correct:
  assumes "irq_ready E S" "may_register E irq handler" "irl_pool_head S = p # pool"
  obtains S' where "irq_request E irq priority handler data S = Some (0, S')" "irq_ready E S'" "irl_pool_head S' = pool"
    "\<And>j. j < 32 \<Longrightarrow> registered S' j = (if j = irq then registered S j @ [req_elem irq priority handler data] else registered S j)"
    "unmasked S' irq (irq_cpu_affinity S' ! unat irq)"
    "irl_queue_head S' = irl_queue_head S" "irq_queue_pool_head S' = irq_queue_pool_head S" "irq_world S' = irq_world S"
proof -
  from assms obtain S' where S': "enable_irq E irq priority handler data S = Some (0, S')" "irq_ok E S'"
    "unmasked S' irq (irq_cpu_affinity S' ! unat irq)"
    "\<And>j. unat j < EIRL_SIZE \<Longrightarrow> registered S' j = (if j = irq then registered S j @ [req_elem irq priority handler data] else registered S j)"
    "irl_pool_head S' = pool" "irq_ctrl S' = irq_ctrl S" "irl_queue_head S' = irl_queue_head S" "irq_queue_pool_head S' = irq_queue_pool_head S"
    "irq_world S' = irq_world S"
    using enable_correct [of E S p pool handler irq priority data] by (auto simp: irq_ready_def may_register_def irq_less_32)
  then show thesis using that [of S'] assms(1) by (simp add: irq_request_def irq_ready_def leon_irq_def irq_less_32)
qed

lemma irq_free_correct:
  assumes "irq_ready E S" "irq < 32"
  obtains S' where "irq_free E irq handler data S = Some (0, S')" "irq_ready E S'"
    "\<And>j. j < 32 \<Longrightarrow> registered S' j = (if j = irq then kept_regs handler data (registered S j) else registered S j)"
    "length (irl_pool_head S') + length (registered S' irq) = length (irl_pool_head S) + length (registered S irq)"
    "irl_queue_head S' = irl_queue_head S" "irq_queue_pool_head S' = irq_queue_pool_head S" "irq_world S' = irq_world S"
proof -
  from assms obtain S' where S': "disable_irq E irq handler data S = Some S'" "irq_ok E S'"
    "\<And>j. unat j < EIRL_SIZE \<Longrightarrow> registered S' j = (if j = irq then kept_regs handler data (registered S j) else registered S j)"
    "length (irl_pool_head S') + length (registered S' irq) = length (irl_pool_head S) + length (registered S irq)"
    "irq_ctrl S' = irq_ctrl S" "irl_queue_head S' = irl_queue_head S" "irq_queue_pool_head S' = irq_queue_pool_head S"
    "irq_world S' = irq_world S"
    using disable_correct [of E S irq handler data] by (auto simp: irq_ready_def irq_less_32)
  then show thesis using that [of S'] assms(1) by (simp add: irq_free_def irq_ready_def leon_irq_def irq_less_32)
qed

interpretation leon: handler_table "irq_ready E" registered "\<lambda>S. length (irl_pool_head S)" "may_register E" "irq_request E" "irq_free E"
  for E :: "'w irq_env"
proof unfold_locales
  fix S :: "'w irqs" and irq handler :: u32 and priority data
  assume a: "irq_ready E S" "may_register E irq handler"
  show "\<exists>S'. irq_free E irq handler data S = Some (0, S') \<and> irq_ready E S'
      \<and> length (irl_pool_head S') + length (registered S' irq) = length (irl_pool_head S) + length (registered S irq)
      \<and> (\<forall>j h'. may_register E j h' \<longrightarrow> registered S' j = (if j = irq then kept_regs handler data (registered S j) else registered S j))"
    using irq_free_correct [OF a(1), of irq handler data] a(2) unfolding may_register_def by metis
  assume "0 < length (irl_pool_head S)"
  then obtain p pool where p: "irl_pool_head S = p # pool" by (cases "irl_pool_head S") auto
  show "\<exists>S'. irq_request E irq priority handler data S = Some (0, S') \<and> irq_ready E S'
      \<and> length (irl_pool_head S) = Suc (length (irl_pool_head S'))
      \<and> (\<forall>j h'. may_register E j h' \<longrightarrow> registered S' j =
          (if j = irq then registered S j @ [req_elem irq priority handler data] else registered S j))"
    by (rule irq_request_correct [OF a p, of priority data]) (auto simp: p may_register_def)
qed

text \<open>C23: requests and releases act on a table of handlers.  In a state of the invariant with a free element a request for a line
  below 32 returns 0 and appends the handler to those of its line; its release returns 0 and restores all lines and
  the number of free elements, unless the function was registered for the line with the same data before.\<close>

theorem irq_request_free:
  assumes "irq_ready E S" and "may_register E irq handler" and "irl_pool_head S \<noteq> []"
    and "\<forall>e \<in> set (registered S irq). \<not> hit handler data e"
  shows "\<exists>S1 S2. irq_request E irq priority handler data S = Some (0, S1) \<and> irq_free E irq handler data S1 = Some (0, S2)
     \<and> registered S1 irq = registered S irq @ [req_elem irq priority handler data]
     \<and> irq_ready E S2 \<and> length (irl_pool_head S2) = length (irl_pool_head S)
     \<and> (\<forall>j < 32. registered S2 j = registered S j)"
proof -
  have "0 < length (irl_pool_head S)" using assms(3) by simp
  from leon.request_free [OF assms(1,2) this assms(4), of priority] assms(2) show ?thesis unfolding may_register_def by blast
qed

section \<open>Safety\<close>

lemma restore_irl_keeps:
  assumes "eirq_ends E" "irq_ok E S" "i < IRL_SIZE"
  shows "irq_keeps lines_core E S (restore_irl E now i S)"
proof (cases "irq_blocked S ! i = 0 \<or> ktime_to_us (ktime_delta now (last_irq S ! i)) < CONFIG_IRQ_MIN_INTER_US")
  case True
  then show ?thesis using assms(2,3) irq_okD [OF assms(2)] by (auto simp: restore_irl_def irq_keeps_def)
next
  case False
  have i: "unat (of_nat i :: u32) = i" using assms(3) by (simp add: unat_of_nat)
  from irl_walk_keeps [OF assms, of "of_nat i"] assms(3) i obtain T where T: "isr_walk (irl_isr E (of_nat i)) (irl_vector S ! i) S = Some T" "irq_ok E T" "lines_same S T"
    by (auto elim: keeps_obtain)
  have b: "irq_blocked T ! i \<in> {1, 2}"
  proof -
    have "irq_blocked T ! i \<noteq> 0" using False T(3) by (simp add: lines_same_def)
    moreover have "irq_blocked T ! i \<in> set (irq_blocked T)" using irq_okD(7) [OF T(2)] assms(3) by simp
    ultimately show ?thesis using T(2) by (auto simp: irq_ok_def irq_cpus_def)
  qed
  then have "uint (irq_blocked T ! i) - 1 \<in> {0, 1}" by auto
  moreover have "(of_nat i :: u32) < 32" using i assms(3) by (simp add: word_less_nat_alt)
  ultimately obtain U where U: "leon_unmask_irq (of_nat i) (uint (irq_blocked T ! i) - 1) T = Some U" "irq_ok E U" "ctrl_only T U"
    using mask_keeps(2) [OF T(2)] by (metis keeps_obtain)
  have "lines_core S (U\<lparr>irq_blocked := (irq_blocked U)[i := 0], need_restore := need_restore U - 1\<rparr>)"
    using T(3) U(3) by (simp add: lines_same_def lines_core_def ctrl_only_def)
  moreover have "restore_irl E now i S = Some (U\<lparr>irq_blocked := (irq_blocked U)[i := 0], need_restore := need_restore U - 1\<rparr>)"
    using False T(1) U(1) assms(3) irq_okD [OF assms(2)] irq_okD [OF T(2)] by (simp add: restore_irl_def)
  ultimately show ?thesis using blocked_ok(1) [OF U(2), of 0] by (simp add: irq_keeps_def)
qed

lemma eirl_walk_lines:
  assumes "irq_ok E S" "i < EIRL_SIZE"
  shows "irq_keeps lines_same E S (isr_walk (irl_isr E irq) (eirl_vector S ! i) S)"
proof (rule isr_walk_keeps [OF assms(1)])
  have in_line: "p \<in> set (concat (eirl_vector S))" if "p \<in> set (eirl_vector S ! i)" for p
    using that assms irq_okD(3) [OF assms(1)] by (auto intro: nth_mem)
  have plain: "plain_elem E S p" if "p \<in> set (eirl_vector S ! i)" for p
    using in_line [OF that] assms(1) by (auto simp: irq_ok_def irq_handlers_def plain_elem_def)
  fix p assume p: "p \<in> set (eirl_vector S ! i)"
  show less: "p < IRL_POOL_SIZE" using line_elem_less [OF assms(1)] in_line [OF p] by blast
  show "plain_elem E S p" by (rule plain [OF p])
  fix T assume T: "irq_ok E T" "lines_same S T"
  have pT: "plain_elem E T p" using plain [OF p] T(2) less by (simp add: plain_elem_def lines_same_def)
  with ext_isr_keeps [OF T(1) this, of irq] show "irq_keeps lines_same E T (map_option snd (irl_isr E irq p T))"
    by (auto simp: irl_isr_def plain_elem_def irq_keeps_def walk_same_def)
qed (auto intro: lines_same_trans simp: walk_same_def)

lemma restore_eirl_keeps:
  assumes "irq_ok E S" "i < EIRL_SIZE"
  shows "irq_keeps lines_core E S (restore_eirl E now i S)"
proof (cases "eirq_blocked S ! i = 0 \<or> ktime_to_us (ktime_delta now (last_eirq S ! i)) < CONFIG_IRQ_MIN_INTER_US")
  case True
  then show ?thesis using assms irq_okD [OF assms(1)] by (auto simp: restore_eirl_def irq_keeps_def)
next
  case False
  have i: "(of_nat i :: u32) < 32" using assms(2) by (simp add: unat_of_nat word_less_nat_alt)
  from eirl_walk_lines [OF assms, of "of_nat i"] obtain T where T: "isr_walk (irl_isr E (of_nat i)) (eirl_vector S ! i) S = Some T" "irq_ok E T" "lines_same S T"
    by (rule keeps_obtain)
  have b: "eirq_blocked T ! i \<in> {1, 2}"
  proof -
    have "eirq_blocked T ! i \<noteq> 0" using False T(3) by (simp add: lines_same_def)
    moreover have "eirq_blocked T ! i \<in> set (eirq_blocked T)" using irq_okD(8) [OF T(2)] assms(2) by simp
    ultimately show ?thesis using T(2) by (auto simp: irq_ok_def irq_cpus_def)
  qed
  then have "uint (eirq_blocked T ! i) - 1 \<in> {0, 1}" by auto
  with i obtain U where U: "leon_unmask_irq (of_nat i) (uint (eirq_blocked T ! i) - 1) T = Some U" "irq_ok E U" "ctrl_only T U"
    using mask_keeps(2) [OF T(2)] by (metis keeps_obtain)
  have "lines_core S (U\<lparr>eirq_blocked := (eirq_blocked U)[i := 0], need_restore := need_restore U - 1\<rparr>)"
    using T(3) U(3) by (simp add: lines_same_def lines_core_def ctrl_only_def)
  moreover have "restore_eirl E now i S = Some (U\<lparr>eirq_blocked := (eirq_blocked U)[i := 0], need_restore := need_restore U - 1\<rparr>)"
    using False T(1) U(1) assms(2) irq_okD [OF assms(1)] irq_okD [OF T(2)] by (simp add: restore_eirl_def)
  ultimately show ?thesis using blocked_ok(2) [OF U(2), of 0] by (simp add: irq_keeps_def)
qed

lemma prot_restore_keeps:
  assumes "eirq_ends E" "irq_ok E S"
  shows "irq_keeps lines_core E S (leon_irq_prot_restore E S)"
proof (cases "need_restore S = 0")
  case True
  then show ?thesis using assms(2) by (simp add: leon_irq_prot_restore_def irq_keeps_def)
next
  case False
  let ?S = "S\<lparr>n_clk := n_clk S + 1\<rparr>" and ?now = "e_clk E (n_clk S)"
  have ok: "irq_ok E ?S" "lines_core S ?S" using clk_keeps(1,2) [OF assms(2)] by (simp_all add: ctrl_only_def lines_same_core)
  have "irq_keeps lines_core E ?S (over (restore_irl E ?now) [0 ..< IRL_SIZE] ?S)"
    by (rule over_keeps [OF ok(1)]) (auto intro: restore_irl_keeps [OF assms(1)] lines_core_trans)
  then obtain T where T: "over (restore_irl E ?now) [0 ..< IRL_SIZE] ?S = Some T" "irq_ok E T" "lines_core ?S T" by (rule keeps_obtain)
  have "irq_keeps lines_core E T (over (restore_eirl E ?now) [0 ..< EIRL_SIZE] T)"
    by (rule over_keeps [OF T(2)]) (auto intro: restore_eirl_keeps lines_core_trans)
  then obtain U where U: "over (restore_eirl E ?now) [0 ..< EIRL_SIZE] T = Some U" "irq_ok E U" "lines_core T U" by (rule keeps_obtain)
  have "leon_irq_prot_restore E S = do { S \<leftarrow> over (restore_irl E ?now) [0 ..< IRL_SIZE] ?S; over (restore_eirl E ?now) [0 ..< EIRL_SIZE] S }"
    using False by (simp only: leon_irq_prot_restore_def clk_get_def Let_def case_prod_conv if_False)
  also have "\<dots> = Some U" using T(1) U(1) by (simp only: bind.bind_lunit)
  finally show ?thesis using U(2) lines_core_trans [OF ok(2) lines_core_trans [OF T(3) U(3)]] by (simp add: irq_keeps_def)
qed

lemma set_affinity_keeps:
  assumes "irq_ok E S" "irq < 32" "cpu \<in> {0, 1}"
  obtains S' where "set_affinity E irq cpu S = Some S'" "irq_ok E S'" "lists_same S S'"
    "irq_cpu_affinity S' ! unat irq = cpu" "irq_cpu_affinity S ! unat irq \<noteq> cpu \<longrightarrow> unmasked S' irq cpu"
proof -
  let ?a = "irq_cpu_affinity S ! unat irq"
  have len: "unat irq < length (irq_cpu_affinity S)" using irq_okD(4) [OF assms(1)] assms(2) by (simp add: irq_less_32)
  have a: "?a \<in> {- 1, 0, 1}" using aff_cpu [OF assms(1)] assms(2) by (simp add: irq_less_32)
  define r where "r = (if ?a \<noteq> - 1 then leon_mask_irq irq ?a S else Some S)"
  have "irq_keeps ctrl_only E S r" using mask_keeps(1) [OF assms(1,2), of ?a] a assms(1) by (auto simp: r_def irq_keeps_def)
  then obtain T where T: "r = Some T" "irq_ok E T" "ctrl_only S T" by (rule keeps_obtain)
  from enable_keeps(1) [OF T(2) assms(2,3)] obtain U where U: "leon_enable_irq E irq cpu T = Some U" "irq_ok E U" "ctrl_only T U"
    by (rule keeps_obtain)
  let ?U = "U\<lparr>irq_cpu_affinity := (irq_cpu_affinity U)[unat irq := cpu]\<rparr>"
  show thesis
  proof (cases "?a = cpu")
    case True
    then show thesis using that [of S] len assms(1) by (simp add: set_affinity_def)
  next
    case False
    have "set_affinity E irq cpu S = Some ?U" using False len T(1) U(1) by (simp add: set_affinity_def r_def [symmetric])
    moreover have "irq_ok E ?U" by (rule irq_ok_aff [OF U(2)]) (use assms(3) in auto)
    moreover have "lists_same S ?U" using lists_same_trans [OF ctrl_lists [OF T(3)] ctrl_lists [OF U(3)]] by (simp add: lists_same_def)
    moreover have "unmasked ?U irq cpu" using enable_unmasks(1) [OF T(2) assms(2,3) U(1)] by (simp add: unmasked_def)
    moreover have "irq_cpu_affinity ?U ! unat irq = cpu" using irq_okD(4) [OF U(2)] assms(2) by (simp add: irq_less_32)
    ultimately show thesis using that by blast
  qed
qed

text \<open>The state after the initialisation of the lists.\<close>

lemma init_lists_ok:
  assumes "e_cpu E \<in> {0, 1}"
  shows "irq_ok E (snd (irq_dispatch_init (True, True, True, True) (irq_init (Some leon_irq) ((irq_boot w)\<lparr>irq_mpmask := [0, 0]\<rparr>))))"
proof -
  have c: "concat (replicate n []) = []" for n by (induction n) simp_all
  have s: "set (replicate n x) \<subseteq> {x}" for n and x :: 'z by (induction n) simp_all
  show ?thesis
    using assms s [of IRL_SIZE "0::u8"] s [of EIRL_SIZE "0::u8"] s [of "IRL_SIZE + EIRL_SIZE" "- 1 :: int"]
    unfolding irq_ok_def irq_lists_def irq_sizes_def irq_handlers_def irq_cpus_def irq_dispatch_init_def irq_init_def irq_boot_def irl_ids_def queue_ids_def
    by (simp add: c del: upt_rec_numeral upt_Suc mset_upt)
qed

lemma init_result [simp]: "fst (irq_dispatch_init (True, True, True, True) X) = 0"
  by (simp add: irq_dispatch_init_def)

lemma init_ready:
  assumes "e_cpu E \<in> {0, 1}" "e_eirq_fn E \<noteq> 0" "drop_bit 16 mp_status AND 0xf \<noteq> (0 :: u32)"
  obtains S where "leon_irq_init E (True, True, True, True) mp_status (irq_boot w) = Some S" "irq_ready E S"
proof -
  let ?I = "snd (irq_dispatch_init (True, True, True, True) (irq_init (Some leon_irq) ((irq_boot w)\<lparr>irq_mpmask := [0, 0]\<rparr>)))"
  let ?eirq = "drop_bit 16 mp_status AND 0xf" and ?e = "req_elem (drop_bit 16 mp_status AND 0xf) 0 (e_eirq_fn E) 0"
  let ?S = "?I\<lparr>leon_eirq := ?eirq\<rparr>"
  have ok: "irq_ok E ?S" using init_lists_ok [OF assms(1), of w]
    by (simp add: irq_ok_def irq_lists_def irq_sizes_def irq_handlers_def irq_cpus_def)
  have "?eirq = take_bit 4 (drop_bit 16 mp_status)" by (simp add: take_bit_eq_mask mask_eq_exp_minus_1)
  then have i: "unat ?eirq < IRL_SIZE" using take_bit_nat_less_exp [of 4 "unat (drop_bit 16 mp_status)"] by (simp add: unsigned_take_bit_eq)
  then have i32: "?eirq < 32" "unat ?eirq < EIRL_SIZE" by (simp_all add: word_less_nat_alt)
  have p: "irl_pool_head ?S = 0 # [1 ..< IRL_POOL_SIZE]"
    by (simp add: irq_dispatch_init_def upt_conv_Cons del: upt_rec_numeral upt_Suc)
  let ?T = "add_irl 0 [1 ..< IRL_POOL_SIZE] (unat ?eirq) ?e ?S"
  have T: "irq_ok E ?T" by (rule add_ok(1) [OF ok p]) (use i assms(2) in \<open>simp_all add: req_elem_def\<close>)
  from affinity_default [OF T i32(2)] obtain U where U: "set_affinity_default E ?eirq ?T = Some U" "irq_ok E U" "lists_same ?T U" .
  from enable_keeps(1) [OF U(2) i32(1), of 0] obtain V where V: "leon_enable_irq E ?eirq 0 U = Some V" "irq_ok E V" "ctrl_only U V"
    by (auto elim: keeps_obtain)
  from enable_keeps(1) [OF V(2) i32(1), of 1] obtain W where W: "leon_enable_irq E ?eirq 1 V = Some W" "irq_ok E W" "ctrl_only V W"
    by (auto elim: keeps_obtain)
  have r: "irl_register_handler E ?eirq 0 (e_eirq_fn E) 0 ?S = Some (0, U)"
    using irl_register_eq [OF ok p assms(2) i, of 0 0] U(1) by simp
  have "leon_setup_eirq E mp_status ?I = Some W" using assms(3) i r V(1) W(1) by (simp add: leon_setup_eirq_def Let_def)
  moreover have "leon_irq_init E (True, True, True, True) mp_status (irq_boot w) = leon_setup_eirq E mp_status ?I"
  proof -
    have m: "upd_at (irq_mpmask (irq_boot w)) c 0 = Some [0, 0]" if "c < 2" for c
      using that by (cases c) (auto simp: irq_boot_def upd_at_def numeral_2_eq_2)
    have "\<exists>c. cpu_ix (e_cpu E) = Some c \<and> c < 2" using assms(1) by (auto simp: cpu_ix_def)
    then obtain c where c: "cpu_ix (e_cpu E) = Some c" "c < 2" by blast
    show ?thesis using c m [OF c(2)] by (simp add: leon_irq_init_def case_prod_beta upd_at_def Let_def)
  qed
  moreover have "irq_ctrl W = Some leon_irq"
    using U(3) V(3) W(3) by (simp add: ctrl_only_def lines_same_def lists_same_def add_irl_def irq_dispatch_init_def irq_init_def)
  ultimately show thesis using that W(2) by (simp add: irq_ready_def)
qed

section \<open>Sequences of operations\<close>

text \<open>What drivers, the trap of a primary interrupt and the thread of the rate protection do.\<close>

datatype irq_op = Request u32 int u32 u32 | Free u32 u32 u32 | Interrupt u32 | Exec_Deferred | Affinity u32 int | Restore

fun irq_do :: "'w irq_env \<Rightarrow> irq_op \<Rightarrow> 'w irqs \<Rightarrow> 'w irqs option" where
  "irq_do E (Request irq priority handler data) S = map_option snd (irq_request E irq priority handler data S)"
| "irq_do E (Free irq handler data) S = map_option snd (irq_free E irq handler data S)"
| "irq_do E (Interrupt irq) S = leon_irq_dispatch E irq S"
| "irq_do E Exec_Deferred S = map_option snd (irq_exec_deferred E S)"
| "irq_do E (Affinity irq cpu) S = map_option snd (irq_set_affinity E irq cpu S)"
| "irq_do E Restore S = leon_irq_prot_restore E S"

fun irq_run :: "'w irq_env \<Rightarrow> irq_op list \<Rightarrow> 'w irqs \<Rightarrow> 'w irqs option" where
  "irq_run E [] S = Some S"
| "irq_run E (x # xs) S = do { S \<leftarrow> irq_do E x S; irq_run E xs S }"

text \<open>Lines that exist and a processor that exists; a driver does not know \<^verbatim>\<open>leon_eirq_dispatch\<close>.\<close>

fun irq_op_valid :: "'w irq_env \<Rightarrow> irq_op \<Rightarrow> bool" where
  "irq_op_valid E (Request irq priority handler data) \<longleftrightarrow> irq < 32 \<and> handler \<noteq> e_eirq_fn E"
| "irq_op_valid E (Free irq handler data) \<longleftrightarrow> irq < 32"
| "irq_op_valid E (Interrupt irq) \<longleftrightarrow> irq < 16"
| "irq_op_valid E (Affinity irq cpu) \<longleftrightarrow> irq < 32 \<and> cpu \<in> {0, 1}"
| "irq_op_valid E _ \<longleftrightarrow> True"

lemma irq_do_ready:
  assumes "eirq_ends E" "irq_ready E S" "irq_op_valid E x"
  shows "\<exists>S'. irq_do E x S = Some S' \<and> irq_ready E S'"
proof -
  have ok: "irq_ok E S" "irq_ctrl S = Some leon_irq" using assms(2) by (simp_all add: irq_ready_def)
  have k: "\<exists>S'. r = Some S' \<and> irq_ready E S'" if "irq_keeps lines_core E S r" for r
    using that ok by (auto simp: irq_keeps_def irq_ready_def lines_core_def)
  have core: "irq_keeps lines_core E S r" if "irq_keeps lines_same E S r" for r using that lines_same_core by (auto simp: irq_keeps_def)
  show ?thesis
  proof (cases x)
    case (Request irq priority handler data)
    show ?thesis
    proof (cases "handler = 0 \<or> irl_pool_head S = []")
      case True
      then have "irq_do E x S = Some S" using Request assms(3) ok(2)
        by (auto simp: irq_request_def leon_irq_def enable_irq_def irl_register_handler_def eirl_register_handler_def irq_less_32 split: list.splits)
      with assms(2) show ?thesis by simp
    next
      case False
      then obtain p pool where "irl_pool_head S = p # pool" by (cases "irl_pool_head S") auto
      moreover have "may_register E irq handler" using False Request assms(3) by (simp add: may_register_def)
      ultimately obtain S' where "irq_request E irq priority handler data S = Some (0, S')" "irq_ready E S'"
        using irq_request_correct [OF assms(2)] by metis
      with Request show ?thesis by simp
    qed
  next
    case (Free irq handler data)
    then show ?thesis using irq_free_correct [OF assms(2), of irq handler data] assms(3) by fastforce
  next
    case (Interrupt irq)
    then show ?thesis using k [OF core [OF dispatch_keeps [OF assms(1) ok(1), of irq]]] assms(3) by (simp add: word_less_nat_alt)
  next
    case Exec_Deferred
    then show ?thesis using k [OF core [OF execute_keeps [OF ok(1)]]] ok(2)
      by (simp add: irq_exec_deferred_def leon_irq_def option.map_comp comp_def option.map_ident)
  next
    case (Affinity irq cpu)
    with assms(3) obtain S' where "set_affinity E irq cpu S = Some S'" "irq_ok E S'" "lists_same S S'"
      using set_affinity_keeps [OF ok(1), of irq cpu] by auto
    with Affinity ok(2) show ?thesis by (simp add: irq_set_affinity_def leon_irq_def irq_ready_def lists_same_def)
  next
    case Restore
    then show ?thesis using k [OF prot_restore_keeps [OF assms(1) ok(1)]] by simp
  qed
qed

lemma irq_run_ready:
  assumes "eirq_ends E" "irq_ready E S" "\<forall>x \<in> set xs. irq_op_valid E x"
  shows "\<exists>S'. irq_run E xs S = Some S' \<and> irq_ready E S'"
  using assms(2,3)
proof (induction xs arbitrary: S)
  case (Cons x xs)
  from irq_do_ready [OF assms(1) Cons.prems(1)] Cons.prems(2) obtain T where "irq_do E x S = Some T" "irq_ready E T" by auto
  with Cons.IH [of T] Cons.prems(2) show ?case by simp
qed simp

text \<open>C16: after the initialisation every sequence of requests (of handlers other than the dispatcher of the
  extended interrupts) and releases of existing lines, primary interrupts,
  executions of deferred handlers, changes of affinity and rounds of the rate protection returns and leaves no array, if the controller
  does not show a pending extended interrupt again and again.  All 64 elements for handlers are then in their pool or on
  exactly one line, and handlers on the lines are not null.  No element of the queue of deferred handlers is in two
  places; some may be in none, as \<^verbatim>\<open>irq_queue_drained\<close> of the theory Irq_Order shows.\<close>

theorem irq_run_safe:
  assumes "e_cpu E \<in> {0, 1}" and "e_eirq_fn E \<noteq> 0" and "drop_bit 16 mp_status AND 0xf \<noteq> (0 :: u32)" and "quiet E"
    and "\<forall>x \<in> set xs. irq_op_valid E x"
  shows "\<exists>S S'. leon_irq_init E (True, True, True, True) mp_status (irq_boot w) = Some S \<and> irq_run E xs S = Some S'
     \<and> mset (irl_pool_head S' @ concat (irl_vector S') @ concat (eirl_vector S')) = mset irl_ids
     \<and> mset (irl_queue_head S' @ irq_queue_pool_head S') \<subseteq># mset queue_ids
     \<and> (\<forall>j < 32. \<forall>e \<in> set (registered S' j). ie_handler e \<noteq> 0)"
proof -
  from init_ready [OF assms(1-3)] obtain S where S: "leon_irq_init E (True, True, True, True) mp_status (irq_boot w) = Some S" "irq_ready E S" .
  from irq_run_ready [OF quiet_ends [OF assms(4)] S(2) assms(5)] obtain S' where S': "irq_run E xs S = Some S'" "irq_ok E S'"
    by (auto simp: irq_ready_def)
  have "ie_handler e \<noteq> 0" if "j < 32" "e \<in> set (registered S' j)" for j e
  proof -
    from that(2) obtain p where p: "e = irl_elem S' p" "p \<in> set (line_of S' j)" by (auto simp: registered_def)
    then have "p \<in> set (concat (irl_vector S')) \<or> p \<in> set (concat (eirl_vector S'))"
      using that(1) irq_okD(2,3) [OF S'(2)] nth_in_concat [of "unat j" "irl_vector S'" p] nth_in_concat [of "unat j" "eirl_vector S'" p]
      by (auto simp: line_of_def irq_less_32 simp del: set_concat split: if_splits)
    with p(1) S'(2) show ?thesis by (auto simp: irq_ok_def irq_handlers_def simp del: set_concat)
  qed
  with S(1) S' show ?thesis unfolding irq_ok_def irq_lists_def by blast
qed

text \<open>An environment for examples: handlers are counted, and say that the interrupt was theirs when their data is not 0.\<close>

definition demo_env :: "nat irq_env" where
  "demo_env = \<lparr>e_call = (\<lambda>f irq data n. (data \<noteq> 0, n + 1)), e_eirq_fn = 0x9000, e_cpu = 0, e_clk = (\<lambda>n. 1000000 * (int n + 1)),
     e_id = (\<lambda>_. 0), e_pend = (\<lambda>_. 0)\<rparr>"

theorem irq_run_safe_witness:
  "\<exists>S S'. leon_irq_init demo_env (True, True, True, True) 0xa0000 (irq_boot 0) = Some S
     \<and> irq_run demo_env [Request 3 0 0x100 7, Interrupt 3, Free 3 0x100 7] S = Some S'
     \<and> mset (irl_pool_head S' @ concat (irl_vector S') @ concat (eirl_vector S')) = mset irl_ids"
proof -
  have "quiet demo_env" by (auto simp: quiet_def demo_env_def)
  then show ?thesis
    using irq_run_safe [of demo_env "0xa0000" "[Request 3 0 0x100 7, Interrupt 3, Free 3 0x100 7]" 0] by (auto simp: demo_env_def)
qed

end
