(* ===== verification/Irq_Order.thy ===== *)
theory Irq_Order
  imports Irq_Spec
begin

text \<open>
  In which order the handlers of a line are called, when deferred ones are, and where the rate protection and the queue
  fail.
\<close>

section \<open>The handlers of a line\<close>

definition now_elem :: "irl_vector_elem \<Rightarrow> bool" where
  "now_elem e \<longleftrightarrow> ie_priority e = ISR_PRIORITY_NOW"

definition plain_line :: "'w irq_env \<Rightarrow> irl_vector_elem list \<Rightarrow> bool" where
  "plain_line E es \<longleftrightarrow> (\<forall>e \<in> set es. ie_handler e \<noteq> 0 \<and> ie_handler e \<noteq> e_eirq_fn E)"

text \<open>The effect of calling a handler with a number, and of calling a list of queued handlers.\<close>

definition call_elem :: "'w irq_env \<Rightarrow> u32 \<Rightarrow> irl_vector_elem \<Rightarrow> 'w \<Rightarrow> 'w" where
  "call_elem E irq e w = snd (e_call E (ie_handler e) irq (ie_data e) w)"

definition queued_elems :: "'w irqs \<Rightarrow> irl_vector_elem list" where
  "queued_elems S = map (irl_elem S) (irl_queue_head S)"

lemma distinct_queue:
  assumes "irq_ok E S"
  shows "distinct (irl_queue_head S @ irq_queue_pool_head S)"
proof -
  have sub: "mset (irl_queue_head S @ irq_queue_pool_head S) \<subseteq># mset queue_ids" using assms by (simp only: irq_ok_def irq_lists_def)
  have "distinct queue_ids" by (simp only: queue_ids_def distinct_upt)
  with sub show ?thesis
    by (metis distinct_append ex_mset mset_append mset_eq_imp_distinct_iff subset_mset.less_eqE)
qed

lemma queue_push:
  assumes "irq_ok E S" "irq_queue_pool_head S = q # pool"
  shows "queued_elems (snd (leon_irq_queue p S)) = queued_elems S @ [irl_elem S p]" "irq_queue_pool_head (snd (leon_irq_queue p S)) = pool"
    "irq_world (snd (leon_irq_queue p S)) = irq_world S" "fst (leon_irq_queue p S) = 0"
proof -
  have "q \<notin> set (irl_queue_head S)" using distinct_queue [OF assms(1)] assms(2) by auto
  then show "queued_elems (snd (leon_irq_queue p S)) = queued_elems S @ [irl_elem S p]" "irq_queue_pool_head (snd (leon_irq_queue p S)) = pool"
    "irq_world (snd (leon_irq_queue p S)) = irq_world S" "fst (leon_irq_queue p S) = 0"
    using assms(2) by (auto simp: leon_irq_queue_def queued_elems_def)
qed

definition ctrl_same :: "'w irqs \<Rightarrow> 'w irqs \<Rightarrow> bool" where
  "ctrl_same S S' \<longleftrightarrow> walk_same S S' \<and> irq_mpmask S' = irq_mpmask S \<and> irq_blocked S' = irq_blocked S \<and> need_restore S' = need_restore S"

lemma isr_walk_order:
  assumes "irq_ok E S" "\<forall>p \<in> set ps. p < IRL_POOL_SIZE" "plain_line E (map (irl_elem S) ps)"
    "length (filter (\<lambda>e. \<not> now_elem e) (map (irl_elem S) ps)) \<le> length (irq_queue_pool_head S)"
  shows "\<exists>S'. isr_walk (irl_isr E irq) ps S = Some S' \<and> irq_ok E S' \<and> ctrl_same S S'
     \<and> irq_world S' = fold (call_elem E irq) (filter now_elem (map (irl_elem S) ps)) (irq_world S)
     \<and> queued_elems S' = queued_elems S @ filter (\<lambda>e. \<not> now_elem e) (map (irl_elem S) ps)
     \<and> length (irq_queue_pool_head S') + length (filter (\<lambda>e. \<not> now_elem e) (map (irl_elem S) ps)) = length (irq_queue_pool_head S)"
  using assms
proof (induction ps arbitrary: S)
  case Nil
  then show ?case by (simp add: ctrl_same_def)
next
  case (Cons p ps)
  let ?e = "irl_elem S p"
  have plain: "plain_elem E S p" using Cons.prems(3) by (simp add: plain_line_def plain_elem_def)
  obtain T where T: "isr_body (irl_isr E irq) p S = Some T" "irq_ok E T" "ctrl_same S T"
    "irq_world T = (if now_elem ?e then call_elem E irq ?e (irq_world S) else irq_world S)"
    "queued_elems T = (if now_elem ?e then queued_elems S else queued_elems S @ [?e])"
    "length (irq_queue_pool_head T) + (if now_elem ?e then 0 else 1) = length (irq_queue_pool_head S)"
  proof (cases "now_elem ?e")
    case True
    let ?T = "S\<lparr>irq_world := call_elem E irq ?e (irq_world S)\<rparr>"
    have "map_option snd (irl_isr E irq p S) = Some ?T"
      using plain by (simp add: irl_isr_def ext_isr_def plain_elem_def call_elem_def split: prod.splits)
    moreover have "irq_ok E ?T" using Cons.prems(1) by (simp add: irq_ok_def irq_lists_def irq_sizes_def irq_handlers_def irq_cpus_def)
    ultimately show thesis using that [of ?T] True by (simp add: isr_body_def now_elem_def ctrl_same_def walk_same_def lines_same_def queued_elems_def)
  next
    case False
    then obtain q pool where q: "irq_queue_pool_head S = q # pool" using Cons.prems(4) by (cases "irq_queue_pool_head S") auto
    note push = queue_push [OF Cons.prems(1) q, of p]
    from queue_keeps [OF Cons.prems(1) plain] have "irq_ok E (snd (leon_irq_queue p S))" "walk_same S (snd (leon_irq_queue p S))"
      by (auto simp: irq_keeps_def)
    moreover have "irq_mpmask (snd (leon_irq_queue p S)) = irq_mpmask S" "irq_blocked (snd (leon_irq_queue p S)) = irq_blocked S"
      "need_restore (snd (leon_irq_queue p S)) = need_restore S" using q by (simp_all add: leon_irq_queue_def)
    ultimately show thesis using that [of "snd (leon_irq_queue p S)"] False push q
      by (simp add: isr_body_def now_elem_def case_prod_beta ctrl_same_def)
  qed
  have same: "map (irl_elem T) ps = map (irl_elem S) ps"
    using T(3) Cons.prems(2) by (simp add: ctrl_same_def walk_same_def lines_same_def)
  have "plain_line E (map (irl_elem T) ps)" "\<forall>p \<in> set ps. p < IRL_POOL_SIZE"
    "length (filter (\<lambda>e. \<not> now_elem e) (map (irl_elem T) ps)) \<le> length (irq_queue_pool_head T)"
    using Cons.prems(2-4) T(6) unfolding same by (auto simp: plain_line_def split: if_splits)
  from Cons.IH [OF T(2) this(2,1,3)] obtain U where U: "isr_walk (irl_isr E irq) ps T = Some U" "irq_ok E U" "ctrl_same T U"
    "irq_world U = fold (call_elem E irq) (filter now_elem (map (irl_elem S) ps)) (irq_world T)"
    "queued_elems U = queued_elems T @ filter (\<lambda>e. \<not> now_elem e) (map (irl_elem S) ps)"
    "length (irq_queue_pool_head U) + length (filter (\<lambda>e. \<not> now_elem e) (map (irl_elem S) ps)) = length (irq_queue_pool_head T)"
    unfolding same by blast
  have "ctrl_same S U" using T(3) U(3) by (auto simp: ctrl_same_def intro: walk_same_trans)
  with T U show ?case by auto
qed

text \<open>The checks of the rate change neither the queue nor the world.\<close>

lemma rates_only:
  assumes "irq_ok E S" "unat irq < IRL_SIZE"
  obtains S' where "do { S \<leftarrow> leon_check_irq_rate E irq (e_cpu E) S; leon_check_irq_rate E irq 0 S } = Some S'" "irq_ok E S'" "ctrl_only S S'"
proof -
  from check_rate_keeps [OF assms irq_okD(1) [OF assms(1)]] obtain T where T: "leon_check_irq_rate E irq (e_cpu E) S = Some T" "irq_ok E T" "ctrl_only S T"
    by (rule keeps_obtain)
  from check_rate_keeps [OF T(2) assms(2), of 0] obtain U where U: "leon_check_irq_rate E irq 0 T = Some U" "irq_ok E U" "ctrl_only T U"
    by (auto elim: keeps_obtain)
  with that T ctrl_only_trans [OF T(3) U(3)] show thesis by simp
qed

lemma dispatch_order:
  assumes "irq_ok E S" "irq < 16" "plain_line E (registered S irq)"
    "length (filter (\<lambda>e. \<not> now_elem e) (registered S irq)) \<le> length (irq_queue_pool_head S)"
  obtains S' where "leon_irq_dispatch E irq S = Some S'" "irq_ok E S'" "lines_same S S'"
    "irq_world S' = fold (call_elem E irq) (filter now_elem (registered S irq)) (irq_world S)"
    "queued_elems S' = queued_elems S @ filter (\<lambda>e. \<not> now_elem e) (registered S irq)"
    "length (irq_queue_pool_head S') + length (filter (\<lambda>e. \<not> now_elem e) (registered S irq)) = length (irq_queue_pool_head S)"
proof -
  have i: "unat irq < IRL_SIZE" using assms(2) by (simp add: word_less_nat_alt)
  from count_keeps [OF assms(1) i] obtain T where T: "irl_count irq S = Some T" "irq_ok E T" "lines_same S T" by (rule keeps_obtain)
  have eq: "irl_elem T = irl_elem S" "irl_queue_head T = irl_queue_head S" "irq_queue_pool_head T = irq_queue_pool_head S"
    "irq_world T = irq_world S" "irl_vector T = irl_vector S"
    using T(1) by (auto simp: irl_count_def bind_eq_Some_conv)
  let ?ps = "irl_vector T ! unat irq"
  have r: "map (irl_elem T) ?ps = registered S irq" using i by (simp add: registered_def line_of_def eq)
  have "p < IRL_POOL_SIZE" if "p \<in> set ?ps" for p
    using line_elem_less [OF T(2), of p] nth_in_concat [of "unat irq" "irl_vector T" p] that i irq_okD(2) [OF T(2)] by (simp del: set_concat)
  moreover have "queued_elems T = queued_elems S" by (simp add: queued_elems_def eq)
  moreover note isr_walk_order [OF T(2), of ?ps irq, unfolded r]
  ultimately obtain U where U: "isr_walk (irl_isr E irq) ?ps T = Some U" "irq_ok E U" "ctrl_same T U"
    "irq_world U = fold (call_elem E irq) (filter now_elem (registered S irq)) (irq_world S)"
    "queued_elems U = queued_elems S @ filter (\<lambda>e. \<not> now_elem e) (registered S irq)"
    "length (irq_queue_pool_head U) + length (filter (\<lambda>e. \<not> now_elem e) (registered S irq)) = length (irq_queue_pool_head S)"
    using assms(3,4) eq(3,4) by (metis (no_types, lifting))
  from rates_only [OF U(2) i] obtain V where V: "do { S \<leftarrow> leon_check_irq_rate E irq (e_cpu E) U; leon_check_irq_rate E irq 0 S } = Some V"
    "irq_ok E V" "ctrl_only U V" .
  have "leon_irq_dispatch E irq S = Some V"
    using T(1) U(1) V(1) i irq_okD(2) [OF T(2)] by (simp add: leon_irq_dispatch_def)
  moreover have "lines_same S V" using T(3) U(3) V(3) by (auto simp: ctrl_same_def walk_same_def ctrl_only_def intro: lines_same_trans)
  ultimately show thesis using that V(2,3) U(4-6) by (simp add: ctrl_only_def queued_elems_def)
qed

section \<open>Deferred handlers\<close>

text \<open>Every handler accepts its interrupt: each is called once, in the order of the queue.\<close>

definition accepted :: "'w irq_env \<Rightarrow> irl_vector_elem list \<Rightarrow> bool" where
  "accepted E es \<longleftrightarrow> (\<forall>e \<in> set es. \<forall>w. fst (e_call E (ie_handler e) (ie_irq e) (ie_data e) w))"

definition call_own :: "'w irq_env \<Rightarrow> irl_vector_elem \<Rightarrow> 'w \<Rightarrow> 'w" where
  "call_own E e = call_elem E (ie_irq e) e"

lemma exec_loop_accepted:
  assumes "irq_ok E S" "accepted E (queued_elems S)"
  shows "exec_loop E S = Some (S\<lparr>irl_queue_head := [], irq_queue_pool_head := irq_queue_pool_head S @ irl_queue_head S,
     irq_world := fold (call_own E) (queued_elems S) (irq_world S)\<rparr>)"
  using assms
proof (induction "irl_queue_head S" arbitrary: S)
  case Nil
  then show ?case by (subst exec_loop.simps) (simp add: queued_elems_def flip: Nil(1))
next
  case (Cons p ps)
  let ?w = "call_own E (irl_elem S p) (irq_world S)"
  let ?T = "S\<lparr>irl_queue_head := ps, irq_world := ?w, irq_queue_pool_head := irq_queue_pool_head S @ [p]\<rparr>"
  have plain: "ie_handler (irl_elem S p) \<noteq> 0" "ie_handler (irl_elem S p) \<noteq> e_eirq_fn E"
    using Cons(2,3) by (auto simp: irq_ok_def irq_handlers_def simp flip: Cons(2))
  have acc: "fst (e_call E (ie_handler (irl_elem S p)) (ie_irq (irl_elem S p)) (ie_data (irl_elem S p)) w)" for w
    using Cons(4) by (simp add: accepted_def queued_elems_def flip: Cons(2))
  have e: "exec_elem E p (S\<lparr>irl_queue_head := ps\<rparr>) = Some ?T"
    using plain acc [of "irq_world S"] by (auto simp: exec_elem_def irl_isr_def ext_isr_def call_own_def call_elem_def split: prod.splits)
  have q: "queued_elems ?T = map (irl_elem S) ps" "queued_elems S = irl_elem S p # map (irl_elem S) ps"
    by (simp_all add: queued_elems_def flip: Cons(2))
  have ok: "irq_ok E ?T"
    using Cons(3) by (auto simp: irq_ok_def irq_lists_def irq_sizes_def irq_handlers_def irq_cpus_def simp flip: Cons(2))
  have "accepted E (queued_elems ?T)" using Cons(4) q by (simp add: accepted_def)
  with Cons(1) [of ?T] ok have IH: "exec_loop E ?T = Some (?T\<lparr>irl_queue_head := [], irq_queue_pool_head := irq_queue_pool_head ?T @ ps,
     irq_world := fold (call_own E) (queued_elems ?T) (irq_world ?T)\<rparr>)" by simp
  show ?case
  proof (cases "ps = []")
    case True
    then show ?thesis using e q by (subst exec_loop.simps) (simp flip: Cons(2))
  next
    case False
    then show ?thesis using e q IH by (subst exec_loop.simps) (simp flip: Cons(2))
  qed
qed

text \<open>C17: a primary interrupt calls the handlers of its line that want to run at once, in the order of their registration, and
  nothing else; the deferred ones go to the queue in their order.  The next execution of the queue calls each of those once,
  in the same order, with the number and data of its registration, and returns all elements to their pool.  It suffices that
  the queue is empty before, that its pool has an element for each of them and that they accept the interrupt.\<close>

theorem irq_handlers_called:
  assumes "irq_ready E S" and "irq < 16" and "plain_line E (registered S irq)" and "irl_queue_head S = []"
    and "length (filter (\<lambda>e. \<not> now_elem e) (registered S irq)) \<le> length (irq_queue_pool_head S)"
    and "accepted E (filter (\<lambda>e. \<not> now_elem e) (registered S irq))"
  shows "\<exists>S1 S2. leon_irq_dispatch E irq S = Some S1
     \<and> irq_world S1 = fold (call_elem E irq) (filter now_elem (registered S irq)) (irq_world S)
     \<and> queued_elems S1 = filter (\<lambda>e. \<not> now_elem e) (registered S irq)
     \<and> irq_exec_deferred E S1 = Some (0, S2)
     \<and> irq_world S2 = fold (call_own E) (filter (\<lambda>e. \<not> now_elem e) (registered S irq)) (irq_world S1)
     \<and> irl_queue_head S2 = [] \<and> length (irq_queue_pool_head S2) = length (irq_queue_pool_head S)"
proof -
  let ?ds = "filter (\<lambda>e. \<not> now_elem e) (registered S irq)"
  have ok: "irq_ok E S" "irq_ctrl S = Some leon_irq" using assms(1) by (simp_all add: irq_ready_def)
  have e: "queued_elems S = []" using assms(4) by (simp add: queued_elems_def)
  from dispatch_order [OF ok(1) assms(2,3,5)] obtain S1 where S1: "leon_irq_dispatch E irq S = Some S1" "irq_ok E S1" "lines_same S S1"
    "irq_world S1 = fold (call_elem E irq) (filter now_elem (registered S irq)) (irq_world S)" "queued_elems S1 = ?ds"
    "length (irq_queue_pool_head S1) + length ?ds = length (irq_queue_pool_head S)" unfolding e by auto
  have c: "irq_ctrl S1 = Some leon_irq" using S1(3) ok(2) by (simp add: lines_same_def)
  let ?S2 = "S1\<lparr>irl_queue_head := [], irq_queue_pool_head := irq_queue_pool_head S1 @ irl_queue_head S1,
     irq_world := fold (call_own E) (queued_elems S1) (irq_world S1)\<rparr>"
  have x: "exec_loop E S1 = Some ?S2" by (rule exec_loop_accepted [OF S1(2)]) (use assms(6) S1(5) in simp)
  have "irq_exec_deferred E S1 = Some (0, ?S2)"
  proof (cases "irl_queue_head S1 = []")
    case True
    then have "?S2 = S1" by (simp add: queued_elems_def)
    then show ?thesis using True c by (simp add: irq_exec_deferred_def leon_irq_def leon_irq_queue_execute_def)
  next
    case False
    then show ?thesis using x c by (simp add: irq_exec_deferred_def leon_irq_def leon_irq_queue_execute_def)
  qed
  moreover have "length (irl_queue_head S1) = length ?ds" using arg_cong [OF S1(5), of length] by (simp add: queued_elems_def)
  ultimately show ?thesis using S1 by (intro exI [of _ S1] exI [of _ ?S2]) simp
qed

definition demo_ready :: "nat irqs" where
  "demo_ready = the (leon_irq_init demo_env (True, True, True, True) 0xa0000 (irq_boot 0))"

lemma demo_irq_ready: "irq_ready demo_env demo_ready"
  using init_ready [of demo_env "0xa0000" "0::nat"] by (fastforce simp: demo_ready_def demo_env_def)

text \<open>Two deferred handlers and one that is called at once, on line 3.\<close>

definition demo_line :: "nat irqs" where
  "demo_line = the (irq_run demo_env [Request 3 1 0x100 7, Request 3 0 0x200 7, Request 3 1 0x300 7] demo_ready)"

lemma demo_line_ready: "irq_ready demo_env demo_line"
proof -
  have "quiet demo_env" by (auto simp: quiet_def demo_env_def)
  from irq_run_ready [OF quiet_ends [OF this] demo_irq_ready, of "[Request 3 1 0x100 7, Request 3 0 0x200 7, Request 3 1 0x300 7]"]
  show ?thesis by (auto simp: demo_line_def demo_env_def)
qed

lemma demo_line_facts:
  "map (\<lambda>e. (ie_handler e, ie_data e, ie_priority e)) (registered demo_line 3) = [(0x100, 7, 1), (0x200, 7, 0), (0x300, 7, 1)]
   \<and> irl_queue_head demo_line = [] \<and> length (irq_queue_pool_head demo_line) = 64"
  by code_simp

theorem irq_handlers_called_witness:
  "\<exists>S1 S2. leon_irq_dispatch demo_env 3 demo_line = Some S1 \<and> length (queued_elems S1) = 2
     \<and> irq_exec_deferred demo_env S1 = Some (0, S2) \<and> irl_queue_head S2 = []"
proof -
  have r: "map (\<lambda>e. (ie_handler e, ie_data e, ie_priority e)) (registered demo_line 3) = [(0x100, 7, 1), (0x200, 7, 0), (0x300, 7, 1)]"
    and q: "irl_queue_head demo_line = []" "length (irq_queue_pool_head demo_line) = 64" using demo_line_facts by auto
  from r obtain a b c where l: "registered demo_line 3 = [a, b, c]" "ie_handler a = 0x100" "ie_handler b = 0x200" "ie_handler c = 0x300"
    "ie_data a = 7" "ie_data c = 7" "ie_priority a = 1" "ie_priority b = 0" "ie_priority c = 1" by (auto simp: map_eq_Cons_conv)
  show ?thesis
    using irq_handlers_called [OF demo_line_ready, of 3] q(2)
    by (auto simp: l q(1) now_elem_def plain_line_def accepted_def demo_env_def)
qed

section \<open>A handler that declines\<close>

text \<open>The execution of the queue loses its elements when handlers decline.  With two queued handlers or more that always
  decline their interrupt, one execution calls handlers as often as the queue and its pool have elements together, and
  after it both are empty, so that no handler can be deferred again.\<close>

theorem irq_queue_drained:
  assumes "irq_ok E S" and "2 \<le> length (irl_queue_head S)"
    and "\<And>f irq data w. \<not> fst (e_call E f irq data w)" and "\<And>f irq data w. cnt (snd (e_call E f irq data w)) = cnt w + (1 :: nat)"
  shows "\<exists>S'. leon_irq_queue_execute E S = Some S' \<and> irl_queue_head S' = [] \<and> irq_queue_pool_head S' = []
     \<and> cnt (irq_world S') = cnt (irq_world S) + length (irl_queue_head S) + length (irq_queue_pool_head S)"
proof -
  have wf: "wf exec_measure" unfolding exec_measure_def by (intro wf_inv_image wf_lex_prod wf_less_than)
  have "\<exists>S'. exec_loop E S = Some S' \<and> irl_queue_head S' = [] \<and> irq_queue_pool_head S' = []
      \<and> cnt (irq_world S') = cnt (irq_world S) + queue_elems S"
    if "irq_ok E S" "2 \<le> length (irl_queue_head S) \<or> (irl_queue_head S \<noteq> [] \<and> irq_queue_pool_head S = [])" for S
    using that
  proof (induction S rule: wf_induct_rule [OF wf])
    case (1 S)
    from 1(3) obtain p ps where q: "irl_queue_head S = p # ps" by (cases "irl_queue_head S") auto
    from exec_elem_keeps [OF 1(2) q] obtain T where T: "exec_elem E p (S\<lparr>irl_queue_head := ps\<rparr>) = Some T" "irq_ok E T" "(T, S) \<in> exec_measure" .
    have plain: "plain_elem E S p" using 1(2) q by (auto simp: irq_ok_def irq_handlers_def plain_elem_def)
    obtain w where w: "e_call E (ie_handler (irl_elem S p)) (ie_irq (irl_elem S p)) (ie_data (irl_elem S p)) (irq_world S) = (False, w)"
      using assms(3) by (metis (full_types) prod.collapse)
    have n: "cnt w = cnt (irq_world S) + 1" using assms(4) w by (metis snd_conv)
    let ?U = "S\<lparr>irl_queue_head := ps, irq_world := w\<rparr>"
    have eq: "T = snd (leon_irq_queue p ?U)"
      using T(1) plain w by (simp add: exec_elem_def irl_isr_def ext_isr_def plain_elem_def)
    show ?case
    proof (cases "irq_queue_pool_head S")
      case Nil
      then have t: "T = ?U" using eq by (simp add: leon_irq_queue_def)
      show ?thesis
      proof (cases "ps = []")
        case True
        with T(1) q Nil show ?thesis by (subst exec_loop.simps) (simp add: t queue_elems_def n)
      next
        case False
        with 1(1) [OF T(3,2)] Nil obtain V where "exec_loop E T = Some V" "irl_queue_head V = []" "irq_queue_pool_head V = []"
          "cnt (irq_world V) = cnt (irq_world T) + queue_elems T" by (auto simp: t)
        with T(1) False q Nil show ?thesis by (subst exec_loop.simps) (simp add: t queue_elems_def n)
      qed
    next
      case (Cons r pool)
      then have t: "irl_queue_head T = ps @ [r]" "irq_queue_pool_head T = pool" "irq_world T = irq_world ?U"
        using eq by (simp_all add: leon_irq_queue_def)
      have ps: "ps \<noteq> []" using 1(3) q Cons by auto
      then have "2 \<le> length (irl_queue_head T)" using t(1) by (cases ps) simp_all
      with 1(1) [OF T(3,2)] obtain V where "exec_loop E T = Some V" "irl_queue_head V = []" "irq_queue_pool_head V = []"
        "cnt (irq_world V) = cnt (irq_world T) + queue_elems T" by auto
      with T(1) ps q Cons t show ?thesis by (subst exec_loop.simps) (simp add: queue_elems_def n)
    qed
  qed
  from this [OF assms(1)] assms(2) show ?thesis by (auto simp: leon_irq_queue_execute_def queue_elems_def)
qed

definition demo_decline :: "nat irq_env" where
  "demo_decline = demo_env\<lparr>e_call := (\<lambda>f irq data n. (False, n + 1))\<rparr>"

definition demo_queued :: "nat irqs" where
  "demo_queued = the (irq_run demo_decline [Request 3 1 0x100 7, Request 3 1 0x200 7, Interrupt 3]
     (the (leon_irq_init demo_decline (True, True, True, True) 0xa0000 (irq_boot 0))))"

lemma demo_queued_ok: "irq_ok demo_decline demo_queued"
proof -
  obtain S where S: "leon_irq_init demo_decline (True, True, True, True) 0xa0000 (irq_boot (0 :: nat)) = Some S" "irq_ready demo_decline S"
    by (rule init_ready [of demo_decline "0xa0000" "0::nat"]) (auto simp: demo_decline_def demo_env_def)
  have "quiet demo_decline" by (auto simp: quiet_def demo_decline_def demo_env_def)
  from irq_run_ready [OF quiet_ends [OF this] S(2), of "[Request 3 1 0x100 7, Request 3 1 0x200 7, Interrupt 3]"] S(1)
  show ?thesis by (auto simp: demo_queued_def demo_decline_def demo_env_def irq_ready_def)
qed

lemma demo_queued_facts: "length (irl_queue_head demo_queued) = 2 \<and> length (irq_queue_pool_head demo_queued) = 62 \<and> irq_world demo_queued = 0"
  by code_simp

theorem irq_queue_drained_witness:
  "\<exists>S'. leon_irq_queue_execute demo_decline demo_queued = Some S' \<and> irl_queue_head S' = [] \<and> irq_queue_pool_head S' = [] \<and> irq_world S' = 64"
  using irq_queue_drained [OF demo_queued_ok, of "\<lambda>n. n"] demo_queued_facts by (auto simp: demo_decline_def)

section \<open>Too many interrupts\<close>

text \<open>C22: a storm of extended interrupts does not hold the processor.  Whatever the controller shows, when the next 33 readings
  of the clock lie within 200 microseconds the dispatcher of extended interrupts returns: each interrupt that comes
  a second time in that time is disabled and ends the loop, and there are 32 of them.\<close>

theorem eirq_storm_ends:
  assumes "irq_ok E S" and "irq < 16" and "\<forall>k \<le> 32. t \<le> e_clk E (n_clk S + k) \<and> e_clk E (n_clk S + k) < t + 200000"
    and "\<forall>i < 32. last_eirq S ! i < t + 200000"
  shows "\<exists>S'. leon_eirq_dispatch E irq S = Some S' \<and> irq_ok E S' \<and> lines_same S S'"
proof -
  have i: "unat irq < IRL_SIZE" "irq < 32" using assms(2) by (simp_all add: word_less_nat_alt)
  from count_keeps [OF assms(1) i(1)] obtain T where T: "irl_count irq S = Some T" "irq_ok E T" "lines_same S T" by (rule keeps_obtain)
  have eq: "n_clk T = n_clk S" "last_eirq T = last_eirq S" using T(1) by (auto simp: irl_count_def bind_eq_Some_conv)
  have "irq_keeps lines_same E T (eirq_loop E T)"
    by (rule eirq_loop_fast [OF T(2), of 32 t]) (use assms(3,4) in \<open>simp_all add: eq\<close>)
  then obtain U where U: "eirq_loop E T = Some U" "irq_ok E U" "lines_same T U" by (rule keeps_obtain)
  from clear_keeps [OF U(2) i(2)] obtain V where V: "leon_clear_irq E irq U = Some V" "irq_ok E V" "ctrl_only U V" by (rule keeps_obtain)
  from rates_only [OF V(2) i(1)] obtain W where
    W: "do { S \<leftarrow> leon_check_irq_rate E irq (e_cpu E) V; leon_check_irq_rate E irq 0 S } = Some W" "irq_ok E W" "ctrl_only V W" .
  have "leon_eirq_dispatch E irq S = Some W" using T(1) U(1) V(1) W(1) by (simp add: leon_eirq_dispatch_def)
  moreover have "lines_same S W"
    using lines_same_trans [OF T(3) lines_same_trans [OF U(3)]] V(3) W(3) ctrl_only_trans unfolding ctrl_only_def by blast
  ultimately show ?thesis using W(2) by blast
qed

text \<open>A controller that always shows interrupt 17, all within the same time.\<close>

definition demo_storm :: "nat irq_env" where
  "demo_storm = demo_env\<lparr>e_id := (\<lambda>_. 17), e_pend := (\<lambda>_. 0x20000), e_clk := (\<lambda>n. 1000000 + int n)\<rparr>"

lemma demo_storm_ready:
  obtains S where "leon_irq_init demo_storm (True, True, True, True) 0xa0000 (irq_boot (0 :: nat)) = Some S" "irq_ready demo_storm S"
  by (rule init_ready [of demo_storm "0xa0000" "0::nat"]) (auto simp: demo_storm_def demo_env_def)

lemma demo_storm_facts:
  "n_clk (the (leon_irq_init demo_storm (True, True, True, True) 0xa0000 (irq_boot (0 :: nat)))) = 0
   \<and> (\<forall>i < 32. last_eirq (the (leon_irq_init demo_storm (True, True, True, True) 0xa0000 (irq_boot (0 :: nat)))) ! i = 0)"
  by code_simp

theorem eirq_storm_ends_witness:
  "\<exists>S S'. leon_irq_init demo_storm (True, True, True, True) 0xa0000 (irq_boot 0) = Some S \<and> leon_eirq_dispatch demo_storm 10 S = Some S'"
proof (rule demo_storm_ready)
  fix S assume S: "leon_irq_init demo_storm (True, True, True, True) 0xa0000 (irq_boot (0 :: nat)) = Some S" "irq_ready demo_storm S"
  have f: "n_clk S = 0" "\<forall>i < 32. last_eirq S ! i = 0" using demo_storm_facts S(1) by simp_all
  have "\<exists>S'. leon_eirq_dispatch demo_storm 10 S = Some S' \<and> irq_ok demo_storm S' \<and> lines_same S S'"
    by (rule eirq_storm_ends [of _ _ _ 1000000]) (use S(2) f in \<open>simp_all add: irq_ready_def demo_storm_def demo_env_def\<close>)
  with S(1) show ?thesis by blast
qed

text \<open>The rate protection never blocks a primary interrupt, however fast it comes.  As soon as the clock has passed 200
  microseconds, the check after an interrupt leaves masks and blocked interrupts alone in every state of the invariant:
  the time of the last interrupt, which it compares with, is never written and stays 0.\<close>

theorem irq_rate_blind:
  assumes "irq_ok E S" and "irq < 16" and "200000 \<le> e_clk E (n_clk S)" and "e_clk E (n_clk S) < 2 ^ 63"
  shows "\<exists>S'. leon_check_irq_rate E irq cpu S = Some S' \<and> irq_mpmask S' = irq_mpmask S \<and> irq_blocked S' = irq_blocked S
     \<and> need_restore S' = need_restore S \<and> last_irq S' = last_irq S"
proof -
  have i: "unat irq < 16" using assms(2) by (simp add: word_less_nat_alt)
  have "ktime_delta (e_clk E (n_clk S)) 0 = e_clk E (n_clk S)" using assms(3,4) by (simp add: ktime_delta_id is_s64_def)
  moreover have "200 \<le> e_clk E (n_clk S) sdiv 1000" using assms(3) by (simp add: signed_divide_int_def sgn_if)
  ultimately have "\<not> ktime_to_us (ktime_delta (e_clk E (n_clk S)) 0) < CONFIG_IRQ_MIN_INTER_US" by (simp add: ktime_to_us_def)
  then show ?thesis using i irq_okD [OF assms(1)] by (simp add: leon_check_irq_rate_def clk_get_def Let_def)
qed

theorem irq_rate_blind_witness:
  "\<exists>S'. leon_check_irq_rate demo_env 3 0 demo_line = Some S' \<and> irq_mpmask S' = irq_mpmask demo_line"
proof -
  have "irq_ok demo_env demo_line" using demo_line_ready by (simp add: irq_ready_def)
  moreover have "n_clk demo_line = 0" by code_simp
  ultimately show ?thesis using irq_rate_blind [of demo_env demo_line 3 0] by (auto simp: demo_env_def)
qed

text \<open>A request for a line that does not exist leaves the array of the extended lines.  For the numbers 32 to 48
  \<^verbatim>\<open>irq_request\<close> does not return an error as it does for larger ones, although there are 32 extended lines.\<close>

theorem irq_request_bounds:
  assumes "irq_ready E S" and "irl_pool_head S \<noteq> []" and "handler \<noteq> 0" and "32 \<le> irq"
  shows "irq_request E irq priority handler data S = (if irq \<le> 48 then None else Some (- EINVAL, S))"
proof -
  have "32 \<le> unat irq" using assms(4) by (simp add: word_le_nat_alt)
  moreover have "irq \<le> 48 \<longleftrightarrow> unat irq \<le> 48" by (simp add: word_le_nat_alt)
  moreover have "length (eirl_vector S) = EIRL_SIZE" using assms(1) unfolding irq_ready_def by (blast intro: irq_okD(3))
  ultimately show ?thesis using assms(1-3)
    by (auto simp: irq_ready_def irq_request_def leon_irq_def enable_irq_def eirl_register_handler_def at_def split: list.splits)
qed

theorem irq_request_bounds_witness:
  "irq_request demo_env 32 0 0x100 7 demo_ready = None \<and> irq_request demo_env 49 0 0x100 7 demo_ready = Some (- EINVAL, demo_ready)"
proof -
  have "irl_pool_head demo_ready \<noteq> []" by code_simp
  note b = irq_request_bounds [OF demo_irq_ready this]
  show ?thesis by (simp add: b)
qed

theorem irq_request_free_witness:
  "\<exists>S1 S2. irq_request demo_env 5 0 0x100 7 demo_ready = Some (0, S1) \<and> irq_free demo_env 5 0x100 7 S1 = Some (0, S2)
     \<and> registered S2 5 = []"
proof -
  have p: "irl_pool_head demo_ready \<noteq> []" and r: "registered demo_ready 5 = []" by code_simp+
  have m: "may_register demo_env 5 0x100" by (simp add: may_register_def demo_env_def)
  have "\<forall>e \<in> set (registered demo_ready 5). \<not> hit 0x100 7 e" unfolding r by simp
  from irq_request_free [OF demo_irq_ready m p this, of 0] obtain S1 S2 where
    s: "irq_request demo_env 5 0 0x100 7 demo_ready = Some (0, S1)" "irq_free demo_env 5 0x100 7 S1 = Some (0, S2)"
    "\<forall>j < 32. registered S2 j = registered demo_ready j" by blast
  have "registered S2 5 = []" using s(3) r by simp
  with s show ?thesis by blast
qed

end
