(* ===== verification/Mm.thy ===== *)
theory Mm
  imports Linked_List Bit_Ops
begin

text \<open>
  The buddy system memory manager of \<^verbatim>\<open>lib/mm.c\<close> and \<^verbatim>\<open>include/kernel/mm.h\<close>.

  A pool is a record with the fields of \<^verbatim>\<open>struct mm_pool\<close>; the arrays the pool points to are
  lists, and \<open>links\<close> holds the link words: those of the anchors \<^verbatim>\<open>block_order[i]\<close>
  (\<^term>\<open>Hd i\<close>) and those at the start of the block at address \<open>a\<close> (\<^term>\<open>Nd a\<close>).
  Pointers are 32 bit words, \<^verbatim>\<open>NULL\<close> is 0.  An operation that would access an array out of
  bounds or follow a \<^verbatim>\<open>NULL\<close> link returns \<^term>\<open>None\<close>.  The spin lock and the interrupt
  masking around \<^verbatim>\<open>mm_alloc\<close> make it atomic and are not represented; messages are dropped.
\<close>

section \<open>State\<close>

record mm_stat =
  total_blocks :: u32
  used_blocks :: u32
  alloc_fail :: u32

record mm_pool =
  base :: u32
  max_order :: u32
  min_order :: u32
  n_blks :: u32
  alloc_blks :: u32
  alloc_order :: "u8 list"
  blk_free :: "u32 list"
  links :: "(nat, u32) lnode lheap"

definition sizeof_mm_blk_lnk :: u32 where "sizeof_mm_blk_lnk = 8"

section \<open>Blocks\<close>

definition mm_blk_addr_valid :: "mm_pool \<Rightarrow> u32 \<Rightarrow> bool" where
  "mm_blk_addr_valid mp blk \<longleftrightarrow> blk \<ge> base mp \<and> blk < base mp + shl 1 (uint (max_order mp))"

definition mm_blk_idx :: "mm_pool \<Rightarrow> u32 \<Rightarrow> u32" where
  "mm_blk_idx mp blk = shr (blk - base mp) (uint (min_order mp))"

definition mm_mark_free :: "mm_pool \<Rightarrow> u32 \<Rightarrow> mm_pool option" where
  "mm_mark_free mp blk =
     do { b \<leftarrow> set_bit_arr (unat (mm_blk_idx mp blk)) (blk_free mp); Some (mp\<lparr>blk_free := b\<rparr>) }"

definition mm_mark_alloc :: "mm_pool \<Rightarrow> u32 \<Rightarrow> mm_pool option" where
  "mm_mark_alloc mp blk =
     do { b \<leftarrow> clear_bit_arr (unat (mm_blk_idx mp blk)) (blk_free mp); Some (mp\<lparr>blk_free := b\<rparr>) }"

definition mm_blk_free :: "mm_pool \<Rightarrow> u32 \<Rightarrow> bool option" where
  "mm_blk_free mp blk = test_bit_arr (unat (mm_blk_idx mp blk)) (blk_free mp)"

definition mm_blk_get_alloc_order :: "mm_pool \<Rightarrow> u32 \<Rightarrow> u32 option" where
  "mm_blk_get_alloc_order mp blk =
     map_option ucast (arr_get (alloc_order mp) (unat (mm_blk_idx mp blk)))"

definition mm_blk_set_alloc_order :: "mm_pool \<Rightarrow> u32 \<Rightarrow> u32 \<Rightarrow> mm_pool option" where
  "mm_blk_set_alloc_order mp blk order =
     do { a \<leftarrow> arr_set (alloc_order mp) (unat (mm_blk_idx mp blk)) (ucast order);
          Some (mp\<lparr>alloc_order := a\<rparr>) }"

definition mm_split_blk :: "mm_pool \<Rightarrow> u32 \<Rightarrow> u32 \<Rightarrow> mm_pool option" where
  "mm_split_blk mp blk order =
     do { let blk = blk + shl 1 (uint order);
          mp \<leftarrow> mm_blk_set_alloc_order mp blk order;
          mp \<leftarrow> mm_mark_free mp blk;
          l \<leftarrow> list_add (Nd blk) (Hd (unat order)) (links mp);
          Some (mp\<lparr>links := l\<rparr>) }"

definition mm_find_neighbour :: "mm_pool \<Rightarrow> u32 \<Rightarrow> u32 \<Rightarrow> u32" where
  "mm_find_neighbour mp blk order = ((blk - base mp) XOR shl 1 (uint order)) + base mp"

text \<open>
  \<^verbatim>\<open>mm_merge_blk\<close>: \<^term>\<open>None\<close> as first component is the \<^verbatim>\<open>NULL\<close> result.  The
  exchange of the two pointers is the one the code performs: after
  \<^verbatim>\<open>t = blk; blk = n; n = blk\<close> both name the lower block.
\<close>

definition mm_merge_blk :: "mm_pool \<Rightarrow> u32 \<Rightarrow> u32 \<Rightarrow> (u32 option \<times> mm_pool) option" where
  "mm_merge_blk mp blk order =
     do { let mp = mp\<lparr>links := init_list_head (Nd blk) (links mp)\<rparr>;
          let n = mm_find_neighbour mp blk order;
          f \<leftarrow> mm_blk_free mp n;
          if \<not> f then Some (None, mp)
          else do {
            ord \<leftarrow> mm_blk_get_alloc_order mp n;
            if ord \<noteq> order then Some (None, mp)
            else if prv (links mp) (Nd n) = None \<or> nxt (links mp) (Nd n) = None
            then Some (None, mp)
            else do {
              l \<leftarrow> list_del (Nd n) (links mp);
              let mp = mp\<lparr>links := l\<rparr>;
              let (blk, n) = (if n < blk then (n, n) else (blk, n));
              mp \<leftarrow> mm_blk_set_alloc_order mp n 0;
              mp \<leftarrow> mm_blk_set_alloc_order mp blk (order + 1);
              mp \<leftarrow> mm_mark_alloc mp n;
              mp \<leftarrow> mm_mark_alloc mp blk;
              Some (Some blk, mp) }}}"

lemma mm_mark_frame [frame_simps]:
  "mm_mark_free mp b = Some mp' \<Longrightarrow> \<exists>f. mp' = mp\<lparr>blk_free := f\<rparr>"
  "mm_mark_alloc mp b = Some mp' \<Longrightarrow> \<exists>f. mp' = mp\<lparr>blk_free := f\<rparr>"
  "mm_blk_set_alloc_order mp b ord = Some mp' \<Longrightarrow> \<exists>f. mp' = mp\<lparr>alloc_order := f\<rparr>"
  by (auto simp: mm_mark_free_def mm_mark_alloc_def mm_blk_set_alloc_order_def split: bind_splits)

lemma mm_merge_blk_max_order:
  "mm_merge_blk mp blk order = Some (r, mp') \<Longrightarrow> max_order mp' = max_order mp"
  by (auto simp: mm_merge_blk_def Let_def split: bind_splits if_splits dest!: mm_mark_frame)

function mm_upmerge_loop :: "mm_pool \<Rightarrow> u32 \<Rightarrow> u32 \<Rightarrow> (mm_pool \<times> u32 \<times> u32) option" where
  "mm_upmerge_loop mp blk order =
     (if order < max_order mp then
        (case mm_merge_blk mp blk order of
           None \<Rightarrow> None
         | Some (tmp, mp') \<Rightarrow>
             (case tmp of
                Some b \<Rightarrow> mm_upmerge_loop mp' b (order + 1)
              | None \<Rightarrow> Some (mp', blk, order)))
      else Some (mp, blk, order))"
  by pat_completeness auto
termination
proof (relation "measure (\<lambda>(mp, blk, order). unat (max_order mp) - unat order)", goal_cases)
  case (2 mp blk order r tmp mp' b)
  then have "max_order mp' = max_order mp" by (auto dest: mm_merge_blk_max_order)
  moreover from 2(1) have "unat (order + 1) = Suc (unat order)" by (rule unat_plus_one)
  ultimately show ?case using 2(1) by (simp add: word_less_nat_alt)
qed simp

declare mm_upmerge_loop.simps [simp del]

definition mm_upmerge_blks :: "mm_pool \<Rightarrow> u32 \<Rightarrow> mm_pool option" where
  "mm_upmerge_blks mp blk =
     do { order \<leftarrow> mm_blk_get_alloc_order mp blk;
          (mp, blk, order) \<leftarrow> mm_upmerge_loop mp blk order;
          mp \<leftarrow> mm_mark_free mp blk;
          mp \<leftarrow> mm_blk_set_alloc_order mp blk order;
          if blk \<noteq> base mp
          then do { l \<leftarrow> list_add (Nd blk) (Hd (unat order)) (links mp); Some (mp\<lparr>links := l\<rparr>) }
          else Some mp }"

section \<open>Allocation and release\<close>

definition mm_fixup_validate :: "mm_pool \<Rightarrow> u32 \<Rightarrow> u32 \<Rightarrow> u32" where
  "mm_fixup_validate mp addr order =
     (if order > max_order mp then - 22
      else if addr \<noteq> 0 \<and> addr < base mp then - 22
      else if addr \<noteq> 0 \<and> addr - base mp > shl 1 (uint (max_order mp)) then - 22
      else if order < min_order mp then min_order mp
      else order)"

fun mm_split_loop :: "mm_pool \<Rightarrow> u32 \<Rightarrow> nat \<Rightarrow> nat \<Rightarrow> mm_pool option" where
  "mm_split_loop mp blk order 0 = Some mp"
| "mm_split_loop mp blk order (Suc i) =
     (if order < Suc i
      then do { mp \<leftarrow> mm_split_blk mp blk (of_nat i); mm_split_loop mp blk order i }
      else Some mp)"

text \<open>The part of \<^verbatim>\<open>mm_alloc\<close> after a block of order \<open>i\<close> was found.\<close>

definition mm_alloc_take ::
    "mm_pool \<Rightarrow> u32 \<Rightarrow> nat \<Rightarrow> u32 \<Rightarrow> mm_stat \<Rightarrow> (u32 \<times> mm_pool \<times> mm_stat) option" where
  "mm_alloc_take mp blk i order st =
     do { mp \<leftarrow> mm_mark_alloc mp blk;
          mp \<leftarrow> mm_blk_set_alloc_order mp blk order;
          mp \<leftarrow> mm_split_loop mp blk (unat order) i;
          let cnt = shl 1 (uint (order - min_order mp));
          Some (blk, mp\<lparr>alloc_blks := alloc_blks mp + cnt\<rparr>,
                st\<lparr>used_blocks := used_blocks st + cnt\<rparr>) }"

definition mm_alloc :: "mm_pool \<Rightarrow> u32 \<Rightarrow> mm_stat \<Rightarrow> (u32 \<times> mm_pool \<times> mm_stat) option" where
  "mm_alloc mp sz st =
     (if sz = 0 then Some (0, mp, st)
      else let order = mm_fixup_validate mp 0 (word_of_int (ilog2 (roundup_pow_of_two sz)))
      in if is_err_value order then Some (0, mp, st)
      else if alloc_blks mp \<noteq> 0 then
        (case List.find (\<lambda>i. \<not> list_empty (Hd i) (links mp))
                [unat order ..< Suc (unat (max_order mp))] of
           None \<Rightarrow> Some (0, mp, st\<lparr>alloc_fail := 1\<rparr>)
         | Some i \<Rightarrow>
             (case nxt (links mp) (Hd i) of
                Some (Nd blk) \<Rightarrow>
                  do { l \<leftarrow> list_del (Nd blk) (links mp);
                       mm_alloc_take (mp\<lparr>links := l\<rparr>) blk i order st }
              | _ \<Rightarrow> None))
      else mm_alloc_take mp (base mp) (unat (max_order mp)) order st)"

text \<open>\<^verbatim>\<open>mm_alloc\<close> is called with a pointer to the pool, and refuses \<^verbatim>\<open>NULL\<close>.\<close>

definition mm_alloc_ptr ::
    "mm_pool option \<Rightarrow> u32 \<Rightarrow> mm_stat \<Rightarrow> (u32 \<times> mm_pool option \<times> mm_stat) option" where
  "mm_alloc_ptr p sz st =
     (case p of
        None \<Rightarrow> Some (0, None, st)
      | Some mp \<Rightarrow> map_option (\<lambda>(r, mp', st'). (r, Some mp', st')) (mm_alloc mp sz st))"

definition mm_free :: "mm_pool \<Rightarrow> u32 \<Rightarrow> mm_stat \<Rightarrow> (mm_pool \<times> mm_stat) option" where
  "mm_free mp addr st =
     (if addr = 0 then Some (mp, st)
      else if \<not> mm_blk_addr_valid mp addr then Some (mp, st)
      else do {
        f \<leftarrow> mm_blk_free mp addr;
        if f then Some (mp, st)
        else do {
          order \<leftarrow> mm_blk_get_alloc_order mp addr;
          if order = 0 then Some (mp, st)
          else let order = mm_fixup_validate mp addr order in
            if is_err_value order then Some (mp, st)
            else do {
              mp \<leftarrow> mm_upmerge_blks mp addr;
              let cnt = shl 1 (uint (order - min_order mp));
              Some (mp\<lparr>alloc_blks := alloc_blks mp - cnt\<rparr>,
                    st\<lparr>used_blocks := used_blocks st - cnt\<rparr>) }}})"

definition mm_addr_in_pool :: "mm_pool \<Rightarrow> u32 \<Rightarrow> bool option" where
  "mm_addr_in_pool mp addr =
     (if mm_blk_idx mp addr > n_blks mp then Some False
      else if \<not> mm_blk_addr_valid mp addr then Some False
      else do { order \<leftarrow> mm_blk_get_alloc_order mp addr; Some (order \<noteq> 0) })"

definition mm_block_size :: "mm_pool \<Rightarrow> u32 \<Rightarrow> u32 option" where
  "mm_block_size mp addr =
     do { inp \<leftarrow> mm_addr_in_pool mp addr;
          if inp then do { order \<leftarrow> mm_blk_get_alloc_order mp addr; Some (shl 1 (uint order)) }
          else Some 0 }"

definition mm_unallocated_blocks :: "mm_pool \<Rightarrow> u32" where
  "mm_unallocated_blocks mp = n_blks mp - alloc_blks mp"

definition mm_allocated_blocks :: "mm_pool \<Rightarrow> u32" where
  "mm_allocated_blocks mp = alloc_blks mp"

definition mm_free_bytes :: "mm_stat \<Rightarrow> u32" where
  "mm_free_bytes st = (total_blocks st - used_blocks st) * 4096"

section \<open>Initialisation and statistics\<close>

definition mm_num_blocks_trackable :: "u32 \<Rightarrow> u32 \<Rightarrow> u32" where
  "mm_num_blocks_trackable omax omin = shl 1 (uint omax) div shl 1 (uint omin)"

fun mm_init_anchors :: "nat \<Rightarrow> (nat, u32) lnode lheap \<Rightarrow> (nat, u32) lnode lheap" where
  "mm_init_anchors 0 l = l"
| "mm_init_anchors (Suc i) l = init_list_head (Hd i) (mm_init_anchors i l)"

text \<open>The maximum and minimum order \<^verbatim>\<open>mm_init\<close> settles on; the last component is false on the
  \<^verbatim>\<open>-ENOMEM\<close> exit.\<close>

definition mm_init_orders :: "u32 \<Rightarrow> u32 \<Rightarrow> u32 \<times> u32 \<times> bool" where
  "mm_init_orders pool_size granularity =
     (let omax = word_of_int (ilog2 (rounddown_pow_of_two pool_size));
          omin = word_of_int (ilog2 (roundup_pow_of_two granularity));
          omin = (if shl 1 (uint omin) < sizeof_mm_blk_lnk
                  then word_of_int (ilog2 (roundup_pow_of_two sizeof_mm_blk_lnk)) else omin)
      in if omin > omax
         then let omin = omax - 1 in (omax, omin, \<not> shl 1 (uint omin) < sizeof_mm_blk_lnk)
         else (omax, omin, True))"

definition mm_init ::
    "mm_pool \<Rightarrow> u32 \<Rightarrow> u32 \<Rightarrow> u32 \<Rightarrow> mm_stat \<Rightarrow> (int \<times> mm_pool \<times> mm_stat) option" where
  "mm_init mp bs pool_size granularity st =
     (let (omax, omin, ok) = mm_init_orders pool_size granularity;
          mp = mp\<lparr>base := bs, max_order := omax, min_order := omin\<rparr>
      in if \<not> ok then Some (- ENOMEM, mp, st)
      else do {
        let nb = mm_num_blocks_trackable omax omin;
        let mp = mp\<lparr>links := mm_init_anchors (Suc (unat omax)) (links mp), n_blks := nb\<rparr>;
        let st = st\<lparr>total_blocks := total_blocks st + nb\<rparr>;
        f \<leftarrow> bitmap_zero (unat nb) (blk_free mp);
        a \<leftarrow> arr_zero (unat nb) (alloc_order mp);
        a \<leftarrow> arr_set a 0 (ucast omax);
        let mp = mp\<lparr>blk_free := f, alloc_order := a, alloc_blks := nb\<rparr>;
        let st = st\<lparr>used_blocks := used_blocks st + nb\<rparr>;
        (mp, st) \<leftarrow> mm_free mp bs st;
        Some (0, mp, st) })"

text \<open>
  \<^verbatim>\<open>mm_show\<close>: the number printed for an attribute (\<^term>\<open>None\<close> where nothing is printed);
  reading \<^verbatim>\<open>alloc_fail\<close> clears it.
\<close>

definition mm_show :: "string \<Rightarrow> mm_stat \<Rightarrow> u32 option \<times> mm_stat" where
  "mm_show name st =
     (if name = ''total_blocks'' then (Some (total_blocks st), st)
      else if name = ''used_blocks'' then (Some (used_blocks st), st)
      else if name = ''free_blocks'' then (Some (total_blocks st - used_blocks st), st)
      else if name = ''alloc_fail'' then (Some (alloc_fail st), st\<lparr>alloc_fail := 0\<rparr>)
      else (None, st))"

end
