(* ===== verification/Kmem.thy ===== *)
theory Kmem
  imports Mm Mem_Bytes
begin

text \<open>
  The kernel heap (\<^verbatim>\<open>kernel/kmem.c\<close>) over the system break of \<^verbatim>\<open>arch/sparc/kernel/mmu.c\<close>, for a
  configuration with an MMU.  Each chunk has a header in front of its data; the headers are
  linked in the order of their addresses, starting with the initial one, and the free chunks are
  on a list anchored there.  The state holds the headers by their address, the free list, the
  counters and the bounds of the break.  Following a pointer to what is no header is the value
  \<open>None\<close>.  The mapping of pages by the MMU is not part of the state.
\<close>

abbreviation (input) MAGIC :: u32 where "MAGIC \<equiv> 0xB19B00B5"
abbreviation (input) FREE_MAGIC :: u32 where "FREE_MAGIC \<equiv> 0x0DEFACED"
abbreviation (input) HIGHMEM_START :: u32 where "HIGHMEM_START \<equiv> 0x20000000"
abbreviation (input) sizeof_kmem :: u32 where "sizeof_kmem \<equiv> 32"

record kmem =
  kdata :: u32
  ksize :: u32
  kfree_flag :: u32
  kprev :: u32
  knext :: u32
  kmagic :: u32

text \<open>\<open>release_unused\<close> is the option \<^verbatim>\<open>CONFIG_KMEM_RELEASE_UNUSED\<close>; the lazy and the background
  variants of the release, which are off by default, are not modelled.\<close>

record kheap =
  khdr :: "u32 \<Rightarrow> kmem option"
  kmem_init_ptr :: u32
  kmem_last :: u32
  kmem_nodes :: "u32 list"
  kmem_avail_bytes :: u32
  kmem_alloc_fail :: bool
  sbrk :: u32
  addr_lo :: u32
  addr_hi :: u32
  kstat :: mm_stat
  release_unused :: bool
  bootmem_freed :: "u32 list"

section \<open>The system break\<close>

definition kernel_sbrk :: "u32 \<Rightarrow> kheap \<Rightarrow> u32 \<times> kheap" where
  "kernel_sbrk increment st =
     (if increment = 0 then (sbrk st, st)
      else
        let oldbrk = sbrk st;
            increment = align_up increment 8;
            brk = oldbrk + increment
        in if increment > mm_free_bytes (kstat st) then (- 1, st)
           else if brk < addr_lo st then (- 1, st)
           else if brk > addr_hi st then (- 1, st)
           else (oldbrk, st\<lparr>sbrk := brk\<rparr>))"

section \<open>Headers\<close>

definition hdr :: "u32 \<Rightarrow> kheap \<Rightarrow> kmem option" where
  "hdr a st = khdr st a"

definition set_hdr :: "u32 \<Rightarrow> kmem \<Rightarrow> kheap \<Rightarrow> kheap" where
  "set_hdr a k st = st\<lparr>khdr := (khdr st)(a \<mapsto> k)\<rparr>"

text \<open>A store to a field of a header that exists.\<close>

definition upd_hdr :: "u32 \<Rightarrow> (kmem \<Rightarrow> kmem) \<Rightarrow> kheap \<Rightarrow> kheap option" where
  "upd_hdr a f st = do { k \<leftarrow> hdr a st; Some (set_hdr a (f k) st) }"

definition kmem_find_free_chunk :: "u32 \<Rightarrow> kheap \<Rightarrow> (u32 \<times> kheap) option" where
  "kmem_find_free_chunk sz st =
     (if kmem_nodes st = [] then Some (0, st)
      else case find (\<lambda>a. case hdr a st of None \<Rightarrow> True | Some k \<Rightarrow> ksize k \<ge> sz) (kmem_nodes st) of
        None \<Rightarrow> Some (0, st)
      | Some a \<Rightarrow> do { k \<leftarrow> hdr a st; Some (a, st\<lparr>kmem_nodes := remove1 a (kmem_nodes st)\<rparr>) })"

definition kmem_split :: "u32 \<Rightarrow> u32 \<Rightarrow> kheap \<Rightarrow> kheap option" where
  "kmem_split a sz st = do {
     k \<leftarrow> hdr a st;
     let split = align_up (kdata k + sz) 8;
     let len = split - kdata k;
     if ksize k < len + sizeof_kmem then Some st
     else do {
       let s = \<lparr>kdata = split + sizeof_kmem, ksize = ksize k - len - sizeof_kmem, kfree_flag = FREE_MAGIC,
                kprev = a, knext = knext k, kmagic = 0\<rparr>;
       let st = set_hdr split s st;
       st \<leftarrow> upd_hdr a (\<lambda>k. k\<lparr>ksize := len\<rparr>) st;
       st \<leftarrow> (if knext k \<noteq> 0 then upd_hdr (knext k) (\<lambda>n. n\<lparr>kprev := split\<rparr>) st else Some st);
       st \<leftarrow> upd_hdr a (\<lambda>k. k\<lparr>knext := split\<rparr>) st;
       let st = (if knext s = 0 then st\<lparr>kmem_last := split\<rparr> else st);
       Some (st\<lparr>kmem_avail_bytes := kmem_avail_bytes st + ksize s, kmem_nodes := kmem_nodes st @ [split]\<rparr>)
     }
   }"

definition kmem_merge :: "u32 \<Rightarrow> kheap \<Rightarrow> kheap option" where
  "kmem_merge a st = do {
     k \<leftarrow> hdr a st;
     n \<leftarrow> hdr (knext k) st;
     st \<leftarrow> upd_hdr a (\<lambda>k. k\<lparr>ksize := ksize k + ksize n + sizeof_kmem, knext := knext n\<rparr>) st;
     if knext n \<noteq> 0 then upd_hdr (knext n) (\<lambda>m. m\<lparr>kprev := a\<rparr>) st else Some st
   }"

definition kmem_release_unused :: "kheap \<Rightarrow> kheap option" where
  "kmem_release_unused st = do {
     let a = kmem_last st;
     k \<leftarrow> hdr a st;
     if kfree_flag k \<noteq> FREE_MAGIC then Some st
     else do {
       st \<leftarrow> upd_hdr (kprev k) (\<lambda>p. p\<lparr>knext := 0\<rparr>) st;
       let st = st\<lparr>kmem_last := kprev k, kmem_avail_bytes := kmem_avail_bytes st - ksize k\<rparr>;
       st \<leftarrow> upd_hdr a (\<lambda>k. k\<lparr>kfree_flag := 0, kmagic := 0\<rparr>) st;
       let st = st\<lparr>kmem_nodes := remove1 a (kmem_nodes st)\<rparr>;
       Some (snd (kernel_sbrk (- (ksize k + sizeof_kmem)) st))
     }
   }"

section \<open>The interface\<close>

definition kmem_init :: "kheap \<Rightarrow> u32 \<times> kheap" where
  "kmem_init st =
     (if kmem_init_ptr st \<noteq> 0 then (kmem_init_ptr st, st)
      else
        let (p, st) = kernel_sbrk (align_up sizeof_kmem 8) st; st = st\<lparr>kmem_init_ptr := p\<rparr>
        in if p = - 1 then (0, st)
           else
             (p, (set_hdr p \<lparr>kdata = 0, ksize = 0, kfree_flag = 0, kprev = 0, knext = 0, kmagic = MAGIC\<rparr> st)
                 \<lparr>kmem_nodes := [], kmem_last := p\<rparr>))"

definition kmalloc_success :: "u32 \<Rightarrow> kheap \<Rightarrow> (u32 \<times> kheap) option" where
  "kmalloc_success a st = do {
     st \<leftarrow> upd_hdr a (\<lambda>k. k\<lparr>kfree_flag := 0, kmagic := MAGIC\<rparr>) st;
     k \<leftarrow> hdr a st;
     Some (kdata k, st)
   }"

definition kmalloc_fail :: "kheap \<Rightarrow> u32 \<times> kheap" where
  "kmalloc_fail st = (0, st\<lparr>kmem_alloc_fail := True\<rparr>)"

definition kmalloc :: "u32 \<Rightarrow> kheap \<Rightarrow> (u32 \<times> kheap) option" where
  "kmalloc sz st =
     (if sz = 0 then Some (0, st)
      else do {
        let len = align_up (sz + sizeof_kmem) 8;
        (a, st) \<leftarrow> kmem_find_free_chunk len st;
        if a \<noteq> 0 then do {
          k \<leftarrow> hdr a st;
          let st = st\<lparr>kmem_avail_bytes := kmem_avail_bytes st - ksize k\<rparr>;
          st \<leftarrow> (if len + sizeof_kmem < ksize k then kmem_split a len st else Some st);
          kmalloc_success a st
        }
        else do {
          l \<leftarrow> hdr (kmem_last st) st;
          if kfree_flag l = FREE_MAGIC then do {
            let a = kmem_last st;
            let (r, st) = kernel_sbrk (len - ksize l) st;
            if r = - 1 then Some (kmalloc_fail st)
            else do {
              let st = st\<lparr>kmem_nodes := remove1 a (kmem_nodes st), kmem_avail_bytes := kmem_avail_bytes st - ksize l\<rparr>;
              let (b, st) = kernel_sbrk 0 st;
              st \<leftarrow> upd_hdr a (\<lambda>k. k\<lparr>ksize := b - a - sizeof_kmem\<rparr>) st;
              kmalloc_success a st
            }
          }
          else do {
            let (a, st) = kernel_sbrk len st;
            if a = - 1 then Some (kmalloc_fail st)
            else do {
              st \<leftarrow> upd_hdr (kmem_last st) (\<lambda>p. p\<lparr>knext := a\<rparr>) st;
              let (b, st) = kernel_sbrk 0 st;
              let st = set_hdr a \<lparr>kdata = a + sizeof_kmem, ksize = b - a - sizeof_kmem, kfree_flag = 0,
                                  kprev = kmem_last st, knext = 0, kmagic = 0\<rparr> st;
              kmalloc_success a (st\<lparr>kmem_last := a\<rparr>)
            }
          }
        }
      })"

text \<open>\<^verbatim>\<open>kfree\<close>.  The release of physical memory above \<^verbatim>\<open>HIGHMEM_START\<close> is left to the boot
  memory allocator; the model records the address.\<close>

definition kfree_valid :: "u32 \<Rightarrow> kheap \<Rightarrow> bool option" where
  "kfree_valid ptr st =
     (if ptr < fst (kmem_init st) \<or> ptr > fst (kernel_sbrk 0 st) then Some False
      else do {
        k \<leftarrow> hdr (ptr - sizeof_kmem) st;
        if kdata k \<noteq> ptr \<or> kmagic k \<noteq> MAGIC then Some False
        else if knext k = 0 then Some True
        else do {
          n \<leftarrow> hdr (knext k) st;
          Some (kfree_flag n = 0 \<or> kfree_flag n = FREE_MAGIC)
        }
      })"

definition kfree_merge_next :: "u32 \<Rightarrow> kheap \<Rightarrow> kheap option" where
  "kfree_merge_next a st = do {
     k \<leftarrow> hdr a st;
     if knext k = 0 then Some st
     else do {
       n \<leftarrow> hdr (knext k) st;
       if kfree_flag n = 0 then Some st
       else kmem_merge a (st\<lparr>kmem_nodes := remove1 (knext k) (kmem_nodes st),
                              kmem_avail_bytes := kmem_avail_bytes st - ksize n\<rparr>)
     }
   }"

definition kfree_merge_prev :: "u32 \<Rightarrow> kheap \<Rightarrow> (u32 \<times> kheap) option" where
  "kfree_merge_prev a st = do {
     k \<leftarrow> hdr a st;
     p \<leftarrow> hdr (kprev k) st;
     if kfree_flag p = 0 then Some (a, st)
     else do {
       st \<leftarrow> upd_hdr a (\<lambda>k. k\<lparr>kfree_flag := 0\<rparr>) (st\<lparr>kmem_nodes := remove1 (kprev k) (kmem_nodes st)\<rparr>);
       st \<leftarrow> kmem_merge (kprev k) (st\<lparr>kmem_avail_bytes := kmem_avail_bytes st - ksize p\<rparr>);
       Some (kprev k, st)
     }
   }"

definition kfree :: "u32 \<Rightarrow> kheap \<Rightarrow> kheap option" where
  "kfree ptr st =
     (if ptr = 0 then Some st
      else if ptr \<ge> HIGHMEM_START then Some (st\<lparr>bootmem_freed := ptr # bootmem_freed st\<rparr>)
      else do {
        ok \<leftarrow> kfree_valid ptr st;
        if \<not> ok then Some st
        else do {
          let a = ptr - sizeof_kmem;
          st \<leftarrow> upd_hdr a (\<lambda>k. k\<lparr>kfree_flag := FREE_MAGIC, kmagic := 0\<rparr>) st;
          st \<leftarrow> kfree_merge_next a st;
          (a, st) \<leftarrow> kfree_merge_prev a st;
          k \<leftarrow> hdr a st;
          let st = st\<lparr>kmem_avail_bytes := kmem_avail_bytes st + ksize k\<rparr>;
          let st = (if knext k = 0 then st\<lparr>kmem_last := a\<rparr> else st);
          let st = st\<lparr>kmem_nodes := kmem_nodes st @ [a]\<rparr>;
          if release_unused st then kmem_release_unused st else Some st
        }
      })"

section \<open>Allocations with contents\<close>

text \<open>The functions that also write to the memory they allocate; the byte memory holds the data.\<close>

fun zero_loop :: "nat \<Rightarrow> u32 \<Rightarrow> mem \<Rightarrow> mem" where
  "zero_loop 0 dst m = m"
| "zero_loop (Suc n) dst m = zero_loop n (dst + 1) (m(dst := 0))"

definition kcalloc :: "u32 \<Rightarrow> u32 \<Rightarrow> kheap \<times> mem \<Rightarrow> (u32 \<times> kheap \<times> mem) option" where
  "kcalloc nmemb sz = (\<lambda>(st, m). do {
     let len = nmemb * sz;
     (ptr, st) \<leftarrow> kmalloc len st;
     Some (ptr, st, if ptr \<noteq> 0 then zero_loop (unat len) ptr m else m)
   })"

definition kzalloc :: "u32 \<Rightarrow> kheap \<times> mem \<Rightarrow> (u32 \<times> kheap \<times> mem) option" where
  "kzalloc sz = kcalloc sz 1"

fun copy_loop :: "nat \<Rightarrow> u32 \<Rightarrow> u32 \<Rightarrow> mem \<Rightarrow> mem" where
  "copy_loop 0 dst src m = m"
| "copy_loop (Suc n) dst src m = copy_loop n (dst + 1) (src + 1) (m(dst := m src))"

definition krealloc :: "u32 \<Rightarrow> u32 \<Rightarrow> kheap \<times> mem \<Rightarrow> (u32 \<times> kheap \<times> mem) option" where
  "krealloc ptr sz = (\<lambda>(st, m).
     if ptr = 0 then do { (p, st) \<leftarrow> kmalloc sz st; Some (p, st, m) }
     else if ptr < fst (kmem_init st) \<or> ptr > fst (kernel_sbrk 0 st) then Some (0, st, m)
     else do {
       k \<leftarrow> hdr (ptr - sizeof_kmem) st;
       if kdata k \<noteq> ptr then Some (0, st, m)
       else do {
         (ptr_new, st) \<leftarrow> kmalloc sz st;
         if ptr_new = 0 then Some (0, st, m)
         else do {
           k \<leftarrow> hdr (ptr - sizeof_kmem) st;
           let len = (if ksize k > sz then sz else ksize k);
           let m = copy_loop (unat len) ptr_new ptr m;
           st \<leftarrow> kfree ptr st;
           Some (ptr_new, st, m)
         }
       }
     })"

end
