(* ===== verification/Kmem_Inv.thy ===== *)
theory Kmem_Inv
  imports Kmem
begin

text \<open>
  The chunks of the kernel heap as a list of cells \<open>(address, size, free)\<close> in the order of their
  addresses, and what splitting, merging, taking and releasing chunks do to that list.
\<close>

type_synonym cell = "u32 \<times> u32 \<times> bool"

section \<open>The chain of headers\<close>

definition first :: "cell list \<Rightarrow> u32 \<Rightarrow> u32" where
  "first cs n = (case cs of [] \<Rightarrow> n | c # _ \<Rightarrow> fst c)"

definition lastp :: "u32 \<Rightarrow> cell list \<Rightarrow> u32" where
  "lastp p cs = (if cs = [] then p else fst (last cs))"

lemma first_simps [simp]: "first [] n = n" "first (c # cs) n = fst c" "first (xs @ ys) n = first xs (first ys n)"
  by (auto simp: first_def split: list.splits)

lemma lastp_simps [simp]: "lastp p [] = p" "lastp p (c # cs) = lastp (fst c) cs" "lastp p (xs @ ys) = lastp (lastp p xs) ys"
  by (auto simp: lastp_def)

lemma lastp_other: "ys \<noteq> [] \<Longrightarrow> lastp p ys = lastp q ys"
  by (simp add: lastp_def)

definition hdr_ok :: "kmem \<Rightarrow> u32 \<Rightarrow> u32 \<Rightarrow> bool \<Rightarrow> u32 \<Rightarrow> u32 \<Rightarrow> bool" where
  "hdr_ok k a s f p n \<longleftrightarrow> kdata k = a + sizeof_kmem \<and> ksize k = s \<and> kfree_flag k = (if f then FREE_MAGIC else 0)
     \<and> (\<not> f \<longrightarrow> kmagic k = MAGIC) \<and> kprev k = p \<and> knext k = n"

fun kseg :: "(u32 \<Rightarrow> kmem option) \<Rightarrow> u32 \<Rightarrow> cell list \<Rightarrow> u32 \<Rightarrow> bool" where
  "kseg h p [] n \<longleftrightarrow> True"
| "kseg h p ((a, s, f) # cs) n \<longleftrightarrow> (\<exists>k. h a = Some k \<and> hdr_ok k a s f p (first cs n)) \<and> kseg h a cs n"

lemma kseg_append: "kseg h p (xs @ ys) n \<longleftrightarrow> kseg h p xs (first ys n) \<and> kseg h (lastp p xs) ys n"
proof (induction xs arbitrary: p)
  case (Cons c xs)
  obtain a s f where "c = (a, s, f)" by (cases c)
  with Cons.IH [of a] show ?case by (simp add: conj_assoc)
qed simp

lemma kseg_frame: "(\<And>c. c \<in> set cs \<Longrightarrow> h' (fst c) = h (fst c)) \<Longrightarrow> kseg h' p cs n \<longleftrightarrow> kseg h p cs n"
proof (induction cs arbitrary: p)
  case (Cons c cs)
  obtain a s f where c: "c = (a, s, f)" by (cases c)
  have "h' a = h a" using Cons.prems [of c] c by simp
  moreover have "kseg h' a cs n \<longleftrightarrow> kseg h a cs n" using Cons.prems by (intro Cons.IH) simp
  ultimately show ?case using c by simp
qed simp

text \<open>The first chunk gets another predecessor.\<close>

lemma kseg_prev:
  assumes "kseg h p cs n" "distinct (map fst cs)" "\<And>c. c \<in> set (tl cs) \<Longrightarrow> h' (fst c) = h (fst c)"
    and "cs \<noteq> [] \<Longrightarrow> h' (first cs 0) = map_option (\<lambda>k. k\<lparr>kprev := p'\<rparr>) (h (first cs 0))"
  shows "kseg h' p' cs n"
proof (cases cs)
  case (Cons c cs')
  obtain a s f where c: "c = (a, s, f)" by (cases c)
  from assms(1) Cons c obtain k where k: "h a = Some k" "hdr_ok k a s f p (first cs' n)" "kseg h a cs' n" by auto
  have "kseg h' a cs' n" using kseg_frame [of cs' h' h a n] assms(3) k(3) Cons by auto
  with k assms(4) Cons c show ?thesis by (simp add: hdr_ok_def)
qed simp

text \<open>The last chunk of a segment gets another successor.\<close>

lemma kseg_next:
  assumes "kseg h p xs n" "xs \<noteq> []" "distinct (map fst xs)" "\<And>c. c \<in> set (butlast xs) \<Longrightarrow> h' (fst c) = h (fst c)"
    and "h' (lastp p xs) = map_option (\<lambda>k. k\<lparr>knext := n'\<rparr>) (h (lastp p xs))"
  shows "kseg h' p xs n'"
  using assms
proof (induction xs arbitrary: p)
  case (Cons c xs)
  obtain a s f where c: "c = (a, s, f)" by (cases c)
  show ?case
  proof (cases "xs = []")
    case True
    with Cons.prems c show ?thesis by (auto simp: hdr_ok_def)
  next
    case False
    then obtain d ds where d: "xs = d # ds" by (cases xs) auto
    have "kseg h' a xs n'"
      by (rule Cons.IH) (use Cons.prems False c in auto)
    moreover have "h' a = h a" using Cons.prems(4) [of c] False c by simp
    ultimately show ?thesis using Cons.prems(1) c d by auto
  qed
qed simp

section \<open>Where the chunks lie\<close>

fun geom :: "nat \<Rightarrow> cell list \<Rightarrow> nat \<Rightarrow> bool" where
  "geom lo [] hi \<longleftrightarrow> lo \<le> hi"
| "geom lo ((a, s, f) # cs) hi \<longleftrightarrow> lo \<le> unat a \<and> 8 dvd unat a \<and> 8 dvd unat s \<and> geom (unat a + 32 + unat s) cs hi"

lemma geom_le: "geom lo cs hi \<Longrightarrow> lo \<le> hi"
  by (induction cs arbitrary: lo) (auto, fastforce)

lemma geom_lo: "geom lo cs hi \<Longrightarrow> lo' \<le> lo \<Longrightarrow> geom lo' cs hi"
  by (cases cs) auto

lemma geom_hi: "geom lo cs hi \<Longrightarrow> hi \<le> hi' \<Longrightarrow> geom lo cs hi'"
  by (induction cs arbitrary: lo) auto

fun cells_end :: "nat \<Rightarrow> cell list \<Rightarrow> nat" where
  "cells_end lo [] = lo"
| "cells_end lo ((a, s, f) # cs) = cells_end (unat a + 32 + unat s) cs"

lemma geom_append: "geom lo (xs @ ys) hi \<longleftrightarrow> geom lo xs (cells_end lo xs) \<and> geom (cells_end lo xs) ys hi"
proof (induction xs arbitrary: lo)
  case Nil
  then show ?case by simp
qed auto

lemma geom_range: "geom lo cs hi \<Longrightarrow> (a, s, f) \<in> set cs \<Longrightarrow> lo \<le> unat a \<and> unat a + 32 + unat s \<le> hi \<and> 8 dvd unat a \<and> 8 dvd unat s"
proof (induction cs arbitrary: lo)
  case (Cons c cs)
  obtain b t g where c: "c = (b, t, g)" by (cases c)
  show ?case
  proof (cases "(a, s, f) = c")
    case True
    with Cons.prems c geom_le [of "unat a + 32 + unat s" cs hi] show ?thesis by auto
  next
    case False
    then have "(a, s, f) \<in> set cs" using Cons.prems(2) by auto
    with Cons.IH [of "unat b + 32 + unat t"] Cons.prems(1) c show ?thesis by auto
  qed
qed simp

lemma geom_distinct: "geom lo cs hi \<Longrightarrow> distinct (map fst cs)"
proof (induction cs arbitrary: lo)
  case (Cons c cs)
  obtain a s f where c: "c = (a, s, f)" by (cases c)
  with Cons.prems have g: "geom (unat a + 32 + unat s) cs hi" by simp
  have "a \<notin> fst ` set cs"
  proof
    assume "a \<in> fst ` set cs"
    then obtain t g where "(a, t, g) \<in> set cs" by auto
    with geom_range [OF \<open>geom (unat a + 32 + unat s) cs hi\<close>] show False by fastforce
  qed
  with Cons.IH [OF g] c show ?case by simp
qed simp

text \<open>The blocks in use, by the address and the size of their data.\<close>

definition klive :: "cell list \<Rightarrow> (u32 \<times> u32) set" where
  "klive cs = {(a + 32, s) |a s. (a, s, False) \<in> set cs}"

lemma klive_append [simp]: "klive (xs @ ys) = klive xs \<union> klive ys"
  by (auto simp: klive_def)

lemma klive_Cons [simp]: "klive ((a, s, f) # cs) = (if f then klive cs else insert (a + 32, s) (klive cs))"
  by (auto simp: klive_def)

lemma klive_Nil [simp]: "klive [] = {}"
  by (simp add: klive_def)

lemma free_cells_append: "fst ` {c \<in> set (xs @ ys). snd (snd c)} = fst ` {c \<in> set xs. snd (snd c)} \<union> fst ` {c \<in> set ys. snd (snd c)}"
  by auto

lemma geom_split:
  assumes "geom lo (xs @ (a, s, f) # ys) hi" "hi < 2 ^ 32" "8 dvd unat len" "unat len + 32 \<le> unat s"
  shows "geom lo (xs @ (a, len, f) # (a + 32 + len, s - len - 32, g) # ys) hi"
    and "unat (a + 32 + len) = unat a + 32 + unat len" and "unat (s - len - 32) = unat s - unat len - 32"
proof -
  have r: "unat a + 32 + unat s \<le> hi" "8 dvd unat a" "8 dvd unat s" using geom_range [OF assms(1), of a s f] by auto
  show b: "unat (a + 32 + len) = unat a + 32 + unat len"
    using r(1) assms(2,4) unat_add2 [of a 32] unat_add2 [of "a + 32" len] by simp
  have "len \<le> s" "32 \<le> s - len" using assms(4) by (simp_all add: word_le_nat_alt unat_sub)
  then show t: "unat (s - len - 32) = unat s - unat len - 32" by (simp add: unat_sub)
  have "8 dvd unat a + 32 + unat len" using r(2) assms(3) by simp
  moreover have "8 dvd unat s - unat len - 32" using r(3) assms(3) by (simp add: dvd_diff_nat)
  moreover have "unat a + 32 + unat len + 32 + (unat s - unat len - 32) = unat a + 32 + unat s" using assms(4) by simp
  ultimately show "geom lo (xs @ (a, len, f) # (a + 32 + len, s - len - 32, g) # ys) hi"
    using assms(1) b t assms(3) by (auto simp: geom_append add.assoc)
qed

lemma geom_merge:
  assumes "geom lo (xs @ (a, s, f) # (b, t, g) # ys) hi" "hi < 2 ^ 32"
  shows "geom lo (xs @ (a, s + t + 32, f') # ys) hi" and "unat (s + t + 32) = unat s + unat t + 32"
proof -
  have g: "geom lo xs (cells_end lo xs)" "cells_end lo xs \<le> unat a" "8 dvd unat a" "8 dvd unat s"
    "unat a + 32 + unat s \<le> unat b" "8 dvd unat t" "geom (unat b + 32 + unat t) ys hi"
    using assms(1) by (auto simp: geom_append)
  have "unat b + 32 + unat t \<le> hi" using geom_le [OF g(7)] .
  then show u: "unat (s + t + 32) = unat s + unat t + 32"
    using g(5) assms(2) unat_add2 [of s t] unat_add2 [of "s + t" 32] by simp
  have "geom (unat a + 32 + unat (s + t + 32)) ys hi" by (rule geom_lo [OF g(7)]) (use u g(5) in simp)
  with g u show "geom lo (xs @ (a, s + t + 32, f') # ys) hi" by (simp add: geom_append)
qed

lemma geom_flag: "geom lo (xs @ (a, s, f) # ys) hi \<longleftrightarrow> geom lo (xs @ (a, s, f') # ys) hi"
  by (simp add: geom_append)

section \<open>Operations on the chain\<close>

definition kchain :: "(u32 \<Rightarrow> kmem option) \<Rightarrow> u32 \<Rightarrow> cell list \<Rightarrow> bool" where
  "kchain h i cs \<longleftrightarrow> (\<exists>k. h i = Some k \<and> kdata k = 0 \<and> kfree_flag k = 0 \<and> knext k = first cs 0) \<and> kseg h i cs 0"

lemma kchain_at:
  assumes "kchain h i (xs @ (a, s, f) # ys)"
  obtains k where "h a = Some k" "hdr_ok k a s f (lastp i xs) (first ys 0)"
  using assms by (auto simp: kchain_def kseg_append)

lemma addresses:
  assumes "geom (unat i + 32) cs hi"
  shows "distinct (i # map fst cs)" "i \<noteq> 0 \<Longrightarrow> 0 \<notin> fst ` set cs"
proof -
  have "unat i < unat (fst c)" if "c \<in> set cs" for c
    using geom_range [OF assms, of "fst c" "fst (snd c)" "snd (snd c)"] that by simp
  then have "i \<notin> fst ` set cs" "0 \<notin> fst ` set cs" by fastforce+
  with geom_distinct [OF assms] show "distinct (i # map fst cs)" "i \<noteq> 0 \<Longrightarrow> 0 \<notin> fst ` set cs" by auto
qed

lemma kchain_mid:
  "kchain h i (xs @ (a, s, f) # ys) \<longleftrightarrow> (\<exists>k. h i = Some k \<and> kdata k = 0 \<and> kfree_flag k = 0 \<and> knext k = first xs a)
     \<and> kseg h i xs a \<and> (\<exists>k. h a = Some k \<and> hdr_ok k a s f (lastp i xs) (first ys 0)) \<and> kseg h a ys 0"
  by (auto simp: kchain_def kseg_append)

lemma kseg_first:
  assumes "kseg h p ys n" "ys \<noteq> []"
  obtains k where "h (first ys 0) = Some k"
  using assms by (cases ys) auto

lemma first_in: "ys \<noteq> [] \<Longrightarrow> first ys 0 \<in> fst ` set ys"
  by (cases ys) auto

lemma kmem_split_chain:
  assumes c: "kchain (khdr st) i (xs @ (a, s, f) # ys)" and g: "geom (unat i + 32) (xs @ (a, s, f) # ys) hi" "hi < 2 ^ 32" "i \<noteq> 0"
    and l: "8 dvd unat len" "unat len + 32 \<le> unat s"
  defines "b \<equiv> a + 32 + len"
  shows "\<exists>h. kmem_split a len st = Some (st\<lparr>khdr := h, kmem_last := (if ys = [] then b else kmem_last st),
            kmem_avail_bytes := kmem_avail_bytes st + (s - len - 32), kmem_nodes := kmem_nodes st @ [b]\<rparr>)
          \<and> kchain h i (xs @ (a, len, f) # (b, s - len - 32, True) # ys)"
proof -
  from c obtain k where k: "khdr st a = Some k" "hdr_ok k a s f (lastp i xs) (first ys 0)" by (rule kchain_at)
  have g': "geom (unat i + 32) (xs @ (a, len, f) # (b, s - len - 32, True) # ys) hi"
    unfolding b_def by (rule geom_split [OF g(1,2) l])
  note ad = addresses [OF g'] 
  have "8 dvd unat b" using geom_range [OF g', of b "s - len - 32" True] by simp
  then have al: "align_up (kdata k + len) 8 = b" using k(2) by (simp add: hdr_ok_def align_up_id b_def)
  have dl: "b - kdata k = len" using k(2) by (simp add: hdr_ok_def b_def)
  have fit: "\<not> ksize k < len + 32"
    using k(2) l(2) unat_add2 [of len 32] unat_32 [of s] by (simp add: hdr_ok_def word_less_nat_alt)
  define s0 where "s0 = \<lparr>kdata = b + 32, ksize = s - len - 32, kfree_flag = FREE_MAGIC, kprev = a, knext = first ys 0, kmagic = 0\<rparr>"
  define h1 where "h1 = (khdr st)(b \<mapsto> s0, a \<mapsto> k\<lparr>ksize := len\<rparr>)"
  define h2 where "h2 = (if ys = [] then h1 else h1(first ys 0 := map_option (\<lambda>n. n\<lparr>kprev := b\<rparr>) (khdr st (first ys 0))))"
  define h where "h = h2(a \<mapsto> k\<lparr>ksize := len, knext := b\<rparr>)"
  have ys: "kseg (khdr st) a ys 0" using c by (simp add: kchain_mid)
  have nz: "ys \<noteq> [] \<longleftrightarrow> first ys 0 \<noteq> 0" using first_in [of ys] ad(2) g(3) by (cases ys) auto
  have dis: "a \<noteq> b" "ys \<noteq> [] \<Longrightarrow> first ys 0 \<noteq> a" "ys \<noteq> [] \<Longrightarrow> first ys 0 \<noteq> b"
    using ad(1) first_in [of ys] by auto
  have "kmem_split a len st = Some (st\<lparr>khdr := h, kmem_last := (if ys = [] then b else kmem_last st),
      kmem_avail_bytes := kmem_avail_bytes st + (s - len - 32), kmem_nodes := kmem_nodes st @ [b]\<rparr>)"
  proof (cases "ys = []")
    case True
    with k al dl fit dis show ?thesis
      by (simp add: kmem_split_def hdr_def upd_hdr_def set_hdr_def hdr_ok_def h_def h2_def h1_def s0_def Let_def)
  next
    case False
    then obtain n where "khdr st (first ys 0) = Some n" using kseg_first [OF ys] by blast
    with False k al dl fit dis nz show ?thesis
      by (simp add: kmem_split_def hdr_def upd_hdr_def set_hdr_def hdr_ok_def h_def h2_def h1_def s0_def Let_def fun_upd_twist)
  qed
  moreover have "kchain h i (xs @ (a, len, f) # (b, s - len - 32, True) # ys)"
  proof -
    have same: "h c = khdr st c" if "c \<noteq> a" "c \<noteq> b" "ys = [] \<or> c \<noteq> first ys 0" for c
      using that by (auto simp: h_def h2_def h1_def)
    have "h i = khdr st i" using ad(1) first_in [of ys] by (intro same) auto
    moreover have "kseg h i xs a"
    proof -
      have "h (fst c) = khdr st (fst c)" if "c \<in> set xs" for c
        using that ad(1) first_in [of ys] by (intro same) auto
      from kseg_frame [of xs h "khdr st", OF this] c show ?thesis by (simp add: kchain_mid)
    qed
    moreover have "\<exists>k. h a = Some k \<and> hdr_ok k a len f (lastp i xs) b" using k(2) by (simp add: h_def hdr_ok_def)
    moreover have "h b = Some s0" using dis by (auto simp: h_def h2_def h1_def)
    moreover have "kseg h b ys 0"
    proof (rule kseg_prev [OF ys])
      show "distinct (map fst ys)" using ad(1) by simp
      show "h (fst c) = khdr st (fst c)" if "c \<in> set (tl ys)" for c
        using that ad(1) by (intro same) (cases ys; auto)+
      show "h (first ys 0) = map_option (\<lambda>k. k\<lparr>kprev := b\<rparr>) (khdr st (first ys 0))" if "ys \<noteq> []"
        using that dis by (simp add: h_def h2_def)
    qed
    ultimately show ?thesis using c by (auto simp: kchain_mid hdr_ok_def s0_def)
  qed
  ultimately show ?thesis by blast
qed

lemma kmem_merge_chain:
  assumes c: "kchain (khdr st) i (xs @ (a, s, f) # (b, t, g) # ys)" and g: "geom (unat i + 32) (xs @ (a, s, f) # (b, t, g) # ys) hi" "i \<noteq> 0"
  shows "\<exists>h. kmem_merge a st = Some (st\<lparr>khdr := h\<rparr>) \<and> kchain h i (xs @ (a, s + t + 32, f) # ys)
     \<and> h b = khdr st b"
proof -
  from c obtain k where k: "khdr st a = Some k" "hdr_ok k a s f (lastp i xs) b" by (auto elim: kchain_at)
  have c': "kchain (khdr st) i ((xs @ [(a, s, f)]) @ (b, t, g) # ys)" using c by simp
  then obtain n where n: "khdr st b = Some n" "hdr_ok n b t g a (first ys 0)" by (rule kchain_at) simp
  note ad = addresses [OF g(1)]
  define h1 where "h1 = (khdr st)(a \<mapsto> k\<lparr>ksize := s + t + 32, knext := first ys 0\<rparr>)"
  define h where "h = (if ys = [] then h1 else h1(first ys 0 := map_option (\<lambda>n. n\<lparr>kprev := a\<rparr>) (khdr st (first ys 0))))"
  have ys: "kseg (khdr st) b ys 0" using c by (simp add: kchain_mid)
  have nz: "ys \<noteq> [] \<longleftrightarrow> first ys 0 \<noteq> 0" using first_in [of ys] ad(2) g(2) by (cases ys) auto
  have dis: "a \<noteq> b" "ys \<noteq> [] \<Longrightarrow> first ys 0 \<noteq> a" "ys \<noteq> [] \<Longrightarrow> first ys 0 \<noteq> b"
    using ad(1) first_in [of ys] by auto
  have "kmem_merge a st = Some (st\<lparr>khdr := h\<rparr>)"
  proof (cases "ys = []")
    case True
    with k n show ?thesis
      by (simp add: kmem_merge_def hdr_def upd_hdr_def set_hdr_def hdr_ok_def h_def h1_def)
  next
    case False
    then obtain m where "khdr st (first ys 0) = Some m" using kseg_first [OF ys] by blast
    with False k n dis nz show ?thesis
      by (simp add: kmem_merge_def hdr_def upd_hdr_def set_hdr_def hdr_ok_def h_def h1_def)
  qed
  moreover have "kchain h i (xs @ (a, s + t + 32, f) # ys)"
  proof -
    have same: "h c = khdr st c" if "c \<noteq> a" "ys = [] \<or> c \<noteq> first ys 0" for c
      using that by (auto simp: h_def h1_def)
    have "h i = khdr st i" using ad(1) first_in [of ys] by (intro same) auto
    moreover have "kseg h i xs a"
    proof -
      have "h (fst c) = khdr st (fst c)" if "c \<in> set xs" for c
        using that ad(1) first_in [of ys] by (intro same) auto
      from kseg_frame [of xs h "khdr st", OF this] c show ?thesis by (simp add: kchain_mid)
    qed
    moreover have "\<exists>k. h a = Some k \<and> hdr_ok k a (s + t + 32) f (lastp i xs) (first ys 0)"
      using k(2) dis by (auto simp: h_def h1_def hdr_ok_def)
    moreover have "kseg h a ys 0"
    proof (rule kseg_prev [OF ys])
      show "distinct (map fst ys)" using ad(1) by simp
      show "h (fst c) = khdr st (fst c)" if "c \<in> set (tl ys)" for c
        using that ad(1) by (intro same) (cases ys; auto)+
      show "h (first ys 0) = map_option (\<lambda>k. k\<lparr>kprev := a\<rparr>) (khdr st (first ys 0))" if "ys \<noteq> []"
        using that dis by (simp add: h_def)
    qed
    ultimately show ?thesis using c by (auto simp: kchain_mid)
  qed
  moreover have "h b = khdr st b" using dis by (auto simp: h_def h1_def)
  ultimately show ?thesis by blast
qed

text \<open>Stores to one chunk that keep its place in the chain.\<close>

lemma upd_chunk:
  assumes c: "kchain (khdr st) i (xs @ (a, s, f) # ys)" and g: "geom (unat i + 32) (xs @ (a, s, f) # ys) hi"
    and u: "\<And>k. hdr_ok k a s f (lastp i xs) (first ys 0) \<Longrightarrow> hdr_ok (u k) a s' f' (lastp i xs) (first ys 0)"
  shows "\<exists>h. upd_hdr a u st = Some (st\<lparr>khdr := h\<rparr>) \<and> kchain h i (xs @ (a, s', f') # ys)"
proof -
  from c obtain k where k: "khdr st a = Some k" "hdr_ok k a s f (lastp i xs) (first ys 0)" by (rule kchain_at)
  let ?h = "(khdr st)(a \<mapsto> u k)"
  note ad = addresses [OF g]
  have "kseg ?h i xs a \<longleftrightarrow> kseg (khdr st) i xs a" using ad(1) by (intro kseg_frame) auto
  moreover have "kseg ?h a ys 0 \<longleftrightarrow> kseg (khdr st) a ys 0" using ad(1) by (intro kseg_frame) auto
  ultimately have "kchain ?h i (xs @ (a, s', f') # ys)" using c ad(1) u [OF k(2)] by (auto simp: kchain_mid)
  moreover have "upd_hdr a u st = Some (st\<lparr>khdr := ?h\<rparr>)" using k by (simp add: upd_hdr_def hdr_def set_hdr_def)
  ultimately show ?thesis by blast
qed

text \<open>A chunk behind the last one.\<close>

lemma append_chunk:
  assumes c: "kchain (khdr st) i cs" and g: "geom (unat i + 32) (cs @ [(a, s, f)]) hi"
    and k: "hdr_ok k a s f (lastp i cs) 0"
  shows "\<exists>h. upd_hdr (lastp i cs) (\<lambda>p. p\<lparr>knext := a\<rparr>) st = Some (st\<lparr>khdr := h\<rparr>) \<and> kchain (h(a \<mapsto> k)) i (cs @ [(a, s, f)])"
proof (cases "cs = []")
  case True
  with c obtain k0 where "khdr st i = Some k0" "kdata k0 = 0" "kfree_flag k0 = 0" "knext k0 = 0" by (auto simp: kchain_def)
  with True k addresses [OF g] show ?thesis
    by (auto simp: upd_hdr_def hdr_def set_hdr_def kchain_def)
next
  case False
  then obtain bs b t e where cs: "cs = bs @ [(b, t, e)]" by (metis prod_cases3 rev_exhaust)
  from c cs obtain l where l: "khdr st b = Some l" "hdr_ok l b t e (lastp i bs) 0" by (auto elim: kchain_at)
  let ?h = "(khdr st)(b \<mapsto> l\<lparr>knext := a\<rparr>)"
  note ad = addresses [OF g, unfolded cs]
  have "kseg (?h(a \<mapsto> k)) i bs b \<longleftrightarrow> kseg (khdr st) i bs b" using ad(1) by (intro kseg_frame) auto
  with c cs have "kseg (?h(a \<mapsto> k)) i bs b" by (simp add: kchain_mid)
  moreover have "(?h(a \<mapsto> k)) i = khdr st i" "(?h(a \<mapsto> k)) b = Some (l\<lparr>knext := a\<rparr>)" using ad(1) by auto
  moreover have "hdr_ok (l\<lparr>knext := a\<rparr>) b t e (lastp i bs) a" using l(2) by (simp add: hdr_ok_def)
  ultimately have "kchain (?h(a \<mapsto> k)) i (bs @ (b, t, e) # [(a, s, f)])" using c cs k by (auto simp: kchain_mid)
  moreover have "upd_hdr b (\<lambda>p. p\<lparr>knext := a\<rparr>) st = Some (st\<lparr>khdr := ?h\<rparr>)" using l by (simp add: upd_hdr_def hdr_def set_hdr_def)
  ultimately show ?thesis using cs by auto
qed

text \<open>The last chunk is unlinked.\<close>

lemma drop_chunk:
  assumes c: "kchain (khdr st) i (cs @ [(a, s, f)])" and g: "geom (unat i + 32) (cs @ [(a, s, f)]) hi"
  shows "\<exists>h. upd_hdr (lastp i cs) (\<lambda>p. p\<lparr>knext := 0\<rparr>) st = Some (st\<lparr>khdr := h\<rparr>) \<and> kchain h i cs \<and> h a = khdr st a"
proof (cases "cs = []")
  case True
  with c obtain k0 where "khdr st i = Some k0" "kdata k0 = 0" "kfree_flag k0 = 0" by (auto simp: kchain_def)
  with True addresses [OF g] show ?thesis
    by (auto simp: upd_hdr_def hdr_def set_hdr_def kchain_def)
next
  case False
  then obtain bs b t e where cs: "cs = bs @ [(b, t, e)]" by (metis prod_cases3 rev_exhaust)
  from c cs obtain l where l: "khdr st b = Some l" "hdr_ok l b t e (lastp i bs) a" by (auto elim: kchain_at)
  let ?h = "(khdr st)(b \<mapsto> l\<lparr>knext := 0\<rparr>)"
  note ad = addresses [OF g, unfolded cs]
  have "kseg ?h i bs b \<longleftrightarrow> kseg (khdr st) i bs b" using ad(1) by (intro kseg_frame) auto
  with c cs have "kseg ?h i bs b" by (simp add: kchain_mid)
  moreover have "?h i = khdr st i" "?h b = Some (l\<lparr>knext := 0\<rparr>)" "?h a = khdr st a" using ad(1) by auto
  moreover have "hdr_ok (l\<lparr>knext := 0\<rparr>) b t e (lastp i bs) 0" using l(2) by (simp add: hdr_ok_def)
  ultimately have "kchain ?h i (bs @ (b, t, e) # [])" using c cs by (auto simp: kchain_mid)
  moreover have "upd_hdr b (\<lambda>p. p\<lparr>knext := 0\<rparr>) st = Some (st\<lparr>khdr := ?h\<rparr>)" using l by (simp add: upd_hdr_def hdr_def set_hdr_def)
  ultimately show ?thesis using cs \<open>?h a = khdr st a\<close> by auto
qed

lemma kchain_frame: "kchain h i cs \<Longrightarrow> (\<And>c. c \<in> insert i (fst ` set cs) \<Longrightarrow> h' c = h c) \<Longrightarrow> kchain h' i cs"
  using kseg_frame [of cs h' h i 0] by (auto simp: kchain_def)

section \<open>The invariant\<close>

definition is_free :: "cell \<Rightarrow> bool" where
  "is_free c = snd (snd c)"

definition free_addrs :: "cell list \<Rightarrow> u32 set" where
  "free_addrs cs = set (map fst (filter is_free cs))"

definition free_sum :: "cell list \<Rightarrow> u32" where
  "free_sum cs = sum_list (map (\<lambda>c. if is_free c then fst (snd c) else 0) cs)"

lemma free_addrs_simps [simp]:
  "free_addrs [] = {}" "free_addrs ((a, s, f) # cs) = (if f then insert a (free_addrs cs) else free_addrs cs)"
  "free_addrs (xs @ ys) = free_addrs xs \<union> free_addrs ys"
  by (auto simp: free_addrs_def is_free_def)

lemma free_sum_simps [simp]:
  "free_sum [] = 0" "free_sum ((a, s, f) # cs) = (if f then s + free_sum cs else free_sum cs)"
  "free_sum (xs @ ys) = free_sum xs + free_sum ys"
  by (auto simp: free_sum_def is_free_def)

lemma free_addrs_sub: "free_addrs cs \<subseteq> fst ` set cs"
  by (auto simp: free_addrs_def)

text \<open>
  The bounds of the break hold for the memory map of the boards: the heap lies below
  \<^verbatim>\<open>HIGHMEM_START\<close>, and at most half of the address space is memory.
\<close>

definition brk_ok :: "kheap \<Rightarrow> bool" where
  "brk_ok st \<longleftrightarrow> 8 dvd unat (sbrk st) \<and> sbrk st \<le> addr_hi st \<and> addr_hi st < HIGHMEM_START \<and> unat (mm_free_bytes (kstat st)) \<le> 2 ^ 31"

definition heap_ok :: "kheap \<Rightarrow> cell list \<Rightarrow> bool" where
  "heap_ok st cs \<longleftrightarrow> kmem_init_ptr st \<noteq> 0 \<and> kchain (khdr st) (kmem_init_ptr st) cs
     \<and> geom (unat (kmem_init_ptr st) + 32) cs (unat (sbrk st)) \<and> kmem_last st = lastp (kmem_init_ptr st) cs
     \<and> distinct (kmem_nodes st) \<and> set (kmem_nodes st) = free_addrs cs \<and> kmem_avail_bytes st = free_sum cs \<and> brk_ok st"

lemma brk_bound: "brk_ok st \<Longrightarrow> unat (sbrk st) < 0x20000000"
  by (auto simp: brk_ok_def word_le_nat_alt word_less_nat_alt)

lemma kernel_sbrk_cases:
  assumes "brk_ok st" "inc \<noteq> 0" "unat inc + 7 < 2 ^ 32"
  shows "kernel_sbrk inc st = (- 1, st)
    \<or> (kernel_sbrk inc st = (sbrk st, st\<lparr>sbrk := sbrk st + align_up inc 8\<rparr>)
       \<and> unat (sbrk st + align_up inc 8) = unat (sbrk st) + (unat inc + 7) div 8 * 8
       \<and> brk_ok (st\<lparr>sbrk := sbrk st + align_up inc 8\<rparr>) \<and> sbrk st \<noteq> - 1)"
proof (cases "align_up inc 8 > mm_free_bytes (kstat st) \<or> sbrk st + align_up inc 8 < addr_lo st \<or> sbrk st + align_up inc 8 > addr_hi st")
  case True
  with assms(2) show ?thesis by (auto simp: kernel_sbrk_def Let_def)
next
  case False
  have u: "unat (align_up inc 8) = (unat inc + 7) div 8 * 8" by (rule unat_align_up [OF assms(3)])
  have b: "unat (sbrk st) < 0x20000000" by (rule brk_bound [OF assms(1)])
  have "unat (align_up inc 8) \<le> 2 ^ 31" using False assms(1) by (auto simp: brk_ok_def word_le_nat_alt not_less)
  then have s: "unat (sbrk st + align_up inc 8) = unat (sbrk st) + (unat inc + 7) div 8 * 8"
    using b u unat_add2 [of "sbrk st" "align_up inc 8"] by simp
  have "sbrk st \<noteq> - 1" using b by (auto simp: unsigned_minus_1_eq_mask mask_eq_exp_minus_1)
  moreover have "brk_ok (st\<lparr>sbrk := sbrk st + align_up inc 8\<rparr>)"
    using assms(1) False s by (auto simp: brk_ok_def not_less)
  ultimately show ?thesis using False assms(2) s by (auto simp: kernel_sbrk_def Let_def)
qed

lemma kernel_sbrk_down:
  assumes "brk_ok st" "8 \<le> unat n" "unat n < 2 ^ 31"
  shows "kernel_sbrk (- n) st = (- 1, st)"
proof -
  have "n \<noteq> 0" using assms(2) by auto
  then have n: "unat (- n) = 2 ^ 32 - unat n" using unat_diff_of_nat [of 0 "unat n", OF _ unat_32] assms(2) by simp
  then have "unat (align_up (- n) 8) = (2 ^ 32 - unat n + 7) div 8 * 8" using assms(2,3) by (subst unat_align_up) auto
  moreover have "2 ^ 31 < (2 ^ 32 - unat n + 7) div 8 * 8"
  proof -
    define x where "x = 2 ^ 32 - unat n + 7"
    have "x div 8 * 8 + x mod 8 = x" "x mod 8 < 8" by simp_all
    moreover have "2 ^ 31 + 7 < x" using assms(3) by (simp add: x_def)
    ultimately show ?thesis unfolding x_def [symmetric] by linarith
  qed
  ultimately have "align_up (- n) 8 > mm_free_bytes (kstat st)" using assms(1) by (auto simp: brk_ok_def word_less_nat_alt)
  with \<open>n \<noteq> 0\<close> show ?thesis by (simp add: kernel_sbrk_def Let_def)
qed

section \<open>Allocation\<close>

lemma klive_addr:
  assumes "geom lo cs hi" "hi < 2 ^ 32" "(r, s) \<in> klive cs"
  obtains a where "r = a + 32" "(a, s, False) \<in> set cs" "unat r = unat a + 32" "lo + 32 \<le> unat r" "unat r + unat s \<le> hi"
proof -
  from assms(3) obtain a where a: "r = a + 32" "(a, s, False) \<in> set cs" by (auto simp: klive_def)
  from geom_range [OF assms(1) a(2)] have g: "lo \<le> unat a" "unat a + 32 + unat s \<le> hi" by auto
  with assms(2) unat_add2 [of a 32] have "unat (a + 32) = unat a + 32" by simp
  with a g that show ?thesis by simp
qed

text \<open>\<open>took st cs a s st'\<close>: the free chunk \<open>a\<close> has been taken and has the size \<open>s\<close>.\<close>

definition allocated :: "cell list \<Rightarrow> kheap \<Rightarrow> u32 \<Rightarrow> u32 \<Rightarrow> bool" where
  "allocated cs st r sz \<longleftrightarrow> (\<exists>cs' s. heap_ok st cs' \<and> (r, s) \<notin> klive cs \<and> klive cs' = insert (r, s) (klive cs) \<and> unat sz \<le> unat s)"

lemma free_split:
  assumes "a \<in> free_addrs cs"
  obtains xs s ys where "cs = xs @ (a, s, True) # ys"
proof -
  from assms obtain c where c: "c \<in> set cs" "is_free c" "fst c = a" by (auto simp: free_addrs_def)
  then have "c = (a, fst (snd c), True)" by (auto simp: is_free_def prod_eq_iff)
  with c(1) have "(a, fst (snd c), True) \<in> set cs" by simp
  then show ?thesis using that split_list by metis
qed

lemma not_live_free:
  assumes "geom lo (xs @ (a, s, True) # ys) hi" "hi < 2 ^ 32"
  shows "(a + 32, t) \<notin> klive (xs @ ys)"
proof
  assume "(a + 32, t) \<in> klive (xs @ ys)"
  then have "(a, t, False) \<in> set (xs @ ys)" by (auto simp: klive_def)
  then have "a \<in> fst ` set (xs @ ys)" by force
  with geom_distinct [OF assms(1)] show False by auto
qed

lemma kmalloc_success_ok:
  assumes "kchain (khdr st) (kmem_init_ptr st) (xs @ (a, s, f) # ys)" "geom (unat (kmem_init_ptr st) + 32) (xs @ (a, s, f) # ys) hi"
    "kmem_init_ptr st \<noteq> 0"
  shows "\<exists>h. kmalloc_success a st = Some (a + 32, st\<lparr>khdr := h\<rparr>) \<and> kchain h (kmem_init_ptr st) (xs @ (a, s, False) # ys)"
proof -
  have "\<exists>h. upd_hdr a (\<lambda>k. k\<lparr>kfree_flag := 0, kmagic := MAGIC\<rparr>) st = Some (st\<lparr>khdr := h\<rparr>)
      \<and> kchain h (kmem_init_ptr st) (xs @ (a, s, False) # ys)"
    by (rule upd_chunk [OF assms(1,2)]) (auto simp: hdr_ok_def)
  then obtain h where h: "upd_hdr a (\<lambda>k. k\<lparr>kfree_flag := 0, kmagic := MAGIC\<rparr>) st = Some (st\<lparr>khdr := h\<rparr>)"
    "kchain h (kmem_init_ptr st) (xs @ (a, s, False) # ys)" by blast
  from h(2) obtain k where "h a = Some k" "kdata k = a + 32" by (auto elim!: kchain_at simp: hdr_ok_def)
  with h show ?thesis by (intro exI [of _ h]) (simp add: kmalloc_success_def hdr_def)
qed

text \<open>From the free list, with or without a split.\<close>

lemma kmalloc_take:
  assumes ok: "heap_ok st (xs @ (a, s, True) # ys)" and len: "8 dvd unat len" "unat len \<le> unat s" "unat sz \<le> unat len"
  defines "st1 \<equiv> st\<lparr>kmem_nodes := remove1 a (kmem_nodes st), kmem_avail_bytes := kmem_avail_bytes st - s\<rparr>"
  shows "\<exists>r st'. do { st \<leftarrow> (if len + sizeof_kmem < s then kmem_split a len st1 else Some st1); kmalloc_success a st } = Some (r, st')
     \<and> r \<noteq> 0 \<and> allocated (xs @ (a, s, True) # ys) st' r sz"
proof -
  let ?i = "kmem_init_ptr st"
  note h = ok [unfolded heap_ok_def]
  have i: "?i \<noteq> 0" and c: "kchain (khdr st1) ?i (xs @ (a, s, True) # ys)" and g: "geom (unat ?i + 32) (xs @ (a, s, True) # ys) (unat (sbrk st))"
    using h by (simp_all add: st1_def)
  have hi: "unat (sbrk st) < 2 ^ 32" by (rule unat_32)
  have fa: "a \<notin> free_addrs (xs @ ys)" using geom_distinct [OF g] free_addrs_sub [of xs] free_addrs_sub [of ys] by auto
  have nd: "distinct (remove1 a (kmem_nodes st))" "set (remove1 a (kmem_nodes st)) = free_addrs (xs @ ys)"
    using h fa by auto
  have sb: "unat s < 0x20000000" using geom_range [OF g, of a s True] brk_bound [of st] h by simp
  have ar: "unat (a + 32) = unat a + 32" using geom_range [OF g, of a s True] hi unat_add2 [of a 32] by simp
  then have r0: "a + 32 \<noteq> 0" by auto
  show ?thesis
  proof (cases "len + sizeof_kmem < s")
    case True
    then have l: "unat len + 32 \<le> unat s"
      using len(2) unat_add2 [of len 32] sb by (auto simp: word_less_nat_alt)
    obtain h' where h': "kmem_split a len st1 = Some (st1\<lparr>khdr := h', kmem_last := (if ys = [] then a + 32 + len else kmem_last st1),
            kmem_avail_bytes := kmem_avail_bytes st1 + (s - len - 32), kmem_nodes := kmem_nodes st1 @ [a + 32 + len]\<rparr>)"
      "kchain h' ?i (xs @ (a, len, True) # (a + 32 + len, s - len - 32, True) # ys)"
      using kmem_split_chain [OF c g hi i len(1) l] by blast
    let ?st2 = "st1\<lparr>khdr := h', kmem_last := (if ys = [] then a + 32 + len else kmem_last st1),
            kmem_avail_bytes := kmem_avail_bytes st1 + (s - len - 32), kmem_nodes := kmem_nodes st1 @ [a + 32 + len]\<rparr>"
    let ?cs = "xs @ (a, len, False) # (a + 32 + len, s - len - 32, True) # ys"
    have g2: "geom (unat ?i + 32) (xs @ (a, len, True) # (a + 32 + len, s - len - 32, True) # ys) (unat (sbrk st))"
      by (rule geom_split(1) [OF g hi len(1) l])
    obtain h'' where h'': "kmalloc_success a ?st2 = Some (a + 32, ?st2\<lparr>khdr := h''\<rparr>)" "kchain h'' ?i ?cs"
      using kmalloc_success_ok [of ?st2 xs a len True _ "unat (sbrk st)"] h'(2) g2 i by (auto simp: st1_def)
    have "a + 32 + len \<notin> free_addrs (xs @ ys)" using geom_distinct [OF g2] free_addrs_sub [of xs] free_addrs_sub [of ys] by auto
    moreover have "geom (unat ?i + 32) ?cs (unat (sbrk st))" using g2 geom_flag by blast
    moreover have "free_sum (xs @ (a, s, True) # ys) - s + (s - len - 32) = free_sum ?cs" by simp
    ultimately have "heap_ok (?st2\<lparr>khdr := h''\<rparr>) ?cs"
      using h i h''(2) nd lastp_other [of ys a "a + 32 + len"] by (simp add: heap_ok_def st1_def brk_ok_def)
    moreover have "klive ?cs = insert (a + 32, len) (klive (xs @ (a, s, True) # ys))" by auto
    ultimately have "allocated (xs @ (a, s, True) # ys) (?st2\<lparr>khdr := h''\<rparr>) (a + 32) sz"
      using not_live_free [OF g hi, of len] len(3) unfolding allocated_def by (intro exI [of _ ?cs] exI [of _ len]) auto
    with h'(1) h''(1) True r0 show ?thesis by auto
  next
    case False
    let ?cs = "xs @ (a, s, False) # ys"
    obtain h'' where h'': "kmalloc_success a st1 = Some (a + 32, st1\<lparr>khdr := h''\<rparr>)" "kchain h'' ?i ?cs"
      using kmalloc_success_ok [of st1 xs a s True ys "unat (sbrk st)"] c g i by (auto simp: st1_def)
    have "geom (unat ?i + 32) ?cs (unat (sbrk st))" using g geom_flag by blast
    then have "heap_ok (st1\<lparr>khdr := h''\<rparr>) ?cs"
      using h i h''(2) nd by (simp add: heap_ok_def st1_def brk_ok_def)
    moreover have "klive ?cs = insert (a + 32, s) (klive (xs @ (a, s, True) # ys))" by auto
    ultimately have "allocated (xs @ (a, s, True) # ys) (st1\<lparr>khdr := h''\<rparr>) (a + 32) sz"
      using not_live_free [OF g hi, of s] len(2,3) unfolding allocated_def by (intro exI [of _ ?cs] exI [of _ s]) auto
    with h''(1) False r0 show ?thesis by auto
  qed
qed

text \<open>The last chunk is free but too small: it grows with the break.\<close>

lemma kmalloc_grow:
  assumes ok: "heap_ok st (xs @ [(a, s, True)])" and len: "8 dvd unat len" "unat s < unat len" "unat len + 7 < 2 ^ 32" "unat sz \<le> unat len"
  defines "st1 \<equiv> snd (kernel_sbrk (len - s) st)"
  defines "st2 \<equiv> st1\<lparr>kmem_nodes := remove1 a (kmem_nodes st1), kmem_avail_bytes := kmem_avail_bytes st1 - s\<rparr>"
  shows "kernel_sbrk (len - s) st = (- 1, st) \<or> fst (kernel_sbrk (len - s) st) \<noteq> - 1
     \<and> (\<exists>r st'. do { st \<leftarrow> upd_hdr a (\<lambda>k. k\<lparr>ksize := sbrk st2 - a - sizeof_kmem\<rparr>) st2; kmalloc_success a st } = Some (r, st')
     \<and> r \<noteq> 0 \<and> allocated (xs @ [(a, s, True)]) st' r sz)"
proof (cases "kernel_sbrk (len - s) st = (- 1, st)")
  case False
  let ?i = "kmem_init_ptr st"
  note h = ok [unfolded heap_ok_def]
  have ls: "unat (len - s) = unat len - unat s" using len(2) by (simp add: unat_sub word_le_nat_alt)
  with len(2) have n0: "len - s \<noteq> 0" by auto
  from kernel_sbrk_cases [of st "len - s", OF _ n0] ls len(3) h False have k: "kernel_sbrk (len - s) st = (sbrk st, st\<lparr>sbrk := sbrk st + align_up (len - s) 8\<rparr>)"
    "unat (sbrk st + align_up (len - s) 8) = unat (sbrk st) + (unat (len - s) + 7) div 8 * 8"
    "brk_ok (st\<lparr>sbrk := sbrk st + align_up (len - s) 8\<rparr>)" "sbrk st \<noteq> - 1" by auto
  let ?b = "sbrk st + align_up (len - s) 8"
  have st1: "st1 = st\<lparr>sbrk := ?b\<rparr>" using k(1) by (simp add: st1_def)
  have hi: "unat (sbrk st) < 2 ^ 32" "unat ?b < 2 ^ 32" by (rule unat_32)+
  have g: "geom (unat ?i + 32) (xs @ [(a, s, True)]) (unat (sbrk st))" and i: "?i \<noteq> 0"
    and c: "kchain (khdr st2) ?i (xs @ [(a, s, True)])" using h by (simp_all add: st2_def st1)
  have ra: "unat a + 32 + unat s \<le> unat (sbrk st)" "8 dvd unat a" "8 dvd unat s" using geom_range [OF g, of a s True] by auto
  have b8: "8 dvd unat ?b" using k(3) by (simp add: brk_ok_def)
  have bl: "unat a + 32 + unat len \<le> unat ?b"
  proof -
    have "unat len - unat s \<le> (unat len - unat s + 7) div 8 * 8" by linarith
    then show ?thesis using k(2) ls ra(1) len(2) by simp
  qed
  let ?s = "?b - a - 32"
  have us: "unat ?s = unat ?b - unat a - 32"
  proof -
    have "a \<le> ?b" "32 \<le> ?b - a" using bl by (simp_all add: word_le_nat_alt unat_sub)
    then show ?thesis by (simp add: unat_sub)
  qed
  have "\<exists>h. upd_hdr a (\<lambda>k. k\<lparr>ksize := ?s\<rparr>) st2 = Some (st2\<lparr>khdr := h\<rparr>) \<and> kchain h ?i (xs @ [(a, ?s, True)])"
    by (rule upd_chunk [OF c g]) (simp add: hdr_ok_def)
  then obtain h1 where h1: "upd_hdr a (\<lambda>k. k\<lparr>ksize := ?s\<rparr>) st2 = Some (st2\<lparr>khdr := h1\<rparr>)" "kchain h1 ?i (xs @ [(a, ?s, True)])" by blast
  have "8 dvd unat ?s" unfolding us using b8 ra(2) by (simp add: dvd_diff_nat)
  then have g2: "geom (unat ?i + 32) (xs @ [(a, ?s, f)]) (unat ?b)" for f
    using g bl us by (auto simp: geom_append)
  obtain h2 where h2: "kmalloc_success a (st2\<lparr>khdr := h1\<rparr>) = Some (a + 32, st2\<lparr>khdr := h2\<rparr>)" "kchain h2 ?i (xs @ [(a, ?s, False)])"
    using kmalloc_success_ok [of "st2\<lparr>khdr := h1\<rparr>" xs a ?s True "[]" "unat ?b"] h1(2) g2 i by (auto simp: st2_def st1)
  have fa: "a \<notin> free_addrs xs" using geom_distinct [OF g] free_addrs_sub [of xs] by auto
  then have nd: "distinct (remove1 a (kmem_nodes st))" "set (remove1 a (kmem_nodes st)) = free_addrs xs" using h by auto
  have "heap_ok (st2\<lparr>khdr := h2\<rparr>) (xs @ [(a, ?s, False)])"
    using h i h2(2) nd g2 k(3) by (simp add: heap_ok_def st2_def st1 brk_ok_def)
  moreover have "(a + 32, ?s) \<notin> klive xs" using not_live_free [OF g hi(1)] by simp
  moreover have "unat sz \<le> unat ?s" using us bl len(4) by simp
  ultimately have "allocated (xs @ [(a, s, True)]) (st2\<lparr>khdr := h2\<rparr>) (a + 32) sz"
    unfolding allocated_def by (intro exI [of _ "xs @ [(a, ?s, False)]"] exI [of _ ?s]) auto
  moreover have "a + 32 \<noteq> 0" using ra(1) hi(1) unat_add2 [of a 32] by auto
  moreover have "sbrk st2 = ?b" by (simp add: st2_def st1)
  ultimately show ?thesis using h1(1) h2(1) k(1,4) by auto
qed simp

text \<open>A fresh chunk at the break.\<close>

lemma kmalloc_fresh:
  assumes ok: "heap_ok st cs" and len: "8 dvd unat len" "40 \<le> unat len" "unat len + 7 < 2 ^ 32" "unat sz + 32 \<le> unat len"
  defines "st1 \<equiv> snd (kernel_sbrk len st)" and "a \<equiv> fst (kernel_sbrk len st)"
  shows "kernel_sbrk len st = (- 1, st) \<or> a \<noteq> - 1
     \<and> (\<exists>r st'. do { st \<leftarrow> upd_hdr (kmem_last st1) (\<lambda>p. p\<lparr>knext := a\<rparr>) st1;
          kmalloc_success a ((set_hdr a \<lparr>kdata = a + sizeof_kmem, ksize = sbrk st - a - sizeof_kmem, kfree_flag = 0,
                                  kprev = kmem_last st, knext = 0, kmagic = 0\<rparr> st)\<lparr>kmem_last := a\<rparr>) } = Some (r, st')
     \<and> r \<noteq> 0 \<and> allocated cs st' r sz)"
proof (cases "kernel_sbrk len st = (- 1, st)")
  case False
  let ?i = "kmem_init_ptr st" and ?b = "sbrk st + align_up len 8"
  note h = ok [unfolded heap_ok_def]
  have l0: "len \<noteq> 0" using len(2) by auto
  have al: "align_up len 8 = len" by (rule align_up_id [OF len(1)])
  from kernel_sbrk_cases [of st len, OF _ l0 len(3)] h False al len(1) have k: "kernel_sbrk len st = (sbrk st, st\<lparr>sbrk := ?b\<rparr>)"
    "unat ?b = unat (sbrk st) + unat len" "brk_ok (st\<lparr>sbrk := ?b\<rparr>)" "sbrk st \<noteq> - 1" by (auto simp: dvd_def)
  then have st1: "st1 = st\<lparr>sbrk := ?b\<rparr>" and a: "a = sbrk st" by (simp_all add: st1_def a_def)
  have hi: "unat ?b < 2 ^ 32" by (rule unat_32)
  let ?s = "?b - a - 32"
  have us: "unat ?s = unat len - 32"
  proof -
    have "?b - a = len" by (simp add: a al)
    moreover have "32 \<le> len" using len(2) by (simp add: word_le_nat_alt)
    ultimately show ?thesis by (simp add: unat_sub)
  qed
  let ?k = "\<lparr>kdata = a + sizeof_kmem, ksize = ?s, kfree_flag = 0, kprev = lastp ?i cs, knext = 0, kmagic = MAGIC\<rparr>"
  have g: "geom (unat ?i + 32) cs (unat a)" using h a by simp
  have ce: "cells_end lo cs \<le> hi \<and> geom lo cs (cells_end lo cs)" if "geom lo cs hi" for lo hi
    using that geom_append [of lo cs "[]" hi] by simp
  have "8 dvd unat a" using h a by (simp add: brk_ok_def)
  moreover have "8 dvd unat ?s" unfolding us using len(1) by (simp add: dvd_diff_nat)
  moreover have "unat a + 32 + unat ?s \<le> unat ?b" using us k(2) a len(2) by simp
  ultimately have g2: "geom (unat ?i + 32) (cs @ [(a, ?s, f)]) (unat ?b)" for f
    using ce [OF g] by (simp add: geom_append)
  have c: "kchain (khdr st1) ?i cs" and la: "kmem_last st1 = lastp ?i cs" using h by (simp_all add: st1)
  obtain h1 where h1: "upd_hdr (lastp ?i cs) (\<lambda>p. p\<lparr>knext := a\<rparr>) st1 = Some (st1\<lparr>khdr := h1\<rparr>)"
    "kchain (h1(a \<mapsto> ?k)) ?i (cs @ [(a, ?s, False)])"
    using append_chunk [OF c g2 [of False], of ?k] by (auto simp: hdr_ok_def)
  let ?st = "st1\<lparr>khdr := h1(a \<mapsto> ?k), kmem_last := a\<rparr>"
  have run: "do { st \<leftarrow> upd_hdr (kmem_last st1) (\<lambda>p. p\<lparr>knext := a\<rparr>) st1;
          kmalloc_success a ((set_hdr a \<lparr>kdata = a + sizeof_kmem, ksize = sbrk st - a - sizeof_kmem, kfree_flag = 0,
                                  kprev = kmem_last st, knext = 0, kmagic = 0\<rparr> st)\<lparr>kmem_last := a\<rparr>) } = Some (a + 32, ?st)"
    using h1(1) la by (simp add: kmalloc_success_def upd_hdr_def set_hdr_def hdr_def st1)
  have "heap_ok ?st (cs @ [(a, ?s, False)])" using h h1(2) g2 k(3) by (simp add: heap_ok_def st1 brk_ok_def)
  moreover have "(a + 32, ?s) \<notin> klive cs"
  proof
    assume "(a + 32, ?s) \<in> klive cs"
    then obtain x where "x + 32 = a + 32" "(x, ?s, False) \<in> set cs" by (auto simp: klive_def)
    with geom_range [OF g, of a ?s False] show False by simp
  qed
  moreover have "unat sz \<le> unat ?s" using us len(4) by simp
  ultimately have "allocated cs ?st (a + 32) sz"
    unfolding allocated_def by (intro exI [of _ "cs @ [(a, ?s, False)]"] exI [of _ ?s]) auto
  moreover have "a + 32 \<noteq> 0" using brk_bound [of st] h a unat_add2 [of a 32] by auto
  ultimately show ?thesis using run k(4) a by auto
qed simp

lemma find_chunk:
  assumes ok: "heap_ok st cs"
  obtains "kmem_find_free_chunk len st = Some (0, st)" "\<And>a s. (a, s, True) \<in> set cs \<Longrightarrow> s < len"
  | xs a s ys where "cs = xs @ (a, s, True) # ys" "len \<le> s" "a \<noteq> 0"
      "kmem_find_free_chunk len st = Some (a, st\<lparr>kmem_nodes := remove1 a (kmem_nodes st)\<rparr>)"
proof -
  note h = ok [unfolded heap_ok_def]
  let ?P = "\<lambda>a. case hdr a st of None \<Rightarrow> True | Some k \<Rightarrow> ksize k \<ge> len"
  have sz: "\<exists>k. khdr st a = Some k \<and> ksize k = s" if "(a, s, f) \<in> set cs" for a s f
  proof -
    from that obtain xs ys where "cs = xs @ (a, s, f) # ys" by (meson split_list)
    with h show ?thesis by (auto elim!: kchain_at simp: hdr_ok_def)
  qed
  show ?thesis
  proof (cases "find ?P (kmem_nodes st)")
    case None
    have "s < len" if "(a, s, True) \<in> set cs" for a s
    proof -
      have "a \<in> set (kmem_nodes st)" using h that by (force simp: free_addrs_def is_free_def)
      with None have "\<not> ?P a" by (simp add: find_None_iff)
      with sz [OF that] show ?thesis by (auto simp: hdr_def)
    qed
    moreover have "kmem_find_free_chunk len st = Some (0, st)" using None by (simp add: kmem_find_free_chunk_def)
    ultimately show ?thesis using that(1) by blast
  next
    case (Some a)
    then have a: "a \<in> set (kmem_nodes st)" "?P a" by (auto simp: find_Some_iff)
    with h have "a \<in> free_addrs cs" by simp
    then obtain xs s ys where cs: "cs = xs @ (a, s, True) # ys" by (rule free_split)
    with sz [of a s True] a(2) obtain k where k: "khdr st a = Some k" "ksize k = s" "len \<le> s" by (auto simp: hdr_def)
    have "a \<noteq> 0" using addresses(2) [of "kmem_init_ptr st" cs] h cs by auto
    moreover have "kmem_find_free_chunk len st = Some (a, st\<lparr>kmem_nodes := remove1 a (kmem_nodes st)\<rparr>)"
      using Some a(1) k(1) by (auto simp: kmem_find_free_chunk_def hdr_def)
    ultimately show ?thesis using that(2) cs k(3) by blast
  qed
qed

lemma fail_ok: "heap_ok st cs \<Longrightarrow> heap_ok (snd (kmalloc_fail st)) cs"
  by (simp add: kmalloc_fail_def heap_ok_def brk_ok_def)

lemma kmalloc_ok:
  assumes ok: "heap_ok st cs" and sz: "sz \<noteq> 0" "unat sz + 46 < 2 ^ 32"
  shows "\<exists>r st'. kmalloc sz st = Some (r, st') \<and> (if r = 0 then heap_ok st' cs else allocated cs st' r sz)"
proof -
  note h = ok [unfolded heap_ok_def]
  define len where "len = align_up (sz + 32) 8"
  have s32: "unat (sz + 32) = unat sz + 32" using sz(2) unat_add2 [of sz 32] by simp
  then have ul: "unat len = (unat sz + 39) div 8 * 8" unfolding len_def using sz(2) by (subst unat_align_up) simp_all
  have "0 < unat sz" using sz(1) by (simp add: unat_gt_0)
  then have len: "8 dvd unat len" "40 \<le> unat len" "unat len + 7 < 2 ^ 32" "unat sz + 32 \<le> unat len"
  proof -
    have "(unat sz + 39) div 8 * 8 + (unat sz + 39) mod 8 = unat sz + 39" "(unat sz + 39) mod 8 < 8" by simp_all
    moreover assume "0 < unat sz"
    moreover have "8 dvd unat len" using ul by simp
    ultimately show "8 dvd unat len" "40 \<le> unat len" "unat len + 7 < 2 ^ 32" "unat sz + 32 \<le> unat len"
      using ul sz(2) by (auto elim: dvdE)
  qed
  show ?thesis
  proof (rule find_chunk [OF ok, of len])
    fix xs a s ys
    assume f: "cs = xs @ (a, s, True) # ys" "len \<le> s" "a \<noteq> 0" "kmem_find_free_chunk len st = Some (a, st\<lparr>kmem_nodes := remove1 a (kmem_nodes st)\<rparr>)"
    from h f(1) obtain k where k: "khdr st a = Some k" "ksize k = s" by (auto elim!: kchain_at simp: hdr_ok_def)
    from kmalloc_take [of st xs a s ys len sz] ok f(1,2) len obtain r st' where
      r: "do { st \<leftarrow> (if len + sizeof_kmem < s then kmem_split a len (st\<lparr>kmem_nodes := remove1 a (kmem_nodes st), kmem_avail_bytes := kmem_avail_bytes st - s\<rparr>)
          else Some (st\<lparr>kmem_nodes := remove1 a (kmem_nodes st), kmem_avail_bytes := kmem_avail_bytes st - s\<rparr>)); kmalloc_success a st } = Some (r, st')"
      "r \<noteq> 0" "allocated cs st' r sz" by (auto simp: word_le_nat_alt)
    have "kmalloc sz st = Some (r, st')"
      using sz(1) f(3,4) k r(1) by (simp add: kmalloc_def len_def [symmetric] hdr_def Let_def cong: if_cong)
    with r(2,3) show ?thesis by auto
  next
    assume none: "kmem_find_free_chunk len st = Some (0, st)" "\<And>a s. (a, s, True) \<in> set cs \<Longrightarrow> s < len"
    obtain l where l: "khdr st (kmem_last st) = Some l"
      "kfree_flag l = FREE_MAGIC \<longrightarrow> (\<exists>xs s. cs = xs @ [(kmem_last st, s, True)] \<and> ksize l = s)"
    proof (cases "cs = []")
      case True
      with h that show ?thesis by (auto simp: kchain_def)
    next
      case False
      then obtain xs a s f where cs: "cs = xs @ [(a, s, f)]" by (metis prod_cases3 rev_exhaust)
      with h obtain k where "khdr st a = Some k" "hdr_ok k a s f (lastp (kmem_init_ptr st) xs) 0" by (auto elim: kchain_at)
      with cs h that show ?thesis by (auto simp: hdr_ok_def split: if_splits)
    qed
    show ?thesis
    proof (cases "kfree_flag l = FREE_MAGIC")
      case True
      with l(2) obtain xs s where cs: "cs = xs @ [(kmem_last st, s, True)]" "ksize l = s" by blast
      have "unat s < unat len" using none(2) [of "kmem_last st" s] cs(1) by (simp add: word_less_nat_alt)
      with kmalloc_grow [of st xs "kmem_last st" s len sz] ok cs(1) len have
        gr: "kernel_sbrk (len - s) st = (- 1, st) \<or> fst (kernel_sbrk (len - s) st) \<noteq> - 1
          \<and> (let st1 = snd (kernel_sbrk (len - s) st); a = kmem_last st;
                 st2 = st1\<lparr>kmem_nodes := remove1 a (kmem_nodes st1), kmem_avail_bytes := kmem_avail_bytes st1 - s\<rparr>
             in \<exists>r st'. do { st \<leftarrow> upd_hdr a (\<lambda>k. k\<lparr>ksize := sbrk st2 - a - sizeof_kmem\<rparr>) st2; kmalloc_success a st } = Some (r, st')
               \<and> r \<noteq> 0 \<and> allocated cs st' r sz)" by (simp add: Let_def)
      then show ?thesis
      proof
        assume "kernel_sbrk (len - s) st = (- 1, st)"
        then have "kmalloc sz st = Some (kmalloc_fail st)"
          using sz(1) none(1) l(1) True cs(2) by (simp add: kmalloc_def len_def [symmetric] hdr_def Let_def)
        with fail_ok [OF ok] show ?thesis by (auto simp: kmalloc_fail_def)
      next
        assume g: "fst (kernel_sbrk (len - s) st) \<noteq> - 1
          \<and> (let st1 = snd (kernel_sbrk (len - s) st); a = kmem_last st;
                 st2 = st1\<lparr>kmem_nodes := remove1 a (kmem_nodes st1), kmem_avail_bytes := kmem_avail_bytes st1 - s\<rparr>
             in \<exists>r st'. do { st \<leftarrow> upd_hdr a (\<lambda>k. k\<lparr>ksize := sbrk st2 - a - sizeof_kmem\<rparr>) st2; kmalloc_success a st } = Some (r, st')
               \<and> r \<noteq> 0 \<and> allocated cs st' r sz)"
        then show ?thesis
          using sz(1) none(1) l(1) True cs(2)
          by (auto simp: kmalloc_def len_def [symmetric] hdr_def Let_def kernel_sbrk_def [of 0] split: prod.splits)
      qed
    next
      case False
      from kmalloc_fresh [OF ok len] show ?thesis
      proof
        assume "kernel_sbrk len st = (- 1, st)"
        then have "kmalloc sz st = Some (kmalloc_fail st)"
          using sz(1) none(1) l(1) False by (simp add: kmalloc_def len_def [symmetric] hdr_def Let_def)
        with fail_ok [OF ok] show ?thesis by (auto simp: kmalloc_fail_def)
      qed (use sz(1) none(1) l(1) False in
          \<open>auto simp: kmalloc_def len_def [symmetric] hdr_def Let_def kernel_sbrk_def [of 0] split: prod.splits\<close>)
    qed
  qed
qed

section \<open>Release\<close>

text \<open>
  \<open>freeing st0 st xs a s ys\<close>: the chunk \<open>a\<close> is marked free but not on the list of free chunks yet, while the
  neighbours are merged into it; \<open>st0\<close> is the state before.
\<close>

definition freeing :: "kheap \<Rightarrow> kheap \<Rightarrow> cell list \<Rightarrow> u32 \<Rightarrow> u32 \<Rightarrow> cell list \<Rightarrow> bool" where
  "freeing st0 st xs a s ys \<longleftrightarrow> kmem_init_ptr st0 = kmem_init_ptr st \<and> kmem_last st0 = kmem_last st
     \<and> sbrk st0 = sbrk st \<and> release_unused st0 = release_unused st
     \<and> kchain (khdr st) (kmem_init_ptr st) (xs @ (a, s, True) # ys)
     \<and> geom (unat (kmem_init_ptr st) + 32) (xs @ (a, s, True) # ys) (unat (sbrk st))
     \<and> distinct (kmem_nodes st) \<and> set (kmem_nodes st) = free_addrs (xs @ ys) \<and> kmem_avail_bytes st = free_sum (xs @ ys)
     \<and> kmem_init_ptr st \<noteq> 0 \<and> brk_ok st"

lemma merge_next_ok:
  assumes "freeing st0 st xs a s ys"
  shows "\<exists>st' s' ys'. kfree_merge_next a st = Some st' \<and> freeing st0 st' xs a s' ys' \<and> klive ys' = klive ys
     \<and> (ys = [] \<longrightarrow> ys' = []) \<and> (ys \<noteq> [] \<longrightarrow> ys' \<noteq> [] \<longrightarrow> lastp a ys' = lastp a ys) \<and> unat s \<le> unat s'"
proof -
  note f = assms [unfolded freeing_def]
  let ?i = "kmem_init_ptr st"
  from f obtain k where k: "khdr st a = Some k" "hdr_ok k a s True (lastp ?i xs) (first ys 0)" by (auto elim: kchain_at)
  have nz: "0 \<notin> fst ` set (xs @ (a, s, True) # ys)" using addresses(2) f by blast
  show ?thesis
  proof (cases ys)
    case Nil
    with k assms show ?thesis by (intro exI [of _ st] exI [of _ s] exI [of _ ys]) (simp add: kfree_merge_next_def hdr_def hdr_ok_def)
  next
    case (Cons c zs)
    obtain b t g where c: "c = (b, t, g)" by (cases c)
    have "kchain (khdr st) ?i ((xs @ [(a, s, True)]) @ (b, t, g) # zs)" using f Cons c by simp
    then obtain n where n: "khdr st b = Some n" "hdr_ok n b t g a (first zs 0)" by (rule kchain_at) simp
    have b0: "knext k = b" "b \<noteq> 0" using k(2) nz Cons c by (auto simp: hdr_ok_def)
    show ?thesis
    proof (cases g)
      case False
      with k n b0 have "kfree_merge_next a st = Some st" by (simp add: kfree_merge_next_def hdr_def hdr_ok_def)
      with assms show ?thesis by (intro exI [of _ st] exI [of _ s] exI [of _ ys]) simp
    next
      case True
      let ?st1 = "st\<lparr>kmem_nodes := remove1 b (kmem_nodes st), kmem_avail_bytes := kmem_avail_bytes st - t\<rparr>"
      have g1: "geom (unat ?i + 32) (xs @ (a, s, True) # (b, t, True) # zs) (unat (sbrk st))" using f Cons c True by simp
      have "\<exists>h. kmem_merge a ?st1 = Some (?st1\<lparr>khdr := h\<rparr>) \<and> kchain h ?i (xs @ (a, s + t + 32, True) # zs) \<and> h b = khdr ?st1 b"
        by (rule kmem_merge_chain [OF _ g1]) (use f Cons c True in auto)
      then obtain h where h: "kmem_merge a ?st1 = Some (?st1\<lparr>khdr := h\<rparr>)" "kchain h ?i (xs @ (a, s + t + 32, True) # zs)" by blast
      have run: "kfree_merge_next a st = Some (?st1\<lparr>khdr := h\<rparr>)"
        using k n b0 h(1) True by (simp add: kfree_merge_next_def hdr_def hdr_ok_def)
      have "b \<notin> free_addrs (xs @ zs)" using geom_distinct [OF g1] free_addrs_sub [of xs] free_addrs_sub [of zs] by auto
      then have nd: "distinct (remove1 b (kmem_nodes st))" "set (remove1 b (kmem_nodes st)) = free_addrs (xs @ zs)"
        using f Cons c True by auto
      have "freeing st0 (?st1\<lparr>khdr := h\<rparr>) xs a (s + t + 32) zs"
        unfolding freeing_def
      proof (intro conjI)
        show "geom (unat (kmem_init_ptr (?st1\<lparr>khdr := h\<rparr>)) + 32) (xs @ (a, s + t + 32, True) # zs) (unat (sbrk (?st1\<lparr>khdr := h\<rparr>)))"
          using geom_merge(1) [OF g1 unat_32] by simp
      qed (use f nd h(2) Cons c True in \<open>auto simp: brk_ok_def\<close>)
      moreover have "klive zs = klive ys" using Cons c True by simp
      moreover have "ys \<noteq> [] \<longrightarrow> zs \<noteq> [] \<longrightarrow> lastp a zs = lastp a ys" using Cons c lastp_other by auto
      moreover have "unat s \<le> unat (s + t + 32)" using geom_merge(2) [OF g1 unat_32] by simp
      ultimately show ?thesis using run Cons by blast
    qed
  qed
qed

lemma upd_swap: "st\<lparr>khdr := h, kmem_avail_bytes := v\<rparr> = st\<lparr>kmem_avail_bytes := v, khdr := h\<rparr>" for st :: kheap
  by (rule kheap.equality) simp_all

text \<open>The flag of the chunk that is merged into its predecessor does not matter.\<close>

lemma kmem_merge_other:
  assumes "khdr st p = Some k" "knext k = a" "khdr st a = Some n" "p \<noteq> a" "knext n \<noteq> a" "ksize n' = ksize n" "knext n' = knext n"
    and "kmem_merge p st = Some st'"
  shows "kmem_merge p (set_hdr a n' st) = Some (set_hdr a n' st')"
proof (cases "knext n = 0")
  case True
  with assms show ?thesis
    by (auto simp: kmem_merge_def hdr_def upd_hdr_def set_hdr_def fun_upd_twist)
next
  case False
  with assms(8,1-3) obtain m where m: "((khdr st)(p \<mapsto> k\<lparr>ksize := ksize k + ksize n + 32, knext := knext n\<rparr>)) (knext n) = Some m"
    by (auto simp: kmem_merge_def hdr_def upd_hdr_def set_hdr_def split: option.splits bind_splits)
  with False assms show ?thesis
    by (auto simp: kmem_merge_def hdr_def upd_hdr_def set_hdr_def fun_upd_twist split: if_splits)
qed

lemma merge_prev_ok:
  assumes "freeing st0 st xs a s ys"
  shows "\<exists>a' st' xs' s'. kfree_merge_prev a st = Some (a', st') \<and> freeing st0 st' xs' a' s' ys \<and> klive xs' = klive xs
     \<and> unat a' \<le> unat a \<and> unat s \<le> unat s'"
proof -
  note f = assms [unfolded freeing_def]
  let ?i = "kmem_init_ptr st"
  from f obtain k where k: "khdr st a = Some k" "hdr_ok k a s True (lastp ?i xs) (first ys 0)" by (auto elim: kchain_at)
  have kp: "kprev k = lastp ?i xs" using k(2) by (simp add: hdr_ok_def)
  show ?thesis
  proof (cases "xs = []")
    case True
    with f obtain k0 where "khdr st ?i = Some k0" "kfree_flag k0 = 0" by (auto simp: kchain_def)
    with True k kp have "kfree_merge_prev a st = Some (a, st)" by (simp add: kfree_merge_prev_def hdr_def)
    with assms show ?thesis by blast
  next
    case False
    then obtain zs p u g where xs: "xs = zs @ [(p, u, g)]" by (metis prod_cases3 rev_exhaust)
    have "kchain (khdr st) ?i (zs @ (p, u, g) # (a, s, True) # ys)" using f xs by simp
    then obtain q where q: "khdr st p = Some q" "hdr_ok q p u g (lastp ?i zs) a" by (rule kchain_at) simp
    have pk: "kprev k = p" using kp xs by simp
    show ?thesis
    proof (cases g)
      case False
      with k q pk have "kfree_merge_prev a st = Some (a, st)" by (simp add: kfree_merge_prev_def hdr_def hdr_ok_def)
      with assms show ?thesis by blast
    next
      case True
      let ?st1 = "st\<lparr>kmem_nodes := remove1 p (kmem_nodes st), kmem_avail_bytes := kmem_avail_bytes st - u\<rparr>"
      have g1: "geom (unat ?i + 32) (zs @ (p, u, True) # (a, s, True) # ys) (unat (sbrk st))" using f xs True by simp
      have "\<exists>h. kmem_merge p ?st1 = Some (?st1\<lparr>khdr := h\<rparr>) \<and> kchain h ?i (zs @ (p, u + s + 32, True) # ys) \<and> h a = khdr ?st1 a"
        by (rule kmem_merge_chain [OF _ g1]) (use f xs True in auto)
      then obtain h where h: "kmem_merge p ?st1 = Some (?st1\<lparr>khdr := h\<rparr>)" "kchain h ?i (zs @ (p, u + s + 32, True) # ys)" by blast
      note ad = addresses [OF g1]
      let ?k = "k\<lparr>kfree_flag := 0\<rparr>"
      have na: "knext k \<noteq> a" using k(2) ad f first_in [of ys] by (cases "ys = []") (auto simp: hdr_ok_def)
      have "kmem_merge p (set_hdr a ?k ?st1) = Some (set_hdr a ?k (?st1\<lparr>khdr := h\<rparr>))"
        by (rule kmem_merge_other [where k = q and n = k]) (use q k na h(1) ad in \<open>auto simp: hdr_ok_def\<close>)
      moreover have "kfree_merge_prev a st = do { st \<leftarrow> kmem_merge p (set_hdr a ?k ?st1); Some (p, st) }"
        using k q pk True by (simp add: kfree_merge_prev_def hdr_def hdr_ok_def upd_hdr_def set_hdr_def upd_swap)
      ultimately have run: "kfree_merge_prev a st = Some (p, set_hdr a ?k (?st1\<lparr>khdr := h\<rparr>))" by simp
      have c2: "kchain (h(a \<mapsto> ?k)) ?i (zs @ (p, u + s + 32, True) # ys)"
        by (rule kchain_frame [OF h(2)]) (use ad in auto)
      have "p \<notin> free_addrs (zs @ ys)" using geom_distinct [OF g1] free_addrs_sub [of zs] free_addrs_sub [of ys] by auto
      then have nd: "distinct (remove1 p (kmem_nodes st))" "set (remove1 p (kmem_nodes st)) = free_addrs (zs @ ys)"
        using f xs True by auto
      have "freeing st0 (set_hdr a ?k (?st1\<lparr>khdr := h\<rparr>)) zs p (u + s + 32) ys"
        using f nd c2 xs True geom_merge(1) [OF g1 unat_32] by (auto simp: freeing_def set_hdr_def brk_ok_def)
      moreover have "klive zs = klive xs" using xs True by simp
      moreover have "unat p \<le> unat a" "unat s \<le> unat (u + s + 32)" using g1 geom_merge(2) [OF g1 unat_32] by (auto simp: geom_append)
      ultimately show ?thesis using run by blast
    qed
  qed
qed

text \<open>The release of the last chunk: it leaves the chain, but the break cannot move down.\<close>

lemma release_unused_ok:
  assumes ok: "heap_ok st cs"
  shows "\<exists>st' cs'. kmem_release_unused st = Some st' \<and> heap_ok st' cs' \<and> klive cs' = klive cs \<and> sbrk st' = sbrk st
     \<and> (cs' = cs \<or> (\<exists>a s. cs = cs' @ [(a, s, True)]))"
proof -
  note h = ok [unfolded heap_ok_def]
  let ?i = "kmem_init_ptr st"
  obtain k where k: "khdr st (kmem_last st) = Some k"
    "kfree_flag k = FREE_MAGIC \<longrightarrow> (\<exists>xs s. cs = xs @ [(kmem_last st, s, True)] \<and> ksize k = s \<and> kprev k = lastp ?i xs)"
  proof (cases "cs = []")
    case True
    with h that show ?thesis by (auto simp: kchain_def)
  next
    case False
    then obtain xs a s f where cs: "cs = xs @ [(a, s, f)]" by (metis prod_cases3 rev_exhaust)
    with h obtain k where "khdr st a = Some k" "hdr_ok k a s f (lastp ?i xs) 0" by (auto elim: kchain_at)
    with cs h that show ?thesis by (auto simp: hdr_ok_def split: if_splits)
  qed
  show ?thesis
  proof (cases "kfree_flag k = FREE_MAGIC")
    case False
    with k(1) have "kmem_release_unused st = Some st" by (simp add: kmem_release_unused_def hdr_def)
    with ok show ?thesis by blast
  next
    case True
    with k(2) obtain xs s where cs: "cs = xs @ [(kmem_last st, s, True)]" and ks: "ksize k = s" "kprev k = lastp ?i xs" by blast
    let ?a = "kmem_last st"
    have c: "kchain (khdr st) ?i (xs @ [(?a, s, True)])" and g: "geom (unat ?i + 32) (xs @ [(?a, s, True)]) (unat (sbrk st))"
      using h cs by simp_all
    from drop_chunk [OF c g] obtain h1 where h1: "upd_hdr (lastp ?i xs) (\<lambda>p. p\<lparr>knext := 0\<rparr>) st = Some (st\<lparr>khdr := h1\<rparr>)"
      "kchain h1 ?i xs" "h1 ?a = Some k" using k(1) by auto
    note ad = addresses [OF g]
    let ?h2 = "h1(?a \<mapsto> k\<lparr>kfree_flag := 0, kmagic := 0\<rparr>)"
    let ?st = "st\<lparr>kmem_last := lastp ?i xs, kmem_avail_bytes := kmem_avail_bytes st - s, khdr := ?h2, kmem_nodes := remove1 ?a (kmem_nodes st)\<rparr>"
    have r: "unat ?a + 32 + unat s \<le> unat (sbrk st)" using geom_range [OF g, of ?a s True] by simp
    have bk: "brk_ok ?st" using h by (simp add: brk_ok_def)
    have us: "unat (s + 32) = unat s + 32" using r brk_bound [of st] h unat_add2 [of s 32] by simp
    have "kernel_sbrk (- (s + 32)) ?st = (- 1, ?st)"
      by (rule kernel_sbrk_down [OF bk]) (use us r brk_bound [of st] h in auto)
    then have run: "kmem_release_unused st = Some ?st"
      using k(1) True ks h1 by (simp add: kmem_release_unused_def hdr_def upd_hdr_def set_hdr_def Let_def)
    have c2: "kchain ?h2 ?i xs" by (rule kchain_frame [OF h1(2)]) (use ad in auto)
    have "geom (unat ?i + 32) xs (unat (sbrk st))"
      using g geom_append [of "unat ?i + 32" xs "[(?a, s, True)]" "unat (sbrk st)"] r by (auto intro: geom_hi)
    moreover have "?a \<notin> free_addrs xs" using ad(1) free_addrs_sub [of xs] by auto
    moreover have "kmem_avail_bytes st - s = free_sum xs" "set (remove1 ?a (kmem_nodes st)) = free_addrs xs"
      using h cs \<open>?a \<notin> free_addrs xs\<close> by auto
    ultimately have "heap_ok ?st xs" using h c2 bk unfolding heap_ok_def by simp
    with run cs show ?thesis by fastforce
  qed
qed

lemma kfree_ok:
  assumes ok: "heap_ok st cs" and klive: "(r, s) \<in> klive cs"
  shows "\<exists>st' cs'. kfree r st = Some st' \<and> heap_ok st' cs' \<and> klive cs' = klive cs - {(r, s)} \<and> sbrk st' = sbrk st
     \<and> ((\<exists>a n. (a, n, True) \<in> set cs' \<and> unat a + 32 \<le> unat r \<and> unat s \<le> unat n)
        \<or> release_unused st \<and> (\<forall>(a, n, f) \<in> set cs'. unat a + 32 + unat n < unat r))"
proof -
  note h = ok [unfolded heap_ok_def]
  let ?i = "kmem_init_ptr st"
  have hi: "unat (sbrk st) < 0x20000000" using h brk_bound by blast
  obtain a where a: "r = a + 32" "(a, s, False) \<in> set cs" "unat r = unat a + 32" "unat ?i + 32 + 32 \<le> unat r" "unat r + unat s \<le> unat (sbrk st)"
    using klive_addr [of "unat ?i + 32" cs "unat (sbrk st)" r s] h hi klive by auto
  from a(2) obtain xs ys where cs: "cs = xs @ (a, s, False) # ys" by (meson split_list)
  have g: "geom (unat ?i + 32) (xs @ (a, s, False) # ys) (unat (sbrk st))" and c: "kchain (khdr st) ?i (xs @ (a, s, False) # ys)" using h cs by simp_all
  from c obtain k where k: "khdr st a = Some k" "hdr_ok k a s False (lastp ?i xs) (first ys 0)" by (rule kchain_at)
  have ra: "r - 32 = a" using a(1) by simp
  have nx: "knext k \<noteq> 0 \<Longrightarrow> \<exists>n. khdr st (knext k) = Some n \<and> (kfree_flag n = 0 \<or> kfree_flag n = FREE_MAGIC)"
  proof -
    assume "knext k \<noteq> 0"
    then obtain b t e zs where ys: "ys = (b, t, e) # zs" using k(2) by (cases ys) (auto simp: hdr_ok_def)
    have "kchain (khdr st) ?i ((xs @ [(a, s, False)]) @ (b, t, e) # zs)" using c ys by simp
    then obtain n where "khdr st b = Some n" "hdr_ok n b t e a (first zs 0)" by (rule kchain_at) simp
    then show ?thesis using k(2) ys by (auto simp: hdr_ok_def)
  qed
  have rs: "r < HIGHMEM_START" "\<not> r < ?i" "\<not> r > sbrk st" "r \<noteq> 0" using a hi by (auto simp: word_less_nat_alt)
  have ini: "fst (kmem_init st) = ?i" "fst (kernel_sbrk 0 st) = sbrk st" using h by (simp_all add: kmem_init_def kernel_sbrk_def)
  have valid: "kfree_valid r st = Some True" using rs ini k ra nx a(1) by (auto simp: kfree_valid_def hdr_def hdr_ok_def)
  have "\<exists>h'. upd_hdr a (\<lambda>k. k\<lparr>kfree_flag := FREE_MAGIC, kmagic := 0\<rparr>) st = Some (st\<lparr>khdr := h'\<rparr>) \<and> kchain h' ?i (xs @ (a, s, True) # ys)"
    by (rule upd_chunk [OF c g]) (auto simp: hdr_ok_def)
  then obtain h' where h': "upd_hdr a (\<lambda>k. k\<lparr>kfree_flag := FREE_MAGIC, kmagic := 0\<rparr>) st = Some (st\<lparr>khdr := h'\<rparr>)" "kchain h' ?i (xs @ (a, s, True) # ys)" by blast
  have "freeing st (st\<lparr>khdr := h'\<rparr>) xs a s ys"
    using h h'(2) cs g geom_flag [of _ xs a s False ys _ True] by (auto simp: freeing_def brk_ok_def)
  from merge_next_ok [OF this] obtain st2 s2 ys2 where m1: "kfree_merge_next a (st\<lparr>khdr := h'\<rparr>) = Some st2" "freeing st st2 xs a s2 ys2" "klive ys2 = klive ys"
    "ys = [] \<longrightarrow> ys2 = []" "ys \<noteq> [] \<longrightarrow> ys2 \<noteq> [] \<longrightarrow> lastp a ys2 = lastp a ys" "unat s \<le> unat s2" by blast
  from merge_prev_ok [OF m1(2)] obtain a3 st3 xs3 s3 where m2: "kfree_merge_prev a st2 = Some (a3, st3)" "freeing st st3 xs3 a3 s3 ys2" "klive xs3 = klive xs"
    "unat a3 \<le> unat a" "unat s2 \<le> unat s3" by blast
  note f = m2(2) [unfolded freeing_def]
  from f obtain k3 where k3: "khdr st3 a3 = Some k3" "ksize k3 = s3" "knext k3 = first ys2 0" by (auto elim!: kchain_at simp: hdr_ok_def)
  have n3: "knext k3 = 0 \<longleftrightarrow> ys2 = []" using k3(3) addresses(2) [of "kmem_init_ptr st3" "xs3 @ (a3, s3, True) # ys2"] f first_in [of ys2] by (cases ys2) auto
  let ?st4 = "if ys2 = [] then st3\<lparr>kmem_avail_bytes := kmem_avail_bytes st3 + s3, kmem_last := a3, kmem_nodes := kmem_nodes st3 @ [a3]\<rparr>
    else st3\<lparr>kmem_avail_bytes := kmem_avail_bytes st3 + s3, kmem_nodes := kmem_nodes st3 @ [a3]\<rparr>"
  let ?cs = "xs3 @ (a3, s3, True) # ys2"
  have "ys2 \<noteq> [] \<Longrightarrow> kmem_last st3 = lastp a3 ys2"
  proof -
    assume y: "ys2 \<noteq> []"
    then have "kmem_last st3 = lastp a ys" "lastp a ys2 = lastp a ys" using f h cs m1(4,5) by auto
    then show ?thesis using lastp_other [OF y, of a a3] by simp
  qed
  moreover have "a3 \<notin> free_addrs (xs3 @ ys2)"
  proof -
    have "geom (unat (kmem_init_ptr st3) + 32) ?cs (unat (sbrk st3))" using f by simp
    from geom_distinct [OF this] show ?thesis using free_addrs_sub [of xs3] free_addrs_sub [of ys2] by auto
  qed
  moreover have "kmem_avail_bytes st3 + s3 = free_sum ?cs" "set (kmem_nodes st3 @ [a3]) = free_addrs ?cs" using f by auto
  ultimately have h4: "heap_ok ?st4 ?cs" using f unfolding heap_ok_def brk_ok_def by (cases "ys2 = []") simp_all
  have "geom (unat ?i + 32) (xs @ (a, s, True) # ys) (unat (sbrk st))" using g geom_flag by blast
  from not_live_free [OF this unat_32, of s] have lv: "klive ?cs = klive cs - {(r, s)}" using cs a(1) m1(3) m2(3) by auto
  have run: "kfree r st = (if release_unused ?st4 then kmem_release_unused ?st4 else Some ?st4)"
    using rs(1,4) valid ra h'(1) m1(1) m2(1) k3(1,2) n3
    by (cases "ys2 = []") (simp_all add: kfree_def hdr_def Let_def not_le [symmetric])
  have here: "(a3, s3, True) \<in> set ?cs \<and> unat a3 + 32 \<le> unat r \<and> unat s \<le> unat s3" using m1(6) m2(4,5) a(3) by simp
  have sb: "sbrk ?st4 = sbrk st" "release_unused ?st4 = release_unused st" using f by simp_all
  show ?thesis
  proof (cases "release_unused ?st4")
    case False
    then show ?thesis using run h4 lv sb here by (intro exI [of _ ?st4] exI [of _ ?cs]) auto
  next
    case True
    from release_unused_ok [OF h4] obtain st5 cs5 where e: "kmem_release_unused ?st4 = Some st5" "heap_ok st5 cs5" "klive cs5 = klive ?cs"
      "sbrk st5 = sbrk ?st4" "cs5 = ?cs \<or> (\<exists>b n. ?cs = cs5 @ [(b, n, True)])" by blast
    have "(a3, s3, True) \<in> set cs5 \<or> (\<forall>(b, n, f) \<in> set cs5. unat b + 32 + unat n < unat r)"
    proof (cases "cs5 = ?cs \<or> ys2 \<noteq> []")
      case True
      then have "(a3, s3, True) \<in> set cs5"
      proof
        assume y: "ys2 \<noteq> []"
        then show ?thesis using e(5) by (cases ys2 rule: rev_cases) auto
      qed simp
      then show ?thesis ..
    next
      case False
      then have c5: "cs5 = xs3" using e(5) by auto
      have g3: "geom (unat (kmem_init_ptr st3) + 32) (xs3 @ (a3, s3, True) # ys2) (unat (sbrk st3))" using f by simp
      have "unat b + 32 + unat n \<le> unat a3" if "(b, n, g) \<in> set xs3" for b n g
        using g3 geom_range [of "unat (kmem_init_ptr st3) + 32" xs3 "cells_end (unat (kmem_init_ptr st3) + 32) xs3" b n g] that by (simp add: geom_append)
      then have "\<forall>(b, n, f) \<in> set xs3. unat b + 32 + unat n < unat r" using m2(4) a(3) by fastforce
      then show ?thesis using c5 by simp
    qed
    then show ?thesis using run True e lv sb here by (intro exI [of _ st5] exI [of _ cs5]) auto
  qed
qed

end
