(* ===== verification/Kmem_Spec.thy ===== *)
theory Kmem_Spec
  imports Kmem_Inv Kstring_Spec
begin

text \<open>
  What the kernel heap promises to its clients: blocks in use never overlap, an allocation of any
  size returns and is large enough or refused, a release returns exactly the block.  The clients
  below the interface are the zeroed allocations, the duplication of strings and runs of any
  sequence of allocations and releases.
\<close>

definition kheap_holds :: "kheap \<Rightarrow> (u32 \<times> u32) set \<Rightarrow> bool" where
  "kheap_holds st S \<longleftrightarrow> (\<exists>cs. heap_ok st cs \<and> klive cs = S)"

definition bytes_of :: "u32 \<times> u32 \<Rightarrow> nat set" where
  "bytes_of b = {unat (fst b) ..< unat (fst b) + unat (snd b)}"

definition disjoint_bytes :: "(u32 \<times> u32) set \<Rightarrow> bool" where
  "disjoint_bytes S \<longleftrightarrow> (\<forall>b \<in> S. \<forall>c \<in> S. b \<noteq> c \<longrightarrow> bytes_of b \<inter> bytes_of c = {})"

lemma disjoint_insert:
  "disjoint_bytes S \<Longrightarrow> (\<And>b. b \<in> S \<Longrightarrow> bytes_of x \<inter> bytes_of b = {}) \<Longrightarrow> disjoint_bytes (insert x S)"
  unfolding disjoint_bytes_def by blast

lemma geom_disjoint:
  assumes "geom lo cs hi" "hi < 2 ^ 32"
  shows "disjoint_bytes (klive cs)"
  using assms
proof (induction cs arbitrary: lo)
  case (Cons c cs)
  obtain a s f where c: "c = (a, s, f)" by (cases c)
  with Cons.prems have g: "geom (unat a + 32 + unat s) cs hi" by simp
  with Cons have IH: "disjoint_bytes (klive cs)" by blast
  have ua: "unat (a + 32) = unat a + 32"
    using geom_range [OF Cons.prems(1), of a s f] c Cons.prems(2) unat_add2 [of a 32] by simp
  have "bytes_of (a + 32, s) \<inter> bytes_of b = {}" if "b \<in> klive cs" for b
  proof -
    obtain r t where b: "b = (r, t)" by (cases b)
    with that g Cons.prems(2) have "unat a + 32 + unat s + 32 \<le> unat r" by (auto elim: klive_addr)
    with ua b show ?thesis by (auto simp: bytes_of_def)
  qed
  with IH c disjoint_insert [of "klive cs" "(a + 32, s)"] show ?case by simp
qed (simp add: disjoint_bytes_def)

section \<open>The interface\<close>

locale byte_store =
  fixes holds :: "'p \<Rightarrow> (u32 \<times> u32) set \<Rightarrow> bool"
    and alloc :: "u32 \<Rightarrow> 'p \<Rightarrow> (u32 \<times> 'p) option"
    and release :: "u32 \<Rightarrow> 'p \<Rightarrow> 'p option"
    and max_size :: nat
  assumes alloc_law: "holds p S \<Longrightarrow> sz \<noteq> 0 \<Longrightarrow> unat sz \<le> max_size \<Longrightarrow>
      \<exists>r p'. alloc sz p = Some (r, p') \<and>
        (if r = 0 then holds p' S else \<exists>s. unat sz \<le> unat s \<and> (r, s) \<notin> S \<and> holds p' (insert (r, s) S))"
    and release_law: "holds p S \<Longrightarrow> (r, s) \<in> S \<Longrightarrow> \<exists>p'. release r p = Some p' \<and> holds p' (S - {(r, s)})"
    and disjoint_law: "holds p S \<Longrightarrow> disjoint_bytes S"
    and range_law: "holds p S \<Longrightarrow> (r, s) \<in> S \<Longrightarrow> unat r + unat s < 2 ^ 32"
begin

lemma alloc_cases:
  assumes "holds p S" "sz \<noteq> 0" "unat sz \<le> max_size"
  obtains p' where "alloc sz p = Some (0, p')" "holds p' S"
  | r s p' where "alloc sz p = Some (r, p')" "r \<noteq> 0" "unat sz \<le> unat s" "(r, s) \<notin> S" "holds p' (insert (r, s) S)"
      "\<And>b. b \<in> S \<Longrightarrow> bytes_of (r, s) \<inter> bytes_of b = {}" "unat r + unat s < 2 ^ 32"
proof -
  from alloc_law [OF assms] obtain r p' where a: "alloc sz p = Some (r, p')"
    "if r = 0 then holds p' S else \<exists>s. unat sz \<le> unat s \<and> (r, s) \<notin> S \<and> holds p' (insert (r, s) S)" by blast
  show ?thesis
  proof (cases "r = 0")
    case True
    with a that(1) show ?thesis by simp
  next
    case False
    with a(2) obtain s where s: "unat sz \<le> unat s" "(r, s) \<notin> S" "holds p' (insert (r, s) S)" by auto
    have "bytes_of (r, s) \<inter> bytes_of b = {}" if "b \<in> S" for b
      using disjoint_law [OF s(3)] that s(2) by (auto simp: disjoint_bytes_def)
    with that(2) [OF a(1) False s] range_law [OF s(3)] show ?thesis by blast
  qed
qed

lemma alloc_release:
  assumes "holds p S" "sz \<noteq> 0" "unat sz \<le> max_size" "alloc sz p = Some (r, p')" "r \<noteq> 0"
  shows "\<exists>p''. release r p' = Some p'' \<and> holds p'' S"
proof -
  from alloc_law [OF assms(1-3)] assms(4,5) obtain s where s: "(r, s) \<notin> S" "holds p' (insert (r, s) S)" by auto
  from release_law [OF s(2), of r s] s(1) show ?thesis by (auto simp: insert_Diff_if)
qed

end

lemma holds_in_range: "kheap_holds st S \<Longrightarrow> (r, s) \<in> S \<Longrightarrow>
   unat (kmem_init_ptr st) + 64 \<le> unat r \<and> unat r + unat s \<le> unat (sbrk st) \<and> unat (sbrk st) < 0x20000000 \<and> 8 dvd unat r"
proof -
  assume "kheap_holds st S" "(r, s) \<in> S"
  then obtain cs where c: "heap_ok st cs" "(r, s) \<in> klive cs" by (auto simp: kheap_holds_def)
  then have g: "geom (unat (kmem_init_ptr st) + 32) cs (unat (sbrk st))" "brk_ok st" by (auto simp: heap_ok_def)
  from klive_addr [OF g(1) unat_32 c(2)] obtain a where
    a: "(a, s, False) \<in> set cs" "unat r = unat a + 32" "unat (kmem_init_ptr st) + 32 + 32 \<le> unat r" "unat r + unat s \<le> unat (sbrk st)" by metis
  from geom_range [OF g(1) a(1)] a(2-4) brk_bound [OF g(2)] show ?thesis by auto
qed

interpretation kmem: byte_store kheap_holds kmalloc kfree "2 ^ 32 - 47"
proof
  fix p S and sz :: u32
  assume "kheap_holds p S" "sz \<noteq> 0" "unat sz \<le> 2 ^ 32 - 47"
  then obtain cs where "heap_ok p cs" "klive cs = S" "unat sz + 46 < 2 ^ 32" by (auto simp: kheap_holds_def)
  with kmalloc_ok [of p cs sz] \<open>sz \<noteq> 0\<close> show "\<exists>r p'. kmalloc sz p = Some (r, p') \<and>
        (if r = 0 then kheap_holds p' S else \<exists>s. unat sz \<le> unat s \<and> (r, s) \<notin> S \<and> kheap_holds p' (insert (r, s) S))"
    by (fastforce simp: kheap_holds_def allocated_def split: if_splits)
next
  fix p S r s
  assume "kheap_holds p S" "(r, s) \<in> S"
  then obtain cs where "heap_ok p cs" "klive cs = S" "(r, s) \<in> klive cs" by (auto simp: kheap_holds_def)
  with kfree_ok [of p cs r s] show "\<exists>p'. kfree r p = Some p' \<and> kheap_holds p' (S - {(r, s)})"
    by (auto simp: kheap_holds_def)
next
  fix p S
  assume "kheap_holds p S"
  then show "disjoint_bytes S" using geom_disjoint unat_32 by (fastforce simp: kheap_holds_def heap_ok_def)
next
  fix p S and r s :: u32
  assume "kheap_holds p S" "(r, s) \<in> S"
  from holds_in_range [OF this] show "unat r + unat s < 2 ^ 32" by simp
qed

section \<open>Runs\<close>

text \<open>
  The states of the heap after its initialisation: any sequence of allocations, of any size up to
  \<open>2 ^ 32 - 47\<close> bytes, for which the size with the header does not wrap, and releases of blocks in use.
\<close>

inductive kheap_reach :: "kheap \<Rightarrow> (u32 \<times> u32) set \<Rightarrow> bool" where
  init: "kmem_init_ptr st = 0 \<Longrightarrow> sbrk st \<noteq> 0 \<Longrightarrow> brk_ok st \<Longrightarrow> kmem_avail_bytes st = 0 \<Longrightarrow> kmem_init st = (p, st') \<Longrightarrow> p \<noteq> 0 \<Longrightarrow>
    kheap_reach st' {}"
| alloc: "kheap_reach st S \<Longrightarrow> sz \<noteq> 0 \<Longrightarrow> unat sz \<le> 2 ^ 32 - 47 \<Longrightarrow> kmalloc sz st = Some (r, st') \<Longrightarrow> r \<noteq> 0 \<Longrightarrow>
    hdr (r - sizeof_kmem) st' = Some k \<Longrightarrow> kheap_reach st' (insert (r, ksize k) S)"
| refused: "kheap_reach st S \<Longrightarrow> sz \<noteq> 0 \<Longrightarrow> unat sz \<le> 2 ^ 32 - 47 \<Longrightarrow> kmalloc sz st = Some (0, st') \<Longrightarrow> kheap_reach st' S"
| free: "kheap_reach st S \<Longrightarrow> (r, s) \<in> S \<Longrightarrow> kfree r st = Some st' \<Longrightarrow> kheap_reach st' (S - {(r, s)})"

lemma holds_header:
  assumes "kheap_holds st S" "(r, s) \<in> S"
  shows "\<exists>k. hdr (r - sizeof_kmem) st = Some k \<and> ksize k = s"
proof -
  from assms obtain cs a where c: "heap_ok st cs" "r = a + 32" "(a, s, False) \<in> set cs" by (auto simp: kheap_holds_def klive_def)
  from c(3) obtain xs ys where "cs = xs @ (a, s, False) # ys" by (meson split_list)
  with c(1) have "kchain (khdr st) (kmem_init_ptr st) (xs @ (a, s, False) # ys)" by (simp add: heap_ok_def)
  then obtain k where "khdr st a = Some k" "hdr_ok k a s False (lastp (kmem_init_ptr st) xs) (first ys 0)" by (rule kchain_at)
  with c(2) show ?thesis by (auto simp: hdr_def hdr_ok_def)
qed

lemma kmem_init_ok:
  assumes "kmem_init_ptr st = 0" "sbrk st \<noteq> 0" "brk_ok st" "kmem_avail_bytes st = 0" "kmem_init st = (p, st')" "p \<noteq> 0"
  shows "kheap_holds st' {}"
proof -
  have a32: "align_up 32 8 = (32 :: u32)" by (rule align_up_id) simp
  from kernel_sbrk_cases [OF assms(3), of 32] assms(1,5,6) a32 have
    k: "kernel_sbrk 32 st = (sbrk st, st\<lparr>sbrk := sbrk st + 32\<rparr>)" "unat (sbrk st + 32) = unat (sbrk st) + 32"
    "brk_ok (st\<lparr>sbrk := sbrk st + 32\<rparr>)" "sbrk st \<noteq> - 1"
    by (auto simp: kmem_init_def Let_def)
  with assms a32 have "heap_ok st' []"
    by (auto simp: kmem_init_def Let_def heap_ok_def kchain_def set_hdr_def brk_ok_def)
  then show ?thesis by (force simp: kheap_holds_def)
qed

lemma kheap_reach_holds: "kheap_reach st S \<Longrightarrow> kheap_holds st S"
proof (induction rule: kheap_reach.induct)
  case (init st p st')
  then show ?case by (rule kmem_init_ok)
next
  case (alloc st S sz r st' k)
  from kmem.alloc_law [OF alloc.IH alloc.hyps(2,3)] alloc.hyps(4,5) obtain s where
    s: "kheap_holds st' (insert (r, s) S)" by auto
  with holds_header [OF s, of r s] alloc.hyps(6) show ?case by simp
next
  case (refused st S sz st')
  from kmem.alloc_law [OF refused.IH refused.hyps(2,3)] refused.hyps(4) show ?case by auto
next
  case (free st S r s st')
  from kmem.release_law [OF free.IH free.hyps(2)] free.hyps(3) show ?case by auto
qed

text \<open>C4: the kernel heap is safe.  After its initialisation and any sequence of allocations and releases of blocks in
  use, the blocks in use are disjoint, aligned to eight bytes and lie between the initial header and the break.\<close>

theorem kheap_reach_safe:
  assumes "kheap_reach st S"
  shows "disjoint_bytes S \<and> (\<forall>(r, s) \<in> S. unat (kmem_init_ptr st) + 64 \<le> unat r \<and> unat r + unat s \<le> unat (sbrk st) \<and> 8 dvd unat r)"
  using kmem.disjoint_law [OF kheap_reach_holds [OF assms]] holds_in_range [OF kheap_reach_holds [OF assms]] by fastforce

definition demo_heap :: kheap where
  "demo_heap = \<lparr>khdr = (\<lambda>_. None), kmem_init_ptr = 0, kmem_last = 0, kmem_nodes = [], kmem_avail_bytes = 0, kmem_alloc_fail = False,
     sbrk = 0x1000, addr_lo = 0x1000, addr_hi = 0x1FFFFFFF, kstat = \<lparr>total_blocks = 1000, used_blocks = 0, alloc_fail = 0\<rparr>,
     release_unused = True, bootmem_freed = []\<rparr>"

definition demo_heap_1 :: kheap where
  "demo_heap_1 = snd (kmem_init demo_heap)"

lemma demo_heap_reach: "kheap_reach demo_heap_1 {}"
proof (rule kheap_reach.init)
  show "brk_ok demo_heap" by (simp add: brk_ok_def demo_heap_def mm_free_bytes_def)
  show "kmem_init demo_heap = (fst (kmem_init demo_heap), demo_heap_1)" by (simp add: demo_heap_1_def)
  show "fst (kmem_init demo_heap) \<noteq> 0" by code_simp
qed (simp_all add: demo_heap_def)

lemma demo_heap_alloc: "kheap_reach (snd (the (kmalloc 100 demo_heap_1))) {(0x1040, 104)}"
proof -
  have e: "fst (the (kmalloc 100 demo_heap_1)) = 0x1040" "kmalloc 100 demo_heap_1 \<noteq> None"
    "map_option ksize (hdr (0x1040 - 32) (snd (the (kmalloc 100 demo_heap_1)))) = Some 104" by code_simp+
  then obtain st' k where "kmalloc 100 demo_heap_1 = Some (0x1040, st')" "hdr (0x1040 - 32) st' = Some k" "ksize k = 104"
    by auto
  with kheap_reach.alloc [OF demo_heap_reach, of 100 "0x1040" st' k] show ?thesis by simp
qed

theorem kheap_reach_safe_witness:
  "disjoint_bytes {(0x1040 :: u32, 104 :: u32)} \<and> unat (0x1040 :: u32) + 104 \<le> unat (sbrk (snd (the (kmalloc 100 demo_heap_1))))"
  using kheap_reach_safe [OF demo_heap_alloc] by simp

text \<open>C7: \<^verbatim>\<open>kmalloc\<close> allocates.  In every reachable state a request of up to \<open>2 ^ 32 - 47\<close> bytes returns; it is refused with
  the blocks in use as before, or the result is a block of at least the requested size that shares no byte with any
  block in use, and only this block is added; releasing it at once restores the blocks in use.\<close>

theorem kmalloc_correct:
  assumes "kheap_reach st S" "sz \<noteq> 0" "unat sz \<le> 2 ^ 32 - 47"
  shows "\<exists>r st'. kmalloc sz st = Some (r, st') \<and> (if r = 0 then kheap_reach st' S
     else (\<exists>s. unat sz \<le> unat s \<and> kheap_reach st' (insert (r, s) S) \<and> (\<forall>b \<in> S. bytes_of (r, s) \<inter> bytes_of b = {}))
        \<and> (\<exists>st''. kfree r st' = Some st'' \<and> kheap_holds st'' S))"
proof (rule kmem.alloc_cases [OF kheap_reach_holds [OF assms(1)] assms(2,3)])
  fix st' assume "kmalloc sz st = Some (0, st')" "kheap_holds st' S"
  with kheap_reach.refused [OF assms] show ?thesis by auto
next
  fix r s st'
  assume r: "kmalloc sz st = Some (r, st')" "r \<noteq> 0" "unat sz \<le> unat s" "(r, s) \<notin> S" "kheap_holds st' (insert (r, s) S)"
    "\<And>b. b \<in> S \<Longrightarrow> bytes_of (r, s) \<inter> bytes_of b = {}"
  from holds_header [OF r(5), of r s] obtain k where "hdr (r - sizeof_kmem) st' = Some k" "ksize k = s" by auto
  with kheap_reach.alloc [OF assms r(1,2)] have "kheap_reach st' (insert (r, s) S)" by blast
  with r(3,6) have "\<exists>s. unat sz \<le> unat s \<and> kheap_reach st' (insert (r, s) S) \<and> (\<forall>b \<in> S. bytes_of (r, s) \<inter> bytes_of b = {})" by blast
  with r(1,2) kmem.alloc_release [OF kheap_reach_holds [OF assms(1)] assms(2,3) r(1,2)] show ?thesis by auto
qed

theorem kmalloc_correct_witness: "\<exists>r st'. kmalloc 100 demo_heap_1 = Some (r, st')"
  using kmalloc_correct [OF demo_heap_reach, of 100] by auto

text \<open>What the headers say: following them from the initial one, the chunks with their sizes and whether they are free.  Each
  takes 32 bytes at least, which bounds their number.\<close>

fun read_chunks :: "nat \<Rightarrow> (u32 \<Rightarrow> kmem option) \<Rightarrow> u32 \<Rightarrow> cell list" where
  "read_chunks 0 h a = []"
| "read_chunks (Suc n) h a =
     (if a = 0 then []
      else case h a of
        None \<Rightarrow> []
      | Some k \<Rightarrow> (a, ksize k, kfree_flag k = FREE_MAGIC) # read_chunks n h (knext k))"

definition kmem_chunks :: "kheap \<Rightarrow> cell list" where
  "kmem_chunks st =
     (case khdr st (kmem_init_ptr st) of None \<Rightarrow> [] | Some k \<Rightarrow> read_chunks (unat (sbrk st) div 32) (khdr st) (knext k))"

definition chunks_used :: "kheap \<Rightarrow> (u32 \<times> u32) set" where
  "chunks_used st = {(a + sizeof_kmem, s) |a s. (a, s, False) \<in> set (kmem_chunks st)}"

lemma read_chunks_eq: "kseg h p cs 0 \<Longrightarrow> 0 \<notin> fst ` set cs \<Longrightarrow> length cs \<le> n \<Longrightarrow> read_chunks n h (first cs 0) = cs"
proof (induction cs arbitrary: p n)
  case Nil
  then show ?case by (cases n) simp_all
next
  case (Cons c cs)
  obtain a s f where c: "c = (a, s, f)" by (cases c)
  obtain m where n: "n = Suc m" "length cs \<le> m" using Cons.prems(3) by (cases n) auto
  obtain k where k: "h a = Some k" "hdr_ok k a s f p (first cs 0)" "kseg h a cs 0" using Cons.prems(1) c by auto
  have "read_chunks m h (first cs 0) = cs" using Cons.IH [OF k(3) _ n(2)] Cons.prems(2) by simp
  then show ?case using c n k(1,2) Cons.prems(2) by (auto simp: hdr_ok_def)
qed

lemma geom_length: "geom lo cs hi \<Longrightarrow> lo + 32 * length cs \<le> hi"
proof (induction cs arbitrary: lo)
  case (Cons c cs)
  obtain a s f where c: "c = (a, s, f)" by (cases c)
  with Cons.IH [of "unat a + 32 + unat s"] Cons.prems show ?case by auto
qed simp

lemma kmem_chunks_eq:
  assumes "heap_ok st cs"
  shows "kmem_chunks st = cs"
proof -
  note h = assms [unfolded heap_ok_def]
  obtain k where k: "khdr st (kmem_init_ptr st) = Some k" "knext k = first cs 0" "kseg (khdr st) (kmem_init_ptr st) cs 0"
    using h by (auto simp: kchain_def)
  have g: "geom (unat (kmem_init_ptr st) + 32) cs (unat (sbrk st))" using h by blast
  have "unat (kmem_init_ptr st) + 32 + 32 * length cs \<le> unat (sbrk st)" by (rule geom_length [OF g])
  then have "length cs \<le> unat (sbrk st) div 32" by (simp add: less_eq_div_iff_mult_less_eq)
  moreover have "0 \<notin> fst ` set cs" using geom_range [OF g] by force
  ultimately show ?thesis using read_chunks_eq [OF k(3)] k(1,2) by (simp add: kmem_chunks_def)
qed

lemma holds_chunks: "kheap_holds st S \<Longrightarrow> chunks_used st = S"
  using kmem_chunks_eq by (auto simp: kheap_holds_def chunks_used_def klive_def)

text \<open>C8: \<^verbatim>\<open>kfree\<close> of a block in use returns.  The chunks in use that the chain of headers shows afterwards are those it showed
  before, without this one; the break stays, and a free chunk that begins where the block was or before it, and is at least as
  large, is on the list of free chunks; with the release of unused memory the last chunk leaves the chain instead.\<close>

theorem kfree_correct:
  assumes "kheap_reach st S" "(r, s) \<in> S"
  shows "\<exists>st'. kfree r st = Some st' \<and> kheap_reach st' (S - {(r, s)}) \<and> chunks_used st = S \<and> chunks_used st' = S - {(r, s)}
     \<and> sbrk st' = sbrk st
     \<and> ((\<exists>a n. (a, n, True) \<in> set (kmem_chunks st') \<and> a \<in> set (kmem_nodes st') \<and> unat a + 32 \<le> unat r \<and> unat s \<le> unat n)
        \<or> release_unused st \<and> (\<forall>(a, n, f) \<in> set (kmem_chunks st'). unat a + 32 + unat n < unat r))"
proof -
  have h: "kheap_holds st S" by (rule kheap_reach_holds [OF assms(1)])
  then obtain cs where cs: "heap_ok st cs" "(r, s) \<in> klive cs" "klive cs = S" using assms(2) by (auto simp: kheap_holds_def)
  from kfree_ok [OF cs(1,2)] obtain st' cs' where f: "kfree r st = Some st'" "heap_ok st' cs'" "klive cs' = klive cs - {(r, s)}"
    "sbrk st' = sbrk st" "(\<exists>a n. (a, n, True) \<in> set cs' \<and> unat a + 32 \<le> unat r \<and> unat s \<le> unat n)
        \<or> release_unused st \<and> (\<forall>(a, n, f) \<in> set cs'. unat a + 32 + unat n < unat r)" by blast
  have "a \<in> set (kmem_nodes st')" if "(a, n, True) \<in> set cs'" for a n
    using f(2) that by (force simp: heap_ok_def free_addrs_def is_free_def)
  moreover have "kheap_holds st' (S - {(r, s)})" using f(2,3) cs(3) by (auto simp: kheap_holds_def)
  ultimately show ?thesis
    using f(1,4,5) kheap_reach.free [OF assms f(1)] holds_chunks [OF h] holds_chunks kmem_chunks_eq [OF f(2)] by auto
qed

theorem kfree_correct_witness:
  "\<exists>st'. kfree 0x1040 (snd (the (kmalloc 100 demo_heap_1))) = Some st' \<and> chunks_used st' = {} \<and> sbrk st' = 0x10a8"
proof -
  have "sbrk (snd (the (kmalloc 100 demo_heap_1))) = 0x10a8" by code_simp
  then show ?thesis using kfree_correct [OF demo_heap_alloc, of "0x1040" 104] by auto
qed

section \<open>Strings on the heap\<close>

text \<open>\<^verbatim>\<open>strdup\<close> of \<^verbatim>\<open>lib/string.c\<close>.\<close>

definition strdup :: "u32 \<Rightarrow> kheap \<times> mem \<Rightarrow> (u32 \<times> kheap \<times> mem) option" where
  "strdup s = (\<lambda>(st, m).
     if s = 0 then Some (0, st, m)
     else do {
       n \<leftarrow> strlen m s;
       let len = n + 1;
       (dup, st, m) \<leftarrow> kzalloc len (st, m);
       if dup \<noteq> 0 then do { m \<leftarrow> memcpy dup s len m; Some (dup, st, m) } else Some (dup, st, m)
     })"

lemma zero_loop_eq: "n \<le> 2 ^ 32 \<Longrightarrow> zero_loop n p m = filled p 0 n m"
proof (induction n arbitrary: p m)
  case (Suc n)
  then show ?case using filled_Suc [of n p 0 m] by (simp del: fun_upd_apply)
qed simp

lemma cstr_moved: "cstr m s xs \<Longrightarrow> (\<And>i. i \<le> length xs \<Longrightarrow> m' (r + of_nat i) = m (s + of_nat i)) \<Longrightarrow> cstr m' r xs"
proof (induction xs arbitrary: s r)
  case Nil
  from Nil.prems(2) [of 0] Nil.prems(1) show ?case by simp
next
  case (Cons x xs)
  have "m' (r + 1 + of_nat i) = m (s + 1 + of_nat i)" if "i \<le> length xs" for i
    using Cons.prems(2) [of "Suc i"] that by (simp add: add.assoc)
  with Cons.IH [of "s + 1" "r + 1"] Cons.prems(1) Cons.prems(2) [of 0] show ?case by simp
qed

lemma offset_bytes: "unat p + n \<le> 2 ^ 32 \<Longrightarrow> unat (a - p) < n \<Longrightarrow> unat p \<le> unat a \<and> unat a < unat p + n" for a p :: u32
proof -
  assume n: "unat p + n \<le> 2 ^ 32" and o: "unat (a - p) < n"
  then have "unat (p + (a - p)) = unat p + unat (a - p)" by (intro unat_add2) simp
  with o show ?thesis by simp
qed

text \<open>C32: \<^verbatim>\<open>strdup\<close> of a string in a block in use returns null, with the blocks in use and the memory as before, or a new block
  that holds the same string; the original is as before, and so is all memory outside of the new block.\<close>

theorem strdup_correct:
  assumes "kheap_reach st S" "cstr m s xs" "s \<noteq> 0" "length xs < 2 ^ 32 - 47"
    and "(b, t) \<in> S" "unat b \<le> unat s" "unat s + length xs < unat b + unat t"
  shows "\<exists>r st' m'. strdup s (st, m) = Some (r, st', m') \<and> (if r = 0 then m' = m \<and> kheap_reach st' S
     else \<exists>u. kheap_reach st' (insert (r, u) S) \<and> cstr m' r xs \<and> cstr m' s xs \<and> (\<forall>a. unat a \<notin> bytes_of (r, u) \<longrightarrow> m' a = m a))"
proof -
  let ?n = "length xs" and ?len = "of_nat (length xs) + 1 :: u32"
  have ul: "unat ?len = ?n + 1" using assms(4) unat_of_nat_small [of "?n + 1"] by (simp add: add.commute)
  then have l: "?len \<noteq> 0" "unat ?len \<le> 2 ^ 32 - 47" using assms(4) by auto
  have bt: "unat b + unat t < 2 ^ 32" using kmem.range_law [OF kheap_reach_holds [OF assms(1)] assms(5)] .
  show ?thesis
  proof (rule kmem.alloc_cases [OF kheap_reach_holds [OF assms(1)] l])
    fix st' assume k: "kmalloc ?len st = Some (0, st')"
    then have "strdup s (st, m) = Some (0, st', m)"
      using assms(3) strlen_eq [OF assms(2)] by (simp add: strdup_def kzalloc_def kcalloc_def Let_def)
    with kheap_reach.refused [OF assms(1) l k] show ?thesis by auto
  next
    fix r u st'
    assume r: "kmalloc ?len st = Some (r, st')" "r \<noteq> 0" "unat ?len \<le> unat u" "(r, u) \<notin> S" "kheap_holds st' (insert (r, u) S)"
      "\<And>b. b \<in> S \<Longrightarrow> bytes_of (r, u) \<inter> bytes_of b = {}" "unat r + unat u < 2 ^ 32"
    let ?m1 = "filled r 0 (?n + 1) m" and ?m2 = "copied r s (?n + 1) (filled r 0 (?n + 1) m)"
    from holds_header [OF r(5), of r u] obtain k where "hdr (r - sizeof_kmem) st' = Some k" "ksize k = u" by auto
    with kheap_reach.alloc [OF assms(1) l r(1,2)] have reach: "kheap_reach st' (insert (r, u) S)" by blast
    have mv: "memcpy r s ?len ?m1 = Some ?m2"
      using memmove_eq [of r ?len s ?m1] ul r(3,7) assms(7) bt by (simp add: memcpy_def)
    have run: "strdup s (st, m) = Some (r, st', ?m2)"
      using assms(3) strlen_eq [OF assms(2)] r(1,2) mv ul zero_loop_eq [of "?n + 1" r m] assms(4)
      by (simp add: strdup_def kzalloc_def kcalloc_def Let_def)
    have new: "unat a \<in> bytes_of (r, u)" if "unat (a - r) < ?n + 1" for a
      using offset_bytes [of r "?n + 1" a] that r(3,7) ul by (auto simp: bytes_of_def)
    have out: "?m2 a = m a" if "unat a \<notin> bytes_of (r, u)" for a
      using new [of a] that by (auto simp: copied_def filled_def)
    have src: "unat (s + of_nat i) \<notin> bytes_of (r, u)" if "i \<le> ?n" for i
    proof -
      have "unat (s + of_nat i) = unat s + i" by (rule area_at [of _ ?n]) (use assms(7) bt that in auto)
      then have "unat (s + of_nat i) \<in> bytes_of (b, t)" using assms(6,7) that by (auto simp: bytes_of_def)
      with r(6) [OF assms(5)] show ?thesis by blast
    qed
    have "cstr ?m2 s xs" by (rule cstr_cong [OF assms(2)]) (use src out in blast)
    moreover have "cstr ?m2 r xs"
    proof (rule cstr_moved [OF assms(2)])
      fix i assume i: "i \<le> ?n"
      have "unat (of_nat i :: u32) = i" using i assms(4) by (intro unat_of_nat_small) simp
      then have "?m2 (r + of_nat i) = ?m1 (s + of_nat i)" using i by (simp add: copied_def)
      also have "\<dots> = m (s + of_nat i)" using new [of "s + of_nat i"] src [OF i] by (auto simp: filled_def)
      finally show "?m2 (r + of_nat i) = m (s + of_nat i)" .
    qed
    ultimately show ?thesis using run reach out r(2) by auto
  qed
qed

definition heap_text :: mem where
  "heap_text = (\<lambda>a. 0)(0x1040 := 97, 0x1041 := 98)"

theorem strdup_correct_witness:
  "\<exists>r st' m'. strdup 0x1040 (snd (the (kmalloc 100 demo_heap_1)), heap_text) = Some (r, st', m') \<and> cstr m' 0x1040 [97, 98]"
proof -
  have c: "cstr heap_text 0x1040 [97, 98]" by (simp add: heap_text_def)
  have "\<exists>r st' m'. strdup 0x1040 (snd (the (kmalloc 100 demo_heap_1)), heap_text) = Some (r, st', m')
     \<and> (if r = 0 then m' = heap_text \<and> kheap_reach st' {(0x1040, 104)}
        else \<exists>u. kheap_reach st' (insert (r, u) {(0x1040, 104)}) \<and> cstr m' r [97, 98] \<and> cstr m' 0x1040 [97, 98]
          \<and> (\<forall>a. unat a \<notin> bytes_of (r, u) \<longrightarrow> m' a = heap_text a))"
    by (rule strdup_correct [OF demo_heap_alloc c, of "0x1040" 104]) simp_all
  with c show ?thesis by (metis (no_types, lifting))
qed

section \<open>Where the heap fails\<close>

text \<open>Memory at the end of the heap is lost.  With the release of unused memory configured, releasing the last block
  takes it out of the chain, but the request to lower the break is always refused, since the negative increment is
  compared as an unsigned number; every allocation and release of the same size then moves the break up.\<close>

theorem kfree_leaks_break:
  "(do { (p, a) \<leftarrow> kmalloc 100 demo_heap_1; b \<leftarrow> kfree p a; (q, c) \<leftarrow> kmalloc 100 b; d \<leftarrow> kfree q c;
         Some (p, q, sbrk demo_heap_1, sbrk b, sbrk d, kmem_nodes d) })
     = Some (0x1040, 0x10C8, 0x1020, 0x10A8, 0x1130, [])"
  by code_simp

text \<open>The size computations wrap.  \<^verbatim>\<open>kmalloc\<close> of nearly four gigabytes succeeds with a chunk of 16 bytes whose recorded size
  is negative, and \<^verbatim>\<open>kcalloc\<close> of \<open>2 ^ 31 + 1\<close> elements of two bytes with one of two bytes.\<close>

theorem kmalloc_wraps:
  "map_option (\<lambda>(p, st). (p, sbrk st, map_option ksize (hdr (p - 32) st))) (kmalloc 0xFFFFFFF0 demo_heap_1)
     = Some (0x1040, 0x1030, Some 0xFFFFFFF0)
   \<and> map_option (\<lambda>(p, st, m). (p, sbrk st)) (kcalloc 0x80000001 2 (demo_heap_1, \<lambda>a. 1)) = Some (0x1040, 0x1048)"
  by code_simp

end
