(* ===== verification/Sysctl.thy ===== *)
theory Sysctl
  imports Kmem_Spec
begin

text \<open>
  The system control interface (\<^verbatim>\<open>kernel/sysctl.c\<close>): objects with attributes in a tree of sets, found by the path of
  their names.  A set embeds an object, through which it is a member of another set.  Objects and sets are named by numbers; the
  list of a set is the list of its members, an object being added once.  Names and paths are strings in the memory.
  A null pointer that is followed, an access beyond the buffer for the path, and a member that is taken for a set without
  being one, are \<^term>\<open>None\<close>.
\<close>

section \<open>State\<close>

datatype sref = Obj nat | Set_Obj nat

record sobj_attribute =
  sa_name :: u32
  sa_show :: nat
  sa_store :: nat

record sysobj =
  so_name :: u32
  so_parent :: "sref option"
  so_child :: "sref option"
  so_sysset :: "nat option"
  so_sattr :: "sobj_attribute list option"

record sysctl =
  objs :: "sref \<Rightarrow> sysobj"
  members :: "nat \<Rightarrow> sref list"
  sys_set :: "nat option"

abbreviation SYSCTL_MAX_PATH_LEN :: nat where "SYSCTL_MAX_PATH_LEN \<equiv> 256"

definition upd_sobj :: "sref \<Rightarrow> (sysobj \<Rightarrow> sysobj) \<Rightarrow> sysctl \<Rightarrow> sysctl" where
  "upd_sobj x f st = st\<lparr>objs := (objs st)(x := f (objs st x))\<rparr>"

definition sysobj_name :: "sref \<Rightarrow> sysctl \<Rightarrow> u32" where
  "sysobj_name x st = so_name (objs st x)"

section \<open>Objects\<close>

definition sobj_sysset_join :: "sref \<Rightarrow> sysctl \<Rightarrow> sysctl" where
  "sobj_sysset_join x st =
     (case so_sysset (objs st x) of
        None \<Rightarrow> st
      | Some s \<Rightarrow> st\<lparr>members := (members st)(s := members st s @ [x])\<rparr>)"

definition sysobj_set_name :: "sref \<Rightarrow> u32 \<Rightarrow> sysctl \<Rightarrow> sysctl" where
  "sysobj_set_name x n = upd_sobj x (\<lambda>k. k\<lparr>so_name := n\<rparr>)"

text \<open>The allocation of an object is its number and what its memory holds, or null.  \<^verbatim>\<open>sysobj_init\<close> initialises
  nothing but the links of the object.\<close>

definition sysobj_create :: "(nat \<times> sysobj) option \<Rightarrow> sysctl \<Rightarrow> sref option \<times> sysctl" where
  "sysobj_create al st =
     (case al of None \<Rightarrow> (None, st) | Some (n, k) \<Rightarrow> (Some (Obj n), upd_sobj (Obj n) (\<lambda>_. k) st))"

definition sysobj_add_internal :: "sref option \<Rightarrow> sysctl \<Rightarrow> int \<times> sysctl" where
  "sysobj_add_internal sobj st =
     (case sobj of
        None \<Rightarrow> (- 1, st)
      | Some x \<Rightarrow>
          let parent = so_parent (objs st x)
          in (case so_sysset (objs st x) of
                None \<Rightarrow> (0, st)
              | Some s \<Rightarrow>
                  let parent = (if parent = None then Some (Set_Obj s) else parent)
                  in (0, upd_sobj x (\<lambda>k. k\<lparr>so_parent := parent\<rparr>) (sobj_sysset_join x st))))"

definition sysobj_add :: "sref option \<Rightarrow> sref option \<Rightarrow> nat option \<Rightarrow> u32 \<Rightarrow> sysctl \<Rightarrow> int \<times> sysctl" where
  "sysobj_add sobj parent sysset name st =
     (case sobj of
        None \<Rightarrow> (- 1, st)
      | Some x \<Rightarrow>
          let st = upd_sobj x (\<lambda>k. k\<lparr>so_sysset := sysset\<rparr>) st;
              st = sysobj_set_name x name st;
              st = upd_sobj x (\<lambda>k. k\<lparr>so_parent := parent\<rparr>) st
          in (0, snd (sysobj_add_internal sobj st)))"

definition sysobj_create_and_add :: "(nat \<times> sysobj) option \<Rightarrow> u32 \<Rightarrow> sref option \<Rightarrow> sysctl \<Rightarrow> sref option \<times> sysctl" where
  "sysobj_create_and_add al name parent st =
     (case sysobj_create al st of
        (None, st) \<Rightarrow> (None, st)
      | (Some x, st) \<Rightarrow> (Some x, snd (sysobj_add (Some x) parent None name st)))"

text \<open>The walk over the attributes calls \<^verbatim>\<open>show\<close> or \<^verbatim>\<open>store\<close> of those with the name; what they do to the
  world is a parameter.\<close>

fun attr_walk :: "mem \<Rightarrow> u32 \<Rightarrow> (sobj_attribute \<Rightarrow> 'w \<Rightarrow> 'w) \<Rightarrow> sobj_attribute list \<Rightarrow> 'w \<Rightarrow> 'w option" where
  "attr_walk m name call [] w = Some w"
| "attr_walk m name call (a # as) w = do {
     c \<leftarrow> strcmp m (sa_name a) name;
     attr_walk m name call as (if c = 0 then call a w else w)
   }"

definition sysobj_show_attr ::
    "(sref \<Rightarrow> sobj_attribute \<Rightarrow> u32 \<Rightarrow> 'w \<Rightarrow> 'w) \<Rightarrow> mem \<Rightarrow> sref option \<Rightarrow> u32 \<Rightarrow> u32 \<Rightarrow> sysctl \<Rightarrow> 'w \<Rightarrow> 'w option" where
  "sysobj_show_attr show m sobj name buf st w =
     (if name = 0 then Some w
      else case sobj of
        None \<Rightarrow> Some w
      | Some x \<Rightarrow>
          (case so_sattr (objs st x) of
             None \<Rightarrow> Some w
           | Some as \<Rightarrow> if buf = 0 then Some w else attr_walk m name (\<lambda>a. show x a buf) as w))"

definition sysobj_store_attr ::
    "(sref \<Rightarrow> sobj_attribute \<Rightarrow> u32 \<Rightarrow> u32 \<Rightarrow> 'w \<Rightarrow> 'w) \<Rightarrow> mem \<Rightarrow> sref option \<Rightarrow> u32 \<Rightarrow> u32 \<Rightarrow> u32 \<Rightarrow> sysctl \<Rightarrow> 'w \<Rightarrow> 'w option" where
  "sysobj_store_attr store m sobj name buf len st w =
     (if name = 0 then Some w
      else case sobj of
        None \<Rightarrow> Some w
      | Some x \<Rightarrow>
          (case so_sattr (objs st x) of
             None \<Rightarrow> Some w
           | Some as \<Rightarrow> if buf = 0 then Some w else attr_walk m name (\<lambda>a. store x a buf len) as w))"

section \<open>Sets\<close>

text \<open>\<^verbatim>\<open>container_of\<close>: the set an object is embedded in (\<^term>\<open>Inl s\<close>); for another object the pointer that is
  computed is not null, but no set is there (\<^term>\<open>Inr n\<close>).\<close>

definition to_sysset :: "sref option \<Rightarrow> (nat + nat) option" where
  "to_sysset x = (case x of None \<Rightarrow> None | Some (Set_Obj s) \<Rightarrow> Some (Inl s) | Some (Obj n) \<Rightarrow> Some (Inr n))"

definition sysset_register :: "nat option \<Rightarrow> sysctl \<Rightarrow> int \<times> sysctl" where
  "sysset_register s st =
     (case s of
        None \<Rightarrow> (- 1, st)
      | Some s \<Rightarrow> sysobj_add_internal (Some (Set_Obj s)) (st\<lparr>members := (members st)(s := [])\<rparr>))"

text \<open>The memory of a set is zeroed (\<^verbatim>\<open>kcalloc\<close>); \<open>al\<close> is its number, or null.\<close>

definition sysset_create :: "nat option \<Rightarrow> u32 \<Rightarrow> sref option \<Rightarrow> nat option \<Rightarrow> sysctl \<Rightarrow> nat option \<times> sysctl" where
  "sysset_create al name parent_sobj parent_sysset st =
     (case al of
        None \<Rightarrow> (None, st)
      | Some s \<Rightarrow> (Some s, upd_sobj (Set_Obj s) (\<lambda>_. \<lparr>so_name = name, so_parent = parent_sobj, so_child = Some (Set_Obj s),
                              so_sysset = parent_sysset, so_sattr = None\<rparr>) st))"

definition sysset_create_and_add :: "nat option \<Rightarrow> u32 \<Rightarrow> sref option \<Rightarrow> nat option \<Rightarrow> sysctl \<Rightarrow> nat option \<times> sysctl" where
  "sysset_create_and_add al name parent_sobj parent_sysset st =
     (case sysset_create al name parent_sobj parent_sysset st of
        (None, st) \<Rightarrow> (None, st)
      | (Some s, st) \<Rightarrow> (Some s, snd (sysset_register (Some s) st)))"

definition sysctl_root :: "sysctl \<Rightarrow> nat option" where
  "sysctl_root st = sys_set st"

text \<open>The two allocations and the addresses of the names \<^verbatim>\<open>sys\<close> and \<^verbatim>\<open>driver\<close>.\<close>

definition sysctl_init :: "nat option \<Rightarrow> nat option \<Rightarrow> u32 \<Rightarrow> u32 \<Rightarrow> sysctl \<Rightarrow> int \<times> sysctl" where
  "sysctl_init al1 al2 n_sys n_driver st =
     (if sys_set st \<noteq> None then (- 1, st)
      else let (s, st) = sysset_create_and_add al1 n_sys None None st;
               st = st\<lparr>sys_set := s\<rparr>
           in if s = None then (- 1, st)
              else let (d, st) = sysset_create_and_add al2 n_driver None s st
                   in if d = None then (- 1, st) else (0, st))"

section \<open>Search\<close>

datatype scan = Return "sref option" | Descend nat | Next

fun scan_members :: "mem \<Rightarrow> u32 \<Rightarrow> sysctl \<Rightarrow> sref list \<Rightarrow> scan option" where
  "scan_members m token st [] = Some Next"
| "scan_members m token st (x # xs) =
     (let n = sysobj_name x st in
        if n = 0 then Some (Return None)
        else do {
          len \<leftarrow> strlen m n;
          if strncmp m n token len \<noteq> 0 then scan_members m token st xs
          else (case so_child (objs st x) of
                  None \<Rightarrow> Some (Return (Some x))
                | Some c \<Rightarrow>
                    if memchr m token 47 (of_nat SYSCTL_MAX_PATH_LEN) = 0 then Some (Return (Some x))
                    else (case to_sysset (Some c) of Some (Inl s) \<Rightarrow> Some (Descend s) | _ \<Rightarrow> None))
        })"

partial_function (option) find_loop :: "u32 \<Rightarrow> sysctl \<Rightarrow> mem \<Rightarrow> u32 \<Rightarrow> nat \<Rightarrow> sref option option" where
  "find_loop slash st m token sysset = do {
     (_, token, m) \<leftarrow> strsep m token slash;
     if token = 0 then Some None
     else do {
       r \<leftarrow> scan_members m token st (members st sysset);
       (case r of
          Return x \<Rightarrow> Some x
        | Descend s \<Rightarrow> find_loop slash st m token s
        | Next \<Rightarrow> find_loop slash st m token sysset)
     }
   }"

declare find_loop.simps [code]

text \<open>\<open>str\<close> is the address of the buffer on the stack, \<open>slash\<close> that of the delimiter string.\<close>

definition sysset_find_obj :: "u32 \<Rightarrow> u32 \<Rightarrow> nat option \<Rightarrow> u32 \<Rightarrow> sysctl \<Rightarrow> mem \<Rightarrow> sref option option" where
  "sysset_find_obj str slash sysset path st m =
     (let sysset = (if sysset = None then sysctl_root st else sysset) in
      if path = 0 then Some None
      else do {
        l \<leftarrow> strlen m path;
        if l = 0 then Some None
        else if SYSCTL_MAX_PATH_LEN < unat l + 1 then None
        else do {
          m \<leftarrow> memcpy str path (l + 1) m;
          (_, token, m) \<leftarrow> strsep m str slash;
          s \<leftarrow> sysset;
          let root = sysobj_name (Set_Obj s) st;
          if root = 0 then None
          else do {
            n \<leftarrow> strlen m root;
            if token = 0 \<and> n \<noteq> 0 then None
            else if strncmp m root token n \<noteq> 0 then Some None
            else find_loop slash st m token s
          }
        }
      })"

definition sysset_of_obj :: "sref option \<Rightarrow> (nat + nat) option" where
  "sysset_of_obj x = to_sysset x"

definition sysset_from_path :: "u32 \<Rightarrow> u32 \<Rightarrow> nat option \<Rightarrow> u32 \<Rightarrow> sysctl \<Rightarrow> mem \<Rightarrow> (nat + nat) option option" where
  "sysset_from_path str slash sysset path st m = map_option sysset_of_obj (sysset_find_obj str slash sysset path st m)"

end
