(* ===== verification/Sysctl_Spec.thy ===== *)
theory Sysctl_Spec
  imports Sysctl
begin

text \<open>
  The search of \<^verbatim>\<open>kernel/sysctl.c\<close> against a reference on lists of characters, and what it finds.
\<close>

section \<open>The search on lists of characters\<close>

definition next_part :: "u8 list \<Rightarrow> u8 list option" where
  "next_part r = (case dropWhile (\<lambda>c. c \<noteq> 47) r of [] \<Rightarrow> None | _ # r' \<Rightarrow> Some r')"

lemma next_part_shorter: "next_part r = Some r' \<Longrightarrow> length r' < length r"
  using length_dropWhile_le [of "\<lambda>c. c \<noteq> 47" r] by (auto simp: next_part_def split: list.splits)

text \<open>\<open>junk r\<close> says whether a slash lies behind the end of the rest \<open>r\<close> of the path, within the range of \<^verbatim>\<open>memchr\<close>.\<close>

fun scan_ref :: "(sref \<Rightarrow> u8 list) \<Rightarrow> (u8 list \<Rightarrow> bool) \<Rightarrow> sysctl \<Rightarrow> u8 list \<Rightarrow> sref list \<Rightarrow> scan" where
  "scan_ref nm junk st r [] = Next"
| "scan_ref nm junk st r (x # xs) =
     (if sysobj_name x st = 0 then Return None
      else if \<not> prefix (nm x) r then scan_ref nm junk st r xs
      else (case so_child (objs st x) of
              Some (Set_Obj s) \<Rightarrow> if 47 \<notin> set r \<and> \<not> junk r then Return (Some x) else Descend s
            | _ \<Rightarrow> Return (Some x)))"

function find_ref :: "(sref \<Rightarrow> u8 list) \<Rightarrow> (u8 list \<Rightarrow> bool) \<Rightarrow> sysctl \<Rightarrow> nat \<Rightarrow> u8 list \<Rightarrow> sref option" where
  "find_ref nm junk st s r =
     (case next_part r of
        None \<Rightarrow> None
      | Some r' \<Rightarrow>
          (case scan_ref nm junk st r' (members st s) of
             Return x \<Rightarrow> x
           | Descend s' \<Rightarrow> find_ref nm junk st s' r'
           | Next \<Rightarrow> find_ref nm junk st s r'))"
  by pat_completeness auto
termination
  by (relation "measure (\<lambda>(nm, junk, st, s, r). length r)") (auto dest: next_part_shorter)

declare find_ref.simps [simp del]

section \<open>Strings outside of the buffer\<close>

text \<open>A string no byte of which lies in the buffer.\<close>

definition kept_str :: "u32 \<Rightarrow> mem \<Rightarrow> u32 \<Rightarrow> u8 list \<Rightarrow> bool" where
  "kept_str str m p xs \<longleftrightarrow> cstr m p xs \<and> (\<forall>i \<le> length xs. 256 \<le> unat (p + of_nat i - str))"

definition same_outside :: "u32 \<Rightarrow> mem \<Rightarrow> mem \<Rightarrow> bool" where
  "same_outside str m m' \<longleftrightarrow> (\<forall>a. 256 \<le> unat (a - str) \<longrightarrow> m' a = m a)"

lemma kept_str_same: "kept_str str m p xs \<Longrightarrow> same_outside str m m' \<Longrightarrow> cstr m' p xs"
  unfolding kept_str_def same_outside_def by (auto intro: cstr_cong)

text \<open>The members of all sets have names outside of the buffer, and their children are sets.\<close>

definition tree_ok :: "u32 \<Rightarrow> (sref \<Rightarrow> u8 list) \<Rightarrow> sysctl \<Rightarrow> mem \<Rightarrow> bool" where
  "tree_ok str nm st m \<longleftrightarrow> (\<forall>s. \<forall>x \<in> set (members st s).
     (sysobj_name x st \<noteq> 0 \<longrightarrow> kept_str str m (sysobj_name x st) (nm x))
     \<and> (\<forall>n. so_child (objs st x) \<noteq> Some (Obj n)))"

lemma strncmp_prefix:
  "cstr m s ys \<Longrightarrow> cstr m t xs \<Longrightarrow> strncmp_loop (length ys) m s t = 0 \<longleftrightarrow> prefix ys xs"
proof (induction ys arbitrary: xs s t)
  case (Cons y ys)
  then show ?case by (cases xs) (auto simp: Let_def)
qed simp

lemma strncmp_name: "cstr m s ys \<Longrightarrow> cstr m t xs \<Longrightarrow> strncmp m s t (of_nat (length ys)) = 0 \<longleftrightarrow> prefix ys xs"
  using strncmp_prefix [of m s ys t xs] cstr_length [of m s ys] by (simp add: strncmp_def unat_of_nat_small)

lemma memchr_loop_0:
  assumes "unat p + n \<le> 2 ^ 32" "p \<noteq> 0"
  shows "memchr_loop n m p c = 0 \<longleftrightarrow> (\<forall>j < n. m (p + of_nat j) \<noteq> c)"
  using assms
proof (induction n arbitrary: p)
  case (Suc n)
  have u: "unat (p + 1) = unat p + 1" if "n \<noteq> 0"
    using area_at [of p n 1] Suc.prems(1) that by simp
  have "memchr_loop n m (p + 1) c = 0 \<longleftrightarrow> (\<forall>j < n. m (p + 1 + of_nat j) \<noteq> c)"
  proof (cases "n = 0")
    case False
    with u Suc.prems(1) show ?thesis by (intro Suc.IH) auto
  qed simp
  with Suc.prems(2) show ?case by (auto simp: All_less_Suc2 add.assoc)
qed simp


section \<open>The buffer with the rest of the path\<close>

text \<open>The path has \<open>L\<close> characters; \<open>r\<close> is what is left of it at \<open>tok\<close>, and \<open>m0\<close> is the memory before the call.\<close>

definition at_rest :: "u32 \<Rightarrow> nat \<Rightarrow> mem \<Rightarrow> mem \<Rightarrow> u32 \<Rightarrow> u8 list \<Rightarrow> bool" where
  "at_rest str L m0 m tok r \<longleftrightarrow> length r \<le> L \<and> tok = str + of_nat (L - length r) \<and> cstr m tok r \<and> same_outside str m0 m
     \<and> (\<forall>j. L < j \<longrightarrow> j < 512 \<longrightarrow> m (str + of_nat j) = m0 (str + of_nat j))"

definition stale_slash :: "u32 \<Rightarrow> nat \<Rightarrow> mem \<Rightarrow> u8 list \<Rightarrow> bool" where
  "stale_slash str L m0 r \<longleftrightarrow> (\<exists>j \<in> {length r <..< 256}. m0 (str + of_nat (L - length r + j)) = 47)"

definition buffer_ok :: "u32 \<Rightarrow> nat \<Rightarrow> bool" where
  "buffer_ok str L \<longleftrightarrow> str \<noteq> 0 \<and> unat str + 512 \<le> 2 ^ 32 \<and> L < 256"

lemma buffer_at: "buffer_ok str L \<Longrightarrow> i < 512 \<Longrightarrow> unat (str + of_nat i) = unat str + i \<and> str + of_nat i \<noteq> 0"
  using area_at [of str 511 i] unat_eq_0 [of "str + of_nat i"] unat_eq_0 [of str] by (auto simp: buffer_ok_def)

lemma next_part_split: "next_part r = Some r' \<Longrightarrow> \<exists>us. r = us @ 47 # r' \<and> 47 \<notin> set us"
proof -
  assume "next_part r = Some r'"
  then obtain c where c: "dropWhile (\<lambda>c. c \<noteq> 47) r = c # r'" by (auto simp: next_part_def split: list.splits)
  then have "c = 47" by (simp add: dropWhile_eq_Cons_conv)
  with c have "r = takeWhile (\<lambda>c. c \<noteq> 47) r @ 47 # r'" by (metis takeWhile_dropWhile_id)
  then show ?thesis by (metis (mono_tags) set_takeWhileD)
qed

lemma next_part_None: "next_part r = None \<longleftrightarrow> 47 \<notin> set r"
  by (induction r) (auto simp: next_part_def)

lemma next_part_append: "47 \<notin> set us \<Longrightarrow> next_part (us @ 47 # r) = Some r"
  by (induction us) (auto simp: next_part_def)

lemma strsep_step:
  assumes "at_rest str L m0 m tok r" "buffer_ok str L" "kept_str str m0 slash [47]"
  shows "next_part r = None \<Longrightarrow> strsep m tok slash = Some (tok, 0, m)"
    and "next_part r = Some r' \<Longrightarrow> \<exists>tok' m'. strsep m tok slash = Some (tok, tok', m') \<and> tok' \<noteq> 0 \<and> at_rest str L m0 m' tok' r'"
proof -
  from assms(1) have r: "length r \<le> L" "tok = str + of_nat (L - length r)" "cstr m tok r" "same_outside str m0 m"
    and far: "\<And>j. L < j \<Longrightarrow> j < 512 \<Longrightarrow> m (str + of_nat j) = m0 (str + of_nat j)" by (auto simp: at_rest_def)
  have L: "L < 256" using assms(2) by (simp add: buffer_ok_def)
  have sl: "cstr m slash [47]" using kept_str_same [OF assms(3) r(4)] .
  have t: "tok \<noteq> 0" "unat tok = unat str + (L - length r)" using buffer_at [OF assms(2), of "L - length r"] L r(2) by auto
  note pb = strpbrk_eq [OF sl r(3)]
  show "next_part r = None \<Longrightarrow> strsep m tok slash = Some (tok, 0, m)"
    using pb t(1) by (simp add: next_part_None strsep_def)
  assume "next_part r = Some r'"
  then obtain us where us: "r = us @ 47 # r'" "47 \<notin> set us" using next_part_split by blast
  define i where "i = L - length r + length us"
  have i: "i < L" "L - length r' = Suc i" using r(1) us(1) by (auto simp: i_def)
  have e: "tok + of_nat (length us) = str + of_nat i" by (simp add: i_def r(2))
  have "takeWhile (\<lambda>x. x \<noteq> 47) r = us" using us by (auto simp: takeWhile_append)
  then have "strpbrk m tok slash = Some (str + of_nat i)" using pb us(1) e by simp
  then have run: "strsep m tok slash = Some (tok, str + of_nat i + 1, m(str + of_nat i := 0))"
    using buffer_at [OF assms(2), of i] i L t(1) by (simp add: strsep_def)
  have tok': "str + of_nat i + 1 = str + of_nat (L - length r')" using i by simp
  have nz: "str + of_nat i + 1 \<noteq> 0" unfolding tok' using buffer_at [OF assms(2), of "L - length r'"] L by simp
  have "cstr (m(tok + of_nat (length us) := 0)) (tok + of_nat (length us) + 1) r'"
    by (rule cstr_write(2) [of m tok us 47 r']) (use r us t assms(2) in \<open>auto simp: buffer_ok_def\<close>)
  then have c: "cstr (m(str + of_nat i := 0)) (str + of_nat i + 1) r'" by (simp add: e)
  have ne: "str + of_nat i \<noteq> str + of_nat j" if "L < j" "j < 512" for j
    using buffer_at [OF assms(2), of i] buffer_at [OF assms(2) that(2)] i(1) that L by auto
  have "unat (of_nat i :: u32) = i" using i(1) L by (intro unat_of_nat_small) simp
  then have "unat (str + of_nat i - str) < 256" using i(1) L by simp
  then have same: "same_outside str m0 (m(str + of_nat i := 0))"
    using r(4) unfolding same_outside_def by (metis fun_upd_other not_less)
  have "at_rest str L m0 (m(str + of_nat i := 0)) (str + of_nat i + 1) r'"
    unfolding at_rest_def
  proof (intro conjI allI impI)
    show "length r' \<le> L" using us(1) r(1) by simp
    show "(m(str + of_nat i := 0)) (str + of_nat j) = m0 (str + of_nat j)" if "L < j" "j < 512" for j
      using ne [OF that] far [OF that] by (metis fun_upd_other)
  qed (rule tok' c same)+
  with run nz show "\<exists>tok' m'. strsep m tok slash = Some (tok, tok', m') \<and> tok' \<noteq> 0 \<and> at_rest str L m0 m' tok' r'" by blast
qed

lemma memchr_rest:
  assumes "at_rest str L m0 m tok r" "buffer_ok str L"
  shows "memchr m tok 47 256 = 0 \<longleftrightarrow> 47 \<notin> set r \<and> \<not> stale_slash str L m0 r"
proof -
  from assms(1) have r: "length r \<le> L" "tok = str + of_nat (L - length r)" "cstr m tok r"
    and far: "\<And>j. L < j \<Longrightarrow> j < 512 \<Longrightarrow> m (str + of_nat j) = m0 (str + of_nat j)" by (auto simp: at_rest_def)
  have L: "L < 256" using assms(2) by (simp add: buffer_ok_def)
  have t: "tok \<noteq> 0" "unat tok + 256 \<le> 2 ^ 32"
    using buffer_at [OF assms(2), of "L - length r"] L r(2) assms(2) by (auto simp: buffer_ok_def)
  have "m (tok + of_nat j) = m0 (str + of_nat (L - length r + j))" if "length r < j" "j < 256" for j
  proof -
    have "tok + of_nat j = str + of_nat (L - length r + j)" by (simp only: r(2) of_nat_add add.assoc)
    then show ?thesis using that L r(1) by (simp only:) (rule far, auto)
  qed
  then have "(\<forall>j \<in> {length r <..< 256}. m (tok + of_nat j) \<noteq> 47) \<longleftrightarrow> \<not> stale_slash str L m0 r"
    by (simp add: stale_slash_def)
  moreover have "(\<forall>j < 256. P j) \<longleftrightarrow> (\<forall>j \<le> length r. P j) \<and> (\<forall>j \<in> {length r <..< 256}. P j)" for P
    using L r(1) by (meson greaterThanLessThan_iff leI le_less_trans)
  moreover have "(\<forall>j \<le> length r. m (tok + of_nat j) \<noteq> 47) \<longleftrightarrow> 47 \<notin> set r"
    using cstr_nth [OF r(3)] cstr_end [OF r(3)] by (auto simp: in_set_conv_nth le_less)
  ultimately show ?thesis using memchr_loop_0 [OF t(2,1)] by (simp add: memchr_def)
qed

lemma scan_members_ref:
  assumes "at_rest str L m0 m tok r" "buffer_ok str L"
    and "\<forall>x \<in> set xs. (sysobj_name x st \<noteq> 0 \<longrightarrow> kept_str str m0 (sysobj_name x st) (nm x)) \<and> (\<forall>n. so_child (objs st x) \<noteq> Some (Obj n))"
  shows "scan_members m tok st xs = Some (scan_ref nm (stale_slash str L m0) st r xs)"
  using assms(3)
proof (induction xs)
  case (Cons x xs)
  have c: "cstr m tok r" "same_outside str m0 m" using assms(1) by (auto simp: at_rest_def)
  show ?case
  proof (cases "sysobj_name x st = 0")
    case False
    with Cons.prems have n: "cstr m (sysobj_name x st) (nm x)" using kept_str_same [OF _ c(2)] by auto
    have ch: "so_child (objs st x) = None \<or> (\<exists>s. so_child (objs st x) = Some (Set_Obj s))"
      using Cons.prems by (metis list.set_intros(1) not_None_eq sref.exhaust)
    show ?thesis
      using False Cons.IH Cons.prems strlen_eq [OF n] strncmp_name [OF n c(1)] memchr_rest [OF assms(1,2)] ch
      by (auto simp: Let_def to_sysset_def)
  qed simp
qed simp

lemma find_loop_ref:
  assumes "at_rest str L m0 m tok r" "buffer_ok str L" "kept_str str m0 slash [47]" "tree_ok str nm st m0"
  shows "find_loop slash st m tok s = Some (find_ref nm (stale_slash str L m0) st s r)"
  using assms(1)
proof (induction "length r" arbitrary: r m tok s rule: less_induct)
  case less
  show ?case
  proof (cases "next_part r")
    case None
    with strsep_step(1) [OF less.prems assms(2,3)] show ?thesis by (simp add: find_loop.simps find_ref.simps)
  next
    case (Some r')
    from strsep_step(2) [OF less.prems assms(2,3) Some] obtain tok' m' where
      s: "strsep m tok slash = Some (tok, tok', m')" "tok' \<noteq> 0" "at_rest str L m0 m' tok' r'" by blast
    have "scan_members m' tok' st (members st s) = Some (scan_ref nm (stale_slash str L m0) st r' (members st s))"
      by (rule scan_members_ref [OF s(3) assms(2)]) (use assms(4) in \<open>auto simp: tree_ok_def\<close>)
    with less.hyps [OF next_part_shorter [OF Some] s(3)] s(1,2) Some show ?thesis
      by (simp add: find_loop.simps [of slash st m] find_ref.simps [of nm _ st s r] split: scan.split)
  qed
qed


lemma copied_outside: "unat (a - d) \<ge> n \<Longrightarrow> copied d s n m a = m a"
  by (simp add: copied_def)

lemma at_rest_copy:
  assumes "cstr m path P" "buffer_ok str (length P)" "unat path + length P < 2 ^ 32"
  shows "at_rest str (length P) m (copied str path (length P + 1) m) str P"
proof -
  have off: "unat (str + of_nat j - str) = j" if "j < 512" for j
    using that by (simp add: unat_of_nat_small)
  have L: "length P < 256" using assms(2) by (simp add: buffer_ok_def)
  have "cstr (copied str path (length P + 1) m) str P"
  proof (rule cstr_moved [OF assms(1)])
    fix i assume "i \<le> length P"
    with off [of i] L show "copied str path (length P + 1) m (str + of_nat i) = m (path + of_nat i)"
      by (simp add: copied_def)
  qed
  moreover have "copied str path (length P + 1) m (str + of_nat j) = m (str + of_nat j)" if "length P < j" "j < 512" for j
    by (rule copied_outside) (use off [OF that(2)] that in simp)
  moreover have "same_outside str m (copied str path (length P + 1) m)"
    using L by (auto simp: same_outside_def intro: copied_outside)
  ultimately show ?thesis by (simp add: at_rest_def)
qed

definition strings_ok :: "u32 \<Rightarrow> u32 \<Rightarrow> u32 \<Rightarrow> u8 list \<Rightarrow> mem \<Rightarrow> bool" where
  "strings_ok str slash path P m \<longleftrightarrow> cstr m path P \<and> path \<noteq> 0 \<and> unat path + length P < 2 ^ 32 \<and> buffer_ok str (length P)
     \<and> kept_str str m slash [47]"

lemma find_obj_ref:
  assumes ok: "strings_ok str slash path P m" and tree: "tree_ok str nm st m"
    and root: "sysobj_name (Set_Obj s) st \<noteq> 0" "kept_str str m (sysobj_name (Set_Obj s) st) (nm (Set_Obj s))"
    and r: "next_part P = Some r"
  shows "sysset_find_obj str slash (Some s) path st m =
     Some (if prefix (nm (Set_Obj s)) r then find_ref nm (stale_slash str (length P) m) st s r else None)"
proof -
  from ok have c: "cstr m path P" "path \<noteq> 0" "unat path + length P < 2 ^ 32" "buffer_ok str (length P)" "kept_str str m slash [47]"
    by (auto simp: strings_ok_def)
  have L: "length P < 256" "unat str + 512 \<le> 2 ^ 32" using c(4) by (auto simp: buffer_ok_def)
  have ul: "unat (of_nat (length P) :: u32) = length P" "unat (of_nat (length P) + 1 :: u32) = length P + 1"
    using L unat_of_nat_small [of "length P"] unat_of_nat_small [of "length P + 1"] by (simp_all add: add.commute)
  have "P \<noteq> []" using r by (auto simp: next_part_def)
  then have l0: "(of_nat (length P) :: u32) \<noteq> 0" using ul(1) by (metis length_0_conv unat_0)
  have cp: "memcpy str path (of_nat (length P) + 1) m = Some (copied str path (length P + 1) m)"
    unfolding memcpy_def using memmove_eq [of str "of_nat (length P) + 1" path m] L c(3) ul(2) by simp
  note rest = at_rest_copy [OF c(1,4,3)]
  from strsep_step(2) [OF rest c(4,5) r] obtain tok m' where
    s: "strsep (copied str path (length P + 1) m) str slash = Some (str, tok, m')" "tok \<noteq> 0" "at_rest str (length P) m m' tok r"
    by blast
  then have m': "same_outside str m m'" "cstr m' tok r" by (auto simp: at_rest_def)
  have n: "cstr m' (sysobj_name (Set_Obj s) st) (nm (Set_Obj s))" by (rule kept_str_same [OF root(2) m'(1)])
  show ?thesis
    using strlen_eq [OF c(1)] c(2) l0 L(1) ul(1) cp s(1,2) root(1) strlen_eq [OF n] strncmp_name [OF n m'(2)]
      find_loop_ref [OF s(3) c(4,5) tree, of s]
    by (simp add: sysset_find_obj_def Let_def)
qed

section \<open>What is found\<close>

definition path_text :: "u8 list list \<Rightarrow> u8 list" where
  "path_text ns = concat (map (\<lambda>n. 47 # n) ns)"

lemma path_text_simps [simp]: "path_text [] = []" "path_text (n # ns) = 47 # n @ path_text ns"
  by (simp_all add: path_text_def)

text \<open>The object at the end of a path below a set: at every level the first member whose name begins the part of the path
  is the one with exactly this name.\<close>

fun at_path :: "(sref \<Rightarrow> u8 list) \<Rightarrow> sysctl \<Rightarrow> nat \<Rightarrow> u8 list list \<Rightarrow> sref \<Rightarrow> bool" where
  "at_path nm st s [] x \<longleftrightarrow> x = Set_Obj s"
| "at_path nm st s (n # ns) x \<longleftrightarrow>
     (case List.find (\<lambda>y. prefix (nm y) n) (members st s) of
        None \<Rightarrow> False
      | Some c \<Rightarrow> nm c = n \<and> (if ns = [] then x = c
                             else (case so_child (objs st c) of Some (Set_Obj s') \<Rightarrow> at_path nm st s' ns x | _ \<Rightarrow> False)))"

definition names_ok :: "(sref \<Rightarrow> u8 list) \<Rightarrow> sysctl \<Rightarrow> bool" where
  "names_ok nm st \<longleftrightarrow> (\<forall>s. \<forall>x \<in> set (members st s). sysobj_name x st \<noteq> 0 \<and> 47 \<notin> set (nm x))"

lemma prefix_part: "47 \<notin> set u \<Longrightarrow> prefix u (n @ path_text ns) \<longleftrightarrow> prefix u n"
  by (cases ns) (auto simp: prefix_append prefix_Cons)

lemma scan_ref_first:
  assumes "\<forall>x \<in> set xs. sysobj_name x st \<noteq> 0 \<and> 47 \<notin> set (nm x)" "List.find (\<lambda>y. prefix (nm y) n) xs = Some c" "47 \<notin> set n"
  shows "scan_ref nm junk st (n @ path_text ns) xs =
     (case so_child (objs st c) of
        Some (Set_Obj s) \<Rightarrow> if ns = [] \<and> \<not> junk n then Return (Some c) else Descend s
      | _ \<Rightarrow> Return (Some c))"
  using assms
proof (induction xs)
  case (Cons x xs)
  have p: "prefix (nm x) (n @ path_text ns) \<longleftrightarrow> prefix (nm x) n" using Cons.prems(1) by (intro prefix_part) auto
  then show ?case using Cons by (cases "prefix (nm x) n"; cases ns) (auto split: option.split sref.split)
qed simp

lemma scan_ref_none:
  assumes "\<forall>x \<in> set xs. sysobj_name x st \<noteq> 0 \<and> 47 \<notin> set (nm x)" "List.find (\<lambda>y. prefix (nm y) n) xs = None"
  shows "scan_ref nm junk st (n @ path_text ns) xs = Next"
  using assms by (induction xs) (auto simp: prefix_part split: if_splits)

lemma find_ref_path:
  assumes "names_ok nm st" "at_path nm st s ns x" "ns \<noteq> []" "47 \<notin> set u" "\<forall>n \<in> set ns. 47 \<notin> set n"
    and "so_child (objs st x) = None \<or> \<not> junk (last ns)"
  shows "find_ref nm junk st s (u @ path_text ns) = Some x"
  using assms(2-6)
proof (induction ns arbitrary: s u)
  case (Cons n ns)
  have np: "next_part (u @ path_text (n # ns)) = Some (n @ path_text ns)" using Cons.prems(3) by (simp add: next_part_append)
  from Cons.prems(1) obtain c where c: "List.find (\<lambda>y. prefix (nm y) n) (members st s) = Some c" "nm c = n"
    by (auto split: option.splits)
  note sc = scan_ref_first [OF _ c(1), of st junk ns]
  have no: "\<forall>x \<in> set (members st s). sysobj_name x st \<noteq> 0 \<and> 47 \<notin> set (nm x)" using assms(1) by (simp add: names_ok_def)
  have n: "47 \<notin> set n" using Cons.prems(4) by simp
  show ?case
  proof (cases "ns = []")
    case True
    with Cons.prems(1) c have "x = c" by simp
    with True Cons.prems(5) sc [OF no n] np show ?thesis
      by (auto simp: find_ref.simps [of nm junk st s] split: option.splits sref.splits)
  next
    case False
    with Cons.prems(1) c obtain s' where s': "so_child (objs st c) = Some (Set_Obj s')" "at_path nm st s' ns x"
      by (auto split: option.splits sref.splits)
    have "find_ref nm junk st s' (n @ path_text ns) = Some x"
      by (rule Cons.IH) (use s'(2) False n Cons.prems in auto)
    with False s'(1) sc [OF no n] np show ?thesis by (simp add: find_ref.simps [of nm junk st s])
  qed
qed simp

lemma find_obj_path:
  assumes "strings_ok str slash path (path_text (nm (Set_Obj s) # ns)) m" "tree_ok str nm st m" "names_ok nm st"
    and "sysobj_name (Set_Obj s) st \<noteq> 0" "kept_str str m (sysobj_name (Set_Obj s) st) (nm (Set_Obj s))"
    and "47 \<notin> set (nm (Set_Obj s))" "\<forall>n \<in> set ns. 47 \<notin> set n" "ns \<noteq> []" "at_path nm st s ns x"
    and "so_child (objs st x) = None \<or> \<not> stale_slash str (length (path_text (nm (Set_Obj s) # ns))) m (last ns)"
  shows "sysset_find_obj str slash (Some s) path st m = Some (Some x)"
proof -
  have "next_part (path_text (nm (Set_Obj s) # ns)) = Some (nm (Set_Obj s) @ path_text ns)"
    using next_part_append [of "[]" "nm (Set_Obj s) @ path_text ns"] by simp
  from find_obj_ref [OF assms(1,2,4,5) this] find_ref_path [where junk = "stale_slash str (length (path_text (nm (Set_Obj s) # ns))) m", OF assms(3,9,8,6,7,10)] show ?thesis
    by simp
qed


section \<open>Adding objects\<close>

definition added :: "sref \<Rightarrow> sref option \<Rightarrow> nat \<Rightarrow> u32 \<Rightarrow> sysctl \<Rightarrow> sysctl" where
  "added x p t name st = st\<lparr>members := (members st)(t := members st t @ [x]),
     objs := (objs st)(x := (objs st x)\<lparr>so_sysset := Some t, so_name := name,
                so_parent := Some (case p of None \<Rightarrow> Set_Obj t | Some q \<Rightarrow> q)\<rparr>)\<rparr>"

lemma sysobj_add_eq: "sysobj_add (Some x) p (Some t) name st = (0, added x p t name st)"
  by (cases p) (simp_all add: sysobj_add_def sysobj_add_internal_def sysobj_set_name_def sobj_sysset_join_def upd_sobj_def added_def Let_def)

lemma find_append: "List.find P (xs @ ys) = (case List.find P xs of None \<Rightarrow> List.find P ys | Some c \<Rightarrow> Some c)"
  by (induction xs) auto

lemma find_in_set: "List.find P xs = Some c \<Longrightarrow> c \<in> set xs \<and> P c"
  by (auto simp: find_Some_iff)

lemma at_path_added:
  assumes "\<forall>s. x \<notin> set (members st s)" "so_child (objs st (Set_Obj t)) = Some (Set_Obj t)"
    and "List.find (\<lambda>y. prefix (nm y) (nm x)) (members st t) = None" "at_path nm st s ns (Set_Obj t)"
  shows "at_path nm (added x p t name st) s (ns @ [nm x]) x"
  using assms(4)
proof (induction ns arbitrary: s)
  case Nil
  with assms(3) show ?case by (simp add: added_def find_append)
next
  case (Cons n ns)
  then obtain c where c: "List.find (\<lambda>y. prefix (nm y) n) (members st s) = Some c" "nm c = n"
    by (auto split: option.splits)
  then have cx: "c \<noteq> x" using find_in_set [OF c(1)] assms(1) by auto
  have f: "List.find (\<lambda>y. prefix (nm y) n) (members (added x p t name st) s) = Some c"
    using c(1) by (auto simp: added_def find_append)
  have ch: "so_child (objs (added x p t name st) c) = so_child (objs st c)" using cx by (simp add: added_def)
  have "\<exists>s'. so_child (objs st c) = Some (Set_Obj s') \<and> at_path nm st s' ns (Set_Obj t)"
    using Cons.prems c assms(2) by (cases "ns = []") (auto split: option.splits sref.splits)
  with Cons.IH show ?case by (auto simp: f ch c(2))
qed

lemma tree_ok_added:
  assumes "tree_ok str nm st m" "\<forall>s. x \<notin> set (members st s)" "so_child (objs st x) = None" "kept_str str m name (nm x)"
  shows "tree_ok str nm (added x p t name st) m"
proof -
  have "(sysobj_name y (added x p t name st) \<noteq> 0 \<longrightarrow> kept_str str m (sysobj_name y (added x p t name st)) (nm y))
     \<and> (\<forall>n. so_child (objs (added x p t name st) y) \<noteq> Some (Obj n))" if "y \<in> set (members st s) \<or> y = x" for y s
    using assms that by (cases "y = x") (auto simp: tree_ok_def added_def sysobj_name_def)
  moreover have "y \<in> set (members (added x p t name st) s) \<Longrightarrow> y \<in> set (members st s) \<or> y = x" for y s
    by (auto simp: added_def split: if_splits)
  ultimately show ?thesis unfolding tree_ok_def by blast
qed

lemma names_ok_added:
  assumes "names_ok nm st" "\<forall>s. x \<notin> set (members st s)" "name \<noteq> 0" "47 \<notin> set (nm x)"
  shows "names_ok nm (added x p t name st)"
  using assms by (auto simp: names_ok_def added_def sysobj_name_def)

section \<open>Properties\<close>

text \<open>C35: the search by path equals a search on lists of characters and always ends.  In a tree whose names lie outside of the
  stack buffer, and for a path of less than 256 characters with a slash, \<^verbatim>\<open>sysset_find_obj\<close> returns what
  the reference finds; no access is out of bounds.\<close>

theorem sysset_find_obj_total:
  assumes "strings_ok str slash path P m" and "tree_ok str nm st m"
    and "sysobj_name (Set_Obj s) st \<noteq> 0" and "kept_str str m (sysobj_name (Set_Obj s) st) (nm (Set_Obj s))"
    and "next_part P = Some r"
  shows "sysset_find_obj str slash (Some s) path st m =
     Some (if prefix (nm (Set_Obj s)) r then find_ref nm (stale_slash str (length P) m) st s r else None)"
  by (rule find_obj_ref [OF assms])

text \<open>C36: what is added is found.  When a new object without children is added to a set, and no name in the set begins
  its name, the search for the path of the set followed by the name of the object returns the object.\<close>

theorem sysobj_add_found:
  assumes "tree_ok str nm st m" and "names_ok nm st" and "at_path nm st s ns (Set_Obj t)"
    and "so_child (objs st (Set_Obj t)) = Some (Set_Obj t)" and "\<forall>s. x \<notin> set (members st s)" and "so_child (objs st x) = None"
    and "List.find (\<lambda>y. prefix (nm y) (nm x)) (members st t) = None" and "x \<noteq> Set_Obj s"
    and "name \<noteq> 0" and "kept_str str m name (nm x)"
    and "sysobj_name (Set_Obj s) st \<noteq> 0" and "kept_str str m (sysobj_name (Set_Obj s) st) (nm (Set_Obj s))"
    and "\<forall>n \<in> set (nm (Set_Obj s) # ns @ [nm x]). 47 \<notin> set n"
    and "strings_ok str slash path (path_text (nm (Set_Obj s) # ns @ [nm x])) m"
  shows "sysset_find_obj str slash (Some s) path (snd (sysobj_add (Some x) p (Some t) name st)) m = Some (Some x)"
proof -
  let ?st = "added x p t name st"
  have "sysobj_name (Set_Obj s) ?st = sysobj_name (Set_Obj s) st" "so_child (objs ?st x) = None"
    using assms(6,8) by (simp_all add: added_def sysobj_name_def)
  then have "sysset_find_obj str slash (Some s) path ?st m = Some (Some x)"
    using assms(11-13)
    by (intro find_obj_path [OF assms(14) tree_ok_added [OF assms(1,5,6,10)] names_ok_added [OF assms(2,5,9)] _ _ _ _ _
          at_path_added [OF assms(5,4,7,3)]]) auto
  then show ?thesis by (simp add: sysobj_add_eq)
qed

text \<open>The attributes called by \<^verbatim>\<open>sysobj_show_attr\<close> are those with the name, each once, in their order.\<close>

lemma attr_walk_eq:
  assumes "cstr m name N"
  shows "list_all2 (\<lambda>a. cstr m (sa_name a)) as xs \<Longrightarrow>
    attr_walk m name call as w = Some (fold call (map fst (filter (\<lambda>(a, x). x = N) (zip as xs))) w)"
proof (induction as xs arbitrary: w rule: list_all2_induct)
  case (Cons a as x xs)
  from strcmp_eq [OF Cons.hyps(1) assms] Cons.IH show ?case by (simp add: str_order_def)
qed simp

text \<open>Reading an attribute calls the \<^verbatim>\<open>show\<close> function of exactly the attributes with the name, in their order, and
  nothing else.\<close>

theorem sysobj_show_attr_correct:
  assumes "cstr m name N" and "list_all2 (\<lambda>a. cstr m (sa_name a)) as xs" and "so_sattr (objs st x) = Some as"
    and "name \<noteq> 0" and "buf \<noteq> 0"
  shows "sysobj_show_attr show m (Some x) name buf st w =
    Some (fold (\<lambda>a. show x a buf) (map fst (filter (\<lambda>(a, n). n = N) (zip as xs))) w)"
  using assms by (simp add: sysobj_show_attr_def attr_walk_eq)


text \<open>A part of the path that names no member is skipped: the search for \<^verbatim>\<open>/root/part/rest\<close> finds what is at
  \<^verbatim>\<open>/root/rest\<close> when no name in the root begins \<^verbatim>\<open>part\<close>, so a wrong path finds an object.\<close>

theorem sysset_find_obj_skips:
  assumes "strings_ok str slash path (path_text (nm (Set_Obj s) # n # ns)) m" and "tree_ok str nm st m" and "names_ok nm st"
    and "sysobj_name (Set_Obj s) st \<noteq> 0" and "kept_str str m (sysobj_name (Set_Obj s) st) (nm (Set_Obj s))"
    and "\<forall>n \<in> set (nm (Set_Obj s) # n # ns). 47 \<notin> set n" and "ns \<noteq> []" and "at_path nm st s ns x"
    and "so_child (objs st x) = None \<or> \<not> stale_slash str (length (path_text (nm (Set_Obj s) # n # ns))) m (last ns)"
    and "List.find (\<lambda>y. prefix (nm y) n) (members st s) = None"
  shows "sysset_find_obj str slash (Some s) path st m = Some (Some x)"
proof -
  let ?junk = "stale_slash str (length (path_text (nm (Set_Obj s) # n # ns))) m"
  have no: "\<forall>x \<in> set (members st s). sysobj_name x st \<noteq> 0 \<and> 47 \<notin> set (nm x)" using assms(3) by (simp add: names_ok_def)
  have "scan_ref nm ?junk st (n @ path_text ns) (members st s) = Next" using scan_ref_none [OF no assms(10)] .
  then have "find_ref nm ?junk st s (nm (Set_Obj s) @ path_text (n # ns)) = find_ref nm ?junk st s (n @ path_text ns)"
    using assms(6) by (simp add: find_ref.simps [of nm _ st s "nm (Set_Obj s) @ _"] next_part_append)
  also have "\<dots> = Some x" using assms(6) by (intro find_ref_path [where junk = ?junk, OF assms(3,8,7) _ _ assms(9)]) auto
  finally have f: "find_ref nm ?junk st s (nm (Set_Obj s) @ path_text (n # ns)) = Some x" .
  have "next_part (path_text (nm (Set_Obj s) # n # ns)) = Some (nm (Set_Obj s) @ path_text (n # ns))"
    using next_part_append [of "[]" "nm (Set_Obj s) @ path_text (n # ns)"] by simp
  from find_obj_ref [OF assms(1,2,4,5) this] f show ?thesis by simp
qed

text \<open>A path without a slash is fatal: the pointer that \<^verbatim>\<open>strsep\<close> leaves is null and is read.\<close>

theorem sysset_find_obj_null:
  assumes "strings_ok str slash path P m" and "P \<noteq> []" and "47 \<notin> set P"
    and "kept_str str m (sysobj_name (Set_Obj s) st) (nm (Set_Obj s))" and "nm (Set_Obj s) \<noteq> []"
  shows "sysset_find_obj str slash (Some s) path st m = None"
proof -
  from assms(1) have c: "cstr m path P" "path \<noteq> 0" "unat path + length P < 2 ^ 32" "buffer_ok str (length P)" "kept_str str m slash [47]"
    by (auto simp: strings_ok_def)
  have L: "length P < 256" "unat str + 512 \<le> 2 ^ 32" using c(4) by (auto simp: buffer_ok_def)
  have ul: "unat (of_nat (length P) :: u32) = length P" "unat (of_nat (length P) + 1 :: u32) = length P + 1"
    using L unat_of_nat_small [of "length P"] unat_of_nat_small [of "length P + 1"] by (simp_all add: add.commute)
  have cp: "memcpy str path (of_nat (length P) + 1) m = Some (copied str path (length P + 1) m)"
    unfolding memcpy_def using memmove_eq [of str "of_nat (length P) + 1" path m] L c(3) ul(2) by simp
  note rest = at_rest_copy [OF c(1,4,3)]
  have s: "strsep (copied str path (length P + 1) m) str slash = Some (str, 0, copied str path (length P + 1) m)"
    using strsep_step(1) [OF rest c(4,5)] assms(3) by (simp add: next_part_None)
  have n: "cstr (copied str path (length P + 1) m) (sysobj_name (Set_Obj s) st) (nm (Set_Obj s))"
    using rest by (intro kept_str_same [OF assms(4)]) (simp add: at_rest_def)
  have "(of_nat (length (nm (Set_Obj s))) :: u32) \<noteq> 0" "(of_nat (length P) :: u32) \<noteq> 0"
    using cstr_length [OF n] assms(5) unat_of_nat_small [of "length (nm (Set_Obj s))"] ul(1) assms(2)
    by (metis length_0_conv unat_0)+
  then show ?thesis
    using strlen_eq [OF c(1)] c(2) cp s strlen_eq [OF n] by (simp add: sysset_find_obj_def Let_def)
qed

section \<open>An example tree\<close>

definition blank_obj :: sysobj where
  "blank_obj = \<lparr>so_name = 0, so_parent = None, so_child = None, so_sysset = None, so_sattr = None\<rparr>"

text \<open>The tree after start up, with the sets \<^verbatim>\<open>sys\<close> and \<^verbatim>\<open>driver\<close>; the strings \<^verbatim>\<open>sys\<close>, \<^verbatim>\<open>driver\<close>,
  \<^verbatim>\<open>irq\<close> and a path in the memory.\<close>

definition sys_tree :: sysctl where
  "sys_tree = snd (sysctl_init (Some 0) (Some 2) 16 32 \<lparr>objs = \<lambda>_. blank_obj, members = \<lambda>_. [], sys_set = None\<rparr>)"

fun tree_name :: "sref \<Rightarrow> u8 list" where
  "tree_name (Set_Obj s) = (if s = 0 then [115, 121, 115] else [100, 114, 118])"
| "tree_name (Obj n) = [105, 114, 113]"

definition sys_mem :: mem where
  "sys_mem = (\<lambda>_. 0)(16 := 115, 17 := 121, 18 := 115, 32 := 100, 33 := 114, 34 := 118, 48 := 47, 64 := 105, 65 := 114, 66 := 113,
     80 := 47, 81 := 115, 82 := 121, 83 := 115, 84 := 47, 85 := 100, 86 := 114, 87 := 118, 88 := 47, 89 := 105, 90 := 114, 91 := 113)"

lemma kept_strI:
  assumes "cstr m p xs" "unat p + length xs < unat str" "unat str + 256 \<le> 2 ^ 32"
  shows "kept_str str m p xs"
proof -
  have "256 \<le> unat (p + of_nat i - str)" if "i \<le> length xs" for i
  proof -
    have "unat (p + of_nat i) = unat p + i" by (rule area_at [of _ "length xs"]) (use assms that in auto)
    then show ?thesis using assms(2,3) that by (simp add: unat_sub_if_size word_size)
  qed
  with assms(1) show ?thesis by (simp add: kept_str_def)
qed

lemma sys_tree_eq: "objs sys_tree (Set_Obj 0) = blank_obj\<lparr>so_name := 16, so_child := Some (Set_Obj 0)\<rparr>"
  "objs sys_tree (Set_Obj 2) = \<lparr>so_name = 32, so_parent = Some (Set_Obj 0), so_child = Some (Set_Obj 2), so_sysset = Some 0, so_sattr = None\<rparr>"
  "objs sys_tree (Obj n) = blank_obj" "members sys_tree = (\<lambda>_. [])(0 := [Set_Obj 2])"
  by (auto simp: sys_tree_def sysctl_init_def sysset_create_and_add_def sysset_create_def sysset_register_def sysobj_add_internal_def
    sobj_sysset_join_def upd_sobj_def blank_obj_def Let_def)

lemma sys_strings:
  "kept_str 0x1000 sys_mem 16 [115, 121, 115]" "kept_str 0x1000 sys_mem 32 [100, 114, 118]" "kept_str 0x1000 sys_mem 48 [47]"
  "kept_str 0x1000 sys_mem 64 [105, 114, 113]"
  by (rule kept_strI; simp add: sys_mem_def)+

lemma sys_tree_ok: "tree_ok 0x1000 tree_name sys_tree sys_mem" "names_ok tree_name sys_tree"
  using sys_strings by (auto simp: tree_ok_def names_ok_def sys_tree_eq sysobj_name_def)

lemma sys_path: "strings_ok 0x1000 48 80 (path_text [[115, 121, 115], [100, 114, 118], [105, 114, 113]]) sys_mem"
  using sys_strings by (simp add: strings_ok_def buffer_ok_def) (simp add: sys_mem_def)

theorem sysobj_add_found_witness:
  "sysset_find_obj 0x1000 48 (Some 0) 80 (snd (sysobj_add (Some (Obj 0)) None (Some 2) 64 sys_tree)) sys_mem = Some (Some (Obj 0))"
proof (rule sysobj_add_found [OF sys_tree_ok, where ns = "[[100, 114, 118]]"])
  show "strings_ok 0x1000 48 80 (path_text (tree_name (Set_Obj 0) # [[100, 114, 118]] @ [tree_name (Obj 0)])) sys_mem"
    using sys_path by simp
qed (use sys_strings in \<open>auto simp: sys_tree_eq sysobj_name_def blank_obj_def\<close>)


theorem sysset_find_obj_total_witness:
  "sysset_find_obj 0x1000 48 (Some 0) 80 sys_tree sys_mem =
     Some (if prefix [115, 121, 115] [115, 121, 115, 47, 100, 114, 118, 47, 105, 114, 113]
           then find_ref tree_name (stale_slash 0x1000 (length (path_text [[115, 121, 115], [100, 114, 118], [105, 114, 113]])) sys_mem) sys_tree 0
             [115, 121, 115, 47, 100, 114, 118, 47, 105, 114, 113] else None)"
  using sysset_find_obj_total [OF sys_path sys_tree_ok(1), of 0 "[115, 121, 115, 47, 100, 114, 118, 47, 105, 114, 113]"] sys_strings
  by (simp add: sys_tree_eq sysobj_name_def blank_obj_def next_part_def)

text \<open>A root that has only the object \<^verbatim>\<open>irq\<close>.\<close>

definition flat_tree :: sysctl where
  "flat_tree = snd (sysobj_add (Some (Obj 0)) None (Some 0) 64
     (snd (sysset_create_and_add (Some 0) 16 None None \<lparr>objs = \<lambda>_. blank_obj, members = \<lambda>_. [], sys_set = None\<rparr>)))"

lemma flat_tree_eq: "so_name (objs flat_tree (Set_Obj 0)) = 16" "so_name (objs flat_tree (Obj 0)) = 64"
  "so_child (objs flat_tree (Obj 0)) = None" "members flat_tree = (\<lambda>_. [])(0 := [Obj 0])"
  by (auto simp: flat_tree_def sysobj_add_eq added_def sysset_create_and_add_def sysset_create_def sysset_register_def sysobj_add_internal_def
    upd_sobj_def blank_obj_def Let_def)

theorem sysset_find_obj_skips_witness:
  "sysset_find_obj 0x1000 48 (Some 0) 80 flat_tree sys_mem = Some (Some (Obj 0))"
  by (rule sysset_find_obj_skips [where nm = tree_name and n = "[100, 114, 118]" and ns = "[[105, 114, 113]]"])
    (use sys_path sys_strings in \<open>auto simp: tree_ok_def names_ok_def flat_tree_eq sysobj_name_def\<close>)

theorem sysset_find_obj_null_witness: "sysset_find_obj 0x1000 48 (Some 0) 64 sys_tree sys_mem = None"
proof (rule sysset_find_obj_null [where nm = tree_name])
  show "strings_ok 0x1000 48 64 [105, 114, 113] sys_mem"
    using sys_strings by (simp add: strings_ok_def buffer_ok_def) (simp add: sys_mem_def)
qed (use sys_strings in \<open>auto simp: sys_tree_eq sysobj_name_def blank_obj_def\<close>)

definition attr_tree :: sysctl where
  "attr_tree = sys_tree\<lparr>objs := \<lambda>_. blank_obj\<lparr>so_sattr := Some [\<lparr>sa_name = 32, sa_show = 1, sa_store = 2\<rparr>, \<lparr>sa_name = 64, sa_show = 3, sa_store = 4\<rparr>]\<rparr>\<rparr>"

theorem sysobj_show_attr_correct_witness:
  "sysobj_show_attr (\<lambda>x a buf w. w @ [sa_show a]) sys_mem (Some (Obj 0)) 64 0x2000 attr_tree [] = Some [3]"
  by (subst sysobj_show_attr_correct [where N = "[105, 114, 113]" and xs = "[[100, 114, 118], [105, 114, 113]]"])
    (auto simp: attr_tree_def sys_mem_def)

end
