(* ===== verification/Sched_Base.thy ===== *)
theory Sched_Base
  imports Ktime "HOL-Library.Multiset"
begin

text \<open>
  Data of the schedulers: \<^verbatim>\<open>include/kernel/sched.h\<close>, \<^verbatim>\<open>include/kernel/kthread.h\<close>.  Tasks are named by
  numbers (their addresses) and kept in a store; a queue is the list of its tasks, which is what the
  operations on \<^verbatim>\<open>struct list_head\<close> compute by the refinement lemmas on linked lists.  The loops
  over a queue with \<^verbatim>\<open>list_for_each_entry_safe\<close> remember the successor of the current task before their body
  moves or removes the task; they run on fuel here, and the amount given is shown to suffice.
  A trap the code executes to raise an alarm (\<^verbatim>\<open>ta 0\<close>) is counted; a task handed to \<^verbatim>\<open>kfree\<close>
  is recorded.
\<close>

section \<open>Tasks and queues\<close>

datatype ksched_policy = KSCHED_RR | KSCHED_EDF | KSCHED_OTHER

datatype task_state = TASK_RUN | TASK_IDLE | TASK_NEW | TASK_DEAD | TASK_BUSY

abbreviation KTHREAD_CPU_AFFINITY_NONE :: int where "KTHREAD_CPU_AFFINITY_NONE \<equiv> - 1"
abbreviation TASK_RUN_ONCE :: nat where "TASK_RUN_ONCE \<equiv> 0"
abbreviation TASK_NO_CLEAN :: nat where "TASK_NO_CLEAN \<equiv> 30"

record sched_attr =
  policy :: ksched_policy
  priority :: u32
  period :: ktime
  wcet :: ktime
  deadline_rel :: ktime

type_synonym tid = nat

record task_struct =
  state :: task_state
  on_cpu :: int
  tname :: string
  sched :: "ksched_policy option"
  attr :: sched_attr
  runtime :: ktime
  wakeup :: ktime
  deadline :: ktime
  wakeup_first :: ktime
  exec_start :: ktime
  exec_stop :: ktime
  total :: ktime
  slices :: u32
  flags :: u32

record task_queue =
  wake :: "tid list"
  run :: "tid list"
  dead :: "tid list"
  clean :: "tid list"

record sched_st =
  task :: "tid \<Rightarrow> task_struct"
  tq :: "ksched_policy \<Rightarrow> int \<Rightarrow> task_queue"
  alarms :: nat
  freed :: "tid list"

definition upd_task :: "tid \<Rightarrow> (task_struct \<Rightarrow> task_struct) \<Rightarrow> sched_st \<Rightarrow> sched_st" where
  "upd_task t f s = s\<lparr>task := (task s)(t := f (task s t))\<rparr>"

definition upd_queue :: "ksched_policy \<Rightarrow> int \<Rightarrow> (task_queue \<Rightarrow> task_queue) \<Rightarrow> sched_st \<Rightarrow> sched_st" where
  "upd_queue p c f s = s\<lparr>tq := (tq s)(p := (tq s p)(c := f (tq s p c)))\<rparr>"

definition raise_alarm :: "sched_st \<Rightarrow> sched_st" where
  "raise_alarm s = s\<lparr>alarms := Suc (alarms s)\<rparr>"

definition list_move_front :: "'a \<Rightarrow> 'a list \<Rightarrow> 'a list" where
  "list_move_front x xs = x # remove1 x xs"

definition list_move_back :: "'a \<Rightarrow> 'a list \<Rightarrow> 'a list" where
  "list_move_back x xs = remove1 x xs @ [x]"

text \<open>The successor of a task in a queue: what \<^verbatim>\<open>list_next_entry\<close> yields, \<^term>\<open>None\<close> for the list head.\<close>

fun next_of :: "'a list \<Rightarrow> 'a \<Rightarrow> 'a option" where
  "next_of [] t = None"
| "next_of [x] t = None"
| "next_of (x # y # xs) t = (if x = t then Some y else next_of (y # xs) t)"

definition first_of :: "'a list \<Rightarrow> 'a option" where
  "first_of xs = (case xs of [] \<Rightarrow> None | x # _ \<Rightarrow> Some x)"

definition has_flag :: "task_struct \<Rightarrow> nat \<Rightarrow> bool" where
  "has_flag t n \<longleftrightarrow> bit (flags t) n"

text \<open>\<^verbatim>\<open>kthread_free\<close>: the stack, the name and the task go to \<^verbatim>\<open>kfree\<close>, unless the user keeps the task.\<close>

definition kthread_free :: "tid \<Rightarrow> sched_st \<Rightarrow> sched_st" where
  "kthread_free t s = (if has_flag (task s t) TASK_NO_CLEAN then s else s\<lparr>freed := t # freed s\<rparr>)"

section \<open>Lemmas\<close>

lemma upd_task_simps [simp]:
  "task (upd_task t f s) t = f (task s t)" "t' \<noteq> t \<Longrightarrow> task (upd_task t f s) t' = task s t'"
  "tq (upd_task t f s) = tq s" "alarms (upd_task t f s) = alarms s" "freed (upd_task t f s) = freed s"
  by (simp_all add: upd_task_def)

lemma upd_queue_simps [simp]:
  "tq (upd_queue p c f s) p c = f (tq s p c)" "p' \<noteq> p \<or> c' \<noteq> c \<Longrightarrow> tq (upd_queue p c f s) p' c' = tq s p' c'"
  "task (upd_queue p c f s) = task s" "alarms (upd_queue p c f s) = alarms s" "freed (upd_queue p c f s) = freed s"
  by (auto simp: upd_queue_def)

lemma raise_alarm_simps [simp]:
  "task (raise_alarm s) = task s" "tq (raise_alarm s) = tq s" "freed (raise_alarm s) = freed s"
  by (simp_all add: raise_alarm_def)

lemma kthread_free_simps [simp]:
  "task (kthread_free t s) = task s" "tq (kthread_free t s) = tq s" "alarms (kthread_free t s) = alarms s"
  by (simp_all add: kthread_free_def)

lemma next_of_append:
  "t \<notin> set us \<Longrightarrow> next_of (us @ t # vs) t = first_of vs"
proof (induction us)
  case Nil
  show ?case by (cases vs) (auto simp: first_of_def)
next
  case (Cons u us)
  then show ?case by (cases us) auto
qed

lemma first_of_simps [simp]: "first_of [] = None" "first_of (x # xs) = Some x"
  by (simp_all add: first_of_def)

lemma move_sets [simp]:
  "x \<in> set xs \<Longrightarrow> set (list_move_front x xs) = set xs" "x \<in> set xs \<Longrightarrow> set (list_move_back x xs) = set xs"
  by (auto simp: list_move_front_def list_move_back_def dest: in_set_remove1 notin_set_remove1)
     (metis in_set_remove1)+

lemma move_mset [simp]:
  "x \<in> set xs \<Longrightarrow> mset (list_move_front x xs) = mset xs" "x \<in> set xs \<Longrightarrow> mset (list_move_back x xs) = mset xs"
  by (simp_all add: list_move_front_def list_move_back_def)

lemma move_distinct:
  "distinct xs \<Longrightarrow> distinct (list_move_front x xs)" "distinct xs \<Longrightarrow> distinct (list_move_back x xs)"
  by (auto simp: list_move_front_def list_move_back_def)

lemma move_middle:
  "t \<notin> set us \<Longrightarrow> list_move_front t (us @ t # vs) = t # us @ vs"
  "t \<notin> set us \<Longrightarrow> list_move_back t (us @ t # vs) = us @ vs @ [t]"
  by (simp_all add: list_move_front_def list_move_back_def)

end
