(* ===== verification/Edf.thy ===== *)
theory Edf
  imports Sched_Base Complex_Main
begin

text \<open>
  The earliest deadline first scheduler, \<^verbatim>\<open>kernel/sched/edf.c\<close>.

  Parameters: \<open>tmin\<close> is \<^verbatim>\<open>tick_get_period_min_ns()\<close> (the tick device), \<open>cpus\<close> is \<^verbatim>\<open>CONFIG_SMP_CPUS_MAX\<close>,
  and \<open>rnd\<close> the rounding of the double arithmetic of the utilisation test, whose values are rationals
  here.  A division by zero, a loop that does not end and an access through the list head as if
  it were a task are \<^term>\<open>None\<close>.  The spin lock and the interrupt masking are not represented.
\<close>

abbreviation edf_queue :: "sched_st \<Rightarrow> int \<Rightarrow> task_queue" where
  "edf_queue s cpu \<equiv> tq s KSCHED_EDF cpu"

section \<open>Tasks\<close>

text \<open>Printing the queue has an effect on its tasks: a slice count of zero becomes one.\<close>

definition sched_print_edf_list_internal :: "ksched_policy \<Rightarrow> int \<Rightarrow> sched_st \<Rightarrow> sched_st" where
  "sched_print_edf_list_internal p cpu s =
     foldl (\<lambda>s t. if slices (task s t) = 0 then upd_task t (\<lambda>k. k\<lparr>slices := 1\<rparr>) s else s) s (run (tq s p cpu))"

definition schedule_edf_can_execute :: "u32 \<Rightarrow> task_struct \<Rightarrow> ktime \<Rightarrow> bool" where
  "schedule_edf_can_execute tmin t now =
     (let tick = uint (push_bit 1 tmin) in
        if runtime t \<le> tick then False
        else if ktime_delta (deadline t) now \<le> tick then False
        else True)"

definition schedule_edf_reinit_task :: "tid \<Rightarrow> ktime \<Rightarrow> sched_st \<Rightarrow> sched_st" where
  "schedule_edf_reinit_task t now s =
     (let s = (if runtime (task s t) = wcet (attr (task s t)) then raise_alarm s else s);
          new_wake = ktime_add (wakeup (task s t)) (period (attr (task s t)));
          s = (if ktime_after now new_wake
               then raise_alarm (case sched (task s t) of
                      Some p \<Rightarrow> sched_print_edf_list_internal p (on_cpu (task s t)) s
                    | None \<Rightarrow> s)
               else s)
      in if has_flag (task s t) TASK_RUN_ONCE then upd_task t (\<lambda>k. k\<lparr>state := TASK_DEAD\<rparr>) s
         else upd_task t (\<lambda>k. k\<lparr>state := TASK_IDLE, wakeup := new_wake,
                deadline := ktime_add new_wake (deadline_rel (attr k)),
                runtime := wcet (attr k), slices := slices k + 1\<rparr>) s)"

section \<open>Admission\<close>

function edf_gcd :: "int \<Rightarrow> int \<Rightarrow> int option" where
  "edf_gcd a b =
     (if a = b then Some a
      else if a \<le> 0 \<or> b \<le> 0 then None
      else if a > b then edf_gcd (a - b) b
      else edf_gcd a (b - a))"
  by pat_completeness auto
termination by (relation "measure (\<lambda>(a, b). nat (a + b))") auto

declare edf_gcd.simps [simp del]

definition edf_lcm_step :: "ktime \<Rightarrow> ktime \<Rightarrow> ktime option" where
  "edf_lcm_step l p =
     (if p = 0 then None
      else if p dvd l then Some l
      else do { a \<leftarrow> edf_gcd l p; Some (s64 (l * s64 (p sdiv a))) })"

fun edf_lcm_list :: "sched_st \<Rightarrow> ktime \<Rightarrow> tid list \<Rightarrow> ktime option" where
  "edf_lcm_list s l [] = Some l"
| "edf_lcm_list s l (t # ts) =
     do { l \<leftarrow> edf_lcm_step l (period (attr (task s t))); edf_lcm_list s l ts }"

definition edf_hyperperiod :: "sched_st \<Rightarrow> int \<Rightarrow> tid \<Rightarrow> ktime option" where
  "edf_hyperperiod s cpu t =
     do { l \<leftarrow> edf_lcm_list s (period (attr (task s t))) (run (edf_queue s cpu));
          edf_lcm_list s l (wake (edf_queue s cpu)) }"

definition task_util :: "(rat \<Rightarrow> rat) \<Rightarrow> sched_attr \<Rightarrow> rat" where
  "task_util rnd a = rnd (rnd (of_int (wcet a)) / rnd (of_int (period a)))"

definition edf_utilisation :: "(rat \<Rightarrow> rat) \<Rightarrow> sched_st \<Rightarrow> int \<Rightarrow> tid option \<Rightarrow> rat" where
  "edf_utilisation rnd s cpu t =
     (let u = (case t of Some t \<Rightarrow> task_util rnd (attr (task s t)) | None \<Rightarrow> 0);
          u = foldl (\<lambda>u t. rnd (u + task_util rnd (attr (task s t)))) u (wake (edf_queue s cpu))
      in foldl (\<lambda>u t. rnd (u + task_util rnd (attr (task s t)))) u (run (edf_queue s cpu)))"

definition util_max :: "(rat \<Rightarrow> rat) \<Rightarrow> rat" where
  "util_max rnd = rnd (98 / 100)"

definition edf_find_cpu :: "(rat \<Rightarrow> rat) \<Rightarrow> nat \<Rightarrow> sched_st \<Rightarrow> tid \<Rightarrow> int" where
  "edf_find_cpu rnd cpus s t =
     fst (foldl (\<lambda>(cpu, u_max) i.
              let u = edf_utilisation rnd s (int i) (Some t) in
                if u > util_max rnd then (cpu, u_max)
                else if u > u_max then (int i, u) else (cpu, u_max))
            (- ENODEV, 0) [0..<cpus])"

definition edf_longest_period_task :: "sched_st \<Rightarrow> int \<Rightarrow> tid \<Rightarrow> tid" where
  "edf_longest_period_task s cpu t =
     foldl (\<lambda>t0 t. if period (attr (task s t)) > period (attr (task s t0)) then t else t0) t
       (wake (edf_queue s cpu) @ run (edf_queue s cpu))"

definition c_div :: "int \<Rightarrow> int \<Rightarrow> int option" where
  "c_div a b = (if b = 0 then None else Some (s64 (a sdiv b)))"

text \<open>
  The slots one task takes before and after the deadline of the task with the longest period; the result is
  the head and tail slots left, or the error code.
\<close>

definition edf_slot_step ::
    "ktime \<Rightarrow> sched_attr \<Rightarrow> ktime \<Rightarrow> sched_attr \<Rightarrow> ktime \<times> ktime \<Rightarrow> (int + ktime \<times> ktime) option" where
  "edf_slot_step h a0 f1 a u =
     (let (uh, ut) = u in
      do { sh \<leftarrow> (if deadline_rel a \<le> deadline_rel a0
                  then c_div (s64 (s64 (h * wcet a) * deadline_rel a0)) (period a) else Some 0);
           if deadline_rel a \<le> deadline_rel a0 \<and> sh > uh then Some (Inl (- 1))
           else do {
             let uh = (if deadline_rel a \<le> deadline_rel a0 then s64 (uh - sh) else uh);
             st \<leftarrow> c_div (s64 (s64 (h * wcet a) * f1)) (period a);
             if st > ut then Some (Inl (- 2)) else Some (Inr (uh, s64 (ut - st))) } })"

fun edf_slot_list ::
    "sched_st \<Rightarrow> ktime \<Rightarrow> tid \<Rightarrow> ktime \<Rightarrow> tid list \<Rightarrow> ktime \<times> ktime \<Rightarrow> (int + ktime \<times> ktime) option" where
  "edf_slot_list s h t0 f1 [] u = Some (Inr u)"
| "edf_slot_list s h t0 f1 (t # ts) u =
     (if t = t0 then edf_slot_list s h t0 f1 ts u
      else do { r \<leftarrow> edf_slot_step h (attr (task s t0)) f1 (attr (task s t)) u;
                case r of Inl e \<Rightarrow> Some (Inl e) | Inr u \<Rightarrow> edf_slot_list s h t0 f1 ts u })"

definition edf_test_slot_utilisation :: "sched_st \<Rightarrow> int \<Rightarrow> tid \<Rightarrow> int option" where
  "edf_test_slot_utilisation s cpu t =
     (let t0 = edf_longest_period_task s cpu t; a0 = attr (task s t0) in
      do { p \<leftarrow> edf_hyperperiod s cpu t;
           h \<leftarrow> c_div p (period a0);
           let uh = s64 (h * s64 (deadline_rel a0 - wcet a0));
           let ut = s64 (h * s64 (period a0 - deadline_rel a0));
           f1 \<leftarrow> c_div ut h;
           r \<leftarrow> edf_slot_list s h t0 f1 (wake (edf_queue s cpu) @ run (edf_queue s cpu) @ [t]) (uh, ut);
           Some (case r of Inl e \<Rightarrow> e | Inr _ \<Rightarrow> 0) })"

fun edf_try_cpus :: "(rat \<Rightarrow> rat) \<Rightarrow> sched_st \<Rightarrow> int \<Rightarrow> tid \<Rightarrow> int list \<Rightarrow> int option option" where
  "edf_try_cpus rnd s cpu t [] = Some None"
| "edf_try_cpus rnd s cpu t (i # is) =
     (if i = cpu then edf_try_cpus rnd s cpu t is
      else if edf_utilisation rnd s cpu (Some t) > util_max rnd then edf_try_cpus rnd s cpu t is
      else do { r \<leftarrow> edf_test_slot_utilisation s i t;
                if r \<noteq> 0 then edf_try_cpus rnd s cpu t is else Some (Some i) })"

definition edf_schedulable :: "(rat \<Rightarrow> rat) \<Rightarrow> nat \<Rightarrow> sched_st \<Rightarrow> tid \<Rightarrow> int option" where
  "edf_schedulable rnd cpus s t =
     (let cpu = (if on_cpu (task s t) = KTHREAD_CPU_AFFINITY_NONE then edf_find_cpu rnd cpus s t
                 else on_cpu (task s t))
      in if on_cpu (task s t) = KTHREAD_CPU_AFFINITY_NONE \<and> cpu < 0 then Some cpu
      else do {
        r \<leftarrow> edf_test_slot_utilisation s cpu t;
        found \<leftarrow> (if r \<noteq> 0 then edf_try_cpus rnd s cpu t (map int [0..<cpus]) else Some None);
        case found of
          Some i \<Rightarrow> Some i
        | None \<Rightarrow> Some (if edf_utilisation rnd s cpu (Some t) > util_max rnd then - ENODEV else cpu) })"

section \<open>Selection of the next task\<close>

definition edf_visit :: "u32 \<Rightarrow> int \<Rightarrow> ktime \<Rightarrow> tid option \<Rightarrow> tid \<Rightarrow> sched_st \<Rightarrow> sched_st" where
  "edf_visit tmin cpu now this t s =
     (if ktime_delta (wakeup (task s t)) now > 2 * uint tmin then s
      else if state (task s t) = TASK_RUN then
        let s = (if \<not> schedule_edf_can_execute tmin (task s t) now
                 then upd_queue KSCHED_EDF cpu (\<lambda>q. q\<lparr>run := list_move_back t (run q)\<rparr>) (schedule_edf_reinit_task t now s)
                 else s);
            first = hd (run (edf_queue s cpu))
        in if ktime_before now (wakeup (task s t)) then s
           else if ktime_before (deadline (task s t)) (deadline (task s first))
           then upd_queue KSCHED_EDF cpu (\<lambda>q. q\<lparr>run := list_move_front t (run q)\<rparr>)
                  (upd_task t (\<lambda>k. k\<lparr>state := TASK_RUN\<rparr>) s)
           else s
      else if state (task s t) = TASK_IDLE then
        let s = upd_task t (\<lambda>k. k\<lparr>state := TASK_RUN\<rparr>) s;
            first = hd (run (edf_queue s cpu))
        in if state (task s first) \<noteq> TASK_RUN
             \<or> ktime_before (deadline (task s t)) (deadline (task s first))
           then upd_queue KSCHED_EDF cpu (\<lambda>q. q\<lparr>run := list_move_front t (run q)\<rparr>) s
           else s
      else if state (task s t) = TASK_DEAD then
        if Some t = this then s
        else kthread_free t (upd_queue KSCHED_EDF cpu (\<lambda>q. q\<lparr>run := remove1 t (run q)\<rparr>) s)
      else s)"

fun edf_scan :: "nat \<Rightarrow> u32 \<Rightarrow> int \<Rightarrow> ktime \<Rightarrow> tid option \<Rightarrow> tid option \<Rightarrow> sched_st \<Rightarrow> sched_st option" where
  "edf_scan n tmin cpu now this None s = Some s"
| "edf_scan 0 tmin cpu now this (Some t) s = None"
| "edf_scan (Suc n) tmin cpu now this (Some t) s =
     (let tmp = next_of (run (edf_queue s cpu)) t
      in edf_scan n tmin cpu now this tmp (edf_visit tmin cpu now this t s))"

definition edf_pick_next :: "u32 \<Rightarrow> int \<Rightarrow> ktime \<Rightarrow> tid option \<Rightarrow> sched_st \<Rightarrow> (tid option \<times> sched_st) option" where
  "edf_pick_next tmin cpu now this s =
     (if run (edf_queue s cpu) = [] then Some (None, s)
      else do {
        s \<leftarrow> edf_scan (2 * length (run (edf_queue s cpu))) tmin cpu now this (first_of (run (edf_queue s cpu))) s;
        first \<leftarrow> first_of (run (edf_queue s cpu));
        if state (task s first) = TASK_RUN
        then Some (Some first, upd_task first (\<lambda>k. k\<lparr>state := TASK_BUSY\<rparr>) s)
        else Some (None, s) })"

section \<open>Waking tasks\<close>

definition edf_task_in_wake_queue :: "tid \<Rightarrow> task_queue \<Rightarrow> bool" where
  "edf_task_in_wake_queue t q = (List.find (\<lambda>x. x = t) (wake q) \<noteq> None)"

definition edf_get_earliest_wakeup :: "sched_st \<Rightarrow> task_queue \<Rightarrow> ktime \<Rightarrow> ktime" where
  "edf_get_earliest_wakeup s q now =
     (case snd (foldl (\<lambda>(mx, after) t.
              if state (task s t) = TASK_DEAD then (mx, after)
              else if has_flag (task s t) TASK_RUN_ONCE then (mx, after)
              else if mx > period (attr (task s t)) then (mx, after)
              else (period (attr (task s t)), Some t)) (0, None) (run q)) of
        Some t \<Rightarrow> ktime_add (wakeup (task s t)) (period (attr (task s t)))
      | None \<Rightarrow> now)"

text \<open>Only the current task moves, and to the front: the loop follows the order of the queue at its start.\<close>

definition edf_sort_queue_by_urgency :: "ksched_policy \<Rightarrow> int \<Rightarrow> ktime \<Rightarrow> sched_st \<Rightarrow> sched_st" where
  "edf_sort_queue_by_urgency p cpu now s =
     foldl (\<lambda>s t.
        if has_flag (task s t) TASK_RUN_ONCE then s
        else if state (task s t) = TASK_DEAD then s
        else let first = hd (run (tq s p cpu)) in
          if ktime_before (wakeup (task s t)) now
             \<and> ktime_before (ktime_delta (deadline (task s t)) (runtime (task s t))) (deadline (task s first))
          then upd_queue p cpu (\<lambda>q. q\<lparr>run := list_move_front t (run q)\<rparr>) s else s) s (run (tq s p cpu))"

fun edf_best_wakeup_list :: "sched_st \<Rightarrow> sched_attr \<Rightarrow> ktime \<Rightarrow> ktime \<Rightarrow> tid list \<Rightarrow> ktime" where
  "edf_best_wakeup_list s a wk now [] = wk"
| "edf_best_wakeup_list s a wk now (t # ts) =
     (if has_flag (task s t) TASK_RUN_ONCE then edf_best_wakeup_list s a wk now ts
      else if state (task s t) \<noteq> TASK_IDLE then edf_best_wakeup_list s a wk now ts
      else if ktime_before (wakeup (task s t)) now then edf_best_wakeup_list s a wk now ts
      else let delta = ktime_delta (deadline (task s t)) (wakeup (task s t)) in
        if deadline_rel a < delta then wakeup (task s t)
        else if wcet a < delta then deadline (task s t)
        else edf_best_wakeup_list s a wk now ts)"

definition edf_get_best_wakeup :: "tid \<Rightarrow> ktime \<Rightarrow> sched_st \<Rightarrow> task_queue \<Rightarrow> ktime \<Rightarrow> ktime" where
  "edf_get_best_wakeup t wk s q now = edf_best_wakeup_list s (attr (task s t)) wk now (run q)"

definition edf_wake :: "u32 \<Rightarrow> tid option \<Rightarrow> ktime \<Rightarrow> sched_st \<Rightarrow> (int \<times> sched_st) option" where
  "edf_wake tmin tp now s =
     (case tp of
        None \<Rightarrow> Some (- EINVAL, s)
      | Some t \<Rightarrow>
          if policy (attr (task s t)) \<noteq> KSCHED_EDF then Some (- EINVAL, s)
          else do {
            p \<leftarrow> sched (task s t);
            let cpu = on_cpu (task s t);
            if cpu = KTHREAD_CPU_AFFINITY_NONE then Some (- EINVAL, s)
            else if wake (tq s p cpu) = [] then Some (- EINVAL, s)
            else if \<not> edf_task_in_wake_queue t (tq s p cpu) then Some (- EINVAL, s)
            else
              let periodic = run (tq s p cpu) \<noteq> [] \<or> \<not> has_flag (task s t) TASK_RUN_ONCE;
                  wk = (if periodic then edf_get_earliest_wakeup s (tq s p cpu) now else now);
                  s = (if periodic then edf_sort_queue_by_urgency p cpu now s else s);
                  wk = (if periodic then edf_get_best_wakeup t wk s (tq s p cpu) now else wk);
                  wk = ktime_add wk (uint tmin);
                  s = upd_task t (\<lambda>k. k\<lparr>wakeup := ktime_add wk (period (attr k)),
                        deadline := ktime_add (ktime_add wk (period (attr k))) (deadline_rel (attr k)),
                        runtime := wcet (attr k), state := TASK_IDLE\<rparr>) s
              in Some (0, upd_queue p cpu (\<lambda>q. q\<lparr>wake := remove1 t (wake q), run := run q @ [t]\<rparr>) s) })"

definition edf_enqueue :: "(rat \<Rightarrow> rat) \<Rightarrow> nat \<Rightarrow> tid \<Rightarrow> sched_st \<Rightarrow> (int \<times> sched_st) option" where
  "edf_enqueue rnd cpus t s =
     do { p \<leftarrow> sched (task s t);
          let s = (if period (attr (task s t)) = 0
                   then upd_task t (\<lambda>k. k\<lparr>flags := set_bit TASK_RUN_ONCE (flags k),
                          attr := (attr k)\<lparr>period := deadline_rel (attr k)\<rparr>\<rparr>) s
                   else upd_task t (\<lambda>k. k\<lparr>flags := unset_bit TASK_RUN_ONCE (flags k)\<rparr>) s);
          cpu \<leftarrow> edf_schedulable rnd cpus s t;
          if cpu < 0 then Some (- ENOSCHED, s)
          else Some (0, upd_queue p cpu (\<lambda>q. q\<lparr>wake := wake q @ [t]\<rparr>)
                          (upd_task t (\<lambda>k. k\<lparr>on_cpu := cpu\<rparr>) s)) }"

definition edf_timeslice_ns :: "task_struct \<Rightarrow> ktime" where
  "edf_timeslice_ns t = runtime t"

definition edf_check_sched_attr :: "u32 \<Rightarrow> sched_attr option \<Rightarrow> int" where
  "edf_check_sched_attr tmin ap =
     (case ap of
        None \<Rightarrow> - EINVAL
      | Some a \<Rightarrow>
          let tick_min = uint tmin in
          if policy a \<noteq> KSCHED_EDF then - EINVAL
          else if wcet a < tick_min then - EINVAL
          else if ktime_delta (deadline_rel a) (wcet a) < tick_min then - EINVAL
          else if period a > 0 \<and> wcet a \<ge> period a then - EINVAL
          else if period a > 0 \<and> deadline_rel a \<ge> period a then - EINVAL
          else if period a > 0 \<and> ktime_delta (period a) (deadline_rel a) < tick_min then - EINVAL
          else if wcet a \<ge> deadline_rel a then - EINVAL
          else 0)"

definition edf_task_ready_ns :: "u32 \<Rightarrow> int \<Rightarrow> ktime \<Rightarrow> sched_st \<Rightarrow> ktime" where
  "edf_task_ready_ns tmin cpu now s =
     foldl (\<lambda>ready t.
        if state (task s t) = TASK_BUSY then ready
        else let delta = ktime_delta (wakeup (task s t)) now in
          if delta \<le> 2 * uint tmin then ready
          else if ready > delta then delta else ready) (2 ^ 31 - 1) (run (edf_queue s cpu))"

definition sched_edf_init :: "nat \<Rightarrow> sched_st \<Rightarrow> sched_st" where
  "sched_edf_init cpus s =
     foldl (\<lambda>s i. upd_queue KSCHED_EDF (int i) (\<lambda>q. q\<lparr>wake := [], run := [], dead := []\<rparr>) s) s [0..<cpus]"

end
