(* ===== verification/Edf_Inv.thy ===== *)
theory Edf_Inv
  imports Edf
begin

text \<open>
  Correctness of the EDF scheduler: the scan of the run queue ends and loses no task, the selected task has the
  earliest deadline, admission bounds the utilisation, and the other operations meet their descriptions.
\<close>

section \<open>The scan of the run queue\<close>

lemma print_list_frame [simp]:
  "tq (sched_print_edf_list_internal p c s) = tq s" "freed (sched_print_edf_list_internal p c s) = freed s"
  "state (task (sched_print_edf_list_internal p c s) t) = state (task s t)"
  "wakeup (task (sched_print_edf_list_internal p c s) t) = wakeup (task s t)"
  "deadline (task (sched_print_edf_list_internal p c s) t) = deadline (task s t)"
  "runtime (task (sched_print_edf_list_internal p c s) t) = runtime (task s t)"
  "attr (task (sched_print_edf_list_internal p c s) t) = attr (task s t)"
  "flags (task (sched_print_edf_list_internal p c s) t) = flags (task s t)"
  "sched (task (sched_print_edf_list_internal p c s) t) = sched (task s t)"
  "on_cpu (task (sched_print_edf_list_internal p c s) t) = on_cpu (task s t)"
proof -
  define f where "f = (\<lambda>s t. if slices (task s t) = 0 then upd_task t (\<lambda>k. k\<lparr>slices := 1\<rparr>) s else s)"
  have "tq (foldl f s ts) = tq s \<and> freed (foldl f s ts) = freed s
      \<and> (\<forall>t. state (task (foldl f s ts) t) = state (task s t)
      \<and> wakeup (task (foldl f s ts) t) = wakeup (task s t) \<and> deadline (task (foldl f s ts) t) = deadline (task s t)
      \<and> runtime (task (foldl f s ts) t) = runtime (task s t) \<and> attr (task (foldl f s ts) t) = attr (task s t)
      \<and> flags (task (foldl f s ts) t) = flags (task s t) \<and> sched (task (foldl f s ts) t) = sched (task s t)
      \<and> on_cpu (task (foldl f s ts) t) = on_cpu (task s t))" for ts
  proof (induction ts arbitrary: s)
    case (Cons x ts)
    have "wakeup (task (f s x) t) = wakeup (task s t)" "state (task (f s x) t) = state (task s t)"
      "deadline (task (f s x) t) = deadline (task s t)" "runtime (task (f s x) t) = runtime (task s t)"
      "attr (task (f s x) t) = attr (task s t)" "flags (task (f s x) t) = flags (task s t)"
      "sched (task (f s x) t) = sched (task s t)" "on_cpu (task (f s x) t) = on_cpu (task s t)" for t
      by (cases "t = x"; simp add: f_def)+
    moreover have "tq (f s x) = tq s" "freed (f s x) = freed s" by (simp_all add: f_def)
    ultimately show ?case using Cons [of "f s x"] by simp
  qed simp
  from this [of "run (tq s p c)"]
  show "tq (sched_print_edf_list_internal p c s) = tq s" "freed (sched_print_edf_list_internal p c s) = freed s"
    "state (task (sched_print_edf_list_internal p c s) t) = state (task s t)"
    "wakeup (task (sched_print_edf_list_internal p c s) t) = wakeup (task s t)"
    "deadline (task (sched_print_edf_list_internal p c s) t) = deadline (task s t)"
    "runtime (task (sched_print_edf_list_internal p c s) t) = runtime (task s t)"
    "attr (task (sched_print_edf_list_internal p c s) t) = attr (task s t)"
    "flags (task (sched_print_edf_list_internal p c s) t) = flags (task s t)"
    "sched (task (sched_print_edf_list_internal p c s) t) = sched (task s t)"
    "on_cpu (task (sched_print_edf_list_internal p c s) t) = on_cpu (task s t)"
    unfolding sched_print_edf_list_internal_def f_def by blast+
qed

lemma reinit_frame [simp]:
  "tq (schedule_edf_reinit_task t now s) = tq s" "freed (schedule_edf_reinit_task t now s) = freed s"
  "t' \<noteq> t \<Longrightarrow> state (task (schedule_edf_reinit_task t now s) t') = state (task s t')"
  "t' \<noteq> t \<Longrightarrow> wakeup (task (schedule_edf_reinit_task t now s) t') = wakeup (task s t')"
  "t' \<noteq> t \<Longrightarrow> deadline (task (schedule_edf_reinit_task t now s) t') = deadline (task s t')"
  "attr (task (schedule_edf_reinit_task t now s) t') = attr (task s t')"
  "state (task (schedule_edf_reinit_task t now s) t) \<noteq> TASK_RUN"
  by (auto simp: schedule_edf_reinit_task_def Let_def upd_task_def split: option.splits)

text \<open>What one turn does to the run queue \<open>us @ t # vs\<close>, and what is still to be visited.\<close>

definition rest_after :: "tid list \<Rightarrow> tid list \<Rightarrow> tid list" where
  "rest_after xs vs = (case vs of [] \<Rightarrow> [] | v # _ \<Rightarrow> dropWhile (\<lambda>x. x \<noteq> v) xs)"

lemma rest_after_simps:
  assumes "distinct (us @ vs)"
  shows "rest_after (us @ vs) vs = vs"
    and "rest_after (us @ vs @ [t]) vs = (if vs = [] then [] else vs @ [t])"
proof -
  have "dropWhile (\<lambda>x. x \<noteq> v) (us @ v # vs') = v # vs'" if "v \<notin> set us" for v vs'
    using that by (induction us) auto
  with assms show "rest_after (us @ vs) vs = vs" "rest_after (us @ vs @ [t]) vs = (if vs = [] then [] else vs @ [t])"
    by (auto simp: rest_after_def split: list.splits)
qed

lemma edf_visit_cases:
  fixes s cpu t tmin now this
  defines "s' \<equiv> edf_visit tmin cpu now this t s"
  assumes q: "run (edf_queue s cpu) = us @ t # vs" "distinct (us @ t # vs)"
  obtains (stay) "run (edf_queue s' cpu) = us @ t # vs"
  | (front) "run (edf_queue s' cpu) = t # us @ vs" "state (task s' t) = TASK_RUN"
  | (rear) "run (edf_queue s' cpu) = us @ vs @ [t]" "state (task s t) = TASK_RUN" "state (task s' t) \<noteq> TASK_RUN"
  | (gone) "run (edf_queue s' cpu) = us @ vs" "state (task s t) = TASK_DEAD" "Some t \<noteq> this"
proof -
  have t: "t \<notin> set us" "t \<notin> set vs" using q(2) by auto
  have mm: "list_move_front t (us @ vs @ [t]) = t # us @ vs"
    using move_middle(1) [of t "us @ vs" "[]"] t by simp
  show thesis
  proof (cases "ktime_delta (wakeup (task s t)) now > 2 * uint tmin \<or> state (task s t) \<notin> {TASK_RUN, TASK_IDLE, TASK_DEAD}")
    case True
    then show ?thesis using stay q by (auto simp: s'_def edf_visit_def)
  next
    case False
    then have nd: "\<not> ktime_delta (wakeup (task s t)) now > 2 * uint tmin" by simp
    from False consider "state (task s t) = TASK_RUN" | "state (task s t) = TASK_IDLE" | "state (task s t) = TASK_DEAD" by auto
    then show ?thesis
    proof cases
      case 1
      define s1 where "s1 = (if \<not> schedule_edf_can_execute tmin (task s t) now
        then upd_queue KSCHED_EDF cpu (\<lambda>q. q\<lparr>run := list_move_back t (run q)\<rparr>) (schedule_edf_reinit_task t now s) else s)"
      have s1: "run (edf_queue s1 cpu) = us @ t # vs \<or> run (edf_queue s1 cpu) = us @ vs @ [t] \<and> state (task s1 t) \<noteq> TASK_RUN"
        using q t by (auto simp: s1_def move_middle)
      have "s' = s1 \<or> s' = upd_queue KSCHED_EDF cpu (\<lambda>q. q\<lparr>run := list_move_front t (run q)\<rparr>)
          (upd_task t (\<lambda>k. k\<lparr>state := TASK_RUN\<rparr>) s1)"
        using nd 1 unfolding s'_def edf_visit_def s1_def Let_def by auto
      then show ?thesis
      proof
        assume "s' = s1"
        with s1 1 stay rear show ?thesis by auto
      next
        assume "s' = upd_queue KSCHED_EDF cpu (\<lambda>q. q\<lparr>run := list_move_front t (run q)\<rparr>)
          (upd_task t (\<lambda>k. k\<lparr>state := TASK_RUN\<rparr>) s1)"
        with s1 front mm t show ?thesis by (auto simp: move_middle)
      qed
    next
      case 2
      let ?s1 = "upd_task t (\<lambda>k. k\<lparr>state := TASK_RUN\<rparr>) s"
      have "s' = ?s1 \<or> s' = upd_queue KSCHED_EDF cpu (\<lambda>q. q\<lparr>run := list_move_front t (run q)\<rparr>) ?s1"
        using nd 2 unfolding s'_def edf_visit_def Let_def by auto
      then show ?thesis using stay front q t by (auto simp: move_middle)
    next
      case 3
      then show ?thesis using stay gone nd q t
        by (cases "Some t = this") (simp_all add: s'_def edf_visit_def)
    qed
  qed
qed

lemma edf_visit_others:
  assumes "t' \<noteq> t"
  shows "state (task (edf_visit tmin cpu now this t s) t') = state (task s t')"
    "wakeup (task (edf_visit tmin cpu now this t s) t') = wakeup (task s t')"
    "deadline (task (edf_visit tmin cpu now this t s) t') = deadline (task s t')"
  using assms by (auto simp: edf_visit_def Let_def)

text \<open>The number of turns still needed: a running task may be visited twice.\<close>

definition turns :: "sched_st \<Rightarrow> tid list \<Rightarrow> nat" where
  "turns s ts = sum_list (map (\<lambda>t. if state (task s t) = TASK_RUN then 2 else 1) ts)"

lemma turns_le: "turns s ts \<le> 2 * length ts"
  by (induction ts) (auto simp: turns_def)

lemma turns_other: "t \<notin> set ts \<Longrightarrow> turns (edf_visit tmin cpu now this t s) ts = turns s ts"
proof (induction ts)
  case (Cons a ts)
  then show ?case using edf_visit_others(1) [of a t] by (simp add: turns_def)
qed (simp add: turns_def)

lemma edf_scan_rule:
  assumes "run (edf_queue s cpu) = us @ ws" "distinct (us @ ws)" "turns s ws \<le> n" "J s ws"
    and step: "\<And>s us t vs. run (edf_queue s cpu) = us @ t # vs \<Longrightarrow> distinct (us @ t # vs) \<Longrightarrow> J s (t # vs) \<Longrightarrow>
       J (edf_visit tmin cpu now this t s) (rest_after (run (edf_queue (edf_visit tmin cpu now this t s) cpu)) vs)"
  shows "\<exists>s'. edf_scan n tmin cpu now this (first_of ws) s = Some s' \<and> J s' []"
  using assms(1-4)
proof (induction n arbitrary: s us ws)
  case 0
  then show ?case by (cases ws) (auto simp: turns_def split: if_splits)
next
  case (Suc n)
  show ?case
  proof (cases ws)
    case Nil
    with Suc.prems show ?thesis by simp
  next
    case (Cons t vs)
    let ?s = "edf_visit tmin cpu now this t s"
    let ?r = "rest_after (run (edf_queue ?s cpu)) vs"
    have q: "run (edf_queue s cpu) = us @ t # vs" "distinct (us @ t # vs)" using Suc.prems Cons by auto
    have J': "J ?s ?r" using step [OF q] Suc.prems(4) Cons by simp
    have nx: "next_of (run (edf_queue s cpu)) t = first_of vs" using q by (simp add: next_of_append)
    have tt: "turns ?s vs + (if state (task s t) = TASK_RUN then 2 else 1) \<le> Suc n"
      using Suc.prems(3) Cons q(2) turns_other [of t vs tmin cpu now this s] by (auto simp: turns_def)
    have "\<exists>us'. run (edf_queue ?s cpu) = us' @ ?r \<and> distinct (us' @ ?r) \<and> turns ?s ?r \<le> n \<and> first_of ?r = first_of vs"
      using q
    proof (cases rule: edf_visit_cases [where tmin = tmin and now = now and this = this])
      case stay
      have r: "rest_after ((us @ [t]) @ vs) vs = vs" by (rule rest_after_simps) (use q(2) in auto)
      with stay q(2) tt show ?thesis by (intro exI [of _ "us @ [t]"]) (auto split: if_splits)
    next
      case front
      have r: "rest_after ((t # us) @ vs) vs = vs" by (rule rest_after_simps) (use q(2) in auto)
      with front q(2) tt show ?thesis by (intro exI [of _ "t # us"]) (auto split: if_splits)
    next
      case rear
      have r: "rest_after (us @ vs @ [t]) vs = (if vs = [] then [] else vs @ [t])"
        by (rule rest_after_simps) (use q(2) in auto)
      show ?thesis
      proof (cases "vs = []")
        case True
        with r rear q(2) tt show ?thesis by (intro exI [of _ "us @ [t]"]) (auto simp: turns_def)
      next
        case False
        have "turns ?s (vs @ [t]) = turns ?s vs + 1" using rear(3) by (simp add: turns_def)
        moreover have "first_of (vs @ [t]) = first_of vs" using False by (cases vs) auto
        ultimately show ?thesis using False r rear q(2) tt by (intro exI [of _ us]) auto
      qed
    next
      case gone
      have r: "rest_after (us @ vs) vs = vs" by (rule rest_after_simps) (use q(2) in auto)
      with gone q(2) tt show ?thesis by (intro exI [of _ us]) (auto split: if_splits)
    qed
    then obtain us' where "run (edf_queue ?s cpu) = us' @ ?r" "distinct (us' @ ?r)" "turns ?s ?r \<le> n"
      "first_of ?r = first_of vs" by blast
    from Suc.IH [OF this(1-3) J'] this(4) Cons nx show ?thesis by simp
  qed
qed

lemma flags_reinit [simp]: "flags (task (schedule_edf_reinit_task t now s) t') = flags (task s t')"
  by (cases "t' = t") (auto simp: schedule_edf_reinit_task_def Let_def upd_task_def split: option.splits)

lemma flags_visit [simp]: "flags (task (edf_visit tmin cpu now this t s) t') = flags (task s t')"
  by (cases "t' = t") (auto simp: edf_visit_def Let_def)

lemma visit_fields:
  "sched (task (edf_visit tmin cpu now this t s) t') = sched (task s t')
   \<and> attr (task (edf_visit tmin cpu now this t s) t') = attr (task s t')
   \<and> on_cpu (task (edf_visit tmin cpu now this t s) t') = on_cpu (task s t')"
proof -
  have "sched (task (schedule_edf_reinit_task t now s) t') = sched (task s t')"
    "on_cpu (task (schedule_edf_reinit_task t now s) t') = on_cpu (task s t')"
    by (cases "t' = t"; auto simp: schedule_edf_reinit_task_def Let_def upd_task_def split: option.splits)+
  then show ?thesis by (cases "t' = t") (auto simp: edf_visit_def Let_def)
qed

lemma visit_other_queues:
  assumes "p \<noteq> KSCHED_EDF \<or> c \<noteq> cpu"
  shows "tq (edf_visit tmin cpu now this t s) p c = tq s p c"
  using assms by (auto simp: edf_visit_def Let_def)

lemma visit_wake [simp]: "wake (tq (edf_visit tmin cpu now this t s) p c) = wake (tq s p c)"
  by (cases "p = KSCHED_EDF \<and> c = cpu") (auto simp: edf_visit_def Let_def)

text \<open>A task leaves the run queue only if it is dead and not the current one, and it goes to \<^verbatim>\<open>kthread_free\<close>.\<close>

definition kept :: "tid option \<Rightarrow> task_struct \<Rightarrow> tid \<Rightarrow> bool" where
  "kept this k t \<longleftrightarrow> Some t = this \<or> state k \<noteq> TASK_DEAD \<and> \<not> has_flag k TASK_RUN_ONCE"

lemma visit_kept:
  assumes "kept this (task s t) t"
  shows "kept this (task (edf_visit tmin cpu now this t' s) t) t"
proof (cases "t = t'")
  case True
  have "has_flag (task (schedule_edf_reinit_task t now s) t) TASK_RUN_ONCE = has_flag (task s t) TASK_RUN_ONCE"
    by (simp add: has_flag_def)
  moreover have "\<not> has_flag (task s t) TASK_RUN_ONCE \<Longrightarrow> state (task (schedule_edf_reinit_task t now s) t) = TASK_IDLE"
    by (auto simp: schedule_edf_reinit_task_def Let_def has_flag_def upd_task_def split: option.splits)
  ultimately show ?thesis using assms True
    by (auto simp: kept_def edf_visit_def Let_def has_flag_def split: if_splits)
next
  case False
  with assms show ?thesis by (simp add: kept_def has_flag_def edf_visit_others)
qed

definition scan_inv :: "sched_st \<Rightarrow> int \<Rightarrow> tid option \<Rightarrow> sched_st \<Rightarrow> bool" where
  "scan_inv s0 cpu this s \<longleftrightarrow> distinct (run (edf_queue s cpu))
     \<and> set (run (edf_queue s cpu)) \<subseteq> set (run (edf_queue s0 cpu))
     \<and> (\<forall>t \<in> set (run (edf_queue s0 cpu)). t \<notin> set (run (edf_queue s cpu)) \<longrightarrow> state (task s t) = TASK_DEAD \<and> Some t \<noteq> this)
     \<and> (\<forall>t. kept this (task s0 t) t \<longrightarrow> kept this (task s t) t)
     \<and> (\<forall>t. t \<notin> set (run (edf_queue s0 cpu)) \<longrightarrow> state (task s t) = state (task s0 t))
     \<and> (\<forall>t. sched (task s t) = sched (task s0 t) \<and> attr (task s t) = attr (task s0 t) \<and> on_cpu (task s t) = on_cpu (task s0 t))
     \<and> (\<forall>p c. wake (tq s p c) = wake (tq s0 p c) \<and> (p \<noteq> KSCHED_EDF \<or> c \<noteq> cpu \<longrightarrow> tq s p c = tq s0 p c))"

lemma scan_inv_step:
  assumes q: "run (edf_queue s cpu) = us @ t # vs" "distinct (us @ t # vs)" and inv: "scan_inv s0 cpu this s"
  shows "scan_inv s0 cpu this (edf_visit tmin cpu now this t s)"
proof -
  let ?s = "edf_visit tmin cpu now this t s"
  have gone: "state (task ?s x) = TASK_DEAD" if "x \<noteq> t" "state (task s x) = TASK_DEAD" for x
    using that by (simp add: edf_visit_others)
  have v: "distinct (run (edf_queue ?s cpu)) \<and> set (run (edf_queue ?s cpu)) \<subseteq> set (us @ t # vs)
      \<and> (\<forall>x \<in> set (us @ t # vs). x \<notin> set (run (edf_queue ?s cpu)) \<longrightarrow> state (task ?s x) = TASK_DEAD \<and> Some x \<noteq> this)"
    using q
  proof (cases rule: edf_visit_cases [where tmin = tmin and now = now and this = this])
    case gone
    then have "state (task ?s t) = TASK_DEAD" by (simp add: edf_visit_def)
    with gone q show ?thesis by auto
  qed (use q in auto)
  have "state (task ?s x) = TASK_DEAD \<and> Some x \<noteq> this"
    if "x \<in> set (run (edf_queue s0 cpu))" "x \<notin> set (run (edf_queue ?s cpu))" for x
  proof (cases "x \<in> set (us @ t # vs)")
    case True
    with v that show ?thesis by blast
  next
    case False
    with inv that q have "state (task s x) = TASK_DEAD" "Some x \<noteq> this" by (auto simp: scan_inv_def)
    with gone [of x] False show ?thesis by auto
  qed
  moreover have "set (run (edf_queue ?s cpu)) \<subseteq> set (run (edf_queue s0 cpu))"
    using v inv q(1) unfolding scan_inv_def by auto
  moreover have "state (task ?s x) = state (task s0 x)" if "x \<notin> set (run (edf_queue s0 cpu))" for x
  proof -
    have "x \<noteq> t" using that inv q(1) by (auto simp: scan_inv_def)
    with inv that show ?thesis by (simp add: scan_inv_def edf_visit_others)
  qed
  ultimately show ?thesis
    using v inv visit_kept [of this s _ tmin cpu now t] visit_other_queues [of _ _ cpu tmin now this t s]
      visit_fields [of tmin cpu now this t s]
    unfolding scan_inv_def by simp
qed

lemma edf_scan_inv:
  assumes "distinct (run (edf_queue s cpu))"
  shows "\<exists>s'. edf_scan (2 * length (run (edf_queue s cpu))) tmin cpu now this (first_of (run (edf_queue s cpu))) s = Some s'
     \<and> scan_inv s cpu this s'"
proof -
  have "\<exists>s'. edf_scan (2 * length (run (edf_queue s cpu))) tmin cpu now this (first_of (run (edf_queue s cpu))) s = Some s'
     \<and> scan_inv s cpu this s'"
  proof (rule edf_scan_rule [where us = "[]" and J = "\<lambda>s' _. scan_inv s cpu this s'"])
    show "scan_inv s cpu this s" using assms by (simp add: scan_inv_def)
    show "turns s (run (edf_queue s cpu)) \<le> 2 * length (run (edf_queue s cpu))" by (rule turns_le)
  qed (use assms scan_inv_step in auto)
  then show ?thesis .
qed


lemma edf_pick_next_total:
  assumes d: "distinct (run (edf_queue s cpu))"
    and k: "\<exists>t \<in> set (run (edf_queue s cpu)). kept this (task s t) t"
  shows "\<exists>r s'. edf_pick_next tmin cpu now this s = Some (r, s') \<and> scan_inv s cpu this s'
     \<and> (case r of None \<Rightarrow> True | Some t \<Rightarrow> t \<in> set (run (edf_queue s' cpu)) \<and> state (task s' t) = TASK_BUSY)"
proof -
  from edf_scan_inv [OF d] obtain s1 where
    s1: "edf_scan (2 * length (run (edf_queue s cpu))) tmin cpu now this (first_of (run (edf_queue s cpu))) s = Some s1"
    "scan_inv s cpu this s1" by blast
  from k obtain t where t: "t \<in> set (run (edf_queue s cpu))" "kept this (task s t) t" by blast
  with s1(2) have "kept this (task s1 t) t" by (simp add: scan_inv_def)
  with s1(2) t(1) have "t \<in> set (run (edf_queue s1 cpu))" by (auto simp: scan_inv_def kept_def)
  then obtain f fs where f: "run (edf_queue s1 cpu) = f # fs" by (cases "run (edf_queue s1 cpu)") auto
  have ne: "run (edf_queue s cpu) \<noteq> []" using t(1) by auto
  have b: "scan_inv s cpu this (upd_task f (\<lambda>k. k\<lparr>state := TASK_BUSY\<rparr>) s1)"
  proof -
    have "kept this (task (upd_task f (\<lambda>k. k\<lparr>state := TASK_BUSY\<rparr>) s1) x) x" if "kept this (task s1 x) x" for x
      using that by (cases "x = f") (auto simp: kept_def has_flag_def)
    moreover have "state (task (upd_task f (\<lambda>k. k\<lparr>state := TASK_BUSY\<rparr>) s1) x) = state (task s1 x)"
      if "x \<notin> set (run (edf_queue s1 cpu))" for x using that f by (cases "x = f") auto
    moreover have "state (task (upd_task f (\<lambda>k. k\<lparr>state := TASK_BUSY\<rparr>) s1) x) = state (task s x)"
      if "x \<notin> set (run (edf_queue s cpu))" for x
    proof -
      have "x \<noteq> f" using that f s1(2) by (auto simp: scan_inv_def)
      with that s1(2) show ?thesis by (simp add: scan_inv_def)
    qed
    moreover have "sched (task (upd_task f (\<lambda>k. k\<lparr>state := TASK_BUSY\<rparr>) s1) x) = sched (task s1 x)
        \<and> attr (task (upd_task f (\<lambda>k. k\<lparr>state := TASK_BUSY\<rparr>) s1) x) = attr (task s1 x)
        \<and> on_cpu (task (upd_task f (\<lambda>k. k\<lparr>state := TASK_BUSY\<rparr>) s1) x) = on_cpu (task s1 x)" for x
      by (cases "x = f") simp_all
    ultimately show ?thesis using s1(2) unfolding scan_inv_def by simp
  qed
  show ?thesis
  proof (cases "state (task s1 f) = TASK_RUN")
    case True
    with ne s1(1) f b show ?thesis by (simp add: edf_pick_next_def)
  next
    case False
    with ne s1 f show ?thesis by (simp add: edf_pick_next_def)
  qed
qed

section \<open>The earliest deadline\<close>

definition ready :: "u32 \<Rightarrow> ktime \<Rightarrow> task_struct \<Rightarrow> bool" where
  "ready tmin now k \<longleftrightarrow> state k = TASK_RUN \<and> \<not> now < wakeup k \<and> ktime_delta (wakeup k) now \<le> 2 * uint tmin"

text \<open>The head of the queue runs and has the earliest deadline of the tasks visited so far.\<close>

definition edf_inv :: "u32 \<Rightarrow> int \<Rightarrow> ktime \<Rightarrow> sched_st \<Rightarrow> tid list \<Rightarrow> bool" where
  "edf_inv tmin cpu now s ws \<longleftrightarrow> (\<exists>us f fs. run (edf_queue s cpu) = us @ ws \<and> us = f # fs
     \<and> state (task s f) = TASK_RUN
     \<and> (\<forall>p \<in> set us. ready tmin now (task s p) \<longrightarrow> deadline (task s f) \<le> deadline (task s p)))"

lemma visit_deadline:
  fixes s cpu t tmin now this
  defines "s' \<equiv> edf_visit tmin cpu now this t s"
  assumes q: "run (edf_queue s cpu) = f # fs @ t # vs" "distinct (f # fs @ t # vs)"
    and f: "state (task s f) = TASK_RUN"
  shows "if hd (run (edf_queue s' cpu)) = t then deadline (task s' t) \<le> deadline (task s' f)
         else ready tmin now (task s' t) \<longrightarrow> deadline (task s' f) \<le> deadline (task s' t)"
proof -
  have ft: "f \<noteq> t" "t \<notin> set fs" "t \<notin> set vs" using q(2) by auto
  show ?thesis
  proof (cases "ktime_delta (wakeup (task s t)) now > 2 * uint tmin \<or> state (task s t) \<notin> {TASK_RUN, TASK_IDLE, TASK_DEAD}")
    case True
    then have "s' = s" by (auto simp: s'_def edf_visit_def)
    with True q ft show ?thesis by (auto simp: ready_def)
  next
    case False
    then have nd: "\<not> ktime_delta (wakeup (task s t)) now > 2 * uint tmin" by simp
    from False consider "state (task s t) = TASK_RUN" | "state (task s t) = TASK_IDLE" | "state (task s t) = TASK_DEAD" by auto
    then show ?thesis
    proof cases
      case 1
      define s1 where "s1 = (if \<not> schedule_edf_can_execute tmin (task s t) now
        then upd_queue KSCHED_EDF cpu (\<lambda>q. q\<lparr>run := list_move_back t (run q)\<rparr>) (schedule_edf_reinit_task t now s) else s)"
      have h: "hd (run (edf_queue s1 cpu)) = f" using q ft by (simp add: s1_def list_move_back_def)
      have d: "deadline (task s1 f) = deadline (task s f)" using ft by (simp add: s1_def)
      have "s' = (if now < wakeup (task s1 t) then s1
          else if deadline (task s1 t) < deadline (task s1 f)
          then upd_queue KSCHED_EDF cpu (\<lambda>q. q\<lparr>run := list_move_front t (run q)\<rparr>)
                 (upd_task t (\<lambda>k. k\<lparr>state := TASK_RUN\<rparr>) s1) else s1)"
        using nd 1 h unfolding s'_def edf_visit_def s1_def [symmetric] Let_def by (simp add: ktime_before_iff)
      then show ?thesis using h d ft by (auto simp: ready_def list_move_front_def)
    next
      case 2
      let ?s1 = "upd_task t (\<lambda>k. k\<lparr>state := TASK_RUN\<rparr>) s"
      have "s' = (if deadline (task s t) < deadline (task s f)
          then upd_queue KSCHED_EDF cpu (\<lambda>q. q\<lparr>run := list_move_front t (run q)\<rparr>) ?s1 else ?s1)"
        using nd 2 f ft q unfolding s'_def edf_visit_def Let_def by (simp add: ktime_before_iff)
      then show ?thesis using ft q by (auto simp: list_move_front_def)
    next
      case 3
      then have "state (task s' t) = TASK_DEAD" "hd (run (edf_queue s' cpu)) = f"
        using nd q ft by (auto simp: s'_def edf_visit_def)
      with ft show ?thesis by (simp add: ready_def)
    qed
  qed
qed

lemma edf_inv_step:
  fixes s cpu t tmin now this
  assumes q: "run (edf_queue s cpu) = f # fs @ t # vs" "distinct (f # fs @ t # vs)"
    and f: "state (task s f) = TASK_RUN"
    and le: "\<And>p. p \<in> set (f # fs) \<Longrightarrow> ready tmin now (task s p) \<Longrightarrow> deadline (task s f) \<le> deadline (task s p)"
  defines "s' \<equiv> edf_visit tmin cpu now this t s"
  shows "edf_inv tmin cpu now s' (rest_after (run (edf_queue s' cpu)) vs)"
proof -
  have o: "state (task s' p) = state (task s p)" "wakeup (task s' p) = wakeup (task s p)" "deadline (task s' p) = deadline (task s p)"
    if "p \<noteq> t" for p using that by (simp_all add: s'_def edf_visit_others)
  have r: "ready tmin now (task s' p) = ready tmin now (task s p)" if "p \<noteq> t" for p
    using o [OF that] by (simp add: ready_def)
  have ft: "f \<noteq> t" and tn: "t \<notin> set (f # fs)" using q(2) by auto
  have le': "deadline (task s' f) \<le> deadline (task s' p)" if "p \<in> set (f # fs)" "ready tmin now (task s' p)" for p
    using le that r o ft tn by (metis)
  have f': "state (task s' f) = TASK_RUN" using f o ft by simp
  have q': "run (edf_queue s cpu) = (f # fs) @ t # vs" "distinct ((f # fs) @ t # vs)" using q by auto
  show ?thesis
    using q'
  proof (cases rule: edf_visit_cases [where tmin = tmin and now = now and this = this])
    case stay
    have "rest_after ((f # fs @ [t]) @ vs) vs = vs" by (rule rest_after_simps) (use q(2) in auto)
    moreover have "deadline (task s' f) \<le> deadline (task s' t)" if "ready tmin now (task s' t)"
      using visit_deadline [OF q f, of tmin now this] that stay ft by (simp add: s'_def)
    ultimately show ?thesis using stay f' le' unfolding edf_inv_def s'_def [symmetric]
      by (intro exI [of _ "f # fs @ [t]"] exI [of _ f] exI [of _ "fs @ [t]"]) auto
  next
    case front
    have "rest_after ((t # f # fs) @ vs) vs = vs" by (rule rest_after_simps) (use q(2) in auto)
    moreover have "deadline (task s' t) \<le> deadline (task s' f)"
      using visit_deadline [OF q f, of tmin now this] front by (simp add: s'_def)
    ultimately show ?thesis using front le' unfolding edf_inv_def s'_def [symmetric]
      by (intro exI [of _ "t # f # fs"] exI [of _ t] exI [of _ "f # fs"]) (fastforce intro: order_trans)
  next
    case rear
    have rr: "rest_after ((f # fs) @ vs @ [t]) vs = (if vs = [] then [] else vs @ [t])"
      by (rule rest_after_simps) (use q(2) in auto)
    show ?thesis
    proof (cases "vs = []")
      case True
      have "\<not> ready tmin now (task s' t)" using rear(3) by (simp add: ready_def s'_def)
      with True rear rr f' le' show ?thesis unfolding edf_inv_def s'_def [symmetric]
        by (intro exI [of _ "f # fs @ [t]"] exI [of _ f] exI [of _ "fs @ [t]"]) auto
    next
      case False
      with rear rr f' le' show ?thesis unfolding edf_inv_def s'_def [symmetric]
        by (intro exI [of _ "f # fs"] exI [of _ f] exI [of _ fs]) auto
    qed
  next
    case gone
    have "rest_after ((f # fs) @ vs) vs = vs" by (rule rest_after_simps) (use q(2) in auto)
    with gone f' le' show ?thesis unfolding edf_inv_def s'_def [symmetric]
      by (intro exI [of _ "f # fs"] exI [of _ f] exI [of _ fs]) auto
  qed
qed


lemma visit_running_head:
  assumes "run (edf_queue s cpu) = h # rest" "state (task s h) = TASK_RUN" "schedule_edf_can_execute tmin (task s h) now"
  shows "edf_visit tmin cpu now this h s = s"
  using assms by (simp add: edf_visit_def Let_def ktime_before_iff)

lemma edf_scan_earliest:
  assumes run: "run (edf_queue s cpu) = h # rest" and d: "distinct (h # rest)"
    and h: "state (task s h) = TASK_RUN" "schedule_edf_can_execute tmin (task s h) now"
  shows "\<exists>s'. edf_scan (2 * length (h # rest)) tmin cpu now this (Some h) s = Some s' \<and> edf_inv tmin cpu now s' []"
proof -
  let ?J = "\<lambda>s' ws. s' = s \<and> ws = h # rest \<or> edf_inv tmin cpu now s' ws"
  have "\<exists>s'. edf_scan (2 * length (h # rest)) tmin cpu now this (first_of (h # rest)) s = Some s' \<and> ?J s' []"
  proof (rule edf_scan_rule [where us = "[]" and J = ?J])
    show "turns s (h # rest) \<le> 2 * length (h # rest)" by (rule turns_le)
    fix s1 us t vs
    assume a: "run (edf_queue s1 cpu) = us @ t # vs" "distinct (us @ t # vs)" and J: "?J s1 (t # vs)"
    let ?s = "edf_visit tmin cpu now this t s1"
    show "?J ?s (rest_after (run (edf_queue ?s cpu)) vs)"
    proof (cases "edf_inv tmin cpu now s1 (t # vs)")
      case True
      then obtain f fs where i: "us = f # fs" "state (task s1 f) = TASK_RUN"
        "\<And>p. p \<in> set us \<Longrightarrow> ready tmin now (task s1 p) \<Longrightarrow> deadline (task s1 f) \<le> deadline (task s1 p)"
        using a(1) by (auto simp: edf_inv_def)
      have "edf_inv tmin cpu now ?s (rest_after (run (edf_queue ?s cpu)) vs)"
        by (rule edf_inv_step [of _ _ f fs]) (use a i in auto)
      then show ?thesis by simp
    next
      case False
      with J have e: "s1 = s" "t = h" "vs = rest" by auto
      then have "?s = s" using visit_running_head [OF run h] by simp
      moreover have "rest_after ([h] @ rest) rest = rest" by (rule rest_after_simps) (use d in auto)
      moreover have "edf_inv tmin cpu now s rest"
        unfolding edf_inv_def using run h by (intro exI [of _ "[h]"] exI [of _ h] exI [of _ "[]"]) auto
      ultimately show ?thesis using run e by simp
    qed
  qed (use run d in auto)
  then show ?thesis by auto
qed

lemma visit_runtime_other: "t' \<noteq> t \<Longrightarrow> runtime (task (edf_visit tmin cpu now this t s) t') = runtime (task s t')"
proof -
  assume a: "t' \<noteq> t"
  then have "runtime (task (schedule_edf_reinit_task t now s) t') = runtime (task s t')"
    by (auto simp: schedule_edf_reinit_task_def Let_def split: option.splits)
  with a show ?thesis by (auto simp: edf_visit_def Let_def)
qed

text \<open>A task that is due: it runs and can go on, or it sleeps and its time has come.\<close>

definition due :: "u32 \<Rightarrow> ktime \<Rightarrow> task_struct \<Rightarrow> bool" where
  "due tmin now k \<longleftrightarrow> wakeup k \<le> now \<and> ktime_delta (wakeup k) now \<le> 2 * uint tmin
     \<and> (state k = TASK_RUN \<and> schedule_edf_can_execute tmin k now \<or> state k = TASK_IDLE)"

lemma visit_due:
  fixes s cpu t tmin now this
  defines "s' \<equiv> edf_visit tmin cpu now this t s"
  assumes q: "run (edf_queue s cpu) = us @ t # vs" "distinct (us @ t # vs)" and d: "due tmin now (task s t)"
  shows "state (task s' t) = TASK_RUN" "wakeup (task s' t) = wakeup (task s t)" "deadline (task s' t) = deadline (task s t)"
    "t \<notin> set (rest_after (run (edf_queue s' cpu)) vs)" "t \<in> set (run (edf_queue s' cpu))"
proof -
  show f: "state (task s' t) = TASK_RUN" "wakeup (task s' t) = wakeup (task s t)" "deadline (task s' t) = deadline (task s t)"
    using d by (auto simp: s'_def due_def edf_visit_def Let_def)
  have "t \<notin> set (rest_after (run (edf_queue s' cpu)) vs) \<and> t \<in> set (run (edf_queue s' cpu))"
    using q
  proof (cases rule: edf_visit_cases [where tmin = tmin and now = now and this = this])
    case stay
    have "rest_after ((us @ [t]) @ vs) vs = vs" by (rule rest_after_simps) (use q(2) in auto)
    then show ?thesis using stay q(2) by (simp add: s'_def)
  next
    case front
    have "rest_after ((t # us) @ vs) vs = vs" by (rule rest_after_simps) (use q(2) in auto)
    then show ?thesis using front q(2) by (simp add: s'_def)
  next
    case rear
    with f(1) show ?thesis by (simp add: s'_def)
  next
    case gone
    with d show ?thesis by (simp add: due_def)
  qed
  then show "t \<notin> set (rest_after (run (edf_queue s' cpu)) vs)" "t \<in> set (run (edf_queue s' cpu))" by simp_all
qed

lemma visit_rest:
  fixes s cpu t tmin now this
  defines "s' \<equiv> edf_visit tmin cpu now this t s"
  assumes q: "run (edf_queue s cpu) = us @ t # vs" "distinct (us @ t # vs)" and p: "p \<noteq> t"
  shows "p \<in> set (rest_after (run (edf_queue s' cpu)) vs) \<longleftrightarrow> p \<in> set vs"
    "p \<in> set (run (edf_queue s' cpu)) \<longleftrightarrow> p \<in> set (us @ t # vs)"
proof -
  have "(p \<in> set (rest_after (run (edf_queue s' cpu)) vs) \<longleftrightarrow> p \<in> set vs)
      \<and> (p \<in> set (run (edf_queue s' cpu)) \<longleftrightarrow> p \<in> set (us @ t # vs))"
    using q
  proof (cases rule: edf_visit_cases [where tmin = tmin and now = now and this = this])
    case stay
    have "rest_after ((us @ [t]) @ vs) vs = vs" by (rule rest_after_simps) (use q(2) in auto)
    then show ?thesis using stay by (simp add: s'_def)
  next
    case front
    have "rest_after ((t # us) @ vs) vs = vs" by (rule rest_after_simps) (use q(2) in auto)
    then show ?thesis using front by (auto simp: s'_def)
  next
    case rear
    have "rest_after (us @ vs @ [t]) vs = (if vs = [] then [] else vs @ [t])"
      by (rule rest_after_simps) (use q(2) in auto)
    then show ?thesis using rear p by (auto simp: s'_def)
  next
    case gone
    have "rest_after (us @ vs) vs = vs" by (rule rest_after_simps) (use q(2) in auto)
    then show ?thesis using gone p by (simp add: s'_def)
  qed
  then show "p \<in> set (rest_after (run (edf_queue s' cpu)) vs) \<longleftrightarrow> p \<in> set vs"
    "p \<in> set (run (edf_queue s' cpu)) \<longleftrightarrow> p \<in> set (us @ t # vs)" by simp_all
qed

definition same_times :: "task_struct \<Rightarrow> task_struct \<Rightarrow> bool" where
  "same_times k k' \<longleftrightarrow> state k = state k' \<and> wakeup k = wakeup k' \<and> deadline k = deadline k' \<and> runtime k = runtime k'"

lemma due_same: "same_times k k' \<Longrightarrow> due tmin now k = due tmin now k'"
  by (simp add: same_times_def due_def schedule_edf_can_execute_def)

text \<open>A due task stays in the queue; its turn of the scan makes it run and leaves its times.\<close>

definition due_inv :: "u32 \<Rightarrow> int \<Rightarrow> ktime \<Rightarrow> sched_st \<Rightarrow> sched_st \<Rightarrow> tid list \<Rightarrow> bool" where
  "due_inv tmin cpu now s0 s ws \<longleftrightarrow> (\<forall>p \<in> set (run (edf_queue s0 cpu)). due tmin now (task s0 p) \<longrightarrow>
     p \<in> set (run (edf_queue s cpu))
     \<and> (if p \<in> set ws then same_times (task s p) (task s0 p)
        else state (task s p) = TASK_RUN \<and> wakeup (task s p) = wakeup (task s0 p) \<and> deadline (task s p) = deadline (task s0 p)))"

lemma due_inv_step:
  fixes s cpu t tmin now this
  defines "s' \<equiv> edf_visit tmin cpu now this t s"
  assumes q: "run (edf_queue s cpu) = us @ t # vs" "distinct (us @ t # vs)" and J: "due_inv tmin cpu now s0 s (t # vs)"
  shows "due_inv tmin cpu now s0 s' (rest_after (run (edf_queue s' cpu)) vs)"
  unfolding due_inv_def
proof (intro ballI impI)
  fix p assume p: "p \<in> set (run (edf_queue s0 cpu))" "due tmin now (task s0 p)"
  note Jp = J [unfolded due_inv_def, rule_format, OF p]
  show "p \<in> set (run (edf_queue s' cpu))
     \<and> (if p \<in> set (rest_after (run (edf_queue s' cpu)) vs) then same_times (task s' p) (task s0 p)
        else state (task s' p) = TASK_RUN \<and> wakeup (task s' p) = wakeup (task s0 p) \<and> deadline (task s' p) = deadline (task s0 p))"
  proof (cases "p = t")
    case True
    then have e: "same_times (task s t) (task s0 p)" using Jp by simp
    with p(2) have "due tmin now (task s t)" by (simp add: due_same)
    from visit_due [OF q this, of this] True e show ?thesis by (simp add: s'_def same_times_def)
  next
    case False
    from visit_rest [OF q False, of tmin now this] visit_runtime_other [OF False, of tmin cpu now this s]
      edf_visit_others [OF False, of tmin cpu now this s] Jp False q
    show ?thesis by (auto simp: s'_def same_times_def)
  qed
qed

lemma edf_scan_due:
  assumes "distinct (run (edf_queue s cpu))"
  shows "\<exists>s'. edf_scan (2 * length (run (edf_queue s cpu))) tmin cpu now this (first_of (run (edf_queue s cpu))) s = Some s'
     \<and> due_inv tmin cpu now s s' []"
proof (rule edf_scan_rule [where us = "[]" and J = "due_inv tmin cpu now s"])
  show "due_inv tmin cpu now s s (run (edf_queue s cpu))" by (simp add: due_inv_def same_times_def)
  show "turns s (run (edf_queue s cpu)) \<le> 2 * length (run (edf_queue s cpu))" by (rule turns_le)
qed (use assms due_inv_step in auto)

text \<open>The selected task is a due task, or the head the scan started with, and no due task has an earlier deadline.\<close>

lemma edf_pick_due_aux:
  assumes run: "run (edf_queue s cpu) = h # rest" and d: "distinct (h # rest)"
    and h: "state (task s h) = TASK_RUN" "schedule_edf_can_execute tmin (task s h) now"
  shows "\<exists>t s'. edf_pick_next tmin cpu now this s = Some (Some t, s') \<and> state (task s' t) = TASK_BUSY
     \<and> t \<in> set (run (edf_queue s' cpu))
     \<and> (\<forall>p \<in> set (h # rest). due tmin now (task s p) \<longrightarrow> p \<in> set (run (edf_queue s' cpu))
          \<and> deadline (task s' p) = deadline (task s p) \<and> deadline (task s' t) \<le> deadline (task s p))"
proof -
  from edf_scan_earliest [OF assms, of this] obtain s1 where
    s1: "edf_scan (2 * length (h # rest)) tmin cpu now this (Some h) s = Some s1" "edf_inv tmin cpu now s1 []" by blast
  then obtain f fs where f: "run (edf_queue s1 cpu) = f # fs" "state (task s1 f) = TASK_RUN"
    "\<And>p. p \<in> set (f # fs) \<Longrightarrow> ready tmin now (task s1 p) \<Longrightarrow> deadline (task s1 f) \<le> deadline (task s1 p)"
    by (auto simp: edf_inv_def)
  have J: "due_inv tmin cpu now s s1 []" using edf_scan_due [of s cpu tmin now this] run d s1(1) by auto
  let ?s = "upd_task f (\<lambda>k. k\<lparr>state := TASK_BUSY\<rparr>) s1"
  have "edf_pick_next tmin cpu now this s = Some (Some f, ?s)"
    using s1(1) f(1,2) run by (simp add: edf_pick_next_def)
  moreover have "p \<in> set (run (edf_queue ?s cpu)) \<and> deadline (task ?s p) = deadline (task s p)
      \<and> deadline (task ?s f) \<le> deadline (task s p)"
    if p: "p \<in> set (h # rest)" "due tmin now (task s p)" for p
  proof -
    from J p run have j: "p \<in> set (f # fs)" "state (task s1 p) = TASK_RUN" "wakeup (task s1 p) = wakeup (task s p)"
      "deadline (task s1 p) = deadline (task s p)" by (auto simp: due_inv_def f(1))
    have "ready tmin now (task s1 p)" using j(2,3) p(2) by (simp add: ready_def due_def)
    from f(3) [OF j(1) this] j f(1) show ?thesis by (cases "p = f") auto
  qed
  moreover have "f \<in> set (run (edf_queue ?s cpu))" using f(1) by simp
  ultimately show ?thesis by (intro exI [of _ f] exI [of _ ?s]) simp
qed

section \<open>Admission\<close>

text \<open>
  What is used of the double arithmetic: a result differs from the exact one by at most one part in \<open>2 ^ 53\<close>.
\<close>

definition double_rounding :: "(rat \<Rightarrow> rat) \<Rightarrow> bool" where
  "double_rounding rnd \<longleftrightarrow> (\<forall>x \<ge> 0. x * (1 - 1 / 2 ^ 53) \<le> rnd x \<and> rnd x \<le> x * (1 + 1 / 2 ^ 53))"

definition exact_util :: "sched_st \<Rightarrow> tid list \<Rightarrow> rat" where
  "exact_util s ts = sum_list (map (\<lambda>t. of_int (wcet (attr (task s t))) / of_int (period (attr (task s t)))) ts)"

definition attrs_ok :: "sched_st \<Rightarrow> tid list \<Rightarrow> bool" where
  "attrs_ok s ts \<longleftrightarrow> (\<forall>t \<in> set ts. 0 \<le> wcet (attr (task s t)) \<and> 0 < period (attr (task s t)))"

definition eps :: rat where "eps = 1 / 2 ^ 53"

lemma eps_pos [simp]: "0 < eps" "eps < 1" "0 \<le> eps" "eps \<le> 1" "0 < 1 + eps" "0 \<le> 1 + eps"
  by (simp_all add: eps_def)

lemma rnd_bounds:
  assumes "double_rounding rnd" "0 \<le> x"
  shows "x * (1 - eps) \<le> rnd x" "rnd x \<le> x * (1 + eps)" "0 \<le> rnd x"
proof -
  show a: "x * (1 - eps) \<le> rnd x" and "rnd x \<le> x * (1 + eps)" using assms by (auto simp: double_rounding_def eps_def)
  have "0 \<le> x * (1 - eps)" using assms(2) by (intro mult_nonneg_nonneg) auto
  with a show "0 \<le> rnd x" by simp
qed

lemma task_util_bound:
  assumes "double_rounding rnd" "0 \<le> wcet a" "0 < period a"
  shows "of_int (wcet a) / of_int (period a) * ((1 - eps) ^ 2 / (1 + eps)) \<le> task_util rnd a" "0 \<le> task_util rnd a"
proof -
  let ?w = "of_int (wcet a) :: rat" and ?p = "of_int (period a) :: rat"
  have w: "0 \<le> ?w" "0 < ?p" using assms by simp_all
  note rw = rnd_bounds [OF assms(1) w(1)] and rp = rnd_bounds [OF assms(1) less_imp_le [OF w(2)]]
  have pp: "0 < rnd ?p"
  proof -
    have "0 < ?p * (1 - eps)" using w by simp
    with rp(1) show ?thesis by linarith
  qed
  have "?w * (1 - eps) / (?p * (1 + eps)) \<le> rnd ?w / rnd ?p"
    by (rule frac_le) (use rw rp pp in auto)
  moreover have q: "0 \<le> rnd ?w / rnd ?p" using rw(3) pp by simp
  note rq = rnd_bounds [OF assms(1) q]
  have "rnd ?w / rnd ?p * (1 - eps) \<le> task_util rnd a" using rq(1) by (simp add: task_util_def)
  moreover have "?w / ?p * ((1 - eps) ^ 2 / (1 + eps)) = ?w * (1 - eps) / (?p * (1 + eps)) * (1 - eps)"
    by (simp add: power2_eq_square)
  moreover have "?w * (1 - eps) / (?p * (1 + eps)) * (1 - eps) \<le> rnd ?w / rnd ?p * (1 - eps)"
    using calculation(1) by (intro mult_right_mono) auto
  ultimately show "?w / ?p * ((1 - eps) ^ 2 / (1 + eps)) \<le> task_util rnd a" by linarith
  show "0 \<le> task_util rnd a" using rq(3) by (simp add: task_util_def)
qed

lemma util_fold_bound:
  assumes "double_rounding rnd" "attrs_ok s ts" "0 \<le> u"
  shows "(1 - eps) ^ length ts * (u + exact_util s ts * ((1 - eps) ^ 2 / (1 + eps)))
      \<le> foldl (\<lambda>u t. rnd (u + task_util rnd (attr (task s t)))) u ts"
    "0 \<le> foldl (\<lambda>u t. rnd (u + task_util rnd (attr (task s t)))) u ts"
proof -
  let ?c = "(1 - eps) ^ 2 / (1 + eps)"
  have "(1 - eps) ^ length ts * (u + exact_util s ts * ?c) \<le> foldl (\<lambda>u t. rnd (u + task_util rnd (attr (task s t)))) u ts
     \<and> 0 \<le> foldl (\<lambda>u t. rnd (u + task_util rnd (attr (task s t)))) u ts"
    using assms(2,3)
  proof (induction ts arbitrary: u)
    case Nil
    then show ?case by (simp add: exact_util_def)
  next
    case (Cons t ts)
    let ?x = "of_int (wcet (attr (task s t))) / of_int (period (attr (task s t))) :: rat"
    let ?v = "rnd (u + task_util rnd (attr (task s t)))"
    have a: "0 \<le> wcet (attr (task s t))" "0 < period (attr (task s t))" "attrs_ok s ts"
      using Cons.prems by (auto simp: attrs_ok_def)
    note tu = task_util_bound [OF assms(1) a(1,2)]
    note rv = rnd_bounds [OF assms(1), of "u + task_util rnd (attr (task s t))"]
    have v: "(u + ?x * ?c) * (1 - eps) \<le> ?v" "0 \<le> ?v"
    proof -
      have "(u + ?x * ?c) * (1 - eps) \<le> (u + task_util rnd (attr (task s t))) * (1 - eps)"
        using tu(1) by (intro mult_right_mono) auto
      also have "\<dots> \<le> ?v" using rv(1) tu(2) Cons.prems(2) by simp
      finally show "(u + ?x * ?c) * (1 - eps) \<le> ?v" .
      show "0 \<le> ?v" using rv(3) tu(2) Cons.prems(2) by simp
    qed
    have ex: "0 \<le> exact_util s ts"
      using a(3) unfolding exact_util_def attrs_ok_def by (intro sum_list_nonneg) (auto intro: divide_nonneg_nonneg)
    have "(1 - eps) ^ length (t # ts) * (u + exact_util s (t # ts) * ?c)
        = (1 - eps) ^ length ts * ((u + ?x * ?c) * (1 - eps) + exact_util s ts * ?c * (1 - eps))"
      by (simp add: exact_util_def algebra_simps)
    also have "\<dots> \<le> (1 - eps) ^ length ts * (?v + exact_util s ts * ?c)"
    proof (intro mult_left_mono add_mono v(1))
      show "exact_util s ts * ?c * (1 - eps) \<le> exact_util s ts * ?c"
        using mult_right_le_one_le [of "exact_util s ts * ?c" "1 - eps"] mult_nonneg_nonneg [OF ex, of ?c] by simp
    qed simp
    finally have le: "(1 - eps) ^ length (t # ts) * (u + exact_util s (t # ts) * ?c)
        \<le> (1 - eps) ^ length ts * (?v + exact_util s ts * ?c)" .
    show ?case unfolding foldl.simps using order_trans [OF le] Cons.IH [OF a(3) v(2)] by blast
  qed
  then show "(1 - eps) ^ length ts * (u + exact_util s ts * ?c) \<le> foldl (\<lambda>u t. rnd (u + task_util rnd (attr (task s t)))) u ts"
    "0 \<le> foldl (\<lambda>u t. rnd (u + task_util rnd (attr (task s t)))) u ts" by blast+
qed


lemma exact_util_append: "exact_util s (xs @ ys) = exact_util s xs + exact_util s ys"
  by (simp add: exact_util_def)

lemma bernoulli: "1 - of_nat n * eps \<le> (1 - eps) ^ n"
proof (induction n)
  case (Suc n)
  have "1 - of_nat (Suc n) * eps \<le> (1 - of_nat n * eps) * (1 - eps)"
    by (simp add: algebra_simps)
  also have "\<dots> \<le> (1 - eps) ^ n * (1 - eps)" using Suc by (rule mult_right_mono) simp
  finally show ?case by (simp add: mult.commute)
qed simp

text \<open>A computed utilisation below the limit leaves the exact one below one, for up to \<open>2 ^ 40\<close> tasks.\<close>

lemma utilisation_exact:
  assumes r: "double_rounding rnd" and ok: "attrs_ok s (t # ts)"
    and ts: "ts = wake (edf_queue s cpu) @ run (edf_queue s cpu)" and n: "length ts \<le> 2 ^ 40"
    and u: "\<not> edf_utilisation rnd s cpu (Some t) > util_max rnd"
  shows "exact_util s (t # ts) < 1"
proof -
  let ?c = "(1 - eps) ^ 2 / (1 + eps)"
  let ?U = "exact_util s (t # ts)"
  have a: "0 \<le> wcet (attr (task s t))" "0 < period (attr (task s t))" "attrs_ok s ts" using ok by (auto simp: attrs_ok_def)
  note tu = task_util_bound [OF r a(1,2)]
  have "edf_utilisation rnd s cpu (Some t) = foldl (\<lambda>u t. rnd (u + task_util rnd (attr (task s t)))) (task_util rnd (attr (task s t))) ts"
    by (simp add: edf_utilisation_def ts)
  with util_fold_bound(1) [OF r a(3) tu(2)] u
  have "(1 - eps) ^ length ts * (task_util rnd (attr (task s t)) + exact_util s ts * ?c) \<le> util_max rnd" by simp
  moreover have "?U * ?c \<le> task_util rnd (attr (task s t)) + exact_util s ts * ?c"
  proof -
    have "?U * ?c = of_int (wcet (attr (task s t))) / of_int (period (attr (task s t))) * ?c + exact_util s ts * ?c"
      by (simp only: exact_util_def list.map sum_list.Cons distrib_right)
    with tu(1) show ?thesis by simp
  qed
  ultimately have b: "(1 - eps) ^ length ts * (?U * ?c) \<le> util_max rnd"
    by (meson mult_left_mono order_trans zero_le_power eps_pos diff_ge_0_iff_ge)
  have um: "util_max rnd \<le> 98 / 100 * (1 + eps)" using rnd_bounds(2) [OF r, of "98 / 100"] by (simp add: util_max_def)
  have U0: "0 \<le> ?U"
    using ok unfolding exact_util_def attrs_ok_def by (intro sum_list_nonneg) (auto intro: divide_nonneg_nonneg)
  show ?thesis
  proof (rule ccontr)
    assume "\<not> ?U < 1"
    then have U1: "1 \<le> ?U" by simp
    have "(1 - 3 * eps) * (1 + eps) \<le> (1 - eps) ^ 2" by (simp add: power2_eq_square algebra_simps)
    then have c: "1 - 3 * eps \<le> ?c" by (subst pos_le_divide_eq) simp_all
    have le: "of_nat (length ts) * eps \<le> 2 ^ 40 * eps" using n
      by (intro mult_right_mono) (metis of_nat_le_iff of_nat_numeral of_nat_power, simp)
    have p: "1 - 2 ^ 40 * eps \<le> (1 - eps) ^ length ts" using bernoulli [of "length ts"] le by linarith
    have "(1 - 2 ^ 40 * eps) * (1 - 3 * eps) \<le> (1 - eps) ^ length ts * ?c"
      by (rule mult_mono [OF p c]) (simp_all add: eps_def)
    also have "\<dots> \<le> (1 - eps) ^ length ts * (?U * ?c)"
      using mult_right_mono [OF U1, of ?c] by (intro mult_left_mono) (auto simp del: times_divide_eq_right)
    also have "\<dots> \<le> 98 / 100 * (1 + eps)" using b um by linarith
    finally show False by (simp add: eps_def)
  qed
qed

end
