(* ===== verification/Edf_Spec.thy ===== *)
theory Edf_Spec
  imports Edf_Inv
begin

text \<open>Properties of the EDF scheduler, with examples on which they are applied.\<close>

section \<open>Example tasks\<close>

definition demo_task :: "task_state \<Rightarrow> int \<Rightarrow> ktime \<Rightarrow> ktime \<Rightarrow> ktime \<Rightarrow> ktime \<Rightarrow> ktime \<Rightarrow> task_struct" where
  "demo_task st cpu p w d wk rt =
     \<lparr>state = st, on_cpu = cpu, tname = ''task'', sched = Some KSCHED_EDF,
      attr = \<lparr>policy = KSCHED_EDF, priority = 0, period = p, wcet = w, deadline_rel = d\<rparr>,
      runtime = rt, wakeup = wk, deadline = wk + d, wakeup_first = 0, exec_start = 0, exec_stop = 0, total = 0,
      slices = 1, flags = 0\<rparr>"

definition empty_queue :: task_queue where
  "empty_queue = \<lparr>wake = [], run = [], dead = [], clean = []\<rparr>"

definition demo_sched :: "task_struct list \<Rightarrow> (int \<Rightarrow> task_queue) \<Rightarrow> sched_st" where
  "demo_sched ks q = \<lparr>task = (\<lambda>t. if t < length ks then ks ! t else demo_task TASK_NEW 0 0 0 0 0 0),
     tq = (\<lambda>p c. if p = KSCHED_EDF then q c else empty_queue), alarms = 0, freed = []\<rparr>"

text \<open>Three tasks on one processor at time 1000: task 0 runs, task 1 has just become due with an earlier deadline,
  task 2 sleeps.\<close>

definition demo_edf :: sched_st where
  "demo_edf = demo_sched [demo_task TASK_RUN 0 1000 300 900 500 200, demo_task TASK_IDLE 0 200 50 150 1000 50,
      demo_task TASK_IDLE 0 5000 50 150 4000 50] (\<lambda>_. empty_queue\<lparr>run := [0, 1, 2]\<rparr>)"

definition demo_waking :: sched_st where
  "demo_waking = demo_sched [demo_task TASK_RUN 0 1000 300 900 500 200, demo_task TASK_NEW 0 200 50 150 0 50]
      (\<lambda>_. empty_queue\<lparr>run := [0], wake := [1]\<rparr>)"

lemma schedulable_one_cpu:
  assumes "edf_schedulable rnd 1 s t = Some cpu" "0 \<le> cpu" "on_cpu (task s t) \<in> {- 1, 0}"
  shows "cpu = 0" "\<not> edf_utilisation rnd s 0 (Some t) > util_max rnd"
proof -
  have f: "edf_find_cpu rnd 1 s t \<in> {- 19, 0}" by (auto simp: edf_find_cpu_def Let_def)
  have tr: "edf_try_cpus rnd s 0 t [0] = Some None" by simp
  have "cpu = 0 \<and> \<not> edf_utilisation rnd s 0 (Some t) > util_max rnd"
  proof (cases "on_cpu (task s t) = - 1 \<and> edf_find_cpu rnd 1 s t < 0")
    case True
    with assms f show ?thesis by (auto simp: edf_schedulable_def)
  next
    case False
    then have c: "(if on_cpu (task s t) = - 1 then edf_find_cpu rnd 1 s t else on_cpu (task s t)) = 0"
      using f assms(3) by auto
    from assms(1) False show ?thesis
      unfolding edf_schedulable_def c Let_def using tr assms(2) by (auto split: bind_splits if_splits option.splits)
  qed
  then show "cpu = 0" "\<not> edf_utilisation rnd s 0 (Some t) > util_max rnd" by auto
qed

lemma exact_util_cong: "(\<And>t. t \<in> set ts \<Longrightarrow> attr (task s t) = attr (task s' t)) \<Longrightarrow> exact_util s ts = exact_util s' ts"
  unfolding exact_util_def by (intro arg_cong [where f = sum_list] map_cong) auto

section \<open>Properties\<close>

text \<open>C29: selecting the next EDF task always ends, and loses no task: as long as the queue holds the current task or a
  periodic task that lives, the result is a task of the queue, now busy, or none; only dead tasks other than the
  current one leave the queue, and no other queue changes.\<close>

theorem edf_pick_next_safe:
  assumes "distinct (run (edf_queue s cpu))"
    and "\<exists>t \<in> set (run (edf_queue s cpu)). Some t = this \<or> state (task s t) \<noteq> TASK_DEAD \<and> \<not> has_flag (task s t) TASK_RUN_ONCE"
  shows "\<exists>r s'. edf_pick_next tmin cpu now this s = Some (r, s')
     \<and> distinct (run (edf_queue s' cpu)) \<and> set (run (edf_queue s' cpu)) \<subseteq> set (run (edf_queue s cpu))
     \<and> (\<forall>t \<in> set (run (edf_queue s cpu)) - set (run (edf_queue s' cpu)). state (task s' t) = TASK_DEAD \<and> Some t \<noteq> this)
     \<and> (\<forall>p c. wake (tq s' p c) = wake (tq s p c) \<and> (p \<noteq> KSCHED_EDF \<or> c \<noteq> cpu \<longrightarrow> tq s' p c = tq s p c))
     \<and> (case r of None \<Rightarrow> True | Some t \<Rightarrow> t \<in> set (run (edf_queue s' cpu)) \<and> state (task s' t) = TASK_BUSY)"
proof -
  from assms(2) have "\<exists>t \<in> set (run (edf_queue s cpu)). kept this (task s t) t" by (simp add: kept_def)
  from edf_pick_next_total [OF assms(1) this, of tmin now] obtain r s' where
    r: "edf_pick_next tmin cpu now this s = Some (r, s')" "scan_inv s cpu this s'"
    "case r of None \<Rightarrow> True | Some t \<Rightarrow> t \<in> set (run (edf_queue s' cpu)) \<and> state (task s' t) = TASK_BUSY" by blast
  from r(2) have "distinct (run (edf_queue s' cpu))" "set (run (edf_queue s' cpu)) \<subseteq> set (run (edf_queue s cpu))"
    "\<forall>t \<in> set (run (edf_queue s cpu)) - set (run (edf_queue s' cpu)). state (task s' t) = TASK_DEAD \<and> Some t \<noteq> this"
    "\<forall>p c. wake (tq s' p c) = wake (tq s p c) \<and> (p \<noteq> KSCHED_EDF \<or> c \<noteq> cpu \<longrightarrow> tq s' p c = tq s p c)"
    by (auto simp: scan_inv_def)
  with r(1,3) show ?thesis by blast
qed

theorem edf_pick_next_safe_witness:
  "\<exists>r s'. edf_pick_next 10 0 1000 (Some 0) demo_edf = Some (r, s') \<and> distinct (run (edf_queue s' 0))
     \<and> set (run (edf_queue s' 0)) \<subseteq> {0, 1, 2}"
  using edf_pick_next_safe [of demo_edf 0 "Some 0" 10 1000]
  by (auto simp: demo_edf_def demo_sched_def empty_queue_def)

text \<open>C12: when the task at the head of the queue runs and can go on, a task is selected and marked busy, and no task that
  was due at the call (running with time left, or asleep with its wakeup passed) has an earlier deadline;
  the due tasks stay in the queue with their deadlines. (Without a running head a due task can be passed over, see
  \<^verbatim>\<open>edf_ready_task_passed_over\<close> below.)\<close>

theorem edf_pick_earliest:
  assumes "run (edf_queue s cpu) = h # rest" "distinct (h # rest)"
    and "state (task s h) = TASK_RUN" "schedule_edf_can_execute tmin (task s h) now"
  shows "\<exists>t s'. edf_pick_next tmin cpu now this s = Some (Some t, s') \<and> state (task s' t) = TASK_BUSY
     \<and> t \<in> set (run (edf_queue s' cpu))
     \<and> (\<forall>p \<in> set (h # rest). due tmin now (task s p) \<longrightarrow> p \<in> set (run (edf_queue s' cpu))
          \<and> deadline (task s' p) = deadline (task s p) \<and> deadline (task s' t) \<le> deadline (task s p))"
  by (rule edf_pick_due_aux [OF assms])

theorem edf_pick_earliest_witness:
  "\<exists>t s'. edf_pick_next 10 0 1000 (Some 0) demo_edf = Some (Some t, s') \<and> state (task s' t) = TASK_BUSY
     \<and> deadline (task s' t) \<le> deadline (task demo_edf 0) \<and> deadline (task s' t) \<le> deadline (task demo_edf 1)"
proof -
  have "run (edf_queue demo_edf 0) = 0 # [1, 2] \<and> distinct [0, 1, 2::nat]
      \<and> state (task demo_edf 0) = TASK_RUN \<and> schedule_edf_can_execute 10 (task demo_edf 0) 1000
      \<and> due 10 1000 (task demo_edf 0) \<and> due 10 1000 (task demo_edf 1)"
    by code_simp
  with edf_pick_earliest [of demo_edf 0 0 "[1, 2]" 10 1000 "Some 0"] show ?thesis by fastforce
qed

text \<open>C11: on one processor the admission test keeps the processor below full load: when \<^verbatim>\<open>edf_enqueue\<close> accepts a
  task, the exact utilisation of all tasks queued on the processor is below one, whatever the rounding of
  the double arithmetic within its precision.\<close>

theorem edf_admission:
  assumes "double_rounding rnd"
    and "edf_enqueue rnd 1 t s = Some (0, s')"
    and "sched (task s t) = Some KSCHED_EDF" "on_cpu (task s t) \<in> {- 1, 0}"
    and "0 \<le> wcet (attr (task s t))" "0 \<le> period (attr (task s t))" "0 < deadline_rel (attr (task s t))"
    and "attrs_ok s (wake (edf_queue s 0) @ run (edf_queue s 0))"
    and "t \<notin> set (wake (edf_queue s 0) @ run (edf_queue s 0))"
    and "length (wake (edf_queue s 0) @ run (edf_queue s 0)) \<le> 2 ^ 40"
  shows "wake (edf_queue s' 0) = wake (edf_queue s 0) @ [t] \<and> run (edf_queue s' 0) = run (edf_queue s 0)
     \<and> exact_util s' (wake (edf_queue s' 0) @ run (edf_queue s' 0)) < 1"
proof -
  let ?ts = "wake (edf_queue s 0) @ run (edf_queue s 0)"
  define s1 where "s1 = (if period (attr (task s t)) = 0
     then upd_task t (\<lambda>k. k\<lparr>flags := set_bit TASK_RUN_ONCE (flags k), attr := (attr k)\<lparr>period := deadline_rel (attr k)\<rparr>\<rparr>) s
     else upd_task t (\<lambda>k. k\<lparr>flags := unset_bit TASK_RUN_ONCE (flags k)\<rparr>) s)"
  have q1: "tq s1 = tq s" "on_cpu (task s1 t) = on_cpu (task s t)" "\<And>x. x \<noteq> t \<Longrightarrow> task s1 x = task s x"
    by (simp_all add: s1_def)
  from assms(2,3) obtain cpu where
    c: "edf_schedulable rnd 1 s1 t = Some cpu" "0 \<le> cpu" and
    s': "s' = upd_queue KSCHED_EDF cpu (\<lambda>q. q\<lparr>wake := wake q @ [t]\<rparr>) (upd_task t (\<lambda>k. k\<lparr>on_cpu := cpu\<rparr>) s1)"
    by (auto simp: edf_enqueue_def s1_def [symmetric] Let_def split: bind_splits if_splits)
  note one = schedulable_one_cpu [OF c, unfolded q1(2), OF assms(4)]
  have "0 \<le> wcet (attr (task s1 t)) \<and> 0 < period (attr (task s1 t))"
    using assms(5-7) by (simp add: s1_def)
  moreover have "0 \<le> wcet (attr (task s1 x)) \<and> 0 < period (attr (task s1 x))" if "x \<in> set ?ts" for x
  proof -
    have "x \<noteq> t" using that assms(9) by blast
    with q1(3) [of x] assms(8) that show ?thesis unfolding attrs_ok_def by simp
  qed
  ultimately have "attrs_ok s1 (t # ?ts)" by (simp add: attrs_ok_def)
  then have "exact_util s1 (t # ?ts) < 1"
    by (rule utilisation_exact [OF assms(1) _ _ assms(10) one(2)]) (simp add: q1(1))
  moreover have w: "wake (edf_queue s' 0) = wake (edf_queue s 0) @ [t]" "run (edf_queue s' 0) = run (edf_queue s 0)"
    by (simp_all add: s' one(1) q1(1))
  have "attr (task s' x) = attr (task s1 x)" for x by (cases "x = t") (simp_all add: s')
  then have "exact_util s' (wake (edf_queue s' 0) @ run (edf_queue s' 0)) = exact_util s1 (wake (edf_queue s' 0) @ run (edf_queue s' 0))"
    by (intro exact_util_cong) simp
  then have "exact_util s' (wake (edf_queue s' 0) @ run (edf_queue s' 0)) = exact_util s1 (t # ?ts)"
    by (simp add: w exact_util_def)
  ultimately show ?thesis using w by simp
qed

theorem edf_admission_witness:
  "\<exists>s'. edf_enqueue (\<lambda>x. x) 1 1 (demo_sched [demo_task TASK_RUN 0 1000 300 900 500 200, demo_task TASK_NEW (- 1) 200 50 150 0 50]
        (\<lambda>_. empty_queue\<lparr>run := [0]\<rparr>)) = Some (0, s') \<and> exact_util s' (wake (edf_queue s' 0) @ run (edf_queue s' 0)) < 1"
proof -
  let ?s = "demo_sched [demo_task TASK_RUN 0 1000 300 900 500 200, demo_task TASK_NEW (- 1) 200 50 150 0 50] (\<lambda>_. empty_queue\<lparr>run := [0]\<rparr>)"
  have "case edf_enqueue (\<lambda>x. x) 1 1 ?s of None \<Rightarrow> False | Some (e, _) \<Rightarrow> e = 0" by code_simp
  then obtain s' where e: "edf_enqueue (\<lambda>x. x) 1 1 ?s = Some (0, s')" by (auto split: option.splits)
  have "double_rounding (\<lambda>x. x)" by (simp add: double_rounding_def algebra_simps)
  from edf_admission [OF this e] e show ?thesis
    by (auto simp: demo_sched_def demo_task_def empty_queue_def attrs_ok_def)
qed

definition demo_overload :: sched_st where
  "demo_overload = demo_sched [demo_task TASK_IDLE 0 1000 300 500 0 300, demo_task TASK_IDLE 1 100 40 50 0 40,
      demo_task TASK_NEW 0 90 55 60 0 55] (\<lambda>c. empty_queue\<lparr>run := (if c = 0 then [0] else [1])\<rparr>)"

text \<open>With more than one processor the test is made against the wrong processor: the first one refuses the task by
  its slot test, and the loop over the others looks at the load of the first one again, so that
  the second ends up with more than it can execute.\<close>

theorem edf_overload_admitted:
  "case edf_enqueue (\<lambda>x. x) 2 2 demo_overload of None \<Rightarrow> False
   | Some (e, s') \<Rightarrow> e = 0 \<and> wake (edf_queue s' 1) = [2] \<and> edf_utilisation (\<lambda>x. x) s' 1 None > 1"
  by code_simp


text \<open>The attributes the EDF scheduler accepts are those of a task that fits: an execution time of at least one tick,
  a deadline at least one tick later, and, for a periodic task, a period at least one tick after the
  deadline.\<close>

theorem edf_check_sched_attr_ok:
  assumes "0 \<le> wcet a" "wcet a < 2 ^ 62" "0 \<le> deadline_rel a" "deadline_rel a < 2 ^ 62" "0 \<le> period a" "period a < 2 ^ 62"
  shows "edf_check_sched_attr tmin (Some a) = 0 \<longleftrightarrow>
    policy a = KSCHED_EDF \<and> uint tmin \<le> wcet a \<and> wcet a < deadline_rel a \<and> wcet a + uint tmin \<le> deadline_rel a
    \<and> (0 < period a \<longrightarrow> deadline_rel a < period a \<and> deadline_rel a + uint tmin \<le> period a)"
proof -
  have d: "ktime_delta (deadline_rel a) (wcet a) = deadline_rel a - wcet a"
    "ktime_delta (period a) (deadline_rel a) = period a - deadline_rel a"
    using assms by (simp_all add: ktime_delta_id is_s64_def)
  show ?thesis by (auto simp: edf_check_sched_attr_def Let_def d)
qed

theorem edf_check_sched_attr_ok_witness:
  "edf_check_sched_attr 10 (Some \<lparr>policy = KSCHED_EDF, priority = 0, period = 1000, wcet = 300, deadline_rel = 900\<rparr>) = 0"
  using edf_check_sched_attr_ok [of "\<lparr>policy = KSCHED_EDF, priority = 0, period = 1000, wcet = 300, deadline_rel = 900\<rparr>" 10]
  by simp

lemma sort_queue_frame:
  "task (edf_sort_queue_by_urgency p cpu now s) = task s"
  "wake (tq (edf_sort_queue_by_urgency p cpu now s) p' c') = wake (tq s p' c')"
  "p' \<noteq> p \<or> c' \<noteq> cpu \<Longrightarrow> tq (edf_sort_queue_by_urgency p cpu now s) p' c' = tq s p' c'"
  "mset (run (tq (edf_sort_queue_by_urgency p cpu now s) p cpu)) = mset (run (tq s p cpu))"
proof -
  define f where "f = (\<lambda>s t.
        if has_flag (task s t) TASK_RUN_ONCE then s
        else if state (task s t) = TASK_DEAD then s
        else let first = hd (run (tq s p cpu)) in
          if ktime_before (wakeup (task s t)) now
             \<and> ktime_before (ktime_delta (deadline (task s t)) (runtime (task s t))) (deadline (task s first))
          then upd_queue p cpu (\<lambda>q. q\<lparr>run := list_move_front t (run q)\<rparr>) s else s)"
  have step: "task (f s t) = task s \<and> (\<forall>p' c'. wake (tq (f s t) p' c') = wake (tq s p' c')
      \<and> (p' \<noteq> p \<or> c' \<noteq> cpu \<longrightarrow> tq (f s t) p' c' = tq s p' c'))
      \<and> (t \<in># mset (run (tq s p cpu)) \<longrightarrow> mset (run (tq (f s t) p cpu)) = mset (run (tq s p cpu)))" for s t
  proof -
    have "wake (tq (upd_queue p cpu (\<lambda>q. q\<lparr>run := list_move_front t (run q)\<rparr>) s) p' c') = wake (tq s p' c')" for p' c'
      by (cases "p' = p \<and> c' = cpu") auto
    then show ?thesis by (simp add: f_def Let_def list_move_front_def)
  qed
  have "task (foldl f s ts) = task s \<and> (\<forall>p' c'. wake (tq (foldl f s ts) p' c') = wake (tq s p' c')
      \<and> (p' \<noteq> p \<or> c' \<noteq> cpu \<longrightarrow> tq (foldl f s ts) p' c' = tq s p' c'))
      \<and> mset (run (tq (foldl f s ts) p cpu)) = mset (run (tq s p cpu))" if "set ts \<subseteq> set_mset (mset (run (tq s p cpu)))" for ts
    using that
  proof (induction ts arbitrary: s)
    case (Cons t ts)
    note st = step [of s t]
    with Cons.prems have "mset (run (tq (f s t) p cpu)) = mset (run (tq s p cpu))" by auto
    with Cons.IH [of "f s t"] Cons.prems st show ?case by auto
  qed simp
  from this [of "run (tq s p cpu)"]
  show "task (edf_sort_queue_by_urgency p cpu now s) = task s"
    "wake (tq (edf_sort_queue_by_urgency p cpu now s) p' c') = wake (tq s p' c')"
    "p' \<noteq> p \<or> c' \<noteq> cpu \<Longrightarrow> tq (edf_sort_queue_by_urgency p cpu now s) p' c' = tq s p' c'"
    "mset (run (tq (edf_sort_queue_by_urgency p cpu now s) p cpu)) = mset (run (tq s p cpu))"
    unfolding edf_sort_queue_by_urgency_def f_def by auto
qed

text \<open>\<^verbatim>\<open>edf_wake\<close> refuses a task that is not an EDF task waiting on its processor, leaving everything as it is.
  Otherwise the task moves from the wake queue to the end of the run queue, idle, with its full run time
  and a deadline one relative deadline after its wakeup; the tasks that ran before stay in the run queue.\<close>

theorem edf_wake_correct:
  assumes "sched (task s t) = Some p" "cpu = on_cpu (task s t)"
  shows "if policy (attr (task s t)) \<noteq> KSCHED_EDF \<or> cpu = KTHREAD_CPU_AFFINITY_NONE \<or> t \<notin> set (wake (tq s p cpu))
      then edf_wake tmin (Some t) now s = Some (- EINVAL, s)
      else \<exists>s' rs. edf_wake tmin (Some t) now s = Some (0, s') \<and> wake (tq s' p cpu) = remove1 t (wake (tq s p cpu))
        \<and> run (tq s' p cpu) = rs @ [t] \<and> mset rs = mset (run (tq s p cpu))
        \<and> state (task s' t) = TASK_IDLE \<and> runtime (task s' t) = wcet (attr (task s t))
        \<and> deadline (task s' t) = ktime_add (wakeup (task s' t)) (deadline_rel (attr (task s t)))
        \<and> (\<forall>t'. t' \<noteq> t \<longrightarrow> task s' t' = task s t')"
proof -
  have f: "edf_task_in_wake_queue t (tq s p cpu) \<longleftrightarrow> t \<in> set (wake (tq s p cpu))"
    by (auto simp: edf_task_in_wake_queue_def find_None_iff)
  show ?thesis
  proof (cases "policy (attr (task s t)) \<noteq> KSCHED_EDF \<or> cpu = KTHREAD_CPU_AFFINITY_NONE \<or> t \<notin> set (wake (tq s p cpu))")
    case True
    with assms f show ?thesis by (auto simp: edf_wake_def Let_def)
  next
    case False
    then have ne: "wake (tq s p cpu) \<noteq> []" by auto
    let ?periodic = "run (tq s p cpu) \<noteq> [] \<or> \<not> has_flag (task s t) TASK_RUN_ONCE"
    define s1 where "s1 = (if ?periodic then edf_sort_queue_by_urgency p cpu now s else s)"
    have s1: "task s1 = task s" "wake (tq s1 p cpu) = wake (tq s p cpu)" "mset (run (tq s1 p cpu)) = mset (run (tq s p cpu))"
      by (simp_all add: s1_def sort_queue_frame)
    define wk where "wk = (if ?periodic then edf_get_earliest_wakeup s (tq s p cpu) now else now)"
    define wk2 where "wk2 = ktime_add (if ?periodic then edf_get_best_wakeup t wk s1 (tq s1 p cpu) now else wk) (uint tmin)"
    define s2 where "s2 = upd_task t (\<lambda>k. k\<lparr>wakeup := ktime_add wk2 (period (attr k)),
                        deadline := ktime_add (ktime_add wk2 (period (attr k))) (deadline_rel (attr k)),
                        runtime := wcet (attr k), state := TASK_IDLE\<rparr>) s1"
    let ?s = "upd_queue p cpu (\<lambda>q. q\<lparr>wake := remove1 t (wake q), run := run q @ [t]\<rparr>) s2"
    have "edf_wake tmin (Some t) now s = Some (0, ?s)"
      using False ne f unfolding edf_wake_def Let_def s2_def wk2_def wk_def s1_def
      by (simp add: assms(1) assms(2) [symmetric])
    with False s1 show ?thesis
      by (simp only: if_False) (intro exI [of _ ?s] exI [of _ "run (tq s1 p cpu)"], simp add: s2_def)
  qed
qed

theorem edf_wake_correct_witness:
  "\<exists>s' rs. edf_wake 10 (Some 1) 1000 demo_waking = Some (0, s') \<and> run (edf_queue s' 0) = rs @ [1] \<and> wake (edf_queue s' 0) = []"
proof -
  have e: "sched (task demo_waking 1) = Some KSCHED_EDF" "0 = on_cpu (task demo_waking 1)"
    "policy (attr (task demo_waking 1)) = KSCHED_EDF" "wake (edf_queue demo_waking 0) = [1]" by code_simp+
  from edf_wake_correct [OF e(1,2), of 10 1000] e(3,4) show ?thesis by auto
qed

lemma ready_bounds:
  "0 < edf_task_ready_ns tmin cpu now s \<and> edf_task_ready_ns tmin cpu now s \<le> 2 ^ 31 - 1
   \<and> (\<forall>t \<in> set (run (edf_queue s cpu)). state (task s t) \<noteq> TASK_BUSY \<and> ktime_delta (wakeup (task s t)) now > 2 * uint tmin
        \<longrightarrow> edf_task_ready_ns tmin cpu now s \<le> ktime_delta (wakeup (task s t)) now)"
proof -
  let ?f = "\<lambda>ready t. if state (task s t) = TASK_BUSY then ready
        else let delta = ktime_delta (wakeup (task s t)) now in
          if delta \<le> 2 * uint tmin then ready else if ready > delta then delta else ready"
  have u: "0 \<le> 2 * uint tmin" by simp
  have "0 < foldl ?f r ts \<and> foldl ?f r ts \<le> r \<and> (\<forall>t \<in> set ts. state (task s t) \<noteq> TASK_BUSY
      \<and> ktime_delta (wakeup (task s t)) now > 2 * uint tmin \<longrightarrow> foldl ?f r ts \<le> ktime_delta (wakeup (task s t)) now)"
    if "0 < r" for r ts
    using that
  proof (induction ts arbitrary: r)
    case (Cons t ts)
    let ?d = "ktime_delta (wakeup (task s t)) now"
    have v: "\<not> ?d \<le> 2 * uint tmin \<Longrightarrow> 0 < ?d" using u by linarith
    have "0 < ?f r t" "?f r t \<le> r" "state (task s t) \<noteq> TASK_BUSY \<and> ?d > 2 * uint tmin \<longrightarrow> ?f r t \<le> ?d"
      using Cons.prems v by (auto simp: Let_def)
    with Cons.IH [of "?f r t"] show ?case by (auto simp del: if_split)
  qed simp
  from this [of "2 ^ 31 - 1" "run (edf_queue s cpu)"] show ?thesis
    unfolding edf_task_ready_ns_def by simp
qed

text \<open>The time until an EDF task becomes ready is positive and at most \<^verbatim>\<open>0x7fffffff\<close> ns, so that the
  corresponding \<^verbatim>\<open>BUG_ON\<close> of the core scheduler cannot fire, and no sleeping task is due earlier.\<close>

theorem edf_task_ready_bounds:
  "0 < edf_task_ready_ns tmin cpu now s \<and> edf_task_ready_ns tmin cpu now s \<le> 2 ^ 31 - 1
   \<and> (\<forall>t \<in> set (run (edf_queue s cpu)). state (task s t) \<noteq> TASK_BUSY \<and> ktime_delta (wakeup (task s t)) now > 2 * uint tmin
        \<longrightarrow> edf_task_ready_ns tmin cpu now s \<le> ktime_delta (wakeup (task s t)) now)"
  by (rule ready_bounds)

theorem edf_task_ready_bounds_witness: "0 < edf_task_ready_ns 10 0 1000 demo_edf \<and> edf_task_ready_ns 10 0 1000 demo_edf \<le> 3000"
proof -
  have "2 \<in> set (run (edf_queue demo_edf 0)) \<and> state (task demo_edf 2) \<noteq> TASK_BUSY
      \<and> ktime_delta (wakeup (task demo_edf 2)) 1000 = 3000 \<and> (3000::int) > 2 * uint (10::u32)" by code_simp
  with edf_task_ready_bounds [of 10 0 1000 demo_edf] show ?thesis by fastforce
qed

text \<open>Task 0 has used up its time, task 1 sleeps with an early deadline, task 2 is ready with a late one.\<close>

definition demo_starve :: sched_st where
  "demo_starve = demo_sched [demo_task TASK_RUN 0 3000 300 900 500 15, demo_task TASK_IDLE 0 200 50 150 1100 50,
      demo_task TASK_RUN 0 5000 500 4000 900 500] (\<lambda>_. empty_queue\<lparr>run := [0, 1, 2]\<rparr>)"

text \<open>Without a running head the rule fails: a task that is ready is passed over, and no EDF task is selected,
  because a sleeping task with an earlier deadline has come to the head of the queue.\<close>

theorem edf_ready_task_passed_over:
  "case edf_pick_next 10 0 1000 (Some 0) demo_starve of None \<Rightarrow> False
   | Some (r, s') \<Rightarrow> r = None \<and> run (edf_queue s' 0) = [1, 2, 0] \<and> state (task s' 2) = TASK_RUN
       \<and> schedule_edf_can_execute 10 (task s' 2) 1000 \<and> state (task s' 1) = TASK_IDLE"
  by code_simp

text \<open>When the last task of the queue is dead and removed, the code goes on to read the list head as if it were a
  task, as the queue is not tested again.\<close>

theorem edf_empty_queue_read:
  "edf_pick_next 10 0 1000 None (demo_sched [demo_task TASK_DEAD 0 1000 300 900 500 200] (\<lambda>_. empty_queue\<lparr>run := [0]\<rparr>)) = None"
  by code_simp

end
