(* ===== verification/Rr.thy ===== *)
theory Rr
  imports Sched_Base
begin

text \<open>
  The round robin scheduler, \<^verbatim>\<open>kernel/sched/rr.c\<close>.  All its tasks share the wake and run queues of
  index 0; dead tasks go to the queues of their processor.  \<open>tmin\<close> is
  \<^verbatim>\<open>tick_get_period_min_ns()\<close>.
\<close>

abbreviation rr_queue :: "sched_st \<Rightarrow> int \<Rightarrow> task_queue" where
  "rr_queue s cpu \<equiv> tq s KSCHED_RR cpu"

definition rr_move_dead :: "tid \<Rightarrow> int \<Rightarrow> sched_st \<Rightarrow> sched_st" where
  "rr_move_dead t cpu s =
     upd_queue KSCHED_RR cpu (\<lambda>q. q\<lparr>dead := dead q @ [t]\<rparr>)
       (upd_queue KSCHED_RR 0 (\<lambda>q. q\<lparr>run := remove1 t (run q)\<rparr>) s)"

fun rr_scan :: "nat \<Rightarrow> u32 \<Rightarrow> int \<Rightarrow> tid option \<Rightarrow> tid option \<Rightarrow> sched_st \<Rightarrow> (tid option \<times> sched_st) option" where
  "rr_scan n tmin cpu None nx s = Some (nx, s)"
| "rr_scan 0 tmin cpu (Some t) nx s = None"
| "rr_scan (Suc n) tmin cpu (Some t) nx s =
     (let tmp = next_of (run (rr_queue s 0)) t in
        if on_cpu (task s t) \<noteq> cpu \<and> on_cpu (task s t) \<noteq> KTHREAD_CPU_AFFINITY_NONE
        then rr_scan n tmin cpu tmp nx s
        else if state (task s t) = TASK_RUN then
          if runtime (task s t) \<le> 2 * uint tmin
          then rr_scan n tmin cpu tmp (Some t)
                 (upd_queue KSCHED_RR 0 (\<lambda>q. q\<lparr>run := list_move_back t (run q)\<rparr>)
                    (upd_task t (\<lambda>k. k\<lparr>runtime := wcet (attr k)\<rparr>) s))
          else Some (Some t, s)
        else if state (task s t) = TASK_DEAD \<and> on_cpu (task s t) = cpu
        then rr_scan n tmin cpu tmp nx (rr_move_dead t cpu s)
        else rr_scan n tmin cpu tmp nx s)"

definition rr_pick_next :: "u32 \<Rightarrow> int \<Rightarrow> ktime \<Rightarrow> sched_st \<Rightarrow> (tid option \<times> sched_st) option" where
  "rr_pick_next tmin cpu now s =
     (if run (rr_queue s 0) = [] then Some (None, s)
      else do {
        (nx, s) \<leftarrow> rr_scan (Suc (length (run (rr_queue s 0)))) tmin cpu (first_of (run (rr_queue s 0))) None s;
        case nx of
          None \<Rightarrow> Some (None, s)
        | Some t \<Rightarrow> Some (Some t, upd_task t (\<lambda>k. k\<lparr>state := TASK_BUSY\<rparr>) s) })"

text \<open>One round of the cleanup thread of a processor, between two yields.\<close>

definition rr_cleanup :: "int \<Rightarrow> sched_st \<Rightarrow> sched_st" where
  "rr_cleanup cpu s =
     (let s = foldl (\<lambda>s t. kthread_free t (upd_queue KSCHED_RR cpu (\<lambda>q. q\<lparr>clean := remove1 t (clean q)\<rparr>) s))
                s (clean (rr_queue s cpu))
      in foldl (\<lambda>s t. upd_queue KSCHED_RR cpu (\<lambda>q. q\<lparr>dead := remove1 t (dead q), clean := clean q @ [t]\<rparr>) s)
           s (dead (rr_queue s cpu)))"

definition rr_wake :: "u32 \<Rightarrow> tid option \<Rightarrow> ktime \<Rightarrow> sched_st \<Rightarrow> (int \<times> sched_st) option" where
  "rr_wake tmin tp now s =
     (case tp of
        None \<Rightarrow> Some (- EINVAL, s)
      | Some t \<Rightarrow>
          if policy (attr (task s t)) \<noteq> KSCHED_RR then Some (- EINVAL, s)
          else do {
            p \<leftarrow> sched (task s t);
            if wake (tq s p 0) = [] then Some (- EINVAL, s)
            else if List.find (\<lambda>e. e = t) (wake (tq s p 0)) = None then Some (- EINVAL, s)
            else
              let tick = 16 * uint tmin;
                  s = upd_task t (\<lambda>k. let w = s64 (uint (priority (attr k)) * tick) in
                        k\<lparr>attr := (attr k)\<lparr>wcet := w\<rparr>, runtime := w, state := TASK_RUN\<rparr>) s
              in Some (0, upd_queue p 0 (\<lambda>q. q\<lparr>wake := remove1 t (wake q), run := t # run q\<rparr>) s) })"

definition rr_enqueue :: "tid \<Rightarrow> sched_st \<Rightarrow> (int \<times> sched_st) option" where
  "rr_enqueue t s =
     do { p \<leftarrow> sched (task s t); Some (0, upd_queue p 0 (\<lambda>q. q\<lparr>wake := wake q @ [t]\<rparr>) s) }"

definition rr_timeslice_ns :: "task_struct \<Rightarrow> ktime" where
  "rr_timeslice_ns t = runtime t"

definition rr_check_sched_attr :: "sched_attr option \<Rightarrow> int \<times> sched_attr option" where
  "rr_check_sched_attr ap =
     (case ap of
        None \<Rightarrow> (- EINVAL, None)
      | Some a \<Rightarrow>
          if policy a \<noteq> KSCHED_RR then (- EINVAL, Some a)
          else if priority a = 0 then (0, Some (a\<lparr>priority := 1\<rparr>))
          else (0, Some a))"

definition rr_task_ready_ns :: "int \<Rightarrow> ktime \<Rightarrow> sched_st \<Rightarrow> ktime" where
  "rr_task_ready_ns cpu now s = 0"

definition sched_rr_init :: "nat \<Rightarrow> sched_st \<Rightarrow> sched_st" where
  "sched_rr_init cpus s = foldl (\<lambda>s i. upd_queue KSCHED_RR (int i) (\<lambda>q. \<lparr>wake = [], run = [], dead = [], clean = []\<rparr>) s) s [0..<cpus]"

section \<open>Selection\<close>

definition rr_elig :: "int \<Rightarrow> task_struct \<Rightarrow> bool" where
  "rr_elig cpu k \<longleftrightarrow> (on_cpu k = cpu \<or> on_cpu k = KTHREAD_CPU_AFFINITY_NONE) \<and> state k = TASK_RUN"

definition rr_fresh :: "u32 \<Rightarrow> int \<Rightarrow> task_struct \<Rightarrow> bool" where
  "rr_fresh tmin cpu k \<longleftrightarrow> rr_elig cpu k \<and> runtime k > 2 * uint tmin"

text \<open>The reference selection: the first task with time left, else the first task whose time is used up.\<close>

definition rr_choice :: "u32 \<Rightarrow> int \<Rightarrow> sched_st \<Rightarrow> tid list \<Rightarrow> tid option" where
  "rr_choice tmin cpu s ts =
     (case List.find (\<lambda>t. rr_fresh tmin cpu (task s t)) ts of
        Some t \<Rightarrow> Some t
      | None \<Rightarrow> List.find (\<lambda>t. rr_elig cpu (task s t)) ts)"

definition rr_frame :: "int \<Rightarrow> sched_st \<Rightarrow> sched_st \<Rightarrow> bool" where
  "rr_frame cpu s s' \<longleftrightarrow> mset (run (rr_queue s' 0)) + mset (dead (rr_queue s' cpu)) = mset (run (rr_queue s 0)) + mset (dead (rr_queue s cpu))
     \<and> (\<forall>t. t \<in> set (run (rr_queue s 0)) \<and> t \<notin> set (run (rr_queue s' 0)) \<longrightarrow> state (task s t) = TASK_DEAD \<and> on_cpu (task s t) = cpu)
     \<and> (\<forall>t. state (task s' t) = state (task s t) \<and> on_cpu (task s' t) = on_cpu (task s t) \<and> attr (task s' t) = attr (task s t) \<and> sched (task s' t) = sched (task s t))
     \<and> (\<forall>c. wake (rr_queue s' c) = wake (rr_queue s c) \<and> clean (rr_queue s' c) = clean (rr_queue s c))
     \<and> (\<forall>p c. p \<noteq> KSCHED_RR \<longrightarrow> tq s' p c = tq s p c)"

lemma rr_frame_refl: "rr_frame cpu s s"
  by (simp add: rr_frame_def)

lemma rr_frame_trans:
  assumes "rr_frame cpu a b" "rr_frame cpu b c"
  shows "rr_frame cpu a c"
  using assms unfolding rr_frame_def by (metis)

lemma rr_frame_back:
  assumes "t \<in> set (run (rr_queue s 0))"
  shows "rr_frame cpu s (upd_queue KSCHED_RR 0 (\<lambda>q. q\<lparr>run := list_move_back t (run q)\<rparr>)
                    (upd_task t (\<lambda>k. k\<lparr>runtime := wcet (attr k)\<rparr>) s))"
proof -
  let ?s = "upd_queue KSCHED_RR 0 (\<lambda>q. q\<lparr>run := list_move_back t (run q)\<rparr>)
                    (upd_task t (\<lambda>k. k\<lparr>runtime := wcet (attr k)\<rparr>) s)"
  have "state (task ?s x) = state (task s x) \<and> on_cpu (task ?s x) = on_cpu (task s x) \<and> attr (task ?s x) = attr (task s x)
      \<and> sched (task ?s x) = sched (task s x)" for x
    by (cases "x = t") simp_all
  moreover have "wake (rr_queue ?s c) = wake (rr_queue s c) \<and> clean (rr_queue ?s c) = clean (rr_queue s c)
      \<and> dead (rr_queue ?s c) = dead (rr_queue s c)" for c
    by (cases "c = 0") simp_all
  ultimately show ?thesis using assms unfolding rr_frame_def
    by simp
qed

lemma rr_frame_dead:
  assumes "t \<in> set (run (rr_queue s 0))" "state (task s t) = TASK_DEAD" "on_cpu (task s t) = cpu"
  shows "rr_frame cpu s (rr_move_dead t cpu s)"
proof -
  let ?s = "rr_move_dead t cpu s"
  have "run (rr_queue ?s 0) = remove1 t (run (rr_queue s 0))" by (cases "cpu = 0") (simp_all add: rr_move_dead_def)
  moreover have "dead (rr_queue ?s cpu) = dead (rr_queue s cpu) @ [t]" by (cases "cpu = 0") (simp_all add: rr_move_dead_def)
  moreover have "wake (rr_queue ?s c) = wake (rr_queue s c) \<and> clean (rr_queue ?s c) = clean (rr_queue s c)" for c
    by (cases "c = cpu"; cases "c = 0"; cases "cpu = 0") (simp_all add: rr_move_dead_def)
  moreover have "t' = t" if "t' \<in> set (run (rr_queue s 0))" "t' \<notin> set (remove1 t (run (rr_queue s 0)))" for t'
    using that by (metis in_set_remove1)
  moreover have "tq ?s p c = tq s p c" if "p \<noteq> KSCHED_RR" for p c using that by (simp add: rr_move_dead_def)
  moreover have "task ?s = task s" by (simp add: rr_move_dead_def)
  ultimately show ?thesis using assms unfolding rr_frame_def by (auto simp: union_mset_add_mset_left)
qed

text \<open>The result of a scan with the tasks \<open>os\<close> still to be seen and \<open>ms\<close> queued up again.\<close>

definition rr_result :: "u32 \<Rightarrow> int \<Rightarrow> sched_st \<Rightarrow> tid list \<Rightarrow> tid list \<Rightarrow> tid option" where
  "rr_result tmin cpu s os ms =
     (case List.find (\<lambda>t. rr_fresh tmin cpu (task s t)) os of
        Some t \<Rightarrow> Some t
      | None \<Rightarrow> (case ms of m # _ \<Rightarrow> Some m | [] \<Rightarrow> List.find (\<lambda>t. rr_elig cpu (task s t)) os))"

lemma rr_result_simps:
  "rr_result tmin cpu s [] ms = first_of ms"
  "rr_fresh tmin cpu (task s t) \<Longrightarrow> rr_result tmin cpu s (t # os) ms = Some t"
  "\<not> rr_elig cpu (task s t) \<Longrightarrow> rr_result tmin cpu s (t # os) ms = rr_result tmin cpu s os ms"
  "rr_elig cpu (task s t) \<Longrightarrow> \<not> rr_fresh tmin cpu (task s t) \<Longrightarrow>
     rr_result tmin cpu s (t # os) ms = rr_result tmin cpu s os (ms @ [t])"
proof -
  show "rr_result tmin cpu s [] ms = first_of ms" by (cases ms) (simp_all add: rr_result_def)
  show "rr_fresh tmin cpu (task s t) \<Longrightarrow> rr_result tmin cpu s (t # os) ms = Some t" by (simp add: rr_result_def)
  show "rr_result tmin cpu s (t # os) ms = rr_result tmin cpu s os ms" if "\<not> rr_elig cpu (task s t)"
  proof -
    have "\<not> rr_fresh tmin cpu (task s t)" using that by (simp add: rr_fresh_def)
    with that show ?thesis unfolding rr_result_def by (auto split: option.splits list.splits)
  qed
  show "rr_result tmin cpu s (t # os) ms = rr_result tmin cpu s os (ms @ [t])"
    if "rr_elig cpu (task s t)" "\<not> rr_fresh tmin cpu (task s t)"
    using that unfolding rr_result_def by (auto split: option.splits list.splits)
qed

lemma rr_result_cong:
  "(\<And>x. x \<in> set os \<Longrightarrow> task s' x = task s x) \<Longrightarrow> rr_result tmin cpu s' os ms = rr_result tmin cpu s os ms"
  unfolding rr_result_def by (intro option.case_cong list.case_cong find_cong refl) auto

lemma rr_result_choice: "rr_result tmin cpu s os [] = rr_choice tmin cpu s os"
  by (simp add: rr_result_def rr_choice_def split: option.splits)

lemma rr_scan_spec:
  assumes "run (rr_queue s 0) = us @ os @ ms" "distinct (us @ os @ ms)"
    and "\<And>m. m \<in> set ms \<Longrightarrow> rr_fresh tmin cpu (task s m)"
    and "ms = [] \<Longrightarrow> nx = None" "length os < n"
    and "\<And>t. t \<in> set os \<Longrightarrow> rr_elig cpu (task s t) \<Longrightarrow> wcet (attr (task s t)) > 2 * uint tmin"
  shows "\<exists>s'. rr_scan n tmin cpu (first_of (os @ ms)) nx s = Some (rr_result tmin cpu s os ms, s') \<and> rr_frame cpu s s'
     \<and> (\<forall>x. rr_result tmin cpu s os ms = Some x \<longrightarrow> runtime (task s' x) > 2 * uint tmin)"
  using assms
proof (induction os arbitrary: n s us ms nx)
  case Nil
  then obtain k where n: "n = Suc k" by (cases n) auto
  show ?case
  proof (cases ms)
    case Nil
    with \<open>ms = [] \<Longrightarrow> nx = None\<close> show ?thesis by (auto simp: rr_frame_refl rr_result_simps)
  next
    case (Cons m ms')
    with Nil.prems(3) [of m] have "rr_fresh tmin cpu (task s m)" by simp
    with Cons n show ?thesis by (auto simp: rr_fresh_def rr_elig_def rr_frame_refl rr_result_simps)
  qed
next
  case (Cons t os)
  from Cons.prems(5) obtain k where n: "n = Suc k" "length os < k" by (cases n) auto
  have q: "run (rr_queue s 0) = us @ t # os @ ms" and t: "t \<notin> set us" "t \<notin> set os" "t \<notin> set ms"
    using Cons.prems(1,2) by auto
  have tin: "t \<in> set (run (rr_queue s 0))" using q by simp
  have nxt: "next_of (run (rr_queue s 0)) t = first_of (os @ ms)" using q t by (simp add: next_of_append)
  have skip: "\<exists>s'. rr_scan k tmin cpu (first_of (os @ ms)) nx s = Some (rr_result tmin cpu s os ms, s') \<and> rr_frame cpu s s'
     \<and> (\<forall>x. rr_result tmin cpu s os ms = Some x \<longrightarrow> runtime (task s' x) > 2 * uint tmin)"
    by (rule Cons.IH [of _ "us @ [t]"]) (use Cons.prems n in auto)
  consider (other) "on_cpu (task s t) \<noteq> cpu" "on_cpu (task s t) \<noteq> KTHREAD_CPU_AFFINITY_NONE"
    | (fresh) "rr_fresh tmin cpu (task s t)"
    | (used) "rr_elig cpu (task s t)" "\<not> rr_fresh tmin cpu (task s t)"
    | (dead) "state (task s t) = TASK_DEAD" "on_cpu (task s t) = cpu"
    | (none) "on_cpu (task s t) = cpu \<or> on_cpu (task s t) = KTHREAD_CPU_AFFINITY_NONE" "state (task s t) \<noteq> TASK_RUN"
        "\<not> (state (task s t) = TASK_DEAD \<and> on_cpu (task s t) = cpu)"
    by (auto simp: rr_fresh_def rr_elig_def)
  then show ?case
  proof cases
    case other
    then have "\<not> rr_elig cpu (task s t)" by (simp add: rr_elig_def)
    with other skip nxt n show ?thesis by (simp add: rr_result_simps)
  next
    case fresh
    then show ?thesis using n by (auto simp: rr_result_simps rr_fresh_def rr_elig_def rr_frame_refl)
  next
    case used
    let ?s = "upd_queue KSCHED_RR 0 (\<lambda>q. q\<lparr>run := list_move_back t (run q)\<rparr>)
                (upd_task t (\<lambda>k. k\<lparr>runtime := wcet (attr k)\<rparr>) s)"
    have fr: "rr_frame cpu s ?s" by (rule rr_frame_back [OF tin])
    have same: "task ?s x = task s x" if "x \<noteq> t" for x using that by simp
    have ft: "rr_fresh tmin cpu (task ?s t)"
      using used Cons.prems(6) [of t] by (simp add: rr_fresh_def rr_elig_def)
    have r: "run (rr_queue ?s 0) = us @ os @ (ms @ [t])" using q t by (simp add: list_move_back_def)
    have go: "rr_scan n tmin cpu (first_of ((t # os) @ ms)) nx s = rr_scan k tmin cpu (first_of (os @ ms)) (Some t) ?s"
      using n used nxt by (auto simp: rr_fresh_def rr_elig_def)
    show ?thesis
    proof (cases "os @ ms = []")
      case True
      with used go fr Cons.prems(6) [of t] show ?thesis by (simp add: rr_result_simps)
    next
      case False
      then have f: "first_of (os @ ms @ [t]) = first_of (os @ ms)" by (cases os; cases ms) auto
      have "\<exists>s'. rr_scan k tmin cpu (first_of (os @ (ms @ [t]))) (Some t) ?s =
          Some (rr_result tmin cpu ?s os (ms @ [t]), s') \<and> rr_frame cpu ?s s'
            \<and> (\<forall>x. rr_result tmin cpu ?s os (ms @ [t]) = Some x \<longrightarrow> runtime (task s' x) > 2 * uint tmin)"
      proof (rule Cons.IH [of _ us])
        show "rr_fresh tmin cpu (task ?s m)" if "m \<in> set (ms @ [t])" for m
          using that ft Cons.prems(3) same [of m] by (cases "m = t") auto
        show "2 * uint tmin < wcet (attr (task ?s x))" if "x \<in> set os" "rr_elig cpu (task ?s x)" for x
          using that Cons.prems(6) [of x] t same [of x] by (cases "x = t") auto
      qed (use r Cons.prems(2) n t in auto)
      moreover have "rr_result tmin cpu ?s os (ms @ [t]) = rr_result tmin cpu s os (ms @ [t])"
        by (rule rr_result_cong, rule same) (use t(2) in auto)
      ultimately show ?thesis using go f used rr_frame_trans [OF fr] by (auto simp: rr_result_simps)
    qed
  next
    case dead
    let ?s = "rr_move_dead t cpu s"
    have fr: "rr_frame cpu s ?s" using rr_frame_dead [OF tin] dead by blast
    have tk: "task ?s = task s" by (simp add: rr_move_dead_def)
    have r: "run (rr_queue ?s 0) = us @ os @ ms" using q t by (cases "cpu = 0") (simp_all add: rr_move_dead_def)
    have "\<exists>s'. rr_scan k tmin cpu (first_of (os @ ms)) nx ?s = Some (rr_result tmin cpu ?s os ms, s') \<and> rr_frame cpu ?s s'
        \<and> (\<forall>x. rr_result tmin cpu ?s os ms = Some x \<longrightarrow> runtime (task s' x) > 2 * uint tmin)"
      by (rule Cons.IH [of _ us]) (use r Cons.prems n tk in auto)
    moreover have "rr_result tmin cpu ?s os ms = rr_result tmin cpu s os ms" by (rule rr_result_cong) (simp add: tk)
    moreover have "\<not> rr_elig cpu (task s t)" using dead by (simp add: rr_elig_def)
    ultimately show ?thesis using rr_frame_trans [OF fr] dead n nxt by (auto simp: rr_result_simps)
  next
    case none
    then have "\<not> rr_elig cpu (task s t)" by (simp add: rr_elig_def)
    with none skip nxt n show ?thesis by (auto simp: rr_result_simps)
  qed
qed

section \<open>Properties\<close>

lemma rr_pick_total:
  assumes "distinct (run (rr_queue s 0))"
    and "\<forall>t \<in> set (run (rr_queue s 0)). wcet (attr (task s t)) > 2 * uint tmin"
  shows "\<exists>s1 s'. rr_pick_next tmin cpu now s = Some (rr_choice tmin cpu s (run (rr_queue s 0)), s') \<and> rr_frame cpu s s1
     \<and> s' = (case rr_choice tmin cpu s (run (rr_queue s 0)) of None \<Rightarrow> s1 | Some t \<Rightarrow> upd_task t (\<lambda>k. k\<lparr>state := TASK_BUSY\<rparr>) s1)
     \<and> (\<forall>x. rr_choice tmin cpu s (run (rr_queue s 0)) = Some x \<longrightarrow> runtime (task s1 x) > 2 * uint tmin)"
proof (cases "run (rr_queue s 0) = []")
  case True
  then show ?thesis by (auto simp: rr_pick_next_def rr_choice_def rr_frame_refl)
next
  case False
  have "\<exists>s'. rr_scan (Suc (length (run (rr_queue s 0)))) tmin cpu (first_of (run (rr_queue s 0) @ [])) None s =
      Some (rr_result tmin cpu s (run (rr_queue s 0)) [], s') \<and> rr_frame cpu s s'
      \<and> (\<forall>x. rr_result tmin cpu s (run (rr_queue s 0)) [] = Some x \<longrightarrow> runtime (task s' x) > 2 * uint tmin)"
    by (rule rr_scan_spec [where us = "[]"]) (use assms in auto)
  with False show ?thesis by (auto simp: rr_pick_next_def rr_result_choice split: option.splits)
qed


text \<open>As long as every task may run longer than two ticks, the round robin selection ends.  It picks, among the
  tasks that are runnable on the processor, the first one with time left, or else the first one of all, whose time is
  renewed; it marks the task busy, keeps every other task in its queue, and only sorts out dead tasks of the
  processor.\<close>

theorem rr_pick_next_correct:
  assumes "distinct (run (rr_queue s 0))"
    and "\<forall>t \<in> set (run (rr_queue s 0)). wcet (attr (task s t)) > 2 * uint tmin"
  shows "\<exists>s1 s'. rr_pick_next tmin cpu now s = Some (rr_choice tmin cpu s (run (rr_queue s 0)), s') \<and> rr_frame cpu s s1
     \<and> s' = (case rr_choice tmin cpu s (run (rr_queue s 0)) of None \<Rightarrow> s1 | Some t \<Rightarrow> upd_task t (\<lambda>k. k\<lparr>state := TASK_BUSY\<rparr>) s1)"
  using rr_pick_total [OF assms, of cpu now] by blast

definition rr_task :: "task_state \<Rightarrow> int \<Rightarrow> ktime \<Rightarrow> task_struct" where
  "rr_task st cpu rt =
     \<lparr>state = st, on_cpu = cpu, tname = ''task'', sched = Some KSCHED_RR,
      attr = \<lparr>policy = KSCHED_RR, priority = 2, period = 0, wcet = 320, deadline_rel = 0\<rparr>,
      runtime = rt, wakeup = 0, deadline = 0, wakeup_first = 0, exec_start = 0, exec_stop = 0, total = 0,
      slices = 1, flags = 0\<rparr>"

definition demo_rr :: sched_st where
  "demo_rr = \<lparr>task = (\<lambda>t. if t = 0 then rr_task TASK_RUN 0 5 else if t = 1 then rr_task TASK_DEAD 0 0
       else if t = 2 then rr_task TASK_RUN 1 300 else rr_task TASK_RUN (- 1) 15),
     tq = (\<lambda>p c. \<lparr>wake = [], run = (if p = KSCHED_RR \<and> c = 0 then [0, 1, 2, 3] else []), dead = [], clean = []\<rparr>),
     alarms = 0, freed = []\<rparr>"

theorem rr_pick_next_correct_witness:
  "\<exists>s'. rr_pick_next 10 0 1000 demo_rr = Some (Some 0, s')"
proof -
  have "distinct (run (rr_queue demo_rr 0))" "\<forall>t \<in> set (run (rr_queue demo_rr 0)). wcet (attr (task demo_rr t)) > 2 * uint (10::u32)"
    "rr_choice 10 0 demo_rr (run (rr_queue demo_rr 0)) = Some 0" by code_simp+
  with rr_pick_next_correct [of demo_rr 10 0 1000] show ?thesis by auto
qed

lemma rr_wake_aux:
  assumes "sched (task s t) = Some p"
  shows "if policy (attr (task s t)) \<noteq> KSCHED_RR \<or> t \<notin> set (wake (tq s p 0))
     then rr_wake tmin (Some t) now s = Some (- EINVAL, s)
     else \<exists>s'. rr_wake tmin (Some t) now s = Some (0, s') \<and> run (tq s' p 0) = t # run (tq s p 0)
       \<and> wake (tq s' p 0) = remove1 t (wake (tq s p 0)) \<and> state (task s' t) = TASK_RUN
       \<and> runtime (task s' t) = wcet (attr (task s' t))
       \<and> (0 < priority (attr (task s t)) \<and> 0 < tmin \<and> tmin < 2 ^ 27 \<longrightarrow>
            wcet (attr (task s' t)) = uint (priority (attr (task s t))) * (16 * uint tmin) \<and> wcet (attr (task s' t)) > 2 * uint tmin)
       \<and> (\<forall>t'. t' \<noteq> t \<longrightarrow> task s' t' = task s t')"
proof (cases "policy (attr (task s t)) \<noteq> KSCHED_RR \<or> t \<notin> set (wake (tq s p 0))")
  case True
  with assms show ?thesis by (auto simp: rr_wake_def find_None_iff)
next
  case False
  let ?x = "uint (priority (attr (task s t))) * (16 * uint tmin)"
  let ?s = "upd_queue p 0 (\<lambda>q. q\<lparr>wake := remove1 t (wake q), run := t # run q\<rparr>) (upd_task t (\<lambda>k. let w = s64 (uint (priority (attr k)) * (16 * uint tmin)) in
        k\<lparr>attr := (attr k)\<lparr>wcet := w\<rparr>, runtime := w, state := TASK_RUN\<rparr>) s)"
  have "(wake (tq s p 0)) \<noteq> []" "List.find (\<lambda>e. e = t) (wake (tq s p 0)) \<noteq> None" using False by (auto simp: find_None_iff)
  then have "rr_wake tmin (Some t) now s = Some (0, ?s)" using assms False by (simp add: rr_wake_def Let_def)
  moreover have "s64 ?x = ?x \<and> ?x > 2 * uint tmin" if "0 < priority (attr (task s t))" "0 < tmin" "tmin < 2 ^ 27"
  proof -
    have t: "0 < uint tmin" "uint tmin \<le> 2 ^ 27 - 1" using that(2,3) by (simp_all add: word_less_def)
    have p: "1 \<le> uint (priority (attr (task s t)))" "uint (priority (attr (task s t))) \<le> 2 ^ 32 - 1"
      using that(1) unsigned_less [where 'a = int, of "priority (attr (task s t))"] by (simp_all add: word_less_def)
    have "?x \<le> (2 ^ 32 - 1) * (16 * (2 ^ 27 - 1))" using p t by (intro mult_mono) auto
    moreover have "1 * (16 * uint tmin) \<le> ?x" using p t by (intro mult_right_mono) auto
    moreover define x where "x = ?x"
    ultimately have "x \<le> 9223371965987815440" "16 * uint tmin \<le> x" by simp_all
    with t have "- (2 ^ 63) \<le> x" "x < 2 ^ 63" "2 * uint tmin < x" by simp_all
    then have "- (2 ^ 63) \<le> ?x" "?x < 2 ^ 63" "2 * uint tmin < ?x" unfolding x_def .
    then show ?thesis by (simp add: signed_take_bit_int_eq_self)
  qed
  ultimately show ?thesis using False by (auto simp: Let_def)
qed

text \<open>\<^verbatim>\<open>rr_wake\<close> refuses a task that is not a round robin task in the wake queue.  Otherwise the task becomes runnable at
  the head of the run queue with a time slice of 16 ticks for each unit of its priority, which is more than the
  two ticks the selection needs as soon as the priority is not zero.\<close>

theorem rr_wake_correct:
  assumes "sched (task s t) = Some p"
  shows "if policy (attr (task s t)) \<noteq> KSCHED_RR \<or> t \<notin> set (wake (tq s p 0))
     then rr_wake tmin (Some t) now s = Some (- EINVAL, s)
     else \<exists>s'. rr_wake tmin (Some t) now s = Some (0, s') \<and> run (tq s' p 0) = t # run (tq s p 0)
       \<and> wake (tq s' p 0) = remove1 t (wake (tq s p 0)) \<and> state (task s' t) = TASK_RUN
       \<and> runtime (task s' t) = wcet (attr (task s' t))
       \<and> (0 < priority (attr (task s t)) \<and> 0 < tmin \<and> tmin < 2 ^ 27 \<longrightarrow>
            wcet (attr (task s' t)) = uint (priority (attr (task s t))) * (16 * uint tmin) \<and> wcet (attr (task s' t)) > 2 * uint tmin)
       \<and> (\<forall>t'. t' \<noteq> t \<longrightarrow> task s' t' = task s t')"
  using rr_wake_aux [OF assms] .

theorem rr_wake_correct_witness:
  "\<exists>s'. rr_wake 10 (Some 0) 0 (upd_queue KSCHED_RR 0 (\<lambda>q. q\<lparr>wake := [0], run := []\<rparr>) demo_rr) = Some (0, s')
     \<and> run (rr_queue s' 0) = [0] \<and> state (task s' 0) = TASK_RUN"
proof -
  let ?s = "upd_queue KSCHED_RR 0 (\<lambda>q. q\<lparr>wake := [0], run := []\<rparr>) demo_rr"
  have e: "sched (task ?s 0) = Some KSCHED_RR" "policy (attr (task ?s 0)) = KSCHED_RR" by code_simp+
  from rr_wake_correct [OF e(1), of 10 0] e(2) show ?thesis by auto
qed

text \<open>One round of the cleanup thread frees exactly the tasks that were on its list of the tasks to clean, and puts the dead
  tasks there; a task is thus freed only after the thread has yielded since the task died.\<close>

theorem rr_cleanup_correct:
  assumes "\<forall>t \<in> set (clean (rr_queue s cpu)). \<not> has_flag (task s t) TASK_NO_CLEAN"
  shows "freed (rr_cleanup cpu s) = rev (clean (rr_queue s cpu)) @ freed s
     \<and> clean (rr_queue (rr_cleanup cpu s) cpu) = dead (rr_queue s cpu) \<and> dead (rr_queue (rr_cleanup cpu s) cpu) = []
     \<and> run (rr_queue (rr_cleanup cpu s) cpu) = run (rr_queue s cpu)"
proof -
  let ?f = "\<lambda>s t. kthread_free t (upd_queue KSCHED_RR cpu (\<lambda>q. q\<lparr>clean := remove1 t (clean q)\<rparr>) s)"
  let ?g = "\<lambda>s t. upd_queue KSCHED_RR cpu (\<lambda>q. q\<lparr>dead := remove1 t (dead q), clean := clean q @ [t]\<rparr>) s"
  have f: "freed (foldl ?f s ts) = rev ts @ freed s \<and> clean (rr_queue (foldl ?f s ts) cpu) = []
      \<and> dead (rr_queue (foldl ?f s ts) cpu) = dead (rr_queue s cpu) \<and> run (rr_queue (foldl ?f s ts) cpu) = run (rr_queue s cpu)"
    if "clean (rr_queue s cpu) = ts" "\<forall>t \<in> set ts. \<not> has_flag (task s t) TASK_NO_CLEAN" for s ts
    using that
  proof (induction ts arbitrary: s)
    case (Cons t ts)
    then have "clean (rr_queue (?f s t) cpu) = ts" "\<forall>t' \<in> set ts. \<not> has_flag (task (?f s t) t') TASK_NO_CLEAN" by auto
    from Cons.IH [OF this] Cons.prems show ?case by (auto simp: kthread_free_def)
  qed simp
  have g: "freed (foldl ?g s ts) = freed s \<and> clean (rr_queue (foldl ?g s ts) cpu) = clean (rr_queue s cpu) @ ts
      \<and> dead (rr_queue (foldl ?g s ts) cpu) = [] \<and> run (rr_queue (foldl ?g s ts) cpu) = run (rr_queue s cpu)"
    if "dead (rr_queue s cpu) = ts" for s ts
    using that
  proof (induction ts arbitrary: s)
    case (Cons t ts)
    then have "dead (rr_queue (?g s t) cpu) = ts" by simp
    from Cons.IH [OF this] show ?case by simp
  qed simp
  from f [OF refl assms] show ?thesis
    unfolding rr_cleanup_def Let_def using g [of "foldl ?f s (clean (rr_queue s cpu))", OF refl] by simp
qed

theorem rr_cleanup_correct_witness:
  "freed (rr_cleanup 0 (upd_queue KSCHED_RR 0 (\<lambda>q. q\<lparr>clean := [7, 8], dead := [1]\<rparr>) demo_rr)) = [8, 7]"
proof -
  let ?s = "upd_queue KSCHED_RR 0 (\<lambda>q. q\<lparr>clean := [7, 8], dead := [1]\<rparr>) demo_rr"
  have "\<forall>t \<in> set (clean (rr_queue ?s 0)). \<not> has_flag (task ?s t) TASK_NO_CLEAN" "freed ?s = []" by code_simp+
  with rr_cleanup_correct [of ?s 0] show ?thesis by simp
qed

end
