(* ===== verification/Sched_Core.thy ===== *)
theory Sched_Core
  imports Edf_Spec Rr
begin

text \<open>
  The core scheduler, \<^verbatim>\<open>kernel/sched/core.c\<close>, and the thread operations of \<^verbatim>\<open>kernel/kthread.c\<close> that drive
  it.  A scheduler is named by its policy; its function pointers are dispatched on the name.  The configuration
  (\<^verbatim>\<open>CONFIG_SMP_CPUS_MAX\<close>, the minimum tick period, the rounding of doubles) is a record, the readings of the clock
  during one call are a function \<open>clk\<close>.  A \<^verbatim>\<open>BUG\<close> or an access through \<^verbatim>\<open>NULL\<close> is \<^term>\<open>None\<close>.
\<close>

section \<open>State and dispatch\<close>

record sched_cfg =
  tmin :: u32
  cpus :: nat
  rnd :: "rat \<Rightarrow> rat"

record core_st =
  st :: sched_st
  kernel_schedulers :: "ksched_policy list"
  sched_enabled :: "int \<Rightarrow> bool"
  cpu_load :: "int \<Rightarrow> u8"
  current :: "int \<Rightarrow> tid option"
  tick_next :: "ktime option"
  resched :: "int list"

definition sched_priority :: "ksched_policy \<Rightarrow> nat" where
  "sched_priority p = (case p of KSCHED_EDF \<Rightarrow> 1 | _ \<Rightarrow> 0)"

definition pick_next_task ::
    "sched_cfg \<Rightarrow> ksched_policy \<Rightarrow> int \<Rightarrow> ktime \<Rightarrow> tid option \<Rightarrow> sched_st \<Rightarrow> (tid option \<times> sched_st) option" where
  "pick_next_task cfg p cpu now this s =
     (case p of
        KSCHED_EDF \<Rightarrow> edf_pick_next (tmin cfg) cpu now this s
      | KSCHED_RR \<Rightarrow> rr_pick_next (tmin cfg) cpu now s
      | KSCHED_OTHER \<Rightarrow> None)"

definition timeslice_ns :: "ksched_policy \<Rightarrow> task_struct \<Rightarrow> ktime option" where
  "timeslice_ns p t =
     (case p of
        KSCHED_EDF \<Rightarrow> Some (edf_timeslice_ns t)
      | KSCHED_RR \<Rightarrow> Some (rr_timeslice_ns t)
      | KSCHED_OTHER \<Rightarrow> None)"

definition task_ready_ns :: "sched_cfg \<Rightarrow> ksched_policy \<Rightarrow> int \<Rightarrow> ktime \<Rightarrow> sched_st \<Rightarrow> ktime option" where
  "task_ready_ns cfg p cpu now s =
     (case p of
        KSCHED_EDF \<Rightarrow> Some (edf_task_ready_ns (tmin cfg) cpu now s)
      | KSCHED_RR \<Rightarrow> Some (rr_task_ready_ns cpu now s)
      | KSCHED_OTHER \<Rightarrow> None)"

definition check_sched_attr :: "sched_cfg \<Rightarrow> ksched_policy \<Rightarrow> sched_attr \<Rightarrow> (int \<times> sched_attr) option" where
  "check_sched_attr cfg p a =
     (case p of
        KSCHED_EDF \<Rightarrow> Some (edf_check_sched_attr (tmin cfg) (Some a), a)
      | KSCHED_RR \<Rightarrow> (case rr_check_sched_attr (Some a) of (e, Some a') \<Rightarrow> Some (e, a') | (e, None) \<Rightarrow> None)
      | KSCHED_OTHER \<Rightarrow> None)"

definition enqueue_task :: "sched_cfg \<Rightarrow> ksched_policy \<Rightarrow> tid \<Rightarrow> sched_st \<Rightarrow> (int \<times> sched_st) option" where
  "enqueue_task cfg p t s =
     (case p of
        KSCHED_EDF \<Rightarrow> edf_enqueue (rnd cfg) (cpus cfg) t s
      | KSCHED_RR \<Rightarrow> rr_enqueue t s
      | KSCHED_OTHER \<Rightarrow> None)"

definition wake_task :: "sched_cfg \<Rightarrow> ksched_policy \<Rightarrow> tid \<Rightarrow> ktime \<Rightarrow> sched_st \<Rightarrow> (int \<times> sched_st) option" where
  "wake_task cfg p t now s =
     (case p of
        KSCHED_EDF \<Rightarrow> edf_wake (tmin cfg) (Some t) now s
      | KSCHED_RR \<Rightarrow> rr_wake (tmin cfg) (Some t) now s
      | KSCHED_OTHER \<Rightarrow> None)"

section \<open>Scheduling\<close>

definition sched_update_runtime :: "tid \<Rightarrow> ktime \<Rightarrow> sched_st \<Rightarrow> sched_st" where
  "sched_update_runtime t now s =
     upd_task t (\<lambda>k. let rt = ktime_sub now (exec_start k) in
       k\<lparr>exec_stop := now, runtime := ktime_sub (runtime k) rt, total := ktime_add (total k) rt,
         state := (if state k = TASK_BUSY then TASK_RUN else state k)\<rparr>) s"

fun find_next :: "sched_cfg \<Rightarrow> ksched_policy list \<Rightarrow> int \<Rightarrow> ktime \<Rightarrow> tid option \<Rightarrow> sched_st \<Rightarrow> (tid \<times> sched_st) option" where
  "find_next cfg [] cpu now this s = None"
| "find_next cfg (p # ps) cpu now this s =
     do { (nx, s) \<leftarrow> pick_next_task cfg p cpu now this s;
          case nx of Some t \<Rightarrow> Some (t, s) | None \<Rightarrow> find_next cfg ps cpu now this s }"

fun limit_slice :: "sched_cfg \<Rightarrow> ksched_policy list \<Rightarrow> int \<Rightarrow> ktime \<Rightarrow> sched_st \<Rightarrow> ksched_policy \<Rightarrow> ktime \<Rightarrow> ktime option" where
  "limit_slice cfg [] cpu now s np slc = Some slc"
| "limit_slice cfg (p # ps) cpu now s np slc =
     do { ready \<leftarrow> task_ready_ns cfg p cpu now s;
          if ready < 0 then None
          else if ready = 0 \<or> ready \<ge> slc then limit_slice cfg ps cpu now s np slc
          else if sched_priority p \<ge> sched_priority np then limit_slice cfg ps cpu now s np ready
          else Some slc }"

definition sched_find_next_task ::
    "sched_cfg \<Rightarrow> core_st \<Rightarrow> int \<Rightarrow> ktime \<Rightarrow> (tid \<times> ktime \<times> core_st) option" where
  "sched_find_next_task cfg c cpu now =
     do { (t, s) \<leftarrow> find_next cfg (kernel_schedulers c) cpu now (current c cpu) (st c);
          np \<leftarrow> sched (task s t);
          slc \<leftarrow> timeslice_ns np (task s t);
          slc \<leftarrow> limit_slice cfg (kernel_schedulers c) cpu now s np slc;
          Some (t, slc, c\<lparr>st := s\<rparr>) }"

fun schedule_loop :: "nat \<Rightarrow> sched_cfg \<Rightarrow> int \<Rightarrow> (nat \<Rightarrow> ktime) \<Rightarrow> nat \<Rightarrow> core_st \<Rightarrow> (tid \<times> ktime \<times> ktime \<times> core_st) option" where
  "schedule_loop 0 cfg cpu clk i c = None"
| "schedule_loop (Suc n) cfg cpu clk i c =
     do { (t, slc, c) \<leftarrow> sched_find_next_task cfg c cpu (clk i);
          if slc > uint (tmin cfg) then Some (t, slc, clk i, c)
          else schedule_loop n cfg cpu clk (Suc i) c }"

definition schedule :: "nat \<Rightarrow> sched_cfg \<Rightarrow> int \<Rightarrow> (nat \<Rightarrow> ktime) \<Rightarrow> core_st \<Rightarrow> core_st option" where
  "schedule n cfg cpu clk c =
     (if \<not> sched_enabled c cpu then Some c
      else case current c cpu of
        None \<Rightarrow> Some c
      | Some cur \<Rightarrow>
          do { let c = c\<lparr>st := sched_update_runtime cur (clk 0) (st c)\<rparr>;
               (t, slc, now, c) \<leftarrow> schedule_loop n cfg cpu clk 0 c;
               Some (c\<lparr>st := upd_task t (\<lambda>k. k\<lparr>exec_start := now\<rparr>) (st c),
                       tick_next := Some (ktime_sub slc (uint (tmin cfg))),
                       current := (current c)(cpu := Some t)\<rparr>) })"

definition sched_yield :: "nat \<Rightarrow> sched_cfg \<Rightarrow> int \<Rightarrow> (nat \<Rightarrow> ktime) \<Rightarrow> core_st \<Rightarrow> core_st option" where
  "sched_yield n cfg cpu clk c =
     do { cur \<leftarrow> current c cpu;
          schedule n cfg cpu clk (c\<lparr>st := upd_task cur (\<lambda>k. k\<lparr>runtime := 0\<rparr>) (st c)\<rparr>) }"

definition sched_maybe_yield :: "nat \<Rightarrow> sched_cfg \<Rightarrow> int \<Rightarrow> (nat \<Rightarrow> ktime) \<Rightarrow> u32 \<Rightarrow> core_st \<Rightarrow> core_st option" where
  "sched_maybe_yield n cfg cpu clk frac_wcet c =
     do { cur \<leftarrow> current c cpu;
          q \<leftarrow> c_div (wcet (attr (task (st c) cur))) (uint frac_wcet);
          if runtime (task (st c) cur) > q
          then schedule n cfg cpu clk (c\<lparr>st := upd_task cur (\<lambda>k. k\<lparr>runtime := 0\<rparr>) (st c)\<rparr>)
          else Some c }"

section \<open>Tasks and attributes\<close>

definition sched_wake :: "sched_cfg \<Rightarrow> tid option \<Rightarrow> ktime \<Rightarrow> core_st \<Rightarrow> (int \<times> core_st) option" where
  "sched_wake cfg tp now c =
     (case tp of
        None \<Rightarrow> Some (- EINVAL, c)
      | Some t \<Rightarrow>
          (case sched (task (st c) t) of
             None \<Rightarrow> Some (- EINVAL, c)
           | Some p \<Rightarrow> do { (e, s) \<leftarrow> wake_task cfg p t now (st c); Some (e, c\<lparr>st := s\<rparr>) }))"

definition sched_enqueue :: "sched_cfg \<Rightarrow> tid option \<Rightarrow> core_st \<Rightarrow> (int \<times> core_st) option" where
  "sched_enqueue cfg tp c =
     (case tp of
        None \<Rightarrow> Some (- EINVAL, c)
      | Some t \<Rightarrow>
          (case sched (task (st c) t) of
             None \<Rightarrow> Some (- EINVAL, c)
           | Some p \<Rightarrow>
               do { (e, a) \<leftarrow> check_sched_attr cfg p (attr (task (st c) t));
                    let c = c\<lparr>st := upd_task t (\<lambda>k. k\<lparr>attr := a\<rparr>) (st c)\<rparr>;
                    if e \<noteq> 0 then Some (e, c)
                    else do { (e, s) \<leftarrow> enqueue_task cfg p t (st c); Some (e, c\<lparr>st := s\<rparr>) } }))"

text \<open>The result also holds the caller's attributes, which the check may correct.\<close>

definition sched_set_attr ::
    "sched_cfg \<Rightarrow> tid option \<Rightarrow> sched_attr option \<Rightarrow> core_st \<Rightarrow> (int \<times> sched_attr option \<times> core_st) option" where
  "sched_set_attr cfg tp ap c =
     (case tp of
        None \<Rightarrow> None
      | Some t \<Rightarrow>
          let fail = (\<lambda>ap c. Some (- EINVAL, ap, c\<lparr>st := upd_task t (\<lambda>k. k\<lparr>sched := None\<rparr>) (st c)\<rparr>)) in
          (case ap of
             None \<Rightarrow> fail None c
           | Some a \<Rightarrow>
               if policy a \<in> set (kernel_schedulers c) then
                 do { let c = c\<lparr>st := upd_task t (\<lambda>k. k\<lparr>attr := a\<rparr>) (st c)\<rparr>;
                      (e, a') \<leftarrow> check_sched_attr cfg (policy a) a;
                      if e \<noteq> 0 then fail (Some a') c
                      else Some (0, Some a', c\<lparr>st := upd_task t (\<lambda>k. k\<lparr>sched := Some (policy a)\<rparr>) (st c)\<rparr>) }
               else fail (Some a) c))"

definition sched_get_attr :: "tid option \<Rightarrow> core_st \<Rightarrow> int \<times> sched_attr option" where
  "sched_get_attr tp c =
     (case tp of None \<Rightarrow> (- EINVAL, None) | Some t \<Rightarrow> (0, Some (attr (task (st c) t))))"

definition sched_set_policy_default :: "sched_cfg \<Rightarrow> tid option \<Rightarrow> core_st \<Rightarrow> (int \<times> core_st) option" where
  "sched_set_policy_default cfg tp c =
     do { (e, _, c) \<leftarrow> sched_set_attr cfg tp
            (Some \<lparr>policy = KSCHED_RR, priority = 100, period = 0, wcet = 0, deadline_rel = 0\<rparr>) c;
          Some (e, c) }"

section \<open>Registration\<close>

text \<open>
  The bubble sort of \<^verbatim>\<open>sched_register\<close>.  The successor of the last scheduler is the list head, and
  \<^verbatim>\<open>list_next_entry\<close> makes it a scheduler whose priority is whatever the memory in front of the head holds:
  the parameter \<open>junk\<close>.  If that is larger, the head itself is exchanged and the list is
  corrupted, \<^term>\<open>None\<close>.
\<close>

fun swap_with_next :: "'a \<Rightarrow> 'a list \<Rightarrow> 'a list" where
  "swap_with_next x (y # z # zs) = (if x = y then z # y # zs else y # swap_with_next x (z # zs))"
| "swap_with_next x xs = xs"

fun bubble_pass :: "nat \<Rightarrow> ('a \<Rightarrow> nat) \<Rightarrow> nat \<Rightarrow> 'a list \<Rightarrow> 'a option \<Rightarrow> bool \<Rightarrow> ('a list \<times> bool) option" where
  "bubble_pass n prio junk xs None swp = Some (xs, swp)"
| "bubble_pass 0 prio junk xs (Some e) swp = None"
| "bubble_pass (Suc n) prio junk xs (Some e) swp =
     (let tmp = next_of xs e in
      case tmp of
        None \<Rightarrow> if prio e < junk then None else bubble_pass n prio junk xs None swp
      | Some nx \<Rightarrow>
          if prio e < prio nx then bubble_pass n prio junk (swap_with_next e xs) tmp True
          else bubble_pass n prio junk xs tmp swp)"

fun bubble_sort :: "nat \<Rightarrow> ('a \<Rightarrow> nat) \<Rightarrow> nat \<Rightarrow> 'a list \<Rightarrow> 'a list option" where
  "bubble_sort 0 prio junk xs = None"
| "bubble_sort (Suc n) prio junk xs =
     do { (ys, swp) \<leftarrow> bubble_pass (2 * length xs) prio junk xs (first_of xs) False;
          if swp then bubble_sort n prio junk ys else Some ys }"

definition sched_register :: "nat \<Rightarrow> ksched_policy option \<Rightarrow> core_st \<Rightarrow> (int \<times> core_st) option" where
  "sched_register junk sp c =
     (case sp of
        None \<Rightarrow> Some (- EINVAL, c)
      | Some p \<Rightarrow>
          if p \<in> set (kernel_schedulers c) then Some (- EPERM, c)
          else do { ys \<leftarrow> bubble_sort (Suc (Suc (length (kernel_schedulers c)))) sched_priority junk (kernel_schedulers c @ [p]);
                    Some (0, c\<lparr>kernel_schedulers := ys\<rparr>) })"

definition sched_enable :: "int \<Rightarrow> core_st \<Rightarrow> core_st" where
  "sched_enable cpu c = c\<lparr>sched_enabled := (sched_enabled c)(cpu := True)\<rparr>"

definition sched_disable :: "int \<Rightarrow> core_st \<Rightarrow> core_st" where
  "sched_disable cpu c = c\<lparr>sched_enabled := (sched_enabled c)(cpu := False)\<rparr>"

definition sched_set_cpu_load :: "sched_cfg \<Rightarrow> int \<Rightarrow> u8 \<Rightarrow> core_st \<Rightarrow> core_st" where
  "sched_set_cpu_load cfg cpu load c =
     (if cpu \<ge> int (cpus cfg) then c else c\<lparr>cpu_load := (cpu_load c)(cpu := load)\<rparr>)"

definition sched_get_cpu_load :: "sched_cfg \<Rightarrow> int \<Rightarrow> core_st \<Rightarrow> u8" where
  "sched_get_cpu_load cfg cpu c = (if cpu \<ge> int (cpus cfg) then 0 else cpu_load c cpu)"

section \<open>Threads (\<^verbatim>\<open>kernel/kthread.c\<close>)\<close>

definition kthread_set_sched_edf :: "sched_cfg \<Rightarrow> tid \<Rightarrow> u32 \<Rightarrow> u32 \<Rightarrow> u32 \<Rightarrow> core_st \<Rightarrow> (int \<times> core_st) option" where
  "kthread_set_sched_edf cfg t period_us deadline_rel_us wcet_us c =
     do { a \<leftarrow> snd (sched_get_attr (Some t) c);
          (e, _, c) \<leftarrow> sched_set_attr cfg (Some t)
            (Some (a\<lparr>policy := KSCHED_EDF, period := us_to_ktime (uint period_us),
                     deadline_rel := us_to_ktime (uint deadline_rel_us), wcet := us_to_ktime (uint wcet_us)\<rparr>)) c;
          Some (e, c) }"

definition kthread_set_sched_rr :: "sched_cfg \<Rightarrow> tid \<Rightarrow> u32 \<Rightarrow> core_st \<Rightarrow> (int \<times> core_st) option" where
  "kthread_set_sched_rr cfg t prio c =
     do { a \<leftarrow> snd (sched_get_attr (Some t) c);
          (e, _, c) \<leftarrow> sched_set_attr cfg (Some t) (Some (a\<lparr>policy := KSCHED_RR, priority := prio\<rparr>)) c;
          Some (e, c) }"

definition kthread_wake_up :: "sched_cfg \<Rightarrow> tid option \<Rightarrow> ktime \<Rightarrow> core_st \<Rightarrow> (int \<times> core_st) option" where
  "kthread_wake_up cfg tp now c =
     (case tp of
        None \<Rightarrow> Some (- EINVAL, c)
      | Some t \<Rightarrow>
          if state (task (st c) t) \<noteq> TASK_NEW then Some (- EINVAL, c)
          else do {
            (e, c) \<leftarrow> sched_enqueue cfg (Some t) c;
            if e \<noteq> 0 then Some (e, c)
            else do {
              (_, c) \<leftarrow> sched_wake cfg (Some t) now c;
              let c = c\<lparr>st := upd_task t (\<lambda>k. k\<lparr>wakeup_first := now\<rparr>) (st c)\<rparr>;
              Some (0, if on_cpu (task (st c) t) \<noteq> KTHREAD_CPU_AFFINITY_NONE
                       then c\<lparr>resched := resched c @ [on_cpu (task (st c) t)]\<rparr> else c) } })"

definition kthread_get_total_runtime :: "int \<Rightarrow> core_st \<Rightarrow> ktime option" where
  "kthread_get_total_runtime cpu c = map_option (\<lambda>t. total (task (st c) t)) (current c cpu)"

definition kthread_clear_total_runtime :: "int \<Rightarrow> core_st \<Rightarrow> core_st option" where
  "kthread_clear_total_runtime cpu c =
     map_option (\<lambda>t. c\<lparr>st := upd_task t (\<lambda>k. k\<lparr>total := 0\<rparr>) (st c)\<rparr>) (current c cpu)"

section \<open>The contract of a scheduler\<close>

text \<open>
  What the core relies on: in a consistent state a scheduler's selection returns, a task it selects is in its
  queue, belongs to it and is marked busy, and the time until a task becomes ready is never negative.
\<close>

locale sched_class =
  fixes cfg :: sched_cfg
    and p :: ksched_policy
    and pick :: "int \<Rightarrow> ktime \<Rightarrow> tid option \<Rightarrow> sched_st \<Rightarrow> (tid option \<times> sched_st) option"
    and ready :: "int \<Rightarrow> ktime \<Rightarrow> sched_st \<Rightarrow> ktime"
    and timeslice :: "task_struct \<Rightarrow> ktime"
    and ok :: "tid option \<Rightarrow> int \<Rightarrow> sched_st \<Rightarrow> bool"
    and queue :: "int \<Rightarrow> sched_st \<Rightarrow> tid set"
  assumes registered: "pick_next_task cfg p = pick" "task_ready_ns cfg p cpu now s = Some (ready cpu now s)"
      "timeslice_ns p k = Some (timeslice k)"
    and pick_law: "ok this cpu s \<Longrightarrow> \<exists>r s'. pick cpu now this s = Some (r, s')
        \<and> (case r of None \<Rightarrow> True | Some t \<Rightarrow> t \<in> queue cpu s \<and> sched (task s' t) = Some p \<and> state (task s' t) = TASK_BUSY)"
    and ready_law: "0 \<le> ready cpu now s"
begin

lemma pick_cases:
  assumes "ok this cpu s"
  obtains (idle) s' where "pick cpu now this s = Some (None, s')"
  | (busy) t s' where "pick cpu now this s = Some (Some t, s')" "t \<in> queue cpu s" "sched (task s' t) = Some p"
      "state (task s' t) = TASK_BUSY"
proof -
  from pick_law [OF assms, of now] obtain r s' where "pick cpu now this s = Some (r, s')"
    "case r of None \<Rightarrow> True | Some t \<Rightarrow> t \<in> queue cpu s \<and> sched (task s' t) = Some p \<and> state (task s' t) = TASK_BUSY" by blast
  then show thesis by (cases r) (auto intro: that)
qed

lemma find_next_here:
  "pick cpu now this s = Some (Some t, s') \<Longrightarrow> find_next cfg (p # ps) cpu now this s = Some (t, s')"
  "pick cpu now this s = Some (None, s') \<Longrightarrow> find_next cfg (p # ps) cpu now this s = find_next cfg ps cpu now this s'"
  by (simp_all add: registered)

lemma limit_slice_here:
  "limit_slice cfg (p # ps) cpu now s np slc =
     (if ready cpu now s = 0 \<or> ready cpu now s \<ge> slc then limit_slice cfg ps cpu now s np slc
      else if sched_priority p \<ge> sched_priority np then limit_slice cfg ps cpu now s np (ready cpu now s) else Some slc)"
  using ready_law [of cpu now s] by (simp add: registered)

end

definition edf_ok :: "tid option \<Rightarrow> int \<Rightarrow> sched_st \<Rightarrow> bool" where
  "edf_ok this cpu s \<longleftrightarrow> distinct (run (edf_queue s cpu)) \<and> (\<forall>t \<in> set (run (edf_queue s cpu)). sched (task s t) = Some KSCHED_EDF)
     \<and> (run (edf_queue s cpu) = [] \<or> (\<exists>t \<in> set (run (edf_queue s cpu)). kept this (task s t) t))"

definition rr_ok :: "u32 \<Rightarrow> sched_st \<Rightarrow> bool" where
  "rr_ok tm s \<longleftrightarrow> distinct (run (rr_queue s 0))
     \<and> (\<forall>t \<in> set (run (rr_queue s 0)). sched (task s t) = Some KSCHED_RR \<and> wcet (attr (task s t)) > 2 * uint tm)"

lemma edf_pick_frame:
  assumes "edf_ok this cpu s"
  shows "\<exists>r s'. edf_pick_next tm cpu now this s = Some (r, s') \<and> scan_inv s cpu this s'
     \<and> (case r of None \<Rightarrow> True | Some t \<Rightarrow> t \<in> set (run (edf_queue s cpu)) \<and> sched (task s' t) = Some KSCHED_EDF \<and> state (task s' t) = TASK_BUSY)"
proof (cases "run (edf_queue s cpu) = []")
  case True
  with assms show ?thesis by (auto simp: edf_pick_next_def scan_inv_def edf_ok_def)
next
  case False
  with assms have "distinct (run (edf_queue s cpu))" "\<exists>t \<in> set (run (edf_queue s cpu)). kept this (task s t) t"
    by (auto simp: edf_ok_def)
  from edf_pick_next_total [OF this, of tm now] obtain r s' where
    r: "edf_pick_next tm cpu now this s = Some (r, s')" "scan_inv s cpu this s'"
    "case r of None \<Rightarrow> True | Some t \<Rightarrow> t \<in> set (run (edf_queue s' cpu)) \<and> state (task s' t) = TASK_BUSY" by blast
  from r(2) have "set (run (edf_queue s' cpu)) \<subseteq> set (run (edf_queue s cpu))" "\<And>t. sched (task s' t) = sched (task s t)"
    by (simp_all add: scan_inv_def)
  with r assms show ?thesis by (auto simp: edf_ok_def split: option.splits)
qed

lemma rr_choice_elig:
  assumes "t \<in> set ts" "rr_elig cpu (task s t)"
  shows "\<exists>x. rr_choice tm cpu s ts = Some x"
proof -
  have "List.find (\<lambda>t. rr_elig cpu (task s t)) ts \<noteq> None" using assms by (auto simp: find_None_iff)
  then show ?thesis by (auto simp: rr_choice_def split: option.splits)
qed

lemma rr_choice_in: "rr_choice tm cpu s ts = Some x \<Longrightarrow> x \<in> set ts \<and> rr_elig cpu (task s x)"
  by (auto simp: rr_choice_def rr_fresh_def find_Some_iff split: option.splits)

lemma rr_pick_busy:
  assumes "rr_ok tm s"
  shows "\<exists>s'. rr_pick_next tm cpu now s = Some (rr_choice tm cpu s (run (rr_queue s 0)), s')
     \<and> (case rr_choice tm cpu s (run (rr_queue s 0)) of None \<Rightarrow> True | Some t \<Rightarrow> t \<in> set (run (rr_queue s 0))
          \<and> sched (task s' t) = Some KSCHED_RR \<and> state (task s' t) = TASK_BUSY \<and> 2 * uint tm < runtime (task s' t))
     \<and> (\<forall>t c. attr (task s' t) = attr (task s t) \<and> edf_queue s' c = edf_queue s c)"
proof -
  from assms have "distinct (run (rr_queue s 0))" "\<forall>t \<in> set (run (rr_queue s 0)). wcet (attr (task s t)) > 2 * uint tm"
    by (simp_all add: rr_ok_def)
  from rr_pick_total [OF this, of cpu now] obtain s1 s' where
    s: "rr_pick_next tm cpu now s = Some (rr_choice tm cpu s (run (rr_queue s 0)), s')" "rr_frame cpu s s1"
    "s' = (case rr_choice tm cpu s (run (rr_queue s 0)) of None \<Rightarrow> s1 | Some t \<Rightarrow> upd_task t (\<lambda>k. k\<lparr>state := TASK_BUSY\<rparr>) s1)"
    "\<forall>x. rr_choice tm cpu s (run (rr_queue s 0)) = Some x \<longrightarrow> 2 * uint tm < runtime (task s1 x)"
    by blast
  from s(2) have f: "\<And>t. sched (task s1 t) = sched (task s t)" "\<And>t. attr (task s1 t) = attr (task s t)"
    "\<And>c. edf_queue s1 c = edf_queue s c" by (simp_all add: rr_frame_def)
  show ?thesis
  proof (cases "rr_choice tm cpu s (run (rr_queue s 0))")
    case None
    with s f show ?thesis by simp
  next
    case (Some x)
    from rr_choice_in [OF Some] assms have "x \<in> set (run (rr_queue s 0))" "sched (task s x) = Some KSCHED_RR"
      by (auto simp: rr_ok_def)
    moreover have "attr (task s' t) = attr (task s t)" for t using s(3) Some f by (cases "t = x") simp_all
    ultimately show ?thesis using s(1,3,4) f Some by simp
  qed
qed

interpretation edf_class: sched_class cfg KSCHED_EDF "edf_pick_next (tmin cfg)" "edf_task_ready_ns (tmin cfg)"
    edf_timeslice_ns edf_ok "\<lambda>cpu s. set (run (edf_queue s cpu))" for cfg
proof
  fix this cpu s now
  assume "edf_ok this cpu s"
  from edf_pick_frame [OF this] show "\<exists>r s'. edf_pick_next (tmin cfg) cpu now this s = Some (r, s')
        \<and> (case r of None \<Rightarrow> True | Some t \<Rightarrow> t \<in> set (run (edf_queue s cpu)) \<and> sched (task s' t) = Some KSCHED_EDF
             \<and> state (task s' t) = TASK_BUSY)" by blast
next
  show "0 \<le> edf_task_ready_ns (tmin cfg) cpu now s" for cpu now s
    using ready_bounds [of "tmin cfg" cpu now s] by simp
qed (auto simp: pick_next_task_def task_ready_ns_def timeslice_ns_def fun_eq_iff)

interpretation rr_class: sched_class cfg KSCHED_RR "\<lambda>cpu now _. rr_pick_next (tmin cfg) cpu now" rr_task_ready_ns
    rr_timeslice_ns "\<lambda>_ _. rr_ok (tmin cfg)" "\<lambda>cpu s. set (run (rr_queue s 0))" for cfg
proof
  fix this :: "tid option" and cpu s now
  assume "rr_ok (tmin cfg) s"
  from rr_pick_busy [OF this, of cpu now] obtain s' where
    "rr_pick_next (tmin cfg) cpu now s = Some (rr_choice (tmin cfg) cpu s (run (rr_queue s 0)), s')"
    "case rr_choice (tmin cfg) cpu s (run (rr_queue s 0)) of None \<Rightarrow> True | Some t \<Rightarrow> t \<in> set (run (rr_queue s 0))
          \<and> sched (task s' t) = Some KSCHED_RR \<and> state (task s' t) = TASK_BUSY \<and> 2 * uint (tmin cfg) < runtime (task s' t)" by blast
  then show "\<exists>r s'. rr_pick_next (tmin cfg) cpu now s = Some (r, s')
        \<and> (case r of None \<Rightarrow> True | Some t \<Rightarrow> t \<in> set (run (rr_queue s 0)) \<and> sched (task s' t) = Some KSCHED_RR
             \<and> state (task s' t) = TASK_BUSY)"
    by (auto split: option.splits)
qed (auto simp: pick_next_task_def task_ready_ns_def timeslice_ns_def rr_task_ready_ns_def fun_eq_iff)


section \<open>Properties\<close>

lemma limit_slice_edf_rr:
  "limit_slice cfg [KSCHED_EDF, KSCHED_RR] cpu now s np slc =
     Some (min slc (edf_task_ready_ns (tmin cfg) cpu now s))"
proof -
  have "0 < edf_task_ready_ns (tmin cfg) cpu now s" using ready_bounds [of "tmin cfg" cpu now s] by simp
  then show ?thesis
    unfolding edf_class.limit_slice_here rr_class.limit_slice_here
    by (auto simp: rr_task_ready_ns_def sched_priority_def min_def split: ksched_policy.splits)
qed

lemma find_next_edf_rr:
  assumes e: "edf_ok this cpu s" and r: "rr_ok (tmin cfg) s"
    and dis: "set (run (edf_queue s cpu)) \<inter> set (run (rr_queue s 0)) = {}"
    and x: "x \<in> set (run (rr_queue s 0))" "rr_elig cpu (task s x)"
  shows "\<exists>t p s'. find_next cfg [KSCHED_EDF, KSCHED_RR] cpu now this s = Some (t, s') \<and> state (task s' t) = TASK_BUSY
     \<and> sched (task s' t) = Some p
     \<and> (p = KSCHED_EDF \<and> t \<in> set (run (edf_queue s cpu)) \<and> edf_pick_next (tmin cfg) cpu now this s = Some (Some t, s')
        \<or> p = KSCHED_RR \<and> t \<in> set (run (rr_queue s 0)) \<and> 2 * uint (tmin cfg) < runtime (task s' t)
           \<and> (\<exists>s1. edf_pick_next (tmin cfg) cpu now this s = Some (None, s1) \<and> rr_choice (tmin cfg) cpu s1 (run (rr_queue s 0)) = Some t))"
proof -
  from edf_pick_frame [OF e, of "tmin cfg" now] obtain nx s1 where
    s1: "edf_pick_next (tmin cfg) cpu now this s = Some (nx, s1)" "scan_inv s cpu this s1"
    "case nx of None \<Rightarrow> True | Some t \<Rightarrow> t \<in> set (run (edf_queue s cpu)) \<and> sched (task s1 t) = Some KSCHED_EDF
       \<and> state (task s1 t) = TASK_BUSY" by blast
  show ?thesis
  proof (cases nx)
    case (Some t)
    with s1 edf_class.find_next_here(1) show ?thesis by fastforce
  next
    case None
    from s1(2) have f: "rr_queue s1 0 = rr_queue s 0" "\<And>t. sched (task s1 t) = sched (task s t) \<and> attr (task s1 t) = attr (task s t)"
      "on_cpu (task s1 x) = on_cpu (task s x)"
      by (simp_all add: scan_inv_def)
    have "x \<notin> set (run (edf_queue s cpu))" using dis x(1) by blast
    with s1(2) have "state (task s1 x) = state (task s x)" by (simp add: scan_inv_def)
    with x f have x1: "x \<in> set (run (rr_queue s1 0))" "rr_elig cpu (task s1 x)" by (simp_all add: rr_elig_def)
    from rr_choice_elig [OF x1, of "tmin cfg"] obtain t where t: "rr_choice (tmin cfg) cpu s1 (run (rr_queue s1 0)) = Some t" by blast
    from r f have "rr_ok (tmin cfg) s1" by (simp add: rr_ok_def)
    from rr_pick_busy [OF this, of cpu now] t obtain s' where
      s': "rr_pick_next (tmin cfg) cpu now s1 = Some (Some t, s')" "t \<in> set (run (rr_queue s1 0))"
        "sched (task s' t) = Some KSCHED_RR" "state (task s' t) = TASK_BUSY" "2 * uint (tmin cfg) < runtime (task s' t)" by auto
    from None s1(1) have "find_next cfg [KSCHED_EDF, KSCHED_RR] cpu now this s = Some (t, s')"
      by (simp add: edf_class.find_next_here rr_class.find_next_here s'(1) del: find_next.simps)
    with s' None s1(1) t f(1) show ?thesis by auto
  qed
qed

lemma find_next_task_edf_rr:
  assumes "kernel_schedulers c = [KSCHED_EDF, KSCHED_RR]"
    and "edf_ok (current c cpu) cpu (st c)" "rr_ok (tmin cfg) (st c)"
    and "set (run (edf_queue (st c) cpu)) \<inter> set (run (rr_queue (st c) 0)) = {}"
    and "\<exists>x \<in> set (run (rr_queue (st c) 0)). rr_elig cpu (task (st c) x)"
  shows "\<exists>t s'. sched_find_next_task cfg c cpu now
        = Some (t, min (runtime (task s' t)) (edf_task_ready_ns (tmin cfg) cpu now s'), c\<lparr>st := s'\<rparr>)
     \<and> state (task s' t) = TASK_BUSY
     \<and> (t \<in> set (run (edf_queue (st c) cpu)) \<and> edf_pick_next (tmin cfg) cpu now (current c cpu) (st c) = Some (Some t, s')
        \<or> 2 * uint (tmin cfg) < runtime (task s' t)
           \<and> (\<exists>s1. edf_pick_next (tmin cfg) cpu now (current c cpu) (st c) = Some (None, s1)
             \<and> rr_choice (tmin cfg) cpu s1 (run (rr_queue (st c) 0)) = Some t))"
proof -
  from assms(5) obtain x where x: "x \<in> set (run (rr_queue (st c) 0))" "rr_elig cpu (task (st c) x)" by blast
  from find_next_edf_rr [OF assms(2-4) x, of now] obtain t p s' where
    f: "find_next cfg (kernel_schedulers c) cpu now (current c cpu) (st c) = Some (t, s')"
      "state (task s' t) = TASK_BUSY" "sched (task s' t) = Some p"
      "p = KSCHED_EDF \<and> t \<in> set (run (edf_queue (st c) cpu)) \<and> edf_pick_next (tmin cfg) cpu now (current c cpu) (st c) = Some (Some t, s')
        \<or> p = KSCHED_RR \<and> 2 * uint (tmin cfg) < runtime (task s' t)
           \<and> (\<exists>s1. edf_pick_next (tmin cfg) cpu now (current c cpu) (st c) = Some (None, s1)
             \<and> rr_choice (tmin cfg) cpu s1 (run (rr_queue (st c) 0)) = Some t)"
    unfolding assms(1) by blast
  have "timeslice_ns p (task s' t) = Some (runtime (task s' t))"
    using f(4) by (auto simp: timeslice_ns_def edf_timeslice_ns_def rr_timeslice_ns_def)
  then have "sched_find_next_task cfg c cpu now
      = Some (t, min (runtime (task s' t)) (edf_task_ready_ns (tmin cfg) cpu now s'), c\<lparr>st := s'\<rparr>)"
    using f(1,3) assms(1) by (simp add: sched_find_next_task_def limit_slice_edf_rr del: limit_slice.simps find_next.simps)
  with f(2,4) show ?thesis by blast
qed

lemma ready_long:
  assumes "2 * uint tm < 2 ^ 31 - 1"
  shows "2 * uint tm < edf_task_ready_ns tm cpu now s"
proof -
  let ?f = "\<lambda>ready t. if state (task s t) = TASK_BUSY then ready
        else let delta = ktime_delta (wakeup (task s t)) now in
          if delta \<le> 2 * uint tm then ready else if ready > delta then delta else ready"
  have "2 * uint tm < foldl ?f r ts" if "2 * uint tm < r" for r ts
    using that by (induction ts arbitrary: r) (simp_all add: Let_def)
  from this [OF assms] show ?thesis by (simp add: edf_task_ready_ns_def)
qed

text \<open>C18: with both schedulers registered, their queues consistent and at least one round robin task runnable on the
  processor (the idle task of every processor is one), \<^verbatim>\<open>sched_find_next_task\<close> returns a task, which is
  marked busy.  An EDF task comes first; a round robin task runs only if EDF has none.  The slice ends
  before the next EDF task becomes ready and never exceeds the time left to the task.\<close>

theorem sched_find_next_correct:
  assumes "kernel_schedulers c = [KSCHED_EDF, KSCHED_RR]"
    and "edf_ok (current c cpu) cpu (st c)" "rr_ok (tmin cfg) (st c)"
    and "set (run (edf_queue (st c) cpu)) \<inter> set (run (rr_queue (st c) 0)) = {}"
    and "\<exists>x \<in> set (run (rr_queue (st c) 0)). rr_elig cpu (task (st c) x)"
  shows "\<exists>t slc c'. sched_find_next_task cfg c cpu now = Some (t, slc, c') \<and> state (task (st c') t) = TASK_BUSY
     \<and> slc = min (runtime (task (st c') t)) (edf_task_ready_ns (tmin cfg) cpu now (st c'))
     \<and> (t \<in> set (run (edf_queue (st c) cpu))
        \<or> (\<exists>s1. edf_pick_next (tmin cfg) cpu now (current c cpu) (st c) = Some (None, s1)
             \<and> rr_choice (tmin cfg) cpu s1 (run (rr_queue (st c) 0)) = Some t))"
  using find_next_task_edf_rr [OF assms, of now] by fastforce

definition demo_cfg :: sched_cfg where "demo_cfg = \<lparr>tmin = 10, cpus = 1, rnd = (\<lambda>x. x)\<rparr>"

definition demo_core :: core_st where
  "demo_core = \<lparr>st = \<lparr>task = (\<lambda>t. if t < 3 then task demo_edf t else rr_task TASK_RUN 0 200),
      tq = (\<lambda>p c. if p = KSCHED_EDF then tq demo_edf p c
         else if c = 0 \<and> p = KSCHED_RR then empty_queue\<lparr>run := [3]\<rparr> else empty_queue), alarms = 0, freed = []\<rparr>,
     kernel_schedulers = [KSCHED_EDF, KSCHED_RR], sched_enabled = (\<lambda>_. True), cpu_load = (\<lambda>_. 0),
     current = (\<lambda>_. Some 0), tick_next = None, resched = []\<rparr>"

theorem sched_find_next_correct_witness:
  "\<exists>t slc c'. sched_find_next_task demo_cfg demo_core 0 1000 = Some (t, slc, c') \<and> state (task (st c') t) = TASK_BUSY"
proof -
  have "kernel_schedulers demo_core = [KSCHED_EDF, KSCHED_RR]" "edf_ok (current demo_core 0) 0 (st demo_core)"
    "rr_ok (tmin demo_cfg) (st demo_core)" "set (run (edf_queue (st demo_core) 0)) \<inter> set (run (rr_queue (st demo_core) 0)) = {}"
    "\<exists>x \<in> set (run (rr_queue (st demo_core) 0)). rr_elig 0 (task (st demo_core) x)" by code_simp+
  from sched_find_next_correct [OF this, of 1000] show ?thesis by blast
qed


lemma schedule_run:
  assumes "sched_enabled c cpu" "current c cpu = Some cur" "kernel_schedulers c = [KSCHED_EDF, KSCHED_RR]"
    and "s0 = sched_update_runtime cur (clk 0) (st c)"
    and "edf_ok (Some cur) cpu s0" "rr_ok (tmin cfg) s0"
    and "set (run (edf_queue s0 cpu)) \<inter> set (run (rr_queue s0 0)) = {}"
    and "\<exists>x \<in> set (run (rr_queue s0 0)). rr_elig cpu (task s0 x)"
    and "\<forall>t s'. edf_pick_next (tmin cfg) cpu (clk 0) (Some cur) s0 = Some (Some t, s') \<longrightarrow> uint (tmin cfg) < runtime (task s' t)"
    and "0 < tmin cfg" "tmin cfg < 2 ^ 30" "0 < n"
  shows "\<exists>t c' x. schedule n cfg cpu clk c = Some c' \<and> current c' = (current c)(cpu := Some t)
     \<and> state (task (st c') t) = TASK_BUSY \<and> exec_start (task (st c') t) = clk 0
     \<and> tick_next c' = Some x \<and> 0 < x \<and> x < 2 ^ 31 \<and> x + uint (tmin cfg) \<le> runtime (task (st c') t)
     \<and> x + uint (tmin cfg) \<le> edf_task_ready_ns (tmin cfg) cpu (clk 0) (st c')"
proof -
  let ?c = "c\<lparr>st := s0\<rparr>"
  have u: "0 < uint (tmin cfg)" "uint (tmin cfg) < 2 ^ 30" using assms(10,11) by (simp_all add: word_less_def)
  have hyps: "kernel_schedulers ?c = [KSCHED_EDF, KSCHED_RR]" "edf_ok (current ?c cpu) cpu (st ?c)" "rr_ok (tmin cfg) (st ?c)"
    "set (run (edf_queue (st ?c) cpu)) \<inter> set (run (rr_queue (st ?c) 0)) = {}"
    "\<exists>x \<in> set (run (rr_queue (st ?c) 0)). rr_elig cpu (task (st ?c) x)"
    using assms(2,3,5-8) by simp_all
  from find_next_task_edf_rr [OF hyps, of "clk 0"] obtain t s' where
    f: "sched_find_next_task cfg ?c cpu (clk 0)
        = Some (t, min (runtime (task s' t)) (edf_task_ready_ns (tmin cfg) cpu (clk 0) s'), ?c\<lparr>st := s'\<rparr>)"
      "state (task s' t) = TASK_BUSY"
      "edf_pick_next (tmin cfg) cpu (clk 0) (current ?c cpu) (st ?c) = Some (Some t, s') \<or> 2 * uint (tmin cfg) < runtime (task s' t)"
    by blast
  define slc where "slc = min (runtime (task s' t)) (edf_task_ready_ns (tmin cfg) cpu (clk 0) s')"
  have "uint (tmin cfg) < runtime (task s' t)" using f(3) assms(2,9) u by auto
  moreover have "2 * uint (tmin cfg) < edf_task_ready_ns (tmin cfg) cpu (clk 0) s'" using u by (intro ready_long) simp
  moreover have "edf_task_ready_ns (tmin cfg) cpu (clk 0) s' \<le> 2 ^ 31 - 1" using ready_bounds by blast
  ultimately have slc: "uint (tmin cfg) < slc" "slc \<le> 2 ^ 31 - 1" "slc \<le> runtime (task s' t)"
    "slc \<le> edf_task_ready_ns (tmin cfg) cpu (clk 0) s'" using u by (auto simp: slc_def)
  have k: "ktime_sub slc (uint (tmin cfg)) = slc - uint (tmin cfg)"
    using slc u by (simp add: ktime_sub_def signed_take_bit_int_eq_self)
  let ?s = "upd_task t (\<lambda>k. k\<lparr>exec_start := clk 0\<rparr>) s'"
  obtain m where n: "n = Suc m" using assms(12) by (cases n) auto
  have "schedule_loop n cfg cpu clk 0 ?c = Some (t, slc, clk 0, ?c\<lparr>st := s'\<rparr>)"
    using f(1) slc(1) n by (simp add: slc_def [symmetric])
  then have "schedule n cfg cpu clk c = Some (c\<lparr>st := ?s, tick_next := Some (slc - uint (tmin cfg)), current := (current c)(cpu := Some t)\<rparr>)"
    using assms(1,2,4) k by (simp add: schedule_def)
  moreover have "edf_task_ready_ns (tmin cfg) cpu (clk 0) ?s = edf_task_ready_ns (tmin cfg) cpu (clk 0) s'"
  proof -
    have "state (task ?s x) = state (task s' x)" "wakeup (task ?s x) = wakeup (task s' x)" for x by (cases "x = t"; simp)+
    then show ?thesis unfolding edf_task_ready_ns_def by (simp only: upd_task_simps)
  qed
  ultimately show ?thesis using f(2) slc u by auto
qed

text \<open>The EDF tasks of a processor that are not marked busy: every failed attempt of the loop in \<^verbatim>\<open>schedule\<close> marks one
  more of them.\<close>

definition not_busy :: "int \<Rightarrow> sched_st \<Rightarrow> tid set" where
  "not_busy cpu s = {t \<in> set (run (edf_queue s cpu)). state (task s t) \<noteq> TASK_BUSY}"

lemma not_busy_le: "card (not_busy cpu s) \<le> length (run (edf_queue s cpu))"
proof -
  have "card (not_busy cpu s) \<le> card (set (run (edf_queue s cpu)))" by (rule card_mono) (auto simp: not_busy_def)
  then show ?thesis using card_length [of "run (edf_queue s cpu)"] by linarith
qed

lemma visit_keeps_busy:
  "state (task s x) = TASK_BUSY \<Longrightarrow> state (task (edf_visit tm cpu now this t s) x) = TASK_BUSY"
proof -
  assume b: "state (task s x) = TASK_BUSY"
  show ?thesis
  proof (cases "x = t")
    case True
    with b have "edf_visit tm cpu now this t s = s" by (simp add: edf_visit_def)
    with b show ?thesis by simp
  next
    case False
    with b show ?thesis by (simp add: edf_visit_others)
  qed
qed

lemma scan_keeps_busy:
  assumes "distinct (run (edf_queue s cpu))"
  shows "\<exists>s'. edf_scan (2 * length (run (edf_queue s cpu))) tm cpu now this (first_of (run (edf_queue s cpu))) s = Some s'
     \<and> (\<forall>x. state (task s x) = TASK_BUSY \<longrightarrow> state (task s' x) = TASK_BUSY)"
proof (rule edf_scan_rule [where us = "[]" and J = "\<lambda>s' _. \<forall>x. state (task s x) = TASK_BUSY \<longrightarrow> state (task s' x) = TASK_BUSY"])
  show "turns s (run (edf_queue s cpu)) \<le> 2 * length (run (edf_queue s cpu))" by (rule turns_le)
qed (use assms visit_keeps_busy in auto)

lemma edf_pick_not_busy:
  assumes "edf_ok this cpu s" "edf_pick_next tm cpu now this s = Some (Some t, s')"
  shows "card (not_busy cpu s') < card (not_busy cpu s)"
proof -
  have ne: "run (edf_queue s cpu) \<noteq> []" and d: "distinct (run (edf_queue s cpu))"
    using assms by (auto simp: edf_pick_next_def edf_ok_def)
  from scan_keeps_busy [OF d] obtain s1 where
    s1: "edf_scan (2 * length (run (edf_queue s cpu))) tm cpu now this (first_of (run (edf_queue s cpu))) s = Some s1"
    "\<forall>x. state (task s x) = TASK_BUSY \<longrightarrow> state (task s1 x) = TASK_BUSY" by blast
  then have f: "state (task s1 t) = TASK_RUN" "s' = upd_task t (\<lambda>k. k\<lparr>state := TASK_BUSY\<rparr>) s1"
    using assms(2) ne by (auto simp: edf_pick_next_def split: bind_splits if_splits)
  from edf_pick_frame [OF assms(1), of tm now] assms(2)
  have fr: "scan_inv s cpu this s'" "t \<in> set (run (edf_queue s cpu))" by auto
  have sub: "not_busy cpu s' \<subseteq> not_busy cpu s - {t}"
  proof
    fix x assume x: "x \<in> not_busy cpu s'"
    then have xt: "x \<noteq> t" and q: "x \<in> set (run (edf_queue s' cpu))" using f(2) by (auto simp: not_busy_def)
    from xt x f(2) have "state (task s1 x) \<noteq> TASK_BUSY" by (simp add: not_busy_def)
    with s1(2) have "state (task s x) \<noteq> TASK_BUSY" by blast
    with q fr(1) xt show "x \<in> not_busy cpu s - {t}" by (auto simp: not_busy_def scan_inv_def)
  qed
  have t: "t \<in> not_busy cpu s" using fr(2) s1(2) f(1) by (auto simp: not_busy_def)
  have fin: "finite (not_busy cpu s)" by (simp add: not_busy_def)
  have "card (not_busy cpu s') \<le> card (not_busy cpu s - {t})" using sub fin by (intro card_mono) auto
  also have "\<dots> < card (not_busy cpu s)" by (rule card_Diff1_less [OF fin t])
  finally show ?thesis .
qed

text \<open>What the core needs of the two queues before an attempt, and that a selection of EDF keeps it.\<close>

definition core_ok :: "sched_cfg \<Rightarrow> tid option \<Rightarrow> int \<Rightarrow> sched_st \<Rightarrow> bool" where
  "core_ok cfg this cpu s \<longleftrightarrow> edf_ok this cpu s \<and> rr_ok (tmin cfg) s
     \<and> set (run (edf_queue s cpu)) \<inter> set (run (rr_queue s 0)) = {}
     \<and> (\<exists>x \<in> set (run (rr_queue s 0)). rr_elig cpu (task s x))"

lemma core_ok_scan:
  assumes ok: "core_ok cfg this cpu s" and inv: "scan_inv s cpu this s'"
  shows "core_ok cfg this cpu s'"
proof -
  have f: "rr_queue s' 0 = rr_queue s 0" "\<And>t. sched (task s' t) = sched (task s t) \<and> attr (task s' t) = attr (task s t)
      \<and> on_cpu (task s' t) = on_cpu (task s t)" "set (run (edf_queue s' cpu)) \<subseteq> set (run (edf_queue s cpu))"
      "distinct (run (edf_queue s' cpu))"
    using inv by (simp_all add: scan_inv_def)
  have st: "state (task s' x) = state (task s x)" if "x \<in> set (run (rr_queue s 0))" for x
  proof -
    have "x \<notin> set (run (edf_queue s cpu))" using ok that by (auto simp: core_ok_def)
    with inv show ?thesis by (simp add: scan_inv_def)
  qed
  have e: "edf_ok this cpu s'"
  proof (cases "run (edf_queue s cpu) = []")
    case True
    with f ok show ?thesis by (auto simp: edf_ok_def)
  next
    case False
    with ok obtain t where t: "t \<in> set (run (edf_queue s cpu))" "kept this (task s t) t" by (auto simp: core_ok_def edf_ok_def)
    with inv have k: "kept this (task s' t) t" by (simp add: scan_inv_def)
    with inv t have "t \<in> set (run (edf_queue s' cpu))" by (auto simp: scan_inv_def kept_def)
    with k f ok show ?thesis by (auto simp: edf_ok_def core_ok_def)
  qed
  obtain x where "x \<in> set (run (rr_queue s 0))" "rr_elig cpu (task s x)" using ok by (auto simp: core_ok_def)
  with st f have "\<exists>x \<in> set (run (rr_queue s' 0)). rr_elig cpu (task s' x)" by (auto simp: rr_elig_def)
  with e f ok show ?thesis unfolding core_ok_def rr_ok_def by auto
qed

lemma schedule_loop_ends:
  assumes "kernel_schedulers c = [KSCHED_EDF, KSCHED_RR]" "core_ok cfg (current c cpu) cpu (st c)"
    and "0 < tmin cfg" "tmin cfg < 2 ^ 30" "card (not_busy cpu (st c)) < n"
  shows "\<exists>t slc s' j. schedule_loop n cfg cpu clk i c = Some (t, slc, clk j, c\<lparr>st := s'\<rparr>)
     \<and> i \<le> j \<and> j \<le> i + card (not_busy cpu (st c)) \<and> uint (tmin cfg) < slc
     \<and> slc = min (runtime (task s' t)) (edf_task_ready_ns (tmin cfg) cpu (clk j) s') \<and> state (task s' t) = TASK_BUSY"
  using assms
proof (induction n arbitrary: i c)
  case (Suc n)
  let ?cur = "current c cpu"
  have ok: "edf_ok ?cur cpu (st c)" "rr_ok (tmin cfg) (st c)"
    "set (run (edf_queue (st c) cpu)) \<inter> set (run (rr_queue (st c) 0)) = {}"
    "\<exists>x \<in> set (run (rr_queue (st c) 0)). rr_elig cpu (task (st c) x)"
    using Suc.prems(2) by (simp_all add: core_ok_def)
  have u: "uint (tmin cfg) < 2 ^ 30" "0 < uint (tmin cfg)" using Suc.prems(3,4) by (simp_all add: word_less_def)
  from find_next_task_edf_rr [OF Suc.prems(1) ok, of "clk i"] obtain t s' where
    f: "sched_find_next_task cfg c cpu (clk i)
        = Some (t, min (runtime (task s' t)) (edf_task_ready_ns (tmin cfg) cpu (clk i) s'), c\<lparr>st := s'\<rparr>)"
      "state (task s' t) = TASK_BUSY"
      "edf_pick_next (tmin cfg) cpu (clk i) ?cur (st c) = Some (Some t, s') \<or> 2 * uint (tmin cfg) < runtime (task s' t)"
    by blast
  define slc where "slc = min (runtime (task s' t)) (edf_task_ready_ns (tmin cfg) cpu (clk i) s')"
  show ?case
  proof (cases "uint (tmin cfg) < slc")
    case True
    then show ?thesis using f(1,2) by (intro exI [of _ t] exI [of _ slc] exI [of _ s'] exI [of _ i]) (simp add: slc_def)
  next
    case False
    have "2 * uint (tmin cfg) < edf_task_ready_ns (tmin cfg) cpu (clk i) s'" using u by (intro ready_long) simp
    with False f(3) u have e: "edf_pick_next (tmin cfg) cpu (clk i) ?cur (st c) = Some (Some t, s')"
      by (auto simp: slc_def min_def split: if_splits)
    from edf_pick_frame [OF ok(1), of "tmin cfg" "clk i"] e have inv: "scan_inv (st c) cpu ?cur s'" by auto
    note less = edf_pick_not_busy [OF ok(1) e]
    let ?c = "c\<lparr>st := s'\<rparr>"
    have "\<exists>t slc s'' j. schedule_loop n cfg cpu clk (Suc i) ?c = Some (t, slc, clk j, ?c\<lparr>st := s''\<rparr>)
     \<and> Suc i \<le> j \<and> j \<le> Suc i + card (not_busy cpu (st ?c)) \<and> uint (tmin cfg) < slc
     \<and> slc = min (runtime (task s'' t)) (edf_task_ready_ns (tmin cfg) cpu (clk j) s'') \<and> state (task s'' t) = TASK_BUSY"
      by (rule Suc.IH) (use Suc.prems less core_ok_scan [OF Suc.prems(2) inv] in simp_all)
    moreover have "schedule_loop (Suc n) cfg cpu clk i c = schedule_loop n cfg cpu clk (Suc i) ?c"
      using f(1) False by (simp add: slc_def [symmetric])
    ultimately show ?thesis using less by fastforce
  qed
qed simp

text \<open>C13: \<^verbatim>\<open>schedule\<close> on an enabled processor returns with a task switched in. Its loop ends: an attempt fails only
  when an EDF task with no more than a tick of its time left was selected, which marks that task busy, so there are at most
  as many failed attempts as EDF tasks in the queue. The task switched in is busy, its start is stamped with
  the clock reading of the last attempt, and the next tick lies in the future and inside its time slice.\<close>

theorem schedule_dispatches:
  assumes "sched_enabled c cpu" "current c cpu = Some cur" "kernel_schedulers c = [KSCHED_EDF, KSCHED_RR]"
    and "s0 = sched_update_runtime cur (clk 0) (st c)"
    and "edf_ok (Some cur) cpu s0" "rr_ok (tmin cfg) s0"
    and "set (run (edf_queue s0 cpu)) \<inter> set (run (rr_queue s0 0)) = {}"
    and "\<exists>x \<in> set (run (rr_queue s0 0)). rr_elig cpu (task s0 x)"
    and "0 < tmin cfg" "tmin cfg < 2 ^ 30" "length (run (edf_queue s0 cpu)) < n"
  shows "\<exists>t c' x i. i \<le> length (run (edf_queue s0 cpu)) \<and> schedule n cfg cpu clk c = Some c'
     \<and> current c' = (current c)(cpu := Some t)
     \<and> state (task (st c') t) = TASK_BUSY \<and> exec_start (task (st c') t) = clk i
     \<and> tick_next c' = Some x \<and> 0 < x \<and> x + uint (tmin cfg) \<le> runtime (task (st c') t)
     \<and> x + uint (tmin cfg) \<le> edf_task_ready_ns (tmin cfg) cpu (clk i) (st c')"
proof -
  let ?c = "c\<lparr>st := s0\<rparr>"
  have "core_ok cfg (current ?c cpu) cpu (st ?c)" using assms(2,5-8) by (simp add: core_ok_def)
  from schedule_loop_ends [where c = ?c and clk = clk and i = 0 and n = n, OF _ this assms(9,10)] assms(3,11) not_busy_le [of cpu s0]
  obtain t slc s' i where l: "schedule_loop n cfg cpu clk 0 ?c = Some (t, slc, clk i, ?c\<lparr>st := s'\<rparr>)"
     "i \<le> length (run (edf_queue s0 cpu))" "uint (tmin cfg) < slc"
     "slc = min (runtime (task s' t)) (edf_task_ready_ns (tmin cfg) cpu (clk i) s')" "state (task s' t) = TASK_BUSY"
    by (auto dest: order_trans)
  have slc: "slc \<le> 2 ^ 31 - 1" "slc \<le> runtime (task s' t)" "slc \<le> edf_task_ready_ns (tmin cfg) cpu (clk i) s'"
    using l(4) ready_bounds [of "tmin cfg" cpu "clk i" s'] by auto
  have u: "0 \<le> uint (tmin cfg)" "uint (tmin cfg) < 2 ^ 30" using assms(10) by (simp_all add: word_less_def)
  have k: "ktime_sub slc (uint (tmin cfg)) = slc - uint (tmin cfg)"
  proof -
    have "slc - uint (tmin cfg) \<le> 2 ^ 31 - 1" "0 \<le> slc - uint (tmin cfg)" using slc(1) l(3) u(1) by linarith+
    then have "- (2 ^ 63) \<le> slc - uint (tmin cfg)" "slc - uint (tmin cfg) < 2 ^ 63" by simp_all
    then show ?thesis by (simp add: ktime_sub_def signed_take_bit_int_eq_self)
  qed
  let ?s = "upd_task t (\<lambda>k. k\<lparr>exec_start := clk i\<rparr>) s'"
  let ?r = "c\<lparr>st := ?s, tick_next := Some (slc - uint (tmin cfg)), current := (current c)(cpu := Some t)\<rparr>"
  have "schedule n cfg cpu clk c = Some ?r"
    using assms(1,2,4) k l(1) by (simp add: schedule_def)
  moreover have "edf_task_ready_ns (tmin cfg) cpu (clk i) ?s = edf_task_ready_ns (tmin cfg) cpu (clk i) s'"
  proof -
    have "state (task ?s x) = state (task s' x)" "wakeup (task ?s x) = wakeup (task s' x)" for x by (cases "x = t"; simp)+
    then show ?thesis unfolding edf_task_ready_ns_def by (simp only: upd_task_simps)
  qed
  ultimately show ?thesis using l(2,3,5) slc by (intro exI [of _ t] exI [of _ ?r] exI [of _ "slc - uint (tmin cfg)"] exI [of _ i]) auto
qed

theorem schedule_dispatches_witness:
  "\<exists>t c'. schedule 4 demo_cfg 0 (\<lambda>_. 1000) demo_core = Some c' \<and> current c' = (current demo_core)(0 := Some t)"
proof -
  let ?s = "sched_update_runtime 0 1000 (st demo_core)"
  have "sched_enabled demo_core 0" "current demo_core 0 = Some 0" "kernel_schedulers demo_core = [KSCHED_EDF, KSCHED_RR]"
    "edf_ok (Some 0) 0 ?s"
    "rr_ok (tmin demo_cfg) ?s" "set (run (edf_queue ?s 0)) \<inter> set (run (rr_queue ?s 0)) = {}"
    "\<exists>x \<in> set (run (rr_queue ?s 0)). rr_elig 0 (task ?s x)" by code_simp+
  moreover have "0 < tmin demo_cfg" "tmin demo_cfg < 2 ^ 30" "length (run (edf_queue ?s 0)) < 4" by code_simp+
  ultimately show ?thesis using schedule_dispatches [of demo_core 0 0 ?s "\<lambda>_. 1000" demo_cfg 4] by blast
qed

section \<open>Registration and threads\<close>

abbreviation falling :: "('a \<Rightarrow> nat) \<Rightarrow> 'a list \<Rightarrow> bool" where
  "falling prio \<equiv> sorted_wrt (\<lambda>x y. prio y \<le> prio x)"

text \<open>One pass carries the smallest element seen so far along.\<close>

fun bub :: "('a \<Rightarrow> nat) \<Rightarrow> 'a list \<Rightarrow> 'a list" where
  "bub prio (x # y # ys) = (if prio x < prio y then y # bub prio (x # ys) else x # bub prio (y # ys))"
| "bub prio xs = xs"

lemma swap_with_next_append:
  "x \<notin> set us \<Longrightarrow> swap_with_next x (us @ x # y # ys) = us @ y # x # ys"
proof (induction us)
  case (Cons u us)
  then show ?case by (cases us) auto
qed simp

lemma falling_step: "prio y \<le> prio x \<Longrightarrow> falling prio (x # y # ys) \<longleftrightarrow> falling prio (y # ys)"
  by force

lemma bubble_pass_bub:
  assumes "distinct (us @ e # vs)" "2 * length vs < n"
  shows "bubble_pass n prio 0 (us @ e # vs) (Some e) swp = Some (us @ bub prio (e # vs), swp \<or> \<not> falling prio (e # vs))"
  using assms
proof (induction vs arbitrary: us e n swp)
  case Nil
  then obtain m where "n = Suc m" by (cases n) auto
  with Nil show ?case by (simp add: next_of_append)
next
  case (Cons v vs)
  then obtain m where n: "n = Suc (Suc m)" "2 * length vs < m" by (cases n; cases "n - 1") auto
  have nx: "next_of (us @ e # v # vs) e = Some v" "next_of ((us @ [v]) @ e # vs) v = Some e"
    using Cons.prems(1) next_of_append [of v us "e # vs"] by (auto simp: next_of_append)
  show ?case
  proof (cases "prio e < prio v")
    case True
    then have "\<not> falling prio (e # v # vs)" by simp
    moreover have "bubble_pass n prio 0 (us @ e # v # vs) (Some e) swp = bubble_pass m prio 0 ((us @ [v]) @ e # vs) (Some e) True"
      using True nx n Cons.prems(1) by (simp add: swap_with_next_append)
    ultimately show ?thesis using Cons.IH [of "us @ [v]" e m True] Cons.prems(1) n True by auto
  next
    case False
    then have "bubble_pass n prio 0 (us @ e # v # vs) (Some e) swp = bubble_pass (Suc m) prio 0 ((us @ [e]) @ v # vs) (Some v) swp"
      using nx n by simp
    moreover have "falling prio (e # v # vs) \<longleftrightarrow> falling prio (v # vs)" using False by (intro falling_step) simp
    ultimately show ?thesis using Cons.IH [of "us @ [e]" v "Suc m" swp] Cons.prems(1) n False by (simp del: sorted_wrt.simps)
  qed
qed

lemma bub_falling: "falling prio xs \<Longrightarrow> bub prio xs = xs"
  by (induction prio xs rule: bub.induct) auto

lemma bub_insert:
  assumes "falling prio (as @ a # bs)" "prio a < prio p"
  shows "bub prio (as @ a # p # bs) = as @ p # a # bs"
  using assms
proof (induction as)
  case Nil
  then show ?case by (simp add: bub_falling)
next
  case (Cons x as)
  then show ?case by (cases as) auto
qed

lemma bubble_sort_insert:
  assumes "falling prio (as @ bs)" "\<forall>b \<in> set bs. prio b < prio p" "distinct (as @ p # bs)" "length as < n"
  shows "\<exists>ys. bubble_sort n prio 0 (as @ p # bs) = Some ys \<and> falling prio ys \<and> mset ys = add_mset p (mset (as @ bs))"
  using assms
proof (induction as arbitrary: n bs rule: rev_induct)
  case Nil
  then obtain m where "n = Suc m" by (cases n) auto
  moreover have "falling prio (p # bs)" using Nil by auto
  ultimately show ?case using bubble_pass_bub [of "[]" p bs "2 * length (p # bs)" prio False] Nil
    by (simp add: bub_falling del: bubble_pass.simps)
next
  case (snoc a as)
  then obtain m where n: "n = Suc m" "length as < m" by (cases n) auto
  obtain e vs where e: "(as @ [a]) @ p # bs = e # vs" "2 * length vs < 2 * length (e # vs)" by (cases "as @ [a]") auto
  have pass: "bubble_pass (2 * length ((as @ [a]) @ p # bs)) prio 0 ((as @ [a]) @ p # bs) (first_of ((as @ [a]) @ p # bs)) False
      = Some (bub prio ((as @ [a]) @ p # bs), \<not> falling prio ((as @ [a]) @ p # bs))"
    using bubble_pass_bub [of "[]" e vs "2 * length (e # vs)" prio False] snoc.prems(3) e(2) unfolding e(1)
    by (simp del: bubble_pass.simps sorted_wrt.simps)
  show ?case
  proof (cases "prio a < prio p")
    case True
    have "falling prio (as @ a # bs)" using snoc.prems(1) by simp
    from bub_insert [OF this True] have b: "bub prio ((as @ [a]) @ p # bs) = as @ p # a # bs" by simp
    have "\<not> falling prio ((as @ [a]) @ p # bs)" using True by (auto simp: sorted_wrt_append)
    then have "bubble_sort n prio 0 ((as @ [a]) @ p # bs) = bubble_sort m prio 0 (as @ p # a # bs)"
      unfolding n(1) bubble_sort.simps pass b by simp
    moreover have "\<exists>ys. bubble_sort m prio 0 (as @ p # a # bs) = Some ys \<and> falling prio ys \<and> mset ys = add_mset p (mset (as @ a # bs))"
      by (rule snoc.IH) (use snoc.prems True n in auto)
    ultimately show ?thesis by simp
  next
    case False
    have "\<forall>x \<in> set (as @ [a]). prio p \<le> prio x" using snoc.prems(1) False by (force simp: sorted_wrt_append)
    then have f: "falling prio ((as @ [a]) @ p # bs)" using snoc.prems(1,2) by (force simp: sorted_wrt_append)
    then have "bubble_sort n prio 0 ((as @ [a]) @ p # bs) = Some ((as @ [a]) @ p # bs)"
      unfolding n(1) bubble_sort.simps pass by (simp add: bub_falling del: sorted_wrt.simps)
    with f show ?thesis by simp
  qed
qed

text \<open>Registering a scheduler puts it into the list once and keeps the list ordered by falling priority; the
  bubble sort ends, provided that the memory in front of the list head reads as priority zero.  A second registration and
  a null pointer are refused.\<close>

theorem sched_register_sorted:
  assumes "distinct (kernel_schedulers c)" "falling sched_priority (kernel_schedulers c)"
  shows "sched_register 0 None c = Some (- EINVAL, c)
     \<and> (if p \<in> set (kernel_schedulers c) then sched_register 0 (Some p) c = Some (- EPERM, c)
        else \<exists>ps. sched_register 0 (Some p) c = Some (0, c\<lparr>kernel_schedulers := ps\<rparr>)
          \<and> mset ps = add_mset p (mset (kernel_schedulers c)) \<and> falling sched_priority ps)"
proof (cases "p \<in> set (kernel_schedulers c)")
  case True
  then show ?thesis by (simp add: sched_register_def)
next
  case False
  have "\<exists>ys. bubble_sort (Suc (Suc (length (kernel_schedulers c)))) sched_priority 0 (kernel_schedulers c @ [p]) = Some ys
      \<and> falling sched_priority ys \<and> mset ys = add_mset p (mset (kernel_schedulers c @ []))"
    by (rule bubble_sort_insert) (use assms False in auto)
  with False show ?thesis by (auto simp: sched_register_def simp del: bubble_sort.simps)
qed

theorem sched_register_sorted_witness:
  "\<exists>ps. sched_register 0 (Some KSCHED_EDF) (demo_core\<lparr>kernel_schedulers := [KSCHED_RR]\<rparr>)
      = Some (0, demo_core\<lparr>kernel_schedulers := ps\<rparr>) \<and> mset ps = {#KSCHED_EDF, KSCHED_RR#} \<and> falling sched_priority ps"
  using sched_register_sorted [of "demo_core\<lparr>kernel_schedulers := [KSCHED_RR]\<rparr>" KSCHED_EDF] by auto

text \<open>What lies in front of the list head decides: if it reads as a number above the priority of a scheduler, the
  sort exchanges the head of the list with that scheduler, also when a single scheduler is registered.\<close>

theorem sched_register_reads_head:
  "kernel_schedulers c = [] \<Longrightarrow> sched_register junk (Some p) c =
     (if sched_priority p < junk then None else Some (0, c\<lparr>kernel_schedulers := [p]\<rparr>))"
  by (simp add: sched_register_def numeral_2_eq_2)

theorem sched_register_reads_head_witness:
  "sched_register 2 (Some KSCHED_EDF) (demo_core\<lparr>kernel_schedulers := []\<rparr>) = None"
  using sched_register_reads_head [of "demo_core\<lparr>kernel_schedulers := []\<rparr>" 2 KSCHED_EDF] by (simp add: sched_priority_def)

lemma rr_enqueue_step:
  assumes "sched (task (st c) t) = Some KSCHED_RR" "policy (attr (task (st c) t)) = KSCHED_RR"
  shows "sched_enqueue cfg (Some t) c = Some (0, c\<lparr>st := upd_queue KSCHED_RR 0 (\<lambda>q. q\<lparr>wake := wake q @ [t]\<rparr>)
     (upd_task t (\<lambda>k. k\<lparr>attr := (attr k)\<lparr>priority := max 1 (priority (attr k))\<rparr>\<rparr>) (st c))\<rparr>)"
proof -
  have m: "max 1 (priority (attr (task (st c) t))) = (if priority (attr (task (st c) t)) = 0 then 1 else priority (attr (task (st c) t)))"
    using unat_gt_0 [of "priority (attr (task (st c) t))"] by (auto simp: max_def word_le_nat_alt Suc_le_eq)
  show ?thesis using assms
    by (simp add: sched_enqueue_def check_sched_attr_def rr_check_sched_attr_def enqueue_task_def rr_enqueue_def upd_task_def m)
qed

text \<open>Waking a new round robin thread always succeeds: it enters the run queue in front, runnable, with a
  time slice that the selection accepts, so that the queue remains consistent; its first wakeup is stamped and the
  processor it is bound to is told to reschedule.\<close>

theorem kthread_wake_up_rr:
  assumes "state (task (st c) t) = TASK_NEW" "sched (task (st c) t) = Some KSCHED_RR" "policy (attr (task (st c) t)) = KSCHED_RR"
    and "rr_ok (tmin cfg) (st c)" "t \<notin> set (run (rr_queue (st c) 0))" "t \<notin> set (wake (rr_queue (st c) 0))"
    and "0 < tmin cfg" "tmin cfg < 2 ^ 27"
  shows "\<exists>c'. kthread_wake_up cfg (Some t) now c = Some (0, c') \<and> rr_ok (tmin cfg) (st c')
     \<and> run (rr_queue (st c') 0) = t # run (rr_queue (st c) 0) \<and> wake (rr_queue (st c') 0) = wake (rr_queue (st c) 0)
     \<and> state (task (st c') t) = TASK_RUN \<and> wakeup_first (task (st c') t) = now
     \<and> resched c' = resched c @ (if on_cpu (task (st c) t) = KTHREAD_CPU_AFFINITY_NONE then [] else [on_cpu (task (st c) t)])"
proof -
  define s1 where "s1 = upd_queue KSCHED_RR 0 (\<lambda>q. q\<lparr>wake := wake q @ [t]\<rparr>)
     (upd_task t (\<lambda>k. k\<lparr>attr := (attr k)\<lparr>priority := max 1 (priority (attr k))\<rparr>\<rparr>) (st c))"
  have e: "sched_enqueue cfg (Some t) c = Some (0, c\<lparr>st := s1\<rparr>)" unfolding s1_def by (rule rr_enqueue_step [OF assms(2,3)])
  have s1: "sched (task s1 t) = Some KSCHED_RR" "policy (attr (task s1 t)) = KSCHED_RR" "t \<in> set (wake (rr_queue s1 0))"
    "0 < priority (attr (task s1 t))" "on_cpu (task s1 t) = on_cpu (task (st c) t)"
    "run (rr_queue s1 0) = run (rr_queue (st c) 0)" "wake (rr_queue s1 0) = wake (rr_queue (st c) 0) @ [t]"
    "\<And>x. x \<noteq> t \<Longrightarrow> task s1 x = task (st c) x"
    using assms by (simp_all add: s1_def less_max_iff_disj)
  from rr_wake_aux [OF s1(1), of "tmin cfg" now] s1(2-4) assms(7,8) obtain s2 where
    w: "rr_wake (tmin cfg) (Some t) now s1 = Some (0, s2)" "run (rr_queue s2 0) = t # run (rr_queue s1 0)"
      "wake (rr_queue s2 0) = remove1 t (wake (rr_queue s1 0))" "state (task s2 t) = TASK_RUN"
      "wcet (attr (task s2 t)) > 2 * uint (tmin cfg)" "\<And>x. x \<noteq> t \<Longrightarrow> task s2 x = task s1 x"
    by auto
  have fr: "sched (task s2 t) = sched (task s1 t) \<and> on_cpu (task s2 t) = on_cpu (task s1 t)"
    using w(1) s1(1,2) by (auto simp: rr_wake_def Let_def split: if_splits)
  have "sched_wake cfg (Some t) now (c\<lparr>st := s1\<rparr>) = Some (0, c\<lparr>st := s2\<rparr>)"
    using s1(1) w(1) by (simp add: sched_wake_def wake_task_def)
  then have "kthread_wake_up cfg (Some t) now c = Some (0, let c = c\<lparr>st := upd_task t (\<lambda>k. k\<lparr>wakeup_first := now\<rparr>) s2\<rparr> in
      if on_cpu (task (st c) t) \<noteq> KTHREAD_CPU_AFFINITY_NONE then c\<lparr>resched := resched c @ [on_cpu (task (st c) t)]\<rparr> else c)"
    using assms(1) e by (simp add: kthread_wake_up_def Let_def)
  moreover have "rr_ok (tmin cfg) (upd_task t (\<lambda>k. k\<lparr>wakeup_first := now\<rparr>) s2)"
  proof -
    have "sched (task (upd_task t (\<lambda>k. k\<lparr>wakeup_first := now\<rparr>) s2) x) = Some KSCHED_RR
        \<and> 2 * uint (tmin cfg) < wcet (attr (task (upd_task t (\<lambda>k. k\<lparr>wakeup_first := now\<rparr>) s2) x))"
      if "x \<in> set (t # run (rr_queue (st c) 0))" for x
      using that assms(4) w s1 fr by (cases "x = t") (auto simp: rr_ok_def)
    then show ?thesis using assms(4,5) w(2) s1(6) by (simp add: rr_ok_def)
  qed
  ultimately show ?thesis using w s1 fr assms(6) by (auto simp: Let_def remove1_append)
qed

theorem kthread_wake_up_rr_witness:
  "\<exists>c'. kthread_wake_up demo_cfg (Some 4) 1000 (demo_core\<lparr>st := upd_task 4 (\<lambda>k. k\<lparr>state := TASK_NEW\<rparr>) (st demo_core)\<rparr>) = Some (0, c')
     \<and> run (rr_queue (st c') 0) = [4, 3]"
proof -
  let ?c = "demo_core\<lparr>st := upd_task 4 (\<lambda>k. k\<lparr>state := TASK_NEW\<rparr>) (st demo_core)\<rparr>"
  have "state (task (st ?c) 4) = TASK_NEW" "sched (task (st ?c) 4) = Some KSCHED_RR" "policy (attr (task (st ?c) 4)) = KSCHED_RR"
    "rr_ok (tmin demo_cfg) (st ?c)" "4 \<notin> set (run (rr_queue (st ?c) 0))" "4 \<notin> set (wake (rr_queue (st ?c) 0))"
    "0 < tmin demo_cfg" "tmin demo_cfg < 2 ^ 27" "run (rr_queue (st ?c) 0) = [3]" by code_simp+
  with kthread_wake_up_rr [of ?c 4 demo_cfg 1000] show ?thesis by auto
qed

end
