(* ===== verification/Clockevent.thy ===== *)
theory Clockevent
  imports Sched_Core
begin

text \<open>
  The timers of the kernel: clock event devices (\<^verbatim>\<open>kernel/clockevent.c\<close>), the ticker that drives the scheduler of
  each processor (\<^verbatim>\<open>kernel/tick.c\<close>) and the watchdog (\<^verbatim>\<open>kernel/watchdog.c\<close>).  Devices are named by
  numbers.  What is done to the hardware through the function pointers of a device is recorded in the order of the calls;
  a call through a null pointer, a division by zero, a \<^verbatim>\<open>BUG_ON\<close> and waiting for an interrupt that never comes are
  \<^term>\<open>None\<close>.  \<open>irq_times\<close> are the readings of the clock in the timer interrupts that are still to come.
\<close>

section \<open>State\<close>

datatype clock_event_state =
    CLOCK_EVT_STATE_UNUSED | CLOCK_EVT_STATE_SHUTDOWN | CLOCK_EVT_STATE_PERIODIC | CLOCK_EVT_STATE_ONESHOT
  | CLOCK_EVT_STATE_WATCHDOG

abbreviation (input) ETIME :: int where "ETIME \<equiv> 62"

abbreviation CLOCK_EVT_FEAT_PERIODIC :: u32 where "CLOCK_EVT_FEAT_PERIODIC \<equiv> 1"
abbreviation CLOCK_EVT_FEAT_ONESHOT :: u32 where "CLOCK_EVT_FEAT_ONESHOT \<equiv> 2"
abbreviation CLOCK_EVT_FEAT_KTIME :: u32 where "CLOCK_EVT_FEAT_KTIME \<equiv> 4"
abbreviation CLOCK_EVT_FEAT_WATCHDOG :: u32 where "CLOCK_EVT_FEAT_WATCHDOG \<equiv> 8"

datatype ce_handler = Tick_Calibrate_Handler | Watchdog_Handler_Internal

text \<open>The function pointers of a device are set or null.\<close>

record clock_event_device =
  event_handler :: "ce_handler option"
  has_next_event :: bool
  has_next_ktime :: bool
  max_delta_ns :: u32
  min_delta_ns :: u32
  mult :: u32
  ce_state :: clock_event_state
  features :: u32
  has_set_state :: bool
  has_suspend :: bool
  has_resume :: bool
  ce_irq :: int

datatype dev_call =
    Set_State nat clock_event_state | Set_Next_Event nat u32 | Set_Next_Ktime nat timespec
  | Suspend nat | Resume nat | Irq_Set_Affinity int int

record tick_dev =
  prev_cal_time :: ktime
  tick_period_min_ns :: u32
  tdev :: "nat option"

record timers =
  devs :: "nat \<Rightarrow> clock_event_device"
  clockevent_devices :: "nat list"
  tick_device :: "int \<Rightarrow> tick_dev"
  wd_dev :: "nat option"
  wd_handler :: "nat option"
  irq_times :: "ktime list"
  calls :: "dev_call list"

definition upd_dev :: "nat \<Rightarrow> (clock_event_device \<Rightarrow> clock_event_device) \<Rightarrow> timers \<Rightarrow> timers" where
  "upd_dev d f T = T\<lparr>devs := (devs T)(d := f (devs T d))\<rparr>"

definition upd_tick :: "int \<Rightarrow> (tick_dev \<Rightarrow> tick_dev) \<Rightarrow> timers \<Rightarrow> timers" where
  "upd_tick cpu f T = T\<lparr>tick_device := (tick_device T)(cpu := f (tick_device T cpu))\<rparr>"

definition hw_call :: "dev_call \<Rightarrow> timers \<Rightarrow> timers" where
  "hw_call c T = T\<lparr>calls := calls T @ [c]\<rparr>"

section \<open>Clock event devices\<close>

definition clamp :: "u32 \<Rightarrow> u32 \<Rightarrow> u32 \<Rightarrow> u32" where
  "clamp val lo hi = (let val = (if val < lo then lo else val) in if val > hi then hi else val)"

definition clockevents_delta2ticks :: "u32 \<Rightarrow> clock_event_device \<Rightarrow> u32 option" where
  "clockevents_delta2ticks delta dev =
     (if mult dev = 0 then None else Some (clamp delta (min_delta_ns dev) (max_delta_ns dev) div mult dev))"

definition clockevents_timout_in_range :: "clock_event_device \<Rightarrow> u32 \<Rightarrow> bool" where
  "clockevents_timout_in_range dev nanoseconds \<longleftrightarrow> clamp nanoseconds (min_delta_ns dev) (max_delta_ns dev) = nanoseconds"

definition clockevents_feature_periodic :: "clock_event_device \<Rightarrow> bool" where
  "clockevents_feature_periodic dev \<longleftrightarrow> features dev AND CLOCK_EVT_FEAT_PERIODIC \<noteq> 0"

definition clockevents_feature_oneshot :: "clock_event_device \<Rightarrow> bool" where
  "clockevents_feature_oneshot dev \<longleftrightarrow> features dev AND CLOCK_EVT_FEAT_ONESHOT \<noteq> 0"

definition clockevents_feature_watchdog :: "clock_event_device \<Rightarrow> bool" where
  "clockevents_feature_watchdog dev \<longleftrightarrow> features dev AND CLOCK_EVT_FEAT_WATCHDOG \<noteq> 0"

definition clockevents_state_supported :: "clock_event_device \<Rightarrow> clock_event_state \<Rightarrow> bool" where
  "clockevents_state_supported dev s =
     (case s of
        CLOCK_EVT_STATE_PERIODIC \<Rightarrow> clockevents_feature_periodic dev
      | CLOCK_EVT_STATE_ONESHOT \<Rightarrow> clockevents_feature_oneshot dev
      | CLOCK_EVT_STATE_WATCHDOG \<Rightarrow> clockevents_feature_watchdog dev
      | _ \<Rightarrow> True)"

definition clockevents_set_state :: "nat option \<Rightarrow> clock_event_state \<Rightarrow> timers \<Rightarrow> timers option" where
  "clockevents_set_state dev s T =
     (case dev of
        None \<Rightarrow> Some T
      | Some d \<Rightarrow>
          if \<not> clockevents_state_supported (devs T d) s then Some T
          else if ce_state (devs T d) \<noteq> s then
            (if \<not> has_set_state (devs T d) then None
             else Some (upd_dev d (\<lambda>k. k\<lparr>ce_state := s\<rparr>) (hw_call (Set_State d s) T)))
          else Some T)"

definition clockevents_set_handler :: "nat \<Rightarrow> ce_handler option \<Rightarrow> timers \<Rightarrow> timers" where
  "clockevents_set_handler d h = upd_dev d (\<lambda>k. k\<lparr>event_handler := h\<rparr>)"

definition clockevents_suspend :: "timers \<Rightarrow> timers" where
  "clockevents_suspend T = foldl (\<lambda>T d. if has_suspend (devs T d) then hw_call (Suspend d) T else T) T (rev (clockevent_devices T))"

definition clockevents_resume :: "timers \<Rightarrow> timers" where
  "clockevents_resume T = foldl (\<lambda>T d. if has_resume (devs T d) then hw_call (Resume d) T else T) T (clockevent_devices T)"

definition clockevents_exchange_device :: "nat option \<Rightarrow> nat option \<Rightarrow> timers \<Rightarrow> timers option" where
  "clockevents_exchange_device old new T = do {
     T \<leftarrow> (case old of None \<Rightarrow> Some T | Some d \<Rightarrow> clockevents_set_state (Some d) CLOCK_EVT_STATE_UNUSED T);
     (case new of
        None \<Rightarrow> Some T
      | Some d \<Rightarrow> if ce_state (devs T d) \<noteq> CLOCK_EVT_STATE_UNUSED then None
                  else clockevents_set_state (Some d) CLOCK_EVT_STATE_SHUTDOWN T)
   }"

definition clockevents_program_timeout_ns :: "nat \<Rightarrow> u32 \<Rightarrow> timers \<Rightarrow> (int \<times> timers) option" where
  "clockevents_program_timeout_ns d nanoseconds T =
     (if ce_state (devs T d) = CLOCK_EVT_STATE_SHUTDOWN then Some (0, T)
      else do {
        evt \<leftarrow> clockevents_delta2ticks nanoseconds (devs T d);
        if \<not> has_next_event (devs T d) then None
        else Some (if evt \<noteq> nanoseconds then 1 else 0, hw_call (Set_Next_Event d evt) T)
      })"

text \<open>\<open>difft\<close> is \<^verbatim>\<open>difftime_ns\<close>, a computation with doubles; \<open>now\<close> is the time of the clock.  What the
  device's own \<^verbatim>\<open>set_next_ktime\<close> returns is the argument \<open>ret\<close>.  Converting a double outside of the range of
  the integer type is undefined.\<close>

definition clockevents_program_event ::
    "(timespec \<Rightarrow> timespec \<Rightarrow> rat) \<Rightarrow> timespec \<Rightarrow> int \<Rightarrow> nat \<Rightarrow> timespec \<Rightarrow> timers \<Rightarrow> (int \<times> timers) option" where
  "clockevents_program_event difft now ret d expires T =
     (let dev = devs T d in
      if ce_state dev = CLOCK_EVT_STATE_SHUTDOWN then Some (0, T)
      else if features dev AND CLOCK_EVT_FEAT_KTIME \<noteq> 0 then
        (if \<not> has_next_ktime dev then None else Some (ret, hw_call (Set_Next_Ktime d expires) T))
      else let delta = difft expires now in
        if delta < 0 then Some (- ETIME, T)
        else if delta \<ge> 2 ^ 32 then None
        else do {
          evt \<leftarrow> clockevents_delta2ticks (word_of_int \<lfloor>delta\<rfloor>) dev;
          if \<not> has_next_event dev then None else Some (0, hw_call (Set_Next_Event d evt) T)
        })"


section \<open>The integer square root\<close>

partial_function (option) isqrt_bit :: "int \<Rightarrow> nat \<Rightarrow> nat option" where
  "isqrt_bit num b = (if int b > num then isqrt_bit num (b div 4) else Some b)"

declare isqrt_bit.simps [code]

function isqrt_loop :: "int \<Rightarrow> int \<Rightarrow> nat \<Rightarrow> int" where
  "isqrt_loop num res b =
     (if b \<noteq> 0 then
        (if num \<ge> s32 (res + int b) then isqrt_loop (s32 (num - s32 (res + int b))) (s32 (drop_bit 1 res + int b)) (b div 4)
         else isqrt_loop num (drop_bit 1 res) (b div 4))
      else res)"
  by pat_completeness auto
termination by (relation "measure (\<lambda>(num, res, b). b)") auto

declare isqrt_loop.simps [simp del]

definition isqrt :: "int \<Rightarrow> int option" where
  "isqrt num = do { b \<leftarrow> isqrt_bit num (2 ^ 30); Some (isqrt_loop num 0 b) }"

section \<open>The ticker\<close>

datatype tick_mode = TICK_MODE_PERIODIC | TICK_MODE_ONESHOT

definition tick_get_device :: "int \<Rightarrow> timers \<Rightarrow> nat option" where
  "tick_get_device cpu T = tdev (tick_device T cpu)"

definition tick_set_device :: "nat \<Rightarrow> int \<Rightarrow> timers \<Rightarrow> timers" where
  "tick_set_device d cpu = upd_tick cpu (\<lambda>t. t\<lparr>tdev := Some d\<rparr>)"

definition tick_check_preferred :: "nat option \<Rightarrow> nat \<Rightarrow> timers \<Rightarrow> bool" where
  "tick_check_preferred cur new T = (if \<not> clockevents_feature_periodic (devs T new) then False else cur = None)"

definition tick_set_mode_periodic :: "nat \<Rightarrow> timers \<Rightarrow> (int \<times> timers) option" where
  "tick_set_mode_periodic d T =
     (if \<not> clockevents_feature_periodic (devs T d) then Some (- EINVAL, T)
      else do { T \<leftarrow> clockevents_set_state (Some d) CLOCK_EVT_STATE_PERIODIC T; Some (0, T) })"

definition tick_set_mode_oneshot :: "nat \<Rightarrow> timers \<Rightarrow> (int \<times> timers) option" where
  "tick_set_mode_oneshot d T =
     (if \<not> clockevents_feature_oneshot (devs T d) then Some (- EINVAL, T)
      else do { T \<leftarrow> clockevents_set_state (Some d) CLOCK_EVT_STATE_ONESHOT T; Some (0, T) })"

definition tick_set_mode :: "int \<Rightarrow> tick_mode \<Rightarrow> timers \<Rightarrow> (int \<times> timers) option" where
  "tick_set_mode cpu mode T =
     (case tick_get_device cpu T of
        None \<Rightarrow> Some (- ENODEV, T)
      | Some d \<Rightarrow> (case mode of TICK_MODE_PERIODIC \<Rightarrow> tick_set_mode_periodic d T | TICK_MODE_ONESHOT \<Rightarrow> tick_set_mode_oneshot d T))"

text \<open>The interrupt of the timer during the calibration.\<close>

definition tick_calibrate_handler :: "int \<Rightarrow> timers \<Rightarrow> timers option" where
  "tick_calibrate_handler cpu T =
     (case irq_times T of
        [] \<Rightarrow> None
      | now # ts \<Rightarrow>
          let prev = prev_cal_time (tick_device T cpu);
              delta = ktime_delta now prev;
              T = (if prev \<noteq> 0 then upd_tick cpu (\<lambda>t. t\<lparr>tick_period_min_ns := word_of_int delta\<rparr>) T else T)
          in Some ((upd_tick cpu (\<lambda>t. t\<lparr>prev_cal_time := now\<rparr>) T)\<lparr>irq_times := ts\<rparr>))"

text \<open>Waiting with \<^verbatim>\<open>cpu_relax\<close> until an interrupt has changed the time of the last one.\<close>

partial_function (option) cal_wait :: "int \<Rightarrow> ktime \<Rightarrow> timers \<Rightarrow> timers option" where
  "cal_wait cpu prev T =
     (if prev = prev_cal_time (tick_device T cpu) then do { T \<leftarrow> tick_calibrate_handler cpu T; cal_wait cpu prev T }
      else Some T)"

partial_function (option) cal_first :: "int \<Rightarrow> nat \<Rightarrow> u32 \<Rightarrow> u32 \<Rightarrow> ktime \<Rightarrow> timers \<Rightarrow> (u32 \<times> ktime \<times> timers) option" where
  "cal_first cpu d step tick prev T =
     (if tick_period_min_ns (tick_device T cpu) = 0 then do {
        let tick = tick + step;
        (_, T) \<leftarrow> clockevents_program_timeout_ns d tick T;
        T \<leftarrow> cal_wait cpu prev T;
        cal_first cpu d step tick (prev_cal_time (tick_device T cpu)) T
      } else Some (tick, prev, T))"

declare cal_wait.simps [code] cal_first.simps [code]

abbreviation CALIBRATE_LOOPS :: nat where "CALIBRATE_LOOPS \<equiv> 100"

text \<open>The loop over \<open>i\<close>, with \<open>n = CALIBRATE_LOOPS - i\<close> turns left.  The early return is \<^term>\<open>Inl\<close>.\<close>

fun cal_rest :: "nat \<Rightarrow> int \<Rightarrow> nat \<Rightarrow> u32 \<Rightarrow> ktime \<Rightarrow> u32 \<Rightarrow> u32 \<Rightarrow> timers \<Rightarrow> (timers + u32 \<times> u32 \<times> timers) option" where
  "cal_rest 0 cpu d tick prev mn mnsq T = Some (Inr (mn, mnsq, T))"
| "cal_rest (Suc n) cpu d tick prev mn mnsq T = do {
     let T = upd_tick cpu (\<lambda>t. t\<lparr>tick_period_min_ns := 0\<rparr>) T;
     (_, T) \<leftarrow> clockevents_program_timeout_ns d tick T;
     T \<leftarrow> cal_wait cpu prev T;
     let dt = tick_period_min_ns (tick_device T cpu);
     if dt = 0 then
       Some (Inl (upd_tick cpu (\<lambda>t. t\<lparr>tick_period_min_ns := mn div of_nat (CALIBRATE_LOOPS - Suc n)\<rparr>) T))
     else
       cal_rest n cpu d tick (prev_cal_time (tick_device T cpu)) (mn + dt) (mnsq + dt * dt)
         (upd_tick cpu (\<lambda>t. t\<lparr>tick_period_min_ns := 0\<rparr>) T)
   }"

definition tick_calibrate_min :: "int \<Rightarrow> u32 \<Rightarrow> nat \<Rightarrow> timers \<Rightarrow> timers option" where
  "tick_calibrate_min cpu step d T = do {
     let T = upd_tick cpu (\<lambda>t. t\<lparr>tick_period_min_ns := 0, prev_cal_time := 0\<rparr>) T;
     (r, T) \<leftarrow> tick_set_mode cpu TICK_MODE_ONESHOT T;
     (r, T) \<leftarrow> (if r \<noteq> 0 then tick_set_mode cpu TICK_MODE_PERIODIC T else Some (0, T));
     if r \<noteq> 0 then Some T
     else do {
       let T = clockevents_set_handler d (Some Tick_Calibrate_Handler) T;
       (tick, prev, T) \<leftarrow> cal_first cpu d step 0 (prev_cal_time (tick_device T cpu)) T;
       let mn = tick_period_min_ns (tick_device T cpu);
       r \<leftarrow> cal_rest (CALIBRATE_LOOPS - 1) cpu d tick prev mn (mn * mn) T;
       (case r of
          Inl T \<Rightarrow> Some T
        | Inr (mn, mnsq, T) \<Rightarrow> do {
            let i = of_nat CALIBRATE_LOOPS;
            _ \<leftarrow> isqrt (sint (((i - 1) * mnsq - mn * mn) div ((i - 1) * (i - 1))));
            let mn = mn div (i - 1);
            let T = upd_tick cpu (\<lambda>t. t\<lparr>tick_period_min_ns := mn * 2\<rparr>) T;
            Some (clockevents_set_handler d None T)
          })
     }
   }"

definition tick_setup_device :: "int \<Rightarrow> u32 \<Rightarrow> nat \<Rightarrow> timers \<Rightarrow> timers option" where
  "tick_setup_device cpu step d T = do {
     let T = hw_call (Irq_Set_Affinity (ce_irq (devs T d)) cpu) T;
     T \<leftarrow> tick_calibrate_min cpu step d T;
     (_, T) \<leftarrow> tick_set_mode_periodic d T;
     Some T
   }"

definition tick_check_device :: "int \<Rightarrow> u32 \<Rightarrow> nat option \<Rightarrow> timers \<Rightarrow> timers option" where
  "tick_check_device cpu step dev T =
     (case dev of
        None \<Rightarrow> Some T
      | Some d \<Rightarrow>
          let cur = tick_get_device cpu T in
          if \<not> tick_check_preferred cur d T then Some T
          else do {
            T \<leftarrow> clockevents_exchange_device cur (Some d) T;
            let T = tick_set_device d cpu T;
            tick_setup_device cpu step d T
          })"

definition tick_get_period_min_ns :: "int \<Rightarrow> timers \<Rightarrow> u32" where
  "tick_get_period_min_ns this_cpu T = tick_period_min_ns (tick_device T this_cpu)"

definition tick_set_next_ns_for_cpu :: "int \<Rightarrow> u32 \<Rightarrow> int \<Rightarrow> timers \<Rightarrow> (int \<times> timers) option" where
  "tick_set_next_ns_for_cpu this_cpu nanoseconds cpu T =
     (case tick_get_device cpu T of
        None \<Rightarrow> Some (- ENODEV, T)
      | Some d \<Rightarrow>
          let lo = tick_period_min_ns (tick_device T this_cpu)
          in clockevents_program_timeout_ns d (if nanoseconds < lo then lo else nanoseconds) T)"

definition tick_set_next_ns :: "int \<Rightarrow> u32 \<Rightarrow> timers \<Rightarrow> (int \<times> timers) option" where
  "tick_set_next_ns this_cpu nanoseconds T = tick_set_next_ns_for_cpu this_cpu nanoseconds this_cpu T"

definition tick_set_next_ktime ::
    "(timespec \<Rightarrow> timespec \<Rightarrow> rat) \<Rightarrow> timespec \<Rightarrow> int \<Rightarrow> int \<Rightarrow> timespec \<Rightarrow> timers \<Rightarrow> (int \<times> timers) option" where
  "tick_set_next_ktime difft now ret this_cpu expires T =
     (case tick_get_device this_cpu T of
        None \<Rightarrow> Some (- ENODEV, T)
      | Some d \<Rightarrow> clockevents_program_event difft now ret d expires T)"

section \<open>The watchdog\<close>

datatype watchdog_mode = WATCHDOG_UNLEASH | WATCHDOG_LEASH

definition watchdog_check_preferred :: "nat option \<Rightarrow> nat \<Rightarrow> timers \<Rightarrow> bool" where
  "watchdog_check_preferred cur new T = (if \<not> clockevents_feature_watchdog (devs T new) then False else cur = None)"

definition watchdog_setup_device :: "nat \<Rightarrow> timers \<Rightarrow> timers option" where
  "watchdog_setup_device d T = do {
     let T = hw_call (Irq_Set_Affinity (ce_irq (devs T d)) 0) T;
     T \<leftarrow> clockevents_set_state (Some d) CLOCK_EVT_STATE_WATCHDOG T;
     Some (clockevents_set_handler d (Some Watchdog_Handler_Internal) T)
   }"

definition watchdog_check_device :: "nat option \<Rightarrow> timers \<Rightarrow> timers option" where
  "watchdog_check_device dev T =
     (case dev of
        None \<Rightarrow> Some T
      | Some d \<Rightarrow>
          if \<not> watchdog_check_preferred (wd_dev T) d T then Some T
          else do {
            T \<leftarrow> clockevents_exchange_device (wd_dev T) (Some d) T;
            watchdog_setup_device d (T\<lparr>wd_dev := Some d\<rparr>)
          })"

definition watchdog_set_mode :: "watchdog_mode \<Rightarrow> timers \<Rightarrow> (int \<times> timers) option" where
  "watchdog_set_mode mode T =
     (case wd_dev T of
        None \<Rightarrow> Some (- ENODEV, T)
      | Some d \<Rightarrow> do {
          T \<leftarrow> clockevents_set_state (Some d)
            (case mode of WATCHDOG_UNLEASH \<Rightarrow> CLOCK_EVT_STATE_WATCHDOG | WATCHDOG_LEASH \<Rightarrow> CLOCK_EVT_STATE_SHUTDOWN) T;
          Some (0, T) })"

definition watchdog_set_handler :: "nat option \<Rightarrow> timers \<Rightarrow> timers" where
  "watchdog_set_handler h T = T\<lparr>wd_handler := h\<rparr>"

definition watchdog_feed :: "u32 \<Rightarrow> timers \<Rightarrow> (int \<times> timers) option" where
  "watchdog_feed nanoseconds T =
     (case wd_dev T of None \<Rightarrow> Some (- ENODEV, T) | Some d \<Rightarrow> clockevents_program_timeout_ns d nanoseconds T)"

section \<open>Registration\<close>

definition clockevents_register_device :: "int \<Rightarrow> u32 \<Rightarrow> nat option \<Rightarrow> timers \<Rightarrow> timers option" where
  "clockevents_register_device cpu step dev T =
     (case dev of
        None \<Rightarrow> None
      | Some d \<Rightarrow>
          if \<not> has_next_event (devs T d) then Some T
          else if features (devs T d) AND CLOCK_EVT_FEAT_KTIME \<noteq> 0 \<and> \<not> has_next_ktime (devs T d) then Some T
          else if \<not> has_set_state (devs T d) then Some T
          else do {
            let T = T\<lparr>clockevent_devices := clockevent_devices T @ [d]\<rparr>;
            T \<leftarrow> watchdog_check_device dev T;
            T \<leftarrow> (if ce_state (devs T d) = CLOCK_EVT_STATE_UNUSED then tick_check_device cpu step dev T else Some T);
            tick_check_device cpu step dev T
          })"

definition clockevents_offer_device :: "int \<Rightarrow> u32 \<Rightarrow> timers \<Rightarrow> (int \<times> timers) option" where
  "clockevents_offer_device cpu step T =
     (case List.find (\<lambda>d. ce_state (devs T d) = CLOCK_EVT_STATE_UNUSED) (clockevent_devices T) of
        None \<Rightarrow> Some (- ENODEV, T)
      | Some d \<Rightarrow> do {
          T \<leftarrow> watchdog_check_device (Some d) T;
          T \<leftarrow> (if ce_state (devs T d) = CLOCK_EVT_STATE_UNUSED then tick_check_device cpu step (Some d) T else Some T);
          Some (0, T)
        })"

end
