(* ===== verification/Clock_Spec.thy ===== *)
theory Clock_Spec
  imports Clockevent
begin

text \<open>
  Correctness of the timers: the integer square root, the conversion of times to ticks, the calibration of the
  ticker, and the use of the devices by the ticker and the watchdog.
\<close>

section \<open>The integer square root\<close>

lemma isqrt_bit_spec:
  assumes "0 \<le> n"
  shows "\<exists>b. isqrt_bit n (4 ^ k) = Some b \<and>
    (b = 0 \<and> n = 0 \<or> (\<exists>j \<le> k. b = 4 ^ j \<and> (j = k \<or> n < 4 ^ Suc j)))"
proof (induction k)
  case 0
  show ?case
  proof (cases "n = 0")
    case True
    then show ?thesis by (simp add: isqrt_bit.simps [of 0 "Suc 0"] isqrt_bit.simps [of 0 0])
  next
    case False
    with assms show ?thesis by (simp add: isqrt_bit.simps [of n "Suc 0"])
  qed
next
  case (Suc k)
  show ?case
  proof (cases "int (4 ^ Suc k) > n")
    case True
    then have "isqrt_bit n (4 ^ Suc k) = isqrt_bit n (4 ^ k)" by (simp add: isqrt_bit.simps [of n "4 * 4 ^ k"])
    moreover from Suc obtain b where b: "isqrt_bit n (4 ^ k) = Some b"
      "b = 0 \<and> n = 0 \<or> (\<exists>j \<le> k. b = 4 ^ j \<and> (j = k \<or> n < 4 ^ Suc j))" by blast
    moreover have "b = 0 \<and> n = 0 \<or> (\<exists>j \<le> Suc k. b = 4 ^ j \<and> (j = Suc k \<or> n < 4 ^ Suc j))"
      using b(2) True by (metis (no_types, lifting) le_SucI of_nat_numeral of_nat_power)
    ultimately show ?thesis by (metis (no_types, lifting))
  next
    case False
    then show ?thesis by (subst isqrt_bit.simps) auto
  qed
qed

lemma s32_small: "- (2 ^ 31) \<le> x \<Longrightarrow> x < 2 ^ 31 \<Longrightarrow> s32 x = x"
  by (simp add: signed_take_bit_int_eq_self)

lemma root_sum_bound:
  fixes R x :: int
  assumes "0 \<le> R" "0 \<le> x" "R + 2 * x \<le> 2 ^ 16"
  shows "R * (2 * x) + x * x < 2 ^ 31"
proof -
  have "R * (2 * x) \<le> (2 ^ 16 - 2 * x) * (2 * x)" using assms by (intro mult_right_mono) auto
  then have "3 * (R * (2 * x) + x * x) \<le> 3 * ((2 ^ 16 - 2 * x) * (2 * x) + x * x)" by (intro mult_left_mono add_right_mono) simp_all
  also have "\<dots> = 2 ^ 32 - (3 * x - 2 ^ 16) * (3 * x - 2 ^ 16)" by (simp add: algebra_simps)
  also have "\<dots> \<le> 2 ^ 32" by simp
  finally have "3 * (R * (2 * x) + x * x) \<le> 2 ^ 32" .
  then show ?thesis by simp
qed

lemma isqrt_loop_spec:
  assumes "num = N - R * R" "R * R \<le> N" "N < (R + 2 ^ k) * (R + 2 ^ k)" "0 \<le> R" "R + 2 ^ k \<le> 2 ^ 16" "N < 2 ^ 31"
  shows "let r = isqrt_loop num (R * 2 ^ k) (if k = 0 then 0 else 4 ^ (k - 1)) in 0 \<le> r \<and> r * r \<le> N \<and> N < (r + 1) * (r + 1)"
  using assms(1-5)
proof (induction k arbitrary: num R)
  case 0
  then show ?case by (simp add: isqrt_loop.simps)
next
  case (Suc k)
  define x :: int where "x = 2 ^ k"
  have x: "0 < x" "(2 :: int) ^ Suc k = 2 * x" "int (4 ^ k) = x * x"
    by (simp_all add: x_def power_mult_distrib [symmetric])
  have b4: "(4 :: nat) ^ k div 4 = (if k = 0 then 0 else 4 ^ (k - 1))" by (cases k) auto
  have R: "R * (2 * x) + x * x < 2 ^ 31" "0 \<le> R * (2 * x)" "0 \<le> x * x" "R * x + x * x < 2 ^ 31"
  proof -
    have "0 \<le> R * x" "R * (2 * x) = 2 * (R * x)" using Suc.prems(4) x(1) by simp_all
    moreover show "R * (2 * x) + x * x < 2 ^ 31" using root_sum_bound [of R x] Suc.prems(4,5) x(1,2) by simp
    ultimately show "0 \<le> R * (2 * x)" "R * x + x * x < 2 ^ 31" by linarith+
  qed simp
  have sum: "s32 (R * (2 * x) + x * x) = R * (2 * x) + x * x" "s32 (R * x + x * x) = R * x + x * x"
  proof -
    have "0 \<le> R * (2 * x) + x * x" "0 \<le> R * x + x * x" using Suc.prems(4) x(1) by (auto intro: add_nonneg_nonneg)
    then show "s32 (R * (2 * x) + x * x) = R * (2 * x) + x * x" "s32 (R * x + x * x) = R * x + x * x"
      using R(1,4) by - (rule s32_small; linarith)+
  qed
  have half: "drop_bit 1 (R * (2 * x)) = R * x" by (simp add: drop_bit_eq_div)
  have le: "R + 2 ^ k \<le> 2 ^ 16" using Suc.prems(5) x(1) unfolding x(2) x_def [symmetric] by linarith
  note step = isqrt_loop.simps [of num "R * (2 * x)" "4 ^ k"]
  show ?case
  proof (cases "num \<ge> R * (2 * x) + x * x")
    case True
    have "s32 (num - (R * (2 * x) + x * x)) = num - (R * (2 * x) + x * x)"
      using True R(2,3) Suc.prems(1) assms(6) zero_le_square [of R] by - (rule s32_small; linarith)
    then have n: "s32 (num - (R * (2 * x) + x * x)) = N - (R + x) * (R + x)"
      unfolding Suc.prems(1) by (simp add: algebra_simps)
    have "isqrt_loop num (R * (2 * x)) (4 ^ k) =
        isqrt_loop (s32 (num - s32 (R * (2 * x) + int (4 ^ k)))) (s32 (drop_bit 1 (R * (2 * x)) + int (4 ^ k))) (4 ^ k div 4)"
      unfolding step x(3) sum(1) using True by simp
    also have "\<dots> = isqrt_loop (N - (R + x) * (R + x)) ((R + x) * x) (if k = 0 then 0 else 4 ^ (k - 1))"
      by (simp only: x(3) sum half b4 n distrib_right)
    finally have e: "isqrt_loop num (R * (2 * x)) (4 ^ k) =
        isqrt_loop (N - (R + x) * (R + x)) ((R + x) * x) (if k = 0 then 0 else 4 ^ (k - 1))" .
    have "let r = isqrt_loop (N - (R + x) * (R + x)) ((R + x) * 2 ^ k) (if k = 0 then 0 else 4 ^ (k - 1))
        in 0 \<le> r \<and> r * r \<le> N \<and> N < (r + 1) * (r + 1)"
      by (rule Suc.IH) (use True Suc.prems x x_def in \<open>auto simp: algebra_simps\<close>)
    with e show ?thesis by (simp add: x_def)
  next
    case False
    then have e: "isqrt_loop num (R * (2 * x)) (4 ^ k) = isqrt_loop num (R * x) (if k = 0 then 0 else 4 ^ (k - 1))"
      using sum half b4 x(3) by (simp add: step)
    have "let r = isqrt_loop num (R * 2 ^ k) (if k = 0 then 0 else 4 ^ (k - 1)) in 0 \<le> r \<and> r * r \<le> N \<and> N < (r + 1) * (r + 1)"
    proof (rule Suc.IH)
      show "R + 2 ^ k \<le> 2 ^ 16" by (rule le)
    qed (use False Suc.prems x x_def in \<open>auto simp: algebra_simps\<close>)
    with e show ?thesis by (simp add: x_def)
  qed
qed

lemma isqrt_spec:
  assumes "0 \<le> n" "n < 2 ^ 31"
  shows "\<exists>r. isqrt n = Some r \<and> 0 \<le> r \<and> r * r \<le> n \<and> n < (r + 1) * (r + 1)"
proof -
  have p: "(2 ^ 30 :: nat) = 4 ^ 15" by simp
  from isqrt_bit_spec [OF assms(1), of 15] obtain b where b: "isqrt_bit n (2 ^ 30) = Some b"
    "b = 0 \<and> n = 0 \<or> (\<exists>j \<le> 15. b = 4 ^ j \<and> (j = 15 \<or> n < 4 ^ Suc j))" unfolding p by blast
  have "\<exists>k \<le> 16. b = (if k = 0 then 0 else 4 ^ (k - 1)) \<and> n < 4 ^ k"
    using b(2)
  proof
    assume "\<exists>j \<le> 15. b = 4 ^ j \<and> (j = 15 \<or> n < 4 ^ Suc j)"
    then obtain j where j: "j \<le> 15" "b = 4 ^ j" "j = 15 \<or> n < 4 ^ Suc j" by blast
    with assms(2) show ?thesis by (intro exI [of _ "Suc j"]) auto
  qed (auto intro: exI [of _ 0])
  then obtain k where k: "k \<le> 16" "b = (if k = 0 then 0 else 4 ^ (k - 1))" "n < 4 ^ k" by blast
  have "(2 :: int) ^ k \<le> 2 ^ 16" using k(1) by (intro power_increasing) auto
  moreover have "(4 :: int) ^ k = 2 ^ k * 2 ^ k" by (simp add: power_mult_distrib [symmetric])
  ultimately show ?thesis
    using isqrt_loop_spec [of n n 0 k] assms k b(1) by (auto simp: isqrt_def Let_def)
qed


section \<open>Times and ticks\<close>

lemma clamp_bounds: "lo \<le> hi \<Longrightarrow> lo \<le> clamp v lo hi \<and> clamp v lo hi \<le> hi"
  by (auto simp: clamp_def Let_def)

lemma clamp_id: "lo \<le> v \<Longrightarrow> v \<le> hi \<Longrightarrow> clamp v lo hi = v"
  by (auto simp: clamp_def Let_def)

lemma delta2ticks_spec:
  fixes ns :: u32
  assumes "mult dev \<noteq> 0"
  defines "v \<equiv> clamp ns (min_delta_ns dev) (max_delta_ns dev)"
  shows "\<exists>evt. clockevents_delta2ticks ns dev = Some evt \<and> unat evt * unat (mult dev) \<le> unat v
      \<and> unat v < (unat evt + 1) * unat (mult dev)"
proof -
  have "unat (v div mult dev) = unat v div unat (mult dev)" by (simp add: unat_div)
  moreover have "0 < unat (mult dev)" using assms(1) by (simp add: unat_gt_0)
  ultimately show ?thesis
    using assms dividend_less_div_times [of "unat (mult dev)" "unat v"]
    by (simp add: clockevents_delta2ticks_def algebra_simps)
qed


section \<open>Calibration\<close>

text \<open>The states of a calibration differ in the ticker's record, the interrupts to come and the calls of the hardware.\<close>

definition cal_at :: "timers \<Rightarrow> int \<Rightarrow> ktime \<Rightarrow> u32 \<Rightarrow> ktime list \<Rightarrow> dev_call list \<Rightarrow> timers" where
  "cal_at T cpu p q ts cs = T\<lparr>tick_device := (tick_device T)(cpu := (tick_device T cpu)\<lparr>prev_cal_time := p, tick_period_min_ns := q\<rparr>),
     irq_times := ts, calls := cs\<rparr>"

lemma cal_at_simps [simp]:
  "tick_device (cal_at T cpu p q ts cs) cpu = (tick_device T cpu)\<lparr>prev_cal_time := p, tick_period_min_ns := q\<rparr>"
  "devs (cal_at T cpu p q ts cs) = devs T" "irq_times (cal_at T cpu p q ts cs) = ts"
  "upd_tick cpu (\<lambda>t. t\<lparr>tick_period_min_ns := q'\<rparr>) (cal_at T cpu p q ts cs) = cal_at T cpu p q' ts cs"
  by (simp_all add: cal_at_def upd_tick_def)

lemma cal_program:
  assumes "mult (devs T d) \<noteq> 0" "has_next_event (devs T d)"
  shows "\<exists>r cs'. clockevents_program_timeout_ns d ns (cal_at T cpu p q ts cs) = Some (r, cal_at T cpu p q ts cs')"
  using assms by (auto simp: clockevents_program_timeout_ns_def clockevents_delta2ticks_def hw_call_def cal_at_def)

lemma cal_wait_step:
  assumes "t \<noteq> p"
  shows "cal_wait cpu p (cal_at T cpu p q (t # ts) cs) =
     Some (cal_at T cpu t (if p \<noteq> 0 then word_of_int (ktime_delta t p) else q) ts cs)"
proof -
  have "tick_calibrate_handler cpu (cal_at T cpu p q (t # ts) cs) =
      Some (cal_at T cpu t (if p \<noteq> 0 then word_of_int (ktime_delta t p) else q) ts cs)"
    by (auto simp: tick_calibrate_handler_def Let_def cal_at_def upd_tick_def intro!: timers.equality)
  then show ?thesis using assms
    by (simp add: cal_wait.simps [of cpu p "cal_at T cpu p q (t # ts) cs"] cal_wait.simps [of cpu p "cal_at T cpu t _ ts cs"])
qed

text \<open>Interrupts at growing times, less than \<open>2 ^ 32\<close> nanoseconds apart.\<close>

fun ticking :: "ktime \<Rightarrow> ktime list \<Rightarrow> bool" where
  "ticking p [] \<longleftrightarrow> True"
| "ticking p (t # ts) \<longleftrightarrow> p < t \<and> t - p < 2 ^ 32 \<and> ticking t ts"

lemma ticking_append: "ticking p (us @ ts) \<longleftrightarrow> ticking p us \<and> ticking (last (p # us)) ts"
  by (induction us arbitrary: p) auto

lemma interval:
  assumes "p < t" "t - p < 2 ^ 32"
  shows "ktime_delta t p = t - p" "(word_of_int (t - p) :: u32) \<noteq> 0"
proof -
  show "ktime_delta t p = t - p" using assms by (intro ktime_delta_id) (simp add: is_s64_def)
  have "uint (word_of_int (t - p) :: u32) = t - p"
    unfolding uint_word_of_int using assms by (intro mod_pos_pos_trivial) auto
  with assms(1) show "(word_of_int (t - p) :: u32) \<noteq> 0" by (metis diff_gt_0_iff_gt less_irrefl unsigned_0)
qed

lemma ticking_last: "us \<noteq> [] \<Longrightarrow> ticking p us \<Longrightarrow> 0 \<le> last us - p"
  by (induction us arbitrary: p) (fastforce split: if_splits)+

lemma cal_rest_run:
  assumes dev: "mult (devs T d) \<noteq> 0" "has_next_event (devs T d)"
  shows "length us = n \<Longrightarrow> 0 < p \<Longrightarrow> ticking p us \<Longrightarrow>
     \<exists>q' mnsq' cs'. cal_rest n cpu d tick p mn mnsq (cal_at T cpu p q (us @ ts) cs) =
       Some (Inr (mn + word_of_int (last (p # us) - p), mnsq', cal_at T cpu (last (p # us)) q' ts cs'))"
proof (induction us arbitrary: n p q mn mnsq cs)
  case (Cons t us)
  then obtain n' where n: "n = Suc n'" "length us = n'" by auto
  from Cons.prems have t: "p < t" "t - p < 2 ^ 32" "ticking t us" "0 < t" by auto
  note iv = interval [OF t(1,2)]
  from cal_program [OF dev, of tick cpu p 0 "t # us @ ts" cs] obtain r cs1 where
    pr: "clockevents_program_timeout_ns d tick (cal_at T cpu p 0 (t # us @ ts) cs) = Some (r, cal_at T cpu p 0 (t # us @ ts) cs1)" by blast
  have w: "cal_wait cpu p (cal_at T cpu p 0 (t # us @ ts) cs1) = Some (cal_at T cpu t (word_of_int (t - p)) (us @ ts) cs1)"
    using cal_wait_step [of t p cpu T 0 "us @ ts" cs1] t(1) Cons.prems(2) iv(1) by simp
  from Cons.IH [OF n(2) t(4,3)] obtain q' mnsq' cs' where
    ih: "cal_rest n' cpu d tick t (mn + word_of_int (t - p)) (mnsq + word_of_int (t - p) * word_of_int (t - p))
         (cal_at T cpu t 0 (us @ ts) cs1) =
       Some (Inr (mn + word_of_int (t - p) + word_of_int (last (t # us) - t), mnsq', cal_at T cpu (last (t # us)) q' ts cs'))" by blast
  have "mn + word_of_int (t - p) + word_of_int (last (t # us) - t) = mn + word_of_int (last (p # t # us) - p)" by simp
  with pr w iv(2) ih n(1) have "cal_rest n cpu d tick p mn mnsq (cal_at T cpu p q (t # us @ ts) cs) =
      Some (Inr (mn + word_of_int (last (p # t # us) - p), mnsq', cal_at T cpu (last (p # t # us)) q' ts cs'))"
    by (simp add: Let_def)
  then show ?case by (metis append_Cons)
qed auto

lemma cal_first_run:
  assumes dev: "mult (devs T d) \<noteq> 0" "has_next_event (devs T d)" and t: "0 < t0" "t0 < t1" "t1 - t0 < 2 ^ 32"
  shows "\<exists>tick cs'. cal_first cpu d step 0 0 (cal_at T cpu 0 0 (t0 # t1 # ts) cs) =
     Some (tick, t1, cal_at T cpu t1 (word_of_int (t1 - t0)) ts cs')"
proof -
  note iv = interval [OF t(2,3)]
  from cal_program [OF dev, of step cpu 0 0 "t0 # t1 # ts" cs] obtain r cs1 where
    p1: "clockevents_program_timeout_ns d step (cal_at T cpu 0 0 (t0 # t1 # ts) cs) = Some (r, cal_at T cpu 0 0 (t0 # t1 # ts) cs1)" by blast
  from cal_program [OF dev, of "step + step" cpu t0 0 "t1 # ts" cs1] obtain r2 cs2 where
    p2: "clockevents_program_timeout_ns d (step + step) (cal_at T cpu t0 0 (t1 # ts) cs1) = Some (r2, cal_at T cpu t0 0 (t1 # ts) cs2)" by blast
  have w: "cal_wait cpu 0 (cal_at T cpu 0 0 (t0 # t1 # ts) cs1) = Some (cal_at T cpu t0 0 (t1 # ts) cs1)"
    "cal_wait cpu t0 (cal_at T cpu t0 0 (t1 # ts) cs2) = Some (cal_at T cpu t1 (word_of_int (t1 - t0)) ts cs2)"
    using cal_wait_step [of t0 0 cpu T 0 "t1 # ts" cs1] cal_wait_step [of t1 t0 cpu T 0 ts cs2] t iv(1) by auto
  have "cal_first cpu d step 0 0 (cal_at T cpu 0 0 (t0 # t1 # ts) cs) = cal_first cpu d step step t0 (cal_at T cpu t0 0 (t1 # ts) cs1)"
    using p1 w by (subst cal_first.simps) (simp add: Let_def)
  also have "\<dots> = cal_first cpu d step (step + step) t1 (cal_at T cpu t1 (word_of_int (t1 - t0)) ts cs2)"
    using p2 w by (subst cal_first.simps) (simp add: Let_def)
  also have "\<dots> = Some (step + step, t1, cal_at T cpu t1 (word_of_int (t1 - t0)) ts cs2)"
    using iv(2) by (subst cal_first.simps) simp
  finally show ?thesis by blast
qed


lemma set_state_run:
  assumes "has_set_state (devs T d)"
  shows "\<exists>cs. clockevents_set_state (Some d) s T = Some (T\<lparr>calls := cs,
     devs := (devs T)(d := (devs T d)\<lparr>ce_state := if clockevents_state_supported (devs T d) s then s else ce_state (devs T d)\<rparr>)\<rparr>)"
proof -
  have same: "T\<lparr>calls := calls T, devs := (devs T)(d := (devs T d)\<lparr>ce_state := ce_state (devs T d)\<rparr>)\<rparr> = T" by simp
  show ?thesis
  proof (cases "clockevents_state_supported (devs T d) s \<and> ce_state (devs T d) \<noteq> s")
    case True
    with assms show ?thesis by (auto simp: clockevents_set_state_def upd_dev_def hw_call_def intro!: exI)
  next
    case False
    then have "clockevents_set_state (Some d) s T = Some T" by (auto simp: clockevents_set_state_def)
    with False same show ?thesis by (intro exI [of _ "calls T"]) auto
  qed
qed

lemma isqrt_variance: "\<exists>r. isqrt (sint ((x :: u32) div 9801)) = Some r"
proof -
  have u: "uint (x div 9801) < 2 ^ 31"
  proof -
    have "uint x < 2 ^ 32" using unsigned_less [of x] by simp
    then show ?thesis by (simp add: uint_div)
  qed
  have "sint (x div 9801) = uint (x div 9801)" 
  proof -
    have "0 \<le> uint (x div 9801)" by (rule unsigned_greater_eq)
    with u have "s32 (uint (x div 9801)) = uint (x div 9801)" by - (rule s32_small; linarith)
    then show ?thesis by (simp add: sint_uint)
  qed
  with u isqrt_spec [of "uint (x div 9801)"] show ?thesis by auto
qed


text \<open>What a calibration leaves: the ticker's period, the state of the device, no handler.\<close>

lemma tick_calibrate_run:
  assumes "tick_get_device cpu T = Some d" "has_set_state (devs T d)" "has_next_event (devs T d)" "mult (devs T d) \<noteq> 0"
    and "clockevents_feature_oneshot (devs T d) \<or> clockevents_feature_periodic (devs T d)"
    and "irq_times T = t0 # us @ ts" "length us = 100" "0 < t0" "ticking t0 us"
  shows "\<exists>T' s. tick_calibrate_min cpu step d T = Some T'
     \<and> tick_get_period_min_ns cpu T' = word_of_int (last us - t0) div 99 * 2
     \<and> devs T' = (devs T)(d := (devs T d)\<lparr>event_handler := None, ce_state := s\<rparr>) \<and> irq_times T' = ts"
proof -
  obtain t1 us' where us: "us = t1 # us'" "length us' = 99" using assms(7) by (cases us) auto
  from assms(8,9) us have t: "0 < t0" "t0 < t1" "t1 - t0 < 2 ^ 32" "ticking t1 us'" "0 < t1" by auto
  define T0 where "T0 = upd_tick cpu (\<lambda>t. t\<lparr>tick_period_min_ns := 0, prev_cal_time := 0\<rparr>) T"
  have dev0: "devs T0 = devs T" by (simp add: T0_def upd_tick_def)
  define s where "s = (if clockevents_feature_oneshot (devs T d) then CLOCK_EVT_STATE_ONESHOT else CLOCK_EVT_STATE_PERIODIC)"
  from set_state_run [of T0 d s] assms(2) obtain cs where
    ss: "clockevents_set_state (Some d) s T0 = Some (T0\<lparr>calls := cs,
       devs := (devs T0)(d := (devs T0 d)\<lparr>ce_state := if clockevents_state_supported (devs T0 d) s then s else ce_state (devs T0 d)\<rparr>)\<rparr>)"
    unfolding dev0 by blast
  define s' where "s' = (if clockevents_state_supported (devs T0 d) s then s else ce_state (devs T0 d))"
  define T1 where "T1 = clockevents_set_handler d (Some Tick_Calibrate_Handler) (T0\<lparr>calls := cs, devs := (devs T0)(d := (devs T0 d)\<lparr>ce_state := s'\<rparr>)\<rparr>)"
  have g: "tick_get_device cpu T0 = Some d" using assms(1) by (simp add: T0_def tick_get_device_def upd_tick_def)
  have T1: "T1 = cal_at T1 cpu 0 0 (t0 # t1 # us' @ ts) cs"
    using assms(6) us
    by (auto simp: T1_def cal_at_def clockevents_set_handler_def upd_dev_def T0_def upd_tick_def intro!: timers.equality)
  have d1: "devs T1 = (devs T)(d := (devs T d)\<lparr>event_handler := Some Tick_Calibrate_Handler, ce_state := s'\<rparr>)"
    by (auto simp: T1_def clockevents_set_handler_def upd_dev_def dev0)
  have ok: "mult (devs T1 d) \<noteq> 0" "has_next_event (devs T1 d)" using assms(3,4) by (simp_all add: d1)
  from cal_first_run [OF ok t(1-3), of cpu step "us' @ ts" cs] T1 obtain tick cs1 where
    f: "cal_first cpu d step 0 0 T1 = Some (tick, t1, cal_at T1 cpu t1 (word_of_int (t1 - t0)) (us' @ ts) cs1)" by metis
  have p0: "prev_cal_time (tick_device T1 cpu) = 0" by (subst T1) simp
  let ?q = "word_of_int (t1 - t0) :: u32" and ?sum = "word_of_int (t1 - t0) + word_of_int (last (t1 # us') - t1) :: u32"
  from cal_rest_run [OF ok us(2) t(5,4), of cpu tick ?q "?q * ?q" ?q ts cs1] obtain q' mnsq' cs2 where
    r: "cal_rest 99 cpu d tick t1 ?q (?q * ?q) (cal_at T1 cpu t1 ?q (us' @ ts) cs1) = Some (Inr (?sum, mnsq', cal_at T1 cpu (last (t1 # us')) q' ts cs2))"
    by blast
  have sum: "?sum = word_of_int (last us - t0)" by (simp add: us(1))
  define T2 where "T2 = clockevents_set_handler d None (cal_at T1 cpu (last (t1 # us')) (word_of_int (last us - t0) div 99 * 2) ts cs2)"
  have e: "devs T2 = (devs T)(d := (devs T d)\<lparr>event_handler := None, ce_state := s'\<rparr>)" "irq_times T2 = ts"
    "tick_get_period_min_ns cpu T2 = word_of_int (last us - t0) div 99 * 2"
    by (auto simp: T2_def clockevents_set_handler_def upd_dev_def d1 tick_get_period_min_ns_def)
  obtain rt where rt: "isqrt (sint ((99 * mnsq' - ?sum * ?sum) div (99 * 99))) = Some rt" using isqrt_variance by (auto simp: mult_numeral_1)
  let ?T0' = "T0\<lparr>calls := cs, devs := (devs T0)(d := (devs T0 d)\<lparr>ce_state := s'\<rparr>)\<rparr>"
  have ss': "clockevents_set_state (Some d) s T0 = Some ?T0'" using ss unfolding s'_def .
  have m1: "tick_set_mode cpu TICK_MODE_ONESHOT T0 =
      (if clockevents_feature_oneshot (devs T d) then Some (0, ?T0') else Some (- EINVAL, T0))"
  proof (cases "clockevents_feature_oneshot (devs T d)")
    case True
    then have "clockevents_set_state (Some d) CLOCK_EVT_STATE_ONESHOT T0 = Some ?T0'" using ss' by (simp only: s_def if_True)
    with True g show ?thesis by (simp add: tick_set_mode_def tick_set_mode_oneshot_def dev0)
  qed (use g in \<open>simp add: tick_set_mode_def tick_set_mode_oneshot_def dev0\<close>)
  have m2: "tick_set_mode cpu TICK_MODE_PERIODIC T0 = Some (0, ?T0')" if o: "\<not> clockevents_feature_oneshot (devs T d)"
  proof -
    have "clockevents_set_state (Some d) CLOCK_EVT_STATE_PERIODIC T0 = Some ?T0'" using ss' o by (simp only: s_def if_False)
    with o g assms(5) show ?thesis by (simp add: tick_set_mode_def tick_set_mode_periodic_def dev0)
  qed
  have "tick_calibrate_min cpu step d T = Some T2"
    using m1 m2 f r rt p0 sum
    by (simp add: tick_calibrate_min_def T0_def [symmetric] T1_def [symmetric] T2_def Let_def)
  with e show ?thesis by blast
qed


section \<open>The users of the devices\<close>

text \<open>What the work on one device keeps.\<close>

definition keeps :: "nat \<Rightarrow> timers \<Rightarrow> timers \<Rightarrow> bool" where
  "keeps d T T' \<longleftrightarrow> (\<forall>e. e \<noteq> d \<longrightarrow> devs T' e = devs T e) \<and> features (devs T' d) = features (devs T d)
     \<and> (ce_state (devs T d) \<noteq> CLOCK_EVT_STATE_UNUSED \<longrightarrow> ce_state (devs T' d) \<noteq> CLOCK_EVT_STATE_UNUSED)
     \<and> clockevent_devices T' = clockevent_devices T \<and> wd_dev T' = wd_dev T
     \<and> (\<forall>c. tdev (tick_device T' c) = tdev (tick_device T c))"

lemma keeps_refl [simp]: "keeps d T T"
  by (simp add: keeps_def)

lemma keeps_trans [trans]: "keeps d T T' \<Longrightarrow> keeps d T' T'' \<Longrightarrow> keeps d T T''"
  by (auto simp: keeps_def)

lemma keeps_basic [simp]:
  "keeps d T (hw_call c T)" "keeps d T (clockevents_set_handler d h T)"
  "keeps d T (upd_tick cpu (\<lambda>t. t\<lparr>tick_period_min_ns := q\<rparr>) T)" "keeps d T (upd_tick cpu (\<lambda>t. t\<lparr>prev_cal_time := p\<rparr>) T)"
  "keeps d T (upd_tick cpu (\<lambda>t. t\<lparr>tick_period_min_ns := q, prev_cal_time := p\<rparr>) T)" "keeps d T (T\<lparr>irq_times := ts\<rparr>)"
  by (auto simp: keeps_def hw_call_def clockevents_set_handler_def upd_dev_def upd_tick_def)

lemma keeps_set_state:
  "clockevents_set_state (Some d) s T = Some T' \<Longrightarrow> s \<noteq> CLOCK_EVT_STATE_UNUSED \<Longrightarrow> keeps d T T'"
  by (auto simp: clockevents_set_state_def keeps_def upd_dev_def hw_call_def split: if_splits)

lemma keeps_program: "clockevents_program_timeout_ns d ns T = Some (r, T') \<Longrightarrow> keeps d T T'"
  by (auto simp: clockevents_program_timeout_ns_def bind_eq_Some_conv split: if_splits)

lemma keeps_handler: "tick_calibrate_handler cpu T = Some T' \<Longrightarrow> keeps d T T'"
  by (auto simp: tick_calibrate_handler_def keeps_def upd_tick_def Let_def split: list.splits if_splits)

lemma keeps_cal_wait:
  assumes "cal_wait cpu prev T = Some T'"
  shows "keeps d T T'"
proof (rule cal_wait.raw_induct [of "\<lambda>_ _ T T'. keeps d T T'", OF _ assms])
  fix f cpu prev T T'
  assume IH: "\<And>a b c e. f a b c = Some e \<Longrightarrow> keeps d c e"
    and s: "(if prev = prev_cal_time (tick_device T cpu) then tick_calibrate_handler cpu T \<bind> f cpu prev else Some T) = Some T'"
  show "keeps d T T'"
  proof (cases "prev = prev_cal_time (tick_device T cpu)")
    case True
    with s obtain T1 where "tick_calibrate_handler cpu T = Some T1" "f cpu prev T1 = Some T'" by (auto simp: bind_eq_Some_conv)
    then show ?thesis by (meson IH keeps_handler keeps_trans)
  qed (use s in simp)
qed

lemma keeps_cal_first:
  assumes "cal_first cpu d step tick prev T = Some r"
  shows "keeps d T (snd (snd r))"
proof (rule cal_first.raw_induct [of "\<lambda>cpu d step tick prev T r. keeps d T (snd (snd r))", OF _ assms])
  fix f cpu d step tick prev T r
  assume IH: "\<And>a b c e g h r. f a b c e g h = Some r \<Longrightarrow> keeps b h (snd (snd r))"
    and s: "(if tick_period_min_ns (tick_device T cpu) = 0
      then let tick = tick + step in clockevents_program_timeout_ns d tick T \<bind>
        (\<lambda>(_, T). cal_wait cpu prev T \<bind> (\<lambda>T. f cpu d step tick (prev_cal_time (tick_device T cpu)) T))
      else Some (tick, prev, T)) = Some r"
  show "keeps d T (snd (snd r))"
  proof (cases "tick_period_min_ns (tick_device T cpu) = 0")
    case True
    with s obtain e T1 T2 where "clockevents_program_timeout_ns d (tick + step) T = Some (e, T1)" "cal_wait cpu prev T1 = Some T2"
      "f cpu d step (tick + step) (prev_cal_time (tick_device T2 cpu)) T2 = Some r" by (auto simp: Let_def bind_eq_Some_conv)
    then show ?thesis by (meson IH keeps_program keeps_cal_wait keeps_trans)
  qed (use s in auto)
qed

lemma keeps_cal_rest:
  "cal_rest n cpu d tick prev mn mnsq T = Some r \<Longrightarrow> (case r of Inl T' \<Rightarrow> keeps d T T' | Inr (_, _, T') \<Rightarrow> keeps d T T')"
proof (induction n arbitrary: prev mn mnsq T)
  case (Suc n)
  let ?T1 = "upd_tick cpu (\<lambda>t. t\<lparr>tick_period_min_ns := 0\<rparr>) T"
  from Suc.prems obtain e T2 T3 where s: "clockevents_program_timeout_ns d tick ?T1 = Some (e, T2)" "cal_wait cpu prev T2 = Some T3"
    and r: "(if tick_period_min_ns (tick_device T3 cpu) = 0
        then Some (Inl (upd_tick cpu (\<lambda>t. t\<lparr>tick_period_min_ns := mn div of_nat (CALIBRATE_LOOPS - Suc n)\<rparr>) T3))
        else cal_rest n cpu d tick (prev_cal_time (tick_device T3 cpu)) (mn + tick_period_min_ns (tick_device T3 cpu))
          (mnsq + tick_period_min_ns (tick_device T3 cpu) * tick_period_min_ns (tick_device T3 cpu))
          (upd_tick cpu (\<lambda>t. t\<lparr>tick_period_min_ns := 0\<rparr>) T3)) = Some r"
    by (auto simp: bind_eq_Some_conv Let_def)
  have "keeps d T ?T1" by simp
  also have "keeps d \<dots> T2" by (rule keeps_program [OF s(1)])
  also have "keeps d \<dots> T3" by (rule keeps_cal_wait [OF s(2)])
  finally have k: "keeps d T T3" .
  show ?case
  proof (cases "tick_period_min_ns (tick_device T3 cpu) = 0")
    case True
    with r have "r = Inl (upd_tick cpu (\<lambda>t. t\<lparr>tick_period_min_ns := mn div of_nat (CALIBRATE_LOOPS - Suc n)\<rparr>) T3)" by simp
    moreover have "keeps d T (upd_tick cpu (\<lambda>t. t\<lparr>tick_period_min_ns := q\<rparr>) T3)" for q by (rule keeps_trans [OF k]) simp
    ultimately show ?thesis by (simp only: sum.case)
  next
    case False
    with r have "case r of Inl T' \<Rightarrow> keeps d (upd_tick cpu (\<lambda>t. t\<lparr>tick_period_min_ns := 0\<rparr>) T3) T'
        | Inr (_, _, T') \<Rightarrow> keeps d (upd_tick cpu (\<lambda>t. t\<lparr>tick_period_min_ns := 0\<rparr>) T3) T'" by (intro Suc.IH) auto
    moreover have "keeps d T (upd_tick cpu (\<lambda>t. t\<lparr>tick_period_min_ns := 0\<rparr>) T3)" by (rule keeps_trans [OF k]) simp
    ultimately show ?thesis by (auto split: sum.splits intro: keeps_trans)
  qed
qed auto

lemma keeps_modes:
  "tick_set_mode_periodic d T = Some (r, T') \<Longrightarrow> keeps d T T'" "tick_set_mode_oneshot d T = Some (r, T') \<Longrightarrow> keeps d T T'"
  by (auto simp: tick_set_mode_periodic_def tick_set_mode_oneshot_def bind_eq_Some_conv intro: keeps_set_state split: if_splits)

lemma keeps_tick_set_mode: "tick_set_mode cpu mode T = Some (r, T') \<Longrightarrow> tick_get_device cpu T = Some d \<Longrightarrow> keeps d T T'"
  by (auto simp: tick_set_mode_def intro: keeps_modes split: tick_mode.splits)

lemma keeps_tdev: "keeps d T T' \<Longrightarrow> tick_get_device cpu T' = tick_get_device cpu T"
  by (simp add: keeps_def tick_get_device_def)


lemma keeps_calibrate:
  assumes "tick_calibrate_min cpu step d T = Some T'" "tick_get_device cpu T = Some d"
  shows "keeps d T T'"
proof -
  let ?T0 = "upd_tick cpu (\<lambda>t. t\<lparr>tick_period_min_ns := 0, prev_cal_time := 0\<rparr>) T"
  have k0: "keeps d T ?T0" by simp
  from assms(1) obtain r1 T1 r2 T2 where m: "tick_set_mode cpu TICK_MODE_ONESHOT ?T0 = Some (r1, T1)"
    "(if r1 \<noteq> 0 then tick_set_mode cpu TICK_MODE_PERIODIC T1 else Some (0, T1)) = Some (r2, T2)"
    and r: "r2 \<noteq> 0 \<Longrightarrow> T' = T2"
      "r2 = 0 \<Longrightarrow> (let T = clockevents_set_handler d (Some Tick_Calibrate_Handler) T2 in
        cal_first cpu d step 0 (prev_cal_time (tick_device T cpu)) T \<bind> (\<lambda>(tick, prev, T).
          let mn = tick_period_min_ns (tick_device T cpu) in
          cal_rest 99 cpu d tick prev mn (mn * mn) T \<bind> (\<lambda>r. case r of Inl T \<Rightarrow> Some T
          | Inr (mn, mnsq, T) \<Rightarrow> isqrt (sint ((99 * mnsq - mn * mn) div (99 * 99))) \<bind> (\<lambda>_.
              Some (clockevents_set_handler d None (upd_tick cpu (\<lambda>t. t\<lparr>tick_period_min_ns := mn div 99 * 2\<rparr>) T)))))) = Some T'"
    by (auto simp: tick_calibrate_min_def Let_def bind_eq_Some_conv split: if_splits prod.splits)
  have "keeps d ?T0 T1" by (rule keeps_tick_set_mode [OF m(1)]) (use assms(2) keeps_tdev [OF k0] in simp)
  then have k1: "keeps d T T1" by (rule keeps_trans [OF k0])
  have "keeps d T1 T2" using m(2) keeps_tick_set_mode [of cpu _ T1 r2 T2 d] assms(2) keeps_tdev [OF k1] by (auto split: if_splits)
  then have k2: "keeps d T T2" by (rule keeps_trans [OF k1])
  show ?thesis
  proof (cases "r2 = 0")
    case True
    let ?T3 = "clockevents_set_handler d (Some Tick_Calibrate_Handler) T2"
    from r(2) [OF True] obtain tick prev T4 q where f: "cal_first cpu d step 0 (prev_cal_time (tick_device ?T3 cpu)) ?T3 = Some (tick, prev, T4)"
      "cal_rest 99 cpu d tick prev (tick_period_min_ns (tick_device T4 cpu))
         (tick_period_min_ns (tick_device T4 cpu) * tick_period_min_ns (tick_device T4 cpu)) T4 = Some q"
      "(case q of Inl T \<Rightarrow> Some T | Inr (mn, mnsq, T) \<Rightarrow> isqrt (sint ((99 * mnsq - mn * mn) div 9801)) \<bind> (\<lambda>_.
              Some (clockevents_set_handler d None (upd_tick cpu (\<lambda>t. t\<lparr>tick_period_min_ns := mn div 99 * 2\<rparr>) T)))) = Some T'"
      by (auto simp: Let_def bind_eq_Some_conv)
    have "keeps d T ?T3" by (rule keeps_trans [OF k2]) simp
    also have "keeps d \<dots> T4" using keeps_cal_first [OF f(1)] by simp
    finally have k4: "keeps d T T4" .
    show ?thesis
    proof (cases q)
      case (Inl T5)
      with f(3) keeps_cal_rest [OF f(2)] k4 show ?thesis by (auto intro: keeps_trans)
    next
      case (Inr x)
      obtain a b T5 where x: "x = (a, b, T5)" by (cases x) auto
      then have "keeps d T4 T5" using keeps_cal_rest [OF f(2)] Inr by simp
      moreover have "T' = clockevents_set_handler d None (upd_tick cpu (\<lambda>t. t\<lparr>tick_period_min_ns := a div 99 * 2\<rparr>) T5)"
        using f(3) Inr x by (auto simp: bind_eq_Some_conv)
      moreover have "keeps d T5 (clockevents_set_handler d None (upd_tick cpu (\<lambda>t. t\<lparr>tick_period_min_ns := a div 99 * 2\<rparr>) T5))"
        by (rule keeps_trans [OF _ keeps_basic(2)]) simp
      ultimately show ?thesis using k4 by (blast intro: keeps_trans)
    qed
  qed (use r(1) k2 in simp)
qed

text \<open>A device that is unused before it is taken by the ticker of a processor.\<close>

lemma tick_check_cases:
  assumes "tick_check_device cpu step (Some d) T = Some T'"
  shows "T' = T \<or> tick_get_device cpu T = None \<and> clockevents_feature_periodic (devs T d)
     \<and> ce_state (devs T d) = CLOCK_EVT_STATE_UNUSED \<and> ce_state (devs T' d) \<noteq> CLOCK_EVT_STATE_UNUSED
     \<and> keeps d (tick_set_device d cpu T) T'"
proof (cases "tick_check_preferred (tick_get_device cpu T) d T")
  case True
  then have p: "clockevents_feature_periodic (devs T d)" "tick_get_device cpu T = None"
    by (auto simp: tick_check_preferred_def split: if_splits)
  with True assms obtain T1 T2 T3 r where s: "ce_state (devs T d) = CLOCK_EVT_STATE_UNUSED"
    "clockevents_set_state (Some d) CLOCK_EVT_STATE_SHUTDOWN T = Some T1"
    "tick_calibrate_min cpu step d (hw_call (Irq_Set_Affinity (ce_irq (devs T1 d)) cpu) (tick_set_device d cpu T1)) = Some T2"
    "tick_set_mode_periodic d T2 = Some (r, T')"
    by (auto simp: tick_check_device_def clockevents_exchange_device_def tick_setup_device_def Let_def bind_eq_Some_conv tick_set_device_def upd_tick_def
        split: if_splits)
  have st: "ce_state (devs T1 d) = CLOCK_EVT_STATE_SHUTDOWN"
    using s(1,2) by (auto simp: clockevents_set_state_def clockevents_state_supported_def upd_dev_def split: if_splits)
  have "keeps d T T1" by (rule keeps_set_state [OF s(2)]) simp
  then have "keeps d (tick_set_device d cpu T) (tick_set_device d cpu T1)"
    by (auto simp: keeps_def tick_set_device_def upd_tick_def)
  moreover have k: "keeps d (tick_set_device d cpu T1) T'"
  proof -
    let ?T = "hw_call (Irq_Set_Affinity (ce_irq (devs T1 d)) cpu) (tick_set_device d cpu T1)"
    have "keeps d (tick_set_device d cpu T1) ?T" by simp
    also have "keeps d \<dots> T2"
      by (rule keeps_calibrate [OF s(3)]) (simp add: hw_call_def tick_set_device_def upd_tick_def tick_get_device_def)
    also have "keeps d \<dots> T'" by (rule keeps_modes(1) [OF s(4)])
    finally show ?thesis .
  qed
  moreover have "ce_state (devs T' d) \<noteq> CLOCK_EVT_STATE_UNUSED"
    using k st by (simp add: keeps_def tick_set_device_def upd_tick_def)
  ultimately show ?thesis using p s(1) by (blast intro: keeps_trans)
qed (use assms in \<open>auto simp: tick_check_device_def\<close>)

lemma watchdog_check_cases:
  assumes "watchdog_check_device (Some d) T = Some T'"
  shows "T' = T \<or> wd_dev T = None \<and> clockevents_feature_watchdog (devs T d) \<and> ce_state (devs T d) = CLOCK_EVT_STATE_UNUSED
     \<and> ce_state (devs T' d) = CLOCK_EVT_STATE_WATCHDOG \<and> keeps d (T\<lparr>wd_dev := Some d\<rparr>) T'"
proof (cases "watchdog_check_preferred (wd_dev T) d T")
  case True
  then have p: "clockevents_feature_watchdog (devs T d)" "wd_dev T = None"
    by (auto simp: watchdog_check_preferred_def split: if_splits)
  with True assms obtain T1 T2 where s: "ce_state (devs T d) = CLOCK_EVT_STATE_UNUSED"
    "clockevents_set_state (Some d) CLOCK_EVT_STATE_SHUTDOWN T = Some T1"
    "clockevents_set_state (Some d) CLOCK_EVT_STATE_WATCHDOG (hw_call (Irq_Set_Affinity (ce_irq (devs T1 d)) 0) (T1\<lparr>wd_dev := Some d\<rparr>)) = Some T2"
    "T' = clockevents_set_handler d (Some Watchdog_Handler_Internal) T2"
    by (auto simp: watchdog_check_device_def clockevents_exchange_device_def watchdog_setup_device_def Let_def bind_eq_Some_conv split: if_splits)
  have k1: "keeps d T T1" by (rule keeps_set_state [OF s(2)]) simp
  then have "keeps d (T\<lparr>wd_dev := Some d\<rparr>) (T1\<lparr>wd_dev := Some d\<rparr>)" by (auto simp: keeps_def)
  also have "keeps d \<dots> (hw_call (Irq_Set_Affinity (ce_irq (devs T1 d)) 0) (T1\<lparr>wd_dev := Some d\<rparr>))" by simp
  also have "keeps d \<dots> T2" by (rule keeps_set_state [OF s(3)]) simp
  also have "keeps d \<dots> T'" by (simp add: s(4))
  finally have k: "keeps d (T\<lparr>wd_dev := Some d\<rparr>) T'" .
  have "clockevents_feature_watchdog (devs T1 d)" using p(1) k1 by (simp add: clockevents_feature_watchdog_def keeps_def)
  then have "ce_state (devs T' d) = CLOCK_EVT_STATE_WATCHDOG"
    using s(3,4) by (auto simp: clockevents_set_state_def clockevents_state_supported_def upd_dev_def hw_call_def
      clockevents_set_handler_def split: if_splits)
  with p s(1) k show ?thesis by blast
qed (use assms in \<open>auto simp: watchdog_check_device_def\<close>)


definition users_ok :: "timers \<Rightarrow> bool" where
  "users_ok T \<longleftrightarrow> distinct (clockevent_devices T)
     \<and> (\<forall>cpu d. tick_get_device cpu T = Some d \<longrightarrow> d \<in> set (clockevent_devices T) \<and> clockevents_feature_periodic (devs T d)
          \<and> ce_state (devs T d) \<noteq> CLOCK_EVT_STATE_UNUSED \<and> wd_dev T \<noteq> Some d \<and> (\<forall>c. tick_get_device c T = Some d \<longrightarrow> c = cpu))
     \<and> (\<forall>d. wd_dev T = Some d \<longrightarrow> d \<in> set (clockevent_devices T) \<and> clockevents_feature_watchdog (devs T d)
          \<and> ce_state (devs T d) \<noteq> CLOCK_EVT_STATE_UNUSED)"

lemma keeps_feature: "keeps d T T' \<Longrightarrow> features (devs T' e) = features (devs T e)"
  by (cases "e = d") (auto simp: keeps_def)

lemma keeps_used: "keeps d T T' \<Longrightarrow> ce_state (devs T e) \<noteq> CLOCK_EVT_STATE_UNUSED \<Longrightarrow> ce_state (devs T' e) \<noteq> CLOCK_EVT_STATE_UNUSED"
  by (cases "e = d") (auto simp: keeps_def)

lemma keeps_same: "keeps d T T' \<Longrightarrow> clockevent_devices T' = clockevent_devices T \<and> wd_dev T' = wd_dev T \<and> tick_get_device c T' = tick_get_device c T"
  by (simp add: keeps_def tick_get_device_def)

lemma users_ok_keeps:
  assumes "users_ok T" "keeps d T T'"
  shows "users_ok T'"
  using assms(1) keeps_feature [OF assms(2)] keeps_used [OF assms(2)] keeps_same [OF assms(2)]
  by (simp add: users_ok_def clockevents_feature_periodic_def clockevents_feature_watchdog_def)

lemma users_ok_tick:
  assumes "users_ok T" "tick_check_device cpu step (Some d) T = Some T'" "d \<in> set (clockevent_devices T)"
  shows "users_ok T' \<and> clockevent_devices T' = clockevent_devices T"
proof (cases "T' = T")
  case False
  let ?T = "tick_set_device d cpu T"
  from tick_check_cases [OF assms(2)] False have k: "keeps d ?T T'" and f: "tick_get_device cpu T = None"
    "clockevents_feature_periodic (devs T d)" "ce_state (devs T d) = CLOCK_EVT_STATE_UNUSED"
    "ce_state (devs T' d) \<noteq> CLOCK_EVT_STATE_UNUSED" by auto
  have t: "devs ?T = devs T" "clockevent_devices ?T = clockevent_devices T" "wd_dev ?T = wd_dev T"
    "tick_get_device c ?T = (if c = cpu then Some d else tick_get_device c T)" for c
    by (simp_all add: tick_set_device_def upd_tick_def tick_get_device_def)
  have st: "ce_state (devs T' e) \<noteq> CLOCK_EVT_STATE_UNUSED" if "ce_state (devs T e) \<noteq> CLOCK_EVT_STATE_UNUSED \<or> e = d" for e
    using keeps_used [OF k, of e] that f(4) by (auto simp: t)
  have nd: "wd_dev T \<noteq> Some d" "tick_get_device c T \<noteq> Some d" for c
    using assms(1) f(3) by (auto simp: users_ok_def)
  show ?thesis
    using assms(1,3) keeps_feature [OF k] keeps_same [OF k] st f nd
    by (auto simp: users_ok_def t clockevents_feature_periodic_def clockevents_feature_watchdog_def split: if_splits)
qed (use assms in simp)

lemma users_ok_watchdog:
  assumes "users_ok T" "watchdog_check_device (Some d) T = Some T'" "d \<in> set (clockevent_devices T)"
  shows "users_ok T' \<and> clockevent_devices T' = clockevent_devices T"
proof (cases "T' = T")
  case False
  let ?T = "T\<lparr>wd_dev := Some d\<rparr>"
  from watchdog_check_cases [OF assms(2)] False have k: "keeps d ?T T'" and f: "wd_dev T = None"
    "clockevents_feature_watchdog (devs T d)" "ce_state (devs T d) = CLOCK_EVT_STATE_UNUSED"
    "ce_state (devs T' d) = CLOCK_EVT_STATE_WATCHDOG" by auto
  have t: "tick_get_device c ?T = tick_get_device c T" for c by (simp add: tick_get_device_def)
  have st: "ce_state (devs T' e) \<noteq> CLOCK_EVT_STATE_UNUSED" if "ce_state (devs T e) \<noteq> CLOCK_EVT_STATE_UNUSED \<or> e = d" for e
    using keeps_used [OF k, of e] that f(4) by auto
  have nd: "tick_get_device c T \<noteq> Some d" for c using assms(1) f(3) by (auto simp: users_ok_def)
  show ?thesis
    using assms(1,3) keeps_feature [OF k] keeps_same [OF k] st f nd
    by (auto simp: users_ok_def t clockevents_feature_periodic_def clockevents_feature_watchdog_def)
qed (use assms in simp)

text \<open>The states of the timers: devices are registered, unused, one after the other, on any processor; between that, unused
  devices are offered and the timers are used.\<close>

inductive timer_reach :: "timers \<Rightarrow> bool" where
  start: "clockevent_devices T = [] \<Longrightarrow> wd_dev T = None \<Longrightarrow> (\<forall>cpu. tick_get_device cpu T = None) \<Longrightarrow> timer_reach T"
| register: "timer_reach T \<Longrightarrow> d \<notin> set (clockevent_devices T) \<Longrightarrow> clockevents_register_device cpu step (Some d) T = Some T'
    \<Longrightarrow> timer_reach T'"
| offer: "timer_reach T \<Longrightarrow> clockevents_offer_device cpu step T = Some (r, T') \<Longrightarrow> timer_reach T'"
| mode: "timer_reach T \<Longrightarrow> tick_set_mode cpu md T = Some (r, T') \<Longrightarrow> timer_reach T'"
| next_tick: "timer_reach T \<Longrightarrow> tick_set_next_ns_for_cpu this ns cpu T = Some (r, T') \<Longrightarrow> timer_reach T'"
| watchdog: "timer_reach T \<Longrightarrow> watchdog_set_mode wm T = Some (r, T') \<Longrightarrow> timer_reach T'"
| feed: "timer_reach T \<Longrightarrow> watchdog_feed ns T = Some (r, T') \<Longrightarrow> timer_reach T'"

lemma users_ok_register:
  assumes "users_ok T" "d \<notin> set (clockevent_devices T)" "clockevents_register_device cpu step (Some d) T = Some T'"
  shows "users_ok T'"
proof (cases "T' = T")
  case False
  let ?T = "T\<lparr>clockevent_devices := clockevent_devices T @ [d]\<rparr>"
  from assms(3) False obtain T1 T2 where s: "watchdog_check_device (Some d) ?T = Some T1"
    "(if ce_state (devs T1 d) = CLOCK_EVT_STATE_UNUSED then tick_check_device cpu step (Some d) T1 else Some T1) = Some T2"
    "tick_check_device cpu step (Some d) T2 = Some T'"
  proof -
    have "watchdog_check_device (Some d) ?T \<bind> (\<lambda>T. (if ce_state (devs T d) = CLOCK_EVT_STATE_UNUSED
        then tick_check_device cpu step (Some d) T else Some T) \<bind> tick_check_device cpu step (Some d)) = Some T'"
      using assms(3) False by (simp add: clockevents_register_device_def Let_def split: if_splits)
    then show thesis unfolding bind_eq_Some_conv using that by blast
  qed
  have "users_ok ?T" using assms(1,2) by (auto simp: users_ok_def tick_get_device_def)
  from users_ok_watchdog [OF this s(1)] have 1: "users_ok T1" "d \<in> set (clockevent_devices T1)" by auto
  then have 2: "users_ok T2 \<and> d \<in> set (clockevent_devices T2)"
    using s(2) users_ok_tick [OF 1(1), of cpu step d T2] by (auto split: if_splits)
  with users_ok_tick [OF _ s(3)] show ?thesis by blast
qed (use assms in simp)

lemma users_ok_offer:
  assumes "users_ok T" "clockevents_offer_device cpu step T = Some (r, T')"
  shows "users_ok T'"
proof (cases "List.find (\<lambda>d. ce_state (devs T d) = CLOCK_EVT_STATE_UNUSED) (clockevent_devices T)")
  case (Some d)
  then have d: "d \<in> set (clockevent_devices T)" by (auto simp: find_Some_iff)
  from Some assms(2) obtain T1 where s: "watchdog_check_device (Some d) T = Some T1"
    "(if ce_state (devs T1 d) = CLOCK_EVT_STATE_UNUSED then tick_check_device cpu step (Some d) T1 else Some T1) = Some T'"
    by (auto simp: clockevents_offer_device_def bind_eq_Some_conv)
  from users_ok_watchdog [OF assms(1) s(1) d] have 1: "users_ok T1" "d \<in> set (clockevent_devices T1)" using d by auto
  then show ?thesis using s(2) users_ok_tick [OF 1(1), of cpu step d T'] by (auto split: if_splits)
qed (use assms in \<open>auto simp: clockevents_offer_device_def\<close>)

lemma timer_reach_users: "timer_reach T \<Longrightarrow> users_ok T"
proof (induction rule: timer_reach.induct)
  case (start T)
  then show ?case by (simp add: users_ok_def)
next
  case (mode T cpu md r T')
  then have "\<exists>d. keeps d T T'"
    by (cases "tick_get_device cpu T") (auto simp: tick_set_mode_def dest: keeps_modes split: tick_mode.splits)
  with mode users_ok_keeps show ?case by blast
next
  case (next_tick T this ns cpu r T')
  then have "\<exists>d. keeps d T T'"
    by (cases "tick_get_device cpu T") (auto simp: tick_set_next_ns_for_cpu_def Let_def dest: keeps_program)
  with next_tick users_ok_keeps show ?case by blast
next
  case (watchdog T wm r T')
  then have "\<exists>d. keeps d T T'"
    by (cases "wd_dev T"; cases wm) (auto simp: watchdog_set_mode_def bind_eq_Some_conv dest: keeps_set_state)
  with watchdog users_ok_keeps show ?case by blast
next
  case (feed T ns r T')
  then have "\<exists>d. keeps d T T'" by (cases "wd_dev T") (auto simp: watchdog_feed_def dest: keeps_program)
  with feed users_ok_keeps show ?case by blast
next
  case (register T d cpu step T')
  then show ?case by (blast intro: users_ok_register)
next
  case (offer T cpu step r T')
  then show ?case by (blast intro: users_ok_offer)
qed


lemma set_state_exact:
  assumes "has_set_state (devs T d)" "clockevents_state_supported (devs T d) s"
  obtains cs where "clockevents_set_state (Some d) s T = Some (T\<lparr>calls := cs, devs := (devs T)(d := (devs T d)\<lparr>ce_state := s\<rparr>)\<rparr>)"
  using set_state_run [OF assms(1), of s] assms(2) by auto

lemma tick_check_run:
  assumes "tick_get_device cpu T = None" "ce_state (devs T d) = CLOCK_EVT_STATE_UNUSED" "clockevents_feature_periodic (devs T d)"
    and "has_set_state (devs T d)" "has_next_event (devs T d)" "mult (devs T d) \<noteq> 0"
    and "irq_times T = t0 # us @ ts" "length us = 100" "0 < t0" "ticking t0 us"
  shows "\<exists>T'. tick_check_device cpu step (Some d) T = Some T' \<and> tick_get_device cpu T' = Some d
     \<and> ce_state (devs T' d) = CLOCK_EVT_STATE_PERIODIC \<and> event_handler (devs T' d) = None
     \<and> tick_get_period_min_ns cpu T' = word_of_int (last us - t0) div 99 * 2"
proof -
  obtain cs where s1: "clockevents_set_state (Some d) CLOCK_EVT_STATE_SHUTDOWN T =
      Some (T\<lparr>calls := cs, devs := (devs T)(d := (devs T d)\<lparr>ce_state := CLOCK_EVT_STATE_SHUTDOWN\<rparr>)\<rparr>)" (is "_ = Some ?T1")
    by (rule set_state_exact [of T d CLOCK_EVT_STATE_SHUTDOWN]) (use assms(4) in \<open>auto simp: clockevents_state_supported_def\<close>)
  define T2 where "T2 = hw_call (Irq_Set_Affinity (ce_irq (devs (tick_set_device d cpu ?T1) d)) cpu) (tick_set_device d cpu ?T1)"
  have T2: "tick_get_device cpu T2 = Some d" "irq_times T2 = irq_times T"
    "devs T2 = (devs T)(d := (devs T d)\<lparr>ce_state := CLOCK_EVT_STATE_SHUTDOWN\<rparr>)"
    by (simp_all add: T2_def hw_call_def tick_set_device_def upd_tick_def tick_get_device_def)
  have per: "clockevents_feature_periodic (devs T2 d)" using assms(3) by (simp add: T2 clockevents_feature_periodic_def)
  obtain T3 s where T3: "tick_calibrate_min cpu step d T2 = Some T3"
    "tick_get_period_min_ns cpu T3 = word_of_int (last us - t0) div 99 * 2"
    "devs T3 = (devs T2)(d := (devs T2 d)\<lparr>event_handler := None, ce_state := s\<rparr>)"
    using tick_calibrate_run [of cpu T2 d t0 us ts step] assms(4-10) per by (auto simp: T2)
  have k: "keeps d T2 T3" by (rule keeps_calibrate [OF T3(1) T2(1)])
  have sup: "has_set_state (devs T3 d)" "clockevents_state_supported (devs T3 d) CLOCK_EVT_STATE_PERIODIC"
    using assms(4) per by (simp_all add: T3(3) T2(3) clockevents_state_supported_def clockevents_feature_periodic_def)
  from set_state_exact [OF this] obtain cs' where s4: "clockevents_set_state (Some d) CLOCK_EVT_STATE_PERIODIC T3 =
      Some (T3\<lparr>calls := cs', devs := (devs T3)(d := (devs T3 d)\<lparr>ce_state := CLOCK_EVT_STATE_PERIODIC\<rparr>)\<rparr>)" .
  have "clockevents_feature_periodic (devs T3 d)" using sup(2) by (simp add: clockevents_state_supported_def)
  with s4 have m: "tick_set_mode_periodic d T3 =
      Some (0, T3\<lparr>calls := cs', devs := (devs T3)(d := (devs T3 d)\<lparr>ce_state := CLOCK_EVT_STATE_PERIODIC\<rparr>)\<rparr>)"
    by (simp add: tick_set_mode_periodic_def)
  have "tick_check_device cpu step (Some d) T = Some (T3\<lparr>calls := cs', devs := (devs T3)(d := (devs T3 d)\<lparr>ce_state := CLOCK_EVT_STATE_PERIODIC\<rparr>)\<rparr>)"
    using assms(1-3) s1 T3(1) m
    by (simp add: tick_check_device_def tick_check_preferred_def clockevents_exchange_device_def tick_setup_device_def Let_def T2_def [symmetric])
  moreover have "tick_get_device cpu T3 = Some d" using keeps_tdev [OF k] T2(1) by simp
  ultimately show ?thesis using T3(2,3) by (simp add: tick_get_device_def tick_get_period_min_ns_def)
qed

section \<open>Properties\<close>

text \<open>The integer square root of \<^verbatim>\<open>tick.c\<close> ends without overflow and is the root rounded down, for every
  number that is not negative.\<close>

theorem isqrt_correct:
  assumes "0 \<le> n" and "n < 2 ^ 31"
  shows "\<exists>r. isqrt n = Some r \<and> 0 \<le> r \<and> r * r \<le> n \<and> n < (r + 1) * (r + 1)"
  by (rule isqrt_spec [OF assms])

theorem isqrt_correct_witness: "\<exists>r. isqrt 1000 = Some r \<and> r * r \<le> 1000 \<and> 1000 < (r + 1) * (r + 1)"
  using isqrt_correct [of 1000] by auto

text \<open>Registering a timer starts the ticker.  An unused periodic timer that the watchdog does not take, registered on
  a processor without a ticker, is calibrated with a hundred interrupts, whenever they come, and drives the ticks of the processor
  from then on; the shortest tick is set to twice the measured mean (a hundred intervals divided by 99).\<close>

theorem timer_register_correct:
  assumes "tick_get_device cpu T = None" and "ce_state (devs T d) = CLOCK_EVT_STATE_UNUSED"
    and "clockevents_feature_periodic (devs T d)" and "\<not> clockevents_feature_watchdog (devs T d) \<or> wd_dev T \<noteq> None"
    and "has_set_state (devs T d)" and "has_next_event (devs T d)" and "has_next_ktime (devs T d)" and "mult (devs T d) \<noteq> 0"
    and "irq_times T = t0 # us @ ts" and "length us = 100" and "0 < t0" and "ticking t0 us" and "last us - t0 < 2 ^ 31"
  shows "\<exists>T'. clockevents_register_device cpu step (Some d) T = Some T' \<and> tick_get_device cpu T' = Some d
     \<and> ce_state (devs T' d) = CLOCK_EVT_STATE_PERIODIC
     \<and> uint (tick_get_period_min_ns cpu T') = 2 * ((last us - t0) div 99)"
proof -
  let ?T = "T\<lparr>clockevent_devices := clockevent_devices T @ [d]\<rparr>"
  have w: "watchdog_check_device (Some d) ?T = Some ?T"
    using assms(4) by (auto simp: watchdog_check_device_def watchdog_check_preferred_def)
  obtain T' where T': "tick_check_device cpu step (Some d) ?T = Some T'" "tick_get_device cpu T' = Some d"
    "ce_state (devs T' d) = CLOCK_EVT_STATE_PERIODIC" "tick_get_period_min_ns cpu T' = word_of_int (last us - t0) div 99 * 2"
    using tick_check_run [of cpu ?T d t0 us ts step] assms by (auto simp: tick_get_device_def)
  have again: "tick_check_device cpu step (Some d) T' = Some T'"
    by (simp add: tick_check_device_def tick_check_preferred_def T'(2) Let_def)
  have "us \<noteq> []" using assms(10) by auto
  then have "0 \<le> last us - t0" using assms(12) by (rule ticking_last)
  then have u: "uint (word_of_int (last us - t0) :: u32) = last us - t0"
    unfolding uint_word_of_int using assms(13) by (intro mod_pos_pos_trivial) auto
  have "uint (word_of_int (last us - t0) div 99 * 2 :: u32) = 2 * ((last us - t0) div 99)"
  proof -
    have "uint (word_of_int (last us - t0) div 99 :: u32) = (last us - t0) div 99" unfolding uint_div u by simp
    moreover have "0 \<le> (last us - t0) div 99" "(last us - t0) div 99 * 2 < 2 ^ 32"
      using assms(13) \<open>0 \<le> last us - t0\<close> by (auto simp: pos_imp_zdiv_nonneg_iff)
    ultimately show ?thesis by (simp add: uint_word_ariths mod_pos_pos_trivial)
  qed
  with T' again w assms(2,5-7) show ?thesis by (simp add: clockevents_register_device_def Let_def)
qed


definition demo_timer :: "u32 \<Rightarrow> clock_event_device" where
  "demo_timer f = \<lparr>event_handler = None, has_next_event = True, has_next_ktime = True, max_delta_ns = 0xFFFFFFFF, min_delta_ns = 10,
     mult = 250, ce_state = CLOCK_EVT_STATE_UNUSED, features = f, has_set_state = True, has_suspend = True, has_resume = True, ce_irq = 8\<rparr>"

definition demo_timers :: "u32 \<Rightarrow> ktime list \<Rightarrow> timers" where
  "demo_timers f ts = \<lparr>devs = \<lambda>_. demo_timer f, clockevent_devices = [], tick_device = \<lambda>_. \<lparr>prev_cal_time = 0, tick_period_min_ns = 0, tdev = None\<rparr>,
     wd_dev = None, wd_handler = None, irq_times = ts, calls = []\<rparr>"

definition demo_irqs :: "ktime list" where
  "demo_irqs = map (\<lambda>i. 5000 + 1000 * int i) [1..<101]"

lemma demo_irqs_ok: "length demo_irqs = 100" "ticking 5000 demo_irqs" "last demo_irqs = 105000"
  by code_simp+

theorem timer_register_correct_witness:
  "\<exists>T'. clockevents_register_device 0 100 (Some 0) (demo_timers 7 (5000 # demo_irqs @ [])) = Some T'
     \<and> ce_state (devs T' 0) = CLOCK_EVT_STATE_PERIODIC \<and> uint (tick_get_period_min_ns 0 T') = 2020"
  using timer_register_correct [of 0 "demo_timers 7 (5000 # demo_irqs @ [])" 0 5000 demo_irqs "[]" 100] demo_irqs_ok
  by (auto simp: demo_timers_def demo_timer_def tick_get_device_def clockevents_feature_periodic_def clockevents_feature_watchdog_def)

text \<open>C15: no timer has two users.  However devices are registered and offered on whatever processors, a device that drives the ticks
  of a processor is registered, periodic and in use, drives no other processor and is not the watchdog; the watchdog device is registered,
  in use and can be one.\<close>

theorem timer_users_distinct:
  assumes "timer_reach T"
  shows "distinct (clockevent_devices T)
     \<and> (\<forall>cpu d. tick_get_device cpu T = Some d \<longrightarrow> d \<in> set (clockevent_devices T) \<and> clockevents_feature_periodic (devs T d)
          \<and> ce_state (devs T d) \<noteq> CLOCK_EVT_STATE_UNUSED \<and> wd_dev T \<noteq> Some d \<and> (\<forall>c. tick_get_device c T = Some d \<longrightarrow> c = cpu))
     \<and> (\<forall>d. wd_dev T = Some d \<longrightarrow> d \<in> set (clockevent_devices T) \<and> clockevents_feature_watchdog (devs T d)
          \<and> ce_state (devs T d) \<noteq> CLOCK_EVT_STATE_UNUSED)"
  using timer_reach_users [OF assms] unfolding users_ok_def .

theorem timer_users_distinct_witness:
  "\<exists>T. clockevents_register_device 0 100 (Some 0) (demo_timers 8 []) = Some T \<and> wd_dev T = Some 0
     \<and> ce_state (devs T 0) \<noteq> CLOCK_EVT_STATE_UNUSED \<and> 0 \<in> set (clockevent_devices T)"
proof -
  have "timer_reach (demo_timers 8 [])" by (rule timer_reach.start) (simp_all add: demo_timers_def tick_get_device_def)
  moreover have "\<exists>T. clockevents_register_device 0 100 (Some 0) (demo_timers 8 []) = Some T \<and> wd_dev T = Some 0"
    by (simp add: clockevents_register_device_def watchdog_check_device_def watchdog_check_preferred_def demo_timers_def demo_timer_def
      clockevents_feature_watchdog_def clockevents_exchange_device_def clockevents_set_state_def clockevents_state_supported_def
      watchdog_setup_device_def hw_call_def upd_dev_def clockevents_set_handler_def tick_check_device_def tick_check_preferred_def
      clockevents_feature_periodic_def Let_def)
  then obtain T where T: "clockevents_register_device 0 100 (Some 0) (demo_timers 8 []) = Some T" "wd_dev T = Some 0" by blast
  ultimately have "timer_reach T" by (intro timer_reach.register [of "demo_timers 8 []" 0 0 100 T]) (simp_all add: demo_timers_def)
  from timer_users_distinct [OF this] T show ?thesis by blast
qed

text \<open>C38: a timer that can be both fails.  When the first device to be registered can be a watchdog and a ticker, the watchdog takes it, and the
  second, unconditional offer to the ticker stops the machine, since the device is no longer unused.\<close>

theorem timer_register_halts:
  assumes "ce_state (devs T d) = CLOCK_EVT_STATE_UNUSED" and "clockevents_feature_watchdog (devs T d)" and "wd_dev T = None"
    and "clockevents_feature_periodic (devs T d)" and "tick_get_device cpu T = None"
    and "has_set_state (devs T d)" and "has_next_event (devs T d)" and "has_next_ktime (devs T d)"
  shows "clockevents_register_device cpu step (Some d) T = None"
proof (rule ccontr)
  let ?T = "T\<lparr>clockevent_devices := clockevent_devices T @ [d]\<rparr>"
  assume "clockevents_register_device cpu step (Some d) T \<noteq> None"
  then obtain T' where r: "clockevents_register_device cpu step (Some d) T = Some T'" by blast
  have "watchdog_check_device (Some d) ?T \<bind> (\<lambda>T. (if ce_state (devs T d) = CLOCK_EVT_STATE_UNUSED
        then tick_check_device cpu step (Some d) T else Some T) \<bind> tick_check_device cpu step (Some d)) = Some T'"
    using r assms(6-8) by (simp add: clockevents_register_device_def Let_def)
  then obtain T1 T2 where s: "watchdog_check_device (Some d) ?T = Some T1"
    "(if ce_state (devs T1 d) = CLOCK_EVT_STATE_UNUSED then tick_check_device cpu step (Some d) T1 else Some T1) = Some T2"
    "tick_check_device cpu step (Some d) T2 = Some T'" unfolding bind_eq_Some_conv by blast
  have "wd_dev T1 = Some d"
    using s(1) assms(1-3) by (auto simp: watchdog_check_device_def watchdog_check_preferred_def watchdog_setup_device_def
      clockevents_exchange_device_def clockevents_set_state_def upd_dev_def hw_call_def clockevents_set_handler_def bind_eq_Some_conv
      Let_def split: if_splits)
  then have "T1 \<noteq> ?T" using assms(3) by auto
  with watchdog_check_cases [OF s(1)] have w: "ce_state (devs T1 d) = CLOCK_EVT_STATE_WATCHDOG" "keeps d (?T\<lparr>wd_dev := Some d\<rparr>) T1"
    by auto
  then have T1: "tick_get_device cpu T1 = None" "clockevents_feature_periodic (devs T1 d)"
    using assms(4,5) keeps_same [OF w(2), of cpu] keeps_feature [OF w(2), of d]
    by (simp_all add: tick_get_device_def clockevents_feature_periodic_def)
  with s(2,3) w(1) show False
    by (simp add: tick_check_device_def tick_check_preferred_def clockevents_exchange_device_def)
qed

theorem timer_register_halts_witness: "clockevents_register_device 0 100 (Some 0) (demo_timers 15 []) = None"
  by (rule timer_register_halts) (simp_all add: demo_timers_def demo_timer_def tick_get_device_def
    clockevents_feature_periodic_def clockevents_feature_watchdog_def)


lemma program_timeout_run:
  assumes "mult (devs T d) \<noteq> 0" "has_next_event (devs T d)" "ce_state (devs T d) \<noteq> CLOCK_EVT_STATE_SHUTDOWN"
  defines "v \<equiv> (\<lambda>ns. clamp ns (min_delta_ns (devs T d)) (max_delta_ns (devs T d)))"
  obtains evt where "clockevents_program_timeout_ns d ns T = Some (if evt \<noteq> ns then 1 else 0, hw_call (Set_Next_Event d evt) T)"
    "unat evt * unat (mult (devs T d)) \<le> unat (v ns)" "unat (v ns) < (unat evt + 1) * unat (mult (devs T d))"
  using delta2ticks_spec [OF assms(1), of ns] assms(2,3) that by (auto simp: clockevents_program_timeout_ns_def v_def)

text \<open>C37: a running device is programmed for the time asked for, clamped to its range: \<^verbatim>\<open>clockevents_program_timeout_ns\<close> sets
  the number of device ticks that is at most the clamped time and less than one tick below it.  So the timeout of any
  time that is not below the shortest of the device is not late, and one within the range is less than a tick early;
  a time below the shortest becomes the shortest.\<close>

theorem program_timeout_correct:
  assumes "mult (devs T d) \<noteq> 0" and "has_next_event (devs T d)" and "ce_state (devs T d) \<noteq> CLOCK_EVT_STATE_SHUTDOWN"
    and "min_delta_ns (devs T d) \<le> max_delta_ns (devs T d)"
  shows "\<exists>evt r. clockevents_program_timeout_ns d ns T = Some (r, hw_call (Set_Next_Event d evt) T)
     \<and> (if ns < min_delta_ns (devs T d)
        then unat evt * unat (mult (devs T d)) \<le> unat (min_delta_ns (devs T d))
           \<and> unat (min_delta_ns (devs T d)) < (unat evt + 1) * unat (mult (devs T d))
        else unat evt * unat (mult (devs T d)) \<le> unat ns
           \<and> unat (min ns (max_delta_ns (devs T d))) < (unat evt + 1) * unat (mult (devs T d)))"
proof -
  have v: "clamp ns (min_delta_ns (devs T d)) (max_delta_ns (devs T d))
      = (if ns < min_delta_ns (devs T d) then min_delta_ns (devs T d) else min ns (max_delta_ns (devs T d)))"
    using assms(4) by (auto simp: clamp_def Let_def min_def)
  obtain evt where e: "clockevents_program_timeout_ns d ns T = Some (if evt \<noteq> ns then 1 else 0, hw_call (Set_Next_Event d evt) T)"
    "unat evt * unat (mult (devs T d)) \<le> unat (clamp ns (min_delta_ns (devs T d)) (max_delta_ns (devs T d)))"
    "unat (clamp ns (min_delta_ns (devs T d)) (max_delta_ns (devs T d))) < (unat evt + 1) * unat (mult (devs T d))"
    using program_timeout_run [OF assms(1-3), of ns] by blast
  have "unat (min ns (max_delta_ns (devs T d))) \<le> unat ns" by (simp add: word_le_nat_alt [symmetric])
  then have b: "\<not> ns < min_delta_ns (devs T d) \<Longrightarrow> unat evt * unat (mult (devs T d)) \<le> unat ns"
    using e(2) unfolding v by simp
  obtain r where "clockevents_program_timeout_ns d ns T = Some (r, hw_call (Set_Next_Event d evt) T)" using e(1) by blast
  with e(2,3) b show ?thesis unfolding v by (intro exI [of _ evt] exI [of _ r]) (simp split: if_splits)
qed

theorem program_timeout_correct_witness:
  "\<exists>evt r. clockevents_program_timeout_ns 0 10100 (demo_timers 7 []) = Some (r, hw_call (Set_Next_Event 0 evt) (demo_timers 7 []))
     \<and> unat evt * 250 \<le> 10100 \<and> 10100 < (unat evt + 1) * 250"
  using program_timeout_correct [of "demo_timers 7 []" 0 10100]
  by (auto simp: demo_timers_def demo_timer_def min_def)

text \<open>What the function returns: 0 for a time within the range only when a tick is a nanosecond long or the time is 0.  Its
  comment promises 0 whenever the time was not clamped, but it compares ticks with nanoseconds.\<close>

theorem program_timeout_result:
  assumes "mult (devs T d) \<noteq> 0" and "has_next_event (devs T d)" and "ce_state (devs T d) \<noteq> CLOCK_EVT_STATE_SHUTDOWN"
    and "clockevents_timout_in_range (devs T d) ns"
  shows "\<exists>r T'. clockevents_program_timeout_ns d ns T = Some (r, T') \<and> (r = 0 \<longleftrightarrow> mult (devs T d) = 1 \<or> ns = 0)"
proof -
  from assms(4) have v: "clamp ns (min_delta_ns (devs T d)) (max_delta_ns (devs T d)) = ns" by (simp add: clockevents_timout_in_range_def)
  obtain evt where e: "clockevents_program_timeout_ns d ns T = Some (if evt \<noteq> ns then 1 else 0, hw_call (Set_Next_Event d evt) T)"
    "unat evt * unat (mult (devs T d)) \<le> unat ns" "unat ns < (unat evt + 1) * unat (mult (devs T d))"
    using program_timeout_run [OF assms(1-3), of ns] unfolding v by blast
  have m: "0 < unat (mult (devs T d))" using assms(1) by (simp add: unat_gt_0)
  have "evt = ns \<longleftrightarrow> mult (devs T d) = 1 \<or> ns = 0"
  proof
    assume "evt = ns"
    with e(2) have "unat (mult (devs T d)) \<le> 1 \<or> unat ns = 0" by auto
    with m show "mult (devs T d) = 1 \<or> ns = 0"
      by (metis One_nat_def Suc_leI le_antisym unat_1 unat_eq_zero word_unat_eq_iff)
  next
    assume "mult (devs T d) = 1 \<or> ns = 0"
    with e(2,3) m have "unat evt = unat ns" by auto
    then show "evt = ns" by (simp add: word_unat_eq_iff)
  qed
  with e show ?thesis by auto
qed

text \<open>C14: the scheduler is interrupted in time.  \<^verbatim>\<open>schedule\<close> dispatches a task, and the timer it then sets through the
  ticker of the processor fires no later than the task's time runs out, when the shortest tick of the scheduler is the one of the ticker and
  the timer can count it.\<close>

theorem schedule_sets_timer:
  assumes "sched_enabled c cpu" and "current c cpu = Some cur" and "kernel_schedulers c = [KSCHED_EDF, KSCHED_RR]"
    and "s0 = sched_update_runtime cur (clk 0) (st c)"
    and "edf_ok (Some cur) cpu s0" and "rr_ok (tmin cfg) s0"
    and "set (run (edf_queue s0 cpu)) \<inter> set (run (rr_queue s0 0)) = {}"
    and "\<exists>x \<in> set (run (rr_queue s0 0)). rr_elig cpu (task s0 x)"
    and "\<forall>t s'. edf_pick_next (tmin cfg) cpu (clk 0) (Some cur) s0 = Some (Some t, s') \<longrightarrow> uint (tmin cfg) < runtime (task s' t)"
    and "0 < tmin cfg" and "tmin cfg < 2 ^ 30" and "0 < n"
    and "tick_get_device cpu T = Some d" and "tick_get_period_min_ns cpu T = tmin cfg"
    and "mult (devs T d) \<noteq> 0" and "has_next_event (devs T d)" and "ce_state (devs T d) \<noteq> CLOCK_EVT_STATE_SHUTDOWN"
    and "min_delta_ns (devs T d) \<le> tmin cfg"
  shows "\<exists>t c' x r evt. schedule n cfg cpu clk c = Some c' \<and> current c' = (current c)(cpu := Some t) \<and> tick_next c' = Some x
     \<and> tick_set_next_ns cpu (word_of_int x) T = Some (r, hw_call (Set_Next_Event d evt) T)
     \<and> int (unat evt * unat (mult (devs T d))) \<le> runtime (task (st c') t)"
proof -
  obtain t c' x where c': "schedule n cfg cpu clk c = Some c'" "current c' = (current c)(cpu := Some t)" "tick_next c' = Some x"
    "0 < x" "x < 2 ^ 31" "x + uint (tmin cfg) \<le> runtime (task (st c') t)"
    using schedule_run [where clk = clk, OF assms(1-12)] by blast
  have ux: "uint (word_of_int x :: u32) = x"
    unfolding uint_word_of_int using c'(4,5) by (intro mod_pos_pos_trivial) auto
  define ns where "ns = (if word_of_int x < tmin cfg then tmin cfg else (word_of_int x :: u32))"
  have "uint ns \<le> x + uint (tmin cfg)" using c'(4) ux by (simp add: ns_def word_less_def)
  moreover have "tmin cfg \<le> ns" using ux by (simp add: ns_def not_less)
  ultimately have ns: "tmin cfg \<le> ns" "uint ns \<le> runtime (task (st c') t)" using c'(6) by linarith+
  have "clamp ns (min_delta_ns (devs T d)) (max_delta_ns (devs T d)) \<le> ns"
    using ns(1) assms(18) by (auto simp: clamp_def Let_def)
  then have le: "unat (clamp ns (min_delta_ns (devs T d)) (max_delta_ns (devs T d))) \<le> unat ns" by (simp add: word_le_nat_alt)
  obtain evt r where e: "clockevents_program_timeout_ns d ns T = Some (r, hw_call (Set_Next_Event d evt) T)"
    "unat evt * unat (mult (devs T d)) \<le> unat (clamp ns (min_delta_ns (devs T d)) (max_delta_ns (devs T d)))"
    using program_timeout_run [OF assms(15-17), of ns] by blast
  have "int (unat evt * unat (mult (devs T d))) \<le> int (unat ns)" using e(2) le by linarith
  also have "\<dots> = uint ns" by simp
  also note ns(2)
  finally have "int (unat evt * unat (mult (devs T d))) \<le> runtime (task (st c') t)" .
  moreover have "tick_set_next_ns cpu (word_of_int x) T = Some (r, hw_call (Set_Next_Event d evt) T)"
    using e(1) assms(13,14) by (simp add: tick_set_next_ns_def tick_set_next_ns_for_cpu_def tick_get_period_min_ns_def Let_def ns_def)
  ultimately show ?thesis using c' by blast
qed

theorem schedule_sets_timer_witness:
  "\<exists>c' x r evt. schedule 1 demo_cfg 0 (\<lambda>_. 1000) demo_core = Some c' \<and> tick_next c' = Some x
     \<and> tick_set_next_ns 0 (word_of_int x) ((demo_timers 7 [])\<lparr>tick_device := \<lambda>_. \<lparr>prev_cal_time = 0, tick_period_min_ns = tmin demo_cfg, tdev = Some 0\<rparr>\<rparr>)
        = Some (r, hw_call (Set_Next_Event 0 evt)
            ((demo_timers 7 [])\<lparr>tick_device := \<lambda>_. \<lparr>prev_cal_time = 0, tick_period_min_ns = tmin demo_cfg, tdev = Some 0\<rparr>\<rparr>))"
proof -
  let ?s = "sched_update_runtime 0 1000 (st demo_core)"
  let ?T = "(demo_timers 7 [])\<lparr>tick_device := \<lambda>_. \<lparr>prev_cal_time = 0, tick_period_min_ns = tmin demo_cfg, tdev = Some 0\<rparr>\<rparr>"
  have "sched_enabled demo_core 0" "current demo_core 0 = Some 0" "kernel_schedulers demo_core = [KSCHED_EDF, KSCHED_RR]"
    "edf_ok (Some 0) 0 ?s"
    "rr_ok (tmin demo_cfg) ?s" "set (run (edf_queue ?s 0)) \<inter> set (run (rr_queue ?s 0)) = {}"
    "\<exists>x \<in> set (run (rr_queue ?s 0)). rr_elig 0 (task ?s x)" by code_simp+
  moreover have "case edf_pick_next (tmin demo_cfg) 0 1000 (Some 0) ?s of
      Some (Some t, s') \<Rightarrow> uint (tmin demo_cfg) < runtime (task s' t) | _ \<Rightarrow> True" by code_simp
  then have "\<forall>t s'. edf_pick_next (tmin demo_cfg) 0 1000 (Some 0) ?s = Some (Some t, s')
      \<longrightarrow> uint (tmin demo_cfg) < runtime (task s' t)" by auto
  moreover have "0 < tmin demo_cfg" "tmin demo_cfg < 2 ^ 30" by code_simp+
  moreover have "min_delta_ns (devs ?T 0) \<le> tmin demo_cfg" "tick_get_device 0 ?T = Some 0"
    by (simp_all add: demo_timers_def demo_timer_def demo_cfg_def tick_get_device_def)
  moreover have "tick_get_period_min_ns 0 ?T = tmin demo_cfg" "mult (devs ?T 0) \<noteq> 0" "has_next_event (devs ?T 0)"
    "ce_state (devs ?T 0) \<noteq> CLOCK_EVT_STATE_SHUTDOWN" by (simp_all add: demo_timers_def demo_timer_def tick_get_period_min_ns_def)
  ultimately show ?thesis
    using schedule_sets_timer [of demo_core 0 0 ?s "\<lambda>_. 1000" demo_cfg 1 ?T 0] by auto
qed

end
