(* ===== verification/Proc_Task.thy ===== *)
theory Proc_Task
  imports Flight_Prelude "HOL-Library.Multiset"
begin

text \<open>
  Processing tasks and their trackers: \<^verbatim>\<open>lib/data_proc_task.c\<close> and \<^verbatim>\<open>lib/data_proc_tracker.c\<close>.

  A task carries lists of processing steps; a step is its operation code and the pointer to its additional data.
  The lists are those of the steps of the task's pool.  Tasks are named by numbers, and a tracker
  holds the names of its tasks.  The operator function of a tracker is user code: it gets the operation code and the
  task and yields its return code and the task as it left it, \<^term>\<open>None\<close> if it destroyed the task.
  Whether \<^verbatim>\<open>kzalloc\<close> grants a number of bytes is a parameter; a request of zero bytes is never granted.
\<close>

section \<open>Tasks\<close>

record proc_step =
  op_code :: u32
  op_info :: u32

record proc_task =
  data :: u32
  dsize :: u32
  nmemb :: u32
  todo :: "proc_step list"
  sdone :: "proc_step list"
  sfree :: "proc_step list"
  ptype :: u32
  pseq :: u32

definition pt_rewind_steps_done :: "proc_task \<Rightarrow> proc_task" where
  "pt_rewind_steps_done t =
     (if sdone t = [] then t
      else foldl (\<lambda>t s. t\<lparr>sdone := remove1 s (sdone t), todo := s # todo t\<rparr>) t (sdone t))"

definition pt_get_pend_step_op_code :: "proc_task option \<Rightarrow> u32" where
  "pt_get_pend_step_op_code tp =
     (case tp of None \<Rightarrow> 0 | Some t \<Rightarrow> (case todo t of [] \<Rightarrow> 0 | s # _ \<Rightarrow> op_code s))"

definition pt_get_pend_step_op_info :: "proc_task \<Rightarrow> u32" where
  "pt_get_pend_step_op_info t = (case todo t of [] \<Rightarrow> 0 | s # _ \<Rightarrow> op_info s)"

definition pt_next_pend_step_done :: "proc_task \<Rightarrow> int \<times> proc_task" where
  "pt_next_pend_step_done t =
     (case todo t of [] \<Rightarrow> (- 1, t) | s # ss \<Rightarrow> (0, t\<lparr>todo := ss, sdone := s # sdone t\<rparr>))"

function pt_del_all_pending :: "proc_task \<Rightarrow> proc_task" where
  "pt_del_all_pending t =
     (if pt_get_pend_step_op_code (Some t) \<noteq> 0 then pt_del_all_pending (snd (pt_next_pend_step_done t)) else t)"
  by pat_completeness auto
termination
  by (relation "measure (\<lambda>t. length (todo t))")
     (auto simp: pt_get_pend_step_op_code_def pt_next_pend_step_done_def split: list.splits)

declare pt_del_all_pending.simps [simp del]

definition pt_del_last_step_done :: "proc_task \<Rightarrow> int \<times> proc_task" where
  "pt_del_last_step_done t =
     (case sdone t of [] \<Rightarrow> (- 1, t) | s # ss \<Rightarrow> (0, t\<lparr>sdone := ss, sfree := sfree t @ [s]\<rparr>))"

definition pt_del_pend_step :: "proc_task \<Rightarrow> int \<times> proc_task" where
  "pt_del_pend_step t =
     (case todo t of [] \<Rightarrow> (- 1, t) | s # ss \<Rightarrow> (0, t\<lparr>todo := ss, sfree := sfree t @ [s]\<rparr>))"

definition pt_add_step :: "proc_task \<Rightarrow> u32 \<Rightarrow> u32 \<Rightarrow> int \<times> proc_task" where
  "pt_add_step t opc opi =
     (if opc = 0 then (- EINVAL, t)
      else case sfree t of
        [] \<Rightarrow> (- ENOMEM, t)
      | s # ss \<Rightarrow> (0, t\<lparr>sfree := ss, todo := todo t @ [s\<lparr>op_code := opc, op_info := opi\<rparr>]\<rparr>))"

definition pt_get_nmemb :: "proc_task \<Rightarrow> u32" where "pt_get_nmemb t = nmemb t"
definition pt_get_size :: "proc_task \<Rightarrow> u32" where "pt_get_size t = dsize t"
definition pt_get_data :: "proc_task \<Rightarrow> u32" where "pt_get_data t = data t"
definition pt_get_type :: "proc_task \<Rightarrow> u32" where "pt_get_type t = ptype t"
definition pt_get_seq :: "proc_task \<Rightarrow> u32" where "pt_get_seq t = pseq t"
definition pt_set_nmemb :: "proc_task \<Rightarrow> u32 \<Rightarrow> proc_task" where "pt_set_nmemb t n = t\<lparr>nmemb := n\<rparr>"
definition pt_set_size :: "proc_task \<Rightarrow> u32 \<Rightarrow> proc_task" where "pt_set_size t n = t\<lparr>dsize := n\<rparr>"
definition pt_set_data :: "proc_task \<Rightarrow> u32 \<Rightarrow> u32 \<Rightarrow> proc_task" where
  "pt_set_data t d sz = t\<lparr>data := d, dsize := (if d = 0 then 0 else sz)\<rparr>"
definition pt_set_type :: "proc_task \<Rightarrow> u32 \<Rightarrow> proc_task" where "pt_set_type t ty = t\<lparr>ptype := ty\<rparr>"
definition pt_set_seq :: "proc_task \<Rightarrow> u32 \<Rightarrow> proc_task" where "pt_set_seq t sq = t\<lparr>pseq := sq\<rparr>"

definition sizeof_proc_step :: u32 where "sizeof_proc_step = 16"
definition sizeof_proc_task :: u32 where "sizeof_proc_task = 56"

text \<open>The inner \<^term>\<open>None\<close> is the \<^verbatim>\<open>NULL\<close> result; the outer one an access beyond the pool, whose size wraps around.\<close>

definition pt_create :: "(u32 \<Rightarrow> bool) \<Rightarrow> u32 \<Rightarrow> u32 \<Rightarrow> u32 \<Rightarrow> u32 \<Rightarrow> u32 \<Rightarrow> proc_task option option" where
  "pt_create kz d sz steps type seq =
     (if \<not> kz sizeof_proc_task then Some None
      else if \<not> kz (steps * sizeof_proc_step) then Some None
      else if unat (steps * sizeof_proc_step) < 16 * unat steps then None
      else Some (Some \<lparr>data = d, dsize = (if d = 0 then 0 else sz), nmemb = 0, todo = [], sdone = [],
             sfree = replicate (unat steps) \<lparr>op_code = 0, op_info = 0\<rparr>, ptype = type, pseq = seq\<rparr>))"

text \<open>The pointers \<^verbatim>\<open>pt_destroy\<close> hands to \<^verbatim>\<open>kfree\<close> for the steps, in this order, before the pool and the task.\<close>

definition pt_destroy :: "proc_task option \<Rightarrow> u32 list" where
  "pt_destroy tp = (case tp of None \<Rightarrow> [] | Some t \<Rightarrow> map op_info (todo t @ sdone t @ sfree t))"

section \<open>Trackers\<close>

type_synonym op_func = "u32 \<Rightarrow> proc_task \<Rightarrow> int \<times> proc_task option"

record proc_tracker =
  tasks :: "nat list"
  n_tasks :: u32
  n_tasks_crit :: u32
  trk_op_code :: u32
  trk_op :: op_func

definition pt_track_get_op_code :: "proc_tracker \<Rightarrow> u32" where "pt_track_get_op_code pt = trk_op_code pt"

definition pt_track_level_critical :: "proc_tracker \<Rightarrow> bool" where
  "pt_track_level_critical pt \<longleftrightarrow> n_tasks pt \<ge> n_tasks_crit pt"

definition pt_track_get_usage :: "proc_tracker \<Rightarrow> int" where "pt_track_get_usage pt = sint (n_tasks pt)"

definition pt_track_tasks_pending :: "proc_tracker option \<Rightarrow> bool" where
  "pt_track_tasks_pending p = (case p of None \<Rightarrow> False | Some pt \<Rightarrow> tasks pt \<noteq> [])"

text \<open>A tracker is updated in place; a task is named by its number and given by its contents.\<close>

definition pt_track_put :: "proc_tracker option \<Rightarrow> (nat \<times> proc_task) option \<Rightarrow> int \<times> proc_tracker option" where
  "pt_track_put p tp =
     (case p of
        None \<Rightarrow> (- EINVAL, None)
      | Some pt \<Rightarrow>
          (case tp of
             None \<Rightarrow> (- EINVAL, Some pt)
           | Some (i, t) \<Rightarrow>
               if pt_get_pend_step_op_code (Some t) \<noteq> trk_op_code pt then (- 1, Some pt)
               else (0, Some (pt\<lparr>tasks := tasks pt @ [i], n_tasks := n_tasks pt + 1\<rparr>))))"

definition pt_track_put_force :: "proc_tracker option \<Rightarrow> nat option \<Rightarrow> int \<times> proc_tracker option" where
  "pt_track_put_force p tp =
     (case p of
        None \<Rightarrow> (- EINVAL, None)
      | Some pt \<Rightarrow>
          (case tp of
             None \<Rightarrow> (- EINVAL, Some pt)
           | Some i \<Rightarrow> (0, Some (pt\<lparr>tasks := tasks pt @ [i], n_tasks := n_tasks pt + 1\<rparr>))))"

definition pt_track_pending :: "proc_tracker option \<Rightarrow> bool" where
  "pt_track_pending p = (case p of None \<Rightarrow> False | Some pt \<Rightarrow> \<not> tasks pt = [])"

definition pt_track_get :: "proc_tracker \<Rightarrow> nat option \<times> proc_tracker" where
  "pt_track_get pt =
     (case tasks pt of [] \<Rightarrow> (None, pt) | i # is \<Rightarrow> (Some i, pt\<lparr>tasks := is, n_tasks := n_tasks pt - 1\<rparr>))"

definition pt_track_execute_next :: "(nat \<Rightarrow> proc_task) \<Rightarrow> proc_tracker \<Rightarrow> int \<times> (nat \<times> proc_task option) option" where
  "pt_track_execute_next ts pt =
     (case tasks pt of
        [] \<Rightarrow> (- ENOEXEC, None)
      | i # _ \<Rightarrow> (let (r, t) = trk_op pt (trk_op_code pt) (ts i) in (r, Some (i, t))))"

text \<open>\<^verbatim>\<open>pt_track_sort_seq\<close> prints a message only.\<close>

definition pt_track_sort_seq :: "proc_tracker \<Rightarrow> proc_tracker" where "pt_track_sort_seq pt = pt"

definition sizeof_proc_tracker :: u32 where "sizeof_proc_tracker = 32"

definition pt_track_create :: "(u32 \<Rightarrow> bool) \<Rightarrow> op_func option \<Rightarrow> u32 \<Rightarrow> u32 \<Rightarrow> proc_tracker option" where
  "pt_track_create kz f opc crit =
     (case f of
        None \<Rightarrow> None
      | Some f \<Rightarrow>
          if crit = 0 then None
          else if \<not> kz sizeof_proc_tracker then None
          else Some \<lparr>tasks = [], n_tasks = 0, n_tasks_crit = crit, trk_op_code = opc, trk_op = f\<rparr>)"

text \<open>The tasks a tracker destroys with itself, in order.\<close>

function pt_track_drain :: "proc_tracker \<Rightarrow> nat list" where
  "pt_track_drain pt =
     (if tasks pt \<noteq> [] then (case pt_track_get pt of (Some i, pt') \<Rightarrow> i # pt_track_drain pt' | (None, pt') \<Rightarrow> []) else [])"
  by pat_completeness auto
termination
  by (relation "measure (\<lambda>pt. length (tasks pt))") (auto simp: pt_track_get_def split: list.splits)

declare pt_track_drain.simps [simp del]

definition pt_track_destroy :: "proc_tracker option \<Rightarrow> nat list" where
  "pt_track_destroy p = (case p of None \<Rightarrow> [] | Some pt \<Rightarrow> pt_track_drain pt)"

section \<open>Lemmas\<close>

lemma rewind_fold:
  "sdone t = ss \<Longrightarrow> foldl (\<lambda>t s. t\<lparr>sdone := remove1 s (sdone t), todo := s # todo t\<rparr>) t ss = t\<lparr>sdone := [], todo := rev ss @ todo t\<rparr>"
  by (induction ss arbitrary: t) simp_all

lemma rewind_eq: "pt_rewind_steps_done t = t\<lparr>sdone := [], todo := rev (sdone t) @ todo t\<rparr>"
  by (simp add: pt_rewind_steps_done_def rewind_fold)

lemma step_done_funpow:
  "n \<le> length (todo t) \<Longrightarrow> ((\<lambda>t. snd (pt_next_pend_step_done t)) ^^ n) t
     = t\<lparr>todo := drop n (todo t), sdone := rev (take n (todo t)) @ sdone t\<rparr>"
proof (induction n)
  case (Suc n)
  then obtain s ss where d: "drop n (todo t) = s # ss" by (metis Cons_nth_drop_Suc Suc_le_lessD)
  then have "take (Suc n) (todo t) = take n (todo t) @ [s]" "drop (Suc n) (todo t) = ss"
    using Suc.prems by (simp_all add: take_Suc_conv_app_nth flip: Cons_nth_drop_Suc)
  with Suc d show ?case by (simp add: pt_next_pend_step_done_def)
qed simp

lemma del_all_pending_eq:
  "\<forall>s \<in> set (todo t). op_code s \<noteq> 0 \<Longrightarrow> pt_del_all_pending t = t\<lparr>todo := [], sdone := rev (todo t) @ sdone t\<rparr>"
proof (induction t rule: pt_del_all_pending.induct)
  case (1 t)
  show ?case
  proof (cases "todo t")
    case Nil
    then show ?thesis by (subst pt_del_all_pending.simps) (simp add: pt_get_pend_step_op_code_def)
  next
    case (Cons s ss)
    with 1 show ?thesis
      by (subst pt_del_all_pending.simps) (simp add: pt_get_pend_step_op_code_def pt_next_pend_step_done_def)
  qed
qed

lemma drain_eq: "pt_track_drain pt = tasks pt"
proof (induction pt rule: pt_track_drain.induct)
  case (1 pt)
  then show ?case by (subst pt_track_drain.simps) (auto simp: pt_track_get_def split: list.splits)
qed

section \<open>Properties\<close>

text \<open>The done list rewinds a task to any earlier point: after any number of its pending steps are completed, rewinding
  restores the order of the steps, and completing them again leads back.\<close>

theorem pt_rewind_restores:
  assumes "sdone t = []" "n \<le> length (todo t)"
  shows "pt_rewind_steps_done (((\<lambda>t. snd (pt_next_pend_step_done t)) ^^ n) t) = t"
  using assms by (simp add: rewind_eq step_done_funpow)

definition demo_steps :: proc_task where
  "demo_steps = \<lparr>data = 0, dsize = 0, nmemb = 3, todo = [\<lparr>op_code = 1, op_info = 0\<rparr>, \<lparr>op_code = 2, op_info = 0\<rparr>],
     sdone = [], sfree = [], ptype = 0, pseq = 0\<rparr>"

theorem pt_rewind_restores_witness:
  "pt_rewind_steps_done (((\<lambda>t. snd (pt_next_pend_step_done t)) ^^ 2) demo_steps) = demo_steps"
  by (rule pt_rewind_restores) (simp_all add: demo_steps_def)

definition pool_steps :: "proc_task \<Rightarrow> nat" where
  "pool_steps t = length (todo t) + length (sdone t) + length (sfree t)"

text \<open>No operation on a task loses or invents a step: the number of steps in its three lists is the size of its
  pool, which \<^verbatim>\<open>pt_create\<close> fixes.\<close>

theorem pt_pool_kept:
  "pool_steps (pt_rewind_steps_done t) = pool_steps t \<and> pool_steps (snd (pt_next_pend_step_done t)) = pool_steps t
   \<and> pool_steps (snd (pt_del_last_step_done t)) = pool_steps t \<and> pool_steps (snd (pt_del_pend_step t)) = pool_steps t
   \<and> pool_steps (snd (pt_add_step t opc opi)) = pool_steps t
   \<and> (case pt_create kz d sz n ty sq of Some (Some c) \<Rightarrow> pool_steps c = unat n | _ \<Rightarrow> True)"
proof -
  have "pool_steps (snd (pt_add_step t opc opi)) = pool_steps t"
    by (simp add: pt_add_step_def pool_steps_def split: list.splits)
  moreover have "case pt_create kz d sz n ty sq of Some (Some c) \<Rightarrow> pool_steps c = unat n | _ \<Rightarrow> True"
    by (auto simp: pt_create_def pool_steps_def)
  ultimately show ?thesis
    by (auto simp: pool_steps_def rewind_eq pt_next_pend_step_done_def pt_del_last_step_done_def pt_del_pend_step_def
        split: list.splits)
qed

end
