(* ===== verification/Proc_Net.thy ===== *)
theory Proc_Net
  imports Proc_Task
begin

text \<open>
  The data processing network of \<^verbatim>\<open>lib/data_proc_net.c\<close>.  Trackers and tasks are named by numbers and kept in stores;
  \<open>nodes\<close> is the queue of the trackers of the network.  Tasks that were destroyed, and tasks that an operator function
  has taken over, are recorded.  An access through a pointer to a destroyed task, through \<^verbatim>\<open>NULL\<close>, or to
  the list head as a tracker, and a failing \<^verbatim>\<open>BUG_ON\<close>, are \<^term>\<open>None\<close>.
\<close>

section \<open>State\<close>

record proc_net =
  tin :: proc_tracker
  tout :: proc_tracker
  nodes :: "nat list"
  n_nodes :: u32
  trk :: "nat \<Rightarrow> proc_tracker"
  tsk :: "nat \<Rightarrow> proc_task"
  destroyed :: "nat list"
  detached :: "nat list"

abbreviation PN_OP_NODE_IN :: u32 where "PN_OP_NODE_IN \<equiv> 0xFFFFFFFF"
abbreviation PN_OP_NODE_OUT :: u32 where "PN_OP_NODE_OUT \<equiv> 0"

abbreviation PN_TASK_SUCCESS :: int where "PN_TASK_SUCCESS \<equiv> 0"
abbreviation PN_TASK_STOP :: int where "PN_TASK_STOP \<equiv> 1"
abbreviation PN_TASK_DETACH :: int where "PN_TASK_DETACH \<equiv> 2"
abbreviation PN_TASK_RESCHED :: int where "PN_TASK_RESCHED \<equiv> 3"
abbreviation PN_TASK_SORTSEQ :: int where "PN_TASK_SORTSEQ \<equiv> 4"
abbreviation PN_TASK_DESTROY :: int where "PN_TASK_DESTROY \<equiv> 5"

definition upd_trk :: "nat \<Rightarrow> proc_tracker \<Rightarrow> proc_net \<Rightarrow> proc_net" where
  "upd_trk i pt pn = pn\<lparr>trk := (trk pn)(i := pt)\<rparr>"

definition upd_tsk :: "nat \<Rightarrow> proc_task \<Rightarrow> proc_net \<Rightarrow> proc_net" where
  "upd_tsk i t pn = pn\<lparr>tsk := (tsk pn)(i := t)\<rparr>"

definition pn_dummy_op :: op_func where
  "pn_dummy_op opc t = (0, None)"

section \<open>Moving tasks\<close>

definition pn_find_tracker :: "proc_net \<Rightarrow> u32 \<Rightarrow> nat option" where
  "pn_find_tracker pn opc = List.find (\<lambda>i. trk_op_code (trk pn i) = opc) (nodes pn)"

text \<open>The result of \<^verbatim>\<open>pt_track_put\<close> is not looked at here: a task the tracker rejects is on no list any more.\<close>

definition put_out :: "nat \<Rightarrow> proc_net \<Rightarrow> proc_net" where
  "put_out t pn = (case pt_track_put (Some (tout pn)) (Some (t, tsk pn t)) of (_, Some pt) \<Rightarrow> pn\<lparr>tout := pt\<rparr> | _ \<Rightarrow> pn)"

definition put_node :: "nat \<Rightarrow> nat \<Rightarrow> proc_net \<Rightarrow> proc_net" where
  "put_node i t pn = (case pt_track_put (Some (trk pn i)) (Some (t, tsk pn t)) of (_, Some pt) \<Rightarrow> upd_trk i pt pn | _ \<Rightarrow> pn)"

definition pn_task_to_next_node :: "nat \<Rightarrow> proc_net \<Rightarrow> (int \<times> proc_net) option" where
  "pn_task_to_next_node t pn =
     (let op = pt_get_pend_step_op_code (Some (tsk pn t)) in
      if op = 0 then Some (0, put_out t pn)
      else case nodes pn of
        [] \<Rightarrow> None
      | first # _ \<Rightarrow>
          if trk_op_code (trk pn first) \<noteq> op
          then (case pn_find_tracker pn op of
                  None \<Rightarrow> Some (- 1, pn\<lparr>destroyed := t # destroyed pn\<rparr>)
                | Some i \<Rightarrow> Some (0, put_node i t pn))
          else Some (0, put_node first t pn))"

section \<open>The queue of trackers\<close>

definition pn_node_to_queue_head :: "nat \<Rightarrow> proc_net \<Rightarrow> proc_net" where
  "pn_node_to_queue_head i pn = pn\<lparr>nodes := i # remove1 i (nodes pn)\<rparr>"

definition pn_node_to_queue_tail :: "nat \<Rightarrow> proc_net \<Rightarrow> proc_net" where
  "pn_node_to_queue_tail i pn = pn\<lparr>nodes := remove1 i (nodes pn) @ [i]\<rparr>"

text \<open>The loop moves its current tracker to the front only, so it follows the queue as it was.\<close>

definition pn_queue_critical_trackers :: "proc_net \<Rightarrow> proc_net" where
  "pn_queue_critical_trackers pn =
     foldl (\<lambda>pn i. if pt_track_level_critical (trk pn i) then pn_node_to_queue_head i pn else pn) pn (nodes pn)"

text \<open>
  The search for the next tracker: each tracker visited goes to the tail, so the loop ends by its counter, or when the
  only tracker's successor is the list head.
\<close>

function pn_pending_loop :: "nat \<Rightarrow> nat option \<Rightarrow> proc_net \<Rightarrow> nat option \<times> proc_net" where
  "pn_pending_loop cnt cur pn =
     (case cur of
        None \<Rightarrow> (None, pn)
      | Some i \<Rightarrow>
          if cnt > unat (n_nodes pn) then (None, pn)
          else let tmp = (case dropWhile (\<lambda>j. j \<noteq> i) (nodes pn) of _ # j # _ \<Rightarrow> Some j | _ \<Rightarrow> None);
                   pn = pn_node_to_queue_tail i pn
               in if pt_track_tasks_pending (Some (trk pn i)) then (Some i, pn)
                  else pn_pending_loop (Suc cnt) tmp pn)"
  by pat_completeness auto
termination
  by (relation "measure (\<lambda>(cnt, cur, pn). Suc (unat (n_nodes pn)) - cnt)") (auto simp: pn_node_to_queue_tail_def)

declare pn_pending_loop.simps [simp del]

definition pn_get_next_pending_tracker :: "proc_net \<Rightarrow> nat option \<times> proc_net" where
  "pn_get_next_pending_tracker pn =
     (if nodes pn = [] then (None, pn)
      else let pn = pn_queue_critical_trackers pn
           in pn_pending_loop 0 (case nodes pn of [] \<Rightarrow> None | i # _ \<Rightarrow> Some i) pn)"

definition pn_get_next_pending_task :: "nat option \<Rightarrow> proc_net \<Rightarrow> nat option \<times> proc_net" where
  "pn_get_next_pending_task ip pn =
     (case ip of None \<Rightarrow> (None, pn) | Some i \<Rightarrow> (let (t, pt) = pt_track_get (trk pn i) in (t, upd_trk i pt pn)))"

section \<open>Processing\<close>

definition pn_eval_task_status :: "nat option \<Rightarrow> nat option \<Rightarrow> int \<Rightarrow> proc_net \<Rightarrow> (bool \<times> proc_net) option" where
  "pn_eval_task_status ip tp ret pn =
     (case ip of
        None \<Rightarrow> Some (False, pn)
      | Some i \<Rightarrow>
          (case tp of
             None \<Rightarrow> Some (False, pn)
           | Some t \<Rightarrow>
               if ret = PN_TASK_SUCCESS then
                 do { (_, pn) \<leftarrow> pn_task_to_next_node t (upd_tsk t (snd (pt_next_pend_step_done (tsk pn t))) pn); Some (True, pn) }
               else if ret = PN_TASK_STOP then
                 do { (_, pn) \<leftarrow> pn_task_to_next_node t (upd_tsk t (snd (pt_next_pend_step_done (tsk pn t))) pn); Some (False, pn) }
               else if ret = PN_TASK_DETACH then Some (True, pn\<lparr>detached := t # detached pn\<rparr>)
               else if ret = PN_TASK_RESCHED then Some (False, put_node i t pn)
               else if ret = PN_TASK_SORTSEQ then
                 (let pn = put_node i t pn in Some (False, upd_trk i (pt_track_sort_seq (trk pn i)) pn))
               else if ret = PN_TASK_DESTROY then
                 do { (_, pn) \<leftarrow> pn_task_to_next_node t (upd_tsk t (pt_del_all_pending (pt_set_nmemb (tsk pn t) 0)) pn); Some (True, pn) }
               else Some (True, pn\<lparr>destroyed := t # destroyed pn\<rparr>)))"

text \<open>One call of the operator function: it may change the task, or destroy it and report it as detached.\<close>

definition pn_run_op :: "nat \<Rightarrow> nat \<Rightarrow> proc_net \<Rightarrow> (bool \<times> proc_net) option" where
  "pn_run_op i t pn =
     (case trk_op (trk pn i) (pt_get_pend_step_op_code (Some (tsk pn t))) (tsk pn t) of
        (ret, Some t') \<Rightarrow> pn_eval_task_status (Some i) (Some t) ret (upd_tsk t t' pn)
      | (ret, None) \<Rightarrow> if ret = PN_TASK_DETACH then Some (True, pn\<lparr>destroyed := t # destroyed pn\<rparr>) else None)"

fun pn_process_loop :: "nat \<Rightarrow> nat \<Rightarrow> nat \<Rightarrow> proc_net \<Rightarrow> (nat \<times> proc_net) option" where
  "pn_process_loop 0 i cnt pn = None"
| "pn_process_loop (Suc n) i cnt pn =
     (case pn_get_next_pending_task (Some i) pn of
        (None, pn) \<Rightarrow> Some (cnt, pn)
      | (Some t, pn) \<Rightarrow>
          do { (cont, pn) \<leftarrow> pn_run_op i t pn;
               if cont then pn_process_loop n i (Suc cnt) pn else Some (Suc cnt, pn) })"

definition pn_process_next :: "nat \<Rightarrow> proc_net \<Rightarrow> (nat \<times> proc_net) option" where
  "pn_process_next fuel pn =
     (case pn_get_next_pending_tracker pn of
        (None, pn) \<Rightarrow> Some (0, pn)
      | (Some i, pn) \<Rightarrow> pn_process_loop fuel i 0 pn)"

section \<open>Input and output\<close>

definition pn_input_task :: "nat option \<Rightarrow> proc_net option \<Rightarrow> proc_net option option" where
  "pn_input_task tp p =
     (case p of
        None \<Rightarrow> Some None
      | Some pn \<Rightarrow>
          (case tp of
             None \<Rightarrow> Some (Some pn)
           | Some t \<Rightarrow>
               (case pt_track_put_force (Some (tin pn)) (Some t) of
                  (e, Some pt) \<Rightarrow> if e \<noteq> 0 then None else Some (Some (pn\<lparr>tin := pt\<rparr>))
                | (e, None) \<Rightarrow> None)))"

function pn_inputs_loop :: "nat \<Rightarrow> proc_net \<Rightarrow> (int \<times> proc_net) option" where
  "pn_inputs_loop i pn =
     (case pt_track_get (tin pn) of
        (None, pt) \<Rightarrow> Some (0, pn)
      | (Some t, pt) \<Rightarrow>
          let pn = pn\<lparr>tin := pt\<rparr>;
              op = pt_get_pend_step_op_code (Some (tsk pn t));
              f = (if trk_op_code (trk pn i) \<noteq> op then pn_find_tracker pn op else Some i)
          in case f of
               None \<Rightarrow>
                 (case nodes pn of [] \<Rightarrow> None | first # _ \<Rightarrow> pn_inputs_loop first (pn\<lparr>destroyed := t # destroyed pn\<rparr>))
             | Some i \<Rightarrow>
                 (case pt_track_put (Some (trk pn i)) (Some (t, tsk pn t)) of
                    (e, Some pt) \<Rightarrow> if e \<noteq> 0 then None else pn_inputs_loop i (upd_trk i pt pn)
                  | (e, None) \<Rightarrow> None))"
  by pat_completeness auto
termination
  by (relation "measure (\<lambda>(i, pn). length (tasks (tin pn)))") (auto simp: pt_track_get_def upd_trk_def split: list.splits)

declare pn_inputs_loop.simps [simp del]

definition pn_process_inputs :: "proc_net \<Rightarrow> (int \<times> proc_net) option" where
  "pn_process_inputs pn = (case nodes pn of [] \<Rightarrow> Some (- 1, pn) | first # _ \<Rightarrow> pn_inputs_loop first pn)"

function pn_outputs_loop :: "nat \<Rightarrow> proc_net \<Rightarrow> nat \<times> proc_net" where
  "pn_outputs_loop n pn =
     (case pt_track_get (tout pn) of
        (None, pt) \<Rightarrow> (n, pn)
      | (Some t, pt) \<Rightarrow>
          let pn = pn\<lparr>tout := pt\<rparr>
          in case trk_op pt PN_OP_NODE_OUT (tsk pn t) of
               (_, None) \<Rightarrow> pn_outputs_loop (Suc n) (pn\<lparr>destroyed := t # destroyed pn\<rparr>)
             | (_, Some t') \<Rightarrow> pn_outputs_loop (Suc n) (upd_tsk t t' (pn\<lparr>detached := t # detached pn\<rparr>)))"
  by pat_completeness auto
termination
  by (relation "measure (\<lambda>(n, pn). length (tasks (tout pn)))") (auto simp: pt_track_get_def upd_tsk_def split: list.splits)

declare pn_outputs_loop.simps [simp del]

definition pn_process_outputs :: "proc_net option \<Rightarrow> nat \<times> proc_net option" where
  "pn_process_outputs p =
     (case p of None \<Rightarrow> (0, None) | Some pn \<Rightarrow> (let (n, pn) = pn_outputs_loop 0 pn in (n, Some pn)))"

section \<open>Building a network\<close>

definition pn_create_output_node :: "(u32 \<Rightarrow> bool) \<Rightarrow> op_func option \<Rightarrow> proc_net option \<Rightarrow> int \<times> proc_net option" where
  "pn_create_output_node kz f p =
     (case p of
        None \<Rightarrow> (- EINVAL, None)
      | Some pn \<Rightarrow>
          (case pt_track_create kz f PN_OP_NODE_OUT 1 of
             None \<Rightarrow> (- ENOMEM, Some pn)
           | Some pt \<Rightarrow> (0, Some (pn\<lparr>destroyed := rev (pt_track_destroy (Some (tout pn))) @ destroyed pn, tout := pt\<rparr>))))"

definition pn_add_node :: "nat option \<Rightarrow> proc_net option \<Rightarrow> int \<times> proc_net option" where
  "pn_add_node ip p =
     (case p of
        None \<Rightarrow> (- EINVAL, None)
      | Some pn \<Rightarrow>
          (case ip of
             None \<Rightarrow> (- EINVAL, Some pn)
           | Some i \<Rightarrow>
               if trk_op_code (trk pn i) = PN_OP_NODE_IN then (- EINVAL, Some pn)
               else if trk_op_code (trk pn i) = PN_OP_NODE_OUT then (- EINVAL, Some pn)
               else (0, Some (pn\<lparr>nodes := nodes pn @ [i], n_nodes := n_nodes pn + 1\<rparr>))))"

definition sizeof_proc_net :: u32 where "sizeof_proc_net = 20"

definition pn_create :: "(u32 \<Rightarrow> bool) \<Rightarrow> (nat \<Rightarrow> proc_tracker) \<Rightarrow> (nat \<Rightarrow> proc_task) \<Rightarrow> proc_net option" where
  "pn_create kz trks tsks =
     (if \<not> kz sizeof_proc_net then None
      else case pt_track_create kz (Some pn_dummy_op) PN_OP_NODE_IN 1 of
        None \<Rightarrow> None
      | Some i \<Rightarrow>
          (case pt_track_create kz (Some pn_dummy_op) PN_OP_NODE_OUT 1 of
             None \<Rightarrow> None
           | Some out \<Rightarrow> Some \<lparr>tin = i, tout = out, nodes = [], n_nodes = 0, trk = trks, tsk = tsks, destroyed = [], detached = []\<rparr>))"

text \<open>The tasks destroyed with the network.\<close>

definition pn_destroy :: "proc_net option \<Rightarrow> nat list" where
  "pn_destroy p =
     (case p of
        None \<Rightarrow> []
      | Some pn \<Rightarrow> concat (map (\<lambda>i. pt_track_destroy (Some (trk pn i))) (nodes pn))
          @ pt_track_destroy (Some (tin pn)) @ pt_track_destroy (Some (tout pn)))"

section \<open>Consistent networks\<close>

abbreviation pend :: "proc_net \<Rightarrow> nat \<Rightarrow> u32" where
  "pend pn t \<equiv> pt_get_pend_step_op_code (Some (tsk pn t))"

definition steps_ok :: "proc_task \<Rightarrow> bool" where
  "steps_ok t \<longleftrightarrow> (\<forall>s \<in> set (todo t). op_code s \<noteq> 0)"

text \<open>All tasks the network has ever been given, wherever they are now.\<close>

definition node_tasks :: "proc_net \<Rightarrow> nat list" where
  "node_tasks pn = concat (map (\<lambda>i. tasks (trk pn i)) (nodes pn))"

definition all_tasks :: "proc_net \<Rightarrow> nat multiset" where
  "all_tasks pn = mset (tasks (tin pn)) + mset (tasks (tout pn)) + mset (node_tasks pn) + mset (destroyed pn) + mset (detached pn)"

definition tracker_ok :: "proc_tracker \<Rightarrow> bool" where
  "tracker_ok pt \<longleftrightarrow> n_tasks pt = of_nat (length (tasks pt))"

definition net_ok :: "proc_net \<Rightarrow> bool" where
  "net_ok pn \<longleftrightarrow> distinct (nodes pn) \<and> unat (n_nodes pn) = length (nodes pn)
     \<and> (\<forall>t. count (all_tasks pn) t \<le> 1)
     \<and> tracker_ok (tin pn) \<and> tracker_ok (tout pn) \<and> trk_op_code (tout pn) = PN_OP_NODE_OUT
     \<and> (\<forall>t \<in> set (tasks (tin pn)). steps_ok (tsk pn t))
     \<and> (\<forall>t \<in> set (tasks (tout pn)). todo (tsk pn t) = [])
     \<and> (\<forall>i \<in> set (nodes pn). tracker_ok (trk pn i) \<and> trk_op_code (trk pn i) \<notin> {PN_OP_NODE_IN, PN_OP_NODE_OUT}
          \<and> (\<forall>t \<in> set (tasks (trk pn i)). pend pn t = trk_op_code (trk pn i) \<and> steps_ok (tsk pn t)))"

lemma upd_simps [simp]:
  "tin (upd_trk i pt pn) = tin pn" "tout (upd_trk i pt pn) = tout pn" "nodes (upd_trk i pt pn) = nodes pn"
  "n_nodes (upd_trk i pt pn) = n_nodes pn" "tsk (upd_trk i pt pn) = tsk pn" "destroyed (upd_trk i pt pn) = destroyed pn"
  "detached (upd_trk i pt pn) = detached pn" "trk (upd_trk i pt pn) = (trk pn)(i := pt)"
  "tin (upd_tsk t k pn) = tin pn" "tout (upd_tsk t k pn) = tout pn" "nodes (upd_tsk t k pn) = nodes pn"
  "n_nodes (upd_tsk t k pn) = n_nodes pn" "trk (upd_tsk t k pn) = trk pn" "destroyed (upd_tsk t k pn) = destroyed pn"
  "detached (upd_tsk t k pn) = detached pn" "tsk (upd_tsk t k pn) = (tsk pn)(t := k)"
  by (simp_all add: upd_trk_def upd_tsk_def)

lemma pend_zero: "steps_ok t \<Longrightarrow> pt_get_pend_step_op_code (Some t) = 0 \<longleftrightarrow> todo t = []"
  by (auto simp: steps_ok_def pt_get_pend_step_op_code_def split: list.splits)

lemma all_tasks_tsk [simp]: "all_tasks (upd_tsk t k pn) = all_tasks pn"
  by (simp add: all_tasks_def node_tasks_def)

lemma node_tasks_upd:
  assumes "i \<in> set (nodes pn)" "distinct (nodes pn)"
  shows "mset (node_tasks (upd_trk i pt pn)) + mset (tasks (trk pn i)) = mset (node_tasks pn) + mset (tasks pt)"
proof -
  from assms(1) obtain us vs where n: "nodes pn = us @ i # vs" by (auto dest: split_list)
  with assms(2) have "i \<notin> set us" "i \<notin> set vs" by auto
  then have m: "map (\<lambda>j. tasks (trk (upd_trk i pt pn) j)) us = map (\<lambda>j. tasks (trk pn j)) us"
    "map (\<lambda>j. tasks (trk (upd_trk i pt pn) j)) vs = map (\<lambda>j. tasks (trk pn j)) vs" by auto
  show ?thesis unfolding node_tasks_def upd_simps(3) n map_append list.map m by simp
qed

lemma all_tasks_upd:
  assumes "i \<in> set (nodes pn)" "distinct (nodes pn)"
  shows "all_tasks (upd_trk i pt pn) + mset (tasks (trk pn i)) = all_tasks pn + mset (tasks pt)"
  using node_tasks_upd [OF assms, of pt] by (simp add: all_tasks_def add.assoc)

lemma node_task_in: "i \<in> set (nodes pn) \<Longrightarrow> t \<in> set (tasks (trk pn i)) \<Longrightarrow> t \<in># all_tasks pn"
  by (auto simp: all_tasks_def node_tasks_def)

lemma net_ok_tsk:
  assumes "net_ok pn" "t \<notin># all_tasks pn"
  shows "net_ok (upd_tsk t k pn)"
proof -
  have "x \<noteq> t" if "x \<in> set (tasks (tin pn)) \<or> x \<in> set (tasks (tout pn)) \<or> (\<exists>i \<in> set (nodes pn). x \<in> set (tasks (trk pn i)))" for x
    using that assms(2) by (auto simp: all_tasks_def node_tasks_def)
  with assms(1) show ?thesis by (auto simp: net_ok_def)
qed

lemma put_node_ok:
  assumes "net_ok pn" "i \<in> set (nodes pn)" "t \<notin># all_tasks pn" "pend pn t = trk_op_code (trk pn i)" "steps_ok (tsk pn t)"
  shows "net_ok (put_node i t pn)" "all_tasks (put_node i t pn) = add_mset t (all_tasks pn)"
proof -
  let ?pt = "(trk pn i)\<lparr>tasks := tasks (trk pn i) @ [t], n_tasks := n_tasks (trk pn i) + 1\<rparr>"
  have p: "put_node i t pn = upd_trk i ?pt pn" using assms(4) by (simp add: put_node_def pt_track_put_def)
  have "all_tasks (put_node i t pn) + mset (tasks (trk pn i)) = add_mset t (all_tasks pn) + mset (tasks (trk pn i))"
    unfolding p using all_tasks_upd [OF assms(2), of ?pt] assms(1) by (simp add: net_ok_def)
  then show a: "all_tasks (put_node i t pn) = add_mset t (all_tasks pn)" by simp
  have "tracker_ok ?pt" using assms(1,2) by (auto simp: net_ok_def tracker_ok_def)
  moreover have "count (all_tasks (upd_trk i ?pt pn)) x \<le> 1" for x
    using a [unfolded p] assms(1,3) by (auto simp: net_ok_def not_in_iff)
  ultimately show "net_ok (put_node i t pn)"
    unfolding p using assms(1,4,5) by (auto simp: net_ok_def)
qed

lemma put_out_ok:
  assumes "net_ok pn" "t \<notin># all_tasks pn" "todo (tsk pn t) = []"
  shows "net_ok (put_out t pn)" "all_tasks (put_out t pn) = add_mset t (all_tasks pn)" "nodes (put_out t pn) = nodes pn"
    "trk (put_out t pn) = trk pn" "tsk (put_out t pn) = tsk pn"
proof -
  let ?pn = "pn\<lparr>tout := (tout pn)\<lparr>tasks := tasks (tout pn) @ [t], n_tasks := n_tasks (tout pn) + 1\<rparr>\<rparr>"
  have p: "put_out t pn = ?pn"
    using assms by (simp add: put_out_def pt_track_put_def pt_get_pend_step_op_code_def net_ok_def)
  show a: "all_tasks (put_out t pn) = add_mset t (all_tasks pn)" unfolding p by (simp add: all_tasks_def node_tasks_def)
  have "count (all_tasks ?pn) x \<le> 1" for x using a [unfolded p] assms(1,2) by (auto simp: net_ok_def not_in_iff)
  with assms(1,3) show "net_ok (put_out t pn)" unfolding p by (auto simp: net_ok_def tracker_ok_def)
  show "nodes (put_out t pn) = nodes pn" "trk (put_out t pn) = trk pn" "tsk (put_out t pn) = tsk pn" unfolding p by simp_all
qed

lemma destroyed_ok:
  assumes "net_ok pn" "t \<notin># all_tasks pn"
  shows "net_ok (pn\<lparr>destroyed := t # destroyed pn\<rparr>)" "all_tasks (pn\<lparr>destroyed := t # destroyed pn\<rparr>) = add_mset t (all_tasks pn)"
    "net_ok (pn\<lparr>detached := t # detached pn\<rparr>)" "all_tasks (pn\<lparr>detached := t # detached pn\<rparr>) = add_mset t (all_tasks pn)"
proof -
  show a: "all_tasks (pn\<lparr>destroyed := t # destroyed pn\<rparr>) = add_mset t (all_tasks pn)"
    "all_tasks (pn\<lparr>detached := t # detached pn\<rparr>) = add_mset t (all_tasks pn)" by (simp_all add: all_tasks_def node_tasks_def)
  have "count (add_mset t (all_tasks pn)) x \<le> 1" for x using assms by (auto simp: net_ok_def not_in_iff)
  then show "net_ok (pn\<lparr>destroyed := t # destroyed pn\<rparr>)" "net_ok (pn\<lparr>detached := t # detached pn\<rparr>)"
    using assms(1) a by (auto simp: net_ok_def)
qed

text \<open>The first node need not be tried before the others.\<close>

lemma task_to_next_node_eq:
  "nodes pn \<noteq> [] \<Longrightarrow> pn_task_to_next_node t pn =
     (if pend pn t = 0 then Some (0, put_out t pn)
      else case pn_find_tracker pn (pend pn t) of
        None \<Rightarrow> Some (- 1, pn\<lparr>destroyed := t # destroyed pn\<rparr>)
      | Some i \<Rightarrow> Some (0, put_node i t pn))"
  by (cases "nodes pn") (auto simp: pn_task_to_next_node_def pn_find_tracker_def Let_def)

lemma find_tracker_some: "pn_find_tracker pn op = Some i \<Longrightarrow> i \<in> set (nodes pn) \<and> trk_op_code (trk pn i) = op"
  by (auto simp: pn_find_tracker_def find_Some_iff)

end
