(* ===== verification/Proc_Inv.thy ===== *)
theory Proc_Inv
  imports Proc_Net
begin

text \<open>
  Invariants of the processing network: every step of a tracker keeps the network consistent and every task somewhere,
  and each task that is run leaves less work, so the processing loop ends.
\<close>

section \<open>Conservation of tasks\<close>

text \<open>What is asked of an operator function: it adds no steps, keeps their codes valid, does not change the pending step
  of a task it wants rescheduled, and reports a task it destroys as detached.\<close>

definition op_ok :: "op_func \<Rightarrow> bool" where
  "op_ok f \<longleftrightarrow> (\<forall>opc t. case f opc t of
       (ret, None) \<Rightarrow> ret = PN_TASK_DETACH
     | (ret, Some t') \<Rightarrow> length (todo t') \<le> length (todo t) \<and> (steps_ok t \<longrightarrow> steps_ok t')
         \<and> (ret = PN_TASK_RESCHED \<or> ret = PN_TASK_SORTSEQ \<longrightarrow>
              pt_get_pend_step_op_code (Some t') = pt_get_pend_step_op_code (Some t)))"

text \<open>What processing keeps of a network: its trackers and their operators.\<close>

definition same_net :: "proc_net \<Rightarrow> proc_net \<Rightarrow> bool" where
  "same_net pn pn' \<longleftrightarrow> nodes pn' = nodes pn \<and> n_nodes pn' = n_nodes pn \<and> tin pn' = tin pn
     \<and> (\<forall>i. trk_op_code (trk pn' i) = trk_op_code (trk pn i) \<and> trk_op (trk pn' i) = trk_op (trk pn i))"

lemma same_net_refl: "same_net pn pn"
  by (simp add: same_net_def)

lemma same_net_trans: "same_net a b \<Longrightarrow> same_net b c \<Longrightarrow> same_net a c"
  by (simp add: same_net_def)

lemma put_node_frame:
  "same_net pn (put_node i t pn)" "tsk (put_node i t pn) = tsk pn"
  by (auto simp: same_net_def put_node_def pt_track_put_def)

lemma put_out_frame:
  "same_net pn (put_out t pn)" "tsk (put_out t pn) = tsk pn" "trk (put_out t pn) = trk pn"
  by (auto simp: same_net_def put_out_def pt_track_put_def)

text \<open>The work a tracker has left: the pending steps of its tasks.\<close>

definition work :: "nat \<Rightarrow> proc_net \<Rightarrow> nat" where
  "work i pn = (\<Sum>t \<leftarrow> tasks (trk pn i). length (todo (tsk pn t)))"

definition task_safe :: "proc_net \<Rightarrow> nat \<Rightarrow> bool" where
  "task_safe pn t \<longleftrightarrow> net_ok pn \<and> t \<notin># all_tasks pn \<and> steps_ok (tsk pn t) \<and> nodes pn \<noteq> []"

text \<open>A task that is on no list finds its way: to the output if it has no step left, to the tracker of its next
  step, or it is destroyed.\<close>

lemma to_next_node_ok:
  assumes "task_safe pn t"
  shows "\<exists>e pn'. pn_task_to_next_node t pn = Some (e, pn') \<and> net_ok pn' \<and> all_tasks pn' = add_mset t (all_tasks pn)
     \<and> same_net pn pn' \<and> tsk pn' = tsk pn \<and> work i pn' \<le> work i pn + length (todo (tsk pn t))"
proof -
  have n: "net_ok pn" "t \<notin># all_tasks pn" "steps_ok (tsk pn t)" "nodes pn \<noteq> []" using assms by (simp_all add: task_safe_def)
  show ?thesis
  proof (cases "pend pn t = 0")
    case True
    with pend_zero [OF n(3)] have "todo (tsk pn t) = []" by simp
    from put_out_ok [OF n(1,2) this] put_out_frame [where pn = pn and t = t] True show ?thesis
      by (simp add: task_to_next_node_eq [OF n(4)] work_def)
  next
    case False
    show ?thesis
    proof (cases "pn_find_tracker pn (pend pn t)")
      case None
      with False destroyed_ok(1,2) [OF n(1,2)] show ?thesis
        by (simp add: task_to_next_node_eq [OF n(4)] same_net_def work_def)
    next
      case (Some j)
      from find_tracker_some [OF this] have j: "j \<in> set (nodes pn)" "pend pn t = trk_op_code (trk pn j)" by simp_all
      have "work i (put_node j t pn) \<le> work i pn + length (todo (tsk pn t))"
        using j(2) by (auto simp: work_def put_node_def pt_track_put_def)
      with put_node_ok [OF n(1) j(1) n(2) j(2) n(3)] put_node_frame [where pn = pn and i = j and t = t] Some False show ?thesis
        by (simp add: task_to_next_node_eq [OF n(4)])
    qed
  qed
qed

lemma next_step_fields:
  "steps_ok t \<Longrightarrow> steps_ok (snd (pt_next_pend_step_done t))"
  "length (todo (snd (pt_next_pend_step_done t))) = length (todo t) - 1"
  by (auto simp: steps_ok_def pt_next_pend_step_done_def split: list.splits)

lemma upd_tsk_safe:
  assumes "task_safe pn t" "steps_ok k"
  shows "task_safe (upd_tsk t k pn) t"
  using assms net_ok_tsk by (simp add: task_safe_def)

lemma same_net_tsk: "same_net pn (upd_tsk t k pn)"
  by (simp add: same_net_def)

lemma work_tsk: "t \<notin># all_tasks pn \<Longrightarrow> i \<in> set (nodes pn) \<Longrightarrow> work i (upd_tsk t k pn) = work i pn"
proof -
  assume a: "t \<notin># all_tasks pn" "i \<in> set (nodes pn)"
  then have "x \<noteq> t" if "x \<in> set (tasks (trk pn i))" for x using node_task_in [OF a(2) that] by auto
  then show "work i (upd_tsk t k pn) = work i pn" by (auto simp: work_def intro!: arg_cong [where f = sum_list])
qed

lemma to_next_after_upd:
  assumes s: "task_safe pn t" and k: "steps_ok k" and i: "i \<in> set (nodes pn)"
  shows "\<exists>e pn'. pn_task_to_next_node t (upd_tsk t k pn) = Some (e, pn') \<and> net_ok pn' \<and> all_tasks pn' = add_mset t (all_tasks pn)
     \<and> same_net pn pn' \<and> tsk pn' = (tsk pn)(t := k) \<and> work i pn' \<le> work i pn + length (todo k)"
proof -
  have "t \<notin># all_tasks pn" using s by (simp add: task_safe_def)
  with to_next_node_ok [OF upd_tsk_safe [OF s k], of i] work_tsk [OF _ i, of t k] same_net_trans [OF same_net_tsk]
  show ?thesis by fastforce
qed


lemma to_next_less:
  assumes s: "task_safe pn t" and k: "steps_ok k" and i: "i \<in> set (nodes pn)" and l: "length (todo k) < n"
  shows "\<exists>e pn'. pn_task_to_next_node t (upd_tsk t k pn) = Some (e, pn') \<and> net_ok pn' \<and> all_tasks pn' = add_mset t (all_tasks pn)
     \<and> same_net pn pn' \<and> work i pn' < work i pn + n"
  using to_next_after_upd [OF s k i] l by (meson add_less_cancel_left le_less_trans)

lemma op_okD:
  assumes "op_ok f" "f opc t = (ret, r)"
  shows "r = None \<Longrightarrow> ret = PN_TASK_DETACH"
    "r = Some t' \<Longrightarrow> length (todo t') \<le> length (todo t) \<and> (steps_ok t \<longrightarrow> steps_ok t')"
    "r = Some t' \<Longrightarrow> ret = PN_TASK_RESCHED \<or> ret = PN_TASK_SORTSEQ \<Longrightarrow>
       pt_get_pend_step_op_code (Some t') = pt_get_pend_step_op_code (Some t)"
  using spec [OF spec [OF assms(1) [unfolded op_ok_def], of opc], of t] assms(2) by auto

lemma del_all_ok:
  assumes "steps_ok t"
  shows "todo (pt_del_all_pending (pt_set_nmemb t 0)) = []" "steps_ok (pt_del_all_pending (pt_set_nmemb t 0))"
  using assms del_all_pending_eq [of "pt_set_nmemb t 0"] by (simp_all add: steps_ok_def pt_set_nmemb_def)

text \<open>Running the operator of a tracker on a task just taken from it puts the task somewhere again, and leaves less to
  do whenever the tracker goes on.\<close>

lemma run_op_ok:
  assumes s: "task_safe pn t" and i: "i \<in> set (nodes pn)" and p: "pend pn t = trk_op_code (trk pn i)" "pend pn t \<noteq> 0"
    and f: "op_ok (trk_op (trk pn i))"
  shows "\<exists>cont pn'. pn_run_op i t pn = Some (cont, pn') \<and> net_ok pn' \<and> all_tasks pn' = add_mset t (all_tasks pn)
     \<and> same_net pn pn' \<and> (cont \<longrightarrow> work i pn' < work i pn + length (todo (tsk pn t)))"
proof -
  note n = s [unfolded task_safe_def]
  have t0: "0 < length (todo (tsk pn t))" using p(2) by (auto simp: pt_get_pend_step_op_code_def split: list.splits)
  obtain ret r where r: "trk_op (trk pn i) (pend pn t) (tsk pn t) = (ret, r)" by force
  note fD = op_okD [OF f r]
  show ?thesis
  proof (cases r)
    case None
    with fD(1) r destroyed_ok(1,2) [of pn t] n t0 show ?thesis by (auto simp: pn_run_op_def same_net_def work_def)
  next
    case (Some k)
    with fD(2) n have k: "length (todo k) \<le> length (todo (tsk pn t))" "steps_ok k" by simp_all
    have us: "task_safe (upd_tsk t k pn) t" by (rule upd_tsk_safe [OF s k(2)])
    have w: "work i (upd_tsk t k pn) = work i pn" using work_tsk n i by blast
    have op: "pn_run_op i t pn = pn_eval_task_status (Some i) (Some t) ret (upd_tsk t k pn)"
      using r Some by (simp add: pn_run_op_def)
    have iu: "i \<in> set (nodes (upd_tsk t k pn))" using i by simp
    let ?done = "\<lambda>cont pn'. pn_run_op i t pn = Some (cont, pn') \<and> net_ok pn' \<and> all_tasks pn' = add_mset t (all_tasks pn)
       \<and> same_net pn pn' \<and> (cont \<longrightarrow> work i pn' < work i pn + length (todo (tsk pn t)))"
    have upd: "upd_tsk t k' (upd_tsk t k pn) = upd_tsk t k' pn" for k' by (simp add: upd_tsk_def)
    have "length (todo (snd (pt_next_pend_step_done k))) < length (todo (tsk pn t))" "0 < length (todo (tsk pn t))"
      using next_step_fields(2) [of k] k(1) t0 by linarith+
    note less = to_next_less [OF s next_step_fields(1) [OF k(2)] i this(1)]
      to_next_less [OF s del_all_ok(2) [OF k(2)] i, unfolded del_all_ok(1) [OF k(2)] list.size, OF this(2)]
    from less(1) obtain e1 p1 where
      p1: "pn_task_to_next_node t (upd_tsk t (snd (pt_next_pend_step_done k)) pn) = Some (e1, p1)" "net_ok p1"
        "all_tasks p1 = add_mset t (all_tasks pn)" "same_net pn p1" "work i p1 < work i pn + length (todo (tsk pn t))" by blast
    from less(2) obtain e2 p2 where
      p2: "pn_task_to_next_node t (upd_tsk t (pt_del_all_pending (pt_set_nmemb k 0)) pn) = Some (e2, p2)" "net_ok p2"
        "all_tasks p2 = add_mset t (all_tasks pn)" "same_net pn p2" "work i p2 < work i pn + length (todo (tsk pn t))" by blast
    have put: "net_ok (put_node i t (upd_tsk t k pn)) \<and> all_tasks (put_node i t (upd_tsk t k pn)) = add_mset t (all_tasks pn)
        \<and> same_net pn (put_node i t (upd_tsk t k pn))" if "pt_get_pend_step_op_code (Some k) = pend pn t"
      using put_node_ok [of "upd_tsk t k pn" i t] us iu that p(1) k(2) same_net_trans [OF same_net_tsk put_node_frame(1)]
      by (simp add: task_safe_def)
    have des: "net_ok (upd_tsk t k pn\<lparr>destroyed := t # destroyed pn\<rparr>)" "net_ok (upd_tsk t k pn\<lparr>detached := t # detached pn\<rparr>)"
      using destroyed_ok [of "upd_tsk t k pn" t] us by (simp_all add: task_safe_def)
    have des2: "all_tasks (upd_tsk t k pn\<lparr>destroyed := t # destroyed pn\<rparr>) = add_mset t (all_tasks pn)"
        "all_tasks (upd_tsk t k pn\<lparr>detached := t # detached pn\<rparr>) = add_mset t (all_tasks pn)"
      by (simp_all add: all_tasks_def node_tasks_def)
    have des3: "same_net pn (upd_tsk t k pn\<lparr>destroyed := t # destroyed pn\<rparr>)" "same_net pn (upd_tsk t k pn\<lparr>detached := t # detached pn\<rparr>)"
      "work i (upd_tsk t k pn\<lparr>destroyed := t # destroyed pn\<rparr>) = work i pn" "work i (upd_tsk t k pn\<lparr>detached := t # detached pn\<rparr>) = work i pn"
      using w by (simp_all add: same_net_def work_def)
    consider "ret = 0" | "ret = 1" | "ret = 2" | "ret = 3" | "ret = 4" | "ret = 5" | "ret \<notin> {0, 1, 2, 3, 4, 5}" by blast
    then have "\<exists>cont pn'. ?done cont pn'"
    proof cases
      case 4
      with put fD(3) Some show ?thesis by (auto simp: op pn_eval_task_status_def)
    next
      case 5
      have e: "upd_trk i (trk q i) q = q" for q by (simp add: upd_trk_def)
      from 5 have "pn_run_op i t pn = Some (False, put_node i t (upd_tsk t k pn))"
        by (simp add: op pn_eval_task_status_def pt_track_sort_seq_def Let_def e)
      with 5 put fD(3) Some show ?thesis by blast
    qed (use p1 p2 des des2 des3 t0 in \<open>auto simp: op pn_eval_task_status_def upd\<close>)
    then show ?thesis .
  qed
qed

lemma pop_eq:
  "tasks (trk pn i) = t # ts \<Longrightarrow> pn_get_next_pending_task (Some i) pn =
     (Some t, upd_trk i ((trk pn i)\<lparr>tasks := ts, n_tasks := n_tasks (trk pn i) - 1\<rparr>) pn)"
  "tasks (trk pn i) = [] \<Longrightarrow> pn_get_next_pending_task (Some i) pn = (None, pn)"
  by (simp_all add: pn_get_next_pending_task_def pt_track_get_def upd_trk_def)

definition popped :: "nat \<Rightarrow> proc_net \<Rightarrow> proc_net" where
  "popped i pn = snd (pn_get_next_pending_task (Some i) pn)"

lemma popped_ok:
  assumes "net_ok pn" "i \<in> set (nodes pn)" "tasks (trk pn i) = t # ts"
  shows "task_safe (popped i pn) t" "all_tasks pn = add_mset t (all_tasks (popped i pn))" "same_net pn (popped i pn)"
    "tsk (popped i pn) = tsk pn" "work i pn = length (todo (tsk pn t)) + work i (popped i pn)"
    "pend pn t = trk_op_code (trk pn i)" "pend pn t \<noteq> 0" "destroyed (popped i pn) = destroyed pn" "detached (popped i pn) = detached pn"
proof -
  let ?pt = "(trk pn i)\<lparr>tasks := ts, n_tasks := n_tasks (trk pn i) - 1\<rparr>"
  have p: "popped i pn = upd_trk i ?pt pn" using pop_eq(1) [OF assms(3)] by (simp add: popped_def)
  have d: "distinct (nodes pn)" using assms(1) by (simp add: net_ok_def)
  have "all_tasks (popped i pn) + mset (tasks (trk pn i)) = all_tasks pn + mset ts"
    using all_tasks_upd [OF assms(2) d, of ?pt] by (simp add: p)
  then show a: "all_tasks pn = add_mset t (all_tasks (popped i pn))" using assms(3) by simp
  have c: "count (all_tasks pn) x \<le> 1" for x using assms(1) by (simp add: net_ok_def)
  from c [of t] a have t: "t \<notin># all_tasks (popped i pn)" by (simp add: not_in_iff)
  have c': "count (all_tasks (popped i pn)) x \<le> 1" for x using c [of x] a by (auto split: if_splits)
  have i: "tracker_ok (trk pn i)" "trk_op_code (trk pn i) \<noteq> 0" "pend pn t = trk_op_code (trk pn i)" "steps_ok (tsk pn t)"
    using assms by (auto simp: net_ok_def)
  have "tracker_ok ?pt" using i(1) assms(3) by (simp add: tracker_ok_def)
  then have "net_ok (popped i pn)" using assms c' unfolding p by (auto simp: net_ok_def)
  with t i(4) assms(2) show "task_safe (popped i pn) t" unfolding p by (auto simp: task_safe_def)
  show "pend pn t = trk_op_code (trk pn i)" "pend pn t \<noteq> 0" using i by simp_all
  show "same_net pn (popped i pn)" "tsk (popped i pn) = tsk pn" "work i pn = length (todo (tsk pn t)) + work i (popped i pn)"
    "destroyed (popped i pn) = destroyed pn" "detached (popped i pn) = detached pn"
    using assms(3) by (simp_all add: p same_net_def work_def)
qed

text \<open>The rule for the processing loop of a tracker.\<close>

lemma process_loop_rule:
  assumes "Q cnt pn" "work i pn < n"
    and step: "\<And>cnt pn t ts. Q cnt pn \<Longrightarrow> tasks (trk pn i) = t # ts \<Longrightarrow>
      \<exists>cont pn'. pn_run_op i t (popped i pn) = Some (cont, pn') \<and> Q (Suc cnt) pn' \<and> (cont \<longrightarrow> work i pn' < work i pn)"
  shows "\<exists>cnt' pn'. pn_process_loop n i cnt pn = Some (cnt', pn') \<and> Q cnt' pn' \<and> (tasks (trk pn i) \<noteq> [] \<longrightarrow> cnt < cnt') \<and> cnt \<le> cnt'"
  using assms(1,2)
proof (induction n arbitrary: cnt pn)
  case (Suc n)
  show ?case
  proof (cases "tasks (trk pn i)")
    case Nil
    with Suc.prems(1) show ?thesis by (simp add: pop_eq(2))
  next
    case (Cons t ts)
    from step [OF Suc.prems(1) Cons] obtain cont pn' where
      st: "pn_run_op i t (popped i pn) = Some (cont, pn')" "Q (Suc cnt) pn'" "cont \<longrightarrow> work i pn' < work i pn" by blast
    have g: "pn_get_next_pending_task (Some i) pn = (Some t, popped i pn)" using pop_eq(1) [OF Cons] by (simp add: popped_def)
    show ?thesis
    proof (cases cont)
      case True
      with st(3) Suc.prems(2) have "work i pn' < n" by simp
      from Suc.IH [OF st(2) this] st(1) True g show ?thesis by auto
    next
      case False
      with st g show ?thesis by auto
    qed
  qed
qed simp

lemma process_loop_ok:
  assumes "net_ok pn" "i \<in> set (nodes pn)" "op_ok (trk_op (trk pn i))" "work i pn < n"
  shows "\<exists>cnt' pn'. pn_process_loop n i cnt pn = Some (cnt', pn') \<and> net_ok pn' \<and> all_tasks pn' = all_tasks pn \<and> same_net pn pn'
     \<and> (tasks (trk pn i) \<noteq> [] \<longrightarrow> cnt < cnt')"
proof -
  let ?Q = "\<lambda>c q. net_ok q \<and> all_tasks q = all_tasks pn \<and> same_net pn q"
  have "\<exists>cnt' pn'. pn_process_loop n i cnt pn = Some (cnt', pn') \<and> ?Q cnt' pn' \<and> (tasks (trk pn i) \<noteq> [] \<longrightarrow> cnt < cnt') \<and> cnt \<le> cnt'"
  proof (rule process_loop_rule [where Q = ?Q, OF _ assms(4)])
    fix c q t ts assume q: "?Q c q" and t: "tasks (trk q i) = t # ts"
    then have iq: "i \<in> set (nodes q)" "op_ok (trk_op (trk q i))" using assms(2,3) by (simp_all add: same_net_def)
    note po = popped_ok [OF _ iq(1) t]
    have "\<exists>cont pn'. pn_run_op i t (popped i q) = Some (cont, pn') \<and> net_ok pn' \<and> all_tasks pn' = add_mset t (all_tasks (popped i q))
        \<and> same_net (popped i q) pn' \<and> (cont \<longrightarrow> work i pn' < work i (popped i q) + length (todo (tsk (popped i q) t)))"
      using q po(1,3,4,6,7) iq by (intro run_op_ok) (simp_all add: same_net_def)
    with q po(2,3,4,5) same_net_trans show "\<exists>cont pn'. pn_run_op i t (popped i q) = Some (cont, pn') \<and> ?Q (Suc c) pn'
        \<and> (cont \<longrightarrow> work i pn' < work i q)" by (metis add.commute)
  qed (use assms same_net_refl in simp)
  then show ?thesis by blast
qed

section \<open>The queue of trackers\<close>

lemma critical_fold:
  assumes "distinct (us @ vs)" "nodes pn = rev (filter c us) @ filter (\<lambda>i. \<not> c i) us @ vs" "c = (\<lambda>i. pt_track_level_critical (trk pn i))"
  shows "foldl (\<lambda>pn i. if pt_track_level_critical (trk pn i) then pn_node_to_queue_head i pn else pn) pn vs
    = pn\<lparr>nodes := rev (filter c (us @ vs)) @ filter (\<lambda>i. \<not> c i) (us @ vs)\<rparr>"
  using assms
proof (induction vs arbitrary: us pn)
  case (Cons i vs)
  let ?p = "if c i then pn_node_to_queue_head i pn else pn"
  have i: "i \<notin> set us" "i \<notin> set vs" using Cons.prems(1) by auto
  have n: "nodes ?p = rev (filter c (us @ [i])) @ filter (\<lambda>i. \<not> c i) (us @ [i]) @ vs"
    using i Cons.prems(2) by (auto simp: pn_node_to_queue_head_def remove1_append)
  have t: "trk ?p = trk pn" by (simp add: pn_node_to_queue_head_def)
  have e: "?p\<lparr>nodes := x\<rparr> = pn\<lparr>nodes := x\<rparr>" for x by (simp add: pn_node_to_queue_head_def)
  have "foldl (\<lambda>pn i. if pt_track_level_critical (trk pn i) then pn_node_to_queue_head i pn else pn) ?p vs
      = ?p\<lparr>nodes := rev (filter c ((us @ [i]) @ vs)) @ filter (\<lambda>i. \<not> c i) ((us @ [i]) @ vs)\<rparr>"
    by (rule Cons.IH) (use Cons.prems(1,3) n t in auto)
  then show ?case unfolding e using Cons.prems(3) by simp
qed simp

text \<open>Critical trackers come first, and no tracker is lost.\<close>

lemma queue_critical_eq:
  assumes "distinct (nodes pn)"
  shows "pn_queue_critical_trackers pn = pn\<lparr>nodes := rev (filter (\<lambda>i. pt_track_level_critical (trk pn i)) (nodes pn))
     @ filter (\<lambda>i. \<not> pt_track_level_critical (trk pn i)) (nodes pn)\<rparr>"
  using critical_fold [of "[]" "nodes pn" pn] assms by (simp add: pn_queue_critical_trackers_def)

lemma queue_tail_simps [simp]:
  "trk (pn_node_to_queue_tail i pn) = trk pn" "n_nodes (pn_node_to_queue_tail i pn) = n_nodes pn"
  "nodes (pn_node_to_queue_tail i pn) = remove1 i (nodes pn) @ [i]"
  by (simp_all add: pn_node_to_queue_tail_def)

lemma tail_upd: "(pn_node_to_queue_tail i pn)\<lparr>nodes := x\<rparr> = pn\<lparr>nodes := x\<rparr>"
  by (simp add: pn_node_to_queue_tail_def)

lemma dropWhile_at: "i \<notin> set us \<Longrightarrow> dropWhile (\<lambda>j. j \<noteq> i) (us @ i # vs) = i # vs"
  by (induction us) auto

text \<open>The search visits the trackers in order and takes the first one with a task; each one visited goes to the tail.\<close>

lemma pending_loop_found:
  assumes "nodes pn = us @ i # ws @ vs" "distinct (nodes pn)" "\<forall>j \<in> set us. tasks (trk pn j) = []" "tasks (trk pn i) \<noteq> []"
    and "cnt = length vs" "unat (n_nodes pn) = length (nodes pn)"
  shows "pn_pending_loop cnt (Some (hd (us @ [i]))) pn = (Some i, pn\<lparr>nodes := ws @ vs @ us @ [i]\<rparr>)"
  using assms
proof (induction us arbitrary: pn cnt vs)
  case Nil
  then show ?case by (subst pn_pending_loop.simps) (simp add: pt_track_tasks_pending_def pn_node_to_queue_tail_def)
next
  case (Cons u us)
  let ?p = "pn_node_to_queue_tail u pn"
  have u: "u \<notin> set us" "u \<noteq> i" "u \<notin> set ws" "u \<notin> set vs" using Cons.prems(1,2) by auto
  have n: "nodes ?p = us @ i # ws @ (vs @ [u])" using Cons.prems(1) by simp
  have c: "\<not> unat (n_nodes pn) < cnt" using Cons.prems(1,5,6) by simp
  obtain x xs where x: "us @ i # ws @ vs = x # xs" "hd (us @ [i]) = x" by (cases us) auto
  have "pn_pending_loop cnt (Some (hd ((u # us) @ [i]))) pn = pn_pending_loop (Suc cnt) (Some (hd (us @ [i]))) ?p"
    using Cons.prems x c by (subst pn_pending_loop.simps) (simp add: pt_track_tasks_pending_def)
  also have "\<dots> = (Some i, ?p\<lparr>nodes := ws @ (vs @ [u]) @ us @ [i]\<rparr>)"
    by (rule Cons.IH [OF n]) (use Cons.prems n in auto)
  finally show ?case by (simp add: tail_upd)
qed

lemma pending_loop_none:
  assumes "\<forall>j \<in> set (nodes pn). tasks (trk pn j) = []" "distinct (nodes pn)" "cur = None \<or> (\<exists>i \<in> set (nodes pn). cur = Some i)"
  shows "\<exists>ns. mset ns = mset (nodes pn) \<and> pn_pending_loop cnt cur pn = (None, pn\<lparr>nodes := ns\<rparr>)"
  using assms
proof (induction cnt cur pn rule: pn_pending_loop.induct)
  case (1 cnt cur pn)
  show ?case
  proof (cases "cur = None \<or> unat (n_nodes pn) < cnt")
    case True
    then have "pn_pending_loop cnt cur pn = (None, pn\<lparr>nodes := nodes pn\<rparr>)"
      by (subst pn_pending_loop.simps) (auto split: option.splits)
    then show ?thesis by blast
  next
    case False
    then obtain i where i: "cur = Some i" "\<not> unat (n_nodes pn) < cnt" "i \<in> set (nodes pn)" using "1.prems"(3) by auto
    let ?tmp = "case dropWhile (\<lambda>j. j \<noteq> i) (nodes pn) of _ # j # _ \<Rightarrow> Some j | _ \<Rightarrow> None"
    let ?p = "pn_node_to_queue_tail i pn"
    have m: "mset (nodes ?p) = mset (nodes pn)" "set (nodes ?p) = set (nodes pn)" "distinct (nodes ?p)"
      using i(3) "1.prems"(2) by (auto simp: set_remove1_eq)
    have tmp: "?tmp = None \<or> (\<exists>j \<in> set (nodes ?p). ?tmp = Some j)"
      unfolding m(2) using set_dropWhileD [of _ "\<lambda>j. j \<noteq> i" "nodes pn"] by (auto split: list.splits)
    have np: "\<not> pt_track_tasks_pending (Some (trk ?p i))" using "1.prems"(1) i(3) by (simp add: pt_track_tasks_pending_def)
    have "\<exists>ns. mset ns = mset (nodes ?p) \<and> pn_pending_loop (Suc cnt) ?tmp ?p = (None, ?p\<lparr>nodes := ns\<rparr>)"
      by (rule "1.IH" [OF i(1,2) refl refl np]) (use "1.prems"(1) m tmp in auto)
    then show ?thesis unfolding m(1) tail_upd using i(1,2) np
      by (subst pn_pending_loop.simps) (simp add: Let_def)
  qed
qed

lemma prefix_before: "as @ bs = us @ i # vs \<Longrightarrow> i \<notin> set as \<Longrightarrow> set as \<subseteq> set us"
proof (induction as arbitrary: us)
  case (Cons a as)
  then show ?case by (cases us) auto
qed simp

lemma next_pending_spec:
  assumes "distinct (nodes pn)" "unat (n_nodes pn) = length (nodes pn)"
  shows "\<exists>ns. mset ns = mset (nodes pn) \<and>
    (if \<forall>i \<in> set (nodes pn). tasks (trk pn i) = [] then pn_get_next_pending_tracker pn = (None, pn\<lparr>nodes := ns\<rparr>)
     else \<exists>i \<in> set (nodes pn). tasks (trk pn i) \<noteq> [] \<and> last ns = i \<and> pn_get_next_pending_tracker pn = (Some i, pn\<lparr>nodes := ns\<rparr>)
       \<and> ((\<exists>j \<in> set (nodes pn). tasks (trk pn j) \<noteq> [] \<and> pt_track_level_critical (trk pn j)) \<longrightarrow> pt_track_level_critical (trk pn i)))"
proof (cases "nodes pn = []")
  case True
  then show ?thesis by (simp add: pn_get_next_pending_tracker_def)
next
  case False
  let ?c = "\<lambda>i. pt_track_level_critical (trk pn i)"
  let ?qs = "rev (filter ?c (nodes pn)) @ filter (\<lambda>i. \<not> ?c i) (nodes pn)"
  let ?p = "pn\<lparr>nodes := ?qs\<rparr>"
  have q: "distinct ?qs" "set ?qs = set (nodes pn)" "mset ?qs = mset (nodes pn)" "length ?qs = length (nodes pn)"
    using assms(1) by (auto simp: sum_length_filter_compl)
  have np: "nodes ?p = ?qs" by simp
  have ne: "?qs \<noteq> []" using False q(4) by (metis length_0_conv)
  have g: "pn_get_next_pending_tracker pn = pn_pending_loop 0 (Some (hd ?qs)) ?p"
    using False ne unfolding pn_get_next_pending_tracker_def queue_critical_eq [OF assms(1)] Let_def
    by (simp del: rev_is_Nil_conv) (cases ?qs; simp)
  show ?thesis
  proof (cases "\<forall>i \<in> set (nodes pn). tasks (trk pn i) = []")
    case True
    have "\<exists>ns. mset ns = mset (nodes ?p) \<and> pn_pending_loop 0 (Some (hd ?qs)) ?p = (None, ?p\<lparr>nodes := ns\<rparr>)"
    proof (rule pending_loop_none)
      show "\<forall>j \<in> set (nodes ?p). tasks (trk ?p j) = []" using True q(2) by simp
      show "distinct (nodes ?p)" using q(1) by simp
      show "Some (hd ?qs) = None \<or> (\<exists>i \<in> set (nodes ?p). Some (hd ?qs) = Some i)" 
        unfolding np using hd_in_set [OF ne] by blast
    qed
    with True g q(3) show ?thesis by auto
  next
    case False
    then have "\<exists>i \<in> set ?qs. tasks (trk pn i) \<noteq> []" using q(2) by blast
    from split_list_first_prop [OF this] obtain us i vs where
      s: "?qs = us @ i # vs" "tasks (trk pn i) \<noteq> []" "\<forall>j \<in> set us. tasks (trk pn j) = []" by blast
    have "pn_pending_loop 0 (Some (hd (us @ [i]))) ?p = (Some i, ?p\<lparr>nodes := vs @ [] @ us @ [i]\<rparr>)"
      by (rule pending_loop_found) (use s q assms in auto)
    moreover have "hd ?qs = hd (us @ [i])" unfolding s(1) by (cases us) auto
    ultimately have r: "pn_get_next_pending_tracker pn = (Some i, pn\<lparr>nodes := vs @ us @ [i]\<rparr>)" using g by simp
    have c: "?c i" if "j \<in> set (nodes pn)" "tasks (trk pn j) \<noteq> []" "?c j" for j
    proof (rule ccontr)
      assume n: "\<not> ?c i"
      have "j \<in> set (rev (filter ?c (nodes pn)))" using that by simp
      moreover have "i \<notin> set (rev (filter ?c (nodes pn)))" using n by simp
      ultimately have "j \<in> set us" using prefix_before [OF s(1)] by blast
      with s(3) that(2) show False by simp
    qed
    have "mset (vs @ us @ [i]) = mset ?qs" unfolding s(1) by simp
    then have m: "mset (vs @ us @ [i]) = mset (nodes pn)" using q(3) by simp
    have i: "i \<in> set (nodes pn)" unfolding q(2) [symmetric] s(1) by simp
    have "last (vs @ us @ [i]) = i" by simp
    with r c i s(2) have "\<exists>i' \<in> set (nodes pn). tasks (trk pn i') \<noteq> [] \<and> last (vs @ us @ [i]) = i'
        \<and> pn_get_next_pending_tracker pn = (Some i', pn\<lparr>nodes := vs @ us @ [i]\<rparr>)
        \<and> ((\<exists>j \<in> set (nodes pn). tasks (trk pn j) \<noteq> [] \<and> ?c j) \<longrightarrow> ?c i')" by blast
    with False m show ?thesis by (intro exI [of _ "vs @ us @ [i]"]) (simp only: if_False simp_thms)
  qed
qed

end
