(* ===== verification/Proc_Spec.thy ===== *)
theory Proc_Spec
  imports Proc_Inv
begin

text \<open>
  What the processing network promises: cycles end and lose no task, tasks that succeed reach the output with their steps
  done in order, and the input distributes its tasks.
\<close>

section \<open>Whole cycles\<close>

lemma net_ok_nodes:
  assumes "net_ok pn" "mset ns = mset (nodes pn)"
  shows "net_ok (pn\<lparr>nodes := ns\<rparr>)" "all_tasks (pn\<lparr>nodes := ns\<rparr>) = all_tasks pn"
    "mset (node_tasks (pn\<lparr>nodes := ns\<rparr>)) = mset (node_tasks pn)"
proof -
  show m: "mset (node_tasks (pn\<lparr>nodes := ns\<rparr>)) = mset (node_tasks pn)"
  proof -
    have "mset (concat (map f xs)) = sum_mset (image_mset (\<lambda>i. mset (f i)) (mset xs))" for f :: "nat \<Rightarrow> nat list" and xs
      by (induction xs) simp_all
    then show ?thesis using assms(2) by (simp add: node_tasks_def)
  qed
  then show a: "all_tasks (pn\<lparr>nodes := ns\<rparr>) = all_tasks pn" by (simp add: all_tasks_def)
  have "set ns = set (nodes pn)" "length ns = length (nodes pn)" "distinct ns = distinct (nodes pn)"
    using assms(2) by (metis mset_eq_setD, metis mset_eq_length, metis mset_eq_imp_distinct_iff)
  with assms(1) a show "net_ok (pn\<lparr>nodes := ns\<rparr>)" by (auto simp: net_ok_def)
qed

lemma next_pending_short:
  assumes "distinct (nodes pn)" "unat (n_nodes pn) = length (nodes pn)"
  shows "\<exists>ns. mset ns = mset (nodes pn) \<and>
    (if \<forall>i \<in> set (nodes pn). tasks (trk pn i) = [] then pn_get_next_pending_tracker pn = (None, pn\<lparr>nodes := ns\<rparr>)
     else \<exists>i \<in> set (nodes pn). tasks (trk pn i) \<noteq> [] \<and> pn_get_next_pending_tracker pn = (Some i, pn\<lparr>nodes := ns\<rparr>))"
proof (cases "\<forall>i \<in> set (nodes pn). tasks (trk pn i) = []")
  case True
  with next_pending_spec [OF assms] show ?thesis by simp
next
  case False
  with next_pending_spec [OF assms] show ?thesis by (simp only: if_False) blast
qed

lemma process_next_ok:
  assumes "net_ok pn" "\<forall>i \<in> set (nodes pn). op_ok (trk_op (trk pn i)) \<and> work i pn < n"
  shows "\<exists>cnt pn'. pn_process_next n pn = Some (cnt, pn') \<and> net_ok pn' \<and> all_tasks pn' = all_tasks pn \<and> mset (nodes pn') = mset (nodes pn)
     \<and> (cnt = 0 \<longleftrightarrow> (\<forall>i \<in> set (nodes pn). tasks (trk pn i) = []))"
proof -
  have d: "distinct (nodes pn)" "unat (n_nodes pn) = length (nodes pn)" using assms(1) by (simp_all add: net_ok_def)
  from next_pending_short [OF d] obtain ns where ns: "mset ns = mset (nodes pn)" and
    sp: "if \<forall>i \<in> set (nodes pn). tasks (trk pn i) = [] then pn_get_next_pending_tracker pn = (None, pn\<lparr>nodes := ns\<rparr>)
     else \<exists>i \<in> set (nodes pn). tasks (trk pn i) \<noteq> [] \<and> pn_get_next_pending_tracker pn = (Some i, pn\<lparr>nodes := ns\<rparr>)" by blast
  note ok = net_ok_nodes [OF assms(1) ns]
  have set_ns: "set ns = set (nodes pn)" using ns by (rule mset_eq_setD)
  show ?thesis
  proof (cases "\<forall>i \<in> set (nodes pn). tasks (trk pn i) = []")
    case True
    with sp ok ns show ?thesis by (simp add: pn_process_next_def)
  next
    case False
    with sp obtain i where i: "i \<in> set (nodes pn)" "tasks (trk pn i) \<noteq> []" "pn_get_next_pending_tracker pn = (Some i, pn\<lparr>nodes := ns\<rparr>)"
      by auto
    have "work i (pn\<lparr>nodes := ns\<rparr>) < n" "op_ok (trk_op (trk (pn\<lparr>nodes := ns\<rparr>) i))" "i \<in> set (nodes (pn\<lparr>nodes := ns\<rparr>))"
      using assms(2) i(1) set_ns by (simp_all add: work_def)
    from process_loop_ok [OF ok(1) this(3,2,1), of 0] obtain cnt pn' where
      p: "pn_process_loop n i 0 (pn\<lparr>nodes := ns\<rparr>) = Some (cnt, pn')" "net_ok pn'" "all_tasks pn' = all_tasks pn"
        "same_net (pn\<lparr>nodes := ns\<rparr>) pn'" "0 < cnt" using i(2) ok(2) by auto
    with i False ns show ?thesis by (auto simp: pn_process_next_def same_net_def)
  qed
qed

section \<open>Tasks that always succeed\<close>

definition op_plain :: "op_func \<Rightarrow> bool" where
  "op_plain f \<longleftrightarrow> (\<forall>opc t. \<exists>t'. f opc t = (PN_TASK_SUCCESS, Some t') \<and> todo t' = todo t \<and> sdone t' = sdone t)"

lemma plain_op_ok: "op_plain f \<Longrightarrow> op_ok f"
  unfolding op_ok_def
proof (intro allI)
  fix opc t assume "op_plain f"
  then obtain t' where "f opc t = (PN_TASK_SUCCESS, Some t')" "todo t' = todo t" unfolding op_plain_def by metis
  then show "case f opc t of (ret, None) \<Rightarrow> ret = PN_TASK_DETACH
     | (ret, Some t') \<Rightarrow> length (todo t') \<le> length (todo t) \<and> (steps_ok t \<longrightarrow> steps_ok t')
         \<and> (ret = PN_TASK_RESCHED \<or> ret = PN_TASK_SORTSEQ \<longrightarrow>
              pt_get_pend_step_op_code (Some t') = pt_get_pend_step_op_code (Some t))"
    by (simp add: steps_ok_def pt_get_pend_step_op_code_def)
qed

definition total_work :: "proc_net \<Rightarrow> nat" where
  "total_work pn = (\<Sum>t \<in># mset (node_tasks pn). length (todo (tsk pn t)))"

definition routable :: "proc_net \<Rightarrow> proc_task \<Rightarrow> bool" where
  "routable pn t \<longleftrightarrow> (\<forall>s \<in> set (todo t). \<exists>i \<in> set (nodes pn). trk_op_code (trk pn i) = op_code s)"

definition history :: "proc_task \<Rightarrow> proc_step list" where
  "history t = rev (sdone t) @ todo t"

definition plain_net :: "proc_net \<Rightarrow> bool" where
  "plain_net pn \<longleftrightarrow> net_ok pn \<and> (\<forall>i \<in> set (nodes pn). op_plain (trk_op (trk pn i)))
     \<and> (\<forall>t \<in> set (node_tasks pn). routable pn (tsk pn t))"

text \<open>Where such a network stands, relative to where it started and the number of operators run so far.\<close>

definition progress :: "proc_net \<Rightarrow> nat \<Rightarrow> proc_net \<Rightarrow> bool" where
  "progress pn0 c pn \<longleftrightarrow> plain_net pn \<and> all_tasks pn = all_tasks pn0 \<and> mset (nodes pn) = mset (nodes pn0) \<and> tin pn = tin pn0
     \<and> destroyed pn = destroyed pn0 \<and> detached pn = detached pn0
     \<and> (\<forall>t. history (tsk pn t) = history (tsk pn0 t)) \<and> total_work pn + c = total_work pn0"

lemma history_next: "history (snd (pt_next_pend_step_done t)) = history t"
  by (simp add: history_def pt_next_pend_step_done_def split: list.splits)

lemma routable_next: "routable pn t \<Longrightarrow> routable pn (snd (pt_next_pend_step_done t))"
  by (auto simp: routable_def pt_next_pend_step_done_def split: list.splits)

lemma routable_same: "same_net pn pn' \<Longrightarrow> routable pn' t = routable pn t"
  by (simp add: routable_def same_net_def)

lemma put_node_tasks:
  assumes "net_ok pn" "i \<in> set (nodes pn)" "pend pn t = trk_op_code (trk pn i)"
  shows "mset (node_tasks (put_node i t pn)) = add_mset t (mset (node_tasks pn))"
proof -
  have "distinct (nodes pn)" using assms(1) by (simp add: net_ok_def)
  from node_tasks_upd [OF assms(2) this, of "(trk pn i)\<lparr>tasks := tasks (trk pn i) @ [t], n_tasks := n_tasks (trk pn i) + 1\<rparr>"] assms(3)
  show ?thesis by (simp add: put_node_def pt_track_put_def)
qed

text \<open>A task with known steps moves on to the tracker of its next step, or to the output.\<close>

lemma to_next_plain:
  assumes s: "task_safe pn t" and r: "routable pn (tsk pn t)"
  shows "\<exists>pn'. pn_task_to_next_node t pn = Some (0, pn') \<and> net_ok pn' \<and> all_tasks pn' = add_mset t (all_tasks pn) \<and> same_net pn pn'
     \<and> tsk pn' = tsk pn \<and> destroyed pn' = destroyed pn \<and> detached pn' = detached pn
     \<and> total_work pn' = total_work pn + length (todo (tsk pn t)) \<and> set (node_tasks pn') \<subseteq> insert t (set (node_tasks pn))"
proof -
  have n: "net_ok pn" "t \<notin># all_tasks pn" "steps_ok (tsk pn t)" "nodes pn \<noteq> []" using s by (simp_all add: task_safe_def)
  show ?thesis
  proof (cases "todo (tsk pn t)")
    case Nil
    then have z: "pend pn t = 0" by (simp add: pt_get_pend_step_op_code_def)
    have "destroyed (put_out t pn) = destroyed pn" "detached (put_out t pn) = detached pn"
      by (auto simp: put_out_def pt_track_put_def)
    moreover have "node_tasks (put_out t pn) = node_tasks pn" using put_out_ok(3,4) [OF n(1,2) Nil] by (simp add: node_tasks_def)
    ultimately show ?thesis using put_out_ok [OF n(1,2) Nil] put_out_frame(1) [of pn t] z Nil
      by (simp add: task_to_next_node_eq [OF n(4)] total_work_def subset_insertI)
  next
    case (Cons st ss)
    then have p: "pend pn t = op_code st" "op_code st \<noteq> 0" using n(3) by (auto simp: pt_get_pend_step_op_code_def steps_ok_def)
    from r Cons obtain j where "j \<in> set (nodes pn)" "trk_op_code (trk pn j) = op_code st" by (auto simp: routable_def)
    then have "pn_find_tracker pn (op_code st) \<noteq> None" by (auto simp: pn_find_tracker_def find_None_iff)
    then obtain i where f: "pn_find_tracker pn (op_code st) = Some i" by blast
    from find_tracker_some [OF f] p have i: "i \<in> set (nodes pn)" "pend pn t = trk_op_code (trk pn i)" by simp_all
    note nt = put_node_tasks [OF n(1) i]
    have "destroyed (put_node i t pn) = destroyed pn" "detached (put_node i t pn) = detached pn"
      by (auto simp: put_node_def pt_track_put_def)
    moreover have "set (node_tasks (put_node i t pn)) = insert t (set (node_tasks pn))" using arg_cong [OF nt, of set_mset] by simp
    ultimately show ?thesis using put_node_ok [OF n(1) i(1) n(2) i(2) n(3)] put_node_frame [where pn = pn and i = i and t = t] p f nt
      by (simp add: task_to_next_node_eq [OF n(4)] total_work_def)
  qed
qed

lemma popped_tasks:
  assumes "net_ok pn" "i \<in> set (nodes pn)" "tasks (trk pn i) = t # ts"
  shows "mset (node_tasks pn) = add_mset t (mset (node_tasks (popped i pn)))"
    "total_work pn = length (todo (tsk pn t)) + total_work (popped i pn)"
proof -
  have d: "distinct (nodes pn)" using assms(1) by (simp add: net_ok_def)
  show m: "mset (node_tasks pn) = add_mset t (mset (node_tasks (popped i pn)))"
    using node_tasks_upd [OF assms(2) d, of "(trk pn i)\<lparr>tasks := ts, n_tasks := n_tasks (trk pn i) - 1\<rparr>"] pop_eq(1) [OF assms(3)] assms(3)
    by (simp add: popped_def)
  show "total_work pn = length (todo (tsk pn t)) + total_work (popped i pn)"
    using m popped_ok(4) [OF assms] by (simp add: total_work_def)
qed


lemma run_op_plain:
  assumes s: "task_safe pn t" and i: "i \<in> set (nodes pn)" and f: "op_plain (trk_op (trk pn i))" and r: "routable pn (tsk pn t)"
    and ne: "todo (tsk pn t) \<noteq> []"
  shows "\<exists>pn'. pn_run_op i t pn = Some (True, pn') \<and> net_ok pn' \<and> all_tasks pn' = add_mset t (all_tasks pn) \<and> same_net pn pn'
     \<and> (\<forall>x. x \<noteq> t \<longrightarrow> tsk pn' x = tsk pn x) \<and> history (tsk pn' t) = history (tsk pn t) \<and> routable pn (tsk pn' t)
     \<and> destroyed pn' = destroyed pn \<and> detached pn' = detached pn
     \<and> total_work pn' + 1 = total_work pn + length (todo (tsk pn t)) \<and> set (node_tasks pn') \<subseteq> insert t (set (node_tasks pn))"
proof -
  obtain k where k: "trk_op (trk pn i) (pend pn t) (tsk pn t) = (PN_TASK_SUCCESS, Some k)" "todo k = todo (tsk pn t)" "sdone k = sdone (tsk pn t)"
    using f unfolding op_plain_def by metis
  let ?k = "snd (pt_next_pend_step_done k)"
  have n: "steps_ok (tsk pn t)" "t \<notin># all_tasks pn" using s by (simp_all add: task_safe_def)
  then have "steps_ok k" using k(2) by (simp add: steps_ok_def)
  then have us: "task_safe (upd_tsk t ?k pn) t" using upd_tsk_safe [OF s] next_step_fields(1) by blast
  have "routable pn k" using r k(2) by (simp add: routable_def)
  then have rk: "routable pn ?k" by (rule routable_next)
  then have "routable (upd_tsk t ?k pn) (tsk (upd_tsk t ?k pn) t)" using routable_same [OF same_net_tsk] by simp
  from to_next_plain [OF us this] obtain pn' where
    p: "pn_task_to_next_node t (upd_tsk t ?k pn) = Some (0, pn')" "net_ok pn'" "all_tasks pn' = add_mset t (all_tasks pn)"
      "same_net (upd_tsk t ?k pn) pn'" "tsk pn' = (tsk pn)(t := ?k)" "destroyed pn' = destroyed pn" "detached pn' = detached pn"
      "total_work pn' = total_work (upd_tsk t ?k pn) + length (todo ?k)" "set (node_tasks pn') \<subseteq> insert t (set (node_tasks (upd_tsk t ?k pn)))"
    by auto
  have nt: "node_tasks (upd_tsk t ?k pn) = node_tasks pn" by (simp add: node_tasks_def)
  have "t \<notin> set (node_tasks pn)" using n(2) by (auto simp: all_tasks_def)
  then have "total_work (upd_tsk t ?k pn) = total_work pn"
    unfolding total_work_def nt by (intro arg_cong [where f = sum_mset] image_mset_cong) auto
  moreover have "length (todo ?k) + 1 = length (todo (tsk pn t))" using ne k(2) next_step_fields(2) [of k] by (cases "todo k") auto
  ultimately have tw: "total_work pn' + 1 = total_work pn + length (todo (tsk pn t))" using p(8) by simp
  have u: "upd_tsk t x (upd_tsk t y pn) = upd_tsk t x pn" for x y by (simp add: upd_tsk_def)
  have "pn_run_op i t pn = Some (True, pn')"
    using k(1) p(1) by (simp add: pn_run_op_def pn_eval_task_status_def u)
  moreover have "history ?k = history (tsk pn t)" using history_next [of k] k(2,3) by (simp add: history_def)
  moreover have "same_net pn pn'" using same_net_trans [OF same_net_tsk p(4)] .
  ultimately show ?thesis using p(2,3,5-7,9) tw rk nt by (auto split: if_splits)
qed

lemma progress_step:
  assumes pr: "progress pn0 c pn" and i: "i \<in> set (nodes pn)" and t: "tasks (trk pn i) = t # ts"
  shows "\<exists>pn'. pn_run_op i t (popped i pn) = Some (True, pn') \<and> progress pn0 (Suc c) pn' \<and> same_net pn pn'"
proof -
  have pl: "net_ok pn" "\<And>j. j \<in> set (nodes pn) \<Longrightarrow> op_plain (trk_op (trk pn j))" "\<And>x. x \<in> set (node_tasks pn) \<Longrightarrow> routable pn (tsk pn x)"
    using pr by (auto simp: progress_def plain_net_def)
  note po = popped_ok [OF pl(1) i t] and pt = popped_tasks [OF pl(1) i t]
  have sn: "same_net pn (popped i pn)" by (rule po(3))
  have tin: "t \<in> set (node_tasks pn)" using arg_cong [OF pt(1), of set_mset] by simp
  have sub: "set (node_tasks (popped i pn)) \<subseteq> set (node_tasks pn)" using arg_cong [OF pt(1), of set_mset] by auto
  have ne: "todo (tsk pn t) \<noteq> []" using po(7) by (auto simp: pt_get_pend_step_op_code_def)
  have "\<exists>pn'. pn_run_op i t (popped i pn) = Some (True, pn') \<and> net_ok pn' \<and> all_tasks pn' = add_mset t (all_tasks (popped i pn)) \<and> same_net (popped i pn) pn'
     \<and> (\<forall>x. x \<noteq> t \<longrightarrow> tsk pn' x = tsk (popped i pn) x) \<and> history (tsk pn' t) = history (tsk (popped i pn) t) \<and> routable (popped i pn) (tsk pn' t)
     \<and> destroyed pn' = destroyed (popped i pn) \<and> detached pn' = detached (popped i pn)
     \<and> total_work pn' + 1 = total_work (popped i pn) + length (todo (tsk (popped i pn) t)) \<and> set (node_tasks pn') \<subseteq> insert t (set (node_tasks (popped i pn)))"
    by (rule run_op_plain [OF po(1)]) (use i sn pl(2,3) tin ne po(4) routable_same [OF sn] in \<open>simp_all add: same_net_def\<close>)
  then obtain pn' where p: "pn_run_op i t (popped i pn) = Some (True, pn')" "net_ok pn'" "all_tasks pn' = add_mset t (all_tasks (popped i pn))"
    "same_net (popped i pn) pn'" "\<forall>x. x \<noteq> t \<longrightarrow> tsk pn' x = tsk pn x" "history (tsk pn' t) = history (tsk pn t)" "routable pn (tsk pn' t)"
    "destroyed pn' = destroyed pn" "detached pn' = detached pn" "total_work pn' + 1 = total_work pn"
    "set (node_tasks pn') \<subseteq> insert t (set (node_tasks (popped i pn)))"
    using po(4,8,9) pt(2) sub routable_same [OF sn] by auto
  have sn': "same_net pn pn'" by (rule same_net_trans [OF sn p(4)])
  have "routable pn' (tsk pn' x)" if "x \<in> set (node_tasks pn')" for x
    using that p(5,7,11) sub pl(3) routable_same [OF sn'] by (cases "x = t") auto
  then have "plain_net pn'" using p(2) pl(2) sn' by (simp add: plain_net_def same_net_def)
  moreover have "history (tsk pn' x) = history (tsk pn x)" for x using p(5,6) by (cases "x = t") auto
  ultimately have "progress pn0 (Suc c) pn'" using pr p(3,8-10) po(2) sn' by (simp add: progress_def same_net_def)
  with p(1) sn' show ?thesis by blast
qed

lemma work_total:
  assumes "net_ok pn" "i \<in> set (nodes pn)"
  shows "work i pn \<le> total_work pn"
proof -
  from assms(2) obtain us vs where n: "nodes pn = us @ i # vs" by (auto dest: split_list)
  show ?thesis by (simp add: total_work_def work_def node_tasks_def n sum_mset_sum_list flip: mset_map)
qed

lemma total_zero: "net_ok pn \<Longrightarrow> total_work pn = 0 \<longleftrightarrow> node_tasks pn = []"
proof -
  assume "net_ok pn"
  then have "todo (tsk pn t) \<noteq> []" if "t \<in> set (node_tasks pn)" for t
    using that by (fastforce simp: net_ok_def node_tasks_def pt_get_pend_step_op_code_def)
  then show ?thesis by (cases "node_tasks pn") (auto simp: total_work_def)
qed

lemma progress_refl: "plain_net pn \<Longrightarrow> progress pn 0 pn"
  by (simp add: progress_def)

lemma progress_trans: "progress a c b \<Longrightarrow> progress b d e \<Longrightarrow> progress a (c + d) e"
  by (simp add: progress_def)

text \<open>A cycle runs at least one operator while a task waits.\<close>

lemma process_next_plain:
  assumes "plain_net pn" "total_work pn < n"
  shows "\<exists>cnt pn'. pn_process_next n pn = Some (cnt, pn') \<and> progress pn cnt pn' \<and> (0 < total_work pn \<longrightarrow> 0 < cnt)"
proof -
  have ok: "net_ok pn" using assms(1) by (simp add: plain_net_def)
  then have d: "distinct (nodes pn)" "unat (n_nodes pn) = length (nodes pn)" by (simp_all add: net_ok_def)
  from next_pending_short [OF d] obtain ns where ns: "mset ns = mset (nodes pn)" and
    sp: "if \<forall>i \<in> set (nodes pn). tasks (trk pn i) = [] then pn_get_next_pending_tracker pn = (None, pn\<lparr>nodes := ns\<rparr>)
     else \<exists>i \<in> set (nodes pn). tasks (trk pn i) \<noteq> [] \<and> pn_get_next_pending_tracker pn = (Some i, pn\<lparr>nodes := ns\<rparr>)" by blast
  let ?q = "pn\<lparr>nodes := ns\<rparr>"
  note okq = net_ok_nodes [OF ok ns]
  have sns: "set ns = set (nodes pn)" using ns by (rule mset_eq_setD)
  have tw: "total_work ?q = total_work pn" unfolding total_work_def okq(3) by simp
  have "set (node_tasks ?q) = set (node_tasks pn)" using okq(3) by (rule mset_eq_setD)
  then have "plain_net ?q" using assms(1) okq(1) sns by (simp add: plain_net_def routable_def)
  then have prq: "progress pn 0 ?q" using okq(2) ns tw by (simp add: progress_def)
  show ?thesis
  proof (cases "\<forall>i \<in> set (nodes pn). tasks (trk pn i) = []")
    case True
    then have "total_work pn = 0" using total_zero [OF ok] by (simp add: node_tasks_def)
    with True sp prq show ?thesis by (simp add: pn_process_next_def)
  next
    case False
    with sp obtain i where i: "i \<in> set (nodes pn)" "tasks (trk pn i) \<noteq> []" "pn_get_next_pending_tracker pn = (Some i, ?q)"
      by (simp only: if_False) blast
    let ?Q = "\<lambda>c r. progress pn c r \<and> same_net ?q r"
    have wk: "work i ?q < n" using work_total [OF okq(1), of i] i(1) sns tw assms(2) by simp
    have "\<exists>cnt' pn'. pn_process_loop n i 0 ?q = Some (cnt', pn') \<and> ?Q cnt' pn' \<and> (tasks (trk ?q i) \<noteq> [] \<longrightarrow> 0 < cnt') \<and> 0 \<le> cnt'"
    proof (rule process_loop_rule [where Q = ?Q, OF _ wk])
      show "?Q 0 ?q" using prq same_net_refl by simp
      fix c r t ts assume r: "?Q c r" and t: "tasks (trk r i) = t # ts"
      have ir: "i \<in> set (nodes r)" using r i(1) sns by (simp add: same_net_def)
      from progress_step [OF _ ir t, of pn c] r obtain r' where
        r': "pn_run_op i t (popped i r) = Some (True, r')" "progress pn (Suc c) r'" "same_net r r'" by blast
      have nr: "net_ok r" "op_ok (trk_op (trk r i))" using r ir plain_op_ok by (auto simp: progress_def plain_net_def)
      note po = popped_ok [OF nr(1) ir t]
      have "\<exists>cont r''. pn_run_op i t (popped i r) = Some (cont, r'') \<and> net_ok r'' \<and> all_tasks r'' = add_mset t (all_tasks (popped i r))
          \<and> same_net (popped i r) r'' \<and> (cont \<longrightarrow> work i r'' < work i (popped i r) + length (todo (tsk (popped i r) t)))"
        using po(1,3,4,6,7) ir nr(2) by (intro run_op_ok) (simp_all add: same_net_def)
      with r'(1) po(4,5) have "work i r' < work i r" by auto
      with r r' same_net_trans show "\<exists>cont pn'. pn_run_op i t (popped i r) = Some (cont, pn') \<and> ?Q (Suc c) pn' \<and> (cont \<longrightarrow> work i pn' < work i r)"
        by blast
    qed
    with i show ?thesis by (auto simp: pn_process_next_def)
  qed
qed


section \<open>Input and output\<close>

definition known :: "proc_net \<Rightarrow> nat \<Rightarrow> bool" where
  "known pn t \<longleftrightarrow> (\<exists>i \<in> set (nodes pn). trk_op_code (trk pn i) = pend pn t)"

lemma input_popped:
  assumes "net_ok pn" "tasks (tin pn) = t # ts"
  defines "q \<equiv> pn\<lparr>tin := (tin pn)\<lparr>tasks := ts, n_tasks := n_tasks (tin pn) - 1\<rparr>\<rparr>"
  shows "net_ok q" "all_tasks pn = add_mset t (all_tasks q)" "t \<notin># all_tasks q" "steps_ok (tsk pn t)"
proof -
  show a: "all_tasks pn = add_mset t (all_tasks q)" using assms(2) by (simp add: all_tasks_def q_def node_tasks_def)
  have c: "count (all_tasks pn) x \<le> 1" for x using assms(1) by (simp add: net_ok_def)
  from c [of t] a show "t \<notin># all_tasks q" by (simp add: not_in_iff)
  have "count (all_tasks q) x \<le> 1" for x using c [of x] a by (auto split: if_splits)
  with assms(1,2) show "net_ok q" by (auto simp: net_ok_def q_def tracker_ok_def)
  show "steps_ok (tsk pn t)" using assms(1,2) by (simp add: net_ok_def)
qed

lemma inputs_loop_ok:
  assumes "net_ok pn" "i \<in> set (nodes pn)" "tasks (tin pn) = ts"
  shows "\<exists>pn'. pn_inputs_loop i pn = Some (0, pn') \<and> net_ok pn' \<and> all_tasks pn' = all_tasks pn \<and> tasks (tin pn') = []
     \<and> tsk pn' = tsk pn \<and> tout pn' = tout pn \<and> nodes pn' = nodes pn
     \<and> destroyed pn' = rev (filter (\<lambda>t. \<not> known pn t) ts) @ destroyed pn"
  using assms
proof (induction ts arbitrary: pn i)
  case Nil
  then show ?case by (subst pn_inputs_loop.simps) (simp add: pt_track_get_def)
next
  case (Cons t ts)
  define q where "q = pn\<lparr>tin := (tin pn)\<lparr>tasks := ts, n_tasks := n_tasks (tin pn) - 1\<rparr>\<rparr>"
  note ip = input_popped [OF Cons.prems(1,3), folded q_def]
  have q: "tsk q = tsk pn" "nodes q = nodes pn" "trk q = trk pn" "tasks (tin q) = ts" "tout q = tout pn" "destroyed q = destroyed pn"
    by (simp_all add: q_def)
  obtain f fs where nd: "nodes pn = f # fs" using Cons.prems(2) by (cases "nodes pn") auto
  let ?f = "if trk_op_code (trk q i) \<noteq> pend q t then pn_find_tracker q (pend q t) else Some i"
  have step: "pn_inputs_loop i pn = (case ?f of None \<Rightarrow> pn_inputs_loop f (q\<lparr>destroyed := t # destroyed q\<rparr>)
       | Some i \<Rightarrow> (case pt_track_put (Some (trk q i)) (Some (t, tsk q t)) of
            (e, Some pt) \<Rightarrow> if e \<noteq> 0 then None else pn_inputs_loop i (upd_trk i pt q) | (e, None) \<Rightarrow> None))"
  proof -
    have g: "pt_track_get (tin pn) = (Some t, (tin pn)\<lparr>tasks := ts, n_tasks := n_tasks (tin pn) - 1\<rparr>)"
      using Cons.prems(3) by (simp add: pt_track_get_def)
    have nq: "nodes q = f # fs" using q(2) nd by simp
    show ?thesis
      by (subst pn_inputs_loop.simps) (simp only: g prod.case option.case Let_def q_def [symmetric] nq list.case)
  qed
  have f: "?f = None \<longleftrightarrow> \<not> known pn t" "?f = Some j \<Longrightarrow> j \<in> set (nodes q) \<and> pend q t = trk_op_code (trk q j)" for j
    using Cons.prems(2) find_tracker_some [of q "pend q t" j]
    by (auto simp: known_def q pn_find_tracker_def find_None_iff split: if_splits)
  show ?case
  proof (cases ?f)
    case None
    let ?d = "q\<lparr>destroyed := t # destroyed q\<rparr>"
    have kn: "known ?d x = known pn x" for x by (simp add: known_def q)
    have "\<exists>pn'. pn_inputs_loop f ?d = Some (0, pn') \<and> net_ok pn' \<and> all_tasks pn' = all_tasks ?d \<and> tasks (tin pn') = []
       \<and> tsk pn' = tsk ?d \<and> tout pn' = tout ?d \<and> nodes pn' = nodes ?d \<and> destroyed pn' = rev (filter (\<lambda>t. \<not> known ?d t) ts) @ destroyed ?d"
      by (rule Cons.IH) (use destroyed_ok(1) [OF ip(1,3)] q nd in simp_all)
    moreover have "\<not> known pn t" using None f(1) by simp
    ultimately show ?thesis unfolding step None kn using destroyed_ok(2) [OF ip(1,3)] ip(2) q by auto
  next
    case (Some j)
    note j = f(2) [OF Some]
    have p: "pt_track_put (Some (trk q j)) (Some (t, tsk q t))
        = (0, Some ((trk q j)\<lparr>tasks := tasks (trk q j) @ [t], n_tasks := n_tasks (trk q j) + 1\<rparr>))"
      using j by (simp add: pt_track_put_def)
    let ?d = "put_node j t q"
    have d: "?d = upd_trk j ((trk q j)\<lparr>tasks := tasks (trk q j) @ [t], n_tasks := n_tasks (trk q j) + 1\<rparr>) q"
      unfolding put_node_def p by simp
    have so: "steps_ok (tsk q t)" using ip(4) q by simp
    note pk = put_node_ok [OF ip(1) conjunct1 [OF j] ip(3) conjunct2 [OF j] so]
    have fr: "tin ?d = tin q" "tsk ?d = tsk q" "nodes ?d = nodes q" "tout ?d = tout q" "destroyed ?d = destroyed q" unfolding d by simp_all
    have kn: "known ?d x = known pn x" for x unfolding d by (auto simp: known_def q)
    have "\<exists>pn'. pn_inputs_loop j ?d = Some (0, pn') \<and> net_ok pn' \<and> all_tasks pn' = all_tasks ?d \<and> tasks (tin pn') = []
       \<and> tsk pn' = tsk ?d \<and> tout pn' = tout ?d \<and> nodes pn' = nodes ?d \<and> destroyed pn' = rev (filter (\<lambda>t. \<not> known ?d t) ts) @ destroyed ?d"
      by (rule Cons.IH) (use pk(1) j fr q in simp_all)
    moreover have "known pn t" using Some f(1) by simp
    moreover have "pn_inputs_loop i pn = pn_inputs_loop j ?d" unfolding step Some d option.case p by simp
    ultimately show ?thesis unfolding kn fr using pk(2) ip(2) q by auto
  qed
qed

text \<open>Repeated cycles, as the owner of a network runs them.\<close>

fun pn_cycles :: "nat \<Rightarrow> nat \<Rightarrow> proc_net \<Rightarrow> proc_net option" where
  "pn_cycles 0 n pn = Some pn"
| "pn_cycles (Suc k) n pn = do { (_, pn) \<leftarrow> pn_process_next n pn; pn_cycles k n pn }"

lemma cycles_progress:
  assumes "plain_net pn" "total_work pn < n" "total_work pn \<le> k"
  shows "\<exists>pn'. pn_cycles k n pn = Some pn' \<and> progress pn (total_work pn) pn'"
  using assms
proof (induction k arbitrary: pn)
  case 0
  then show ?case by (simp add: progress_refl)
next
  case (Suc k)
  from process_next_plain [OF Suc.prems(1,2)] obtain c p1 where
    p1: "pn_process_next n pn = Some (c, p1)" "progress pn c p1" "0 < total_work pn \<longrightarrow> 0 < c" by (elim exE conjE)
  then have "plain_net p1" "total_work p1 + c = total_work pn" by (simp_all add: progress_def)
  moreover from this(2) p1(3) Suc.prems have "total_work p1 < n" "total_work p1 \<le> k" by auto
  ultimately obtain p2 where p2: "pn_cycles k n p1 = Some p2" "progress p1 (total_work p1) p2" using Suc.IH by blast
  from progress_trans [OF p1(2) p2(2)] \<open>total_work p1 + c = total_work pn\<close> have "progress pn (total_work pn) p2"
    by (simp add: add.commute)
  with p1(1) p2(1) show ?case by simp
qed

section \<open>Properties\<close>

text \<open>C20: a cycle of the network always ends and loses no task.  For operator functions that add no steps and do not change
  the pending step of a task they want rescheduled, \<^verbatim>\<open>pn_process_next\<close> returns, the network stays consistent (every
  waiting task is in the tracker of its next step, finished tasks are in the output, the counters are
  exact), and every task is still in exactly one place.  It processes nothing only if nothing waits.\<close>

theorem pn_process_conserves:
  assumes "net_ok pn" "\<forall>i \<in> set (nodes pn). op_ok (trk_op (trk pn i)) \<and> work i pn < n"
  shows "\<exists>cnt pn'. pn_process_next n pn = Some (cnt, pn') \<and> net_ok pn' \<and> all_tasks pn' = all_tasks pn \<and> mset (nodes pn') = mset (nodes pn)
     \<and> (cnt = 0 \<longleftrightarrow> (\<forall>i \<in> set (nodes pn). tasks (trk pn i) = []))"
  by (rule process_next_ok [OF assms])

text \<open>Two trackers, one task that needs both, and one that needs the second only.\<close>

definition demo_op :: op_func where
  "demo_op opc t = (PN_TASK_SUCCESS, Some (t\<lparr>nmemb := nmemb t + 1\<rparr>))"

definition demo_net :: proc_net where
  "demo_net = \<lparr>tin = \<lparr>tasks = [], n_tasks = 0, n_tasks_crit = 1, trk_op_code = PN_OP_NODE_IN, trk_op = pn_dummy_op\<rparr>,
     tout = \<lparr>tasks = [], n_tasks = 0, n_tasks_crit = 1, trk_op_code = PN_OP_NODE_OUT, trk_op = pn_dummy_op\<rparr>,
     nodes = [0, 1], n_nodes = 2,
     trk = (\<lambda>i. if i = 0 then \<lparr>tasks = [0], n_tasks = 1, n_tasks_crit = 4, trk_op_code = 1, trk_op = demo_op\<rparr>
                else \<lparr>tasks = [1], n_tasks = 1, n_tasks_crit = 4, trk_op_code = 2, trk_op = demo_op\<rparr>),
     tsk = (\<lambda>t. if t = 0 then demo_steps else snd (pt_next_pend_step_done demo_steps)), destroyed = [], detached = []\<rparr>"

lemma demo_op_plain: "op_plain demo_op"
  by (simp add: op_plain_def demo_op_def)

lemma demo_net_ok: "net_ok demo_net"
  by (auto simp: net_ok_def demo_net_def all_tasks_def node_tasks_def tracker_ok_def steps_ok_def demo_steps_def
      pt_get_pend_step_op_code_def pt_next_pend_step_done_def)

lemma demo_net_plain: "plain_net demo_net"
proof -
  have "op_plain (trk_op (trk demo_net i))" for i using demo_op_plain by (simp add: demo_net_def)
  moreover have "\<forall>t \<in> set (node_tasks demo_net). routable demo_net (tsk demo_net t)" by code_simp
  ultimately show ?thesis using demo_net_ok by (simp add: plain_net_def)
qed

theorem pn_process_conserves_witness:
  "\<exists>cnt pn'. pn_process_next 10 demo_net = Some (cnt, pn') \<and> net_ok pn' \<and> all_tasks pn' = {#0, 1#} \<and> cnt \<noteq> 0"
proof -
  have "\<forall>i \<in> set (nodes demo_net). op_ok (trk_op (trk demo_net i)) \<and> work i demo_net < 10"
    using plain_op_ok [OF demo_op_plain] by (auto simp: demo_net_def work_def demo_steps_def pt_next_pend_step_done_def)
  moreover have "all_tasks demo_net = {#0, 1#}" "\<not> (\<forall>i \<in> set (nodes demo_net). tasks (trk demo_net i) = [])"
    by (simp_all add: all_tasks_def node_tasks_def demo_net_def)
  ultimately show ?thesis using pn_process_conserves [OF demo_net_ok, of 10] by auto
qed

text \<open>C21: every task gets through.  In a network whose operators succeed and know all steps of the waiting tasks, as many
  cycles as there are pending steps bring every task to the output, with all its steps completed, in the order in which they
  were added; none is destroyed.\<close>

theorem pn_drains:
  assumes "plain_net pn" "total_work pn < n"
  shows "\<exists>pn'. pn_cycles (total_work pn) n pn = Some pn' \<and> node_tasks pn' = [] \<and> destroyed pn' = destroyed pn \<and> detached pn' = detached pn
     \<and> mset (tasks (tout pn')) = mset (tasks (tout pn)) + mset (node_tasks pn)
     \<and> (\<forall>t \<in> set (node_tasks pn). todo (tsk pn' t) = [] \<and> sdone (tsk pn' t) = rev (todo (tsk pn t)) @ sdone (tsk pn t))"
proof -
  from cycles_progress [OF assms order_refl] obtain pn' where
    p: "pn_cycles (total_work pn) n pn = Some pn'" "progress pn (total_work pn) pn'" by blast
  then have ok: "net_ok pn'" "total_work pn' = 0" "all_tasks pn' = all_tasks pn" "tin pn' = tin pn" "destroyed pn' = destroyed pn"
    "detached pn' = detached pn" "\<And>t. history (tsk pn' t) = history (tsk pn t)" by (auto simp: progress_def plain_net_def)
  from total_zero [OF ok(1)] ok(2) have e: "node_tasks pn' = []" by simp
  with ok(3-6) have m: "mset (tasks (tout pn')) = mset (tasks (tout pn)) + mset (node_tasks pn)" by (simp add: all_tasks_def)
  have "todo (tsk pn' t) = [] \<and> sdone (tsk pn' t) = rev (todo (tsk pn t)) @ sdone (tsk pn t)" if "t \<in> set (node_tasks pn)" for t
  proof -
    have "t \<in># mset (tasks (tout pn'))" unfolding m using that by simp
    then have z: "todo (tsk pn' t) = []" using ok(1) by (simp add: net_ok_def)
    with ok(7) [of t] have "rev (rev (sdone (tsk pn' t))) = rev (rev (sdone (tsk pn t)) @ todo (tsk pn t))" by (simp add: history_def)
    with z show ?thesis by simp
  qed
  with p(1) e ok(5,6) m show ?thesis by blast
qed

theorem pn_drains_witness:
  "\<exists>pn'. pn_cycles 3 10 demo_net = Some pn' \<and> mset (tasks (tout pn')) = {#0, 1#} \<and> todo (tsk pn' 0) = []"
proof -
  have "total_work demo_net = 3" by code_simp
  moreover have "node_tasks demo_net = [0, 1]" "tasks (tout demo_net) = []" by code_simp+
  ultimately show ?thesis using pn_drains [OF demo_net_plain, of 10] by auto
qed

text \<open>The input node hands every task to a tracker of its first step, destroys exactly the tasks whose first step no
  tracker knows, and is empty afterwards.\<close>

theorem pn_inputs_correct:
  assumes "net_ok pn" "nodes pn \<noteq> []"
  shows "\<exists>pn'. pn_process_inputs pn = Some (0, pn') \<and> net_ok pn' \<and> all_tasks pn' = all_tasks pn \<and> tasks (tin pn') = [] \<and> tsk pn' = tsk pn
     \<and> destroyed pn' = rev (filter (\<lambda>t. \<forall>i \<in> set (nodes pn). trk_op_code (trk pn i) \<noteq> pend pn t) (tasks (tin pn))) @ destroyed pn"
proof -
  from assms(2) obtain f fs where f: "nodes pn = f # fs" by (cases "nodes pn") auto
  then have "f \<in> set (nodes pn)" by simp
  from inputs_loop_ok [OF assms(1) this refl] f show ?thesis by (simp add: pn_process_inputs_def known_def) blast
qed

theorem pn_inputs_correct_witness: "\<exists>pn'. pn_process_inputs demo_net = Some (0, pn') \<and> net_ok pn' \<and> tasks (tin pn') = []"
  using pn_inputs_correct [OF demo_net_ok] by (auto simp: demo_net_def)

definition lossy_op :: op_func where
  "lossy_op opc t = (PN_TASK_RESCHED, Some (snd (pt_next_pend_step_done t)))"

text \<open>An operator that changes the steps of a task and asks for it to be rescheduled loses the task: the tracker rejects
  it, the result is not looked at, and the task is on no list any more.\<close>

theorem pn_resched_loses_task:
  "case pn_process_next 10 (upd_trk 0 ((trk demo_net 0)\<lparr>trk_op := lossy_op\<rparr>) demo_net) of
     Some (cnt, pn') \<Rightarrow> cnt = 1 \<and> tasks (tin pn') = [] \<and> tasks (tout pn') = [] \<and> node_tasks pn' = [1] \<and> destroyed pn' = [] \<and> detached pn' = []
   | None \<Rightarrow> False"
  by code_simp

end
