(* ===== verification/Srmmu.thy ===== *)
theory Srmmu
  imports Bit_Ops
begin

text \<open>
  The page tables of the SPARC reference MMU (\<^verbatim>\<open>arch/sparc/mm/srmmu.c\<close>, \<^verbatim>\<open>include/srmmu.h\<close>).  Tables are in
  a memory of 32 bit words, which is addressed by bytes; the code only accesses aligned words.  Tables come from an
  allocator given by function pointers, which all contexts share; it works on a state of its own.  Pages handed to
  \<^verbatim>\<open>free_page\<close> are recorded in their order.  \<^term>\<open>None\<close> is a failing \<^verbatim>\<open>BUG\<close>, a null pointer that is
  followed, an access outside of the table of contexts, or a loop that does not end.
\<close>

section \<open>Sizes, entries and offsets\<close>

abbreviation (input) SRMMU_CONTEXTS :: nat where "SRMMU_CONTEXTS \<equiv> 256"
abbreviation (input) SRMMU_SIZE_TBL_LVL_1 :: nat where "SRMMU_SIZE_TBL_LVL_1 \<equiv> 256"
abbreviation (input) SRMMU_SIZE_TBL_LVL_2 :: nat where "SRMMU_SIZE_TBL_LVL_2 \<equiv> 64"
abbreviation (input) SRMMU_SIZE_TBL_LVL_3 :: nat where "SRMMU_SIZE_TBL_LVL_3 \<equiv> 64"
abbreviation (input) SRMMU_TBL_LVL_1_ALIGN :: u32 where "SRMMU_TBL_LVL_1_ALIGN \<equiv> 1024"
abbreviation (input) SRMMU_TBL_LVL_2_ALIGN :: u32 where "SRMMU_TBL_LVL_2_ALIGN \<equiv> 256"
abbreviation (input) SRMMU_TBL_LVL_3_ALIGN :: u32 where "SRMMU_TBL_LVL_3_ALIGN \<equiv> 256"
abbreviation (input) SRMMU_SMALL_PAGE_SIZE :: u32 where "SRMMU_SMALL_PAGE_SIZE \<equiv> 0x1000"
abbreviation (input) SRMMU_MEDIUM_PAGE_SIZE :: u32 where "SRMMU_MEDIUM_PAGE_SIZE \<equiv> 0x40000"
abbreviation (input) SRMMU_LARGE_PAGE_SIZE :: u32 where "SRMMU_LARGE_PAGE_SIZE \<equiv> 0x1000000"
abbreviation (input) SRMMU_ENTRY_TYPE_INVALID :: u32 where "SRMMU_ENTRY_TYPE_INVALID \<equiv> 0"
abbreviation (input) SRMMU_ENTRY_TYPE_PT_DESC :: u32 where "SRMMU_ENTRY_TYPE_PT_DESC \<equiv> 1"
abbreviation (input) SRMMU_ENTRY_TYPE_PT_ENTRY :: u32 where "SRMMU_ENTRY_TYPE_PT_ENTRY \<equiv> 2"
abbreviation (input) SRMMU_CACHEABLE :: u32 where "SRMMU_CACHEABLE \<equiv> 0x80"
abbreviation (input) SRMMU_ACC_S_RWX_2 :: u32 where "SRMMU_ACC_S_RWX_2 \<equiv> 0x1c"

definition SRMMU_LVL1_GET_TBL_OFFSET :: "u32 \<Rightarrow> u32" where
  "SRMMU_LVL1_GET_TBL_OFFSET addr = drop_bit 24 addr AND 0xff"

definition SRMMU_LVL2_GET_TBL_OFFSET :: "u32 \<Rightarrow> u32" where
  "SRMMU_LVL2_GET_TBL_OFFSET addr = drop_bit 18 addr AND 0x3f"

definition SRMMU_LVL3_GET_TBL_OFFSET :: "u32 \<Rightarrow> u32" where
  "SRMMU_LVL3_GET_TBL_OFFSET addr = drop_bit 12 addr AND 0x3f"

definition SRMMU_PTD :: "u32 \<Rightarrow> u32" where
  "SRMMU_PTD addr = (drop_bit 4 addr AND NOT 3) OR SRMMU_ENTRY_TYPE_PT_DESC"

definition SRMMU_PTE :: "u32 \<Rightarrow> u32 \<Rightarrow> u32" where
  "SRMMU_PTE addr flags = (drop_bit 4 addr AND NOT 0xff) OR SRMMU_ENTRY_TYPE_PT_ENTRY OR flags"

definition SRMMU_PTD_TO_ADDR :: "u32 \<Rightarrow> u32" where
  "SRMMU_PTD_TO_ADDR ptd = push_bit 4 (ptd AND NOT 3)"

definition SRMMU_PTE_TO_ADDR :: "u32 \<Rightarrow> u32" where
  "SRMMU_PTE_TO_ADDR pte = push_bit 4 (pte AND NOT 0xff)"

text \<open>The words in front of a table tell where its memory begins.\<close>

abbreviation (input) MAGIC_MARKER :: u32 where "MAGIC_MARKER \<equiv> 0xdeadd800"
abbreviation (input) MAGIC_WORDS :: int where "MAGIC_WORDS \<equiv> 2"

definition MAGIC_OF :: "u32 \<Rightarrow> u32" where
  "MAGIC_OF offset = (offset AND (SRMMU_TBL_LVL_1_ALIGN - 1)) OR MAGIC_MARKER"

definition OFFSET_FROM_MAGIC :: "u32 \<Rightarrow> u32" where
  "OFFSET_FROM_MAGIC x = x AND (SRMMU_TBL_LVL_1_ALIGN - 1)"

definition IS_MAGIC :: "u32 \<Rightarrow> bool" where
  "IS_MAGIC x \<longleftrightarrow> x AND NOT (SRMMU_TBL_LVL_1_ALIGN - 1) = MAGIC_MARKER"

section \<open>State\<close>

record mmu_ctx =
  mc_addr :: u32
  lvl1 :: u32
  ctx_num :: u32

record 's tbl_alloc =
  ta_alloc :: "u32 \<Rightarrow> 's \<Rightarrow> u32 \<times> 's"
  ta_free :: "u32 \<Rightarrow> 's \<Rightarrow> 's"

record 's mmu =
  words :: "u32 \<Rightarrow> u32"
  mmu_ctp :: "u32 list"
  mmu_num_ctp :: u32
  mmu_ctx_cur :: "mmu_ctx option"
  ctx_free :: "mmu_ctx list"
  ctx_used :: "mmu_ctx list"
  pages_freed :: "u32 list"
  mmu_ctx_reg :: u32
  tbl_heap :: 's

text \<open>The entry \<open>i\<close> of a table is the word at \<open>tbl + 4 * i\<close>, also for negative \<open>i\<close>.\<close>

definition rd :: "u32 \<Rightarrow> 's mmu \<Rightarrow> u32" where
  "rd a M = words M a"

definition wr :: "u32 \<Rightarrow> u32 \<Rightarrow> 's mmu \<Rightarrow> 's mmu" where
  "wr a v M = M\<lparr>words := (words M)(a := v)\<rparr>"

section \<open>Contexts\<close>

fun find_ctx :: "u32 \<Rightarrow> mmu_ctx list \<Rightarrow> mmu_ctx option" where
  "find_ctx n [] = None"
| "find_ctx n (c # cs) = (if ctx_num c = n then Some c else find_ctx n cs)"

definition mmu_find_ctx :: "u32 \<Rightarrow> 's mmu \<Rightarrow> mmu_ctx option" where
  "mmu_find_ctx n M =
     (if n > mmu_num_ctp M then None
      else case find_ctx n (ctx_used M) of Some c \<Rightarrow> Some c | None \<Rightarrow> find_ctx n (ctx_free M))"

definition mmu_set_current_ctx :: "u32 \<Rightarrow> 's mmu \<Rightarrow> int \<times> 's mmu" where
  "mmu_set_current_ctx n M =
     (case mmu_find_ctx n M of None \<Rightarrow> (- EINVAL, M) | Some c \<Rightarrow> (0, M\<lparr>mmu_ctx_cur := Some c\<rparr>))"

definition mmu_add_ctx :: "u32 \<Rightarrow> 's mmu \<Rightarrow> 's mmu option" where
  "mmu_add_ctx ptd M =
     (if unat (mmu_num_ctp M) < length (mmu_ctp M)
      then Some (M\<lparr>mmu_ctp := (mmu_ctp M)[unat (mmu_num_ctp M) := ptd], mmu_num_ctp := mmu_num_ctp M + 1\<rparr>) else None)"

definition mmu_set_map_full :: "u32 \<Rightarrow> 's mmu \<Rightarrow> 's mmu option" where
  "mmu_set_map_full n M =
     (if unat n \<ge> SRMMU_CONTEXTS then Some M
      else if unat n < length (mmu_ctp M)
      then Some (M\<lparr>mmu_ctp := (mmu_ctp M)[unat n := SRMMU_PTE 0 (SRMMU_CACHEABLE OR SRMMU_ACC_S_RWX_2)]\<rparr>) else None)"

section \<open>Tables\<close>

fun set_invalid :: "nat \<Rightarrow> u32 \<Rightarrow> 's mmu \<Rightarrow> 's mmu" where
  "set_invalid 0 a M = M"
| "set_invalid (Suc k) a M = set_invalid k (a + 4) (wr a SRMMU_ENTRY_TYPE_INVALID M)"

definition mmu_set_lvl1_tbl_invalid :: "u32 \<Rightarrow> 's mmu \<Rightarrow> 's mmu" where
  "mmu_set_lvl1_tbl_invalid tbl = set_invalid SRMMU_SIZE_TBL_LVL_1 tbl"

definition mmu_set_lvl2_tbl_invalid :: "u32 \<Rightarrow> 's mmu \<Rightarrow> 's mmu" where
  "mmu_set_lvl2_tbl_invalid tbl = set_invalid SRMMU_SIZE_TBL_LVL_2 tbl"

definition mmu_set_lvl3_tbl_invalid :: "u32 \<Rightarrow> 's mmu \<Rightarrow> 's mmu" where
  "mmu_set_lvl3_tbl_invalid tbl = set_invalid SRMMU_SIZE_TBL_LVL_3 tbl"

text \<open>The word of the reference counter; \<open>tbl_size\<close> is a size in bytes that the code uses as an index.\<close>

definition ref_word :: "u32 \<Rightarrow> u32 \<Rightarrow> 's mmu \<Rightarrow> u32 option" where
  "ref_word tbl tbl_size M =
     (if IS_MAGIC (rd (tbl - 4) M) then Some (tbl - 8)
      else if IS_MAGIC (rd (tbl + 4 * tbl_size) M) then Some (tbl + 4 * (tbl_size + 1))
      else None)"

definition mmu_inc_ref_cnt :: "u32 \<Rightarrow> u32 \<Rightarrow> 's mmu \<Rightarrow> (u32 \<times> 's mmu) option" where
  "mmu_inc_ref_cnt tbl tbl_size M = do {
     ptd \<leftarrow> ref_word tbl tbl_size M;
     let cnt = rd ptd M + 1;
     Some (cnt, wr ptd cnt M)
   }"

definition mmu_dec_ref_cnt :: "u32 \<Rightarrow> u32 \<Rightarrow> 's mmu \<Rightarrow> (u32 \<times> 's mmu) option" where
  "mmu_dec_ref_cnt tbl tbl_size M = do {
     ptd \<leftarrow> ref_word tbl tbl_size M;
     let cnt = rd ptd M;
     if cnt = 0 then None
     else (let cnt = cnt - 1 in Some (cnt, wr ptd cnt M))
   }"

definition mmu_alloc_tbl :: "'s tbl_alloc \<Rightarrow> u32 \<Rightarrow> 's mmu \<Rightarrow> u32 \<times> 's mmu" where
  "mmu_alloc_tbl A tbl_size M =
     (let (ptde, h) = ta_alloc A (2 * tbl_size) (tbl_heap M); M = M\<lparr>tbl_heap := h\<rparr> in
      if ptde = 0 then (0, M)
      else
        let ptde_align = align_up ptde tbl_size; offset = sint (ptde_align - ptde) in
        if offset > MAGIC_WORDS
        then (ptde_align, wr (ptde_align - 8) 0 (wr (ptde_align - 4) (MAGIC_OF (word_of_int offset)) M))
        else (ptde_align, wr (ptde_align + 4 * (tbl_size + 1)) 0 (wr (ptde_align + 4 * tbl_size) (MAGIC_OF 0) M)))"

definition mmu_free_tbl :: "'s tbl_alloc \<Rightarrow> u32 \<Rightarrow> u32 \<Rightarrow> 's mmu \<Rightarrow> 's mmu option" where
  "mmu_free_tbl A tbl tbl_size M = do {
     ptd \<leftarrow> (if IS_MAGIC (rd (tbl - 4) M) then Some (rd (tbl - 4) M)
            else if IS_MAGIC (rd (tbl + 4 * tbl_size) M) then Some (rd (tbl + 4 * tbl_size) M)
            else None);
     Some (M\<lparr>tbl_heap := ta_free A (tbl - OFFSET_FROM_MAGIC ptd) (tbl_heap M)\<rparr>)
   }"

definition mmu_alloc_lvl1_tbl :: "'s tbl_alloc \<Rightarrow> 's mmu \<Rightarrow> u32 \<times> 's mmu" where
  "mmu_alloc_lvl1_tbl A M =
     (let (ptde, M) = mmu_alloc_tbl A SRMMU_TBL_LVL_1_ALIGN M in
      if ptde = 0 then (0, M) else (ptde, mmu_set_lvl1_tbl_invalid ptde M))"

text \<open>A null pointer is the address 0.\<close>

definition mmu_find_tbl_lvl2 :: "mmu_ctx \<Rightarrow> u32 \<Rightarrow> 's mmu \<Rightarrow> u32" where
  "mmu_find_tbl_lvl2 ctx va M =
     (let e = rd (lvl1 ctx + 4 * SRMMU_LVL1_GET_TBL_OFFSET va) M in
      if e AND SRMMU_ENTRY_TYPE_PT_ENTRY \<noteq> 0 then 0
      else if e = SRMMU_ENTRY_TYPE_INVALID then 0
      else SRMMU_PTD_TO_ADDR e)"

definition mmu_find_tbl_lvl3 :: "mmu_ctx \<Rightarrow> u32 \<Rightarrow> 's mmu \<Rightarrow> u32" where
  "mmu_find_tbl_lvl3 ctx va M =
     (let lvl2 = mmu_find_tbl_lvl2 ctx va M in
      if lvl2 = 0 then 0
      else let e = rd (lvl2 + 4 * SRMMU_LVL2_GET_TBL_OFFSET va) M in
      if e AND SRMMU_ENTRY_TYPE_PT_ENTRY \<noteq> 0 then 0
      else if e = SRMMU_ENTRY_TYPE_INVALID then 0
      else SRMMU_PTD_TO_ADDR e)"

definition mmu_need_lvl2_tbl :: "'s tbl_alloc \<Rightarrow> mmu_ctx \<Rightarrow> u32 \<Rightarrow> 's mmu \<Rightarrow> int \<times> 's mmu" where
  "mmu_need_lvl2_tbl A ctx va M =
     (let pg = lvl1 ctx + 4 * SRMMU_LVL1_GET_TBL_OFFSET va in
      if rd pg M AND SRMMU_ENTRY_TYPE_PT_ENTRY \<noteq> 0 then (- EINVAL, M)
      else if rd pg M \<noteq> SRMMU_ENTRY_TYPE_INVALID then (0, M)
      else
        let (ptde, M) = mmu_alloc_tbl A SRMMU_TBL_LVL_2_ALIGN M in
        if ptde = 0 then (- ENOMEM, M)
        else (0, wr pg (SRMMU_PTD ptde) (mmu_set_lvl2_tbl_invalid ptde M)))"

definition mmu_need_lvl3_tbl :: "'s tbl_alloc \<Rightarrow> mmu_ctx \<Rightarrow> u32 \<Rightarrow> 's mmu \<Rightarrow> (int \<times> 's mmu) option" where
  "mmu_need_lvl3_tbl A ctx va M =
     (if mmu_find_tbl_lvl3 ctx va M \<noteq> 0 then Some (0, M)
      else
        let lvl2 = mmu_find_tbl_lvl2 ctx va M;
            (ret, M) = (if lvl2 = 0 then mmu_need_lvl2_tbl A ctx va M else (0, M))
        in if ret \<noteq> 0 then Some (ret, M)
        else
          let lvl2 = (if lvl2 = 0 then mmu_find_tbl_lvl2 ctx va M else lvl2);
              (lvl3, M) = mmu_alloc_tbl A SRMMU_TBL_LVL_3_ALIGN M
          in if lvl3 = 0 then Some (- ENOMEM, M)
          else if lvl2 = 0 then None
          else do {
            let M = mmu_set_lvl3_tbl_invalid lvl3 M;
            let M = wr (lvl2 + 4 * SRMMU_LVL2_GET_TBL_OFFSET va) (SRMMU_PTD lvl3) M;
            (_, M) \<leftarrow> mmu_inc_ref_cnt lvl2 SRMMU_TBL_LVL_2_ALIGN M;
            Some (0, M)
          })"

text \<open>The structure of a context has 32 bytes.\<close>

definition srmmu_new_ctx :: "'s tbl_alloc \<Rightarrow> 's mmu \<Rightarrow> (int \<times> 's mmu) option" where
  "srmmu_new_ctx A M =
     (if unat (mmu_num_ctp M) > SRMMU_CONTEXTS then Some (- ENOMEM, M)
      else
        let (ctx, h) = ta_alloc A 32 (tbl_heap M); M = M\<lparr>tbl_heap := h\<rparr> in
        if ctx = 0 then Some (- ENOMEM, M)
        else
          let (l1, M) = mmu_alloc_lvl1_tbl A M in
          if l1 = 0 then Some (- ENOMEM, M\<lparr>tbl_heap := ta_free A ctx (tbl_heap M)\<rparr>)
          else do {
            let num = mmu_num_ctp M;
            M \<leftarrow> mmu_add_ctx (SRMMU_PTD l1) M;
            Some (uint num, M\<lparr>ctx_free := ctx_free M @ [\<lparr>mc_addr = ctx, lvl1 = l1, ctx_num = num\<rparr>]\<rparr>)
          })"

section \<open>Releasing pages\<close>

definition page_out :: "u32 \<Rightarrow> 's mmu \<Rightarrow> 's mmu" where
  "page_out pa M = M\<lparr>pages_freed := pages_freed M @ [pa]\<rparr>"

text \<open>One entry of a level 3 table; the first component says whether the table has been released.\<close>

definition release_lvl3_entry :: "'s tbl_alloc \<Rightarrow> u32 \<Rightarrow> u32 \<Rightarrow> 's mmu \<Rightarrow> (bool \<times> 's mmu) option" where
  "release_lvl3_entry A lvl3 va M =
     (let pg = lvl3 + 4 * SRMMU_LVL3_GET_TBL_OFFSET va; e = rd pg M in
      if e = SRMMU_ENTRY_TYPE_INVALID then Some (False, M)
      else if e AND SRMMU_ENTRY_TYPE_PT_ENTRY \<noteq> 0 then do {
        let M = wr pg SRMMU_ENTRY_TYPE_INVALID (page_out (SRMMU_PTE_TO_ADDR e) M);
        (cnt, M) \<leftarrow> mmu_dec_ref_cnt lvl3 SRMMU_TBL_LVL_3_ALIGN M;
        if cnt = 0 then do { M \<leftarrow> mmu_free_tbl A lvl3 SRMMU_TBL_LVL_3_ALIGN M; Some (True, M) }
        else Some (False, M)
      } else Some (False, M))"

partial_function (option) release_lvl3_loop :: "'s tbl_alloc \<Rightarrow> u32 \<Rightarrow> u32 \<Rightarrow> u32 \<Rightarrow> 's mmu \<Rightarrow> (int \<times> 's mmu) option" where
  "release_lvl3_loop A lvl3 va va_end M =
     (if va < va_end then do {
        (gone, M) \<leftarrow> release_lvl3_entry A lvl3 va M;
        if gone then Some (0, M) else release_lvl3_loop A lvl3 (va + SRMMU_SMALL_PAGE_SIZE) va_end M
      } else Some (1, M))"

declare release_lvl3_loop.simps [code]

text \<open>The end is limited to that of the table.\<close>

definition limit_end :: "u32 \<Rightarrow> u32 \<Rightarrow> u32 \<Rightarrow> u32" where
  "limit_end va va_end sz = (if va_end > align_up (va + 1) sz then align_up (va + 1) sz else va_end)"

definition srmmu_release_lvl3_pages :: "'s tbl_alloc \<Rightarrow> mmu_ctx \<Rightarrow> u32 \<Rightarrow> u32 \<Rightarrow> 's mmu \<Rightarrow> (int \<times> 's mmu) option" where
  "srmmu_release_lvl3_pages A ctx va va_end M =
     (let lvl3 = mmu_find_tbl_lvl3 ctx va M in
      if lvl3 = 0 then Some (0, M)
      else release_lvl3_loop A lvl3 va (limit_end va va_end SRMMU_MEDIUM_PAGE_SIZE) M)"

partial_function (option) release_lvl2_loop :: "'s tbl_alloc \<Rightarrow> mmu_ctx \<Rightarrow> u32 \<Rightarrow> u32 \<Rightarrow> u32 \<Rightarrow> 's mmu \<Rightarrow> (int \<times> 's mmu) option" where
  "release_lvl2_loop A ctx lvl2 va va_end M =
     (if va < va_end then
        let pg = lvl2 + 4 * SRMMU_LVL2_GET_TBL_OFFSET va in
        if rd pg M = SRMMU_ENTRY_TYPE_INVALID then release_lvl2_loop A ctx lvl2 (va + SRMMU_MEDIUM_PAGE_SIZE) va_end M
        else do {
          (r, M) \<leftarrow> srmmu_release_lvl3_pages A ctx va va_end M;
          (gone, M) \<leftarrow> (if r = 0 then do {
              (cnt, M) \<leftarrow> mmu_dec_ref_cnt lvl2 SRMMU_TBL_LVL_2_ALIGN (wr pg SRMMU_ENTRY_TYPE_INVALID M);
              if cnt = 0 then do { M \<leftarrow> mmu_free_tbl A lvl2 SRMMU_TBL_LVL_2_ALIGN M; Some (True, M) }
              else Some (False, M)
            } else Some (False, M));
          if gone then Some (0, M)
          else release_lvl2_loop A ctx lvl2
                 (align_up (va - SRMMU_MEDIUM_PAGE_SIZE + 1) SRMMU_MEDIUM_PAGE_SIZE + SRMMU_MEDIUM_PAGE_SIZE) va_end M
        }
      else Some (1, M))"

declare release_lvl2_loop.simps [code]

definition srmmu_release_lvl2_pages :: "'s tbl_alloc \<Rightarrow> mmu_ctx \<Rightarrow> u32 \<Rightarrow> u32 \<Rightarrow> 's mmu \<Rightarrow> (int \<times> 's mmu) option" where
  "srmmu_release_lvl2_pages A ctx va va_end M =
     (let lvl2 = mmu_find_tbl_lvl2 ctx va M in
      if lvl2 = 0 then Some (0, M)
      else release_lvl2_loop A ctx lvl2 va (limit_end va va_end SRMMU_LARGE_PAGE_SIZE) M)"

partial_function (option) srmmu_release_lvl1_pages :: "'s tbl_alloc \<Rightarrow> mmu_ctx \<Rightarrow> u32 \<Rightarrow> u32 \<Rightarrow> 's mmu \<Rightarrow> 's mmu option" where
  "srmmu_release_lvl1_pages A ctx va va_end M =
     (if va < va_end then
        let pg = lvl1 ctx + 4 * SRMMU_LVL1_GET_TBL_OFFSET va; e = rd pg M in
        if e AND SRMMU_ENTRY_TYPE_PT_ENTRY \<noteq> 0 then
          srmmu_release_lvl1_pages A ctx (va + SRMMU_LARGE_PAGE_SIZE) va_end
            (wr pg SRMMU_ENTRY_TYPE_INVALID (page_out (SRMMU_PTE_TO_ADDR e) M))
        else if e = SRMMU_ENTRY_TYPE_INVALID then srmmu_release_lvl1_pages A ctx (va + SRMMU_LARGE_PAGE_SIZE) va_end M
        else do {
          (r, M) \<leftarrow> srmmu_release_lvl2_pages A ctx va va_end M;
          let M = (if r = 0 then wr pg SRMMU_ENTRY_TYPE_INVALID M else M);
          srmmu_release_lvl1_pages A ctx
            (align_up (va - SRMMU_LARGE_PAGE_SIZE + 1) SRMMU_LARGE_PAGE_SIZE + SRMMU_LARGE_PAGE_SIZE) va_end M
        }
      else Some M)"

declare srmmu_release_lvl1_pages.simps [code]

definition srmmu_release_pages :: "'s tbl_alloc \<Rightarrow> u32 \<Rightarrow> u32 \<Rightarrow> u32 \<Rightarrow> 's mmu \<Rightarrow> 's mmu option" where
  "srmmu_release_pages A n va va_end M =
     (if va_end \<le> va then Some M
      else case mmu_find_ctx n M of None \<Rightarrow> None | Some ctx \<Rightarrow> srmmu_release_lvl1_pages A ctx va va_end M)"

section \<open>Mapping pages\<close>

definition srmmu_do_large_mapping :: "u32 \<Rightarrow> u32 \<Rightarrow> u32 \<Rightarrow> u32 \<Rightarrow> 's mmu \<Rightarrow> int \<times> 's mmu" where
  "srmmu_do_large_mapping n va pa perm M =
     (if mmu_num_ctp M < n then (- EINVAL, M)
      else case mmu_find_ctx n M of
        None \<Rightarrow> (- ENOMEM, M)
      | Some ctx \<Rightarrow> (0, wr (lvl1 ctx + 4 * SRMMU_LVL1_GET_TBL_OFFSET va) (SRMMU_PTE pa perm) M))"

text \<open>The loops over the pages of a range; \<open>k\<close> pages are left.\<close>

fun large_range :: "nat \<Rightarrow> u32 \<Rightarrow> u32 \<Rightarrow> u32 \<Rightarrow> u32 \<Rightarrow> 's mmu \<Rightarrow> int \<times> 's mmu" where
  "large_range 0 n va pa perm M = (0, M)"
| "large_range (Suc k) n va pa perm M =
     (let (ret, M) = srmmu_do_large_mapping n va pa perm M in
      if ret \<noteq> 0 then (ret, M)
      else large_range k n (va + SRMMU_LARGE_PAGE_SIZE) (pa + SRMMU_LARGE_PAGE_SIZE) perm M)"

definition srmmu_do_large_mapping_range :: "u32 \<Rightarrow> u32 \<Rightarrow> u32 \<Rightarrow> u32 \<Rightarrow> u32 \<Rightarrow> 's mmu \<Rightarrow> int \<times> 's mmu" where
  "srmmu_do_large_mapping_range n va pa num_pages perm M =
     (if mmu_num_ctp M < n then (- EINVAL, M) else large_range (unat num_pages) n va pa perm M)"

definition srmmu_do_small_mapping :: "'s tbl_alloc \<Rightarrow> u32 \<Rightarrow> u32 \<Rightarrow> u32 \<Rightarrow> u32 \<Rightarrow> 's mmu \<Rightarrow> (int \<times> 's mmu) option" where
  "srmmu_do_small_mapping A n va pa perm M =
     (if mmu_num_ctp M < n then Some (- EINVAL, M)
      else case mmu_find_ctx n M of
        None \<Rightarrow> Some (- ENOMEM, M)
      | Some ctx \<Rightarrow> do {
          (ret, M) \<leftarrow> mmu_need_lvl3_tbl A ctx va M;
          if ret \<noteq> 0 then Some (ret, M)
          else
            let lvl3 = mmu_find_tbl_lvl3 ctx va M in
            if lvl3 = 0 then None
            else do {
              let M = wr (lvl3 + 4 * SRMMU_LVL3_GET_TBL_OFFSET va) (SRMMU_PTE pa perm) M;
              (_, M) \<leftarrow> mmu_inc_ref_cnt lvl3 SRMMU_TBL_LVL_3_ALIGN M;
              Some (0, M)
            }
        })"

fun small_range :: "nat \<Rightarrow> 's tbl_alloc \<Rightarrow> u32 \<Rightarrow> u32 \<Rightarrow> u32 \<Rightarrow> u32 \<Rightarrow> 's mmu \<Rightarrow> (int \<times> 's mmu) option" where
  "small_range 0 A n va pa perm M = Some (0, M)"
| "small_range (Suc k) A n va pa perm M = do {
     (ret, M) \<leftarrow> srmmu_do_small_mapping A n va pa perm M;
     if ret \<noteq> 0 then Some (ret, M)
     else small_range k A n (va + SRMMU_SMALL_PAGE_SIZE) (pa + SRMMU_SMALL_PAGE_SIZE) perm M
   }"

definition srmmu_do_small_mapping_range ::
    "'s tbl_alloc \<Rightarrow> u32 \<Rightarrow> u32 \<Rightarrow> u32 \<Rightarrow> u32 \<Rightarrow> u32 \<Rightarrow> 's mmu \<Rightarrow> (int \<times> 's mmu) option" where
  "srmmu_do_small_mapping_range A n va pa num_pages perm M =
     (if mmu_num_ctp M < n then Some (- EINVAL, M) else small_range (unat num_pages) A n va pa perm M)"

section \<open>Look-up and initialisation\<close>

definition srmmu_get_pa_page :: "u32 \<Rightarrow> u32 \<Rightarrow> 's mmu \<Rightarrow> u32 option" where
  "srmmu_get_pa_page n va M =
     (case mmu_find_ctx n M of
        None \<Rightarrow> None
      | Some ctx \<Rightarrow>
          let lvl3 = mmu_find_tbl_lvl3 ctx va M in
          if lvl3 = 0 then Some 0 else Some (SRMMU_PTE_TO_ADDR (rd (lvl3 + 4 * SRMMU_LVL3_GET_TBL_OFFSET va) M)))"

text \<open>\<open>mmu_ctx_reg\<close> is the context register.\<close>

definition srmmu_select_ctx :: "u32 \<Rightarrow> 's mmu \<Rightarrow> int \<times> 's mmu" where
  "srmmu_select_ctx n M =
     (if mmu_num_ctp M < n then (- EINVAL, M)
      else let (r, M) = mmu_set_current_ctx n M in
        if r \<noteq> 0 then (- EINVAL, M) else (0, M\<lparr>mmu_ctx_reg := n\<rparr>))"

definition srmmu_init :: "'s tbl_alloc \<Rightarrow> 's mmu \<Rightarrow> (int \<times> 's mmu) option" where
  "srmmu_init A M =
     (let M = M\<lparr>ctx_free := [], ctx_used := []\<rparr>;
          (ctp, h) = ta_alloc A (2 * 1024) (tbl_heap M); M = M\<lparr>tbl_heap := h\<rparr> in
      if ctp = 0 then Some (- ENOMEM, M)
      else do {
        (ret, M) \<leftarrow> srmmu_new_ctx A (M\<lparr>mmu_ctp := replicate SRMMU_CONTEXTS SRMMU_ENTRY_TYPE_INVALID\<rparr>);
        if ret \<noteq> 0 then Some (ret, M)
        else
          let (r, M) = mmu_set_current_ctx 0 M in
          if r \<noteq> 0 then None
          else Some (0, snd (srmmu_select_ctx 0 M))
      })"

end
