(* ===== verification/Srmmu_Inv.thy ===== *)
theory Srmmu_Inv
  imports Srmmu
begin

text \<open>
  The invariant of the page tables: a tree of tables, each in a block of the allocator of its own, whose entries agree
  with the tree, and whose reference counters count their entries.
\<close>

section \<open>The allocator\<close>

text \<open>What is relied on: blocks that are in use are disjoint and in the address space, their addresses are multiples
  of 8, and none begins at a multiple of 256.  \<open>live h a\<close> is the size of the block in use at \<open>a\<close>.\<close>

definition blocks_disjoint :: "(u32 \<Rightarrow> nat option) \<Rightarrow> bool" where
  "blocks_disjoint L \<longleftrightarrow> (\<forall>a b m n. L a = Some m \<longrightarrow> L b = Some n \<longrightarrow> a \<noteq> b \<longrightarrow> unat a + m \<le> unat b \<or> unat b + n \<le> unat a)
     \<and> (\<forall>a m. L a = Some m \<longrightarrow> a \<noteq> 0 \<and> unat a + m \<le> 2 ^ 32 \<and> unat a mod 8 = 0 \<and> unat a mod 256 \<noteq> 0)"

definition good_alloc :: "('s \<Rightarrow> bool) \<Rightarrow> ('s \<Rightarrow> u32 \<Rightarrow> nat option) \<Rightarrow> 's tbl_alloc \<Rightarrow> bool" where
  "good_alloc ok live A \<longleftrightarrow>
     (\<forall>h. ok h \<longrightarrow> blocks_disjoint (live h))
   \<and> (\<forall>h n a h'. ok h \<longrightarrow> ta_alloc A n h = (a, h') \<longrightarrow>
        ok h' \<and> (if a = 0 then live h' = live h else live h a = None \<and> live h' = (live h)(a \<mapsto> unat n)))
   \<and> (\<forall>h a. ok h \<longrightarrow> live h a \<noteq> None \<longrightarrow> ok (ta_free A a h) \<and> live (ta_free A a h) = (live h)(a := None))"

lemma good_allocD:
  assumes "good_alloc ok live A" "ok h"
  shows "blocks_disjoint (live h)"
    "ta_alloc A n h = (a, h') \<Longrightarrow> ok h'"
    "ta_alloc A n h = (0, h') \<Longrightarrow> live h' = live h"
    "ta_alloc A n h = (a, h') \<Longrightarrow> a \<noteq> 0 \<Longrightarrow> live h a = None \<and> live h' = (live h)(a \<mapsto> unat n)"
    "live h a \<noteq> None \<Longrightarrow> ok (ta_free A a h) \<and> live (ta_free A a h) = (live h)(a := None)"
  using assms unfolding good_alloc_def by (blast, metis, metis, metis, blast)

section \<open>The tree of tables\<close>

text \<open>A table is named by its context and the indices that lead to it.  A tree gives the addresses of the tables, 0 for
  none.\<close>

datatype tpath = P1 nat | P2 nat nat | P3 nat nat nat

fun slots :: "tpath \<Rightarrow> nat" where
  "slots (P1 c) = SRMMU_SIZE_TBL_LVL_1"
| "slots (P2 c i) = SRMMU_SIZE_TBL_LVL_2"
| "slots (P3 c i j) = SRMMU_SIZE_TBL_LVL_3"

type_synonym ttree = "tpath \<Rightarrow> u32"

definition ent :: "u32 \<Rightarrow> nat \<Rightarrow> u32" where
  "ent a k = a + 4 * of_nat k"

definition off_of :: "u32 \<Rightarrow> 's mmu \<Rightarrow> u32" where
  "off_of a M = OFFSET_FROM_MAGIC (rd (a - 4) M)"

definition blk :: "ttree \<Rightarrow> 's mmu \<Rightarrow> tpath \<Rightarrow> u32" where
  "blk T M p = T p - off_of (T p) M"

definition tbl_used :: "u32 \<Rightarrow> nat \<Rightarrow> 's mmu \<Rightarrow> nat" where
  "tbl_used a n M = card {k. k < n \<and> rd (ent a k) M \<noteq> 0}"

text \<open>The table at a path: its place and header, its entries, and its counter.\<close>

definition tbl_hdr_ok :: "(u32 \<Rightarrow> nat option) \<Rightarrow> 's mmu \<Rightarrow> nat \<Rightarrow> u32 \<Rightarrow> bool" where
  "tbl_hdr_ok L M n a \<longleftrightarrow> unat a mod (4 * n) = 0 \<and> IS_MAGIC (rd (a - 4) M) \<and> 8 \<le> unat (off_of a M) \<and> unat (off_of a M) \<le> unat a
     \<and> unat (off_of a M) < 4 * n \<and> L (a - off_of a M) = Some (8 * n)"

fun entries_ok :: "ttree \<Rightarrow> 's mmu \<Rightarrow> tpath \<Rightarrow> bool" where
  "entries_ok T M (P1 c) \<longleftrightarrow> (\<forall>i < SRMMU_SIZE_TBL_LVL_1. let e = rd (ent (T (P1 c)) i) M in
     if T (P2 c i) \<noteq> 0 then e = SRMMU_PTD (T (P2 c i)) else e = 0 \<or> e AND 3 = 2)"
| "entries_ok T M (P2 c i) \<longleftrightarrow> (\<forall>j < SRMMU_SIZE_TBL_LVL_2. let e = rd (ent (T (P2 c i)) j) M in
     if T (P3 c i j) \<noteq> 0 then e = SRMMU_PTD (T (P3 c i j)) else e = 0)"
| "entries_ok T M (P3 c i j) \<longleftrightarrow> (\<forall>k < SRMMU_SIZE_TBL_LVL_3. let e = rd (ent (T (P3 c i j)) k) M in e = 0 \<or> e AND 3 = 2)"

fun counter_ok :: "ttree \<Rightarrow> 's mmu \<Rightarrow> tpath \<Rightarrow> bool" where
  "counter_ok T M (P1 c) \<longleftrightarrow> True"
| "counter_ok T M p \<longleftrightarrow> unat (rd (T p - 8) M) = tbl_used (T p) (slots p) M"

definition tab_ok :: "(u32 \<Rightarrow> nat option) \<Rightarrow> ttree \<Rightarrow> 's mmu \<Rightarrow> tpath \<Rightarrow> bool" where
  "tab_ok L T M p \<longleftrightarrow> tbl_hdr_ok L M (slots p) (T p) \<and> entries_ok T M p \<and> counter_ok T M p"

definition ctxs_ok :: "ttree \<Rightarrow> 's mmu \<Rightarrow> bool" where
  "ctxs_ok T M \<longleftrightarrow> ctx_used M = [] \<and> length (ctx_free M) \<le> SRMMU_CONTEXTS \<and> mmu_num_ctp M = of_nat (length (ctx_free M))
     \<and> length (mmu_ctp M) = SRMMU_CONTEXTS
     \<and> (\<forall>c < length (ctx_free M). ctx_num (ctx_free M ! c) = of_nat c \<and> lvl1 (ctx_free M ! c) = T (P1 c) \<and> T (P1 c) \<noteq> 0
          \<and> mmu_ctp M ! c = SRMMU_PTD (T (P1 c)))
     \<and> (\<forall>c. length (ctx_free M) \<le> c \<longrightarrow> T (P1 c) = 0)"

definition parents_ok :: "ttree \<Rightarrow> bool" where
  "parents_ok T \<longleftrightarrow> (\<forall>c i. T (P2 c i) \<noteq> 0 \<longrightarrow> i < SRMMU_SIZE_TBL_LVL_1 \<and> T (P1 c) \<noteq> 0)
     \<and> (\<forall>c i j. T (P3 c i j) \<noteq> 0 \<longrightarrow> j < SRMMU_SIZE_TBL_LVL_2 \<and> T (P2 c i) \<noteq> 0)"

definition apart :: "ttree \<Rightarrow> 's mmu \<Rightarrow> bool" where
  "apart T M \<longleftrightarrow> (\<forall>p q. p \<noteq> q \<longrightarrow> T p \<noteq> 0 \<longrightarrow> T q \<noteq> 0 \<longrightarrow> blk T M p \<noteq> blk T M q)"

definition tbl_tree_ok :: "(u32 \<Rightarrow> nat option) \<Rightarrow> ttree \<Rightarrow> 's mmu \<Rightarrow> bool" where
  "tbl_tree_ok L T M \<longleftrightarrow> (\<forall>p. T p \<noteq> 0 \<longrightarrow> tab_ok L T M p) \<and> apart T M \<and> parents_ok T \<and> ctxs_ok T M"

section \<open>Footprints\<close>

definition foot :: "nat \<Rightarrow> u32 \<Rightarrow> u32 set" where
  "foot n a = {x. unat a \<le> unat x + 8 \<and> unat x < unat a + 4 * n}"

lemma hdr_block:
  assumes "blocks_disjoint L" "tbl_hdr_ok L M n a"
  shows "unat (a - off_of a M) = unat a - unat (off_of a M)" "unat a + 4 * n \<le> 2 ^ 32" "8 \<le> unat a"
    "x \<in> foot n a \<Longrightarrow> unat (a - off_of a M) \<le> unat x \<and> unat x < unat (a - off_of a M) + 8 * n"
proof -
  show u: "unat (a - off_of a M) = unat a - unat (off_of a M)" using assms(2) by (simp add: tbl_hdr_ok_def unat_sub word_le_nat_alt)
  have "L (a - off_of a M) = Some (8 * n)" using assms(2) by (simp add: tbl_hdr_ok_def)
  with assms(1) have "unat (a - off_of a M) + 8 * n \<le> 2 ^ 32" unfolding blocks_disjoint_def by blast
  with u assms(2) show "unat a + 4 * n \<le> 2 ^ 32" "8 \<le> unat a" by (auto simp: tbl_hdr_ok_def)
  show "x \<in> foot n a \<Longrightarrow> unat (a - off_of a M) \<le> unat x \<and> unat x < unat (a - off_of a M) + 8 * n"
    using u assms(2) by (auto simp: tbl_hdr_ok_def foot_def)
qed

lemma unat_ent: "unat a + 4 * n \<le> 2 ^ 32 \<Longrightarrow> k < n \<Longrightarrow> unat (ent a k) = unat a + 4 * k"
proof -
  assume a: "unat a + 4 * n \<le> 2 ^ 32" "k < n"
  have "unat (of_nat (4 * k) :: u32) = 4 * k" using a by (simp only: unat_of_nat) simp
  then have "unat (a + of_nat (4 * k)) = unat a + 4 * k" using a by (subst unat_add_lem [THEN iffD1]) auto
  then show ?thesis by (simp add: ent_def)
qed

lemma unat_hdr: "8 \<le> unat a \<Longrightarrow> unat (a - 4) = unat a - 4" "8 \<le> unat a \<Longrightarrow> unat (a - 8) = unat a - 8" for a :: u32
  by (simp_all add: unat_sub word_le_nat_alt)

lemma foot_words:
  assumes "blocks_disjoint L" "tbl_hdr_ok L M n a"
  shows "a - 4 \<in> foot n a" "a - 8 \<in> foot n a" "k < n \<Longrightarrow> ent a k \<in> foot n a" "a - 4 \<noteq> a - 8"
    "k < n \<Longrightarrow> ent a k \<noteq> a - 4" "k < n \<Longrightarrow> ent a k \<noteq> a - 8" "k < n \<Longrightarrow> l < n \<Longrightarrow> ent a k = ent a l \<longleftrightarrow> k = l"
proof -
  note b = hdr_block [OF assms]
  have n: "0 < n" using assms(2) by (auto simp: tbl_hdr_ok_def)
  show "a - 4 \<in> foot n a" "a - 8 \<in> foot n a" using unat_hdr [OF b(3)] n b(3) by (auto simp: foot_def)
  have e: "unat (ent a k) = unat a + 4 * k" if "k < n" for k using unat_ent [OF b(2) that] .
  show "k < n \<Longrightarrow> ent a k \<in> foot n a" using e by (simp add: foot_def)
  show "a - 4 \<noteq> a - 8" using unat_hdr [OF b(3)] b(3) by auto
  show "k < n \<Longrightarrow> ent a k \<noteq> a - 4" "k < n \<Longrightarrow> ent a k \<noteq> a - 8" using e [of k] unat_hdr [OF b(3)] b(3) by auto
  show "k < n \<Longrightarrow> l < n \<Longrightarrow> ent a k = ent a l \<longleftrightarrow> k = l" using e by (metis add_left_cancel mult_cancel1 zero_neq_numeral)
qed

lemma foot_disjoint:
  assumes "blocks_disjoint L" "tbl_hdr_ok L M n a" "tbl_hdr_ok L N m b" "a - off_of a M \<noteq> b - off_of b N"
  shows "foot n a \<inter> foot m b = {}"
proof -
  let ?a = "a - off_of a M" and ?b = "b - off_of b N"
  have "L ?a = Some (8 * n)" "L ?b = Some (8 * m)" using assms(2,3) by (simp_all add: tbl_hdr_ok_def)
  with assms(1,4) have "unat ?a + 8 * n \<le> unat ?b \<or> unat ?b + 8 * m \<le> unat ?a" unfolding blocks_disjoint_def by blast
  with hdr_block(4) [OF assms(1,2)] hdr_block(4) [OF assms(1,3)] show ?thesis by fastforce
qed

lemma off_of_cong: "rd (a - 4) M' = rd (a - 4) M \<Longrightarrow> off_of a M' = off_of a M"
  by (simp add: off_of_def)

text \<open>A table depends on its footprint, its children in the tree and its block.\<close>

fun child :: "tpath \<Rightarrow> tpath \<Rightarrow> bool" where
  "child (P1 c) q \<longleftrightarrow> (\<exists>i < SRMMU_SIZE_TBL_LVL_1. q = P2 c i)"
| "child (P2 c i) q \<longleftrightarrow> (\<exists>j < SRMMU_SIZE_TBL_LVL_2. q = P3 c i j)"
| "child (P3 c i j) q \<longleftrightarrow> False"

lemma used_cong: "(\<And>k. k < n \<Longrightarrow> rd (ent a k) M' = rd (ent a k) M) \<Longrightarrow> tbl_used a n M' = tbl_used a n M"
  unfolding tbl_used_def by (intro arg_cong [of _ _ card]) auto

lemma tab_ok_cong:
  assumes "blocks_disjoint L" "tab_ok L T M p" "\<And>x. x \<in> foot (slots p) (T p) \<Longrightarrow> words M' x = words M x"
    "T' p = T p" "\<And>q. child p q \<Longrightarrow> T' q = T q" "L' (blk T M p) = L (blk T M p)"
  shows "tab_ok L' T' M' p"
proof -
  have h: "tbl_hdr_ok L M (slots p) (T p)" using assms(2) by (simp add: tab_ok_def)
  note f = foot_words [OF assms(1) h]
  have r: "rd (T p - 4) M' = rd (T p - 4) M" "rd (T p - 8) M' = rd (T p - 8) M"
    "\<And>k. k < slots p \<Longrightarrow> rd (ent (T p) k) M' = rd (ent (T p) k) M"
    using assms(3) f by (simp_all add: rd_def)
  have "tbl_hdr_ok L' M' (slots p) (T p)" using h assms(6) r(1) off_of_cong [OF r(1)] by (simp add: tbl_hdr_ok_def blk_def)
  moreover have "\<And>c i. p = P1 c \<Longrightarrow> i < SRMMU_SIZE_TBL_LVL_1 \<Longrightarrow> T' (P2 c i) = T (P2 c i)"
    "\<And>c i j. p = P2 c i \<Longrightarrow> j < SRMMU_SIZE_TBL_LVL_2 \<Longrightarrow> T' (P3 c i j) = T (P3 c i j)" using assms(5) by auto
  then have "entries_ok T' M' p" using assms(2,4) r(3) by (cases p) (auto simp: tab_ok_def Let_def)
  moreover have "counter_ok T' M' p" using assms(2,4) r(2) used_cong [OF r(3)] by (cases p) (simp_all add: tab_ok_def)
  ultimately show ?thesis using assms(4) by (simp add: tab_ok_def)
qed

lemma feet_disjoint:
  assumes "blocks_disjoint L" "tbl_tree_ok L T M" "p \<noteq> q" "T p \<noteq> 0" "T q \<noteq> 0"
  shows "foot (slots p) (T p) \<inter> foot (slots q) (T q) = {}"
proof (rule foot_disjoint [OF assms(1)])
  show "tbl_hdr_ok L M (slots p) (T p)" "tbl_hdr_ok L M (slots q) (T q)" using assms(2,4,5) by (simp_all add: tbl_tree_ok_def tab_ok_def)
  show "T p - off_of (T p) M \<noteq> T q - off_of (T q) M" using assms(2-5) by (simp add: tbl_tree_ok_def apart_def blk_def)
qed

lemma blk_live:
  assumes "tbl_tree_ok L T M" "T p \<noteq> 0"
  shows "L (blk T M p) = Some (8 * slots p)"
  using assms by (simp add: tbl_tree_ok_def tab_ok_def tbl_hdr_ok_def blk_def)

definition same_ctxs :: "'s mmu \<Rightarrow> 's mmu \<Rightarrow> bool" where
  "same_ctxs M M' \<longleftrightarrow> ctx_used M' = ctx_used M \<and> ctx_free M' = ctx_free M \<and> mmu_num_ctp M' = mmu_num_ctp M \<and> mmu_ctp M' = mmu_ctp M
     \<and> mmu_ctx_cur M' = mmu_ctx_cur M \<and> mmu_ctx_reg M' = mmu_ctx_reg M"

lemma same_ctxs_refl [simp]: "same_ctxs M M"
  by (simp add: same_ctxs_def)

lemma same_ctxs_trans: "same_ctxs M N \<Longrightarrow> same_ctxs N O' \<Longrightarrow> same_ctxs M O'"
  by (simp add: same_ctxs_def)

lemma ctxs_ok_cong: "ctxs_ok T M \<Longrightarrow> same_ctxs M M' \<Longrightarrow> (\<And>c. T' (P1 c) = T (P1 c)) \<Longrightarrow> ctxs_ok T' M'"
  by (simp add: ctxs_ok_def same_ctxs_def)

text \<open>A change of one table only.\<close>

lemma tree_ok_write:
  assumes "blocks_disjoint L" "tbl_tree_ok L T M" "T p \<noteq> 0" "\<And>x. x \<notin> foot (slots p) (T p) \<Longrightarrow> words M' x = words M x"
    "same_ctxs M M'" "rd (T p - 4) M' = rd (T p - 4) M" "entries_ok T M' p" "counter_ok T M' p"
  shows "tbl_tree_ok L T M'"
proof -
  have o: "words M' x = words M x" if "q \<noteq> p" "T q \<noteq> 0" "x \<in> foot (slots q) (T q)" for q x
    using feet_disjoint [OF assms(1,2) that(1,2) assms(3)] that(3) assms(4) by blast
  have tab: "tab_ok L T M' q" if "T q \<noteq> 0" for q
  proof (cases "q = p")
    case True
    have "tbl_hdr_ok L M (slots p) (T p)" using assms(2,3) by (simp add: tbl_tree_ok_def tab_ok_def)
    then have "tbl_hdr_ok L M' (slots p) (T p)" using assms(6) off_of_cong [OF assms(6)] by (simp add: tbl_hdr_ok_def)
    with True assms(7,8) show ?thesis by (simp add: tab_ok_def)
  next
    case False
    have "tab_ok L T M q" using assms(2) that by (simp add: tbl_tree_ok_def)
    then show ?thesis by (rule tab_ok_cong [OF assms(1)]) (use o [OF False that] in auto)
  qed
  have b: "blk T M' q = blk T M q" if "T q \<noteq> 0" for q
  proof -
    have "tbl_hdr_ok L M (slots q) (T q)" using assms(2) that by (simp add: tbl_tree_ok_def tab_ok_def)
    then have "rd (T q - 4) M' = rd (T q - 4) M" using o [OF _ that] foot_words(1) [OF assms(1)] assms(6) by (cases "q = p") (auto simp: rd_def)
    then show ?thesis using off_of_cong by (simp add: blk_def)
  qed
  have "apart T M'" using assms(2) b by (simp add: tbl_tree_ok_def apart_def)
  moreover have "ctxs_ok T M'" using ctxs_ok_cong [OF _ assms(5), of T T] assms(2) by (simp add: tbl_tree_ok_def)
  ultimately show ?thesis using tab assms(2) by (simp add: tbl_tree_ok_def)
qed

section \<open>New tables\<close>

lemma magic_small: "unat x < 1024 \<Longrightarrow> IS_MAGIC (MAGIC_OF x) \<and> OFFSET_FROM_MAGIC (MAGIC_OF x) = x"
proof -
  assume a: "unat x < 1024"
  have m: "x AND 1023 = x"
  proof -
    have "x AND 1023 = take_bit 10 x" by (simp add: take_bit_eq_mask mask_eq_exp_minus_1)
    moreover have "take_bit 10 x = x" using a by (simp add: word_unat_eq_iff unsigned_take_bit_eq take_bit_nat_eq_self)
    ultimately show ?thesis by simp
  qed
  have "x AND NOT 1023 = (x AND 1023) AND NOT 1023" using m by simp
  also have "\<dots> = 0" by (simp only: and.assoc) simp
  finally have "x AND NOT 1023 = 0" .
  then show ?thesis using m by (simp add: IS_MAGIC_def OFFSET_FROM_MAGIC_def MAGIC_OF_def bit.conj_disj_distrib2 and.assoc)
qed

lemma and_not_mask_eq: "y AND NOT (mask k) = y - take_bit k y" for y :: u32
proof -
  have "push_bit k (drop_bit k y) = y AND NOT (mask k)"
    by (rule bit_word_eqI) (auto simp: bit_simps)
  moreover have "push_bit k (drop_bit k y) + take_bit k y = y" by (rule bits_ident)
  ultimately show ?thesis by (simp add: eq_diff_eq)
qed

lemma unat_align_pow:
  assumes "unat x + 2 ^ k \<le> 2 ^ 32" "k < 32"
  shows "unat (align_up x (2 ^ k)) = (unat x + 2 ^ k - 1) div 2 ^ k * 2 ^ k"
proof -
  have m: "(2 ^ k - 1 :: u32) = mask k" by (simp add: mask_eq_exp_minus_1)
  have "unat (mask k :: u32) = 2 ^ k - 1"
    using unat_2p [OF assms(2)] by (simp add: m [symmetric] unat_sub word_le_nat_alt)
  then have u: "unat (x + mask k) = unat x + 2 ^ k - 1" using assms(1) by (subst unat_add_lem [THEN iffD1]) (auto simp: less_imp_diff_less)
  have t: "unat (take_bit k (x + mask k)) = (unat x + 2 ^ k - 1) mod 2 ^ k" by (simp only: unsigned_take_bit_eq u) (simp add: take_bit_eq_mod)
  have "align_up x (2 ^ k) = x + mask k - take_bit k (x + mask k)" by (simp add: align_up_def align_mask_def m and_not_mask_eq)
  moreover have "take_bit k (x + mask k) \<le> x + mask k" using t u by (simp add: word_le_nat_alt)
  ultimately have "unat (align_up x (2 ^ k)) = unat x + 2 ^ k - 1 - (unat x + 2 ^ k - 1) mod 2 ^ k" using t u by (simp add: unat_sub)
  then show ?thesis by (simp add: minus_mod_eq_div_mult)
qed

lemma sint_unat: "unat w < 2 ^ 31 \<Longrightarrow> sint w = int (unat w)" for w :: u32
proof -
  assume "unat w < 2 ^ 31"
  then have "int (unat w) < int (2 ^ 31)" by (simp only: of_nat_less_iff)
  then have "uint w < 2 ^ 31" by simp
  moreover have "- (2 ^ 31) \<le> uint w" using unsigned_greater_eq [of w] by (rule order_trans [rotated]) simp
  ultimately have "signed_take_bit 31 (uint w) = uint w" by (intro signed_take_bit_int_eq_self)
  then show ?thesis by (simp add: sint_uint)
qed

text \<open>A block that does not begin at a multiple of 256 has room for the table and its header.\<close>

lemma align_block:
  assumes "unat b + 2 * s \<le> 2 ^ 32" "unat b mod 8 = 0" "unat b mod 256 \<noteq> 0" "s = 256 \<or> s = 1024"
  defines "a \<equiv> align_up b (of_nat s)"
  shows "unat a mod s = 0" "unat b + 8 \<le> unat a" "unat a < unat b + s" "sint (a - b) = int (unat a - unat b)" "unat (a - b) = unat a - unat b"
    "a \<noteq> 0"
proof -
  have k: "\<exists>k. s = 2 ^ k \<and> k < 32" using assms(4) by (auto intro: exI [of _ 8] exI [of _ 10])
  then obtain k where k: "s = 2 ^ k" "k < 32" by blast
  have "unat a = (unat b + s - 1) div s * s" unfolding a_def using unat_align_pow [of b k] assms(1) k by simp
  moreover have r0: "unat b mod s \<noteq> 0"
  proof
    assume "unat b mod s = 0"
    then have "s dvd unat b" by (rule mod_0_imp_dvd)
    moreover have "(256 :: nat) dvd s" using assms(4) by auto
    ultimately have "256 dvd unat b" by (rule dvd_trans [rotated])
    with assms(3) show False by simp
  qed
  moreover have "(n + s - 1) div s = n div s + 1" if "n mod s \<noteq> 0" for n
  proof -
    have "n + s - 1 = (n mod s - 1) + (n div s + 1) * s" using that assms(4) div_mult_mod_eq [of n s] by (auto simp: algebra_simps)
    moreover have "n mod s - 1 < s" using assms(4) by (auto simp: less_imp_diff_less)
    moreover have "((n mod s - 1) + (n div s + 1) * s) div s = (n div s + 1) + (n mod s - 1) div s"
      using assms(4) by (intro div_mult_self1) auto
    ultimately show ?thesis by (simp only: div_less add_0_right)
  qed
  ultimately have u: "unat a = (unat b div s + 1) * s" by simp
  show 1: "unat a mod s = 0" unfolding u by simp
  define r where "r = unat b mod s"
  have d: "unat b = unat b div s * s + r" "r < s" using assms(4) by (auto simp: r_def)
  have "r mod 8 = 0" using assms(2,4) by (auto simp: r_def mod_mod_cancel)
  then have r: "r + 8 \<le> s" "0 < r" using d(2) assms(4) r0 by (auto simp: r_def)
  have "unat a + r = unat b + s" using u d(1) by (simp add: algebra_simps)
  then show 2: "unat b + 8 \<le> unat a" "unat a < unat b + s" using r by simp_all
  show 3: "unat (a - b) = unat a - unat b" using 2 by (simp add: unat_sub word_le_nat_alt)
  then have "unat (a - b) < 2 ^ 31" using 2 assms(4) by auto
  then show "sint (a - b) = int (unat a - unat b)" using 3 sint_unat [of "a - b"] by simp
  show "a \<noteq> 0" using 2 by auto
qed

text \<open>How many tables of level 2 or 3 the allocator can still give.\<close>

fun can_alloc :: "'s tbl_alloc \<Rightarrow> nat \<Rightarrow> 's \<Rightarrow> bool" where
  "can_alloc A 0 h \<longleftrightarrow> True"
| "can_alloc A (Suc k) h \<longleftrightarrow> fst (ta_alloc A 0x200 h) \<noteq> 0 \<and> can_alloc A k (snd (ta_alloc A 0x200 h))"

lemma can_alloc_add: "can_alloc A (n + k) h \<Longrightarrow> can_alloc A k h"
proof (induction n)
  case (Suc n)
  have "can_alloc A (Suc m) g \<Longrightarrow> can_alloc A m g" for m g by (induction m arbitrary: g) simp_all
  then show ?case using Suc by simp
qed simp

text \<open>An operation needs at most \<open>n\<close> tables, and fails for lack of memory only if it does not get them.\<close>

definition uses_tbls :: "'s tbl_alloc \<Rightarrow> nat \<Rightarrow> 's \<Rightarrow> int \<Rightarrow> 's \<Rightarrow> bool" where
  "uses_tbls A n h r h' \<longleftrightarrow> (\<forall>k. can_alloc A (n + k) h \<longrightarrow> r \<noteq> - ENOMEM \<and> can_alloc A k h')"

lemma uses_refl: "r \<noteq> - ENOMEM \<Longrightarrow> uses_tbls A n h r h"
  by (simp add: uses_tbls_def can_alloc_add)

lemma uses_fail: "\<not> can_alloc A 1 h \<Longrightarrow> uses_tbls A (Suc n) h r h'"
  unfolding uses_tbls_def by (metis One_nat_def add.commute add_Suc_right can_alloc_add plus_1_eq_Suc)

lemma uses_trans: "uses_tbls A m h 0 h1 \<Longrightarrow> uses_tbls A n h1 r h2 \<Longrightarrow> uses_tbls A (m + n) h r h2"
  unfolding uses_tbls_def by (metis add.assoc)

lemma uses_more: "uses_tbls A n h r h' \<Longrightarrow> n \<le> m \<Longrightarrow> uses_tbls A m h r h'"
  unfolding uses_tbls_def by (metis add.assoc add.commute can_alloc_add le_iff_add)

text \<open>The allocation of a table.\<close>

lemma alloc_tbl_spec:
  assumes "good_alloc ok live A" "ok (tbl_heap M)" "n = 64 \<or> n = 256" "mmu_alloc_tbl A (of_nat (4 * n)) M = (a, M')"
  shows "ok (tbl_heap M')" "same_ctxs M M'" "pages_freed M' = pages_freed M"
    "a = 0 \<Longrightarrow> words M' = words M \<and> live (tbl_heap M') = live (tbl_heap M)"
    "a \<noteq> 0 \<Longrightarrow> (\<forall>x. x \<notin> foot n a \<longrightarrow> words M' x = words M x) \<and> rd (a - 8) M' = 0
       \<and> tbl_hdr_ok (live (tbl_heap M')) M' n a \<and> live (tbl_heap M) (a - off_of a M') = None
       \<and> live (tbl_heap M') = (live (tbl_heap M))(a - off_of a M' \<mapsto> 8 * n)"
    "a = 0 \<Longrightarrow> fst (ta_alloc A (2 * of_nat (4 * n)) (tbl_heap M)) = 0"
    "tbl_heap M' = snd (ta_alloc A (2 * of_nat (4 * n)) (tbl_heap M))"
proof -
  obtain b h where al: "ta_alloc A (2 * of_nat (4 * n)) (tbl_heap M) = (b, h)" by fastforce
  note g = good_allocD [OF assms(1,2)]
  have h: "ok h" using g(2) [OF al] .
  show "ok (tbl_heap M')" and "same_ctxs M M'" and "pages_freed M' = pages_freed M"
    using assms(4) al h by (auto simp: mmu_alloc_tbl_def Let_def wr_def same_ctxs_def split: if_splits)
  have un: "unat (2 * of_nat (4 * n) :: u32) = 8 * n" using assms(3) by auto
  have b: "live (tbl_heap M) b = None" "live h = (live (tbl_heap M))(b \<mapsto> 8 * n)" "unat b + 2 * (4 * n) \<le> 2 ^ 32" "unat b mod 8 = 0"
    "unat b mod 256 \<noteq> 0" if "b \<noteq> 0"
  proof -
    show l: "live (tbl_heap M) b = None" "live h = (live (tbl_heap M))(b \<mapsto> 8 * n)" using g(4) [OF al that] un by auto
    have "blocks_disjoint (live h)" by (rule good_allocD(1) [OF assms(1) h])
    moreover have "live h b = Some (8 * n)" using l(2) by simp
    ultimately show "unat b + 2 * (4 * n) \<le> 2 ^ 32" "unat b mod 8 = 0" "unat b mod 256 \<noteq> 0" unfolding blocks_disjoint_def by fastforce+
  qed
  have s: "4 * n = 256 \<or> 4 * n = 1024" using assms(3) by auto
  let ?a = "align_up b (of_nat (4 * n))"
  note al8 = align_block [OF b(3-5) s]
  have res: "a = ?a" "M' = wr (?a - 8) 0 (wr (?a - 4) (MAGIC_OF (?a - b)) (M\<lparr>tbl_heap := h\<rparr>))" if "b \<noteq> 0"
  proof -
    have "3 \<le> unat ?a - unat b" using al8(2) [OF that that that] by simp
    then have "int 3 \<le> int (unat ?a - unat b)" by (simp only: of_nat_le_iff)
    then have "sint (?a - b) > 2" using al8(4) [OF that that that] by linarith
    then show "a = ?a" "M' = wr (?a - 8) 0 (wr (?a - 4) (MAGIC_OF (?a - b)) (M\<lparr>tbl_heap := h\<rparr>))"
      using assms(4) al that by (auto simp: mmu_alloc_tbl_def Let_def)
  qed
  have b0: "b = 0" if "a = 0" using that res(1) al8(6) by metis
  show "fst (ta_alloc A (2 * of_nat (4 * n)) (tbl_heap M)) = 0" if "a = 0" using b0 [OF that] al by simp
  show "tbl_heap M' = snd (ta_alloc A (2 * of_nat (4 * n)) (tbl_heap M))" using assms(4) al by (auto simp: mmu_alloc_tbl_def Let_def wr_def split: if_splits)
  show "words M' = words M \<and> live (tbl_heap M') = live (tbl_heap M)" if "a = 0"
    using b0 [OF that] assms(4) al g(3) by (auto simp: mmu_alloc_tbl_def Let_def)
  assume "a \<noteq> 0"
  then have bn: "b \<noteq> 0" using assms(4) al by (auto simp: mmu_alloc_tbl_def)
  note al9 = al8 [OF bn bn bn, folded res(1) [OF bn]] and M' = res(2) [OF bn, folded res(1) [OF bn]]
  have u: "unat (a - 8) = unat a - 8" "unat (a - 4) = unat a - 4" using unat_hdr [of a] al9(2) by auto
  then have w: "rd (a - 4) M' = MAGIC_OF (a - b)" "rd (a - 8) M' = 0" using al9(2) M' by (auto simp: rd_def wr_def)
  have "unat (a - b) < 1024" using al9(2,3,5) s by auto
  with w(1) have m: "IS_MAGIC (rd (a - 4) M')" "off_of a M' = a - b" using magic_small [of "a - b"] by (auto simp: off_of_def)
  have "words M' x = words M x" if "x \<notin> foot n a" for x
  proof -
    have "x \<noteq> a - 8 \<and> x \<noteq> a - 4" using that u al9(2) s by (auto simp: foot_def)
    then show ?thesis using M' by (simp add: wr_def)
  qed
  moreover have "tbl_hdr_ok (live (tbl_heap M')) M' n a"
    using m al9 b(2) [OF bn] M' by (auto simp: tbl_hdr_ok_def wr_def)
  ultimately show "(\<forall>x. x \<notin> foot n a \<longrightarrow> words M' x = words M x) \<and> rd (a - 8) M' = 0
       \<and> tbl_hdr_ok (live (tbl_heap M')) M' n a \<and> live (tbl_heap M) (a - off_of a M') = None
       \<and> live (tbl_heap M') = (live (tbl_heap M))(a - off_of a M' \<mapsto> 8 * n)"
    using w m b [OF bn] M' by (auto simp: wr_def)
qed

lemma set_invalid_words:
  "words (set_invalid n a M) x = (if \<exists>k < n. x = ent a k then 0 else words M x)"
proof (induction n arbitrary: a M)
  case (Suc n)
  have e: "ent (a + 4) k = ent a (Suc k)" for k by (simp add: ent_def)
  have "(\<exists>k < Suc n. x = ent a k) \<longleftrightarrow> x = a \<or> (\<exists>k < n. x = ent (a + 4) k)"
    unfolding e Ex_less_Suc2 by (simp add: ent_def)
  then show ?case using Suc.IH [of "a + 4" "wr a 0 M"] by (auto simp: wr_def)
qed simp

lemma set_invalid_fields:
  "same_ctxs M (set_invalid n a M)" "pages_freed (set_invalid n a M) = pages_freed M" "tbl_heap (set_invalid n a M) = tbl_heap M"
proof (induction n arbitrary: a M)
  case (Suc n)
  { case 1 show ?case using Suc.IH(1) [of "wr a 0 M" "a + 4"] by (simp add: same_ctxs_def wr_def) }
  { case 2 show ?case using Suc.IH(2) [of "a + 4" "wr a 0 M"] by (simp add: wr_def) }
  { case 3 show ?case using Suc.IH(3) [of "a + 4" "wr a 0 M"] by (simp add: wr_def) }
qed simp_all

text \<open>A new table below \<open>p\<close>.\<close>

lemma no_children: "parents_ok T \<Longrightarrow> T q = 0 \<Longrightarrow> child q r \<Longrightarrow> T r = 0"
  by (cases q; simp; metis parents_ok_def)

lemma tree_ok_attach:
  assumes "blocks_disjoint L" "blocks_disjoint L'" "tbl_tree_ok L T M" "child p q" "T p \<noteq> 0" "T q = 0" "a \<noteq> 0"
    "tbl_hdr_ok L' M' (slots q) a" "L (a - off_of a M') = None" "L' = L(a - off_of a M' \<mapsto> 8 * slots q)"
    "\<And>k. k < slots q \<Longrightarrow> rd (ent a k) M' = 0" "rd (a - 8) M' = 0"
    "\<And>x. x \<notin> foot (slots p) (T p) \<Longrightarrow> x \<notin> foot (slots q) a \<Longrightarrow> words M' x = words M x"
    "same_ctxs M M'" "rd (T p - 4) M' = rd (T p - 4) M" "entries_ok (T(q := a)) M' p" "counter_ok (T(q := a)) M' p"
  shows "tbl_tree_ok L' (T(q := a)) M'"
proof -
  let ?T = "T(q := a)"
  have pq: "p \<noteq> q" using assms(4) by (cases p) auto
  have par: "parents_ok T" "ctxs_ok T M" using assms(3) by (simp_all add: tbl_tree_ok_def)
  have hL: "tbl_hdr_ok L' M (slots r) (T r)" if "T r \<noteq> 0" for r
    using assms(3) that blk_live [OF assms(3) that] assms(9,10) by (auto simp: tbl_tree_ok_def tab_ok_def tbl_hdr_ok_def blk_def)
  have b: "blk T M r \<noteq> a - off_of a M'" if "T r \<noteq> 0" for r using blk_live [OF assms(3) that] assms(9) by auto
  have new: "foot (slots r) (T r) \<inter> foot (slots q) a = {}" if "T r \<noteq> 0" for r
    by (rule foot_disjoint [OF assms(2) hL [OF that] assms(8)]) (use b [OF that] in \<open>simp add: blk_def\<close>)
  have same: "words M' x = words M x" if "r \<noteq> p" "T r \<noteq> 0" "x \<in> foot (slots r) (T r)" for r x
    using feet_disjoint [OF assms(1,3) that(1,2) assms(5)] new [OF that(2)] that(3) assms(13) by blast
  have hdr: "rd (T r - 4) M' = rd (T r - 4) M" if "T r \<noteq> 0" for r
    using same [OF _ that] foot_words(1) [OF assms(2) hL [OF that]] assms(15) by (cases "r = p") (auto simp: rd_def)
  have nc: "\<not> child q r" if "T r \<noteq> 0" for r using no_children [OF par(1) assms(6)] that by blast
  have tab: "tab_ok L' ?T M' r" if r: "?T r \<noteq> 0" for r
  proof (cases "r = q")
    case True
    have "\<And>c i. q = P1 c \<Longrightarrow> i < SRMMU_SIZE_TBL_LVL_1 \<Longrightarrow> T (P2 c i) = 0"
      "\<And>c i j. q = P2 c i \<Longrightarrow> j < SRMMU_SIZE_TBL_LVL_2 \<Longrightarrow> T (P3 c i j) = 0" using no_children [OF par(1) assms(6)] by auto
    then have "entries_ok ?T M' q" using assms(11) by (cases q) (auto simp: Let_def)
    moreover have "tbl_used a (slots q) M' = 0" using assms(11) by (simp add: tbl_used_def)
    then have "counter_ok ?T M' q" using assms(12) by (cases q) simp_all
    ultimately show ?thesis using True assms(8) by (simp add: tab_ok_def)
  next
    case rq: False
    with r have Tr: "T r \<noteq> 0" by simp
    show ?thesis
    proof (cases "r = p")
      case True
      have "tbl_hdr_ok L' M' (slots p) (T p)" using hL [OF assms(5)] assms(15) off_of_cong [OF assms(15)] by (simp add: tbl_hdr_ok_def)
      with True pq assms(16,17) show ?thesis by (simp add: tab_ok_def)
    next
      case False
      have "tab_ok L T M r" using assms(3) Tr by (simp add: tbl_tree_ok_def)
      then show ?thesis
      proof (rule tab_ok_cong [OF assms(1)])
        show "?T s = T s" if "child r s" for s using that False assms(4) by (cases p; cases r) auto
        show "L' (blk T M r) = L (blk T M r)" using b [OF Tr] assms(10) by simp
      qed (use same [OF False Tr] rq in auto)
    qed
  qed
  have bM: "blk ?T M' r = (if r = q then a - off_of a M' else blk T M r)" if "?T r \<noteq> 0" for r
    using that hdr [of r] off_of_cong by (auto simp: blk_def)
  have "apart ?T M'" unfolding apart_def
  proof (intro allI impI)
    fix r s assume "r \<noteq> s" "?T r \<noteq> 0" "?T s \<noteq> 0"
    then show "blk ?T M' r \<noteq> blk ?T M' s" using bM [of r] bM [of s] b [of r] b [of s] assms(3)
      by (auto simp: tbl_tree_ok_def apart_def split: if_splits)
  qed
  moreover have "parents_ok ?T" using par(1) assms(4,5) nc assms(6) by (cases p) (auto simp: parents_ok_def)
  moreover have "ctxs_ok ?T M'" using assms(4) by (intro ctxs_ok_cong [OF par(2) assms(14)]) (cases p; auto)
  ultimately show ?thesis using tab by (simp add: tbl_tree_ok_def)
qed

end
