(* ===== verification/Srmmu_Map.thy ===== *)
theory Srmmu_Map
  imports Srmmu_Inv
begin

text \<open>
  Mapping of pages: what a look-up finds in the tree of tables, how new tables are attached to it, and that a mapping
  changes the translation of one page only.
\<close>

section \<open>Entries\<close>

lemma unat_take: "unat (take_bit k x) = unat x mod 2 ^ k" for x :: u32
  by (simp only: unsigned_take_bit_eq) (simp add: take_bit_eq_mod)

lemma ptd_roundtrip:
  assumes "unat a mod 64 = 0"
  shows "SRMMU_PTD_TO_ADDR (SRMMU_PTD a) = a" "SRMMU_PTD a AND 2 = 0" "SRMMU_PTD a \<noteq> 0" "SRMMU_PTD a AND 3 = 1"
proof -
  have "unat (take_bit 6 a) = 0" using assms by (simp only: unat_take) simp
  then have t: "take_bit 6 a = 0" by (simp only: unat_eq_0)
  then have low: "\<not> bit a n" if "n < 6" for n using that by (metis bit_take_bit_iff bit_0_eq bot_apply bot_bool_def)
  have n3: "NOT 3 = NOT (mask 2 :: u32)" "(3 :: u32) = mask 2" by (simp_all add: mask_eq_exp_minus_1)
  show "SRMMU_PTD_TO_ADDR (SRMMU_PTD a) = a" 
  proof (rule bit_word_eqI)
    fix n assume n: "n < LENGTH(32)"
    have "bit (SRMMU_PTD_TO_ADDR (SRMMU_PTD a)) n \<longleftrightarrow> 4 \<le> n \<and> \<not> n - 4 < 2 \<and> (bit a (4 + (n - 4)) \<or> n - 4 = 0)"
      unfolding SRMMU_PTD_TO_ADDR_def SRMMU_PTD_def n3 using n
      by (simp only: bit_push_bit_iff bit_and_iff bit_or_iff bit_not_iff bit_drop_bit_eq bit_mask_iff bit_1_iff comp_def) auto
    then show "bit (SRMMU_PTD_TO_ADDR (SRMMU_PTD a)) n = bit a n" using low [of n] by (cases "n < 6") auto
  qed
  show "SRMMU_PTD a AND 2 = 0" unfolding SRMMU_PTD_def n3
    by (rule bit_word_eqI) (auto simp: bit_simps bit_1_iff bit_2_iff)
  show "SRMMU_PTD a AND 3 = 1" unfolding SRMMU_PTD_def n3
    by (rule bit_word_eqI) (auto simp: bit_simps bit_1_iff)
  then show "SRMMU_PTD a \<noteq> 0" by auto
qed

lemma type_2: "e AND 3 = 2 \<Longrightarrow> e AND 2 \<noteq> 0 \<and> e \<noteq> 0" for e :: u32
proof
  assume a: "e AND 3 = 2"
  have "(e AND 3) AND 2 = e AND 2" by (simp add: and.assoc)
  then show "e AND 2 \<noteq> 0" using a by auto
  show "e \<noteq> 0" using a by auto
qed

definition ix1 :: "u32 \<Rightarrow> nat" where "ix1 va = unat va div 2 ^ 24"
definition ix2 :: "u32 \<Rightarrow> nat" where "ix2 va = unat va div 2 ^ 18 mod 64"
definition ix3 :: "u32 \<Rightarrow> nat" where "ix3 va = unat va div 2 ^ 12 mod 64"

lemma and_pow_mod: "unat (x AND (2 ^ k - 1)) = unat x mod 2 ^ k" for x :: u32
  by (simp only: unat_take take_bit_eq_mask mask_eq_exp_minus_1 flip: unat_take)

lemma unat_lt_32: "unat (x :: u32) < 2 ^ 32"
  using unsigned_less [of x] by simp

lemma offsets:
  "unat (SRMMU_LVL1_GET_TBL_OFFSET va) = ix1 va" "unat (SRMMU_LVL2_GET_TBL_OFFSET va) = ix2 va" "unat (SRMMU_LVL3_GET_TBL_OFFSET va) = ix3 va"
  "ix1 va < SRMMU_SIZE_TBL_LVL_1" "ix2 va < SRMMU_SIZE_TBL_LVL_2" "ix3 va < SRMMU_SIZE_TBL_LVL_3"
proof -
  have d: "unat (drop_bit n va) = unat va div 2 ^ n" for n by (simp only: unat_drop_bit_eq) (simp add: drop_bit_eq_div)
  show i1: "ix1 va < SRMMU_SIZE_TBL_LVL_1" using unat_lt_32 [of va] by (simp add: ix1_def)
  show "ix2 va < SRMMU_SIZE_TBL_LVL_2" "ix3 va < SRMMU_SIZE_TBL_LVL_3" by (simp_all add: ix2_def ix3_def)
  show "unat (SRMMU_LVL1_GET_TBL_OFFSET va) = ix1 va"
    using and_pow_mod [of "drop_bit 24 va" 8] i1 d [of 24] by (simp add: SRMMU_LVL1_GET_TBL_OFFSET_def ix1_def)
  show "unat (SRMMU_LVL2_GET_TBL_OFFSET va) = ix2 va"
    using and_pow_mod [of "drop_bit 18 va" 6] d [of 18] by (simp add: SRMMU_LVL2_GET_TBL_OFFSET_def ix2_def)
  show "unat (SRMMU_LVL3_GET_TBL_OFFSET va) = ix3 va"
    using and_pow_mod [of "drop_bit 12 va" 6] d [of 12] by (simp add: SRMMU_LVL3_GET_TBL_OFFSET_def ix3_def)
qed

lemma ent_off: "a + 4 * x = ent a (unat x)"
  by (simp add: ent_def)

lemma ent_offsets:
  "a + 4 * SRMMU_LVL1_GET_TBL_OFFSET va = ent a (ix1 va)" "a + 4 * SRMMU_LVL2_GET_TBL_OFFSET va = ent a (ix2 va)"
  "a + 4 * SRMMU_LVL3_GET_TBL_OFFSET va = ent a (ix3 va)"
  by (simp_all add: ent_off offsets)

section \<open>Look-up\<close>

lemma tree_hdr: "tbl_tree_ok L T M \<Longrightarrow> T p \<noteq> 0 \<Longrightarrow> tbl_hdr_ok L M (slots p) (T p)"
  by (simp add: tbl_tree_ok_def tab_ok_def)

lemma tree_aligned: "tbl_tree_ok L T M \<Longrightarrow> T p \<noteq> 0 \<Longrightarrow> unat (T p) mod 64 = 0"
proof -
  assume "tbl_tree_ok L T M" "T p \<noteq> 0"
  from tree_hdr [OF this] have "unat (T p) mod (4 * slots p) = 0" by (simp add: tbl_hdr_ok_def)
  moreover have "(64 :: nat) dvd 4 * slots p" by (cases p) simp_all
  ultimately show ?thesis by (metis dvd_imp_mod_0 dvd_trans mod_0_imp_dvd)
qed

lemma tree_entries: "tbl_tree_ok L T M \<Longrightarrow> T p \<noteq> 0 \<Longrightarrow> entries_ok T M p \<and> counter_ok T M p"
  by (simp add: tbl_tree_ok_def tab_ok_def)

lemma tree_entry1:
  assumes "tbl_tree_ok L T M" "T (P1 c) \<noteq> 0" "i < SRMMU_SIZE_TBL_LVL_1"
  shows "T (P2 c i) \<noteq> 0 \<Longrightarrow> rd (ent (T (P1 c)) i) M = SRMMU_PTD (T (P2 c i))"
    "T (P2 c i) = 0 \<Longrightarrow> rd (ent (T (P1 c)) i) M = 0 \<or> rd (ent (T (P1 c)) i) M AND 3 = 2"
  using tree_entries [OF assms(1,2)] assms(3) by (auto simp: Let_def)

lemma tree_entry2:
  assumes "tbl_tree_ok L T M" "T (P2 c i) \<noteq> 0" "j < SRMMU_SIZE_TBL_LVL_2"
  shows "rd (ent (T (P2 c i)) j) M = (if T (P3 c i j) \<noteq> 0 then SRMMU_PTD (T (P3 c i j)) else 0)"
  using tree_entries [OF assms(1,2)] assms(3) by (auto simp: Let_def)

lemma tree_entry3:
  assumes "tbl_tree_ok L T M" "T (P3 c i j) \<noteq> 0" "k < SRMMU_SIZE_TBL_LVL_3"
  shows "rd (ent (T (P3 c i j)) k) M = 0 \<or> rd (ent (T (P3 c i j)) k) M AND 3 = 2"
  using tree_entries [OF assms(1,2)] assms(3) by (auto simp: Let_def)

text \<open>The context \<open>c\<close> has its table at the root of the tree.\<close>

definition ctx_at :: "ttree \<Rightarrow> mmu_ctx \<Rightarrow> nat \<Rightarrow> bool" where
  "ctx_at T ctx c \<longleftrightarrow> lvl1 ctx = T (P1 c) \<and> T (P1 c) \<noteq> 0"

lemma find_lvl2:
  assumes "tbl_tree_ok L T M" "ctx_at T ctx c"
  shows "mmu_find_tbl_lvl2 ctx va M = T (P2 c (ix1 va))"
proof -
  have c: "lvl1 ctx = T (P1 c)" "T (P1 c) \<noteq> 0" using assms(2) by (simp_all add: ctx_at_def)
  note e = tree_entry1 [OF assms(1) c(2) offsets(4) [of va]]
  show ?thesis
  proof (cases "T (P2 c (ix1 va)) = 0")
    case True
    then show ?thesis using e(2) type_2 c by (auto simp: mmu_find_tbl_lvl2_def ent_offsets Let_def)
  next
    case False
    then show ?thesis using e(1) ptd_roundtrip [OF tree_aligned [OF assms(1) False]] c by (simp add: mmu_find_tbl_lvl2_def ent_offsets Let_def)
  qed
qed

lemma find_lvl3:
  assumes "tbl_tree_ok L T M" "ctx_at T ctx c"
  shows "mmu_find_tbl_lvl3 ctx va M = T (P3 c (ix1 va) (ix2 va))"
proof (cases "T (P2 c (ix1 va)) = 0")
  case True
  then have "T (P3 c (ix1 va) (ix2 va)) = 0" using assms(1) unfolding tbl_tree_ok_def parents_ok_def by metis
  then show ?thesis using True find_lvl2 [OF assms] by (simp add: mmu_find_tbl_lvl3_def)
next
  case False
  note e = tree_entry2 [OF assms(1) False offsets(5) [of va]]
  show ?thesis
  proof (cases "T (P3 c (ix1 va) (ix2 va)) = 0")
    case True
    then show ?thesis using e False find_lvl2 [OF assms] by (simp add: mmu_find_tbl_lvl3_def ent_offsets Let_def)
  next
    case t: False
    then show ?thesis using e False find_lvl2 [OF assms] ptd_roundtrip [OF tree_aligned [OF assms(1) t]]
      by (simp add: mmu_find_tbl_lvl3_def ent_offsets Let_def)
  qed
qed

section \<open>Counters\<close>

lemma ref_word_eq:
  assumes "tbl_tree_ok L T M" "T p \<noteq> 0" "rd (T p - 4) M' = rd (T p - 4) M"
  shows "ref_word (T p) s M' = Some (T p - 8)"
  using tree_hdr [OF assms(1,2)] assms(3) by (simp add: ref_word_def tbl_hdr_ok_def)

lemma used_insert:
  assumes "k < n" "rd (ent a k) M = 0" "rd (ent a k) M' \<noteq> 0" "\<And>l. l < n \<Longrightarrow> l \<noteq> k \<Longrightarrow> rd (ent a l) M' = rd (ent a l) M"
  shows "tbl_used a n M' = Suc (tbl_used a n M)"
proof -
  have "{l. l < n \<and> rd (ent a l) M' \<noteq> 0} = insert k {l. l < n \<and> rd (ent a l) M \<noteq> 0}"
    using assms by (intro set_eqI) (metis (mono_tags, lifting) insert_iff mem_Collect_eq)
  then show ?thesis using assms(2) by (simp add: tbl_used_def)
qed

lemma tbl_used_le: "tbl_used a n M \<le> n"
  unfolding tbl_used_def using card_mono [of "{..<n}" "{k. k < n \<and> rd (ent a k) M \<noteq> 0}"] by auto

lemma used_zero: "tbl_used a n M = 0 \<longleftrightarrow> (\<forall>k < n. rd (ent a k) M = 0)"
  by (auto simp: tbl_used_def)

section \<open>Views\<close>

text \<open>The entry for a large page, and that for a small page; 0 for none.\<close>

definition big :: "ttree \<Rightarrow> 's mmu \<Rightarrow> nat \<Rightarrow> nat \<Rightarrow> u32" where
  "big T M c i = (if T (P1 c) = 0 \<or> T (P2 c i) \<noteq> 0 then 0 else rd (ent (T (P1 c)) i) M)"

definition pte :: "ttree \<Rightarrow> 's mmu \<Rightarrow> nat \<Rightarrow> nat \<Rightarrow> nat \<Rightarrow> nat \<Rightarrow> u32" where
  "pte T M c i j k = (if T (P3 c i j) = 0 then 0 else rd (ent (T (P3 c i j)) k) M)"

definition roots_same :: "ttree \<Rightarrow> ttree \<Rightarrow> bool" where
  "roots_same T T' \<longleftrightarrow> (\<forall>c. T' (P1 c) = T (P1 c))"

definition views_same :: "ttree \<Rightarrow> 's mmu \<Rightarrow> ttree \<Rightarrow> 's mmu \<Rightarrow> bool" where
  "views_same T M T' M' \<longleftrightarrow> (\<forall>c i. i < SRMMU_SIZE_TBL_LVL_1 \<longrightarrow> big T' M' c i = big T M c i)
     \<and> (\<forall>c i j k. k < SRMMU_SIZE_TBL_LVL_3 \<longrightarrow> pte T' M' c i j k = pte T M c i j k)"

lemma views_same_refl [simp]: "views_same T M T M"
  by (simp add: views_same_def)

lemma views_same_trans: "views_same T M T1 M1 \<Longrightarrow> views_same T1 M1 T2 M2 \<Longrightarrow> views_same T M T2 M2"
  by (simp add: views_same_def)

text \<open>The state with its allocator, for a tree.\<close>

definition good_state :: "('s \<Rightarrow> bool) \<Rightarrow> ('s \<Rightarrow> u32 \<Rightarrow> nat option) \<Rightarrow> ttree \<Rightarrow> 's mmu \<Rightarrow> bool" where
  "good_state ok live T M \<longleftrightarrow> ok (tbl_heap M) \<and> tbl_tree_ok (live (tbl_heap M)) T M"

lemma tree_ok_same:
  assumes "blocks_disjoint L" "tbl_tree_ok L T M" "words M' = words M" "same_ctxs M M'"
  shows "tbl_tree_ok L T M'" "views_same T M T M'"
proof -
  have r: "rd a M' = rd a M" for a using assms(3) by (simp add: rd_def)
  have b: "blk T M' p = blk T M p" for p by (simp add: blk_def off_of_def r)
  have "tab_ok L T M' p" if "T p \<noteq> 0" for p
    by (rule tab_ok_cong [OF assms(1), of T M]) (use assms(2,3) that in \<open>auto simp: tbl_tree_ok_def\<close>)
  moreover have "apart T M'" using assms(2) by (simp add: tbl_tree_ok_def apart_def b)
  moreover have "ctxs_ok T M'" using ctxs_ok_cong [OF _ assms(4), of T T] assms(2) by (simp add: tbl_tree_ok_def)
  ultimately show "tbl_tree_ok L T M'" using assms(2) by (simp add: tbl_tree_ok_def)
  show "views_same T M T M'" by (simp add: views_same_def big_def pte_def r)
qed

text \<open>Words that agree on the footprint of a table give the same entries.\<close>

lemma entry_same:
  assumes "blocks_disjoint L" "tbl_tree_ok L T M" "T p \<noteq> 0" "k < slots p" "\<And>x. x \<in> foot (slots p) (T p) \<Longrightarrow> words M' x = words M x"
  shows "rd (ent (T p) k) M' = rd (ent (T p) k) M"
  using assms(5) foot_words(3) [OF assms(1) tree_hdr [OF assms(2,3)] assms(4)] by (simp add: rd_def)

text \<open>A new table that is cleared, before it is entered into its parent: all tables of the tree are as before.\<close>

lemma fresh_table:
  assumes "good_alloc ok live A" "good_state ok live T M" "n = 64 \<or> n = 256" "mmu_alloc_tbl A (of_nat (4 * n)) M = (a, M1)" "a \<noteq> 0"
  defines "M2 \<equiv> set_invalid n a M1"
  shows "ok (tbl_heap M2)" "same_ctxs M M2" "pages_freed M2 = pages_freed M" "tbl_heap M2 = tbl_heap M1"
    "\<And>x. x \<notin> foot n a \<Longrightarrow> words M2 x = words M x" "rd (a - 8) M2 = 0" "\<And>k. k < n \<Longrightarrow> rd (ent a k) M2 = 0"
    "tbl_hdr_ok (live (tbl_heap M2)) M2 n a" "live (tbl_heap M) (a - off_of a M2) = None"
    "live (tbl_heap M2) = (live (tbl_heap M))(a - off_of a M2 \<mapsto> 8 * n)"
    "\<And>p. T p \<noteq> 0 \<Longrightarrow> foot (slots p) (T p) \<inter> foot n a = {}"
proof -
  have ok: "ok (tbl_heap M)" and tree: "tbl_tree_ok (live (tbl_heap M)) T M" using assms(2) by (simp_all add: good_state_def)
  note s = alloc_tbl_spec [OF assms(1) ok assms(3,4)]
  note f = set_invalid_fields [where M = M1 and n = n and a = a, folded M2_def]
  show h: "tbl_heap M2 = tbl_heap M1" "ok (tbl_heap M2)" using f(3) s(1) by simp_all
  show "same_ctxs M M2" using same_ctxs_trans [OF s(2) f(1)] .
  show "pages_freed M2 = pages_freed M" using s(3) f(2) by simp
  note t = s(5) [OF assms(5)]
  have bd: "blocks_disjoint (live (tbl_heap M1))" by (rule good_allocD(1) [OF assms(1) s(1)])
  have hd: "tbl_hdr_ok (live (tbl_heap M1)) M1 n a" using t by blast
  note fw = foot_words [OF bd hd]
  have w: "words M2 x = (if \<exists>k < n. x = ent a k then 0 else words M1 x)" for x by (simp add: M2_def set_invalid_words)
  have same: "rd (a - 4) M2 = rd (a - 4) M1" "rd (a - 8) M2 = rd (a - 8) M1"
  proof -
    have "\<not> (\<exists>k < n. a - 4 = ent a k)" "\<not> (\<exists>k < n. a - 8 = ent a k)" using fw(5,6) by metis+
    then show "rd (a - 4) M2 = rd (a - 4) M1" "rd (a - 8) M2 = rd (a - 8) M1"
      unfolding rd_def w by (simp_all only: if_False simp_thms)
  qed
  show "words M2 x = words M x" if "x \<notin> foot n a" for x using that w [of x] fw(3) t by auto
  show "rd (a - 8) M2 = 0" using same t by simp
  show "rd (ent a k) M2 = 0" if "k < n" for k using w that by (auto simp: rd_def)
  have o: "off_of a M2 = off_of a M1" using off_of_cong [OF same(1)] .
  show hd2: "tbl_hdr_ok (live (tbl_heap M2)) M2 n a" using hd o same h by (simp add: tbl_hdr_ok_def)
  show n: "live (tbl_heap M) (a - off_of a M2) = None" using t o by simp
  show l: "live (tbl_heap M2) = (live (tbl_heap M))(a - off_of a M2 \<mapsto> 8 * n)" using t o h by simp
  show "foot (slots p) (T p) \<inter> foot n a = {}" if "T p \<noteq> 0" for p
  proof (rule foot_disjoint [OF _ _ hd2])
    show "blocks_disjoint (live (tbl_heap M2))" using bd h by simp
    have b: "blk T M p \<noteq> a - off_of a M2" using blk_live [OF tree that] n by auto
    then show "tbl_hdr_ok (live (tbl_heap M2)) M (slots p) (T p)" using tree_hdr [OF tree that] l by (auto simp: tbl_hdr_ok_def blk_def)
    show "T p - off_of (T p) M \<noteq> a - off_of a M2" using b by (simp add: blk_def)
  qed
qed


section \<open>Growth\<close>

text \<open>New tables do not change what is mapped.\<close>

definition grown :: "('s \<Rightarrow> bool) \<Rightarrow> ('s \<Rightarrow> u32 \<Rightarrow> nat option) \<Rightarrow> ttree \<Rightarrow> 's mmu \<Rightarrow> ttree \<Rightarrow> 's mmu \<Rightarrow> bool" where
  "grown ok live T M T' M' \<longleftrightarrow> good_state ok live T' M' \<and> same_ctxs M M' \<and> pages_freed M' = pages_freed M
     \<and> views_same T M T' M' \<and> (\<forall>p. T p \<noteq> 0 \<longrightarrow> T' p = T p) \<and> roots_same T T'"

lemma grown_refl: "good_state ok live T M \<Longrightarrow> grown ok live T M T M"
  by (simp add: grown_def roots_same_def)

lemma grown_trans:
  assumes "grown ok live T M T1 M1" "grown ok live T1 M1 T2 M2"
  shows "grown ok live T M T2 M2"
  unfolding grown_def
proof (intro conjI)
  show "same_ctxs M M2" using assms same_ctxs_trans by (auto simp: grown_def)
  show "views_same T M T2 M2" using assms views_same_trans by (auto simp: grown_def)
  show "\<forall>p. T p \<noteq> 0 \<longrightarrow> T2 p = T p" using assms unfolding grown_def by metis
qed (use assms in \<open>auto simp: grown_def roots_same_def\<close>)

fun kid :: "tpath \<Rightarrow> nat \<Rightarrow> tpath" where
  "kid (P1 c) k = P2 c k"
| "kid (P2 c i) k = P3 c i k"
| "kid (P3 c i j) k = P3 c i j"

fun leaf :: "tpath \<Rightarrow> bool" where
  "leaf (P3 c i j) = True"
| "leaf p = False"

lemma kid_child: "\<not> leaf p \<Longrightarrow> k < slots p \<Longrightarrow> child p (kid p k)"
  by (cases p) auto

lemma good_bd: "good_alloc ok live A \<Longrightarrow> good_state ok live T M \<Longrightarrow> blocks_disjoint (live (tbl_heap M))"
  by (simp add: good_state_def good_allocD(1))

lemma grown_attach:
  assumes "good_alloc ok live A" "good_state ok live T M" "mmu_alloc_tbl A (of_nat (4 * 64)) M = (a, M1)" "a \<noteq> 0"
    "\<not> leaf p" "T p \<noteq> 0" "k < slots p" "T (kid p k) = 0" "rd (ent (T p) k) M = 0"
  defines "M2 \<equiv> set_invalid 64 a M1"
  assumes "\<And>x. x \<noteq> ent (T p) k \<Longrightarrow> x \<noteq> T p - 8 \<Longrightarrow> words M' x = words M2 x" "rd (ent (T p) k) M' = SRMMU_PTD a"
    "\<And>c i. p = P2 c i \<Longrightarrow> unat (rd (T p - 8) M') = Suc (unat (rd (T p - 8) M))"
    "same_ctxs M2 M'" "tbl_heap M' = tbl_heap M2" "pages_freed M' = pages_freed M2"
  shows "grown ok live T M (T(kid p k := a)) M'"
proof -
  let ?q = "kid p k" let ?T = "T(?q := a)" let ?L = "live (tbl_heap M)"
  have tree: "tbl_tree_ok ?L T M" and bd: "blocks_disjoint ?L" using assms(2) good_bd [OF assms(1,2)] by (simp_all add: good_state_def)
  have sq: "slots ?q = 64" using assms(5) by (cases p) simp_all
  note fr = fresh_table [OF assms(1,2) _ assms(3,4), folded M2_def, simplified]
  have ok2: "ok (tbl_heap M')" using fr(1) assms(15) by simp
  then have bd2: "blocks_disjoint (live (tbl_heap M2))" using good_allocD(1) [OF assms(1)] assms(15) by metis
  note fp = foot_words [OF bd tree_hdr [OF tree assms(6)]] and fa = foot_words [OF bd2 fr(8)]
  have inp: "ent (T p) k \<in> foot (slots p) (T p)" "T p - 8 \<in> foot (slots p) (T p)" by (rule fp(3) [OF assms(7)], rule fp(2))
  have dj: "foot (slots r) (T r) \<inter> foot 64 a = {}" if "T r \<noteq> 0" for r using fr(11) [OF that] .
  have ina: "words M' x = words M2 x" if "x \<in> foot 64 a" for x
  proof (rule assms(11))
    show "x \<noteq> ent (T p) k" "x \<noteq> T p - 8" using inp dj [OF assms(6)] that by auto
  qed
  have out: "words M' x = words M x" if "x \<notin> foot (slots p) (T p)" "x \<notin> foot 64 a" for x
  proof -
    have "x \<noteq> ent (T p) k" "x \<noteq> T p - 8" using inp that(1) by auto
    then show ?thesis using assms(11) fr(5) [OF that(2)] by simp
  qed
  have ra: "rd (a - 4) M' = rd (a - 4) M2" "rd (a - 8) M' = 0" "\<And>l. l < 64 \<Longrightarrow> rd (ent a l) M' = 0"
    using ina fa(1-3) fr(6,7) by (simp_all add: rd_def)
  have rp: "rd (T p - 4) M' = rd (T p - 4) M" using fp(1,4,5) assms(7,11) fr(5) dj [OF assms(6)] by (force simp: rd_def)
  have re: "rd (ent (T p) l) M' = rd (ent (T p) l) M" if "l < slots p" "l \<noteq> k" for l
  proof -
    have "words M' (ent (T p) l) = words M2 (ent (T p) l)" using fp(6) [OF that(1)] fp(7) [OF that(1) assms(7)] that(2) by (intro assms(11)) auto
    moreover have "ent (T p) l \<notin> foot 64 a" using fp(3) [OF that(1)] dj [OF assms(6)] by blast
    ultimately show ?thesis using fr(5) by (simp add: rd_def)
  qed
  have other: "rd (ent (T r) l) M' = rd (ent (T r) l) M" if "T r \<noteq> 0" "r \<noteq> p" "l < slots r" for r l
    by (rule entry_same [OF bd tree that(1,3)])
      (use out feet_disjoint [OF bd tree that(2,1) assms(6)] dj [OF that(1)] in blast)
  have pa: "unat a mod 64 = 0"
  proof -
    have "unat a mod 256 = 0" using fr(8) by (simp add: tbl_hdr_ok_def)
    then show ?thesis using mod_mod_cancel [of 64 256 "unat a"] by simp
  qed
  have t: "entries_ok T M p" "counter_ok T M p" using tree_entries [OF tree assms(6)] by simp_all
  have "tbl_tree_ok (live (tbl_heap M')) ?T M'"
  proof (rule tree_ok_attach [OF bd _ tree kid_child [OF assms(5,7)] assms(6,8,4), of _ M'])
    show "blocks_disjoint (live (tbl_heap M'))" using bd2 assms(15) by simp
    show "tbl_hdr_ok (live (tbl_heap M')) M' (slots ?q) a" using fr(8) ra(1) off_of_cong [OF ra(1)] assms(15) sq by (simp add: tbl_hdr_ok_def)
    show "?L (a - off_of a M') = None" "live (tbl_heap M') = ?L(a - off_of a M' \<mapsto> 8 * slots ?q)"
      using fr(9,10) off_of_cong [OF ra(1)] assms(15) sq by simp_all
    show "same_ctxs M M'" using same_ctxs_trans [OF fr(2) assms(14)] .
    show "entries_ok ?T M' p"
    proof (cases p)
      case (P1 c)
      have "let e = rd (ent (T p) i) M' in if ?T (P2 c i) \<noteq> 0 then e = SRMMU_PTD (?T (P2 c i)) else e = 0 \<or> e AND 3 = 2"
        if "i < 256" for i using t(1) that P1 re [of i] assms(12,4) by (cases "i = k") (auto simp: Let_def)
      then show ?thesis unfolding P1 entries_ok.simps by (simp add: P1)
    next
      case (P2 c i)
      have "let e = rd (ent (T p) j) M' in if ?T (P3 c i j) \<noteq> 0 then e = SRMMU_PTD (?T (P3 c i j)) else e = 0"
        if "j < 64" for j using t(1) that P2 re [of j] assms(12,4) by (cases "j = k") (auto simp: Let_def)
      then show ?thesis unfolding P2 entries_ok.simps by (simp add: P2)
    qed (use assms(5) in simp)
    show "counter_ok ?T M' p"
    proof (cases p)
      case (P2 c i)
      have "tbl_used (T p) (slots p) M' = Suc (tbl_used (T p) (slots p) M)"
        using used_insert [OF assms(7,9)] assms(12) ptd_roundtrip(3) [OF pa] re by metis
      then show ?thesis using assms(13) [OF P2] t(2) P2 by simp
    qed (use assms(5) in simp_all)
  qed (use ra sq out rp in auto)
  then have "good_state ok live ?T M'" using ok2 by (simp add: good_state_def)
  moreover have "views_same T M ?T M'"
  proof -
    have ch: "T r \<noteq> 0 \<Longrightarrow> r \<noteq> ?q" for r using assms(8) by auto
    have "big ?T M' c i = big T M c i" if "i < 256" for c i
    proof (cases "P1 c = p")
      case True
      then show ?thesis using re [of i] that assms(4,6,8,9) by (cases "i = k") (auto simp: big_def)
    next
      case False
      then show ?thesis using other [of "P1 c" i] that assms(5,8) by (cases p) (auto simp: big_def)
    qed
    moreover have "pte ?T M' c i j l = pte T M c i j l" if "l < 64" for c i j l
    proof (cases "P3 c i j = ?q")
      case True
      then show ?thesis using ra(3) [OF that] assms(8) by (auto simp: pte_def)
    next
      case False
      then show ?thesis using other [of "P3 c i j" l] that assms(5) by (cases p) (auto simp: pte_def)
    qed
    ultimately show ?thesis by (simp add: views_same_def)
  qed
  ultimately show ?thesis using same_ctxs_trans [OF fr(2) assms(14)] fr(3) assms(5,8,16)
    by (cases p) (auto simp: grown_def roots_same_def)
qed

end
