(* ===== verification/Srmmu_Spec.thy ===== *)
theory Srmmu_Spec
  imports Srmmu_Map
begin

text \<open>
  Tables that are missing are made, and a small mapping changes the translation of one page only.
\<close>

section \<open>Missing tables\<close>

lemma ctx_at_grown: "ctx_at T ctx c \<Longrightarrow> grown ok live T M T' M' \<Longrightarrow> ctx_at T' ctx c"
  by (simp add: ctx_at_def grown_def roots_same_def)

lemma failed_table:
  assumes "good_alloc ok live A" "good_state ok live T M" "mmu_alloc_tbl A (of_nat (4 * 64)) M = (0, M1)"
  shows "grown ok live T M T M1" "uses_tbls A (Suc n) (tbl_heap M) r (tbl_heap M1)"
proof -
  have ok: "ok (tbl_heap M)" and tree: "tbl_tree_ok (live (tbl_heap M)) T M" using assms(2) by (simp_all add: good_state_def)
  note s = alloc_tbl_spec [OF assms(1) ok _ assms(3), simplified]
  have "tbl_tree_ok (live (tbl_heap M)) T M1" "views_same T M T M1"
    using tree_ok_same [OF good_bd [OF assms(1,2)] tree _ s(2)] s(4) by auto
  then show "grown ok live T M T M1" using s by (simp add: grown_def good_state_def roots_same_def)
  show "uses_tbls A (Suc n) (tbl_heap M) r (tbl_heap M1)" by (rule uses_fail) (use s in simp)
qed

lemma alloc_uses:
  assumes "good_alloc ok live A" "good_state ok live T M" "mmu_alloc_tbl A 0x100 M = (a, M1)"
  shows "uses_tbls A 1 (tbl_heap M) 0 (tbl_heap M1)"
proof -
  have ok: "ok (tbl_heap M)" using assms(2) by (simp add: good_state_def)
  have al: "mmu_alloc_tbl A (of_nat (4 * 64)) M = (a, M1)" using assms(3) by simp
  show ?thesis using alloc_tbl_spec [OF assms(1) ok _ al, simplified] by (simp add: uses_tbls_def)
qed

lemma big_entry:
  assumes "tbl_tree_ok L T M" "ctx_at T ctx c"
  shows "rd (ent (lvl1 ctx) (ix1 va)) M AND 2 \<noteq> 0 \<longleftrightarrow> big T M c (ix1 va) \<noteq> 0"
    "rd (ent (lvl1 ctx) (ix1 va)) M AND 2 = 0 \<Longrightarrow> rd (ent (lvl1 ctx) (ix1 va)) M \<noteq> 0 \<longleftrightarrow> T (P2 c (ix1 va)) \<noteq> 0"
proof -
  have c: "lvl1 ctx = T (P1 c)" "T (P1 c) \<noteq> 0" using assms(2) by (simp_all add: ctx_at_def)
  note e = tree_entry1 [OF assms(1) c(2) offsets(4) [of va]]
  show "rd (ent (lvl1 ctx) (ix1 va)) M AND 2 \<noteq> 0 \<longleftrightarrow> big T M c (ix1 va) \<noteq> 0"
  proof (cases "T (P2 c (ix1 va)) = 0")
    case True
    then show ?thesis using e(2) type_2 c by (auto simp: big_def)
  next
    case False
    then show ?thesis using e(1) ptd_roundtrip [OF tree_aligned [OF assms(1) False]] c by (simp add: big_def)
  qed
  show "rd (ent (lvl1 ctx) (ix1 va)) M \<noteq> 0 \<longleftrightarrow> T (P2 c (ix1 va)) \<noteq> 0" if "rd (ent (lvl1 ctx) (ix1 va)) M AND 2 = 0"
    using e that type_2 c ptd_roundtrip [OF tree_aligned [OF assms(1)]] by (cases "T (P2 c (ix1 va)) = 0") auto
qed

lemma need_lvl2_spec:
  assumes "good_alloc ok live A" "good_state ok live T M" "ctx_at T ctx c"
  obtains r T' M' where "mmu_need_lvl2_tbl A ctx va M = (r, M')" "grown ok live T M T' M'"
    "if big T M c (ix1 va) \<noteq> 0 then r = - EINVAL else r = - ENOMEM \<or> r = 0 \<and> T' (P2 c (ix1 va)) \<noteq> 0"
    "\<forall>q. q \<noteq> P2 c (ix1 va) \<longrightarrow> T' q = T q" "uses_tbls A 1 (tbl_heap M) r (tbl_heap M')"
proof -
  have tree: "tbl_tree_ok (live (tbl_heap M)) T M" using assms(2) by (simp add: good_state_def)
  have c: "lvl1 ctx = T (P1 c)" "T (P1 c) \<noteq> 0" using assms(3) by (simp_all add: ctx_at_def)
  note b = big_entry [OF tree assms(3), of va]
  note d = mmu_need_lvl2_tbl_def ent_offsets Let_def
  consider "big T M c (ix1 va) \<noteq> 0" | "big T M c (ix1 va) = 0" "T (P2 c (ix1 va)) \<noteq> 0" | "big T M c (ix1 va) = 0" "T (P2 c (ix1 va)) = 0" by blast
  then show ?thesis
  proof cases
    case 1
    then show ?thesis using b that [of "- EINVAL" M T] grown_refl [OF assms(2)] by (simp add: uses_refl d)
  next
    case 2
    then show ?thesis using b that [of 0 M T] grown_refl [OF assms(2)] by (simp add: uses_refl d)
  next
    case 3
    have z: "rd (ent (T (P1 c)) (ix1 va)) M = 0" using b 3 c by simp
    obtain a M1 where al: "mmu_alloc_tbl A 0x100 M = (a, M1)" by fastforce
    have al': "mmu_alloc_tbl A (of_nat (4 * 64)) M = (a, M1)" using al by simp
    show ?thesis
    proof (cases "a = 0")
      case True
      then show ?thesis using failed_table [OF assms(1,2) al' [unfolded True]] al b 3 z c that [of "- ENOMEM" M1 T] by (simp add: d)
    next
      case False
      let ?M = "wr (ent (T (P1 c)) (ix1 va)) (SRMMU_PTD a) (set_invalid 64 a M1)"
      have "grown ok live T M (T(kid (P1 c) (ix1 va) := a)) ?M"
        by (rule grown_attach [OF assms(1,2) al' False]) (use c z 3 offsets(4) in \<open>auto simp: wr_def rd_def same_ctxs_def\<close>)
      moreover have "mmu_need_lvl2_tbl A ctx va M = (0, ?M)"
        using al False z c by (simp add: d mmu_set_lvl2_tbl_invalid_def)
      ultimately show ?thesis using that [of 0 ?M "T(P2 c (ix1 va) := a)"] 3 False
        alloc_uses [OF assms(1,2) al] by (simp add: wr_def set_invalid_fields)
    qed
  qed
qed

lemma attach_lvl3:
  assumes "good_alloc ok live A" "good_state ok live T M" "ctx_at T ctx c" "T (P2 c (ix1 va)) \<noteq> 0" "T (P3 c (ix1 va) (ix2 va)) = 0"
    "mmu_alloc_tbl A 0x100 M = (a, M1)" "a \<noteq> 0"
  obtains M' n where "mmu_inc_ref_cnt (T (P2 c (ix1 va))) 0x100
      (wr (ent (T (P2 c (ix1 va))) (ix2 va)) (SRMMU_PTD a) (mmu_set_lvl3_tbl_invalid a M1)) = Some (n, M')"
    "grown ok live T M (T(P3 c (ix1 va) (ix2 va) := a)) M'"
proof -
  let ?p = "P2 c (ix1 va)" let ?e = "ent (T ?p) (ix2 va)" let ?M2 = "set_invalid 64 a M1" let ?M3 = "wr ?e (SRMMU_PTD a) ?M2"
  have tree: "tbl_tree_ok (live (tbl_heap M)) T M" using assms(2) by (simp add: good_state_def)
  have al: "mmu_alloc_tbl A (of_nat (4 * 64)) M = (a, M1)" using assms(6) by simp
  note fr = fresh_table [OF assms(1,2) _ al assms(7), simplified]
  note fp = foot_words [OF good_bd [OF assms(1,2)] tree_hdr [OF tree assms(4)]]
  have z: "rd ?e M = 0" using tree_entry2 [OF tree assms(4) offsets(5) [of va]] assms(5) by simp
  have j: "ix2 va < slots ?p" using offsets(5) by simp
  have "T ?p - 4 \<notin> foot 64 a" "T ?p - 8 \<notin> foot 64 a" using fp(1,2) fr(11) [OF assms(4)] by auto
  then have r: "rd (T ?p - 4) ?M3 = rd (T ?p - 4) M" "rd (T ?p - 8) ?M3 = rd (T ?p - 8) M"
    using fr(5) fp(5) [OF j] fp(6) [OF j] by (auto simp: rd_def wr_def)
  let ?n = "rd (T ?p - 8) M + 1" let ?M' = "wr (T ?p - 8) ?n ?M3"
  have inc: "mmu_inc_ref_cnt (T ?p) 0x100 ?M3 = Some (?n, ?M')"
    using ref_word_eq [OF tree assms(4) r(1)] r(2) by (simp add: mmu_inc_ref_cnt_def Let_def)
  have "unat (rd (T ?p - 8) M) \<le> 64" using tree_entries [OF tree assms(4)] tbl_used_le [of "T ?p" 64 M] by simp
  then have n: "unat ?n = Suc (unat (rd (T ?p - 8) M))" by (subst unat_add_lem [THEN iffD1]) auto
  have "grown ok live T M (T(kid ?p (ix2 va) := a)) ?M'"
  proof (rule grown_attach [OF assms(1,2) al assms(7) _ assms(4) j])
    show "rd ?e ?M' = SRMMU_PTD a" using fp(6) [OF j] by (simp add: rd_def wr_def)
  qed (use z n assms(5) in \<open>auto simp: wr_def rd_def same_ctxs_def\<close>)
  then show ?thesis using that [OF inc [folded mmu_set_lvl3_tbl_invalid_def]] by (simp add: mmu_set_lvl3_tbl_invalid_def)
qed

lemma need_lvl3_spec:
  assumes "good_alloc ok live A" "good_state ok live T M" "ctx_at T ctx c"
  obtains r T' M' where "mmu_need_lvl3_tbl A ctx va M = Some (r, M')" "grown ok live T M T' M'"
    "if big T M c (ix1 va) \<noteq> 0 then r = - EINVAL else r = - ENOMEM \<or> r = 0 \<and> T' (P3 c (ix1 va) (ix2 va)) \<noteq> 0"
    "uses_tbls A 2 (tbl_heap M) r (tbl_heap M')"
proof -
  have tree: "tbl_tree_ok (live (tbl_heap M)) T M" using assms(2) by (simp add: good_state_def)
  let ?p = "P2 c (ix1 va)" let ?q = "P3 c (ix1 va) (ix2 va)"
  have big0: "big T' M' c (ix1 va) = big T M c (ix1 va)" if "grown ok live T M T' M'" for T' M'
    using that offsets(4) [of va] by (simp add: grown_def views_same_def)
  show ?thesis
  proof (cases "T ?q = 0")
    case False
    then have "T ?p \<noteq> 0" using tree unfolding tbl_tree_ok_def parents_ok_def by metis
    then show ?thesis using False find_lvl3 [OF tree assms(3)] that [of 0 M T] grown_refl [OF assms(2)]
      by (simp add: uses_refl mmu_need_lvl3_tbl_def big_def)
  next
    case q: True
    obtain r T1 M1 where s: "(if T ?p = 0 then mmu_need_lvl2_tbl A ctx va M else (0, M)) = (r, M1)" "grown ok live T M T1 M1"
      "if big T M c (ix1 va) \<noteq> 0 then r = - EINVAL else r = - ENOMEM \<or> r = 0 \<and> T1 ?p \<noteq> 0" "T1 ?q = 0"
      "uses_tbls A 1 (tbl_heap M) r (tbl_heap M1)"
    proof (cases "T ?p = 0")
      case True
      show ?thesis by (rule need_lvl2_spec [OF assms, of va]) (use True that q in auto)
    next
      case False
      then show ?thesis using that [of 0 M T] grown_refl [OF assms(2)] q by (simp add: big_def uses_refl)
    qed
    note d = mmu_need_lvl3_tbl_def find_lvl3 [OF tree assms(3)] find_lvl2 [OF tree assms(3)] q Let_def s(1)
    show ?thesis
    proof (cases "r = 0")
      case False
      then have "mmu_need_lvl3_tbl A ctx va M = Some (r, M1)" by (simp add: d)
      then show ?thesis using that s(2,3) False uses_more [OF s(5)] by (auto split: if_splits)
    next
      case True
      have g1: "good_state ok live T1 M1" using s(2) by (simp add: grown_def)
      have tree1: "tbl_tree_ok (live (tbl_heap M1)) T1 M1" using g1 by (simp add: good_state_def)
      note c1 = ctx_at_grown [OF assms(3) s(2)]
      have b0: "big T M c (ix1 va) = 0" and p1: "T1 ?p \<noteq> 0" using s(3) True by (auto split: if_splits)
      have l2: "(if T ?p = 0 then mmu_find_tbl_lvl2 ctx va M1 else T ?p) = T1 ?p"
        using find_lvl2 [OF tree1 c1] s(2) by (auto simp: grown_def)
      have q1: "T1 ?q = 0" using s(4) .
      obtain a M2 where al: "mmu_alloc_tbl A 0x100 M1 = (a, M2)" by fastforce
      show ?thesis
      proof (cases "a = 0")
        case a: True
        have al0: "mmu_alloc_tbl A (of_nat (4 * 64)) M1 = (0, M2)" using al a by simp
        note ft = failed_table [OF assms(1) g1 al0]
        have "grown ok live T1 M1 T1 M2" by (rule ft(1))
        then have "grown ok live T M T1 M2" by (rule grown_trans [OF s(2)])
        moreover have "mmu_need_lvl3_tbl A ctx va M = Some (- ENOMEM, M2)" using True a al by (simp add: d)
        ultimately show ?thesis using that b0 uses_trans [OF s(5) [unfolded True] ft(2) [of 0]] by (simp add: numeral_2_eq_2)
      next
        case a: False
        obtain M' n where i: "mmu_inc_ref_cnt (T1 ?p) 0x100 (wr (ent (T1 ?p) (ix2 va)) (SRMMU_PTD a) (mmu_set_lvl3_tbl_invalid a M2)) = Some (n, M')"
          "grown ok live T1 M1 (T1(?q := a)) M'" by (rule attach_lvl3 [OF assms(1) g1 c1 p1 q1 al a])
        have "mmu_need_lvl3_tbl A ctx va M = Some (0, M')"
          using True a al p1 l2 i(1) by (simp add: d ent_offsets)
        moreover have "grown ok live T M (T1(?q := a)) M'" by (rule grown_trans [OF s(2) i(2)])
        moreover have "tbl_heap M' = tbl_heap M2"
          using i(1) by (auto simp: mmu_inc_ref_cnt_def Let_def bind_eq_Some_conv wr_def mmu_set_lvl3_tbl_invalid_def set_invalid_fields)
        moreover note uses_trans [OF s(5) [unfolded True] alloc_uses [OF assms(1) g1 al]]
        ultimately show ?thesis using that [of 0 M' "T1(?q := a)"] b0 a by (simp add: numeral_2_eq_2)
      qed
    qed
  qed
qed

section \<open>Translation\<close>

text \<open>What the hardware does with an address: it starts at the entry of the context, and goes through the tables.  The
  level says how many bits of the address the entry replaces.\<close>

definition mmu_walk :: "nat \<Rightarrow> u32 \<Rightarrow> 's mmu \<Rightarrow> (nat \<times> u32) option" where
  "mmu_walk n va M =
     (let e0 = mmu_ctp M ! n in
      if e0 AND 3 = 2 then Some (0, e0) else if e0 AND 3 \<noteq> 1 then None else
      let e1 = rd (SRMMU_PTD_TO_ADDR e0 + 4 * drop_bit 24 va) M in
      if e1 AND 3 = 2 then Some (1, e1) else if e1 AND 3 \<noteq> 1 then None else
      let e2 = rd (SRMMU_PTD_TO_ADDR e1 + 4 * (drop_bit 18 va AND 0x3f)) M in
      if e2 AND 3 = 2 then Some (2, e2) else if e2 AND 3 \<noteq> 1 then None else
      let e3 = rd (SRMMU_PTD_TO_ADDR e2 + 4 * (drop_bit 12 va AND 0x3f)) M in
      if e3 AND 3 = 2 then Some (3, e3) else None)"

fun page_bits :: "nat \<Rightarrow> nat" where
  "page_bits l = (if l = 0 then 32 else if l = 1 then 24 else if l = 2 then 18 else 12)"

definition mmu_phys :: "nat \<Rightarrow> u32 \<Rightarrow> 's mmu \<Rightarrow> u32 option" where
  "mmu_phys n va M = map_option (\<lambda>(l, e). (SRMMU_PTE_TO_ADDR e AND NOT (mask (page_bits l))) OR (va AND mask (page_bits l))) (mmu_walk n va M)"

lemma walk_eq:
  assumes "tbl_tree_ok L T M" "c < length (ctx_free M)"
  shows "mmu_walk c va M = (if big T M c (ix1 va) \<noteq> 0 then Some (1, big T M c (ix1 va))
     else if pte T M c (ix1 va) (ix2 va) (ix3 va) \<noteq> 0 then Some (3, pte T M c (ix1 va) (ix2 va) (ix3 va)) else None)"
proof -
  have t1: "T (P1 c) \<noteq> 0" "mmu_ctp M ! c = SRMMU_PTD (T (P1 c))" using assms by (simp_all add: tbl_tree_ok_def ctxs_ok_def)
  note r1 = ptd_roundtrip [OF tree_aligned [OF assms(1) t1(1)]]
  have d: "drop_bit 24 va = SRMMU_LVL1_GET_TBL_OFFSET va"
  proof -
    have "drop_bit 24 va AND 0xff = drop_bit 24 va"
    proof -
      have "unat (drop_bit 24 va AND (2 ^ 8 - 1)) = ix1 va" using offsets(1) [of va] by (simp add: SRMMU_LVL1_GET_TBL_OFFSET_def)
      moreover have "unat (drop_bit 24 va) = ix1 va" by (simp only: unat_drop_bit_eq) (simp add: drop_bit_eq_div ix1_def)
      ultimately show ?thesis by (simp add: word_unat_eq_iff)
    qed
    then show ?thesis by (simp add: SRMMU_LVL1_GET_TBL_OFFSET_def)
  qed
  note defs = mmu_walk_def d SRMMU_LVL2_GET_TBL_OFFSET_def [symmetric] SRMMU_LVL3_GET_TBL_OFFSET_def [symmetric] ent_offsets t1 r1 Let_def
  note e1 = tree_entry1 [OF assms(1) t1(1) offsets(4) [of va]]
  show ?thesis
  proof (cases "T (P2 c (ix1 va)) = 0")
    case True
    then have z: "T (P3 c (ix1 va) j) = 0" for j using assms(1) unfolding tbl_tree_ok_def parents_ok_def by metis
    show ?thesis using e1(2) [OF True] True z by (auto simp: defs big_def pte_def)
  next
    case t2: False
    note e2 = tree_entry2 [OF assms(1) t2 offsets(5) [of va]] and r2 = ptd_roundtrip [OF tree_aligned [OF assms(1) t2]]
    show ?thesis
    proof (cases "T (P3 c (ix1 va) (ix2 va)) = 0")
      case True
      then show ?thesis using e1(1) [OF t2] t2 e2 r2 by (simp add: defs big_def pte_def)
    next
      case t3: False
      note r3 = ptd_roundtrip [OF tree_aligned [OF assms(1) t3]]
      show ?thesis using e1(1) [OF t2] t2 t3 e2 r2 r3 tree_entry3 [OF assms(1) t3 offsets(6) [of va]]
        by (auto simp: defs big_def pte_def)
    qed
  qed
qed

lemma walk_views:
  assumes "tbl_tree_ok L T M" "tbl_tree_ok L' T' M'" "views_same T M T' M'" "same_ctxs M M'" "c < length (ctx_free M)"
  shows "mmu_walk c va M' = mmu_walk c va M"
  using walk_eq [OF assms(1,5)] walk_eq [OF assms(2), of c] assms(3-5) offsets(4,6) [of va]
  by (simp add: same_ctxs_def views_same_def)

lemma pte_type:
  assumes "perm AND NOT 0xfc = 0"
  shows "SRMMU_PTE pa perm AND 3 = 2" "SRMMU_PTE pa perm \<noteq> 0"
    "SRMMU_PTE_TO_ADDR (SRMMU_PTE pa perm) = pa AND NOT (mask 12)"
proof -
  have p: "bit perm n \<Longrightarrow> 2 \<le> n \<and> n < 8" for n
  proof -
    assume b: "bit perm n"
    have "bit x n" if "perm AND NOT x = 0" for x :: u32
      using that b bit_imp_le_length [OF b] by (metis bit_0_eq bit_and_iff bit_not_iff bot_apply bot_bool_def impossible_bit)
    then have "bit (0xfc :: u32) n" using assms .
    moreover have "(0xfc :: u32) = push_bit 2 (mask 6)" by (simp add: mask_eq_exp_minus_1)
    ultimately show ?thesis by (simp add: bit_simps) linarith
  qed
  have b32: "bit (32 :: int) n \<Longrightarrow> n = 5" for n using bit_exp_iff [of 5 n, where ?'a = int] by simp
  have m: "(3 :: u32) = mask 2" "(0xff :: u32) = mask 8" by (simp_all add: mask_eq_exp_minus_1)
  show "SRMMU_PTE pa perm AND 3 = 2" unfolding SRMMU_PTE_def m
    by (rule bit_word_eqI) (auto simp: bit_simps bit_2_iff dest: p)
  then show "SRMMU_PTE pa perm \<noteq> 0" by auto
  show "SRMMU_PTE_TO_ADDR (SRMMU_PTE pa perm) = pa AND NOT (mask 12)" unfolding SRMMU_PTE_TO_ADDR_def SRMMU_PTE_def m
    by (rule bit_word_eqI) (auto simp: bit_simps bit_2_iff dest: p dest!: b32)
qed

section \<open>Small mappings\<close>

text \<open>An entry of a level 3 table is written, and its counter set.\<close>

lemma leaf_write:
  assumes "good_alloc ok live A" "good_state ok live T M" "T (P3 c i j) \<noteq> 0" "k < 64" "e = 0 \<or> e AND 3 = 2"
    "rd (ent (T (P3 c i j)) k) M' = e" "unat (rd (T (P3 c i j) - 8) M') = tbl_used (T (P3 c i j)) 64 M'"
    "\<forall>x. x \<noteq> ent (T (P3 c i j)) k \<longrightarrow> x \<noteq> T (P3 c i j) - 8 \<longrightarrow> words M' x = words M x"
    "same_ctxs M M'" "tbl_heap M' = tbl_heap M"
  shows "good_state ok live T M'" "i' < 256 \<Longrightarrow> big T M' c' i' = big T M c' i'"
    "k' < 64 \<Longrightarrow> pte T M' c' i' j' k' = (if c' = c \<and> i' = i \<and> j' = j \<and> k' = k then e else pte T M c' i' j' k')"
proof -
  let ?p = "P3 c i j"
  have tree: "tbl_tree_ok (live (tbl_heap M)) T M" and bd: "blocks_disjoint (live (tbl_heap M))"
    using assms(2) good_bd [OF assms(1,2)] by (simp_all add: good_state_def)
  have k: "k < slots ?p" using assms(4) by simp
  note f = foot_words [OF bd tree_hdr [OF tree assms(3)]]
  have out: "words M' x = words M x" if "x \<notin> foot (slots ?p) (T ?p)" for x
    using that f(2) f(3) [OF k] by (intro assms(8) [rule_format]) auto
  have re: "rd (ent (T ?p) l) M' = rd (ent (T ?p) l) M" if "l < 64" "l \<noteq> k" for l
    using that f(6) [of l] f(7) [OF _ k, of l] unfolding rd_def by (intro assms(8) [rule_format]) auto
  have "tbl_tree_ok (live (tbl_heap M')) T M'" unfolding assms(10)
  proof (rule tree_ok_write [OF bd tree assms(3) out assms(9)])
    show "rd (T ?p - 4) M' = rd (T ?p - 4) M" unfolding rd_def using f(4) f(5) [OF k] by (intro assms(8) [rule_format]) auto
    have "let e = rd (ent (T ?p) l) M' in e = 0 \<or> e AND 3 = 2" if "l < 64" for l
      using tree_entry3 [OF tree assms(3) that] re [OF that] assms(5,6) by (cases "l = k") (auto simp: Let_def)
    then show "entries_ok T M' ?p" by simp
    show "counter_ok T M' ?p" using assms(7) by simp
  qed
  then show "good_state ok live T M'" using assms(2,10) by (simp add: good_state_def)
  have other: "rd (ent (T r) l) M' = rd (ent (T r) l) M" if "T r \<noteq> 0" "r \<noteq> ?p" "l < slots r" for r l
    by (rule entry_same [OF bd tree that(1,3)]) (use out feet_disjoint [OF bd tree that(2,1) assms(3)] in blast)
  show "i' < 256 \<Longrightarrow> big T M' c' i' = big T M c' i'" using other [of "P1 c'" i'] by (simp add: big_def)
  show "k' < 64 \<Longrightarrow> pte T M' c' i' j' k' = (if c' = c \<and> i' = i \<and> j' = j \<and> k' = k then e else pte T M c' i' j' k')"
    using other [of "P3 c' i' j'" k'] re [of k'] assms(3,6) by (auto simp: pte_def)
qed

lemma page_index:
  "ix1 va' = ix1 va \<and> ix2 va' = ix2 va \<and> ix3 va' = ix3 va \<longleftrightarrow> drop_bit 12 va' = drop_bit 12 va"
proof -
  have u: "unat (drop_bit 12 x) = unat x div 2 ^ 12" for x :: u32 by (simp only: unat_drop_bit_eq) (simp add: drop_bit_eq_div)
  have x: "unat x div 2 ^ 12 = (ix1 x * 64 + ix2 x) * 64 + ix3 x" for x
  proof -
    have "unat x div 2 ^ 18 = unat x div 2 ^ 12 div 64" "unat x div 2 ^ 24 = unat x div 2 ^ 12 div 64 div 64"
      by (simp_all only: div_mult2_eq [symmetric]) simp_all
    then show ?thesis by (simp add: ix1_def ix2_def ix3_def)
  qed
  have i: "ix1 x = unat x div 2 ^ 12 div 64 div 64" "ix2 x = unat x div 2 ^ 12 div 64 mod 64" "ix3 x = unat x div 2 ^ 12 mod 64" for x
    by (simp_all add: ix1_def ix2_def ix3_def div_mult2_eq [symmetric])
  show ?thesis
  proof
    assume "drop_bit 12 va' = drop_bit 12 va"
    then have "unat va' div 2 ^ 12 = unat va div 2 ^ 12" using u by metis
    then show "ix1 va' = ix1 va \<and> ix2 va' = ix2 va \<and> ix3 va' = ix3 va" unfolding i by simp
  next
    assume "ix1 va' = ix1 va \<and> ix2 va' = ix2 va \<and> ix3 va' = ix3 va"
    then have "unat va' div 2 ^ 12 = unat va div 2 ^ 12" using x by simp
    then show "drop_bit 12 va' = drop_bit 12 va" using u by (metis word_unat_eq_iff)
  qed
qed

lemma find_ctx_nth:
  assumes "\<And>i. i < length cs \<Longrightarrow> ctx_num (cs ! i) = of_nat (b + i)" "b + length cs < 2 ^ 32" "n = of_nat m" "m < 2 ^ 32"
  shows "find_ctx n cs = (if b \<le> m \<and> m < b + length cs then Some (cs ! (m - b)) else None)"
  using assms
proof (induction cs arbitrary: b)
  case (Cons c cs)
  have c: "ctx_num c = of_nat b" using Cons.prems(1) [of 0] by simp
  have e: "ctx_num c = n \<longleftrightarrow> b = m"
  proof
    assume "ctx_num c = n"
    then have "(of_nat b :: u32) = of_nat m" using c Cons.prems(3) by simp
    then have "unat (of_nat b :: u32) = unat (of_nat m :: u32)" by simp
    then show "b = m" using Cons.prems(2,4) by (simp only: unat_of_nat) simp
  qed (use c Cons.prems(3) in simp)
  have "find_ctx n cs = (if Suc b \<le> m \<and> m < Suc b + length cs then Some (cs ! (m - Suc b)) else None)"
    using Cons.prems(1) [of "Suc _"] Cons.prems(2-4) by (intro Cons.IH) auto
  then show ?case using e by (auto simp: nth_Cons')
qed simp

lemma find_ctx_at:
  assumes "tbl_tree_ok L T M"
  shows "mmu_find_ctx n M = (if unat n < length (ctx_free M) then Some (ctx_free M ! unat n) else None)"
    "unat n < length (ctx_free M) \<Longrightarrow> ctx_at T (ctx_free M ! unat n) (unat n)"
    "mmu_num_ctp M < n \<longleftrightarrow> length (ctx_free M) < unat n"
proof -
  have c: "ctxs_ok T M" using assms by (simp add: tbl_tree_ok_def)
  have "unat (mmu_num_ctp M) = length (ctx_free M)" using c by (simp add: ctxs_ok_def) (simp only: unat_of_nat, simp)
  then show l: "mmu_num_ctp M < n \<longleftrightarrow> length (ctx_free M) < unat n" by (simp add: word_less_nat_alt)
  have "find_ctx n (ctx_free M) = (if 0 \<le> unat n \<and> unat n < 0 + length (ctx_free M) then Some (ctx_free M ! (unat n - 0)) else None)"
    by (rule find_ctx_nth) (use c unat_lt_32 [of n] in \<open>auto simp: ctxs_ok_def\<close>)
  then show "mmu_find_ctx n M = (if unat n < length (ctx_free M) then Some (ctx_free M ! unat n) else None)"
    using l c by (simp add: mmu_find_ctx_def ctxs_ok_def)
  show "unat n < length (ctx_free M) \<Longrightarrow> ctx_at T (ctx_free M ! unat n) (unat n)" using c by (simp add: ctxs_ok_def ctx_at_def)
qed

lemma small_mapping_spec:
  assumes "good_alloc ok live A" "good_state ok live T M" "unat n < length (ctx_free M)" "perm AND NOT 0xfc = 0"
    "pte T M (unat n) (ix1 va) (ix2 va) (ix3 va) = 0"
  obtains r T' M' where "srmmu_do_small_mapping A n va pa perm M = Some (r, M')" "good_state ok live T' M'" "same_ctxs M M'"
    "pages_freed M' = pages_freed M" "if big T M (unat n) (ix1 va) \<noteq> 0 then r = - EINVAL else r = - ENOMEM \<or> r = 0"
    "uses_tbls A 2 (tbl_heap M) r (tbl_heap M')"
    "\<And>c i. i < 256 \<Longrightarrow> big T' M' c i = big T M c i"
    "\<And>c i j k. k < 64 \<Longrightarrow> pte T' M' c i j k =
       (if r = 0 \<and> c = unat n \<and> i = ix1 va \<and> j = ix2 va \<and> k = ix3 va then SRMMU_PTE pa perm else pte T M c i j k)"
proof -
  have tree: "tbl_tree_ok (live (tbl_heap M)) T M" using assms(2) by (simp add: good_state_def)
  note fc = find_ctx_at [OF tree, of n]
  define ctx where "ctx = ctx_free M ! unat n"
  have ctx: "ctx_at T ctx (unat n)" "mmu_find_ctx n M = Some ctx" "\<not> mmu_num_ctp M < n" using fc assms(3) by (auto simp: ctx_def)
  obtain r T1 M1 where s: "mmu_need_lvl3_tbl A ctx va M = Some (r, M1)" "grown ok live T M T1 M1"
    "if big T M (unat n) (ix1 va) \<noteq> 0 then r = - EINVAL else r = - ENOMEM \<or> r = 0 \<and> T1 (P3 (unat n) (ix1 va) (ix2 va)) \<noteq> 0"
    "uses_tbls A 2 (tbl_heap M) r (tbl_heap M1)"
    by (rule need_lvl3_spec [OF assms(1,2) ctx(1), of va])
  note d = srmmu_do_small_mapping_def ctx s(1)
  have g: "good_state ok live T1 M1" "same_ctxs M M1" "pages_freed M1 = pages_freed M" "views_same T M T1 M1"
    using s(2) by (simp_all add: grown_def)
  show ?thesis
  proof (cases "r = 0")
    case False
    then have "srmmu_do_small_mapping A n va pa perm M = Some (r, M1)" by (simp add: d)
    then show ?thesis using that g s(3,4) False by (auto simp: views_same_def split: if_splits)
  next
    case True
    let ?p = "P3 (unat n) (ix1 va) (ix2 va)" let ?e = "SRMMU_PTE pa perm" let ?t = "T1 ?p"
    have t1: "?t \<noteq> 0" using s(3) True by (auto split: if_splits)
    have tree1: "tbl_tree_ok (live (tbl_heap M1)) T1 M1" using g(1) by (simp add: good_state_def)
    have k: "ix3 va < slots ?p" using offsets(6) by simp
    have z: "rd (ent ?t (ix3 va)) M1 = 0" 
    proof -
      have "pte T1 M1 (unat n) (ix1 va) (ix2 va) (ix3 va) = 0" using g(4) assms(5) offsets(6) [of va] by (simp add: views_same_def)
      then show ?thesis using t1 by (simp add: pte_def)
    qed
    note f = foot_words [OF good_bd [OF assms(1) g(1)] tree_hdr [OF tree1 t1]]
    let ?M2 = "wr (ent ?t (ix3 va)) ?e M1" let ?n = "rd (?t - 8) M1 + 1" let ?M3 = "wr (?t - 8) ?n ?M2"
    have r: "rd (?t - 4) ?M2 = rd (?t - 4) M1" "rd (?t - 8) ?M2 = rd (?t - 8) M1" using f(5) [OF k] f(6) [OF k] by (auto simp: rd_def wr_def)
    have inc: "mmu_inc_ref_cnt ?t 0x100 ?M2 = Some (?n, ?M3)"
      using ref_word_eq [OF tree1 t1 r(1)] r(2) by (simp add: mmu_inc_ref_cnt_def Let_def)
    have cnt: "unat (rd (?t - 8) M1) = tbl_used ?t 64 M1" using tree_entries [OF tree1 t1] by simp
    have n1: "unat ?n = Suc (tbl_used ?t 64 M1)" using cnt tbl_used_le [of ?t 64 M1] by (subst unat_add_lem [THEN iffD1]) auto
    have e3: "rd (ent ?t (ix3 va)) ?M3 = ?e" using f(6) [OF k] by (simp add: rd_def wr_def)
    have u: "tbl_used ?t 64 ?M3 = Suc (tbl_used ?t 64 M1)"
    proof (rule used_insert [OF offsets(6) z])
      show "rd (ent ?t (ix3 va)) ?M3 \<noteq> 0" using e3 pte_type(2) [OF assms(4)] by simp
      show "rd (ent ?t l) ?M3 = rd (ent ?t l) M1" if "l < 64" "l \<noteq> ix3 va" for l
        using f(6) [of l] f(7) [OF _ k, of l] that by (simp add: rd_def wr_def)
    qed
    have cn: "unat (rd (?t - 8) ?M3) = tbl_used ?t 64 ?M3" using n1 u by (simp add: rd_def wr_def)
    have ty: "?e = 0 \<or> ?e AND 3 = 2" using pte_type(1) [OF assms(4)] by simp
    have st: "same_ctxs M1 ?M3" "tbl_heap ?M3 = tbl_heap M1" by (simp_all add: wr_def same_ctxs_def)
    have fr: "\<forall>x. x \<noteq> ent ?t (ix3 va) \<longrightarrow> x \<noteq> ?t - 8 \<longrightarrow> words ?M3 x = words M1 x" by (simp add: wr_def)
    note lw = leaf_write [OF assms(1) g(1) t1 offsets(6) ty e3 cn fr st]
    have "srmmu_do_small_mapping A n va pa perm M = Some (0, ?M3)"
      using True inc t1 find_lvl3 [OF tree1 ctx_at_grown [OF ctx(1) s(2)], of va] by (simp add: d ent_offsets Let_def)
    moreover have "big T1 ?M3 c i = big T M c i" if "i < 256" for c i using lw(2) [OF that] g(4) that by (simp add: views_same_def)
    moreover have "pte T1 ?M3 c i j l = (if c = unat n \<and> i = ix1 va \<and> j = ix2 va \<and> l = ix3 va then ?e else pte T M c i j l)"
      if "l < 64" for c i j l using lw(3) [OF that] g(4) that by (simp add: views_same_def)
    ultimately show ?thesis using that [of 0 ?M3 T1] lw(1) same_ctxs_trans [OF g(2) st(1)] g(3) s(3,4) True
      by (auto simp: wr_def split: if_splits)
  qed
qed

end
