(* ===== verification/Srmmu_Free.thy ===== *)
theory Srmmu_Free
  imports Srmmu_Spec
begin

text \<open>
  Release of pages: the loops over the tables clear the entries of a range of pages, hand the pages back in the order of
  their addresses, and release a table with its last entry.
\<close>

section \<open>Removal of a table\<close>

definition tbl_freed :: "'s tbl_alloc \<Rightarrow> ttree \<Rightarrow> 's mmu \<Rightarrow> tpath \<Rightarrow> 's mmu" where
  "tbl_freed A T M p = M\<lparr>tbl_heap := ta_free A (blk T M p) (tbl_heap M)\<rparr>"

text \<open>A table without entries.\<close>

definition bare :: "ttree \<Rightarrow> 's mmu \<Rightarrow> tpath \<Rightarrow> bool" where
  "bare T M q \<longleftrightarrow> T q \<noteq> 0 \<and> (\<forall>l < slots q. rd (ent (T q) l) M = 0)"

lemma bare_kids:
  assumes "tbl_tree_ok L T M" "bare T M q" "child q r"
  shows "T r = 0"
proof (rule ccontr)
  assume r: "T r \<noteq> 0"
  have q: "T q \<noteq> 0" using assms(2) by (simp add: bare_def)
  note t = tree_entries [OF assms(1) q] and n = ptd_roundtrip(3) [OF tree_aligned [OF assms(1) r]]
  show False
  proof (cases q)
    case (P1 c)
    then show ?thesis using t n r assms(2,3) by (auto simp: bare_def Let_def)
  next
    case (P2 c i)
    then show ?thesis using t n r assms(2,3) by (auto simp: bare_def Let_def)
  qed (use assms(3) in simp)
qed

lemma free_tbl_eq:
  assumes "tbl_tree_ok L T M" "T p \<noteq> 0"
  shows "mmu_free_tbl A (T p) s M = Some (tbl_freed A T M p)"
  using tree_hdr [OF assms] by (simp add: mmu_free_tbl_def tbl_hdr_ok_def tbl_freed_def blk_def off_of_def)

lemma detach:
  assumes "good_alloc ok live A" "good_state ok live T M" "\<not> leaf p" "T p \<noteq> 0" "k < slots p" "bare T M (kid p k)"
    "\<forall>x. x \<noteq> ent (T p) k \<longrightarrow> x \<noteq> T p - 8 \<longrightarrow> words M' x = words M x" "rd (ent (T p) k) M' = 0"
    "\<forall>c i. p = P2 c i \<longrightarrow> Suc (unat (rd (T p - 8) M')) = unat (rd (T p - 8) M)"
    "same_ctxs M M'" "tbl_heap M' = ta_free A (blk T M (kid p k)) (tbl_heap M)"
  shows "good_state ok live (T(kid p k := 0)) M'" "views_same T M (T(kid p k := 0)) M'"
proof -
  let ?q = "kid p k" let ?T = "T(?q := 0)" let ?L = "live (tbl_heap M)"
  have tree: "tbl_tree_ok ?L T M" and ok: "ok (tbl_heap M)" and bd: "blocks_disjoint ?L"
    using assms(2) good_bd [OF assms(1,2)] by (simp_all add: good_state_def)
  have Tq: "T ?q \<noteq> 0" using assms(6) by (simp add: bare_def)
  have qp: "?q \<noteq> p" using assms(3) by (cases p) auto
  have fr: "ok (tbl_heap M')" "live (tbl_heap M') = ?L(blk T M ?q := None)"
    using good_allocD(5) [OF assms(1) ok] blk_live [OF tree Tq] assms(11) by auto
  note fp = foot_words [OF bd tree_hdr [OF tree assms(4)]]
  have out: "words M' x = words M x" if "x \<notin> foot (slots p) (T p)" for x
    using that fp(2) fp(3) [OF assms(5)] by (intro assms(7) [rule_format]) auto
  have re: "rd (ent (T p) l) M' = rd (ent (T p) l) M" if "l < slots p" "l \<noteq> k" for l
    using that fp(6) [of l] fp(7) [OF _ assms(5), of l] unfolding rd_def by (intro assms(7) [rule_format]) auto
  have rp: "rd (T p - 4) M' = rd (T p - 4) M" unfolding rd_def using fp(4) fp(5) [OF assms(5)] by (intro assms(7) [rule_format]) auto
  have same: "words M' x = words M x" if "r \<noteq> p" "T r \<noteq> 0" "x \<in> foot (slots r) (T r)" for r x
    using feet_disjoint [OF bd tree that(1,2) assms(4)] that(3) out by blast
  have other: "rd (ent (T r) l) M' = rd (ent (T r) l) M" if "T r \<noteq> 0" "r \<noteq> p" "l < slots r" for r l
    by (rule entry_same [OF bd tree that(1,3)]) (rule same [OF that(2,1)])
  have hdr: "rd (T r - 4) M' = rd (T r - 4) M" if "T r \<noteq> 0" for r
    using same [OF _ that] foot_words(1) [OF bd tree_hdr [OF tree that]] rp by (cases "r = p") (auto simp: rd_def)
  have bM: "blk ?T M' r = blk T M r" if "?T r \<noteq> 0" for r
    using that hdr [of r] off_of_cong by (auto simp: blk_def split: if_splits)
  have ap: "blk T M r \<noteq> blk T M ?q" if "?T r \<noteq> 0" for r
    using that tree Tq by (auto simp: tbl_tree_ok_def apart_def split: if_splits)
  note t = tree_entries [OF tree assms(4)]
  have tab: "tab_ok (live (tbl_heap M')) ?T M' r" if r: "?T r \<noteq> 0" for r
  proof (cases "r = p")
    case True
    have "tbl_hdr_ok ?L M (slots p) (T p)" by (rule tree_hdr [OF tree assms(4)])
    then have "tbl_hdr_ok (live (tbl_heap M')) M' (slots p) (T p)"
      using rp off_of_cong [OF rp] fr(2) ap [OF r] True by (auto simp: tbl_hdr_ok_def blk_def)
    moreover have "entries_ok ?T M' p"
    proof (cases p)
      case (P1 c)
      have "let e = rd (ent (T p) i) M' in if ?T (P2 c i) \<noteq> 0 then e = SRMMU_PTD (?T (P2 c i)) else e = 0 \<or> e AND 3 = 2"
        if "i < 256" for i using t that P1 re [of i] assms(8) by (cases "i = k") (auto simp: Let_def)
      then show ?thesis unfolding P1 entries_ok.simps by (simp add: P1)
    next
      case (P2 c i)
      have "let e = rd (ent (T p) j) M' in if ?T (P3 c i j) \<noteq> 0 then e = SRMMU_PTD (?T (P3 c i j)) else e = 0"
        if "j < 64" for j using t that P2 re [of j] assms(8) by (cases "j = k") (auto simp: Let_def)
      then show ?thesis unfolding P2 entries_ok.simps by (simp add: P2)
    qed (use assms(3) in simp)
    moreover have "counter_ok ?T M' p"
    proof (cases p)
      case (P2 c i)
      have "rd (ent (T p) k) M \<noteq> 0"
        using tree_entry2 [of ?L T M c i k] P2 assms(4,5) Tq tree ptd_roundtrip(3) [OF tree_aligned [OF tree Tq]] by simp
      then have "tbl_used (T p) (slots p) M = Suc (tbl_used (T p) (slots p) M')" using re assms(5,8) by (intro used_insert) auto
      then show ?thesis using assms(9) t P2 by simp
    qed (use assms(3) in simp_all)
    ultimately show ?thesis using True qp by (simp add: tab_ok_def)
  next
    case False
    have Tr: "T r \<noteq> 0" "r \<noteq> ?q" using r by (auto split: if_splits)
    then have "tab_ok ?L T M r" using tree by (simp add: tbl_tree_ok_def)
    then show ?thesis
    proof (rule tab_ok_cong [OF bd])
      show "?T s = T s" if "child r s" for s using that False assms(3) by (cases p; cases r) auto
      show "live (tbl_heap M') (blk T M r) = ?L (blk T M r)" using fr(2) ap [OF r] by simp
    qed (use same [OF False Tr(1)] Tr in auto)
  qed
  have par: "parents_ok T" "ctxs_ok T M" using tree by (simp_all add: tbl_tree_ok_def)
  have "apart ?T M'" unfolding apart_def
  proof (intro allI impI)
    fix r s assume "r \<noteq> s" "?T r \<noteq> 0" "?T s \<noteq> 0"
    then show "blk ?T M' r \<noteq> blk ?T M' s" using bM [of r] bM [of s] tree by (auto simp: tbl_tree_ok_def apart_def split: if_splits)
  qed
  moreover have "parents_ok ?T"
  proof -
    have "T (P3 c i j) = 0" if "?q = P2 c i" for c i j
    proof (rule ccontr)
      assume n: "T (P3 c i j) \<noteq> 0"
      then have "j < 64" using par(1) by (simp add: parents_ok_def)
      with n bare_kids [OF tree assms(6), of "P3 c i j"] that show False by simp
    qed
    then show ?thesis using par(1) assms(3) by (cases p) (auto simp: parents_ok_def)
  qed
  moreover have "ctxs_ok ?T M'" using assms(3) by (intro ctxs_ok_cong [OF par(2) assms(10)]) (cases p; auto)
  ultimately show "good_state ok live ?T M'" using tab fr(1) by (simp add: tbl_tree_ok_def good_state_def)
  have "big ?T M' c i = big T M c i" if "i < 256" for c i
  proof (cases "P1 c = p")
    case True
    then show ?thesis using re [of i] that assms(4,8) Tq by (cases "i = k") (auto simp: big_def)
  next
    case False
    then show ?thesis using other [of "P1 c" i] that assms(3) by (cases p) (auto simp: big_def)
  qed
  moreover have "pte ?T M' c i j l = pte T M c i j l" if "l < 64" for c i j l
  proof (cases "P3 c i j = ?q")
    case True
    then have "slots ?q = 64" by (metis slots.simps(3))
    then show ?thesis using assms(6) that True by (auto simp: pte_def bare_def)
  next
    case False
    then show ?thesis using other [of "P3 c i j" l] that assms(3) by (cases p) (auto simp: pte_def)
  qed
  ultimately show "views_same T M ?T M'" by (simp add: views_same_def)
qed

section \<open>Ranges of pages\<close>

text \<open>Pages are numbered by their addresses.\<close>

definition vp :: "ttree \<Rightarrow> 's mmu \<Rightarrow> nat \<Rightarrow> nat \<Rightarrow> u32" where
  "vp T M c p = pte T M c (p div 4096) (p div 64 mod 64) (p mod 64)"

text \<open>What a release of the page \<open>p\<close> hands back; a large page goes with its first number.\<close>

definition handed :: "ttree \<Rightarrow> 's mmu \<Rightarrow> nat \<Rightarrow> nat \<Rightarrow> u32 list" where
  "handed T M c p =
     (if big T M c (p div 4096) \<noteq> 0 then (if p mod 4096 = 0 then [SRMMU_PTE_TO_ADDR (big T M c (p div 4096))] else [])
      else if vp T M c p \<noteq> 0 then [SRMMU_PTE_TO_ADDR (vp T M c p)] else [])"

definition handed_range :: "ttree \<Rightarrow> 's mmu \<Rightarrow> nat \<Rightarrow> nat \<Rightarrow> nat \<Rightarrow> u32 list" where
  "handed_range T M c a e = concat (map (handed T M c) [a..<e])"

definition cleared :: "('s \<Rightarrow> bool) \<Rightarrow> ('s \<Rightarrow> u32 \<Rightarrow> nat option) \<Rightarrow> nat \<Rightarrow> nat \<Rightarrow> nat \<Rightarrow> ttree \<Rightarrow> 's mmu \<Rightarrow> ttree \<Rightarrow> 's mmu \<Rightarrow> bool" where
  "cleared ok live c a e T M T' M' \<longleftrightarrow> good_state ok live T' M' \<and> same_ctxs M M'
     \<and> pages_freed M' = pages_freed M @ handed_range T M c a e
     \<and> (\<forall>d i. i < 256 \<longrightarrow> big T' M' d i = (if d = c \<and> a \<le> 4096 * i \<and> 4096 * i < e then 0 else big T M d i))
     \<and> (\<forall>d p. p < 2 ^ 20 \<longrightarrow> vp T' M' d p = (if d = c \<and> a \<le> p \<and> p < e then 0 else vp T M d p))
     \<and> roots_same T T'"

lemma handed_nil: "\<forall>p. a \<le> p \<and> p < e \<longrightarrow> handed T M c p = [] \<Longrightarrow> handed_range T M c a e = []"
  by (simp add: handed_range_def)

lemma big_excludes: "tbl_tree_ok L T M \<Longrightarrow> big T M c (p div 4096) \<noteq> 0 \<Longrightarrow> vp T M c p = 0"
  unfolding big_def vp_def pte_def tbl_tree_ok_def parents_ok_def by meson

lemma cleared_refl: "good_state ok live T M \<Longrightarrow> e \<le> a \<Longrightarrow> cleared ok live c a e T M T M"
  by (auto simp: cleared_def handed_range_def roots_same_def)

lemma cleared_trans:
  assumes "good_state ok live T M" "cleared ok live c a b T M T1 M1" "cleared ok live c b e T1 M1 T2 M2" "a \<le> b" "b \<le> e" "e \<le> 2 ^ 20"
  shows "cleared ok live c a e T M T2 M2"
proof -
  have tree: "tbl_tree_ok (live (tbl_heap M)) T M" using assms(1) by (simp add: good_state_def)
  have h: "handed T1 M1 c p = handed T M c p" if "b \<le> p" "p < e" for p
  proof -
    have i: "p div 4096 < 256" using that assms(6) by (simp add: div_less_iff_less_mult)
    have v: "vp T1 M1 c p = vp T M c p" using assms(2,6) that by (simp add: cleared_def)
    show ?thesis
    proof (cases "big T1 M1 c (p div 4096) = big T M c (p div 4096)")
      case True
      then show ?thesis using v by (simp add: handed_def)
    next
      case False
      then have b: "big T M c (p div 4096) \<noteq> 0" "4096 * (p div 4096) < b" "big T1 M1 c (p div 4096) = 0"
        using assms(2) i by (auto simp: cleared_def split: if_splits)
      have "p mod 4096 \<noteq> 0" using b(2) that(1) mult_div_mod_eq [of 4096 p] by linarith
      then show ?thesis using b big_excludes [OF tree b(1)] v by (simp add: handed_def)
    qed
  qed
  have "[a..<e] = [a..<b] @ [b..<e]" using assms(4,5) by (metis le_add_diff_inverse upt_add_eq_append)
  moreover have "handed_range T1 M1 c b e = handed_range T M c b e" unfolding handed_range_def using h by (intro arg_cong [of _ _ concat]) simp
  ultimately have "handed_range T M c a e = handed_range T M c a b @ handed_range T1 M1 c b e" by (simp add: handed_range_def)
  then have "pages_freed M2 = pages_freed M @ handed_range T M c a e" using assms(2,3) by (simp add: cleared_def)
  moreover have "same_ctxs M M2" using assms(2,3) same_ctxs_trans by (auto simp: cleared_def)
  ultimately show ?thesis using assms(2-5) by (auto simp: cleared_def roots_same_def)
qed

lemma cleared_views:
  assumes "cleared ok live c a e T M T1 M1" "good_state ok live T2 M2" "views_same T1 M1 T2 M2" "same_ctxs M1 M2" "pages_freed M2 = pages_freed M1"
    "roots_same T1 T2"
  shows "cleared ok live c a e T M T2 M2"
  unfolding cleared_def
proof (intro conjI)
  show "same_ctxs M M2" using assms(1,4) same_ctxs_trans by (auto simp: cleared_def)
  show "\<forall>d p. p < 2 ^ 20 \<longrightarrow> vp T2 M2 d p = (if d = c \<and> a \<le> p \<and> p < e then 0 else vp T M d p)"
    using assms(1,3) by (simp add: cleared_def views_same_def vp_def)
qed (use assms in \<open>auto simp: cleared_def views_same_def roots_same_def\<close>)

lemma cleared_nothing:
  assumes "good_state ok live T M" "\<And>p. a \<le> p \<Longrightarrow> p < e \<Longrightarrow> vp T M c p = 0" "\<And>p. a \<le> p \<Longrightarrow> p < e \<Longrightarrow> big T M c (p div 4096) = 0"
  shows "cleared ok live c a e T M T M"
proof -
  have "handed T M c p = []" if "a \<le> p" "p < e" for p using assms(2,3) [OF that] by (simp add: handed_def)
  then have "handed_range T M c a e = []" by (intro handed_nil) auto
  then show ?thesis using assms(1) assms(2) assms(3) [of "4096 * _"] by (auto simp: cleared_def roots_same_def)
qed

section \<open>Level 3\<close>

lemma page_index_nat:
  assumes "unat va = 4096 * p"
  shows "ix1 va = p div 4096" "ix2 va = p div 64 mod 64" "ix3 va = p mod 64" "p < 2 ^ 20"
proof -
  have "unat va div 2 ^ 24 = unat va div 4096 div 4096" "unat va div 2 ^ 18 = unat va div 4096 div 64" "unat va div 2 ^ 12 = unat va div 4096"
    by (simp_all add: div_mult2_eq [symmetric])
  then show "ix1 va = p div 4096" "ix2 va = p div 64 mod 64" "ix3 va = p mod 64" using assms by (simp_all add: ix1_def ix2_def ix3_def)
  show "p < 2 ^ 20" using unat_lt_32 [of va] assms by simp
qed

lemma page_eq: "q div 4096 = p div 4096 \<and> q div 64 mod 64 = p div 64 mod 64 \<and> q mod 64 = p mod 64 \<longleftrightarrow> q = p" for p :: nat
proof
  assume a: "q div 4096 = p div 4096 \<and> q div 64 mod 64 = p div 64 mod 64 \<and> q mod 64 = p mod 64"
  have d: "n div 64 = 64 * (n div 4096) + n div 64 mod 64" for n :: nat
  proof -
    have "n div 4096 = n div 64 div 64" by (simp add: div_mult2_eq [symmetric])
    then show ?thesis by (simp only: mult_div_mod_eq)
  qed
  have "q div 64 = p div 64" using a d by metis
  then show "q = p" using a by (metis mult_div_mod_eq)
qed simp

lemma lvl3_entry_spec:
  assumes "good_alloc ok live A" "good_state ok live T M" "T (P3 c i j) \<noteq> 0" "unat va = 4096 * p" "p div 4096 = i" "p div 64 mod 64 = j"
  obtains g M1 M' where "release_lvl3_entry A (T (P3 c i j)) va M = Some (g, M')" "cleared ok live c p (Suc p) T M T M1"
    "if g then M' = tbl_freed A T M1 (P3 c i j) \<and> bare T M1 (P3 c i j) else M' = M1"
proof -
  let ?p = "P3 c i j" let ?t = "T ?p"
  have tree: "tbl_tree_ok (live (tbl_heap M)) T M" using assms(2) by (simp add: good_state_def)
  note ix = page_index_nat [OF assms(4)]
  define k where "k = p mod 64"
  have k: "ix3 va = k" "k < 64" "k < slots ?p" using ix(3) by (simp_all add: k_def)
  have T2: "T (P2 c i) \<noteq> 0" using tree assms(3) unfolding tbl_tree_ok_def parents_ok_def by metis
  have v: "vp T M c p = rd (ent ?t k) M" using assms(3,5,6) by (simp add: vp_def pte_def k_def)
  have b0: "big T M c i = 0" using T2 by (simp add: big_def)
  note d = release_lvl3_entry_def ent_offsets k(1) Let_def
  show ?thesis
  proof (cases "rd (ent ?t k) M = 0")
    case True
    have "cleared ok live c p (Suc p) T M T M"
    proof (rule cleared_nothing [OF assms(2)])
      fix q assume "p \<le> q" "q < Suc p"
      then have "q = p" by simp
      then show "vp T M c q = 0" "big T M c (q div 4096) = 0" using v True b0 assms(5) by simp_all
    qed
    then show ?thesis using that [of False M M] True by (simp add: d)
  next
    case False
    note f = foot_words [OF good_bd [OF assms(1,2)] tree_hdr [OF tree assms(3)]]
    let ?e = "rd (ent ?t k) M" let ?M1 = "wr (ent ?t k) 0 (page_out (SRMMU_PTE_TO_ADDR ?e) M)"
    have e2: "?e AND 2 \<noteq> 0" using tree_entry3 [OF tree assms(3) k(2)] False type_2 by blast
    have cnt: "unat (rd (?t - 8) M) = tbl_used ?t 64 M" using tree_entries [OF tree assms(3)] by simp
    have r: "rd (?t - 4) ?M1 = rd (?t - 4) M" "rd (?t - 8) ?M1 = rd (?t - 8) M" using f(5,6) [OF k(3)]
      by (auto simp: rd_def wr_def page_out_def)
    let ?n = "rd (?t - 8) M - 1" let ?M2 = "wr (?t - 8) ?n ?M1"
    have u0: "tbl_used ?t 64 M \<noteq> 0" using False k(2) used_zero by metis
    then have n0: "rd (?t - 8) M \<noteq> 0" using cnt by auto
    have dec: "mmu_dec_ref_cnt ?t 0x100 ?M1 = Some (?n, ?M2)"
      using ref_word_eq [OF tree assms(3) r(1)] r(2) n0 by (simp add: mmu_dec_ref_cnt_def Let_def)
    have e0: "rd (ent ?t k) ?M2 = 0" using f(6) [OF k(3)] by (simp add: rd_def wr_def page_out_def)
    have re: "rd (ent ?t l) ?M2 = rd (ent ?t l) M" if "l < 64" "l \<noteq> k" for l
      using f(6) [of l] f(7) [OF _ k(3), of l] that by (simp add: rd_def wr_def page_out_def)
    have u: "tbl_used ?t 64 M = Suc (tbl_used ?t 64 ?M2)" using used_insert [OF k(2) e0 False] re by simp
    have n1: "unat ?n = tbl_used ?t 64 ?M2" using cnt u n0 by (simp add: unat_minus_one)
    have cn: "unat (rd (?t - 8) ?M2) = tbl_used ?t 64 ?M2" using n1 by (simp add: rd_def wr_def)
    have st: "same_ctxs M ?M2" "tbl_heap ?M2 = tbl_heap M" by (simp_all add: wr_def same_ctxs_def page_out_def)
    have fr: "\<forall>x. x \<noteq> ent ?t k \<longrightarrow> x \<noteq> ?t - 8 \<longrightarrow> words ?M2 x = words M x" by (simp add: wr_def page_out_def)
    note lw = leaf_write [OF assms(1,2,3) k(2) disjI1 [OF refl] e0 cn fr st]
    have "vp T ?M2 c' q = (if c' = c \<and> p \<le> q \<and> q < Suc p then 0 else vp T M c' q)" for c' q
    proof -
      have "q div 4096 = i \<and> q div 64 mod 64 = j \<and> q mod 64 = k \<longleftrightarrow> q = p"
        using page_eq [of q p] assms(5,6) by (simp add: k_def)
      then show ?thesis using lw(3) [of "q mod 64" c' "q div 4096" "q div 64 mod 64"] by (auto simp: vp_def)
    qed
    moreover have "big T ?M2 c' i' = (if c' = c \<and> p \<le> 4096 * i' \<and> 4096 * i' < Suc p then 0 else big T M c' i')" if "i' < 256" for c' i'
    proof -
      have "i' = i" if "p \<le> 4096 * i'" "4096 * i' < Suc p"
      proof -
        have "p = 4096 * i'" using that by simp
        then show ?thesis using assms(5) by simp
      qed
      then show ?thesis using lw(2) [OF that] b0 by auto
    qed
    moreover have "handed_range T M c p (Suc p) = [SRMMU_PTE_TO_ADDR ?e]" using v False b0 assms(5) by (simp add: handed_range_def handed_def)
    ultimately have cl: "cleared ok live c p (Suc p) T M T ?M2"
      using lw(1) st by (simp add: cleared_def roots_same_def wr_def page_out_def)
    define N n where N: "N = ?M2" and n: "n = ?n"
    note dec' = dec [folded N n] and cl' = cl [folded N]
    show ?thesis
    proof (cases "n = 0")
      case True
      have "tbl_tree_ok (live (tbl_heap N)) T N" using lw(1) by (simp add: good_state_def N)
      note fe = free_tbl_eq [OF this assms(3)]
      have "release_lvl3_entry A ?t va M = Some (True, tbl_freed A T N ?p)"
        using False e2 dec' True fe by (simp add: d)
      moreover have "bare T N ?p" using True n1 used_zero [of ?t 64 N] assms(3) by (simp add: bare_def N n)
      ultimately show ?thesis using that [of True "tbl_freed A T N ?p" N] cl' by simp
    next
      case nz: False
      have "release_lvl3_entry A ?t va M = Some (False, N)" using False e2 dec' nz by (simp add: d)
      then show ?thesis using that [of False N N] cl' by simp
    qed
  qed
qed

lemma page_table:
  fixes p q :: nat
  assumes "64 * (p div 64) \<le> q" "q < 64 * (p div 64) + 64"
  shows "q div 4096 = p div 4096" "q div 64 mod 64 = p div 64 mod 64"
proof -
  have "q div 64 = p div 64" using assms by (intro div_nat_eqI) (simp_all add: mult.commute)
  moreover have "n div 4096 = n div 64 div 64" for n :: nat by (simp add: div_mult2_eq [symmetric])
  ultimately show "q div 4096 = p div 4096" "q div 64 mod 64 = p div 64 mod 64" by simp_all
qed

lemma bare_pages:
  assumes "good_state ok live T M" "bare T M (P3 c (p div 4096) (p div 64 mod 64))" "64 * (p div 64) \<le> a" "e \<le> 64 * (p div 64) + 64"
  shows "cleared ok live c a e T M T M"
proof (rule cleared_nothing [OF assms(1)])
  fix q assume q: "a \<le> q" "q < e"
  note t = page_table [of p q]
  show "vp T M c q = 0" using assms(2-4) q t by (simp add: vp_def pte_def bare_def)
  have "tbl_tree_ok (live (tbl_heap M)) T M" using assms(1) by (simp add: good_state_def)
  then have "T (P2 c (p div 4096)) \<noteq> 0" using assms(2) unfolding bare_def tbl_tree_ok_def parents_ok_def by metis
  then show "big T M c (q div 4096) = 0" using assms(3,4) q t by (simp add: big_def)
qed

lemma unat_plus:
  "unat va + n < 2 ^ 32 \<Longrightarrow> unat (va + word_of_nat n) = unat va + n" for va :: u32
  by (subst unat_add_lem [THEN iffD1]) (simp_all add: unat_of_nat)

lemma lvl3_loop_spec:
  assumes "good_alloc ok live A" "good_state ok live T M" "T (P3 c i j) \<noteq> 0" "unat va = 4096 * p" "unat ve = 4096 * e"
    "p div 4096 = i" "p div 64 mod 64 = j" "p \<le> e" "e \<le> 64 * (p div 64) + 64"
  shows "\<exists>r M1. release_lvl3_loop A (T (P3 c i j)) va ve M = Some (r, if r = 0 then tbl_freed A T M1 (P3 c i j) else M1)
     \<and> (r = 0 \<and> bare T M1 (P3 c i j) \<or> r = 1) \<and> cleared ok live c p e T M T M1"
  using assms(2-)
proof (induction "e - p" arbitrary: p va M)
  case 0
  then have "\<not> va < ve" by (simp add: word_less_nat_alt)
  then have "release_lvl3_loop A (T (P3 c i j)) va ve M = Some (1, M)" by (simp add: release_lvl3_loop.simps)
  then show ?case using cleared_refl [OF 0(2), of e p c] 0 by auto
next
  case (Suc n)
  let ?t = "T (P3 c i j)"
  have lt: "va < ve" "p < e" using Suc.hyps(2) Suc.prems(3,4) by (simp_all add: word_less_nat_alt)
  have e20: "e < 2 ^ 20" by (rule page_index_nat(4) [OF Suc.prems(4)])
  obtain g M1 M' where s: "release_lvl3_entry A ?t va M = Some (g, M')" "cleared ok live c p (Suc p) T M T M1"
    "if g then M' = tbl_freed A T M1 (P3 c i j) \<and> bare T M1 (P3 c i j) else M' = M1"
    by (rule lvl3_entry_spec [OF assms(1) Suc.prems(1-3,5,6)])
  have g1: "good_state ok live T M1" using s(2) by (simp add: cleared_def)
  note st = release_lvl3_loop.simps [of A ?t va ve M]
  show ?case
  proof (cases g)
    case True
    have "cleared ok live c (Suc p) e T M1 T M1"
      by (rule bare_pages [OF g1, of c p]) (use s(3) True Suc.prems(5-8) in auto)
    then have "cleared ok live c p e T M T M1" using cleared_trans [OF Suc.prems(1) s(2)] lt(2) e20 by simp
    then show ?thesis using st s True lt(1) by (intro exI [of _ 0] exI [of _ M1]) simp
  next
    case False
    have u: "unat (va + 0x1000) = 4096 * Suc p" using unat_plus [of va 4096] Suc.prems(3,4) lt(2) unat_lt_32 [of ve] by simp
    have "\<exists>r M2. release_lvl3_loop A ?t (va + 0x1000) ve M1 = Some (r, if r = 0 then tbl_freed A T M2 (P3 c i j) else M2)
       \<and> (r = 0 \<and> bare T M2 (P3 c i j) \<or> r = 1) \<and> cleared ok live c (Suc p) e T M1 T M2"
    proof (cases "Suc p = e")
      case True
      then have "\<not> va + 0x1000 < ve" using u Suc.prems(4) by (simp add: word_less_nat_alt)
      then have "release_lvl3_loop A ?t (va + 0x1000) ve M1 = Some (1, M1)" by (simp add: release_lvl3_loop.simps [of A ?t "va + 0x1000"])
      then show ?thesis using cleared_refl [OF g1, of e "Suc p" c] True by auto
    next
      case ne: False
      have "Suc p div 64 = p div 64" using ne lt(2) Suc.prems(8) by (intro div_nat_eqI) (simp_all add: mult.commute)
      then show ?thesis using page_table [of p "Suc p"] ne lt(2) Suc.prems(5-8) Suc.hyps(2)
        by (intro Suc.hyps(1) g1 Suc.prems(2,4) u) simp_all
    qed
    then obtain r M2 where "release_lvl3_loop A ?t (va + 0x1000) ve M1 = Some (r, if r = 0 then tbl_freed A T M2 (P3 c i j) else M2)"
       "r = 0 \<and> bare T M2 (P3 c i j) \<or> r = 1" "cleared ok live c (Suc p) e T M1 T M2" by blast
    moreover have "cleared ok live c p e T M T M2" using cleared_trans [OF Suc.prems(1) s(2) calculation(3)] lt(2) e20 by simp
    ultimately show ?thesis using st s False lt(1) by (intro exI [of _ r] exI [of _ M2]) simp
  qed
qed

end
