(* ===== verification/Srmmu_Release.thy ===== *)
theory Srmmu_Release
  imports Srmmu_Free
begin

text \<open>
  Release of pages, continued: the loops over level 2 and level 1 tables.
\<close>

section \<open>Boundaries of tables\<close>

lemma floor_page: "4096 * p div (4096 * s) = p div s" for p s :: nat
  by (simp add: div_mult2_eq)

lemma limit_end_page:
  assumes "unat va = 4096 * p" "unat ve = 4096 * e" "s = 64 \<or> s = 4096" "s * (p div s) + 2 * s \<le> 2 ^ 20"
  shows "unat (limit_end va ve (of_nat (4096 * s))) = 4096 * (if e \<le> s * (p div s) + s then e else s * (p div s) + s)"
proof -
  obtain k where k: "4096 * s = 2 ^ k" "k < 32" using assms(3) by (auto intro: that [of 18] that [of 24])
  have p: "p < s * (p div s) + s" using mult_div_mod_eq [of s p] mod_less_divisor [of s p] assms(3) by linarith
  have le: "4096 * p + 1 + 4096 * s \<le> 2 ^ 32" using p assms(4) by simp
  then have lt: "4096 * p + 1 < 2 ^ 32" using assms(3) by auto
  have u1: "unat (va + 1) = 4096 * p + 1" using unat_plus [of va 1] assms(1) lt by simp
  have sz: "of_nat (4096 * s) = (2 ^ k :: u32)" using k(1) by simp
  have "unat (align_up (va + 1) (2 ^ k)) = (4096 * p + 1 + 2 ^ k - 1) div 2 ^ k * 2 ^ k"
    using unat_align_pow [of "va + 1" k] u1 k le by simp
  also have "\<dots> = (4096 * p + 4096 * s) div (4096 * s) * (4096 * s)" unfolding k(1) [symmetric] by simp
  also have "(4096 * p + 4096 * s) div (4096 * s) = p div s + 1"
    unfolding distrib_left [symmetric] floor_page using assms(3) by auto
  also have "(p div s + 1) * (4096 * s) = 4096 * (s * (p div s) + s)" by (simp only: algebra_simps)
  finally have a: "unat (align_up (va + 1) (2 ^ k)) = 4096 * (s * (p div s) + s)" .
  show ?thesis unfolding limit_end_def sz using a assms(2) by (simp add: word_less_nat_alt)
qed

lemma next_table_page:
  assumes "unat va = 4096 * p" "s = 64 \<or> s = 4096" "s * (p div s) + 2 * s \<le> 2 ^ 20"
  shows "unat (align_up (va - of_nat (4096 * s) + 1) (of_nat (4096 * s)) + of_nat (4096 * s)) = 4096 * (s * (p div s) + s)"
proof -
  obtain k where k: "4096 * s = 2 ^ k" "k < 32" using assms(2) by (auto intro: that [of 18] that [of 24])
  have sz: "of_nat (4096 * s) = (2 ^ k :: u32)" using k(1) by simp
  have m: "(2 ^ k - 1 :: u32) = mask k" by (simp add: mask_eq_exp_minus_1)
  have "va - 2 ^ k + 1 + (2 ^ k - 1) = va" by simp
  then have "align_up (va - 2 ^ k + 1) (2 ^ k) = va AND NOT (mask k)" by (simp only: align_up_def align_mask_def m)
  also have "\<dots> = va - take_bit k va" by (rule and_not_mask_eq)
  finally have a: "align_up (va - 2 ^ k + 1) (2 ^ k) = va - take_bit k va" .
  have t: "unat (take_bit k va) = unat va mod 2 ^ k" by (rule unat_take)
  then have "take_bit k va \<le> va" by (simp add: word_le_nat_alt)
  then have "unat (va - take_bit k va) = unat va - unat va mod 2 ^ k" using t by (simp add: unat_sub)
  also have "\<dots> = 4096 * (s * (p div s))" 
    unfolding k(1) [symmetric] assms(1) mult_mod_right [symmetric] diff_mult_distrib2 [symmetric] by (simp only: minus_mod_eq_mult_div)
  finally have u: "unat (va - take_bit k va) = 4096 * (s * (p div s))" .
  have "unat (va - take_bit k va + of_nat (4096 * s)) = 4096 * (s * (p div s)) + 4096 * s"
    using unat_plus [of "va - take_bit k va" "4096 * s"] u assms(2,3) by auto
  then show ?thesis using a sz by simp
qed

section \<open>Level 2\<close>

lemma unlink_lvl3:
  assumes "good_alloc ok live A" "good_state ok live T M" "T (P2 c i) \<noteq> 0" "j < 64" "bare T M (P3 c i j)"
  obtains n M' where
    "mmu_dec_ref_cnt (T (P2 c i)) 0x100 (wr (ent (T (P2 c i)) j) 0 (tbl_freed A T M (P3 c i j))) = Some (n, M')"
    "good_state ok live (T(P3 c i j := 0)) M'" "views_same T M (T(P3 c i j := 0)) M'" "same_ctxs M M'" "pages_freed M' = pages_freed M"
    "n = 0 \<longrightarrow> bare (T(P3 c i j := 0)) M' (P2 c i)"
proof -
  let ?p = "P2 c i" let ?t = "T ?p" let ?q = "kid ?p j"
  have tree: "tbl_tree_ok (live (tbl_heap M)) T M" using assms(2) by (simp add: good_state_def)
  have j: "j < slots ?p" using assms(4) by simp
  note f = foot_words [OF good_bd [OF assms(1,2)] tree_hdr [OF tree assms(3)]]
  define M1 where "M1 = wr (ent ?t j) 0 (tbl_freed A T M ?q)"
  have q: "T ?q \<noteq> 0" using assms(5) by (simp add: bare_def)
  have r: "rd (?t - 4) M1 = rd (?t - 4) M" "rd (?t - 8) M1 = rd (?t - 8) M" using f(5,6) [OF j]
    by (auto simp: rd_def wr_def tbl_freed_def M1_def)
  have cnt: "unat (rd (?t - 8) M) = tbl_used ?t 64 M" using tree_entries [OF tree assms(3)] by simp
  have e: "rd (ent ?t j) M \<noteq> 0"
    using tree_entry2 [OF tree assms(3,4)] q ptd_roundtrip(3) [OF tree_aligned [OF tree q]] by simp
  define n M2 where n: "n = rd (?t - 8) M - 1" and M2: "M2 = wr (?t - 8) n M1"
  have n0: "rd (?t - 8) M \<noteq> 0" using cnt e assms(4) used_zero [of ?t 64 M] by auto
  have dec: "mmu_dec_ref_cnt ?t 0x100 M1 = Some (n, M2)"
    using ref_word_eq [OF tree assms(3) r(1)] r(2) n0 by (simp add: mmu_dec_ref_cnt_def Let_def n M2)
  have w: "\<forall>x. x \<noteq> ent ?t j \<longrightarrow> x \<noteq> ?t - 8 \<longrightarrow> words M2 x = words M x" by (simp add: wr_def tbl_freed_def M1_def M2)
  have e0: "rd (ent ?t j) M2 = 0" using f(6) [OF j] by (simp add: rd_def wr_def M1_def M2)
  have un: "Suc (unat n) = unat (rd (?t - 8) M)" using n0 unat_gt_0 [of "rd (?t - 8) M"] by (simp add: n unat_minus_one)
  have sc: "same_ctxs M M2" "tbl_heap M2 = ta_free A (blk T M ?q) (tbl_heap M)" "pages_freed M2 = pages_freed M"
    by (simp_all add: wr_def tbl_freed_def same_ctxs_def M1_def M2)
  have u2: "\<forall>c' i'. ?p = P2 c' i' \<longrightarrow> Suc (unat (rd (?t - 8) M2)) = unat (rd (?t - 8) M)" using un by (simp add: rd_def wr_def M2)
  have bq: "bare T M ?q" using assms(5) by simp
  note dt = detach [OF assms(1,2) _ assms(3) j bq w e0 u2 sc(1,2), simplified]
  have re: "rd (ent ?t l) M2 = rd (ent ?t l) M" if "l < 64" "l \<noteq> j" for l
    using w f(6) [of l] f(7) [OF _ j, of l] that by (simp add: rd_def)
  have "tbl_used ?t 64 M = Suc (tbl_used ?t 64 M2)" using used_insert [OF assms(4) e0 e] re by simp
  then have "n = 0 \<longrightarrow> bare (T(P3 c i j := 0)) M2 ?p" using un cnt used_zero [of ?t 64 M2] assms(3) by (auto simp: bare_def)
  from that [OF _ dt sc(1,3) this] show ?thesis using dec by (simp add: M1_def)
qed

text \<open>The loop over a level 2 table.  It begins at a table of level 3, or at the boundary of one.\<close>

definition lvl3_start :: "ttree \<Rightarrow> nat \<Rightarrow> nat \<Rightarrow> bool" where
  "lvl3_start T c p \<longleftrightarrow> p mod 64 = 0 \<or> T (P3 c (p div 4096) (p div 64 mod 64)) \<noteq> 0"

lemma no_lvl3_pages:
  assumes "good_state ok live T M" "T (P2 c (p div 4096)) \<noteq> 0" "T (P3 c (p div 4096) (p div 64 mod 64)) = 0" "64 * (p div 64) \<le> a" "e \<le> 64 * (p div 64) + 64"
  shows "cleared ok live c a e T M T M"
proof (rule cleared_nothing [OF assms(1)])
  fix q assume "a \<le> q" "q < e"
  then have q: "q div 4096 = p div 4096" "q div 64 mod 64 = p div 64 mod 64" using page_table [of p q] assms(4,5) by simp_all
  show "vp T M c q = 0" "big T M c (q div 4096) = 0" using assms(2,3) by (simp_all add: vp_def pte_def big_def q)
qed

lemma bare_lvl2_pages:
  assumes "good_state ok live T M" "bare T M (P2 c i)" "4096 * i \<le> a" "e \<le> 4096 * i + 4096"
  shows "cleared ok live c a e T M T M"
proof (rule cleared_nothing [OF assms(1)])
  fix q assume "a \<le> q" "q < e"
  then have q: "q div 4096 = i" using assms(3,4) by (intro div_nat_eqI) (simp_all add: mult.commute)
  have tree: "tbl_tree_ok (live (tbl_heap M)) T M" using assms(1) by (simp add: good_state_def)
  have "T (P3 c i (q div 64 mod 64)) = 0" by (rule bare_kids [OF tree assms(2)]) simp
  then show "vp T M c q = 0" using q by (simp add: vp_def pte_def)
  show "big T M c (q div 4096) = 0" using assms(2) q by (simp add: big_def bare_def)
qed

lemma lvl3_pages_spec:
  assumes "good_alloc ok live A" "good_state ok live T M" "ctx_at T ctx c" "T (P3 c i j) \<noteq> 0" "unat va = 4096 * p" "unat ve = 4096 * e"
    "p div 4096 = i" "p div 64 mod 64 = j" "p < e" "e \<le> 2 ^ 20 - 4096"
  defines "b \<equiv> (if e \<le> 64 * (p div 64) + 64 then e else 64 * (p div 64) + 64)"
  shows "\<exists>r M1. srmmu_release_lvl3_pages A ctx va ve M = Some (r, if r = 0 then tbl_freed A T M1 (P3 c i j) else M1)
     \<and> (r = 0 \<and> bare T M1 (P3 c i j) \<or> r = 1) \<and> cleared ok live c p b T M T M1"
proof -
  have tree: "tbl_tree_ok (live (tbl_heap M)) T M" using assms(2) by (simp add: good_state_def)
  have "64 * (p div 64) + 2 * 64 \<le> 2 ^ 20" using assms(9,10) mult_div_mod_eq [of 64 p] by simp
  then have l: "unat (limit_end va ve 0x40000) = 4096 * b" using limit_end_page [OF assms(5,6), of 64] by (simp add: b_def)
  have p: "p < 64 * (p div 64) + 64" using mult_div_mod_eq [of 64 p] mod_less_divisor [of 64 p] by linarith
  then have "p \<le> b" "b \<le> 64 * (p div 64) + 64" using assms(9) by (simp_all add: b_def)
  from lvl3_loop_spec [OF assms(1,2,4,5) l assms(7,8) this]
  show ?thesis using find_lvl3 [OF tree assms(3), of va] page_index_nat [OF assms(5)] assms(4,7,8)
    by (simp add: srmmu_release_lvl3_pages_def Let_def)
qed

definition lvl2_done :: "('s \<Rightarrow> bool) \<Rightarrow> ('s \<Rightarrow> u32 \<Rightarrow> nat option) \<Rightarrow> 's tbl_alloc \<Rightarrow> nat \<Rightarrow> nat \<Rightarrow> nat \<Rightarrow> nat
    \<Rightarrow> ttree \<Rightarrow> 's mmu \<Rightarrow> (int \<times> 's mmu) option \<Rightarrow> bool" where
  "lvl2_done ok live A c i p e T M R \<longleftrightarrow> (\<exists>r T' M'. R = Some (r, if r = 0 then tbl_freed A T' M' (P2 c i) else M')
     \<and> (r = 0 \<and> bare T' M' (P2 c i) \<or> r = 1) \<and> cleared ok live c p e T M T' M' \<and> T' (P2 c i) = T (P2 c i))"

lemma lvl2_done_trans:
  assumes "good_state ok live T M" "cleared ok live c p b T M T1 M1" "T1 (P2 c i) = T (P2 c i)" "p \<le> b" "b \<le> e" "e \<le> 2 ^ 20"
    "lvl2_done ok live A c i b e T1 M1 R"
  shows "lvl2_done ok live A c i p e T M R"
  using assms(7) cleared_trans [OF assms(1,2) _ assms(4-6)] assms(3) unfolding lvl2_done_def by metis

lemma lvl2_step:
  assumes "good_alloc ok live A" "good_state ok live T M" "ctx_at T ctx c" "T (P2 c i) \<noteq> 0" "unat va = 4096 * p" "unat ve = 4096 * e"
    "p div 4096 = i" "p < e" "e \<le> 4096 * i + 4096" "e \<le> 2 ^ 20 - 4096" "T (P3 c i (p div 64 mod 64)) \<noteq> 0"
    "\<And>va' T1 M1. good_state ok live T1 M1 \<Longrightarrow> T1 (P2 c i) = T (P2 c i) \<Longrightarrow> ctx_at T1 ctx c \<Longrightarrow> unat va' = 4096 * (64 * (p div 64) + 64)
       \<Longrightarrow> lvl2_done ok live A c i (64 * (p div 64) + 64) e T1 M1 (release_lvl2_loop A ctx (T (P2 c i)) va' ve M1)"
  shows "lvl2_done ok live A c i p e T M (release_lvl2_loop A ctx (T (P2 c i)) va ve M)"
proof -
  define j where "j = p div 64 mod 64"
  define n where "n = 64 * (p div 64) + 64"
  define b where "b = (if e \<le> n then e else n)"
  let ?t = "T (P2 c i)"
  have tree: "tbl_tree_ok (live (tbl_heap M)) T M" using assms(2) by (simp add: good_state_def)
  have j: "j < 64" by (simp add: j_def)
  have pe: "p \<le> b" "b \<le> e" "e \<le> 2 ^ 20" using assms(8,10) mult_div_mod_eq [of 64 p] mod_less_divisor [of 64 p]
    by (auto simp: b_def n_def)
  have lt: "va < ve" using assms(5,6,8) by (simp add: word_less_nat_alt)
  note ix = page_index_nat [OF assms(5)]
  have e: "rd (ent ?t j) M \<noteq> 0"
    using tree_entry2 [OF tree assms(4) j] assms(11) ptd_roundtrip(3) [OF tree_aligned [OF tree assms(11)]] by (simp add: j_def)
  obtain r M1 where s: "srmmu_release_lvl3_pages A ctx va ve M = Some (r, if r = 0 then tbl_freed A T M1 (P3 c i j) else M1)"
     "r = 0 \<and> bare T M1 (P3 c i j) \<or> r = 1" "cleared ok live c p b T M T M1"
    using lvl3_pages_spec [OF assms(1-3) assms(11) assms(5,6,7) refl assms(8,10)] unfolding b_def n_def j_def by blast
  have g1: "good_state ok live T M1" "roots_same T T" using s(3) by (simp_all add: cleared_def)
  define va' where "va' = align_up (va - 0x40000 + 1) 0x40000 + 0x40000"
  have "4096 * (64 * (p div 64) + 64) < 2 ^ 32" using assms(8,10) mult_div_mod_eq [of 64 p] by simp
  then have va': "unat va' = 4096 * n" using next_table_page [OF assms(5), of 64] by (simp add: va'_def n_def)
  have va'_eq: "align_up (va - 262143) 262144 + 262144 = va'" by (simp add: va'_def)
  note st = va'_eq release_lvl2_loop.simps [of A ctx ?t va ve M] ent_offsets Let_def
  have rest: "lvl2_done ok live A c i b e T1 N (release_lvl2_loop A ctx ?t va' ve N)"
    if "good_state ok live T1 N" "T1 (P2 c i) = T (P2 c i)" "ctx_at T1 ctx c" for T1 N
  proof (cases "e \<le> n")
    case True
    then have "\<not> va' < ve" using va' assms(6) by (simp add: word_less_nat_alt)
    then have "release_lvl2_loop A ctx ?t va' ve N = Some (1, N)" by (simp add: release_lvl2_loop.simps [of A ctx ?t va'])
    then show ?thesis using cleared_refl [OF that(1), of e b c] True by (auto simp: lvl2_done_def b_def)
  next
    case False
    then show ?thesis using assms(12) [OF that, of va'] va' by (simp add: b_def n_def)
  qed
  show ?thesis
  proof (cases "r = 0")
    case False
    have "release_lvl2_loop A ctx ?t va ve M = release_lvl2_loop A ctx ?t va' ve M1"
      using lt e s(1) False by (simp add: st ix(2) j_def [symmetric])
    then show ?thesis using lvl2_done_trans [OF assms(2) s(3) refl pe rest [OF g1(1) refl assms(3)]] by simp
  next
    case True
    let ?T = "T(P3 c i j := 0)"
    have br: "bare T M1 (P3 c i j)" using s(2) True by simp
    obtain m M2 where u: "mmu_dec_ref_cnt ?t 0x100 (wr (ent ?t j) 0 (tbl_freed A T M1 (P3 c i j))) = Some (m, M2)"
      "good_state ok live ?T M2" "views_same T M1 ?T M2" "same_ctxs M1 M2" "pages_freed M2 = pages_freed M1" "m = 0 \<longrightarrow> bare ?T M2 (P2 c i)"
      by (rule unlink_lvl3 [OF assms(1) g1(1) assms(4) j br])
    have cl: "cleared ok live c p b T M ?T M2" by (rule cleared_views [OF s(3) u(2-5)]) (simp add: roots_same_def)
    show ?thesis
    proof (cases "m = 0")
      case nz: False
      have "release_lvl2_loop A ctx ?t va ve M = release_lvl2_loop A ctx ?t va' ve M2"
        using lt e s(1) True u(1) nz by (simp add: st ix(2) j_def [symmetric])
      moreover have "ctx_at ?T ctx c" using assms(3) by (simp add: ctx_at_def)
      ultimately show ?thesis using lvl2_done_trans [OF assms(2) cl _ pe rest [OF u(2)]] by simp
    next
      case z: True
      have "tbl_tree_ok (live (tbl_heap M2)) ?T M2" using u(2) by (simp add: good_state_def)
      from free_tbl_eq [OF this, of "P2 c i"] have "mmu_free_tbl A ?t 0x100 M2 = Some (tbl_freed A ?T M2 (P2 c i))" using assms(4) by simp
      then have R: "release_lvl2_loop A ctx ?t va ve M = Some (0, tbl_freed A ?T M2 (P2 c i))"
        using lt e s(1) True u(1) z by (simp add: st ix(2) j_def [symmetric])
      have "4096 * i \<le> p" using assms(7) mult_div_mod_eq [of 4096 p] by linarith
      then have "cleared ok live c b e ?T M2 ?T M2" using pe(1) by (intro bare_lvl2_pages [OF u(2) u(6) [rule_format, OF z]] assms(9)) simp
      then have "lvl2_done ok live A c i b e ?T M2 (Some (0, tbl_freed A ?T M2 (P2 c i)))"
        using u(6) [rule_format, OF z] unfolding lvl2_done_def by (intro exI [of _ 0] exI [of _ ?T] exI [of _ M2]) simp
      then show ?thesis using lvl2_done_trans [OF assms(2) cl _ pe] R by simp
    qed
  qed
qed

lemma lvl2_loop_spec:
  assumes "good_alloc ok live A" "good_state ok live T M" "ctx_at T ctx c" "T (P2 c i) \<noteq> 0" "unat va = 4096 * p" "unat ve = 4096 * e"
    "p < e \<Longrightarrow> p div 4096 = i" "e \<le> 4096 * i + 4096" "e \<le> 2 ^ 20 - 4096" "p < e \<Longrightarrow> lvl3_start T c p"
  shows "lvl2_done ok live A c i p e T M (release_lvl2_loop A ctx (T (P2 c i)) va ve M)"
  using assms(2-)
proof (induction "e - p" arbitrary: p va T M rule: less_induct)
  case less
  note st = release_lvl2_loop.simps [of A ctx "T (P2 c i)" va ve M]
  show ?case
  proof (cases "p < e")
    case False
    then have "\<not> va < ve" using less.prems(4,5) by (simp add: word_less_nat_alt)
    then have "release_lvl2_loop A ctx (T (P2 c i)) va ve M = Some (1, M)" using st by simp
    then show ?thesis using cleared_refl [OF less.prems(1), of e p c] False by (auto simp: lvl2_done_def)
  next
    case True
    define n where "n = 64 * (p div 64) + 64"
    have n: "p < n" using mult_div_mod_eq [of 64 p] mod_less_divisor [of 64 p] unfolding n_def by linarith
    have i: "p div 4096 = i" using less.prems(6) True .
    have next_ok: "n div 4096 = i" "lvl3_start T' c n" if "n < e" for T'
    proof -
      have "4096 * i \<le> p" using i mult_div_mod_eq [of 4096 p] by linarith
      then show "n div 4096 = i" using n that less.prems(7) by (intro div_nat_eqI) (simp_all add: mult.commute)
      show "lvl3_start T' c n" by (simp add: lvl3_start_def n_def)
    qed
    have IH: "lvl2_done ok live A c i n e T1 M1 (release_lvl2_loop A ctx (T1 (P2 c i)) va' ve M1)"
      if "good_state ok live T1 M1" "T1 (P2 c i) = T (P2 c i)" "ctx_at T1 ctx c" "unat va' = 4096 * n" for va' T1 M1
      by (rule less.hyps) (use that less.prems n True next_ok in auto)
    show ?thesis
    proof (cases "T (P3 c i (p div 64 mod 64)) = 0")
      case f: False
      show ?thesis
        by (rule lvl2_step [OF assms(1) less.prems(1-5) i True less.prems(7,8) f]) (use IH in \<open>simp add: n_def\<close>)
    next
      case z: True
      have tree: "tbl_tree_ok (live (tbl_heap M)) T M" using less.prems(1) by (simp add: good_state_def)
      have m: "p mod 64 = 0" using less.prems(9) True z i by (simp add: lvl3_start_def)
      then have np: "n = p + 64" using mult_div_mod_eq [of 64 p] by (simp add: n_def)
      have "rd (ent (T (P2 c i)) (p div 64 mod 64)) M = 0" using tree_entry2 [OF tree less.prems(3)] z by simp
      then have R: "release_lvl2_loop A ctx (T (P2 c i)) va ve M = release_lvl2_loop A ctx (T (P2 c i)) (va + 0x40000) ve M"
        using True less.prems(4,5) page_index_nat(2) [OF less.prems(4)] by (simp add: st ent_offsets Let_def word_less_nat_alt)
      have u: "unat (va + 0x40000) = 4096 * n" using unat_plus [where va = va and n = "0x40000"] less.prems(4,8) True np by simp
      define b where "b = (if e \<le> n then e else n)"
      have b: "p \<le> b" "b \<le> e" "e \<le> 2 ^ 20" using n True less.prems(8) by (auto simp: b_def)
      have cl: "cleared ok live c p b T M T M"
        by (rule no_lvl3_pages [OF less.prems(1), of c p]) (use less.prems(3) i z m n in \<open>auto simp: b_def n_def\<close>)
      show ?thesis
      proof (cases "e \<le> n")
        case True
        then have "\<not> va + 0x40000 < ve" using u less.prems(5) by (simp add: word_less_nat_alt)
        then have "release_lvl2_loop A ctx (T (P2 c i)) (va + 0x40000) ve M = Some (1, M)" by (simp add: release_lvl2_loop.simps [of A ctx "T (P2 c i)" "va + 0x40000"])
        then show ?thesis using cl True R by (auto simp: lvl2_done_def b_def)
      next
        case False
        then show ?thesis
          using lvl2_done_trans [OF less.prems(1) cl refl b] IH [OF less.prems(1) refl less.prems(2) u] R by (simp add: b_def)
      qed
    qed
  qed
qed

section \<open>Level 1\<close>

lemma big_write:
  assumes "good_alloc ok live A" "good_state ok live T M" "T (P1 c) \<noteq> 0" "i < 256" "T (P2 c i) = 0" "e = 0 \<or> e AND 3 = 2"
    "words M' = (words M)(ent (T (P1 c)) i := e)" "same_ctxs M M'" "tbl_heap M' = tbl_heap M"
  shows "good_state ok live T M'" "i' < 256 \<Longrightarrow> big T M' c' i' = (if c' = c \<and> i' = i then e else big T M c' i')"
    "k' < 64 \<Longrightarrow> pte T M' c' i1 j' k' = pte T M c' i1 j' k'"
proof -
  let ?p = "P1 c"
  have tree: "tbl_tree_ok (live (tbl_heap M)) T M" and bd: "blocks_disjoint (live (tbl_heap M))"
    using assms(2) good_bd [OF assms(1,2)] by (simp_all add: good_state_def)
  have i: "i < slots ?p" using assms(4) by simp
  note f = foot_words [OF bd tree_hdr [OF tree assms(3)]]
  have w: "words M' x = words M x" if "x \<noteq> ent (T ?p) i" for x using assms(7) that by simp
  have out: "words M' x = words M x" if "x \<notin> foot (slots ?p) (T ?p)" for x using that f(3) [OF i] by (intro w) auto
  have e: "rd (ent (T ?p) i) M' = e" using assms(7) by (simp add: rd_def)
  have re: "rd (ent (T ?p) l) M' = rd (ent (T ?p) l) M" if "l < 256" "l \<noteq> i" for l
    unfolding rd_def using that f(7) [OF _ i, of l] by (intro w) auto
  have "tbl_tree_ok (live (tbl_heap M')) T M'" unfolding assms(9)
  proof (rule tree_ok_write [OF bd tree assms(3) out assms(8)])
    show "rd (T ?p - 4) M' = rd (T ?p - 4) M" unfolding rd_def using f(5) [OF i] by (intro w) auto
    have "let e = rd (ent (T ?p) l) M' in if T (P2 c l) \<noteq> 0 then e = SRMMU_PTD (T (P2 c l)) else e = 0 \<or> e AND 3 = 2" if "l < 256" for l
      using tree_entry1 [OF tree assms(3) that] re [OF that] e assms(5,6) by (cases "l = i") (auto simp: Let_def)
    then show "entries_ok T M' ?p" by simp
  qed simp_all
  then show "good_state ok live T M'" using assms(2,9) by (simp add: good_state_def)
  have other: "rd (ent (T r) l) M' = rd (ent (T r) l) M" if "T r \<noteq> 0" "r \<noteq> ?p" "l < slots r" for r l
    by (rule entry_same [OF bd tree that(1,3)]) (use out feet_disjoint [OF bd tree that(2,1) assms(3)] in blast)
  show "i' < 256 \<Longrightarrow> big T M' c' i' = (if c' = c \<and> i' = i then e else big T M c' i')"
    using other [of "P1 c'" i'] re [of i'] e assms(3,5) by (auto simp: big_def)
  show "k' < 64 \<Longrightarrow> pte T M' c' i1 j' k' = pte T M c' i1 j' k'" using other [of "P3 c' i1 j'" k'] by (simp add: pte_def)
qed

lemma unlink_lvl2:
  assumes "good_alloc ok live A" "good_state ok live T M" "T (P1 c) \<noteq> 0" "i < 256" "bare T M (P2 c i)"
  defines "M' \<equiv> wr (ent (T (P1 c)) i) 0 (tbl_freed A T M (P2 c i))"
  shows "good_state ok live (T(P2 c i := 0)) M'" "views_same T M (T(P2 c i := 0)) M'" "same_ctxs M M'" "pages_freed M' = pages_freed M"
proof -
  let ?q = "kid (P1 c) i"
  have bq: "bare T M ?q" and i: "i < slots (P1 c)" using assms(4,5) by simp_all
  have w: "\<forall>x. x \<noteq> ent (T (P1 c)) i \<longrightarrow> x \<noteq> T (P1 c) - 8 \<longrightarrow> words M' x = words M x" by (simp add: M'_def wr_def tbl_freed_def)
  have e: "rd (ent (T (P1 c)) i) M' = 0" by (simp add: M'_def rd_def wr_def)
  have n: "\<forall>c' i'. P1 c = P2 c' i' \<longrightarrow> Suc (unat (rd (T (P1 c) - 8) M')) = unat (rd (T (P1 c) - 8) M)" by simp
  show s: "same_ctxs M M'" "pages_freed M' = pages_freed M" by (simp_all add: M'_def wr_def tbl_freed_def same_ctxs_def)
  have h: "tbl_heap M' = ta_free A (blk T M ?q) (tbl_heap M)" by (simp add: M'_def wr_def tbl_freed_def)
  show "good_state ok live (T(P2 c i := 0)) M'" "views_same T M (T(P2 c i := 0)) M'"
    using detach [OF assms(1,2) _ assms(3) i bq w e n s(1) h] by simp_all
qed

definition lvl1_start :: "ttree \<Rightarrow> nat \<Rightarrow> nat \<Rightarrow> bool" where
  "lvl1_start T c p \<longleftrightarrow> p mod 4096 = 0 \<or> T (P2 c (p div 4096)) \<noteq> 0 \<and> lvl3_start T c p"

lemma cleared_big:
  assumes "good_alloc ok live A" "good_state ok live T M" "ctx_at T ctx c" "big T M c i \<noteq> 0" "i < 256" "4096 * i < b" "b \<le> 4096 * i + 4096"
  defines "M' \<equiv> wr (ent (T (P1 c)) i) 0 (page_out (SRMMU_PTE_TO_ADDR (big T M c i)) M)"
  shows "cleared ok live c (4096 * i) b T M T M'"
proof -
  have tree: "tbl_tree_ok (live (tbl_heap M)) T M" using assms(2) by (simp add: good_state_def)
  have t1: "T (P1 c) \<noteq> 0" using assms(3) by (simp add: ctx_at_def)
  have t2: "T (P2 c i) = 0" using assms(4) by (auto simp: big_def split: if_splits)
  have w: "words M' = (words M)(ent (T (P1 c)) i := 0)" "same_ctxs M M'" "tbl_heap M' = tbl_heap M"
    by (simp_all add: M'_def wr_def page_out_def same_ctxs_def)
  note bw = big_write [OF assms(1,2) t1 assms(5) t2 disjI1 [OF refl] w]
  have q: "q div 4096 = i" if "4096 * i \<le> q" "q < b" for q using that assms(7) by (intro div_nat_eqI) (simp_all add: mult.commute)
  have v0: "vp T M c q = 0" if "4096 * i \<le> q" "q < b" for q using big_excludes [OF tree, of c q] assms(4) q [OF that] by simp
  have "handed T M c q = (if q = 4096 * i then [SRMMU_PTE_TO_ADDR (big T M c i)] else [])" if "4096 * i \<le> q" "q < b" for q
  proof -
    have "q mod 4096 = 0 \<longleftrightarrow> q = 4096 * i" using mult_div_mod_eq [of 4096 q] q [OF that] by linarith
    then show ?thesis using assms(4) q [OF that] by (simp add: handed_def)
  qed
  then have "map (handed T M c) [4096 * i..<b] = map (\<lambda>q. if q = 4096 * i then [SRMMU_PTE_TO_ADDR (big T M c i)] else []) [4096 * i..<b]"
    by (intro map_cong) auto
  moreover have "[4096 * i..<b] = 4096 * i # [Suc (4096 * i)..<b]" using assms(6) by (rule upt_conv_Cons)
  moreover have "concat (map (\<lambda>q. if q = 4096 * i then [SRMMU_PTE_TO_ADDR (big T M c i)] else []) [Suc (4096 * i)..<b]) = []" by auto
  ultimately have "handed_range T M c (4096 * i) b = [SRMMU_PTE_TO_ADDR (big T M c i)]" by (simp add: handed_range_def)
  moreover have "big T M' d i' = (if d = c \<and> 4096 * i \<le> 4096 * i' \<and> 4096 * i' < b then 0 else big T M d i')" if "i' < 256" for d i'
  proof -
    have "4096 * i \<le> 4096 * i' \<and> 4096 * i' < b \<longleftrightarrow> i' = i" using assms(6,7) by auto
    then show ?thesis using bw(2) [OF that] by simp
  qed
  moreover have "vp T M' d q = vp T M d q" for d q using bw(3) by (simp add: vp_def)
  ultimately show ?thesis using bw(1) w v0 by (auto simp: cleared_def roots_same_def M'_def wr_def page_out_def)
qed

lemma no_lvl2_pages:
  assumes "good_state ok live T M" "T (P2 c i) = 0" "big T M c i = 0" "4096 * i \<le> a" "e \<le> 4096 * i + 4096"
  shows "cleared ok live c a e T M T M"
proof (rule cleared_nothing [OF assms(1)])
  fix q assume "a \<le> q" "q < e"
  then have q: "q div 4096 = i" using assms(4,5) by (intro div_nat_eqI) (simp_all add: mult.commute)
  have "T (P3 c i j) = 0" for j using assms(1,2) unfolding good_state_def tbl_tree_ok_def parents_ok_def by metis
  then show "vp T M c q = 0" using q by (simp add: vp_def pte_def)
  show "big T M c (q div 4096) = 0" using assms(3) q by simp
qed

lemma lvl2_pages_spec:
  assumes "good_alloc ok live A" "good_state ok live T M" "ctx_at T ctx c" "T (P2 c (p div 4096)) \<noteq> 0" "unat va = 4096 * p" "unat ve = 4096 * e"
    "p < e" "e \<le> 2 ^ 20 - 4096" "lvl1_start T c p"
  defines "b \<equiv> (if e \<le> 4096 * (p div 4096) + 4096 then e else 4096 * (p div 4096) + 4096)"
  shows "lvl2_done ok live A c (p div 4096) p b T M (srmmu_release_lvl2_pages A ctx va ve M)"
proof -
  have tree: "tbl_tree_ok (live (tbl_heap M)) T M" using assms(2) by (simp add: good_state_def)
  have "4096 * (p div 4096) + 2 * 4096 \<le> 2 ^ 20"
  proof -
    have "p div 4096 < 255" using assms(7,8) by (simp add: div_less_iff_less_mult)
    then show ?thesis by simp
  qed
  then have l: "unat (limit_end va ve 0x1000000) = 4096 * b" using limit_end_page [OF assms(5,6), of 4096] by (simp add: b_def)
  have "p < 4096 * (p div 4096) + 4096" using mult_div_mod_eq [of 4096 p] mod_less_divisor [of 4096 p] by linarith
  then have b: "p < b" "b \<le> 4096 * (p div 4096) + 4096" "b \<le> 2 ^ 20 - 4096" using assms(7,8) by (auto simp: b_def)
  have st: "lvl3_start T c p" using assms(9)
  proof -
    have "p mod 4096 = 0 \<Longrightarrow> p mod 64 = 0" using mod_mod_cancel [of 64 4096 p] by simp
    then show ?thesis using assms(9) by (auto simp: lvl1_start_def lvl3_start_def)
  qed
  have "lvl2_done ok live A c (p div 4096) p b T M (release_lvl2_loop A ctx (T (P2 c (p div 4096))) va (limit_end va ve 0x1000000) M)"
    by (rule lvl2_loop_spec [OF assms(1-5) l refl b(2,3) st])
  then show ?thesis using find_lvl2 [OF tree assms(3), of va] page_index_nat [OF assms(5)] assms(4)
    by (simp add: srmmu_release_lvl2_pages_def Let_def)
qed

lemma lvl1_step:
  assumes "good_alloc ok live A" "good_state ok live T M" "ctx_at T ctx c" "unat va = 4096 * p" "unat ve = 4096 * e" "p < e" "e \<le> 2 ^ 20 - 4096"
    "lvl1_start T c p"
  defines "n \<equiv> 4096 * (p div 4096) + 4096"
  obtains T' M' va' where "srmmu_release_lvl1_pages A ctx va ve M = srmmu_release_lvl1_pages A ctx va' ve M'" "unat va' = 4096 * n"
    "cleared ok live c p (if e \<le> n then e else n) T M T' M'"
proof -
  define b where "b = (if e \<le> n then e else n)"
  let ?i = "p div 4096"
  have tree: "tbl_tree_ok (live (tbl_heap M)) T M" using assms(2) by (simp add: good_state_def)
  have c: "lvl1 ctx = T (P1 c)" "T (P1 c) \<noteq> 0" using assms(3) by (simp_all add: ctx_at_def)
  have i: "?i < 255" using assms(6,7) by (simp add: div_less_iff_less_mult)
  then have i256: "?i < 256" by simp
  have n32: "4096 * n < 2 ^ 32" using i by (simp add: n_def)
  have pn: "p < n" unfolding n_def using mult_div_mod_eq [of 4096 p] mod_less_divisor [of 4096 p] by linarith
  have lt: "va < ve" using assms(4-6) by (simp add: word_less_nat_alt)
  note ix = page_index_nat [OF assms(4)]
  note be = big_entry [OF tree assms(3), of va, unfolded ix(1)]
  define va' where "va' = align_up (va - 0x1000000 + 1) 0x1000000 + 0x1000000"
  have va'_eq: "align_up (va - 16777215) 16777216 + 16777216 = va'" by (simp add: va'_def)
  have va': "unat va' = 4096 * n" using next_table_page [OF assms(4), of 4096] n32 by (simp add: va'_def n_def)
  note st = va'_eq srmmu_release_lvl1_pages.simps [of A ctx va ve M] ent_offsets Let_def ix(1) c(1)
  have skip: "unat (va + 0x1000000) = 4096 * n" "p = 4096 * ?i" if "T (P2 c ?i) = 0"
  proof -
    have "p mod 4096 = 0" using assms(8) that by (simp add: lvl1_start_def)
    then show "p = 4096 * ?i" using mult_div_mod_eq [of 4096 p] by simp
    then show "unat (va + 0x1000000) = 4096 * n" using unat_plus [where va = va and n = "0x1000000"] assms(4) n32 by (simp add: n_def)
  qed
  consider (large) "big T M c ?i \<noteq> 0" | (none) "big T M c ?i = 0" "T (P2 c ?i) = 0" | (tbl) "big T M c ?i = 0" "T (P2 c ?i) \<noteq> 0" by blast
  then show ?thesis
  proof cases
    case large
    then have t2: "T (P2 c ?i) = 0" by (auto simp: big_def split: if_splits)
    have e: "rd (ent (T (P1 c)) ?i) M = big T M c ?i" using t2 c by (simp add: big_def)
    let ?M = "wr (ent (T (P1 c)) ?i) 0 (page_out (SRMMU_PTE_TO_ADDR (big T M c ?i)) M)"
    have R: "srmmu_release_lvl1_pages A ctx va ve M = srmmu_release_lvl1_pages A ctx (va + 0x1000000) ve ?M"
      using lt be(1) large e by (simp add: st)
    have "4096 * ?i < b" "b \<le> 4096 * ?i + 4096" using skip(2) [OF t2] assms(6) pn by (auto simp: b_def n_def)
    from cleared_big [OF assms(1-3) large i256 this] have "cleared ok live c p b T M T ?M" using skip(2) [OF t2] by simp
    then show ?thesis using that [OF R skip(1) [OF t2]] by (simp add: b_def)
  next
    case none
    have R: "srmmu_release_lvl1_pages A ctx va ve M = srmmu_release_lvl1_pages A ctx (va + 0x1000000) ve M"
      using lt be none c by (simp add: st)
    have "cleared ok live c p b T M T M"
      by (rule no_lvl2_pages [OF assms(2) none(2,1)]) (use skip(2) [OF none(2)] in \<open>auto simp: b_def n_def\<close>)
    then show ?thesis using that [OF R skip(1) [OF none(2)]] by (simp add: b_def)
  next
    case tbl
    have e: "rd (ent (T (P1 c)) ?i) M AND 2 = 0" "rd (ent (T (P1 c)) ?i) M \<noteq> 0" using be tbl c by auto
    obtain r T1 M1 where s: "srmmu_release_lvl2_pages A ctx va ve M = Some (r, if r = 0 then tbl_freed A T1 M1 (P2 c ?i) else M1)"
      "r = 0 \<and> bare T1 M1 (P2 c ?i) \<or> r = 1" "cleared ok live c p b T M T1 M1" "T1 (P2 c ?i) = T (P2 c ?i)"
      using lvl2_pages_spec [OF assms(1-3) tbl(2) assms(4-8)] unfolding lvl2_done_def b_def n_def by blast
    have g1: "good_state ok live T1 M1" "T1 (P1 c) = T (P1 c)" using s(3) by (simp_all add: cleared_def roots_same_def)
    show ?thesis
    proof (cases "r = 0")
      case False
      have "srmmu_release_lvl1_pages A ctx va ve M = srmmu_release_lvl1_pages A ctx va' ve M1"
        using lt e s(1) False by (simp add: st)
      then show ?thesis using that va' s(3) by (simp add: b_def)
    next
      case True
      define M2 where "M2 = wr (ent (T1 (P1 c)) ?i) 0 (tbl_freed A T1 M1 (P2 c ?i))"
      have "srmmu_release_lvl1_pages A ctx va ve M = srmmu_release_lvl1_pages A ctx va' ve M2"
        using lt e s(1) True g1(2) by (simp add: st M2_def)
      moreover have "bare T1 M1 (P2 c ?i)" "T1 (P1 c) \<noteq> 0" using s(2) True g1(2) c by simp_all
      note u = unlink_lvl2 [OF assms(1) g1(1) this(2) i256 this(1), folded M2_def]
      have "cleared ok live c p b T M (T1(P2 c ?i := 0)) M2" by (rule cleared_views [OF s(3) u]) (simp add: roots_same_def)
      ultimately show ?thesis using that va' by (simp add: b_def)
    qed
  qed
qed

lemma lvl1_loop_spec:
  assumes "good_alloc ok live A" "good_state ok live T M" "ctx_at T ctx c" "unat va = 4096 * p" "unat ve = 4096 * e" "e \<le> 2 ^ 20 - 4096"
    "p < e \<Longrightarrow> lvl1_start T c p"
  shows "\<exists>T' M'. srmmu_release_lvl1_pages A ctx va ve M = Some M' \<and> cleared ok live c p e T M T' M'"
  using assms(2-)
proof (induction "e - p" arbitrary: p va T M rule: less_induct)
  case less
  show ?case
  proof (cases "p < e")
    case False
    then have "\<not> va < ve" using less.prems(3,4) by (simp add: word_less_nat_alt)
    then have "srmmu_release_lvl1_pages A ctx va ve M = Some M" by (simp add: srmmu_release_lvl1_pages.simps [of A ctx va ve M])
    then show ?thesis using cleared_refl [OF less.prems(1), of e p c] False by auto
  next
    case True
    define n where "n = 4096 * (p div 4096) + 4096"
    define b where "b = (if e \<le> n then e else n)"
    obtain T1 M1 va' where s: "srmmu_release_lvl1_pages A ctx va ve M = srmmu_release_lvl1_pages A ctx va' ve M1" "unat va' = 4096 * n"
      "cleared ok live c p b T M T1 M1"
      using lvl1_step [OF assms(1) less.prems(1-4) True less.prems(5) less.prems(6) [OF True]] unfolding b_def n_def by metis
    have pn: "p < n" unfolding n_def using mult_div_mod_eq [of 4096 p] mod_less_divisor [of 4096 p] by linarith
    have b: "p \<le> b" "b \<le> e" "e \<le> 2 ^ 20" using pn True less.prems(5) by (auto simp: b_def)
    have g1: "good_state ok live T1 M1" "ctx_at T1 ctx c" using s(3) less.prems(2) by (simp_all add: cleared_def roots_same_def ctx_at_def)
    have "lvl1_start T1 c n" by (simp add: lvl1_start_def n_def)
    then obtain T2 M2 where t: "srmmu_release_lvl1_pages A ctx va' ve M1 = Some M2" "cleared ok live c n e T1 M1 T2 M2"
      using less.hyps [OF _ g1 s(2) less.prems(4,5)] pn True by (metis diff_less_mono2)
    have "cleared ok live c b e T1 M1 T2 M2"
    proof (cases "e \<le> n")
      case True
      then show ?thesis using t(2) by (auto simp: b_def cleared_def handed_range_def)
    qed (use t(2) in \<open>simp add: b_def\<close>)
    then have "cleared ok live c p e T M T2 M2" by (rule cleared_trans [OF less.prems(1) s(3) _ b])
    then show ?thesis using s(1) t(1) by auto
  qed
qed

end
