(* ===== verification/Srmmu_Ctx.thy ===== *)
theory Srmmu_Ctx
  imports Srmmu_Release
begin

text \<open>
  Contexts, large mappings and ranges of mappings.
\<close>

section \<open>New contexts\<close>

lemma tree_ok_heap:
  assumes "blocks_disjoint L" "tbl_tree_ok L T M" "words M' = words M" "same_ctxs M M'" "\<And>p. T p \<noteq> 0 \<Longrightarrow> L' (blk T M p) = L (blk T M p)"
  shows "tbl_tree_ok L' T M'"
proof -
  have t: "tbl_tree_ok L T M'" by (rule tree_ok_same [OF assms(1-4)])
  have b: "blk T M' p = blk T M p" for p using assms(3) by (simp add: blk_def off_of_def rd_def)
  have "tab_ok L' T M' p" if "T p \<noteq> 0" for p
    by (rule tab_ok_cong [OF assms(1), of T M']) (use t that assms(5) b in \<open>auto simp: tbl_tree_ok_def\<close>)
  then show ?thesis using t by (simp add: tbl_tree_ok_def)
qed

lemma no_root_below:
  assumes "parents_ok T" "T (P1 c) = 0"
  shows "T (P2 c i) = 0" "T (P3 c i j) = 0"
  using assms unfolding parents_ok_def by metis+

lemma attach_root:
  assumes "good_alloc ok live A" "good_state ok live T M" "mmu_alloc_tbl A (of_nat (4 * 256)) M = (a, M1)" "a \<noteq> 0" "T (P1 c) = 0"
  defines "M2 \<equiv> set_invalid 256 a M1"
  assumes "ctxs_ok (T(P1 c := a)) M'" "words M' = words M2" "tbl_heap M' = tbl_heap M2"
  shows "good_state ok live (T(P1 c := a)) M'" "views_same T M (T(P1 c := a)) M'"
proof -
  let ?T = "T(P1 c := a)" let ?L = "live (tbl_heap M)"
  have tree: "tbl_tree_ok ?L T M" and bd: "blocks_disjoint ?L" using assms(2) good_bd [OF assms(1,2)] by (simp_all add: good_state_def)
  note fr = fresh_table [OF assms(1,2) _ assms(3,4), folded M2_def, simplified]
  have r: "rd x M' = rd x M2" for x using assms(8) by (simp add: rd_def)
  have o: "off_of x M' = off_of x M2" for x by (simp add: off_of_def r)
  have par: "parents_ok T" using tree by (simp add: tbl_tree_ok_def)
  note nb = no_root_below [OF par assms(5)]
  have same: "words M' x = words M x" if "T p \<noteq> 0" "x \<in> foot (slots p) (T p)" for p x
    using fr(5) [of x] fr(11) [OF that(1)] that(2) assms(8) by auto
  have rq: "rd (T q - 4) M' = rd (T q - 4) M" if "T q \<noteq> 0" for q
    using same [OF that] foot_words(1) [OF bd tree_hdr [OF tree that]] by (simp add: rd_def)
  have bq: "blk ?T M' q = (if q = P1 c then a - off_of a M2 else blk T M q)" if "?T q \<noteq> 0" for q
    using that rq [of q] off_of_cong [of "T q" M' M] by (auto simp: blk_def o)
  have new: "blk T M q \<noteq> a - off_of a M2" if "T q \<noteq> 0" for q using blk_live [OF tree that] fr(9) by auto
  have tab: "tab_ok (live (tbl_heap M')) ?T M' q" if q: "?T q \<noteq> 0" for q
  proof (cases "q = P1 c")
    case True
    have "tbl_hdr_ok (live (tbl_heap M')) M' 256 a" using fr(8) by (simp add: tbl_hdr_ok_def r o assms(9))
    moreover have "entries_ok ?T M' q" using True fr(7) nb by (simp add: r Let_def)
    ultimately show ?thesis using True by (simp add: tab_ok_def)
  next
    case False
    then have Tq: "T q \<noteq> 0" using q by simp
    then have "tab_ok ?L T M q" using tree by (simp add: tbl_tree_ok_def)
    then show ?thesis
    proof (rule tab_ok_cong [OF bd])
      show "?T s = T s" if "child q s" for s using that by (cases q) auto
      show "live (tbl_heap M') (blk T M q) = ?L (blk T M q)" using fr(10) new [OF Tq] assms(9) by simp
    qed (use same [OF Tq] False in auto)
  qed
  have "apart ?T M'" unfolding apart_def
  proof (intro allI impI)
    fix p q assume "p \<noteq> q" "?T p \<noteq> 0" "?T q \<noteq> 0"
    then show "blk ?T M' p \<noteq> blk ?T M' q" using bq [of p] bq [of q] new [of p] new [of q] tree
      by (auto simp: tbl_tree_ok_def apart_def split: if_splits)
  qed
  moreover have "parents_ok ?T" using par assms(4,5) by (auto simp: parents_ok_def)
  ultimately show "good_state ok live ?T M'" using tab fr(1) assms(7,9) by (simp add: tbl_tree_ok_def good_state_def)
  have e: "rd (ent (T p) k) M' = rd (ent (T p) k) M" if "T p \<noteq> 0" "k < slots p" for p k
    by (rule entry_same [OF bd tree that]) (rule same [OF that(1)])
  have "big ?T M' d i = big T M d i" if "i < 256" for d i
    using e [of "P1 d" i] that fr(7) assms(4,5) nb by (cases "d = c") (auto simp: big_def r)
  moreover have "pte ?T M' d i j k = pte T M d i j k" if "k < 64" for d i j k using e [of "P3 d i j" k] that by (simp add: pte_def)
  ultimately show "views_same T M ?T M'" by (simp add: views_same_def)
qed

lemma set_invalid_ctxs:
  "ctx_used (set_invalid n a M) = ctx_used M" "ctx_free (set_invalid n a M) = ctx_free M"
  "mmu_num_ctp (set_invalid n a M) = mmu_num_ctp M" "mmu_ctp (set_invalid n a M) = mmu_ctp M"
  "tbl_heap (set_invalid n a M) = tbl_heap M" "pages_freed (set_invalid n a M) = pages_freed M"
  using set_invalid_fields [where M = M and n = n and a = a] by (simp_all add: same_ctxs_def)

lemma new_ctx_spec:
  assumes "good_alloc ok live A" "good_state ok live T M" "length (ctx_free M) < SRMMU_CONTEXTS"
  obtains r T' M' where "srmmu_new_ctx A M = Some (r, M')" "good_state ok live T' M'" "views_same T M T' M'" "pages_freed M' = pages_freed M"
    "r = int (length (ctx_free M)) \<and> length (ctx_free M') = Suc (length (ctx_free M)) \<or> r = - ENOMEM \<and> same_ctxs M M' \<and> T' = T"
proof -
  let ?c = "length (ctx_free M)"
  have tree: "tbl_tree_ok (live (tbl_heap M)) T M" and bd: "blocks_disjoint (live (tbl_heap M))" and okM: "ok (tbl_heap M)"
    using assms(2) good_bd [OF assms(1,2)] by (simp_all add: good_state_def)
  have cx: "ctxs_ok T M" using tree by (simp add: tbl_tree_ok_def)
  have num: "unat (mmu_num_ctp M) = ?c" "uint (mmu_num_ctp M) = int ?c"
  proof -
    show "unat (mmu_num_ctp M) = ?c" using cx assms(3) by (simp add: ctxs_ok_def) (simp only: unat_of_nat, simp)
    then show "uint (mmu_num_ctp M) = int ?c" by (metis uint_nat)
  qed
  note d = srmmu_new_ctx_def num mmu_alloc_lvl1_tbl_def Let_def
  obtain x h where al: "ta_alloc A 32 (tbl_heap M) = (x, h)" by fastforce
  let ?M = "M\<lparr>tbl_heap := h\<rparr>"
  note g = good_allocD [OF assms(1) okM]
  have h: "ok h" using g(2) [OF al] .
  have keep: "good_state ok live T N" if "tbl_heap N = k" "ok k" "\<And>p. T p \<noteq> 0 \<Longrightarrow> live k (blk T M p) = live (tbl_heap M) (blk T M p)"
      "words N = words M" "same_ctxs M N" for N k
    using tree_ok_heap [OF bd tree that(4,5)] that(1-3) by (simp add: good_state_def)
  have vs: "views_same T M T N" if "words N = words M" for N
    using that by (simp add: views_same_def big_def pte_def rd_def)
  show ?thesis
  proof (cases "x = 0")
    case True
    have "good_state ok live T ?M" by (rule keep [of _ h]) (use g(3) al True h in \<open>auto simp: same_ctxs_def\<close>)
    moreover have "srmmu_new_ctx A M = Some (- ENOMEM, ?M)" using assms(3) al True by (simp add: d)
    ultimately show ?thesis using that [of "- ENOMEM" ?M T] vs [of ?M] by (simp add: same_ctxs_def)
  next
    case False
    have l: "live (tbl_heap M) x = None" "live h = (live (tbl_heap M))(x \<mapsto> 32)" using g(4) [OF al False] by simp_all
    have nx: "blk T M p \<noteq> x" if "T p \<noteq> 0" for p using blk_live [OF tree that] l(1) by auto
    have g1: "good_state ok live T ?M" by (rule keep [of _ h]) (use l(2) h nx in \<open>auto simp: same_ctxs_def\<close>)
    obtain a M1 where tb: "mmu_alloc_tbl A 0x400 ?M = (a, M1)" by fastforce
    have tb': "mmu_alloc_tbl A (of_nat (4 * 256)) ?M = (a, M1)" using tb by simp
    have okh: "ok (tbl_heap ?M)" using h by simp
    note s = alloc_tbl_spec [OF assms(1) okh _ tb', simplified]
    show ?thesis
    proof (cases "a = 0")
      case a: True
      let ?N = "M1\<lparr>tbl_heap := ta_free A x (tbl_heap M1)\<rparr>"
      have lv: "live (tbl_heap M1) = (live (tbl_heap M))(x \<mapsto> 32)" "words M1 = words M" using s(4) a l(2) by auto
      have fr: "ok (ta_free A x (tbl_heap M1))" "live (ta_free A x (tbl_heap M1)) = (live (tbl_heap M))(x := None)"
        using good_allocD(5) [OF assms(1) s(1), of x] lv by auto
      have sc: "same_ctxs M ?N" using s(2) by (simp add: same_ctxs_def)
      have "good_state ok live T ?N" by (rule keep [OF _ fr(1)]) (use fr(2) nx lv sc in auto)
      moreover have "srmmu_new_ctx A M = Some (- ENOMEM, ?N)" using assms(3) al False tb a by (simp add: d)
      ultimately show ?thesis using that [of "- ENOMEM" ?N T] vs [of ?N] sc s(3) lv by simp
    next
      case a: False
      let ?T = "T(P1 ?c := a)"
      let ?M2 = "set_invalid 256 a M1"
      define N where "N = ?M2\<lparr>mmu_ctp := (mmu_ctp M)[?c := SRMMU_PTD a], mmu_num_ctp := mmu_num_ctp M + 1,
        ctx_free := ctx_free M @ [\<lparr>mc_addr = x, lvl1 = a, ctx_num = mmu_num_ctp M\<rparr>]\<rparr>"
      have sc: "ctx_used M1 = ctx_used M" "ctx_free M1 = ctx_free M" "mmu_num_ctp M1 = mmu_num_ctp M" "mmu_ctp M1 = mmu_ctp M"
        using s(2) by (simp_all add: same_ctxs_def)
      have len: "length (mmu_ctp M) = 256" using cx by (simp add: ctxs_ok_def)
      have R: "srmmu_new_ctx A M = Some (int ?c, N)"
        using assms(3) al False tb a len num
        by (simp add: d mmu_add_ctx_def mmu_set_lvl1_tbl_invalid_def set_invalid_ctxs sc N_def)
      have z: "T (P1 ?c) = 0" using cx by (simp add: ctxs_ok_def)
      have cN: "ctxs_ok ?T N"
        using cx a len assms(3) sc unfolding ctxs_ok_def N_def by (auto simp: nth_append nth_list_update set_invalid_ctxs less_Suc_eq)
      have "good_state ok live ?T N" "views_same T ?M ?T N"
        by (rule attach_root [OF assms(1) g1 tb' a z cN]; simp add: N_def)+
      moreover have "views_same T M T ?M" by (rule vs) simp
      ultimately show ?thesis using that [OF R] views_same_trans s(3) by (simp add: N_def set_invalid_ctxs) blast
    qed
  qed
qed

end
