(* ===== verification/Srmmu_Range.thy ===== *)
theory Srmmu_Range
  imports Srmmu_Ctx
begin

text \<open>
  The operations on ranges of addresses, in terms of the translation.
\<close>

definition mmu_ok :: "('s \<Rightarrow> bool) \<Rightarrow> ('s \<Rightarrow> u32 \<Rightarrow> nat option) \<Rightarrow> 's mmu \<Rightarrow> bool" where
  "mmu_ok ok live M \<longleftrightarrow> (\<exists>T. good_state ok live T M)"

section \<open>Translation by page numbers\<close>

lemma page_of:
  "ix1 x = unat x div 4096 div 4096" "ix2 x = unat x div 4096 div 64 mod 64" "ix3 x = unat x div 4096 mod 64" "unat x div 4096 < 2 ^ 20"
proof -
  have "unat x div 2 ^ 24 = unat x div 4096 div 4096" "unat x div 2 ^ 18 = unat x div 4096 div 64" "unat x div 2 ^ 12 = unat x div 4096"
    by (simp_all add: div_mult2_eq [symmetric])
  then show "ix1 x = unat x div 4096 div 4096" "ix2 x = unat x div 4096 div 64 mod 64" "ix3 x = unat x div 4096 mod 64"
    by (simp_all add: ix1_def ix2_def ix3_def)
  show "unat x div 4096 < 2 ^ 20" using unat_lt_32 [of x] by (simp add: div_less_iff_less_mult)
qed

lemma walk_vp:
  assumes "good_state ok live T M" "c < length (ctx_free M)"
  shows "mmu_walk c x M = (if big T M c (unat x div 4096 div 4096) \<noteq> 0 then Some (1, big T M c (unat x div 4096 div 4096))
     else if vp T M c (unat x div 4096) \<noteq> 0 then Some (3, vp T M c (unat x div 4096)) else None)"
  using walk_eq [of "live (tbl_heap M)" T M c x] assms by (simp add: good_state_def vp_def page_of)

section \<open>Mapping of a range\<close>

lemma small_page:
  assumes "good_alloc ok live A" "good_state ok live T M" "unat n < length (ctx_free M)" "perm AND NOT 0xfc = 0" "unat va div 4096 = p"
    "vp T M (unat n) p = 0"
  obtains r T' M' where "srmmu_do_small_mapping A n va pa perm M = Some (r, M')" "good_state ok live T' M'" "same_ctxs M M'"
    "pages_freed M' = pages_freed M" "if big T M (unat n) (p div 4096) \<noteq> 0 then r = - EINVAL else r = - ENOMEM \<or> r = 0"
    "uses_tbls A 2 (tbl_heap M) r (tbl_heap M')"
    "\<forall>c i. i < 256 \<longrightarrow> big T' M' c i = big T M c i"
    "\<forall>c q. vp T' M' c q = (if r = 0 \<and> c = unat n \<and> q = p then SRMMU_PTE pa perm else vp T M c q)"
proof -
  note ix = page_of [of va, unfolded assms(5)]
  have z: "pte T M (unat n) (ix1 va) (ix2 va) (ix3 va) = 0" using assms(6) by (simp add: vp_def ix)
  show ?thesis
  proof (rule small_mapping_spec [OF assms(1-4) z, of pa])
    fix r T' M'
    assume a: "srmmu_do_small_mapping A n va pa perm M = Some (r, M')" "good_state ok live T' M'" "same_ctxs M M'"
      "pages_freed M' = pages_freed M" "if big T M (unat n) (ix1 va) \<noteq> 0 then r = - EINVAL else r = - ENOMEM \<or> r = 0"
    "uses_tbls A 2 (tbl_heap M) r (tbl_heap M')"
      "\<And>c i. i < 256 \<Longrightarrow> big T' M' c i = big T M c i"
      "\<And>c i j k. k < 64 \<Longrightarrow> pte T' M' c i j k =
         (if r = 0 \<and> c = unat n \<and> i = ix1 va \<and> j = ix2 va \<and> k = ix3 va then SRMMU_PTE pa perm else pte T M c i j k)"
    have "vp T' M' c q = (if r = 0 \<and> c = unat n \<and> q = p then SRMMU_PTE pa perm else vp T M c q)" for c q
      using a(8) [of "q mod 64" c "q div 4096" "q div 64 mod 64"] page_eq [of q p] by (simp add: vp_def ix)
    then show ?thesis using that [OF a(1-4)] a(5-7) by (simp add: ix)
  qed
qed

lemma small_range_spec:
  assumes "good_alloc ok live A" "good_state ok live T M" "unat n < length (ctx_free M)" "perm AND NOT 0xfc = 0" "k = 0 \<or> unat va div 4096 = p"
    "p + k \<le> 2 ^ 20" "\<forall>q. p \<le> q \<and> q < p + k \<longrightarrow> vp T M (unat n) q = 0 \<and> big T M (unat n) (q div 4096) = 0"
  shows "\<exists>r j T' M'. small_range k A n va pa perm M = Some (r, M') \<and> good_state ok live T' M' \<and> same_ctxs M M' \<and> pages_freed M' = pages_freed M
     \<and> uses_tbls A (2 * k) (tbl_heap M) r (tbl_heap M') \<and> (r = 0 \<and> j = k \<or> r = - ENOMEM \<and> j < k) \<and> (\<forall>c i. i < 256 \<longrightarrow> big T' M' c i = big T M c i)
     \<and> (\<forall>c q. vp T' M' c q = (if c = unat n \<and> p \<le> q \<and> q < p + j then SRMMU_PTE (pa + word_of_nat (4096 * (q - p))) perm else vp T M c q))"
  using assms(2-)
proof (induction k arbitrary: p va pa T M)
  case 0
  then show ?case by (intro exI [of _ 0] exI [of _ T] exI [of _ M]) (auto simp: uses_refl)
next
  case (Suc k)
  have va: "unat va div 4096 = p" and free: "vp T M (unat n) p = 0" "big T M (unat n) (p div 4096) = 0" using Suc.prems(4,6) by auto
  obtain r T1 M1 where s: "srmmu_do_small_mapping A n va pa perm M = Some (r, M1)" "good_state ok live T1 M1" "same_ctxs M M1"
    "pages_freed M1 = pages_freed M" "if big T M (unat n) (p div 4096) \<noteq> 0 then r = - EINVAL else r = - ENOMEM \<or> r = 0"
    "uses_tbls A 2 (tbl_heap M) r (tbl_heap M1)"
    "\<forall>c i. i < 256 \<longrightarrow> big T1 M1 c i = big T M c i"
    "\<forall>c q. vp T1 M1 c q = (if r = 0 \<and> c = unat n \<and> q = p then SRMMU_PTE pa perm else vp T M c q)"
    by (rule small_page [OF assms(1) Suc.prems(1-3) va free(1)])
  show ?case
  proof (cases "r = 0")
    case False
    then have "small_range (Suc k) A n va pa perm M = Some (- ENOMEM, M1)" using s(1,5) free by simp
    then show ?thesis using s False uses_more [OF s(6), of "2 * Suc k"] by (intro exI [of _ "- ENOMEM"] exI [of _ 0] exI [of _ T1] exI [of _ M1]) auto
  next
    case True
    have i: "q div 4096 < 256" if "q < Suc p + k" for q using that Suc.prems(5) by (simp add: div_less_iff_less_mult)
    have va1: "k = 0 \<or> unat (va + 0x1000) div 4096 = Suc p"
    proof (cases "k = 0")
      case False
      have "unat va + 4096 < 2 ^ 32" using va False Suc.prems(5) mult_div_mod_eq [of 4096 "unat va"] mod_less_divisor [of 4096 "unat va"] by simp
      then have "unat (va + 0x1000) = unat va + 4096" using unat_plus [of va 4096] by simp
      moreover have "(unat va + 4096) div 4096 = Suc (unat va div 4096)" by (subst div_add_self2) simp_all
      ultimately show ?thesis using va by simp
    qed simp
    have len: "unat n < length (ctx_free M1)" using Suc.prems(2) s(3) by (simp add: same_ctxs_def)
    have fr: "\<forall>q. Suc p \<le> q \<and> q < Suc p + k \<longrightarrow> vp T1 M1 (unat n) q = 0 \<and> big T1 M1 (unat n) (q div 4096) = 0"
      using s(7,8) Suc.prems(6) i by simp
    obtain r' j T2 M2 where t: "small_range k A n (va + 0x1000) (pa + 0x1000) perm M1 = Some (r', M2)" "good_state ok live T2 M2" "same_ctxs M1 M2"
      "pages_freed M2 = pages_freed M1" "r' = 0 \<and> j = k \<or> r' = - ENOMEM \<and> j < k"
      "uses_tbls A (2 * k) (tbl_heap M1) r' (tbl_heap M2)" "\<forall>c i. i < 256 \<longrightarrow> big T2 M2 c i = big T1 M1 c i"
      "\<forall>c q. vp T2 M2 c q = (if c = unat n \<and> Suc p \<le> q \<and> q < Suc p + j then SRMMU_PTE (pa + 0x1000 + word_of_nat (4096 * (q - Suc p))) perm else vp T1 M1 c q)"
      using Suc.IH [OF s(2) len Suc.prems(3) va1 _ fr, of "pa + 0x1000"] Suc.prems(5) by auto
    have R: "small_range (Suc k) A n va pa perm M = Some (r', M2)" using s(1) True t(1) by simp
    have ut: "uses_tbls A (2 * Suc k) (tbl_heap M) r' (tbl_heap M2)" using uses_trans [OF s(6) [unfolded True] t(6)] by simp
    have w: "pa + 0x1000 + word_of_nat (4096 * (q - Suc p)) = pa + word_of_nat (4096 * (q - p))" if "Suc p \<le> q" for q
    proof -
      have "4096 * (q - p) = 4096 + 4096 * (q - Suc p)" using that by simp
      then show ?thesis by (simp only: of_nat_add) simp
    qed
    have "vp T2 M2 c q = (if c = unat n \<and> p \<le> q \<and> q < p + Suc j then SRMMU_PTE (pa + word_of_nat (4096 * (q - p))) perm else vp T M c q)" for c q
      using t(8) s(8) True w by (cases "q = p") auto
    then show ?thesis using R t(2-5,7) ut s(3,4,7) same_ctxs_trans [OF s(3) t(3)]
      by (intro exI [of _ r'] exI [of _ "Suc j"] exI [of _ T2] exI [of _ M2]) auto
  qed
qed

section \<open>Physical addresses\<close>

lemma aligned_floor:
  fixes pa :: u32
  assumes "unat pa mod 4096 = 0"
  shows "(pa + word_of_nat (4096 * d)) AND NOT (mask 12) = pa + word_of_nat (4096 * d)"
proof -
  let ?a = "pa + word_of_nat (4096 * d)"
  have "unat ?a = (unat pa + 4096 * d) mod 2 ^ 32" by (simp add: unat_word_ariths unat_of_nat mod_simps)
  also have "\<dots> mod 4096 = (unat pa + 4096 * d) mod 4096" by (simp add: mod_mod_cancel)
  finally have "unat ?a mod 4096 = 0" using assms by simp
  then have "unat (take_bit 12 ?a) = 0" by (simp only: unat_take) simp
  then have "take_bit 12 ?a = 0" by (simp only: unat_eq_0)
  then show ?thesis by (simp only: and_not_mask_eq diff_zero)
qed

lemma phys_small:
  assumes "unat va mod 4096 = 0" "unat pa mod 4096 = 0" "unat va \<le> unat x" "perm AND NOT 0xfc = 0"
  shows "(SRMMU_PTE_TO_ADDR (SRMMU_PTE (pa + word_of_nat (4096 * (unat x div 4096 - unat va div 4096))) perm) AND NOT (mask 12)) OR (x AND mask 12)
     = pa + (x - va)"
proof -
  let ?d = "4096 * (unat x div 4096 - unat va div 4096)" let ?a = "pa + word_of_nat ?d"
  have t: "?a AND NOT (mask 12) = ?a" by (rule aligned_floor [OF assms(2)])
  have "(?a AND NOT (mask 12)) OR (x AND mask 12) = (?a AND NOT (mask 12)) + (x AND mask 12)"
    by (rule disjunctive_add [symmetric]) (auto simp: bit_simps)
  also have "\<dots> = ?a + word_of_nat (unat x mod 4096)"
  proof -
    have "x AND mask 12 = take_bit 12 x" by (simp add: take_bit_eq_mask)
    moreover have "unat (take_bit 12 x) = unat x mod 4096" by (simp only: unat_take) simp
    ultimately have "x AND mask 12 = word_of_nat (unat x mod 4096)" by (metis of_nat_unat ucast_id)
    then show ?thesis by (simp only: t)
  qed
  also have "\<dots> = pa + word_of_nat (?d + unat x mod 4096)" by simp
  also have "?d + unat x mod 4096 = unat x - unat va"
  proof -
    have "unat va div 4096 \<le> unat x div 4096" using assms(3) by (rule div_le_mono)
    then show ?thesis using assms(1) mult_div_mod_eq [of 4096 "unat x"] mult_div_mod_eq [of 4096 "unat va"] by (simp add: diff_mult_distrib2)
  qed
  also have "word_of_nat (unat x - unat va) = x - va" using assms(3) by (simp add: of_nat_diff)
  finally show ?thesis using t by (simp add: pte_type(3) [OF assms(4)] and.assoc)
qed

end
