(* ===== verification/Srmmu_Walk.thy ===== *)
theory Srmmu_Walk
  imports Srmmu_Range
begin

text \<open>
  Mapping and release of ranges of addresses, as changes of the translation, and an allocator for which the
  assumptions hold.
\<close>

section \<open>Release\<close>

text \<open>The page of level \<open>l\<close> that has the address \<open>x\<close> begins in a range.\<close>

definition page_in :: "u32 \<Rightarrow> u32 \<Rightarrow> nat \<Rightarrow> u32 \<Rightarrow> bool" where
  "page_in va va_end l x \<longleftrightarrow> (let b = x AND NOT (mask (page_bits l)) in va \<le> b \<and> b < va_end)"

text \<open>The physical pages that a release of the page number \<open>q\<close> hands back.\<close>

definition page_handed :: "nat \<Rightarrow> 's mmu \<Rightarrow> nat \<Rightarrow> u32 list" where
  "page_handed n M q =
     (case mmu_walk n (word_of_nat (4096 * q)) M of
        Some (l, e) \<Rightarrow> if l = 3 \<or> q mod 4096 = 0 then [SRMMU_PTE_TO_ADDR e] else []
      | None \<Rightarrow> [])"

definition handed_pages :: "nat \<Rightarrow> u32 \<Rightarrow> u32 \<Rightarrow> 's mmu \<Rightarrow> u32 list" where
  "handed_pages n va va_end M = concat (map (page_handed n M) [unat va div 4096..<unat va_end div 4096])"

lemma unat_floor: "unat (x AND NOT (mask k)) = unat x div 2 ^ k * 2 ^ k" for x :: u32
proof -
  have "take_bit k x \<le> x" using unat_take [of k x] by (simp add: word_le_nat_alt)
  then have "unat (x - take_bit k x) = unat x - unat x mod 2 ^ k" by (simp add: unat_sub unat_take)
  then show ?thesis by (simp only: and_not_mask_eq minus_mod_eq_div_mult)
qed

lemma page_in_eq:
  assumes "unat va = 4096 * p" "unat va_end = 4096 * e" "unat x div 4096 = q"
  shows "page_in va va_end 3 x \<longleftrightarrow> p \<le> q \<and> q < e" "page_in va va_end 1 x \<longleftrightarrow> p \<le> 4096 * (q div 4096) \<and> 4096 * (q div 4096) < e"
proof -
  have "unat (x AND NOT (mask 12)) = 4096 * q" using unat_floor [of x 12] assms(3) by simp
  then show "page_in va va_end 3 x \<longleftrightarrow> p \<le> q \<and> q < e" using assms(1,2) by (simp add: page_in_def Let_def word_le_nat_alt word_less_nat_alt)
  have "unat (x AND NOT (mask 24)) = 4096 * (4096 * (q div 4096))" using unat_floor [of x 24] assms(3) by (simp add: div_mult2_eq [symmetric])
  then show "page_in va va_end 1 x \<longleftrightarrow> p \<le> 4096 * (q div 4096) \<and> 4096 * (q div 4096) < e"
    using assms(1,2) by (simp add: page_in_def Let_def word_le_nat_alt word_less_nat_alt)
qed

lemma cleared_walk:
  assumes "good_state ok live T M" "cleared ok live c p e T M T' M'" "unat va = 4096 * p" "unat va_end = 4096 * e" "d < length (ctx_free M)"
  shows "mmu_walk d x M' = (case mmu_walk d x M of Some (l, w) \<Rightarrow> if d = c \<and> page_in va va_end l x then None else Some (l, w) | None \<Rightarrow> None)"
proof -
  let ?q = "unat x div 4096"
  have g: "good_state ok live T' M'" "d < length (ctx_free M')" using assms(2,5) by (simp_all add: cleared_def same_ctxs_def)
  have q: "?q < 2 ^ 20" "?q div 4096 < 256" using page_of(4) [of x] by (simp_all add: div_less_iff_less_mult)
  have b: "big T' M' d (?q div 4096) = (if d = c \<and> p \<le> 4096 * (?q div 4096) \<and> 4096 * (?q div 4096) < e then 0 else big T M d (?q div 4096))"
    "vp T' M' d ?q = (if d = c \<and> p \<le> ?q \<and> ?q < e then 0 else vp T M d ?q)"
    using assms(2) q by (simp_all add: cleared_def)
  note pi = page_in_eq [OF assms(3,4) refl, of x]
  have "big T M d (?q div 4096) \<noteq> 0 \<Longrightarrow> vp T M d ?q = 0" using assms(1) big_excludes by (auto simp: good_state_def)
  then show ?thesis unfolding walk_vp [OF g] walk_vp [OF assms(1,5)] using b pi by auto
qed

lemma handed_walk:
  assumes "good_state ok live T M" "c < length (ctx_free M)" "q < 2 ^ 20"
  shows "page_handed c M q = handed T M c q"
proof -
  have "unat (word_of_nat (4096 * q) :: u32) = 4096 * q" using assms(3) by (simp only: unat_of_nat) simp
  then have "unat (word_of_nat (4096 * q) :: u32) div 4096 = q" by simp
  then show ?thesis unfolding page_handed_def handed_def walk_vp [OF assms(1,2)] by simp
qed

definition release_ok :: "('s \<Rightarrow> bool) \<Rightarrow> ('s \<Rightarrow> u32 \<Rightarrow> nat option) \<Rightarrow> 's tbl_alloc \<Rightarrow> u32 \<Rightarrow> u32 \<Rightarrow> u32 \<Rightarrow> 's mmu \<Rightarrow> 's mmu \<Rightarrow> bool" where
  "release_ok ok live A n va va_end M M' \<longleftrightarrow> mmu_ok ok live M' \<and> same_ctxs M M'
     \<and> pages_freed M' = pages_freed M @ handed_pages (unat n) va va_end M
     \<and> (\<forall>d < length (ctx_free M). \<forall>x. mmu_walk d x M' =
          (case mmu_walk d x M of Some (l, e) \<Rightarrow> if d = unat n \<and> page_in va va_end l x then None else Some (l, e) | None \<Rightarrow> None))"

lemma release_spec:
  assumes "good_alloc ok live A" "mmu_ok ok live M" "unat n < length (ctx_free M)" "unat va mod 4096 = 0" "unat va_end mod 4096 = 0"
    "va_end \<le> 0xff000000" "unat va mod 2 ^ 24 = 0 \<or> (\<exists>e. mmu_walk (unat n) va M = Some (3, e))"
  obtains M' where "srmmu_release_pages A n va va_end M = Some M'" "release_ok ok live A n va va_end M M'"
proof -
  obtain T where T: "good_state ok live T M" using assms(2) by (auto simp: mmu_ok_def)
  have tree: "tbl_tree_ok (live (tbl_heap M)) T M" using T by (simp add: good_state_def)
  define p e where p: "p = unat va div 4096" and e: "e = unat va_end div 4096"
  have u: "unat va = 4096 * p" "unat va_end = 4096 * e" 
    using mult_div_mod_eq [of 4096 "unat va"] mult_div_mod_eq [of 4096 "unat va_end"] assms(4,5) by (simp_all only: p e add_0_right)
  have e20: "e \<le> 2 ^ 20 - 4096" using assms(6) u(2) by (simp add: word_le_nat_alt)
  note fc = find_ctx_at [OF tree, of n]
  let ?c = "unat n"
  have start: "lvl1_start T ?c p"
  proof (cases "unat va mod 2 ^ 24 = 0")
    case True
    then have "4096 * p mod (4096 * 4096) = 0" using u(1) by simp
    then have "p mod 4096 = 0" by (simp only: mult_mod_right [symmetric])
    then show ?thesis by (simp add: lvl1_start_def)
  next
    case False
    then obtain w where w: "mmu_walk ?c va M = Some (3, w)" using assms(7) by auto
    have "vp T M ?c p \<noteq> 0" using w walk_vp [OF T assms(3), of va] by (auto simp: p split: if_splits)
    then have "T (P3 ?c (p div 4096) (p div 64 mod 64)) \<noteq> 0" by (auto simp: vp_def pte_def)
    moreover have "T (P2 ?c (p div 4096)) \<noteq> 0" using calculation tree unfolding tbl_tree_ok_def parents_ok_def by metis
    ultimately show ?thesis by (simp add: lvl1_start_def lvl3_start_def)
  qed
  obtain T' M' where r: "srmmu_release_pages A n va va_end M = Some M'" "cleared ok live ?c p e T M T' M'"
  proof (cases "va_end \<le> va")
    case True
    then have "e \<le> p" using u by (simp add: word_le_nat_alt)
    then show ?thesis using that [of M T] True cleared_refl [OF T] by (simp add: srmmu_release_pages_def)
  next
    case False
    obtain T' M' where l: "srmmu_release_lvl1_pages A (ctx_free M ! ?c) va va_end M = Some M'" "cleared ok live ?c p e T M T' M'"
      using lvl1_loop_spec [OF assms(1) T fc(2) [OF assms(3)] u e20 start] by blast
    then show ?thesis using that False fc(1) assms(3) by (simp add: srmmu_release_pages_def)
  qed
  have "map (page_handed ?c M) [p..<e] = map (handed T M ?c) [p..<e]" using handed_walk [OF T assms(3)] e20 by simp
  then have "handed_pages ?c va va_end M = handed_range T M ?c p e" by (simp only: handed_pages_def handed_range_def p e)
  then have "release_ok ok live A n va va_end M M'" unfolding release_ok_def
    using r(2) cleared_walk [OF T r(2) u] by (auto simp: cleared_def mmu_ok_def)
  then show ?thesis using that r(1) by blast
qed

section \<open>Mapping\<close>

definition mapped_ok :: "('s \<Rightarrow> bool) \<Rightarrow> ('s \<Rightarrow> u32 \<Rightarrow> nat option) \<Rightarrow> u32 \<Rightarrow> u32 \<Rightarrow> u32 \<Rightarrow> nat \<Rightarrow> u32 \<Rightarrow> 's mmu \<Rightarrow> 's mmu \<Rightarrow> bool" where
  "mapped_ok ok live n va pa k perm M M' \<longleftrightarrow> mmu_ok ok live M' \<and> same_ctxs M M' \<and> pages_freed M' = pages_freed M
     \<and> (\<forall>d < length (ctx_free M). \<forall>x. mmu_walk d x M' =
          (if d = unat n \<and> unat va \<le> unat x \<and> unat x < unat va + 4096 * k
           then Some (3, SRMMU_PTE (pa + word_of_nat (4096 * (unat x div 4096 - unat va div 4096))) perm) else mmu_walk d x M))"

lemma map_range_spec:
  assumes "good_alloc ok live A" "mmu_ok ok live M" "unat n < length (ctx_free M)" "perm AND NOT 0xfc = 0" "unat va mod 4096 = 0"
    "unat va + 4096 * unat num \<le> 2 ^ 32" "\<forall>x. unat va \<le> unat x \<and> unat x < unat va + 4096 * unat num \<longrightarrow> mmu_walk (unat n) x M = None"
  obtains r k M' where "srmmu_do_small_mapping_range A n va pa num perm M = Some (r, M')" "r = 0 \<and> k = unat num \<or> r = - ENOMEM \<and> k < unat num"
    "mapped_ok ok live n va pa k perm M M'" "can_alloc A (2 * unat num) (tbl_heap M) \<longrightarrow> r = 0"
proof -
  obtain T where T: "good_state ok live T M" using assms(2) by (auto simp: mmu_ok_def)
  have tree: "tbl_tree_ok (live (tbl_heap M)) T M" using T by (simp add: good_state_def)
  define p where p: "p = unat va div 4096"
  have u: "unat va = 4096 * p" using mult_div_mod_eq [of 4096 "unat va"] assms(5) by (simp only: p add_0_right)
  have pk: "p + unat num \<le> 2 ^ 20" using assms(6) u by simp
  have fr: "\<forall>q. p \<le> q \<and> q < p + unat num \<longrightarrow> vp T M (unat n) q = 0 \<and> big T M (unat n) (q div 4096) = 0"
  proof (intro allI impI)
    fix q assume q: "p \<le> q \<and> q < p + unat num"
    let ?x = "word_of_nat (4096 * q) :: u32"
    have x: "unat ?x = 4096 * q" using q pk by (simp only: unat_of_nat) simp
    then have "mmu_walk (unat n) ?x M = None" using assms(7) q u by simp
    then show "vp T M (unat n) q = 0 \<and> big T M (unat n) (q div 4096) = 0"
      using walk_vp [OF T assms(3), of ?x] x by (simp split: if_splits)
  qed
  obtain r j T' M' where s: "small_range (unat num) A n va pa perm M = Some (r, M')" "good_state ok live T' M'" "same_ctxs M M'"
     "pages_freed M' = pages_freed M" "r = 0 \<and> j = unat num \<or> r = - ENOMEM \<and> j < unat num"
     "uses_tbls A (2 * unat num) (tbl_heap M) r (tbl_heap M')" "\<forall>c i. i < 256 \<longrightarrow> big T' M' c i = big T M c i"
     "\<forall>c q. vp T' M' c q = (if c = unat n \<and> p \<le> q \<and> q < p + j then SRMMU_PTE (pa + word_of_nat (4096 * (q - p))) perm else vp T M c q)"
    using small_range_spec [OF assms(1) T assms(3,4) disjI2 [OF p [symmetric]] pk fr, of pa] by blast
  have jk: "j \<le> unat num" using s(5) by auto
  have w: "mmu_walk d x M' = (if d = unat n \<and> unat va \<le> unat x \<and> unat x < unat va + 4096 * j
           then Some (3, SRMMU_PTE (pa + word_of_nat (4096 * (unat x div 4096 - unat va div 4096))) perm) else mmu_walk d x M)"
    if "d < length (ctx_free M)" for d x
  proof -
    let ?q = "unat x div 4096"
    have i: "?q div 4096 < 256" using page_of(4) [of x] by (simp add: div_less_iff_less_mult)
    have "unat va \<le> unat x \<and> unat x < unat va + 4096 * j \<longleftrightarrow> p \<le> ?q \<and> ?q < p + j"
      using u by (simp add: less_eq_div_iff_mult_less_eq div_less_iff_less_mult algebra_simps)
    moreover have "p \<le> ?q \<and> ?q < p + j \<Longrightarrow> d = unat n \<Longrightarrow> big T M d (?q div 4096) = 0" using fr jk by simp
    ultimately show ?thesis using walk_vp [OF s(2), of d x] walk_vp [OF T that, of x] s(3,7,8) i that pte_type(2) [OF assms(4)]
      by (auto simp: same_ctxs_def p)
  qed
  have "srmmu_do_small_mapping_range A n va pa num perm M = Some (r, M')"
    using s(1) find_ctx_at(3) [OF tree, of n] assms(3) by (simp add: srmmu_do_small_mapping_range_def)
  moreover have "mapped_ok ok live n va pa j perm M M'" using w s(2-4) by (auto simp: mapped_ok_def mmu_ok_def)
  moreover have "can_alloc A (2 * unat num) (tbl_heap M) \<longrightarrow> r = 0" using s(5,6) unfolding uses_tbls_def by (metis add_0_right)
  ultimately show ?thesis using that [OF _ s(5)] by blast
qed

end
