(* ===== verification/Srmmu_Props.thy ===== *)
theory Srmmu_Props
  imports Srmmu_Walk
begin

text \<open>
  What the page tables do, for an allocator with the law \<^term>\<open>good_alloc\<close>.
\<close>

section \<open>Initialisation\<close>

lemma select_ok:
  assumes "good_alloc ok live A" "good_state ok live T M" "unat n < length (ctx_free M)"
  shows "\<exists>M'. srmmu_select_ctx n (M\<lparr>mmu_ctx_cur := c\<rparr>) = (0, M') \<and> good_state ok live T M' \<and> ctx_free M' = ctx_free M \<and> tbl_heap M' = tbl_heap M
     \<and> pages_freed M' = pages_freed M \<and> (\<forall>d x. mmu_walk d x M' = mmu_walk d x M) \<and> mmu_ctx_reg M' = n"
proof -
  have tree: "tbl_tree_ok (live (tbl_heap M)) T M" using assms(2) by (simp add: good_state_def)
  note fc = find_ctx_at [OF tree, of n]
  define M' where "M' = M\<lparr>mmu_ctx_cur := Some (ctx_free M ! unat n), mmu_ctx_reg := n\<rparr>"
  have "mmu_find_ctx n (M\<lparr>mmu_ctx_cur := c\<rparr>) = mmu_find_ctx n M" by (simp add: mmu_find_ctx_def split: option.split)
  then have "srmmu_select_ctx n (M\<lparr>mmu_ctx_cur := c\<rparr>) = (0, M')" using fc(1,3) assms(3)
    by (simp add: srmmu_select_ctx_def mmu_set_current_ctx_def M'_def)
  moreover have "tbl_tree_ok (live (tbl_heap M)) T M'"
  proof -
    have c: "ctxs_ok T M'" using tree by (simp add: tbl_tree_ok_def ctxs_ok_def M'_def)
    have b: "blk T M' p = blk T M p" for p by (simp add: blk_def off_of_def rd_def M'_def)
    have "tab_ok (live (tbl_heap M)) T M' p" if "T p \<noteq> 0" for p
      by (rule tab_ok_cong [OF good_bd [OF assms(1,2)], of T M]) (use tree that in \<open>auto simp: tbl_tree_ok_def M'_def\<close>)
    then show ?thesis using tree c b by (simp add: tbl_tree_ok_def apart_def)
  qed
  moreover have "mmu_walk d x M' = mmu_walk d x M" for d x
  proof -
    have "rd a M' = rd a M" "mmu_ctp M' = mmu_ctp M" for a by (simp_all add: rd_def M'_def)
    then show ?thesis by (simp only: mmu_walk_def)
  qed
  ultimately show ?thesis using assms(2) by (intro exI [of _ M']) (simp add: good_state_def M'_def)
qed

lemma init_spec:
  assumes "good_alloc ok live A" "ok (tbl_heap M)" "mmu_num_ctp M = 0"
  obtains r M' where "srmmu_init A M = Some (r, M')" "pages_freed M' = pages_freed M"
    "r = - ENOMEM \<or> r = 0 \<and> mmu_ok ok live M' \<and> length (ctx_free M') = 1 \<and> (\<forall>x. mmu_walk 0 x M' = None) \<and> mmu_ctx_reg M' = 0"
proof -
  let ?M0 = "M\<lparr>ctx_free := [], ctx_used := []\<rparr>"
  obtain x h where al: "ta_alloc A 0x800 (tbl_heap M) = (x, h)" by fastforce
  note g = good_allocD [OF assms(1,2)]
  have h: "ok h" using g(2) [OF al] .
  note d = srmmu_init_def Let_def
  show ?thesis
  proof (cases "x = 0")
    case True
    then show ?thesis using that [of "- ENOMEM" "?M0\<lparr>tbl_heap := h\<rparr>"] al by (simp add: d)
  next
    case False
    define M1 where "M1 = ?M0\<lparr>tbl_heap := h, mmu_ctp := replicate 256 0\<rparr>"
    let ?Z = "\<lambda>_. 0 :: u32"
    have z: "good_state ok live ?Z M1" using h assms(3)
      by (simp add: good_state_def tbl_tree_ok_def apart_def parents_ok_def ctxs_ok_def M1_def)
    have l: "length (ctx_free M1) < 256" by (simp add: M1_def)
    obtain r T M2 where s: "srmmu_new_ctx A M1 = Some (r, M2)" "good_state ok live T M2" "views_same ?Z M1 T M2" "pages_freed M2 = pages_freed M1"
      "r = int (length (ctx_free M1)) \<and> length (ctx_free M2) = Suc (length (ctx_free M1)) \<or> r = - ENOMEM \<and> same_ctxs M1 M2 \<and> T = ?Z"
      by (rule new_ctx_spec [OF assms(1) z l])
    show ?thesis
    proof (cases "r = 0")
      case False
      then have "srmmu_init A M = Some (- ENOMEM, M2)" "r = - ENOMEM" using al \<open>x \<noteq> 0\<close> s(1,5) by (auto simp: d M1_def)
      then show ?thesis using that [of "- ENOMEM" M2] s(4) by (simp add: M1_def)
    next
      case True
      have len: "length (ctx_free M2) = 1" using s(5) True by (auto simp: M1_def)
      have tree: "tbl_tree_ok (live (tbl_heap M2)) T M2" using s(2) by (simp add: good_state_def)
      have n0: "unat (0 :: u32) < length (ctx_free M2)" using len by simp
      obtain M4 where M4: "srmmu_select_ctx 0 (M2\<lparr>mmu_ctx_cur := Some (ctx_free M2 ! 0)\<rparr>) = (0, M4)" "good_state ok live T M4"
        "ctx_free M4 = ctx_free M2" "pages_freed M4 = pages_freed M2" "\<forall>d x. mmu_walk d x M4 = mmu_walk d x M2" "mmu_ctx_reg M4 = 0"
        using select_ok [OF assms(1) s(2) n0, of "Some (ctx_free M2 ! 0)"] by metis
      have f2: "mmu_find_ctx 0 M2 = Some (ctx_free M2 ! 0)" using find_ctx_at(1) [OF tree, of 0] len by simp
      have R: "srmmu_init A M = Some (0, M4)" using al \<open>x \<noteq> 0\<close> s(1) True f2 M4(1) by (simp add: d M1_def mmu_set_current_ctx_def)
      have "mmu_walk 0 x M4 = None" for x
      proof -
        have i: "unat x div 4096 div 4096 < 256" using page_of(4) [of x] by (simp add: div_less_iff_less_mult)
        have "big T M2 0 (unat x div 4096 div 4096) = 0" "vp T M2 0 (unat x div 4096) = 0"
          using s(3) i by (simp_all add: views_same_def vp_def big_def pte_def)
        then show ?thesis using walk_vp [OF s(2), of 0 x] len M4(5) by simp
      qed
      then show ?thesis using that [OF R] len s(4) M4(2-4,6) by (auto simp: mmu_ok_def M1_def)
    qed
  qed
qed

section \<open>An example\<close>

text \<open>Blocks are taken from increasing addresses, all of them 8 bytes behind a multiple of 256.\<close>

record bump_heap =
  bump_next :: nat
  bump_blocks :: "(u32 \<times> nat) list"

definition bump_alloc :: "u32 \<Rightarrow> bump_heap \<Rightarrow> u32 \<times> bump_heap" where
  "bump_alloc n h =
     (let nx = bump_next h + (unat n div 256 + 1) * 256 in
      if nx < 2 ^ 32 then (word_of_nat (bump_next h), h\<lparr>bump_next := nx, bump_blocks := (word_of_nat (bump_next h), unat n) # bump_blocks h\<rparr>)
      else (0, h))"

definition bump_free :: "u32 \<Rightarrow> bump_heap \<Rightarrow> bump_heap" where
  "bump_free a h = h\<lparr>bump_blocks := filter (\<lambda>b. fst b \<noteq> a) (bump_blocks h)\<rparr>"

definition bump :: "bump_heap tbl_alloc" where
  "bump = \<lparr>ta_alloc = bump_alloc, ta_free = bump_free\<rparr>"

text \<open>The state before the initialisation.\<close>

definition boot_mmu :: "bump_heap mmu" where
  "boot_mmu = \<lparr>words = \<lambda>_. 0, mmu_ctp = [], mmu_num_ctp = 0, mmu_ctx_cur = None, ctx_free = [], ctx_used = [], pages_freed = [],
     mmu_ctx_reg = 0, tbl_heap = \<lparr>bump_next = 0x40000008, bump_blocks = []\<rparr>\<rparr>"

section \<open>Properties\<close>

text \<open>The initialisation returns, and if it does not report that there is no memory, it leaves well-formed tables with
  one context, in which no address is mapped.\<close>

theorem srmmu_init_ok:
  assumes "good_alloc ok live A" "ok (tbl_heap M)" "mmu_num_ctp M = 0"
  shows "\<exists>r M'. srmmu_init A M = Some (r, M') \<and>
     (r = - ENOMEM \<or> r = 0 \<and> mmu_ok ok live M' \<and> length (ctx_free M') = 1 \<and> (\<forall>x. mmu_phys 0 x M' = None) \<and> mmu_ctx_reg M' = 0)"
proof -
  obtain r M' where "srmmu_init A M = Some (r, M')"
    "r = - ENOMEM \<or> r = 0 \<and> mmu_ok ok live M' \<and> length (ctx_free M') = 1 \<and> (\<forall>x. mmu_walk 0 x M' = None) \<and> mmu_ctx_reg M' = 0"
    by (rule init_spec [OF assms])
  then show ?thesis by (auto simp: mmu_phys_def)
qed

text \<open>Mapping a range of small pages that are not mapped yet maps them one after the other: afterwards the first \<open>k\<close>
  pages, all of them if 0 is returned, have the physical addresses of the range in the context, the translation of all other
  addresses in all contexts is as before, and the tables are well-formed.  The only other result is that there is no memory, and it does not occur as long as the allocator gives two tables for each page.\<close>

theorem small_range_maps:
  assumes "good_alloc ok live A" "mmu_ok ok live M" "unat n < length (ctx_free M)" "perm AND NOT 0xfc = 0"
    "unat va mod 4096 = 0" "unat pa mod 4096 = 0" "unat va + 4096 * unat num \<le> 2 ^ 32"
    "\<forall>x. unat va \<le> unat x \<and> unat x < unat va + 4096 * unat num \<longrightarrow> mmu_walk (unat n) x M = None"
  shows "\<exists>r k M'. srmmu_do_small_mapping_range A n va pa num perm M = Some (r, M') \<and> mmu_ok ok live M' \<and> same_ctxs M M'
     \<and> (r = 0 \<and> k = unat num \<or> r = - ENOMEM \<and> k < unat num) \<and> (can_alloc A (2 * unat num) (tbl_heap M) \<longrightarrow> r = 0)
     \<and> (\<forall>d < length (ctx_free M). \<forall>x. mmu_phys d x M' =
          (if d = unat n \<and> unat va \<le> unat x \<and> unat x < unat va + 4096 * k then Some (pa + (x - va)) else mmu_phys d x M))"
proof -
  obtain r k M' where s: "srmmu_do_small_mapping_range A n va pa num perm M = Some (r, M')" "r = 0 \<and> k = unat num \<or> r = - ENOMEM \<and> k < unat num"
    "mapped_ok ok live n va pa k perm M M'" "can_alloc A (2 * unat num) (tbl_heap M) \<longrightarrow> r = 0" by (rule map_range_spec [OF assms(1-5,7,8)])
  have "mmu_phys d x M' = (if d = unat n \<and> unat va \<le> unat x \<and> unat x < unat va + 4096 * k then Some (pa + (x - va)) else mmu_phys d x M)"
    if "d < length (ctx_free M)" for d x
  proof (cases "d = unat n \<and> unat va \<le> unat x \<and> unat x < unat va + 4096 * k")
    case True
    then have "mmu_walk d x M' = Some (3, SRMMU_PTE (pa + word_of_nat (4096 * (unat x div 4096 - unat va div 4096))) perm)"
      using s(3) that by (simp add: mapped_ok_def)
    moreover have "unat va \<le> unat x" using True by simp
    note phys_small [OF assms(5,6) this assms(4)]
    ultimately show ?thesis using True unfolding mmu_phys_def by (simp only: option.map split_conv page_bits.simps) simp
  next
    case False
    then have "mmu_walk d x M' = mmu_walk d x M" using s(3) that by (simp only: mapped_ok_def if_False)
    then show ?thesis using False by (simp only: mmu_phys_def if_False)
  qed
  then show ?thesis using s by (intro exI [of _ r] exI [of _ k] exI [of _ M']) (simp add: mapped_ok_def)
qed

text \<open>The release of a range returns, keeps the tables well-formed, unmaps the pages that begin in the range and only these,
  and hands each of their physical pages back once, in the order of the addresses.  The start has to be a multiple of 16 MiB, or
  to be mapped by a small page.\<close>

theorem release_unmaps:
  assumes "good_alloc ok live A" "mmu_ok ok live M" "unat n < length (ctx_free M)" "unat va mod 4096 = 0" "unat va_end mod 4096 = 0"
    "va_end \<le> 0xff000000" "unat va mod 2 ^ 24 = 0 \<or> (\<exists>e. mmu_walk (unat n) va M = Some (3, e))"
  shows "\<exists>M'. srmmu_release_pages A n va va_end M = Some M' \<and> mmu_ok ok live M' \<and> same_ctxs M M'
     \<and> pages_freed M' = pages_freed M @ handed_pages (unat n) va va_end M
     \<and> (\<forall>d < length (ctx_free M). \<forall>x. mmu_walk d x M' =
          (case mmu_walk d x M of Some (l, e) \<Rightarrow> if d = unat n \<and> page_in va va_end l x then None else Some (l, e) | None \<Rightarrow> None))"
  by (rule release_spec [OF assms]) (auto simp: release_ok_def)

lemma map_undone:
  assumes "good_state ok live T M" "d < length (ctx_free M)"
    "\<And>x. mmu_walk d x M1 = (if d = c \<and> unat va \<le> unat x \<and> unat x < unat va_end then Some (3, f x) else mmu_walk d x M)"
    "c < length (ctx_free M)" "unat va mod 4096 = 0" "unat va_end mod 4096 = 0" "unat va_end = unat va + k"
    "\<forall>x. unat va \<le> unat x \<and> unat x < unat va + k \<longrightarrow> mmu_walk c x M = None"
  shows "(case mmu_walk d x M1 of Some (l, e) \<Rightarrow> if d = c \<and> page_in va va_end l x then None else Some (l, e) | None \<Rightarrow> None) = mmu_walk d x M"
proof (cases "d = c")
  case True
  define p e q where p: "p = unat va div 4096" and e: "e = unat va_end div 4096" and q: "q = unat x div 4096"
  have u: "unat va = 4096 * p" "unat va_end = 4096 * e"
    using mult_div_mod_eq [of 4096 "unat va"] mult_div_mod_eq [of 4096 "unat va_end"] assms(5,6) by (simp_all only: p e add_0_right)
  note pi = page_in_eq [OF u q [symmetric]]
  have r: "unat va \<le> unat x \<and> unat x < unat va_end \<longleftrightarrow> p \<le> q \<and> q < e"
    using u by (simp add: q less_eq_div_iff_mult_less_eq div_less_iff_less_mult algebra_simps)
  show ?thesis
  proof (cases "p \<le> q \<and> q < e")
    case in_r: True
    then have "mmu_walk d x M1 = Some (3, f x)" using assms(3) True r by simp
    moreover have "mmu_walk d x M = None" using assms(7,8) in_r r True by simp
    ultimately show ?thesis using pi(1) in_r True by simp
  next
    case out: False
    then have w: "mmu_walk d x M1 = mmu_walk d x M" using assms(3) [of x] r by auto
    have "\<not> page_in va va_end l x" if l: "mmu_walk d x M = Some (l, v)" for l v
    proof (cases "l = 3")
      case False
      have b: "big T M c (q div 4096) \<noteq> 0" "l = 1" using l False walk_vp [OF assms(1,2), of x] True by (auto simp: q split: if_splits)
      show ?thesis
      proof
        assume "page_in va va_end l x"
        then have i: "p \<le> 4096 * (q div 4096)" "4096 * (q div 4096) < e" using pi(2) b(2) by simp_all
        let ?x = "word_of_nat (4096 * (4096 * (q div 4096))) :: u32"
        have "4096 * (4096 * (q div 4096)) < 2 ^ 32" using i(2) u(2) unat_lt_32 [of va_end] by linarith
        then have x: "unat ?x = 4096 * (4096 * (q div 4096))" by (simp only: unat_of_nat) simp
        then have "unat va \<le> unat ?x \<and> unat ?x < unat va_end" using i u by simp
        then have "mmu_walk c ?x M = None" using assms(7,8) by simp
        then show False using walk_vp [OF assms(1,4), of ?x] x b(1) by (simp split: if_splits)
      qed
    qed (use out pi(1) in simp)
    then show ?thesis using w by (auto split: option.split)
  qed
next
  case False
  then show ?thesis using assms(3) by (auto split: option.split)
qed

lemma handed_mapped:
  assumes "perm AND NOT 0xfc = 0" "unat va mod 4096 = 0" "unat pa mod 4096 = 0" "unat va_end = unat va + 4096 * k"
    "\<And>x. unat va \<le> unat x \<Longrightarrow> unat x < unat va + 4096 * k \<Longrightarrow>
       mmu_walk c x M = Some (3, SRMMU_PTE (pa + word_of_nat (4096 * (unat x div 4096 - unat va div 4096))) perm)"
  shows "handed_pages c va va_end M = map (\<lambda>i. pa + word_of_nat (4096 * i)) [0..<k]"
proof -
  define p where p: "p = unat va div 4096"
  have u: "unat va = 4096 * p" using mult_div_mod_eq [of 4096 "unat va"] assms(2) by (simp only: p add_0_right)
  have e: "unat va_end div 4096 = p + k" using assms(4) u by simp
  have h: "page_handed c M (p + i) = [pa + word_of_nat (4096 * i)]" if "i < k" for i
  proof -
    let ?x = "word_of_nat (4096 * (p + i)) :: u32"
    have "4096 * (p + i) < 2 ^ 32" using that assms(4) u unat_lt_32 [of va_end] by simp
    then have x: "unat ?x = 4096 * (p + i)" by (simp only: unat_of_nat) simp
    then have "mmu_walk c ?x M = Some (3, SRMMU_PTE (pa + word_of_nat (4096 * (unat ?x div 4096 - unat va div 4096))) perm)"
      using that u by (intro assms(5)) simp_all
    also have "unat ?x div 4096 - unat va div 4096 = i" using x u by simp
    finally have w: "mmu_walk c ?x M = Some (3, SRMMU_PTE (pa + word_of_nat (4096 * i)) perm)" .
    show ?thesis unfolding page_handed_def w by (simp only: option.case split_conv pte_type(3) [OF assms(1)] aligned_floor [OF assms(3)]) simp
  qed
  have "[p..<p + k] = map (\<lambda>i. i + p) [0..<k]" using map_add_upt [of p k] by (simp add: add.commute)
  then have "map (page_handed c M) [p..<p + k] = map (\<lambda>i. [pa + word_of_nat (4096 * i)]) [0..<k]" using h by (simp add: add.commute)
  then have "handed_pages c va va_end M = concat (map (\<lambda>i. [pa + word_of_nat (4096 * i)]) [0..<k])" unfolding handed_pages_def e p [symmetric] by (rule arg_cong)
  then show ?thesis by (simp only: concat_map_singleton)
qed

text \<open>Releasing a range of pages that has just been mapped gives the translation before the mapping, and exactly the
  physical pages of the range, in their order.\<close>

theorem map_release:
  assumes "good_alloc ok live A" "mmu_ok ok live M" "unat n < length (ctx_free M)" "perm AND NOT 0xfc = 0"
    "unat va mod 4096 = 0" "unat pa mod 4096 = 0" "unat va + 4096 * unat num \<le> 0xff000000"
    "\<forall>x. unat va \<le> unat x \<and> unat x < unat va + 4096 * unat num \<longrightarrow> mmu_walk (unat n) x M = None"
    "srmmu_do_small_mapping_range A n va pa num perm M = Some (0, M1)"
  shows "\<exists>M2. srmmu_release_pages A n va (va + 4096 * num) M1 = Some M2 \<and> mmu_ok ok live M2
     \<and> (\<forall>d < length (ctx_free M). \<forall>x. mmu_walk d x M2 = mmu_walk d x M)
     \<and> pages_freed M2 = pages_freed M @ map (\<lambda>i. pa + word_of_nat (4096 * i)) [0..<unat num]"
proof -
  have le: "unat va + 4096 * unat num \<le> 2 ^ 32" using assms(7) by simp
  obtain r k M1' where s: "srmmu_do_small_mapping_range A n va pa num perm M = Some (r, M1')" "r = 0 \<and> k = unat num \<or> r = - ENOMEM \<and> k < unat num"
    "mapped_ok ok live n va pa k perm M M1'" "can_alloc A (2 * unat num) (tbl_heap M) \<longrightarrow> r = 0" by (rule map_range_spec [OF assms(1-5) le assms(8)])
  have k: "k = unat num" "M1' = M1" using s(1,2) assms(9) by auto
  note m = s(3) [unfolded k]
  have e: "unat (va + 4096 * num) = unat va + 4096 * unat num"
  proof -
    have "unat (4096 * num) = 4096 * unat num" using assms(7) by (subst unat_mult_lem [THEN iffD1]) auto
    then show ?thesis using assms(7) by (subst unat_add_lem [THEN iffD1]) auto
  qed
  have ok1: "mmu_ok ok live M1" "unat n < length (ctx_free M1)" "length (ctx_free M1) = length (ctx_free M)" using m assms(3)
    by (simp_all add: mapped_ok_def same_ctxs_def)
  have w: "mmu_walk d x M1 = (if d = unat n \<and> unat va \<le> unat x \<and> unat x < unat (va + 4096 * num)
           then Some (3, SRMMU_PTE (pa + word_of_nat (4096 * (unat x div 4096 - unat va div 4096))) perm) else mmu_walk d x M)"
    if "d < length (ctx_free M)" for d x using m that e by (simp add: mapped_ok_def)
  have al: "unat (va + 4096 * num) mod 4096 = 0" "va + 4096 * num \<le> 0xff000000" using e assms(5,7) by (simp_all add: word_le_nat_alt)
  obtain T where T: "good_state ok live T M" using assms(2) by (auto simp: mmu_ok_def)
  show ?thesis
  proof (cases "num = 0")
    case True
    then show ?thesis using m w ok1 e by (intro exI [of _ M1]) (auto simp: srmmu_release_pages_def mapped_ok_def)
  next
    case False
    then have "0 < unat num" by (simp add: unat_gt_0)
    then have "mmu_walk (unat n) va M1 = Some (3, SRMMU_PTE pa perm)" using w [OF assms(3), of va] e by simp
    then have st: "unat va mod 2 ^ 24 = 0 \<or> (\<exists>e. mmu_walk (unat n) va M1 = Some (3, e))" by simp
    obtain M2 where r: "srmmu_release_pages A n va (va + 4096 * num) M1 = Some M2" "release_ok ok live A n va (va + 4096 * num) M1 M2"
      by (rule release_spec [OF assms(1) ok1(1,2) assms(5) al st])
    have "mmu_walk d x M2 = mmu_walk d x M" if "d < length (ctx_free M)" for d x
      using r(2) that ok1(3) map_undone [OF T that w [OF that] assms(3,5) al(1) e assms(8)] by (simp add: release_ok_def)
    moreover have "handed_pages (unat n) va (va + 4096 * num) M1 = map (\<lambda>i. pa + word_of_nat (4096 * i)) [0..<unat num]"
      by (rule handed_mapped [OF assms(4-6) e]) (use w [OF assms(3)] e in simp)
    ultimately show ?thesis using r m by (intro exI [of _ M2]) (simp add: release_ok_def mapped_ok_def)
  qed
qed

text \<open>C40: the context number 256 does not fail as the documentation says, but is written behind the table of contexts.\<close>

theorem srmmu_new_ctx_overflow:
  assumes "length (mmu_ctp M) = SRMMU_CONTEXTS" "unat (mmu_num_ctp M) = SRMMU_CONTEXTS" "fst (ta_alloc A 32 (tbl_heap M)) \<noteq> 0"
    "fst (mmu_alloc_tbl A 0x400 (M\<lparr>tbl_heap := snd (ta_alloc A 32 (tbl_heap M))\<rparr>)) \<noteq> 0"
  shows "srmmu_new_ctx A M = None"
proof -
  obtain x h where al: "ta_alloc A 32 (tbl_heap M) = (x, h)" by fastforce
  obtain a M1 where tb: "mmu_alloc_tbl A 0x400 (M\<lparr>tbl_heap := h\<rparr>) = (a, M1)" by fastforce
  have "mmu_ctp M1 = mmu_ctp M" "mmu_num_ctp M1 = mmu_num_ctp M"
    using tb by (auto simp: mmu_alloc_tbl_def Let_def wr_def split: prod.splits if_splits)
  then show ?thesis using assms al tb
    by (simp add: srmmu_new_ctx_def mmu_alloc_lvl1_tbl_def mmu_set_lvl1_tbl_invalid_def mmu_add_ctx_def set_invalid_ctxs)
qed

theorem srmmu_new_ctx_overflow_witness:
  "srmmu_new_ctx bump (boot_mmu\<lparr>mmu_ctp := replicate 256 0, mmu_num_ctp := 256\<rparr>) = None"
  by (rule srmmu_new_ctx_overflow)
    (simp_all add: boot_mmu_def bump_def bump_alloc_def mmu_alloc_tbl_def Let_def align_up_def align_mask_def)

text \<open>A release that begins in 16 MiB without tables, at an address that is not a multiple of 16 MiB, skips the pages of the
  next 16 MiB: nothing is released if the range is not longer than this.\<close>

theorem srmmu_release_skips:
  assumes "mmu_find_ctx n M = Some ctx" "rd (lvl1 ctx + 4 * SRMMU_LVL1_GET_TBL_OFFSET va) M = 0" "unat va + 2 ^ 24 < 2 ^ 32"
    "unat va_end \<le> unat va + 2 ^ 24"
  shows "srmmu_release_pages A n va va_end M = Some M"
proof (cases "va < va_end")
  case True
  have "unat (va + 0x1000000) = unat va + 0x1000000" using unat_plus [where va = va and n = "0x1000000"] assms(3) by simp
  then have "\<not> va + 0x1000000 < va_end" using assms(4) by (simp add: word_less_nat_alt)
  then show ?thesis using True assms(1,2)
    by (simp add: srmmu_release_pages_def srmmu_release_lvl1_pages.simps [of A ctx va] srmmu_release_lvl1_pages.simps [of A ctx "va + 0x1000000"])
qed (use assms(1) in \<open>simp add: srmmu_release_pages_def not_less\<close>)

theorem srmmu_release_skips_witness:
  "srmmu_release_pages bump 0 0x00fff000 0x01fff000 (boot_mmu\<lparr>ctx_free := [\<lparr>mc_addr = 8, lvl1 = 0x1000, ctx_num = 0\<rparr>], mmu_num_ctp := 1,
     words := (\<lambda>_. 0)(0x1004 := 0x300001)\<rparr>)
   = Some (boot_mmu\<lparr>ctx_free := [\<lparr>mc_addr = 8, lvl1 = 0x1000, ctx_num = 0\<rparr>], mmu_num_ctp := 1, words := (\<lambda>_. 0)(0x1004 := 0x300001)\<rparr>)"
  by (rule srmmu_release_skips [where ctx = "\<lparr>mc_addr = 8, lvl1 = 0x1000, ctx_num = 0\<rparr>"])
    (simp_all add: mmu_find_ctx_def boot_mmu_def rd_def SRMMU_LVL1_GET_TBL_OFFSET_def)

end
