(* ===== verification/Srmmu_Large.thy ===== *)
theory Srmmu_Large
  imports Srmmu_Props
begin

text \<open>
  Large mappings.  The code does not look at what the entry of level 1 held before: tables below it stay allocated.
\<close>

section \<open>One entry of level 1\<close>

definition prune :: "nat \<Rightarrow> nat \<Rightarrow> ttree \<Rightarrow> ttree" where
  "prune c i T = (\<lambda>p. if p = P2 c i \<or> (\<exists>j. p = P3 c i j) then 0 else T p)"

lemma prune_simps [simp]:
  "prune c i T (P1 d) = T (P1 d)"
  "prune c i T (P2 d k) = (if d = c \<and> k = i then 0 else T (P2 d k))"
  "prune c i T (P3 d k j) = (if d = c \<and> k = i then 0 else T (P3 d k j))"
  by (auto simp: prune_def)

lemma large_write:
  assumes "good_alloc ok live A" "good_state ok live T M" "T (P1 c) \<noteq> 0" "i < 256" "e AND 3 = 2"
  defines "M' \<equiv> wr (ent (T (P1 c)) i) e M"
  shows "good_state ok live (prune c i T) M'" "k < 256 \<Longrightarrow> big (prune c i T) M' d k = (if d = c \<and> k = i then e else big T M d k)"
    "l < 64 \<Longrightarrow> pte (prune c i T) M' d k j l = (if d = c \<and> k = i then 0 else pte T M d k j l)"
proof -
  let ?p = "P1 c" let ?T = "prune c i T"
  have tree: "tbl_tree_ok (live (tbl_heap M)) T M" and bd: "blocks_disjoint (live (tbl_heap M))"
    using assms(2) good_bd [OF assms(1,2)] by (simp_all add: good_state_def)
  have i: "i < slots ?p" using assms(4) by simp
  note f = foot_words [OF bd tree_hdr [OF tree assms(3)]]
  have w: "words M' x = words M x" if "x \<noteq> ent (T ?p) i" for x using that by (simp add: M'_def wr_def)
  have e: "rd (ent (T ?p) i) M' = e" by (simp add: M'_def rd_def wr_def)
  have re: "rd (ent (T ?p) l) M' = rd (ent (T ?p) l) M" if "l < 256" "l \<noteq> i" for l
    unfolding rd_def using that f(7) [OF _ i, of l] by (intro w) auto
  have same: "words M' x = words M x" if "r \<noteq> ?p" "T r \<noteq> 0" "x \<in> foot (slots r) (T r)" for r x
    using feet_disjoint [OF bd tree that(1,2) assms(3)] that(3) f(3) [OF i] by (intro w) auto
  have sub: "T r \<noteq> 0 \<and> ?T r = T r" if "?T r \<noteq> 0" for r using that by (auto simp: prune_def split: if_splits)
  have hdr: "rd (T r - 4) M' = rd (T r - 4) M" if "T r \<noteq> 0" for r
  proof (cases "r = ?p")
    case True
    then show ?thesis unfolding rd_def using f(5) [OF i] by (intro w) auto
  next
    case False
    then show ?thesis using same [OF False that] foot_words(1) [OF bd tree_hdr [OF tree that]] by (simp add: rd_def)
  qed
  have b: "blk ?T M' r = blk T M r" if "?T r \<noteq> 0" for r using sub [OF that] hdr [of r] off_of_cong by (simp add: blk_def)
  have tab: "tab_ok (live (tbl_heap M)) ?T M' r" if r: "?T r \<noteq> 0" for r
  proof (cases "r = ?p")
    case True
    have "tbl_hdr_ok (live (tbl_heap M)) M (slots ?p) (T ?p)" by (rule tree_hdr [OF tree assms(3)])
    then have "tbl_hdr_ok (live (tbl_heap M)) M' (slots ?p) (T ?p)" using hdr [OF assms(3)] off_of_cong [OF hdr [OF assms(3)]] by (simp add: tbl_hdr_ok_def)
    moreover have "let e = rd (ent (T ?p) l) M' in if ?T (P2 c l) \<noteq> 0 then e = SRMMU_PTD (?T (P2 c l)) else e = 0 \<or> e AND 3 = 2" if "l < 256" for l
      using tree_entry1 [OF tree assms(3) that] re [OF that] e assms(5) by (cases "l = i") (auto simp: Let_def)
    ultimately show ?thesis using True by (simp add: tab_ok_def)
  next
    case False
    have Tr: "T r \<noteq> 0" "?T r = T r" using sub [OF r] by simp_all
    have "tab_ok (live (tbl_heap M)) T M r" using tree Tr by (simp add: tbl_tree_ok_def)
    then show ?thesis
    proof (rule tab_ok_cong [OF bd])
      show "?T s = T s" if "child r s" for s using that False r by (cases r) (auto split: if_splits)
    qed (use same [OF False Tr(1)] Tr(2) in auto)
  qed
  have ap: "apart ?T M'" unfolding apart_def
  proof (intro allI impI)
    fix r s assume "r \<noteq> s" "?T r \<noteq> 0" "?T s \<noteq> 0"
    then show "blk ?T M' r \<noteq> blk ?T M' s" using b [of r] b [of s] sub [of r] sub [of s] tree by (auto simp: tbl_tree_ok_def apart_def)
  qed
  have par: "parents_ok T" "ctxs_ok T M" using tree by (simp_all add: tbl_tree_ok_def)
  have "parents_ok ?T" using par(1) by (auto simp: parents_ok_def)
  moreover have "ctxs_ok ?T M'" by (rule ctxs_ok_cong [OF par(2)]) (simp_all add: M'_def wr_def same_ctxs_def)
  ultimately show "good_state ok live ?T M'" using tab ap assms(2) by (simp add: good_state_def tbl_tree_ok_def M'_def wr_def)
  have other: "rd (ent (T r) l) M' = rd (ent (T r) l) M" if "T r \<noteq> 0" "r \<noteq> ?p" "l < slots r" for r l
    by (rule entry_same [OF bd tree that(1,3)]) (rule same [OF that(2,1)])
  show "k < 256 \<Longrightarrow> big ?T M' d k = (if d = c \<and> k = i then e else big T M d k)"
    using other [of "P1 d" k] re [of k] e assms(3) by (auto simp: big_def)
  show "l < 64 \<Longrightarrow> pte ?T M' d k j l = (if d = c \<and> k = i then 0 else pte T M d k j l)"
    using other [of "P3 d k j" l] by (auto simp: pte_def)
qed

section \<open>Ranges\<close>

definition large_ok :: "('s \<Rightarrow> bool) \<Rightarrow> ('s \<Rightarrow> u32 \<Rightarrow> nat option) \<Rightarrow> nat \<Rightarrow> u32 \<Rightarrow> u32 \<Rightarrow> nat \<Rightarrow> u32 \<Rightarrow> 's mmu \<Rightarrow> 's mmu \<Rightarrow> bool" where
  "large_ok ok live n va pa k perm M M' \<longleftrightarrow> mmu_ok ok live M' \<and> same_ctxs M M' \<and> pages_freed M' = pages_freed M \<and> tbl_heap M' = tbl_heap M
     \<and> (\<forall>d < length (ctx_free M). \<forall>x. mmu_walk d x M' =
          (if d = n \<and> ix1 va \<le> ix1 x \<and> ix1 x < ix1 va + k then Some (1, SRMMU_PTE (pa + word_of_nat (2 ^ 24 * (ix1 x - ix1 va))) perm)
           else mmu_walk d x M))"

lemma ix1_page: "ix1 x = unat x div 4096 div 4096" "ix1 x < 256"
  using page_of(1) offsets(4) by blast+

lemma large_one:
  assumes "good_alloc ok live A" "mmu_ok ok live M" "unat n < length (ctx_free M)" "perm AND NOT 0xfc = 0"
  obtains M' where "srmmu_do_large_mapping n va pa perm M = (0, M')" "large_ok ok live (unat n) va pa 1 perm M M'"
proof -
  obtain T where T: "good_state ok live T M" using assms(2) by (auto simp: mmu_ok_def)
  have tree: "tbl_tree_ok (live (tbl_heap M)) T M" using T by (simp add: good_state_def)
  note fc = find_ctx_at [OF tree, of n]
  have c: "lvl1 (ctx_free M ! unat n) = T (P1 (unat n))" "T (P1 (unat n)) \<noteq> 0" using fc(2) [OF assms(3)] by (simp_all add: ctx_at_def)
  let ?M = "wr (ent (T (P1 (unat n))) (ix1 va)) (SRMMU_PTE pa perm) M"
  note lw = large_write [OF assms(1) T c(2) ix1_page(2) [of va] pte_type(1) [OF assms(4), of pa]]
  have R: "srmmu_do_large_mapping n va pa perm M = (0, ?M)"
    using fc(1,3) assms(3) c(1) by (simp add: srmmu_do_large_mapping_def ent_offsets)
  have "mmu_walk d x ?M = (if d = unat n \<and> ix1 va \<le> ix1 x \<and> ix1 x < ix1 va + 1 then Some (1, SRMMU_PTE (pa + word_of_nat (2 ^ 24 * (ix1 x - ix1 va))) perm)
           else mmu_walk d x M)" if "d < length (ctx_free M)" for d x
  proof -
    have d: "d < length (ctx_free ?M)" using that by (simp add: wr_def)
    let ?q = "unat x div 4096"
    have i: "?q div 4096 = ix1 x" by (simp add: ix1_page)
    have b: "big (prune (unat n) (ix1 va) T) ?M d (ix1 x) = (if d = unat n \<and> ix1 x = ix1 va then SRMMU_PTE pa perm else big T M d (ix1 x))"
      by (rule lw(2) [OF ix1_page(2)])
    have v: "vp (prune (unat n) (ix1 va) T) ?M d ?q = (if d = unat n \<and> ix1 x = ix1 va then 0 else vp T M d ?q)"
      unfolding vp_def i by (rule lw(3)) simp
    show ?thesis
    proof (cases "d = unat n \<and> ix1 x = ix1 va")
      case True
      then show ?thesis using b pte_type(2) [OF assms(4)] unfolding walk_vp [OF lw(1) d] i by simp
    next
      case False
      have "mmu_walk d x ?M = mmu_walk d x M"
        unfolding walk_vp [OF lw(1) d] walk_vp [OF T that] i b [unfolded if_not_P [OF False]] v [unfolded if_not_P [OF False]] by (rule refl)
      then show ?thesis using False by auto
    qed
  qed
  then have "large_ok ok live (unat n) va pa 1 perm M ?M"
    using lw(1) by (auto simp: large_ok_def mmu_ok_def wr_def same_ctxs_def)
  then show ?thesis using that R by blast
qed

lemma large_range_spec:
  assumes "good_alloc ok live A" "mmu_ok ok live M" "unat n < length (ctx_free M)" "perm AND NOT 0xfc = 0" "ix1 va + k \<le> 256"
  shows "\<exists>M'. large_range k n va pa perm M = (0, M') \<and> large_ok ok live (unat n) va pa k perm M M'"
  using assms(2-)
proof (induction k arbitrary: va pa M)
  case 0
  then show ?case by (auto simp: large_ok_def)
next
  case (Suc k)
  obtain M1 where s: "srmmu_do_large_mapping n va pa perm M = (0, M1)" "large_ok ok live (unat n) va pa 1 perm M M1"
    by (rule large_one [OF assms(1) Suc.prems(1-3)])
  show ?case
  proof (cases "k = 0")
    case True
    then show ?thesis using s by (auto simp: Let_def)
  next
    case False
    have i: "ix1 (va + 0x1000000) = Suc (ix1 va)"
    proof -
      have "unat va div 2 ^ 24 < 255" using Suc.prems(4) False by (simp add: ix1_def)
      then have "unat va + 0x1000000 < 2 ^ 32" by (simp add: div_less_iff_less_mult)
      then have "unat (va + 0x1000000) = unat va + 0x1000000" using unat_plus [where va = va and n = "0x1000000"] by simp
      moreover have "(unat va + 0x1000000) div 0x1000000 = Suc (unat va div 0x1000000)" by (subst div_add_self2) simp_all
      ultimately show ?thesis by (simp add: ix1_def)
    qed
    have ok1: "mmu_ok ok live M1" "unat n < length (ctx_free M1)" "length (ctx_free M1) = length (ctx_free M)"
      using s(2) Suc.prems(2) by (simp_all add: large_ok_def same_ctxs_def)
    obtain M2 where t: "large_range k n (va + 0x1000000) (pa + 0x1000000) perm M1 = (0, M2)"
      "large_ok ok live (unat n) (va + 0x1000000) (pa + 0x1000000) k perm M1 M2"
      using Suc.IH [OF ok1(1,2) Suc.prems(3), of "va + 0x1000000" "pa + 0x1000000"] Suc.prems(4) i by auto
    have w: "pa + 0x1000000 + word_of_nat (2 ^ 24 * (m - Suc (ix1 va))) = pa + word_of_nat (2 ^ 24 * (m - ix1 va))" if "Suc (ix1 va) \<le> m" for m
    proof -
      have "2 ^ 24 * (m - ix1 va) = 2 ^ 24 + 2 ^ 24 * (m - Suc (ix1 va))" using that by (simp add: Suc_diff_Suc algebra_simps flip: Suc_diff_le)
      then show ?thesis by (simp only: of_nat_add) simp
    qed
    have "mmu_walk d x M2 = (if d = unat n \<and> ix1 va \<le> ix1 x \<and> ix1 x < ix1 va + Suc k then Some (1, SRMMU_PTE (pa + word_of_nat (2 ^ 24 * (ix1 x - ix1 va))) perm)
           else mmu_walk d x M)" if "d < length (ctx_free M)" for d x
    proof -
      have m2: "mmu_walk d x M2 = (if d = unat n \<and> Suc (ix1 va) \<le> ix1 x \<and> ix1 x < Suc (ix1 va) + k
          then Some (1, SRMMU_PTE (pa + 0x1000000 + word_of_nat (2 ^ 24 * (ix1 x - Suc (ix1 va)))) perm) else mmu_walk d x M1)"
        using t(2) that unfolding large_ok_def i ok1(3) by blast
      have m1: "mmu_walk d x M1 = (if d = unat n \<and> ix1 va \<le> ix1 x \<and> ix1 x < ix1 va + 1
          then Some (1, SRMMU_PTE (pa + word_of_nat (2 ^ 24 * (ix1 x - ix1 va))) perm) else mmu_walk d x M)"
        using s(2) that unfolding large_ok_def by blast
      show ?thesis
      proof (cases "Suc (ix1 va) \<le> ix1 x")
        case True
        then show ?thesis unfolding m2 w [OF True] m1 by simp
      next
        case False
        then show ?thesis unfolding m2 m1 by auto
      qed
    qed
    then have "large_ok ok live (unat n) va pa (Suc k) perm M M2"
      using s(2) t(2) same_ctxs_trans by (auto simp: large_ok_def)
    then show ?thesis using s(1) t(1) by (auto simp: Let_def)
  qed
qed

text \<open>Mapping a range of large pages does not fail: the large pages of the range have the physical addresses of the range,
  whatever was mapped there before, the translation of other addresses is as before, and the tables are well-formed.\<close>

theorem srmmu_large_range_maps:
  assumes "good_alloc ok live A" "mmu_ok ok live M" "unat n < length (ctx_free M)" "perm AND NOT 0xfc = 0" "unat va div 2 ^ 24 + unat num \<le> 256"
  shows "\<exists>M'. srmmu_do_large_mapping_range n va pa num perm M = (0, M') \<and> mmu_ok ok live M' \<and> same_ctxs M M' \<and> pages_freed M' = pages_freed M
     \<and> (\<forall>d < length (ctx_free M). \<forall>x. mmu_walk d x M' =
          (if d = unat n \<and> unat va div 2 ^ 24 \<le> unat x div 2 ^ 24 \<and> unat x div 2 ^ 24 < unat va div 2 ^ 24 + unat num
           then Some (1, SRMMU_PTE (pa + word_of_nat (2 ^ 24 * (unat x div 2 ^ 24 - unat va div 2 ^ 24))) perm) else mmu_walk d x M))"
proof -
  obtain T where T: "good_state ok live T M" using assms(2) by (auto simp: mmu_ok_def)
  have tree: "tbl_tree_ok (live (tbl_heap M)) T M" using T by (simp add: good_state_def)
  have i: "ix1 va + unat num \<le> 256" using assms(5) by (simp add: ix1_def)
  obtain M' where "large_range (unat num) n va pa perm M = (0, M')" "large_ok ok live (unat n) va pa (unat num) perm M M'"
    using large_range_spec [OF assms(1-4) i] by blast
  then show ?thesis using find_ctx_at(3) [OF tree, of n] assms(3)
    by (intro exI [of _ M']) (simp add: srmmu_do_large_mapping_range_def large_ok_def ix1_def)
qed

end
