(* ===== verification/Chunk.thy ===== *)
theory Chunk
  imports Bit_Ops
begin

text \<open>
  The chunk allocator of \<^verbatim>\<open>lib/chunk.c\<close>.  The headers in front of the chunks are a map from addresses; a header is
  forgotten when its memory goes back to the higher tier memory manager, whose functions are parameters on a state of their
  own.  The lists are lists of the addresses of the chunks.  Reading an address without a header, moving an entry that is on no
  list and a failing \<^verbatim>\<open>BUG_ON\<close> are \<^term>\<open>None\<close>.
\<close>

section \<open>State\<close>

record chunk =
  c_mem :: u32
  c_size :: u32
  c_free :: u32
  c_refcnt :: u32
  c_parent :: u32
  c_child :: u32
  c_sibling :: u32

abbreviation (input) sizeof_chunk :: u32 where "sizeof_chunk \<equiv> 36"

text \<open>The function pointers of a pool.\<close>

record 'p chunk_fns =
  ca_alloc :: "(u32 \<Rightarrow> 'p \<Rightarrow> (u32 \<times> 'p) option) option"
  ca_free :: "u32 \<Rightarrow> 'p \<Rightarrow> 'p option"
  ca_real :: "(u32 \<Rightarrow> 'p \<Rightarrow> u32 option) option"

record 'p chunk_pool =
  cp_full :: "u32 list"
  cp_empty :: "u32 list"
  cp_align :: u32
  heads :: "u32 \<Rightarrow> chunk option"
  cstore :: 'p

definition upd_head :: "u32 \<Rightarrow> (chunk \<Rightarrow> chunk) \<Rightarrow> 'p chunk_pool \<Rightarrow> 'p chunk_pool option" where
  "upd_head c f P = (case heads P c of None \<Rightarrow> None | Some h \<Rightarrow> Some (P\<lparr>heads := (heads P)(c \<mapsto> f h)\<rparr>))"

section \<open>Operations\<close>

definition chunk_align :: "'p chunk_pool \<Rightarrow> u32 \<Rightarrow> u32" where
  "chunk_align P p = align_up p (cp_align P)"

definition unlink_chunk :: "u32 \<Rightarrow> 'p chunk_pool \<Rightarrow> 'p chunk_pool option" where
  "unlink_chunk c P =
     (if c \<in> set (cp_full P) \<union> set (cp_empty P) then Some (P\<lparr>cp_full := remove1 c (cp_full P), cp_empty := remove1 c (cp_empty P)\<rparr>)
      else None)"

definition move_to_full :: "u32 \<Rightarrow> 'p chunk_pool \<Rightarrow> 'p chunk_pool option" where
  "move_to_full c P = do { P \<leftarrow> unlink_chunk c P; Some (P\<lparr>cp_full := cp_full P @ [c]\<rparr>) }"

definition move_to_empty :: "u32 \<Rightarrow> 'p chunk_pool \<Rightarrow> 'p chunk_pool option" where
  "move_to_empty c P = do { P \<leftarrow> unlink_chunk c P; Some (P\<lparr>cp_empty := cp_empty P @ [c]\<rparr>) }"

definition chunk_classify :: "u32 \<Rightarrow> 'p chunk_pool \<Rightarrow> 'p chunk_pool option" where
  "chunk_classify c P = do {
     h \<leftarrow> heads P c;
     if c_free h \<le> sizeof_chunk + cp_align P then move_to_empty c P else move_to_full c P
   }"

definition chunk_setup :: "u32 \<Rightarrow> 'p chunk_pool \<Rightarrow> 'p chunk_pool option" where
  "chunk_setup c P =
     (let m = chunk_align P (c + sizeof_chunk) in
      upd_head c (\<lambda>h. h\<lparr>c_mem := m, c_free := (c + c_size h) - m\<rparr>) P)"

definition chunk_grab_new :: "'p chunk_fns \<Rightarrow> u32 \<Rightarrow> 'p chunk_pool \<Rightarrow> (u32 \<times> 'p chunk_pool) option" where
  "chunk_grab_new F sz P =
     (case ca_alloc F of
        None \<Rightarrow> None
      | Some alloc \<Rightarrow> do {
          (c, s) \<leftarrow> alloc sz (cstore P);
          let P = P\<lparr>cstore := s\<rparr>;
          if c = 0 then Some (0, P)
          else do {
            n \<leftarrow> (case ca_real F of None \<Rightarrow> Some sz | Some real \<Rightarrow> real c s);
            if n < sz then do { s \<leftarrow> ca_free F c s; Some (0, P\<lparr>cstore := s\<rparr>) }
            else do {
              let P = P\<lparr>heads := (heads P)(c \<mapsto> \<lparr>c_mem = 0, c_size = n, c_free = 0, c_refcnt = 0, c_parent = 0, c_child = 0, c_sibling = 0\<rparr>)\<rparr>;
              P \<leftarrow> chunk_setup c P;
              Some (c, P\<lparr>cp_full := cp_full P @ [c]\<rparr>)
            }
          }
        })"

definition chunk_split :: "u32 \<Rightarrow> u32 \<Rightarrow> 'p chunk_pool \<Rightarrow> (u32 \<times> 'p chunk_pool) option" where
  "chunk_split c alloc_sz P = do {
     h \<leftarrow> heads P c;
     if c_free h < alloc_sz then Some (0, P)
     else do {
       let new = c_mem h;
       let P = P\<lparr>heads := (heads P)(new \<mapsto> \<lparr>c_mem = 0, c_size = alloc_sz, c_free = 0, c_refcnt = 1, c_parent = c, c_child = 0, c_sibling = c_child h\<rparr>)\<rparr>;
       P \<leftarrow> chunk_setup new P;
       P \<leftarrow> upd_head new (\<lambda>n. n\<lparr>c_free := 0\<rparr>) P;
       let P = P\<lparr>cp_empty := cp_empty P @ [new]\<rparr>;
       P \<leftarrow> upd_head c (\<lambda>h. let m = chunk_align P (c_mem h + alloc_sz) in
              h\<lparr>c_child := new, c_refcnt := c_refcnt h + 1, c_mem := m, c_free := c + c_size h - m\<rparr>) P;
       P \<leftarrow> chunk_classify c P;
       Some (new, P)
     }
   }"

text \<open>The first chunk of the list with enough free bytes, 0 if there is none.\<close>

fun first_fit_chunk :: "u32 \<Rightarrow> u32 list \<Rightarrow> 'p chunk_pool \<Rightarrow> u32 option" where
  "first_fit_chunk sz [] P = Some 0"
| "first_fit_chunk sz (e # es) P = do { h \<leftarrow> heads P e; if c_free h \<ge> sz then Some e else first_fit_chunk sz es P }"

definition chunk_alloc :: "'p chunk_fns \<Rightarrow> u32 \<Rightarrow> 'p chunk_pool \<Rightarrow> (u32 \<times> 'p chunk_pool) option" where
  "chunk_alloc F sz P =
     (if ca_alloc F = None then Some (0, P)
      else if sz = 0 then Some (0, P)
      else do {
        let alloc_sz = chunk_align P (sz + cp_align P + sizeof_chunk);
        c \<leftarrow> first_fit_chunk alloc_sz (cp_full P) P;
        (c, P) \<leftarrow> (if c = 0 then chunk_grab_new F alloc_sz P else Some (c, P));
        if c = 0 then Some (0, P)
        else do {
          (c, P) \<leftarrow> chunk_split c alloc_sz P;
          if c = 0 then None
          else do { h \<leftarrow> heads P c; Some (c_mem h, P) }
        }
      })"

text \<open>The header of a top level chunk is in the memory that is returned; it is forgotten afterwards.\<close>

partial_function (option) chunk_free :: "'p chunk_fns \<Rightarrow> u32 \<Rightarrow> 'p chunk_pool \<Rightarrow> 'p chunk_pool option" where
  "chunk_free F addr P =
     (if addr = 0 then Some P
      else if ca_alloc F = None then Some P
      else do {
        let c = chunk_align P (addr - sizeof_chunk - cp_align P);
        if addr \<noteq> chunk_align P (c + sizeof_chunk) then None
        else do {
          h \<leftarrow> heads P c;
          if c_parent h = 0 then
            if c_refcnt h \<noteq> 0 then None
            else do {
              s \<leftarrow> ca_free F c (cstore P);
              unlink_chunk c (P\<lparr>cstore := s, heads := (heads P)(c := None)\<rparr>)
            }
          else do {
            let p = c_parent h;
            hp \<leftarrow> heads P p;
            if addr < p then Some P
            else if c_child hp = c then do {
              let m = chunk_align P c;
              let hp = hp\<lparr>c_child := c_sibling h, c_refcnt := c_refcnt hp - 1, c_mem := m, c_free := (p + c_size hp) - c\<rparr>;
              let P = P\<lparr>heads := (heads P)(p \<mapsto> hp, c \<mapsto> h\<lparr>c_size := c_size hp - c_size h + 1\<rparr>)\<rparr>;
              P \<leftarrow> unlink_chunk c P;
              if c_refcnt hp = 0 then chunk_free F m P else Some P
            }
            else do { P \<leftarrow> chunk_setup c P; move_to_full c P }
          }
        }
      })"

declare chunk_free.simps [code]

definition chunk_pool_init :: "u32 \<Rightarrow> 'p chunk_pool \<Rightarrow> 'p chunk_pool" where
  "chunk_pool_init al P = P\<lparr>cp_full := [], cp_empty := [], cp_align := al\<rparr>"

end
