(* ===== verification/Chunk_Inv.thy ===== *)
theory Chunk_Inv
  imports Chunk
begin

text \<open>
  The invariant of the chunk headers.  The chunks are a forest: the children of a chunk fill its memory from the end of its
  header on, oldest first, without gaps.  \<open>D\<close> is the set of chunks, \<open>K\<close> gives the children of a chunk, youngest first, and
  \<open>U\<close> is the set of chunks in use.
\<close>

section \<open>Children\<close>

abbreviation csz :: "(u32 \<Rightarrow> chunk option) \<Rightarrow> u32 \<Rightarrow> nat" where
  "csz h a \<equiv> unat (c_size (the (h a)))"

abbreviation hd0 :: "u32 list \<Rightarrow> u32" where
  "hd0 ks \<equiv> (case ks of [] \<Rightarrow> 0 | k # _ \<Rightarrow> k)"

fun ck_end :: "(u32 \<Rightarrow> chunk option) \<Rightarrow> nat \<Rightarrow> u32 list \<Rightarrow> nat" where
  "ck_end h b [] = b"
| "ck_end h b (k # ks) = unat k + csz h k"

fun ck_kids :: "(u32 \<Rightarrow> chunk option) \<Rightarrow> u32 \<Rightarrow> u32 list \<Rightarrow> bool" where
  "ck_kids h c [] \<longleftrightarrow> True"
| "ck_kids h c (k # ks) \<longleftrightarrow> h k \<noteq> None \<and> c_parent (the (h k)) = c \<and> c_sibling (the (h k)) = hd0 ks
     \<and> unat k = ck_end h (unat c + 40) ks \<and> 48 \<le> csz h k \<and> csz h k mod 8 = 0 \<and> ck_kids h c ks"

lemma ck_end_cong: "(\<And>k. k \<in> set ks \<Longrightarrow> csz h' k = csz h k) \<Longrightarrow> ck_end h' b ks = ck_end h b ks"
  by (cases ks) auto

lemma ck_kids_cong:
  assumes "\<And>k. k \<in> set ks \<Longrightarrow> h' k \<noteq> None \<and> csz h' k = csz h k \<and> c_parent (the (h' k)) = c_parent (the (h k)) \<and> c_sibling (the (h' k)) = c_sibling (the (h k))"
    "ck_kids h c ks"
  shows "ck_kids h' c ks"
  using assms
proof (induction ks)
  case (Cons k ks)
  then show ?case using ck_end_cong [of ks h' h] by simp
qed simp

lemma ck_kids_bounds:
  "ck_kids h c ks \<Longrightarrow> unat c + 40 + 48 * length ks \<le> ck_end h (unat c + 40) ks"
  "ck_kids h c ks \<Longrightarrow> k \<in> set ks \<Longrightarrow> unat c + 40 \<le> unat k \<and> unat k + csz h k \<le> ck_end h (unat c + 40) ks \<and> 48 \<le> csz h k"
proof (induction ks arbitrary: k)
  case (Cons x ks)
  case 1
  then show ?case using Cons(1) by simp
  case 2
  show ?case
  proof (cases "k = x")
    case True
    then show ?thesis using 2 Cons(1) by simp
  next
    case False
    then have "unat c + 40 \<le> unat k \<and> unat k + csz h k \<le> ck_end h (unat c + 40) ks \<and> 48 \<le> csz h k" using Cons(2) 2 by simp
    then show ?thesis using 2 by simp
  qed
qed auto

lemma ck_kids_apart:
  "ck_kids h c ks \<Longrightarrow> distinct ks \<and> (\<forall>k \<in> set ks. \<forall>l \<in> set ks. k \<noteq> l \<longrightarrow> unat k + csz h k \<le> unat l \<or> unat l + csz h l \<le> unat k)"
proof (induction ks)
  case (Cons x ks)
  have b: "unat k + csz h k \<le> unat x \<and> 48 \<le> csz h k" if "k \<in> set ks" for k
    using ck_kids_bounds(2) [of h c ks k] Cons.prems that by simp
  then have "x \<notin> set ks" by fastforce
  then show ?case using Cons b by auto
qed simp

lemma ck_kids_mod: "ck_kids h c ks \<Longrightarrow> unat c mod 8 = 0 \<Longrightarrow> ck_end h (unat c + 40) ks mod 8 = 0"
proof (induction ks)
  case (Cons k ks)
  then show ?case by (simp add: mod_add_eq [symmetric])
next
  case Nil
  then show ?case by (simp only: ck_end.simps) presburger
qed

lemma ck_kids_parent: "ck_kids h c ks \<Longrightarrow> k \<in> set ks \<Longrightarrow> h k \<noteq> None \<and> c_parent (the (h k)) = c"
  by (induction ks) auto

section \<open>Chunks\<close>

definition ck_node :: "(u32 \<Rightarrow> chunk option) \<Rightarrow> (u32 \<Rightarrow> u32 list) \<Rightarrow> u32 set \<Rightarrow> u32 \<Rightarrow> bool" where
  "ck_node h K U a \<longleftrightarrow> h a \<noteq> None \<and> a \<noteq> 0 \<and> unat a mod 8 = 0 \<and> unat a + csz h a < 2 ^ 32 \<and> 40 \<le> csz h a
     \<and> ck_kids h a (K a) \<and> c_child (the (h a)) = hd0 (K a)
     \<and> c_refcnt (the (h a)) = (if c_parent (the (h a)) = 0 then 0 else 1) + word_of_nat (length (K a))
     \<and> unat (c_mem (the (h a))) = ck_end h (unat a + 40) (K a) \<and> unat (c_mem (the (h a))) \<le> unat a + csz h a
     \<and> (if a \<in> U then K a = [] \<and> c_free (the (h a)) = 0 \<and> c_parent (the (h a)) \<noteq> 0
        else unat (c_free (the (h a))) = unat a + csz h a - unat (c_mem (the (h a))))"

text \<open>A chunk in the memory of a child.\<close>

definition ck_in :: "(u32 \<Rightarrow> chunk option) \<Rightarrow> u32 \<Rightarrow> u32 \<Rightarrow> bool" where
  "ck_in h b k \<longleftrightarrow> unat k \<le> unat b \<and> unat b + csz h b \<le> unat k + csz h k"

definition ck_under :: "(u32 \<Rightarrow> chunk option) \<Rightarrow> (u32 \<Rightarrow> u32 list) \<Rightarrow> u32 \<Rightarrow> u32 \<Rightarrow> bool" where
  "ck_under h K a b \<longleftrightarrow> (\<exists>k \<in> set (K a). ck_in h b k)"

definition ck_disj :: "(u32 \<Rightarrow> chunk option) \<Rightarrow> u32 \<Rightarrow> u32 \<Rightarrow> bool" where
  "ck_disj h a b \<longleftrightarrow> unat a + csz h a \<le> unat b \<or> unat b + csz h b \<le> unat a"

definition ck_tree :: "(u32 \<Rightarrow> chunk option) \<Rightarrow> u32 set \<Rightarrow> (u32 \<Rightarrow> u32 list) \<Rightarrow> u32 set \<Rightarrow> bool" where
  "ck_tree h D K U \<longleftrightarrow> U \<subseteq> D \<and> (\<forall>a \<in> D. ck_node h K U a \<and> set (K a) \<subseteq> D)
     \<and> (\<forall>a \<in> D. c_parent (the (h a)) \<noteq> 0 \<longrightarrow> c_parent (the (h a)) \<in> D \<and> a \<in> set (K (c_parent (the (h a)))))
     \<and> (\<forall>a \<in> D. \<forall>b \<in> D. a \<noteq> b \<longrightarrow> ck_disj h a b \<or> ck_under h K a b \<or> ck_under h K b a)
     \<and> (\<forall>b \<in> D. \<exists>t \<in> D. c_parent (the (h t)) = 0 \<and> ck_in h b t)"

lemma ck_treeD:
  assumes "ck_tree h D K U"
  shows "U \<subseteq> D" "a \<in> D \<Longrightarrow> ck_node h K U a" "a \<in> D \<Longrightarrow> k \<in> set (K a) \<Longrightarrow> k \<in> D"
    "a \<in> D \<Longrightarrow> c_parent (the (h a)) \<noteq> 0 \<Longrightarrow> c_parent (the (h a)) \<in> D \<and> a \<in> set (K (c_parent (the (h a))))"
    "a \<in> D \<Longrightarrow> b \<in> D \<Longrightarrow> a \<noteq> b \<Longrightarrow> ck_disj h a b \<or> ck_under h K a b \<or> ck_under h K b a"
    "b \<in> D \<Longrightarrow> \<exists>t \<in> D. c_parent (the (h t)) = 0 \<and> ck_in h b t"
  using assms unfolding ck_tree_def by blast+

lemma ck_treeI:
  assumes "\<And>a b. a \<in> D \<Longrightarrow> b \<in> D \<Longrightarrow> a \<noteq> b \<Longrightarrow> ck_disj h a b \<or> ck_under h K a b \<or> ck_under h K b a"
    "\<And>b. b \<in> D \<Longrightarrow> \<exists>t \<in> D. c_parent (the (h t)) = 0 \<and> ck_in h b t"
    "\<And>a. a \<in> D \<Longrightarrow> c_parent (the (h a)) \<noteq> 0 \<longrightarrow> c_parent (the (h a)) \<in> D \<and> a \<in> set (K (c_parent (the (h a))))"
    "\<And>a. a \<in> D \<Longrightarrow> set (K a) \<subseteq> D" "\<And>a. a \<in> D \<Longrightarrow> ck_node h K U a" "U \<subseteq> D"
  shows "ck_tree h D K U"
  unfolding ck_tree_def using assms by blast

lemma ck_under_inside:
  assumes "ck_node h K U a" "ck_under h K a b"
  shows "unat a + 40 \<le> unat b" "unat b + csz h b \<le> unat (c_mem (the (h a)))"
proof -
  obtain k where k: "k \<in> set (K a)" "ck_in h b k" using assms(2) by (auto simp: ck_under_def)
  have "ck_kids h a (K a)" "unat (c_mem (the (h a))) = ck_end h (unat a + 40) (K a)" using assms(1) by (simp_all add: ck_node_def)
  then show "unat a + 40 \<le> unat b" "unat b + csz h b \<le> unat (c_mem (the (h a)))"
    using ck_kids_bounds(2) [of h a "K a" k] k by (auto simp: ck_in_def)
qed

text \<open>The chunks in use, and the memory the client has of each.\<close>

lemma ck_used_disj:
  assumes "ck_tree h D K U" "a \<in> U" "b \<in> U" "a \<noteq> b"
  shows "ck_disj h a b"
proof -
  have D: "a \<in> D" "b \<in> D" using assms(2,3) ck_treeD(1) [OF assms(1)] by auto
  have "K a = []" "K b = []" using ck_treeD(2) [OF assms(1) D(1)] ck_treeD(2) [OF assms(1) D(2)] assms(2,3) by (auto simp: ck_node_def)
  then show ?thesis using ck_treeD(5) [OF assms(1) D assms(4)] by (auto simp: ck_under_def)
qed


section \<open>Changes\<close>

lemma ck_node_cong:
  assumes "ck_node h K U a" "h' a = h a" "K' a = K a" "a \<in> U' \<longleftrightarrow> a \<in> U"
    "\<And>k. k \<in> set (K a) \<Longrightarrow> h' k \<noteq> None \<and> csz h' k = csz h k \<and> c_parent (the (h' k)) = c_parent (the (h k)) \<and> c_sibling (the (h' k)) = c_sibling (the (h k))"
  shows "ck_node h' K' U' a"
proof -
  have "ck_kids h' a (K a)" by (rule ck_kids_cong [OF assms(5)]) (use assms(1) in \<open>simp_all add: ck_node_def\<close>)
  moreover have "ck_end h' (unat a + 40) (K a) = ck_end h (unat a + 40) (K a)" by (rule ck_end_cong) (simp add: assms(5))
  ultimately show ?thesis using assms(1-4) by (simp add: ck_node_def)
qed

lemma ck_in_cong: "csz h' b = csz h b \<Longrightarrow> csz h' k = csz h k \<Longrightarrow> ck_in h' b k = ck_in h b k"
  by (simp add: ck_in_def)

lemma ck_disj_cong: "csz h' a = csz h a \<Longrightarrow> csz h' b = csz h b \<Longrightarrow> ck_disj h' a b = ck_disj h a b"
  by (simp add: ck_disj_def)

lemma ck_under_mono:
  assumes "ck_under h K a b" "set (K a) \<subseteq> set (K' a)" "csz h' b = csz h b" "\<And>k. k \<in> set (K a) \<Longrightarrow> csz h' k = csz h k"
  shows "ck_under h' K' a b"
  using assms unfolding ck_under_def ck_in_def by fastforce

lemma ck_disj_sym: "ck_disj h a b \<longleftrightarrow> ck_disj h b a"
  by (auto simp: ck_disj_def)

text \<open>A new chunk from the higher tier.\<close>

lemma ck_tree_grab:
  assumes "ck_tree h D K U" "c \<notin> D" "c \<noteq> 0" "unat c mod 8 = 0" "unat c + n < 2 ^ 32" "40 \<le> n"
    "\<And>t. t \<in> D \<Longrightarrow> c_parent (the (h t)) = 0 \<Longrightarrow> unat c + n \<le> unat t \<or> unat t + csz h t \<le> unat c"
    "unat (c_size g) = n" "unat (c_mem g) = unat c + 40" "unat (c_free g) = n - 40" "c_refcnt g = 0" "c_parent g = 0" "c_child g = 0"
  shows "ck_tree (h(c \<mapsto> g)) (insert c D) (K(c := [])) U"
proof -
  let ?h = "h(c \<mapsto> g)" and ?K = "K(c := [])"
  note T = ck_treeD [OF assms(1)]
  have s: "csz ?h a = csz h a" "?h a = h a" "?K a = K a" if "a \<in> D" for a using that assms(2) by auto
  have old: "ck_node ?h ?K U a" if "a \<in> D" for a
  proof (rule ck_node_cong [OF T(2) [OF that]])
    fix k assume "k \<in> set (K a)"
    then have "k \<in> D" "h k \<noteq> None" using T(2) [OF that] T(3) [OF that] ck_kids_parent [of h a "K a" k] by (auto simp: ck_node_def)
    then show "?h k \<noteq> None \<and> csz ?h k = csz h k \<and> c_parent (the (?h k)) = c_parent (the (h k)) \<and> c_sibling (the (?h k)) = c_sibling (the (h k))"
      using s by simp
  qed (use that assms(2) in auto)
  have new: "ck_node ?h ?K U c" using assms(2-13) T(1) by (auto simp: ck_node_def)
  have nu: "ck_disj ?h c b" if b: "b \<in> D" for b
  proof -
    obtain t where t: "t \<in> D" "c_parent (the (h t)) = 0" "ck_in h b t" using T(6) [OF b] by blast
    have "0 < csz h b" using T(2) [OF b] by (auto simp: ck_node_def)
    then show ?thesis using assms(7) [OF t(1,2)] t(3) s [OF b] assms(8) by (auto simp: ck_disj_def ck_in_def)
  qed
  have "ck_disj ?h a b \<or> ck_under ?h ?K a b \<or> ck_under ?h ?K b a" if ab: "a \<in> insert c D" "b \<in> insert c D" "a \<noteq> b" for a b
  proof (cases "a = c \<or> b = c")
    case True
    then show ?thesis using nu [of a] nu [of b] ab ck_disj_sym by auto
  next
    case False
    then have D: "a \<in> D" "b \<in> D" using ab by auto
    have u: "ck_under ?h ?K x y" if "ck_under h K x y" "x \<in> D" "y \<in> D" for x y
      using ck_under_mono [OF that(1), of ?K ?h] s [OF that(2)] s [OF that(3)] T(3) [OF that(2)] s by fastforce
    show ?thesis using T(5) [OF D ab(3)] u D ck_disj_cong [of ?h a h b] s by blast
  qed
  moreover have "\<exists>t \<in> insert c D. c_parent (the (?h t)) = 0 \<and> ck_in ?h b t" if "b \<in> insert c D" for b
  proof (cases "b = c")
    case True
    then show ?thesis using assms(12) by (auto simp: ck_in_def)
  next
    case False
    then have bD: "b \<in> D" using that by simp
    obtain t where t: "t \<in> D" "c_parent (the (h t)) = 0" "ck_in h b t" using T(6) [OF bD] by blast
    then show ?thesis using ck_in_cong [of ?h b h t] s bD by (metis insertI2)
  qed
  moreover have "c_parent (the (?h a)) \<noteq> 0 \<longrightarrow> c_parent (the (?h a)) \<in> insert c D \<and> a \<in> set (?K (c_parent (the (?h a))))" if "a \<in> insert c D" for a
    using that T(4) assms(2,12) by auto
  ultimately show ?thesis unfolding ck_tree_def using old new T(1,3) assms(2) by auto
qed

text \<open>A new child.\<close>

lemma ck_split_fresh:
  assumes "ck_tree h D K U" "c \<in> D" "c_mem (the (h c)) = x" "unat x < unat c + csz h c"
  shows "x \<notin> D" "x \<noteq> 0" "x \<noteq> c"
proof -
  have nc: "ck_node h K U c" using ck_treeD(2) [OF assms(1,2)] .
  have x: "unat c + 40 \<le> unat x" using nc ck_kids_bounds(1) [of h c "K c"] assms(3) by (auto simp: ck_node_def)
  then show "x \<noteq> 0" "x \<noteq> c" by auto
  show "x \<notin> D"
  proof
    assume xD: "x \<in> D"
    have nx: "ck_node h K U x" using ck_treeD(2) [OF assms(1) xD] .
    then have "0 < csz h x" by (auto simp: ck_node_def)
    moreover have "c \<noteq> x" using x by auto
    ultimately show False
      using ck_treeD(5) [OF assms(1,2) xD] ck_under_inside [OF nc, of x] ck_under_inside [OF nx, of c] x assms(3,4)
      by (auto simp: ck_disj_def)
  qed
qed

lemma ck_tree_split:
  assumes "ck_tree h D K U" "c \<in> D" "c \<notin> U" "n mod 8 = 0" "48 \<le> n" "n \<le> unat (c_free (the (h c)))" "x = c_mem (the (h c))"
    "unat (c_size g) = n" "c_parent g = c" "c_sibling g = c_child (the (h c))" "c_refcnt g = 1" "unat (c_mem g) = unat x + 40" "c_free g = 0" "c_child g = 0"
    "c_size f = c_size (the (h c))" "c_parent f = c_parent (the (h c))" "c_sibling f = c_sibling (the (h c))" "c_child f = x"
    "c_refcnt f = c_refcnt (the (h c)) + 1" "unat (c_mem f) = unat x + n" "unat (c_free f) = unat (c_free (the (h c))) - n"
  shows "ck_tree (h(x \<mapsto> g, c \<mapsto> f)) (insert x D) (K(x := [], c := x # K c)) (insert x U)"
proof -
  let ?h = "h(x \<mapsto> g, c \<mapsto> f)" and ?K = "K(x := [], c := x # K c)"
  note T = ck_treeD [OF assms(1)]
  have nc: "ck_node h K U c" by (rule T(2) [OF assms(2)])
  have m: "unat x + n \<le> unat c + csz h c" "unat (c_free (the (h c))) = unat c + csz h c - unat x" "unat x = ck_end h (unat c + 40) (K c)"
    "unat c mod 8 = 0" "unat c + csz h c < 2 ^ 32" "ck_kids h c (K c)" "c_child (the (h c)) = hd0 (K c)"
    using nc assms(3,6,7) by (auto simp: ck_node_def)
  have xc: "unat c + 40 \<le> unat x" "unat x mod 8 = 0" using ck_kids_bounds(1) [OF m(6)] ck_kids_mod [OF m(6,4)] m(3) by auto
  have fr: "x \<notin> D" "x \<noteq> 0" "x \<noteq> c" using ck_split_fresh [OF assms(1,2) assms(7) [symmetric]] m(1) assms(5) by auto
  have xU: "x \<notin> U" using fr(1) T(1) by auto
  have s: "?h a \<noteq> None" "csz ?h a = csz h a" "c_parent (the (?h a)) = c_parent (the (h a))" "c_sibling (the (?h a)) = c_sibling (the (h a))" if "a \<in> D" for a
    using that fr assms(15-17) T(2) [OF that] by (auto simp: ck_node_def)
  have sk: "?h k \<noteq> None \<and> csz ?h k = csz h k \<and> c_parent (the (?h k)) = c_parent (the (h k)) \<and> c_sibling (the (?h k)) = c_sibling (the (h k))"
    if "a \<in> D" "k \<in> set (K a)" for a k using s T(3) [OF that] by blast
  have old: "ck_node ?h ?K (insert x U) a" if "a \<in> D" "a \<noteq> c" for a
    by (rule ck_node_cong [OF T(2) [OF that(1)]]) (use that fr sk [OF that(1)] in auto)
  have sx: "the (?h x) = g" "the (?h c) = f" "?K x = []" "?K c = x # K c" using fr by auto
  have nx: "ck_node ?h ?K (insert x U) x" unfolding ck_node_def sx
    using fr xc m assms(2,5,8-14) nc by (auto simp: ck_node_def)
  have kc: "ck_kids ?h c (x # K c)"
  proof -
    have "ck_kids ?h c (K c)" by (rule ck_kids_cong [OF sk [OF assms(2)] m(6)])
    moreover have "ck_end ?h (unat c + 40) (K c) = ck_end h (unat c + 40) (K c)" by (rule ck_end_cong) (use sk [OF assms(2)] in blast)
    ultimately show ?thesis using sx fr assms(4,5,8-10) m(3,7) by simp
  qed
  have ncn: "ck_node ?h ?K (insert x U) c" unfolding ck_node_def sx
    using kc nc fr assms(3,7,8,15-21) m by (auto simp: ck_node_def)
  have u: "ck_under ?h ?K a b" if "ck_under h K a b" "a \<in> D" "b \<in> D" for a b
    using ck_under_mono [OF that(1), of ?K ?h] s(2) that T(3) [OF that(2)] fr by fastforce
  have xb: "ck_disj ?h x b \<or> ck_under ?h ?K b x" if b: "b \<in> D" for b
  proof (cases "b = c")
    case True
    then show ?thesis by (auto simp: ck_under_def ck_in_def)
  next
    case False
    have nb: "ck_node h K U b" by (rule T(2) [OF b])
    consider "ck_disj h c b" | "ck_under h K c b" | "ck_under h K b c" using T(5) [OF assms(2) b] False by blast
    then show ?thesis
    proof cases
      case 1
      then show ?thesis using m(1) xc assms(8) fr s(2) [OF b] by (auto simp: ck_disj_def)
    next
      case 2
      then have "unat b + csz h b \<le> unat x" using ck_under_inside [OF nc] assms(7) by simp
      then show ?thesis using s(2) [OF b] by (auto simp: ck_disj_def)
    next
      case 3
      then obtain k where k: "k \<in> set (K b)" "ck_in h c k" by (auto simp: ck_under_def)
      then have "ck_in ?h x k" using m(1) xc assms(8) sx s(2) [of k] T(3) [OF b k(1)] by (auto simp: ck_in_def)
      then show ?thesis using k(1) False fr b by (auto simp: ck_under_def)
    qed
  qed
  have "ck_disj ?h a b \<or> ck_under ?h ?K a b \<or> ck_under ?h ?K b a" if ab: "a \<in> insert x D" "b \<in> insert x D" "a \<noteq> b" for a b
  proof (cases "a = x \<or> b = x")
    case True
    then show ?thesis using xb [of a] xb [of b] ab ck_disj_sym by auto
  next
    case False
    then have D: "a \<in> D" "b \<in> D" using ab by auto
    then show ?thesis using T(5) [OF D ab(3)] u ck_disj_cong [of ?h a h b] s(2) by blast
  qed
  moreover have "\<exists>t \<in> insert x D. c_parent (the (?h t)) = 0 \<and> ck_in ?h b t" if b: "b \<in> insert x D" for b
  proof -
    have *: "\<exists>t \<in> D. c_parent (the (?h t)) = 0 \<and> ck_in ?h b t" if b': "b \<in> D" for b
    proof -
      obtain t where t: "t \<in> D" "c_parent (the (h t)) = 0" "ck_in h b t" using T(6) [OF b'] by blast
      then have "ck_in ?h b t" using ck_in_cong [of ?h b h t] s(2) [OF b'] s(2) [OF t(1)] by simp
      moreover have "c_parent (the (?h t)) = 0" by (simp only: s(3) [OF t(1)] t(2))
      ultimately show ?thesis using t(1) by blast
    qed
    show ?thesis
    proof (cases "b = x")
      case True
      obtain t where t: "t \<in> D" "c_parent (the (?h t)) = 0" "ck_in ?h c t" using * [OF assms(2)] by blast
      then have "ck_in ?h x t" using m(1) xc assms(8) sx s(2) [OF assms(2)] by (auto simp: ck_in_def)
      then show ?thesis using t True by blast
    next
      case False
      then show ?thesis using b * [of b] by auto
    qed
  qed
  moreover have "c_parent (the (?h a)) \<noteq> 0 \<longrightarrow> c_parent (the (?h a)) \<in> insert x D \<and> a \<in> set (?K (c_parent (the (?h a))))" if "a \<in> insert x D" for a
  proof (cases "a = x")
    case True
    then show ?thesis using sx assms(2,9) by simp
  next
    case False
    then have "a \<in> D" using that by simp
    then show ?thesis using T(4) [of a] s(3) [of a] fr by auto
  qed
  moreover have "set (?K a) \<subseteq> insert x D" if "a \<in> insert x D" for a
    using that T(3) [of a] T(3) [OF assms(2)] fr(3) by auto
  moreover have "ck_node ?h ?K (insert x U) a" if "a \<in> insert x D" for a using that old nx ncn by blast
  moreover have "insert x U \<subseteq> insert x D" using T(1) by blast
  ultimately show ?thesis by (rule ck_treeI)
qed


text \<open>A chunk in use that is not the youngest child becomes available.\<close>

lemma ck_tree_avail:
  assumes "ck_tree h D K U" "c \<in> U" "unat (c_mem g) = unat c + 40" "unat (c_free g) = csz h c - 40" "c_size g = c_size (the (h c))"
    "c_parent g = c_parent (the (h c))" "c_sibling g = c_sibling (the (h c))" "c_child g = c_child (the (h c))" "c_refcnt g = c_refcnt (the (h c))"
  shows "ck_tree (h(c \<mapsto> g)) D K (U - {c})"
proof -
  let ?h = "h(c \<mapsto> g)"
  note T = ck_treeD [OF assms(1)]
  have c: "c \<in> D" using T(1) assms(2) by auto
  have s: "csz ?h a = csz h a" "c_parent (the (?h a)) = c_parent (the (h a))" "c_sibling (the (?h a)) = c_sibling (the (h a))" for a
    using assms(5-7) by auto
  have "ck_node ?h K (U - {c}) a" if a: "a \<in> D" for a
  proof (cases "a = c")
    case True
    then show ?thesis using T(2) [OF c] assms(2-9) by (auto simp: ck_node_def)
  next
    case False
    show ?thesis
    proof (rule ck_node_cong [OF T(2) [OF a]])
      fix k assume "k \<in> set (K a)"
      then have "h k \<noteq> None" using T(2) [OF a] ck_kids_parent [of h a "K a" k] by (auto simp: ck_node_def)
      then show "?h k \<noteq> None \<and> csz ?h k = csz h k \<and> c_parent (the (?h k)) = c_parent (the (h k)) \<and> c_sibling (the (?h k)) = c_sibling (the (h k))"
        using s [of k] by simp
    qed (use False in auto)
  qed
  then show ?thesis using T unfolding ck_tree_def ck_under_def ck_in_def ck_disj_def s by (auto simp: subset_iff)
qed

text \<open>The youngest child is merged with its parent.\<close>

lemma ck_leaf_inside:
  assumes "ck_tree h D K U" "a \<in> D" "b \<in> D" "a \<noteq> b" "K a = []"
  shows "\<not> ck_in h b a"
proof
  assume i: "ck_in h b a"
  have n: "ck_node h K U a" "ck_node h K U b" using ck_treeD(2) [OF assms(1)] assms(2,3) by blast+
  then have z: "0 < csz h a" "0 < csz h b" by (auto simp: ck_node_def)
  have "\<not> ck_disj h a b" using i z by (auto simp: ck_disj_def ck_in_def)
  moreover have "\<not> ck_under h K a b" using assms(5) by (simp add: ck_under_def)
  moreover have "\<not> ck_under h K b a" using ck_under_inside(1) [OF n(2), of a] i by (auto simp: ck_in_def)
  ultimately show False using ck_treeD(5) [OF assms(1-4)] by blast
qed

lemma ck_tree_merge:
  assumes "ck_tree h D K U" "p \<in> D" "K p = k # ks" "k \<in> U"
    "c_size f = c_size (the (h p))" "c_parent f = c_parent (the (h p))" "c_sibling f = c_sibling (the (h p))" "c_child f = c_sibling (the (h k))"
    "c_refcnt f = c_refcnt (the (h p)) - 1" "c_mem f = k" "unat (c_free f) = unat p + csz h p - unat k"
  shows "ck_tree (h(p \<mapsto> f, k \<mapsto> g)) (D - {k}) (K(p := ks)) (U - {k})"
proof -
  let ?h = "h(p \<mapsto> f, k \<mapsto> g)" and ?K = "K(p := ks)"
  note T = ck_treeD [OF assms(1)]
  have np: "ck_node h K U p" by (rule T(2) [OF assms(2)])
  have kD: "k \<in> D" and pk: "ck_kids h p (k # ks)" using np T(3) [OF assms(2)] assms(3) by (auto simp: ck_node_def)
  have nk: "ck_node h K U k" by (rule T(2) [OF kD])
  have Kk: "K k = []" using nk assms(4) by (simp add: ck_node_def)
  have kpar: "c_parent (the (h k)) = p" using pk by simp
  have dist: "distinct (k # ks)" using ck_kids_apart [OF pk] by simp
  have apart: "unat l + csz h l \<le> unat k" "48 \<le> csz h l" "unat p + 40 \<le> unat l" if "l \<in> set ks" for l
    using ck_kids_bounds(2) [of h p ks l] pk that by auto
  have pU: "p \<notin> U" using np assms(3) by (auto simp: ck_node_def)
  have kp: "k \<noteq> p" using pU assms(4) by auto
  have s: "?h a \<noteq> None" "csz ?h a = csz h a" "c_parent (the (?h a)) = c_parent (the (h a))" "c_sibling (the (?h a)) = c_sibling (the (h a))" if "a \<in> D - {k}" for a
    using that assms(5-7) T(2) [of a] by (auto simp: ck_node_def)
  have kk: "k \<notin> set (?K a)" if "a \<in> D - {k}" for a
  proof (cases "a = p")
    case True
    then show ?thesis using dist by simp
  next
    case False
    have "k \<notin> set (K a)"
    proof
      assume k: "k \<in> set (K a)"
      have "ck_kids h a (K a)" using T(2) [of a] that by (simp add: ck_node_def)
      then show False using ck_kids_parent [OF _ k] kpar False by simp
    qed
    then show ?thesis using False by simp
  qed
  have sub: "set (?K a) \<subseteq> D - {k}" if "a \<in> D - {k}" for a using kk [OF that] T(3) [of a] that T(3) [OF assms(2)] assms(3) by auto
  have "ck_node ?h ?K (U - {k}) a" if a: "a \<in> D - {k}" for a
  proof (cases "a = p")
    case True
    have m: "ck_kids h p ks" "unat k = ck_end h (unat p + 40) ks" "unat k + csz h k \<le> unat p + csz h p" "c_sibling (the (h k)) = hd0 ks"
      using pk np assms(3) by (auto simp: ck_node_def)
    have sk: "?h l \<noteq> None \<and> csz ?h l = csz h l \<and> c_parent (the (?h l)) = c_parent (the (h l)) \<and> c_sibling (the (?h l)) = c_sibling (the (h l))"
      if "l \<in> set ks" for l using s [of l] sub [OF a] True that by auto
    have "ck_kids ?h p ks" by (rule ck_kids_cong [OF sk m(1)])
    moreover have "ck_end ?h (unat p + 40) ks = ck_end h (unat p + 40) ks" by (rule ck_end_cong) (use sk in blast)
    ultimately show ?thesis using True np kp pU assms(3,5-11) m by (auto simp: ck_node_def)
  next
    case False
    show ?thesis
    proof (rule ck_node_cong [OF T(2) [of a]])
      fix l assume "l \<in> set (K a)"
      then show "?h l \<noteq> None \<and> csz ?h l = csz h l \<and> c_parent (the (?h l)) = c_parent (the (h l)) \<and> c_sibling (the (?h l)) = c_sibling (the (h l))"
        using s [of l] sub [OF a] False by auto
    qed (use a False in auto)
  qed
  moreover have "ck_disj ?h a b \<or> ck_under ?h ?K a b \<or> ck_under ?h ?K b a" if ab: "a \<in> D - {k}" "b \<in> D - {k}" "a \<noteq> b" for a b
  proof -
    have u: "ck_under ?h ?K x y" if xy: "ck_under h K x y" "x \<in> D - {k}" "y \<in> D - {k}" for x y
    proof -
      obtain l where l: "l \<in> set (K x)" "ck_in h y l" using xy(1) by (auto simp: ck_under_def)
      have "\<not> ck_in h y k" by (rule ck_leaf_inside [OF assms(1) kD]) (use xy(3) Kk in auto)
      then have "l \<in> set (?K x)" using l assms(3) by auto
      then show ?thesis using l(2) ck_in_cong [of ?h y h l] s(2) [OF xy(3)] s(2) sub [OF xy(2)] unfolding ck_under_def by blast
    qed
    have "a \<in> D" "b \<in> D" using ab by auto
    then show ?thesis using T(5) [of a b] ab u ck_disj_cong [of ?h a h b] s(2) by blast
  qed
  moreover have "\<exists>t \<in> D - {k}. c_parent (the (?h t)) = 0 \<and> ck_in ?h b t" if b: "b \<in> D - {k}" for b
  proof -
    obtain t where t: "t \<in> D" "c_parent (the (h t)) = 0" "ck_in h b t" using T(6) [of b] b by blast
    have "t \<noteq> k" using nk assms(4) t(2) by (auto simp: ck_node_def)
    then have tk: "t \<in> D - {k}" using t(1) by simp
    have "ck_in ?h b t" using t(3) ck_in_cong [of ?h b h t] s(2) [OF b] s(2) [OF tk] by blast
    moreover have "c_parent (the (?h t)) = 0" by (simp only: s(3) [OF tk] t(2))
    ultimately show ?thesis using tk by blast
  qed
  moreover have "c_parent (the (?h a)) \<noteq> 0 \<longrightarrow> c_parent (the (?h a)) \<in> D - {k} \<and> a \<in> set (?K (c_parent (the (?h a))))" if a: "a \<in> D - {k}" for a
  proof -
    have aD: "a \<in> D" using a by simp
    have "c_parent (the (h a)) \<in> D - {k} \<and> a \<in> set (?K (c_parent (the (h a))))" if "c_parent (the (h a)) \<noteq> 0"
      using T(4) [OF aD that] Kk a assms(3) by auto
    then show ?thesis using s(3) [OF a] by simp
  qed
  ultimately show ?thesis unfolding ck_tree_def using T(1) sub by blast
qed

text \<open>A chunk without a parent goes back.\<close>

lemma ck_tree_drop:
  assumes "ck_tree h D K U" "c \<in> D" "c_parent (the (h c)) = 0" "K c = []"
  shows "ck_tree (h(c := None)) (D - {c}) K U"
proof -
  let ?h = "h(c := None)"
  note T = ck_treeD [OF assms(1)]
  have cU: "c \<notin> U" using T(2) [OF assms(2)] assms(3) by (auto simp: ck_node_def)
  have s: "?h a = h a" if "a \<in> D - {c}" for a using that by simp
  have nz: "c \<noteq> 0" using T(2) [OF assms(2)] by (simp add: ck_node_def)
  have kk: "c \<notin> set (K a)" if "a \<in> D" for a
  proof
    assume k: "c \<in> set (K a)"
    have "ck_kids h a (K a)" "a \<noteq> 0" using T(2) [OF that] by (simp_all add: ck_node_def)
    then show False using ck_kids_parent [OF _ k] assms(3) by simp
  qed
  have sub: "set (K a) \<subseteq> D - {c}" if "a \<in> D" for a using kk [OF that] T(3) [OF that] by auto
  have "ck_node ?h K U a" if a: "a \<in> D - {c}" for a
  proof (rule ck_node_cong [OF T(2) [of a]])
    fix l assume l: "l \<in> set (K a)"
    then have "l \<in> D - {c}" using sub [of a] a by auto
    moreover have "h l \<noteq> None" using T(2) [of l] calculation by (auto simp: ck_node_def)
    ultimately show "?h l \<noteq> None \<and> csz ?h l = csz h l \<and> c_parent (the (?h l)) = c_parent (the (h l)) \<and> c_sibling (the (?h l)) = c_sibling (the (h l))" by simp
  qed (use a in auto)
  moreover have "ck_disj ?h a b \<or> ck_under ?h K a b \<or> ck_under ?h K b a" if ab: "a \<in> D - {c}" "b \<in> D - {c}" "a \<noteq> b" for a b
  proof -
    have "ck_under ?h K x y" if "ck_under h K x y" "x \<in> D - {c}" "y \<in> D - {c}" for x y
      by (rule ck_under_mono [OF that(1)]) (use s that(2,3) sub [of x] in auto)
    then show ?thesis using T(5) [of a b] ab ck_disj_cong [of ?h a h b] s by auto
  qed
  moreover have "\<exists>t \<in> D - {c}. c_parent (the (?h t)) = 0 \<and> ck_in ?h b t" if b: "b \<in> D - {c}" for b
  proof -
    obtain t where t: "t \<in> D" "c_parent (the (h t)) = 0" "ck_in h b t" using T(6) [of b] b by blast
    have "t \<noteq> c" using ck_leaf_inside [OF assms(1,2), of b] b t(3) assms(4) by auto
    then show ?thesis using t ck_in_cong [of ?h b h t] b by (intro bexI [of _ t]) auto
  qed
  moreover have "c_parent (the (?h a)) \<noteq> 0 \<longrightarrow> c_parent (the (?h a)) \<in> D - {c} \<and> a \<in> set (K (c_parent (the (?h a))))" if a: "a \<in> D - {c}" for a
    using T(4) [of a] a assms(4) by auto
  moreover have "U \<subseteq> D - {c}" using T(1) cU by blast
  moreover have "set (K a) \<subseteq> D - {c}" if "a \<in> D - {c}" for a using sub that by blast
  ultimately show ?thesis unfolding ck_tree_def by blast
qed

end
