(* ===== verification/Chunk_Spec.thy ===== *)
theory Chunk_Spec
  imports Chunk_Inv
begin

text \<open>
  The chunk allocator on a higher tier memory manager.  The locale \<open>chunk_source\<close> is what is expected of that manager;
  in it the operations are proved to keep the invariant and to hand out disjoint blocks.
\<close>

section \<open>Pools\<close>

definition ck_tops :: "(u32 \<Rightarrow> chunk option) \<Rightarrow> u32 set \<Rightarrow> (u32 \<times> u32) set" where
  "ck_tops h D = {(t, c_size (the (h t))) |t. t \<in> D \<and> c_parent (the (h t)) = 0}"

definition ck_blocks :: "(u32 \<Rightarrow> chunk option) \<Rightarrow> u32 set \<Rightarrow> (u32 \<times> u32) set" where
  "ck_blocks h U = (\<lambda>a. (a + 40, c_size (the (h a)) - 40)) ` U"

definition ck_lists :: "'p chunk_pool \<Rightarrow> u32 set \<Rightarrow> u32 set \<Rightarrow> bool" where
  "ck_lists P D U \<longleftrightarrow> distinct (cp_full P @ cp_empty P) \<and> set (cp_full P) \<union> set (cp_empty P) = D \<and> U \<inter> set (cp_full P) = {}"

definition apart_from :: "u32 \<times> u32 \<Rightarrow> u32 \<times> u32 \<Rightarrow> bool" where
  "apart_from x y \<longleftrightarrow> unat (fst x) + unat (snd x) \<le> unat (fst y) \<or> unat (fst y) + unat (snd y) \<le> unat (fst x)"

text \<open>The number of bytes that is taken for a request.\<close>

definition chunk_bytes :: "u32 \<Rightarrow> u32" where
  "chunk_bytes sz = align_up (sz + 8 + sizeof_chunk) 8"

lemma chunk_bytes:
  assumes "unat sz \<le> 2 ^ 31 - 48" "sz \<noteq> 0"
  shows "unat sz + 44 \<le> unat (chunk_bytes sz)" "unat (chunk_bytes sz) mod 8 = 0" "unat (chunk_bytes sz) \<le> 2 ^ 31" "48 \<le> unat (chunk_bytes sz)" "chunk_bytes sz \<noteq> 0"
proof -
  have u: "unat (sz + 8 + 36) = unat sz + 44" using assms(1) unat_add2 [of sz 8] unat_add2 [of "sz + 8" 36] by simp
  then have b: "unat (chunk_bytes sz) = (unat sz + 51) div 8 * 8" using assms(1) unat_align_up [of "sz + 8 + 36"] by (simp add: chunk_bytes_def)
  have "0 < unat sz" using assms(2) by (simp add: unat_gt_0)
  then show "unat sz + 44 \<le> unat (chunk_bytes sz)" "unat (chunk_bytes sz) mod 8 = 0" "unat (chunk_bytes sz) \<le> 2 ^ 31" "48 \<le> unat (chunk_bytes sz)"
    "chunk_bytes sz \<noteq> 0" using b assms(1) by (auto simp: word_unat_eq_iff)
qed

lemma align8_id: "unat x mod 8 = 0 \<Longrightarrow> align_up x 8 = x"
  by (rule align_up_id) (simp add: dvd_eq_mod_eq_0)

lemma align_header: "unat c mod 8 = 0 \<Longrightarrow> unat c + 40 < 2 ^ 32 \<Longrightarrow> align_up (c + 36) 8 = c + 40 \<and> unat (c + 40) = unat c + 40"
proof -
  assume c: "unat c mod 8 = 0" "unat c + 40 < 2 ^ 32"
  have u: "unat (c + 36) = unat c + 36" "unat (c + 40) = unat c + 40" using c(2) unat_add2 [of c 36] unat_add2 [of c 40] by simp_all
  obtain q where "unat c = 8 * q" using c(1) by (metis mult_div_mod_eq add.right_neutral)
  then have "unat c + 43 < 2 ^ 32" using c(2) by simp
  then have "unat (align_up (c + 36) 8) = (unat c + 43) div 8 * 8" using unat_align_up [of "c + 36"] u(1) by simp
  also have "\<dots> = unat c + 40" using c(1) by presburger
  finally show ?thesis using u(2) by (simp add: word_unat_eq_iff)
qed

lemma back_to_header: "unat c mod 8 = 0 \<Longrightarrow> unat c + 40 < 2 ^ 32 \<Longrightarrow> align_up (c + 40 - 36 - 8) 8 = c"
proof -
  assume c: "unat c mod 8 = 0" "unat c + 40 < 2 ^ 32"
  show ?thesis
  proof (cases "unat c < 4")
    case True
    then have "unat c = 0" using c(1) by presburger
    then have "c = 0" by (simp add: unat_eq_zero)
    then show ?thesis by (simp add: align_up_def align_mask_def)
  next
    case False
    have e: "c + 40 - 36 - 8 = c - 4" by simp
    have u: "unat (c - 4) = unat c - 4" using False by (subst unat_sub) (simp_all add: word_le_nat_alt)
    then have "unat (align_up (c - 4) 8) = (unat c - 4 + 7) div 8 * 8" using unat_align_up [of "c - 4"] c(2) False by simp
    also have "\<dots> = unat c" using c(1) False by presburger
    finally show ?thesis unfolding e by (simp add: word_unat_eq_iff)
  qed
qed

lemma unlink_chunk_set:
  "ck_lists P D U \<Longrightarrow> c \<in> D \<Longrightarrow> unlink_chunk c P = Some (P\<lparr>cp_full := remove1 c (cp_full P), cp_empty := remove1 c (cp_empty P)\<rparr>)"
  by (auto simp: unlink_chunk_def ck_lists_def)

lemma unlink_lists:
  "ck_lists P D U \<Longrightarrow> distinct (remove1 c (cp_full P) @ remove1 c (cp_empty P)) \<and> set (remove1 c (cp_full P)) \<union> set (remove1 c (cp_empty P)) = D - {c}
     \<and> set (remove1 c (cp_full P)) = set (cp_full P) - {c}"
  by (auto simp: ck_lists_def distinct_remove1 set_remove1_eq)

lemma ck_lists_unlink:
  assumes "ck_lists P D U" "cp_full P' = remove1 c (cp_full P)" "cp_empty P' = remove1 c (cp_empty P)"
  shows "ck_lists P' (D - {c}) (U - {c})"
  using assms unlink_lists [OF assms(1), of c] unfolding ck_lists_def by simp blast

lemma classify_ok:
  assumes "ck_lists P D U" "c \<in> D" "c \<notin> U" "heads P c \<noteq> None"
  shows "\<exists>P'. chunk_classify c P = Some P' \<and> heads P' = heads P \<and> cstore P' = cstore P \<and> cp_align P' = cp_align P \<and> ck_lists P' D U"
proof -
  note u = unlink_chunk_set [OF assms(1,2)] and l = unlink_lists [OF assms(1), of c]
  show ?thesis using assms u l
    by (cases "c_free (the (heads P c)) \<le> 36 + cp_align P") (auto simp: chunk_classify_def move_to_empty_def move_to_full_def ck_lists_def)
qed


section \<open>Splitting\<close>

definition ck_pool :: "'p chunk_pool \<Rightarrow> u32 set \<Rightarrow> (u32 \<Rightarrow> u32 list) \<Rightarrow> u32 set \<Rightarrow> bool" where
  "ck_pool P D K U \<longleftrightarrow> cp_align P = 8 \<and> ck_tree (heads P) D K U \<and> ck_lists P D U"

lemma ck_blocks_cong: "(\<And>a. a \<in> U \<Longrightarrow> csz h' a = csz h a) \<Longrightarrow> ck_blocks h' U = ck_blocks h U"
  by (auto simp: ck_blocks_def word_unat_eq_iff [symmetric] intro!: image_cong)

lemma split_ok:
  assumes "ck_pool P D K U" "c \<in> D" "c \<notin> U" "unat n mod 8 = 0" "48 \<le> unat n" "unat n \<le> unat (c_free (the (heads P c)))"
  shows "\<exists>x K' P'. chunk_split c n P = Some (x, P') \<and> x \<notin> D \<and> x \<noteq> 0 \<and> ck_pool P' (insert x D) K' (insert x U) \<and> cstore P' = cstore P
     \<and> csz (heads P') x = unat n \<and> (\<exists>g. heads P' x = Some g \<and> c_mem g = x + 40 \<and> c_parent g \<noteq> 0)
     \<and> (\<forall>a \<in> D. csz (heads P') a = csz (heads P) a \<and> c_parent (the (heads P' a)) = c_parent (the (heads P a)))"
proof -
  have al: "cp_align P = 8" and tr: "ck_tree (heads P) D K U" and li: "ck_lists P D U" using assms(1) by (simp_all add: ck_pool_def)
  note T = ck_treeD [OF tr]
  have nc: "ck_node (heads P) K U c" by (rule T(2) [OF assms(2)])
  then obtain h where h: "heads P c = Some h" by (auto simp: ck_node_def)
  let ?x = "c_mem h"
  have m: "unat (c_free h) = unat c + unat (c_size h) - unat ?x" "unat ?x \<le> unat c + unat (c_size h)" "unat c + unat (c_size h) < 2 ^ 32"
    "unat ?x = ck_end (heads P) (unat c + 40) (K c)" "ck_kids (heads P) c (K c)" "unat c mod 8 = 0" "c \<noteq> 0"
    using nc h assms(3) by (simp_all add: ck_node_def)
  have xn: "unat ?x + unat n \<le> unat c + unat (c_size h)" "unat n \<le> unat (c_free h)" using m(1,2) assms(6) h by auto
  have x8: "unat ?x mod 8 = 0" using ck_kids_mod [OF m(5,6)] m(4) by simp
  have fr: "?x \<notin> D" "?x \<noteq> 0" "?x \<noteq> c" using ck_split_fresh [OF tr assms(2), of ?x] xn assms(5) h by auto
  have x40: "align_up (?x + 36) 8 = ?x + 40" "unat (?x + 40) = unat ?x + 40" using align_header [OF x8] xn m(3) assms(5) by auto
  have xe: "unat (?x + n) = unat ?x + unat n" using unat_add2 [of ?x n] xn m(3) by simp
  then have xa: "align_up (?x + n) 8 = ?x + n" using x8 assms(4) by (intro align8_id) (simp add: mod_add_eq [symmetric])
  have ce: "unat (c + c_size h) = unat c + unat (c_size h)" using unat_add2 [of c "c_size h"] m(3) by simp
  define g where "g = \<lparr>c_mem = ?x + 40, c_size = n, c_free = 0, c_refcnt = 1, c_parent = c, c_child = 0, c_sibling = c_child h\<rparr>"
  define f where "f = h\<lparr>c_child := ?x, c_refcnt := c_refcnt h + 1, c_mem := ?x + n, c_free := c + c_size h - (?x + n)\<rparr>"
  define H where "H = (heads P)(?x \<mapsto> g, c \<mapsto> f)"
  define P1 where "P1 = P\<lparr>cp_empty := cp_empty P @ [?x], heads := H\<rparr>"
  have tr': "ck_tree H (insert ?x D) (K(?x := [], c := ?x # K c)) (insert ?x U)"
    unfolding H_def
  proof (rule ck_tree_split [OF tr assms(2,3,4,5), of ?x g f])
    show "unat (c_free f) = unat (c_free (the (heads P c))) - unat n"
      using m(1) xn h xe ce by (simp add: f_def unat_sub word_le_nat_alt)
  qed (use h assms(5,6) x40 xe in \<open>simp_all add: g_def f_def\<close>)
  have li': "ck_lists P1 (insert ?x D) (insert ?x U)" using li fr(1) by (auto simp: ck_lists_def P1_def)
  have P1c: "heads P1 c \<noteq> None" by (simp add: P1_def H_def)
  obtain P' where P': "chunk_classify c P1 = Some P'" "heads P' = H" "cstore P' = cstore P" "cp_align P' = 8" "ck_lists P' (insert ?x D) (insert ?x U)"
    using classify_ok [OF li' _ _ P1c] assms(2,3) fr(3) al by (auto simp: P1_def)
  have ev: "chunk_split c n P = Some (?x, P')"
  proof -
    have "\<not> c_free h < n" using xn by (simp add: word_less_nat_alt not_less)
    then show ?thesis using P'(1) h fr(3) x40(1) xa al
      by (simp add: chunk_split_def chunk_setup_def upd_head_def chunk_align_def Let_def P1_def H_def g_def f_def fun_upd_twist)
  qed
  have "heads P' ?x = Some g" using P'(2) fr(3) by (simp add: H_def)
  moreover have "csz (heads P') a = csz (heads P) a \<and> c_parent (the (heads P' a)) = c_parent (the (heads P a))" if "a \<in> D" for a
    using that fr(1) h P'(2) by (auto simp: H_def f_def)
  ultimately show ?thesis using ev fr(1,2) tr' P' m(7)
    by (intro exI [of _ ?x] exI [of _ "K(?x := [], c := ?x # K c)"] exI [of _ P']) (simp add: ck_pool_def g_def)
qed


lemma find_chunk_ok:
  "\<forall>e \<in> set es. heads P e \<noteq> None \<and> e \<noteq> 0 \<Longrightarrow>
   \<exists>r. first_fit_chunk n es P = Some r \<and> (r \<noteq> 0 \<longrightarrow> r \<in> set es \<and> n \<le> c_free (the (heads P r)))"
proof (induction es)
  case (Cons e es)
  then obtain h where h: "heads P e = Some h" by auto
  show ?case using Cons h by (cases "n \<le> c_free h") (fastforce intro: exI [of _ e])+
qed simp

section \<open>The higher tier\<close>

definition chunk_holds :: "('p \<Rightarrow> (u32 \<times> u32) set \<Rightarrow> bool) \<Rightarrow> 'p chunk_pool \<Rightarrow> (u32 \<times> u32) set \<Rightarrow> (u32 \<times> u32) set \<Rightarrow> bool" where
  "chunk_holds holds P B R \<longleftrightarrow> (\<exists>D K U. ck_pool P D K U \<and> B = ck_blocks (heads P) U \<and> R \<inter> ck_tops (heads P) D = {}
     \<and> holds (cstore P) (R \<union> ck_tops (heads P) D))"

text \<open>\<open>B\<close> are the blocks that clients hold, \<open>R\<close> the blocks of the higher tier that others hold.\<close>

locale chunk_source =
  fixes holds :: "'p \<Rightarrow> (u32 \<times> u32) set \<Rightarrow> bool"
    and alloc :: "u32 \<Rightarrow> 'p \<Rightarrow> (u32 \<times> 'p) option"
    and release :: "u32 \<Rightarrow> 'p \<Rightarrow> 'p option"
    and real_size :: "u32 \<Rightarrow> 'p \<Rightarrow> u32 option"
  assumes alloc_law: "holds p S \<Longrightarrow> sz \<noteq> 0 \<Longrightarrow> unat sz \<le> 2 ^ 31 \<Longrightarrow> \<exists>r p'. alloc sz p = Some (r, p') \<and>
      (if r = 0 then holds p' S else \<exists>n. sz \<le> n \<and> (r, n) \<notin> S \<and> holds p' (insert (r, n) S))"
    and release_law: "holds p S \<Longrightarrow> (a, n) \<in> S \<Longrightarrow> \<exists>p'. release a p = Some p' \<and> holds p' (S - {(a, n)})"
    and size_law: "holds p S \<Longrightarrow> (a, n) \<in> S \<Longrightarrow> real_size a p = Some n"
    and place_law: "holds p S \<Longrightarrow> (a, n) \<in> S \<Longrightarrow> a \<noteq> 0 \<and> unat a mod 8 = 0 \<and> unat a + unat n < 2 ^ 32"
    and apart_law: "holds p S \<Longrightarrow> x \<in> S \<Longrightarrow> y \<in> S \<Longrightarrow> x \<noteq> y \<Longrightarrow> apart_from x y"
begin

abbreviation fns :: "'p chunk_fns" where
  "fns \<equiv> \<lparr>ca_alloc = Some alloc, ca_free = release, ca_real = Some real_size\<rparr>"

lemma grab_ok:
  assumes "ck_pool P D K U" "holds s (insert (c, n) (R \<union> ck_tops (heads P) D))" "(c, n) \<notin> R \<union> ck_tops (heads P) D" "R \<inter> ck_tops (heads P) D = {}"
    "alloc sz (cstore P) = Some (c, s)" "c \<noteq> 0" "sz \<le> n" "40 \<le> unat sz"
  shows "\<exists>K' P'. chunk_grab_new fns sz P = Some (c, P') \<and> c \<notin> D \<and> ck_pool P' (insert c D) K' U \<and> cstore P' = s \<and> c \<in> set (cp_full P')
     \<and> csz (heads P') c = unat n \<and> unat (c_free (the (heads P' c))) = unat n - 40 \<and> c_parent (the (heads P' c)) = 0
     \<and> (\<forall>a \<in> D. heads P' a = heads P a) \<and> ck_tops (heads P') (insert c D) = insert (c, n) (ck_tops (heads P) D)"
proof -
  have al: "cp_align P = 8" and tr: "ck_tree (heads P) D K U" and li: "ck_lists P D U" using assms(1) by (simp_all add: ck_pool_def)
  have pl: "unat c mod 8 = 0" "unat c + unat n < 2 ^ 32" "40 \<le> unat n"
    using place_law [OF assms(2)] assms(7,8) by (auto simp: word_le_nat_alt)
  have real: "real_size c s = Some n" by (rule size_law [OF assms(2)]) simp
  have far: "unat c + unat n \<le> unat t \<or> unat t + csz (heads P) t \<le> unat c" if "t \<in> D" "c_parent (the (heads P t)) = 0" for t
    using apart_law [OF assms(2), of "(c, n)" "(t, c_size (the (heads P t)))"] assms(3) that by (auto simp: ck_tops_def apart_from_def)
  have c: "c \<notin> D"
  proof
    assume cD: "c \<in> D"
    obtain t where t: "t \<in> D" "c_parent (the (heads P t)) = 0" "ck_in (heads P) c t" using ck_treeD(6) [OF tr cD] by blast
    have "40 \<le> csz (heads P) c" using ck_treeD(2) [OF tr cD] by (simp add: ck_node_def)
    then show False using far [OF t(1,2)] t(3) pl(3) by (auto simp: ck_in_def)
  qed
  have h: "align_up (c + 36) 8 = c + 40" "unat (c + 40) = unat c + 40" using align_header [OF pl(1)] pl by auto
  define g where "g = \<lparr>c_mem = c + 40, c_size = n, c_free = c + n - (c + 40), c_refcnt = 0, c_parent = 0, c_child = 0, c_sibling = 0\<rparr>"
  have cf: "unat (c_free g) = unat n - 40"
    using pl h(2) unat_add2 [of c n] by (simp add: g_def unat_sub word_le_nat_alt)
  define P' where "P' = P\<lparr>cstore := s, heads := (heads P)(c \<mapsto> g), cp_full := cp_full P @ [c]\<rparr>"
  have nsz: "\<not> n < sz" using assms(7) by (simp only: not_less)
  have "chunk_grab_new fns sz P = Some (c, P')"
    using assms(5,6) real h(1) al nsz by (simp add: chunk_grab_new_def chunk_setup_def upd_head_def chunk_align_def Let_def P'_def g_def)
  moreover have "ck_tree (heads P') (insert c D) (K(c := [])) U" unfolding P'_def
    by (simp, rule ck_tree_grab [OF tr c assms(6) pl far]) (use cf h in \<open>simp_all add: g_def\<close>)
  moreover have "ck_lists P' (insert c D) U" using li c ck_treeD(1) [OF tr] by (auto simp: ck_lists_def P'_def)
  moreover have "ck_tops (heads P') (insert c D) = insert (c, n) (ck_tops (heads P) D)"
    using c by (auto simp: ck_tops_def P'_def g_def)
  ultimately show ?thesis using al c cf
    by (intro exI [of _ "K(c := [])"] exI [of _ P']) (auto simp: ck_pool_def P'_def g_def)
qed

text \<open>The outcome of a split, as a new block.\<close>

lemma split_block:
  assumes "ck_pool P D K U" "c \<in> D" "c \<notin> U" "unat n mod 8 = 0" "48 \<le> unat n" "unat n \<le> unat (c_free (the (heads P c)))"
    "holds (cstore P) (R \<union> ck_tops (heads P) D)" "R \<inter> ck_tops (heads P) D = {}"
  shows "\<exists>x P' g. chunk_split c n P = Some (x, P') \<and> x \<noteq> 0 \<and> heads P' x = Some g \<and> c_mem g = x + 40 \<and> x + 40 \<noteq> 0
     \<and> (x + 40, n - 40) \<notin> ck_blocks (heads P) U \<and> chunk_holds holds P' (insert (x + 40, n - 40) (ck_blocks (heads P) U)) R"
proof -
  obtain x K' P' g where s: "chunk_split c n P = Some (x, P')" "x \<notin> D" "x \<noteq> 0" "ck_pool P' (insert x D) K' (insert x U)" "cstore P' = cstore P"
    "csz (heads P') x = unat n" "heads P' x = Some g" "c_mem g = x + 40" "c_parent g \<noteq> 0"
    "\<forall>a \<in> D. csz (heads P') a = csz (heads P) a \<and> c_parent (the (heads P' a)) = c_parent (the (heads P a))"
    using split_ok [OF assms(1-6)] by blast
  have tr: "ck_tree (heads P') (insert x D) K' (insert x U)" "ck_tree (heads P) D K U" using s(4) assms(1) by (simp_all add: ck_pool_def)
  have U: "U \<subseteq> D" using ck_treeD(1) [OF tr(2)] .
  have tops: "ck_tops (heads P') (insert x D) = ck_tops (heads P) D"
    using s(2,7,9,10) by (auto simp: ck_tops_def word_unat_eq_iff [symmetric])
  have "ck_blocks (heads P') (insert x U) = insert (x + 40, n - 40) (ck_blocks (heads P) U)"
  proof -
    have "ck_blocks (heads P') U = ck_blocks (heads P) U" by (rule ck_blocks_cong) (use s(10) U in blast)
    moreover have "c_size (the (heads P' x)) = n" using s(6) by (simp add: word_unat_eq_iff)
    ultimately show ?thesis by (simp add: ck_blocks_def)
  qed
  then have "chunk_holds holds P' (insert (x + 40, n - 40) (ck_blocks (heads P) U)) R"
    unfolding chunk_holds_def using s(4,5) tops assms(7,8) by (intro exI [of _ "insert x D"] exI [of _ K'] exI [of _ "insert x U"]) simp
  moreover have "(x + 40, n - 40) \<notin> ck_blocks (heads P) U" using s(2) U by (auto simp: ck_blocks_def)
  moreover have "x + 40 \<noteq> 0"
  proof -
    have "ck_node (heads P') K' (insert x U) x" using ck_treeD(2) [OF tr(1)] by blast
    then have "unat (x + 40) = unat x + 40" using unat_add2 [of x 40] by (simp add: ck_node_def)
    then show ?thesis by (simp add: word_unat_eq_iff)
  qed
  ultimately show ?thesis using s(1,3,7,8) by blast
qed


lemma alloc_cases:
  assumes "chunk_holds holds P B R" "sz \<noteq> 0" "unat sz \<le> 2 ^ 31 - 48"
  obtains P' where "chunk_alloc fns sz P = Some (0, P')" "chunk_holds holds P' B R" "\<exists>s. alloc (chunk_bytes sz) (cstore P) = Some (0, s)"
  | r P' where "chunk_alloc fns sz P = Some (r, P')" "r \<noteq> 0" "sz \<le> chunk_bytes sz - 40" "(r, chunk_bytes sz - 40) \<notin> B"
      "chunk_holds holds P' (insert (r, chunk_bytes sz - 40) B) R"
  | c n s where "chunk_alloc fns sz P = None" "alloc (chunk_bytes sz) (cstore P) = Some (c, s)" "real_size c s = Some n" "unat n < unat (chunk_bytes sz) + 40"
proof -
  obtain D K U where p: "ck_pool P D K U" "B = ck_blocks (heads P) U" "R \<inter> ck_tops (heads P) D = {}" "holds (cstore P) (R \<union> ck_tops (heads P) D)"
    using assms(1) by (auto simp: chunk_holds_def)
  have al: "cp_align P = 8" and tr: "ck_tree (heads P) D K U" and li: "ck_lists P D U" using p(1) by (simp_all add: ck_pool_def)
  let ?n = "chunk_bytes sz"
  note nb = chunk_bytes [OF assms(3,2)]
  have n40: "unat (?n - 40) = unat ?n - 40" using nb(4) by (simp add: unat_sub word_le_nat_alt)
  then have szn: "sz \<le> ?n - 40" using nb(1) by (simp add: word_le_nat_alt)
  have "\<forall>e \<in> set (cp_full P). heads P e \<noteq> None \<and> e \<noteq> 0"
    using ck_treeD(2) [OF tr] li unfolding ck_lists_def ck_node_def by (metis UnCI)
  then obtain e where e: "first_fit_chunk ?n (cp_full P) P = Some e" "e \<noteq> 0 \<longrightarrow> e \<in> set (cp_full P) \<and> ?n \<le> c_free (the (heads P e))"
    using find_chunk_ok by blast
  have cb: "chunk_align P (sz + cp_align P + 36) = ?n" using al by (simp add: chunk_align_def chunk_bytes_def)
  have unf: "chunk_alloc fns sz P = do {
      (c, P) \<leftarrow> (if e = 0 then chunk_grab_new fns ?n P else Some (e, P));
      if c = 0 then Some (0, P) else do { (c, P) \<leftarrow> chunk_split c ?n P; if c = 0 then None else do { h \<leftarrow> heads P c; Some (c_mem h, P) } } }"
    using assms(2) e(1) unfolding chunk_alloc_def cb Let_def by simp
  show ?thesis
  proof (cases "e = 0")
    case False
    then have ed: "e \<in> D" "e \<notin> U" "unat ?n \<le> unat (c_free (the (heads P e)))" using e(2) li by (auto simp: ck_lists_def word_le_nat_alt)
    obtain x P' g where "chunk_split e ?n P = Some (x, P')" "x \<noteq> 0" "heads P' x = Some g" "c_mem g = x + 40" "x + 40 \<noteq> 0"
      "(x + 40, ?n - 40) \<notin> B" "chunk_holds holds P' (insert (x + 40, ?n - 40) B) R"
      using split_block [OF p(1) ed(1,2) nb(2,4) ed(3) p(4,3)] p(2) by auto
    then show ?thesis using that(2) [of "x + 40" P'] unf False szn by simp
  next
    case True
    from alloc_law [OF p(4) nb(5,3)] obtain c s where a: "alloc ?n (cstore P) = Some (c, s)"
      "if c = 0 then holds s (R \<union> ck_tops (heads P) D)
       else \<exists>n. ?n \<le> n \<and> (c, n) \<notin> R \<union> ck_tops (heads P) D \<and> holds s (insert (c, n) (R \<union> ck_tops (heads P) D))" by blast
    show ?thesis
    proof (cases "c = 0")
      case c0: True
      have "chunk_holds holds (P\<lparr>cstore := s\<rparr>) B R" unfolding chunk_holds_def using p a(2) c0
        by (intro exI [of _ D] exI [of _ K] exI [of _ U]) (simp add: ck_pool_def ck_lists_def)
      moreover have "chunk_alloc fns sz P = Some (0, P\<lparr>cstore := s\<rparr>)" unfolding unf using True c0 a(1) by (simp add: chunk_grab_new_def)
      ultimately show ?thesis using that(1) a(1) c0 by blast
    next
      case c1: False
      then obtain n where n: "?n \<le> n" "(c, n) \<notin> R \<union> ck_tops (heads P) D" "holds s (insert (c, n) (R \<union> ck_tops (heads P) D))" using a(2) by auto
      obtain K' P1 where g: "chunk_grab_new fns ?n P = Some (c, P1)" "c \<notin> D" "ck_pool P1 (insert c D) K' U" "cstore P1 = s" "c \<in> set (cp_full P1)"
        "csz (heads P1) c = unat n" "unat (c_free (the (heads P1 c))) = unat n - 40" "c_parent (the (heads P1 c)) = 0"
        "\<forall>a \<in> D. heads P1 a = heads P a" "ck_tops (heads P1) (insert c D) = insert (c, n) (ck_tops (heads P) D)"
        using grab_ok [OF p(1) n(3,2) p(3) a(1) c1 n(1)] nb(4) by auto
      have cU: "c \<notin> U" using g(2) ck_treeD(1) [OF tr] by auto
      have B: "ck_blocks (heads P1) U = B" unfolding p(2) by (rule ck_blocks_cong) (use g(9) ck_treeD(1) [OF tr] in auto)
      show ?thesis
      proof (cases "unat n < unat ?n + 40")
        case small: True
        have hc: "heads P1 c \<noteq> None" using g(3) by (simp add: ck_pool_def ck_tree_def ck_node_def)
        have "c_free (the (heads P1 c)) < ?n" using g(7) small n(1) nb(4) by (simp add: word_less_nat_alt word_le_nat_alt)
        then have "chunk_split c ?n P1 = Some (0, P1)" using hc by (auto simp: chunk_split_def)
        then have "chunk_alloc fns sz P = None" unfolding unf using True g(1) c1 by simp
        then show ?thesis using that(3) a(1) size_law [OF n(3)] small by blast
      next
        case False
        have h: "holds (cstore P1) (R \<union> ck_tops (heads P1) (insert c D))" "R \<inter> ck_tops (heads P1) (insert c D) = {}"
          using g(4,10) n(2,3) p(3) by auto
        have fr: "unat ?n \<le> unat (c_free (the (heads P1 c)))" using g(7) False by simp
        obtain x P' q where "chunk_split c ?n P1 = Some (x, P')" "x \<noteq> 0" "heads P' x = Some q" "c_mem q = x + 40" "x + 40 \<noteq> 0"
          "(x + 40, ?n - 40) \<notin> B" "chunk_holds holds P' (insert (x + 40, ?n - 40) B) R"
          using split_block [OF g(3) insertI1 cU nb(2,4) fr h] B by auto
        then show ?thesis using that(2) [of "x + 40" P'] unf True g(1) c1 szn by simp
      qed
    qed
  qed
qed

end


section \<open>Releasing\<close>

lemma ck_blocks_remove: "ck_blocks h (U - {a}) = ck_blocks h U - {(a + 40, c_size (the (h a)) - 40)}"
  by (auto simp: ck_blocks_def)

lemma ck_tops_remove: "ck_tops (h(p := None)) (D - {p}) = ck_tops h D - {(p, c_size (the (h p)))}"
proof (intro set_eqI iffI)
  fix x assume "x \<in> ck_tops h D - {(p, c_size (the (h p)))}"
  then obtain t where t: "t \<in> D" "c_parent (the (h t)) = 0" "x = (t, c_size (the (h t)))" "t \<noteq> p" by (auto simp: ck_tops_def)
  then show "x \<in> ck_tops (h(p := None)) (D - {p})" unfolding ck_tops_def by auto
qed (auto simp: ck_tops_def)

text \<open>The header is found again from the address of the block.\<close>

lemma header_found:
  assumes "ck_pool P D K U" "a \<in> D"
  shows "a + 40 \<noteq> 0" "chunk_align P (a + 40 - 36 - cp_align P) = a" "chunk_align P (a + 36) = a + 40" "chunk_align P a = a" "unat (a + 40) = unat a + 40"
proof -
  have al: "cp_align P = 8" and n: "ck_node (heads P) K U a"
    using assms ck_treeD(2) [of "heads P" D K U a] by (simp_all add: ck_pool_def)
  then have "unat a mod 8 = 0" "unat a + csz (heads P) a < 2 ^ 32" "40 \<le> csz (heads P) a" by (simp_all add: ck_node_def)
  then have b: "unat a mod 8 = 0" "unat a + 40 < 2 ^ 32" by auto
  note h = align_header [OF b] and k = back_to_header [OF b] and i = align8_id [OF b(1)]
  show "chunk_align P (a + 40 - 36 - cp_align P) = a" using k by (simp only: chunk_align_def al)
  show "chunk_align P (a + 36) = a + 40" "chunk_align P a = a" "unat (a + 40) = unat a + 40" using h i by (simp_all add: chunk_align_def al)
  show "a + 40 \<noteq> 0" using h by (metis add_is_0 unat_0 zero_neq_numeral)
qed

text \<open>One step of \<^verbatim>\<open>chunk_free\<close> for a chunk in use, and for a top level chunk without children.\<close>

lemma chunk_free_step:
  assumes "ck_pool P D K U" "a \<in> U" "heads P a = Some h" "c_parent h = p" "heads P p = Some hp" "ca_alloc F \<noteq> None"
  shows "chunk_free F (a + 40) P = (if c_child hp = a then do {
       let P = P\<lparr>heads := (heads P)(p \<mapsto> hp\<lparr>c_child := c_sibling h, c_refcnt := c_refcnt hp - 1, c_mem := a, c_free := (p + c_size hp) - a\<rparr>,
                 a \<mapsto> h\<lparr>c_size := c_size hp - c_size h + 1\<rparr>)\<rparr>;
       P \<leftarrow> unlink_chunk a P;
       if c_refcnt hp - 1 = 0 then chunk_free F a P else Some P }
     else do { P \<leftarrow> chunk_setup a P; move_to_full a P })"
proof -
  have tr: "ck_tree (heads P) D K U" using assms(1) by (simp add: ck_pool_def)
  have aD: "a \<in> D" using ck_treeD(1) [OF tr] assms(2) by auto
  note f = header_found [OF assms(1) aD]
  have p0: "p \<noteq> 0" using ck_treeD(2) [OF tr aD] assms(2-4) by (simp add: ck_node_def)
  have pD: "p \<in> D" "a \<in> set (K p)" using ck_treeD(4) [OF tr aD] assms(3,4) p0 by simp_all
  have "ck_kids (heads P) p (K p)" using ck_treeD(2) [OF tr pD(1)] by (simp add: ck_node_def)
  then have "unat p \<le> unat a" using ck_kids_bounds(2) pD(2) by fastforce
  then have np: "\<not> a + 40 < p" using f(5) by (simp add: word_less_nat_alt)
  show ?thesis unfolding chunk_free.simps [of F "a + 40"] using assms(3-6) p0 np f(1-4) by (auto simp: Let_def)
qed

lemma chunk_free_top:
  assumes "heads P p = Some hp" "c_parent hp = 0" "c_refcnt hp = 0" "ca_alloc F \<noteq> None" "ck_pool Q D K U" "p \<in> D" "cp_align P = cp_align Q"
  shows "chunk_free F (p + 40) P = do { s \<leftarrow> ca_free F p (cstore P); unlink_chunk p (P\<lparr>cstore := s, heads := (heads P)(p := None)\<rparr>) }"
proof -
  note f = header_found [OF assms(5,6)]
  have e: "chunk_align P x = chunk_align Q x" for x using assms(7) by (simp add: chunk_align_def)
  show ?thesis unfolding chunk_free.simps [of F "p + 40"] using assms(1-4,7) f(1-3) by (auto simp: Let_def e)
qed

context chunk_source
begin

lemma free_avail:
  assumes "ck_pool P D K U" "a \<in> U" "holds (cstore P) (R \<union> ck_tops (heads P) D)" "R \<inter> ck_tops (heads P) D = {}"
  shows "\<exists>P'. do { P \<leftarrow> chunk_setup a P; move_to_full a P } = Some P'
     \<and> chunk_holds holds P' (ck_blocks (heads P) U - {(a + 40, c_size (the (heads P a)) - 40)}) R"
proof -
  have al: "cp_align P = 8" and tr: "ck_tree (heads P) D K U" and li: "ck_lists P D U" using assms(1) by (simp_all add: ck_pool_def)
  have aD: "a \<in> D" using ck_treeD(1) [OF tr] assms(2) by auto
  have n: "ck_node (heads P) K U a" by (rule ck_treeD(2) [OF tr aD])
  obtain h where h: "heads P a = Some h" using n by (auto simp: ck_node_def)
  note f = header_found [OF assms(1) aD]
  define g where "g = h\<lparr>c_mem := a + 40, c_free := (a + c_size h) - (a + 40)\<rparr>"
  define P1 where "P1 = P\<lparr>heads := (heads P)(a \<mapsto> g)\<rparr>"
  have s: "chunk_setup a P = Some P1" using h f(3) by (simp add: chunk_setup_def upd_head_def P1_def g_def Let_def)
  have cf: "unat (c_free g) = csz (heads P) a - 40"
    using n h f(5) unat_add2 [of a "c_size h"] by (simp add: g_def unat_sub word_le_nat_alt ck_node_def)
  have tr': "ck_tree (heads P1) D K (U - {a})" unfolding P1_def
    by (simp, rule ck_tree_avail [OF tr assms(2)]) (use cf f(5) h in \<open>simp_all add: g_def\<close>)
  define P' where "P' = P1\<lparr>cp_full := remove1 a (cp_full P) @ [a], cp_empty := remove1 a (cp_empty P)\<rparr>"
  have "move_to_full a P1 = Some P'" using li aD by (auto simp: move_to_full_def unlink_chunk_def ck_lists_def P1_def P'_def)
  moreover have "ck_lists P' D (U - {a})" using unlink_lists [OF li, of a] li aD by (auto simp: ck_lists_def P'_def)
  moreover have hs: "csz (heads P') b = csz (heads P) b" "c_size (the (heads P' b)) = c_size (the (heads P b))" "c_parent (the (heads P' b)) = c_parent (the (heads P b))" for b
    using h by (auto simp: P'_def P1_def g_def)
  moreover have "ck_tops (heads P') D = ck_tops (heads P) D" using hs by (auto simp: ck_tops_def)
  moreover have "ck_blocks (heads P') (U - {a}) = ck_blocks (heads P) U - {(a + 40, c_size (the (heads P a)) - 40)}"
    using ck_blocks_cong [of "U - {a}" "heads P'" "heads P"] hs ck_blocks_remove by simp
  moreover have "heads P' = heads P1" "cstore P' = cstore P" "cp_align P' = 8" using al by (simp_all add: P'_def P1_def)
  ultimately show ?thesis using s tr' assms(3,4) unfolding chunk_holds_def ck_pool_def
    by (intro exI [of _ P'] conjI exI [of _ D] exI [of _ K] exI [of _ "U - {a}"]) simp_all
qed


lemma free_merge:
  assumes "ck_pool P D K U" "a \<in> U" "heads P a = Some h" "c_parent h = p" "heads P p = Some hp" "c_child hp = a"
    "holds (cstore P) (R \<union> ck_tops (heads P) D)" "R \<inter> ck_tops (heads P) D = {}"
  shows "\<exists>P'. chunk_free fns (a + 40) P = Some P' \<and> chunk_holds holds P' (ck_blocks (heads P) U - {(a + 40, c_size h - 40)}) R"
proof -
  have al: "cp_align P = 8" and tr: "ck_tree (heads P) D K U" and li: "ck_lists P D U" using assms(1) by (simp_all add: ck_pool_def)
  note T = ck_treeD [OF tr]
  have aD: "a \<in> D" using T(1) assms(2) by auto
  have na: "ck_node (heads P) K U a" by (rule T(2) [OF aD])
  have p0: "p \<noteq> 0" using na assms(2-4) by (simp add: ck_node_def)
  have pD: "p \<in> D" "a \<in> set (K p)" using T(4) [OF aD] assms(3,4) p0 by simp_all
  have np: "ck_node (heads P) K U p" by (rule T(2) [OF pD(1)])
  obtain k ks where "K p = k # ks" using pD(2) by (cases "K p") auto
  then have K: "K p = a # ks" using np assms(5,6) by (simp add: ck_node_def)
  have pk: "ck_kids (heads P) p (a # ks)" using np K by (simp add: ck_node_def)
  have rng: "unat p + csz (heads P) p < 2 ^ 32" "unat a + csz (heads P) a \<le> unat p + csz (heads P) p" "unat p + 40 \<le> unat a"
    using np K ck_kids_bounds(2) [OF pk, of a] by (auto simp: ck_node_def)
  have pa: "p \<noteq> a" using rng(3) by auto
  define f where "f = hp\<lparr>c_child := c_sibling h, c_refcnt := c_refcnt hp - 1, c_mem := a, c_free := (p + c_size hp) - a\<rparr>"
  define H where "H = (heads P)(p \<mapsto> f, a \<mapsto> h\<lparr>c_size := c_size hp - c_size h + 1\<rparr>)"
  define P1 where "P1 = P\<lparr>heads := H, cp_full := remove1 a (cp_full P), cp_empty := remove1 a (cp_empty P)\<rparr>"
  have cf: "unat (c_free f) = unat p + csz (heads P) p - unat a"
    using assms(5) rng unat_add2 [of p "c_size hp"] by (simp add: f_def unat_sub word_le_nat_alt)
  have tr1: "ck_tree H (D - {a}) (K(p := ks)) (U - {a})" unfolding H_def
    by (rule ck_tree_merge [OF tr pD(1) K assms(2)]) (use assms(3,5) cf in \<open>simp_all add: f_def\<close>)
  have li1: "ck_lists P1 (D - {a}) (U - {a})" using unlink_lists [OF li, of a] li by (auto simp: ck_lists_def P1_def)
  have P1: "ck_pool P1 (D - {a}) (K(p := ks)) (U - {a})" using al tr1 li1 by (simp add: ck_pool_def P1_def)
  have Hs: "c_size (the (H b)) = c_size (the (heads P b))" "c_parent (the (H b)) = c_parent (the (heads P b))" if "b \<noteq> a" for b
    using that assms(5) by (simp_all add: H_def f_def)
  have tops1: "ck_tops H (D - {a}) = ck_tops (heads P) D"
  proof -
    have "c_parent (the (heads P a)) \<noteq> 0" using assms(3,4) p0 by simp
    then show ?thesis using Hs unfolding ck_tops_def by (intro Collect_cong) (metis Diff_iff singletonD singletonI)
  qed
  have B1: "ck_blocks H (U - {a}) = ck_blocks (heads P) U - {(a + 40, c_size h - 40)}"
    using ck_blocks_cong [of "U - {a}" H "heads P"] Hs ck_blocks_remove [of "heads P" U a] assms(3) by auto
  have Hp: "heads P1 p = Some f" using pa by (simp add: P1_def H_def)
  have aL: "a \<in> set (cp_full P) \<union> set (cp_empty P)" using li aD by (simp add: ck_lists_def)
  have ev: "chunk_free fns (a + 40) P = (if c_refcnt hp - 1 = 0 then chunk_free fns a P1 else Some P1)"
    using chunk_free_step [OF assms(1-5), of fns] assms(6) aL
    by (simp add: unlink_chunk_def P1_def H_def f_def Let_def)
  have len: "48 * length ks < 2 ^ 32"
  proof -
    have "unat p + 40 + 48 * length (a # ks) \<le> unat a + csz (heads P) a" using ck_kids_bounds(1) [OF pk] by simp
    then show ?thesis using rng(1,2) by simp
  qed
  have rc: "c_refcnt hp - 1 = (if c_parent hp = 0 then 0 else 1) + word_of_nat (length ks)" using np K assms(5) by (simp add: ck_node_def)
  show ?thesis
  proof (cases "c_refcnt hp - 1 = 0")
    case False
    have "chunk_holds holds P1 (ck_blocks (heads P) U - {(a + 40, c_size h - 40)}) R" unfolding chunk_holds_def
      using P1 tops1 B1 assms(7,8) by (intro exI [of _ "D - {a}"] exI [of _ "K(p := ks)"] exI [of _ "U - {a}"]) (simp add: P1_def)
    then show ?thesis using ev False by auto
  next
    case True
    have "unat ((if c_parent hp = 0 then 0 else 1) + word_of_nat (length ks) :: u32) = (if c_parent hp = 0 then 0 else 1) + length ks"
      using len by (simp add: unat_word_ariths unat_of_nat)
    then have top: "c_parent hp = 0" "ks = []" using True rc by (auto split: if_splits)
    have a: "a = p + 40"
    proof -
      have "unat a = unat p + 40" using pk top(2) by simp
      moreover have "unat (p + 40) = unat p + 40" using header_found(5) [OF assms(1) pD(1)] .
      ultimately show ?thesis by (simp add: word_unat_eq_iff)
    qed
    have mem: "(p, c_size hp) \<in> R \<union> ck_tops (heads P) D" using pD(1) top(1) assms(5) by (auto simp: ck_tops_def)
    obtain s where s: "release p (cstore P) = Some s" "holds s (R \<union> ck_tops (heads P) D - {(p, c_size hp)})"
      using release_law [OF assms(7) mem] by blast
    define P2 where "P2 = P1\<lparr>cstore := s, heads := H(p := None), cp_full := remove1 p (cp_full P1), cp_empty := remove1 p (cp_empty P1)\<rparr>"
    have pDa: "p \<in> D - {a}" using pD(1) pa by simp
    have fp: "c_parent f = 0" "c_refcnt f = 0" using top(1) True by (simp_all add: f_def)
    have "chunk_free fns a P1 = do { s \<leftarrow> ca_free fns p (cstore P1); unlink_chunk p (P1\<lparr>cstore := s, heads := (heads P1)(p := None)\<rparr>) }"
      unfolding a by (rule chunk_free_top [OF Hp fp _ P1 pDa]) simp_all
    moreover have "cstore P1 = cstore P" "p \<in> set (cp_full P1) \<union> set (cp_empty P1)" "heads P1 = H" using li1 pDa by (simp_all add: ck_lists_def P1_def)
    ultimately have "chunk_free fns (a + 40) P = Some P2" using ev True s(1) by (simp add: unlink_chunk_def P2_def)
    moreover have "chunk_holds holds P2 (ck_blocks (heads P) U - {(a + 40, c_size h - 40)}) R"
      unfolding chunk_holds_def
    proof (intro exI conjI)
      have tr2: "ck_tree (H(p := None)) (D - {a} - {p}) (K(p := ks)) (U - {a})"
        by (rule ck_tree_drop [OF tr1 pDa]) (use Hp fp top(2) in \<open>simp_all add: P1_def\<close>)
      have "ck_lists P2 (D - {a} - {p}) (U - {a} - {p})" by (rule ck_lists_unlink [OF li1]) (simp_all add: P2_def)
      moreover have pU: "p \<notin> U" using np K by (auto simp: ck_node_def)
      ultimately show "ck_pool P2 (D - {a} - {p}) (K(p := ks)) (U - {a})" using tr2 al by (simp add: ck_pool_def P2_def P1_def)
      have "ck_blocks (H(p := None)) (U - {a}) = ck_blocks H (U - {a})" by (rule ck_blocks_cong) (use pU in auto)
      then show "ck_blocks (heads P) U - {(a + 40, c_size h - 40)} = ck_blocks (heads P2) (U - {a})" using B1 by (simp add: P2_def)
      have t2: "ck_tops (heads P2) (D - {a} - {p}) = ck_tops (heads P) D - {(p, c_size hp)}"
        unfolding tops1 [symmetric] using Hp ck_tops_remove [of H p "D - {a}"] by (simp add: f_def P2_def P1_def)
      show "R \<inter> ck_tops (heads P2) (D - {a} - {p}) = {}" using t2 assms(8) by auto
      have "(p, c_size hp) \<in> ck_tops (heads P) D" using pD(1) top(1) assms(5) by (auto simp: ck_tops_def)
      then have "R \<union> ck_tops (heads P) D - {(p, c_size hp)} = R \<union> (ck_tops (heads P) D - {(p, c_size hp)})" using assms(8) by auto
      then show "holds (cstore P2) (R \<union> ck_tops (heads P2) (D - {a} - {p}))" using s(2) t2 by (simp add: P2_def)
    qed
    ultimately show ?thesis by blast
  qed
qed

lemma free_ok:
  assumes "chunk_holds holds P B R" "(r, n) \<in> B"
  shows "\<exists>P'. chunk_free fns r P = Some P' \<and> chunk_holds holds P' (B - {(r, n)}) R"
proof -
  obtain D K U where p: "ck_pool P D K U" "B = ck_blocks (heads P) U" "R \<inter> ck_tops (heads P) D = {}" "holds (cstore P) (R \<union> ck_tops (heads P) D)"
    using assms(1) by (auto simp: chunk_holds_def)
  have tr: "ck_tree (heads P) D K U" using p(1) by (simp add: ck_pool_def)
  obtain a where a: "a \<in> U" "r = a + 40" "n = c_size (the (heads P a)) - 40" using assms(2) p(2) by (auto simp: ck_blocks_def)
  have aD: "a \<in> D" using ck_treeD(1) [OF tr] a(1) by auto
  have na: "ck_node (heads P) K U a" by (rule ck_treeD(2) [OF tr aD])
  obtain h where h: "heads P a = Some h" using na by (auto simp: ck_node_def)
  have "c_parent h \<in> D" using ck_treeD(4) [OF tr aD] na h a(1) by (simp add: ck_node_def)
  then obtain hp where hp: "heads P (c_parent h) = Some hp" using ck_treeD(2) [OF tr] by (fastforce simp: ck_node_def)
  show ?thesis
  proof (cases "c_child hp = a")
    case True
    then show ?thesis using free_merge [OF p(1) a(1) h refl hp True p(4,3)] a(2,3) h p(2) by simp
  next
    case False
    then show ?thesis using free_avail [OF p(1) a(1) p(4,3)] chunk_free_step [OF p(1) a(1) h refl hp, of fns] a(2,3) h p(2) by simp
  qed
qed

text \<open>Blocks in use are apart from each other and from what others hold, at multiples of 8, and in the address space.\<close>

lemma block_in_top:
  assumes "ck_pool P D K U" "x \<in> ck_blocks (heads P) U"
  shows "\<exists>t \<in> ck_tops (heads P) D. unat (fst t) + 80 \<le> unat (fst x) \<and> unat (fst x) + unat (snd x) \<le> unat (fst t) + unat (snd t) \<and> unat (fst x) mod 8 = 0"
proof -
  have tr: "ck_tree (heads P) D K U" using assms(1) by (simp add: ck_pool_def)
  obtain a where a: "a \<in> U" "x = (a + 40, c_size (the (heads P a)) - 40)" using assms(2) by (auto simp: ck_blocks_def)
  have aD: "a \<in> D" using ck_treeD(1) [OF tr] a(1) by auto
  note f = header_found(5) [OF assms(1) aD]
  have na: "ck_node (heads P) K U a" by (rule ck_treeD(2) [OF tr aD])
  obtain t where t: "t \<in> D" "c_parent (the (heads P t)) = 0" "ck_in (heads P) a t" using ck_treeD(6) [OF tr aD] by blast
  have nt: "ck_node (heads P) K U t" by (rule ck_treeD(2) [OF tr t(1)])
  have ne: "t \<noteq> a" using na a(1) t(2) by (auto simp: ck_node_def)
  have "\<not> ck_disj (heads P) t a" using na t(3) by (auto simp: ck_node_def ck_disj_def ck_in_def)
  moreover have "\<not> ck_under (heads P) K a t" using na a(1) by (simp add: ck_node_def ck_under_def)
  ultimately have "ck_under (heads P) K t a" using ck_treeD(5) [OF tr t(1) aD ne] by blast
  from ck_under_inside(1) [OF nt this] have "unat t + 40 \<le> unat a" .
  moreover have "40 \<le> csz (heads P) a" using na by (simp add: ck_node_def)
  then have "unat (c_size (the (heads P a)) - 40) = csz (heads P) a - 40" by (simp add: unat_sub word_le_nat_alt)
  moreover have "(t, c_size (the (heads P t))) \<in> ck_tops (heads P) D" using t(1,2) by (auto simp: ck_tops_def)
  moreover have "unat a mod 8 = 0" using na by (simp add: ck_node_def)
  then have "(unat a + 40) mod 8 = 0" by presburger
  ultimately show ?thesis using t(3) f a(2) na by (intro bexI [of _ "(t, c_size (the (heads P t)))"]) (auto simp: ck_in_def ck_node_def)
qed

lemma holds_apart:
  assumes "chunk_holds holds P B R"
  shows "x \<in> B \<Longrightarrow> y \<in> B \<Longrightarrow> x \<noteq> y \<Longrightarrow> apart_from x y" "x \<in> B \<Longrightarrow> y \<in> R \<Longrightarrow> apart_from x y"
    "x \<in> B \<Longrightarrow> unat (fst x) mod 8 = 0 \<and> fst x \<noteq> 0 \<and> unat (fst x) + unat (snd x) < 2 ^ 32"
proof -
  obtain D K U where p: "ck_pool P D K U" "B = ck_blocks (heads P) U" "R \<inter> ck_tops (heads P) D = {}" "holds (cstore P) (R \<union> ck_tops (heads P) D)"
    using assms(1) by (auto simp: chunk_holds_def)
  have tr: "ck_tree (heads P) D K U" using p(1) by (simp add: ck_pool_def)
  note in_top = block_in_top [OF p(1)]
  show "unat (fst x) mod 8 = 0 \<and> fst x \<noteq> 0 \<and> unat (fst x) + unat (snd x) < 2 ^ 32" if x: "x \<in> B"
  proof -
    obtain t where t: "t \<in> ck_tops (heads P) D" "unat (fst t) + 80 \<le> unat (fst x)" "unat (fst x) + unat (snd x) \<le> unat (fst t) + unat (snd t)" "unat (fst x) mod 8 = 0"
      using in_top [of x] x p(2) by auto
    have "unat (fst t) + unat (snd t) < 2 ^ 32" using place_law [OF p(4), of "fst t" "snd t"] t(1) by simp
    moreover have "fst x \<noteq> 0" using t(2) by auto
    ultimately show ?thesis using t(3,4) by simp
  qed
  show "apart_from x y" if x: "x \<in> B" and y: "y \<in> R"
  proof -
    obtain t where t: "t \<in> ck_tops (heads P) D" "unat (fst t) + 80 \<le> unat (fst x)" "unat (fst x) + unat (snd x) \<le> unat (fst t) + unat (snd t)"
      using in_top [of x] x p(2) by auto
    have "apart_from t y" using apart_law [OF p(4), of t y] t(1) y p(3) by auto
    then show ?thesis using t by (auto simp: apart_from_def)
  qed
  show "apart_from x y" if xy: "x \<in> B" "y \<in> B" "x \<noteq> y"
  proof -
    obtain a where a: "a \<in> U" "x = (a + 40, c_size (the (heads P a)) - 40)" using xy(1) p(2) by (auto simp: ck_blocks_def)
    obtain b where b: "b \<in> U" "y = (b + 40, c_size (the (heads P b)) - 40)" using xy(2) p(2) by (auto simp: ck_blocks_def)
    have D: "a \<in> D" "b \<in> D" using ck_treeD(1) [OF tr] a(1) b(1) by auto
    have "40 \<le> csz (heads P) a" "40 \<le> csz (heads P) b" using ck_treeD(2) [OF tr] D by (simp_all add: ck_node_def)
    then have "unat (c_size (the (heads P a)) - 40) = csz (heads P) a - 40" "unat (c_size (the (heads P b)) - 40) = csz (heads P) b - 40"
      by (simp_all add: unat_sub word_le_nat_alt)
    moreover have "ck_disj (heads P) a b" using ck_used_disj [OF tr a(1) b(1)] xy(3) a(2) b(2) by auto
    ultimately show ?thesis using header_found(5) [OF p(1) D(1)] header_found(5) [OF p(1) D(2)] a(2) b(2)
      by (auto simp: apart_from_def ck_disj_def)
  qed
qed

lemma init_ok: "holds (cstore P) R \<Longrightarrow> chunk_holds holds (chunk_pool_init 8 P) {} R"
  unfolding chunk_holds_def
  by (intro exI [of _ "{}"] exI [of _ "\<lambda>_. []"]) (simp add: ck_pool_def ck_tree_def ck_lists_def chunk_pool_init_def ck_blocks_def ck_tops_def)

end

end
