(* ===== verification/Buddy_Blocks.thy ===== *)
theory Buddy_Blocks
  imports Flight_Prelude
begin

text \<open>
  The abstract state of a buddy system: a map from the offset of every block to its order and
  whether it is free.  A tiling covers the pool of \<open>2 ^ ma\<close> bytes with disjoint blocks, each
  aligned to its own size.  The theory holds the two transformations of the allocator (splitting a
  block, merging two buddies) and what they keep, the count of used granules, and the fact that a
  coalesced tiling without used blocks is the single block of maximal order.
\<close>

type_synonym blocks = "nat \<rightharpoonup> nat \<times> bool"

definition wf_block :: "nat \<Rightarrow> nat \<Rightarrow> nat \<Rightarrow> nat \<Rightarrow> bool" where
  "wf_block ma mi off k \<longleftrightarrow> mi \<le> k \<and> k \<le> ma \<and> 2 ^ k dvd off \<and> off + 2 ^ k \<le> 2 ^ ma"

definition tiling :: "nat \<Rightarrow> nat \<Rightarrow> blocks \<Rightarrow> bool" where
  "tiling ma mi B \<longleftrightarrow>
     (\<forall>off k f. B off = Some (k, f) \<longrightarrow> wf_block ma mi off k)
   \<and> (\<forall>p q k l f g. B p = Some (k, f) \<longrightarrow> B q = Some (l, g) \<longrightarrow> p < q \<longrightarrow> p + 2 ^ k \<le> q)
   \<and> (\<forall>a < 2 ^ ma. \<exists>off k f. B off = Some (k, f) \<and> off \<le> a \<and> a < off + 2 ^ k)"

definition buddy :: "nat \<Rightarrow> nat \<Rightarrow> nat" where
  "buddy off k = (if even (off div 2 ^ k) then off + 2 ^ k else off - 2 ^ k)"

definition coalesced :: "nat \<Rightarrow> blocks \<Rightarrow> bool" where
  "coalesced ma B \<longleftrightarrow>
     (\<forall>off k. k < ma \<longrightarrow> B off = Some (k, True) \<longrightarrow> B (buddy off k) \<noteq> Some (k, True))"

fun weight :: "nat \<Rightarrow> (nat \<times> bool) option \<Rightarrow> nat" where
  "weight mi (Some (k, False)) = 2 ^ (k - mi)"
| "weight mi _ = 0"

definition used :: "nat \<Rightarrow> nat \<Rightarrow> blocks \<Rightarrow> nat" where
  "used ma mi B = (\<Sum>off < 2 ^ ma. weight mi (B off))"

section \<open>Offsets and buddies\<close>

lemma tilingD:
  assumes "tiling ma mi B"
  shows tiling_wf: "\<And>off k f. B off = Some (k, f) \<Longrightarrow> wf_block ma mi off k"
    and tiling_disj: "\<And>p q k l f g. B p = Some (k, f) \<Longrightarrow> B q = Some (l, g) \<Longrightarrow> p < q \<Longrightarrow> p + 2 ^ k \<le> q"
    and tiling_cover: "\<And>a. a < 2 ^ ma \<Longrightarrow> \<exists>off k f. B off = Some (k, f) \<and> off \<le> a \<and> a < off + 2 ^ k"
  using assms unfolding tiling_def by blast+

lemma wf_block_less: "wf_block ma mi off k \<Longrightarrow> off < 2 ^ ma"
  by (auto simp: wf_block_def intro: less_le_trans [rotated])

lemma buddy_cases:
  assumes "2 ^ k dvd off"
  obtains "2 ^ Suc k dvd off" "buddy off k = off + 2 ^ k"
  | "2 ^ k \<le> off" "2 ^ Suc k dvd off - 2 ^ k" "buddy off k = off - 2 ^ k"
proof -
  from assms obtain q where q: "off = 2 ^ k * q" ..
  show thesis
  proof (cases "even q")
    case True
    with q that(1) show ?thesis by (auto simp: buddy_def elim!: evenE)
  next
    case False
    then obtain r where r: "q = 2 * r + 1" by (auto elim: oddE)
    with q have "off - 2 ^ k = 2 ^ Suc k * r" "2 ^ k \<le> off" by (auto simp: algebra_simps)
    with False q that(2) show ?thesis by (auto simp: buddy_def)
  qed
qed

lemma buddy_pair:
  assumes "2 ^ k dvd off"
  shows "\<exists>lo. 2 ^ Suc k dvd lo \<and> (off = lo \<and> buddy off k = lo + 2 ^ k \<or> off = lo + 2 ^ k \<and> buddy off k = lo)"
  using assms
proof (cases rule: buddy_cases)
  case 1
  then show ?thesis by blast
next
  case 2
  then show ?thesis by (intro exI [of _ "off - 2 ^ k"]) simp
qed

lemma buddy_xor: "2 ^ k dvd off \<Longrightarrow> off XOR 2 ^ k = buddy off k" for off :: nat
proof -
  assume "2 ^ k dvd off"
  then obtain q where q: "off = push_bit k q" by (auto simp: push_bit_eq_mult)
  have "2 ^ k = push_bit k (1::nat)" by (simp add: push_bit_eq_mult)
  then have "off XOR 2 ^ k = push_bit k (q XOR 1)"
    by (simp only: q push_bit_xor)
  also have "\<dots> = buddy off k"
  proof (cases "even q")
    case True
    then have "q XOR 1 = q + 1" by (simp add: xor_one_eq del: One_nat_def)
    with True show ?thesis by (simp add: q buddy_def push_bit_eq_mult algebra_simps)
  next
    case False
    then have "q XOR 1 = q - 1" by (simp add: xor_one_eq del: One_nat_def)
    with False show ?thesis
      by (simp add: q buddy_def push_bit_eq_mult diff_mult_distrib)
  qed
  finally show ?thesis .
qed

lemma buddy_dvd: "2 ^ k dvd off \<Longrightarrow> 2 ^ k dvd buddy off k"
  by (erule buddy_cases) (auto dest: dvd_diff_nat [OF _ dvd_refl])

lemma buddy_buddy: "2 ^ k dvd off \<Longrightarrow> buddy (buddy off k) k = off"
  using buddy_dvd [of k off] by (simp add: xor.assoc flip: buddy_xor)

lemma buddy_neq:
  assumes "2 ^ k dvd off"
  shows "buddy off k \<noteq> off"
proof -
  have "0 < (2::nat) ^ k" by simp
  with assms show ?thesis
    by (cases rule: buddy_cases) linarith+
qed

lemma aligned_fits:
  assumes "2 ^ j dvd off" "off < 2 ^ ma" "j \<le> ma"
  shows "off + 2 ^ j \<le> (2::nat) ^ ma"
proof -
  from assms obtain q where q: "off = 2 ^ j * q" by blast
  from assms(3) have m: "(2::nat) ^ ma = 2 ^ j * 2 ^ (ma - j)" by (simp flip: power_add)
  from assms(2) q m have "q < 2 ^ (ma - j)" by simp
  then have "2 ^ j * Suc q \<le> 2 ^ j * 2 ^ (ma - j)" by (intro mult_le_mono2) simp
  with q m show ?thesis by simp
qed

lemma buddy_in_pool:
  assumes "wf_block ma mi off k" "k < ma"
  shows "wf_block ma mi (buddy off k) k"
proof -
  from assms have d: "2 ^ k dvd off" and lt: "off < 2 ^ ma"
    by (auto simp: wf_block_def intro: wf_block_less [OF assms(1)])
  have "buddy off k < 2 ^ ma"
    using d
  proof (cases rule: buddy_cases)
    case 1
    with lt assms(2) aligned_fits [of "Suc k" off ma] show ?thesis by auto
  next
    case 2
    with lt show ?thesis by simp
  qed
  with assms d show ?thesis
    by (simp add: wf_block_def buddy_dvd aligned_fits)
qed

section \<open>Splitting and merging\<close>

lemma tiling_flag:
  assumes "tiling ma mi B" "B off = Some (k, f)"
  shows "tiling ma mi (B(off \<mapsto> (k, g)))"
proof -
  have eq: "(\<exists>h. (B(off \<mapsto> (k, g))) p = Some (l, h)) = (\<exists>h. B p = Some (l, h))" for p l
    using assms(2) by auto
  show ?thesis
    unfolding tiling_def
  proof (intro conjI allI impI)
    show "wf_block ma mi p l" if "(B(off \<mapsto> (k, g))) p = Some (l, h)" for p l h
      using that eq [of p l] tiling_wf [OF assms(1)] by blast
    show "p + 2 ^ l \<le> q"
      if "(B(off \<mapsto> (k, g))) p = Some (l, h)" "(B(off \<mapsto> (k, g))) q = Some (l', h')" "p < q" for p q l l' h h'
      using that eq [of p l] eq [of q l'] tiling_disj [OF assms(1)] by blast
    show "\<exists>p l h. (B(off \<mapsto> (k, g))) p = Some (l, h) \<and> p \<le> a \<and> a < p + 2 ^ l" if "a < 2 ^ ma" for a
      using tiling_cover [OF assms(1) that] eq by metis
  qed
qed

lemma tiling_split:
  assumes "tiling ma mi B" "B off = Some (Suc k, f)" "mi \<le> k"
  shows "tiling ma mi (B(off \<mapsto> (k, g), off + 2 ^ k \<mapsto> (k, h)))"
    and "B (off + 2 ^ k) = None"
proof -
  note wf = tiling_wf [OF assms(1)] and disj = tiling_disj [OF assms(1)]
  have off: "2 ^ Suc k dvd off" "off + 2 ^ Suc k \<le> 2 ^ ma" "Suc k \<le> ma"
    using wf [OF assms(2)] by (auto simp: wf_block_def)
  show none: "B (off + 2 ^ k) = None"
  proof (rule ccontr)
    assume "B (off + 2 ^ k) \<noteq> None"
    then obtain l g where "B (off + 2 ^ k) = Some (l, g)" by auto
    from disj [OF assms(2) this] show False by simp
  qed
  let ?B = "B(off \<mapsto> (k, g), off + 2 ^ k \<mapsto> (k, h))"
  have after: "off + 2 ^ Suc k \<le> q" if "B q = Some (l, f')" "off < q" for q l f'
    using disj [OF assms(2) that] .
  have before: "q + 2 ^ l \<le> off" if "B q = Some (l, f')" "q < off" for q l f'
    using disj [OF that(1) assms(2) that(2)] .
  show "tiling ma mi ?B"
    unfolding tiling_def
  proof (intro conjI allI impI)
    show "wf_block ma mi p l" if "?B p = Some (l, f')" for p l f'
      using that off assms(3) wf
      by (auto simp: wf_block_def split: if_splits dest: dvd_mult_left [of "2 ^ k" 2])
    show "p + 2 ^ l \<le> q" if "?B p = Some (l, f')" "?B q = Some (l', f'')" "p < q" for p q l l' f' f''
      using that disj after [of q l' f''] before [of p l f'] after [of p l f']
      by (fastforce split: if_splits)
    show "\<exists>p l f'. ?B p = Some (l, f') \<and> p \<le> a \<and> a < p + 2 ^ l" if "a < 2 ^ ma" for a
    proof -
      from tiling_cover [OF assms(1) that] obtain p l f' where
        p: "B p = Some (l, f')" "p \<le> a" "a < p + 2 ^ l" by blast
      consider "p \<noteq> off" | "p = off" "a < off + 2 ^ k" | "p = off" "off + 2 ^ k \<le> a" by linarith
      then show ?thesis
      proof cases
        case 1
        with p none show ?thesis by (intro exI [of _ p] exI [of _ l] exI [of _ f']) auto
      next
        case 2
        with p show ?thesis by (intro exI [of _ off] exI [of _ k] exI [of _ g]) auto
      next
        case 3
        with p assms(2) show ?thesis
          by (intro exI [of _ "off + 2 ^ k"] exI [of _ k] exI [of _ h]) auto
      qed
    qed
  qed
qed

lemma tiling_merge:
  assumes "tiling ma mi B" "B lo = Some (k, f)" "B (lo + 2 ^ k) = Some (k, f')" "2 ^ Suc k dvd lo"
    and "k < ma"
  shows "tiling ma mi (B(lo + 2 ^ k := None, lo \<mapsto> (Suc k, g)))"
proof -
  note wf = tiling_wf [OF assms(1)] and disj = tiling_disj [OF assms(1)]
  let ?B = "B(lo + 2 ^ k := None, lo \<mapsto> (Suc k, g))"
  have hi: "lo + 2 ^ Suc k \<le> 2 ^ ma" "mi \<le> k" using wf [OF assms(3)] by (auto simp: wf_block_def)
  have after: "lo + 2 ^ Suc k \<le> q" if "B q = Some (l, h)" "lo < q" "q \<noteq> lo + 2 ^ k" for q l h
    using disj [OF assms(2) that(1,2)] disj [OF assms(3) that(1)] that(3) by simp
  have before: "q + 2 ^ l \<le> lo" if "B q = Some (l, h)" "q < lo" for q l h
    using disj [OF that(1) assms(2) that(2)] .
  show ?thesis
    unfolding tiling_def
  proof (intro conjI allI impI)
    show "wf_block ma mi p l" if "?B p = Some (l, h)" for p l h
      using that hi assms(4,5) wf by (auto simp: wf_block_def split: if_splits)
    show "p + 2 ^ l \<le> q" if "?B p = Some (l, h)" "?B q = Some (l', h')" "p < q" for p q l l' h h'
      using that disj after [of q l' h'] before [of p l h] by (fastforce split: if_splits)
    show "\<exists>p l h. ?B p = Some (l, h) \<and> p \<le> a \<and> a < p + 2 ^ l" if "a < 2 ^ ma" for a
    proof -
      from tiling_cover [OF assms(1) that] obtain p l h where
        p: "B p = Some (l, h)" "p \<le> a" "a < p + 2 ^ l" by blast
      show ?thesis
      proof (cases "p = lo \<or> p = lo + 2 ^ k")
        case True
        with p assms(2,3) show ?thesis
          by (intro exI [of _ lo] exI [of _ "Suc k"] exI [of _ g]) auto
      next
        case False
        with p show ?thesis by (intro exI [of _ p] exI [of _ l] exI [of _ h]) auto
      qed
    qed
  qed
qed


section \<open>Counting\<close>

lemma weight_0_iff [simp]: "weight mi v = 0 \<longleftrightarrow> (\<forall>k. v \<noteq> Some (k, False))"
  by (induction mi v rule: weight.induct) auto

lemma used_update:
  assumes "off < 2 ^ ma"
  shows "used ma mi (B(off := v)) + weight mi (B off) = used ma mi B + weight mi v"
proof -
  have "(\<Sum>p \<in> {..<2 ^ ma} - {off}. weight mi ((B(off := v)) p)) =
        (\<Sum>p \<in> {..<2 ^ ma} - {off}. weight mi (B p))"
    by (rule sum.cong) auto
  with assms show ?thesis
    by (simp add: used_def sum.remove [of "{..<2 ^ ma}" off])
qed

lemma used_flag:
  assumes "tiling ma mi B" "B off = Some (k, f)"
  shows "used ma mi (B(off \<mapsto> (k, g))) + weight mi (Some (k, f)) = used ma mi B + weight mi (Some (k, g))"
  using used_update [OF wf_block_less [OF tiling_wf [OF assms]], of mi B "Some (k, g)"] assms(2) by simp

text \<open>Splitting a used block and setting its upper half free.\<close>

lemma used_split:
  assumes "tiling ma mi B" "B off = Some (Suc k, False)" "mi \<le> k"
  shows "used ma mi (B(off \<mapsto> (k, False), off + 2 ^ k \<mapsto> (k, True))) + 2 ^ (k - mi) = used ma mi B"
proof -
  note wf = tiling_wf [OF assms(1,2)]
  have "off + 2 * 2 ^ k \<le> 2 ^ ma" using wf by (simp add: wf_block_def)
  moreover have "0 < (2::nat) ^ k" by simp
  ultimately have lt: "off < 2 ^ ma" "off + 2 ^ k < 2 ^ ma" by linarith+
  have none: "B (off + 2 ^ k) = None" by (rule tiling_split(2) [OF assms])
  have "used ma mi (B(off \<mapsto> (k, False), off + 2 ^ k \<mapsto> (k, True))) = used ma mi (B(off \<mapsto> (k, False)))"
    using used_update [OF lt(2), of mi "B(off \<mapsto> (k, False))" "Some (k, True)"] none by simp
  moreover have "used ma mi (B(off \<mapsto> (k, False))) + 2 ^ (Suc k - mi) = used ma mi B + 2 ^ (k - mi)"
    using used_update [OF lt(1), of mi B "Some (k, False)"] assms(2) by simp
  ultimately show ?thesis using assms(3) by (simp add: Suc_diff_le)
qed

text \<open>Merging a used block with a free one.\<close>

lemma used_merge:
  assumes "tiling ma mi B" "B p = Some (k, False)" "B q = Some (k, True)" "p \<noteq> q"
    and "lo = p \<and> hi = q \<or> lo = q \<and> hi = p"
  shows "used ma mi (B(hi := None, lo \<mapsto> (Suc k, False))) + 2 ^ (k - mi)
           = used ma mi B + 2 ^ (Suc k - mi)"
proof -
  have lt: "p < 2 ^ ma" "q < 2 ^ ma"
    using wf_block_less tiling_wf [OF assms(1)] assms(2,3) by blast+
  have "used ma mi (B(hi := None)) + weight mi (B hi) = used ma mi B"
    using used_update [of hi ma mi B None] lt assms(5) by auto
  moreover have "used ma mi (B(hi := None, lo \<mapsto> (Suc k, False))) + weight mi (B lo)
      = used ma mi (B(hi := None)) + 2 ^ (Suc k - mi)"
    using used_update [of lo ma mi "B(hi := None)" "Some (Suc k, False)"] lt assms(4,5) by auto
  moreover have "weight mi (B hi) + weight mi (B lo) = 2 ^ (k - mi)"
    using assms(2,3,5) by auto
  ultimately show ?thesis by simp
qed

lemma used_0_iff:
  assumes "tiling ma mi B"
  shows "used ma mi B = 0 \<longleftrightarrow> (\<forall>off k. B off \<noteq> Some (k, False))"
proof
  assume "used ma mi B = 0"
  then have z: "\<And>off. off < 2 ^ ma \<Longrightarrow> weight mi (B off) = 0" by (simp add: used_def)
  show "\<forall>off k. B off \<noteq> Some (k, False)"
  proof (intro allI notI)
    fix off k assume b: "B off = Some (k, False)"
    from z [OF wf_block_less [OF tiling_wf [OF assms b]]] b show False by simp
  qed
next
  assume a: "\<forall>off k. B off \<noteq> Some (k, False)"
  then show "used ma mi B = 0" by (simp add: used_def)
qed

lemma used_le: 
  assumes "tiling ma mi B" "mi \<le> ma"
  shows "used ma mi B \<le> 2 ^ (ma - mi)"
proof -
  let ?D = "{off. \<exists>k. B off = Some (k, False)}"
  let ?sz = "\<lambda>off. 2 ^ fst (the (B off)) :: nat"
  have sub: "?D \<subseteq> {..<2 ^ ma}" using tiling_wf [OF assms(1)] wf_block_less by blast
  then have fin: "finite ?D" by (rule finite_subset) simp
  have dj: "{p..<p + ?sz p} \<inter> {q..<q + ?sz q} = {}" if "p \<in> ?D" "q \<in> ?D" "p \<noteq> q" for p q
    using that tiling_disj [OF assms(1)] by (cases "p < q") fastforce+
  have "(\<Sum>off\<in>?D. ?sz off) = card (\<Union>off\<in>?D. {off..<off + ?sz off})"
    by (subst card_UN_disjoint) (use fin dj in auto)
  also have "\<dots> \<le> card {..<(2::nat) ^ ma}"
  proof (rule card_mono)
    show "(\<Union>off\<in>?D. {off..<off + ?sz off}) \<subseteq> {..<2 ^ ma}"
      using tiling_wf [OF assms(1)] by (fastforce simp: wf_block_def)
  qed simp
  finally have total: "(\<Sum>off\<in>?D. ?sz off) \<le> 2 ^ ma" by simp
  have "2 ^ mi * used ma mi B = (\<Sum>off < 2 ^ ma. 2 ^ mi * weight mi (B off))"
    by (simp add: used_def sum_distrib_left)
  also have "\<dots> = (\<Sum>off\<in>?D. 2 ^ mi * weight mi (B off))"
    by (rule sum.mono_neutral_right) (use sub in auto)
  also have "\<dots> = (\<Sum>off\<in>?D. ?sz off)"
  proof (rule sum.cong)
    fix off assume "off \<in> ?D"
    then obtain k where k: "B off = Some (k, False)" by blast
    from tiling_wf [OF assms(1) k] have "mi \<le> k" by (simp add: wf_block_def)
    with k show "2 ^ mi * weight mi (B off) = ?sz off" by (simp flip: power_add)
  qed simp
  finally have "2 ^ mi * used ma mi B \<le> 2 ^ mi * 2 ^ (ma - mi)"
    using total assms(2) by (simp flip: power_add)
  then show ?thesis by simp
qed

section \<open>Coalescing\<close>

text \<open>In a tiling, the buddy of a block of least order is a block of the same order.\<close>

lemma least_order_buddy:
  assumes "tiling ma mi B" "B off = Some (k, f)" "k < ma"
    and least: "\<And>p l g. B p = Some (l, g) \<Longrightarrow> k \<le> l"
  shows "\<exists>g. B (buddy off k) = Some (k, g)"
proof -
  have wf: "wf_block ma mi off k" by (rule tiling_wf [OF assms(1,2)])
  then have d: "2 ^ k dvd off" by (simp add: wf_block_def)
  have bl: "buddy off k < 2 ^ ma" by (rule wf_block_less [OF buddy_in_pool [OF wf assms(3)]])
  from tiling_cover [OF assms(1) bl] obtain p l g where
    p: "B p = Some (l, g)" "p \<le> buddy off k" "buddy off k < p + 2 ^ l" by blast
  from least [OF p(1)] have kl: "k \<le> l" .
  from tiling_wf [OF assms(1) p(1)] have pd: "2 ^ l dvd p" by (simp add: wf_block_def)
  have po: "p \<noteq> off"
  proof
    assume "p = off"
    with p(1) assms(2) have "l = k" by simp
    with p(2,3) \<open>p = off\<close> buddy_cases [OF d] buddy_neq [OF d] show False
      by (metis le_antisym less_irrefl_nat linorder_not_le diff_le_self)
  qed
  have "l = k"
  proof (rule ccontr)
    assume "l \<noteq> k"
    with kl have "Suc k \<le> l" by simp
    then have p2: "2 ^ Suc k dvd p" "2 ^ Suc k dvd p + 2 ^ l"
      using pd by (meson dvd_trans le_imp_power_dvd dvd_add dvd_refl)+
    obtain lo where lo: "2 ^ Suc k dvd lo" "off = lo \<or> off = lo + 2 ^ k"
      "buddy off k = lo \<or> buddy off k = lo + 2 ^ k"
      using buddy_pair [OF d] by blast
    from lo(1) p2 obtain a b c where abc: "lo = 2 ^ Suc k * a" "p = 2 ^ Suc k * b" "p + 2 ^ l = 2 ^ Suc k * c"
      by (auto elim!: dvdE)
    have k0: "0 < (2::nat) ^ k" "(2::nat) ^ Suc k = 2 * 2 ^ k" by simp_all
    with lo(3) p(2,3) have "p < lo + 2 ^ Suc k" "lo < p + 2 ^ l" by linarith+
    with abc have "2 ^ Suc k * b < 2 ^ Suc k * Suc a" "2 ^ Suc k * a < 2 ^ Suc k * c" by simp_all
    then have ba: "b \<le> a" and ac: "Suc a \<le> c" by (simp_all only: mult_less_cancel1) simp_all
    have "p \<le> lo" "lo + 2 ^ Suc k \<le> p + 2 ^ l"
      using mult_le_mono2 [OF ba, of "2 ^ Suc k"] mult_le_mono2 [OF ac, of "2 ^ Suc k"] abc by simp_all
    with lo(2) po k0 have "p < off" "off < p + 2 ^ l" by linarith+
    with tiling_disj [OF assms(1) p(1) assms(2)] show False by simp
  qed
  moreover have "p = buddy off k"
  proof -
    from pd \<open>l = k\<close> buddy_dvd [OF d] obtain a b where ab: "p = 2 ^ k * a" "buddy off k = 2 ^ k * b"
      by (auto elim!: dvdE)
    with p(2,3) \<open>l = k\<close> have "2 ^ k * a \<le> 2 ^ k * b" "2 ^ k * b < 2 ^ k * Suc a" by auto
    then have "a \<le> b" "b < Suc a" by (simp_all only: mult_le_cancel1 mult_less_cancel1)
    with ab show ?thesis by simp
  qed
  ultimately show ?thesis using p(1) by auto
qed

theorem coalesced_all_free:
  assumes "tiling ma mi B" "coalesced ma B" "used ma mi B = 0"
  shows "B = [0 \<mapsto> (ma, True)]"
proof -
  note wf = tiling_wf [OF assms(1)]
  have free: "f" if "B off = Some (k, f)" for off k f
    using assms(1,3) that used_0_iff by (cases f) auto
  from tiling_cover [OF assms(1), of 0] obtain k0 f0 where z: "B 0 = Some (k0, f0)" by auto
  define k where "k = (LEAST k. \<exists>off f. B off = Some (k, f))"
  have "\<exists>off f. B off = Some (k, f)" unfolding k_def by (rule LeastI_ex) (use z in blast)
  then obtain off f where off: "B off = Some (k, f)" by blast
  have least: "k \<le> l" if "B p = Some (l, g)" for p l g
    unfolding k_def by (rule Least_le) (use that in blast)
  have "k = ma"
  proof (rule ccontr)
    assume "k \<noteq> ma"
    with wf [OF off] have "k < ma" by (simp add: wf_block_def)
    from least_order_buddy [OF assms(1) off this] least obtain g where "B (buddy off k) = Some (k, g)" by blast
    with off free [OF off] free [OF this] assms(2) \<open>k < ma\<close> show False by (simp add: coalesced_def)
  qed
  have only: "p = 0 \<and> l = ma \<and> g" if "B p = Some (l, g)" for p l g
  proof -
    from wf [OF that] least [OF that] \<open>k = ma\<close> have "l = ma" "p = 0" by (auto simp: wf_block_def)
    with free [OF that] show ?thesis by simp
  qed
  from only [OF z] z have "B 0 = Some (ma, True)" by simp
  moreover have "B p = None" if "p \<noteq> 0" for p
    using only [of p] that by (cases "B p") auto
  ultimately show ?thesis by (auto simp: fun_eq_iff)
qed


section \<open>Runs of splits and releases\<close>

text \<open>The blocks in use, with their orders.\<close>

definition live :: "blocks \<Rightarrow> (nat \<times> nat) set" where
  "live B = {(off, k). B off = Some (k, False)}"

text \<open>
  Halving the used block at \<open>off\<close> from order \<open>i\<close> down to \<open>ord\<close>, the upper halves becoming free.
\<close>

fun split_down :: "blocks \<Rightarrow> nat \<Rightarrow> nat \<Rightarrow> nat \<Rightarrow> blocks" where
  "split_down B off ord 0 = B"
| "split_down B off ord (Suc i) =
     (if ord < Suc i then split_down (B(off \<mapsto> (i, False), off + 2 ^ i \<mapsto> (i, True))) off ord i
      else B)"

lemma buddy_upper: "2 ^ Suc k dvd off \<Longrightarrow> buddy (off + 2 ^ k) k = off"
proof -
  assume a: "2 ^ Suc k dvd off"
  then obtain q where "off = 2 ^ Suc k * q" ..
  then have "(off + 2 ^ k) div 2 ^ k = 2 * q + 1" by (simp add: mult.assoc)
  then show ?thesis by (simp add: buddy_def)
qed

lemma coalesced_split:
  assumes "tiling ma mi B" "coalesced ma B" "B off = Some (Suc k, False)"
  shows "coalesced ma (B(off \<mapsto> (k, False), off + 2 ^ k \<mapsto> (k, True)))"
proof -
  let ?B = "B(off \<mapsto> (k, False), off + 2 ^ k \<mapsto> (k, True))"
  have up: "buddy (off + 2 ^ k) k = off"
    using tiling_wf [OF assms(1,3)] by (intro buddy_upper) (simp add: wf_block_def)
  have "?B (buddy p j) \<noteq> Some (j, True)" if "j < ma" "?B p = Some (j, True)" for p j
  proof (cases "p = off + 2 ^ k")
    case True
    with that up show ?thesis by auto
  next
    case False
    with that have p: "B p = Some (j, True)" "p \<noteq> off" by (auto split: if_splits)
    then have "2 ^ j dvd p" using tiling_wf [OF assms(1)] by (auto simp: wf_block_def)
    then have "buddy p j = off + 2 ^ k \<Longrightarrow> j \<noteq> k" using up buddy_buddy p(2) by metis
    with assms(2) that(1) p(1) show ?thesis by (auto simp: coalesced_def)
  qed
  then show ?thesis by (simp add: coalesced_def)
qed

lemma split_down_props:
  assumes "tiling ma mi B" "B off = Some (i, False)" "mi \<le> ord" "ord \<le> i"
  shows "tiling ma mi (split_down B off ord i)"
    and "split_down B off ord i off = Some (ord, False)"
    and "used ma mi (split_down B off ord i) + 2 ^ (i - mi) = used ma mi B + 2 ^ (ord - mi)"
    and "coalesced ma B \<Longrightarrow> coalesced ma (split_down B off ord i)"
    and "live (split_down B off ord i) = insert (off, ord) (live B - {(off, i)})"
proof -
  have "tiling ma mi (split_down B off ord i) \<and> split_down B off ord i off = Some (ord, False)
      \<and> used ma mi (split_down B off ord i) + 2 ^ (i - mi) = used ma mi B + 2 ^ (ord - mi)
      \<and> (coalesced ma B \<longrightarrow> coalesced ma (split_down B off ord i))
      \<and> live (split_down B off ord i) = insert (off, ord) (live B - {(off, i)})"
    using assms
  proof (induction i arbitrary: B)
    case 0
    then show ?case by (auto simp: live_def)
  next
    case (Suc i)
    show ?case
    proof (cases "ord < Suc i")
      case True
      then have le: "mi \<le> i" "ord \<le> i" using Suc.prems(3) by auto
      define B' where "B' = B(off \<mapsto> (i, False), off + 2 ^ i \<mapsto> (i, True))"
      have t: "tiling ma mi B'" and none: "B (off + 2 ^ i) = None"
        unfolding B'_def using tiling_split [OF Suc.prems(1,2) le(1)] by blast+
      have u: "used ma mi B' + 2 ^ (i - mi) = used ma mi B"
        unfolding B'_def by (rule used_split [OF Suc.prems(1,2) le(1)])
      have c: "coalesced ma B \<Longrightarrow> coalesced ma B'"
        unfolding B'_def by (rule coalesced_split [OF Suc.prems(1) _ Suc.prems(2)])
      have lv: "live B' - {(off, i)} = live B - {(off, Suc i)}"
        using none Suc.prems(2) by (auto simp: B'_def live_def split: if_splits)
      have "B' off = Some (i, False)" by (simp add: B'_def)
      note ih = Suc.IH [OF t this Suc.prems(3) le(2)]
      have "split_down B off ord (Suc i) = split_down B' off ord i"
        using True by (simp add: B'_def)
      with ih u c lv le show ?thesis by (simp add: Suc_diff_le)
    next
      case False
      with Suc.prems have "ord = Suc i" by simp
      with Suc.prems show ?thesis by (auto simp: live_def)
    qed
  qed
  then show "tiling ma mi (split_down B off ord i)" "split_down B off ord i off = Some (ord, False)"
    "used ma mi (split_down B off ord i) + 2 ^ (i - mi) = used ma mi B + 2 ^ (ord - mi)"
    "coalesced ma B \<Longrightarrow> coalesced ma (split_down B off ord i)"
    "live (split_down B off ord i) = insert (off, ord) (live B - {(off, i)})"
    by blast+
qed

end
