(* ===== verification/Mm_Inv.thy ===== *)
theory Mm_Inv
  imports Mm Buddy_Blocks
begin

text \<open>
  Correctness of the buddy system of \<^verbatim>\<open>lib/mm.c\<close>: the relation between a pool and the tiling
  of its memory, and what every operation does to the tiling.
\<close>

section \<open>Addresses and offsets\<close>

abbreviation omax :: "mm_pool \<Rightarrow> nat" where "omax mp \<equiv> unat (max_order mp)"
abbreviation omin :: "mm_pool \<Rightarrow> nat" where "omin mp \<equiv> unat (min_order mp)"

definition adr :: "mm_pool \<Rightarrow> nat \<Rightarrow> u32" where
  "adr mp off = base mp + of_nat off"

definition mm_geom :: "mm_pool \<Rightarrow> bool" where
  "mm_geom mp \<longleftrightarrow> 3 \<le> omin mp \<and> omin mp \<le> omax mp \<and> omax mp \<le> 31
     \<and> base mp \<noteq> 0 \<and> unat (base mp) + 2 ^ omax mp < 2 ^ 32
     \<and> unat (n_blks mp) = 2 ^ (omax mp - omin mp)
     \<and> 2 ^ (omax mp - omin mp) \<le> length (alloc_order mp)
     \<and> 2 ^ (omax mp - omin mp) \<le> 32 * length (blk_free mp)"

lemma pool_lt: "mm_geom mp \<Longrightarrow> off < 2 ^ omax mp \<Longrightarrow> off < 2 ^ 32" for off :: nat
  by (simp add: mm_geom_def)

lemma adr_minus_base: "adr mp off - base mp = of_nat off"
  by (simp add: adr_def)

lemma unat_adr_minus_base: "mm_geom mp \<Longrightarrow> off < 2 ^ omax mp \<Longrightarrow> unat (adr mp off - base mp) = off"
  using pool_lt [of mp off] by (simp add: adr_minus_base unat_of_nat)

lemma unat_adr: "mm_geom mp \<Longrightarrow> off \<le> 2 ^ omax mp \<Longrightarrow> unat (adr mp off) = unat (base mp) + off"
  by (auto simp: adr_def mm_geom_def unat_word_ariths unat_of_nat)

lemma adr_inj:
  "mm_geom mp \<Longrightarrow> p < 2 ^ omax mp \<Longrightarrow> q < 2 ^ omax mp \<Longrightarrow> adr mp p = adr mp q \<longleftrightarrow> p = q"
  by (metis unat_adr_minus_base)

lemma adr_0: "adr mp 0 = base mp"
  by (simp add: adr_def)

lemma adr_eq_base: "mm_geom mp \<Longrightarrow> p < 2 ^ omax mp \<Longrightarrow> adr mp p = base mp \<longleftrightarrow> p = 0"
  by (metis adr_0 adr_inj zero_less_numeral zero_less_power)

lemma adr_less_iff:
  "mm_geom mp \<Longrightarrow> p < 2 ^ omax mp \<Longrightarrow> q < 2 ^ omax mp \<Longrightarrow> adr mp p < adr mp q \<longleftrightarrow> p < q"
  by (simp add: word_less_nat_alt unat_adr)

lemma adr_nonzero: "mm_geom mp \<Longrightarrow> p < 2 ^ omax mp \<Longrightarrow> adr mp p \<noteq> 0"
  using unat_adr [of mp p] by (auto simp: mm_geom_def unat_eq_zero)

lemma adr_surj:
  assumes "mm_geom mp" "mm_blk_addr_valid mp a"
  obtains off where "off < 2 ^ omax mp" "a = adr mp off"
proof -
  let ?off = "unat (a - base mp)"
  from assms have "unat (base mp) \<le> unat a" "unat a < unat (base mp) + 2 ^ omax mp"
    by (auto simp: mm_blk_addr_valid_def mm_geom_def word_le_nat_alt word_less_nat_alt
        unat_word_ariths unat_shl_uint)
  moreover from this(1) have "?off = unat a - unat (base mp)" by (simp add: unat_sub word_le_nat_alt)
  ultimately have "?off < 2 ^ omax mp" by simp
  moreover have "a = adr mp ?off" by (simp add: adr_def)
  ultimately show ?thesis using that by blast
qed

lemma adr_valid:
  assumes "mm_geom mp" "off < 2 ^ omax mp"
  shows "mm_blk_addr_valid mp (adr mp off)"
proof -
  have "unat (base mp + shl 1 (uint (max_order mp))) = unat (base mp) + 2 ^ omax mp"
    using assms(1) by (simp add: mm_geom_def unat_word_ariths unat_shl_uint)
  with assms show ?thesis
    by (simp add: mm_blk_addr_valid_def word_le_nat_alt word_less_nat_alt unat_adr)
qed

lemma blk_idx_adr:
  assumes "mm_geom mp" "off < 2 ^ omax mp"
  shows "unat (mm_blk_idx mp (adr mp off)) = off div 2 ^ omin mp"
  using assms by (simp add: mm_blk_idx_def unat_shr_uint unat_adr_minus_base mm_geom_def)

lemma idx_less:
  assumes "mm_geom mp" "off < 2 ^ omax mp"
  shows "off div 2 ^ omin mp < (2::nat) ^ (omax mp - omin mp)"
proof -
  have "(2::nat) ^ omax mp = 2 ^ omin mp * 2 ^ (omax mp - omin mp)"
    using assms(1) by (simp add: mm_geom_def flip: power_add)
  with assms(2) show ?thesis by (simp add: less_mult_imp_div_less mult.commute)
qed


section \<open>The relation between a pool and a tiling\<close>

text \<open>
  \<open>mm_core mp B X\<close>: the order array and the bitmap of the pool describe the tiling
  \<open>B\<close>, the order of the blocks at the offsets \<open>X\<close> excepted (they are being changed).
  Entries of the order array at offsets that are no block are not constrained.
  \<open>mm_linked mp B L\<close>: the anchors hold the free blocks by order, all but the one at the base
  of the pool, which the code never links.
\<close>

definition mm_core :: "mm_pool \<Rightarrow> blocks \<Rightarrow> nat set \<Rightarrow> bool" where
  "mm_core mp B X \<longleftrightarrow> mm_geom mp \<and> tiling (omax mp) (omin mp) B
     \<and> (\<forall>off k f. B off = Some (k, f) \<longrightarrow> off \<notin> X \<longrightarrow>
           unat (alloc_order mp ! (off div 2 ^ omin mp)) = k)
     \<and> (\<forall>off < 2 ^ omax mp. 2 ^ omin mp dvd off \<longrightarrow>
           bits_of (blk_free mp) (off div 2 ^ omin mp) = (\<exists>k. B off = Some (k, True)))"

definition mm_linked :: "mm_pool \<Rightarrow> blocks \<Rightarrow> (nat \<Rightarrow> u32 list) \<Rightarrow> bool" where
  "mm_linked mp B L \<longleftrightarrow> dlists (links mp) {..omax mp} L
     \<and> (\<forall>i \<le> omax mp. set (L i) = adr mp ` {off. off \<noteq> 0 \<and> B off = Some (i, True)})
     \<and> (\<forall>k < omax mp. B 0 = Some (k, True) \<longrightarrow> lone (base mp) (links mp))"

definition mm_inv :: "mm_pool \<Rightarrow> blocks \<Rightarrow> bool" where
  "mm_inv mp B \<longleftrightarrow> mm_core mp B {} \<and> (\<exists>L. mm_linked mp B L) \<and> coalesced (omax mp) B
     \<and> unat (alloc_blks mp) = used (omax mp) (omin mp) B"

lemma mm_core_geom: "mm_core mp B X \<Longrightarrow> mm_geom mp"
  and mm_core_tiling: "mm_core mp B X \<Longrightarrow> tiling (omax mp) (omin mp) B"
  by (simp_all add: mm_core_def)

lemma mm_core_bound:
  assumes "mm_core mp B X" "B off = Some (k, f)"
  shows "wf_block (omax mp) (omin mp) off k" "off < 2 ^ omax mp" "2 ^ omin mp dvd off" "k \<le> 31"
    "omin mp \<le> k" "k \<le> omax mp" "2 ^ k dvd off"
proof -
  show wf: "wf_block (omax mp) (omin mp) off k"
    by (rule tiling_wf [OF mm_core_tiling [OF assms(1)] assms(2)])
  then show "off < 2 ^ omax mp" "2 ^ omin mp dvd off" "k \<le> 31" "omin mp \<le> k" "k \<le> omax mp" "2 ^ k dvd off"
    using assms(1) by (auto simp: mm_core_def mm_geom_def wf_block_def intro: wf_block_less [OF wf]
        dvd_trans [OF le_imp_power_dvd])
qed

lemma idx_inj:
  assumes "2 ^ m dvd p" "2 ^ m dvd q"
  shows "p div 2 ^ m = q div 2 ^ m \<longleftrightarrow> p = (q::nat)"
  using assms by (metis dvd_div_mult_self)

lemma unat_ucast_order: "unat k < 256 \<Longrightarrow> unat (ucast (k::u32) :: u8) = unat k"
  by (simp add: unsigned_ucast_eq take_bit_nat_eq_self)

lemma unat_ucast_up: "unat (ucast (x::u8) :: u32) = unat x"
  using unat_less_256 [of x] by (simp add: unsigned_ucast_eq take_bit_nat_eq_self)

subsection \<open>The primitive operations on a block of the pool\<close>

lemma mark_free_adr:
  assumes "mm_geom mp" "off < 2 ^ omax mp"
  shows "\<exists>f. mm_mark_free mp (adr mp off) = Some (mp\<lparr>blk_free := f\<rparr>) \<and> length f = length (blk_free mp)
            \<and> (\<forall>k. bits_of f k = (k = off div 2 ^ omin mp \<or> bits_of (blk_free mp) k))"
proof -
  have "off div 2 ^ omin mp < 32 * length (blk_free mp)"
    using idx_less [OF assms] assms(1) by (simp add: mm_geom_def)
  from set_bit_arr_eq [OF this] blk_idx_adr [OF assms] show ?thesis
    by (auto simp: mm_mark_free_def)
qed

lemma mark_alloc_adr:
  assumes "mm_geom mp" "off < 2 ^ omax mp"
  shows "\<exists>f. mm_mark_alloc mp (adr mp off) = Some (mp\<lparr>blk_free := f\<rparr>) \<and> length f = length (blk_free mp)
            \<and> (\<forall>k. bits_of f k = (k \<noteq> off div 2 ^ omin mp \<and> bits_of (blk_free mp) k))"
proof -
  have "off div 2 ^ omin mp < 32 * length (blk_free mp)"
    using idx_less [OF assms] assms(1) by (simp add: mm_geom_def)
  from clear_bit_arr_eq [OF this] blk_idx_adr [OF assms] show ?thesis
    by (auto simp: mm_mark_alloc_def)
qed

lemma blk_free_adr:
  assumes "mm_core mp B X" "off < 2 ^ omax mp" "2 ^ omin mp dvd off"
  shows "mm_blk_free mp (adr mp off) = Some (\<exists>k. B off = Some (k, True))"
proof -
  have g: "mm_geom mp" using assms(1) by (simp add: mm_core_def)
  have "off div 2 ^ omin mp < 32 * length (blk_free mp)"
    using idx_less [OF g assms(2)] g by (simp add: mm_geom_def)
  with blk_idx_adr [OF g assms(2)] assms show ?thesis
    by (simp add: mm_blk_free_def test_bit_arr_eq mm_core_def)
qed

lemma get_order_adr:
  assumes "mm_geom mp" "off < 2 ^ omax mp"
  shows "\<exists>ord. mm_blk_get_alloc_order mp (adr mp off) = Some ord
            \<and> unat ord = unat (alloc_order mp ! (off div 2 ^ omin mp))"
proof -
  have "off div 2 ^ omin mp < length (alloc_order mp)"
    using idx_less [OF assms] assms(1) by (simp add: mm_geom_def)
  with blk_idx_adr [OF assms] show ?thesis
    by (simp add: mm_blk_get_alloc_order_def arr_get_def unat_ucast_up)
qed

lemma get_order_block:
  assumes "mm_core mp B X" "B off = Some (k, f)" "off \<notin> X"
  shows "mm_blk_get_alloc_order mp (adr mp off) = Some (of_nat k)"
proof -
  note b = mm_core_bound [OF assms(1,2)]
  from get_order_adr [OF mm_core_geom [OF assms(1)] b(2)] obtain ord where
    "mm_blk_get_alloc_order mp (adr mp off) = Some ord" "unat ord = k"
    using assms by (auto simp: mm_core_def)
  then show ?thesis by auto
qed

lemma set_order_adr:
  assumes "mm_geom mp" "off < 2 ^ omax mp"
  shows "mm_blk_set_alloc_order mp (adr mp off) ord =
           Some (mp\<lparr>alloc_order := (alloc_order mp)[off div 2 ^ omin mp := ucast ord]\<rparr>)"
proof -
  have "off div 2 ^ omin mp < length (alloc_order mp)"
    using idx_less [OF assms] assms(1) by (simp add: mm_geom_def)
  with blk_idx_adr [OF assms] show ?thesis
    by (simp add: mm_blk_set_alloc_order_def arr_set_def)
qed

lemma neighbour_adr:
  assumes "mm_geom mp" "wf_block (omax mp) (omin mp) off k" "k < omax mp"
  shows "mm_find_neighbour mp (adr mp off) (of_nat k) = adr mp (buddy off k)"
proof -
  have k: "k < 32" using assms by (simp add: mm_geom_def)
  then have uk: "unat (of_nat k :: u32) = k" by (simp add: unat_of_nat)
  have off: "off < 2 ^ omax mp" "2 ^ k dvd off"
    using wf_block_less [OF assms(2)] assms(2) by (auto simp: wf_block_def)
  have "(adr mp off - base mp) XOR shl 1 (uint (of_nat k :: u32)) = of_nat (buddy off k)"
  proof -
    have "shl 1 (uint (of_nat k :: u32)) = of_nat (2 ^ k)"
      using k uk by (simp add: shl_uint)
    moreover have "(of_nat off XOR of_nat (2 ^ k) :: u32) = of_nat (off XOR 2 ^ k)"
      by (simp add: of_nat_xor_eq)
    ultimately show ?thesis
      by (simp add: adr_minus_base buddy_xor [OF off(2)] del: of_nat_power)
  qed
  then show ?thesis by (simp add: mm_find_neighbour_def adr_def)
qed


lemma adr_update [simp]:
  "adr (mp\<lparr>alloc_order := a\<rparr>) = adr mp" "adr (mp\<lparr>blk_free := f\<rparr>) = adr mp"
  "adr (mp\<lparr>links := l\<rparr>) = adr mp" "adr (mp\<lparr>alloc_blks := c\<rparr>) = adr mp"
  by (simp_all add: adr_def fun_eq_iff)

lemma mm_geom_update [simp]:
  "length a = length (alloc_order mp) \<Longrightarrow> mm_geom (mp\<lparr>alloc_order := a\<rparr>) = mm_geom mp"
  "length f = length (blk_free mp) \<Longrightarrow> mm_geom (mp\<lparr>blk_free := f\<rparr>) = mm_geom mp"
  "mm_geom (mp\<lparr>links := l\<rparr>) = mm_geom mp" "mm_geom (mp\<lparr>alloc_blks := c\<rparr>) = mm_geom mp"
  by (simp_all add: mm_geom_def)

lemma mm_core_update [simp]:
  "mm_core (mp\<lparr>links := l\<rparr>) B X = mm_core mp B X" "mm_core (mp\<lparr>alloc_blks := c\<rparr>) B X = mm_core mp B X"
  by (simp_all add: mm_core_def)

lemma mm_linked_update [simp]:
  "mm_linked (mp\<lparr>alloc_order := a\<rparr>) B L = mm_linked mp B L"
  "mm_linked (mp\<lparr>blk_free := f\<rparr>) B L = mm_linked mp B L"
  "mm_linked (mp\<lparr>alloc_blks := c\<rparr>) B L = mm_linked mp B L"
  by (simp_all add: mm_linked_def)

lemma unat_of_nat_order: "k < 32 \<Longrightarrow> unat (of_nat k :: u32) = k"
  by (simp add: unat_of_nat)

lemma ucast_of_nat_order: "k < 32 \<Longrightarrow> unat (ucast (of_nat k :: u32) :: u8) = k"
  by (simp add: unat_ucast_order unat_of_nat_order)

lemma linked_not_in:
  assumes "mm_core mp B X" "mm_linked mp B L" "i \<le> omax mp" "q < 2 ^ omax mp" "B q \<noteq> Some (i, True)"
  shows "adr mp q \<notin> set (L i)"
proof
  assume "adr mp q \<in> set (L i)"
  then obtain p where p: "adr mp q = adr mp p" "B p = Some (i, True)"
    using assms(2,3) by (auto simp: mm_linked_def)
  with mm_core_bound(2) [OF assms(1) p(2)] assms(4) have "p = q"
    using adr_inj [OF mm_core_geom [OF assms(1)]] by metis
  with p assms(5) show False by simp
qed

text \<open>One turn of the split loop: the upper half becomes a free block of its own.\<close>

lemma split_blk_step:
  assumes core: "mm_core mp B X" and off: "B off = Some (Suc k, False)" "off \<in> X" "omin mp \<le> k"
    and lk: "mm_linked mp B L"
  defines "B' \<equiv> B(off \<mapsto> (k, False), off + 2 ^ k \<mapsto> (k, True))"
  shows "\<exists>a f l. mm_split_blk mp (adr mp off) (of_nat k) = Some (mp\<lparr>alloc_order := a, blk_free := f, links := l\<rparr>)
           \<and> mm_core (mp\<lparr>alloc_order := a, blk_free := f, links := l\<rparr>) B' X
           \<and> mm_linked (mp\<lparr>alloc_order := a, blk_free := f, links := l\<rparr>) B' (L(k := adr mp (off + 2 ^ k) # L k))
           \<and> a ! (off div 2 ^ omin mp) = alloc_order mp ! (off div 2 ^ omin mp)"
proof -
  let ?q = "off + 2 ^ k"
  note g = mm_core_geom [OF core] and t = mm_core_tiling [OF core] and b = mm_core_bound [OF core off(1)]
  have none: "B ?q = None" and t': "tiling (omax mp) (omin mp) B'"
    unfolding B'_def using tiling_split [OF t off(1,3)] by blast+
  then have wq: "wf_block (omax mp) (omin mp) ?q k" by (auto simp: B'_def intro!: tiling_wf)
  have q: "?q < 2 ^ omax mp" "2 ^ omin mp dvd ?q" "k < omax mp" "k < 32"
    using wf_block_less [OF wq] wq b off(3) by (auto simp: wf_block_def intro: dvd_trans [OF le_imp_power_dvd])
  have addr: "adr mp off + shl 1 (uint (of_nat k :: u32)) = adr mp ?q"
    using q(4) by (simp add: shl_uint unat_of_nat_order adr_def)
  let ?a = "(alloc_order mp)[?q div 2 ^ omin mp := ucast (of_nat k :: u32)]"
  let ?mp1 = "mp\<lparr>alloc_order := ?a\<rparr>"
  have g1: "mm_geom ?mp1" using g by simp
  from mark_free_adr [OF g1] q(1) obtain f where
    f: "mm_mark_free ?mp1 (adr mp ?q) = Some (?mp1\<lparr>blk_free := f\<rparr>)" "length f = length (blk_free mp)"
    "\<And>i. bits_of f i = (i = ?q div 2 ^ omin mp \<or> bits_of (blk_free mp) i)" by auto
  have "dlists (links mp) {..omax mp} L" using lk by (simp add: mm_linked_def)
  from list_add_family [OF this, of k "adr mp ?q"] q linked_not_in [OF core lk _ q(1)] none
  obtain l where l: "list_add (Nd (adr mp ?q)) (Hd k) (links mp) = Some l"
    "dlists l {..omax mp} (L(k := adr mp ?q # L k))"
    "\<And>y. y \<noteq> adr mp ?q \<Longrightarrow> lone y (links mp) \<Longrightarrow> lone y l"
    by auto
  let ?mp = "mp\<lparr>alloc_order := ?a, blk_free := f, links := l\<rparr>"
  have ret: "mm_split_blk mp (adr mp off) (of_nat k) = Some ?mp"
    using f(1) l(1) q by (simp add: mm_split_blk_def Let_def addr set_order_adr [OF g q(1)] unat_of_nat_order)
  have idx: "p div 2 ^ omin mp = ?q div 2 ^ omin mp \<longleftrightarrow> p = ?q" if "2 ^ omin mp dvd p" for p
    using that q(2) by (rule idx_inj)
  have iq: "?q div 2 ^ omin mp < length (alloc_order mp)"
    using idx_less [OF g q(1)] g by (simp add: mm_geom_def)
  have "unat (?a ! (p div 2 ^ omin mp)) = j" if "B' p = Some (j, fl)" "p \<notin> X" for p j fl
  proof (cases "p = ?q")
    case True
    with that iq q(4) show ?thesis by (simp add: B'_def ucast_of_nat_order)
  next
    case False
    with that off(2) have bp: "B p = Some (j, fl)" by (auto simp: B'_def split: if_splits)
    from idx [OF mm_core_bound(3) [OF core bp]] False have "?q div 2 ^ omin mp \<noteq> p div 2 ^ omin mp" by auto
    with core bp that(2) show ?thesis by (simp add: mm_core_def)
  qed
  moreover have "bits_of f (p div 2 ^ omin mp) = (\<exists>j. B' p = Some (j, True))"
    if "p < 2 ^ omax mp" "2 ^ omin mp dvd p" for p
    using core that off(1) idx [OF that(2)] by (auto simp: f(3) B'_def mm_core_def)
  ultimately have c': "mm_core ?mp B' X"
    using g1 t' f(2) g by (simp add: mm_core_def)
  have "set ((L(k := adr mp ?q # L k)) i) = adr mp ` {p. p \<noteq> 0 \<and> B' p = Some (i, True)}" if "i \<le> omax mp" for i
  proof -
    have "{p. p \<noteq> 0 \<and> B' p = Some (i, True)} =
        (if i = k then insert ?q {p. p \<noteq> 0 \<and> B p = Some (i, True)} else {p. p \<noteq> 0 \<and> B p = Some (i, True)})"
      using off(1) none by (auto simp: B'_def)
    with lk that show ?thesis by (auto simp: mm_linked_def)
  qed
  moreover have "lone (base mp) l" if "j < omax mp" "B' 0 = Some (j, True)" for j
    using that off(1) lk l(3) [of "base mp"] adr_eq_base [OF g q(1)]
    by (auto simp: B'_def mm_linked_def split: if_splits)
  ultimately have "mm_linked ?mp B' (L(k := adr mp ?q # L k))"
    using l(2) by (simp add: mm_linked_def)
  moreover have "?a ! (off div 2 ^ omin mp) = alloc_order mp ! (off div 2 ^ omin mp)"
    using idx [OF b(3)] by simp
  ultimately show ?thesis using ret c' by blast
qed


lemma split_loop_run:
  assumes "mm_core mp B X" "B off = Some (i, False)" "off \<in> X" "omin mp \<le> ord" "ord \<le> i"
    and "mm_linked mp B L"
  shows "\<exists>a f l L'. mm_split_loop mp (adr mp off) ord i = Some (mp\<lparr>alloc_order := a, blk_free := f, links := l\<rparr>)
           \<and> mm_core (mp\<lparr>alloc_order := a, blk_free := f, links := l\<rparr>) (split_down B off ord i) X
           \<and> mm_linked (mp\<lparr>alloc_order := a, blk_free := f, links := l\<rparr>) (split_down B off ord i) L'
           \<and> a ! (off div 2 ^ omin mp) = alloc_order mp ! (off div 2 ^ omin mp)"
  using assms
proof (induction i arbitrary: mp B L)
  case 0
  then show ?case
    by (intro exI [of _ "alloc_order mp"] exI [of _ "blk_free mp"] exI [of _ "links mp"] exI [of _ L]) simp
next
  case (Suc i)
  show ?case
  proof (cases "ord < Suc i")
    case True
    then have le: "omin mp \<le> i" "ord \<le> i" using Suc.prems(4) by auto
    define B' where "B' = B(off \<mapsto> (i, False), off + 2 ^ i \<mapsto> (i, True))"
    from split_blk_step [OF Suc.prems(1,2,3) le(1) Suc.prems(6)] obtain a f l where
      st: "mm_split_blk mp (adr mp off) (of_nat i) = Some (mp\<lparr>alloc_order := a, blk_free := f, links := l\<rparr>)"
      "mm_core (mp\<lparr>alloc_order := a, blk_free := f, links := l\<rparr>) B' X"
      "mm_linked (mp\<lparr>alloc_order := a, blk_free := f, links := l\<rparr>) B' (L(i := adr mp (off + 2 ^ i) # L i))"
      "a ! (off div 2 ^ omin mp) = alloc_order mp ! (off div 2 ^ omin mp)"
      unfolding B'_def by blast
    let ?mp = "mp\<lparr>alloc_order := a, blk_free := f, links := l\<rparr>"
    have "B' off = Some (i, False)" by (simp add: B'_def)
    from Suc.IH [OF st(2) this Suc.prems(3) _ le(2) st(3)] Suc.prems(4) obtain a' f' l' L' where
      ih: "mm_split_loop ?mp (adr mp off) ord i = Some (mp\<lparr>alloc_order := a', blk_free := f', links := l'\<rparr>)"
      "mm_core (mp\<lparr>alloc_order := a', blk_free := f', links := l'\<rparr>) (split_down B' off ord i) X"
      "mm_linked (mp\<lparr>alloc_order := a', blk_free := f', links := l'\<rparr>) (split_down B' off ord i) L'"
      "a' ! (off div 2 ^ omin mp) = a ! (off div 2 ^ omin mp)"
      by auto
    have "split_down B off ord (Suc i) = split_down B' off ord i"
      using True by (simp add: B'_def)
    with ih st(1,4) True show ?thesis by auto
  next
    case False
    with Suc.prems show ?thesis
      by (intro exI [of _ "alloc_order mp"] exI [of _ "blk_free mp"] exI [of _ "links mp"] exI [of _ L]) simp
  qed
qed

lemma core_finish:
  assumes "mm_core mp B {off}" "B off = Some (k, f)" "unat (alloc_order mp ! (off div 2 ^ omin mp)) = k"
  shows "mm_core mp B {}"
proof -
  have "unat (alloc_order mp ! (p div 2 ^ omin mp)) = j" if "B p = Some (j, g)" for p j g
    using assms that by (cases "p = off") (simp_all add: mm_core_def)
  with assms(1) show ?thesis by (simp add: mm_core_def)
qed

lemma coalesced_use: "coalesced ma B \<Longrightarrow> coalesced ma (B(off \<mapsto> (k, False)))"
  by (auto simp: coalesced_def)

text \<open>Taking a block that is on no list: it is halved down to the requested order.\<close>

lemma alloc_take_inv:
  assumes core: "mm_core mp B {}" and off: "B off = Some (i, True)"
    and lk: "mm_linked mp (B(off \<mapsto> (i, False))) L"
    and co: "coalesced (omax mp) B" and cnt: "unat (alloc_blks mp) = used (omax mp) (omin mp) B"
    and ord: "omin mp \<le> ord" "ord \<le> i"
  defines "B' \<equiv> split_down (B(off \<mapsto> (i, False))) off ord i"
  shows "\<exists>mp' st'. mm_alloc_take mp (adr mp off) i (of_nat ord) st = Some (adr mp off, mp', st')
           \<and> mm_inv mp' B' \<and> base mp' = base mp \<and> max_order mp' = max_order mp
           \<and> min_order mp' = min_order mp \<and> n_blks mp' = n_blks mp
           \<and> st' = st\<lparr>used_blocks := used_blocks st + 2 ^ (ord - omin mp)\<rparr>"
proof -
  note g = mm_core_geom [OF core] and t = mm_core_tiling [OF core] and b = mm_core_bound [OF core off]
  define B1 where "B1 = B(off \<mapsto> (i, False))"
  have t1: "tiling (omax mp) (omin mp) B1" unfolding B1_def by (rule tiling_flag [OF t off])
  have b1: "B1 off = Some (i, False)" by (simp add: B1_def)
  have o32: "ord < 32" using b(4) ord by simp
  from mark_alloc_adr [OF g b(2)] obtain f where
    f: "mm_mark_alloc mp (adr mp off) = Some (mp\<lparr>blk_free := f\<rparr>)" "length f = length (blk_free mp)"
    "\<And>k. bits_of f k = (k \<noteq> off div 2 ^ omin mp \<and> bits_of (blk_free mp) k)" by blast
  let ?a = "(alloc_order mp)[off div 2 ^ omin mp := ucast (of_nat ord :: u32)]"
  let ?mp1 = "mp\<lparr>blk_free := f, alloc_order := ?a\<rparr>"
  have so: "mm_blk_set_alloc_order (mp\<lparr>blk_free := f\<rparr>) (adr mp off) (of_nat ord) = Some ?mp1"
    using set_order_adr [of "mp\<lparr>blk_free := f\<rparr>" off] g f(2) b(2) by simp
  have idx: "p div 2 ^ omin mp = off div 2 ^ omin mp \<longleftrightarrow> p = off" if "2 ^ omin mp dvd p" for p
    using that b(3) by (rule idx_inj)
  have "unat (?a ! (p div 2 ^ omin mp)) = j" if "B1 p = Some (j, fl)" "p \<noteq> off" for p j fl
  proof -
    from that have bp: "B p = Some (j, fl)" by (simp add: B1_def)
    from idx [OF mm_core_bound(3) [OF core bp]] that(2) have "off div 2 ^ omin mp \<noteq> p div 2 ^ omin mp" by auto
    with core bp show ?thesis by (simp add: mm_core_def)
  qed
  moreover have "bits_of f (p div 2 ^ omin mp) = (\<exists>j. B1 p = Some (j, True))"
    if "p < 2 ^ omax mp" "2 ^ omin mp dvd p" for p
    using core that idx [OF that(2)] by (auto simp: f(3) B1_def mm_core_def)
  ultimately have c1: "mm_core ?mp1 B1 {off}"
    using g t1 f(2) by (auto simp: mm_core_def)
  have a_off: "unat (?a ! (off div 2 ^ omin mp)) = ord"
    using idx_less [OF g b(2)] g o32 by (simp add: mm_geom_def ucast_of_nat_order)
  have "\<exists>a f l L'. mm_split_loop ?mp1 (adr ?mp1 off) ord i = Some (?mp1\<lparr>alloc_order := a, blk_free := f, links := l\<rparr>)
           \<and> mm_core (?mp1\<lparr>alloc_order := a, blk_free := f, links := l\<rparr>) (split_down B1 off ord i) {off}
           \<and> mm_linked (?mp1\<lparr>alloc_order := a, blk_free := f, links := l\<rparr>) (split_down B1 off ord i) L'
           \<and> a ! (off div 2 ^ omin ?mp1) = alloc_order ?mp1 ! (off div 2 ^ omin ?mp1)"
    by (rule split_loop_run [OF c1 b1]) (use ord lk [folded B1_def] in auto)
  then obtain a2 f2 l2 L2 where
    sp: "mm_split_loop ?mp1 (adr mp off) ord i = Some (mp\<lparr>alloc_order := a2, blk_free := f2, links := l2\<rparr>)"
    "mm_core (mp\<lparr>alloc_order := a2, blk_free := f2, links := l2\<rparr>) B' {off}"
    "mm_linked (mp\<lparr>alloc_order := a2, blk_free := f2, links := l2\<rparr>) B' L2"
    "a2 ! (off div 2 ^ omin mp) = ?a ! (off div 2 ^ omin mp)"
    unfolding B'_def B1_def by auto
  let ?mp2 = "mp\<lparr>alloc_order := a2, blk_free := f2, links := l2\<rparr>"
  let ?cnt = "shl 1 (uint (of_nat ord - min_order mp))"
  have B'_eq: "split_down B1 off ord i = B'" unfolding B'_def B1_def ..
  note props = split_down_props [OF t1 b1 ord, unfolded B'_eq]
  have c2: "mm_core ?mp2 B' {}"
    by (rule core_finish [OF sp(2) props(2)]) (use sp(4) a_off in simp)
  have "unat (of_nat ord - min_order mp) = ord - omin mp"
    using ord(1) o32 by (simp add: unat_sub word_le_nat_alt unat_of_nat_order)
  then have cnt': "?cnt = 2 ^ (ord - omin mp)"
    using o32 by (simp add: shl_uint)
  have u1: "used (omax mp) (omin mp) B1 = used (omax mp) (omin mp) B + 2 ^ (i - omin mp)"
    unfolding B1_def using used_flag [OF t off, of False] by simp
  with props(3) have u2: "used (omax mp) (omin mp) B' = used (omax mp) (omin mp) B + 2 ^ (ord - omin mp)"
    by simp
  have lt: "used (omax mp) (omin mp) B' < 2 ^ 32"
    using used_le [OF props(1)] g unat_less_2p32 [of "n_blks mp"]
    by (simp add: mm_geom_def)
  have "unat (alloc_blks mp + ?cnt) = used (omax mp) (omin mp) B'"
    using cnt u2 lt o32 by (simp add: cnt' unat_word_ariths unat_2p)
  then have "mm_inv (?mp2\<lparr>alloc_blks := alloc_blks mp + ?cnt\<rparr>) B'"
    using c2 sp(3) props(4) coalesced_use [OF co, of off i, folded B1_def] by (auto simp: mm_inv_def)
  then show ?thesis
    using f(1) so sp(1) o32 by (simp add: mm_alloc_take_def unat_of_nat_order cnt' Let_def)
qed

section \<open>Allocation\<close>

definition fits_order :: "mm_pool \<Rightarrow> u32 \<Rightarrow> nat \<Rightarrow> bool" where
  "fits_order mp sz ord \<longleftrightarrow> omin mp \<le> ord \<and> unat sz \<le> 2 ^ ord
     \<and> (\<forall>j. omin mp \<le> j \<longrightarrow> unat sz \<le> 2 ^ j \<longrightarrow> ord \<le> j)"

lemma fits_order_unique: "fits_order mp sz a \<Longrightarrow> fits_order mp sz b \<Longrightarrow> a = b"
  by (auto simp: fits_order_def intro: antisym)

lemma fixup_order:
  assumes "mm_geom mp" "sz \<noteq> 0" "unat sz \<le> 2 ^ 31"
  shows "\<exists>ord. fits_order mp sz ord \<and>
    mm_fixup_validate mp 0 (word_of_int (ilog2 (roundup_pow_of_two sz))) =
      (if ord \<le> omax mp then of_nat ord else - 22)"
proof -
  from roundup_order [OF assms(2,3)] obtain k where
    k: "k \<le> 31" "ilog2 (roundup_pow_of_two sz) = int k" "unat sz \<le> 2 ^ k" "\<And>j. unat sz \<le> 2 ^ j \<Longrightarrow> k \<le> j"
    by auto
  let ?ord = "max (omin mp) k"
  have "(2::nat) ^ k \<le> 2 ^ ?ord" by (rule power_increasing) auto
  with k(3) have "unat sz \<le> 2 ^ ?ord" by (rule le_trans)
  with k(4) have f: "fits_order mp sz ?ord" unfolding fits_order_def by (simp del: max.bounded_iff) (simp add: max_def)
  have w: "word_of_int (ilog2 (roundup_pow_of_two sz)) = (of_nat k :: u32)" by (simp add: k(2))
  have m: "of_nat (omin mp) = min_order mp" by simp
  have "mm_fixup_validate mp 0 (of_nat k) = (if ?ord \<le> omax mp then of_nat ?ord else - 22)"
  proof -
    have "of_nat ?ord = (if (of_nat k :: u32) < min_order mp then min_order mp else of_nat k)"
      using k(1) m by (simp add: word_less_nat_alt unat_of_nat_order max_def)
    with assms(1) k(1) show ?thesis
      by (auto simp: mm_fixup_validate_def mm_geom_def word_less_nat_alt unat_of_nat_order)
  qed
  with f w show ?thesis by auto
qed

lemma is_err_small: "k \<le> 31 \<Longrightarrow> \<not> is_err_value (of_nat k)"
  by (simp add: is_err_value_def word_le_nat_alt unat_of_nat_order)

lemma is_err_einval: "is_err_value (- 22)"
  by (simp add: is_err_value_def word_le_nat_alt)

lemma find_filled:
  assumes "dlists h {..ma} L"
  shows "List.find (\<lambda>i. \<not> list_empty (Hd i) h) [lo..<Suc ma] = List.find (\<lambda>i. L i \<noteq> []) [lo..<Suc ma]"
  by (rule find_cong) (auto simp: list_empty_family [OF assms])

lemma take_from_list:
  assumes core: "mm_core mp B {}" and lk: "mm_linked mp B L" and i: "i \<le> omax mp" "L i = a # as"
  shows "\<exists>off l. a = adr mp off \<and> B off = Some (i, True) \<and> off \<noteq> 0
      \<and> nxt (links mp) (Hd i) = Some (Nd a) \<and> list_del (Nd a) (links mp) = Some l
      \<and> mm_linked (mp\<lparr>links := l\<rparr>) (B(off \<mapsto> (i, False))) (L(i := as))"
proof -
  have d: "dlists (links mp) {..omax mp} L" using lk by (simp add: mm_linked_def)
  have "a \<in> set (L i)" using i by simp
  then obtain off where off: "a = adr mp off" "B off = Some (i, True)" "off \<noteq> 0"
    using lk i(1) by (auto simp: mm_linked_def)
  note g = mm_core_geom [OF core] and b = mm_core_bound [OF core off(2)]
  from list_del_family [OF d, of i a] i obtain l where
    l: "list_del (Nd a) (links mp) = Some l" "dlists l {..omax mp} (L(i := as))"
    "\<And>y. y \<noteq> a \<Longrightarrow> lone y (links mp) \<Longrightarrow> lone y l" by auto
  have first: "nxt (links mp) (Hd i) = Some (Nd a)"
    using list_first_family [OF d, of i] i by simp
  have "set ((L(i := as)) j) = adr mp ` {p. p \<noteq> 0 \<and> (B(off \<mapsto> (i, False))) p = Some (j, True)}"
    if j: "j \<le> omax mp" for j
  proof (cases "j = i")
    case True
    have "set (L i) = adr mp ` {p. p \<noteq> 0 \<and> B p = Some (i, True)}" using lk i(1) by (simp add: mm_linked_def)
    moreover have "set as = set (L i) - {a}" using dlists_distinct [OF d, of i] i by auto
    moreover have "{p. p \<noteq> 0 \<and> (B(off \<mapsto> (i, False))) p = Some (i, True)}
        = {p. p \<noteq> 0 \<and> B p = Some (i, True)} - {off}" by auto
    moreover have "inj_on (adr mp) {p. p \<noteq> 0 \<and> B p = Some (i, True)}"
      using adr_inj [OF g] mm_core_bound(2) [OF core] by (auto simp: inj_on_def)
    then have "adr mp ` ({p. p \<noteq> 0 \<and> B p = Some (i, True)} - {off})
        = adr mp ` {p. p \<noteq> 0 \<and> B p = Some (i, True)} - {adr mp off}"
      by (subst inj_on_image_set_diff [of _ "{p. p \<noteq> 0 \<and> B p = Some (i, True)}"]) (use off in auto)
    ultimately show ?thesis using True off(1) by simp
  next
    case False
    then have "{p. p \<noteq> 0 \<and> (B(off \<mapsto> (i, False))) p = Some (j, True)} = {p. p \<noteq> 0 \<and> B p = Some (j, True)}"
      using off(2) by auto
    with False lk j show ?thesis by (simp add: mm_linked_def)
  qed
  moreover have "lone (base mp) l" if "k < omax mp" "(B(off \<mapsto> (i, False))) 0 = Some (k, True)" for k
    using that off lk l(3) [of "base mp"] adr_eq_base [OF g b(2)] by (auto simp: mm_linked_def)
  ultimately have "mm_linked (mp\<lparr>links := l\<rparr>) (B(off \<mapsto> (i, False))) (L(i := as))"
    using l(2) by (simp add: mm_linked_def)
  with off first l(1) show ?thesis by blast
qed

definition same_pool :: "mm_pool \<Rightarrow> mm_pool \<Rightarrow> bool" where
  "same_pool mp mp' \<longleftrightarrow> base mp' = base mp \<and> max_order mp' = max_order mp
     \<and> min_order mp' = min_order mp \<and> n_blks mp' = n_blks mp"

lemma live_split_down:
  assumes "tiling (omax mp) (omin mp) B" "B off = Some (i, True)" "omin mp \<le> ord" "ord \<le> i"
  shows "live (split_down (B(off \<mapsto> (i, False))) off ord i) = insert (off, ord) (live B)"
proof -
  have "live (B(off \<mapsto> (i, False))) - {(off, i)} = live B"
    using assms(2) by (auto simp: live_def split: if_splits)
  with split_down_props(5) [OF tiling_flag [OF assms(1,2)] _ assms(3,4), of False] show ?thesis
    by simp
qed

lemma find_upt_SomeD:
  assumes "List.find P [a..<b] = Some i"
  shows "P i" "a \<le> i" "i < b" "\<And>j. a \<le> j \<Longrightarrow> j < i \<Longrightarrow> \<not> P j"
proof -
  from assms obtain n where n: "n < b - a" "P ([a..<b] ! n)" "i = [a..<b] ! n"
    "\<And>m. m < n \<Longrightarrow> \<not> P ([a..<b] ! m)"
    unfolding find_Some_iff by auto
  then show "P i" "a \<le> i" "i < b" by auto
  fix j assume "a \<le> j" "j < i"
  with n(1,3) n(4) [of "j - a"] show "\<not> P j" by simp
qed

text \<open>What a successful request of order \<open>ord\<close> does: the result is the block at \<open>off\<close>.\<close>

definition alloc_done :: "mm_pool \<Rightarrow> blocks \<Rightarrow> nat \<Rightarrow> mm_stat \<Rightarrow> nat \<Rightarrow> mm_pool \<Rightarrow> mm_stat \<Rightarrow> bool" where
  "alloc_done mp B ord st off mp' st' \<longleftrightarrow> (\<exists>B'. mm_inv mp' B' \<and> live B' = insert (off, ord) (live B))
     \<and> (\<exists>i \<ge> ord. B off = Some (i, True)) \<and> same_pool mp mp'
     \<and> st' = st\<lparr>used_blocks := used_blocks st + 2 ^ (ord - omin mp)\<rparr>"

lemma alloc_linked:
  assumes inv: "mm_inv mp B" and L: "mm_linked mp B L" and ord: "omin mp \<le> ord" "ord \<le> i" "i \<le> omax mp"
    and i: "L i \<noteq> []"
  shows "\<exists>off l mp' st'. nxt (links mp) (Hd i) = Some (Nd (adr mp off)) \<and> list_del (Nd (adr mp off)) (links mp) = Some l
      \<and> mm_alloc_take (mp\<lparr>links := l\<rparr>) (adr mp off) i (of_nat ord) st = Some (adr mp off, mp', st')
      \<and> alloc_done mp B ord st off mp' st'"
proof -
  have core: "mm_core mp B {}" and co: "coalesced (omax mp) B"
    and cnt: "unat (alloc_blks mp) = used (omax mp) (omin mp) B" using inv by (auto simp: mm_inv_def)
  obtain a as where "L i = a # as" using i by (cases "L i") auto
  from take_from_list [OF core L ord(3) this] obtain off l where
    off: "a = adr mp off" "B off = Some (i, True)" "nxt (links mp) (Hd i) = Some (Nd (adr mp off))"
    "list_del (Nd (adr mp off)) (links mp) = Some l"
    "mm_linked (mp\<lparr>links := l\<rparr>) (B(off \<mapsto> (i, False))) (L(i := as))" by auto
  let ?mp = "mp\<lparr>links := l\<rparr>" and ?B' = "split_down (B(off \<mapsto> (i, False))) off ord i"
  have "\<exists>mp' st'. mm_alloc_take ?mp (adr ?mp off) i (of_nat ord) st = Some (adr ?mp off, mp', st')
       \<and> mm_inv mp' ?B' \<and> base mp' = base ?mp \<and> max_order mp' = max_order ?mp
       \<and> min_order mp' = min_order ?mp \<and> n_blks mp' = n_blks ?mp
       \<and> st' = st\<lparr>used_blocks := used_blocks st + 2 ^ (ord - omin ?mp)\<rparr>"
    by (rule alloc_take_inv [OF _ off(2,5)]) (use core co cnt ord in auto)
  then obtain mp' st' where
    r: "mm_alloc_take ?mp (adr mp off) i (of_nat ord) st = Some (adr mp off, mp', st')" "mm_inv mp' ?B'"
    "same_pool mp mp'" "st' = st\<lparr>used_blocks := used_blocks st + 2 ^ (ord - omin mp)\<rparr>"
    by (auto simp: same_pool_def)
  with live_split_down [OF mm_core_tiling [OF core] off(2) ord(1,2)] off(2-4) ord show ?thesis
    unfolding alloc_done_def by blast
qed

lemma alloc_whole_pool:
  assumes inv: "mm_inv mp B" and ord: "omin mp \<le> ord" "ord \<le> omax mp" and "alloc_blks mp = 0"
  shows "\<exists>mp' st'. mm_alloc_take mp (base mp) (omax mp) (of_nat ord) st = Some (base mp, mp', st')
      \<and> alloc_done mp B ord st 0 mp' st'"
proof -
  have core: "mm_core mp B {}" and co: "coalesced (omax mp) B"
    and cnt: "unat (alloc_blks mp) = used (omax mp) (omin mp) B" using inv by (auto simp: mm_inv_def)
  note t = mm_core_tiling [OF core]
  from cnt assms(4) have "used (omax mp) (omin mp) B = 0" by simp
  with t co have "B = [0 \<mapsto> (omax mp, True)]" by (rule coalesced_all_free)
  then have off: "B 0 = Some (omax mp, True)" by simp
  from inv obtain L where L: "mm_linked mp B L" by (auto simp: mm_inv_def)
  then have "mm_linked mp (B(0 \<mapsto> (omax mp, False))) L" using off
    by (auto simp: mm_linked_def image_iff Bex_def split: if_splits)
  from alloc_take_inv [OF core off this co cnt ord, of st, unfolded adr_0] obtain mp' st' where
    "mm_alloc_take mp (base mp) (omax mp) (of_nat ord) st = Some (base mp, mp', st')"
    "mm_inv mp' (split_down (B(0 \<mapsto> (omax mp, False))) 0 ord (omax mp))" "same_pool mp mp'"
    "st' = st\<lparr>used_blocks := used_blocks st + 2 ^ (ord - omin mp)\<rparr>"
    unfolding same_pool_def by blast
  with live_split_down [OF t off ord] off ord show ?thesis unfolding alloc_done_def by blast
qed


text \<open>\<^verbatim>\<open>mm_alloc\<close> on every branch.\<close>

lemma mm_alloc_cases:
  assumes inv: "mm_inv mp B" and sz: "sz \<noteq> 0" "unat sz \<le> 2 ^ 31"
  obtains (too_big) ord where "fits_order mp sz ord" "omax mp < ord" "mm_alloc mp sz st = Some (0, mp, st)"
  | (fail) ord where "fits_order mp sz ord" "ord \<le> omax mp" "live B \<noteq> {}"
      "\<And>off i. off \<noteq> 0 \<Longrightarrow> B off = Some (i, True) \<Longrightarrow> i < ord"
      "mm_alloc mp sz st = Some (0, mp, st\<lparr>alloc_fail := 1\<rparr>)"
  | (success) ord off mp' st' where "fits_order mp sz ord" "ord \<le> omax mp"
      "mm_alloc mp sz st = Some (adr mp off, mp', st')" "alloc_done mp B ord st off mp' st'"
proof -
  have core: "mm_core mp B {}" and cnt: "unat (alloc_blks mp) = used (omax mp) (omin mp) B"
    using inv by (auto simp: mm_inv_def)
  note g = mm_core_geom [OF core]
  from fixup_order [OF g sz] obtain ord where f: "fits_order mp sz ord" and
    v: "mm_fixup_validate mp 0 (word_of_int (ilog2 (roundup_pow_of_two sz))) = (if ord \<le> omax mp then of_nat ord else - 22)"
    by auto
  have fm: "omin mp \<le> ord" using f by (simp add: fits_order_def)
  show thesis
  proof (cases "ord \<le> omax mp")
    case False
    with f v sz(1) show ?thesis by (intro too_big) (auto simp: mm_alloc_def is_err_einval)
  next
    case True
    then have o31: "ord \<le> 31" using g by (simp add: mm_geom_def)
    then have uo: "unat (of_nat ord :: u32) = ord" by (simp add: unat_of_nat_order)
    note simps = mm_alloc_def v sz(1) is_err_small [OF o31] True uo
    show ?thesis
    proof (cases "alloc_blks mp = 0")
      case z: True
      from alloc_whole_pool [OF inv fm True z] show ?thesis
        using success [of ord 0] f True z by (auto simp: simps adr_0)
    next
      case nz: False
      from inv obtain L where L: "mm_linked mp B L" by (auto simp: mm_inv_def)
      then have d: "dlists (links mp) {..omax mp} L" by (simp add: mm_linked_def)
      show ?thesis
      proof (cases "List.find (\<lambda>i. L i \<noteq> []) [ord..<Suc (omax mp)]")
        case None
        have "i < ord" if "off \<noteq> 0" "B off = Some (i, True)" for off i
        proof (rule ccontr)
          assume "\<not> i < ord"
          moreover have "i \<le> omax mp" by (rule mm_core_bound(6) [OF core that(2)])
          ultimately have "L i = []" using None by (auto simp: find_None_iff simp del: upt_Suc)
          moreover have "adr mp off \<in> set (L i)"
            using L that \<open>i \<le> omax mp\<close> by (auto simp: mm_linked_def)
          ultimately show False by simp
        qed
        moreover have "live B \<noteq> {}"
          using nz cnt used_0_iff [OF mm_core_tiling [OF core]] by (auto simp: live_def unat_eq_zero)
        ultimately show ?thesis using f True nz None
          by (intro fail) (auto simp: simps find_filled [OF d] simp del: upt_Suc)
      next
        case (Some i)
        from find_upt_SomeD [OF Some] have i: "L i \<noteq> []" "ord \<le> i" "i \<le> omax mp" by auto
        from alloc_linked [OF inv L fm i(2,3,1)] show ?thesis
          using success [of ord] f True nz Some by (fastforce simp: simps find_filled [OF d] simp del: upt_Suc)
      qed
    qed
  qed
qed

end
