(* ===== verification/Mm_Free.thy ===== *)
theory Mm_Free
  imports Mm_Inv
begin

text \<open>
  Release of blocks in \<^verbatim>\<open>lib/mm.c\<close>: merging of a block with its buddies, \<^verbatim>\<open>mm_free\<close>, and
  the initialisation of a pool, which frees the whole pool.
\<close>

section \<open>One merge\<close>

text \<open>A free block leaves the lists (or, at the base of the pool, the link it forms alone).\<close>

lemma linked_remove:
  assumes core: "mm_core mp B X" and lk: "mm_linked mp B L" and n: "B n = Some (k, True)" "k < omax mp"
    and B': "\<And>p i. B' p = Some (i, True) \<longleftrightarrow> p \<noteq> n \<and> B p = Some (i, True)"
  shows "linked (adr mp n) (links mp)"
    and "\<exists>l. list_del (Nd (adr mp n)) (links mp) = Some l
           \<and> mm_linked (mp\<lparr>links := l\<rparr>) B' (L(k := remove1 (adr mp n) (L k)))"
proof -
  note g = mm_core_geom [OF core]
  have d: "dlists (links mp) {..omax mp} L"
    and sets: "\<And>i. i \<le> omax mp \<Longrightarrow> set (L i) = adr mp ` {off. off \<noteq> 0 \<and> B off = Some (i, True)}"
    and b0: "\<And>k. k < omax mp \<Longrightarrow> B 0 = Some (k, True) \<Longrightarrow> lone (base mp) (links mp)"
    using lk by (auto simp: mm_linked_def)
  let ?L = "L(k := remove1 (adr mp n) (L k))"
  have "linked (adr mp n) (links mp) \<and> (\<exists>l. list_del (Nd (adr mp n)) (links mp) = Some l \<and> dlists l {..omax mp} ?L
      \<and> (\<forall>y. y \<noteq> adr mp n \<longrightarrow> lone y (links mp) \<longrightarrow> lone y l))"
  proof (cases "n = 0")
    case True
    then have "lone (adr mp n) (links mp)" using b0 n by (simp add: adr_0)
    moreover from this have "adr mp n \<notin> set (L k)" using dlists_in_not_lone [OF d, of k] n(2) by auto
    then have "?L = L" by (simp add: remove1_idem)
    ultimately show ?thesis using list_del_lone [OF d, of "adr mp n"] lone_linked by metis
  next
    case False
    then have "adr mp n \<in> set (L k)" using sets n by auto
    with list_del_family [OF d, of k "adr mp n"] n(2) dlists_in_not_lone [OF d, of k] show ?thesis by auto
  qed
  then obtain l where lnk: "linked (adr mp n) (links mp)" and l: "list_del (Nd (adr mp n)) (links mp) = Some l"
    "dlists l {..omax mp} ?L" "\<And>y. y \<noteq> adr mp n \<Longrightarrow> lone y (links mp) \<Longrightarrow> lone y l" by auto
  show "linked (adr mp n) (links mp)" by (rule lnk)
  have inj: "adr mp p \<noteq> adr mp n" if "p \<noteq> n" "B p = Some v" for p v
    using adr_inj [OF g] mm_core_bound(2) [OF core] that n by (cases v) auto
  have "set (?L i) = adr mp ` {off. off \<noteq> 0 \<and> B' off = Some (i, True)}" if i: "i \<le> omax mp" for i
  proof (cases "i = k")
    case True
    with sets [OF i] dlists_distinct [OF d] i inj show ?thesis by (auto simp: B')
  next
    case False
    with sets [OF i] n show ?thesis by (auto simp: B')
  qed
  moreover have "lone (base mp) l" if "j < omax mp" "B' 0 = Some (j, True)" for j
  proof -
    have "adr mp 0 \<noteq> adr mp n" using that by (intro inj) (auto simp: B')
    with that l(3) b0 show ?thesis by (simp add: adr_0 B')
  qed
  ultimately have "mm_linked (mp\<lparr>links := l\<rparr>) B' ?L" using l(2) by (simp add: mm_linked_def)
  with l(1) show "\<exists>l. list_del (Nd (adr mp n)) (links mp) = Some l
           \<and> mm_linked (mp\<lparr>links := l\<rparr>) B' ?L" by blast
qed

lemma linked_init:
  assumes core: "mm_core mp B X" and lk: "mm_linked mp B L" and off: "B off = Some (k, False)"
  shows "mm_linked (mp\<lparr>links := init_list_head (Nd (adr mp off)) (links mp)\<rparr>) B L"
    and "lone (adr mp off) (init_list_head (Nd (adr mp off)) (links mp))"
proof -
  have d: "dlists (links mp) {..omax mp} L" using lk by (simp add: mm_linked_def)
  have "\<And>j. j \<in> {..omax mp} \<Longrightarrow> adr mp off \<notin> set (L j)"
    using linked_not_in [OF core lk _ mm_core_bound(2) [OF core off]] off by auto
  from init_node_family [OF d this] lk
  show "mm_linked (mp\<lparr>links := init_list_head (Nd (adr mp off)) (links mp)\<rparr>) B L"
    "lone (adr mp off) (init_list_head (Nd (adr mp off)) (links mp))"
    by (auto simp: mm_linked_def)
qed

text \<open>The order array and the bitmap after two blocks became the block at \<open>lo\<close>.\<close>

lemma core_merged:
  assumes core: "mm_core mp B {}" and t: "tiling (omax mp) (omin mp) (B(hi := None, lo \<mapsto> (Suc k, False)))"
    and lo: "B lo = Some (k, f)" and hi: "B hi = Some (k, f')" "lo \<noteq> hi" and nn: "nn = lo \<and> \<not> f' \<or> nn = hi"
    and k: "k < omax mp" and fl: "length fr = length (blk_free mp)"
    "\<And>i. bits_of fr i = (i \<noteq> lo div 2 ^ omin mp \<and> i \<noteq> nn div 2 ^ omin mp \<and> bits_of (blk_free mp) i)"
  shows "mm_core (mp\<lparr>alloc_order := (alloc_order mp)[nn div 2 ^ omin mp := 0, lo div 2 ^ omin mp := ucast (of_nat k + 1 :: u32)],
              blk_free := fr\<rparr>) (B(hi := None, lo \<mapsto> (Suc k, False))) {}"
    (is "mm_core (mp\<lparr>alloc_order := ?a, blk_free := fr\<rparr>) ?B {}")
proof -
  note g = mm_core_geom [OF core] and bl = mm_core_bound [OF core lo] and bh = mm_core_bound [OF core hi(1)]
  have k32: "Suc k < 32" using k g by (simp add: mm_geom_def)
  have idx: "p div 2 ^ omin mp = q div 2 ^ omin mp \<longleftrightarrow> p = q" if "2 ^ omin mp dvd p" "2 ^ omin mp dvd q" for p q :: nat
    using that by (rule idx_inj)
  have dn: "2 ^ omin mp dvd nn" using nn bl bh by auto
  have il: "lo div 2 ^ omin mp < length (alloc_order mp)"
    using idx_less [OF g bl(2)] g by (simp add: mm_geom_def)
  have "(of_nat k + 1 :: u32) = of_nat (Suc k)" by simp
  then have sk: "unat (ucast (of_nat k + 1 :: u32) :: u8) = Suc k"
    using ucast_of_nat_order [OF k32] by (simp del: of_nat_Suc)
  have "unat (?a ! (p div 2 ^ omin mp)) = j" if "?B p = Some (j, fp)" for p j fp
  proof (cases "p = lo")
    case True
    with that sk il show ?thesis by simp
  next
    case False
    with that have p: "B p = Some (j, fp)" "p \<noteq> hi" by (auto split: if_splits)
    note dp = mm_core_bound(3) [OF core p(1)]
    have "p div 2 ^ omin mp \<noteq> lo div 2 ^ omin mp" "p div 2 ^ omin mp \<noteq> nn div 2 ^ omin mp"
      using idx [OF dp bl(3)] idx [OF dp dn] False p(2) nn by auto
    with core p(1) show ?thesis by (simp add: mm_core_def)
  qed
  moreover have "bits_of fr (p div 2 ^ omin mp) = (\<exists>j. ?B p = Some (j, True))"
    if "p < 2 ^ omax mp" "2 ^ omin mp dvd p" for p
    using core that idx [OF that(2) bl(3)] idx [OF that(2) dn] hi nn by (auto simp: fl(2) mm_core_def)
  ultimately show ?thesis using g t fl(1) by (simp add: mm_core_def)
qed


lemma mark_alloc_any:
  assumes "mm_geom mp" "off < 2 ^ omax mp" "base mp' = base mp" "max_order mp' = max_order mp"
    "min_order mp' = min_order mp" "n_blks mp' = n_blks mp"
    "length (alloc_order mp') = length (alloc_order mp)" "length (blk_free mp') = length (blk_free mp)"
  shows "\<exists>f. mm_mark_alloc mp' (adr mp off) = Some (mp'\<lparr>blk_free := f\<rparr>) \<and> length f = length (blk_free mp)
            \<and> (\<forall>k. bits_of f k = (k \<noteq> off div 2 ^ omin mp \<and> bits_of (blk_free mp') k))"
proof -
  have "mm_geom mp'" "adr mp' = adr mp" using assms by (simp_all add: mm_geom_def adr_def fun_eq_iff)
  with mark_alloc_adr [of mp' off] assms show ?thesis by simp
qed

text \<open>The stores of \<^verbatim>\<open>mm_merge_blk\<close> after the buddy left its list.\<close>

lemma merge_stores:
  assumes g: "mm_geom mp" and lo: "lo < 2 ^ omax mp" and nn: "nn < 2 ^ omax mp"
    and x: "x = adr mp nn" and y: "y = adr mp lo"
  shows "\<exists>fr. do { mp \<leftarrow> mm_blk_set_alloc_order mp x 0;
                   mp \<leftarrow> mm_blk_set_alloc_order mp y (of_nat k + 1);
                   mp \<leftarrow> mm_mark_alloc mp x;
                   mp \<leftarrow> mm_mark_alloc mp y;
                   Some (Some y, mp) } =
           Some (Some y, mp\<lparr>alloc_order := (alloc_order mp)[nn div 2 ^ omin mp := 0,
                    lo div 2 ^ omin mp := ucast (of_nat k + 1 :: u32)], blk_free := fr\<rparr>)
         \<and> length fr = length (blk_free mp)
         \<and> (\<forall>i. bits_of fr i = (i \<noteq> lo div 2 ^ omin mp \<and> i \<noteq> nn div 2 ^ omin mp \<and> bits_of (blk_free mp) i))"
proof -
  let ?a1 = "(alloc_order mp)[nn div 2 ^ omin mp := 0]"
  let ?a2 = "?a1[lo div 2 ^ omin mp := ucast (of_nat k + 1 :: u32)]"
  have g1: "mm_geom (mp\<lparr>alloc_order := ?a1\<rparr>)" using g by simp
  have s1: "mm_blk_set_alloc_order mp (adr mp nn) 0 = Some (mp\<lparr>alloc_order := ?a1\<rparr>)"
    using set_order_adr [OF g nn] by simp
  have s2: "mm_blk_set_alloc_order (mp\<lparr>alloc_order := ?a1\<rparr>) (adr mp lo) (of_nat k + 1) = Some (mp\<lparr>alloc_order := ?a2\<rparr>)"
    using set_order_adr [OF g1] lo by simp
  from mark_alloc_any [OF g nn, of "mp\<lparr>alloc_order := ?a2\<rparr>"] obtain f1 where
    f1: "mm_mark_alloc (mp\<lparr>alloc_order := ?a2\<rparr>) (adr mp nn) = Some (mp\<lparr>alloc_order := ?a2, blk_free := f1\<rparr>)"
    "length f1 = length (blk_free mp)" "\<And>k. bits_of f1 k = (k \<noteq> nn div 2 ^ omin mp \<and> bits_of (blk_free mp) k)" by auto
  from mark_alloc_any [OF g lo, of "mp\<lparr>alloc_order := ?a2, blk_free := f1\<rparr>"] f1(2) obtain f2 where
    "mm_mark_alloc (mp\<lparr>alloc_order := ?a2, blk_free := f1\<rparr>) (adr mp lo) = Some (mp\<lparr>alloc_order := ?a2, blk_free := f2\<rparr>)"
    "length f2 = length (blk_free mp)" "\<And>k. bits_of f2 k = (k \<noteq> lo div 2 ^ omin mp \<and> bits_of f1 k)" by auto
  with f1(1,3) show ?thesis by (intro exI [of _ f2]) (simp add: x y s1 s2)
qed

lemma merge_step:
  assumes core: "mm_core mp B {}" and lk: "mm_linked mp B L" and off: "B off = Some (k, False)" "k < omax mp"
    and n: "B (buddy off k) = Some (k, True)"
  shows "\<exists>a f l L' lo hi. (lo = off \<and> hi = buddy off k \<or> lo = buddy off k \<and> hi = off)
       \<and> 2 ^ Suc k dvd lo \<and> hi = lo + 2 ^ k
       \<and> mm_merge_blk mp (adr mp off) (of_nat k) =
            Some (Some (adr mp lo), mp\<lparr>links := l, alloc_order := a, blk_free := f\<rparr>)
       \<and> mm_core (mp\<lparr>links := l, alloc_order := a, blk_free := f\<rparr>) (B(hi := None, lo \<mapsto> (Suc k, False))) {}
       \<and> mm_linked (mp\<lparr>links := l, alloc_order := a, blk_free := f\<rparr>) (B(hi := None, lo \<mapsto> (Suc k, False))) L'"
proof -
  note g = mm_core_geom [OF core] and t = mm_core_tiling [OF core] and b = mm_core_bound [OF core off(1)]
  let ?n = "buddy off k"
  define lo where "lo = (if ?n < off then ?n else off)"
  define hi where "hi = (if ?n < off then off else ?n)"
  note bn = mm_core_bound [OF core n]
  have pair: "lo = off \<and> hi = ?n \<or> lo = ?n \<and> hi = off" by (simp add: lo_def hi_def)
  have geo: "2 ^ Suc k dvd lo" "hi = lo + 2 ^ k"
    using b(7) by (cases rule: buddy_cases; auto simp: lo_def hi_def)+
  define B' where "B' = B(hi := None, lo \<mapsto> (Suc k, False))"
  obtain f f' where lohi: "B lo = Some (k, f)" "B hi = Some (k, f')" and f': "?n < off \<Longrightarrow> \<not> f'"
    using off(1) n by (cases "?n < off") (auto simp: lo_def hi_def)
  have t': "tiling (omax mp) (omin mp) B'"
    unfolding B'_def geo(2) by (rule tiling_merge [OF t lohi [unfolded geo(2)] geo(1) off(2)])
  have B': "\<And>p i. B' p = Some (i, True) \<longleftrightarrow> p \<noteq> ?n \<and> B p = Some (i, True)"
    using pair off(1) by (auto simp: B'_def)
  let ?mp1 = "mp\<lparr>links := init_list_head (Nd (adr mp off)) (links mp)\<rparr>"
  note li = linked_init [OF core lk off(1)]
  have c1: "mm_core ?mp1 B {}" using core by simp
  from linked_remove [OF c1 li(1) n _ B'] off(2) obtain l where
    l: "linked (adr mp ?n) (links ?mp1)" "list_del (Nd (adr mp ?n)) (links ?mp1) = Some l"
    "mm_linked (mp\<lparr>links := l\<rparr>) B' (L(k := remove1 (adr mp ?n) (L k)))" by auto
  define nn where "nn = (if ?n < off then lo else hi)"
  have nn: "nn < 2 ^ omax mp" "lo < 2 ^ omax mp" using b bn by (auto simp: nn_def lo_def hi_def)
  let ?mp2 = "mp\<lparr>links := l\<rparr>" and ?x = "adr mp nn" and ?y = "adr mp lo"
  let ?a = "(alloc_order mp)[nn div 2 ^ omin mp := 0, lo div 2 ^ omin mp := ucast (of_nat k + 1 :: u32)]"
  have "?x = adr ?mp2 nn" "?y = adr ?mp2 lo" by simp_all
  from merge_stores [OF _ _ _ this, of k] g nn obtain fr where
    fr: "do { mp \<leftarrow> mm_blk_set_alloc_order ?mp2 ?x 0;
              mp \<leftarrow> mm_blk_set_alloc_order mp ?y (of_nat k + 1);
              mp \<leftarrow> mm_mark_alloc mp ?x;
              mp \<leftarrow> mm_mark_alloc mp ?y;
              Some (Some ?y, mp) } = Some (Some ?y, mp\<lparr>links := l, alloc_order := ?a, blk_free := fr\<rparr>)"
      (is "?stores = _")
    "length fr = length (blk_free mp)"
    "\<And>i. bits_of fr i = (i \<noteq> lo div 2 ^ omin mp \<and> i \<noteq> nn div 2 ^ omin mp \<and> bits_of (blk_free mp) i)"
    by auto
  have "mm_core (mp\<lparr>alloc_order := ?a, blk_free := fr\<rparr>) B' {}"
    unfolding B'_def
    by (rule core_merged [OF core _ lohi _ _ off(2) fr(2,3)])
       (use t' geo(2) f' in \<open>auto simp: B'_def nn_def\<close>)
  then have c2: "mm_core (mp\<lparr>links := l, alloc_order := ?a, blk_free := fr\<rparr>) B' {}" by (simp add: mm_core_def mm_geom_def)
  have "mm_merge_blk mp (adr mp off) (of_nat k) = ?stores"
  proof -
    have blk: "adr mp ?n < adr mp off \<longleftrightarrow> ?n < off" by (rule adr_less_iff [OF g bn(2) b(2)])
    have "mm_find_neighbour ?mp1 (adr mp off) (of_nat k) = adr mp ?n"
      using neighbour_adr [of ?mp1] g b(1) off(2) by simp
    moreover have "mm_blk_free ?mp1 (adr mp ?n) = Some True"
      using blk_free_adr [OF c1, of ?n] bn(2,3) n by simp
    moreover have "mm_blk_get_alloc_order ?mp1 (adr mp ?n) = Some (of_nat k)"
      using get_order_block [OF c1 n] by simp
    moreover from l(1) obtain x y where
      "prv (links ?mp1) (Nd (adr mp ?n)) = Some x" "nxt (links ?mp1) (Nd (adr mp ?n)) = Some y"
      by (auto simp: linked_def)
    ultimately show ?thesis using l(2)
      by (cases "?n < off") (simp_all add: mm_merge_blk_def Let_def blk lo_def hi_def nn_def)
  qed
  with fr(1) c2 l(3) pair geo show ?thesis unfolding B'_def by (intro exI conjI) (assumption | simp)+
qed

lemma merge_none:
  assumes core: "mm_core mp B {}" and lk: "mm_linked mp B L" and off: "B off = Some (k, False)" "k < omax mp"
    and n: "B (buddy off k) \<noteq> Some (k, True)"
  shows "mm_merge_blk mp (adr mp off) (of_nat k) =
           Some (None, mp\<lparr>links := init_list_head (Nd (adr mp off)) (links mp)\<rparr>)"
proof -
  note g = mm_core_geom [OF core] and b = mm_core_bound [OF core off(1)]
  let ?n = "buddy off k"
  have wn: "wf_block (omax mp) (omin mp) ?n k" by (rule buddy_in_pool [OF b(1) off(2)])
  then have bn: "?n < 2 ^ omax mp" "2 ^ omin mp dvd ?n"
    using wf_block_less [OF wn] by (auto simp: wf_block_def intro: dvd_trans [OF le_imp_power_dvd])
  let ?mp1 = "mp\<lparr>links := init_list_head (Nd (adr mp off)) (links mp)\<rparr>"
  have c1: "mm_core ?mp1 B {}" using core by simp
  have nb: "mm_find_neighbour ?mp1 (adr mp off) (of_nat k) = adr mp ?n"
    using neighbour_adr [of ?mp1] g b(1) off(2) by simp
  have fr: "mm_blk_free ?mp1 (adr mp ?n) = Some (\<exists>j. B ?n = Some (j, True))"
    using blk_free_adr [OF c1, of ?n] bn by simp
  show ?thesis
  proof (cases "\<exists>j. B ?n = Some (j, True)")
    case False
    with nb fr show ?thesis by (simp add: mm_merge_blk_def)
  next
    case True
    then obtain j where j: "B ?n = Some (j, True)" ..
    with n have "j \<noteq> k" by auto
    moreover have "j < 32" "k < 32" using mm_core_bound(4) [OF core j] b(4) by auto
    ultimately have "(of_nat j :: u32) \<noteq> of_nat k" using unat_of_nat_order by metis
    moreover have "mm_blk_get_alloc_order ?mp1 (adr mp ?n) = Some (of_nat j)"
      using get_order_block [OF c1 j] by simp
    ultimately show ?thesis using nb fr True by (simp add: mm_merge_blk_def)
  qed
qed

section \<open>Merging up\<close>

lemma coalesced_mono:
  assumes "coalesced ma B" "\<And>p i. B' p = Some (i, True) \<Longrightarrow> B p = Some (i, True)"
  shows "coalesced ma B'"
  using assms unfolding coalesced_def by blast

text \<open>
  \<open>merged_up mp B off k mp' B' off' k'\<close>: the used block at \<open>off\<close> has been merged with its free
  buddies into the block at \<open>off'\<close>, until the buddy was not free or the pool was whole.
\<close>

definition merged_up :: "mm_pool \<Rightarrow> blocks \<Rightarrow> nat \<Rightarrow> nat \<Rightarrow> mm_pool \<Rightarrow> blocks \<Rightarrow> nat \<Rightarrow> nat \<Rightarrow> bool" where
  "merged_up mp B off k mp' B' off' k' \<longleftrightarrow> mm_core mp' B' {} \<and> (\<exists>L. mm_linked mp' B' L)
     \<and> B' off' = Some (k', False) \<and> live (B'(off' := None)) = live B - {(off, k)}
     \<and> coalesced (omax mp) B'
     \<and> used (omax mp) (omin mp) B' + 2 ^ (k - omin mp) = used (omax mp) (omin mp) B + 2 ^ (k' - omin mp)
     \<and> (k' < omax mp \<longrightarrow> B' (buddy off' k') \<noteq> Some (k', True) \<and> lone (adr mp off') (links mp'))"

lemma upmerge_loop_stop: "\<not> order < max_order mp \<Longrightarrow> mm_upmerge_loop mp blk order = Some (mp, blk, order)"
  by (subst mm_upmerge_loop.simps) simp

lemma upmerge_loop_none:
  "order < max_order mp \<Longrightarrow> mm_merge_blk mp blk order = Some (None, mp')
   \<Longrightarrow> mm_upmerge_loop mp blk order = Some (mp', blk, order)"
  by (subst mm_upmerge_loop.simps) simp

lemma upmerge_loop_step:
  "order < max_order mp \<Longrightarrow> mm_merge_blk mp blk order = Some (Some b, mp')
   \<Longrightarrow> mm_upmerge_loop mp blk order = mm_upmerge_loop mp' b (order + 1)"
  by (subst mm_upmerge_loop.simps) simp

lemma upmerge_run:
  assumes "mm_core mp B {}" "mm_linked mp B L" "B off = Some (k, False)" "coalesced (omax mp) B"
  shows "\<exists>a f l B' off' k'. mm_upmerge_loop mp (adr mp off) (of_nat k) =
             Some (mp\<lparr>links := l, alloc_order := a, blk_free := f\<rparr>, adr mp off', of_nat k')
           \<and> merged_up mp B off k (mp\<lparr>links := l, alloc_order := a, blk_free := f\<rparr>) B' off' k'"
  using assms
proof (induction "omax mp - k" arbitrary: mp B L off k)
  case (0 mp k B L off)
  then have k: "k = omax mp" using mm_core_bound(6) [OF 0(2,4)] by simp
  have "\<not> of_nat k < max_order mp" by (simp add: k)
  from upmerge_loop_stop [OF this]
  have r: "mm_upmerge_loop mp (adr mp off) (of_nat k) = Some (mp, adr mp off, of_nat k)" .
  have "live (B(off := None)) = live B - {(off, k)}"
    using 0(4) by (auto simp: live_def split: if_splits)
  with 0(2-5) k have "merged_up mp B off k mp B off k" unfolding merged_up_def by blast
  with r show ?case
    by (intro exI [of _ "alloc_order mp"] exI [of _ "blk_free mp"] exI [of _ "links mp"] exI [of _ B]
        exI [of _ off] exI [of _ k]) simp
next
  case (Suc d mp k B L off)
  note core = Suc.prems(1) and lk = Suc.prems(2) and off = Suc.prems(3) and co = Suc.prems(4)
  have k: "k < omax mp" using Suc.hyps(2) by simp
  have k32: "k < 32" using mm_core_bound(4) [OF core off] by simp
  then have lt: "of_nat k < max_order mp" using k by (simp add: word_less_nat_alt unat_of_nat_order)
  show ?case
  proof (cases "B (buddy off k) = Some (k, True)")
    case False
    let ?mp = "mp\<lparr>links := init_list_head (Nd (adr mp off)) (links mp)\<rparr>"
    have "live (B(off := None)) = live B - {(off, k)}" using off by (auto simp: live_def split: if_splits)
    moreover have "mm_core ?mp B {}" "lone (adr mp off) (links ?mp)"
      using core linked_init(2) [OF core lk off] by simp_all
    ultimately have "merged_up mp B off k ?mp B off k"
      unfolding merged_up_def using linked_init(1) [OF core lk off] off co False by blast
    with upmerge_loop_none [OF lt merge_none [OF core lk off k False]] show ?thesis
      by (intro exI [of _ "alloc_order mp"] exI [of _ "blk_free mp"]
          exI [of _ "init_list_head (Nd (adr mp off)) (links mp)"] exI [of _ B]
          exI [of _ off] exI [of _ k]) simp
  next
    case True
    from merge_step [OF core lk off k True] obtain a f l L' lo hi where
      m: "lo = off \<and> hi = buddy off k \<or> lo = buddy off k \<and> hi = off"
      "mm_merge_blk mp (adr mp off) (of_nat k) = Some (Some (adr mp lo), mp\<lparr>links := l, alloc_order := a, blk_free := f\<rparr>)"
      "mm_core (mp\<lparr>links := l, alloc_order := a, blk_free := f\<rparr>) (B(hi := None, lo \<mapsto> (Suc k, False))) {}"
      "mm_linked (mp\<lparr>links := l, alloc_order := a, blk_free := f\<rparr>) (B(hi := None, lo \<mapsto> (Suc k, False))) L'"
      by blast
    define B1 where "B1 = B(hi := None, lo \<mapsto> (Suc k, False))"
    let ?mp = "mp\<lparr>links := l, alloc_order := a, blk_free := f\<rparr>"
    have b1: "B1 lo = Some (Suc k, False)" by (simp add: B1_def)
    have "coalesced (omax mp) B1" by (rule coalesced_mono [OF co]) (auto simp: B1_def split: if_splits)
    then have "\<exists>a f l B' off' k'. mm_upmerge_loop ?mp (adr ?mp lo) (of_nat (Suc k)) =
             Some (?mp\<lparr>links := l, alloc_order := a, blk_free := f\<rparr>, adr ?mp off', of_nat k')
           \<and> merged_up ?mp B1 lo (Suc k) (?mp\<lparr>links := l, alloc_order := a, blk_free := f\<rparr>) B' off' k'"
      by (intro Suc.hyps(1) [of ?mp "Suc k" B1 L' lo]) (use Suc.hyps(2) m(3,4) b1 in \<open>simp_all add: B1_def\<close>)
    then obtain a' f' l' B' off' k' where
      r: "mm_upmerge_loop ?mp (adr mp lo) (of_nat k + 1) =
            Some (mp\<lparr>links := l', alloc_order := a', blk_free := f'\<rparr>, adr mp off', of_nat k')"
      "merged_up ?mp B1 lo (Suc k) (mp\<lparr>links := l', alloc_order := a', blk_free := f'\<rparr>) B' off' k'"
      by (auto simp: add.commute)
    have "2 ^ k dvd off" by (rule mm_core_bound(7) [OF core off])
    then have neq: "off \<noteq> buddy off k" using buddy_neq [of k off] by simp
    have lv: "live B1 - {(lo, Suc k)} = live B - {(off, k)}"
      using m(1) off True neq by (auto simp: live_def B1_def split: if_splits)
    have "used (omax mp) (omin mp) B1 + 2 ^ (k - omin mp) = used (omax mp) (omin mp) B + 2 ^ (Suc k - omin mp)"
      unfolding B1_def by (rule used_merge [OF mm_core_tiling [OF core] off True neq m(1)])
    with r(2) lv have "merged_up mp B off k (mp\<lparr>links := l', alloc_order := a', blk_free := f'\<rparr>) B' off' k'"
      by (simp add: merged_up_def)
    with trans [OF upmerge_loop_step [OF lt m(2)] r(1)] show ?thesis by blast
  qed
qed


text \<open>The merged block is marked free and, unless it is at the base, linked.\<close>

lemma finish_core:
  assumes core: "mm_core mp B {}" and off: "B off = Some (k, False)"
  shows "\<exists>m a f. mm_mark_free mp (adr mp off) = Some m
           \<and> mm_blk_set_alloc_order m (adr mp off) (of_nat k) = Some (mp\<lparr>alloc_order := a, blk_free := f\<rparr>)
           \<and> mm_core (mp\<lparr>alloc_order := a, blk_free := f\<rparr>) (B(off \<mapsto> (k, True))) {}"
proof -
  note g = mm_core_geom [OF core] and b = mm_core_bound [OF core off]
  from mark_free_adr [OF g b(2)] obtain f where
    f: "mm_mark_free mp (adr mp off) = Some (mp\<lparr>blk_free := f\<rparr>)" "length f = length (blk_free mp)"
    "\<And>i. bits_of f i = (i = off div 2 ^ omin mp \<or> bits_of (blk_free mp) i)" by blast
  let ?a = "(alloc_order mp)[off div 2 ^ omin mp := ucast (of_nat k :: u32)]"
  let ?mp = "mp\<lparr>alloc_order := ?a, blk_free := f\<rparr>"
  have so: "mm_blk_set_alloc_order (mp\<lparr>blk_free := f\<rparr>) (adr mp off) (of_nat k) = Some ?mp"
    using set_order_adr [of "mp\<lparr>blk_free := f\<rparr>" off] g f(2) b(2) by simp
  have idx: "p div 2 ^ omin mp = off div 2 ^ omin mp \<longleftrightarrow> p = off" if "2 ^ omin mp dvd p" for p
    using that b(3) by (rule idx_inj)
  have il: "off div 2 ^ omin mp < length (alloc_order mp)"
    using idx_less [OF g b(2)] g by (simp add: mm_geom_def)
  have "unat (?a ! (p div 2 ^ omin mp)) = j" if "(B(off \<mapsto> (k, True))) p = Some (j, fl)" for p j fl
  proof (cases "p = off")
    case True
    with that il b(4) show ?thesis by (simp add: ucast_of_nat_order)
  next
    case False
    with that have bp: "B p = Some (j, fl)" by simp
    from idx [OF mm_core_bound(3) [OF core bp]] False have "off div 2 ^ omin mp \<noteq> p div 2 ^ omin mp" by auto
    with core bp show ?thesis by (simp add: mm_core_def)
  qed
  moreover have "bits_of f (p div 2 ^ omin mp) = (\<exists>j. (B(off \<mapsto> (k, True))) p = Some (j, True))"
    if "p < 2 ^ omax mp" "2 ^ omin mp dvd p" for p
    using core that idx [OF that(2)] by (auto simp: f(3) mm_core_def)
  ultimately have "mm_core ?mp (B(off \<mapsto> (k, True))) {}"
    using g tiling_flag [OF mm_core_tiling [OF core] off] f(2) by (simp add: mm_core_def)
  with f(1) so show ?thesis by auto
qed

lemma linked_insert:
  assumes core: "mm_core mp B {}" and lk: "mm_linked mp B L" and off: "B off = Some (k, False)" "off \<noteq> 0"
  shows "\<exists>l. list_add (Nd (adr mp off)) (Hd k) (links mp) = Some l
           \<and> mm_linked (mp\<lparr>links := l\<rparr>) (B(off \<mapsto> (k, True))) (L(k := adr mp off # L k))"
proof -
  note g = mm_core_geom [OF core] and b = mm_core_bound [OF core off(1)]
  have d: "dlists (links mp) {..omax mp} L" using lk by (simp add: mm_linked_def)
  from list_add_family [OF d, of k "adr mp off"] linked_not_in [OF core lk _ b(2)] off(1) b(6)
  obtain l where l: "list_add (Nd (adr mp off)) (Hd k) (links mp) = Some l"
    "dlists l {..omax mp} (L(k := adr mp off # L k))"
    "\<And>y. y \<noteq> adr mp off \<Longrightarrow> lone y (links mp) \<Longrightarrow> lone y l" by auto
  have "set ((L(k := adr mp off # L k)) i) = adr mp ` {p. p \<noteq> 0 \<and> (B(off \<mapsto> (k, True))) p = Some (i, True)}"
    if "i \<le> omax mp" for i
  proof -
    have "{p. p \<noteq> 0 \<and> (B(off \<mapsto> (k, True))) p = Some (i, True)} =
        (if i = k then insert off {p. p \<noteq> 0 \<and> B p = Some (i, True)} else {p. p \<noteq> 0 \<and> B p = Some (i, True)})"
      using off by auto
    with lk that show ?thesis by (auto simp: mm_linked_def)
  qed
  moreover have "lone (base mp) l" if "j < omax mp" "(B(off \<mapsto> (k, True))) 0 = Some (j, True)" for j
    using that off lk l(3) [of "base mp"] adr_eq_base [OF g b(2)] by (auto simp: mm_linked_def)
  ultimately have "mm_linked (mp\<lparr>links := l\<rparr>) (B(off \<mapsto> (k, True))) (L(k := adr mp off # L k))"
    using l(2) by (simp add: mm_linked_def)
  with l(1) show ?thesis by blast
qed

lemma linked_base:
  assumes "mm_linked mp B L" "B 0 = Some (k, False)" "k < omax mp \<Longrightarrow> lone (base mp) (links mp)"
  shows "mm_linked mp (B(0 \<mapsto> (k, True))) L"
  using assms by (auto simp: mm_linked_def)

lemma coalesced_free:
  assumes "coalesced ma B" "B off = Some (k, False)" "2 ^ k dvd off"
    and "k < ma \<Longrightarrow> B (buddy off k) \<noteq> Some (k, True)"
    and wf: "\<And>p j f. B p = Some (j, f) \<Longrightarrow> 2 ^ j dvd p"
  shows "coalesced ma (B(off \<mapsto> (k, True)))"
proof -
  have "(B(off \<mapsto> (k, True))) (buddy p j) \<noteq> Some (j, True)"
    if "j < ma" "(B(off \<mapsto> (k, True))) p = Some (j, True)" for p j
  proof (cases "p = off")
    case True
    with that assms(3,4) buddy_neq [OF assms(3)] show ?thesis by auto
  next
    case False
    with that have p: "B p = Some (j, True)" by simp
    with assms(1) that(1) have np: "B (buddy p j) \<noteq> Some (j, True)" by (auto simp: coalesced_def)
    show ?thesis
    proof
      assume "(B(off \<mapsto> (k, True))) (buddy p j) = Some (j, True)"
      with np have "buddy p j = off" "j = k" by (auto split: if_splits)
      with wf [OF p] buddy_buddy [of j p] have "buddy off k = p" by auto
      with assms(4) that(1) p \<open>j = k\<close> show False by simp
    qed
  qed
  then show ?thesis by (simp add: coalesced_def)
qed

section \<open>Release\<close>

lemma upmerge_blks_inv:
  assumes core: "mm_core mp B {}" and lk: "mm_linked mp B L" and off: "B off = Some (k, False)"
    and co: "coalesced (omax mp) B"
  shows "\<exists>mp' B'. mm_upmerge_blks mp (adr mp off) = Some mp' \<and> mm_core mp' B' {} \<and> (\<exists>L. mm_linked mp' B' L)
      \<and> coalesced (omax mp) B' \<and> live B' = live B - {(off, k)}
      \<and> used (omax mp) (omin mp) B' + 2 ^ (k - omin mp) = used (omax mp) (omin mp) B
      \<and> same_pool mp mp' \<and> alloc_blks mp' = alloc_blks mp"
proof -
  from upmerge_run [OF assms] obtain a f l B1 off1 k1 where
    run: "mm_upmerge_loop mp (adr mp off) (of_nat k) =
      Some (mp\<lparr>links := l, alloc_order := a, blk_free := f\<rparr>, adr mp off1, of_nat k1)"
    and up: "merged_up mp B off k (mp\<lparr>links := l, alloc_order := a, blk_free := f\<rparr>) B1 off1 k1" by blast
  define mp1 where "mp1 = mp\<lparr>links := l, alloc_order := a, blk_free := f\<rparr>"
  have same [simp]: "adr mp1 = adr mp" "base mp1 = base mp" "max_order mp1 = max_order mp"
    "min_order mp1 = min_order mp" by (simp_all add: mp1_def)
  from up obtain L1 where c1: "mm_core mp1 B1 {}" and l1: "mm_linked mp1 B1 L1" and b1: "B1 off1 = Some (k1, False)"
    and lv: "live (B1(off1 := None)) = live B - {(off, k)}" and co1: "coalesced (omax mp) B1"
    and us: "used (omax mp) (omin mp) B1 + 2 ^ (k - omin mp) = used (omax mp) (omin mp) B + 2 ^ (k1 - omin mp)"
    and stop: "k1 < omax mp \<Longrightarrow> B1 (buddy off1 k1) \<noteq> Some (k1, True) \<and> lone (adr mp off1) (links mp1)"
    unfolding merged_up_def mp1_def by blast
  note g = mm_core_geom [OF c1] and b = mm_core_bound [OF c1 b1]
  define B2 where "B2 = B1(off1 \<mapsto> (k1, True))"
  from finish_core [OF c1 b1] obtain m a2 f2 where
    mf: "mm_mark_free mp1 (adr mp off1) = Some m" and
    fin: "mm_blk_set_alloc_order m (adr mp off1) (of_nat k1) = Some (mp1\<lparr>alloc_order := a2, blk_free := f2\<rparr>)"
      "mm_core (mp1\<lparr>alloc_order := a2, blk_free := f2\<rparr>) B2 {}"
    unfolding B2_def by auto
  have "\<exists>l2 L2. (if adr mp off1 \<noteq> base mp then list_add (Nd (adr mp off1)) (Hd k1) (links mp1) = Some l2
      else l2 = links mp1) \<and> mm_linked (mp1\<lparr>links := l2\<rparr>) B2 L2"
  proof (cases "off1 = 0")
    case True
    with linked_base [OF l1, of k1] b1 stop show ?thesis
      unfolding B2_def by (intro exI [of _ "links mp1"] exI [of _ L1]) (auto simp: adr_0)
  next
    case False
    then have "adr mp off1 \<noteq> base mp" using adr_eq_base [OF g b(2)] by simp
    with linked_insert [OF c1 l1 b1 False] show ?thesis unfolding B2_def by auto
  qed
  then obtain l2 L2 where l2: "if adr mp off1 \<noteq> base mp then list_add (Nd (adr mp off1)) (Hd k1) (links mp1) = Some l2
      else l2 = links mp1" "mm_linked (mp1\<lparr>links := l2\<rparr>) B2 L2" by blast
  let ?mp2 = "mp1\<lparr>alloc_order := a2, blk_free := f2, links := l2\<rparr>"
  have g0: "mm_blk_get_alloc_order mp (adr mp off) = Some (of_nat k)" by (rule get_order_block [OF core off]) simp
  have k1: "unat (of_nat k1 :: u32) = k1" using b(4) by (simp add: unat_of_nat_order)
  have res: "mm_upmerge_blks mp (adr mp off) = Some ?mp2"
    using l2(1) mf fin(1) k1 by (cases "adr mp off1 = base mp")
      (simp_all add: mm_upmerge_blks_def g0 run [folded mp1_def])
  have c2: "mm_core ?mp2 B2 {}" and k2: "mm_linked ?mp2 B2 L2" using fin(2) l2(2) by (simp_all add: mm_linked_def)
  have co2: "coalesced (omax mp) B2"
    unfolding B2_def by (rule coalesced_free [OF co1 b1 b(7)]) (use stop mm_core_bound(7) [OF c1] in auto)
  have "live B2 = live (B1(off1 := None))" by (auto simp: B2_def live_def split: if_splits)
  then have lv2: "live B2 = live B - {(off, k)}" using lv by simp
  have "used (omax mp) (omin mp) B2 + 2 ^ (k1 - omin mp) = used (omax mp) (omin mp) B1"
    using used_flag [OF mm_core_tiling [OF c1] b1, of True] by (simp add: B2_def)
  with us have us2: "used (omax mp) (omin mp) B2 + 2 ^ (k - omin mp) = used (omax mp) (omin mp) B" by simp
  have "same_pool mp ?mp2" "alloc_blks ?mp2 = alloc_blks mp" by (simp_all add: same_pool_def mp1_def)
  with res c2 k2 co2 lv2 us2 show ?thesis by blast
qed

lemma free_validate:
  assumes core: "mm_core mp B {}" and off: "B off = Some (k, f)"
  shows "mm_fixup_validate mp (adr mp off) (of_nat k) = of_nat k" "\<not> is_err_value (of_nat k)"
    "unat (of_nat k - min_order mp) = k - omin mp" "(of_nat k :: u32) \<noteq> 0"
proof -
  note g = mm_core_geom [OF core] and b = mm_core_bound [OF core off]
  have k: "unat (of_nat k :: u32) = k" using b(4) by (simp add: unat_of_nat_order)
  have "unat (adr mp off - base mp) \<le> 2 ^ omax mp" using b(2) g by (simp add: unat_adr_minus_base)
  moreover have "unat (base mp) \<le> unat (adr mp off)" using unat_adr [OF g, of off] b(2) by simp
  ultimately show "mm_fixup_validate mp (adr mp off) (of_nat k) = of_nat k"
    using b g by (auto simp: mm_fixup_validate_def word_less_nat_alt unat_shl_uint k mm_geom_def)
  show "\<not> is_err_value (of_nat k)" by (rule is_err_small [OF b(4)])
  show "unat (of_nat k - min_order mp) = k - omin mp" using b(5) by (simp add: unat_sub word_le_nat_alt k)
  show "(of_nat k :: u32) \<noteq> 0" using k b(5) g by (auto simp: mm_geom_def)
qed

lemma mm_free_inv:
  assumes inv: "mm_inv mp B" and off: "B off = Some (k, False)"
  shows "\<exists>mp' B'. mm_free mp (adr mp off) st = Some (mp', st\<lparr>used_blocks := used_blocks st - 2 ^ (k - omin mp)\<rparr>)
      \<and> mm_inv mp' B' \<and> live B' = live B - {(off, k)} \<and> same_pool mp mp'"
proof -
  from inv obtain L where core: "mm_core mp B {}" and lk: "mm_linked mp B L" and co: "coalesced (omax mp) B"
    and cnt: "unat (alloc_blks mp) = used (omax mp) (omin mp) B" by (auto simp: mm_inv_def)
  note g = mm_core_geom [OF core] and b = mm_core_bound [OF core off] and v = free_validate [OF core off]
  from upmerge_blks_inv [OF core lk off co] obtain mp1 B1 where
    m: "mm_upmerge_blks mp (adr mp off) = Some mp1" "mm_core mp1 B1 {}" "\<exists>L. mm_linked mp1 B1 L"
    "coalesced (omax mp) B1" "live B1 = live B - {(off, k)}"
    "used (omax mp) (omin mp) B1 + 2 ^ (k - omin mp) = used (omax mp) (omin mp) B"
    "same_pool mp mp1" "alloc_blks mp1 = alloc_blks mp" by blast
  have fr: "mm_blk_free mp (adr mp off) = Some False" using blk_free_adr [OF core b(2,3)] off by simp
  have c: "shl 1 (uint (of_nat k - min_order mp)) = 2 ^ (k - omin mp)" using v(3) b(4) by (simp add: shl_uint)
  let ?mp = "mp1\<lparr>alloc_blks := alloc_blks mp - 2 ^ (k - omin mp)\<rparr>"
  have res: "mm_free mp (adr mp off) st = Some (?mp, st\<lparr>used_blocks := used_blocks st - 2 ^ (k - omin mp)\<rparr>)"
    using adr_nonzero [OF g b(2)] adr_valid [OF g b(2)] fr get_order_block [OF core off] v m(1,7,8) c
    by (simp add: mm_free_def Let_def same_pool_def)
  have k2: "unat (2 ^ (k - omin mp) :: u32) = 2 ^ (k - omin mp)" using b(4) by (simp add: unat_2p)
  then have "unat (alloc_blks mp - 2 ^ (k - omin mp)) = used (omax mp) (omin mp) B1"
    using m(6) cnt by (simp add: unat_sub word_le_nat_alt)
  with m have "mm_inv ?mp B1" by (auto simp: mm_inv_def same_pool_def)
  moreover have "same_pool mp ?mp" using m(7) by (simp add: same_pool_def)
  ultimately show ?thesis using res m(5) by blast
qed

section \<open>Initialisation\<close>

lemma tiling_whole: "mi \<le> ma \<Longrightarrow> tiling ma mi [0 \<mapsto> (ma, f)]"
  by (auto simp: tiling_def wf_block_def split: if_splits)

lemma used_whole: "used ma mi [0 \<mapsto> (ma, False)] = 2 ^ (ma - mi)"
proof -
  have "used ma mi Map.empty = 0" by (simp add: used_def)
  with used_update [of 0 ma mi Map.empty "Some (ma, False)"] show ?thesis by simp
qed

lemma init_anchors_family: "dlists (mm_init_anchors n h) {..<n} (\<lambda>_. [])"
proof (induction n)
  case 0
  show ?case by (simp add: dlists_def)
next
  case (Suc n)
  from init_heads_family [OF Suc, of n] show ?case by (simp add: lessThan_Suc fun_upd_idem)
qed

text \<open>The orders \<^verbatim>\<open>mm_init\<close> chooses: the largest power of two in the pool and the smallest that holds
  the granularity and a link, halved pools excepted.\<close>

definition pool_orders :: "u32 \<Rightarrow> u32 \<Rightarrow> nat \<Rightarrow> nat \<Rightarrow> bool" where
  "pool_orders pool_size granularity ma mi \<longleftrightarrow> 2 ^ ma \<le> unat pool_size \<and> unat pool_size < 2 ^ Suc ma
     \<and> (\<exists>m. unat granularity \<le> 2 ^ m \<and> 8 \<le> (2::nat) ^ m \<and> (\<forall>j. unat granularity \<le> 2 ^ j \<longrightarrow> (8::nat) \<le> 2 ^ j \<longrightarrow> m \<le> j)
          \<and> mi = (if m \<le> ma then m else ma - 1))"

lemma three_le_power: "8 \<le> (2::nat) ^ m \<longleftrightarrow> 3 \<le> m"
  using power_increasing_iff [of "2::nat" 3 m] by simp

lemma init_orders:
  assumes "8 \<le> unat pool_size" "gr \<noteq> 0" "unat gr \<le> 2 ^ 31"
  shows "\<exists>ma mi. mm_init_orders pool_size gr = (of_nat ma, of_nat mi, 3 \<le> mi) \<and> pool_orders pool_size gr ma mi
           \<and> 3 \<le> ma \<and> mi \<le> ma \<and> ma \<le> 31"
proof -
  have "pool_size \<noteq> 0" using assms(1) by auto
  from rounddown_order [OF this] obtain ma where
    ma: "ma \<le> 31" "ilog2 (rounddown_pow_of_two pool_size) = int ma" "2 ^ ma \<le> unat pool_size"
    "unat pool_size < 2 ^ Suc ma" by auto
  from roundup_order [OF assms(2,3)] obtain k where
    k: "k \<le> 31" "ilog2 (roundup_pow_of_two gr) = int k" "unat gr \<le> 2 ^ k" "\<And>j. unat gr \<le> 2 ^ j \<Longrightarrow> k \<le> j" by auto
  let ?m = "max 3 k"
  let ?mi = "if ?m \<le> ma then ?m else ma - 1"
  have m3: "3 \<le> ma"
  proof (rule ccontr)
    assume "\<not> 3 \<le> ma"
    then have "(2::nat) ^ Suc ma \<le> 2 ^ 3" by (intro power_increasing) auto
    with ma(4) assms(1) show False by simp
  qed
  have "(2::nat) ^ k \<le> 2 ^ ?m" by (rule power_increasing) auto
  with k(3) have "unat gr \<le> 2 ^ ?m" by (rule le_trans)
  then have po: "pool_orders pool_size gr ma ?mi"
    unfolding pool_orders_def three_le_power using ma(3,4) k(4) by (intro conjI exI [of _ ?m]) auto
  have "kfls 7 = 3" by code_simp
  then have "ilog2 (roundup_pow_of_two 8) = 3"
    by (simp add: roundup_pow_of_two_def fls_long_def ilog2_shl)
  then have lnk: "word_of_int (ilog2 (roundup_pow_of_two sizeof_mm_blk_lnk)) = (of_nat 3 :: u32)"
    by (simp add: sizeof_mm_blk_lnk_def)
  have small: "shl 1 (uint (of_nat j :: u32)) < sizeof_mm_blk_lnk \<longleftrightarrow> j < 3" if "j \<le> 31" for j
  proof -
    have "shl 1 (uint (of_nat j :: u32)) < sizeof_mm_blk_lnk \<longleftrightarrow> (2::nat) ^ j < 2 ^ 3"
      using that by (simp add: word_less_nat_alt unat_shl_uint unat_of_nat_order sizeof_mm_blk_lnk_def)
    then show ?thesis using power_strict_increasing_iff [of "2::nat" j 3] by simp
  qed
  have "mm_init_orders pool_size gr = (of_nat ma, of_nat ?mi, 3 \<le> ?mi)"
  proof -
    define omax :: u32 where "omax = of_nat ma"
    define omin :: u32 where "omin = of_nat ?m"
    have "(if shl 1 (uint (word_of_int (ilog2 (roundup_pow_of_two gr)) :: u32)) < sizeof_mm_blk_lnk
        then word_of_int (ilog2 (roundup_pow_of_two sizeof_mm_blk_lnk))
        else word_of_int (ilog2 (roundup_pow_of_two gr))) = omin"
      using small [OF k(1)] by (auto simp: k(2) lnk omin_def max_def simp del: of_nat_numeral)
    moreover have "omin > omax \<longleftrightarrow> \<not> ?m \<le> ma"
      using k(1) ma(1) by (simp add: omax_def omin_def word_less_nat_alt unat_of_nat_order not_le less_max_iff_disj)
    moreover have "omax - 1 = of_nat (ma - 1)" using m3 by (simp add: omax_def)
    ultimately show ?thesis using ma(1) small [of "ma - 1"]
      by (auto simp: mm_init_orders_def ma(2) Let_def omax_def [symmetric] omin_def)
  qed
  with po m3 ma(1) show ?thesis by (intro exI [of _ ma] exI [of _ ?mi]) auto
qed


text \<open>The state in which \<^verbatim>\<open>mm_init\<close> frees the whole pool.\<close>

lemma init_state_inv:
  assumes geom: "mm_geom mp" and links: "links mp = mm_init_anchors (Suc (omax mp)) h"
    and ord: "unat (alloc_order mp ! 0) = omax mp" and bits: "\<And>k. k < 2 ^ (omax mp - omin mp) \<Longrightarrow> \<not> bits_of (blk_free mp) k"
    and cnt: "alloc_blks mp = n_blks mp"
  shows "mm_inv mp [0 \<mapsto> (omax mp, False)]"
proof -
  have "bits_of (blk_free mp) (off div 2 ^ omin mp) = (\<exists>k. [0 \<mapsto> (omax mp, False)] off = Some (k, True))"
    if "off < 2 ^ omax mp" for off
    using bits [OF idx_less [OF geom that]] by simp
  moreover have "tiling (omax mp) (omin mp) [0 \<mapsto> (omax mp, False)]"
    using geom by (simp add: tiling_whole mm_geom_def)
  ultimately have "mm_core mp [0 \<mapsto> (omax mp, False)] {}"
    using geom ord by (auto simp: mm_core_def split: if_splits)
  moreover have "dlists (links mp) {..omax mp} (\<lambda>_. [])"
    using init_anchors_family [of "Suc (omax mp)" h] by (simp add: links lessThan_Suc_atMost)
  then have "mm_linked mp [0 \<mapsto> (omax mp, False)] (\<lambda>_. [])"
    by (simp add: mm_linked_def)
  moreover have "coalesced (omax mp) [0 \<mapsto> (omax mp, False)]" by (simp add: coalesced_def)
  moreover have "unat (alloc_blks mp) = used (omax mp) (omin mp) [0 \<mapsto> (omax mp, False)]"
    using geom cnt by (simp add: used_whole mm_geom_def)
  ultimately show ?thesis unfolding mm_inv_def by blast
qed

text \<open>The arrays of a pool are long enough for its units.\<close>

definition pool_tracks :: "mm_pool \<Rightarrow> u32 \<Rightarrow> u32 \<Rightarrow> bool" where
  "pool_tracks mp psz gr \<longleftrightarrow> (\<forall>ma mi. pool_orders psz gr ma mi \<longrightarrow> 3 \<le> mi \<longrightarrow>
     2 ^ (ma - mi) \<le> length (alloc_order mp) \<and> 2 ^ (ma - mi) \<le> 32 * length (blk_free mp))"

lemma pool_orders_units:
  assumes "pool_orders psz gr ma mi" "3 \<le> mi"
  shows "2 ^ (ma - mi) * unat gr \<le> unat psz \<or> ma - mi = 1" "2 ^ (ma - mi) * 8 \<le> unat psz"
proof -
  obtain m where m: "2 ^ ma \<le> unat psz" "unat gr \<le> 2 ^ m" "mi = (if m \<le> ma then m else ma - 1)" using assms(1) by (auto simp: pool_orders_def)
  have le: "mi \<le> ma" using m(3) by (auto split: if_splits)
  then have pw: "(2::nat) ^ ma = 2 ^ (ma - mi) * 2 ^ mi" by (simp flip: power_add)
  have "2 ^ (ma - mi) * 8 \<le> (2::nat) ^ ma" unfolding pw using three_le_power [of mi] assms(2) by (intro mult_le_mono2) simp
  then show "2 ^ (ma - mi) * 8 \<le> unat psz" using m(1) by simp
  show "2 ^ (ma - mi) * unat gr \<le> unat psz \<or> ma - mi = 1"
  proof (cases "m \<le> ma")
    case True
    then have "2 ^ (ma - mi) * unat gr \<le> 2 ^ (ma - mi) * 2 ^ mi" using m(2,3) by (intro mult_le_mono2) simp
    then have "2 ^ (ma - mi) * unat gr \<le> unat psz" using m(1) unfolding pw [symmetric] by (rule order_trans)
    then show ?thesis ..
  next
    case False
    then show ?thesis using m(3) assms(2) by auto
  qed
qed

lemma pool_tracks_bytes:
  "unat psz \<le> 8 * length (alloc_order mp) \<Longrightarrow> unat psz \<le> 256 * length (blk_free mp) \<Longrightarrow> pool_tracks mp psz gr"
  unfolding pool_tracks_def using pool_orders_units(2) [of psz gr] by fastforce

lemma pool_tracks_units:
  assumes "unat psz \<le> unat gr * length (alloc_order mp)" "unat psz \<le> unat gr * (32 * length (blk_free mp))" "gr \<noteq> 0"
    "2 \<le> length (alloc_order mp)" "blk_free mp \<noteq> []"
  shows "pool_tracks mp psz gr"
  unfolding pool_tracks_def
proof (intro allI impI)
  fix ma mi assume o: "pool_orders psz gr ma mi" "3 \<le> mi"
  have g: "0 < unat gr" using assms(3) by (simp add: unat_gt_0)
  have b: "2 \<le> 32 * length (blk_free mp)" using assms(5) by (cases "blk_free mp") auto
  consider "2 ^ (ma - mi) * unat gr \<le> unat psz" | "ma - mi = 1" using pool_orders_units(1) [OF o] by blast
  then show "2 ^ (ma - mi) \<le> length (alloc_order mp) \<and> 2 ^ (ma - mi) \<le> 32 * length (blk_free mp)"
  proof cases
    case 1
    then have "unat gr * 2 ^ (ma - mi) \<le> unat gr * length (alloc_order mp)" "unat gr * 2 ^ (ma - mi) \<le> unat gr * (32 * length (blk_free mp))"
      using order_trans [OF 1 assms(1)] order_trans [OF 1 assms(2)] by (simp_all only: mult.commute)
    then show ?thesis using g by simp
  next
    case 2
    then show ?thesis using assms(4) b by simp
  qed
qed

lemma mm_init_inv:
  assumes size: "8 \<le> unat pool_size" "gr \<noteq> 0" "unat gr \<le> 2 ^ 31"
    and bs: "bs \<noteq> 0" "unat bs + unat pool_size < 2 ^ 32"
    and arr: "pool_tracks mp pool_size gr"
  shows "\<exists>ma mi. pool_orders pool_size gr ma mi \<and> mi \<le> ma \<and>
     (if 3 \<le> mi then \<exists>mp'. mm_init mp bs pool_size gr st =
                Some (0, mp', st\<lparr>total_blocks := total_blocks st + 2 ^ (ma - mi)\<rparr>)
            \<and> mm_inv mp' [0 \<mapsto> (ma, True)] \<and> base mp' = bs \<and> omax mp' = ma \<and> omin mp' = mi
      else \<exists>mp'. mm_init mp bs pool_size gr st = Some (- ENOMEM, mp', st))"
proof -
  from init_orders [OF size] obtain ma mi where
    o: "mm_init_orders pool_size gr = (of_nat ma, of_nat mi, 3 \<le> mi)" "pool_orders pool_size gr ma mi"
    "3 \<le> ma" "mi \<le> ma" "ma \<le> 31" by blast
  show ?thesis
  proof (cases "3 \<le> mi")
    case False
    with o show ?thesis by (intro exI [of _ ma] exI [of _ mi]) (simp add: mm_init_def Let_def)
  next
    case True
    have um: "unat (of_nat ma :: u32) = ma" "unat (of_nat mi :: u32) = mi"
      using o by (simp_all add: unat_of_nat_order)
    have pw: "(2::nat) ^ ma = 2 ^ (ma - mi) * 2 ^ mi" using o(4) by (simp flip: power_add)
    have nb: "unat (mm_num_blocks_trackable (of_nat ma) (of_nat mi)) = 2 ^ (ma - mi)"
      using o(5) pw um o(4) by (simp add: mm_num_blocks_trackable_def unat_div unat_shl_uint)
    then have nbw: "mm_num_blocks_trackable (of_nat ma) (of_nat mi) = 2 ^ (ma - mi)"
      using o(5) by (simp add: word_unat_eq_iff unat_2p)
    have len: "2 ^ (ma - mi) \<le> length (alloc_order mp)" "2 ^ (ma - mi) \<le> 32 * length (blk_free mp)"
      using o(2) True arr unfolding pool_tracks_def by blast+
    then have "bits_to_longs (2 ^ (ma - mi)) \<le> length (blk_free mp)" by (simp add: bits_to_longs_def)
    from bitmap_zero_eq [OF this] obtain f where
      f: "bitmap_zero (2 ^ (ma - mi)) (blk_free mp) = Some f" "length f = length (blk_free mp)"
      "\<And>k. k < 2 ^ (ma - mi) \<Longrightarrow> \<not> bits_of f k" by blast
    define a0 where "a0 = replicate (2 ^ (ma - mi)) 0 @ drop (2 ^ (ma - mi)) (alloc_order mp)"
    have a0: "arr_zero (2 ^ (ma - mi)) (alloc_order mp) = Some a0" "length a0 = length (alloc_order mp)" "a0 \<noteq> []"
      using len(1) by (auto simp: a0_def arr_zero_def)
    define a where "a = a0[0 := ucast (of_nat ma :: u32)]"
    have a: "arr_set a0 0 (ucast (of_nat ma :: u32)) = Some a" "length a = length (alloc_order mp)"
      using a0 by (auto simp: a_def arr_set_def)
    have am: "unat (a ! 0) = ma" using a0(3) o(5) by (simp add: a_def ucast_of_nat_order)
    define mp1 where "mp1 = mp\<lparr>base := bs, max_order := of_nat ma, min_order := of_nat mi,
      links := mm_init_anchors (Suc ma) (links mp), n_blks := 2 ^ (ma - mi), blk_free := f, alloc_order := a,
      alloc_blks := 2 ^ (ma - mi)\<rparr>"
    have g1: "mm_geom mp1"
      using True o len bs a(2) f(2) nb by (auto simp: mp1_def mm_geom_def um nbw pool_orders_def)
    have i1: "mm_inv mp1 [0 \<mapsto> (ma, False)]"
      using init_state_inv [OF g1, of "links mp"] am f(3) by (simp add: mp1_def um)
    let ?st = "st\<lparr>total_blocks := total_blocks st + 2 ^ (ma - mi), used_blocks := used_blocks st + 2 ^ (ma - mi)\<rparr>"
    have lv: "live [0 \<mapsto> (ma, False)] - {(0, ma)} = {}" by (auto simp: live_def split: if_splits)
    have bm: "adr mp1 0 = bs" "omin mp1 = mi" by (simp_all add: adr_0 mp1_def um)
    from mm_free_inv [OF i1, of 0 ma ?st, unfolded lv bm] obtain mp2 B2 where
      r: "mm_free mp1 bs ?st = Some (mp2, st\<lparr>total_blocks := total_blocks st + 2 ^ (ma - mi)\<rparr>)"
      "mm_inv mp2 B2" "live B2 = {}" "same_pool mp1 mp2"
      by auto
    then have g2: "omax mp2 = ma" "omin mp2 = mi" "base mp2 = bs" by (auto simp: same_pool_def mp1_def um)
    have t2: "tiling ma mi B2" "coalesced ma B2" using r(2) g2 by (auto simp: mm_inv_def mm_core_def)
    moreover have "used ma mi B2 = 0" using r(3) used_0_iff [OF t2(1)] by (auto simp: live_def)
    ultimately have "B2 = [0 \<mapsto> (ma, True)]" by (rule coalesced_all_free)
    moreover have "mm_init mp bs pool_size gr st = Some (0, mp2, st\<lparr>total_blocks := total_blocks st + 2 ^ (ma - mi)\<rparr>)"
      using True o(5) f(1) a0(1) a(1) r(1) [unfolded mp1_def]
      by (simp add: mm_init_def o(1) Let_def um nb nbw unat_2p)
    ultimately show ?thesis using True o g2 r(2) by (intro exI [of _ ma] exI [of _ mi]) auto
  qed
qed

end
