(* ===== verification/Mm_Spec.thy ===== *)
theory Mm_Spec
  imports Mm_Free
begin

text \<open>
  The contract of the memory manager: a pool holds a set of blocks in use, each an address and an
  order.  \<^verbatim>\<open>mm_alloc\<close> adds a block that lies in the pool and overlaps no other, \<^verbatim>\<open>mm_free\<close>
  removes one, and every operation returns.  The contract is stated as a locale of its clients
  and shown for the model of \<^verbatim>\<open>lib/mm.c\<close>.
\<close>

section \<open>The contract\<close>

definition mm_holds :: "mm_pool \<Rightarrow> (u32 \<times> nat) set \<Rightarrow> bool" where
  "mm_holds mp S \<longleftrightarrow> (\<exists>B. mm_inv mp B \<and> S = (\<lambda>(off, k). (adr mp off, k)) ` live B)"

definition block_range :: "u32 \<times> nat \<Rightarrow> nat set" where
  "block_range b = {unat (fst b)..<unat (fst b) + 2 ^ snd b}"

definition in_pool :: "mm_pool \<Rightarrow> u32 \<times> nat \<Rightarrow> bool" where
  "in_pool mp b \<longleftrightarrow> block_range b \<subseteq> {unat (base mp)..<unat (base mp) + 2 ^ omax mp}
     \<and> omin mp \<le> snd b \<and> snd b \<le> omax mp \<and> 2 ^ snd b dvd unat (fst b) - unat (base mp)"

definition disjoint_blocks :: "(u32 \<times> nat) set \<Rightarrow> bool" where
  "disjoint_blocks S \<longleftrightarrow> (\<forall>b \<in> S. \<forall>c \<in> S. b \<noteq> c \<longrightarrow> block_range b \<inter> block_range c = {})"

lemma same_pool_adr: "same_pool mp mp' \<Longrightarrow> adr mp' = adr mp"
  by (simp add: same_pool_def adr_def fun_eq_iff)

lemma inv_bound:
  assumes "mm_inv mp B" "B off = Some (k, f)"
  shows "unat (adr mp off) = unat (base mp) + off" "off + 2 ^ k \<le> 2 ^ omax mp" "omin mp \<le> k" "k \<le> omax mp"
    "2 ^ k dvd off" "off < 2 ^ omax mp" "mm_geom mp"
proof -
  have core: "mm_core mp B {}" using assms(1) by (simp add: mm_inv_def)
  note b = mm_core_bound [OF core assms(2)] and g = mm_core_geom [OF core]
  show "unat (adr mp off) = unat (base mp) + off" using unat_adr [OF g] b(2) by simp
  show "off + 2 ^ k \<le> 2 ^ omax mp" "omin mp \<le> k" "k \<le> omax mp" "2 ^ k dvd off" "off < 2 ^ omax mp" "mm_geom mp"
    using b g by (auto simp: wf_block_def)
qed

lemma holds_in_pool:
  assumes "mm_holds mp S" "b \<in> S"
  shows "in_pool mp b"
proof -
  from assms obtain B off k where B: "mm_inv mp B" "B off = Some (k, False)" "b = (adr mp off, k)"
    by (auto simp: mm_holds_def live_def)
  from inv_bound [OF B(1,2)] B(3) show ?thesis by (auto simp: in_pool_def block_range_def)
qed

lemma holds_disjoint:
  assumes "mm_holds mp S"
  shows "disjoint_blocks S"
proof -
  from assms obtain B where B: "mm_inv mp B" "S = (\<lambda>(off, k). (adr mp off, k)) ` live B"
    by (auto simp: mm_holds_def)
  have t: "tiling (omax mp) (omin mp) B" using B(1) by (simp add: mm_inv_def mm_core_def)
  have "block_range (adr mp p, k) \<inter> block_range (adr mp q, l) = {}"
    if "B p = Some (k, False)" "B q = Some (l, False)" "p \<noteq> q" for p q k l
    using inv_bound(1) [OF B(1) that(1)] inv_bound(1) [OF B(1) that(2)] that(3)
      tiling_disj [OF t that(1,2)] tiling_disj [OF t that(2,1)]
    by (cases "p < q") (auto simp: block_range_def)
  then show ?thesis using B(2) by (fastforce simp: disjoint_blocks_def live_def)
qed

lemma holds_alloc:
  assumes "mm_holds mp S" "sz \<noteq> 0" "unat sz \<le> 2 ^ 31"
  shows "\<exists>r mp' st'. mm_alloc mp sz st = Some (r, mp', st') \<and>
    (if r = 0 then mp' = mp
     else \<exists>ord. fits_order mp sz ord \<and> (r, ord) \<notin> S \<and> mm_holds mp' (insert (r, ord) S) \<and> same_pool mp mp')"
proof -
  from assms(1) obtain B where B: "mm_inv mp B" "S = (\<lambda>(off, k). (adr mp off, k)) ` live B"
    by (auto simp: mm_holds_def)
  show ?thesis
    using B(1) assms(2,3)
  proof (cases rule: mm_alloc_cases [where st = st])
    case (success ord off mp' st')
    then obtain B' i where B': "mm_inv mp' B'" "live B' = insert (off, ord) (live B)" "same_pool mp mp'"
      "B off = Some (i, True)"
      by (auto simp: alloc_done_def)
    note b = inv_bound [OF B(1) B'(4)]
    have "adr mp off \<noteq> 0" using adr_nonzero b by blast
    moreover have "mm_holds mp' (insert (adr mp off, ord) S)"
      unfolding mm_holds_def using B' B(2) by (intro exI [of _ B']) (simp add: same_pool_adr)
    moreover have "(adr mp off, ord) \<notin> S"
    proof
      assume "(adr mp off, ord) \<in> S"
      then obtain p where p: "B p = Some (ord, False)" "adr mp off = adr mp p"
        using B(2) by (auto simp: live_def)
      then have "p = off" using adr_inj b inv_bound [OF B(1) p(1)] by metis
      with p B'(4) show False by simp
    qed
    ultimately show ?thesis using success B'(3) by (intro exI [of _ "adr mp off"] exI) auto
  qed auto
qed

lemma live_adr_inj:
  assumes "mm_inv mp B"
  shows "inj_on (\<lambda>(off, k). (adr mp off, k)) (live B)"
proof (rule inj_onI)
  fix x y assume "x \<in> live B" "y \<in> live B" "(\<lambda>(off, k). (adr mp off, k)) x = (\<lambda>(off, k). (adr mp off, k)) y"
  then obtain p q k where "x = (p, k)" "y = (q, k)" "B p = Some (k, False)" "B q = Some (k, False)" "adr mp p = adr mp q"
    by (auto simp: live_def)
  with adr_inj [of mp p q] inv_bound(6,7) [OF assms] show "x = y" by blast
qed

lemma holds_free:
  assumes "mm_holds mp S" "(a, k) \<in> S"
  shows "\<exists>mp'. mm_free mp a st = Some (mp', st\<lparr>used_blocks := used_blocks st - 2 ^ (k - omin mp)\<rparr>)
           \<and> mm_holds mp' (S - {(a, k)}) \<and> same_pool mp mp'"
proof -
  from assms obtain B off where B: "mm_inv mp B" "S = (\<lambda>(off, k). (adr mp off, k)) ` live B"
    "B off = Some (k, False)" "a = adr mp off"
    by (auto simp: mm_holds_def live_def)
  from mm_free_inv [OF B(1,3)] obtain mp' B' where
    f: "mm_free mp a st = Some (mp', st\<lparr>used_blocks := used_blocks st - 2 ^ (k - omin mp)\<rparr>)"
    "mm_inv mp' B'" "live B' = live B - {(off, k)}" "same_pool mp mp'" using B(4) by blast
  note inj = live_adr_inj [OF B(1)]
  have "(\<lambda>(off, k). (adr mp off, k)) ` (live B - {(off, k)}) = S - {(a, k)}"
    using B inj by (subst inj_on_image_set_diff [of _ "live B"]) (auto simp: live_def)
  with f show ?thesis unfolding mm_holds_def by (metis same_pool_adr)
qed


lemma holds_order:
  assumes "mm_holds mp S" "(a, k) \<in> S"
  shows "mm_blk_get_alloc_order mp a = Some (of_nat k)" "mm_blk_addr_valid mp a" "k \<le> 31" "k \<noteq> 0"
    "unat (mm_blk_idx mp a) < unat (n_blks mp)"
proof -
  from assms obtain B off where B: "mm_inv mp B" "B off = Some (k, False)" "a = adr mp off"
    by (auto simp: mm_holds_def live_def)
  have core: "mm_core mp B {}" using B(1) by (simp add: mm_inv_def)
  note b = mm_core_bound [OF core B(2)] and g = mm_core_geom [OF core]
  show "mm_blk_get_alloc_order mp a = Some (of_nat k)" "mm_blk_addr_valid mp a" "k \<le> 31"
    using get_order_block [OF core B(2)] adr_valid [OF g b(2)] b(4) B(3) by auto
  show "k \<noteq> 0" using b(5) g by (auto simp: mm_geom_def)
  show "unat (mm_blk_idx mp a) < unat (n_blks mp)"
    using blk_idx_adr [OF g b(2)] idx_less [OF g b(2)] g B(3) by (simp add: mm_geom_def)
qed

lemma holds_block_size:
  assumes "mm_holds mp S" "(a, k) \<in> S"
  shows "mm_block_size mp a = Some (2 ^ k)" "mm_addr_in_pool mp a = Some True"
proof -
  note o = holds_order [OF assms]
  have k: "unat (of_nat k :: u32) = k" using o(3) by (simp add: unat_of_nat_order)
  then have "(of_nat k :: u32) \<noteq> 0" using o(4) by auto
  then show inp: "mm_addr_in_pool mp a = Some True"
    using o by (simp add: mm_addr_in_pool_def word_less_nat_alt)
  show "mm_block_size mp a = Some (2 ^ k)"
    using inp o k by (simp add: mm_block_size_def shl_uint)
qed

lemma used_live:
  assumes "tiling ma mi B"
  shows "finite (live B)" "used ma mi B = (\<Sum>(off, k) \<in> live B. 2 ^ (k - mi))"
proof -
  have sub: "fst ` live B \<subseteq> {..<2 ^ ma}"
    using tiling_wf [OF assms] wf_block_less by (force simp: live_def)
  have inj: "inj_on fst (live B)" by (auto simp: inj_on_def live_def)
  then show fin: "finite (live B)" using sub finite_subset finite_imageD by blast
  have "used ma mi B = (\<Sum>off \<in> fst ` live B. weight mi (B off))"
    unfolding used_def using sub
    by (intro sum.mono_neutral_right) (auto simp: live_def image_iff)
  also have "\<dots> = (\<Sum>b \<in> live B. weight mi (B (fst b)))" by (rule sum.reindex [OF inj, unfolded comp_def])
  also have "\<dots> = (\<Sum>(off, k) \<in> live B. 2 ^ (k - mi))" by (rule sum.cong) (auto simp: live_def)
  finally show "used ma mi B = (\<Sum>(off, k) \<in> live B. 2 ^ (k - mi))" .
qed

lemma holds_count:
  assumes "mm_holds mp S"
  shows "finite S" "unat (alloc_blks mp) = (\<Sum>(a, k) \<in> S. 2 ^ (k - omin mp))"
proof -
  from assms obtain B where B: "mm_inv mp B" "S = (\<lambda>(off, k). (adr mp off, k)) ` live B"
    by (auto simp: mm_holds_def)
  have t: "tiling (omax mp) (omin mp) B" using B(1) by (simp add: mm_inv_def mm_core_def)
  from used_live(1) [OF t] B(2) show "finite S" by simp
  note inj = live_adr_inj [OF B(1)]
  have "(\<Sum>(a, k) \<in> S. 2 ^ (k - omin mp)) = (\<Sum>(off, k) \<in> live B. (2::nat) ^ (k - omin mp))"
    unfolding B(2) by (subst sum.reindex [OF inj]) (auto intro: sum.cong)
  with used_live(2) [OF t] B(1) show "unat (alloc_blks mp) = (\<Sum>(a, k) \<in> S. 2 ^ (k - omin mp))"
    by (simp add: mm_inv_def)
qed

lemma holds_empty:
  assumes "mm_holds mp {}"
  shows "mm_inv mp [0 \<mapsto> (omax mp, True)]"
proof -
  from assms obtain B where B: "mm_inv mp B" "live B = {}" by (auto simp: mm_holds_def)
  have t: "tiling (omax mp) (omin mp) B" "coalesced (omax mp) B" using B(1) by (simp_all add: mm_inv_def mm_core_def)
  moreover have "used (omax mp) (omin mp) B = 0" using B(2) used_0_iff [OF t(1)] by (auto simp: live_def)
  ultimately have "B = [0 \<mapsto> (omax mp, True)]" by (rule coalesced_all_free)
  with B(1) show ?thesis by simp
qed

lemma holds_init: "mm_inv mp [0 \<mapsto> (ma, True)] \<Longrightarrow> mm_holds mp {}"
  unfolding mm_holds_def by (rule exI [of _ "[0 \<mapsto> (ma, True)]"]) (auto simp: live_def split: if_splits)


section \<open>The interface for the clients of a pool\<close>

text \<open>
  What \<^verbatim>\<open>lib/page.c\<close> and \<^verbatim>\<open>lib/chunk.c\<close> rely on: a representation relation, an allocation that either
  refuses or hands out a fresh block, and a release.
\<close>

locale block_store =
  fixes holds :: "'p \<Rightarrow> (u32 \<times> nat) set \<Rightarrow> bool"
    and alloc :: "'p \<Rightarrow> u32 \<Rightarrow> 's \<Rightarrow> (u32 \<times> 'p \<times> 's) option"
    and release :: "'p \<Rightarrow> u32 \<Rightarrow> 's \<Rightarrow> ('p \<times> 's) option"
    and fits :: "'p \<Rightarrow> u32 \<Rightarrow> nat \<Rightarrow> bool"
  assumes alloc_law: "holds p S \<Longrightarrow> sz \<noteq> 0 \<Longrightarrow> unat sz \<le> 2 ^ 31 \<Longrightarrow>
      \<exists>r p' s'. alloc p sz s = Some (r, p', s') \<and>
        (if r = 0 then holds p' S
         else \<exists>ord. fits p sz ord \<and> unat sz \<le> 2 ^ ord \<and> (r, ord) \<notin> S \<and> holds p' (insert (r, ord) S))"
    and release_law: "holds p S \<Longrightarrow> (a, k) \<in> S \<Longrightarrow>
      \<exists>p' s'. release p a s = Some (p', s') \<and> holds p' (S - {(a, k)})"
    and disjoint_law: "holds p S \<Longrightarrow> disjoint_blocks S"
begin

lemma alloc_fresh:
  assumes "holds p S" "sz \<noteq> 0" "unat sz \<le> 2 ^ 31" "alloc p sz s = Some (r, p', s')" "r \<noteq> 0"
  shows "\<exists>ord. unat sz \<le> 2 ^ ord \<and> holds p' (insert (r, ord) S)
           \<and> (\<forall>b \<in> S. block_range b \<inter> block_range (r, ord) = {})"
proof -
  from alloc_law [OF assms(1-3), of s] assms(4,5) obtain ord where
    o: "unat sz \<le> 2 ^ ord" "(r, ord) \<notin> S" "holds p' (insert (r, ord) S)" by auto
  with disjoint_law [OF o(3)] show ?thesis
    by (intro exI [of _ ord]) (auto simp: disjoint_blocks_def)
qed

lemma alloc_release:
  assumes "holds p S" "sz \<noteq> 0" "unat sz \<le> 2 ^ 31" "alloc p sz s = Some (r, p', s')" "r \<noteq> 0"
  shows "\<exists>p'' s''. release p' r s' = Some (p'', s'') \<and> holds p'' S"
proof -
  from alloc_law [OF assms(1-3), of s] assms(4,5) obtain ord where
    o: "(r, ord) \<notin> S" "holds p' (insert (r, ord) S)" by auto
  from release_law [OF o(2), of r ord s'] o(1) show ?thesis by (auto simp: insert_Diff_if)
qed

end

interpretation mm: block_store mm_holds mm_alloc mm_free fits_order
proof
  fix p S and sz :: u32 and s :: mm_stat assume a: "mm_holds p S" "sz \<noteq> 0" "unat sz \<le> 2 ^ 31"
  from holds_alloc [OF a, of s] a(1)
  show "\<exists>r p' s'. mm_alloc p sz s = Some (r, p', s') \<and> (if r = 0 then mm_holds p' S
      else \<exists>ord. fits_order p sz ord \<and> unat sz \<le> 2 ^ ord \<and> (r, ord) \<notin> S \<and> mm_holds p' (insert (r, ord) S))"
    by (fastforce simp: fits_order_def split: if_splits)
next
  fix p S a k and s :: mm_stat assume "mm_holds p S" "(a, k) \<in> S"
  from holds_free [OF this] show "\<exists>p' s'. mm_free p a s = Some (p', s') \<and> mm_holds p' (S - {(a, k)})" by blast
next
  fix p S assume "mm_holds p S"
  then show "disjoint_blocks S" by (rule holds_disjoint)
qed

section \<open>Runs\<close>

text \<open>
  The states a pool goes through: initialised once, then any sequence of allocations (of up to
  \<^verbatim>\<open>2^31\<close> bytes, the largest power of two of a 32 bit machine) and releases of blocks in use.
\<close>

inductive mm_reach :: "mm_pool \<Rightarrow> (u32 \<times> nat) set \<Rightarrow> bool" where
  initialised: "mm_init mp bs psz gr st = Some (0, mp', st') \<Longrightarrow> 8 \<le> unat psz \<Longrightarrow> gr \<noteq> 0 \<Longrightarrow> unat gr \<le> 2 ^ 31
    \<Longrightarrow> bs \<noteq> 0 \<Longrightarrow> unat bs + unat psz < 2 ^ 32 \<Longrightarrow> pool_tracks mp psz gr \<Longrightarrow> mm_reach mp' {}"
| allocated: "mm_reach mp S \<Longrightarrow> sz \<noteq> 0 \<Longrightarrow> unat sz \<le> 2 ^ 31 \<Longrightarrow> mm_alloc mp sz st = Some (r, mp', st') \<Longrightarrow> r \<noteq> 0
    \<Longrightarrow> mm_blk_get_alloc_order mp' r = Some ord \<Longrightarrow> mm_reach mp' (insert (r, unat ord) S)"
| refused: "mm_reach mp S \<Longrightarrow> unat sz \<le> 2 ^ 31 \<Longrightarrow> mm_alloc mp sz st = Some (0, mp', st') \<Longrightarrow> mm_reach mp' S"
| released: "mm_reach mp S \<Longrightarrow> (a, k) \<in> S \<Longrightarrow> mm_free mp a st = Some (mp', st') \<Longrightarrow> mm_reach mp' (S - {(a, k)})"

lemma mm_reach_holds: "mm_reach mp S \<Longrightarrow> mm_holds mp S"
proof (induction rule: mm_reach.induct)
  case (initialised mp bs psz gr st mp' st')
  from mm_init_inv [OF initialised(2-7), of st] initialised(1) show ?case
    by (auto split: if_splits intro: holds_init)
next
  case (allocated mp S sz st r mp' st' ord)
  from holds_alloc [OF allocated.IH allocated.hyps(2,3), of st] allocated.hyps(4,5) obtain o' where
    o: "mm_holds mp' (insert (r, o') S)" by auto
  from holds_order [OF o, of r o'] allocated.hyps(6) have "unat ord = o'" by (auto simp: unat_of_nat_order)
  with o show ?case by simp
next
  case (refused mp S sz st mp' st')
  show ?case
  proof (cases "sz = 0")
    case True
    with refused show ?thesis by (simp add: mm_alloc_def)
  next
    case False
    from holds_alloc [OF refused.IH False refused.hyps(2), of st] refused.hyps(3) refused.IH show ?thesis by auto
  qed
next
  case (released mp S a k st mp' st')
  from holds_free [OF released.IH released.hyps(2), of st] released.hyps(3) show ?case by auto
qed


section \<open>A small pool\<close>

text \<open>A pool of 128 bytes in units of 8 at \<^verbatim>\<open>0x40000000\<close>, on which the theorems are applied.\<close>

definition demo_pool :: mm_pool where
  "demo_pool = \<lparr>base = 0, max_order = 0, min_order = 0, n_blks = 0, alloc_blks = 0,
     alloc_order = replicate 16 0, blk_free = [0], links = \<lparr>nxt = \<lambda>_. None, prv = \<lambda>_. None\<rparr>\<rparr>"

definition demo_stat :: mm_stat where
  "demo_stat = \<lparr>total_blocks = 0, used_blocks = 0, alloc_fail = 0\<rparr>"

abbreviation demo_base :: u32 where "demo_base \<equiv> 0x40000000"

lemma demo_init:
  "\<exists>mp st. mm_init demo_pool demo_base 128 8 demo_stat = Some (0, mp, st) \<and> mm_inv mp [0 \<mapsto> (7, True)]
     \<and> omax mp = 7 \<and> omin mp = 3 \<and> base mp = demo_base"
proof -
  have "pool_tracks demo_pool 128 8" by (rule pool_tracks_bytes) (simp_all add: demo_pool_def)
  then obtain ma mi where
    o: "pool_orders 128 8 ma mi" and r: "if 3 \<le> mi then \<exists>mp'. mm_init demo_pool demo_base 128 8 demo_stat =
            Some (0, mp', demo_stat\<lparr>total_blocks := total_blocks demo_stat + 2 ^ (ma - mi)\<rparr>)
            \<and> mm_inv mp' [0 \<mapsto> (ma, True)] \<and> base mp' = demo_base \<and> omax mp' = ma \<and> omin mp' = mi
        else \<exists>mp'. mm_init demo_pool demo_base 128 8 demo_stat = Some (- ENOMEM, mp', demo_stat)"
    using mm_init_inv [of 128 8 demo_base demo_pool demo_stat] by auto
  from o have p: "(2::nat) ^ ma \<le> 2 ^ 7" "(2::nat) ^ 7 < 2 ^ Suc ma"
    by (auto simp: pool_orders_def)
  then have "ma \<le> 7" "7 < Suc ma"
    by (simp_all only: power_increasing_iff power_strict_increasing_iff one_less_numeral_iff semiring_norm)
  then have ma: "ma = 7" by simp
  from o obtain m where m: "(8::nat) \<le> 2 ^ m" "\<And>j. (8::nat) \<le> 2 ^ j \<Longrightarrow> m \<le> j" "mi = (if m \<le> 7 then m else 6)"
    unfolding pool_orders_def by (auto simp: ma)
  have "m = 3" using m(1) m(2) [of 3] unfolding three_le_power by simp
  with m(3) have "mi = 3" by simp
  with r ma show ?thesis by auto
qed

lemma demo_eval:
  "(case mm_init demo_pool demo_base 128 8 demo_stat of None \<Rightarrow> False | Some (c, mp, st) \<Rightarrow>
    (case mm_alloc mp 8 st of None \<Rightarrow> False | Some (r, mp', st') \<Rightarrow>
       c = 0 \<and> r = demo_base \<and> mm_blk_get_alloc_order mp' r = Some 3))"
  by code_simp

lemma demo_one_block:
  "\<exists>mp st mp' st'. mm_init demo_pool demo_base 128 8 demo_stat = Some (0, mp, st) \<and> mm_reach mp {}
     \<and> omin mp = 3 \<and> omax mp = 7 \<and> base mp = demo_base
     \<and> mm_alloc mp 8 st = Some (demo_base, mp', st') \<and> mm_reach mp' {(demo_base, 3)}"
proof -
  from demo_init obtain mp st where
    i: "mm_init demo_pool demo_base 128 8 demo_stat = Some (0, mp, st)" "omin mp = 3" "omax mp = 7" "base mp = demo_base"
    by blast
  from demo_eval obtain mp' st' where
    a: "mm_alloc mp 8 st = Some (demo_base, mp', st')" "mm_blk_get_alloc_order mp' demo_base = Some 3"
    by (auto simp: i(1) split: option.splits)
  have r: "mm_reach mp {}"
    by (rule mm_reach.initialised [OF i(1)]) (simp_all add: demo_pool_def pool_tracks_bytes)
  have "mm_reach mp' (insert (demo_base, unat (3 :: u32)) {})"
    by (rule mm_reach.allocated [OF r _ _ a(1) _ a(2)]) simp_all
  with i a(1) r show ?thesis by auto
qed

section \<open>Properties\<close>

text \<open>C1: in every state a pool can reach, the blocks in use are pairwise disjoint, aligned and inside
  the pool, and the counter of the pool is the number of minimal units they hold.\<close>

theorem mm_reach_safe:
  assumes "mm_reach mp S"
  shows "disjoint_blocks S \<and> (\<forall>b \<in> S. in_pool mp b)
    \<and> unat (mm_allocated_blocks mp) = (\<Sum>(a, k) \<in> S. 2 ^ (k - unat (min_order mp)))"
  using mm_reach_holds [OF assms] holds_disjoint holds_in_pool holds_count(2)
  by (simp add: mm_allocated_blocks_def)

theorem mm_reach_safe_witness:
  "\<exists>mp. mm_reach mp {(demo_base, 3)} \<and> disjoint_blocks {(demo_base, 3)} \<and> in_pool mp (demo_base, 3)"
proof -
  from demo_one_block obtain mp where r: "mm_reach mp {(demo_base, 3)}" by blast
  from mm_reach_safe [OF r] r show ?thesis by auto
qed

text \<open>C2: \<^verbatim>\<open>mm_alloc\<close> always returns.  It refuses, leaving the pool as it was, or it returns a block of the
  least order that holds the request, inside the pool, aligned, and disjoint from every block in use, which all
  stay in use.\<close>

theorem mm_alloc_correct:
  assumes "mm_reach mp S" "sz \<noteq> 0" "unat sz \<le> 2 ^ 31"
  shows "\<exists>r mp' st'. mm_alloc mp sz st = Some (r, mp', st') \<and>
    (r = 0 \<and> mp' = mp \<or>
     (\<exists>ord. fits_order mp sz ord \<and> mm_reach mp' (insert (r, ord) S) \<and> in_pool mp (r, ord)
        \<and> (\<forall>b \<in> S. block_range b \<inter> block_range (r, ord) = {})))"
proof -
  note h = mm_reach_holds [OF assms(1)]
  from holds_alloc [OF h assms(2,3), of st] obtain r mp' st' where
    r: "mm_alloc mp sz st = Some (r, mp', st')" and
    c: "if r = 0 then mp' = mp else \<exists>ord. fits_order mp sz ord \<and> (r, ord) \<notin> S \<and> mm_holds mp' (insert (r, ord) S)
          \<and> same_pool mp mp'" by blast
  show ?thesis
  proof (cases "r = 0")
    case True
    with r c show ?thesis by auto
  next
    case False
    with c obtain ord where o: "fits_order mp sz ord" "(r, ord) \<notin> S" "mm_holds mp' (insert (r, ord) S)" "same_pool mp mp'"
      by auto
    have g: "mm_blk_get_alloc_order mp' r = Some (of_nat ord)" "ord \<le> 31" using holds_order [OF o(3), of r ord] by auto
    have "mm_reach mp' (insert (r, unat (of_nat ord :: u32)) S)"
      by (rule mm_reach.allocated [OF assms r False g(1)])
    moreover have "in_pool mp (r, ord)"
      using holds_in_pool [OF o(3), of "(r, ord)"] o(4) by (simp add: in_pool_def same_pool_def)
    moreover have "\<forall>b \<in> S. block_range b \<inter> block_range (r, ord) = {}"
      using holds_disjoint [OF o(3)] o(2) by (auto simp: disjoint_blocks_def)
    ultimately show ?thesis using r o(1) g(2) by (auto simp: unat_of_nat_order)
  qed
qed

theorem mm_alloc_correct_witness:
  "\<exists>mp st r mp' st'. mm_reach mp {(demo_base, 3)} \<and> mm_alloc mp 20 st = Some (r, mp', st')
     \<and> (r = 0 \<and> mp' = mp \<or> (\<exists>ord. fits_order mp 20 ord \<and> mm_reach mp' {(r, ord), (demo_base, 3)}))"
proof -
  from demo_one_block obtain mp where r: "mm_reach mp {(demo_base, 3)}" by blast
  from mm_alloc_correct [OF r, of 20 demo_stat] r show ?thesis by simp blast
qed

text \<open>A request is refused only when it exceeds the pool, or when blocks are in use and no free block
  other than the one at the base of the pool is large enough.\<close>

theorem mm_alloc_refused:
  assumes "mm_inv mp B" "sz \<noteq> 0" "unat sz \<le> 2 ^ 31" "mm_alloc mp sz st = Some (0, mp', st')"
  shows "\<exists>ord. fits_order mp sz ord \<and> (omax mp < ord \<or>
     live B \<noteq> {} \<and> alloc_fail st' = 1 \<and> (\<forall>off i. off \<noteq> 0 \<longrightarrow> B off = Some (i, True) \<longrightarrow> i < ord))"
  using assms(1-3)
proof (cases rule: mm_alloc_cases [where st = st])
  case (success ord off mp'' st'')
  then obtain i where "B off = Some (i, True)" by (auto simp: alloc_done_def)
  from inv_bound(6,7) [OF assms(1) this] adr_nonzero success(3) assms(4) show ?thesis by auto
qed (use assms(4) in auto)

theorem mm_alloc_refused_witness:
  "\<exists>mp st mp' st'. mm_inv mp [0 \<mapsto> (7, True)] \<and> mm_alloc mp 129 st = Some (0, mp', st') \<and> (\<exists>ord. fits_order mp 129 ord \<and> 7 < ord)"
proof -
  from demo_init obtain mp st where
    i: "mm_init demo_pool demo_base 128 8 demo_stat = Some (0, mp, st)" "mm_inv mp [0 \<mapsto> (7, True)]" "omax mp = 7" by blast
  have "(case mm_init demo_pool demo_base 128 8 demo_stat of None \<Rightarrow> False | Some (c, mp, st) \<Rightarrow>
    (case mm_alloc mp 129 st of None \<Rightarrow> False | Some (r, mp', st') \<Rightarrow> r = 0))" by code_simp
  then obtain mp' st' where a: "mm_alloc mp 129 st = Some (0, mp', st')" by (auto simp: i(1) split: option.splits)
  moreover have "live [0 \<mapsto> (7, True)] = {}" by (auto simp: live_def split: if_splits)
  ultimately show ?thesis using mm_alloc_refused [OF i(2) _ _ a] i(2,3) by auto
qed

text \<open>
  What the order array and the bitmap say: reading the pool from its base on, the blocks with their orders and whether
  they are free.  A block is as long as its entry in the order array says, so no entry inside of a block is read.
\<close>

fun read_blocks :: "nat \<Rightarrow> mm_pool \<Rightarrow> nat \<Rightarrow> (u32 \<times> nat \<times> bool) list" where
  "read_blocks 0 mp off = []"
| "read_blocks (Suc n) mp off =
     (if 2 ^ omax mp \<le> off then []
      else
        let i = off div 2 ^ omin mp; k = unat (alloc_order mp ! i)
        in (base mp + of_nat off, k, bits_of (blk_free mp) i) # read_blocks n mp (off + 2 ^ k))"

definition pool_blocks :: "mm_pool \<Rightarrow> (u32 \<times> nat \<times> bool) list" where
  "pool_blocks mp = read_blocks (2 ^ (omax mp - omin mp)) mp 0"

definition blocks_used :: "mm_pool \<Rightarrow> (u32 \<times> nat) set" where
  "blocks_used mp = {(a, k). (a, k, False) \<in> set (pool_blocks mp)}"

definition blocks_free :: "mm_pool \<Rightarrow> (u32 \<times> nat) set" where
  "blocks_free mp = {(a, k). (a, k, True) \<in> set (pool_blocks mp)}"

lemma tiling_next:
  assumes "tiling ma mi B" "B off = Some (k, f)" "off + 2 ^ k < 2 ^ ma"
  shows "B (off + 2 ^ k) \<noteq> None"
proof -
  from tiling_cover [OF assms(1,3)] obtain p l g where p: "B p = Some (l, g)" "p \<le> off + 2 ^ k" "off + 2 ^ k < p + 2 ^ l" by blast
  consider "p < off" | "p = off" | "off < p" by linarith
  then show ?thesis
  proof cases
    case 1
    from tiling_disj [OF assms(1) p(1) assms(2) 1] p(3) show ?thesis by simp
  next
    case 2
    then show ?thesis using p(1,3) assms(2) by simp
  next
    case 3
    from tiling_disj [OF assms(1,2) p(1) 3] p(2) have "p = off + 2 ^ k" by simp
    then show ?thesis using p(1) by simp
  qed
qed

lemma read_blocks_eq:
  assumes "mm_core mp B {}" "2 ^ omax mp \<le> off + n * 2 ^ omin mp" "off < 2 ^ omax mp \<Longrightarrow> B off \<noteq> None"
  shows "set (read_blocks n mp off) = {(adr mp p, k, f) |p k f. off \<le> p \<and> B p = Some (k, f)}"
  using assms(2,3)
proof (induction n arbitrary: off)
  case 0
  then show ?case using mm_core_bound(2) [OF assms(1)] by fastforce
next
  case (Suc n)
  note t = mm_core_tiling [OF assms(1)]
  show ?case
  proof (cases "2 ^ omax mp \<le> off")
    case True
    then show ?thesis using mm_core_bound(2) [OF assms(1)] by fastforce
  next
    case False
    then obtain k f where b: "B off = Some (k, f)" using Suc.prems(2) by fastforce
    note o = mm_core_bound [OF assms(1) b]
    have r: "unat (alloc_order mp ! (off div 2 ^ omin mp)) = k" "bits_of (blk_free mp) (off div 2 ^ omin mp) = f"
      using assms(1) b o(2,3) by (auto simp: mm_core_def)
    have "(2 :: nat) ^ omin mp \<le> 2 ^ k" using o(5) by simp
    moreover have "2 ^ omax mp \<le> off + (2 ^ omin mp + n * 2 ^ omin mp)" using Suc.prems(1) by simp
    ultimately have "2 ^ omax mp \<le> off + 2 ^ k + n * 2 ^ omin mp" by linarith
    then have IH: "set (read_blocks n mp (off + 2 ^ k)) = {(adr mp p, l, g) |p l g. off + 2 ^ k \<le> p \<and> B p = Some (l, g)}"
      using tiling_next [OF t b] by (intro Suc.IH) auto
    have "p = off \<or> off + 2 ^ k \<le> p" if "off \<le> p" "B p = Some (l, g)" for p l g
      using tiling_disj [OF t b that(2)] that(1) by (cases "p = off") auto
    then have "{(adr mp p, l, g) |p l g. off \<le> p \<and> B p = Some (l, g)} = insert (adr mp off, k, f) (set (read_blocks n mp (off + 2 ^ k)))"
      unfolding IH using b by fastforce
    then show ?thesis using False r by (simp add: Let_def adr_def)
  qed
qed

lemma pool_blocks_eq:
  assumes "mm_inv mp B"
  shows "set (pool_blocks mp) = {(adr mp p, k, f) |p k f. B p = Some (k, f)}"
proof -
  have core: "mm_core mp B {}" using assms by (simp add: mm_inv_def)
  note t = mm_core_tiling [OF core] and g = mm_core_geom [OF core]
  from tiling_cover [OF t, of 0] have "B 0 \<noteq> None" by auto
  moreover have "2 ^ (omax mp - omin mp) * 2 ^ omin mp = (2 :: nat) ^ omax mp" using g by (simp add: mm_geom_def flip: power_add)
  ultimately show ?thesis using read_blocks_eq [OF core, of 0 "2 ^ (omax mp - omin mp)"] by (simp add: pool_blocks_def)
qed

lemma blocks_sets:
  assumes "mm_inv mp B"
  shows "blocks_used mp = (\<lambda>(off, k). (adr mp off, k)) ` live B" "blocks_free mp = {(adr mp p, k) |p k. B p = Some (k, True)}"
  using pool_blocks_eq [OF assms] by (auto simp: blocks_used_def blocks_free_def live_def)

lemma holds_used: "mm_holds mp S \<Longrightarrow> blocks_used mp = S"
  using blocks_sets(1) by (auto simp: mm_holds_def)


lemma no_free_buddies:
  assumes "mm_inv mp B" "(a, k) \<in> blocks_free mp" "k < omax mp"
  shows "(mm_find_neighbour mp a (of_nat k), k) \<notin> blocks_free mp"
proof
  assume n: "(mm_find_neighbour mp a (of_nat k), k) \<in> blocks_free mp"
  have core: "mm_core mp B {}" and co: "coalesced (omax mp) B" using assms(1) by (simp_all add: mm_inv_def)
  obtain p where p: "a = adr mp p" "B p = Some (k, True)" using assms(2) blocks_sets(2) [OF assms(1)] by auto
  obtain q where q: "mm_find_neighbour mp a (of_nat k) = adr mp q" "B q = Some (k, True)" using n blocks_sets(2) [OF assms(1)] by auto
  note b = mm_core_bound [OF core p(2)] and g = mm_core_geom [OF core]
  have wf: "wf_block (omax mp) (omin mp) p k" by (rule b(1))
  have "buddy p k < 2 ^ omax mp" by (rule wf_block_less [OF buddy_in_pool [OF wf assms(3)]])
  then have "buddy p k = q" using neighbour_adr [OF g wf assms(3)] adr_inj [OF g] p(1) q mm_core_bound(2) [OF core q(2)] by metis
  then show False using co assms(3) p(2) q(2) unfolding coalesced_def by blast
qed

text \<open>C3: \<^verbatim>\<open>mm_free\<close> of a block in use always returns.  The blocks in use that the order array and the bitmap show
  afterwards are those they showed before, without this one; all of its bytes are in free blocks; and buddies are merged:
  no free block has a neighbour of the same order that is free too.\<close>

theorem mm_free_correct:
  assumes "mm_reach mp S" "(a, k) \<in> S"
  shows "\<exists>mp'. mm_free mp a st = Some (mp', st\<lparr>used_blocks := used_blocks st - 2 ^ (k - unat (min_order mp))\<rparr>)
     \<and> mm_reach mp' (S - {(a, k)}) \<and> blocks_used mp = S \<and> blocks_used mp' = S - {(a, k)}
     \<and> block_range (a, k) \<subseteq> (\<Union>b \<in> blocks_free mp'. block_range b)
     \<and> (\<forall>(b, j) \<in> blocks_free mp'. j < omax mp' \<longrightarrow> (mm_find_neighbour mp' b (of_nat j), j) \<notin> blocks_free mp')"
proof -
  obtain mp' where f: "mm_free mp a st = Some (mp', st\<lparr>used_blocks := used_blocks st - 2 ^ (k - omin mp)\<rparr>)"
    "mm_holds mp' (S - {(a, k)})" "same_pool mp mp'" using holds_free [OF mm_reach_holds [OF assms(1)] assms(2), of st] by blast
  obtain B where B: "mm_inv mp' B" "S - {(a, k)} = (\<lambda>(off, k). (adr mp' off, k)) ` live B" using f(2) by (auto simp: mm_holds_def)
  obtain C off where C: "mm_inv mp C" "S = (\<lambda>(off, k). (adr mp off, k)) ` live C" "C off = Some (k, False)" "a = adr mp off"
    using mm_reach_holds [OF assms(1)] assms(2) by (auto simp: mm_holds_def live_def)
  have adr: "adr mp' = adr mp" by (rule same_pool_adr [OF f(3)])
  have geo: "omax mp' = omax mp" "base mp' = base mp" using f(3) by (simp_all add: same_pool_def)
  note co = inv_bound [OF C(1,3)] and tC = mm_core_tiling [of mp C "{}"] and tB = mm_core_tiling [of mp' B "{}"]
  have "block_range (a, k) \<subseteq> (\<Union>b \<in> blocks_free mp'. block_range b)"
  proof
    fix x assume x: "x \<in> block_range (a, k)"
    define y where "y = x - unat (base mp)"
    have y: "x = unat (base mp) + y" "off \<le> y" "y < off + 2 ^ k" using x co(1) C(4) by (auto simp: block_range_def y_def)
    have "y < 2 ^ omax mp'" using y(3) co(2) geo(1) by simp
    then obtain p l g where p: "B p = Some (l, g)" "p \<le> y" "y < p + 2 ^ l" using tiling_cover [OF tB] B(1) by (meson mm_inv_def)
    have up: "unat (adr mp p) = unat (base mp) + p" using inv_bound(1) [OF B(1) p(1)] adr geo(2) by simp
    have "g"
    proof (rule ccontr)
      assume "\<not> g"
      then have "(adr mp p, l) \<in> S - {(a, k)}" unfolding B(2) adr using p(1) by (force simp: live_def)
      then have "block_range (adr mp p, l) \<inter> block_range (a, k) = {}"
        using holds_disjoint [OF mm_reach_holds [OF assms(1)]] assms(2) by (auto simp: disjoint_blocks_def)
      moreover have "x \<in> block_range (adr mp p, l)" using p(2,3) y(1) up by (simp add: block_range_def)
      ultimately show False using x by blast
    qed
    then have "(adr mp p, l) \<in> blocks_free mp'" using p(1) blocks_sets(2) [OF B(1)] adr by auto
    moreover have "x \<in> block_range (adr mp p, l)" using p(2,3) y(1) up by (simp add: block_range_def)
    ultimately show "x \<in> (\<Union>b \<in> blocks_free mp'. block_range b)" by blast
  qed
  then show ?thesis using f mm_reach.released [OF assms f(1)] no_free_buddies [OF B(1)] holds_used [OF mm_reach_holds [OF assms(1)]] holds_used [OF f(2)]
    by (intro exI [of _ mp']) auto
qed

theorem mm_free_correct_witness:
  "\<exists>mp st mp' st'. mm_reach mp {(demo_base, 3)} \<and> mm_free mp demo_base st = Some (mp', st') \<and> blocks_used mp = {(demo_base, 3)}
     \<and> blocks_used mp' = {}"
proof -
  from demo_one_block obtain mp where r: "mm_reach mp {(demo_base, 3)}" by blast
  from mm_free_correct [OF r, of demo_base 3 demo_stat] r show ?thesis by simp blast
qed

text \<open>\<^verbatim>\<open>mm_free\<close> of \<^verbatim>\<open>NULL\<close>, of an address outside the pool and of a free block changes nothing.\<close>

theorem mm_free_ignored:
  assumes "mm_inv mp B" "a = 0 \<or> \<not> mm_blk_addr_valid mp a \<or> (\<exists>off k. a = adr mp off \<and> B off = Some (k, True))"
  shows "mm_free mp a st = Some (mp, st)"
proof (cases "a = 0 \<or> \<not> mm_blk_addr_valid mp a")
  case True
  then show ?thesis by (auto simp: mm_free_def)
next
  case False
  with assms(2) obtain off k where b: "a = adr mp off" "B off = Some (k, True)" by blast
  have core: "mm_core mp B {}" using assms(1) by (simp add: mm_inv_def)
  from blk_free_adr [OF core mm_core_bound(2,3) [OF core b(2)]] b False show ?thesis by (simp add: mm_free_def)
qed

theorem mm_free_ignored_witness:
  "\<exists>mp st. mm_inv mp [0 \<mapsto> (7, True)] \<and> mm_free mp demo_base st = Some (mp, st)"
proof -
  from demo_init obtain mp st where i: "mm_inv mp [0 \<mapsto> (7, True)]" "base mp = demo_base" by blast
  have "demo_base = adr mp 0 \<and> [0 \<mapsto> (7::nat, True)] 0 = Some (7, True)" using i(2) by (simp add: adr_0)
  then have "\<exists>off k. demo_base = adr mp off \<and> [0 \<mapsto> (7::nat, True)] off = Some (k, True)" by blast
  with mm_free_ignored [OF i(1)] i(1) show ?thesis by blast
qed

text \<open>\<^verbatim>\<open>mm_init\<close> accepts a pool unless its smallest unit would not hold a link, and then leaves the
  whole pool as one free block, with nothing counted as used.\<close>

theorem mm_init_correct:
  assumes "8 \<le> unat psz" "gr \<noteq> 0" "unat gr \<le> 2 ^ 31" "bs \<noteq> 0" "unat bs + unat psz < 2 ^ 32"
    and "pool_tracks mp psz gr"
  shows "\<exists>ma mi c mp' st'. pool_orders psz gr ma mi \<and> mm_init mp bs psz gr st = Some (c, mp', st')
     \<and> (if 3 \<le> mi then c = 0 \<and> mm_reach mp' {} \<and> mm_inv mp' [0 \<mapsto> (ma, True)] \<and> alloc_blks mp' = 0
          \<and> base mp' = bs \<and> omax mp' = ma \<and> omin mp' = mi
        else c = - ENOMEM \<and> st' = st)"
proof -
  from mm_init_inv [OF assms, of st] obtain ma mi where
    o: "pool_orders psz gr ma mi" and r: "if 3 \<le> mi then \<exists>mp'. mm_init mp bs psz gr st =
                Some (0, mp', st\<lparr>total_blocks := total_blocks st + 2 ^ (ma - mi)\<rparr>)
            \<and> mm_inv mp' [0 \<mapsto> (ma, True)] \<and> base mp' = bs \<and> omax mp' = ma \<and> omin mp' = mi
      else \<exists>mp'. mm_init mp bs psz gr st = Some (- ENOMEM, mp', st)" by blast
  show ?thesis
  proof (cases "3 \<le> mi")
    case True
    with r obtain mp' st' where i: "mm_init mp bs psz gr st = Some (0, mp', st')" "mm_inv mp' [0 \<mapsto> (ma, True)]"
      "base mp' = bs" "omax mp' = ma" "omin mp' = mi" by auto
    have "mm_reach mp' {}" by (rule mm_reach.initialised [OF i(1) assms])
    moreover have "alloc_blks mp' = 0"
      using holds_count(2) [OF holds_init [OF i(2)]] by (simp add: unat_eq_zero)
    ultimately show ?thesis using True o i by auto
  next
    case False
    with r obtain mp' where "mm_init mp bs psz gr st = Some (- ENOMEM, mp', st)" by auto
    with False o show ?thesis by (intro exI [of _ ma] exI [of _ mi] exI) auto
  qed
qed

theorem mm_init_correct_witness:
  "\<exists>ma mi c mp' st'. pool_orders 128 8 ma mi \<and> mm_init demo_pool demo_base 128 8 demo_stat = Some (c, mp', st')
     \<and> (if 3 \<le> mi then c = 0 \<and> mm_reach mp' {} else c = - ENOMEM)"
proof -
  have "unat (128 :: u32) \<le> 8 * length (alloc_order demo_pool)" "unat (128 :: u32) \<le> 256 * length (blk_free demo_pool)"
    by (simp_all add: demo_pool_def)
  then have "pool_tracks demo_pool 128 8" by (rule pool_tracks_bytes)
  from mm_init_correct [OF _ _ _ _ _ this, of demo_base demo_stat] show ?thesis by simp meson
qed

text \<open>Once everything has been released the whole pool can be allocated again, at its base.\<close>

theorem mm_whole_pool_again:
  assumes "mm_reach mp {}" "fits_order mp sz (omax mp)" "sz \<noteq> 0" "unat sz \<le> 2 ^ 31"
  shows "\<exists>mp' st'. mm_alloc mp sz st = Some (base mp, mp', st') \<and> mm_reach mp' {(base mp, omax mp)}"
proof -
  note i = holds_empty [OF mm_reach_holds [OF assms(1)]]
  show ?thesis
    using i assms(3,4)
  proof (cases rule: mm_alloc_cases [where st = st])
    case (too_big ord)
    with fits_order_unique [OF assms(2)] show ?thesis by auto
  next
    case (fail ord)
    then show ?thesis by (auto simp: live_def split: if_splits)
  next
    case (success ord off mp' st')
    then have "ord = omax mp" using fits_order_unique [OF assms(2)] by auto
    moreover have "off = 0" using success(4) by (auto simp: alloc_done_def split: if_splits)
    moreover from this have "base mp \<noteq> 0" using i by (simp add: mm_inv_def mm_core_def mm_geom_def)
    moreover have "mm_holds mp' {(base mp, omax mp)}"
    proof -
      from success(4) obtain B' where "mm_inv mp' B'" "live B' = insert (off, ord) (live [0 \<mapsto> (omax mp, True)])"
        "same_pool mp mp'" by (auto simp: alloc_done_def)
      moreover have "live [0 \<mapsto> (omax mp, True)] = {}" by (auto simp: live_def split: if_splits)
      ultimately show ?thesis using \<open>ord = omax mp\<close> \<open>off = 0\<close> unfolding mm_holds_def
        by (intro exI [of _ B']) (simp add: same_pool_adr adr_0)
    qed
    note o = holds_order [OF this, of "base mp" "omax mp", simplified]
    ultimately show ?thesis
      using success(3) mm_reach.allocated [OF assms(1,3,4), of st "base mp" mp' st', OF _ _ o(1)] by (auto simp: adr_0)
  qed
qed

theorem mm_whole_pool_again_witness:
  "\<exists>mp st mp' st'. mm_reach mp {} \<and> mm_alloc mp 128 st = Some (base mp, mp', st') \<and> mm_reach mp' {(base mp, 7)}"
proof -
  from demo_one_block obtain mp st where r: "mm_reach mp {}" "omin mp = 3" "omax mp = 7" by blast
  have "7 \<le> j" if "(128::nat) \<le> 2 ^ j" for j
    using that power_increasing_iff [of "2::nat" 7 j] by simp
  then have "fits_order mp 128 (omax mp)" using r by (simp add: fits_order_def)
  from mm_whole_pool_again [OF r(1) this] r show ?thesis by auto
qed

text \<open>The size reported for a block in use is the size of its order, at least the size requested.\<close>

theorem mm_block_size_live:
  assumes "mm_reach mp S" "(a, k) \<in> S"
  shows "mm_addr_in_pool mp a = Some True \<and> mm_block_size mp a = Some (2 ^ k)"
  using holds_block_size [OF mm_reach_holds [OF assms(1)] assms(2)] by blast

theorem mm_block_size_live_witness:
  "\<exists>mp. mm_reach mp {(demo_base, 3)} \<and> mm_block_size mp demo_base = Some 8"
proof -
  from demo_one_block obtain mp where r: "mm_reach mp {(demo_base, 3)}" by blast
  from mm_block_size_live [OF r, of demo_base 3] r show ?thesis by auto
qed


section \<open>Two behaviours outside the contract\<close>

definition demo_double_free :: "(u32 \<times> u32 \<times> u32) option" where
  "demo_double_free = do {
     (_, mp, st) \<leftarrow> mm_init demo_pool demo_base 128 8 demo_stat;
     (a, mp, st) \<leftarrow> mm_alloc mp 8 st;
     (b, mp, st) \<leftarrow> mm_alloc mp 8 st;
     (c, mp, st) \<leftarrow> mm_alloc mp 32 st;
     (mp, st) \<leftarrow> mm_free mp a st;
     (mp, st) \<leftarrow> mm_free mp b st;
     (mp, st) \<leftarrow> mm_free mp b st;
     n \<leftarrow> mm_block_size mp c;
     Some (b - a, n, alloc_blks mp) }"

text \<open>A second release of a block that was the upper half of a merge is not detected: the exchange in
  \<^verbatim>\<open>mm_merge_blk\<close> leaves the old order of the upper half in the order array.  In the run below 32
  bytes stay in use, four units, but the counter of the pool says three.
\<close>

lemma mm_double_free: "demo_double_free = Some (8, 32, 3)"
  by code_simp

definition demo_base_block :: "(u32 \<times> u32 \<times> u32 \<times> u32) option" where
  "demo_base_block = do {
     (_, mp, st) \<leftarrow> mm_init demo_pool demo_base 128 8 demo_stat;
     (a, mp, st) \<leftarrow> mm_alloc mp 64 st;
     (b, mp, st) \<leftarrow> mm_alloc mp 64 st;
     (mp, st) \<leftarrow> mm_free mp a st;
     (c, mp, st) \<leftarrow> mm_alloc mp 64 st;
     Some (b - a, mm_unallocated_blocks mp, c, alloc_fail st) }"

text \<open>The block at the base of the pool is never linked, so that its memory cannot be allocated until the
  whole pool is free: half of the pool is free here and 64 bytes are refused.
\<close>

lemma mm_base_block_lost: "demo_base_block = Some (64, 8, 0, 1)"
  by code_simp

end
