(* ===== verification/Page.thy ===== *)
theory Page
  imports Mm_Spec
begin

text \<open>
  The page map manager of \<^verbatim>\<open>lib/page.c\<close>: several pools of the buddy allocator behind one interface.  Nodes of the
  page map are named by numbers; \<open>page_mem\<close> holds the nodes of the array up to its \<^verbatim>\<open>NULL\<close> entry, the two lists are
  the lists of pools that may still have a page and of those that had none.  The statistics of the
  memory manager are shared by all pools.  Reading through \<^verbatim>\<open>NULL\<close> and linking a node that is linked
  already, which corrupts the lists, are \<^term>\<open>None\<close>.
\<close>

section \<open>State and operations\<close>

record page_map_node =
  pool :: mm_pool
  mem_start :: u32
  mem_end :: u32

record page_st =
  node :: "nat \<Rightarrow> page_map_node"
  page_mem :: "nat list option"
  page_map_list_full :: "nat list"
  page_map_list_empty :: "nat list"
  pstat :: mm_stat

abbreviation PAGE_MAP_MOVE_NODE_AVAIL_THRESH :: u32 where "PAGE_MAP_MOVE_NODE_AVAIL_THRESH \<equiv> 1"

definition set_pool :: "nat \<Rightarrow> mm_pool \<Rightarrow> mm_stat \<Rightarrow> page_st \<Rightarrow> page_st" where
  "set_pool i mp st s = s\<lparr>node := (node s)(i := (node s i)\<lparr>pool := mp\<rparr>), pstat := st\<rparr>"

definition page_align :: "u32 \<Rightarrow> u32" where
  "page_align a = align_up a 0x1000"

definition page_size_of :: "mm_pool \<Rightarrow> u32" where
  "page_size_of mp = shl 1 (uint (min_order mp))"

definition page_map_set_map :: "nat list \<Rightarrow> page_st \<Rightarrow> page_st" where
  "page_map_set_map pg s = s\<lparr>page_mem := Some pg, page_map_list_full := pg, page_map_list_empty := []\<rparr>"

datatype page_slot = Overlap | Exceeded | Slot nat

fun page_map_find_slot :: "page_st \<Rightarrow> u32 \<Rightarrow> u32 \<Rightarrow> nat list \<Rightarrow> page_slot option" where
  "page_map_find_slot s st en [] = None"
| "page_map_find_slot s st en (i # is) =
     (if max_order (pool (node s i)) = 0 then Some (Slot i)
      else if mem_start (node s i) \<le> st \<and> mem_end (node s i) > st then Some Overlap
      else if mem_end (node s i) \<ge> en \<and> mem_start (node s i) < en then Some Overlap
      else if is = [] then Some Exceeded
      else page_map_find_slot s st en is)"

definition page_map_add :: "u32 \<Rightarrow> u32 \<Rightarrow> u32 \<Rightarrow> page_st \<Rightarrow> (int \<times> page_st) option" where
  "page_map_add st en page_size s =
     (case page_mem s of
        None \<Rightarrow> Some (- ENOMEM, s)
      | Some pg \<Rightarrow>
          if en < st then Some (- ENOMEM, s)
          else if en - st < page_size then Some (- ENOMEM, s)
          else if page_size = 0 then Some (- ENOMEM, s)
          else do {
            slot \<leftarrow> page_map_find_slot s st en pg;
            case slot of
              Overlap \<Rightarrow> Some (- EINVAL, s)
            | Exceeded \<Rightarrow> Some (- ENOMEM, s)
            | Slot i \<Rightarrow>
                do { (e, mp, stat) \<leftarrow> mm_init (pool (node s i)) st (en - st) page_size (pstat s);
                     let s = set_pool i mp stat s;
                     if e \<noteq> 0 then Some (- ENOMEM, s)
                     else if i \<in> set (page_map_list_full s @ page_map_list_empty s) then None
                     else Some (0, s\<lparr>node := (node s)(i := (node s i)\<lparr>mem_start := st, mem_end := en\<rparr>),
                                    page_map_list_full := page_map_list_full s @ [i]\<rparr>) } })"

definition page_map_init :: "nat list \<Rightarrow> u32 \<Rightarrow> u32 \<Rightarrow> u32 \<Rightarrow> page_st \<Rightarrow> (int \<times> page_st) option" where
  "page_map_init pg_map st en page_size s =
     (case pg_map of
        [] \<Rightarrow> Some (- ENOMEM, s)
      | i # _ \<Rightarrow>
          if en < st then Some (- ENOMEM, s)
          else do {
            (e, mp, stat) \<leftarrow> mm_init (pool (node s i)) st (en - st) page_size (pstat s);
            let s = set_pool i mp stat s;
            if e \<noteq> 0 then Some (- ENOMEM, s)
            else Some (0, page_map_set_map pg_map
                   (s\<lparr>node := (node s)(i := (node s i)\<lparr>mem_start := st, mem_end := en\<rparr>)\<rparr>)) })"

fun page_reserve_loop :: "u32 \<Rightarrow> nat list \<Rightarrow> page_st \<Rightarrow> (u32 \<times> page_st) option" where
  "page_reserve_loop sz [] s = None"
| "page_reserve_loop sz (i # is) s =
     do { (mem, mp, stat) \<leftarrow> mm_alloc (pool (node s i)) sz (pstat s);
          let s = set_pool i mp stat s;
          if mem \<noteq> 0 then Some (mem, s)
          else if is = [] then Some (0, s)
          else page_reserve_loop sz is s }"

definition page_map_reserve_chunk :: "u32 \<Rightarrow> page_st \<Rightarrow> (u32 \<times> page_st) option" where
  "page_map_reserve_chunk sz s =
     (case page_mem s of None \<Rightarrow> Some (0, s) | Some pg \<Rightarrow> page_reserve_loop sz pg s)"

text \<open>The first node of a list whose pool reports the address as one of its blocks.\<close>

fun page_find_pool :: "page_st \<Rightarrow> u32 \<Rightarrow> nat list \<Rightarrow> nat option option" where
  "page_find_pool s addr [] = Some None"
| "page_find_pool s addr (i # is) =
     do { inp \<leftarrow> mm_addr_in_pool (pool (node s i)) addr;
          if inp then Some (Some i) else page_find_pool s addr is }"

definition page_map_get_chunk_size :: "u32 \<Rightarrow> page_st \<Rightarrow> u32 option" where
  "page_map_get_chunk_size addr s =
     (if page_mem s = None then Some 0
      else if addr = 0 then Some 0
      else do {
        f \<leftarrow> page_find_pool s addr (page_map_list_empty s);
        case f of
          Some i \<Rightarrow> mm_block_size (pool (node s i)) addr
        | None \<Rightarrow>
            do { f \<leftarrow> page_find_pool s addr (page_map_list_full s);
                 case f of Some i \<Rightarrow> mm_block_size (pool (node s i)) addr | None \<Rightarrow> Some 0 } })"

text \<open>The loop over the full list removes at most its current node, so it follows the list as it was.\<close>

fun page_alloc_loop :: "nat list \<Rightarrow> page_st \<Rightarrow> (u32 \<times> page_st) option" where
  "page_alloc_loop [] s = Some (0, s)"
| "page_alloc_loop (i # is) s =
     do { (page, mp, stat) \<leftarrow> mm_alloc (pool (node s i)) (page_size_of (pool (node s i))) (pstat s);
          let s = set_pool i mp stat s;
          if page = 0
          then page_alloc_loop is (s\<lparr>page_map_list_full := remove1 i (page_map_list_full s),
                                    page_map_list_empty := page_map_list_empty s @ [i]\<rparr>)
          else Some (page, s) }"

definition page_alloc :: "page_st \<Rightarrow> (u32 \<times> page_st) option" where
  "page_alloc s = (if page_mem s = None then Some (0, s) else page_alloc_loop (page_map_list_full s) s)"

definition page_free :: "u32 \<Rightarrow> page_st \<Rightarrow> page_st option" where
  "page_free page s =
     (if page_mem s = None then Some s
      else if page = 0 then Some s
      else do {
        f \<leftarrow> page_find_pool s page (page_map_list_empty s);
        case f of
          Some i \<Rightarrow>
            do { (mp, stat) \<leftarrow> mm_free (pool (node s i)) page (pstat s);
                 let s = set_pool i mp stat s;
                 Some (if mm_unallocated_blocks mp \<ge> PAGE_MAP_MOVE_NODE_AVAIL_THRESH
                       then s\<lparr>page_map_list_empty := remove1 i (page_map_list_empty s),
                              page_map_list_full := page_map_list_full s @ [i]\<rparr>
                       else s) }
        | None \<Rightarrow>
            do { f \<leftarrow> page_find_pool s page (page_map_list_full s);
                 case f of
                   Some i \<Rightarrow> do { (mp, stat) \<leftarrow> mm_free (pool (node s i)) page (pstat s); Some (set_pool i mp stat s) }
                 | None \<Rightarrow> Some s } })"

section \<open>The contract with sizes\<close>

text \<open>A store of blocks that can also tell the size of a block in use.\<close>

locale sized_store = block_store holds alloc release fits
  for holds :: "'p \<Rightarrow> (u32 \<times> nat) set \<Rightarrow> bool"
    and alloc :: "'p \<Rightarrow> u32 \<Rightarrow> 's \<Rightarrow> (u32 \<times> 'p \<times> 's) option"
    and release :: "'p \<Rightarrow> u32 \<Rightarrow> 's \<Rightarrow> ('p \<times> 's) option"
    and fits :: "'p \<Rightarrow> u32 \<Rightarrow> nat \<Rightarrow> bool" +
  fixes blk_size :: "'p \<Rightarrow> u32 \<Rightarrow> u32 option"
  assumes size_law: "holds p S \<Longrightarrow> (a, k) \<in> S \<Longrightarrow> blk_size p a = Some (2 ^ k) \<and> k \<le> 31"
begin

text \<open>What the client is told after an allocation covers the request.\<close>

lemma size_after_alloc:
  assumes "holds p S" "sz \<noteq> 0" "unat sz \<le> 2 ^ 31" "alloc p sz s = Some (r, p', s')" "r \<noteq> 0"
  shows "\<exists>n. blk_size p' r = Some n \<and> sz \<le> n"
proof -
  from alloc_law [OF assms(1-3), of s] assms(4,5) obtain ord where
    o: "unat sz \<le> 2 ^ ord" "holds p' (insert (r, ord) S)" by auto
  from size_law [OF o(2), of r ord] have n: "blk_size p' r = Some (2 ^ ord)" "ord \<le> 31" by simp_all
  have "unat (2 ^ ord :: u32) = 2 ^ ord" using n(2) by (simp add: unat_2p)
  then show ?thesis using n(1) o(1) by (auto simp: word_le_nat_alt)
qed

end

interpretation mm_sized: sized_store mm_holds mm_alloc mm_free fits_order mm_block_size
  by unfold_locales (simp add: holds_block_size(1) holds_order(3))

section \<open>Consistent page maps\<close>

definition node_ok :: "page_map_node \<Rightarrow> (u32 \<times> nat) set \<Rightarrow> bool" where
  "node_ok n T \<longleftrightarrow> mm_holds (pool n) T \<and> unat (mem_start n) \<le> unat (base (pool n))
     \<and> unat (base (pool n)) + 2 ^ omax (pool n) \<le> unat (mem_end n)"

definition page_ok :: "page_st \<Rightarrow> nat list \<Rightarrow> (nat \<Rightarrow> (u32 \<times> nat) set) \<Rightarrow> bool" where
  "page_ok s pg S \<longleftrightarrow> page_mem s = Some pg \<and> pg \<noteq> []
     \<and> distinct (page_map_list_full s @ page_map_list_empty s)
     \<and> set pg = set (page_map_list_full s @ page_map_list_empty s)
     \<and> (\<forall>i \<in> set pg. node_ok (node s i) (S i))
     \<and> (\<forall>i \<in> set pg. \<forall>j \<in> set pg. i \<noteq> j \<longrightarrow> mem_end (node s i) \<le> mem_start (node s j) \<or> mem_end (node s j) \<le> mem_start (node s i))"

definition page_blocks :: "nat list \<Rightarrow> (nat \<Rightarrow> (u32 \<times> nat) set) \<Rightarrow> (u32 \<times> nat) set" where
  "page_blocks pg S = (\<Union>i \<in> set pg. S i)"

lemma set_pool_simps [simp]:
  "node (set_pool i mp st s) i = (node s i)\<lparr>pool := mp\<rparr>" "j \<noteq> i \<Longrightarrow> node (set_pool i mp st s) j = node s j"
  "page_mem (set_pool i mp st s) = page_mem s" "page_map_list_full (set_pool i mp st s) = page_map_list_full s"
  "page_map_list_empty (set_pool i mp st s) = page_map_list_empty s" "pstat (set_pool i mp st s) = st"
  by (simp_all add: set_pool_def)

lemma page_okD:
  "page_ok s pg S \<Longrightarrow> i \<in> set pg \<Longrightarrow> node_ok (node s i) (S i)"
  "page_ok s pg S \<Longrightarrow> i \<in> set pg \<Longrightarrow> j \<in> set pg \<Longrightarrow> i \<noteq> j \<Longrightarrow>
     mem_end (node s i) \<le> mem_start (node s j) \<or> mem_end (node s j) \<le> mem_start (node s i)"
  unfolding page_ok_def by blast+

lemma holds_geom: "mm_holds mp T \<Longrightarrow> mm_geom mp"
  by (auto simp: mm_holds_def mm_inv_def mm_core_def)

lemma page_ok_pool:
  assumes "page_ok s pg S" "i \<in> set pg" "mm_holds mp T" "same_pool (pool (node s i)) mp"
  shows "page_ok (set_pool i mp st s) pg (S(i := T))"
proof -
  have m: "mem_start (node (set_pool i mp st s) j) = mem_start (node s j)" "mem_end (node (set_pool i mp st s) j) = mem_end (node s j)" for j
    by (cases "j = i"; simp)+
  have "node_ok (node (set_pool i mp st s) j) ((S(i := T)) j)" if "j \<in> set pg" for j
    using assms that by (cases "j = i") (auto simp: page_ok_def node_ok_def same_pool_def)
  with assms(1) show ?thesis by (simp add: page_ok_def m)
qed

lemma page_ok_lists:
  assumes "page_ok s pg S" "distinct (F @ E)" "set (F @ E) = set pg"
  shows "page_ok (s\<lparr>page_map_list_full := F, page_map_list_empty := E\<rparr>) pg S"
  using assms by (simp add: page_ok_def)

text \<open>A block lies in the memory of its node, so blocks of different nodes do not overlap.\<close>

lemma block_in_node:
  assumes "node_ok n T" "b \<in> T"
  shows "block_range b \<subseteq> {unat (mem_start n)..<unat (mem_end n)}"
  using holds_in_pool [of "pool n" T b] assms by (force simp: node_ok_def in_pool_def)

lemma page_ok_disjoint:
  assumes "page_ok s pg S"
  shows "disjoint_blocks (page_blocks pg S)"
proof -
  have "block_range b \<inter> block_range c = {}"
    if "i \<in> set pg" "j \<in> set pg" "b \<in> S i" "c \<in> S j" "b \<noteq> c" for i j b c
  proof (cases "i = j")
    case True
    with that page_okD(1) [OF assms that(1)] holds_disjoint [of "pool (node s i)" "S i"] show ?thesis
      by (auto simp: node_ok_def disjoint_blocks_def)
  next
    case False
    note page_okD(2) [OF assms that(1,2) this]
    moreover have "block_range b \<subseteq> {unat (mem_start (node s i))..<unat (mem_end (node s i))}"
      "block_range c \<subseteq> {unat (mem_start (node s j))..<unat (mem_end (node s j))}"
      using page_okD(1) [OF assms] that block_in_node by blast+
    ultimately show ?thesis by (force simp: word_le_nat_alt)
  qed
  then show ?thesis by (auto simp: disjoint_blocks_def page_blocks_def)
qed

lemma block_node_unique:
  assumes "page_ok s pg S" "i \<in> set pg" "(a, k) \<in> S i" "j \<in> set pg" "j \<noteq> i"
  shows "(a, l) \<notin> S j" "\<not> mm_blk_addr_valid (pool (node s j)) a"
proof -
  have a: "unat a \<in> block_range (a, m)" for m by (simp add: block_range_def)
  note i = page_okD(1) [OF assms(1,2)] and j = page_okD(1) [OF assms(1,4)]
  have r: "unat a \<in> {unat (mem_start (node s i))..<unat (mem_end (node s i))}" using block_in_node [OF i assms(3)] a by blast
  have d: "mem_end (node s i) \<le> mem_start (node s j) \<or> mem_end (node s j) \<le> mem_start (node s i)"
    using page_okD(2) [OF assms(1,2,4)] assms(5) by blast
  show "(a, l) \<notin> S j"
  proof
    assume "(a, l) \<in> S j"
    from block_in_node [OF j this] a [of l] have "unat a \<in> {unat (mem_start (node s j))..<unat (mem_end (node s j))}" by blast
    with r d show False by (auto simp: word_le_nat_alt)
  qed
  have g: "mm_geom (pool (node s j))" using j holds_geom unfolding node_ok_def by blast
  have m: "unat (shl 1 (uint (max_order (pool (node s j)))) :: u32) = 2 ^ omax (pool (node s j))"
    using g by (intro unat_shl_uint) (simp add: mm_geom_def)
  have "unat (base (pool (node s j)) + shl 1 (uint (max_order (pool (node s j))))) = unat (base (pool (node s j))) + 2 ^ omax (pool (node s j))"
    using g m by (subst unat_add_lem [THEN iffD1]) (simp_all add: mm_geom_def)
  then show "\<not> mm_blk_addr_valid (pool (node s j)) a"
    using r d j by (auto simp: mm_blk_addr_valid_def node_ok_def word_le_nat_alt word_less_nat_alt)
qed

section \<open>Allocation and release\<close>

lemma reserve_loop_ok:
  assumes "page_ok s pg S" "set is \<subseteq> set pg" "is \<noteq> []" "sz \<noteq> 0" "unat sz \<le> 2 ^ 31"
  shows "\<exists>r s'. page_reserve_loop sz is s = Some (r, s') \<and>
     (if r = 0 then page_ok s' pg S
      else \<exists>i \<in> set is. \<exists>ord. fits_order (pool (node s i)) sz ord \<and> (r, ord) \<notin> S i \<and> page_ok s' pg (S(i := insert (r, ord) (S i))))"
  using assms(1-3)
proof (induction "is" arbitrary: s)
  case (Cons i js)
  have i: "i \<in> set pg" using Cons.prems(2) by simp
  have h: "mm_holds (pool (node s i)) (S i)" using page_okD(1) [OF Cons.prems(1) i] by (simp add: node_ok_def)
  from holds_alloc [OF h assms(4,5), of "pstat s"] obtain r mp st where
    r: "mm_alloc (pool (node s i)) sz (pstat s) = Some (r, mp, st)" and
    c: "if r = 0 then mp = pool (node s i)
        else \<exists>ord. fits_order (pool (node s i)) sz ord \<and> (r, ord) \<notin> S i \<and> mm_holds mp (insert (r, ord) (S i)) \<and> same_pool (pool (node s i)) mp"
    by blast
  show ?case
  proof (cases "r = 0")
    case True
    then have "page_ok (set_pool i mp st s) pg (S(i := S i))"
      using c h by (intro page_ok_pool [OF Cons.prems(1) i]) (simp_all add: same_pool_def)
    then have ok: "page_ok (set_pool i mp st s) pg S" by simp
    show ?thesis
    proof (cases "js = []")
      case True
      with r \<open>r = 0\<close> ok show ?thesis by simp
    next
      case False
      have p: "pool (node (set_pool i mp st s) j) = pool (node s j)" for j using c True by (cases "j = i") simp_all
      from Cons.IH [OF ok _ False] Cons.prems(2) obtain r' s' where
        IH: "page_reserve_loop sz js (set_pool i mp st s) = Some (r', s')" "if r' = 0 then page_ok s' pg S
          else \<exists>i \<in> set js. \<exists>ord. fits_order (pool (node s i)) sz ord \<and> (r', ord) \<notin> S i \<and> page_ok s' pg (S(i := insert (r', ord) (S i)))"
        unfolding p by auto
      have step: "page_reserve_loop sz (i # js) s = page_reserve_loop sz js (set_pool i mp st s)" using r True False by simp
      show ?thesis unfolding step using IH by auto
    qed
  next
    case False
    with c obtain ord where "fits_order (pool (node s i)) sz ord" "(r, ord) \<notin> S i" "mm_holds mp (insert (r, ord) (S i))"
      "same_pool (pool (node s i)) mp" by auto
    with r False page_ok_pool [OF Cons.prems(1) i, of mp] show ?thesis by auto
  qed
qed simp

lemma page_size_le:
  assumes "mm_geom mp"
  shows "page_size_of mp \<noteq> 0" "unat (page_size_of mp) = 2 ^ omin mp" "unat (page_size_of mp) \<le> 2 ^ 31"
proof -
  have o: "omin mp \<le> 31" using assms by (simp add: mm_geom_def)
  show p: "unat (page_size_of mp) = 2 ^ omin mp" unfolding page_size_of_def using o by (intro unat_shl_uint) simp
  then show "page_size_of mp \<noteq> 0" by auto
  show "unat (page_size_of mp) \<le> 2 ^ 31" unfolding p using o by (intro power_increasing) simp_all
qed

lemma fits_page: "fits_order mp (page_size_of mp) ord \<Longrightarrow> mm_geom mp \<Longrightarrow> ord = omin mp"
  by (auto simp: fits_order_def page_size_le(2) intro: antisym)

lemma page_alloc_loop_ok:
  assumes "page_ok s pg S" "distinct is" "set is \<subseteq> set (page_map_list_full s)"
  shows "\<exists>r s'. page_alloc_loop is s = Some (r, s') \<and>
     (if r = 0 then page_ok s' pg S \<and> set (page_map_list_full s') = set (page_map_list_full s) - set is
      else \<exists>i \<in> set is. (r, omin (pool (node s i))) \<notin> S i \<and> page_ok s' pg (S(i := insert (r, omin (pool (node s i))) (S i)))
             \<and> i \<in> set (page_map_list_full s'))"
  using assms
proof (induction "is" arbitrary: s)
  case (Cons i js)
  have i: "i \<in> set pg" "i \<in> set (page_map_list_full s)" using Cons.prems by (auto simp: page_ok_def)
  have h: "mm_holds (pool (node s i)) (S i)" using page_okD(1) [OF Cons.prems(1) i(1)] by (simp add: node_ok_def)
  note g = holds_geom [OF h]
  from holds_alloc [OF h page_size_le(1,3) [OF g], of "pstat s"] obtain r mp st where
    r: "mm_alloc (pool (node s i)) (page_size_of (pool (node s i))) (pstat s) = Some (r, mp, st)" and
    c: "if r = 0 then mp = pool (node s i)
        else \<exists>ord. fits_order (pool (node s i)) (page_size_of (pool (node s i))) ord \<and> (r, ord) \<notin> S i \<and> mm_holds mp (insert (r, ord) (S i))
           \<and> same_pool (pool (node s i)) mp"
    by blast
  show ?case
  proof (cases "r = 0")
    case True
    let ?s = "(set_pool i mp st s)\<lparr>page_map_list_full := remove1 i (page_map_list_full s), page_map_list_empty := page_map_list_empty s @ [i]\<rparr>"
    from True have "page_ok (set_pool i mp st s) pg (S(i := S i))"
      using c h by (intro page_ok_pool [OF Cons.prems(1) i(1)]) (simp_all add: same_pool_def)
    then have ok: "page_ok ?s pg S"
      using i Cons.prems(1) by (intro page_ok_lists) (auto simp: page_ok_def set_remove1_eq)
    have d: "distinct (page_map_list_full s)" using Cons.prems(1) by (simp add: page_ok_def)
    then have f: "set (page_map_list_full ?s) = set (page_map_list_full s) - {i}" by (simp add: set_remove1_eq)
    have p: "pool (node ?s j) = pool (node s j)" for j using c True by (cases "j = i") simp_all
    have step: "page_alloc_loop (i # js) s = page_alloc_loop js ?s" using r True by simp
    have "set js \<subseteq> set (page_map_list_full ?s)" using Cons.prems(2,3) f by auto
    from Cons.IH [OF ok _ this] Cons.prems(2) obtain r' s' where
      IH: "page_alloc_loop js ?s = Some (r', s')" "if r' = 0 then page_ok s' pg S \<and> set (page_map_list_full s') = set (page_map_list_full ?s) - set js
      else \<exists>i \<in> set js. (r', omin (pool (node ?s i))) \<notin> S i \<and> page_ok s' pg (S(i := insert (r', omin (pool (node ?s i))) (S i)))
             \<and> i \<in> set (page_map_list_full s')" by auto
    show ?thesis unfolding step using IH unfolding f p by auto
  next
    case False
    with c obtain ord where o: "fits_order (pool (node s i)) (page_size_of (pool (node s i))) ord" "(r, ord) \<notin> S i"
      "mm_holds mp (insert (r, ord) (S i))" "same_pool (pool (node s i)) mp" by auto
    with fits_page [OF o(1) g] r False page_ok_pool [OF Cons.prems(1) i(1) o(3,4), of st] i show ?thesis by auto
  qed
qed simp

lemma find_pool_ok:
  assumes "page_ok s pg S" "i \<in> set pg" "(a, k) \<in> S i" "set is \<subseteq> set pg"
  shows "page_find_pool s a is = Some (if i \<in> set is then Some i else None)"
  using assms(4)
proof (induction "is")
  case (Cons j js)
  have n: "mm_holds (pool (node s i)) (S i)" using page_okD(1) [OF assms(1,2)] by (simp add: node_ok_def)
  have "mm_addr_in_pool (pool (node s j)) a = Some (j = i)"
  proof (cases "j = i")
    case True
    then show ?thesis using holds_block_size(2) [OF n assms(3)] by simp
  next
    case False
    then show ?thesis using block_node_unique(2) [OF assms(1-3), of j] Cons.prems by (simp add: mm_addr_in_pool_def)
  qed
  with Cons show ?case by auto
qed simp

lemma unallocated_after_free:
  assumes "mm_holds mp S" "b \<in> S" "mm_holds mp' (S - {b})" "same_pool mp mp'"
  shows "1 \<le> mm_unallocated_blocks mp'"
proof -
  from assms(1) obtain B where B: "mm_inv mp B" by (auto simp: mm_holds_def)
  have g: "mm_geom mp" using assms(1) by (rule holds_geom)
  have "used (omax mp) (omin mp) B \<le> 2 ^ (omax mp - omin mp)"
    using B g by (intro used_le) (auto simp: mm_inv_def mm_core_def mm_geom_def)
  then have u: "unat (alloc_blks mp) \<le> unat (n_blks mp)" using B g by (simp add: mm_inv_def mm_geom_def)
  obtain a k where b: "b = (a, k)" by (cases b)
  have fin: "finite S" using holds_count(1) [OF assms(1)] .
  have "unat (alloc_blks mp) = 2 ^ (k - omin mp) + unat (alloc_blks mp')"
    using holds_count(2) [OF assms(1)] holds_count(2) [OF assms(3)] assms(2,4) b sum.remove [OF fin assms(2), of "\<lambda>(a, k). 2 ^ (k - omin mp)"]
    by (simp add: same_pool_def)
  moreover have "0 < (2::nat) ^ (k - omin mp)" by simp
  ultimately have "unat (alloc_blks mp') < unat (n_blks mp)" using u by linarith
  then have "unat (alloc_blks mp') < unat (n_blks mp')" using assms(4) by (simp add: same_pool_def)
  then show ?thesis by (simp add: mm_unallocated_blocks_def word_le_nat_alt unat_sub_if')
qed

lemma page_free_ok:
  assumes "page_ok s pg S" "i \<in> set pg" "(a, k) \<in> S i"
  shows "\<exists>s'. page_free a s = Some s' \<and> page_ok s' pg (S(i := S i - {(a, k)})) \<and> i \<in> set (page_map_list_full s')"
proof -
  have n: "mm_holds (pool (node s i)) (S i)" using page_okD(1) [OF assms(1,2)] by (simp add: node_ok_def)
  from holds_free [OF n assms(3), of "pstat s"] obtain mp st where
    f: "mm_free (pool (node s i)) a (pstat s) = Some (mp, st)" "mm_holds mp (S i - {(a, k)})" "same_pool (pool (node s i)) mp" by blast
  from page_ok_pool [OF assms(1,2) f(2,3), of st] have ok: "page_ok (set_pool i mp st s) pg (S(i := S i - {(a, k)}))" .
  have mem: "page_mem s = Some pg" "set pg = set (page_map_list_full s) \<union> set (page_map_list_empty s)"
    "distinct (page_map_list_full s @ page_map_list_empty s)" using assms(1) by (auto simp: page_ok_def)
  have a: "a \<noteq> 0"
    using holds_in_pool [OF n assms(3)] holds_geom [OF n] by (auto simp: in_pool_def block_range_def mm_geom_def word_unat_eq_iff)
  have u: "1 \<le> mm_unallocated_blocks mp" by (rule unallocated_after_free [OF n assms(3) f(2,3)])
  show ?thesis
  proof (cases "i \<in> set (page_map_list_empty s)")
    case True
    then have "page_find_pool s a (page_map_list_empty s) = Some (Some i)"
      using find_pool_ok [OF assms, of "page_map_list_empty s"] mem(2) by simp
    then have "page_free a s = Some ((set_pool i mp st s)\<lparr>page_map_list_full := page_map_list_full s @ [i],
        page_map_list_empty := remove1 i (page_map_list_empty s)\<rparr>)"
      using mem(1) a f(1) u by (simp add: page_free_def)
    moreover have "page_ok ((set_pool i mp st s)\<lparr>page_map_list_full := page_map_list_full s @ [i],
        page_map_list_empty := remove1 i (page_map_list_empty s)\<rparr>) pg (S(i := S i - {(a, k)}))"
      using mem(2,3) True by (intro page_ok_lists [OF ok]) (auto simp: set_remove1_eq)
    ultimately show ?thesis by simp
  next
    case False
    then have "page_find_pool s a (page_map_list_empty s) = Some None" "page_find_pool s a (page_map_list_full s) = Some (Some i)"
      using find_pool_ok [OF assms, of "page_map_list_empty s"] find_pool_ok [OF assms, of "page_map_list_full s"] mem(2) assms(2) by auto
    then have "page_free a s = Some (set_pool i mp st s)" using mem(1) a f(1) by (simp add: page_free_def)
    with ok False mem(2) assms(2) show ?thesis by auto
  qed
qed

lemma page_size_ok:
  assumes "page_ok s pg S" "i \<in> set pg" "(a, k) \<in> S i"
  shows "page_map_get_chunk_size a s = Some (2 ^ k)"
proof -
  have n: "mm_holds (pool (node s i)) (S i)" using page_okD(1) [OF assms(1,2)] by (simp add: node_ok_def)
  have mem: "page_mem s = Some pg" "set pg = set (page_map_list_full s) \<union> set (page_map_list_empty s)"
    using assms(1) by (auto simp: page_ok_def)
  have "a \<noteq> 0"
    using holds_in_pool [OF n assms(3)] holds_geom [OF n] by (auto simp: in_pool_def block_range_def mm_geom_def word_unat_eq_iff)
  with mem assms(2) find_pool_ok [OF assms, of "page_map_list_empty s"] find_pool_ok [OF assms, of "page_map_list_full s"]
    holds_block_size(1) [OF n assms(3)] show ?thesis
    by (auto simp: page_map_get_chunk_size_def)
qed

section \<open>The page map as a store of blocks\<close>

definition page_holds :: "page_st \<Rightarrow> (u32 \<times> nat) set \<Rightarrow> bool" where
  "page_holds s T \<longleftrightarrow> (\<exists>pg S. page_ok s pg S \<and> T = page_blocks pg S)"

definition page_fits :: "page_st \<Rightarrow> u32 \<Rightarrow> nat \<Rightarrow> bool" where
  "page_fits s sz ord \<longleftrightarrow> (\<exists>i pg. page_mem s = Some pg \<and> i \<in> set pg \<and> fits_order (pool (node s i)) sz ord)"

definition page_reserve :: "page_st \<Rightarrow> u32 \<Rightarrow> unit \<Rightarrow> (u32 \<times> page_st \<times> unit) option" where
  "page_reserve s sz u = map_option (\<lambda>(r, s'). (r, s', u)) (page_map_reserve_chunk sz s)"

definition page_release :: "page_st \<Rightarrow> u32 \<Rightarrow> unit \<Rightarrow> (page_st \<times> unit) option" where
  "page_release s a u = map_option (\<lambda>s'. (s', u)) (page_free a s)"

lemma page_blocks_upd:
  assumes "page_ok s pg S" "i \<in> set pg"
  shows "page_blocks pg (S(i := insert b (S i))) = insert b (page_blocks pg S)"
    and "(a, k) \<in> S i \<Longrightarrow> page_blocks pg (S(i := S i - {(a, k)})) = page_blocks pg S - {(a, k)}"
proof -
  show "page_blocks pg (S(i := insert b (S i))) = insert b (page_blocks pg S)"
    using assms(2) by (auto simp: page_blocks_def split: if_splits)
  assume "(a, k) \<in> S i"
  from block_node_unique(1) [OF assms this] show "page_blocks pg (S(i := S i - {(a, k)})) = page_blocks pg S - {(a, k)}"
    using assms(2) by (auto simp: page_blocks_def split: if_splits)
qed

lemma page_fresh:
  assumes "page_ok s pg S" "page_ok s' pg (S(i := insert (r, ord) (S i)))" "i \<in> set pg" "(r, ord) \<notin> S i"
  shows "(r, ord) \<notin> page_blocks pg S"
  using block_node_unique(1) [OF assms(2,3), of r ord] assms(4) by (auto simp: page_blocks_def fun_upd_def split: if_splits)

lemma page_reserve_law:
  assumes "page_holds s T" "sz \<noteq> 0" "unat sz \<le> 2 ^ 31"
  shows "\<exists>r s'. page_map_reserve_chunk sz s = Some (r, s') \<and> (if r = 0 then page_holds s' T
      else \<exists>ord. page_fits s sz ord \<and> unat sz \<le> 2 ^ ord \<and> (r, ord) \<notin> T \<and> page_holds s' (insert (r, ord) T))"
proof -
  from assms(1) obtain pg S where ok: "page_ok s pg S" "T = page_blocks pg S" by (auto simp: page_holds_def)
  then have pg: "page_mem s = Some pg" "pg \<noteq> []" by (auto simp: page_ok_def)
  from reserve_loop_ok [OF ok(1) subset_refl pg(2) assms(2,3)] obtain r s' where
    r: "page_reserve_loop sz pg s = Some (r, s')" and
    c: "if r = 0 then page_ok s' pg S
      else \<exists>i \<in> set pg. \<exists>ord. fits_order (pool (node s i)) sz ord \<and> (r, ord) \<notin> S i \<and> page_ok s' pg (S(i := insert (r, ord) (S i)))"
    by blast
  show ?thesis
  proof (cases "r = 0")
    case True
    with r c ok pg show ?thesis by (auto simp: page_map_reserve_chunk_def page_holds_def)
  next
    case False
    with c obtain i ord where i: "i \<in> set pg" "fits_order (pool (node s i)) sz ord" "(r, ord) \<notin> S i"
      "page_ok s' pg (S(i := insert (r, ord) (S i)))" by auto
    then have "page_holds s' (insert (r, ord) T)"
      unfolding page_holds_def ok(2) page_blocks_upd(1) [OF ok(1) i(1), symmetric] by blast
    moreover have "(r, ord) \<notin> T" unfolding ok(2) by (rule page_fresh [OF ok(1) i(4,1,3)])
    moreover have "page_fits s sz ord" "unat sz \<le> 2 ^ ord" using i pg(1) by (auto simp: page_fits_def fits_order_def)
    ultimately show ?thesis using r pg(1) False by (auto simp: page_map_reserve_chunk_def)
  qed
qed

lemma page_release_law:
  assumes "page_holds s T" "(a, k) \<in> T"
  shows "\<exists>s'. page_free a s = Some s' \<and> page_holds s' (T - {(a, k)})"
proof -
  from assms obtain pg S i where ok: "page_ok s pg S" "T = page_blocks pg S" "i \<in> set pg" "(a, k) \<in> S i"
    by (auto simp: page_holds_def page_blocks_def)
  from page_free_ok [OF ok(1,3,4)] obtain s' where
    s': "page_free a s = Some s'" "page_ok s' pg (S(i := S i - {(a, k)}))" by blast
  then show ?thesis unfolding page_holds_def ok(2) page_blocks_upd(2) [OF ok(1,3,4), symmetric] by blast
qed

lemma page_size_law:
  assumes "page_holds s T" "(a, k) \<in> T"
  shows "page_map_get_chunk_size a s = Some (2 ^ k) \<and> k \<le> 31"
proof -
  from assms obtain pg S i where ok: "page_ok s pg S" "i \<in> set pg" "(a, k) \<in> S i"
    by (auto simp: page_holds_def page_blocks_def)
  from page_okD(1) [OF ok(1,2)] holds_order(3) [OF _ ok(3)] page_size_ok [OF ok] show ?thesis by (auto simp: node_ok_def)
qed

interpretation page: sized_store page_holds page_reserve page_release page_fits "\<lambda>s a. page_map_get_chunk_size a s"
proof
  fix p S and sz :: u32 and u assume "page_holds p S" "sz \<noteq> 0" "unat sz \<le> 2 ^ 31"
  from page_reserve_law [OF this] show "\<exists>r p' s'. page_reserve p sz u = Some (r, p', s') \<and> (if r = 0 then page_holds p' S
      else \<exists>ord. page_fits p sz ord \<and> unat sz \<le> 2 ^ ord \<and> (r, ord) \<notin> S \<and> page_holds p' (insert (r, ord) S))"
    by (auto simp: page_reserve_def)
next
  fix p S a k u assume "page_holds p S" "(a, k) \<in> S"
  from page_release_law [OF this] show "\<exists>p' s'. page_release p a u = Some (p', s') \<and> page_holds p' (S - {(a, k)})"
    by (auto simp: page_release_def)
next
  show "disjoint_blocks S" if "page_holds p S" for p S using that page_ok_disjoint by (auto simp: page_holds_def)
next
  show "page_map_get_chunk_size a p = Some (2 ^ k) \<and> k \<le> 31" if "page_holds p S" "(a, k) \<in> S" for p S a k
    using page_size_law [OF that] .
qed

section \<open>Adding memory\<close>

lemma find_slot_new:
  assumes "\<forall>i \<in> set as. max_order (pool (node s i)) \<noteq> 0" "max_order (pool (node s n)) = 0"
  shows "page_map_find_slot s st en (as @ [n]) = Some (if \<exists>i \<in> set as. mem_start (node s i) \<le> st \<and> st < mem_end (node s i)
      \<or> en \<le> mem_end (node s i) \<and> mem_start (node s i) < en then Overlap else Slot n)"
  using assms by (induction as) auto

lemma page_map_add_ok:
  assumes "page_ok s pg S" "n \<notin> set pg" "max_order (pool (node s n)) = 0"
    and "8 \<le> unat (en - st)" "unat page_size \<le> 2 ^ 31" "st \<noteq> 0"
    and "pool_tracks (pool (node s n)) (en - st) page_size"
    and "st \<le> en" "page_size \<le> en - st" "page_size \<noteq> 0" "\<forall>i \<in> set pg. \<not> (st < mem_start (node s i) \<and> mem_end (node s i) < en)"
  shows "\<exists>e s'. page_map_add st en page_size (s\<lparr>page_mem := Some (pg @ [n])\<rparr>) = Some (e, s') \<and>
     (e = 0 \<and> page_ok s' (pg @ [n]) (S(n := {})) \<or> e = - EINVAL \<and> s' = s\<lparr>page_mem := Some (pg @ [n])\<rparr> \<or> e = - ENOMEM)"
proof -
  let ?s = "s\<lparr>page_mem := Some (pg @ [n])\<rparr>"
  let ?over = "\<exists>i \<in> set pg. mem_start (node s i) \<le> st \<and> st < mem_end (node s i) \<or> en \<le> mem_end (node s i) \<and> mem_start (node s i) < en"
  have "max_order (pool (node s i)) \<noteq> 0" if "i \<in> set pg" for i
    using page_okD(1) [OF assms(1) that] holds_geom by (fastforce simp: node_ok_def mm_geom_def)
  then have slot: "page_map_find_slot ?s st en (pg @ [n]) = Some (if ?over then Overlap else Slot n)"
    using find_slot_new [of pg ?s n st en] assms(3) by simp
  show ?thesis
  proof (cases ?over)
    case True
    with slot assms(8-10) show ?thesis by (auto simp: page_map_add_def not_less)
  next
    case False
    have len: "unat st + unat (en - st) < 2 ^ 32" "unat (en - st) = unat en - unat st"
      using assms(8) unat_less_2p32 [of en] by (simp_all add: word_le_nat_alt unat_sub)
    from mm_init_inv [OF assms(4,10,5,6) len(1) assms(7), of "pstat s"] obtain ma mi where
      o: "pool_orders (en - st) page_size ma mi" and
      i: "if 3 \<le> mi then \<exists>mp'. mm_init (pool (node s n)) st (en - st) page_size (pstat s) =
                Some (0, mp', (pstat s)\<lparr>total_blocks := total_blocks (pstat s) + 2 ^ (ma - mi)\<rparr>)
            \<and> mm_inv mp' [0 \<mapsto> (ma, True)] \<and> base mp' = st \<and> omax mp' = ma \<and> omin mp' = mi
      else \<exists>mp'. mm_init (pool (node s n)) st (en - st) page_size (pstat s) = Some (- ENOMEM, mp', pstat s)" by blast
    show ?thesis
    proof (cases "3 \<le> mi")
      case True
      with i obtain mp stat where mp: "mm_init (pool (node s n)) st (en - st) page_size (pstat s) = Some (0, mp, stat)"
        "mm_inv mp [0 \<mapsto> (ma, True)]" "base mp = st" "omax mp = ma" by auto
      have nl: "n \<notin> set (page_map_list_full s) \<union> set (page_map_list_empty s)" using assms(1,2) by (simp add: page_ok_def)
      let ?t = "(set_pool n mp stat ?s)\<lparr>node := (node s)(n := (node s n)\<lparr>pool := mp, mem_start := st, mem_end := en\<rparr>), page_map_list_full := page_map_list_full s @ [n]\<rparr>"
      have "page_map_add st en page_size ?s = Some (0, ?t)"
        using slot False assms(8-10) mp(1) nl by (simp add: page_map_add_def not_less set_pool_def)
      moreover have "page_ok ?t (pg @ [n]) (S(n := {}))"
      proof -
        have "node_ok (node ?t n) {}"
          using mp holds_init [OF mp(2)] o len assms(8) by (auto simp: node_ok_def pool_orders_def word_le_nat_alt)
        moreover have "mem_end (node s j) \<le> st \<or> en \<le> mem_start (node s j)" if "j \<in> set pg" for j
          using False assms(11) that assms(8) by (meson leI le_less_trans not_less less_imp_le)
        moreover have "distinct (page_map_list_full s @ page_map_list_empty s)" "set pg = set (page_map_list_full s) \<union> set (page_map_list_empty s)"
          using assms(1) by (auto simp: page_ok_def)
        ultimately show ?thesis using page_okD [OF assms(1)] assms(2) nl by (auto simp: page_ok_def)
      qed
      ultimately show ?thesis by auto
    next
      case False
      with i slot \<open>\<not> ?over\<close> assms(8-10) show ?thesis by (auto simp: page_map_add_def not_less)
    qed
  qed
qed


lemma page_map_init_ok:
  assumes "8 \<le> unat (en - st)" "page_size \<noteq> 0" "unat page_size \<le> 2 ^ 31" "st \<noteq> 0" "st \<le> en"
    and "pool_tracks (pool (node s n)) (en - st) page_size"
  shows "\<exists>e s'. page_map_init [n] st en page_size s = Some (e, s') \<and>
     (e = - ENOMEM \<or> e = 0 \<and> page_ok s' [n] (\<lambda>_. {}) \<and> base (pool (node s' n)) = st \<and> page_mem s' = Some [n]
        \<and> mm_inv (pool (node s' n)) [0 \<mapsto> (omax (pool (node s' n)), True)]
        \<and> pool_orders (en - st) page_size (omax (pool (node s' n))) (omin (pool (node s' n))))"
proof -
  have len: "unat st + unat (en - st) < 2 ^ 32" "unat (en - st) = unat en - unat st"
    using assms(5) unat_less_2p32 [of en] by (simp_all add: word_le_nat_alt unat_sub)
  from mm_init_inv [OF assms(1-4) len(1) assms(6), of "pstat s"] obtain ma mi where
    o: "pool_orders (en - st) page_size ma mi" and
    i: "if 3 \<le> mi then \<exists>mp'. mm_init (pool (node s n)) st (en - st) page_size (pstat s) =
              Some (0, mp', (pstat s)\<lparr>total_blocks := total_blocks (pstat s) + 2 ^ (ma - mi)\<rparr>)
          \<and> mm_inv mp' [0 \<mapsto> (ma, True)] \<and> base mp' = st \<and> omax mp' = ma \<and> omin mp' = mi
    else \<exists>mp'. mm_init (pool (node s n)) st (en - st) page_size (pstat s) = Some (- ENOMEM, mp', pstat s)" by blast
  show ?thesis
  proof (cases "3 \<le> mi")
    case True
    with i obtain mp stat where mp: "mm_init (pool (node s n)) st (en - st) page_size (pstat s) = Some (0, mp, stat)"
      "mm_inv mp [0 \<mapsto> (ma, True)]" "base mp = st" "omax mp = ma" "omin mp = mi" by auto
    let ?t = "page_map_set_map [n] ((set_pool n mp stat s)\<lparr>node := (node s)(n := (node s n)\<lparr>pool := mp, mem_start := st, mem_end := en\<rparr>)\<rparr>)"
    have ev: "page_map_init [n] st en page_size s = Some (0, ?t)"
      using assms(5) mp(1) by (simp add: page_map_init_def set_pool_def not_less)
    have "node_ok (node ?t n) {}"
      using mp holds_init [OF mp(2)] o len assms(5) by (auto simp: node_ok_def pool_orders_def word_le_nat_alt page_map_set_map_def)
    then have "page_ok ?t [n] (\<lambda>_. {})" by (simp add: page_ok_def page_map_set_map_def)
    then show ?thesis using ev mp o by (simp add: page_map_set_map_def)
  next
    case False
    with i assms(5) show ?thesis by (auto simp: page_map_init_def not_less)
  qed
qed

text \<open>The first reservation from a new pool begins at its base.\<close>

lemma reserve_first:
  assumes "page_ok s [n] (\<lambda>_. {})" "mm_inv (pool (node s n)) [0 \<mapsto> (omax (pool (node s n)), True)]" "sz \<noteq> 0" "unat sz \<le> 2 ^ omax (pool (node s n))"
  shows "\<exists>ord s'. page_map_reserve_chunk sz s = Some (base (pool (node s n)), s') \<and> unat sz \<le> 2 ^ ord \<and> page_ok s' [n] (\<lambda>i. if i = n then {(base (pool (node s n)), ord)} else {})"
proof -
  let ?mp = "pool (node s n)"
  have g: "mm_geom ?mp" using assms(2) by (simp add: mm_inv_def mm_core_def)
  then have "(2::nat) ^ omax ?mp \<le> 2 ^ 31" by (intro power_increasing) (simp_all add: mm_geom_def)
  then have sz: "unat sz \<le> 2 ^ 31" using assms(4) by linarith
  have al: "fst (the (mm_alloc ?mp sz (pstat s))) = base ?mp \<and> mm_alloc ?mp sz (pstat s) \<noteq> None"
    using assms(2,3) sz
  proof (cases rule: mm_alloc_cases [where st = "pstat s"])
    case (too_big ord)
    have "omin ?mp \<le> omax ?mp" using g by (simp add: mm_geom_def)
    then show ?thesis using too_big(1,2) assms(4) by (auto simp: fits_order_def)
  next
    case (fail ord)
    then show ?thesis by (auto simp: live_def split: if_splits)
  next
    case (success ord off mp' st')
    then show ?thesis by (auto simp: alloc_done_def adr_0 split: if_splits)
  qed
  have pm: "page_mem s = Some [n]" using assms(1) by (simp add: page_ok_def)
  have b: "base ?mp \<noteq> 0" using g by (simp add: mm_geom_def)
  obtain r s' where r: "page_reserve_loop sz [n] s = Some (r, s')"
    "if r = 0 then page_ok s' [n] (\<lambda>_. {}) else \<exists>i \<in> set [n]. \<exists>ord. fits_order (pool (node s i)) sz ord \<and> (r, ord) \<notin> {} \<and> page_ok s' [n] ((\<lambda>_. {})(i := insert (r, ord) {}))"
    using reserve_loop_ok [OF assms(1) subset_refl _ assms(3) sz] by auto
  have "r = base ?mp" using r(1) al b by (auto simp: Let_def split: if_splits)
  then obtain ord where "fits_order ?mp sz ord" "page_ok s' [n] ((\<lambda>_. {})(n := {(base ?mp, ord)}))" using r(2) b by auto
  moreover have "(\<lambda>_. {})(n := {(base ?mp, ord)}) = (\<lambda>i. if i = n then {(base ?mp, ord)} else {})" by auto
  ultimately show ?thesis using r(1) \<open>r = base ?mp\<close> pm by (auto simp: page_map_reserve_chunk_def fits_order_def)
qed

section \<open>A small page map\<close>

definition demo_map :: "mm_pool \<Rightarrow> page_st" where
  "demo_map mp = \<lparr>node = (\<lambda>i. if i = 0 then \<lparr>pool = mp, mem_start = demo_base, mem_end = demo_base + 128\<rparr>
       else \<lparr>pool = demo_pool, mem_start = 0, mem_end = 0\<rparr>),
     page_mem = Some [0], page_map_list_full = [0], page_map_list_empty = [], pstat = demo_stat\<rparr>"

lemma demo_map_ok:
  assumes "mm_holds mp T" "base mp = demo_base" "omax mp = 7"
  shows "page_ok (demo_map mp) [0] (\<lambda>_. T)"
  using assms by (simp add: page_ok_def node_ok_def demo_map_def)

lemma demo_map_empty: "\<exists>mp. page_ok (demo_map mp) [0] (\<lambda>_. {})"
  using demo_init holds_init demo_map_ok by blast

lemma demo_map_one: "\<exists>mp. page_ok (demo_map mp) [0] (\<lambda>_. {(demo_base, 3)})"
proof -
  from demo_init obtain mp st where i: "mm_init demo_pool demo_base 128 8 demo_stat = Some (0, mp, st)" "mm_inv mp [0 \<mapsto> (7, True)]"
    "omax mp = 7" "omin mp = 3" "base mp = demo_base" by blast
  from demo_eval obtain mp' st' where a: "mm_alloc mp 8 st = Some (demo_base, mp', st')"
    by (auto simp: i(1) split: option.splits)
  from holds_alloc [OF holds_init [OF i(2)], of 8 st] a obtain ord where
    o: "fits_order mp 8 ord" "mm_holds mp' {(demo_base, ord)}" "same_pool mp mp'" by auto
  have "ord = 3" using o(1) i(4) by (intro fits_order_unique [OF o(1)]) (auto simp: fits_order_def)
  with o(2,3) i(3,5) show ?thesis by (intro exI [of _ mp'] demo_map_ok) (simp_all add: same_pool_def)
qed

section \<open>Properties\<close>

text \<open>C30: \<^verbatim>\<open>page_alloc\<close> on a consistent page map always returns.  A page it returns has the page size of
  its pool, overlaps no block in use in any pool, and its pool stays on the list of pools with pages.  It returns
  \<^verbatim>\<open>NULL\<close> only after every pool has refused, and no pool or block is lost.\<close>

theorem page_alloc_correct:
  assumes "page_ok s pg S"
  shows "\<exists>r s'. page_alloc s = Some (r, s') \<and>
     (if r = 0 then page_ok s' pg S \<and> page_map_list_full s' = []
      else \<exists>i \<in> set pg. page_ok s' pg (S(i := insert (r, unat (min_order (pool (node s i)))) (S i)))
        \<and> i \<in> set (page_map_list_full s')
        \<and> (\<forall>b \<in> page_blocks pg S. block_range b \<inter> block_range (r, unat (min_order (pool (node s i)))) = {}))"
proof -
  have F: "page_mem s = Some pg" "distinct (page_map_list_full s)" "set (page_map_list_full s) \<subseteq> set pg"
    using assms by (auto simp: page_ok_def)
  from page_alloc_loop_ok [OF assms F(2) subset_refl] obtain r s' where
    r: "page_alloc s = Some (r, s')" and
    c: "if r = 0 then page_ok s' pg S \<and> set (page_map_list_full s') = {}
      else \<exists>i \<in> set (page_map_list_full s). (r, omin (pool (node s i))) \<notin> S i \<and> page_ok s' pg (S(i := insert (r, omin (pool (node s i))) (S i)))
             \<and> i \<in> set (page_map_list_full s')" using F(1) by (auto simp: page_alloc_def)
  show ?thesis
  proof (cases "r = 0")
    case True
    with r c show ?thesis by auto
  next
    case False
    with c obtain i where i: "i \<in> set pg" "(r, omin (pool (node s i))) \<notin> S i" "i \<in> set (page_map_list_full s')"
      "page_ok s' pg (S(i := insert (r, omin (pool (node s i))) (S i)))" using F(3) by auto
    have "(r, omin (pool (node s i))) \<notin> page_blocks pg S" by (rule page_fresh [OF assms i(4,1,2)])
    with page_ok_disjoint [OF i(4)] have "\<forall>b \<in> page_blocks pg S. block_range b \<inter> block_range (r, omin (pool (node s i))) = {}"
      unfolding page_blocks_upd(1) [OF assms i(1)] by (auto simp: disjoint_blocks_def)
    with r i False show ?thesis by auto
  qed
qed

theorem page_alloc_correct_witness:
  "\<exists>mp r s'. page_ok (demo_map mp) [0] (\<lambda>_. {}) \<and> page_alloc (demo_map mp) = Some (r, s')"
proof -
  from demo_map_empty obtain mp where "page_ok (demo_map mp) [0] (\<lambda>_. {})" by blast
  with page_alloc_correct [OF this] show ?thesis by blast
qed

text \<open>\<^verbatim>\<open>page_free\<close> of a block in use, whichever pool it came from, returns it to that pool, leaves all other blocks
  in use, and puts the pool back on the list of pools with pages.\<close>

theorem page_free_correct:
  assumes "page_ok s pg S" "i \<in> set pg" "(a, k) \<in> S i"
  shows "\<exists>s'. page_free a s = Some s' \<and> page_ok s' pg (S(i := S i - {(a, k)})) \<and> i \<in> set (page_map_list_full s')
     \<and> page_map_get_chunk_size a s = Some (2 ^ k)"
  using page_free_ok [OF assms] page_size_ok [OF assms] by auto

theorem page_free_correct_witness:
  "\<exists>mp s'. page_free demo_base (demo_map mp) = Some s' \<and> 0 \<in> set (page_map_list_full s')"
proof -
  from demo_map_one obtain mp where "page_ok (demo_map mp) [0] (\<lambda>_. {(demo_base, 3)})" by blast
  from page_free_correct [OF this, of 0 demo_base 3] show ?thesis by auto
qed

text \<open>The page map is a store of blocks like a single pool: a chunk of any size up to \<^verbatim>\<open>2^31\<close> reserved from it is
  fresh, its reported size covers the request, and releasing it gives the blocks in use from before.\<close>

theorem page_map_reserve_correct:
  assumes "page_holds s T" "sz \<noteq> 0" "unat sz \<le> 2 ^ 31"
  shows "\<exists>r s'. page_map_reserve_chunk sz s = Some (r, s') \<and>
     (r \<noteq> 0 \<longrightarrow> (\<exists>n. page_map_get_chunk_size r s' = Some n \<and> sz \<le> n) \<and> (\<exists>s''. page_free r s' = Some s'' \<and> page_holds s'' T)
        \<and> (\<exists>ord. page_holds s' (insert (r, ord) T) \<and> (\<forall>b \<in> T. block_range b \<inter> block_range (r, ord) = {})))"
proof -
  from page_reserve_law [OF assms] obtain r s' where r: "page_map_reserve_chunk sz s = Some (r, s')" by blast
  then have p: "page_reserve s sz () = Some (r, s', ())" by (simp add: page_reserve_def)
  have "page_free r s' = Some s'' \<longleftrightarrow> page_release s' r () = Some (s'', ())" for s''
    by (auto simp: page_release_def)
  with page.size_after_alloc [OF assms p] page.alloc_release [OF assms p] page.alloc_fresh [OF assms p] r show ?thesis by auto
qed

theorem page_map_reserve_correct_witness:
  "\<exists>mp r s'. page_map_reserve_chunk 20 (demo_map mp) = Some (r, s')"
proof -
  from demo_map_one obtain mp where "page_ok (demo_map mp) [0] (\<lambda>_. {(demo_base, 3)})" by blast
  then have "page_holds (demo_map mp) (page_blocks [0] (\<lambda>_. {(demo_base, 3)}))" unfolding page_holds_def by blast
  from page_map_reserve_correct [OF this, of 20] show ?thesis by auto
qed

text \<open>Adding a memory range to a consistent page map, for a node just entered into the map, sets up its pool and keeps
  the map consistent, or reports an overlap and changes nothing; the range must not enclose one that is
  mapped already.\<close>

theorem page_map_add_correct:
  assumes "page_ok s pg S" "n \<notin> set pg" "max_order (pool (node s n)) = 0"
    and "8 \<le> unat (en - st)" "unat page_size \<le> 2 ^ 31" "st \<noteq> 0"
    and "pool_tracks (pool (node s n)) (en - st) page_size"
    and "st \<le> en" "page_size \<le> en - st" "page_size \<noteq> 0" "\<forall>i \<in> set pg. \<not> (st < mem_start (node s i) \<and> mem_end (node s i) < en)"
  shows "\<exists>e s'. page_map_add st en page_size (s\<lparr>page_mem := Some (pg @ [n])\<rparr>) = Some (e, s') \<and>
     (e = 0 \<and> page_ok s' (pg @ [n]) (S(n := {})) \<or> e = - EINVAL \<and> s' = s\<lparr>page_mem := Some (pg @ [n])\<rparr> \<or> e = - ENOMEM)"
  by (rule page_map_add_ok [OF assms])

theorem page_map_add_correct_witness:
  "\<exists>mp e s'. page_map_add 0x50000000 0x50000080 8 ((demo_map mp)\<lparr>page_mem := Some [0, 1]\<rparr>) = Some (e, s')"
proof -
  from demo_map_empty obtain mp where m: "page_ok (demo_map mp) [0] (\<lambda>_. {})" by blast
  have "max_order (pool (node (demo_map mp) 1)) = 0" "length (alloc_order (pool (node (demo_map mp) 1))) = 16"
    "length (blk_free (pool (node (demo_map mp) 1))) = 1" "mem_start (node (demo_map mp) 0) = demo_base"
    by (simp_all add: demo_map_def demo_pool_def)
  moreover from this have "pool_tracks (pool (node (demo_map mp) 1)) (0x50000080 - 0x50000000) 8" by (intro pool_tracks_bytes) simp_all
  ultimately show ?thesis using page_map_add_correct [OF m, of 1 "0x50000080" "0x50000000" 8] by auto
qed

text \<open>A range that encloses a mapped one is not recognised as an overlap: it is added, and the two pools share memory.\<close>

theorem page_map_add_nested:
  "\<exists>mp s'. page_ok (demo_map mp) [0] (\<lambda>_. {})
     \<and> page_map_add 0x3FFFFF80 0x40000100 32 ((demo_map mp)\<lparr>page_mem := Some [0, 1]\<rparr>) = Some (0, s')
     \<and> page_map_list_full s' = [0, 1] \<and> mem_start (node s' 1) < mem_start (node s' 0) \<and> mem_end (node s' 0) < mem_end (node s' 1)"
proof -
  from demo_map_empty obtain mp where m: "page_ok (demo_map mp) [0] (\<lambda>_. {})" by blast
  have "max_order mp \<noteq> 0"
    using page_okD(1) [OF m, of 0] holds_geom [of mp "{}"] by (auto simp: node_ok_def demo_map_def mm_geom_def)
  then have slot: "page_map_find_slot ((demo_map mp)\<lparr>page_mem := Some [0, 1]\<rparr>) 0x3FFFFF80 0x40000100 [0, 1] = Some (Slot 1)"
    by (simp add: demo_map_def demo_pool_def)
  have "case mm_init demo_pool 0x3FFFFF80 0x180 32 demo_stat of Some (e, _, _) \<Rightarrow> e = 0 | None \<Rightarrow> False" by code_simp
  then obtain mp' st' where "mm_init demo_pool 0x3FFFFF80 0x180 32 demo_stat = Some (0, mp', st')" by (auto split: option.splits)
  with slot have "\<exists>s'. page_map_add 0x3FFFFF80 0x40000100 32 ((demo_map mp)\<lparr>page_mem := Some [0, 1]\<rparr>) = Some (0, s')
     \<and> page_map_list_full s' = [0, 1] \<and> mem_start (node s' 1) < mem_start (node s' 0) \<and> mem_end (node s' 0) < mem_end (node s' 1)"
    by (simp add: page_map_add_def) (simp add: demo_map_def set_pool_def)
  with m show ?thesis by blast
qed

text \<open>\<^verbatim>\<open>page_map_init\<close> links every node of the map, also those that have no pool yet; adding memory for such a
  node links it a second time, which destroys the lists.\<close>

theorem page_map_add_linked_twice:
  "case page_map_init [0, 1] demo_base (demo_base + 128) 8 (demo_map demo_pool) of
     Some (e, s) \<Rightarrow> e = 0 \<and> page_map_list_full s = [0, 1] \<and> page_map_add 0x50000000 0x50000080 8 s = None
   | None \<Rightarrow> False"
  by code_simp

end
