(* ===== verification/Bootmem.thy ===== *)
theory Bootmem
  imports Chunk_Spec Page
begin

text \<open>
  The boot memory allocator (\<^verbatim>\<open>arch/sparc/kernel/bootmem.c\<close>): chunks in blocks of the page map.  \<open>on_demand\<close> is the
  setting \<^verbatim>\<open>CONFIG_SPARC_BOOTMEM_REQUEST_NEW_ON_DEMAND\<close>; without it only one block is taken from the page map.  The
  spin lock makes each operation atomic.  Running out of memory is a \<^verbatim>\<open>BUG\<close> and so \<^term>\<open>None\<close>.
\<close>

section \<open>Operations\<close>

record boot_src =
  bm_blocked :: bool
  bm_pages :: page_st

type_synonym boot_pool = "boot_src chunk_pool"

abbreviation (input) STACK_ALIGN :: u32 where "STACK_ALIGN \<equiv> 8"

definition bootmem_alloc_internal :: "bool \<Rightarrow> u32 \<Rightarrow> boot_src \<Rightarrow> (u32 \<times> boot_src) option" where
  "bootmem_alloc_internal on_demand sz s =
     (if \<not> on_demand \<and> bm_blocked s then Some (0, s)
      else do {
        let s = (if on_demand then s else s\<lparr>bm_blocked := True\<rparr>);
        (ptr, pg) \<leftarrow> page_map_reserve_chunk sz (bm_pages s);
        Some (ptr, s\<lparr>bm_pages := pg\<rparr>)
      })"

definition bootmem_free_internal :: "u32 \<Rightarrow> boot_src \<Rightarrow> boot_src option" where
  "bootmem_free_internal ptr s = do { pg \<leftarrow> page_free ptr (bm_pages s); Some (s\<lparr>bm_pages := pg\<rparr>) }"

definition bootmem_get_alloc_size :: "u32 \<Rightarrow> boot_src \<Rightarrow> u32 option" where
  "bootmem_get_alloc_size ptr s = page_map_get_chunk_size ptr (bm_pages s)"

definition boot_fns :: "bool \<Rightarrow> boot_src chunk_fns" where
  "boot_fns on_demand = \<lparr>ca_alloc = Some (bootmem_alloc_internal on_demand), ca_free = bootmem_free_internal, ca_real = Some bootmem_get_alloc_size\<rparr>"

definition bootmem_alloc :: "bool \<Rightarrow> u32 \<Rightarrow> boot_pool \<Rightarrow> (u32 \<times> boot_pool) option" where
  "bootmem_alloc on_demand sz P =
     (if sz = 0 then Some (0, P)
      else do { (ptr, P) \<leftarrow> chunk_alloc (boot_fns on_demand) sz P; if ptr = 0 then None else Some (ptr, P) })"

definition bootmem_free :: "bool \<Rightarrow> u32 \<Rightarrow> boot_pool \<Rightarrow> boot_pool option" where
  "bootmem_free on_demand ptr P = chunk_free (boot_fns on_demand) ptr P"

section \<open>Initialisation\<close>

text \<open>The settings, and the memory banks of the machine with their addresses and sizes.\<close>

record boot_cfg =
  cfg_on_demand :: bool
  cfg_order_max :: nat
  cfg_order_min :: nat
  cfg_map_entries :: nat
  sp_banks :: "(u32 \<times> u32) list"

text \<open>The bank of the image; the loop also ends at an entry of size 0, and reads behind the array if there is none.\<close>

fun find_bank :: "u32 \<Rightarrow> u32 \<Rightarrow> (u32 \<times> u32) list \<Rightarrow> (u32 \<times> u32) option" where
  "find_bank start_pfn start_img [] = None"
| "find_bank start_pfn start_img ((b, n) # bs) =
     (if n = 0 then Some (0, start_img)
      else if start_pfn < b then find_bank start_pfn start_img bs
      else if start_pfn < b + n then Some (b + n, if start_img \<noteq> b then b else start_img)
      else find_bank start_pfn start_img bs)"

definition upd_pages :: "(page_st \<Rightarrow> page_st) \<Rightarrow> boot_pool \<Rightarrow> boot_pool" where
  "upd_pages f P = P\<lparr>cstore := (cstore P)\<lparr>bm_pages := f (bm_pages (cstore P))\<rparr>\<rparr>"

definition upd_pool :: "nat \<Rightarrow> (mm_pool \<Rightarrow> mm_pool) \<Rightarrow> page_st \<Rightarrow> page_st" where
  "upd_pool n f s = s\<lparr>node := (node s)(n := (node s n)\<lparr>pool := f (pool (node s n))\<rparr>)\<rparr>"

text \<open>\<open>junk\<close> is what the memory of a new node and of its arrays holds.\<close>

definition bootmem_init_page_map_node :: "boot_cfg \<Rightarrow> page_map_node \<Rightarrow> nat \<Rightarrow> boot_pool \<Rightarrow> boot_pool option" where
  "bootmem_init_page_map_node cfg junk n P = do {
     let od = cfg_on_demand cfg;
     let nb = mm_num_blocks_trackable (word_of_nat (cfg_order_max cfg)) (word_of_nat (cfg_order_min cfg));
     (_, P) \<leftarrow> bootmem_alloc od 20 P;
     let P = upd_pages (\<lambda>s. s\<lparr>page_mem := map_option (\<lambda>pg. pg @ [n]) (page_mem s), node := (node s)(n := junk)\<rparr>) P;
     (_, P) \<leftarrow> bootmem_alloc od 32 P;
     let P = upd_pages (upd_pool n (\<lambda>_. \<lparr>base = 0, max_order = 0, min_order = 0, n_blks = 0, alloc_blks = 0, alloc_order = [], blk_free = [],
               links = links (pool junk)\<rparr>)) P;
     (_, P) \<leftarrow> bootmem_alloc od (8 * word_of_nat (cfg_order_max cfg + 1)) P;
     (_, P) \<leftarrow> bootmem_alloc od nb P;
     let P = upd_pages (upd_pool n (\<lambda>mp. mp\<lparr>alloc_order := alloc_order (pool junk)\<rparr>)) P;
     (_, P) \<leftarrow> bootmem_alloc od (4 * (word_of_nat (bits_to_longs (unat nb)) + 1)) P;
     Some (upd_pages (upd_pool n (\<lambda>mp. mp\<lparr>blk_free := blk_free (pool junk)\<rparr>)) P)
   }"

fun bootmem_add_banks :: "boot_cfg \<Rightarrow> (nat \<Rightarrow> page_map_node) \<Rightarrow> u32 \<Rightarrow> nat \<Rightarrow> (u32 \<times> u32) list \<Rightarrow> boot_pool \<Rightarrow> boot_pool option" where
  "bootmem_add_banks cfg junk base_pfn n [] P = Some P"
| "bootmem_add_banks cfg junk base_pfn n ((b, sz) # bs) P =
     (if base_pfn = b then bootmem_add_banks cfg junk base_pfn n bs P
      else if cfg_map_entries cfg < n then Some P
      else do {
        P \<leftarrow> bootmem_init_page_map_node cfg (junk n) n P;
        (ret, s) \<leftarrow> page_map_add b (b + sz) 0x1000 (bm_pages (cstore P));
        if ret = - ENOMEM then None
        else bootmem_add_banks cfg junk base_pfn (n + 1) bs (upd_pages (\<lambda>_. s) P)
      })"

text \<open>\<open>st\<close> and \<open>en\<close> are the addresses of \<^verbatim>\<open>_start\<close> and \<^verbatim>\<open>_end\<close>; node 0 of the page map has its pool statically.\<close>

definition bootmem_init :: "boot_cfg \<Rightarrow> (nat \<Rightarrow> page_map_node) \<Rightarrow> u32 \<Rightarrow> u32 \<Rightarrow> boot_pool \<Rightarrow> boot_pool option" where
  "bootmem_init cfg junk st en P = do {
     let start_img_pfn = page_align st;
     let start_pfn = page_align en;
     (end_pfn, base_pfn) \<leftarrow> find_bank start_pfn start_img_pfn (sp_banks cfg);
     if end_pfn = 0 then None
     else if unat (end_pfn - base_pfn) > 2 ^ cfg_order_max cfg then None
     else if 0x1000 < (2 :: nat) ^ cfg_order_min cfg then None
     else do {
       (e, s) \<leftarrow> page_map_init [0] base_pfn end_pfn 0x1000 (bm_pages (cstore P));
       if e \<noteq> 0 then None
       else do {
         (r, s) \<leftarrow> page_map_reserve_chunk (start_pfn - base_pfn) s;
         if r = 0 then None
         else bootmem_add_banks cfg junk base_pfn 1 (sp_banks cfg) (chunk_pool_init STACK_ALIGN (upd_pages (\<lambda>_. s) P))
       }
     }
   }"

section \<open>The page map as the higher tier\<close>

definition same_bases :: "page_st \<Rightarrow> page_st \<Rightarrow> bool" where
  "same_bases s s' \<longleftrightarrow> page_mem s' = page_mem s \<and> (\<forall>i. base (pool (node s' i)) = base (pool (node s i)))"

lemma same_bases_refl [simp]: "same_bases s s"
  by (simp add: same_bases_def)

lemma same_bases_trans: "same_bases s t \<Longrightarrow> same_bases t u \<Longrightarrow> same_bases s u"
  by (simp add: same_bases_def)

lemma same_bases_pool: "base mp = base (pool (node s i)) \<Longrightarrow> same_bases s (set_pool i mp st s)"
  by (simp add: same_bases_def set_pool_def)

lemma same_bases_lists [simp]: "same_bases s (t\<lparr>page_map_list_full := F, page_map_list_empty := E\<rparr>) = same_bases s t"
  "same_bases s (t\<lparr>page_map_list_empty := E, page_map_list_full := F\<rparr>) = same_bases s t"
  by (simp_all add: same_bases_def)

lemma alloc_base:
  assumes "page_ok s pg S" "i \<in> set pg" "sz \<noteq> 0" "unat sz \<le> 2 ^ 31" "mm_alloc (pool (node s i)) sz (pstat s) = Some (r, mp, st)"
  shows "base mp = base (pool (node s i))" "r = 0 \<longrightarrow> mp = pool (node s i)"
proof -
  have h: "mm_holds (pool (node s i)) (S i)" using page_okD(1) [OF assms(1,2)] by (simp add: node_ok_def)
  show "base mp = base (pool (node s i))" "r = 0 \<longrightarrow> mp = pool (node s i)"
    using holds_alloc [OF h assms(3,4), of "pstat s"] assms(5) by (auto simp: same_pool_def split: if_splits)
qed

lemma same_pool_refl: "same_pool mp mp"
  by (simp add: same_pool_def)

lemma reserve_bases:
  assumes "page_ok s pg S" "set is \<subseteq> set pg" "sz \<noteq> 0" "unat sz \<le> 2 ^ 31" "page_reserve_loop sz is s = Some (r, s')"
  shows "same_bases s s'"
  using assms(1,2,5)
proof (induction "is" arbitrary: s)
  case (Cons i js)
  have i: "i \<in> set pg" using Cons.prems(2) by simp
  obtain m mp st where a: "mm_alloc (pool (node s i)) sz (pstat s) = Some (m, mp, st)"
    using Cons.prems(3) by (cases "mm_alloc (pool (node s i)) sz (pstat s)") auto
  note b = alloc_base [OF Cons.prems(1) i assms(3,4) a]
  have s: "same_bases s (set_pool i mp st s)" by (rule same_bases_pool [OF b(1)])
  show ?case
  proof (cases "m \<noteq> 0 \<or> js = []")
    case True
    then show ?thesis using Cons.prems(3) a s by (auto simp: Let_def split: if_splits)
  next
    case False
    then have mp: "mp = pool (node s i)" using b(2) by simp
    have h: "mm_holds (pool (node s i)) (S i)" using page_okD(1) [OF Cons.prems(1) i] by (simp add: node_ok_def)
    have "page_ok (set_pool i mp st s) pg (S(i := S i))" unfolding mp by (rule page_ok_pool [OF Cons.prems(1) i h same_pool_refl])
    then have ok: "page_ok (set_pool i mp st s) pg S" by simp
    have "page_reserve_loop sz js (set_pool i mp st s) = Some (r, s')" using Cons.prems(3) a False by simp
    from Cons.IH [OF ok _ this] Cons.prems(2) s show ?thesis by (auto intro: same_bases_trans)
  qed
qed simp

lemma page_alloc_bases:
  assumes "page_ok s pg S" "set is \<subseteq> set (page_map_list_full s)" "distinct is" "page_alloc_loop is s = Some (r, s')"
  shows "same_bases s s'"
  using assms
proof (induction "is" arbitrary: s)
  case (Cons i js)
  have i: "i \<in> set pg" "i \<in> set (page_map_list_full s)" using Cons.prems(1,2) by (auto simp: page_ok_def)
  have h: "mm_holds (pool (node s i)) (S i)" using page_okD(1) [OF Cons.prems(1) i(1)] by (simp add: node_ok_def)
  note z = page_size_le [OF holds_geom [OF h]]
  obtain m mp st where a: "mm_alloc (pool (node s i)) (page_size_of (pool (node s i))) (pstat s) = Some (m, mp, st)"
    using Cons.prems(4) by (cases "mm_alloc (pool (node s i)) (page_size_of (pool (node s i))) (pstat s)") auto
  note b = alloc_base [OF Cons.prems(1) i(1) z(1,3) a]
  have s: "same_bases s (set_pool i mp st s)" by (rule same_bases_pool [OF b(1)])
  show ?case
  proof (cases "m = 0")
    case False
    then show ?thesis using Cons.prems(4) a s by simp
  next
    case True
    let ?s = "(set_pool i mp st s)\<lparr>page_map_list_full := remove1 i (page_map_list_full s), page_map_list_empty := page_map_list_empty s @ [i]\<rparr>"
    have mp: "mp = pool (node s i)" using b(2) True by simp
    have "page_ok (set_pool i mp st s) pg (S(i := S i))" unfolding mp by (rule page_ok_pool [OF Cons.prems(1) i(1) h same_pool_refl])
    then have ok: "page_ok ?s pg S" using i Cons.prems(1) by (intro page_ok_lists) (auto simp: page_ok_def set_remove1_eq)
    have sub: "set js \<subseteq> set (page_map_list_full ?s)" using Cons.prems(1-3) by (auto simp: page_ok_def set_remove1_eq)
    have run: "page_alloc_loop js ?s = Some (r, s')" using Cons.prems(4) a True by simp
    have "same_bases ?s s'" by (rule Cons.IH [OF ok sub _ run]) (use Cons.prems(3) in simp)
    moreover have "same_bases s ?s" using s by simp
    ultimately show ?thesis by (rule same_bases_trans [rotated])
  qed
qed simp

lemma page_free_bases:
  assumes "page_ok s pg S" "i \<in> set pg" "(a, k) \<in> S i" "page_free a s = Some s'"
  shows "same_bases s s'"
proof -
  have n: "mm_holds (pool (node s i)) (S i)" using page_okD(1) [OF assms(1,2)] by (simp add: node_ok_def)
  from holds_free [OF n assms(3), of "pstat s"] obtain mp st where
    f: "mm_free (pool (node s i)) a (pstat s) = Some (mp, st)" "base mp = base (pool (node s i))" by (auto simp: same_pool_def)
  have s: "same_bases s (set_pool i mp st s)" by (rule same_bases_pool [OF f(2)])
  have sub: "set (page_map_list_empty s) \<subseteq> set pg" "set (page_map_list_full s) \<subseteq> set pg" using assms(1) by (auto simp: page_ok_def)
  note e = find_pool_ok [OF assms(1-3) sub(1)] find_pool_ok [OF assms(1-3) sub(2)]
  show ?thesis using assms(4) e f(1) s unfolding page_free_def by (auto simp: Let_def split: if_splits)
qed


definition boot_holds :: "boot_src \<Rightarrow> (u32 \<times> u32) set \<Rightarrow> bool" where
  "boot_holds s T \<longleftrightarrow> (\<exists>pg S. page_ok (bm_pages s) pg S \<and> (\<forall>i \<in> set pg. unat (base (pool (node (bm_pages s) i))) mod 8 = 0)
     \<and> T = (\<lambda>(a, k). (a, 2 ^ k)) ` page_blocks pg S)"

lemma block_place:
  assumes "page_ok s pg S" "i \<in> set pg" "unat (base (pool (node s i))) mod 8 = 0" "(a, k) \<in> S i"
  shows "a \<noteq> 0" "unat a mod 8 = 0" "unat a + 2 ^ k < 2 ^ 32" "k \<le> 31" "unat (2 ^ k :: u32) = 2 ^ k"
proof -
  have h: "mm_holds (pool (node s i)) (S i)" using page_okD(1) [OF assms(1,2)] by (simp add: node_ok_def)
  then obtain B off where B: "mm_inv (pool (node s i)) B" "B off = Some (k, False)" "a = adr (pool (node s i)) off"
    using assms(4) by (auto simp: mm_holds_def live_def)
  note b = inv_bound [OF B(1,2)]
  have g: "unat (base (pool (node s i))) + 2 ^ omax (pool (node s i)) < 2 ^ 32" "3 \<le> k" "k \<le> 31" "base (pool (node s i)) \<noteq> 0"
    using b(3,4,7) by (auto simp: mm_geom_def)
  have "(2 :: nat) ^ 3 dvd 2 ^ k" using g(2) by (rule le_imp_power_dvd)
  then have "8 dvd off" using b(5) dvd_trans by fastforce
  then show "unat a mod 8 = 0" using assms(3) b(1) B(3) by (simp add: mod_add_eq [symmetric] dvd_eq_mod_eq_0)
  show "unat a + 2 ^ k < 2 ^ 32" using b(1,2) g(1) B(3) by simp
  have "unat (base (pool (node s i))) \<noteq> 0" using g(4) by (simp add: unat_eq_zero)
  then show "a \<noteq> 0" using b(1) B(3) by auto
  show "k \<le> 31" by (rule g(3))
  then show "unat (2 ^ k :: u32) = 2 ^ k" by (simp add: unat_2p)
qed

lemma boot_holdsE:
  assumes "boot_holds s T"
  obtains pg S where "page_ok (bm_pages s) pg S" "\<forall>i \<in> set pg. unat (base (pool (node (bm_pages s) i))) mod 8 = 0"
    "T = (\<lambda>(a, k). (a, 2 ^ k)) ` page_blocks pg S" "inj_on (\<lambda>(a, k). (a, 2 ^ k :: u32)) (page_blocks pg S)"
proof -
  obtain pg S where p: "page_ok (bm_pages s) pg S" "\<forall>i \<in> set pg. unat (base (pool (node (bm_pages s) i))) mod 8 = 0"
    "T = (\<lambda>(a, k). (a, 2 ^ k)) ` page_blocks pg S" using assms by (auto simp: boot_holds_def)
  have "x = y" if "x \<in> page_blocks pg S" "y \<in> page_blocks pg S" "(\<lambda>(a, k). (a, 2 ^ k :: u32)) x = (\<lambda>(a, k). (a, 2 ^ k)) y" for x y
  proof -
    obtain a k b l where xy: "x = (a, k)" "y = (b, l)" by (cases x; cases y)
    have u: "unat (2 ^ k :: u32) = 2 ^ k" "unat (2 ^ l :: u32) = 2 ^ l"
      using that(1,2) xy p(2) block_place(5) [OF p(1)] by (auto simp: page_blocks_def)
    have e: "a = b" "(2 ^ k :: u32) = 2 ^ l" using that(3) xy by simp_all
    have "(2 :: nat) ^ k = 2 ^ l" using arg_cong [OF e(2), of unat] by (simp only: u)
    then show ?thesis using e(1) xy by simp
  qed
  then have "inj_on (\<lambda>(a, k). (a, 2 ^ k :: u32)) (page_blocks pg S)" by (rule inj_onI)
  then show ?thesis by (rule that [OF p])
qed

lemma boot_holdsI:
  "page_ok pst pg S \<Longrightarrow> same_bases (bm_pages s) pst \<Longrightarrow> page_mem (bm_pages s) = Some pg \<Longrightarrow>
     \<forall>i \<in> set pg. unat (base (pool (node (bm_pages s) i))) mod 8 = 0 \<Longrightarrow>
     boot_holds (s\<lparr>bm_pages := pst\<rparr>) ((\<lambda>(a, k). (a, 2 ^ k)) ` page_blocks pg S)"
  unfolding boot_holds_def by (intro exI [of _ pg] exI [of _ S]) (simp add: same_bases_def)

lemma boot_holds_blocked [simp]: "boot_holds (s\<lparr>bm_blocked := b\<rparr>) T = boot_holds s T"
  by (simp add: boot_holds_def)

lemma boot_alloc_law:
  assumes "boot_holds s T" "sz \<noteq> 0" "unat sz \<le> 2 ^ 31"
  shows "\<exists>r s'. bootmem_alloc_internal od sz s = Some (r, s') \<and>
      (if r = 0 then boot_holds s' T else \<exists>n. sz \<le> n \<and> (r, n) \<notin> T \<and> boot_holds s' (insert (r, n) T))"
proof (cases "\<not> od \<and> bm_blocked s")
  case True
  then show ?thesis using assms(1) by (simp add: bootmem_alloc_internal_def)
next
  case False
  let ?s = "if od then s else s\<lparr>bm_blocked := True\<rparr>"
  have ps: "bm_pages ?s = bm_pages s" by simp
  have T': "boot_holds ?s T" using assms(1) by simp
  obtain pg S where p: "page_ok (bm_pages s) pg S" "\<forall>i \<in> set pg. unat (base (pool (node (bm_pages s) i))) mod 8 = 0"
    "T = (\<lambda>(a, k). (a, 2 ^ k)) ` page_blocks pg S" "inj_on (\<lambda>(a, k). (a, 2 ^ k :: u32)) (page_blocks pg S)" by (rule boot_holdsE [OF assms(1)])
  have pg: "page_mem (bm_pages s) = Some pg" "pg \<noteq> []" using p(1) by (auto simp: page_ok_def)
  obtain r s' where r: "page_reserve_loop sz pg (bm_pages s) = Some (r, s')"
    "if r = 0 then page_ok s' pg S
     else \<exists>i \<in> set pg. \<exists>ord. fits_order (pool (node (bm_pages s) i)) sz ord \<and> (r, ord) \<notin> S i \<and> page_ok s' pg (S(i := insert (r, ord) (S i)))"
    using reserve_loop_ok [OF p(1) subset_refl pg(2) assms(2,3)] by blast
  have bs: "same_bases (bm_pages s) s'" by (rule reserve_bases [OF p(1) subset_refl assms(2,3) r(1)])
  have ev: "bootmem_alloc_internal od sz s = Some (r, ?s\<lparr>bm_pages := s'\<rparr>)"
    using False r(1) pg(1) unfolding bootmem_alloc_internal_def by (auto simp: page_map_reserve_chunk_def Let_def)
  have bI: "boot_holds (?s\<lparr>bm_pages := s'\<rparr>) ((\<lambda>(a, k). (a, 2 ^ k)) ` page_blocks pg S')" if "page_ok s' pg S'" for S'
    by (rule boot_holdsI [OF that]) (use bs pg(1) p(2) in simp_all)
  show ?thesis
  proof (cases "r = 0")
    case True
    then show ?thesis using ev bI [of S] r(2) p(3) by simp
  next
    case False
    then obtain i ord where i: "i \<in> set pg" "fits_order (pool (node (bm_pages s) i)) sz ord" "(r, ord) \<notin> S i"
      "page_ok s' pg (S(i := insert (r, ord) (S i)))" using r(2) by auto
    have new: "page_blocks pg (S(i := insert (r, ord) (S i))) = insert (r, ord) (page_blocks pg S)" by (rule page_blocks_upd(1) [OF p(1) i(1)])
    have h: "boot_holds (?s\<lparr>bm_pages := s'\<rparr>) (insert (r, 2 ^ ord) T)" using bI [OF i(4)] new p(3) by simp
    have bi: "\<forall>j \<in> set pg. unat (base (pool (node s' j))) mod 8 = 0" using bs p(2) by (simp add: same_bases_def)
    have ord: "ord \<le> 31" "unat (2 ^ ord :: u32) = 2 ^ ord" using block_place(4,5) [OF i(4,1), of r ord] bi i(1) by auto
    have "sz \<le> 2 ^ ord" using i(2) ord by (simp add: fits_order_def word_le_nat_alt)
    moreover have "(r, 2 ^ ord) \<notin> T"
    proof
      assume "(r, 2 ^ ord) \<in> T"
      then obtain k where k: "(r, k) \<in> page_blocks pg S" "(2 ^ ord :: u32) = 2 ^ k" using p(3) by auto
      have u: "unat (2 ^ k :: u32) = 2 ^ k" using k(1) p(2) block_place(5) [OF p(1)] by (auto simp: page_blocks_def)
      have "(2 :: nat) ^ ord = 2 ^ k" using arg_cong [OF k(2), of unat] by (simp only: u ord(2))
      then have "(r, ord) \<in> page_blocks pg S" using k(1) by simp
      then show False using page_fresh [OF p(1) i(4,1,3)] by simp
    qed
    ultimately show ?thesis using ev h False by (intro exI [of _ r] exI [of _ "?s\<lparr>bm_pages := s'\<rparr>"]) auto
  qed
qed

lemma boot_release_law:
  assumes "boot_holds s T" "(a, n) \<in> T"
  shows "\<exists>s'. bootmem_free_internal a s = Some s' \<and> boot_holds s' (T - {(a, n)})"
proof -
  obtain pg S where p: "page_ok (bm_pages s) pg S" "\<forall>i \<in> set pg. unat (base (pool (node (bm_pages s) i))) mod 8 = 0"
    "T = (\<lambda>(a, k). (a, 2 ^ k)) ` page_blocks pg S" "inj_on (\<lambda>(a, k). (a, 2 ^ k :: u32)) (page_blocks pg S)" by (rule boot_holdsE [OF assms(1)])
  obtain i k where i: "i \<in> set pg" "(a, k) \<in> S i" "n = 2 ^ k" using assms(2) p(3) by (auto simp: page_blocks_def)
  obtain s' where f: "page_free a (bm_pages s) = Some s'" "page_ok s' pg (S(i := S i - {(a, k)}))" using page_free_ok [OF p(1) i(1,2)] by blast
  have bs: "same_bases (bm_pages s) s'" by (rule page_free_bases [OF p(1) i(1,2) f(1)])
  have mem: "{(a, k)} \<subseteq> page_blocks pg S" using i by (auto simp: page_blocks_def)
  have "(\<lambda>(a, k). (a, 2 ^ k)) ` (page_blocks pg S - {(a, k)}) = T - {(a, n)}"
    using inj_on_image_set_diff [OF p(4) Diff_subset mem] i(3) p(3) by simp
  then have "boot_holds (s\<lparr>bm_pages := s'\<rparr>) (T - {(a, n)})"
    using boot_holdsI [OF f(2) bs _ p(2)] p(1) page_blocks_upd(2) [OF p(1) i(1,2)] by (simp add: page_ok_def)
  then show ?thesis using f(1) by (simp add: bootmem_free_internal_def)
qed

lemma pow2_nat_apart:
  assumes "block_range (a, k) \<inter> block_range (b, l) = {}"
  shows "unat a + 2 ^ k \<le> unat b \<or> unat b + 2 ^ l \<le> unat a"
proof (rule ccontr)
  assume "\<not> ?thesis"
  then have "max (unat a) (unat b) \<in> block_range (a, k) \<inter> block_range (b, l)" by (auto simp: block_range_def max_def)
  then show False using assms by simp
qed

interpretation boot: chunk_source boot_holds "bootmem_alloc_internal od" bootmem_free_internal bootmem_get_alloc_size for od
proof
  fix p S and sz :: u32 assume "boot_holds p S" "sz \<noteq> 0" "unat sz \<le> 2 ^ 31"
  then show "\<exists>r p'. bootmem_alloc_internal od sz p = Some (r, p') \<and>
      (if r = 0 then boot_holds p' S else \<exists>n. sz \<le> n \<and> (r, n) \<notin> S \<and> boot_holds p' (insert (r, n) S))" by (rule boot_alloc_law)
next
  fix p S a n assume h: "boot_holds p S" "(a, n) \<in> S"
  show "\<exists>p'. bootmem_free_internal a p = Some p' \<and> boot_holds p' (S - {(a, n)})" by (rule boot_release_law [OF h])
  obtain pg B where p: "page_ok (bm_pages p) pg B" "\<forall>i \<in> set pg. unat (base (pool (node (bm_pages p) i))) mod 8 = 0"
    "S = (\<lambda>(a, k). (a, 2 ^ k)) ` page_blocks pg B" by (rule boot_holdsE [OF h(1)])
  obtain i k where i: "i \<in> set pg" "(a, k) \<in> B i" "n = 2 ^ k" using h(2) p(3) by (auto simp: page_blocks_def)
  show "bootmem_get_alloc_size a p = Some n" using page_size_ok [OF p(1) i(1,2)] i(3) by (simp add: bootmem_get_alloc_size_def)
  show "a \<noteq> 0 \<and> unat a mod 8 = 0 \<and> unat a + unat n < 2 ^ 32" using block_place [OF p(1) i(1) _ i(2)] p(2) i(1,3) by simp
next
  fix p S x y assume h: "boot_holds p S" "x \<in> S" "y \<in> S" "x \<noteq> y"
  obtain pg B where p: "page_ok (bm_pages p) pg B" "\<forall>i \<in> set pg. unat (base (pool (node (bm_pages p) i))) mod 8 = 0"
    "S = (\<lambda>(a, k). (a, 2 ^ k)) ` page_blocks pg B" by (rule boot_holdsE [OF h(1)])
  obtain a k where x: "(a, k) \<in> page_blocks pg B" "x = (a, 2 ^ k)" using h(2) p(3) by auto
  obtain b l where y: "(b, l) \<in> page_blocks pg B" "y = (b, 2 ^ l)" using h(3) p(3) by auto
  have u: "unat (2 ^ k :: u32) = 2 ^ k" "unat (2 ^ l :: u32) = 2 ^ l" using x(1) y(1) p(2) block_place(5) [OF p(1)] by (auto simp: page_blocks_def)
  have "(a, k) \<noteq> (b, l)" using h(4) x(2) y(2) by auto
  then have "block_range (a, k) \<inter> block_range (b, l) = {}" using page_ok_disjoint [OF p(1)] x(1) y(1) by (auto simp: disjoint_blocks_def)
  from pow2_nat_apart [OF this] show "apart_from x y" using u x(2) y(2) by (simp add: apart_from_def)
qed

end
