(* ===== verification/Bootmem_Spec.thy ===== *)
theory Bootmem_Spec
  imports Bootmem
begin

text \<open>
  Reachable states of the boot memory allocator, which shares the page map with the other users of pages, and the properties
  of its operations.
\<close>

section \<open>Pages of others\<close>

lemma boot_page_alloc:
  assumes "boot_holds s T" "page_alloc (bm_pages s) = Some (a, pg')" "a \<noteq> 0" "page_map_get_chunk_size a pg' = Some n"
  shows "(a, n) \<notin> T" "boot_holds (s\<lparr>bm_pages := pg'\<rparr>) (insert (a, n) T)"
proof -
  obtain pg S where p: "page_ok (bm_pages s) pg S" "\<forall>i \<in> set pg. unat (base (pool (node (bm_pages s) i))) mod 8 = 0"
    "T = (\<lambda>(a, k). (a, 2 ^ k)) ` page_blocks pg S" "inj_on (\<lambda>(a, k). (a, 2 ^ k :: u32)) (page_blocks pg S)" by (rule boot_holdsE [OF assms(1)])
  have F: "page_mem (bm_pages s) = Some pg" "distinct (page_map_list_full (bm_pages s))" "set (page_map_list_full (bm_pages s)) \<subseteq> set pg"
    using p(1) by (auto simp: page_ok_def)
  have run: "page_alloc_loop (page_map_list_full (bm_pages s)) (bm_pages s) = Some (a, pg')" using assms(2) F(1) by (simp add: page_alloc_def)
  obtain i k where i: "i \<in> set pg" "(a, k) \<notin> S i" "page_ok pg' pg (S(i := insert (a, k) (S i)))"
    using page_alloc_loop_ok [OF p(1) F(2) subset_refl] run assms(3) F(3) by auto
  have bs: "same_bases (bm_pages s) pg'" by (rule page_alloc_bases [OF p(1) subset_refl F(2) run])
  have new: "page_blocks pg (S(i := insert (a, k) (S i))) = insert (a, k) (page_blocks pg S)" by (rule page_blocks_upd(1) [OF p(1) i(1)])
  have n: "n = 2 ^ k" using page_size_ok [OF i(3,1), of a k] assms(4) by simp
  show h: "boot_holds (s\<lparr>bm_pages := pg'\<rparr>) (insert (a, n) T)"
    using boot_holdsI [OF i(3) bs F(1) p(2)] new n p(3) by simp
  show "(a, n) \<notin> T"
  proof
    assume "(a, n) \<in> T"
    then obtain l where l: "(a, l) \<in> page_blocks pg S" "n = 2 ^ l" using p(3) by auto
    have bi: "\<forall>j \<in> set pg. unat (base (pool (node pg' j))) mod 8 = 0" using bs p(2) by (simp add: same_bases_def)
    have u: "unat (2 ^ k :: u32) = 2 ^ k" using block_place(5) [OF i(3,1), of a k] bi i(1) by auto
    have v: "unat (2 ^ l :: u32) = 2 ^ l" using l(1) p(2) block_place(5) [OF p(1)] by (auto simp: page_blocks_def)
    have e: "(2 ^ k :: u32) = 2 ^ l" using n l(2) by simp
    have "(2 :: nat) ^ k = 2 ^ l" using arg_cong [OF e, of unat] by (simp only: u v)
    then have "(a, k) \<in> page_blocks pg S" using l(1) by simp
    then show False using page_fresh [OF p(1) i(3,1,2)] by simp
  qed
qed

section \<open>Reachable states\<close>

inductive boot_reach :: "bool \<Rightarrow> boot_pool \<Rightarrow> (u32 \<times> u32) set \<Rightarrow> (u32 \<times> u32) set \<Rightarrow> bool" for od where
  init: "boot_holds (cstore P) R \<Longrightarrow> boot_reach od (chunk_pool_init STACK_ALIGN P) {} R"
| alloc: "boot_reach od P B R \<Longrightarrow> sz \<noteq> 0 \<Longrightarrow> unat sz \<le> 2 ^ 31 - 48 \<Longrightarrow> bootmem_alloc od sz P = Some (r, P')
    \<Longrightarrow> boot_reach od P' (insert (r, chunk_bytes sz - 40) B) R"
| free: "boot_reach od P B R \<Longrightarrow> (r, n) \<in> B \<Longrightarrow> bootmem_free od r P = Some P' \<Longrightarrow> boot_reach od P' (B - {(r, n)}) R"
| page_alloc: "boot_reach od P B R \<Longrightarrow> page_alloc (bm_pages (cstore P)) = Some (a, pg) \<Longrightarrow> a \<noteq> 0 \<Longrightarrow> page_map_get_chunk_size a pg = Some n
    \<Longrightarrow> boot_reach od (P\<lparr>cstore := (cstore P)\<lparr>bm_pages := pg\<rparr>\<rparr>) B (insert (a, n) R)"
| page_free: "boot_reach od P B R \<Longrightarrow> (a, n) \<in> R \<Longrightarrow> page_free a (bm_pages (cstore P)) = Some pg
    \<Longrightarrow> boot_reach od (P\<lparr>cstore := (cstore P)\<lparr>bm_pages := pg\<rparr>\<rparr>) B (R - {(a, n)})"

lemma fns_boot [simp]: "\<lparr>ca_alloc = Some (bootmem_alloc_internal od), ca_free = bootmem_free_internal, ca_real = Some bootmem_get_alloc_size\<rparr> = boot_fns od"
  by (simp add: boot_fns_def)

lemma chunk_holds_store:
  assumes "chunk_holds holds P B R" "\<And>T. holds (cstore P) T \<Longrightarrow> R \<subseteq> T \<Longrightarrow> holds' s (R' \<union> (T - R)) \<and> R' \<inter> (T - R) = {}"
  shows "chunk_holds holds' (P\<lparr>cstore := s\<rparr>) B R'"
proof -
  obtain D K U where p: "ck_pool P D K U" "B = ck_blocks (heads P) U" "R \<inter> ck_tops (heads P) D = {}" "holds (cstore P) (R \<union> ck_tops (heads P) D)"
    using assms(1) by (auto simp: chunk_holds_def)
  have "R \<union> ck_tops (heads P) D - R = ck_tops (heads P) D" using p(3) by auto
  then show ?thesis using assms(2) [OF p(4)] p(1,2) unfolding chunk_holds_def
    by (intro exI [of _ D] exI [of _ K] exI [of _ U]) (simp add: ck_pool_def ck_lists_def)
qed

lemma bootmem_alloc_cases:
  assumes "chunk_holds boot_holds P B R" "sz \<noteq> 0" "unat sz \<le> 2 ^ 31 - 48"
  obtains c s where "bootmem_alloc od sz P = None" "bootmem_alloc_internal od (chunk_bytes sz) (cstore P) = Some (c, s)"
      "c = 0 \<or> (\<exists>n. bootmem_get_alloc_size c s = Some n \<and> unat n < unat (chunk_bytes sz) + 40)"
  | r P' where "bootmem_alloc od sz P = Some (r, P')" "r \<noteq> 0" "sz \<le> chunk_bytes sz - 40" "(r, chunk_bytes sz - 40) \<notin> B"
      "chunk_holds boot_holds P' (insert (r, chunk_bytes sz - 40) B) R"
  using boot.alloc_cases [OF assms, of od] assms(2) by (cases) (auto simp: bootmem_alloc_def)

lemma boot_reach_holds: "boot_reach od P B R \<Longrightarrow> chunk_holds boot_holds P B R"
proof (induction rule: boot_reach.induct)
  case (init P R)
  then show ?case by (rule boot.init_ok)
next
  case (alloc P B R sz r P')
  show ?case by (rule bootmem_alloc_cases [OF alloc(5,2,3), of od]) (use alloc(4) in auto)
next
  case (free P B R r n P')
  then show ?case using boot.free_ok [OF free(4,2), of od] by (simp add: bootmem_free_def)
next
  case (page_alloc P B R a pg n)
  show ?case
  proof (rule chunk_holds_store [OF page_alloc(5)])
    fix T assume h: "boot_holds (cstore P) T" "R \<subseteq> T"
    note b = boot_page_alloc [OF h(1) page_alloc(2-4)]
    have "insert (a, n) R \<union> (T - R) = insert (a, n) T" using h(2) by auto
    then show "boot_holds ((cstore P)\<lparr>bm_pages := pg\<rparr>) (insert (a, n) R \<union> (T - R)) \<and> insert (a, n) R \<inter> (T - R) = {}" using b by auto
  qed
next
  case (page_free P B R a n pg)
  show ?case
  proof (rule chunk_holds_store [OF page_free(4)])
    fix T assume h: "boot_holds (cstore P) T" "R \<subseteq> T"
    have m: "(a, n) \<in> T" using h(2) page_free(2) by auto
    have "boot_holds ((cstore P)\<lparr>bm_pages := pg\<rparr>) (T - {(a, n)})" using boot_release_law [OF h(1) m] page_free(3) by (simp add: bootmem_free_internal_def)
    moreover have "R - {(a, n)} \<union> (T - R) = T - {(a, n)}" using h(2) page_free(2) by auto
    ultimately show "boot_holds ((cstore P)\<lparr>bm_pages := pg\<rparr>) (R - {(a, n)} \<union> (T - R)) \<and> (R - {(a, n)}) \<inter> (T - R) = {}" by auto
  qed
qed


section \<open>Initialisation\<close>

lemma single_bank:
  assumes "sp_banks cfg = [(b, n)]" "b \<noteq> 0" "unat b mod 8 = 0" "0x1000 \<le> unat n" "unat b + unat n < 2 ^ 32"
    "unat n \<le> 2 ^ cfg_order_max cfg" "cfg_order_min cfg \<le> 12" "b < page_align en" "2 * unat (page_align en - b) \<le> unat n"
    "pool_tracks (pool (node (bm_pages (cstore P)) 0)) n 0x1000"
  shows "\<exists>P' k. bootmem_init cfg junk st en P = Some P' \<and> boot_reach (cfg_on_demand cfg) P' {} {(b, 2 ^ k)} \<and> page_align en - b \<le> 2 ^ k"
proof -
  let ?sp = "page_align en" and ?s = "bm_pages (cstore P)"
  have bn: "unat (b + n) = unat b + unat n" using assms(5) unat_add2 [of b n] by simp
  have le: "b \<le> b + n" "b + n - b = n" using bn by (simp_all add: word_le_nat_alt)
  have sub: "unat (?sp - b) = unat ?sp - unat b" using assms(8) by (simp add: unat_sub word_less_nat_alt word_le_nat_alt)
  have "?sp < b + n" "\<not> ?sp < b" using assms(4,8,9) bn sub by (simp_all add: word_less_nat_alt)
  moreover have "n \<noteq> 0" using assms(4) by auto
  ultimately have fb: "find_bank ?sp (page_align st) (sp_banks cfg) = Some (b + n, b)" using assms(1) by simp
  have e0: "b + n \<noteq> 0" using bn assms(2) by (metis add_is_0 unat_0 unat_eq_zero)
  obtain e s where i: "page_map_init [0] b (b + n) 0x1000 ?s = Some (e, s)" "e = - ENOMEM \<or> e = 0 \<and> page_ok s [0] (\<lambda>_. {}) \<and> base (pool (node s 0)) = b
        \<and> page_mem s = Some [0] \<and> mm_inv (pool (node s 0)) [0 \<mapsto> (omax (pool (node s 0)), True)]
        \<and> pool_orders n 0x1000 (omax (pool (node s 0))) (omin (pool (node s 0)))"
    using page_map_init_ok [of "b + n" b "0x1000" ?s 0] assms(2,4,10) le by auto
  have ok: "e = 0"
  proof -
    have "mm_init (pool (node ?s 0)) b n 0x1000 (pstat ?s) \<noteq> None \<and> fst (the (mm_init (pool (node ?s 0)) b n 0x1000 (pstat ?s))) = 0"
    proof -
      obtain ma mi where m: "pool_orders n 0x1000 ma mi" "if 3 \<le> mi then \<exists>mp'. mm_init (pool (node ?s 0)) b n 0x1000 (pstat ?s) =
                Some (0, mp', (pstat ?s)\<lparr>total_blocks := total_blocks (pstat ?s) + 2 ^ (ma - mi)\<rparr>)
            \<and> mm_inv mp' [0 \<mapsto> (ma, True)] \<and> base mp' = b \<and> omax mp' = ma \<and> omin mp' = mi
          else \<exists>mp'. mm_init (pool (node ?s 0)) b n 0x1000 (pstat ?s) = Some (- ENOMEM, mp', pstat ?s)"
        using mm_init_inv [of n "0x1000" b "pool (node ?s 0)" "pstat ?s"] assms(2,4,5,10) by auto
      obtain m' where m': "2 ^ ma \<le> unat n" "unat n < 2 ^ Suc ma" "0x1000 \<le> (2::nat) ^ m'" "mi = (if m' \<le> ma then m' else ma - 1)"
        using m(1) by (auto simp: pool_orders_def)
      have "(2::nat) ^ 12 \<le> 2 ^ m'" using m'(3) by simp
      then have "12 \<le> m'" by (simp only: power_increasing_iff one_less_numeral_iff semiring_norm)
      moreover have "(2::nat) ^ 12 < 2 ^ Suc ma" using m'(2) assms(4) by simp
      then have "12 < Suc ma" by (simp only: power_strict_increasing_iff one_less_numeral_iff semiring_norm)
      ultimately have "3 \<le> mi" using m'(4) by auto
      then show ?thesis using m(2) by auto
    qed
    then show ?thesis using i(1) le(1,2) by (auto simp: page_map_init_def not_less Let_def split: if_splits)
  qed
  have P0: "page_ok s [0] (\<lambda>_. {})" "base (pool (node s 0)) = b" "mm_inv (pool (node s 0)) [0 \<mapsto> (omax (pool (node s 0)), True)]"
    "unat n < 2 ^ Suc (omax (pool (node s 0)))" using i(2) ok by (auto simp: pool_orders_def)
  have nz: "?sp - b \<noteq> 0" using assms(8) by auto
  have fit: "unat (?sp - b) \<le> 2 ^ omax (pool (node s 0))" using assms(9) P0(4) by simp
  obtain ord s' where r: "page_map_reserve_chunk (?sp - b) s = Some (b, s')" "unat (?sp - b) \<le> 2 ^ ord"
    "page_ok s' [0] (\<lambda>i. if i = 0 then {(b, ord)} else {})"
    using reserve_first [OF P0(1,3) nz fit] P0(2) by auto
  have base': "base (pool (node s' 0)) = b"
  proof -
    have sz: "unat (?sp - b) \<le> 2 ^ 31"
    proof -
      have "unat n < 2 ^ 32" using unat_less_2p32 [of n] by simp
      then show ?thesis using assms(9) by simp
    qed
    have "page_reserve_loop (?sp - b) [0] s = Some (b, s')" using r(1) i(2) ok by (simp add: page_map_reserve_chunk_def)
    then have "same_bases s s'" by (intro reserve_bases [OF P0(1) subset_refl nz sz]) simp
    then show ?thesis using P0(2) by (simp add: same_bases_def)
  qed
  let ?P = "upd_pages (\<lambda>_. s') P"
  have "page_blocks [0] (\<lambda>i. if i = 0 then {(b, ord)} else {}) = {(b, ord)}" by (simp add: page_blocks_def)
  then have h: "boot_holds (cstore ?P) {(b, 2 ^ ord)}" unfolding boot_holds_def upd_pages_def
    using r(3) base' assms(3) by (intro exI [of _ "[0]"] exI [of _ "\<lambda>i. if i = 0 then {(b, ord)} else {}"]) simp
  have "bootmem_init cfg junk st en P = Some (chunk_pool_init STACK_ALIGN ?P)"
  proof -
    have "\<not> (2 :: nat) ^ cfg_order_max cfg < unat n" using assms(6) by simp
    moreover have "(2 :: nat) ^ cfg_order_min cfg \<le> 2 ^ 12" using assms(7) by (intro power_increasing) simp_all
    then have "\<not> 0x1000 < (2 :: nat) ^ cfg_order_min cfg" by simp
    ultimately show ?thesis using fb e0 i(1) ok r(1) assms(1,2) by (simp add: bootmem_init_def Let_def)
  qed
  moreover have "boot_reach (cfg_on_demand cfg) (chunk_pool_init STACK_ALIGN ?P) {} {(b, 2 ^ ord)}" by (rule boot_reach.init [OF h])
  moreover have "?sp - b \<le> 2 ^ ord"
  proof -
    have "ord \<le> 31" using block_place(4) [OF r(3), of 0 b ord] base' assms(3) by simp
    then show ?thesis using r(2) by (simp add: word_le_nat_alt unat_2p)
  qed
  ultimately show ?thesis by blast
qed

section \<open>A small machine\<close>

text \<open>A bank of 32 KiB in pages of 4 KiB, of which the image takes the first.\<close>

definition small_cfg :: boot_cfg where
  "small_cfg = \<lparr>cfg_on_demand = True, cfg_order_max = 15, cfg_order_min = 12, cfg_map_entries = 1, sp_banks = [(demo_base, 0x8000)]\<rparr>"

definition small_node :: page_map_node where
  "small_node = \<lparr>pool = demo_pool\<lparr>alloc_order := replicate 8 0, blk_free := [0, 0]\<rparr>, mem_start = 0, mem_end = 0\<rparr>"

definition small_start :: boot_pool where
  "small_start = \<lparr>cp_full = [], cp_empty = [], cp_align = 0, heads = (\<lambda>_. None), cstore = \<lparr>bm_blocked = False,
     bm_pages = \<lparr>node = (\<lambda>_. small_node), page_mem = None, page_map_list_full = [], page_map_list_empty = [], pstat = demo_stat\<rparr>\<rparr>\<rparr>"

definition small_boot :: "boot_pool option" where
  "small_boot = bootmem_init small_cfg (\<lambda>_. small_node) demo_base (demo_base + 0xf00) small_start"

lemma small_boot_reach: "\<exists>P k. small_boot = Some P \<and> boot_reach True P {} {(demo_base, 2 ^ k)}"
proof -
  have "page_align (demo_base + 0xf00) = demo_base + 0x1000" by code_simp
  moreover have "pool_tracks (pool (node (bm_pages (cstore small_start)) 0)) 0x8000 0x1000"
    by (rule pool_tracks_units) (simp_all add: small_start_def small_node_def demo_pool_def)
  ultimately show ?thesis unfolding small_boot_def
    using single_bank [of small_cfg demo_base "0x8000" "demo_base + 0xf00" small_start "\<lambda>_. small_node" demo_base] by (auto simp: small_cfg_def)
qed

lemma case_option_ex: "(case x of None \<Rightarrow> False | Some y \<Rightarrow> Q y) \<Longrightarrow> \<exists>y. x = Some y \<and> Q y"
  by (cases x) simp_all

text \<open>A run of requests, with the addresses they return.\<close>

fun bootmem_allocs :: "u32 list \<Rightarrow> boot_pool \<Rightarrow> (u32 list \<times> boot_pool) option" where
  "bootmem_allocs [] P = Some ([], P)"
| "bootmem_allocs (sz # szs) P = do { (r, P) \<leftarrow> bootmem_alloc True sz P; (rs, P) \<leftarrow> bootmem_allocs szs P; Some (r # rs, P) }"

lemma small_boot_eq:
  "small_boot = do {
     (e, s) \<leftarrow> page_map_init [0] demo_base (demo_base + 0x8000) 0x1000 (bm_pages (cstore small_start));
     if e \<noteq> 0 then None
     else do {
       (r, s) \<leftarrow> page_map_reserve_chunk 0x1000 s;
       if r = 0 then None else Some (chunk_pool_init STACK_ALIGN (upd_pages (\<lambda>_. s) small_start))
     }
   }"
  by (simp add: small_boot_def bootmem_init_def small_cfg_def page_align_def align_up_def align_mask_def Let_def cong: if_cong)

lemma small_two_blocks:
  "(case small_boot of None \<Rightarrow> False | Some P \<Rightarrow> (case bootmem_allocs [16, 32] P of None \<Rightarrow> False | Some (rs, P') \<Rightarrow>
     rs = [demo_base + 0x1050, demo_base + 0x1090]))"
  unfolding small_boot_eq by code_simp

lemma small_reach_one:
  "\<exists>P P1 k. boot_reach True P {} {(demo_base, 2 ^ k)} \<and> bootmem_alloc True 16 P = Some (demo_base + 0x1050, P1)
     \<and> boot_reach True P1 {(demo_base + 0x1050, 24)} {(demo_base, 2 ^ k)}"
proof -
  obtain P k where P: "small_boot = Some P" "boot_reach True P {} {(demo_base, 2 ^ k)}" using small_boot_reach by blast
  have "case bootmem_allocs [16, 32] P of None \<Rightarrow> False | Some (rs, P') \<Rightarrow> rs = [demo_base + 0x1050, demo_base + 0x1090]"
    using small_two_blocks unfolding P(1) option.case .
  then obtain P1 where a: "bootmem_alloc True 16 P = Some (demo_base + 0x1050, P1)"
    by (cases "bootmem_alloc True 16 P") (auto split: option.splits bind_splits)
  have "chunk_bytes 16 - 40 = 24" by code_simp
  then show ?thesis using boot_reach.alloc [OF P(2) _ _ a] a P(2) by auto
qed

section \<open>Properties\<close>

text \<open>C33: with a single bank of memory, a half of which has room for the program image, the initialisation returns, reserves a
  block at the beginning of the bank that covers the image, and leaves the boot memory allocator empty.\<close>

theorem bootmem_init_ok:
  assumes "sp_banks cfg = [(b, n)]" "b \<noteq> 0" "unat b mod 8 = 0" "0x1000 \<le> unat n" "unat b + unat n < 2 ^ 32"
    "unat n \<le> 2 ^ cfg_order_max cfg" "cfg_order_min cfg \<le> 12" "b < page_align en" "2 * unat (page_align en - b) \<le> unat n"
    "pool_tracks (pool (node (bm_pages (cstore P)) 0)) n 0x1000"
  shows "\<exists>P' k. bootmem_init cfg junk st en P = Some P' \<and> boot_reach (cfg_on_demand cfg) P' {} {(b, 2 ^ k)} \<and> page_align en - b \<le> 2 ^ k"
  by (rule single_bank [OF assms])

theorem bootmem_init_ok_witness:
  "\<exists>P k. bootmem_init small_cfg (\<lambda>_. small_node) demo_base (demo_base + 0xf00) small_start = Some P \<and> boot_reach True P {} {(demo_base, 2 ^ k)}"
proof -
  have "page_align (demo_base + 0xf00) = demo_base + 0x1000" by code_simp
  moreover have "pool_tracks (pool (node (bm_pages (cstore small_start)) 0)) 0x8000 0x1000"
    by (rule pool_tracks_units) (simp_all add: small_start_def small_node_def demo_pool_def)
  ultimately show ?thesis
    using bootmem_init_ok [of small_cfg demo_base "0x8000" "demo_base + 0xf00" small_start "\<lambda>_. small_node" demo_base] by (auto simp: small_cfg_def)
qed

text \<open>C5: in every reachable state the blocks of the boot memory allocator are disjoint from each other and from all blocks of the
  page map that others hold, begin at multiples of 8 and lie in the address space, however the operations are ordered.\<close>

theorem bootmem_reach_safe:
  assumes "boot_reach od P B R" "x \<in> B" "y \<in> B \<union> R" "x \<noteq> y"
  shows "apart_from x y \<and> unat (fst x) mod 8 = 0 \<and> fst x \<noteq> 0 \<and> unat (fst x) + unat (snd x) < 2 ^ 32"
proof -
  note h = boot.holds_apart [OF boot_reach_holds [OF assms(1)]]
  have "apart_from x y" using assms(3)
  proof
    assume "y \<in> B"
    then show ?thesis by (rule h(1) [OF assms(2) _ assms(4)])
  next
    assume "y \<in> R"
    then show ?thesis by (rule h(2) [OF assms(2)])
  qed
  then show ?thesis using h(3) [OF assms(2)] by simp
qed

theorem bootmem_reach_safe_witness:
  "\<exists>P1 k. boot_reach True P1 {(demo_base + 0x1050, 24)} {(demo_base, 2 ^ k)} \<and> apart_from (demo_base + 0x1050, 24) (demo_base, 2 ^ k)"
proof -
  obtain P1 k where r: "boot_reach True P1 {(demo_base + 0x1050, 24)} {(demo_base, 2 ^ k)}" using small_reach_one by blast
  have "(demo_base + 0x1050, 24) \<noteq> (demo_base, 2 ^ k :: u32)" by simp
  from bootmem_reach_safe [OF r _ _ this] show ?thesis using r by auto
qed

text \<open>C6: a request returns a new block with room for it, that overlaps no other block in use; or it stops the machine, only
  if the page map has no block left, or if the block it gave has not 40 bytes more than the request rounded up.\<close>

theorem bootmem_alloc_correct:
  assumes "boot_reach od P B R" "sz \<noteq> 0" "unat sz \<le> 2 ^ 31 - 48"
  shows "(\<exists>r P'. bootmem_alloc od sz P = Some (r, P') \<and> r \<noteq> 0 \<and> sz \<le> chunk_bytes sz - 40 \<and> boot_reach od P' (insert (r, chunk_bytes sz - 40) B) R
       \<and> (r, chunk_bytes sz - 40) \<notin> B \<and> (\<forall>x \<in> B \<union> R. apart_from (r, chunk_bytes sz - 40) x))
     \<or> bootmem_alloc od sz P = None \<and> (\<exists>c s. bootmem_alloc_internal od (chunk_bytes sz) (cstore P) = Some (c, s)
       \<and> (c = 0 \<or> (\<exists>n. bootmem_get_alloc_size c s = Some n \<and> unat n < unat (chunk_bytes sz) + 40)))"
proof (rule bootmem_alloc_cases [OF boot_reach_holds [OF assms(1)] assms(2,3), of od])
  fix r P' assume a: "bootmem_alloc od sz P = Some (r, P')" "r \<noteq> 0" "sz \<le> chunk_bytes sz - 40" "(r, chunk_bytes sz - 40) \<notin> B"
    "chunk_holds boot_holds P' (insert (r, chunk_bytes sz - 40) B) R"
  have "apart_from (r, chunk_bytes sz - 40) x" if x: "x \<in> B \<union> R" for x
  proof (cases "x \<in> R")
    case True
    then show ?thesis using boot.holds_apart(2) [OF a(5)] by blast
  next
    case False
    then show ?thesis using boot.holds_apart(1) [OF a(5), of "(r, chunk_bytes sz - 40)" x] x a(4) by blast
  qed
  then show ?thesis using a boot_reach.alloc [OF assms a(1)] by blast
qed blast

theorem bootmem_alloc_correct_witness:
  "\<exists>P P1 k. bootmem_alloc True 16 P = Some (demo_base + 0x1050, P1) \<and> boot_reach True P1 {(demo_base + 0x1050, 24)} {(demo_base, 2 ^ k)}"
proof -
  obtain P P1 k where r: "boot_reach True P {} {(demo_base, 2 ^ k)}" "bootmem_alloc True 16 P = Some (demo_base + 0x1050, P1)"
    using small_reach_one by blast
  have c: "chunk_bytes 16 - 40 = 24" by code_simp
  have "boot_reach True P1 {(demo_base + 0x1050, 24)} {(demo_base, 2 ^ k)}" using bootmem_alloc_correct [OF r(1), of 16] r(2) c by auto
  then show ?thesis using r(2) by blast
qed

text \<open>A block in use can be released; this returns, and afterwards exactly the other blocks are in use.\<close>

theorem bootmem_free_correct:
  assumes "boot_reach od P B R" "(r, n) \<in> B"
  shows "\<exists>P'. bootmem_free od r P = Some P' \<and> boot_reach od P' (B - {(r, n)}) R"
  using boot.free_ok [OF boot_reach_holds [OF assms(1)] assms(2), of od] boot_reach.free [OF assms] by (auto simp: bootmem_free_def)

theorem bootmem_free_correct_witness:
  "\<exists>P P1 P' k. bootmem_alloc True 16 P = Some (demo_base + 0x1050, P1) \<and> bootmem_free True (demo_base + 0x1050) P1 = Some P' \<and> boot_reach True P' {} {(demo_base, 2 ^ k)}"
proof -
  obtain P P1 k where r: "bootmem_alloc True 16 P = Some (demo_base + 0x1050, P1)" "boot_reach True P1 {(demo_base + 0x1050, 24)} {(demo_base, 2 ^ k)}"
    using small_reach_one by blast
  from bootmem_free_correct [OF r(2), of "demo_base + 0x1050" 24] r(1) show ?thesis by auto
qed

text \<open>A request that fits into a block of the page map, but leaves less than 40 bytes of it, stops the machine through a null
  pointer although there are free pages.\<close>

theorem bootmem_alloc_halts:
  "\<exists>P. small_boot = Some P \<and> bootmem_alloc True 4052 P = None \<and> map_option fst (page_map_reserve_chunk 4096 (bm_pages (cstore P))) = Some (demo_base + 0x1000)"
proof -
  have "case small_boot of None \<Rightarrow> False | Some P \<Rightarrow> bootmem_alloc True 4052 P = None \<and> map_option fst (page_map_reserve_chunk 4096 (bm_pages (cstore P))) = Some (demo_base + 0x1000)"
    unfolding small_boot_eq by code_simp
  then show ?thesis by (rule case_option_ex)
qed

text \<open>Two blocks that are released in the order of their allocation leave the page they were in with the boot memory
  allocator, because a chunk that is released while a younger one is in use is not merged; the opposite order gives the page back.\<close>

theorem bootmem_free_keeps_page:
  "\<exists>P. small_boot = Some P \<and> (\<exists>rP. bootmem_allocs [16, 32] P = Some rP \<and> fst rP = [demo_base + 0x1050, demo_base + 0x1090]
     \<and> (\<exists>Q. do { Q \<leftarrow> bootmem_free True (demo_base + 0x1050) (snd rP); bootmem_free True (demo_base + 0x1090) Q } = Some Q
          \<and> cp_full Q @ cp_empty Q \<noteq> [] \<and> used_blocks (pstat (bm_pages (cstore Q))) = 2)
     \<and> (\<exists>Q. do { Q \<leftarrow> bootmem_free True (demo_base + 0x1090) (snd rP); bootmem_free True (demo_base + 0x1050) Q } = Some Q
          \<and> cp_full Q @ cp_empty Q = [] \<and> used_blocks (pstat (bm_pages (cstore Q))) = 1))"
proof -
  have "case small_boot of None \<Rightarrow> False | Some P \<Rightarrow> (case bootmem_allocs [16, 32] P of None \<Rightarrow> False | Some rP \<Rightarrow>
     fst rP = [demo_base + 0x1050, demo_base + 0x1090]
     \<and> (case do { Q \<leftarrow> bootmem_free True (demo_base + 0x1050) (snd rP); bootmem_free True (demo_base + 0x1090) Q } of None \<Rightarrow> False | Some Q \<Rightarrow>
          cp_full Q @ cp_empty Q \<noteq> [] \<and> used_blocks (pstat (bm_pages (cstore Q))) = 2)
     \<and> (case do { Q \<leftarrow> bootmem_free True (demo_base + 0x1090) (snd rP); bootmem_free True (demo_base + 0x1050) Q } of None \<Rightarrow> False | Some Q \<Rightarrow>
          cp_full Q @ cp_empty Q = [] \<and> used_blocks (pstat (bm_pages (cstore Q))) = 1))"
    unfolding small_boot_eq by code_simp
  from case_option_ex [OF this] obtain P where P: "small_boot = Some P" "case bootmem_allocs [16, 32] P of None \<Rightarrow> False | Some rP \<Rightarrow>
     fst rP = [demo_base + 0x1050, demo_base + 0x1090]
     \<and> (case do { Q \<leftarrow> bootmem_free True (demo_base + 0x1050) (snd rP); bootmem_free True (demo_base + 0x1090) Q } of None \<Rightarrow> False | Some Q \<Rightarrow>
          cp_full Q @ cp_empty Q \<noteq> [] \<and> used_blocks (pstat (bm_pages (cstore Q))) = 2)
     \<and> (case do { Q \<leftarrow> bootmem_free True (demo_base + 0x1090) (snd rP); bootmem_free True (demo_base + 0x1050) Q } of None \<Rightarrow> False | Some Q \<Rightarrow>
          cp_full Q @ cp_empty Q = [] \<and> used_blocks (pstat (bm_pages (cstore Q))) = 1)" by (elim exE conjE)
  from case_option_ex [OF P(2)] obtain rP where r: "bootmem_allocs [16, 32] P = Some rP" "fst rP = [demo_base + 0x1050, demo_base + 0x1090]"
     "case do { Q \<leftarrow> bootmem_free True (demo_base + 0x1050) (snd rP); bootmem_free True (demo_base + 0x1090) Q } of None \<Rightarrow> False | Some Q \<Rightarrow>
          cp_full Q @ cp_empty Q \<noteq> [] \<and> used_blocks (pstat (bm_pages (cstore Q))) = 2"
     "case do { Q \<leftarrow> bootmem_free True (demo_base + 0x1090) (snd rP); bootmem_free True (demo_base + 0x1050) Q } of None \<Rightarrow> False | Some Q \<Rightarrow>
          cp_full Q @ cp_empty Q = [] \<and> used_blocks (pstat (bm_pages (cstore Q))) = 1" by (elim exE conjE)
  show ?thesis by (intro exI [of _ P] exI [of _ rP] conjI P(1) r(1,2) case_option_ex [OF r(3)] case_option_ex [OF r(4)])
qed

end
