(* ===== verification/Srmmu_Boot.thy ===== *)
theory Srmmu_Boot
  imports Srmmu_Large Bootmem_Spec
begin

text \<open>
  The page tables in blocks of the boot memory allocator, as \<^verbatim>\<open>arch/sparc/kernel/mmu.c\<close> sets them up: it gives
  \<^verbatim>\<open>bootmem_alloc\<close> and \<^verbatim>\<open>bootmem_free\<close> to \<^verbatim>\<open>srmmu_init\<close>.  The marker of a table lies in front of it unless its block
  begins at a multiple of 256; then it lies behind the block, as shown here.  The other
  properties are about runs in which no block begins there.
\<close>

section \<open>Requests\<close>

text \<open>A run of requests to an allocator.\<close>

fun run_requests :: "'s tbl_alloc \<Rightarrow> u32 list \<Rightarrow> 's \<Rightarrow> u32 list \<times> 's" where
  "run_requests A [] h = ([], h)"
| "run_requests A (n # ns) h = (let (a, h) = ta_alloc A n h; (as, h) = run_requests A ns h in (a # as, h))"

text \<open>None of the blocks that these requests would get begins at a multiple of 256.\<close>

definition no_aligned :: "'s tbl_alloc \<Rightarrow> u32 list \<Rightarrow> 's \<Rightarrow> bool" where
  "no_aligned A ns h = list_all (\<lambda>a. a = 0 \<or> a AND 0xff \<noteq> 0) (fst (run_requests A ns h))"

text \<open>The allocator that refuses such blocks, and requests that the tables never make.\<close>

definition refusing :: "'s tbl_alloc \<Rightarrow> 's tbl_alloc" where
  "refusing A = A\<lparr>ta_alloc := (\<lambda>n h. let (a, h') = ta_alloc A n h in if a \<noteq> 0 \<and> (a AND 0xff = 0 \<or> n = 0 \<or> 0x1000 < n) then (0, h) else (a, h'))\<rparr>"

lemma refusing_free [simp]: "ta_free (refusing A) = ta_free A"
  by (simp add: refusing_def)

lemma no_aligned_Cons:
  "no_aligned A (n # ns) h \<longleftrightarrow> (fst (ta_alloc A n h) = 0 \<or> fst (ta_alloc A n h) AND 0xff \<noteq> 0) \<and> no_aligned A ns (snd (ta_alloc A n h))"
  by (simp add: no_aligned_def case_prod_beta Let_def)

lemma no_aligned_Nil [simp]: "no_aligned A [] h"
  by (simp add: no_aligned_def)

lemma refusing_same: "no_aligned A (n # ns) h \<Longrightarrow> n \<noteq> 0 \<Longrightarrow> n \<le> 0x1000 \<Longrightarrow> ta_alloc (refusing A) n h = ta_alloc A n h"
  by (auto simp: no_aligned_Cons refusing_def case_prod_beta Let_def not_less)

lemma refusing_can_alloc: "no_aligned A (replicate k 0x200) h \<Longrightarrow> can_alloc (refusing A) k h \<longleftrightarrow> can_alloc A k h"
proof (induction k arbitrary: h)
  case (Suc k)
  then have "ta_alloc (refusing A) 0x200 h = ta_alloc A 0x200 h" by (intro refusing_same [of A "0x200" "replicate k 0x200"]) simp_all
  with Suc show ?case by (simp add: no_aligned_Cons)
qed simp

section \<open>The operations on the tables\<close>

text \<open>As long as no block is refused, the operations do the same with both allocators.\<close>

lemma tbl_refusing:
  assumes "no_aligned A (2 * sz # ns) (tbl_heap M)" "sz = 0x100 \<or> sz = 0x400"
  shows "mmu_alloc_tbl (refusing A) sz M = mmu_alloc_tbl A sz M" "no_aligned A ns (tbl_heap (snd (mmu_alloc_tbl A sz M)))"
proof -
  have "ta_alloc (refusing A) (2 * sz) (tbl_heap M) = ta_alloc A (2 * sz) (tbl_heap M)"
    by (rule refusing_same [OF assms(1)]) (use assms(2) in auto)
  then show "mmu_alloc_tbl (refusing A) sz M = mmu_alloc_tbl A sz M" by (simp add: mmu_alloc_tbl_def)
  show "no_aligned A ns (tbl_heap (snd (mmu_alloc_tbl A sz M)))"
    using assms(1) by (simp add: no_aligned_Cons mmu_alloc_tbl_def case_prod_beta Let_def wr_def)
qed

abbreviation (input) clear :: "'s tbl_alloc \<Rightarrow> nat \<Rightarrow> 's \<Rightarrow> bool" where
  "clear A k h \<equiv> no_aligned A (replicate k 0x200) h"

lemma clear_less: "clear A k h \<Longrightarrow> j \<le> k \<Longrightarrow> clear A j h"
proof -
  have "clear A (i + d) h \<Longrightarrow> clear A i h" for i d
    by (induction i arbitrary: h) (simp_all add: no_aligned_Cons)
  then show "clear A k h \<Longrightarrow> j \<le> k \<Longrightarrow> clear A j h" by (metis le_add_diff_inverse)
qed

lemma small_tbl_refusing:
  assumes "clear A (Suc k) (tbl_heap M)"
  shows "mmu_alloc_tbl (refusing A) 0x100 M = mmu_alloc_tbl A 0x100 M" "clear A k (tbl_heap (snd (mmu_alloc_tbl A 0x100 M)))"
  using tbl_refusing [of A "0x100" "replicate k 0x200" M] assms by simp_all

lemma lvl2_refusing:
  assumes "clear A (Suc k) (tbl_heap M)"
  shows "mmu_need_lvl2_tbl (refusing A) ctx va M = mmu_need_lvl2_tbl A ctx va M"
    "clear A k (tbl_heap (snd (mmu_need_lvl2_tbl A ctx va M)))"
proof -
  note t = small_tbl_refusing [OF assms]
  show "mmu_need_lvl2_tbl (refusing A) ctx va M = mmu_need_lvl2_tbl A ctx va M" unfolding mmu_need_lvl2_tbl_def Let_def t(1) by (rule refl)
  show "clear A k (tbl_heap (snd (mmu_need_lvl2_tbl A ctx va M)))"
    using t(2) clear_less [OF assms, of k] by (auto simp: mmu_need_lvl2_tbl_def Let_def case_prod_beta mmu_set_lvl2_tbl_invalid_def set_invalid_fields wr_def)
qed

lemma inc_ref_heap: "mmu_inc_ref_cnt a s M = Some (c, M') \<Longrightarrow> tbl_heap M' = tbl_heap M"
  by (auto simp: mmu_inc_ref_cnt_def wr_def Let_def split: bind_splits)

lemma lvl3_refusing:
  assumes "clear A (Suc (Suc k)) (tbl_heap M)"
  shows "mmu_need_lvl3_tbl (refusing A) ctx va M = mmu_need_lvl3_tbl A ctx va M"
    "mmu_need_lvl3_tbl A ctx va M = Some (r, M') \<Longrightarrow> clear A k (tbl_heap M')"
proof -
  note t = lvl2_refusing [OF assms]
  define X where "X = (if mmu_find_tbl_lvl2 ctx va M = 0 then mmu_need_lvl2_tbl A ctx va M else (0, M))"
  have X: "clear A (Suc k) (tbl_heap (snd X))" using t(2) clear_less [OF assms, of "Suc k"] by (simp add: X_def del: replicate.simps)
  note s = small_tbl_refusing [OF X]
  have e: "(if mmu_find_tbl_lvl2 ctx va M = 0 then mmu_need_lvl2_tbl (refusing A) ctx va M else (0, M)) = X" by (simp only: X_def t(1))
  have n3: "mmu_need_lvl3_tbl B ctx va M = (if mmu_find_tbl_lvl3 ctx va M \<noteq> 0 then Some (0, M) else
      if fst X \<noteq> 0 then Some (fst X, snd X) else
        let lvl2 = (if mmu_find_tbl_lvl2 ctx va M = 0 then mmu_find_tbl_lvl2 ctx va (snd X) else mmu_find_tbl_lvl2 ctx va M);
              (lvl3, M) = mmu_alloc_tbl B 0x100 (snd X)
          in if lvl3 = 0 then Some (- ENOMEM, M)
          else if lvl2 = 0 then None
          else do {
            let M = mmu_set_lvl3_tbl_invalid lvl3 M;
            let M = wr (lvl2 + 4 * SRMMU_LVL2_GET_TBL_OFFSET va) (SRMMU_PTD lvl3) M;
            (_, M) \<leftarrow> mmu_inc_ref_cnt lvl2 0x100 M;
            Some (0, M)
          })" if "(if mmu_find_tbl_lvl2 ctx va M = 0 then mmu_need_lvl2_tbl B ctx va M else (0, M)) = X" for B
    unfolding mmu_need_lvl3_tbl_def Let_def that by (simp add: case_prod_beta)
  show "mmu_need_lvl3_tbl (refusing A) ctx va M = mmu_need_lvl3_tbl A ctx va M"
    unfolding n3 [OF e] n3 [OF X_def [symmetric]] s(1) by (rule refl)
  show "clear A k (tbl_heap M')" if "mmu_need_lvl3_tbl A ctx va M = Some (r, M')"
  proof -
    have a: "clear A k (tbl_heap M)" "clear A k (tbl_heap (snd X))" using clear_less [OF assms, of k] clear_less [OF X, of k] by simp_all
    show ?thesis using that a s(2) unfolding n3 [OF X_def [symmetric]]
      by (auto simp: Let_def case_prod_beta mmu_set_lvl3_tbl_invalid_def set_invalid_fields wr_def split: if_splits bind_splits dest!: inc_ref_heap)
  qed
qed

lemma small_refusing:
  assumes "clear A (Suc (Suc k)) (tbl_heap M)"
  shows "srmmu_do_small_mapping (refusing A) n va pa perm M = srmmu_do_small_mapping A n va pa perm M"
    "srmmu_do_small_mapping A n va pa perm M = Some (r, M') \<Longrightarrow> clear A k (tbl_heap M')"
proof -
  note t = lvl3_refusing [OF assms]
  show "srmmu_do_small_mapping (refusing A) n va pa perm M = srmmu_do_small_mapping A n va pa perm M"
    by (simp only: srmmu_do_small_mapping_def t(1))
  show "clear A k (tbl_heap M')" if "srmmu_do_small_mapping A n va pa perm M = Some (r, M')"
    using that clear_less [OF assms, of k] t(2)
    by (auto simp: srmmu_do_small_mapping_def wr_def Let_def split: if_splits option.splits bind_splits dest!: inc_ref_heap)
qed

lemma range_refusing:
  "clear A (2 * k) (tbl_heap M) \<Longrightarrow> small_range k (refusing A) n va pa perm M = small_range k A n va pa perm M"
proof (induction k arbitrary: va pa M)
  case (Suc k)
  have c: "clear A (Suc (Suc (2 * k))) (tbl_heap M)" using Suc.prems by simp
  note t = small_refusing [OF c]
  show ?case
  proof (cases "srmmu_do_small_mapping A n va pa perm M")
    case (Some x)
    then have "clear A (2 * k) (tbl_heap (snd x))" by (intro t(2) [of n va pa perm "fst x"]) simp
    from Suc.IH [OF this] Some show ?thesis by (simp add: t(1) case_prod_beta)
  qed (simp add: t(1))
qed simp

lemma map_refusing:
  "clear A (2 * unat num) (tbl_heap M)
    \<Longrightarrow> srmmu_do_small_mapping_range (refusing A) n va pa num perm M = srmmu_do_small_mapping_range A n va pa num perm M"
  by (simp add: srmmu_do_small_mapping_range_def range_refusing)


text \<open>A release does not ask for blocks.\<close>

lemma free_same:
  assumes "ta_free B = ta_free A"
  shows "mmu_free_tbl B = mmu_free_tbl A" "release_lvl3_entry B = release_lvl3_entry A"
proof -
  show f: "mmu_free_tbl B = mmu_free_tbl A" by (intro ext) (simp add: mmu_free_tbl_def assms)
  show "release_lvl3_entry B = release_lvl3_entry A" by (intro ext) (simp only: release_lvl3_entry_def f)
qed

lemma option_same: "(\<And>r. x = Some r \<Longrightarrow> y = Some r) \<Longrightarrow> (\<And>r. y = Some r \<Longrightarrow> x = Some r) \<Longrightarrow> x = y"
  by (cases x; cases y) auto

lemma loop3_same:
  assumes "release_lvl3_loop A lvl3 va va_end M = Some r" "ta_free B = ta_free A"
  shows "release_lvl3_loop B lvl3 va va_end M = Some r"
proof -
  let ?P = "\<lambda>A lvl3 va va_end M r. \<forall>B. ta_free B = ta_free A \<longrightarrow> release_lvl3_loop B lvl3 va va_end M = Some r"
  have "?P A lvl3 va va_end M r"
  proof (rule release_lvl3_loop.raw_induct [of ?P, OF _ assms(1)], goal_cases)
    case (1 loop A lvl3 va va_end M r)
    show ?case
    proof (intro allI impI)
      fix B :: "'a tbl_alloc" assume f: "ta_free B = ta_free A"
      have ih: "loop A lvl3 va va_end M = Some r \<Longrightarrow> release_lvl3_loop B lvl3 va va_end M = Some r" for lvl3 va va_end M r
        using 1(1) f by blast
      show "release_lvl3_loop B lvl3 va va_end M = Some r" using 1(2)
        by (subst release_lvl3_loop.simps) (auto simp: free_same(2) [OF f] Let_def split: if_splits bind_splits intro: ih)
    qed
  qed
  with assms(2) show ?thesis by blast
qed

lemma lvl3_same: "ta_free B = ta_free A \<Longrightarrow> srmmu_release_lvl3_pages B = srmmu_release_lvl3_pages A"
proof -
  assume f: "ta_free B = ta_free A"
  have "release_lvl3_loop B = release_lvl3_loop A"
  proof (intro ext)
    fix l v e M
    show "release_lvl3_loop B l v e M = release_lvl3_loop A l v e M"
      by (rule option_same) (rule loop3_same [OF _ f [symmetric]], assumption, rule loop3_same [OF _ f])
  qed
  then show ?thesis by (intro ext) (simp only: srmmu_release_lvl3_pages_def)
qed

lemma loop2_same:
  assumes "release_lvl2_loop A ctx lvl2 va va_end M = Some r" "ta_free B = ta_free A"
  shows "release_lvl2_loop B ctx lvl2 va va_end M = Some r"
proof -
  let ?P = "\<lambda>A ctx lvl2 va va_end M r. \<forall>B. ta_free B = ta_free A \<longrightarrow> release_lvl2_loop B ctx lvl2 va va_end M = Some r"
  have "?P A ctx lvl2 va va_end M r"
  proof (rule release_lvl2_loop.raw_induct [of ?P, OF _ assms(1)], goal_cases)
    case (1 loop A ctx lvl2 va va_end M r)
    show ?case
    proof (intro allI impI)
      fix B :: "'a tbl_alloc" assume f: "ta_free B = ta_free A"
      have ih: "loop A ctx lvl2 va va_end M = Some r \<Longrightarrow> release_lvl2_loop B ctx lvl2 va va_end M = Some r" for ctx lvl2 va va_end M r
        using 1(1) f by blast
      show "release_lvl2_loop B ctx lvl2 va va_end M = Some r" using 1(2)
        by (subst release_lvl2_loop.simps) (auto simp: free_same(1) [OF f] lvl3_same [OF f] Let_def split: if_splits bind_splits intro: ih)
    qed
  qed
  with assms(2) show ?thesis by blast
qed

lemma lvl2_same: "ta_free B = ta_free A \<Longrightarrow> srmmu_release_lvl2_pages B = srmmu_release_lvl2_pages A"
proof -
  assume f: "ta_free B = ta_free A"
  have "release_lvl2_loop B = release_lvl2_loop A"
  proof (intro ext)
    fix c l v e M
    show "release_lvl2_loop B c l v e M = release_lvl2_loop A c l v e M"
      by (rule option_same) (rule loop2_same [OF _ f [symmetric]], assumption, rule loop2_same [OF _ f])
  qed
  then show ?thesis by (intro ext) (simp only: srmmu_release_lvl2_pages_def)
qed

lemma lvl1_same:
  assumes "srmmu_release_lvl1_pages A ctx va va_end M = Some r" "ta_free B = ta_free A"
  shows "srmmu_release_lvl1_pages B ctx va va_end M = Some r"
proof -
  let ?P = "\<lambda>A ctx va va_end M r. \<forall>B. ta_free B = ta_free A \<longrightarrow> srmmu_release_lvl1_pages B ctx va va_end M = Some r"
  have "?P A ctx va va_end M r"
  proof (rule srmmu_release_lvl1_pages.raw_induct [of ?P, OF _ assms(1)], goal_cases)
    case (1 loop A ctx va va_end M r)
    show ?case
    proof (intro allI impI)
      fix B :: "'a tbl_alloc" assume f: "ta_free B = ta_free A"
      have ih: "loop A ctx va va_end M = Some r \<Longrightarrow> srmmu_release_lvl1_pages B ctx va va_end M = Some r" for ctx va va_end M r
        using 1(1) f by blast
      show "srmmu_release_lvl1_pages B ctx va va_end M = Some r" using 1(2)
        by (subst srmmu_release_lvl1_pages.simps) (auto simp: lvl2_same [OF f] Let_def split: if_splits bind_splits intro: ih)
    qed
  qed
  with assms(2) show ?thesis by blast
qed

lemma release_refusing: "srmmu_release_pages (refusing A) n va va_end M = Some M' \<Longrightarrow> srmmu_release_pages A n va va_end M = Some M'"
  by (auto simp: srmmu_release_pages_def split: if_splits option.splits intro: lvl1_same)

text \<open>The initialisation asks for the table of contexts, a context and its first table.\<close>

abbreviation (input) init_requests :: "u32 list" where
  "init_requests \<equiv> [0x800, 32, 0x800]"

lemma lvl1_tbl_refusing:
  assumes "no_aligned A [0x800] (tbl_heap M)"
  shows "mmu_alloc_lvl1_tbl (refusing A) M = mmu_alloc_lvl1_tbl A M"
  using tbl_refusing(1) [of A "0x400" "[]" M] assms by (simp add: mmu_alloc_lvl1_tbl_def)

lemma new_ctx_refusing:
  assumes "no_aligned A [32, 0x800] (tbl_heap M)"
  shows "srmmu_new_ctx (refusing A) M = srmmu_new_ctx A M"
proof -
  have "ta_alloc (refusing A) 32 (tbl_heap M) = ta_alloc A 32 (tbl_heap M)" by (rule refusing_same [OF assms]) simp_all
  moreover have "mmu_alloc_lvl1_tbl (refusing A) (M\<lparr>tbl_heap := snd (ta_alloc A 32 (tbl_heap M))\<rparr>)
      = mmu_alloc_lvl1_tbl A (M\<lparr>tbl_heap := snd (ta_alloc A 32 (tbl_heap M))\<rparr>)"
    using assms by (intro lvl1_tbl_refusing) (simp add: no_aligned_Cons)
  ultimately show ?thesis by (simp only: srmmu_new_ctx_def case_prod_beta Let_def refusing_free)
qed

lemma init_refusing:
  assumes "no_aligned A init_requests (tbl_heap M)"
  shows "srmmu_init (refusing A) M = srmmu_init A M"
proof -
  have "ta_alloc (refusing A) 0x800 (tbl_heap M) = ta_alloc A 0x800 (tbl_heap M)" by (rule refusing_same [OF assms]) simp_all
  moreover have "srmmu_new_ctx (refusing A) (M\<lparr>ctx_free := [], ctx_used := [], tbl_heap := snd (ta_alloc A 0x800 (tbl_heap M)), mmu_ctp := X\<rparr>)
      = srmmu_new_ctx A (M\<lparr>ctx_free := [], ctx_used := [], tbl_heap := snd (ta_alloc A 0x800 (tbl_heap M)), mmu_ctp := X\<rparr>)" for X
    using assms by (intro new_ctx_refusing) (simp add: no_aligned_Cons)
  ultimately show ?thesis by (simp add: srmmu_init_def case_prod_beta Let_def)
qed


section \<open>The boot memory\<close>

text \<open>The blocks given to the tables, with the sizes that were asked for, are kept beside the allocator to state properties; the code has
  no such record.  A request that stops the machine shows here as a null pointer.\<close>

record boot_heap =
  bh_pool :: boot_pool
  bh_live :: "u32 \<Rightarrow> nat option"

definition boot_tables :: "bool \<Rightarrow> boot_heap tbl_alloc" where
  "boot_tables on_demand =
     \<lparr>ta_alloc = (\<lambda>sz h. case bootmem_alloc on_demand sz (bh_pool h) of
          None \<Rightarrow> (0, h)
        | Some (a, P) \<Rightarrow> (a, if a = 0 then h\<lparr>bh_pool := P\<rparr> else \<lparr>bh_pool = P, bh_live = (bh_live h)(a \<mapsto> unat sz)\<rparr>)),
      ta_free = (\<lambda>a h. case bootmem_free on_demand a (bh_pool h) of
          None \<Rightarrow> h
        | Some P \<Rightarrow> \<lparr>bh_pool = P, bh_live = (bh_live h)(a := None)\<rparr>)\<rparr>"

text \<open>\<open>R\<close> are the blocks of the page map that others hold.\<close>

definition boot_heap_ok :: "bool \<Rightarrow> (u32 \<times> u32) set \<Rightarrow> boot_heap \<Rightarrow> bool" where
  "boot_heap_ok od R h \<longleftrightarrow> (\<exists>B. boot_reach od (bh_pool h) B R
     \<and> (\<forall>a m. bh_live h a = Some m \<longrightarrow> a AND 0xff \<noteq> 0 \<and> 0 < m \<and> (\<exists>n. (a, n) \<in> B \<and> m \<le> unat n)))"

lemma reach_block:
  assumes "boot_reach od P B R" "(a, n) \<in> B"
  shows "a \<noteq> 0" "unat a mod 8 = 0" "unat a + unat n < 2 ^ 32"
    "(b, k) \<in> B \<union> R \<Longrightarrow> (b, k) \<noteq> (a, n) \<Longrightarrow> unat a + unat n \<le> unat b \<or> unat b + unat k \<le> unat a"
proof -
  note h = boot.holds_apart [OF boot_reach_holds [OF assms(1)]]
  show "a \<noteq> 0" "unat a mod 8 = 0" "unat a + unat n < 2 ^ 32" using h(3) [OF assms(2)] by auto
  assume b: "(b, k) \<in> B \<union> R" "(b, k) \<noteq> (a, n)"
  have "apart_from (a, n) (b, k)"
  proof (cases "(b, k) \<in> B")
    case True
    with h(1) [OF assms(2) True] b(2) show ?thesis by auto
  next
    case False
    with h(2) [OF assms(2), of "(b, k)"] b(1) show ?thesis by auto
  qed
  then show "unat a + unat n \<le> unat b \<or> unat b + unat k \<le> unat a" by (simp add: apart_from_def)
qed

lemma low_byte: "a AND 0xff \<noteq> 0 \<Longrightarrow> unat a mod 256 \<noteq> 0" for a :: u32
proof
  assume a: "a AND 0xff \<noteq> 0" "unat a mod 256 = 0"
  have "unat (take_bit 8 a) = 0" using a(2) by (simp only: unsigned_take_bit_eq) (simp add: take_bit_eq_mod)
  then have "take_bit 8 a = 0" by (simp add: unat_eq_zero)
  then show False using a(1) by (simp add: take_bit_eq_mask mask_eq_exp_minus_1)
qed

lemma heap_disjoint: "boot_heap_ok od R h \<Longrightarrow> blocks_disjoint (bh_live h)"
proof -
  assume "boot_heap_ok od R h"
  then obtain B where B: "boot_reach od (bh_pool h) B R"
    "\<And>a m. bh_live h a = Some m \<Longrightarrow> a AND 0xff \<noteq> 0 \<and> 0 < m \<and> (\<exists>n. (a, n) \<in> B \<and> m \<le> unat n)" by (auto simp: boot_heap_ok_def)
  show ?thesis unfolding blocks_disjoint_def
  proof (intro conjI allI impI)
    fix a b m n assume a: "bh_live h a = Some m" "bh_live h b = Some n" "a \<noteq> b"
    obtain k l where kl: "(a, k) \<in> B" "m \<le> unat k" "(b, l) \<in> B" "n \<le> unat l" using B(2) a(1,2) by blast
    show "unat a + m \<le> unat b \<or> unat b + n \<le> unat a" using reach_block(4) [OF B(1) kl(1), of b l] kl(2-4) a(3) by auto
  next
    fix a m assume a: "bh_live h a = Some m"
    obtain k where k: "(a, k) \<in> B" "m \<le> unat k" "a AND 0xff \<noteq> 0" using B(2) a by blast
    note r = reach_block [OF B(1) k(1)]
    show "a \<noteq> 0" "unat a mod 8 = 0" by (rule r)+
    show "unat a + m \<le> 2 ^ 32" using r(3) k(2) by linarith
    show "unat a mod 256 \<noteq> 0" by (rule low_byte [OF k(3)])
  qed
qed

lemma heap_alloc:
  assumes "boot_heap_ok od R h" "ta_alloc (refusing (boot_tables od)) n h = (a, h')"
  shows "boot_heap_ok od R h' \<and> (if a = 0 then bh_live h' = bh_live h else bh_live h a = None \<and> bh_live h' = (bh_live h)(a \<mapsto> unat n))"
proof (cases "bootmem_alloc od n (bh_pool h)")
  case None
  then have "a = 0" "h' = h" using assms(2) by (auto simp: refusing_def boot_tables_def)
  then show ?thesis using assms(1) by simp
next
  case (Some x)
  then obtain b P where b: "bootmem_alloc od n (bh_pool h) = Some (b, P)" by (cases x) auto
  obtain B where B: "boot_reach od (bh_pool h) B R"
    "\<And>a m. bh_live h a = Some m \<Longrightarrow> a AND 0xff \<noteq> 0 \<and> 0 < m \<and> (\<exists>n. (a, n) \<in> B \<and> m \<le> unat n)" using assms(1) by (auto simp: boot_heap_ok_def)
  show ?thesis
  proof (cases "n = 0")
    case True
    then have "b = 0" "P = bh_pool h" using b by (simp_all add: bootmem_alloc_def)
    then show ?thesis using assms b by (auto simp: refusing_def boot_tables_def)
  next
    case n0: False
    have bn: "b \<noteq> 0" using b n0 by (auto simp: bootmem_alloc_def split: bind_splits if_splits)
    show ?thesis
    proof (cases "b AND 0xff = 0 \<or> 0x1000 < n")
      case True
      then have "a = 0" "h' = h" using assms(2) b bn by (auto simp: refusing_def boot_tables_def)
      then show ?thesis using assms(1) by simp
    next
      case False
      then have e: "a = b" "h' = \<lparr>bh_pool = P, bh_live = (bh_live h)(a \<mapsto> unat n)\<rparr>"
        using assms(2) b bn n0 by (auto simp: refusing_def boot_tables_def)
      have sz: "unat n \<le> 2 ^ 31 - 48" "0 < unat n" using False n0 by (simp_all add: word_less_nat_alt word_le_nat_alt unat_gt_0)
      let ?k = "chunk_bytes n - 40"
      have new: "n \<le> ?k" "(b, ?k) \<notin> B" "boot_reach od P (insert (b, ?k) B) R"
        using bootmem_alloc_cases [OF boot_reach_holds [OF B(1)] n0 sz(1), of od] b boot_reach.alloc [OF B(1) n0 sz(1) b]
        by (metis option.distinct(1) option.inject prod.inject)+
      have "bh_live h b = None"
      proof (rule ccontr)
        assume "bh_live h b \<noteq> None"
        then obtain m k where m: "(b, k) \<in> B" "0 < m" "m \<le> unat k" using B(2) by blast
        have "(b, k) \<noteq> (b, ?k)" using m(1) new(2) by auto
        from reach_block(4) [OF new(3) insertI1 _ this] m new(1) sz(2) show False by (auto simp: word_le_nat_alt)
      qed
      moreover have "boot_heap_ok od R h'" unfolding boot_heap_ok_def
        using new sz(2) False B(2) e by (intro exI [of _ "insert (b, ?k) B"]) (auto simp: word_le_nat_alt)
      ultimately show ?thesis using e bn by simp
    qed
  qed
qed

lemma heap_free:
  assumes "boot_heap_ok od R h" "bh_live h a \<noteq> None"
  shows "boot_heap_ok od R (ta_free (boot_tables od) a h) \<and> bh_live (ta_free (boot_tables od) a h) = (bh_live h)(a := None)"
proof -
  obtain B where B: "boot_reach od (bh_pool h) B R"
    "\<And>a m. bh_live h a = Some m \<Longrightarrow> a AND 0xff \<noteq> 0 \<and> 0 < m \<and> (\<exists>n. (a, n) \<in> B \<and> m \<le> unat n)" using assms(1) by (auto simp: boot_heap_ok_def)
  obtain n where n: "(a, n) \<in> B" using assms(2) B(2) by blast
  obtain P where P: "bootmem_free od a (bh_pool h) = Some P" "boot_reach od P (B - {(a, n)}) R"
    using boot.free_ok [OF boot_reach_holds [OF B(1)] n, of od] boot_reach.free [OF B(1) n] by (auto simp: bootmem_free_def)
  then have e: "ta_free (boot_tables od) a h = \<lparr>bh_pool = P, bh_live = (bh_live h)(a := None)\<rparr>" by (simp add: boot_tables_def)
  have "boot_heap_ok od R (ta_free (boot_tables od) a h)" unfolding boot_heap_ok_def e
    using P(2) B(2) by (intro exI [of _ "B - {(a, n)}"]) auto
  then show ?thesis by (simp add: e)
qed

text \<open>The boot memory keeps the law of the tables as long as aligned blocks are refused.\<close>

lemma boot_good: "good_alloc (boot_heap_ok od R) bh_live (refusing (boot_tables od))"
  unfolding good_alloc_def
proof (intro conjI allI impI)
  show "blocks_disjoint (bh_live h)" if "boot_heap_ok od R h" for h by (rule heap_disjoint [OF that])
  show "boot_heap_ok od R h'" "if a = 0 then bh_live h' = bh_live h else bh_live h a = None \<and> bh_live h' = (bh_live h)(a \<mapsto> unat n)"
    if "boot_heap_ok od R h" "ta_alloc (refusing (boot_tables od)) n h = (a, h')" for h n a h' using heap_alloc [OF that] by simp_all
  show "boot_heap_ok od R (ta_free (refusing (boot_tables od)) a h)"
    "bh_live (ta_free (refusing (boot_tables od)) a h) = (bh_live h)(a := None)"
    if "boot_heap_ok od R h" "bh_live h a \<noteq> None" for h a using heap_free [OF that] by simp_all
qed

abbreviation (input) boot_mmu_ok :: "bool \<Rightarrow> (u32 \<times> u32) set \<Rightarrow> boot_heap mmu \<Rightarrow> bool" where
  "boot_mmu_ok od R \<equiv> mmu_ok (boot_heap_ok od R) bh_live"


section \<open>A start\<close>

definition start_mmu :: "'s \<Rightarrow> 's mmu" where
  "start_mmu h = \<lparr>words = \<lambda>_. 0, mmu_ctp = [], mmu_num_ctp = 0, mmu_ctx_cur = None, ctx_free = [], ctx_used = [], pages_freed = [],
     mmu_ctx_reg = 0, tbl_heap = h\<rparr>"

lemma run_append:
  "run_requests A (ns @ ms) h = (let (as, h) = run_requests A ns h; (bs, h) = run_requests A ms h in (as @ bs, h))"
  by (induction ns arbitrary: h) (simp_all add: case_prod_beta Let_def)

lemma run_boot:
  assumes "bootmem_allocs ns (bh_pool h) = Some (rs, P)" "0 \<notin> set rs"
  shows "\<exists>h'. run_requests (boot_tables True) ns h = (rs, h') \<and> bh_pool h' = P"
  using assms
proof (induction ns arbitrary: h rs)
  case (Cons n ns)
  then obtain a Q rs' where a: "bootmem_alloc True n (bh_pool h) = Some (a, Q)" "bootmem_allocs ns Q = Some (rs', P)" "rs = a # rs'" "a \<noteq> 0"
    by (auto split: bind_splits)
  let ?h = "\<lparr>bh_pool = Q, bh_live = (bh_live h)(a \<mapsto> unat n)\<rparr>"
  have "ta_alloc (boot_tables True) n h = (a, ?h)" using a by (simp add: boot_tables_def)
  moreover have "\<exists>h'. run_requests (boot_tables True) ns ?h = (rs', h') \<and> bh_pool h' = P" using Cons.IH [of ?h rs'] a(2,3) Cons.prems(2) by simp
  ultimately show ?case using a(3) by auto
qed simp

lemma run_can_alloc: "0 \<notin> set (fst (run_requests A (replicate k 0x200) h)) \<Longrightarrow> can_alloc A k h"
  by (induction k arbitrary: h) (auto simp: case_prod_beta Let_def)

lemma init_heap:
  assumes "run_requests A init_requests (tbl_heap M) = ([x, y, z], h)" "x \<noteq> 0" "y \<noteq> 0" "z \<noteq> 0" "align_up z 0x400 \<noteq> 0" "mmu_num_ctp M = 0"
  shows "\<exists>M'. srmmu_init A M = Some (0, M') \<and> tbl_heap M' = h"
proof -
  obtain h1 h2 where h: "ta_alloc A 0x800 (tbl_heap M) = (x, h1)" "ta_alloc A 32 h1 = (y, h2)" "ta_alloc A 0x800 h2 = (z, h)"
    using that [of "snd (ta_alloc A 0x800 (tbl_heap M))" "snd (ta_alloc A 32 (snd (ta_alloc A 0x800 (tbl_heap M))))"] assms(1)
    by (auto simp: case_prod_beta Let_def)
  show ?thesis using assms(2-6) h
    by (auto simp: srmmu_init_def srmmu_new_ctx_def mmu_alloc_lvl1_tbl_def mmu_alloc_tbl_def mmu_add_ctx_def mmu_set_lvl1_tbl_invalid_def
      set_invalid_ctxs set_invalid_fields wr_def mmu_set_current_ctx_def mmu_find_ctx_def srmmu_select_ctx_def Let_def)
qed

lemma small_run:
  "case small_boot of None \<Rightarrow> False | Some P \<Rightarrow>
     (case bootmem_allocs [16, 0x800, 32, 0x800] P of None \<Rightarrow> False | Some rQ \<Rightarrow>
       fst rQ = [demo_base + 0x1050, demo_base + 0x1090, demo_base + 0x18c0, demo_base + 0x2050]
       \<and> (case bootmem_allocs (replicate 6 0x200) (snd rQ) of None \<Rightarrow> False | Some sS \<Rightarrow> list_all (\<lambda>a. a AND 0xff \<noteq> 0) (fst sS)))"
  unfolding small_boot_eq by code_simp


text \<open>The small machine, after an earlier request of 16 bytes: its tables can be initialised, and six further ones are not aligned.\<close>

lemma boot_start:
  obtains P rs Q k h M where "small_boot = Some P" "bootmem_allocs [16, 0x800, 32, 0x800] P = Some (rs, Q)"
    "boot_heap_ok True {(demo_base, 2 ^ k)} h" "no_aligned (boot_tables True) init_requests h"
    "srmmu_init (boot_tables True) (start_mmu h) = Some (0, M)" "bh_pool (tbl_heap M) = Q"
    "boot_mmu_ok True {(demo_base, 2 ^ k)} M" "length (ctx_free M) = 1" "\<forall>x. mmu_walk 0 x M = None" "pages_freed M = []"
    "no_aligned (boot_tables True) (replicate 6 0x200) (tbl_heap M)" "can_alloc (boot_tables True) 6 (tbl_heap M)"
proof -
  obtain P k where P: "small_boot = Some P" "boot_reach True P {} {(demo_base, 2 ^ k)}" using small_boot_reach by blast
  let ?R = "{(demo_base, 2 ^ k :: u32)}"
  have run: "case bootmem_allocs [16, 0x800, 32, 0x800] P of None \<Rightarrow> False | Some rQ \<Rightarrow>
       fst rQ = [demo_base + 0x1050, demo_base + 0x1090, demo_base + 0x18c0, demo_base + 0x2050]
       \<and> (case bootmem_allocs (replicate 6 0x200) (snd rQ) of None \<Rightarrow> False | Some sS \<Rightarrow> list_all (\<lambda>a. a AND 0xff \<noteq> 0) (fst sS))"
    using small_run unfolding P(1) option.case .
  obtain Q where Q: "bootmem_allocs [16, 0x800, 32, 0x800] P = Some ([demo_base + 0x1050, demo_base + 0x1090, demo_base + 0x18c0, demo_base + 0x2050], Q)"
    "case bootmem_allocs (replicate 6 0x200) Q of None \<Rightarrow> False | Some sS \<Rightarrow> list_all (\<lambda>a. a AND 0xff \<noteq> 0) (fst sS)"
    using case_option_ex [OF run] by auto
  obtain ss S where S: "bootmem_allocs (replicate 6 0x200) Q = Some (ss, S)" "list_all (\<lambda>a. a AND 0xff \<noteq> 0) ss"
    using case_option_ex [OF Q(2)] by auto
  obtain P1 where P1: "bootmem_alloc True 16 P = Some (demo_base + 0x1050, P1)"
    "bootmem_allocs init_requests P1 = Some ([demo_base + 0x1090, demo_base + 0x18c0, demo_base + 0x2050], Q)"
    using Q(1) by (cases "bootmem_alloc True 16 P") (auto split: bind_splits)
  define h where "h = \<lparr>bh_pool = P1, bh_live = (\<lambda>_. None :: nat option)\<rparr>"
  have ok: "boot_heap_ok True ?R h" using boot_reach.alloc [OF P(2) _ _ P1(1)] by (auto simp: boot_heap_ok_def h_def)
  obtain h3 where h3: "run_requests (boot_tables True) init_requests h = ([demo_base + 0x1090, demo_base + 0x18c0, demo_base + 0x2050], h3)" "bh_pool h3 = Q"
    using run_boot [of init_requests h] P1(2) by (auto simp: h_def)
  have na: "no_aligned (boot_tables True) init_requests h" unfolding no_aligned_def h3(1) by simp
  have n0: "0 \<notin> set ss" using S(2) by (auto simp: list_all_iff)
  obtain h4 where h4: "run_requests (boot_tables True) (replicate 6 0x200) h3 = (ss, h4)"
    using run_boot [of "replicate 6 0x200" h3] S(1) n0 h3(2) by auto
  have nb: "no_aligned (boot_tables True) (replicate 6 0x200) h3"
    using S(2) unfolding no_aligned_def h4 fst_conv by (auto simp: list_all_iff)
  have cb: "can_alloc (boot_tables True) 6 h3" by (rule run_can_alloc) (simp only: h4 fst_conv n0, simp)
  obtain M where M: "srmmu_init (boot_tables True) (start_mmu h) = Some (0, M)" "tbl_heap M = h3"
    using init_heap [of "boot_tables True" "start_mmu h"] h3(1) by (auto simp: start_mmu_def align_up_def align_mask_def)
  have s: "boot_heap_ok True ?R (tbl_heap (start_mmu h))" "mmu_num_ctp (start_mmu h) = 0" "tbl_heap (start_mmu h) = h"
    using ok by (simp_all add: start_mmu_def)
  obtain r M' where i: "srmmu_init (refusing (boot_tables True)) (start_mmu h) = Some (r, M')" "pages_freed M' = pages_freed (start_mmu h)"
    "r = - ENOMEM \<or> r = 0 \<and> boot_mmu_ok True ?R M' \<and> length (ctx_free M') = 1 \<and> (\<forall>x. mmu_walk 0 x M' = None) \<and> mmu_ctx_reg M' = 0"
    by (rule init_spec [OF boot_good s(1,2)])
  have "r = 0" "M' = M" using i(1) M(1) init_refusing [of "boot_tables True" "start_mmu h"] na s(3) by simp_all
  then show ?thesis using that [OF P(1) Q(1) ok na M(1)] i(2,3) M(2) h3(2) nb cb by (simp add: start_mmu_def)
qed

section \<open>Properties\<close>

text \<open>C34: in every reachable state of boot memory, when a table gets a block that already begins at a multiple of its alignment, its
  marker and its counter are written behind the end of this block: they are placed at the entry whose number is the size of
  the table in bytes, four times as far as intended.  Which memory this is depends on the state; in the example it is in
  the block that another request gets later.\<close>

theorem boot_table_marker_outside:
  assumes "boot_reach od (bh_pool (tbl_heap M)) B R" "sz = 0x100 \<or> sz = 0x400" "bootmem_alloc od (2 * sz) (bh_pool (tbl_heap M)) = Some (a, P)"
    "align_up a sz = a"
  shows "\<exists>M' n. mmu_alloc_tbl (boot_tables od) sz M = (a, M') \<and> boot_reach od (bh_pool (tbl_heap M')) (insert (a, n) B) R
     \<and> rd (a + 4 * sz) M' = MAGIC_OF 0 \<and> rd (a + 4 * sz + 4) M' = 0
     \<and> (\<forall>w \<in> {a + 4 * sz, a + 4 * sz + 4}. unat w < unat a \<or> unat a + unat n \<le> unat w)
     \<and> (\<forall>w. w \<notin> {a + 4 * sz, a + 4 * sz + 4} \<longrightarrow> words M' w = words M w)"
proof -
  let ?n = "chunk_bytes (2 * sz) - 40"
  have s: "2 * sz \<noteq> 0" "unat (2 * sz) \<le> 2 ^ 31 - 48" using assms(2) by auto
  have nb: "unat ?n + 8 \<le> unat (4 * sz)"
  proof -
    have "chunk_bytes 0x200 - 40 = 520" "chunk_bytes 0x800 - 40 = 2056" by code_simp+
    then show ?thesis using assms(2) by auto
  qed
  have a0: "a \<noteq> 0" "boot_reach od P (insert (a, ?n) B) R"
    using assms(3) s(1) boot_reach.alloc [OF assms(1) s assms(3)] by (auto simp: bootmem_alloc_def split: bind_splits if_splits)
  define M' where "M' = wr (a + 4 * (sz + 1)) 0 (wr (a + 4 * sz) (MAGIC_OF 0)
     (M\<lparr>tbl_heap := \<lparr>bh_pool = P, bh_live = (bh_live (tbl_heap M))(a \<mapsto> unat (2 * sz))\<rparr>\<rparr>))"
  have al: "mmu_alloc_tbl (boot_tables od) sz M = (a, M')"
    using assms(3,4) a0(1) by (simp add: mmu_alloc_tbl_def boot_tables_def M'_def)
  have out: "unat (a + x) < unat a \<or> unat a + unat ?n \<le> unat (a + x)" if "unat ?n \<le> unat x" for x :: u32
  proof (cases "unat a + unat x < 2 ^ 32")
    case True
    then have "unat (a + x) = unat a + unat x" by (subst unat_add_lem [THEN iffD1]) auto
    then show ?thesis using that by simp
  next
    case False
    then have "unat (a + x) + 2 ^ 32 = unat a + unat x" using unat_lt_32 [of a] unat_lt_32 [of x]
      by (simp add: unat_word_ariths le_mod_geq)
    then show ?thesis using unat_lt_32 [of x] by linarith
  qed
  have u: "unat (4 * sz + 4) = unat (4 * sz) + 4" using assms(2) by auto
  have o2: "\<forall>w \<in> {a + 4 * sz, a + 4 * sz + 4}. unat w < unat a \<or> unat a + unat ?n \<le> unat w"
    using out [of "4 * sz"] out [of "4 * sz + 4"] u nb by (simp add: add.assoc)
  have "a + 4 * (sz + 1) = a + 4 * sz + 4" by (simp add: algebra_simps)
  moreover have "(4 :: u32) \<noteq> 0" by simp
  then have "a + 4 * sz \<noteq> a + 4 * sz + 4" by (metis add.right_neutral add_left_cancel)
  ultimately have "rd (a + 4 * sz) M' = MAGIC_OF 0" "rd (a + 4 * sz + 4) M' = 0" "bh_pool (tbl_heap M') = P"
    "\<forall>w. w \<notin> {a + 4 * sz, a + 4 * sz + 4} \<longrightarrow> words M' w = words M w" by (simp_all add: M'_def rd_def wr_def)
  with al o2 show ?thesis using a0(2) by (intro exI [of _ M'] exI [of _ ?n]) simp
qed

text \<open>The table of the context pointers, a context, its first level and two tables of the lower levels.\<close>

lemma first_tables_next:
  "case small_boot of None \<Rightarrow> False | Some P \<Rightarrow> (case bootmem_allocs [0x800, 32, 0x800, 0x200, 0x200] P of None \<Rightarrow> False | Some rP \<Rightarrow>
     (case bootmem_alloc True 0x200 (snd rP) of None \<Rightarrow> False | Some aQ \<Rightarrow> fst aQ = demo_base + 0x1b00 \<and>
       (case bootmem_allocs [0x200, 0x200] (snd aQ) of None \<Rightarrow> False | Some bQ \<Rightarrow> fst bQ = [demo_base + 0x2ab0, demo_base + 0x1d30])))"
  unfolding small_boot_eq by code_simp

lemma reach_allocs:
  assumes "boot_reach True P B R" "bootmem_allocs ns P = Some (rs, Q)" "\<forall>n \<in> set ns. n \<noteq> 0 \<and> unat n \<le> 2 ^ 31 - 48"
  shows "\<exists>B'. boot_reach True Q B' R"
  using assms
proof (induction ns arbitrary: P B rs)
  case (Cons n ns)
  from Cons.prems(2) obtain a P1 rs' where a: "bootmem_alloc True n P = Some (a, P1)" "bootmem_allocs ns P1 = Some (rs', Q)" by (auto split: bind_splits)
  show ?case using Cons.IH [OF boot_reach.alloc [OF Cons.prems(1) _ _ a(1)] a(2)] Cons.prems(3) by simp
qed auto

text \<open>The third table of a lower level; the counter lies in the block of 520 bytes that the second request after it gets.\<close>

theorem boot_table_marker_outside_witness:
  "\<exists>(M :: boot_heap mmu) M' bs Q. mmu_alloc_tbl (boot_tables True) 0x100 M = (demo_base + 0x1b00, M')
     \<and> rd (demo_base + 0x1f00) M' = MAGIC_OF 0 \<and> bootmem_allocs [0x200, 0x200] (bh_pool (tbl_heap M')) = Some (bs, Q)
     \<and> bs ! 1 \<le> demo_base + 0x1f00 \<and> demo_base + 0x1f08 \<le> bs ! 1 + 520"
proof -
  obtain P k where P: "small_boot = Some P" "boot_reach True P {} {(demo_base, 2 ^ k)}" using small_boot_reach by blast
  have r0: "case bootmem_allocs [0x800, 32, 0x800, 0x200, 0x200] P of None \<Rightarrow> False | Some rP \<Rightarrow>
     (case bootmem_alloc True 0x200 (snd rP) of None \<Rightarrow> False | Some aQ \<Rightarrow> fst aQ = demo_base + 0x1b00 \<and>
       (case bootmem_allocs [0x200, 0x200] (snd aQ) of None \<Rightarrow> False | Some bQ \<Rightarrow> fst bQ = [demo_base + 0x2ab0, demo_base + 0x1d30]))"
    using first_tables_next unfolding P(1) option.case .
  obtain rs P1 where r1: "bootmem_allocs [0x800, 32, 0x800, 0x200, 0x200] P = Some (rs, P1)"
    "case bootmem_alloc True 0x200 P1 of None \<Rightarrow> False | Some aQ \<Rightarrow> fst aQ = demo_base + 0x1b00 \<and>
       (case bootmem_allocs [0x200, 0x200] (snd aQ) of None \<Rightarrow> False | Some bQ \<Rightarrow> fst bQ = [demo_base + 0x2ab0, demo_base + 0x1d30])"
    using case_option_ex [OF r0] by auto
  obtain P2 where r2: "bootmem_alloc True 0x200 P1 = Some (demo_base + 0x1b00, P2)"
    "case bootmem_allocs [0x200, 0x200] P2 of None \<Rightarrow> False | Some bQ \<Rightarrow> fst bQ = [demo_base + 0x2ab0, demo_base + 0x1d30]"
    using case_option_ex [OF r1(2)] by auto
  obtain bs Q where r3: "bootmem_allocs [0x200, 0x200] P2 = Some (bs, Q)" "bs = [demo_base + 0x2ab0, demo_base + 0x1d30]"
    using case_option_ex [OF r2(2)] by auto
  obtain B where B: "boot_reach True P1 B {(demo_base, 2 ^ k)}" using reach_allocs [OF P(2) r1(1)] by auto
  let ?M = "start_mmu \<lparr>bh_pool = P1, bh_live = (\<lambda>_. None :: nat option)\<rparr>"
  have al: "align_up (demo_base + 0x1b00) 0x100 = demo_base + 0x1b00" by (simp add: align_up_def align_mask_def)
  have h: "boot_reach True (bh_pool (tbl_heap ?M)) B {(demo_base, 2 ^ k)}" "(0x100 :: u32) = 0x100 \<or> (0x100 :: u32) = 0x400"
    "bootmem_alloc True (2 * 0x100) (bh_pool (tbl_heap ?M)) = Some (demo_base + 0x1b00, P2)" using B r2(1) by (simp_all add: start_mmu_def)
  obtain M' where M': "mmu_alloc_tbl (boot_tables True) 0x100 ?M = (demo_base + 0x1b00, M')" "rd (demo_base + 0x1b00 + 4 * 0x100) M' = MAGIC_OF 0"
    using boot_table_marker_outside [OF h al] by blast
  have "bh_pool (tbl_heap M') = P2" using M'(1) h(3) al by (auto simp: mmu_alloc_tbl_def boot_tables_def wr_def)
  then show ?thesis using M' r3 by (intro exI [of _ ?M] exI [of _ M'] exI [of _ bs] exI [of _ Q]) simp
qed

text \<open>C10: mapping a range of small pages that are not mapped yet, with the tables in boot memory, maps them one after the other:
  afterwards the first \<open>k\<close> pages, all of them if 0 is returned, have the physical addresses of the range in the context,
  the translation of all other addresses in all contexts is as before, and the tables are well-formed.  The only other result
  is that there is no memory (boot memory stops the machine then), and it does not occur as long as boot memory has two
  blocks for each page.  None of the blocks that the call may get is to begin at a multiple of 256, where the marker of a table would not be in its block.\<close>

theorem srmmu_small_range_maps:
  assumes "boot_mmu_ok od R M" "unat n < length (ctx_free M)" "perm AND NOT 0xfc = 0"
    "unat va mod 4096 = 0" "unat pa mod 4096 = 0" "unat va + 4096 * unat num \<le> 2 ^ 32"
    "\<forall>x. unat va \<le> unat x \<and> unat x < unat va + 4096 * unat num \<longrightarrow> mmu_walk (unat n) x M = None"
    "no_aligned (boot_tables od) (replicate (2 * unat num) 0x200) (tbl_heap M)"
  shows "\<exists>r k M'. srmmu_do_small_mapping_range (boot_tables od) n va pa num perm M = Some (r, M') \<and> boot_mmu_ok od R M' \<and> same_ctxs M M'
     \<and> (r = 0 \<and> k = unat num \<or> r = - ENOMEM \<and> k < unat num) \<and> (can_alloc (boot_tables od) (2 * unat num) (tbl_heap M) \<longrightarrow> r = 0)
     \<and> (\<forall>d < length (ctx_free M). \<forall>x. mmu_phys d x M' =
          (if d = unat n \<and> unat va \<le> unat x \<and> unat x < unat va + 4096 * k then Some (pa + (x - va)) else mmu_phys d x M))"
  using small_range_maps [OF boot_good assms(1-7)] unfolding map_refusing [OF assms(8)] refusing_can_alloc [OF assms(8)] .

theorem srmmu_small_range_maps_witness:
  "\<exists>M M'. srmmu_do_small_mapping_range (boot_tables True) 0 0x40100000 0x60000000 3 0x9c M = Some (0, M')
     \<and> (\<forall>x. mmu_phys 0 x M' = (if 0x40100000 \<le> unat x \<and> unat x < 0x40103000 then Some (0x60000000 + (x - 0x40100000)) else None))"
proof -
  obtain k M where M: "boot_mmu_ok True {(demo_base, 2 ^ k)} M" "length (ctx_free M) = 1" "\<forall>x. mmu_walk 0 x M = None"
    "no_aligned (boot_tables True) (replicate 6 0x200) (tbl_heap M)" "can_alloc (boot_tables True) 6 (tbl_heap M)" by (rule boot_start) blast
  have ph: "mmu_phys 0 x M = None" for x using M(3) by (simp add: mmu_phys_def)
  obtain r k' M' where m: "srmmu_do_small_mapping_range (boot_tables True) 0 0x40100000 0x60000000 3 0x9c M = Some (r, M')"
    "r = 0 \<and> k' = unat (3 :: u32) \<or> r = - ENOMEM \<and> k' < unat (3 :: u32)" "can_alloc (boot_tables True) (2 * unat (3 :: u32)) (tbl_heap M) \<longrightarrow> r = 0"
    "\<forall>d < length (ctx_free M). \<forall>x. mmu_phys d x M' =
       (if d = unat (0 :: u32) \<and> unat (0x40100000 :: u32) \<le> unat x \<and> unat x < unat (0x40100000 :: u32) + 4096 * k'
        then Some (0x60000000 + (x - 0x40100000)) else mmu_phys d x M)"
    using srmmu_small_range_maps [OF M(1), of 0 "0x9c" "0x40100000" "0x60000000" 3] M(2-4) by auto
  have "r = 0" "k' = 3" using m(2,3) M(5) by simp_all
  then show ?thesis using m(1,4) M(2) ph by (intro exI [of _ M] exI [of _ M']) simp
qed

text \<open>C9: with the tables in boot memory, the release of a range returns, keeps the tables and boot memory consistent,
  unmaps the pages that begin in the range and only these, and hands each of their physical pages back once, in
  the order of the addresses.  The start has to be a multiple of 16 MiB, or to be mapped by a small page.\<close>

theorem srmmu_release_unmaps:
  assumes "boot_mmu_ok od R M" "unat n < length (ctx_free M)" "unat va mod 4096 = 0" "unat va_end mod 4096 = 0"
    "va_end \<le> 0xff000000" "unat va mod 2 ^ 24 = 0 \<or> (\<exists>e. mmu_walk (unat n) va M = Some (3, e))"
  shows "\<exists>M'. srmmu_release_pages (boot_tables od) n va va_end M = Some M' \<and> boot_mmu_ok od R M' \<and> same_ctxs M M'
     \<and> pages_freed M' = pages_freed M @ handed_pages (unat n) va va_end M
     \<and> (\<forall>d < length (ctx_free M). \<forall>x. mmu_walk d x M' =
          (case mmu_walk d x M of Some (l, e) \<Rightarrow> if d = unat n \<and> page_in va va_end l x then None else Some (l, e) | None \<Rightarrow> None))"
  using release_unmaps [OF boot_good assms] release_refusing by blast

text \<open>C25: releasing a range of pages that has just been mapped, with the tables in boot memory, gives the translation before the mapping, and exactly the
  physical pages of the range, in their order.  As for the mapping, no block is to begin at a multiple of 256.\<close>

theorem srmmu_map_release:
  assumes "boot_mmu_ok od R M" "unat n < length (ctx_free M)" "perm AND NOT 0xfc = 0"
    "unat va mod 4096 = 0" "unat pa mod 4096 = 0" "unat va + 4096 * unat num \<le> 0xff000000"
    "\<forall>x. unat va \<le> unat x \<and> unat x < unat va + 4096 * unat num \<longrightarrow> mmu_walk (unat n) x M = None"
    "no_aligned (boot_tables od) (replicate (2 * unat num) 0x200) (tbl_heap M)"
    "srmmu_do_small_mapping_range (boot_tables od) n va pa num perm M = Some (0, M1)"
  shows "\<exists>M2. srmmu_release_pages (boot_tables od) n va (va + 4096 * num) M1 = Some M2 \<and> boot_mmu_ok od R M2
     \<and> (\<forall>d < length (ctx_free M). \<forall>x. mmu_walk d x M2 = mmu_walk d x M)
     \<and> pages_freed M2 = pages_freed M @ map (\<lambda>i. pa + word_of_nat (4096 * i)) [0..<unat num]"
  using map_release [OF boot_good assms(1-7), of M1] assms(9) release_refusing unfolding map_refusing [OF assms(8)] by blast

text \<open>Three pages are mapped, and released.\<close>

lemma three_mapped:
  obtains k M M1 where "boot_mmu_ok True {(demo_base, 2 ^ k)} M" "length (ctx_free M) = 1" "\<forall>x. mmu_walk 0 x M = None" "pages_freed M = []"
    "no_aligned (boot_tables True) (replicate (2 * unat (3 :: u32)) 0x200) (tbl_heap M)"
    "srmmu_do_small_mapping_range (boot_tables True) 0 0x40100000 0x60000000 3 0x9c M = Some (0, M1)"
    "boot_mmu_ok True {(demo_base, 2 ^ k)} M1" "length (ctx_free M1) = 1" "pages_freed M1 = []"
    "\<And>x. mmu_walk 0 x M1 = (if 0x40100000 \<le> unat x \<and> unat x < 0x40103000
       then Some (3, SRMMU_PTE (0x60000000 + word_of_nat (4096 * (unat x div 4096 - 0x40100))) 0x9c) else None)"
proof -
  obtain k M where M: "boot_mmu_ok True {(demo_base, 2 ^ k)} M" "length (ctx_free M) = 1" "\<forall>x. mmu_walk 0 x M = None" "pages_freed M = []"
    "no_aligned (boot_tables True) (replicate 6 0x200) (tbl_heap M)" "can_alloc (boot_tables True) 6 (tbl_heap M)" by (rule boot_start) blast
  have c: "no_aligned (boot_tables True) (replicate (2 * unat (3 :: u32)) 0x200) (tbl_heap M)" using M(5) by simp
  have h: "unat (0 :: u32) < length (ctx_free M)" "(0x9c :: u32) AND NOT 0xfc = 0" "unat (0x40100000 :: u32) mod 4096 = 0"
    "unat (0x40100000 :: u32) + 4096 * unat (3 :: u32) \<le> 2 ^ 32" using M(2) by simp_all
  have f: "\<forall>x. unat (0x40100000 :: u32) \<le> unat x \<and> unat x < unat (0x40100000 :: u32) + 4096 * unat (3 :: u32) \<longrightarrow> mmu_walk (unat (0 :: u32)) x M = None"
    using M(3) by simp
  obtain r k' M1 where r: "srmmu_do_small_mapping_range (refusing (boot_tables True)) 0 0x40100000 0x60000000 3 0x9c M = Some (r, M1)"
    "r = 0 \<and> k' = unat (3 :: u32) \<or> r = - ENOMEM \<and> k' < unat (3 :: u32)"
    "mapped_ok (boot_heap_ok True {(demo_base, 2 ^ k)}) bh_live 0 0x40100000 0x60000000 k' 0x9c M M1"
    "can_alloc (refusing (boot_tables True)) (2 * unat (3 :: u32)) (tbl_heap M) \<longrightarrow> r = 0"
    by (rule map_range_spec [OF boot_good M(1) h f])
  have z: "r = 0" "k' = 3" using r(2,4) M(6) refusing_can_alloc [OF c] by simp_all
  have "mmu_walk 0 x M1 = (if 0x40100000 \<le> unat x \<and> unat x < 0x40103000
       then Some (3, SRMMU_PTE (0x60000000 + word_of_nat (4096 * (unat x div 4096 - 0x40100))) 0x9c) else None)" for x
    using r(3) M(2,3) z(2) by (simp add: mapped_ok_def)
  then show ?thesis using that [OF M(1-4) c] r(1,3) z M(2,4) map_refusing [OF c] by (simp add: mapped_ok_def same_ctxs_def)
qed

theorem srmmu_release_unmaps_witness:
  "\<exists>M M'. srmmu_release_pages (boot_tables True) 0 0x40100000 0x40102000 M = Some M' \<and> mmu_walk 0 0x40101000 M \<noteq> None
     \<and> mmu_walk 0 0x40101000 M' = None \<and> mmu_walk 0 0x40102000 M' = mmu_walk 0 0x40102000 M \<and> mmu_walk 0 0x40102000 M \<noteq> None
     \<and> pages_freed M' = handed_pages 0 0x40100000 0x40102000 M"
proof -
  obtain k M where M: "boot_mmu_ok True {(demo_base, 2 ^ k)} M" "length (ctx_free M) = 1" "pages_freed M = []"
    "\<And>x. mmu_walk 0 x M = (if 0x40100000 \<le> unat x \<and> unat x < 0x40103000
       then Some (3, SRMMU_PTE (0x60000000 + word_of_nat (4096 * (unat x div 4096 - 0x40100))) 0x9c) else None)"
    by (rule three_mapped) blast
  have h: "unat (0 :: u32) < length (ctx_free M)" "unat (0x40100000 :: u32) mod 4096 = 0" "unat (0x40102000 :: u32) mod 4096 = 0"
    "(0x40102000 :: u32) \<le> 0xff000000" "unat (0x40100000 :: u32) mod 2 ^ 24 = 0 \<or> (\<exists>e. mmu_walk (unat (0 :: u32)) 0x40100000 M = Some (3, e))"
    using M(2) by (simp_all add: M(4) word_le_nat_alt)
  obtain M' where M': "srmmu_release_pages (boot_tables True) 0 0x40100000 0x40102000 M = Some M'"
    "pages_freed M' = pages_freed M @ handed_pages (unat (0 :: u32)) 0x40100000 0x40102000 M"
    "\<forall>d < length (ctx_free M). \<forall>x. mmu_walk d x M' =
      (case mmu_walk d x M of Some (l, e) \<Rightarrow> if d = unat (0 :: u32) \<and> page_in 0x40100000 0x40102000 l x then None else Some (l, e) | None \<Rightarrow> None)"
    using srmmu_release_unmaps [OF M(1) h] by blast
  have w: "mmu_walk 0 x M' = (case mmu_walk 0 x M of Some (l, e) \<Rightarrow> if page_in 0x40100000 0x40102000 l x then None else Some (l, e) | None \<Rightarrow> None)" for x
    using M'(3) M(2) by (simp add: case_prod_beta split: option.split)
  have i: "page_in 0x40100000 0x40102000 3 0x40101000" "\<not> page_in 0x40100000 0x40102000 3 0x40102000"
    by (simp_all add: page_in_def page_bits.simps Let_def mask_eq_exp_minus_1)
  show ?thesis using M'(1,2) M(3) i w [of "0x40101000"] w [of "0x40102000"]
    by (intro exI [of _ M] exI [of _ M']) (simp add: M(4))
qed

theorem srmmu_map_release_witness:
  "\<exists>M M1 M2. srmmu_do_small_mapping_range (boot_tables True) 0 0x40100000 0x60000000 3 0x9c M = Some (0, M1)
     \<and> srmmu_release_pages (boot_tables True) 0 0x40100000 0x40103000 M1 = Some M2 \<and> (\<forall>x. mmu_walk 0 x M2 = mmu_walk 0 x M)
     \<and> pages_freed M2 = [0x60000000, 0x60001000, 0x60002000]"
proof -
  obtain k M M1 where M: "boot_mmu_ok True {(demo_base, 2 ^ k)} M" "length (ctx_free M) = 1" "\<forall>x. mmu_walk 0 x M = None" "pages_freed M = []"
    "no_aligned (boot_tables True) (replicate (2 * unat (3 :: u32)) 0x200) (tbl_heap M)"
    "srmmu_do_small_mapping_range (boot_tables True) 0 0x40100000 0x60000000 3 0x9c M = Some (0, M1)" by (rule three_mapped) blast
  have h: "unat (0 :: u32) < length (ctx_free M)" "(0x9c :: u32) AND NOT 0xfc = 0" "unat (0x40100000 :: u32) mod 4096 = 0"
    "unat (0x60000000 :: u32) mod 4096 = 0" "unat (0x40100000 :: u32) + 4096 * unat (3 :: u32) \<le> 0xff000000" using M(2) by simp_all
  have f: "\<forall>x. unat (0x40100000 :: u32) \<le> unat x \<and> unat x < unat (0x40100000 :: u32) + 4096 * unat (3 :: u32) \<longrightarrow> mmu_walk (unat (0 :: u32)) x M = None"
    using M(3) by simp
  obtain M2 where M2: "srmmu_release_pages (boot_tables True) 0 0x40100000 (0x40100000 + 4096 * 3) M1 = Some M2"
    "\<forall>d < length (ctx_free M). \<forall>x. mmu_walk d x M2 = mmu_walk d x M"
    "pages_freed M2 = pages_freed M @ map (\<lambda>i. 0x60000000 + word_of_nat (4096 * i)) [0..<unat (3 :: u32)]"
    using srmmu_map_release [OF M(1) h f M(5,6)] by blast
  have "[0..<unat (3 :: u32)] = [0, 1, 2]" by (simp add: upt_rec)
  then show ?thesis using M(2,4,6) M2 by - (rule exI [of _ M], rule exI [of _ M1], rule exI [of _ M2], simp)
qed

end
