(* ===== verification/Mmu.thy ===== *)
theory Mmu
  imports Srmmu_Boot Kmem
begin

text \<open>
  Memory of the processor (\<^verbatim>\<open>arch/sparc/kernel/mmu.c\<close>): the page tables in boot memory, the pages of
  \<^verbatim>\<open>lib/page.c\<close>, which boot memory takes its blocks from too, and the program break together, with the handler of the faults
  of the memory management unit.  The registers of a fault are arguments of the handler.  A failing \<^verbatim>\<open>BUG\<close> is
  \<^term>\<open>None\<close>.
\<close>

section \<open>State\<close>

abbreviation (input) LARGE_PAGES_HIGHMEM :: u32 where "LARGE_PAGES_HIGHMEM \<equiv> (0xFFFFFFFF - HIGHMEM_START) div SRMMU_LARGE_PAGE_SIZE + 1"
abbreviation (input) VMALLOC_START :: u32 where "VMALLOC_START \<equiv> 0x01000000"
abbreviation (input) VMALLOC_END :: u32 where "VMALLOC_END \<equiv> HIGHMEM_START - 1"

record mm_sbrk =
  brk_cur :: u32
  brk_lo :: u32
  brk_hi :: u32

record mm_sys =
  tables :: "boot_heap mmu"
  mm_proc_mem :: "mm_sbrk list"
  mmu_cur :: u32

text \<open>The page map is the one that the boot memory allocator uses.\<close>

definition heap_pages :: "page_st \<Rightarrow> boot_heap \<Rightarrow> boot_heap" where
  "heap_pages P h = h\<lparr>bh_pool := upd_pages (\<lambda>_. P) (bh_pool h)\<rparr>"

definition pgs :: "mm_sys \<Rightarrow> page_st" where
  "pgs S = bm_pages (cstore (bh_pool (tbl_heap (tables S))))"

definition set_pgs :: "page_st \<Rightarrow> mm_sys \<Rightarrow> mm_sys" where
  "set_pgs P S = S\<lparr>tables := (tables S)\<lparr>tbl_heap := heap_pages P (tbl_heap (tables S))\<rparr>\<rparr>"

datatype fault_type = FT_NONE | FT_INVALID_ADDR | FT_PROTECTION | FT_PRIV_VIOLATION | FT_TRANSLATION | FT_ACCESS_BUS | FT_INTERNAL

section \<open>Operations\<close>

definition mm_set_mmu_ctx :: "u32 \<Rightarrow> mm_sys \<Rightarrow> (int \<times> mm_sys) option" where
  "mm_set_mmu_ctx ctx S =
     (let (r, M) = srmmu_select_ctx ctx (tables S); S = S\<lparr>tables := M\<rparr> in
      if r \<noteq> 0 then Some (- EINVAL, S)
      else if unat ctx \<ge> length (mm_proc_mem S) then None
      else
        let S = (if brk_cur (mm_proc_mem S ! unat ctx) = 0
                 then S\<lparr>mm_proc_mem := (mm_proc_mem S)[unat ctx := \<lparr>brk_cur = VMALLOC_START, brk_lo = VMALLOC_START, brk_hi = VMALLOC_END\<rparr>]\<rparr>
                 else S)
        in Some (0, S\<lparr>mmu_cur := ctx\<rparr>))"

definition mm_get_mmu_ctx :: "mm_sys \<Rightarrow> u32" where
  "mm_get_mmu_ctx S = mmu_cur S"

fun free_pages :: "u32 list \<Rightarrow> page_st \<Rightarrow> page_st option" where
  "free_pages [] P = Some P"
| "free_pages (a # as) P = do { P \<leftarrow> page_free a P; free_pages as P }"

text \<open>The pages go to \<^verbatim>\<open>page_free\<close> in the order in which they are released, after the tables that became empty have been
  released; the code does each as soon as it is released.\<close>

definition mm_release_mmu_mapping :: "bool \<Rightarrow> u32 \<Rightarrow> u32 \<Rightarrow> mm_sys \<Rightarrow> mm_sys option" where
  "mm_release_mmu_mapping od va_start va_stop S = do {
     let ctx = mm_get_mmu_ctx S;
     M \<leftarrow> srmmu_release_pages (boot_tables od) ctx va_start va_stop (tables S);
     let as = drop (length (pages_freed (tables S))) (pages_freed M);
     let S = S\<lparr>tables := M\<rparr>;
     P \<leftarrow> free_pages as (pgs S);
     Some (set_pgs P S)
   }"

definition mm_kernel_sbrk :: "bool \<Rightarrow> u32 \<Rightarrow> mm_sys \<Rightarrow> (u32 \<times> mm_sys) option" where
  "mm_kernel_sbrk od increment S =
     (let ctx = unat (mm_get_mmu_ctx S) in
      if ctx \<ge> length (mm_proc_mem S) then None
      else
        let b = mm_proc_mem S ! ctx in
        if increment = 0 then Some (brk_cur b, S)
        else
          let oldbrk = brk_cur b; increment = align_up increment 8; brk = oldbrk + increment in
          if increment > mm_free_bytes (pstat (pgs S)) then Some (- 1, S)
          else if brk < brk_lo b then Some (- 1, S)
          else if brk > brk_hi b then Some (- 1, S)
          else do {
            S \<leftarrow> (if sint increment < 0 \<and> page_align brk < page_align (oldbrk - 0x1000) \<and> sint (page_align oldbrk) > sint (page_align brk)
                 then mm_release_mmu_mapping od (page_align brk) (page_align oldbrk) S else Some S);
            Some (oldbrk, S\<lparr>mm_proc_mem := (mm_proc_mem S)[ctx := b\<lparr>brk_cur := brk\<rparr>]\<rparr>)
          })"

definition mm_get_physical_addr :: "u32 \<Rightarrow> mm_sys \<Rightarrow> u32 option" where
  "mm_get_physical_addr va S = map_option (\<lambda>pa. pa OR (va AND 0xFFF)) (srmmu_get_pa_page (mm_get_mmu_ctx S) va (tables S))"

definition mm_mmu_trap :: "bool \<Rightarrow> fault_type \<Rightarrow> bool \<Rightarrow> u32 \<Rightarrow> mm_sys \<Rightarrow> mm_sys option" where
  "mm_mmu_trap od ft fault_address_valid addr S =
     (if ft = FT_INVALID_ADDR \<and> fault_address_valid then
        if addr = 0 then None
        else
          let ctx = mm_get_mmu_ctx S in
          if unat ctx \<ge> length (mm_proc_mem S) then None
          else if addr < brk_lo (mm_proc_mem S ! unat ctx) then None
          else if addr > HIGHMEM_START then None
          else if addr < brk_cur (mm_proc_mem S ! unat ctx) then do {
            (page, P) \<leftarrow> page_alloc (pgs S);
            let S = set_pgs P S;
            if page = 0 then None
            else do {
              (_, M) \<leftarrow> srmmu_do_small_mapping (boot_tables od) ctx addr page (SRMMU_CACHEABLE OR SRMMU_ACC_S_RWX_2) (tables S);
              Some (S\<lparr>tables := M\<rparr>)
            }
          }
          else None
      else Some S)"

text \<open>The map of the upper memory at the start; \<^verbatim>\<open>mm_set_mmu_ctx\<close> is called for context 0.\<close>

definition mm_init_leon :: "bool \<Rightarrow> mm_sys \<Rightarrow> mm_sys option" where
  "mm_init_leon od S = do {
     (_, M) \<leftarrow> srmmu_init (boot_tables od) (tables S);
     let (_, M) = srmmu_do_large_mapping_range 0 HIGHMEM_START HIGHMEM_START LARGE_PAGES_HIGHMEM (SRMMU_CACHEABLE OR SRMMU_ACC_S_RWX_2) M;
     (_, S) \<leftarrow> mm_set_mmu_ctx 0 (S\<lparr>tables := M\<rparr>);
     Some S
   }"

section \<open>Faults\<close>

lemma get_pa_page:
  assumes "good_state ok lv T M" "unat n < length (ctx_free M)"
  shows "srmmu_get_pa_page n va M = Some (SRMMU_PTE_TO_ADDR (vp T M (unat n) (unat va div 4096)))"
proof -
  have tree: "tbl_tree_ok (lv (tbl_heap M)) T M" using assms(1) by (simp add: good_state_def)
  note fc = find_ctx_at [OF tree, of n]
  show ?thesis using fc(1) assms(2) find_lvl3 [OF tree fc(2) [OF assms(2)], of va]
    by (simp add: srmmu_get_pa_page_def ent_offsets vp_def pte_def page_of Let_def SRMMU_PTE_TO_ADDR_def)
qed

lemma trap_perm: "(SRMMU_CACHEABLE OR SRMMU_ACC_S_RWX_2) AND NOT 0xfc = (0 :: u32)"
  by simp

text \<open>Taking a page from the page map leaves the tables.\<close>

lemma page_taken:
  assumes "boot_reach od P B R" "page_alloc (bm_pages (cstore P)) = Some (a, pg)" "a \<noteq> 0"
  shows "\<exists>n. page_map_get_chunk_size a pg = Some n"
proof -
  obtain T where "boot_holds (cstore P) T" using boot_reach_holds [OF assms(1)] by (auto simp: chunk_holds_def)
  then obtain m S where p: "page_ok (bm_pages (cstore P)) m S" by (rule boot_holdsE)
  have F: "page_mem (bm_pages (cstore P)) = Some m" "distinct (page_map_list_full (bm_pages (cstore P)))" "set (page_map_list_full (bm_pages (cstore P))) \<subseteq> set m"
    using p by (auto simp: page_ok_def)
  have run: "page_alloc_loop (page_map_list_full (bm_pages (cstore P))) (bm_pages (cstore P)) = Some (a, pg)" using assms(2) F(1) by (simp add: page_alloc_def)
  obtain i k where i: "i \<in> set m" "page_ok pg m (S(i := insert (a, k) (S i)))"
    using page_alloc_loop_ok [OF p F(2) subset_refl] run assms(3) F(3) by auto
  show ?thesis using page_size_ok [OF i(2,1), of a k] by auto
qed

lemma heap_page:
  assumes "boot_heap_ok od R h" "page_alloc (bm_pages (cstore (bh_pool h))) = Some (a, P)" "a \<noteq> 0"
  obtains n where "page_map_get_chunk_size a P = Some n" "boot_heap_ok od (insert (a, n) R) (heap_pages P h)"
proof -
  obtain B where B: "boot_reach od (bh_pool h) B R"
    "\<And>a m. bh_live h a = Some m \<Longrightarrow> a AND 0xff \<noteq> 0 \<and> 0 < m \<and> (\<exists>n. (a, n) \<in> B \<and> m \<le> unat n)" using assms(1) by (auto simp: boot_heap_ok_def)
  obtain n where n: "page_map_get_chunk_size a P = Some n" using page_taken [OF B(1) assms(2,3)] by blast
  have "boot_heap_ok od (insert (a, n) R) (heap_pages P h)" unfolding boot_heap_ok_def
    using boot_reach.page_alloc [OF B(1) assms(2,3) n] B(2) by (intro exI [of _ B]) (simp add: heap_pages_def upd_pages_def)
  then show ?thesis using n that by blast
qed

lemma heap_page_apart:
  assumes "boot_heap_ok od R h" "bh_live h a = Some m" "(page, n) \<in> R"
  shows "unat a + m \<le> unat page \<or> unat page + unat n \<le> unat a"
proof -
  obtain B k where B: "boot_reach od (bh_pool h) B R" "(a, k) \<in> B" "m \<le> unat k" using assms(1,2) by (auto simp: boot_heap_ok_def) blast
  have "apart_from (a, k) (page, n)" using boot.holds_apart(2) [OF boot_reach_holds [OF B(1)] B(2) assms(3)] .
  then show ?thesis using B(3) by (auto simp: apart_from_def)
qed

lemma mmu_ok_heap:
  assumes "mmu_ok ok lv M" "blocks_disjoint (lv (tbl_heap M))" "ok' h" "lv' h = lv (tbl_heap M)"
  shows "mmu_ok ok' lv' (M\<lparr>tbl_heap := h\<rparr>)"
proof -
  obtain T where T: "tbl_tree_ok (lv (tbl_heap M)) T M" using assms(1) by (auto simp: mmu_ok_def good_state_def)
  have "tbl_tree_ok (lv (tbl_heap M)) T (M\<lparr>tbl_heap := h\<rparr>)" by (rule tree_ok_same(1) [OF assms(2) T]) (simp_all add: same_ctxs_def)
  then show ?thesis using assms(3,4) by (auto simp: mmu_ok_def good_state_def)
qed

lemma walk_heap [simp]: "mmu_walk d x (M\<lparr>tbl_heap := h\<rparr>) = mmu_walk d x M" "mmu_phys d x (M\<lparr>tbl_heap := h\<rparr>) = mmu_phys d x M"
proof -
  have "rd a (M\<lparr>tbl_heap := h\<rparr>) = rd a M" "mmu_ctp (M\<lparr>tbl_heap := h\<rparr>) = mmu_ctp M" for a by (simp_all add: rd_def)
  then show "mmu_walk d x (M\<lparr>tbl_heap := h\<rparr>) = mmu_walk d x M" by (simp only: mmu_walk_def)
  then show "mmu_phys d x (M\<lparr>tbl_heap := h\<rparr>) = mmu_phys d x M" by (simp add: mmu_phys_def)
qed

text \<open>The mapping of one page that is not mapped yet.\<close>

lemma one_page:
  assumes "good_alloc ok lv A" "mmu_ok ok lv M" "unat n < length (ctx_free M)" "perm AND NOT 0xfc = 0" "mmu_walk (unat n) va M = None"
  obtains r M' where "srmmu_do_small_mapping A n va page perm M = Some (r, M')" "mmu_ok ok lv M'" "same_ctxs M M'" "pages_freed M' = pages_freed M"
    "r = 0 \<or> r = - ENOMEM" "can_alloc A 2 (tbl_heap M) \<longrightarrow> r = 0"
    "\<forall>d < length (ctx_free M). \<forall>x. mmu_phys d x M' =
       (if r = 0 \<and> d = unat n \<and> drop_bit 12 x = drop_bit 12 va then Some ((page AND NOT (mask 12)) OR (x AND mask 12)) else mmu_phys d x M)"
    "r = 0 \<longrightarrow> srmmu_get_pa_page n va M' = Some (page AND NOT (mask 12))"
proof -
  obtain T where T: "good_state ok lv T M" using assms(2) by (auto simp: mmu_ok_def)
  define p where p: "p = unat va div 4096"
  have pi: "p div 4096 < 256" using page_of(4) [of va] by (simp add: p div_less_iff_less_mult)
  have z: "vp T M (unat n) p = 0" "big T M (unat n) (p div 4096) = 0"
    using assms(5) walk_vp [OF T assms(3), of va] by (simp_all add: p split: if_splits)
  obtain r T' M' where s: "srmmu_do_small_mapping A n va page perm M = Some (r, M')" "good_state ok lv T' M'"
    "same_ctxs M M'" "pages_freed M' = pages_freed M" "if big T M (unat n) (p div 4096) \<noteq> 0 then r = - EINVAL else r = - ENOMEM \<or> r = 0"
    "uses_tbls A 2 (tbl_heap M) r (tbl_heap M')" "\<forall>c i. i < 256 \<longrightarrow> big T' M' c i = big T M c i"
    "\<forall>c q. vp T' M' c q = (if r = 0 \<and> c = unat n \<and> q = p then SRMMU_PTE page perm else vp T M c q)"
    by (rule small_page [OF assms(1) T assms(3,4) p [symmetric] z(1)])
  have len: "length (ctx_free M') = length (ctx_free M)" using s(3) by (simp add: same_ctxs_def)
  have ca: "r = 0" if "can_alloc A 2 (tbl_heap M)"
  proof -
    have "r \<noteq> - ENOMEM" using s(6) that unfolding uses_tbls_def by (metis add_0_right)
    then show "r = 0" using s(5) z(2) by simp
  qed
  have e: "SRMMU_PTE page perm \<noteq> 0" "SRMMU_PTE_TO_ADDR (SRMMU_PTE page perm) = page AND NOT (mask 12)"
    using pte_type [OF assms(4), of page] by simp_all
  have ph: "mmu_phys d x M' = (if r = 0 \<and> d = unat n \<and> drop_bit 12 x = drop_bit 12 va then Some ((page AND NOT (mask 12)) OR (x AND mask 12))
      else mmu_phys d x M)" if d: "d < length (ctx_free M)" for d x
  proof -
    let ?q = "unat x div 4096"
    have qi: "?q div 4096 < 256" using page_of(4) [of x] by (simp add: div_less_iff_less_mult)
    have i: "drop_bit 12 x = drop_bit 12 va \<longleftrightarrow> ?q = p"
      using page_index [of x va] page_of [of x] page_of [of va] page_eq [of ?q p] by (simp add: p)
    have dM: "d < length (ctx_free M')" using d len by simp
    have b: "big T' M' d (?q div 4096) = big T M d (?q div 4096)" using s(7) qi by blast
    have v: "vp T' M' d ?q = (if r = 0 \<and> d = unat n \<and> ?q = p then SRMMU_PTE page perm else vp T M d ?q)" using s(8) by blast
    show ?thesis
    proof (cases "r = 0 \<and> d = unat n \<and> ?q = p")
      case True
      then have "mmu_walk d x M' = Some (3, SRMMU_PTE page perm)" using b v e(1) z(2) walk_vp [OF s(2) dM, of x] by simp
      then show ?thesis using True i e(2) by (simp add: mmu_phys_def and.assoc)
    next
      case False
      have "mmu_walk d x M' = mmu_walk d x M" unfolding walk_vp [OF s(2) dM] walk_vp [OF T d] b v if_not_P [OF False] by (rule refl)
      then show ?thesis using False i by (auto simp: mmu_phys_def)
    qed
  qed
  have "srmmu_get_pa_page n va M' = Some (page AND NOT (mask 12))" if "r = 0"
    using get_pa_page [OF s(2), of n va] s(8) that assms(3) len e(2) by (simp add: p)
  then show ?thesis using that [OF s(1) _ s(3,4)] s(2,5) z(2) ca ph by (auto simp: mmu_ok_def)
qed

text \<open>C24: a fault below the program break takes a page of physical memory from the page map, to which the addresses of
  the page of the fault translate afterwards, and changes no other translation; the page does not overlap the memory of any table, and the
  tables and boot memory stay consistent.  If there is no memory for the tables (boot memory stops the machine then), the
  translation stays as it was; this does not occur as long as boot memory has two blocks.  None of the
  blocks that the call may get is to begin at a multiple of 256.\<close>

theorem mm_mmu_trap_maps:
  assumes "boot_mmu_ok od R (tables S)" "unat (mmu_cur S) < length (ctx_free (tables S))"
    "unat (mmu_cur S) < length (mm_proc_mem S)" "addr \<noteq> 0" "brk_lo (mm_proc_mem S ! unat (mmu_cur S)) \<le> addr"
    "addr < brk_cur (mm_proc_mem S ! unat (mmu_cur S))" "addr \<le> HIGHMEM_START" "page_alloc (pgs S) = Some (page, P)" "page \<noteq> 0"
    "mmu_walk (unat (mmu_cur S)) addr (tables S) = None"
    "no_aligned (boot_tables od) [0x200, 0x200] (tbl_heap (tables (set_pgs P S)))"
  shows "\<exists>M n mapped. mm_mmu_trap od FT_INVALID_ADDR True addr S = Some (S\<lparr>tables := M\<rparr>)
     \<and> page_map_get_chunk_size page P = Some n \<and> boot_mmu_ok od (insert (page, n) R) M
     \<and> (\<forall>a m. bh_live (tbl_heap M) a = Some m \<longrightarrow> unat a + m \<le> unat page \<or> unat page + unat n \<le> unat a)
     \<and> (can_alloc (boot_tables od) 2 (tbl_heap (tables (set_pgs P S))) \<longrightarrow> mapped) \<and> pages_freed M = pages_freed (tables S)
     \<and> (\<forall>d < length (ctx_free (tables S)). \<forall>x. mmu_phys d x M =
          (if mapped \<and> d = unat (mmu_cur S) \<and> drop_bit 12 x = drop_bit 12 addr then Some ((page AND NOT (mask 12)) OR (x AND mask 12))
           else mmu_phys d x (tables S)))
     \<and> (mapped \<longrightarrow> mm_get_physical_addr addr (S\<lparr>tables := M\<rparr>) = Some ((page AND NOT (mask 12)) OR (addr AND mask 12)))"
proof -
  let ?n = "mmu_cur S" and ?A = "boot_tables od" and ?h = "heap_pages P (tbl_heap (tables S))"
  let ?M = "(tables S)\<lparr>tbl_heap := ?h\<rparr>"
  have ok: "boot_heap_ok od R (tbl_heap (tables S))" using assms(1) by (auto simp: mmu_ok_def good_state_def)
  obtain n where n: "page_map_get_chunk_size page P = Some n" "boot_heap_ok od (insert (page, n) R) ?h"
    by (rule heap_page [OF ok _ assms(9)]) (use assms(8) in \<open>simp add: pgs_def\<close>)
  have M: "boot_mmu_ok od (insert (page, n) R) ?M"
    by (rule mmu_ok_heap [where lv = bh_live and lv' = bh_live, OF assms(1) heap_disjoint [OF ok], of "boot_heap_ok od (insert (page, n) R)", OF n(2)])
      (simp add: heap_pages_def)
  have len: "unat ?n < length (ctx_free ?M)" and w: "mmu_walk (unat ?n) addr ?M = None" using assms(2,10) by simp_all
  have t: "tables (set_pgs P S) = ?M" by (simp add: set_pgs_def)
  have c: "no_aligned ?A (replicate 2 0x200) (tbl_heap ?M)" using assms(11) by (simp add: t numeral_2_eq_2)
  obtain r M' where s: "srmmu_do_small_mapping (refusing ?A) ?n addr page (SRMMU_CACHEABLE OR SRMMU_ACC_S_RWX_2) ?M = Some (r, M')"
    "boot_mmu_ok od (insert (page, n) R) M'" "same_ctxs ?M M'" "pages_freed M' = pages_freed ?M"
    "r = 0 \<or> r = - ENOMEM" "can_alloc (refusing ?A) 2 (tbl_heap ?M) \<longrightarrow> r = 0"
    "\<forall>d < length (ctx_free ?M). \<forall>x. mmu_phys d x M' =
       (if r = 0 \<and> d = unat ?n \<and> drop_bit 12 x = drop_bit 12 addr then Some ((page AND NOT (mask 12)) OR (x AND mask 12)) else mmu_phys d x ?M)"
    "r = 0 \<longrightarrow> srmmu_get_pa_page ?n addr M' = Some (page AND NOT (mask 12))"
    by (rule one_page [where page = page, OF boot_good M len trap_perm w])
  have "srmmu_do_small_mapping ?A ?n addr page (SRMMU_CACHEABLE OR SRMMU_ACC_S_RWX_2) ?M = Some (r, M')"
    using s(1) small_refusing(1) [of ?A 0 ?M] c by (simp add: numeral_2_eq_2)
  then have R: "mm_mmu_trap od FT_INVALID_ADDR True addr S = Some (S\<lparr>tables := M'\<rparr>)"
    using assms(3-9) by (simp add: mm_mmu_trap_def mm_get_mmu_ctx_def Let_def not_less set_pgs_def)
  have m12: "(0xfff :: u32) = mask 12" by (simp add: mask_eq_exp_minus_1)
  have "mm_get_physical_addr addr (S\<lparr>tables := M'\<rparr>) = Some ((page AND NOT (mask 12)) OR (addr AND mask 12))" if "r = 0"
    using s(8) that unfolding m12 [symmetric] by (simp add: mm_get_physical_addr_def mm_get_mmu_ctx_def)
  moreover have "unat a + m \<le> unat page \<or> unat page + unat n \<le> unat a" if "bh_live (tbl_heap M') a = Some m" for a m
    by (rule heap_page_apart [of od "insert (page, n) R" "tbl_heap M'"]) (use s(2) that in \<open>auto simp: mmu_ok_def good_state_def\<close>)
  ultimately show ?thesis using R n(1) s(2,4,6,7) refusing_can_alloc [OF c]
    by (intro exI [of _ M'] exI [of _ n] exI [of _ "r = 0"]) (simp add: t)
qed

end
