(* ===== verification/Mmu_Spec.thy ===== *)
theory Mmu_Spec
  imports Mmu
begin

text \<open>
  The start of the memory management, and the program break: it is the one that the kernel heap is built on.
\<close>

section \<open>A system\<close>

lemma small_page_run:
  "case small_boot of None \<Rightarrow> False | Some P \<Rightarrow>
     (case bootmem_allocs [16, 0x800, 32, 0x800] P of None \<Rightarrow> False | Some rQ \<Rightarrow>
       (case page_alloc (bm_pages (cstore (snd rQ))) of None \<Rightarrow> False | Some aP \<Rightarrow> fst aP = demo_base + 0x3000
         \<and> (case bootmem_allocs [0x200, 0x200] (upd_pages (\<lambda>_. snd aP) (snd rQ)) of None \<Rightarrow> False | Some sS \<Rightarrow> list_all (\<lambda>a. a AND 0xff \<noteq> 0) (fst sS))))"
  unfolding small_boot_eq by code_simp

lemma boot_run_clear:
  assumes "bootmem_allocs (replicate k 0x200) (bh_pool h) = Some (rs, Q)" "list_all (\<lambda>a. a AND 0xff \<noteq> 0) rs"
  shows "no_aligned (boot_tables True) (replicate k 0x200) h" "can_alloc (boot_tables True) k h"
proof -
  have "0 \<notin> set rs" using assms(2) by (auto simp: list_all_iff)
  from run_boot [OF assms(1) this] obtain h' where "run_requests (boot_tables True) (replicate k 0x200) h = (rs, h')" by blast
  then show "no_aligned (boot_tables True) (replicate k 0x200) h" "can_alloc (boot_tables True) k h"
    using assms(2) \<open>0 \<notin> set rs\<close> run_can_alloc [of "boot_tables True" k h] by (auto simp: no_aligned_def list_all_iff)
qed

text \<open>The small machine after its start, with a break of two pages.\<close>

lemma trap_state:
  obtains S k P where "boot_mmu_ok True {(demo_base, 2 ^ k)} (tables S)" "length (ctx_free (tables S)) = 1" "\<forall>x. mmu_walk 0 x (tables S) = None"
    "mm_proc_mem S = [\<lparr>brk_cur = 0x01002000, brk_lo = 0x01000000, brk_hi = 0x1fffffff\<rparr>]" "mmu_cur S = 0"
    "page_alloc (pgs S) = Some (demo_base + 0x3000, P)"
    "no_aligned (boot_tables True) [0x200, 0x200] (tbl_heap (tables (set_pgs P S)))" "can_alloc (boot_tables True) 2 (tbl_heap (tables (set_pgs P S)))"
proof -
  obtain B rs Q k M where M: "small_boot = Some B" "bootmem_allocs [16, 0x800, 32, 0x800] B = Some (rs, Q)" "bh_pool (tbl_heap M) = Q"
    "boot_mmu_ok True {(demo_base, 2 ^ k)} M" "length (ctx_free M) = 1" "\<forall>x. mmu_walk 0 x M = None" by (rule boot_start) blast
  have r: "case page_alloc (bm_pages (cstore Q)) of None \<Rightarrow> False | Some aP \<Rightarrow> fst aP = demo_base + 0x3000
         \<and> (case bootmem_allocs [0x200, 0x200] (upd_pages (\<lambda>_. snd aP) Q) of None \<Rightarrow> False | Some sS \<Rightarrow> list_all (\<lambda>a. a AND 0xff \<noteq> 0) (fst sS))"
    using small_page_run unfolding M(1,2) option.case snd_conv .
  obtain P where P: "page_alloc (bm_pages (cstore Q)) = Some (demo_base + 0x3000, P)"
    "case bootmem_allocs [0x200, 0x200] (upd_pages (\<lambda>_. P) Q) of None \<Rightarrow> False | Some sS \<Rightarrow> list_all (\<lambda>a. a AND 0xff \<noteq> 0) (fst sS)"
    using case_option_ex [OF r] by auto
  obtain ss U where U: "bootmem_allocs [0x200, 0x200] (upd_pages (\<lambda>_. P) Q) = Some (ss, U)" "list_all (\<lambda>a. a AND 0xff \<noteq> 0) ss"
    using case_option_ex [OF P(2)] by auto
  define S where "S = \<lparr>tables = M, mm_proc_mem = [\<lparr>brk_cur = 0x01002000, brk_lo = 0x01000000, brk_hi = 0x1fffffff\<rparr>], mmu_cur = 0\<rparr>"
  have h: "bh_pool (tbl_heap (tables (set_pgs P S))) = upd_pages (\<lambda>_. P) Q" by (simp add: S_def set_pgs_def heap_pages_def M(3))
  have "bootmem_allocs (replicate 2 0x200) (bh_pool (tbl_heap (tables (set_pgs P S)))) = Some (ss, U)" using U(1) by (simp add: h numeral_2_eq_2)
  note c = boot_run_clear [OF this U(2)]
  show ?thesis by (rule that [of k S P]) (use M P(1) c in \<open>simp_all add: S_def pgs_def numeral_2_eq_2\<close>)
qed

theorem mm_mmu_trap_maps_witness:
  "\<exists>S S'. mm_mmu_trap True FT_INVALID_ADDR True 0x01001234 S = Some S' \<and> mmu_phys 0 0x01001234 (tables S) = None
     \<and> mmu_phys 0 0x01001234 (tables S') = Some (demo_base + 0x3234) \<and> mmu_phys 0 0x01002000 (tables S') = None"
proof -
  obtain S k P where S: "boot_mmu_ok True {(demo_base, 2 ^ k)} (tables S)" "length (ctx_free (tables S)) = 1" "\<forall>x. mmu_walk 0 x (tables S) = None"
    "mm_proc_mem S = [\<lparr>brk_cur = 0x01002000, brk_lo = 0x01000000, brk_hi = 0x1fffffff\<rparr>]" "mmu_cur S = 0"
    "page_alloc (pgs S) = Some (demo_base + 0x3000, P)"
    "no_aligned (boot_tables True) [0x200, 0x200] (tbl_heap (tables (set_pgs P S)))" "can_alloc (boot_tables True) 2 (tbl_heap (tables (set_pgs P S)))"
    by (rule trap_state)
  have h: "unat (mmu_cur S) < length (ctx_free (tables S))" "unat (mmu_cur S) < length (mm_proc_mem S)"
    "(0x01001234 :: u32) \<noteq> 0" "brk_lo (mm_proc_mem S ! unat (mmu_cur S)) \<le> 0x01001234" "0x01001234 < brk_cur (mm_proc_mem S ! unat (mmu_cur S))"
    "(0x01001234 :: u32) \<le> HIGHMEM_START" "demo_base + 0x3000 \<noteq> 0" "mmu_walk (unat (mmu_cur S)) 0x01001234 (tables S) = None"
    using S(2-5) by (simp_all add: word_le_nat_alt word_less_nat_alt)
  obtain M mapped where t: "mm_mmu_trap True FT_INVALID_ADDR True 0x01001234 S = Some (S\<lparr>tables := M\<rparr>)"
    "can_alloc (boot_tables True) 2 (tbl_heap (tables (set_pgs P S))) \<longrightarrow> mapped"
    "\<forall>d < length (ctx_free (tables S)). \<forall>x. mmu_phys d x M = (if mapped \<and> d = unat (mmu_cur S) \<and> drop_bit 12 x = drop_bit 12 (0x01001234 :: u32)
       then Some (((demo_base + 0x3000) AND NOT (mask 12)) OR (x AND mask 12)) else mmu_phys d x (tables S))"
    using mm_mmu_trap_maps [OF S(1) h(1-6) S(6) h(7,8) S(7)] by (elim exE conjE) (rule that)
  have m: "mapped" using t(2) S(8) by blast
  have ph: "mmu_phys 0 x (tables S) = None" for x using S(3) by (simp add: mmu_phys_def)
  have x: "mmu_phys 0 x M = (if drop_bit 12 x = drop_bit 12 (0x01001234 :: u32) then Some (((demo_base + 0x3000) AND NOT (mask 12)) OR (x AND mask 12)) else None)" for x
    using t(3) m S(2,5) ph by simp
  have "mmu_phys 0 0x01001234 M = Some (demo_base + 0x3234)" "mmu_phys 0 0x01002000 M = None"
    unfolding x by (simp_all add: mask_eq_exp_minus_1)
  then show ?thesis using t(1) ph by (intro exI [of _ S] exI [of _ "S\<lparr>tables := M\<rparr>"]) simp
qed

section \<open>Start\<close>

lemma phys_identity:
  assumes "perm AND NOT 0xfc = 0" "32 \<le> ix1 x"
  shows "(SRMMU_PTE_TO_ADDR (SRMMU_PTE (HIGHMEM_START + word_of_nat (2 ^ 24 * (ix1 x - 32))) perm) AND NOT (mask 24)) OR (x AND mask 24) = x"
proof -
  have u: "unat (x AND NOT (mask 24)) = 2 ^ 24 * ix1 x" by (simp add: unat_floor ix1_def)
  have "HIGHMEM_START + word_of_nat (2 ^ 24 * (ix1 x - 32)) = (word_of_nat (2 ^ 24 * 32 + 2 ^ 24 * (ix1 x - 32)) :: u32)" by simp
  also have "2 ^ 24 * 32 + 2 ^ 24 * (ix1 x - 32) = 2 ^ 24 * ix1 x" using assms(2) by (simp add: algebra_simps)
  also have "word_of_nat (2 ^ 24 * ix1 x) = x AND NOT (mask 24)" unfolding u [symmetric] by simp
  finally have a: "HIGHMEM_START + word_of_nat (2 ^ 24 * (ix1 x - 32)) = x AND NOT (mask 24)" .
  show ?thesis unfolding a pte_type(3) [OF assms(1)] by (rule bit_word_eqI) (auto simp: bit_simps)
qed

lemma high_page: "32 \<le> unat x div 2 ^ 24 \<longleftrightarrow> HIGHMEM_START \<le> x" for x :: u32
  by (simp add: word_le_nat_alt less_eq_div_iff_mult_less_eq)

text \<open>C26: the start, with the tables in boot memory, maps the memory from \<^verbatim>\<open>HIGHMEM_START\<close> on to itself and nothing else, selects
  context 0 and puts its program break at the start of the virtual memory, unless there was no memory for the tables of the
  first context (boot memory stops the machine then).  None of the three blocks is to begin at a multiple of 256.\<close>

theorem mm_init_leon_ok:
  assumes "boot_heap_ok od R (tbl_heap (tables S))" "no_aligned (boot_tables od) init_requests (tbl_heap (tables S))"
    "mmu_num_ctp (tables S) = 0" "length (mm_proc_mem S) = SRMMU_CONTEXTS" "brk_cur (mm_proc_mem S ! 0) = 0"
  shows "\<exists>S'. mm_init_leon od S = Some S' \<and>
     ((\<exists>M. srmmu_init (boot_tables od) (tables S) = Some (- ENOMEM, M))
      \<or> boot_mmu_ok od R (tables S') \<and> length (ctx_free (tables S')) = 1 \<and> mmu_cur S' = 0
        \<and> mm_proc_mem S' ! 0 = \<lparr>brk_cur = VMALLOC_START, brk_lo = VMALLOC_START, brk_hi = VMALLOC_END\<rparr>
        \<and> (\<forall>x. mmu_phys 0 x (tables S') = (if HIGHMEM_START \<le> x then Some x else None)))"
proof -
  note ir = init_refusing [OF assms(2)]
  obtain r M0 where i: "srmmu_init (boot_tables od) (tables S) = Some (r, M0)" "r = - ENOMEM \<or> r = 0 \<and> boot_mmu_ok od R M0 \<and> length (ctx_free M0) = 1
     \<and> (\<forall>x. mmu_walk 0 x M0 = None) \<and> mmu_ctx_reg M0 = 0" 
    by (rule init_spec [OF boot_good [of od R] assms(1,3), unfolded ir])
  obtain q M1 where l: "srmmu_do_large_mapping_range 0 HIGHMEM_START HIGHMEM_START LARGE_PAGES_HIGHMEM (SRMMU_CACHEABLE OR SRMMU_ACC_S_RWX_2) M0 = (q, M1)"
    by fastforce
  have l': "srmmu_do_large_mapping_range 0 0x20000000 0x20000000 224 0x9c M0 = (q, M1)" using l by simp
  note d = mm_init_leon_def i(1) l' Let_def
  show ?thesis
  proof (cases "r = - ENOMEM")
    case True
    have "mm_set_mmu_ctx 0 T \<noteq> None" if "length (mm_proc_mem T) = 256" for T :: mm_sys
      using that by (auto simp: mm_set_mmu_ctx_def Let_def split: prod.split)
    then have "mm_set_mmu_ctx 0 (S\<lparr>tables := M1\<rparr>) \<noteq> None" using assms(4) by simp
    then obtain a b where "mm_set_mmu_ctx 0 (S\<lparr>tables := M1\<rparr>) = Some (a, b)" by auto
    then have "mm_init_leon od S = Some b" by (simp add: d)
    then show ?thesis using True i(1) by blast
  next
    case False
    then have M0: "boot_mmu_ok od R M0" "length (ctx_free M0) = 1" "\<forall>x. mmu_walk 0 x M0 = None" using i(2) by simp_all
    have h: "unat (0 :: u32) < length (ctx_free M0)" "ix1 HIGHMEM_START + 224 \<le> 256" using M0(2) by (simp_all add: ix1_def)
    obtain M1' where m: "large_range 224 0 HIGHMEM_START HIGHMEM_START (SRMMU_CACHEABLE OR SRMMU_ACC_S_RWX_2) M0 = (0, M1')"
      "large_ok (boot_heap_ok od R) bh_live (unat (0 :: u32)) HIGHMEM_START HIGHMEM_START 224 (SRMMU_CACHEABLE OR SRMMU_ACC_S_RWX_2) M0 M1'"
      using large_range_spec [OF boot_good M0(1) h(1) trap_perm h(2)] by blast
    have "M1' = M1" using l m(1) by (simp add: srmmu_do_large_mapping_range_def split: if_splits)
    note m = m [unfolded this]
    obtain T where T: "good_state (boot_heap_ok od R) bh_live T M1" using m(2) by (auto simp: large_ok_def mmu_ok_def)
    have n1: "unat (0 :: u32) < length (ctx_free M1)" "length (ctx_free M1) = 1" using m(2) M0(2) by (simp_all add: large_ok_def same_ctxs_def)
    obtain M2 where M2: "srmmu_select_ctx 0 M1 = (0, M2)" "good_state (boot_heap_ok od R) bh_live T M2" "ctx_free M2 = ctx_free M1" "\<forall>d x. mmu_walk d x M2 = mmu_walk d x M1"
      using select_ok [OF boot_good T n1(1), of "mmu_ctx_cur M1"] by auto
    define S' where "S' = S\<lparr>tables := M2, mm_proc_mem := (mm_proc_mem S)[0 := \<lparr>brk_cur = VMALLOC_START, brk_lo = VMALLOC_START, brk_hi = VMALLOC_END\<rparr>], mmu_cur := 0\<rparr>"
    have R: "mm_init_leon od S = Some S'" using M2(1) assms(4,5) by (simp add: d mm_set_mmu_ctx_def S'_def)
    have "mmu_phys 0 x M2 = (if HIGHMEM_START \<le> x then Some x else None)" for x
    proof -
      have w: "mmu_walk 0 x M2 = (if 32 \<le> ix1 x \<and> ix1 x < 256 then Some (1, SRMMU_PTE (HIGHMEM_START + word_of_nat (2 ^ 24 * (ix1 x - 32))) (SRMMU_CACHEABLE OR SRMMU_ACC_S_RWX_2)) else None)"
        using m(2) M2(4) M0(2,3) unfolding large_ok_def by (simp add: ix1_def)
      have i: "32 \<le> ix1 x \<longleftrightarrow> HIGHMEM_START \<le> x" using high_page [of x] by (simp add: ix1_def)
      show ?thesis
      proof (cases "32 \<le> ix1 x")
        case True
        then have "mmu_walk 0 x M2 = Some (1, SRMMU_PTE (HIGHMEM_START + word_of_nat (2 ^ 24 * (ix1 x - 32))) (SRMMU_CACHEABLE OR SRMMU_ACC_S_RWX_2))"
          using w ix1_page(2) [of x] by simp
        then show ?thesis using True i phys_identity [OF trap_perm True] unfolding mmu_phys_def by (simp only: option.map split_conv page_bits.simps) simp
      qed (use w i in \<open>simp add: mmu_phys_def\<close>)
    qed
    then show ?thesis using R M2(2,3) n1(2) assms(4) by (intro exI [of _ S']) (auto simp: S'_def mmu_ok_def)
  qed
qed

theorem mm_init_leon_ok_witness:
  "\<exists>S S'. mm_init_leon True S = Some S' \<and> mmu_phys 0 0x40001234 (tables S') = Some 0x40001234 \<and> mmu_phys 0 0x01000000 (tables S') = None"
proof -
  obtain k h M where h: "boot_heap_ok True {(demo_base, 2 ^ k)} h" "no_aligned (boot_tables True) init_requests h"
    "srmmu_init (boot_tables True) (start_mmu h) = Some (0, M)" by (rule boot_start)
  define S where "S = \<lparr>tables = start_mmu h, mm_proc_mem = replicate 256 \<lparr>brk_cur = 0, brk_lo = 0, brk_hi = 0\<rparr>, mmu_cur = 0\<rparr>"
  have s: "boot_heap_ok True {(demo_base, 2 ^ k)} (tbl_heap (tables S))" "no_aligned (boot_tables True) init_requests (tbl_heap (tables S))"
    "mmu_num_ctp (tables S) = 0" "length (mm_proc_mem S) = SRMMU_CONTEXTS" "brk_cur (mm_proc_mem S ! 0) = 0"
    using h(1,2) by (simp_all add: S_def start_mmu_def)
  have "\<nexists>M. srmmu_init (boot_tables True) (tables S) = Some (- ENOMEM, M)" using h(3) by (simp add: S_def)
  then obtain S' where "mm_init_leon True S = Some S'" "\<forall>x. mmu_phys 0 x (tables S') = (if HIGHMEM_START \<le> x then Some x else None)"
    using mm_init_leon_ok [OF s] by blast
  then show ?thesis by (intro exI [of _ S] exI [of _ S']) simp
qed

section \<open>The program break\<close>

text \<open>The break of the heap model is the one of the code: as long as the pages of the memory manager take at most half of the
  address space, moving the break never releases pages.\<close>

theorem mm_kernel_sbrk_heap:
  assumes "unat (mmu_cur S) < length (mm_proc_mem S)" "mm_proc_mem S ! unat (mmu_cur S) = \<lparr>brk_cur = sbrk st, brk_lo = addr_lo st, brk_hi = addr_hi st\<rparr>"
    "pstat (pgs S) = kstat st" "unat (mm_free_bytes (kstat st)) < 2 ^ 31"
  shows "mm_kernel_sbrk od inc S = Some (fst (kernel_sbrk inc st),
     S\<lparr>mm_proc_mem := (mm_proc_mem S)[unat (mmu_cur S) := \<lparr>brk_cur = sbrk (snd (kernel_sbrk inc st)), brk_lo = addr_lo st, brk_hi = addr_hi st\<rparr>]\<rparr>)"
proof -
  have same: "(mm_proc_mem S)[unat (mmu_cur S) := \<lparr>brk_cur = sbrk st, brk_lo = addr_lo st, brk_hi = addr_hi st\<rparr>] = mm_proc_mem S"
    using assms(1,2) by (metis list_update_id)
  have n: "\<not> sint (align_up inc 8) < 0" if "\<not> align_up inc 8 > mm_free_bytes (kstat st)"
  proof -
    have "unat (align_up inc 8) < 2 ^ 31" using that assms(4) by (simp add: not_less word_le_nat_alt)
    then show ?thesis using sint_unat [of "align_up inc 8"] by simp
  qed
  show ?thesis using assms n same by (auto simp: mm_kernel_sbrk_def kernel_sbrk_def mm_get_mmu_ctx_def Let_def)
qed

end
