(* ===== verification/Spec2Isabelle.thy ===== *)
theory Spec2Isabelle
  imports List_Refine Vsn_Spec Memscrub_Spec Irq_Order Sysctl_Spec Clock_Spec Proc_Spec Mmu_Spec
begin

text \<open>
  FlightOS is a real time operating system kernel for the space processors LEON3 and LEON4 (32 bit SPARC) and the
  DSPs beside them.  This development models the lists all of it is built on, its memory managers, its
  time arithmetic, its schedulers and timers, the management of interrupts, the data processing network, the tree of control
  objects, the memory scrubber and the library functions for memory, strings and formatted output.

  \<^bold>\<open>The parts and how they interact.\<close>  At boot the physical memory banks are handed to the page map
  (\<^verbatim>\<open>lib/page.c\<close>), which keeps one buddy system pool (\<^verbatim>\<open>lib/mm.c\<close>) per bank and searches
  them in turn.  The boot memory allocator (\<^verbatim>\<open>arch/sparc/kernel/bootmem.c\<close>) does that; it then cuts blocks of
  the page map into chunks (\<^verbatim>\<open>lib/chunk.c\<close>), which hold the nodes of further banks and the tables of the
  memory management unit.  The kernel heap (\<^verbatim>\<open>kernel/kmem.c\<close>) grows by moving the system break
  (\<^verbatim>\<open>kernel_sbrk\<close> in \<^verbatim>\<open>arch/sparc/kernel/mmu.c\<close>) and serves \<^verbatim>\<open>kmalloc\<close> to everything above, such
  as \<^verbatim>\<open>strdup\<close>.  The virtual memory below the break gets its physical pages from the page map when it is first accessed:
  the handler of the fault (\<^verbatim>\<open>mm_mmu_trap\<close>) enters a page in the tables of \<^verbatim>\<open>arch/sparc/mm/srmmu.c\<close>.  The core scheduler (\<^verbatim>\<open>kernel/sched/core.c\<close>) asks its scheduling classes, EDF
  (\<^verbatim>\<open>kernel/sched/edf.c\<close>) and round robin (\<^verbatim>\<open>kernel/sched/rr.c\<close>), in the order of their priority for a task and
  sets the timer (\<^verbatim>\<open>kernel/tick.c\<close>) to the end of its slice; interrupts reach the handlers of the drivers through
  \<^verbatim>\<open>kernel/irq.c\<close>; threads (\<^verbatim>\<open>kernel/kthread.c\<close>) enter it through wake up.  The processing
  network (\<^verbatim>\<open>lib/data_proc_net.c\<close>) moves tasks (\<^verbatim>\<open>lib/data_proc_task.c\<close>) between trackers
  (\<^verbatim>\<open>lib/data_proc_tracker.c\<close>), each of which runs an operator on a task.  All of them keep their objects in the
  lists of \<^verbatim>\<open>include/list.h\<close>.

  \<^bold>\<open>Conventions.\<close>  A 32 bit integer or pointer is a word of type \<open>u32\<close>, a signed integer an \<open>int\<close> that is
  reduced to its width where it may overflow (\<open>s32\<close>, \<open>s64\<close>).  The state of a component is a record with the names of
  the source's fields.  An operation takes the state and returns it with its result.  The outer \<^term>\<open>None\<close> is always
  undefined or fatal behaviour of the C code: a failing \<^verbatim>\<open>BUG_ON\<close>, a null pointer that is followed, an access
  outside of what is mapped or allocated, or a loop that never ends; so a theorem that a function returns \<^term>\<open>Some\<close>
  shows that none of it happens.  Locks and the disabling of interrupts make each operation atomic and leave no trace.

  \<^item> \<open>Flight_Prelude\<close>: machine types, error numbers, shared lemmas.
  \<^item> \<open>Linked_List\<close> (\<^verbatim>\<open>include/list.h\<close>): the links as a heap of \<^verbatim>\<open>next\<close> and \<^verbatim>\<open>prev\<close> pointers; the
    locale \<open>intrusive_lists\<close> states what the clients use, and its interpretation \<open>ll\<close> that the pointer code is
    a family of disjoint lists.  \<open>List_Refine\<close> proves that every sequence of operations refines the same
    operations on Isabelle lists, which is why the schedulers and the network model their queues as lists.
  \<^item> \<open>Bit_Ops\<close> (\<^verbatim>\<open>log2.h\<close>, \<^verbatim>\<open>bitops.h\<close>, \<^verbatim>\<open>bitmap.h\<close>, \<^verbatim>\<open>kernel.h\<close>): orders, powers of two, alignment, bits.
  \<^item> \<open>Mm\<close>, \<open>Buddy_Blocks\<close>, \<open>Mm_Inv\<close>, \<open>Mm_Free\<close>, \<open>Mm_Spec\<close> (\<^verbatim>\<open>lib/mm.c\<close>): the pool with its order array, bitmap
    and free lists refines a tiling of the pool by blocks; the locale \<open>block_store\<close> is the contract of an allocator
    and \<open>mm\<close> its interpretation.  In every state that is reachable by allocations and releases the blocks in use
    are disjoint and lie in the pool, a request is refused only when no block is large enough, and the release of all
    blocks restores the whole pool.
  \<^item> \<open>Page\<close> (\<^verbatim>\<open>lib/page.c\<close>): \<open>sized_store\<close> extends the contract by the size of a block; both the pool and the
    whole page map, which is built from pools, interpret it (\<open>mm_sized\<close>, \<open>page\<close>).
  \<^item> \<open>Chunk\<close>, \<open>Chunk_Inv\<close>, \<open>Chunk_Spec\<close> (\<^verbatim>\<open>lib/chunk.c\<close>): chunks inside of chunks, with headers at the level
    of addresses.  The invariant (\<open>ck_tree\<close>) is a forest of separate chunks, whose lists, links and counters agree with it.  The
    locale \<open>chunk_source\<close> is what the allocator needs of the functions it gets its blocks from.
  \<^item> \<open>Bootmem\<close>, \<open>Bootmem_Spec\<close> (\<^verbatim>\<open>arch/sparc/kernel/bootmem.c\<close>): the allocator at boot, the search for the bank of
    the image and the entry of the other banks; \<open>boot\<close> interprets \<open>chunk_source\<close> on the page map.  All blocks in use, those of
    the page map included, are disjoint in every reachable state; a request fails only for the two reasons that
    \<open>bootmem_alloc_correct\<close> names.
  \<^item> \<open>Kmem\<close>, \<open>Kmem_Inv\<close>, \<open>Kmem_Spec\<close> (\<^verbatim>\<open>kernel/kmem.c\<close>): chunk headers and the free list at the level of
    addresses; the invariant is that the headers form a chain that covers the heap without gaps and that the free list
    holds exactly the free chunks; the locale \<open>byte_store\<close> is its contract, \<open>kmem\<close> the interpretation.
  \<^item> \<open>Srmmu\<close> and \<open>Srmmu_Inv\<close> to \<open>Srmmu_Large\<close> (\<^verbatim>\<open>arch/sparc/mm/srmmu.c\<close>, \<^verbatim>\<open>include/srmmu.h\<close>): the
    three levels of translation tables as words in memory, with the hidden words that tell where the block of a table
    begins and count its entries.  The invariant (\<open>tbl_tree_ok\<close>) is a tree of tables in separate blocks, whose entries
    agree with the tree and whose counters are right; \<open>mmu_walk\<close> and \<open>mmu_phys\<close> are the translation that the hardware
    makes with the tables.  Mapping, releasing, large pages and the initialisation are proved against this translation, and
    every loop returns: releases for ranges that end below the last 16 MiB of the address space, because the code wraps around
    above.  The allocator of the tables is a pair of functions on a state of its own; up to
    \<open>Srmmu_Large\<close> the lemmas rest on \<open>good_alloc\<close>: the blocks are disjoint, begin at multiples of 8 and never at
    multiples of 256.
  \<^item> \<open>Srmmu_Boot\<close>: the tables in the blocks of \<open>Bootmem\<close>, as the kernel sets them up.  Boot memory may return a block that
    begins at a multiple of 256, and then the code writes outside of it (\<open>boot_table_marker_outside\<close>).  Boot
    memory with such blocks refused satisfies \<open>good_alloc\<close> (\<open>boot_good\<close>), and as long as none would be handed
    out (\<open>no_aligned\<close>) the operations are the same with and without the refusal; so the properties of the tables hold for the
    real allocator under this condition, which is evaluated in the examples on a small machine.  The C code stops
    when boot memory is exhausted; here this is a null pointer, and so the error \<open>- ENOMEM\<close> of an operation.
  \<^item> \<open>Mmu\<close>, \<open>Mmu_Spec\<close> (\<^verbatim>\<open>arch/sparc/kernel/mmu.c\<close>): the tables, the page map, which boot memory
    shares, and the breaks together: the start, the handling of a fault, and the break, which is the one that \<open>Kmem\<close> uses.
    Pages that are unmapped when the break moves down go to the page map after the release of the tables.
  \<^item> \<open>Ktime\<close> (\<^verbatim>\<open>kernel/time.c\<close>): signed 64 bit nanoseconds and their conversions.
  \<^item> \<open>Sched_Base\<close>, \<open>Edf\<close>, \<open>Edf_Inv\<close>, \<open>Edf_Spec\<close>, \<open>Rr\<close>, \<open>Sched_Core\<close>: the tasks, their queues, the two
    scheduling classes and the core.  The locale \<open>sched_class\<close> is what the core expects of a class, interpreted by
    \<open>edf_class\<close> and \<open>rr_class\<close>.  The selection ends, loses no task and obeys the deadlines; the admission test
    bounds the utilisation of a processor; the core dispatches the task it selected with a slice that ends in time.
  \<^item> \<open>Proc_Task\<close>, \<open>Proc_Net\<close>, \<open>Proc_Inv\<close>, \<open>Proc_Spec\<close>: the processing network; processing ends,
    conserves the tasks and delivers each with its steps done in order.  Operator functions are parameters; the
    hypotheses on them are named in \<open>Proc_Inv\<close>.
  \<^item> \<open>Clockevent\<close>, \<open>Clock_Spec\<close> (\<^verbatim>\<open>kernel/clockevent.c\<close>, \<^verbatim>\<open>tick.c\<close>, \<^verbatim>\<open>watchdog.c\<close>): the timer devices
    and who uses them.  In every reachable state a timer serves at most one processor or the watchdog; a programmed
    timeout that is not below the shortest is never late; with \<open>Sched_Core\<close>, the timer fires before the time of a dispatched task is used up.
  \<^item> \<open>Sysctl\<close>, \<open>Sysctl_Spec\<close> (\<^verbatim>\<open>kernel/sysctl.c\<close>): the tree of control objects with its names and paths
    as strings in memory, on the heap of \<open>Kmem\<close> and the lists of \<open>Linked_List\<close>; the search by path equals a search
    on lists of characters.
  \<^item> \<open>Memscrub\<close>, \<open>Memscrub_Spec\<close> (\<^verbatim>\<open>kernel/memscrub.c\<close>): the sections to be scrubbed, the rounds of the
    thread, and which words they read.
  \<^item> \<open>Irq\<close>, \<open>Irq_Inv\<close>, \<open>Irq_Safe\<close>, \<open>Irq_Reg\<close>, \<open>Irq_Spec\<close>, \<open>Irq_Order\<close>
    (\<^verbatim>\<open>kernel/irq.c\<close>, \<^verbatim>\<open>arch/sparc/kernel/irq.c\<close>): the lines, pools and the queue of interrupt
    handlers on the LEON3.  The invariant says which list holds which element; the locale \<open>handler_table\<close>, interpreted by
    \<open>leon\<close>, is what a driver sees of requests and releases.  Handlers are called in order, every sequence of operations
    is safe, and the dispatcher of extended interrupts cannot be held by a fast source.
  \<^item> \<open>Mem_Bytes\<close>, \<open>Kstring\<close>, \<open>Kstring_Spec\<close>, \<open>Kstring_Num\<close> (\<^verbatim>\<open>lib/string.c\<close>): the functions on bytes and
    strings of the memory.  \<open>Vsnprintf\<close>, \<open>Vsn_Spec\<close> (\<^verbatim>\<open>lib/vsnprintf.c\<close>): the format decoder and its
    output; a printed number is read back by \<^verbatim>\<open>strtol\<close>.

  \<^bold>\<open>Loops and bounds.\<close>  Loops over lists are recursion over them.  Loops that end only at a terminator or by the
  shape of the heap are partial functions into options, and their theorems state that they return.  Fuel is used for
  walks along pointers, with one unit for each node, header or block, so it cannot run out before the walk is complete; the
  theorems show that the walk ends.  Memory is a total map from 32 bit addresses to bytes.

  \<^bold>\<open>Not modelled.\<close>  Code whose effect is on the hardware: context switch, traps, flushes of caches, the
  registers of the memory management unit and of the timers, the detection of the size of the memory banks, SpaceWire, the network on chip, the Xentium DSPs and the traps of the error correction.
  Loading of modules, archives and programs.  Printing for debugging.  The build tools under
  \<^verbatim>\<open>scripts\<close>, the demonstrations under \<^verbatim>\<open>init\<close> and \<^verbatim>\<open>samples\<close>, the C library for
  applications and the unit tests.  The rendering of floating point numbers is a parameter of \<open>Vsnprintf\<close>.
\<close>

end
